(* ===== verification/Prelude.thy ===== *)
theory Prelude
  imports Main "HOL-Library.Word" "HOL-Library.Sublist"
begin

unbundle bit_operations_syntax

text \<open>
  Shared material of the development: the machine types of the C++ code, the reading of words
  as natural numbers (\<open>word_nat\<close>), decimal text (\<open>std::to_string\<close> and \<open>printf\<close>'s zero padding),
  and the contract of a self-delimiting binary encoding (\<open>prefix_codec\<close>), which the wire
  primitives and the frame formats satisfy.
\<close>

section \<open>Machine types\<close>

type_synonym byte = "8 word"
type_synonym u16 = "16 word"
type_synonym u32 = "32 word"
type_synonym u64 = "64 word"

text \<open>
  A \<open>std::string\<close> is a sequence of bytes. Text that the code inspects character by character is a
  \<^typ>\<open>string\<close> (a \<^typ>\<open>char\<close> is exactly one byte); binary data is a \<^typ>\<open>byte list\<close>. The two views
  are the \<open>reinterpret_cast\<close> of the source.
\<close>

definition bytes_of :: "string \<Rightarrow> byte list" where
  "bytes_of s = map of_char s"

definition string_of :: "byte list \<Rightarrow> string" where
  "string_of bs = map (\<lambda>b. char_of (unat b)) bs"

text \<open>The default decode limits of \<open>include/protowire/limits.h\<close> that the modelled code reads.\<close>

definition kMaxNestingDepth :: nat where
  "kMaxNestingDepth = 100"

definition kMaxMessageSize :: nat where
  "kMaxMessageSize = 64 * 2 ^ 20"

definition kMaxNumericLiteralDigits :: nat where
  "kMaxNumericLiteralDigits = 4096"

definition kMaxBigFloatExponent :: nat where
  "kMaxBigFloatExponent = 16384"

named_theorems word_nat \<open>reading a word expression as a natural number\<close>
named_theorems text_simps \<open>characters and decimal text\<close>

lemma unat_of_char: "unat (of_char c :: byte) = of_char c"
proof -
  have "(of_char c :: byte) = of_nat (of_char c)" by (simp add: of_nat_of_char)
  then show ?thesis using of_char_of [of "of_char c :: nat"] by (simp add: unat_of_nat)
qed

lemma string_of_bytes_of [simp]: "string_of (bytes_of s) = s" "length (bytes_of s) = length s"
  by (simp_all add: string_of_def bytes_of_def unat_of_char o_def)

lemma string_of_append [simp]: "string_of (a @ b) = string_of a @ string_of b"
  by (simp add: string_of_def)

section \<open>Words as natural numbers\<close>

lemmas word_nat_basic [word_nat] =
  unsigned_or_eq unsigned_and_eq unsigned_push_bit_eq unat_drop_bit_eq unsigned_ucast_eq
  drop_bit_eq_div [where ?'a = nat] take_bit_eq_mod [where ?'a = nat]
  push_bit_eq_mult [where ?'a = nat]

lemma and_mask_nat [word_nat]:
  fixes n :: nat
  shows "n AND 1 = n mod 2" "n AND 3 = n mod 4" "n AND 7 = n mod 8" "n AND 15 = n mod 16"
    "n AND 31 = n mod 32" "n AND 63 = n mod 64" "n AND 127 = n mod 128" "n AND 255 = n mod 256"
  using take_bit_eq_mask [of 1 n] take_bit_eq_mask [of 2 n] take_bit_eq_mask [of 3 n]
    take_bit_eq_mask [of 4 n] take_bit_eq_mask [of 5 n] take_bit_eq_mask [of 6 n]
    take_bit_eq_mask [of 7 n] take_bit_eq_mask [of 8 n]
  by (simp_all add: take_bit_eq_mod mask_eq_exp_minus_1)

lemma or_push_bit_nat:
  fixes x y :: nat
  assumes "x < 2 ^ k"
  shows "x OR push_bit k y = x + y * 2 ^ k"
proof -
  have "x AND push_bit k y = 0"
  proof (rule bit_eqI)
    fix n
    show "bit (x AND push_bit k y) n = bit (0::nat) n"
      using assms
      by (auto simp: bit_and_iff bit_push_bit_iff bit_nat_iff)
        (metis bit_take_bit_iff take_bit_nat_eq_self leD)
  qed
  then show ?thesis
    using disjunctive_add_eq_or [of x "push_bit k y"] by (simp add: push_bit_eq_mult)
qed

lemma or_disjoint_nat:
  fixes x y :: nat
  assumes "x < 2 ^ k"
  shows "x OR (y * 2 ^ k) = x + y * 2 ^ k" "(y * 2 ^ k) OR x = y * 2 ^ k + x"
  using or_push_bit_nat [OF assms, of y] by (simp_all add: push_bit_eq_mult or.commute add.commute)

text \<open>Setting bits above the ones in use is addition.\<close>

lemma unat_or_push_bit:
  fixes v x :: "'a::len word"
  assumes "unat v < 2 ^ k" and "unat x * 2 ^ k < 2 ^ LENGTH('a)"
  shows "unat (v OR push_bit k x) = unat v + unat x * 2 ^ k"
  using assms or_disjoint_nat(1) [OF assms(1), of "unat x"] by (simp add: word_nat)

lemma unat_lt_word:
  "unat (b :: byte) < 256" "unat (h :: u16) < 65536" "unat (w :: u32) < 4294967296"
  "unat (v :: u64) < 18446744073709551616"
  using unsigned_less [of b, where ?'a = nat] unsigned_less [of h, where ?'a = nat]
    unsigned_less [of w, where ?'a = nat] unsigned_less [of v, where ?'a = nat] by simp_all

lemma unat_mod_word [simp]:
  fixes b :: byte and h :: u16 and w :: u32 and v :: u64
  shows "unat b mod 256 = unat b" "unat b mod 65536 = unat b"
    "unat b mod 4294967296 = unat b" "unat b mod 18446744073709551616 = unat b"
    "unat h mod 65536 = unat h" "unat h mod 4294967296 = unat h"
    "unat h mod 18446744073709551616 = unat h" "unat w mod 4294967296 = unat w"
    "unat w mod 18446744073709551616 = unat w" "unat v mod 18446744073709551616 = unat v"
  using unat_lt_word(1) [of b] unat_lt_word(2) [of h] unat_lt_word(3) [of w] unat_lt_word(4) [of v]
  by simp_all

lemma ucast_back [simp]:
  "ucast (ucast (b :: byte) :: u16) = b" "ucast (ucast (b :: byte) :: u32) = b"
  "ucast (ucast (b :: byte) :: u64) = b" "ucast (ucast (h :: u16) :: u32) = h"
  "ucast (ucast (h :: u16) :: u64) = h" "ucast (ucast (w :: u32) :: u64) = w"
  by (simp_all add: word_unat_eq_iff unsigned_ucast_eq take_bit_word_eq_self)

lemma unat_of_nat_word [word_nat]:
  "unat (of_nat n :: byte) = n mod 256" "unat (of_nat n :: u16) = n mod 65536"
  "unat (of_nat n :: u32) = n mod 4294967296"
  "unat (of_nat n :: u64) = n mod 18446744073709551616"
  by (simp_all add: unat_of_nat)

text \<open>The low byte of a word, and what is left above it.\<close>

lemma unat_low_byte:
  fixes h :: u16 and w :: u32 and v :: u64
  shows "unat (ucast (h AND 0xff) :: byte) = unat h mod 256"
    "unat (ucast (w AND 0xff) :: byte) = unat w mod 256"
    "unat (ucast (v AND 0xff) :: byte) = unat v mod 256"
  by (simp_all add: word_nat mod_mod_cancel)

lemma unat_above_byte:
  fixes h :: u16 and w :: u32 and v :: u64
  shows "unat (drop_bit 8 h) = unat h div 256" "unat (drop_bit 8 w) = unat w div 256"
    "unat (drop_bit 8 v) = unat v div 256"
  by (simp_all add: word_nat)

text \<open>Little-endian assembly of a word from its bytes.\<close>

lemma bit_le_fold:
  fixes d :: "nat \<Rightarrow> byte"
  assumes "j < LENGTH('a)"
  shows "bit (fold (\<lambda>i v. v OR push_bit (i * 8) (ucast (d i))) [0..<n] 0 :: 'a::len word) j \<longleftrightarrow>
    j div 8 < n \<and> bit (d (j div 8)) (j mod 8)"
proof (induction n)
  case (Suc n)
  have "bit (push_bit (n * 8) (ucast (d n)) :: 'a word) j \<longleftrightarrow> j div 8 = n \<and> bit (d n) (j mod 8)"
  proof (cases "n * 8 \<le> j \<and> j - n * 8 < 8")
    case True
    then have "j div 8 = n" by (intro div_nat_eqI) auto
    moreover from this have "j mod 8 = j - n * 8" by (simp add: minus_mult_div_eq_mod [symmetric] mult.commute)
    ultimately show ?thesis using True assms by (auto simp: bit_push_bit_iff bit_ucast_iff)
  next
    case False
    then have "j div 8 \<noteq> n" by (metis div_times_less_eq_dividend minus_mult_div_eq_mod mod_less_divisor
      mult.commute zero_less_numeral)
    moreover have "\<not> bit (d n) (j - n * 8)" if "n * 8 \<le> j"
      using False that by (auto dest: bit_imp_le_length)
    ultimately show ?thesis by (auto simp: bit_push_bit_iff bit_ucast_iff)
  qed
  with Suc assms show ?case by (auto simp: bit_or_iff less_Suc_eq)
qed simp

lemma le_fold_bytes:
  fixes w :: "'a::len word"
  assumes "LENGTH('a) = n * 8"
  shows "fold (\<lambda>i v. v OR push_bit (i * 8) (ucast ((ucast :: 'a word \<Rightarrow> byte) (drop_bit (i * 8) w)))) [0..<n] 0 = w"
    (is "?f = w")
proof (rule bit_word_eqI)
  fix j assume j: "j < LENGTH('a)"
  then have "j div 8 < n" using assms by (simp add: less_mult_imp_div_less)
  then show "bit ?f j = bit w j"
    using j mod_less_divisor [of 8 j]
    by (simp add: bit_le_fold bit_ucast_iff bit_drop_bit_eq add.commute del: mod_less_divisor)
qed
text \<open>
  \<open>static_cast<int>\<close> of a size: two's complement at 32 bits. A negative result is what callers
  take for an error, so a count that wraps negative is one.
\<close>

definition int_of_size :: "nat \<Rightarrow> int" where
  "int_of_size n = sint (of_nat n :: u32)"

definition ret_int :: "nat \<Rightarrow> 'a \<Rightarrow> ('a \<times> nat) option" where
  "ret_int n x = (if int_of_size n < 0 then None else Some (x, nat (int_of_size n)))"

lemma int_of_size_small [simp]: "n < 2 ^ 31 \<Longrightarrow> int_of_size n = int n"
  by (simp add: int_of_size_def sint_uint signed_take_bit_int_eq_self unsigned_of_nat take_bit_nat_eq_self uint_nat)

lemma ret_int_small [simp]: "n < 2 ^ 31 \<Longrightarrow> ret_int n x = Some (x, n)"
  by (simp add: ret_int_def)

lemma ret_int_le: "ret_int n x = Some (y, m) \<Longrightarrow> y = x \<and> m \<le> n"
proof -
  assume r: "ret_int n x = Some (y, m)"
  have "sint (of_nat n :: u32) \<le> uint (of_nat n :: u32)"
    by (simp add: sint_uint signed_take_bit_eq_take_bit_minus take_bit_int_less_eq_self_iff
        order.trans [of _ "take_bit 32 (uint (of_nat n :: u32))"])
  also have "\<dots> \<le> int n"
    by (simp add: uint_nat unat_of_nat_word zmod_le_nonneg_dividend)
  finally show ?thesis
    using r by (auto simp: ret_int_def int_of_size_def split: if_splits)
qed

section \<open>Decimal text\<close>

definition IsDigit :: "char \<Rightarrow> bool" where
  "IsDigit c \<longleftrightarrow> 48 \<le> (of_char c :: nat) \<and> of_char c \<le> (57 :: nat)"

text \<open>\<open>c - '0'\<close> on a digit, and its inverse \<open>'0' + d\<close>.\<close>

definition digit_val :: "char \<Rightarrow> nat" where
  "digit_val c = of_char c - 48"

definition digit_char :: "nat \<Rightarrow> char" where
  "digit_char d = char_of (48 + d)"

text \<open>\<open>std::to_string\<close> of an unsigned value.\<close>

fun to_string :: "nat \<Rightarrow> string" where
  "to_string n = (if n < 10 then [digit_char n] else to_string (n div 10) @ [digit_char (n mod 10)])"

declare to_string.simps [simp del]

text \<open>\<open>std::to_string\<close> of a signed value.\<close>

definition to_string_int :: "int \<Rightarrow> string" where
  "to_string_int i = (if i < 0 then CHR ''-'' # to_string (nat (- i)) else to_string (nat i))"

text \<open>\<open>%0wd\<close> of \<open>printf\<close>.\<close>

definition zpad :: "nat \<Rightarrow> nat \<Rightarrow> string" where
  "zpad w n = replicate (w - length (to_string n)) (CHR ''0'') @ to_string n"

text \<open>The value a run of digits denotes, continued from \<open>acc\<close>.\<close>

definition digits_val :: "nat \<Rightarrow> string \<Rightarrow> nat" where
  "digits_val acc s = foldl (\<lambda>a c. a * 10 + digit_val c) acc s"

lemma digit_char_IsDigit [simp, text_simps]: "d < 10 \<Longrightarrow> IsDigit (digit_char d)"
  by (simp add: IsDigit_def digit_char_def)

lemma digit_val_digit_char [simp, text_simps]: "d < 10 \<Longrightarrow> digit_val (digit_char d) = d"
  by (simp add: digit_val_def digit_char_def)

lemma digit_char_digit_val [simp, text_simps]: "IsDigit c \<Longrightarrow> digit_char (digit_val c) = c"
  by (simp add: IsDigit_def digit_val_def digit_char_def)

lemma digit_char_0: "digit_char 0 = CHR ''0''"
  using char_of_char [of "CHR ''0''", where ?'a = nat] by (simp add: digit_char_def)

lemma digit_val_less [simp]: "IsDigit c \<Longrightarrow> digit_val c < 10"
  by (auto simp: IsDigit_def digit_val_def)

lemma digits_val_Nil [simp]: "digits_val a [] = a"
  by (simp add: digits_val_def)

lemma digits_val_Cons [simp]: "digits_val a (c # s) = digits_val (a * 10 + digit_val c) s"
  by (simp add: digits_val_def)

lemma digits_val_append [simp]: "digits_val a (s @ t) = digits_val (digits_val a s) t"
  by (simp add: digits_val_def)

lemma digits_val_acc: "digits_val a s = a * 10 ^ length s + digits_val 0 s"
proof (induction s arbitrary: a)
  case (Cons c s)
  have "digits_val a (c # s) = (a * 10 + digit_val c) * 10 ^ length s + digits_val 0 s"
    using Cons.IH [of "a * 10 + digit_val c"] by simp
  moreover have "digits_val (digit_val c) s = digit_val c * 10 ^ length s + digits_val 0 s"
    by (rule Cons.IH)
  ultimately show ?case by (simp add: algebra_simps)
qed simp

lemma digits_val_less: "list_all IsDigit s \<Longrightarrow> digits_val 0 s < 10 ^ length s"
proof (induction s rule: rev_induct)
  case (snoc c s)
  then have "digits_val 0 s < 10 ^ length s" "digit_val c < 10" by simp_all
  then have "digits_val 0 s * 10 + digit_val c < 10 ^ length s * 10" by linarith
  then show ?case by (simp add: mult.commute)
qed simp

lemma digits_val_replicate0 [simp]: "digits_val 0 (replicate k (CHR ''0'')) = 0"
  by (induction k) (simp_all add: digit_val_def)

lemma to_string_digits [simp]: "list_all IsDigit (to_string n)"
  by (induction n rule: to_string.induct) (subst to_string.simps, simp)

lemma to_string_nonempty [simp]: "to_string n \<noteq> []"
  by (subst to_string.simps) simp

lemma digits_val_to_string [simp]: "digits_val 0 (to_string n) = n"
proof (induction n rule: to_string.induct)
  case (1 n)
  then show ?case by (subst to_string.simps) simp
qed

lemma length_to_string: "n < 10 ^ k \<Longrightarrow> 0 < k \<Longrightarrow> length (to_string n) \<le> k"
proof (induction n arbitrary: k rule: to_string.induct)
  case (1 n)
  show ?case
  proof (cases "n < 10")
    case True
    with 1 show ?thesis by (subst to_string.simps) simp
  next
    case False
    from False "1.prems" obtain k' where k: "k = Suc k'" "0 < k'"
      by (cases k; cases "k - 1") auto
    with False "1.prems" have "n div 10 < 10 ^ k'" by (simp add: less_mult_imp_div_less mult.commute)
    with "1.IH" [OF False this k(2)] k False show ?thesis by (subst to_string.simps) simp
  qed
qed

lemma replicate0_digits [simp]: "list_all IsDigit (replicate k (CHR ''0''))"
  by (induction k) (simp_all add: IsDigit_def)

lemma zpad_digits [simp]: "list_all IsDigit (zpad w n)"
  by (simp add: zpad_def)

lemma zpad_nonempty [simp]: "zpad w n \<noteq> []"
  by (simp add: zpad_def)

lemma digits_val_zpad [simp]: "digits_val 0 (zpad w n) = n"
  by (simp add: zpad_def)

lemma length_zpad: "n < 10 ^ w \<Longrightarrow> 0 < w \<Longrightarrow> length (zpad w n) = w"
  using length_to_string [of n w] by (simp add: zpad_def)

lemma digits_unique:
  assumes "list_all IsDigit s" "list_all IsDigit t" "length s = length t"
    and "digits_val 0 s = digits_val 0 t"
  shows "s = t"
  using assms
proof (induction s arbitrary: t rule: rev_induct)
  case (snoc c s)
  then obtain d t' where t: "t = t' @ [d]" by (cases t rule: rev_cases) auto
  with snoc have "digits_val 0 s * 10 + digit_val c = digits_val 0 t' * 10 + digit_val d"
    and "digit_val c < 10" "digit_val d < 10" by auto
  then have eq: "digits_val 0 s = digits_val 0 t'" and "digit_val c = digit_val d" by arith+
  moreover from this(2) snoc.prems t have "c = d"
    by (metis digit_char_digit_val list_all_append list.pred_inject(2))
  ultimately show ?case using snoc t by simp
qed simp

section \<open>Self-delimiting encodings\<close>

text \<open>
  The contract between a writer and a reader of one value at the front of a buffer: what the
  reader returns after the writer, whatever follows, and that every value takes at least a byte,
  which is what makes a reading loop stop.
\<close>

locale prefix_codec =
  fixes valid :: "'a \<Rightarrow> bool"
    and enc :: "'a \<Rightarrow> byte list"
    and dec :: "byte list \<Rightarrow> ('a \<times> nat) option"
  assumes dec_enc: "valid x \<Longrightarrow> dec (enc x @ rest) = Some (x, length (enc x))"
    and enc_nonempty: "valid x \<Longrightarrow> enc x \<noteq> []"
begin

lemma enc_prefix_free:
  assumes "valid x" "valid y" "enc x @ r = enc y @ s"
  shows "x = y \<and> r = s"
proof -
  from dec_enc [OF assms(1), of r] dec_enc [OF assms(2), of s] assms(3)
  have "x = y" by simp
  with assms(3) show ?thesis by simp
qed

lemma enc_inj: "valid x \<Longrightarrow> valid y \<Longrightarrow> enc x = enc y \<Longrightarrow> x = y"
  using enc_prefix_free [of x y "[]" "[]"] by simp

lemma enc_concat_inj:
  assumes "\<forall>x\<in>set xs. valid x" "\<forall>y\<in>set ys. valid y" "concat (map enc xs) = concat (map enc ys)"
  shows "xs = ys"
  using assms
proof (induction xs arbitrary: ys)
  case Nil
  then show ?case using enc_nonempty by (cases ys) auto
next
  case (Cons x xs)
  then have "concat (map enc ys) \<noteq> []" using enc_nonempty [of x] by (metis append_is_Nil_conv
      concat.simps(2) list.set_intros(1) list.simps(9))
  then obtain y ys' where ys: "ys = y # ys'" by (cases ys) simp_all
  with Cons.prems have "enc x @ concat (map enc xs) = enc y @ concat (map enc ys')" by simp
  with Cons.prems ys have "x = y \<and> concat (map enc xs) = concat (map enc ys')"
    by (intro enc_prefix_free) simp_all
  with Cons.IH [of ys'] Cons.prems ys show ?case by simp
qed

end

end
