(* ===== verification/BigMag.thy ===== *)
theory BigMag
  imports Prelude
begin

text \<open>
  Byte-backed magnitudes of \<open>src/pb/big.cc\<close>: big-endian byte vectors multiplied, added to,
  divided, shifted and rounded in place, and the decimal text of \<open>BigInt\<close> and \<open>Decimal\<close>. A
  function that updates its argument in place returns the new vector. \<open>be_val\<close> is the number a
  vector denotes; every routine is related to arithmetic on it.
\<close>

section \<open>Operations on magnitudes\<close>

type_synonym mag = "byte list"

text \<open>A pass over the bytes from the least significant one: the list is the reversed vector.\<close>

fun MulBy10_loop :: "byte list \<Rightarrow> u16 \<Rightarrow> byte list \<times> u16" where
  "MulBy10_loop [] carry = ([], carry)"
| "MulBy10_loop (b # bs) carry =
     (let v = ucast b * 10 + carry;
          (bs', carry') = MulBy10_loop bs (drop_bit 8 v)
      in (ucast (v AND 0xff) # bs', carry'))"

text \<open>\<open>while (carry > 0) mag.insert(mag.begin(), carry & 0xff)\<close>.\<close>

function push_carry :: "u16 \<Rightarrow> mag \<Rightarrow> mag" where
  "push_carry carry m =
     (if 0 < carry then push_carry (drop_bit 8 carry) (ucast (carry AND 0xff) # m) else m)"
  by pat_completeness auto
termination
  by (relation "measure (\<lambda>(carry, m). unat carry)") (auto simp: word_nat word_less_nat_alt)

declare push_carry.simps [simp del]

definition MulBy10 :: "mag \<Rightarrow> mag" where
  "MulBy10 m = (let (bs, carry) = MulBy10_loop (rev m) 0 in push_carry carry (rev bs))"

fun AddU8_loop :: "byte list \<Rightarrow> u16 \<Rightarrow> byte list \<times> u16" where
  "AddU8_loop [] carry = ([], carry)"
| "AddU8_loop (b # bs) carry =
     (if carry = 0 then (b # bs, carry)
      else let s = ucast b + carry;
               (bs', carry') = AddU8_loop bs (drop_bit 8 s)
           in (ucast (s AND 0xff) # bs', carry'))"

definition AddU8 :: "mag \<Rightarrow> byte \<Rightarrow> mag" where
  "AddU8 m v = (let (bs, carry) = AddU8_loop (rev m) (ucast v) in push_carry carry (rev bs))"

definition TrimLeadingZeros :: "mag \<Rightarrow> mag" where
  "TrimLeadingZeros m = dropWhile (\<lambda>b. b = 0) m"

fun DivBy10_loop :: "mag \<Rightarrow> u16 \<Rightarrow> mag \<times> u16" where
  "DivBy10_loop [] rem = ([], rem)"
| "DivBy10_loop (b # bs) rem =
     (let cur = push_bit 8 rem OR ucast b;
          (bs', rem') = DivBy10_loop bs (cur mod 10)
      in (ucast (cur div 10) # bs', rem'))"

text \<open>The quotient, and the remainder the source returns.\<close>

definition DivBy10 :: "mag \<Rightarrow> mag \<times> byte" where
  "DivBy10 m = (let (q, rem) = DivBy10_loop m 0 in (TrimLeadingZeros q, ucast rem))"

fun ParseDigits_loop :: "string \<Rightarrow> mag \<Rightarrow> mag option" where
  "ParseDigits_loop [] m = Some m"
| "ParseDigits_loop (c # cs) m =
     (if \<not> IsDigit c then None
      else ParseDigits_loop cs (AddU8 (MulBy10 m) (of_nat (digit_val c))))"

definition ParseDigits :: "string \<Rightarrow> nat \<Rightarrow> nat \<Rightarrow> mag \<Rightarrow> mag option" where
  "ParseDigits s pos end_pos m =
     (if pos = end_pos then None
      else map_option TrimLeadingZeros (ParseDigits_loop (take (end_pos - pos) (drop pos s)) m))"

fun top_bits :: "nat \<Rightarrow> nat \<Rightarrow> nat" where
  "top_bits 0 b = 0"
| "top_bits (Suc k) b = (if b \<noteq> 0 then 1 + top_bits k (b div 2) else 0)"

text \<open>The loop that counts the bits of the first byte shifts it right at most eight times.\<close>

definition BitLen :: "mag \<Rightarrow> int" where
  "BitLen m = (case m of [] \<Rightarrow> 0 | b # bs \<Rightarrow> int (length bs) * 8 + int (top_bits 8 (unat b)))"

definition mag_bit :: "mag \<Rightarrow> nat \<Rightarrow> bool" where
  "mag_bit m i = (drop_bit (i mod 8) (m ! (length m - 1 - i div 8)) AND 1 \<noteq> 0)"

text \<open>
  The in-place loop runs from the last byte to the first and reads \<open>mag[i - 1]\<close> before it is
  overwritten, so every new byte is built from the old byte before it (\<open>high\<close>, 0 at the front).
\<close>

fun shift_bytes :: "nat \<Rightarrow> byte \<Rightarrow> mag \<Rightarrow> mag" where
  "shift_bytes sh high [] = []"
| "shift_bytes sh high (b # bs) =
     ucast (drop_bit sh (push_bit 8 (ucast high) OR ucast b :: u32)) # shift_bytes sh b bs"

definition ShiftRightRounded :: "mag \<Rightarrow> nat \<Rightarrow> mag" where
  "ShiftRightRounded m n =
     (let half = mag_bit m (n - 1);
          sticky = list_ex (mag_bit m) [0..<n - 1];
          m1 = take (length m - n div 8) m;
          m2 = (if n mod 8 \<noteq> 0 then shift_bytes (n mod 8) 0 m1 else m1);
          m3 = (if half \<and> (sticky \<or> last m2 AND 1 \<noteq> 0) then AddU8 m2 1 else m2)
      in TrimLeadingZeros m3)"

fun ShiftLeft_loop :: "nat \<Rightarrow> byte list \<Rightarrow> u32 \<Rightarrow> byte list \<times> u32" where
  "ShiftLeft_loop sh [] carry = ([], carry)"
| "ShiftLeft_loop sh (b # bs) carry =
     (let v = push_bit sh (ucast b) OR carry;
          (bs', carry') = ShiftLeft_loop sh bs (drop_bit 8 v)
      in (ucast (v AND 0xff) # bs', carry'))"

definition ShiftLeft :: "mag \<Rightarrow> nat \<Rightarrow> mag" where
  "ShiftLeft m n =
     (let m1 = (if n mod 8 \<noteq> 0 then
                  let (bs, carry) = ShiftLeft_loop (n mod 8) (rev m) 0
                  in (if carry \<noteq> 0 then ucast carry # rev bs else rev bs)
                else m)
      in m1 @ replicate (n div 8) 0)"

section \<open>The number a magnitude denotes\<close>

fun le_val :: "byte list \<Rightarrow> nat" where
  "le_val [] = 0"
| "le_val (b # bs) = unat b + 256 * le_val bs"

definition be_val :: "mag \<Rightarrow> nat" where
  "be_val m = le_val (rev m)"

lemma le_val_append [simp]: "le_val (xs @ ys) = le_val xs + 256 ^ length xs * le_val ys"
  by (induction xs) (simp_all add: algebra_simps)

lemma be_val_Nil [simp]: "be_val [] = 0"
  by (simp add: be_val_def)

lemma be_val_Cons [simp]: "be_val (b # bs) = unat b * 256 ^ length bs + be_val bs"
  by (simp add: be_val_def mult.commute)

lemma be_val_append: "be_val (xs @ ys) = be_val xs * 256 ^ length ys + be_val ys"
  by (simp add: be_val_def mult.commute)

lemma le_val_less: "le_val bs < 256 ^ length bs"
proof (induction bs)
  case (Cons b bs)
  then show ?case using unat_lt_word(1) [of b] by simp
qed simp

lemma be_val_less: "be_val m < 256 ^ length m"
  using le_val_less [of "rev m"] by (simp add: be_val_def)

lemma be_val_rev [simp]: "be_val (rev bs) = le_val bs"
  by (simp add: be_val_def)

lemma be_val_replicate0 [simp]: "be_val (replicate k 0) = 0"
  by (induction k) simp_all

lemma be_val_TrimLeadingZeros [simp]: "be_val (TrimLeadingZeros m) = be_val m"
  unfolding TrimLeadingZeros_def by (induction m) simp_all

definition normal :: "mag \<Rightarrow> bool" where
  "normal m \<longleftrightarrow> m = [] \<or> hd m \<noteq> 0"

lemma normal_Nil [simp]: "normal []"
  by (simp add: normal_def)

lemma normal_TrimLeadingZeros [simp]: "normal (TrimLeadingZeros m)"
  using hd_dropWhile [of "\<lambda>b. b = 0" m] by (auto simp: normal_def TrimLeadingZeros_def)

lemma TrimLeadingZeros_normal [simp]: "normal m \<Longrightarrow> TrimLeadingZeros m = m"
  by (cases m) (simp_all add: normal_def TrimLeadingZeros_def)

lemma normal_lower: "normal m \<Longrightarrow> m \<noteq> [] \<Longrightarrow> 256 ^ (length m - 1) \<le> be_val m"
proof (cases m)
  case (Cons b bs)
  moreover assume "normal m"
  ultimately have "1 \<le> unat b" by (simp add: normal_def Suc_le_eq unat_gt_0)
  then have "1 * 256 ^ length bs \<le> unat b * 256 ^ length bs" by (rule mult_le_mono1)
  then have "256 ^ length bs \<le> unat b * 256 ^ length bs + be_val bs" by linarith
  with Cons show ?thesis by simp
qed simp

lemma be_val_0_iff: "normal m \<Longrightarrow> be_val m = 0 \<longleftrightarrow> m = []"
  using normal_lower [of m] by fastforce

lemma le_val_inj: "length xs = length ys \<Longrightarrow> le_val xs = le_val ys \<Longrightarrow> xs = ys"
proof (induction xs ys rule: list_induct2)
  case (Cons x xs y ys)
  from Cons.prems have "(unat x + 256 * le_val xs) mod 256 = (unat y + 256 * le_val ys) mod 256" by simp
  then have "unat x = unat y" by (simp only: mod_mult_self2 unat_mod_word)
  with Cons show ?case by (simp add: word_unat_eq_iff)
qed simp

lemma be_val_inj:
  assumes "normal m" "normal n" "be_val m = be_val n"
  shows "m = n"
proof (cases "m = [] \<or> n = []")
  case True
  then show ?thesis using assms be_val_0_iff by (metis be_val_Nil)
next
  case False
  have "256 ^ (length m - 1) < (256::nat) ^ length n"
    using False assms le_less_trans [OF normal_lower [of m]] be_val_less [of n] by metis
  moreover have "256 ^ (length n - 1) < (256::nat) ^ length m"
    using False assms le_less_trans [OF normal_lower [of n]] be_val_less [of m] by metis
  ultimately have "length m - 1 < length n" "length n - 1 < length m"
    by simp_all
  then have "length m = length n" using False by (cases m; cases n) auto
  then show ?thesis
    using le_val_inj [of "rev m" "rev n"] assms(3) by (simp add: be_val_def)
qed

section \<open>Arithmetic\<close>

text \<open>One step of every pass that writes a low byte and carries the rest upwards.\<close>

lemma div_mod_scale: "(x::nat) div k * (k * P) + x mod k * P = x * P"
proof -
  have "(x div k * k + x mod k) * P = x * P" by simp
  then show ?thesis by (simp only: add_mult_distrib mult.assoc)
qed

lemma carry_step:
  fixes R P c X V B :: nat
  assumes "R + P * c = X + V div B"
  shows "V mod B + B * R + B * P * c = B * X + V"
proof -
  have "B * R + B * P * c = B * X + B * (V div B)"
    using arg_cong [OF assms, of "(*) B"] by (simp only: distrib_left mult.assoc)
  then show ?thesis by (simp add: add.assoc)
qed

lemma MulBy10_loop_val:
  "MulBy10_loop bs carry = (bs', carry') \<Longrightarrow> unat carry \<le> 9 \<Longrightarrow>
   length bs' = length bs \<and> unat carry' \<le> 9 \<and>
   le_val bs' + 256 ^ length bs * unat carry' = 10 * le_val bs + unat carry"
proof (induction bs arbitrary: carry bs' carry')
  case (Cons b bs)
  let ?v = "ucast b * 10 + carry :: u16"
  have v: "unat ?v = unat b * 10 + unat carry"
    using Cons.prems(2) unat_lt_word(1) [of b] by (simp add: unat_word_ariths word_nat)
  obtain r c where rc: "MulBy10_loop bs (drop_bit 8 ?v) = (r, c)" by fastforce
  have "unat (drop_bit 8 ?v) \<le> 9"
    unfolding unat_above_byte v using Cons.prems(2) unat_lt_word(1) [of b] by simp
  note IH = Cons.IH [OF rc this]
  have res: "bs' = ucast (?v AND 0xff) # r" "carry' = c" using Cons.prems(1) rc by (simp_all add: Let_def)
  from IH have "le_val r + 256 ^ length bs * unat c = 10 * le_val bs + unat ?v div 256"
    by (simp only: unat_above_byte)
  from carry_step [OF this] IH show ?case
    by (simp only: res le_val.simps unat_low_byte list.size power_Suc power_add v) simp
qed simp

lemma push_carry_val: "be_val (push_carry c m) = unat c * 256 ^ length m + be_val m"
proof (induction c m rule: push_carry.induct)
  case (1 c m)
  show ?case
  proof (cases "0 < c")
    case True
    have "unat c div 256 * (256 * 256 ^ length m) + unat c mod 256 * 256 ^ length m = unat c * 256 ^ length m"
      by (rule div_mod_scale)
    with 1 [OF True] True show ?thesis
      by (subst push_carry.simps) (simp only: if_True be_val_Cons unat_low_byte unat_above_byte length_Cons power_Suc)
  next
    case False
    then show ?thesis by (subst push_carry.simps) (simp add: word_neq_0_conv [symmetric])
  qed
qed

lemma MulBy10_val: "be_val (MulBy10 m) = 10 * be_val m"
proof -
  obtain r c where rc: "MulBy10_loop (rev m) 0 = (r, c)" by fastforce
  with MulBy10_loop_val [OF rc] show ?thesis
    by (simp add: MulBy10_def push_carry_val) (simp add: be_val_def mult.commute)
qed

lemma AddU8_loop_val:
  "AddU8_loop bs carry = (bs', carry') \<Longrightarrow> unat carry \<le> 255 \<Longrightarrow>
   length bs' = length bs \<and> unat carry' \<le> 255 \<and>
   le_val bs' + 256 ^ length bs * unat carry' = le_val bs + unat carry"
proof (induction bs arbitrary: carry bs' carry')
  case (Cons b bs)
  let ?v = "ucast b + carry :: u16"
  have v: "unat ?v = unat b + unat carry"
    using Cons.prems(2) unat_lt_word(1) [of b] by (simp add: unat_word_ariths word_nat)
  show ?case
  proof (cases "carry = 0")
    case True
    then show ?thesis using Cons.prems by auto
  next
    case False
    obtain r c where rc: "AddU8_loop bs (drop_bit 8 ?v) = (r, c)" by fastforce
    have "unat (drop_bit 8 ?v) \<le> 255"
      unfolding unat_above_byte v using Cons.prems(2) unat_lt_word(1) [of b] by simp
    note IH = Cons.IH [OF rc this]
    have res: "bs' = ucast (?v AND 0xff) # r" "carry' = c"
      using Cons.prems(1) rc False by (simp_all add: Let_def)
    from IH have "le_val r + 256 ^ length bs * unat c = le_val bs + unat ?v div 256"
      by (simp only: unat_above_byte)
    from carry_step [OF this] IH show ?thesis
      by (simp only: res le_val.simps unat_low_byte list.size power_Suc power_add v) simp
  qed
qed simp

lemma AddU8_val: "be_val (AddU8 m v) = be_val m + unat v"
proof -
  obtain r c where rc: "AddU8_loop (rev m) (ucast v) = (r, c)" by fastforce
  have "unat (ucast v :: u16) \<le> 255" using unat_lt_word(1) [of v] by (simp add: word_nat)
  with AddU8_loop_val [OF rc] show ?thesis using rc
    by (simp add: AddU8_def push_carry_val word_nat) (simp add: be_val_def mult.commute)
qed

lemma DivBy10_loop_val:
  "DivBy10_loop m rem = (q, rem') \<Longrightarrow> unat rem < 10 \<Longrightarrow>
   length q = length m \<and> unat rem' < 10 \<and>
   10 * be_val q + unat rem' = unat rem * 256 ^ length m + be_val m"
proof (induction m arbitrary: rem q rem')
  case (Cons b bs)
  let ?c = "push_bit 8 rem OR ucast b :: u16"
  have c: "unat ?c = unat rem * 256 + unat b"
    using Cons.prems(2) unat_lt_word(1) [of b] unat_or_push_bit [of "ucast b :: u16" 8 rem]
    by (simp add: or.commute word_nat)
  obtain r m where rm: "DivBy10_loop bs (?c mod 10) = (r, m)" by fastforce
  have "unat (?c mod 10) < 10" by (simp add: unat_mod_distrib)
  note IH = Cons.IH [OF rm this]
  have res: "q = ucast (?c div 10) # r" "rem' = m"
    using Cons.prems(1) rm by (simp_all add: Let_def)
  have "(unat rem * 256 + unat b) div 10 < 256" using Cons.prems(2) unat_lt_word(1) [of b] by linarith
  then have d: "unat (ucast (?c div 10) :: byte) = (unat rem * 256 + unat b) div 10"
    by (simp only: unsigned_ucast_eq unat_div_distrib c) (simp add: word_nat)
  have "unat (?c mod 10) = (unat rem * 256 + unat b) mod 10" by (simp add: unat_mod_distrib c)
  with IH have "10 * be_val r + unat m = (unat rem * 256 + unat b) mod 10 * 256 ^ length bs + be_val bs" by simp
  moreover have "10 * ((unat rem * 256 + unat b) div 10 * 256 ^ length bs)
      + (unat rem * 256 + unat b) mod 10 * 256 ^ length bs
      = unat rem * (256 * 256 ^ length bs) + unat b * 256 ^ length bs"
    using div_mod_scale [of "unat rem * 256 + unat b" 10 "256 ^ length bs"] by (simp add: algebra_simps)
  ultimately show ?case using IH
    by (simp only: res be_val_Cons d length_Cons power_Suc distrib_left)
      auto
qed simp

lemma DivBy10_val:
  assumes "DivBy10 m = (q, r)"
  shows "be_val q = be_val m div 10 \<and> unat r = be_val m mod 10 \<and> normal q"
proof -
  obtain q' r' where qr: "DivBy10_loop m 0 = (q', r')" by fastforce
  with DivBy10_loop_val [OF qr] have v: "unat r' < 10" "10 * be_val q' + unat r' = be_val m" by simp_all
  from v have "be_val q' = be_val m div 10" "unat r' = be_val m mod 10"
    by (metis add.commute add.left_neutral div_less div_mult_self2 zero_neq_numeral,
        metis add.commute mod_less mod_mult_self2)
  with v(1) assms qr show ?thesis by (auto simp: DivBy10_def word_nat)
qed

lemma ParseDigits_loop_val:
  "ParseDigits_loop s m = Some m' \<Longrightarrow> be_val m' = digits_val (be_val m) s"
  by (induction s arbitrary: m) (auto simp: MulBy10_val AddU8_val word_nat mult.commute split: if_splits
      dest!: digit_val_less)

lemma ParseDigits_loop_Some: "(\<exists>m'. ParseDigits_loop s m = Some m') \<longleftrightarrow> list_all IsDigit s"
  by (induction s arbitrary: m) auto

lemma ParseDigits_iff:
  assumes "pos \<le> end_pos" "end_pos \<le> length s"
  shows "ParseDigits s pos end_pos m = Some m' \<longleftrightarrow>
    pos < end_pos \<and> list_all IsDigit (take (end_pos - pos) (drop pos s)) \<and> normal m' \<and>
    be_val m' = digits_val (be_val m) (take (end_pos - pos) (drop pos s))"
proof (cases "list_all IsDigit (take (end_pos - pos) (drop pos s))")
  case True
  then obtain r where r: "ParseDigits_loop (take (end_pos - pos) (drop pos s)) m = Some r"
    using ParseDigits_loop_Some by blast
  with ParseDigits_loop_val [OF r] True assms show ?thesis
    by (auto simp: ParseDigits_def intro: be_val_inj)
next
  case False
  then have "ParseDigits_loop (take (end_pos - pos) (drop pos s)) m = None"
    using ParseDigits_loop_Some by (metis not_None_eq)
  with False show ?thesis by (auto simp: ParseDigits_def)
qed

lemma bit_le_val: "i div 8 < length bs \<Longrightarrow> bit (le_val bs) i \<longleftrightarrow> bit (bs ! (i div 8)) (i mod 8)"
proof (induction bs arbitrary: i)
  case (Cons b bs)
  have lv: "le_val (b # bs) = unat b OR push_bit 8 (le_val bs)"
    using or_push_bit_nat [of "unat b" 8 "le_val bs"] unat_lt_word(1) [of b] by (simp add: mult.commute)
  show ?case
  proof (cases "i < 8")
    case True
    then show ?thesis by (simp only: lv bit_or_iff bit_push_bit_iff) (simp add: bit_unsigned_iff)
  next
    case False
    then have "i div 8 = Suc ((i - 8) div 8)" "i mod 8 = (i - 8) mod 8"
      by (simp_all add: le_div_geq le_mod_geq)
    moreover have "\<not> bit (unat b) i" using False
      by (auto simp: bit_unsigned_iff dest: bit_imp_le_length)
    ultimately show ?thesis using False Cons
      by (simp only: lv bit_or_iff bit_push_bit_iff) simp
  qed
qed simp

lemma bit_be_val: "i div 8 < length m \<Longrightarrow> mag_bit m i \<longleftrightarrow> bit (be_val m) i"
  using bit_le_val [of i "rev m"]
  by (simp add: mag_bit_def be_val_def rev_nth bit_iff_odd_drop_bit odd_iff_mod_2_eq_one and_one_eq)
    
lemma take_bit_eq_0: "take_bit n x = (0::nat) \<longleftrightarrow> (\<forall>i<n. \<not> bit x i)"
  by (auto simp: bit_eq_iff bit_take_bit_iff)

lemma be_val_take: "k \<le> length m \<Longrightarrow> be_val (take (length m - k) m) = be_val m div 256 ^ k"
  using be_val_append [of "take (length m - k) m" "drop (length m - k) m"]
    be_val_less [of "drop (length m - k) m"] by simp

lemma shift_bytes_val:
  assumes "sh \<le> 8"
  shows "length (shift_bytes sh h m) = length m \<and>
   be_val (shift_bytes sh h m) = (unat h * 256 ^ length m + be_val m) div 2 ^ sh mod 256 ^ length m"
proof (induction m arbitrary: h)
  case (Cons b bs)
  let ?P = "256 ^ length bs :: nat" and ?Y = "unat h * (256 * 256 ^ length bs) + (unat b * 256 ^ length bs + be_val bs)"
  obtain k where k: "8 = sh + k" using assms le_Suc_ex by blast
  then have pw: "256 = 2 ^ sh * (2 ^ k :: nat)" using power_add [of "2::nat" sh k] by (simp flip: k)
  have c: "unat (push_bit 8 (ucast h) OR ucast b :: u32) = unat h * 256 + unat b"
    using unat_or_push_bit [of "ucast b :: u32" 8 "ucast h"] unat_lt_word(1) [of b] unat_lt_word(1) [of h]
    by (simp only: or.commute [of "push_bit _ _"]) (simp add: unsigned_ucast_eq take_bit_nat_eq_self)
  have "unat (ucast (drop_bit sh w) :: byte) = unat w div 2 ^ sh mod 256" for w :: u32
    by (simp add: word_nat)
  note this [of "push_bit 8 (ucast h) OR ucast b", unfolded c]
  moreover have "?Y div 2 ^ sh div ?P = (unat h * 256 + unat b) div 2 ^ sh"
  proof -
    have "?Y = (unat h * 256 + unat b) * ?P + be_val bs" by (simp add: algebra_simps)
    moreover have "((unat h * 256 + unat b) * ?P + be_val bs) div ?P = unat h * 256 + unat b"
      using be_val_less [of bs] by simp
    ultimately have "?Y div ?P = unat h * 256 + unat b" by (simp only:)
    moreover have "?Y div 2 ^ sh div ?P = ?Y div ?P div 2 ^ sh"
      by (simp only: div_mult2_eq [symmetric] mult.commute)
    ultimately show ?thesis by (simp only:)
  qed
  moreover have "?Y div 2 ^ sh mod ?P = (unat b * ?P + be_val bs) div 2 ^ sh mod ?P"
  proof -
    have "?Y = (unat b * ?P + be_val bs) + 2 ^ sh * (2 ^ k * unat h * ?P)"
      by (subst pw) (simp add: algebra_simps)
    then have "?Y div 2 ^ sh = 2 ^ k * unat h * ?P + (unat b * ?P + be_val bs) div 2 ^ sh"
      by (simp only: div_mult_self2 [of "2 ^ sh :: nat"] power_not_zero zero_neq_numeral [symmetric] simp_thms)
    then show ?thesis by simp
  qed
  ultimately show ?case using Cons.IH [of b] mod_mult2_eq [of "?Y div 2 ^ sh" "?P" 256]
    by (simp add: mult.commute)
qed simp

text \<open>Dividing by a power of two, rounding to nearest and a tie to even, as \<open>big.Float\<close> does.\<close>

definition round_half_even :: "nat \<Rightarrow> nat \<Rightarrow> nat" where
  "round_half_even x n =
     (let q = x div 2 ^ n; r = x mod 2 ^ n
      in if 2 * r > 2 ^ n \<or> 2 * r = 2 ^ n \<and> odd q then q + 1 else q)"

lemma two_power_split: "(2::nat) ^ n = 2 ^ (n mod 8) * 256 ^ (n div 8)"
proof -
  have "(2::nat) ^ n = 2 ^ (n mod 8 + 8 * (n div 8))" by simp
  also have "\<dots> = 2 ^ (n mod 8) * 256 ^ (n div 8)" by (simp only: power_add power_mult) simp
  finally show ?thesis .
qed

lemma round_cases:
  assumes "s < (P::nat)"
  shows "(if 2 * P < 2 * (of_bool b * P + s) \<or> 2 * (of_bool b * P + s) = 2 * P \<and> odd q then q + 1 else q)
    = q + of_bool (b \<and> (s \<noteq> 0 \<or> odd q))"
  using assms by (cases b) auto

lemma ShiftRightRounded_val:
  assumes "0 < n" "n < 8 * length m"
  shows "be_val (ShiftRightRounded m n) = round_half_even (be_val m) n \<and> normal (ShiftRightRounded m n)"
proof -
  let ?x = "be_val m"
  obtain k where k: "n = Suc k" using assms(1) by (cases n) auto
  define m1 where "m1 = take (length m - n div 8) m"
  define m2 where "m2 = (if n mod 8 \<noteq> 0 then shift_bytes (n mod 8) 0 m1 else m1)"
  have len: "n div 8 < length m" using assms(2) by simp
  then have m1: "be_val m1 = ?x div 256 ^ (n div 8)" "m1 \<noteq> []"
    by (auto simp: m1_def be_val_take)
  have "be_val m1 div 2 ^ (n mod 8) < 256 ^ length m1"
    using be_val_less [of m1] div_le_dividend le_less_trans by blast
  then have m2v: "be_val m2 = be_val m1 div 2 ^ (n mod 8)" and m2: "m2 \<noteq> []"
    using shift_bytes_val [of "n mod 8" 0 m1] m1(2) by (auto simp: m2_def)
  then have q: "be_val m2 = ?x div 2 ^ n" using m1
    by (simp only: two_power_split [of n] mult.commute [of "2 ^ _"] div_mult2_eq)
  have odd: "(last m2 AND 1 \<noteq> 0) = odd (?x div 2 ^ n)"
  proof -
    have "be_val m2 = be_val (butlast m2 @ [last m2])" using m2 by simp
    then have "odd (be_val m2) = odd (unat (last m2))" by (simp only: be_val_append) simp
    moreover have "(w AND 1 \<noteq> 0) = odd (unat w)" for w :: byte
      by (simp only: word_unat_eq_iff unsigned_and_eq unsigned_1 and_mask_nat unsigned_0) (simp add: odd_iff_mod_2_eq_one)
    ultimately show ?thesis by (simp only: q)
  qed
  have half: "mag_bit m (n - 1) = bit ?x k" using len k by (intro bit_be_val [THEN trans]) auto
  have sticky: "list_ex (mag_bit m) [0..<n - 1] \<longleftrightarrow> ?x mod 2 ^ k \<noteq> 0"
  proof -
    have "mag_bit m i = bit ?x i" if "i < k" for i
      using that assms(2) k by (intro bit_be_val) auto
    then show ?thesis using take_bit_eq_0 [of k ?x] k by (auto simp: list_ex_iff take_bit_eq_mod)
  qed
  have r: "?x mod 2 ^ n = of_bool (bit ?x k) * 2 ^ k + ?x mod 2 ^ k"
    using take_bit_Suc_from_most [of k ?x] by (simp add: k take_bit_eq_mod mult.commute)
  have round: "round_half_even ?x n = be_val m2 + of_bool (bit ?x k \<and> (?x mod 2 ^ k \<noteq> 0 \<or> odd (be_val m2)))"
    using round_cases [of "?x mod 2 ^ k" "2 ^ k" "bit ?x k" "?x div 2 ^ n"]
    unfolding round_half_even_def Let_def r q by (simp add: k)
  have "ShiftRightRounded m n = TrimLeadingZeros
      (if bit ?x k \<and> (?x mod 2 ^ k \<noteq> 0 \<or> odd (?x div 2 ^ n)) then AddU8 m2 1 else m2)"
    unfolding ShiftRightRounded_def Let_def half sticky m1_def [symmetric] m2_def [symmetric] odd ..
  then show ?thesis by (simp add: round AddU8_val q)
qed

lemma top_bits_bounds:
  "b < 2 ^ k \<Longrightarrow> b < 2 ^ top_bits k b \<and> (b \<noteq> 0 \<longrightarrow> 0 < top_bits k b \<and> 2 ^ (top_bits k b - 1) \<le> b)"
proof (induction k arbitrary: b)
  case (Suc k)
  then have IH: "b div 2 < 2 ^ top_bits k (b div 2)"
    "b div 2 \<noteq> 0 \<longrightarrow> 0 < top_bits k (b div 2) \<and> 2 ^ (top_bits k (b div 2) - 1) \<le> b div 2"
    by auto
  from IH(1) have "b < 2 * 2 ^ top_bits k (b div 2)" by linarith
  moreover have "2 ^ top_bits k (b div 2) \<le> b" if "b \<noteq> 0"
  proof (cases "b div 2 = 0")
    case True
    then have "top_bits k (b div 2) = 0" by (cases k) simp_all
    with that show ?thesis by simp
  next
    case False
    with IH(2) have "2 * 2 ^ (top_bits k (b div 2) - 1) \<le> b" and "0 < top_bits k (b div 2)" by auto
    then show ?thesis by (simp flip: power_Suc)
  qed
  ultimately show ?case by simp
qed simp

lemma BitLen_bounds:
  assumes "normal m" "m \<noteq> []"
  shows "0 < BitLen m" "BitLen m \<le> 8 * int (length m)"
    "2 ^ (nat (BitLen m) - 1) \<le> be_val m" "be_val m < 2 ^ nat (BitLen m)"
proof -
  obtain b bs where m: "m = b # bs" using assms(2) by (cases m) auto
  let ?t = "top_bits 8 (unat b)"
  have b: "unat b < 2 ^ ?t" "0 < ?t" "2 ^ (?t - 1) \<le> unat b"
    using top_bits_bounds [of "unat b" 8] unat_lt_word(1) [of b] assms(1) m
    by (auto simp: normal_def unat_eq_0)
  have t8: "?t \<le> 8" 
  proof -
    have "2 ^ (?t - 1) < (2::nat) ^ 8" using b(3) unat_lt_word(1) [of b] by simp
    then have "?t - 1 < 8" by (rule power_less_imp_less_exp [rotated]) simp
    then show ?thesis by simp
  qed
  have n: "nat (BitLen m) = 8 * length bs + ?t" by (simp add: BitLen_def m nat_add_distrib nat_mult_distrib)
  have p: "(2::nat) ^ (8 * length bs) = 256 ^ length bs" by (simp add: power_mult)
  show "0 < BitLen m" using b(2) by (simp add: BitLen_def m)
  show "BitLen m \<le> 8 * int (length m)" using t8 by (simp add: BitLen_def m)
  have "nat (BitLen m) - 1 = 8 * length bs + (?t - 1)" using n b(2) by simp
  then have "2 ^ (nat (BitLen m) - 1) = 256 ^ length bs * (2 ^ (?t - 1) :: nat)" by (simp only: power_add p)
  also have "\<dots> \<le> 256 ^ length bs * unat b" using b(3) by simp
  finally show "2 ^ (nat (BitLen m) - 1) \<le> be_val m" by (simp add: m mult.commute)
  have "be_val m < (unat b + 1) * 256 ^ length bs" using be_val_less [of bs] by (simp add: m)
  also have "\<dots> \<le> 2 ^ ?t * 256 ^ length bs" using b(1) by (intro mult_le_mono1) simp
  finally show "be_val m < 2 ^ nat (BitLen m)" by (simp only: n power_add p) (simp add: mult.commute)
qed

lemma ShiftLeft_loop_val:
  assumes "0 < sh" "sh < 8"
  shows "ShiftLeft_loop sh bs carry = (bs', carry') \<Longrightarrow> unat carry < 2 ^ sh \<Longrightarrow>
   length bs' = length bs \<and> unat carry' < 2 ^ sh \<and>
   le_val bs' + 256 ^ length bs * unat carry' = 2 ^ sh * le_val bs + unat carry"
proof (induction bs arbitrary: carry bs' carry')
  case (Cons b bs)
  let ?v = "push_bit sh (ucast b) OR carry :: u32"
  have sh: "2 ^ sh \<le> (2::nat) ^ 7" using assms(2) by (intro power_increasing) auto
  have "unat b * 2 ^ sh \<le> 255 * 2 ^ 7"
    using unat_lt_word(1) [of b] sh by (intro mult_le_mono) auto
  then have v: "unat ?v = unat b * 2 ^ sh + unat carry"
    using Cons.prems(2) unat_or_push_bit [of carry sh "ucast b"]
    by (simp add: or.commute word_nat)
  obtain r c where rc: "ShiftLeft_loop sh bs (drop_bit 8 ?v) = (r, c)" by fastforce
  have "unat ?v < (unat b + 1) * 2 ^ sh" using Cons.prems(2) v by simp
  also have "\<dots> \<le> 256 * 2 ^ sh" using unat_lt_word(1) [of b] by (intro mult_le_mono1) simp
  finally have "unat (drop_bit 8 ?v) < 2 ^ sh"
    unfolding unat_above_byte by (simp add: less_mult_imp_div_less mult.commute)
  note IH = Cons.IH [OF rc this]
  have res: "bs' = ucast (?v AND 0xff) # r" "carry' = c" using Cons.prems(1) rc by (simp_all add: Let_def)
  from IH have "le_val r + 256 ^ length bs * unat c = 2 ^ sh * le_val bs + unat ?v div 256"
    by (simp only: unat_above_byte)
  from carry_step [OF this] IH show ?case
    by (simp only: res le_val.simps unat_low_byte length_Cons power_Suc v distrib_left) simp
qed simp

lemma ShiftLeft_val: "be_val (ShiftLeft m n) = be_val m * 2 ^ n"
proof -
  obtain r c where rc: "ShiftLeft_loop (n mod 8) (rev m) 0 = (r, c)" by fastforce
  have v: "be_val (if n mod 8 \<noteq> 0 then (if c \<noteq> 0 then ucast c # rev r else rev r) else m) = be_val m * 2 ^ (n mod 8)"
  proof (cases "n mod 8 = 0")
    case False
    have val: "length r = length m" "unat c < 2 ^ (n mod 8)"
      "le_val r + 256 ^ length m * unat c = 2 ^ (n mod 8) * be_val m"
      using ShiftLeft_loop_val [OF _ _ rc] False by (simp_all add: be_val_def)
    have "2 ^ (n mod 8) \<le> (2::nat) ^ 8" by (intro power_increasing) auto
    with val(2) have "unat (ucast c :: byte) = unat c" by (simp add: word_nat)
    with val False show ?thesis by (auto simp: mult.commute)
  qed simp
  show ?thesis unfolding two_power_split [of n] using v
    by (simp add: ShiftLeft_def rc be_val_append split: if_splits)
qed

section \<open>Properties\<close>

text \<open>C29. The in-place magnitude routines compute what they are named after, on magnitudes of any
  length, leading zero bytes included.\<close>

theorem magnitude_arithmetic:
  "be_val (MulBy10 m) = 10 * be_val m \<and> be_val (AddU8 m v) = be_val m + unat v \<and>
   (case DivBy10 m of (q, r) \<Rightarrow> be_val q = be_val m div 10 \<and> unat r = be_val m mod 10 \<and> normal q) \<and>
   be_val (ShiftLeft m n) = be_val m * 2 ^ n"
  using MulBy10_val AddU8_val ShiftLeft_val DivBy10_val by (auto split: prod.split)

text \<open>Dropping the low \<open>n\<close> bits of a magnitude, with \<open>n\<close> positive and below its bit length,
  rounds to nearest with a tie to even and leaves no leading zero byte.\<close>

theorem shift_right_rounds_half_even:
  assumes "normal m" "0 < n" "int n < BitLen m"
  shows "be_val (ShiftRightRounded m n) = round_half_even (be_val m) n \<and> normal (ShiftRightRounded m n)"
proof -
  have "m \<noteq> []" using assms(3) by (auto simp: BitLen_def)
  with BitLen_bounds(2) [OF assms(1)] assms(3) have "n < 8 * length m" by auto
  from ShiftRightRounded_val [OF assms(2) this] show ?thesis .
qed

theorem shift_right_rounds_half_even_witness:
  "be_val (ShiftRightRounded [0x03, 0x80] 8) = 4"
proof -
  have h: "normal [0x03, 0x80]" "int 8 < BitLen [0x03, 0x80]" by code_simp+
  have "round_half_even (be_val [0x03, 0x80]) 8 = 4" by code_simp
  with shift_right_rounds_half_even [OF h(1) _ h(2)] show ?thesis by simp
qed

end
