(* ===== verification/BigText.thy ===== *)
theory BigText
  imports BigMag
begin

text \<open>
  Decimal text of the arbitrary-precision numbers of \<open>src/pb/big.cc\<close>: \<open>ParseBigInt\<close>,
  \<open>ParseDecimal\<close>, \<open>FormatBigInt\<close>, \<open>FormatDecimal\<close> and the bound on a literal's digits.
\<close>

section \<open>Numbers\<close>

record BigInt =
  bi_abs :: mag
  bi_negative :: bool

record Decimal =
  dec_unscaled :: mag
  dec_scale :: int
  dec_negative :: bool

record BigFloat =
  bf_mantissa :: mag
  bf_exponent :: int
  bf_prec :: u32
  bf_negative :: bool

section \<open>Formatting a magnitude\<close>

function FormatMagnitude_loop :: "mag \<Rightarrow> string" where
  "FormatMagnitude_loop tmp =
     (if tmp = [] then []
      else let (q, r) = DivBy10 tmp in digit_char (unat r) # FormatMagnitude_loop q)"
  by pat_completeness auto
termination
proof (relation "measure (\<lambda>m. be_val m + length m)")
  fix tmp q r and x :: "mag \<times> byte"
  assume "tmp \<noteq> []" "x = DivBy10 tmp" "(q, r) = x"
  then have d: "DivBy10 tmp = (q, r)" by simp
  then have q: "be_val q = be_val tmp div 10" "normal q" using DivBy10_val by blast+
  have len: "length q \<le> length tmp"
    using d DivBy10_loop_val [of tmp 0]
    by (auto simp: DivBy10_def TrimLeadingZeros_def split: prod.splits
        intro: order.trans [OF length_dropWhile_le])
  show "(q, tmp) \<in> measure (\<lambda>m. be_val m + length m)"
  proof (cases "be_val tmp = 0")
    case True
    with q have "q = []" using be_val_0_iff by simp
    with \<open>tmp \<noteq> []\<close> True show ?thesis by simp
  next
    case False
    then have "be_val q < be_val tmp" using q by simp
    with len show ?thesis by simp
  qed
qed simp

declare FormatMagnitude_loop.simps [simp del]

definition FormatMagnitude :: "mag \<Rightarrow> string" where
  "FormatMagnitude m = (if m = [] then ''0'' else rev (FormatMagnitude_loop m))"

section \<open>Parsing\<close>

text \<open>The sign of a literal, and the position after it.\<close>

definition literal_sign :: "string \<Rightarrow> bool \<times> nat" where
  "literal_sign s = (if s ! 0 = CHR ''-'' then (True, 1)
     else if s ! 0 = CHR ''+'' then (False, 1) else (False, 0))"

definition ParseBigInt :: "string \<Rightarrow> BigInt option" where
  "ParseBigInt s =
     (if s = [] then None
      else let (neg, pos) = literal_sign s
           in (case ParseDigits s pos (length s) [] of
                 None \<Rightarrow> None
               | Some m \<Rightarrow> Some \<lparr>bi_abs = m, bi_negative = (if m = [] then False else neg)\<rparr>))"

text \<open>\<open>s.find('.', pos)\<close>, with \<open>s.size()\<close> for \<open>npos\<close>.\<close>

definition find_dot :: "string \<Rightarrow> nat \<Rightarrow> nat" where
  "find_dot s pos = pos + length (takeWhile (\<lambda>c. c \<noteq> CHR ''.'') (drop pos s))"

definition ParseDecimal :: "string \<Rightarrow> Decimal option" where
  "ParseDecimal s =
     (if s = [] then None
      else let (neg, pos) = literal_sign s;
               dot = find_dot s pos;
               int_end = dot;
               frac_start = (if dot = length s then length s else dot + 1);
               frac_end = length s
           in (case (if pos < int_end then ParseDigits s pos int_end [] else Some []) of
                 None \<Rightarrow> None
               | Some m \<Rightarrow>
                   (case (if frac_start < frac_end then ParseDigits_loop (drop frac_start s) m else Some m) of
                      None \<Rightarrow> None
                    | Some m1 \<Rightarrow>
                        let m2 = TrimLeadingZeros m1
                        in (if m2 = [] \<and> int_end = pos \<and> frac_start = frac_end then None
                            else Some \<lparr>dec_unscaled = m2,
                                       dec_scale = int_of_size (frac_end - frac_start),
                                       dec_negative = (if m2 = [] then False else neg)\<rparr>))))"

section \<open>Formatting\<close>

fun SignificantDigits_loop :: "string \<Rightarrow> bool \<Rightarrow> nat \<Rightarrow> nat" where
  "SignificantDigits_loop [] leading n = n"
| "SignificantDigits_loop (c # cs) leading n =
     (if \<not> IsDigit c \<or> leading \<and> c = CHR ''0'' then SignificantDigits_loop cs leading n
      else SignificantDigits_loop cs False (n + 1))"

definition SignificantDigits :: "string \<Rightarrow> nat" where
  "SignificantDigits literal = SignificantDigits_loop literal True 0"

definition BoundLiteral :: "string \<Rightarrow> string \<Rightarrow> string + string" where
  "BoundLiteral kind literal =
     (if kMaxNumericLiteralDigits < length literal \<and> kMaxNumericLiteralDigits < SignificantDigits literal
      then Inl (kind @ '' renders to '' @ to_string (SignificantDigits literal) @
                '' digits; MaxNumericLiteralDigits='' @ to_string kMaxNumericLiteralDigits)
      else Inr literal)"

definition FormatBigInt :: "BigInt \<Rightarrow> string + string" where
  "FormatBigInt v =
     (let digits = FormatMagnitude (bi_abs v)
      in BoundLiteral ''pxf.BigInt''
           (if bi_negative v \<and> bi_abs v \<noteq> [] then CHR ''-'' # digits else digits))"

definition FormatDecimal :: "Decimal \<Rightarrow> string + string" where
  "FormatDecimal v =
     (let scale = dec_scale v in
      if int kMaxNumericLiteralDigits < scale \<or> scale < - int kMaxNumericLiteralDigits
      then Inl (''pxf.Decimal scale '' @ to_string_int scale @
                '' exceeds MaxNumericLiteralDigits='' @ to_string kMaxNumericLiteralDigits)
      else
        let digits = FormatMagnitude (dec_unscaled v);
            sign = (if dec_negative v \<and> dec_unscaled v \<noteq> [] then ''-'' else [])
        in if scale \<le> 0
           then BoundLiteral ''pxf.Decimal''
                  (sign @ digits @ (if dec_unscaled v \<noteq> [] then replicate (nat (- scale)) (CHR ''0'') else []))
           else
             let want = nat scale + 1;
                 digits1 = replicate (want - length digits) (CHR ''0'') @ digits;
                 int_len = length digits1 - nat scale
             in BoundLiteral ''pxf.Decimal'' (sign @ take int_len digits1 @ ''.'' @ drop int_len digits1))"

section \<open>Facts\<close>

text \<open>The digits the division loop produces are the decimal text of the number.\<close>

lemma FormatMagnitude_loop_val:
  "be_val m \<noteq> 0 \<Longrightarrow> rev (FormatMagnitude_loop m) = to_string (be_val m)"
proof (induction m rule: FormatMagnitude_loop.induct)
  case (1 m)
  obtain q r where qr: "DivBy10 m = (q, r)" by fastforce
  from DivBy10_val [OF qr] have v: "be_val q = be_val m div 10" "unat r = be_val m mod 10" "normal q" by auto
  have m: "m \<noteq> []" using 1(2) by auto
  show ?case
  proof (cases "be_val m < 10")
    case True
    then have "q = []" using v be_val_0_iff by simp
    with True m qr v show ?thesis
      by (subst FormatMagnitude_loop.simps, subst to_string.simps) (simp add: FormatMagnitude_loop.simps)
  next
    case False
    then have "rev (FormatMagnitude_loop q) = to_string (be_val q)" using 1(1) m qr v by simp
    with False m qr v show ?thesis
      by (subst FormatMagnitude_loop.simps, subst to_string.simps) simp
  qed
qed

lemma FormatMagnitude_val: "FormatMagnitude m = to_string (be_val m)"
proof (cases "be_val m = 0")
  case True
  obtain q r where qr: "DivBy10 m = (q, r)" by fastforce
  from DivBy10_val [OF qr] True have "q = []" "unat r = 0" using be_val_0_iff by auto
  with True qr show ?thesis
    by (subst to_string.simps) (simp add: FormatMagnitude_def FormatMagnitude_loop.simps digit_char_0)
next
  case False
  then show ?thesis using FormatMagnitude_loop_val by (auto simp: FormatMagnitude_def)
qed

lemma not_digit_sign [simp]: "\<not> IsDigit (CHR ''-'')" "\<not> IsDigit (CHR ''+'')" "\<not> IsDigit (CHR ''.'')"
  by (simp_all add: IsDigit_def)

lemma literal_sign_minus [simp]: "literal_sign (CHR ''-'' # s) = (True, 1)"
  by (simp add: literal_sign_def)

lemma literal_sign_digit [simp]: "IsDigit c \<Longrightarrow> literal_sign (c # s) = (False, 0)"
  by (auto simp: literal_sign_def)


text \<open>The one normal magnitude of a number.\<close>

fun mag_of :: "nat \<Rightarrow> mag" where
  "mag_of n = (if n = 0 then [] else mag_of (n div 256) @ [of_nat n])"

declare mag_of.simps [simp del]

lemma be_val_mag_of [simp]: "be_val (mag_of n) = n"
proof (induction n rule: mag_of.induct)
  case (1 n)
  then show ?case by (subst mag_of.simps) (simp add: be_val_append word_nat)
qed

lemma mag_of_0 [simp]: "mag_of 0 = []"
  by (simp add: mag_of.simps)

lemma normal_mag_of [simp]: "normal (mag_of n)"
proof (induction n rule: mag_of.induct)
  case (1 n)
  show ?case
  proof (cases "n div 256 = 0")
    case True
    then have "n mod 256 = n" by simp
    with True show ?thesis
      by (subst mag_of.simps) (auto simp: normal_def word_unat_eq_iff word_nat)
  next
    case False
    with 1 have "normal (mag_of (n div 256))" "mag_of (n div 256) \<noteq> []"
      using be_val_mag_of [of "n div 256"] by (auto simp del: be_val_mag_of)
    then show ?thesis by (subst mag_of.simps) (simp add: normal_def)
  qed
qed

lemma mag_of_be_val [simp]: "normal m \<Longrightarrow> mag_of (be_val m) = m"
  by (rule be_val_inj) simp_all

lemma mag_of_eq_Nil [simp]: "mag_of n = [] \<longleftrightarrow> n = 0"
  using be_val_0_iff [of "mag_of n"] by simp

lemma TrimLeadingZeros_mag_of: "TrimLeadingZeros m = mag_of (be_val m)"
  by (rule be_val_inj) simp_all

lemma ParseDigits_loop_eq:
  "map_option TrimLeadingZeros (ParseDigits_loop s m)
     = (if list_all IsDigit s then Some (mag_of (digits_val (be_val m) s)) else None)"
proof (cases "list_all IsDigit s")
  case True
  then obtain r where r: "ParseDigits_loop s m = Some r" using ParseDigits_loop_Some by blast
  with ParseDigits_loop_val [OF r] True show ?thesis by (simp add: TrimLeadingZeros_mag_of)
next
  case False
  then have "ParseDigits_loop s m = None" using ParseDigits_loop_Some by (metis not_None_eq)
  with False show ?thesis by simp
qed

lemma ParseDigits_mid:
  "ParseDigits (pre @ ds @ post) (length pre) (length pre + length ds) m =
    (if ds \<noteq> [] \<and> list_all IsDigit ds then Some (mag_of (digits_val (be_val m) ds)) else None)"
  by (simp add: ParseDigits_def ParseDigits_loop_eq)

text \<open>The sign prefix a literal may have.\<close>

definition split_sign :: "string \<Rightarrow> bool \<times> string \<times> string" where
  "split_sign s = (case s of [] \<Rightarrow> (False, [], [])
     | c # cs \<Rightarrow> if c = CHR ''-'' then (True, [c], cs) else if c = CHR ''+'' then (False, [c], cs) else (False, [], s))"

lemma literal_sign_split:
  "s \<noteq> [] \<Longrightarrow> split_sign s = (neg, sg, r) \<Longrightarrow> s = sg @ r \<and> literal_sign s = (neg, length sg)"
  by (cases s) (auto simp: split_sign_def literal_sign_def split: if_splits)

lemma ParseBigInt_split:
  assumes "split_sign s = (neg, sg, ds)"
  shows "ParseBigInt s = (if ds \<noteq> [] \<and> list_all IsDigit ds
    then Some \<lparr>bi_abs = mag_of (digits_val 0 ds), bi_negative = (neg \<and> digits_val 0 ds \<noteq> 0)\<rparr> else None)"
proof (cases "s = []")
  case True
  with assms show ?thesis by (auto simp: ParseBigInt_def split_sign_def)
next
  case False
  from literal_sign_split [OF False assms] have "s = sg @ ds" "literal_sign (sg @ ds) = (neg, length sg)" by auto
  with False ParseDigits_mid [of sg ds "[]" "[]"] show ?thesis
    by (auto simp: ParseBigInt_def)
qed

lemma find_dot_none: "CHR ''.'' \<notin> set ip \<Longrightarrow> find_dot (sg @ ip) (length sg) = length sg + length ip"
  by (simp add: find_dot_def) (subst takeWhile_eq_all_conv [THEN iffD2], auto)

lemma find_dot_some:
  "CHR ''.'' \<notin> set ip \<Longrightarrow> find_dot (sg @ ip @ CHR ''.'' # f) (length sg) = length sg + length ip"
  by (simp add: find_dot_def) (subst takeWhile_append2, auto)

lemma digits_no_dot: "list_all IsDigit ip \<Longrightarrow> CHR ''.'' \<notin> set ip"
  by (auto simp: list_all_iff)

lemma ParseDecimal_int:
  assumes "split_sign s = (neg, sg, ip)" "ip \<noteq> []" "list_all IsDigit ip"
  shows "ParseDecimal s = Some \<lparr>dec_unscaled = mag_of (digits_val 0 ip), dec_scale = 0,
    dec_negative = (neg \<and> digits_val 0 ip \<noteq> 0)\<rparr>"
proof -
  have "s \<noteq> []" using assms by (auto simp: split_sign_def)
  with literal_sign_split [OF this assms(1)] ParseDigits_mid [of sg ip "[]" "[]"] assms
    find_dot_none [OF digits_no_dot [OF assms(3)], of sg]
  show ?thesis by (auto simp: ParseDecimal_def Let_def TrimLeadingZeros_mag_of)
qed

lemma ParseDecimal_frac:
  assumes "split_sign s = (neg, sg, ip @ CHR ''.'' # f)" "ip \<noteq> []" "list_all IsDigit (ip @ f)" "length f < 2 ^ 31"
  shows "ParseDecimal s = Some \<lparr>dec_unscaled = mag_of (digits_val 0 (ip @ f)), dec_scale = int (length f),
    dec_negative = (neg \<and> digits_val 0 (ip @ f) \<noteq> 0)\<rparr>"
proof -
  have ne: "s \<noteq> []" using assms by (auto simp: split_sign_def)
  have dg: "list_all IsDigit ip" "list_all IsDigit f" using assms(3) by simp_all
  from literal_sign_split [OF ne assms(1)]
  have s: "s = sg @ ip @ CHR ''.'' # f" "literal_sign s = (neg, length sg)" by blast+
  have int: "ParseDigits s (length sg) (length sg + length ip) [] = Some (mag_of (digits_val 0 ip))"
    using ParseDigits_mid [of sg ip "CHR ''.'' # f" "[]"] dg assms(2) by (simp add: s(1))
  obtain m1 where m1: "ParseDigits_loop f (mag_of (digits_val 0 ip)) = Some m1"
    using ParseDigits_loop_Some dg(2) by blast
  have v1: "be_val m1 = digits_val 0 (ip @ f)" using ParseDigits_loop_val [OF m1] by simp
  have dot: "find_dot s (length sg) = length sg + length ip"
    using find_dot_some [OF digits_no_dot [OF dg(1)]] by (simp add: s(1))
  have len: "length s = length sg + length ip + 1 + length f" by (simp add: s(1))
  have "drop (length sg + length ip + 1) s = f" by (simp add: s(1))
  with ne s(2) int dot len assms(2,4) m1 v1 show ?thesis
    by (cases "f = []") (auto simp: ParseDecimal_def Let_def TrimLeadingZeros_mag_of)
qed

lemma SignificantDigits_loop_le: "SignificantDigits_loop s l n \<le> n + length s"
proof (induction s arbitrary: l n)
  case (Cons c s)
  from Cons [of False "n + 1"] Cons [of l n] show ?case by auto
qed simp

lemma SignificantDigits_le: "SignificantDigits s \<le> length s"
  using SignificantDigits_loop_le [of s True 0] by (simp add: SignificantDigits_def)

lemma BoundLiteral_Inr [simp]:
  "BoundLiteral k s = Inr t \<longleftrightarrow> t = s \<and> SignificantDigits s \<le> kMaxNumericLiteralDigits"
  using SignificantDigits_le [of s] by (auto simp: BoundLiteral_def)

lemma SignificantDigits_digits: "list_all IsDigit s \<Longrightarrow> SignificantDigits_loop s False n = n + length s"
  by (induction s arbitrary: n) auto

lemma hd_to_string: "0 < n \<Longrightarrow> hd (to_string n) \<noteq> CHR ''0''"
proof (induction n rule: to_string.induct)
  case (1 n)
  show ?case
  proof (cases "n < 10")
    case True
    have "digit_val (digit_char n) = n" using True by simp
    with "1.prems" have "digit_char n \<noteq> CHR ''0''" by (auto simp: digit_val_def)
    with True show ?thesis by (subst to_string.simps) simp
  next
    case False
    with 1 show ?thesis by (subst to_string.simps) simp
  qed
qed

lemma SignificantDigits_to_string:
  "SignificantDigits (to_string n) = (if n = 0 then 0 else length (to_string n))"
proof (cases "n = 0")
  case True
  then show ?thesis by (subst to_string.simps) (simp add: SignificantDigits_def digit_char_0)
next
  case False
  obtain c cs where c: "to_string n = c # cs" by (cases "to_string n") auto
  with hd_to_string [of n] to_string_digits [of n] False show ?thesis
    by (simp add: SignificantDigits_def SignificantDigits_digits)
qed

lemma SignificantDigits_minus [simp]: "SignificantDigits (CHR ''-'' # s) = SignificantDigits s"
  by (simp add: SignificantDigits_def)

lemma split_sign_minus [simp]: "split_sign (CHR ''-'' # s) = (True, ''-'', s)"
  by (simp add: split_sign_def)

lemma split_sign_digits [simp]: "list_all IsDigit s \<Longrightarrow> s \<noteq> [] \<Longrightarrow> split_sign (s @ t) = (False, [], s @ t)"
  by (cases s) (auto simp: split_sign_def)


lemma FormatDecimal_ParseDecimal:
  assumes "FormatDecimal v = Inr s"
  shows "ParseDecimal s = Some \<lparr>dec_unscaled = mag_of (be_val (dec_unscaled v) * 10 ^ nat (- dec_scale v)),
    dec_scale = max 0 (dec_scale v), dec_negative = (dec_negative v \<and> be_val (dec_unscaled v) \<noteq> 0)\<rparr>"
proof -
  let ?n = "be_val (dec_unscaled v)"
  let ?sg = "if dec_negative v \<and> dec_unscaled v \<noteq> [] then ''-'' else []"
  have bound: "\<bar>dec_scale v\<bar> \<le> 4096"
    using assms by (auto simp: FormatDecimal_def kMaxNumericLiteralDigits_def Let_def split: if_splits)
  show ?thesis
  proof (cases "dec_scale v \<le> 0")
    case True
    let ?z = "if dec_unscaled v \<noteq> [] then replicate (nat (- dec_scale v)) (CHR ''0'') else []"
    have s: "s = ?sg @ to_string ?n @ ?z"
      using assms True bound
      by (auto simp: FormatDecimal_def Let_def FormatMagnitude_val kMaxNumericLiteralDigits_def split: if_splits)
    have sp: "split_sign s = (dec_negative v \<and> dec_unscaled v \<noteq> [], ?sg, to_string ?n @ ?z)"
      by (auto simp: s)
    have "digits_val 0 (to_string ?n @ ?z) = ?n * 10 ^ nat (- dec_scale v)"
      using digits_val_acc [of ?n "replicate (nat (- dec_scale v)) (CHR ''0'')"] by simp
    with ParseDecimal_int [OF sp] True show ?thesis by auto
  next
    case False
    then obtain k where k: "dec_scale v = int k" "0 < k" by (cases "dec_scale v") auto
    let ?d = "zpad (k + 1) ?n"
    let ?ip = "take (length ?d - k) ?d" and ?f = "drop (length ?d - k) ?d"
    have s: "s = ?sg @ ?ip @ CHR ''.'' # ?f"
      using assms False bound k
      by (auto simp: FormatDecimal_def Let_def FormatMagnitude_val kMaxNumericLiteralDigits_def zpad_def split: if_splits)
    have len: "k + 1 \<le> length ?d" by (simp add: zpad_def)
    have dg: "list_all IsDigit ?ip" "list_all IsDigit (?ip @ ?f)"
      using zpad_digits [of "k + 1" ?n] by (auto simp: list_all_iff dest: in_set_takeD)
    have ip: "?ip \<noteq> []" using len by auto
    have sp: "split_sign s = (dec_negative v \<and> dec_unscaled v \<noteq> [], ?sg, ?ip @ CHR ''.'' # ?f)"
      using split_sign_digits [OF dg(1) ip] by (simp add: s)
    have "length ?f = k" using len by simp
    with ParseDecimal_frac [OF sp ip dg(2)] k bound show ?thesis by auto
  qed
qed

lemma FormatBigInt_ParseBigInt:
  assumes "FormatBigInt v = Inr s"
  shows "ParseBigInt s = Some \<lparr>bi_abs = mag_of (be_val (bi_abs v)),
    bi_negative = (bi_negative v \<and> be_val (bi_abs v) \<noteq> 0)\<rparr>"
proof -
  let ?n = "be_val (bi_abs v)" and ?sg = "if bi_negative v \<and> bi_abs v \<noteq> [] then ''-'' else []"
  have "s = ?sg @ to_string ?n" using assms
    by (auto simp: FormatBigInt_def Let_def FormatMagnitude_val split: if_splits)
  then have "split_sign s = (bi_negative v \<and> bi_abs v \<noteq> [], ?sg, to_string ?n)"
    using split_sign_digits [of "to_string ?n" "[]"] by auto
  from ParseBigInt_split [OF this] show ?thesis by auto
qed

lemma FormatBigInt_ok:
  "(\<exists>s. FormatBigInt v = Inr s) \<longleftrightarrow>
     be_val (bi_abs v) = 0 \<or> length (to_string (be_val (bi_abs v))) \<le> kMaxNumericLiteralDigits"
  by (auto simp: FormatBigInt_def Let_def FormatMagnitude_val SignificantDigits_to_string)


section \<open>Properties\<close>

text \<open>C30. A literal that \<open>FormatBigInt\<close> writes is read back by \<open>ParseBigInt\<close> as the same number:
  the magnitude without leading zero bytes, the sign kept unless the number is zero. It refuses
  exactly the numbers of more than 4096 decimal digits.\<close>

theorem bigint_literal_roundtrip:
  "(case FormatBigInt v of
      Inr s \<Rightarrow> ParseBigInt s = Some \<lparr>bi_abs = TrimLeadingZeros (bi_abs v),
                 bi_negative = (bi_negative v \<and> be_val (bi_abs v) \<noteq> 0)\<rparr>
    | Inl e \<Rightarrow> 10 ^ 4096 \<le> be_val (bi_abs v))"
proof (cases "FormatBigInt v")
  case (Inl e)
  then have "\<not> length (to_string (be_val (bi_abs v))) \<le> 4096"
    using FormatBigInt_ok [of v] by (auto simp: kMaxNumericLiteralDigits_def)
  then have "\<not> be_val (bi_abs v) < 10 ^ 4096" using length_to_string [OF _ zero_less_numeral] by blast
  with Inl show ?thesis by (simp only: sum.case not_less)
next
  case (Inr s)
  with FormatBigInt_ParseBigInt [OF Inr] show ?thesis by (simp add: TrimLeadingZeros_mag_of)
qed

text \<open>C31. A literal that \<open>FormatDecimal\<close> writes for a decimal of non-negative scale is read back by
  \<open>ParseDecimal\<close> with the same scale, sign and unscaled magnitude; for a negative scale the
  literal is an integer, and it is read back at scale 0 with the zeros multiplied in, the same number.\<close>

theorem decimal_literal_roundtrip:
  assumes "FormatDecimal v = Inr s"
  shows "\<exists>w. ParseDecimal s = Some w \<and> normal (dec_unscaled w) \<and>
    dec_negative w = (dec_negative v \<and> be_val (dec_unscaled v) \<noteq> 0) \<and>
    (0 \<le> dec_scale v \<longrightarrow> dec_scale w = dec_scale v \<and> be_val (dec_unscaled w) = be_val (dec_unscaled v)) \<and>
    (dec_scale v < 0 \<longrightarrow> dec_scale w = 0 \<and>
       be_val (dec_unscaled w) = be_val (dec_unscaled v) * 10 ^ nat (- dec_scale v))"
  using FormatDecimal_ParseDecimal [OF assms] by auto

theorem decimal_literal_roundtrip_witness:
  "\<exists>w. ParseDecimal ''-1.25'' = Some w \<and> dec_scale w = 2 \<and> dec_negative w \<and> be_val (dec_unscaled w) = 125"
proof -
  let ?v = "\<lparr>dec_unscaled = [125], dec_scale = 2, dec_negative = True\<rparr>"
  have "FormatDecimal ?v = Inr ''-1.25''" by code_simp
  from decimal_literal_roundtrip [OF this] show ?thesis by auto
qed

end
