(* ===== verification/Wire.thy ===== *)
theory Wire
  imports Prelude
begin

text \<open>
  The protobuf wire primitives of \<open>include/protowire/detail/wire.h\<close>: zigzag, base-128 varints,
  tags, fixed-width and length-prefixed fields, and the skipping of an unknown field's value,
  nested groups included. An \<open>Append\<close> function returns the extended buffer. A \<open>Consume\<close> function
  returns \<open>None\<close> for the source's \<open>-1\<close>, and otherwise the out-parameter and the number of bytes
  read; where the source casts that number to \<open>int\<close>, the model does too (\<^const>\<open>ret_int\<close>).
\<close>

section \<open>Operations\<close>

type_synonym WireType = byte
type_synonym FieldNumber = u32

definition kVarint :: WireType where [simp]: "kVarint = 0"
definition kFixed64 :: WireType where [simp]: "kFixed64 = 1"
definition kBytes :: WireType where [simp]: "kBytes = 2"
definition kStartGroup :: WireType where [simp]: "kStartGroup = 3"
definition kEndGroup :: WireType where [simp]: "kEndGroup = 4"
definition kFixed32 :: WireType where [simp]: "kFixed32 = 5"

text \<open>An \<open>int64_t\<close> is its 64 bits; \<open>>>\<close> on it is the arithmetic shift.\<close>

definition EncodeZigZag :: "u64 \<Rightarrow> u64" where
  "EncodeZigZag v = push_bit 1 v XOR signed_drop_bit 63 v"

definition DecodeZigZag :: "u64 \<Rightarrow> u64" where
  "DecodeZigZag v = drop_bit 1 v XOR (- (v AND 1))"

function AppendVarint :: "byte list \<Rightarrow> u64 \<Rightarrow> byte list" where
  "AppendVarint out v =
     (if 0x80 \<le> v then AppendVarint (out @ [ucast v OR 0x80]) (drop_bit 7 v)
      else out @ [ucast v])"
  by pat_completeness auto
termination
  by (relation "measure (\<lambda>(out, v). unat v)") (auto simp: word_nat word_le_nat_alt)

declare AppendVarint.simps [simp del]

definition AppendTag :: "byte list \<Rightarrow> FieldNumber \<Rightarrow> WireType \<Rightarrow> byte list" where
  "AppendTag out num type = AppendVarint out (push_bit 3 (ucast num) OR ucast type)"

definition AppendFixed32 :: "byte list \<Rightarrow> u32 \<Rightarrow> byte list" where
  "AppendFixed32 out v =
     out @ [ucast v, ucast (drop_bit 8 v), ucast (drop_bit 16 v), ucast (drop_bit 24 v)]"

definition AppendFixed64 :: "byte list \<Rightarrow> u64 \<Rightarrow> byte list" where
  "AppendFixed64 out v = out @ map (\<lambda>i. ucast (drop_bit (i * 8) v)) [0..<8]"

definition AppendBytes :: "byte list \<Rightarrow> byte list \<Rightarrow> byte list" where
  "AppendBytes out data = AppendVarint out (of_nat (length data)) @ data"

text \<open>The loop at index \<open>i\<close>, over the bytes from \<open>i\<close> on.\<close>

fun ConsumeVarint_loop :: "byte list \<Rightarrow> nat \<Rightarrow> u64 \<Rightarrow> (u64 \<times> nat) option" where
  "ConsumeVarint_loop [] i v = None"
| "ConsumeVarint_loop (b # bs) i v =
     (if 10 \<le> i then None
      else if i = 9 \<and> 1 < b then None
      else let v' = v OR push_bit (i * 7) (ucast (b AND 0x7f))
           in if b AND 0x80 = 0 then Some (v', i + 1) else ConsumeVarint_loop bs (i + 1) v')"

definition ConsumeVarint :: "byte list \<Rightarrow> (u64 \<times> nat) option" where
  "ConsumeVarint data = ConsumeVarint_loop data 0 0"

definition ConsumeTag :: "byte list \<Rightarrow> ((FieldNumber \<times> WireType) \<times> nat) option" where
  "ConsumeTag data =
     (case ConsumeVarint data of
        None \<Rightarrow> None
      | Some (v, n) \<Rightarrow>
          let field = drop_bit 3 v
          in if field = 0 \<or> 0x7fffffff < field then None
             else Some ((ucast field, ucast (v AND 7)), n))"

definition ConsumeFixed32 :: "byte list \<Rightarrow> (u32 \<times> nat) option" where
  "ConsumeFixed32 data =
     (if length data < 4 then None
      else Some (ucast (data ! 0) OR push_bit 8 (ucast (data ! 1)) OR
                 push_bit 16 (ucast (data ! 2)) OR push_bit 24 (ucast (data ! 3)), 4))"

definition ConsumeFixed64 :: "byte list \<Rightarrow> (u64 \<times> nat) option" where
  "ConsumeFixed64 data =
     (if length data < 8 then None
      else Some (fold (\<lambda>i v. v OR push_bit (i * 8) (ucast (data ! i))) [0..<8] 0, 8))"

definition ConsumeBytes :: "byte list \<Rightarrow> (byte list \<times> nat) option" where
  "ConsumeBytes data =
     (case ConsumeVarint data of
        None \<Rightarrow> None
      | Some (len, n) \<Rightarrow>
          if length data - n < unat len then None
          else ret_int (n + unat len) (take (unat len) (drop n data)))"

definition kFieldValueRecursionLimit :: nat where
  "kFieldValueRecursionLimit = 10000"

text \<open>The value of a field that is not a group: every case of the switch but \<open>kStartGroup\<close>.\<close>

definition ConsumeScalarValue :: "byte list \<Rightarrow> WireType \<Rightarrow> nat option" where
  "ConsumeScalarValue data type =
     (if type = kVarint then map_option snd (ConsumeVarint data)
      else if type = kFixed64 then map_option snd (ConsumeFixed64 data)
      else if type = kBytes then map_option snd (ConsumeBytes data)
      else if type = kFixed32 then map_option snd (ConsumeFixed32 data)
      else None)"

text \<open>
  The loop over nested groups: \<open>opened\<close> is the list of groups entered and not left, the innermost
  at its head (\<open>open.back()\<close>). It returns the rest of the buffer.
\<close>

lemma ConsumeVarint_loop_pos: "ConsumeVarint_loop bs i v = Some (r, n) \<Longrightarrow> i < n \<and> n \<le> i + length bs"
  by (induction bs i v rule: ConsumeVarint_loop.induct) (auto simp: Let_def split: if_splits)

lemma ConsumeVarint_pos: "ConsumeVarint data = Some (v, n) \<Longrightarrow> 0 < n \<and> n \<le> length data"
  using ConsumeVarint_loop_pos [of data 0 0 v n] by (simp add: ConsumeVarint_def)

lemma ConsumeTag_pos: "ConsumeTag data = Some (r, n) \<Longrightarrow> 0 < n \<and> n \<le> length data"
  by (auto simp: ConsumeTag_def Let_def dest: ConsumeVarint_pos split: option.splits if_splits)

function ConsumeGroups :: "byte list \<Rightarrow> FieldNumber list \<Rightarrow> byte list option" where
  "ConsumeGroups data opened =
     (case opened of
        [] \<Rightarrow> Some data
      | back # rest \<Rightarrow>
          (case ConsumeTag data of
             None \<Rightarrow> None
           | Some ((inner, inner_type), n) \<Rightarrow>
               let data' = drop n data
               in if inner_type = kEndGroup then
                    if inner \<noteq> back then None else ConsumeGroups data' rest
                  else if inner_type = kStartGroup then
                    if length opened > kFieldValueRecursionLimit then None
                    else ConsumeGroups data' (inner # opened)
                  else
                    (case ConsumeScalarValue data' inner_type of
                       None \<Rightarrow> None
                     | Some m \<Rightarrow> ConsumeGroups (drop m data') opened)))"
  by pat_completeness auto
termination
  by (relation "measure (\<lambda>(data, opened). length data)") (auto dest: ConsumeTag_pos)

declare ConsumeGroups.simps [simp del]

definition ConsumeFieldValue :: "byte list \<Rightarrow> FieldNumber \<Rightarrow> WireType \<Rightarrow> nat option" where
  "ConsumeFieldValue data num type =
     (if type = kStartGroup then
        (case ConsumeGroups data [num] of
           None \<Rightarrow> None
         | Some rest \<Rightarrow> map_option snd (ret_int (length data - length rest) ()))
      else ConsumeScalarValue data type)"

section \<open>Varints\<close>

lemma AppendVarint_out: "AppendVarint out v = out @ AppendVarint [] v"
proof (induction v arbitrary: out rule: measure_induct_rule [of unat])
  case (less v)
  show ?case
  proof (cases "0x80 \<le> v")
    case True
    then have "unat (drop_bit 7 v) < unat v" by (simp add: word_nat word_le_nat_alt)
    from less.IH [OF this, of "out @ [ucast v OR 0x80]"] less.IH [OF this, of "[ucast v OR 0x80]"] True
    show ?thesis
      by (simp add: AppendVarint.simps [of out v] AppendVarint.simps [of "[]" v])
  next
    case False
    then show ?thesis by (simp add: AppendVarint.simps [of out v] AppendVarint.simps [of "[]" v])
  qed
qed

lemma AppendVarint_step:
  "0x80 \<le> v \<Longrightarrow> AppendVarint [] v = (ucast v OR 0x80) # AppendVarint [] (drop_bit 7 v)"
  "\<not> 0x80 \<le> v \<Longrightarrow> AppendVarint [] v = [ucast v]"
  using AppendVarint_out [of "[ucast v OR 0x80]" "drop_bit 7 v"]
  by (simp_all add: AppendVarint.simps [of "[]" v])

lemma div_128: "(n::nat) < 256 \<Longrightarrow> n div 128 mod 2 = (if n < 128 then 0 else 1)"
  by auto

lemma high_bit: "(b :: byte) AND 0x80 = 0 \<longleftrightarrow> unat b < 128"
proof -
  have "b AND 0x80 = 0 \<longleftrightarrow> \<not> bit (unat b) 7"
    using and_exp_eq_0_iff_not_bit [of b 7] by (simp add: bit_unsigned_iff)
  also have "\<dots> \<longleftrightarrow> unat b < 128"
    using div_128 [OF unat_lt_word(1) [of b]] by (simp add: bit_iff_odd odd_iff_mod_2_eq_one)
  finally show ?thesis .
qed

lemma unat_high_bit: "unat (x OR 0x80 :: byte) = unat x mod 128 + 128"
proof -
  have "x OR 0x80 = (x AND 0x7f) OR push_bit 7 1"
    by (rule bit_word_eqI) (auto simp: bit_simps numeral_eq_Suc less_Suc_eq)
  then show ?thesis
    using or_disjoint_nat(1) [of "unat x mod 128" 7 1] by (simp add: word_nat)
qed

text \<open>The reading of a varint's bytes, least significant group first, and their shape.\<close>

fun leb_val :: "byte list \<Rightarrow> nat" where
  "leb_val [] = 0"
| "leb_val (b # bs) = unat b mod 128 + 128 * leb_val bs"

fun leb_shape :: "byte list \<Rightarrow> bool" where
  "leb_shape [] = False"
| "leb_shape [b] = (unat b < 128)"
| "leb_shape (b # bs) = (128 \<le> unat b \<and> leb_shape bs)"

lemma leb_shape_Cons: "leb_shape (b # bs) \<longleftrightarrow> (if bs = [] then unat b < 128 else 128 \<le> unat b \<and> leb_shape bs)"
  by (cases bs) auto

lemma AppendVarint_leb:
  "leb_shape (AppendVarint [] v) \<and> leb_val (AppendVarint [] v) = unat v"
proof (induction v rule: measure_induct_rule [of unat])
  case (less v)
  show ?case
  proof (cases "0x80 \<le> v")
    case True
    then have d: "unat (drop_bit 7 v) < unat v" by (simp add: word_nat word_le_nat_alt)
    have ne: "AppendVarint [] (drop_bit 7 v) \<noteq> []"
      using less.IH [OF d] by (cases "AppendVarint [] (drop_bit 7 v)") auto
    have "unat (ucast v OR 0x80 :: byte) = unat v mod 128 + 128"
      using unat_high_bit [of "ucast v"] by (simp add: word_nat mod_mod_cancel)
    moreover have "unat v mod 128 + 128 * (unat v div 128) = unat v" by simp
    ultimately show ?thesis
      using less.IH [OF d] ne True by (simp add: AppendVarint_step leb_shape_Cons word_nat)
  next
    case False
    then show ?thesis by (simp add: AppendVarint_step word_nat word_le_nat_alt)
  qed
qed

lemma length_AppendVarint: "unat v < 128 ^ k \<Longrightarrow> 0 < k \<Longrightarrow> length (AppendVarint [] v) \<le> k"
proof (induction k arbitrary: v)
  case (Suc k)
  show ?case
  proof (cases "0x80 \<le> v")
    case True
    then have "0 < k" using Suc.prems by (cases k) (auto simp: word_le_nat_alt)
    moreover have "unat (drop_bit 7 v) < 128 ^ k"
      using Suc.prems by (simp add: word_nat less_mult_imp_div_less mult.commute)
    ultimately show ?thesis using Suc.IH [of "drop_bit 7 v"] True by (simp add: AppendVarint_step)
  next
    case False
    then show ?thesis by (simp add: AppendVarint_step)
  qed
qed simp

lemma AppendVarint_len: "0 < length (AppendVarint [] v)" "length (AppendVarint [] v) \<le> 10"
proof -
  show "length (AppendVarint [] v) \<le> 10"
    using length_AppendVarint [of v 10] unat_lt_word(4) [of v] by simp
  show "0 < length (AppendVarint [] v)"
    using AppendVarint_leb [of v] by (cases "AppendVarint [] v") auto
qed

text \<open>One step of the reader adds a group of seven bits, and never loses one.\<close>

lemma varint_step:
  fixes v :: u64 and b :: byte
  assumes "unat v < 2 ^ (i * 7)" "i < 10" "i = 9 \<longrightarrow> unat b \<le> 1"
  shows "unat (v OR push_bit (i * 7) (ucast (b AND 0x7f) :: u64)) = unat v + 2 ^ (i * 7) * (unat b mod 128)"
    and "i < 9 \<longrightarrow> unat v + 2 ^ (i * 7) * (unat b mod 128) < 2 ^ ((i + 1) * 7)"
proof -
  have x: "unat (ucast (b AND 0x7f) :: u64) = unat b mod 128"
    by (simp add: word_nat mod_mod_cancel)
  have le: "i < 9 \<Longrightarrow> (2::nat) ^ ((i + 1) * 7) \<le> 2 ^ 63"
    by (rule power_increasing) simp_all
  have m: "unat v + 2 ^ (i * 7) * (unat b mod 128) < 2 ^ ((i + 1) * 7)" if "i < 9"
  proof -
    have "unat b mod 128 \<le> 127" using mod_less_divisor [of 128 "unat b"] by linarith
    then have "2 ^ (i * 7) * (unat b mod 128) \<le> 2 ^ (i * 7) * 127" by (rule mult_le_mono2)
    moreover have "(2::nat) ^ ((i + 1) * 7) = 2 ^ (i * 7) * 127 + 2 ^ (i * 7)" by (simp add: power_add)
    ultimately show ?thesis using assms(1) by linarith
  qed
  then show "i < 9 \<longrightarrow> unat v + 2 ^ (i * 7) * (unat b mod 128) < 2 ^ ((i + 1) * 7)" by blast
  have "unat b mod 128 * 2 ^ (i * 7) < 2 ^ 64"
  proof (cases "i = 9")
    case True
    with assms(3) have "unat b mod 128 \<le> 1" by (metis le_trans mod_less_eq_dividend)
    with True show ?thesis by (cases "unat b mod 128") auto
  next
    case False
    with assms(2) have "i < 9" by simp
    with m le show ?thesis by (simp add: mult.commute)
  qed
  with x assms(1) show "unat (v OR push_bit (i * 7) (ucast (b AND 0x7f) :: u64)) = unat v + 2 ^ (i * 7) * (unat b mod 128)"
    by (simp add: unat_or_push_bit mult.commute)
qed

lemma ConsumeVarint_loop_iff:
  assumes "unat v < 2 ^ (i * 7)" "i \<le> 10"
  shows "ConsumeVarint_loop bs i v = Some (r, n) \<longleftrightarrow>
    i < n \<and> n \<le> 10 \<and> n - i \<le> length bs \<and> leb_shape (take (n - i) bs) \<and>
    unat v + 2 ^ (i * 7) * leb_val (take (n - i) bs) = unat r"
  using assms
proof (induction bs arbitrary: i v)
  case (Cons b bs)
  let ?v = "v OR push_bit (i * 7) (ucast (b AND 0x7f)) :: u64"
  show ?case
  proof (cases "i < 10")
    case i: True
    show ?thesis
    proof (cases "i = 9 \<and> 1 < b")
      case True
      have "\<not> (leb_shape (take (n - i) (b # bs)) \<and>
        unat v + 2 ^ (i * 7) * leb_val (take (n - i) (b # bs)) = unat r)" if "n = 10"
        using True that by (auto simp: word_less_nat_alt) (use unat_lt_word(4) [of r] in linarith)
      moreover have "i < n \<Longrightarrow> n \<le> 10 \<Longrightarrow> n = 10" using True by linarith
      ultimately show ?thesis using True by fastforce
    next
      case ok: False
      then have st: "i = 9 \<longrightarrow> unat b \<le> 1" by (auto simp: word_less_nat_alt)
      note vs = varint_step [OF Cons.prems(1) i st]
      show ?thesis
      proof (cases "unat b < 128")
        case small: True
        have "i < n \<Longrightarrow> n - i \<le> length (b # bs) \<Longrightarrow> leb_shape (take (n - i) (b # bs)) \<Longrightarrow> n = i + 1"
          using small by (cases "n - i"; cases "n - i - 1"; cases bs) auto
        moreover have "?v = r \<longleftrightarrow> unat v + 2 ^ (i * 7) * (unat b mod 128) = unat r"
          using vs(1) by (metis word_unat_eq_iff)
        moreover have "ConsumeVarint_loop (b # bs) i v = Some (?v, i + 1)"
          using small i ok by (auto simp: high_bit Let_def)
        ultimately show ?thesis using small i by auto
      next
        case big: False
        with st have i9: "i < 9" using i by linarith
        have IH: "ConsumeVarint_loop bs (i + 1) ?v = Some (r, n) \<longleftrightarrow>
          i + 1 < n \<and> n \<le> 10 \<and> n - (i + 1) \<le> length bs \<and> leb_shape (take (n - (i + 1)) bs) \<and>
          unat ?v + 2 ^ ((i + 1) * 7) * leb_val (take (n - (i + 1)) bs) = unat r"
          using vs i9 by (intro Cons.IH) simp_all
        have go: "ConsumeVarint_loop (b # bs) i v = ConsumeVarint_loop bs (i + 1) ?v"
          using big i9 by (simp add: high_bit Let_def)
        show ?thesis
        proof (cases "i < n")
          case True
          then have k: "take (n - i) (b # bs) = b # take (n - (i + 1)) bs" by (simp add: take_Cons')
          have "leb_shape (b # take (n - (i + 1)) bs) \<longleftrightarrow> leb_shape (take (n - (i + 1)) bs)"
            using big by (auto simp: leb_shape_Cons)
          moreover have "leb_shape (take (n - (i + 1)) bs) \<Longrightarrow> i + 1 < n"
            by (cases "n - (i + 1)") auto
          moreover have "unat v + 2 ^ (i * 7) * leb_val (b # take (n - (i + 1)) bs) =
            unat ?v + 2 ^ ((i + 1) * 7) * leb_val (take (n - (i + 1)) bs)"
            using vs(1) by (simp add: power_add algebra_simps)
          moreover have "n - i \<le> length (b # bs) \<longleftrightarrow> n - (i + 1) \<le> length bs" using True by auto
          ultimately show ?thesis unfolding go IH k using True by metis
        qed (use go IH in auto)
      qed
    qed
  qed auto
qed auto

lemma ConsumeVarint_iff:
  "ConsumeVarint data = Some (v, n) \<longleftrightarrow>
    n \<le> 10 \<and> n \<le> length data \<and> leb_shape (take n data) \<and> leb_val (take n data) = unat v"
  using ConsumeVarint_loop_iff [of 0 0 data v n]
  by (cases n) (auto simp: ConsumeVarint_def)

lemma ConsumeVarint_AppendVarint [simp]:
  "ConsumeVarint (AppendVarint [] v @ rest) = Some (v, length (AppendVarint [] v))"
  by (simp add: ConsumeVarint_iff AppendVarint_leb AppendVarint_len)



section \<open>Zigzag\<close>

lemma bit_EncodeZigZag:
  "k < 64 \<Longrightarrow> bit (EncodeZigZag v) k = (if k = 0 then bit v 63 else bit v (k - 1) \<noteq> bit v 63)"
  by (cases k)
    (auto simp: EncodeZigZag_def bit_xor_iff bit_push_bit_iff bit_signed_drop_bit_iff
      simp del: push_bit_Suc)

lemma bit_DecodeZigZag: "k < 64 \<Longrightarrow> bit (DecodeZigZag v) k = (bit v (k + 1) \<noteq> bit v 0)"
proof -
  have "v AND 1 = of_bool (bit v 0)" by (simp add: and_one_eq mod_2_eq_odd bit_0)
  then show "k < 64 \<Longrightarrow> ?thesis"
    unfolding DecodeZigZag_def by (simp add: bit_xor_iff bit_drop_bit_eq)
qed

lemma DecodeZigZag_EncodeZigZag [simp]: "DecodeZigZag (EncodeZigZag v) = v"
proof (rule bit_word_eqI)
  fix n assume "n < LENGTH(64)"
  then show "bit (DecodeZigZag (EncodeZigZag v)) n = bit v n"
    by (cases "n = 63") (auto simp: bit_DecodeZigZag bit_EncodeZigZag dest: bit_imp_le_length)
qed

lemma EncodeZigZag_DecodeZigZag [simp]: "EncodeZigZag (DecodeZigZag v) = v"
proof (rule bit_word_eqI)
  fix n assume "n < LENGTH(64)"
  then show "bit (EncodeZigZag (DecodeZigZag v)) n = bit v n"
    by (auto simp: bit_DecodeZigZag bit_EncodeZigZag dest: bit_imp_le_length)
qed

lemma EncodeZigZag_uint:
  "uint (EncodeZigZag v) = (if 0 \<le> sint v then 2 * sint v else - 2 * sint v - 1)"
proof -
  have neg: "bit v 63 \<longleftrightarrow> sint v < 0" using bit_last_iff [of v] by simp
  have s: "2 * sint v < 2 ^ 64" "- (2 ^ 64) \<le> 2 * sint v" using sint_lt [of v] sint_ge [of v] by simp_all
  have "EncodeZigZag v = (if bit v 63 then NOT (push_bit 1 v) else push_bit 1 v)"
    by (rule bit_word_eqI) (auto simp: bit_EncodeZigZag bit_not_iff bit_push_bit_iff simp del: push_bit_Suc One_nat_def)
  also have "push_bit 1 v = word_of_int (2 * sint v)" by (simp add: mult.commute)
  finally have "EncodeZigZag v = (if 0 \<le> sint v then word_of_int (2 * sint v) else word_of_int (- 2 * sint v - 1))"
    by (simp add: neg not_eq_complement)
  moreover have "0 \<le> k \<Longrightarrow> k < 2 ^ 64 \<Longrightarrow> uint (word_of_int k :: u64) = k" for k
    by (simp add: uint_word_of_int)
  ultimately show ?thesis using s by (smt (verit))
qed

section \<open>Tags\<close>

lemma unat_tag:
  assumes "unat type < 8"
  shows "unat (push_bit 3 (ucast (num :: FieldNumber)) OR ucast (type :: WireType) :: u64) = unat num * 8 + unat type"
proof -
  have "push_bit 3 (ucast num :: u64) OR ucast type = ucast type OR push_bit 3 (ucast num)"
    by (simp add: or.commute)
  moreover have "unat (ucast num :: u64) = unat num" "unat (ucast type :: u64) = unat type"
   by (simp_all add: word_nat)
  moreover have "unat num * 8 < 18446744073709551616" using unat_lt_word(3) [of num] by linarith
  ultimately show ?thesis
    using assms unat_or_push_bit [of "ucast type :: u64" 3 "ucast num"] by simp
qed

lemma ConsumeTag_AppendTag:
  assumes "0 < num" "num \<le> 0x7fffffff" "unat type < 8"
  shows "ConsumeTag (AppendTag [] num type @ rest) = Some ((num, type), length (AppendTag [] num type))"
proof -
  define v where "v = (push_bit 3 (ucast num) OR ucast type :: u64)"
  have u: "unat v = unat num * 8 + unat type" unfolding v_def by (rule unat_tag [OF assms(3)])
  have d: "unat (drop_bit 3 v) = unat v div 8" "unat (v AND 7) = unat v mod 8"
    by (simp_all add: word_nat)
  have f: "drop_bit 3 v = ucast num"
    using assms by (simp add: word_unat_eq_iff d u) (simp add: word_nat)
  have t: "v AND 7 = ucast type"
    using assms by (simp add: word_unat_eq_iff d u) (simp add: word_nat)
  have "ucast num \<noteq> (0 :: u64)" "\<not> 0x7fffffff < (ucast num :: u64)"
    using assms by (simp_all add: word_nat word_unat_eq_iff word_less_nat_alt word_le_nat_alt)
  then show ?thesis
    by (simp add: ConsumeTag_def AppendTag_def Let_def f t flip: v_def)
qed

section \<open>Fixed-width and length-prefixed fields\<close>

lemma ConsumeFixed64_AppendFixed64 [simp]:
  "ConsumeFixed64 (AppendFixed64 [] v @ rest) = Some (v, length (AppendFixed64 [] v))"
proof -
  have "fold (\<lambda>i w. w OR push_bit (i * 8) (ucast ((AppendFixed64 [] v @ rest) ! i))) [0..<8] 0 =
      fold (\<lambda>i w. w OR push_bit (i * 8) (ucast ((ucast (drop_bit (i * 8) v) :: byte)))) [0..<8] (0 :: u64)"
    by (rule fold_cong) (auto simp: AppendFixed64_def nth_append)
  then show ?thesis
    using le_fold_bytes [of 8 v] by (simp add: ConsumeFixed64_def AppendFixed64_def)
qed

lemma ConsumeFixed32_AppendFixed32 [simp]:
  "ConsumeFixed32 (AppendFixed32 [] v @ rest) = Some (v, length (AppendFixed32 [] v))"
  using le_fold_bytes [of 4 v]
  by (simp add: ConsumeFixed32_def AppendFixed32_def upt_rec numeral_eq_Suc or.assoc)

lemma AppendBytes_out: "AppendBytes out d = out @ AppendBytes [] d"
  using AppendVarint_out [of out] by (simp add: AppendBytes_def)

lemma ConsumeBytes_AppendBytes:
  assumes "length (AppendBytes [] d) < 2 ^ 31"
  shows "ConsumeBytes (AppendBytes [] d @ rest) = Some (d, length (AppendBytes [] d))"
proof -
  have "unat (of_nat (length d) :: u64) = length d"
    using assms by (simp add: AppendBytes_def word_nat)
  then show ?thesis
    using assms ConsumeVarint_AppendVarint [of "of_nat (length d)" "d @ rest"]
    by (simp add: ConsumeBytes_def AppendBytes_def)
qed

lemma ConsumeBytes_length: "ConsumeBytes data = Some (d, n) \<Longrightarrow> n \<le> length data \<and> length d \<le> length data"
  by (auto simp: ConsumeBytes_def dest!: ConsumeVarint_pos ret_int_le split: option.splits if_splits)

interpretation varint: prefix_codec "\<lambda>_. True" "AppendVarint []" ConsumeVarint
  using AppendVarint_len(1) by unfold_locales (simp, blast)

interpretation tag: prefix_codec "\<lambda>(num, type). 0 < num \<and> num \<le> 0x7fffffff \<and> unat type < 8"
  "\<lambda>(num, type). AppendTag [] num type" ConsumeTag
  using AppendVarint_len(1)
  by unfold_locales (auto simp: ConsumeTag_AppendTag, simp add: AppendTag_def)

interpretation fixed32: prefix_codec "\<lambda>_. True" "AppendFixed32 []" ConsumeFixed32
  by unfold_locales (simp, simp add: AppendFixed32_def)

interpretation fixed64: prefix_codec "\<lambda>_. True" "AppendFixed64 []" ConsumeFixed64
  by unfold_locales (simp, simp add: AppendFixed64_def upt_rec)

interpretation lenpref: prefix_codec "\<lambda>d. length (AppendBytes [] d) < 2 ^ 31" "AppendBytes []" ConsumeBytes
  using AppendVarint_len(1)
  by unfold_locales (simp add: ConsumeBytes_AppendBytes, simp add: AppendBytes_def)



section \<open>Skipping unknown fields\<close>

text \<open>
  The reference for \<open>ConsumeFieldValue\<close>: the values a field can carry, a group being a list of
  numbered fields closed by an end tag, and their encoding.
\<close>

datatype field_value =
    FVarint u64
  | FFixed64 u64
  | FBytes "byte list"
  | FFixed32 u32
  | FGroup "(FieldNumber \<times> field_value) list"

fun wire_type :: "field_value \<Rightarrow> WireType" where
  "wire_type (FVarint _) = kVarint"
| "wire_type (FFixed64 _) = kFixed64"
| "wire_type (FBytes _) = kBytes"
| "wire_type (FFixed32 _) = kFixed32"
| "wire_type (FGroup _) = kStartGroup"

fun enc_value :: "FieldNumber \<Rightarrow> field_value \<Rightarrow> byte list" where
  "enc_value num (FVarint v) = AppendVarint [] v"
| "enc_value num (FFixed64 v) = AppendFixed64 [] v"
| "enc_value num (FBytes d) = AppendBytes [] d"
| "enc_value num (FFixed32 v) = AppendFixed32 [] v"
| "enc_value num (FGroup fs) =
     concat (map (\<lambda>(k, x). AppendTag [] k (wire_type x) @ enc_value k x) fs) @ AppendTag [] num kEndGroup"

fun value_ok :: "field_value \<Rightarrow> bool" where
  "value_ok (FBytes d) = (length (AppendBytes [] d) < 2 ^ 31)"
| "value_ok (FGroup fs) = (\<forall>(k, x)\<in>set fs. 0 < k \<and> k \<le> 0x7fffffff \<and> value_ok x)"
| "value_ok _ = True"

text \<open>How many groups are open at the deepest point.\<close>

fun group_depth :: "field_value \<Rightarrow> nat" where
  "group_depth (FGroup fs) = 1 + fold max (map (\<lambda>(k, x). group_depth x) fs) 0"
| "group_depth _ = 0"

lemma ConsumeScalarValue_enc:
  assumes "value_ok x" "wire_type x \<noteq> kStartGroup"
  shows "ConsumeScalarValue (enc_value k x @ rest) (wire_type x) = Some (length (enc_value k x))"
  using assms by (cases x) (simp_all add: ConsumeScalarValue_def ConsumeBytes_AppendBytes)

lemma wire_type_less: "unat (wire_type x) < 8"
  by (cases x) auto

lemma fold_max_le: "fold max xs a \<le> (b::nat) \<longleftrightarrow> a \<le> b \<and> (\<forall>x\<in>set xs. x \<le> b)"
  by (induction xs arbitrary: a) auto

lemma ConsumeGroups_scalar:
  assumes "0 < k" "k \<le> 0x7fffffff" "value_ok x" "wire_type x \<noteq> kStartGroup"
  shows "ConsumeGroups (AppendTag [] k (wire_type x) @ enc_value k x @ rest) (b # os) = ConsumeGroups rest (b # os)"
proof -
  have "wire_type x \<noteq> kEndGroup" by (cases x) auto
  then show ?thesis
    using assms ConsumeTag_AppendTag [OF assms(1,2) wire_type_less, of x "enc_value k x @ rest"]
      ConsumeScalarValue_enc [OF assms(3,4), of k rest]
    by (subst ConsumeGroups.simps) (simp add: Let_def)
qed

lemma ConsumeGroups_end:
  assumes "0 < k" "k \<le> 0x7fffffff"
  shows "ConsumeGroups (AppendTag [] k kEndGroup @ rest) (k # os) = ConsumeGroups rest os"
  using ConsumeTag_AppendTag [OF assms, of kEndGroup rest]
  by (subst ConsumeGroups.simps) (simp add: Let_def)

lemma ConsumeGroups_start:
  assumes "0 < k" "k \<le> 0x7fffffff" "length (b # os) \<le> kFieldValueRecursionLimit"
  shows "ConsumeGroups (AppendTag [] k kStartGroup @ rest) (b # os) = ConsumeGroups rest (k # b # os)"
  using ConsumeTag_AppendTag [OF assms(1,2), of kStartGroup rest] assms(3)
  by (subst ConsumeGroups.simps) (simp add: Let_def)

lemma group_depth_member:
  "(k, x) \<in> set fs \<Longrightarrow> group_depth x < group_depth (FGroup fs)"
  using fold_max_le [of "map (\<lambda>(k, x). group_depth x) fs" 0] by (force simp: less_Suc_eq_le)

lemma ConsumeGroups_enc:
  assumes "wire_type v = kStartGroup" "value_ok v" "0 < num" "num \<le> 0x7fffffff"
    and "length os + group_depth v \<le> kFieldValueRecursionLimit + 1"
  shows "ConsumeGroups (enc_value num v @ rest) (num # os) = ConsumeGroups rest os"
  using assms
proof (induction v arbitrary: num os rest rule: field_value.induct)
  case (FGroup fs)
  have "ConsumeGroups (concat (map (\<lambda>(k, x). AppendTag [] k (wire_type x) @ enc_value k x) gs) @ t) (num # os) =
      ConsumeGroups t (num # os)" if "set gs \<subseteq> set fs" for gs t
    using that
  proof (induction gs)
    case (Cons g gs)
    obtain k x where g: "g = (k, x)" by (cases g)
    with Cons.prems have kx: "(k, x) \<in> set fs" by simp
    with FGroup.prems have ok: "0 < k" "k \<le> 0x7fffffff" "value_ok x" by auto
    show ?case
    proof (cases "wire_type x = kStartGroup")
      case x: True
      have d: "length (num # os) + group_depth x \<le> kFieldValueRecursionLimit + 1"
        using FGroup.prems(5) group_depth_member [OF kx] by simp
      moreover have "0 < group_depth x" using x by (cases x) simp_all
      ultimately have st: "length (num # os) \<le> kFieldValueRecursionLimit" by simp
      have IH: "ConsumeGroups (enc_value k x @ r) (k # num # os) = ConsumeGroups r (num # os)" for r
        using FGroup.IH [OF kx _ x ok(3,1,2) d] by simp
      show ?thesis
        using ConsumeGroups_start [OF ok(1,2) st] IH Cons x g by simp
    next
      case False
      with ConsumeGroups_scalar [OF ok] Cons g show ?thesis by simp
    qed
  qed simp
  from this [of fs] ConsumeGroups_end [OF FGroup.prems(3,4)] FGroup.prems(1) show ?case by simp
qed simp_all

lemma ConsumeFieldValue_enc:
  assumes "value_ok v" "0 < num" "num \<le> 0x7fffffff" "length (enc_value num v) < 2 ^ 31"
    and "group_depth v \<le> kFieldValueRecursionLimit + 1"
  shows "ConsumeFieldValue (enc_value num v @ rest) num (wire_type v) = Some (length (enc_value num v))"
proof (cases "wire_type v = kStartGroup")
  case v: True
  have "ConsumeGroups (enc_value num v @ rest) [num] = ConsumeGroups rest []"
    using assms by (intro ConsumeGroups_enc [OF v]) simp_all
  also have "\<dots> = Some rest" by (subst ConsumeGroups.simps) simp
  finally show ?thesis using assms(4) v by (simp add: ConsumeFieldValue_def)
next
  case False
  with ConsumeScalarValue_enc [OF assms(1)] show ?thesis by (simp add: ConsumeFieldValue_def)
qed

lemma ConsumeScalarValue_length: "ConsumeScalarValue data type = Some n \<Longrightarrow> n \<le> length data"
  by (auto simp: ConsumeScalarValue_def ConsumeFixed32_def ConsumeFixed64_def
      dest: ConsumeVarint_pos ConsumeBytes_length split: if_splits)

lemma ConsumeGroups_Nil [simp]: "ConsumeGroups data [] = Some data"
  by (subst ConsumeGroups.simps) simp

lemma ConsumeGroups_suffix: "ConsumeGroups data os = Some rest \<Longrightarrow> suffix rest data"
proof (induction data os arbitrary: rest rule: ConsumeGroups.induct)
  case (1 data os)
  show ?case
  proof (cases os)
    case Nil
    with "1.prems" show ?thesis by simp
  next
    case (Cons b os')
    note unf = ConsumeGroups.simps [of data "b # os'"]
    from Cons "1.prems" obtain inner ty n where t: "ConsumeTag data = Some ((inner, ty), n)"
      by (auto simp: unf split: option.splits)
    note IH = "1.IH" [OF Cons t refl refl refl]
    have sfx: "suffix rest xs \<Longrightarrow> suffix xs (drop n data) \<Longrightarrow> suffix rest data" for xs
      by (meson suffix_drop suffix_order.trans)
    consider (End) "ty = kEndGroup" | (Start) "ty \<noteq> kEndGroup" "ty = kStartGroup"
      | (Scalar) "ty \<noteq> kEndGroup" "ty \<noteq> kStartGroup" by blast
    then show ?thesis
    proof cases
      case End
      with IH(1) [of rest] "1.prems" Cons t show ?thesis
        by (simp add: unf Let_def sfx split: if_splits)
    next
      case Start
      with IH(2) [of rest] "1.prems" Cons t show ?thesis
        by (simp add: unf Let_def sfx split: if_splits)
    next
      case Scalar
      from Scalar "1.prems" Cons t obtain m where m: "ConsumeScalarValue (drop n data) ty = Some m"
        "ConsumeGroups (drop m (drop n data)) os = Some rest"
        by (auto simp: unf Let_def split: option.splits)
      from IH(3) [OF Scalar m] show ?thesis by (rule sfx) (rule suffix_drop)
    qed
  qed
qed

lemma ConsumeFieldValue_length: "ConsumeFieldValue data num type = Some n \<Longrightarrow> n \<le> length data"
  by (auto simp: ConsumeFieldValue_def dest!: ret_int_le ConsumeGroups_suffix
      dest: ConsumeScalarValue_length split: if_splits option.splits)


section \<open>Properties\<close>

text \<open>The reference reader of a varint: the bytes up to the first one below 128, at most ten of
  them, provided their value fits 64 bits.\<close>

definition ref_varint :: "byte list \<Rightarrow> (u64 \<times> nat) option" where
  "ref_varint data =
     (let k = length (takeWhile (\<lambda>b. 128 \<le> unat b) data) + 1
      in if k \<le> 10 \<and> k \<le> length data \<and> leb_val (take k data) < 2 ^ 64
         then Some (of_nat (leb_val (take k data)), k) else None)"

lemma leb_shape_takeWhile:
  "n \<le> length bs \<Longrightarrow> leb_shape (take n bs) \<longleftrightarrow> n = length (takeWhile (\<lambda>b. 128 \<le> unat b) bs) + 1"
proof (induction bs arbitrary: n)
  case (Cons b bs)
  show ?case
  proof (cases n)
    case (Suc m)
    with Cons show ?thesis by (auto simp: leb_shape_Cons not_le)
  qed simp
qed simp

text \<open>C15. The varint reader agrees with the reference on every input: it accepts exactly the
  little-endian base-128 numbers of at most ten bytes whose value fits 64 bits, returns that value
  and the bytes read, and refuses truncated, overlong and overflowing encodings.\<close>

theorem varint_decodes_reference: "ConsumeVarint data = ref_varint data"
proof (cases "ref_varint data")
  case None
  have "ConsumeVarint data \<noteq> Some (v, n)" for v n
    using None leb_shape_takeWhile [of n data] unat_lt_word(4) [of v]
    by (auto simp: ConsumeVarint_iff ref_varint_def Let_def split: if_splits)
  then show ?thesis using None by (metis not_Some_eq surj_pair)
next
  case (Some r)
  obtain v n where r: "r = (v, n)" by (cases r)
  with Some leb_shape_takeWhile [of n data] have "ConsumeVarint data = Some (v, n)"
    by (auto simp: ConsumeVarint_iff ref_varint_def Let_def word_nat split: if_splits)
  with Some r show ?thesis by simp
qed

text \<open>Every 64-bit value written as a varint takes one to ten bytes appended to the buffer,
  and is read back, with exactly those bytes consumed, whatever follows.\<close>

theorem varint_roundtrip:
  "\<exists>bs. AppendVarint out v = out @ bs \<and> 1 \<le> length bs \<and> length bs \<le> 10 \<and>
     ConsumeVarint (bs @ rest) = Some (v, length bs)"
  using AppendVarint_out [of out v] AppendVarint_len [of v] ConsumeVarint_AppendVarint [of v rest]
  by (intro exI [of _ "AppendVarint [] v"]) (simp add: Suc_le_eq)

text \<open>Zigzag is a bijection on 64-bit values, and maps a signed value to twice it, or to one
  less than twice its magnitude when negative.\<close>

theorem zigzag_bijection:
  "DecodeZigZag (EncodeZigZag v) = v \<and> EncodeZigZag (DecodeZigZag w) = w \<and>
   uint (EncodeZigZag v) = (if 0 \<le> sint v then 2 * sint v else - 2 * sint v - 1)"
  by (simp add: EncodeZigZag_uint)

text \<open>C16. Skipping an unknown field consumes exactly its encoding, for every value the wire can
  carry: scalars, byte strings, and groups nested up to ten thousand deep inside the first, which
  the code follows with an explicit list of open groups.\<close>

theorem skip_consumes_value:
  assumes "value_ok v" "0 < num" "num \<le> 0x7fffffff" "length (enc_value num v) < 2 ^ 31"
    and "group_depth v \<le> kFieldValueRecursionLimit + 1"
  shows "ConsumeFieldValue (enc_value num v @ rest) num (wire_type v) = Some (length (enc_value num v))"
  using assms by (rule ConsumeFieldValue_enc)

theorem skip_consumes_value_witness:
  "ConsumeFieldValue
     (enc_value 7 (FGroup [(1, FVarint 300), (2, FGroup [(3, FBytes [1, 2])])]) @ [0xff]) 7 3 =
     Some (length (enc_value 7 (FGroup [(1, FVarint 300), (2, FGroup [(3, FBytes [1, 2])])])))"
  using skip_consumes_value [of "FGroup [(1, FVarint 300), (2, FGroup [(3, FBytes [1, 2])])]" 7 "[0xff]"]
  by (simp add: AppendBytes_def AppendTag_def AppendVarint.simps kFieldValueRecursionLimit_def)

text \<open>C28. No reader of the wire layer reports more bytes than the buffer holds, and a tag that is
  read has a field number between 1 and \<open>0x7fffffff\<close>.\<close>

theorem consumed_within_buffer:
  "(ConsumeFieldValue data num type = Some n \<longrightarrow> n \<le> length data) \<and>
   (ConsumeBytes data = Some (d, m) \<longrightarrow> m \<le> length data \<and> length d \<le> length data) \<and>
   (ConsumeTag data = Some ((k, t), j) \<longrightarrow> j \<le> length data \<and> 0 < k \<and> k \<le> 0x7fffffff)"
proof (intro conjI impI)
  assume "ConsumeTag data = Some ((k, t), j)"
  then obtain v where v: "ConsumeVarint data = Some (v, j)" "drop_bit 3 v \<noteq> 0" "drop_bit 3 v \<le> 0x7fffffff"
    "k = ucast (drop_bit 3 v)"
    by (auto simp: ConsumeTag_def Let_def not_less split: option.splits if_splits)
  then have "unat k = unat (drop_bit 3 v)" by (simp add: unsigned_ucast_eq word_le_nat_alt take_bit_eq_mod)
  moreover have "unat (drop_bit 3 v) \<noteq> 0" using v(2) by (simp add: word_unat_eq_iff)
  ultimately show "j \<le> length data" "0 < k" "k \<le> 0x7fffffff"
    using ConsumeVarint_pos [OF v(1)] v(3) by (simp_all add: word_le_nat_alt word_less_nat_alt)
qed (auto dest: ConsumeFieldValue_length ConsumeBytes_length)

theorem consumed_within_buffer_witness:
  "ConsumeTag [0x08, 0x96, 0x01] = Some ((1, 0), 1) \<and> (1::nat) \<le> length [0x08, 0x96, 0x01 :: byte]"
  using consumed_within_buffer [of "[0x08, 0x96, 0x01]" 1 0 2 "[]" 0 1 0 1]
  by (simp add: ConsumeTag_def ConsumeVarint_def)

end
