(* ===== verification/BigMsg.thy ===== *)
theory BigMsg
  imports BigText Wire
begin

text \<open>
  The nested messages \<open>pxf.BigInt\<close>, \<open>pxf.Decimal\<close> and \<open>pxf.BigFloat\<close> on the wire: the second half
  of \<open>src/pb/big.cc\<close> and the precision bound of \<open>include/protowire/detail/bigprec.h\<close>. A writer
  returns the extended buffer, or the error, in which case the source has appended nothing.
\<close>

section \<open>Reduction to the smallest scale\<close>

definition kPow10 :: "u32 list" where
  "kPow10 = [1, 10, 100, 1000, 10000, 100000, 1000000, 10000000, 100000000, 1000000000]"

definition kBatchDigits :: int where
  "kBatchDigits = 9"

text \<open>One limb: up to four bytes, the least significant first, at shifts \<open>8 * (i % 4)\<close>.\<close>

fun limb_of :: "nat \<Rightarrow> byte list \<Rightarrow> u32" where
  "limb_of sh [] = 0"
| "limb_of sh (b # bs) = push_bit sh (ucast b) OR limb_of (sh + 8) bs"

function ToLimbs_loop :: "byte list \<Rightarrow> u32 list" where
  "ToLimbs_loop bs = (if bs = [] then [] else limb_of 0 (take 4 bs) # ToLimbs_loop (drop 4 bs))"
  by pat_completeness auto
termination
  by (relation "measure length") auto

declare ToLimbs_loop.simps [simp del]

definition ToLimbs :: "mag \<Rightarrow> u32 list" where
  "ToLimbs m = ToLimbs_loop (rev m)"

definition FromLimbs :: "u32 list \<Rightarrow> mag" where
  "FromLimbs limbs = TrimLeadingZeros (rev (concat (map (\<lambda>l. map (\<lambda>k. ucast (drop_bit (8 * k) l)) [0..<4]) limbs)))"

fun MultiplyLimbs_loop :: "u32 list \<Rightarrow> u32 \<Rightarrow> u64 \<Rightarrow> u32 list \<times> u64" where
  "MultiplyLimbs_loop [] factor carry = ([], carry)"
| "MultiplyLimbs_loop (limb # limbs) factor carry =
     (let v = ucast limb * ucast factor + carry;
          (ls, c) = MultiplyLimbs_loop limbs factor (drop_bit 32 v)
      in (ucast v # ls, c))"

definition MultiplyLimbs :: "u32 list \<Rightarrow> u32 \<Rightarrow> u32 list" where
  "MultiplyLimbs limbs factor =
     (let (ls, carry) = MultiplyLimbs_loop limbs factor 0
      in if carry \<noteq> 0 then ls @ [ucast carry] else ls)"

text \<open>The loop runs from the most significant limb; its argument is the reversed vector.\<close>

fun DivideLimbs_loop :: "u32 list \<Rightarrow> u32 \<Rightarrow> u64 \<Rightarrow> u32 list \<times> u64" where
  "DivideLimbs_loop [] divisor rem = ([], rem)"
| "DivideLimbs_loop (limb # limbs) divisor rem =
     (let cur = push_bit 32 rem OR ucast limb;
          (q, r) = DivideLimbs_loop limbs divisor (cur mod ucast divisor)
      in (ucast (cur div ucast divisor) # q, r))"

definition DivideLimbs :: "u32 list \<Rightarrow> u32 \<Rightarrow> u32 list \<times> u32" where
  "DivideLimbs limbs divisor =
     (let (q, rem) = DivideLimbs_loop (rev limbs) divisor 0
      in (rev (dropWhile (\<lambda>l. l = 0) q), ucast rem))"

function Reduce_up :: "u32 list \<Rightarrow> int \<Rightarrow> u32 list \<times> int" where
  "Reduce_up limbs scale =
     (if scale < 0 then
        let step = min kBatchDigits (- scale)
        in Reduce_up (MultiplyLimbs limbs (kPow10 ! nat step)) (scale + step)
      else (limbs, scale))"
  by pat_completeness auto
termination
  by (relation "measure (\<lambda>(limbs, scale). nat (- scale))") (auto simp: kBatchDigits_def)

declare Reduce_up.simps [simp del]

text \<open>The inner loop for one \<open>step\<close>, which is 9 or 1.\<close>

function Reduce_down :: "int \<Rightarrow> u32 list \<Rightarrow> int \<Rightarrow> u32 list \<times> int" where
  "Reduce_down step limbs scale =
     (if 0 < step \<and> step \<le> scale then
        let (quotient, rem) = DivideLimbs limbs (kPow10 ! nat step)
        in if rem = 0 then Reduce_down step quotient (scale - step) else (limbs, scale)
      else (limbs, scale))"
  by pat_completeness auto
termination
  by (relation "measure (\<lambda>(step, limbs, scale). nat scale)") auto

declare Reduce_down.simps [simp del]

definition Reduce :: "mag \<Rightarrow> int \<Rightarrow> mag \<times> int" where
  "Reduce unscaled scale =
     (let (l0, s0) = Reduce_up (ToLimbs unscaled) scale;
          (l1, s1) = Reduce_down kBatchDigits l0 s0;
          (l2, s2) = Reduce_down 1 l1 s1
      in (FromLimbs l2, s2))"

section \<open>The precision bound\<close>

definition kLog10Of2 :: u64 where
  "kLog10Of2 = 0x4d104d427de7fbcc"

definition Pow2Digits :: "u32 \<Rightarrow> int" where
  "Pow2Digits p =
     (let high = ucast p * drop_bit 32 kLog10Of2;
          low = ucast p * (kLog10Of2 AND 0xffffffff)
      in uint (drop_bit 32 (high + drop_bit 32 low)) + 1)"

definition BigFloatPrecDigits :: "u32 \<Rightarrow> int" where
  "BigFloatPrecDigits prec = Pow2Digits prec + 1"

section \<open>Writers\<close>

text \<open>A \<open>bool\<close> field, written only when set.\<close>

definition append_flag :: "byte list \<Rightarrow> FieldNumber \<Rightarrow> bool \<Rightarrow> byte list" where
  "append_flag out num b = (if b then AppendVarint (AppendTag out num kVarint) 1 else out)"

definition MarshalBigIntMsg :: "BigInt \<Rightarrow> byte list \<Rightarrow> byte list" where
  "MarshalBigIntMsg v out =
     (let out1 = (if bi_abs v \<noteq> [] then AppendBytes (AppendTag out 1 kBytes) (bi_abs v) else out)
      in append_flag out1 2 (bi_negative v))"

definition MarshalDecimalMsg :: "Decimal \<Rightarrow> byte list \<Rightarrow> string + byte list" where
  "MarshalDecimalMsg v out =
     (let unscaled0 = TrimLeadingZeros (dec_unscaled v)
      in if unscaled0 = [] then Inr out
         else
           let (unscaled, scale) =
                 (if - int kMaxNumericLiteralDigits \<le> dec_scale v \<and> dec_scale v \<noteq> 0
                  then Reduce unscaled0 (dec_scale v) else (unscaled0, dec_scale v))
           in if int kMaxNumericLiteralDigits < scale \<or> scale < - int kMaxNumericLiteralDigits
              then Inl (''pxf.Decimal scale '' @ to_string_int scale @
                        '' exceeds MaxNumericLiteralDigits='' @ to_string kMaxNumericLiteralDigits)
              else
                let out1 = AppendBytes (AppendTag out 1 kBytes) unscaled;
                    out2 = (if scale \<noteq> 0 then AppendVarint (AppendTag out1 2 kVarint) (of_int scale) else out1)
                in Inr (append_flag out2 3 (dec_negative v)))"

text \<open>The fields of a non-zero-precision \<open>BigFloat\<close>, from \<open>if (!mantissa.empty())\<close> on.\<close>

definition append_bigfloat :: "byte list \<Rightarrow> mag \<Rightarrow> int \<Rightarrow> u32 \<Rightarrow> bool \<Rightarrow> byte list" where
  "append_bigfloat out mantissa exponent prec neg =
     (let out1 = (if mantissa \<noteq> [] then AppendBytes (AppendTag out 1 kBytes) mantissa else out);
          out2 = (if exponent \<noteq> 0 then AppendVarint (AppendTag out1 2 kVarint) (of_int exponent) else out1);
          out3 = AppendVarint (AppendTag out2 3 kVarint) (ucast prec)
      in append_flag out3 4 neg)"

definition MarshalBigFloatMsg :: "BigFloat \<Rightarrow> byte list \<Rightarrow> string + byte list" where
  "MarshalBigFloatMsg v out =
     (if bf_prec v = 0 then Inr (append_flag out 4 (bf_negative v))
      else if int kMaxNumericLiteralDigits < BigFloatPrecDigits (bf_prec v)
      then Inl (''pxf.BigFloat prec '' @ to_string (unat (bf_prec v)) @ '' implies '' @
                to_string_int (BigFloatPrecDigits (bf_prec v)) @
                '' digits; MaxNumericLiteralDigits='' @ to_string kMaxNumericLiteralDigits)
      else
        let prec = uint (bf_prec v);
            mantissa = TrimLeadingZeros (bf_mantissa v)
        in if mantissa = [] then Inr (append_bigfloat out [] 0 (bf_prec v) (bf_negative v))
           else
             let bits0 = BitLen mantissa;
                 mantissa1 = (if prec < bits0 then ShiftRightRounded mantissa (nat (bits0 - prec)) else mantissa);
                 exponent = (if prec < bits0 then bf_exponent v + (bits0 - prec) else bf_exponent v);
                 bits = BitLen mantissa1;
                 widened = exponent + bits - prec;
                 binary = widened + prec
             in if widened < - (2 ^ 31) \<or> 2 ^ 31 - 1 < widened
                then Inl (''pxf.BigFloat exponent '' @ to_string_int widened @ '' does not fit int32'')
                else if int kMaxBigFloatExponent < binary \<or> binary < - int kMaxBigFloatExponent
                then Inl (''pxf.BigFloat binary exponent '' @ to_string_int binary @
                          '' exceeds MaxBigFloatExponent='' @ to_string kMaxBigFloatExponent)
                else
                  let mantissa2 = (if prec < bits then ShiftRightRounded mantissa1 (nat (bits - prec))
                                   else ShiftLeft mantissa1 (nat (prec - bits)))
                  in Inr (append_bigfloat out mantissa2 widened (bf_prec v) (bf_negative v)))"

section \<open>Readers\<close>

text \<open>
  The loop over the fields of a message. The callback returns the updated message and the bytes
  it consumed, 0 for a field it does not know, which is skipped.
\<close>

function ReadFields :: "string \<Rightarrow> (byte list \<Rightarrow> FieldNumber \<Rightarrow> 'm \<Rightarrow> string + 'm \<times> nat) \<Rightarrow> byte list \<Rightarrow> 'm \<Rightarrow> string + 'm" where
  "ReadFields message f data out =
     (if data = [] then Inr out
      else case ConsumeTag data of
          None \<Rightarrow> Inl (''corrupt tag in '' @ message)
        | Some ((num, type), n) \<Rightarrow>
            let data1 = drop n data
            in (case f data1 num out of
                  Inl e \<Rightarrow> Inl e
                | Inr (out1, consumed) \<Rightarrow>
                    if consumed = 0 then
                      (case ConsumeFieldValue data1 num type of
                         None \<Rightarrow> Inl (''corrupt field '' @ to_string (unat num) @ '' in '' @ message)
                       | Some skipped \<Rightarrow> ReadFields message f (drop skipped data1) out1)
                    else ReadFields message f (drop consumed data1) out1))"
  by pat_completeness auto
termination
  by (relation "measure (\<lambda>(message, f, data, out). length data)") (auto dest!: ConsumeTag_pos)

declare ReadFields.simps [simp del]

text \<open>\<open>static_cast<int32_t>\<close> of a varint: the low 32 bits, read as signed.\<close>

definition to_int32 :: "u64 \<Rightarrow> int" where
  "to_int32 x = sint (ucast x :: u32)"

text \<open>A field read as bytes, or as a varint, and stored; \<open>err\<close> is the message of a corrupt one.\<close>

definition read_bytes :: "string \<Rightarrow> byte list \<Rightarrow> (byte list \<Rightarrow> 'm) \<Rightarrow> string + 'm \<times> nat" where
  "read_bytes err d f = (case ConsumeBytes d of None \<Rightarrow> Inl err | Some (b, n) \<Rightarrow> Inr (f b, n))"

definition read_varint :: "string \<Rightarrow> byte list \<Rightarrow> (u64 \<Rightarrow> 'm) \<Rightarrow> string + 'm \<times> nat" where
  "read_varint err d f = (case ConsumeVarint d of None \<Rightarrow> Inl err | Some (x, n) \<Rightarrow> Inr (f x, n))"

definition BigInt_field :: "byte list \<Rightarrow> FieldNumber \<Rightarrow> BigInt \<Rightarrow> string + BigInt \<times> nat" where
  "BigInt_field d num v =
     (if num = 1 then read_bytes ''corrupt abs in BigInt'' d (\<lambda>b. v\<lparr>bi_abs := b\<rparr>)
      else if num = 2 then read_varint ''corrupt negative in BigInt'' d (\<lambda>x. v\<lparr>bi_negative := x \<noteq> 0\<rparr>)
      else Inr (v, 0))"

definition UnmarshalBigIntMsg :: "byte list \<Rightarrow> string + BigInt" where
  "UnmarshalBigIntMsg data =
     (case ReadFields ''BigInt'' BigInt_field data \<lparr>bi_abs = [], bi_negative = False\<rparr> of
        Inl e \<Rightarrow> Inl e
      | Inr v \<Rightarrow>
          let a = TrimLeadingZeros (bi_abs v)
          in Inr \<lparr>bi_abs = a, bi_negative = (if a = [] then False else bi_negative v)\<rparr>)"

definition Decimal_field :: "byte list \<Rightarrow> FieldNumber \<Rightarrow> Decimal \<Rightarrow> string + Decimal \<times> nat" where
  "Decimal_field d num v =
     (if num = 1 then read_bytes ''corrupt unscaled in Decimal'' d (\<lambda>b. v\<lparr>dec_unscaled := b\<rparr>)
      else if num = 2 then read_varint ''corrupt scale in Decimal'' d (\<lambda>x. v\<lparr>dec_scale := to_int32 x\<rparr>)
      else if num = 3 then read_varint ''corrupt negative in Decimal'' d (\<lambda>x. v\<lparr>dec_negative := x \<noteq> 0\<rparr>)
      else Inr (v, 0))"

definition UnmarshalDecimalMsg :: "byte list \<Rightarrow> int \<Rightarrow> string + Decimal" where
  "UnmarshalDecimalMsg data max_digits0 =
     (let max_digits = (if max_digits0 \<le> 0 then int kMaxNumericLiteralDigits else max_digits0)
      in case ReadFields ''Decimal'' Decimal_field data \<lparr>dec_unscaled = [], dec_scale = 0, dec_negative = False\<rparr> of
           Inl e \<Rightarrow> Inl e
         | Inr v \<Rightarrow>
             if max_digits < dec_scale v \<or> dec_scale v < - max_digits
             then Inl (''pxf.Decimal scale '' @ to_string_int (dec_scale v) @
                       '' exceeds MaxNumericLiteralDigits='' @ to_string_int max_digits)
             else
               let u = TrimLeadingZeros (dec_unscaled v)
               in Inr \<lparr>dec_unscaled = u, dec_scale = dec_scale v,
                       dec_negative = (if u = [] then False else dec_negative v)\<rparr>)"

definition BigFloat_field :: "byte list \<Rightarrow> FieldNumber \<Rightarrow> BigFloat \<Rightarrow> string + BigFloat \<times> nat" where
  "BigFloat_field d num v =
     (if num = 1 then read_bytes ''corrupt mantissa in BigFloat'' d (\<lambda>b. v\<lparr>bf_mantissa := b\<rparr>)
      else if num = 2 then read_varint ''corrupt exponent in BigFloat'' d (\<lambda>x. v\<lparr>bf_exponent := to_int32 x\<rparr>)
      else if num = 3 then read_varint ''corrupt prec in BigFloat'' d (\<lambda>x. v\<lparr>bf_prec := ucast x\<rparr>)
      else if num = 4 then read_varint ''corrupt negative in BigFloat'' d (\<lambda>x. v\<lparr>bf_negative := x \<noteq> 0\<rparr>)
      else Inr (v, 0))"

definition UnmarshalBigFloatMsg :: "byte list \<Rightarrow> int \<Rightarrow> int \<Rightarrow> string + BigFloat" where
  "UnmarshalBigFloatMsg data max_exponent0 max_digits0 =
     (let max_exponent = (if max_exponent0 \<le> 0 then int kMaxBigFloatExponent else max_exponent0);
          max_digits = (if max_digits0 \<le> 0 then int kMaxNumericLiteralDigits else max_digits0)
      in case ReadFields ''BigFloat'' BigFloat_field data
                \<lparr>bf_mantissa = [], bf_exponent = 0, bf_prec = 0, bf_negative = False\<rparr> of
           Inl e \<Rightarrow> Inl e
         | Inr v \<Rightarrow>
             if bf_prec v = 0 then Inr (v\<lparr>bf_mantissa := [], bf_exponent := 0\<rparr>)
             else if max_digits < BigFloatPrecDigits (bf_prec v)
             then Inl (''pxf.BigFloat prec '' @ to_string (unat (bf_prec v)) @ '' implies '' @
                       to_string_int (BigFloatPrecDigits (bf_prec v)) @
                       '' digits; MaxNumericLiteralDigits='' @ to_string_int max_digits)
             else
               let mantissa = TrimLeadingZeros (bf_mantissa v);
                   bits = BitLen mantissa;
                   binary = bf_exponent v + bits;
                   prec = uint (bf_prec v)
               in if bits = 0 then Inr (v\<lparr>bf_mantissa := mantissa, bf_exponent := 0\<rparr>)
                  else if max_exponent < binary \<or> binary < - max_exponent
                  then Inl (''pxf.BigFloat binary exponent '' @ to_string_int binary @
                            '' exceeds MaxBigFloatExponent='' @ to_string_int max_exponent)
                  else
                    let mantissa1 = (if prec < bits then ShiftRightRounded mantissa (nat (bits - prec)) else mantissa);
                        exponent = (if prec < bits then bf_exponent v + (bits - prec) else bf_exponent v)
                    in if 2 ^ 31 - 1 < exponent + BitLen mantissa1
                       then Inl (''pxf.BigFloat exponent '' @ to_string_int (bf_exponent v) @ '' with a '' @
                                 to_string_int bits @ ''-bit mantissa overflows big.Float'')
                       else Inr (v\<lparr>bf_mantissa := mantissa1, bf_exponent := exponent\<rparr>))"

section \<open>Limbs\<close>

fun limbs_val :: "u32 list \<Rightarrow> nat" where
  "limbs_val [] = 0"
| "limbs_val (l # ls) = unat l + 2 ^ 32 * limbs_val ls"

lemma limbs_val_append [simp]: "limbs_val (xs @ ys) = limbs_val xs + (2 ^ 32) ^ length xs * limbs_val ys"
  by (induction xs) (simp_all add: algebra_simps)

lemma limb_of_val: "sh + 8 * length bs \<le> 32 \<Longrightarrow> unat (limb_of sh bs) = 2 ^ sh * le_val bs"
proof (induction bs arbitrary: sh)
  case (Cons b bs)
  then have IH: "unat (limb_of (sh + 8) bs) = le_val bs * 2 ^ (sh + 8)" by (simp add: mult.commute)
  have "unat b * 2 ^ sh < 256 * 2 ^ sh" using unat_lt_word(1) [of b] by simp
  then have lo: "unat b * 2 ^ sh < 2 ^ (sh + 8)" by (simp add: power_add mult.commute)
  also have "\<dots> \<le> (2::nat) ^ 32" using Cons.prems by (intro power_increasing) auto
  finally have pb: "unat (push_bit sh (ucast b) :: u32) = unat b * 2 ^ sh" by (simp add: word_nat)
  have "unat (limb_of sh (b # bs)) = unat b * 2 ^ sh OR le_val bs * 2 ^ (sh + 8)"
    by (simp only: limb_of.simps unsigned_or_eq pb IH)
  also have "\<dots> = unat b * 2 ^ sh + le_val bs * 2 ^ (sh + 8)" by (rule or_disjoint_nat(1) [OF lo])
  finally show ?case by (simp add: power_add algebra_simps)
qed simp

lemma ToLimbs_loop_val: "limbs_val (ToLimbs_loop bs) = le_val bs"
proof (induction bs rule: ToLimbs_loop.induct)
  case (1 bs)
  show ?case
  proof (cases "bs = []")
    case False
    have "le_val bs = le_val (take 4 bs) + 256 ^ length (take 4 bs) * le_val (drop 4 bs)"
      using le_val_append [of "take 4 bs" "drop 4 bs"] by simp
    moreover have "256 ^ length (take 4 bs) * le_val (drop 4 bs) = 2 ^ 32 * le_val (drop 4 bs)"
      by (cases "4 \<le> length bs") (simp_all add: min_def)
    moreover have "unat (limb_of 0 (take 4 bs)) = le_val (take 4 bs)" using limb_of_val [of 0 "take 4 bs"] by simp
    ultimately show ?thesis using 1 False by (subst ToLimbs_loop.simps) simp
  qed (simp add: ToLimbs_loop.simps)
qed

lemma ToLimbs_val [simp]: "limbs_val (ToLimbs m) = be_val m"
  by (simp add: ToLimbs_def ToLimbs_loop_val be_val_def)

lemma limb_bytes: "le_val (map (\<lambda>k. ucast (drop_bit (8 * k) (l::u32))) [0..<4]) = unat l"
proof -
  have b: "unat (ucast (drop_bit n l) :: byte) = unat l div 2 ^ n mod 256" for n by (simp add: word_nat)
  let ?x = "unat l"
  have q: "?x div 65536 = ?x div 256 div 256" "?x div 16777216 = ?x div 256 div 256 div 256"
    by (simp_all add: div_mult2_eq [symmetric])
  have "?x div 256 div 256 div 256 mod 256 = ?x div 256 div 256 div 256"
    using unat_lt_word(3) [of l] by (simp add: div_mult2_eq [symmetric])
  then have "?x mod 256 + 256 * (?x div 256 mod 256 + 256 * (?x div 65536 mod 256 + 256 * (?x div 16777216 mod 256))) = ?x"
    unfolding q by (simp only: mod_mult_div_eq)
  moreover have "?x div 16777216 mod 256 = ?x div 16777216" using unat_lt_word(3) [of l] by simp
  moreover have "unat (ucast l :: byte) = ?x mod 256" using b [of 0] by simp
  ultimately show ?thesis by (simp add: upt_rec b)
qed

lemma FromLimbs_val: "be_val (FromLimbs ls) = limbs_val ls" "normal (FromLimbs ls)"
proof -
  have "le_val (concat (map (\<lambda>l. map (\<lambda>k. ucast (drop_bit (8 * k) l)) [0..<4]) ls)) = limbs_val ls"
    by (induction ls) (simp_all add: limb_bytes del: upt.simps)
  then show "be_val (FromLimbs ls) = limbs_val ls" "normal (FromLimbs ls)" by (simp_all add: FromLimbs_def del: upt.simps)
qed

lemma MultiplyLimbs_loop_val:
  "MultiplyLimbs_loop ls f c = (ls', c') \<Longrightarrow> unat c < 2 ^ 32 \<Longrightarrow>
   length ls' = length ls \<and> unat c' < 2 ^ 32 \<and>
   limbs_val ls' + (2 ^ 32) ^ length ls * unat c' = unat f * limbs_val ls + unat c"
proof (induction ls arbitrary: c ls' c')
  case (Cons l ls)
  let ?v = "ucast l * ucast f + c :: u64"
  have "unat l * unat f \<le> (2 ^ 32 - 1) * (2 ^ 32 - 1)"
    using unat_lt_word(3) [of l] unat_lt_word(3) [of f] by (intro mult_le_mono) simp_all
  then have le: "unat l * unat f + unat c < 2 ^ 64" using Cons.prems(2) by simp
  then have v: "unat ?v = unat l * unat f + unat c"
    by (simp add: unat_word_ariths word_nat)
  have d: "unat (drop_bit 32 ?v) = unat ?v div 2 ^ 32" by (simp only: unat_drop_bit_eq drop_bit_eq_div [where ?'a = nat])
  have lo: "unat (ucast ?v :: u32) = unat ?v mod 2 ^ 32" by (simp only: unsigned_ucast_eq take_bit_eq_mod) simp
  obtain r e where re: "MultiplyLimbs_loop ls f (drop_bit 32 ?v) = (r, e)" by fastforce
  have "unat (drop_bit 32 ?v) < 2 ^ 32" unfolding d v using le by (simp add: less_mult_imp_div_less)
  note IH = Cons.IH [OF re this]
  have res: "ls' = ucast ?v # r" "c' = e" using Cons.prems(1) re by (simp_all add: Let_def)
  from IH have "limbs_val r + (2 ^ 32) ^ length ls * unat e = unat f * limbs_val ls + unat ?v div 2 ^ 32"
    by (simp only: d)
  from carry_step [OF this] IH show ?case
    by (simp only: res limbs_val.simps lo length_Cons power_Suc v distrib_left) (simp add: algebra_simps)
qed simp

lemma MultiplyLimbs_val: "limbs_val (MultiplyLimbs ls f) = unat f * limbs_val ls"
proof -
  obtain r e where re: "MultiplyLimbs_loop ls f 0 = (r, e)" by fastforce
  from MultiplyLimbs_loop_val [OF re] have v: "length r = length ls" "unat e < 2 ^ 32"
    "limbs_val r + (2 ^ 32) ^ length ls * unat e = unat f * limbs_val ls" by simp_all
  from v(2) have "unat (ucast e :: u32) = unat e" by (simp add: unsigned_ucast_eq take_bit_nat_eq_self)
  with v re show ?thesis by (auto simp: MultiplyLimbs_def)
qed

lemma DivideLimbs_loop_val:
  assumes "0 < d"
  shows "DivideLimbs_loop ls d rem = (q, rem') \<Longrightarrow> unat rem < unat d \<Longrightarrow>
   length q = length ls \<and> unat rem' < unat d \<and>
   unat d * limbs_val (rev q) + unat rem' = unat rem * (2 ^ 32) ^ length ls + limbs_val (rev ls)"
proof (induction ls arbitrary: rem q rem')
  case (Cons l ls)
  let ?c = "push_bit 32 rem OR ucast l :: u64" and ?n = "unat rem * 2 ^ 32 + unat l" and ?P = "(2 ^ 32) ^ length ls :: nat"
  have d: "unat (ucast d :: u64) = unat d" by (simp add: word_nat)
  have rem: "unat rem < 2 ^ 32" using Cons.prems(2) unat_lt_word(3) [of d] by simp
  then have c: "unat ?c = ?n"
    using unat_or_push_bit [of "ucast l :: u64" 32 rem] unat_lt_word(3) [of l]
    by (simp only: or.commute [of "push_bit _ _"]) (simp add: word_nat)
  obtain r m where rm: "DivideLimbs_loop ls d (?c mod ucast d) = (r, m)" by fastforce
  have md: "unat (?c mod ucast d) = ?n mod unat d" by (simp only: unat_mod_distrib c d)
  then have "unat (?c mod ucast d) < unat d" using assms by (simp add: word_less_nat_alt)
  note IH = Cons.IH [OF rm this]
  have res: "q = ucast (?c div ucast d) # r" "rem' = m" using Cons.prems(1) rm by (simp_all add: Let_def)
  have "?n < unat d * 2 ^ 32"
  proof -
    have "?n < (unat rem + 1) * 2 ^ 32" using unat_lt_word(3) [of l] by simp
    also have "\<dots> \<le> unat d * 2 ^ 32" using Cons.prems(2) by (intro mult_le_mono1) simp
    finally show ?thesis .
  qed
  then have "?n div unat d < 2 ^ 32" by (simp only: less_mult_imp_div_less mult.commute)
  then have qd: "unat (ucast (?c div ucast d) :: u32) = ?n div unat d"
    by (simp only: unsigned_ucast_eq unat_div_distrib c d) (simp add: word_nat)
  have "unat d * limbs_val (rev r) + unat m = ?n mod unat d * ?P + limbs_val (rev ls)"
    using IH by (simp only: md)
  moreover have "unat d * (?n div unat d * ?P) + ?n mod unat d * ?P = ?n * ?P"
    using div_mod_scale [of ?n "unat d" ?P] by (simp only: ac_simps)
  ultimately show ?case using IH
    by (simp add: res qd algebra_simps)
qed simp

lemma limbs_val_trim: "limbs_val (rev (dropWhile (\<lambda>l. l = 0) q)) = limbs_val (rev q)"
  by (induction q) simp_all

lemma DivideLimbs_val:
  assumes "DivideLimbs ls d = (q, r)" "0 < d"
  shows "limbs_val q = limbs_val ls div unat d \<and> unat r = limbs_val ls mod unat d"
proof -
  obtain q' r' where qr: "DivideLimbs_loop (rev ls) d 0 = (q', r')" by fastforce
  have d0: "0 < unat d" using assms(2) by (simp add: word_less_nat_alt)
  with DivideLimbs_loop_val [OF assms(2) qr] have v: "unat r' < unat d" "unat d * limbs_val (rev q') + unat r' = limbs_val ls" by simp_all
  from v have "limbs_val (rev q') = limbs_val ls div unat d" "unat r' = limbs_val ls mod unat d"
    by (metis add.right_neutral d0 div_less div_mult_self4 less_numeral_extra(3), metis mod_less mod_mult_self4)
  moreover have "unat (ucast r' :: u32) = unat r'" using v(1) unat_lt_word(3) [of d] by (simp add: word_nat)
  ultimately show ?thesis using assms qr by (auto simp: DivideLimbs_def limbs_val_trim)
qed

lemma kPow10_nth: "k \<le> 9 \<Longrightarrow> unat (kPow10 ! k) = 10 ^ k"
proof -
  assume "k \<le> 9"
  then have "k \<in> {0, 1, 2, 3, 4, 5, 6, 7, 8, 9}" by auto
  then show ?thesis by (auto simp: kPow10_def)
qed

lemma Reduce_up_val:
  "Reduce_up ls s = (ls', s') \<Longrightarrow> s' = max s 0 \<and> limbs_val ls' = limbs_val ls * 10 ^ nat (- s)"
proof (induction ls s rule: Reduce_up.induct)
  case (1 ls s)
  show ?case
  proof (cases "s < 0")
    case True
    let ?st = "min kBatchDigits (- s)"
    have st: "0 < ?st" "?st \<le> 9" "?st \<le> - s" using True by (auto simp: kBatchDigits_def)
    have "Reduce_up (MultiplyLimbs ls (kPow10 ! nat ?st)) (s + ?st) = (ls', s')"
      using "1.prems" True by (subst (asm) Reduce_up.simps) (simp add: Let_def)
    with "1.IH" [OF True refl] have IH: "s' = max (s + ?st) 0"
      "limbs_val ls' = unat (kPow10 ! nat ?st) * limbs_val ls * 10 ^ nat (- (s + ?st))"
      by (simp_all add: MultiplyLimbs_val)
    have "nat (- s) = nat ?st + nat (- (s + ?st))" using st by auto
    then have "10 ^ nat (- s) = (10::nat) ^ nat ?st * 10 ^ nat (- (s + ?st))" by (simp only: power_add)
    moreover have "unat (kPow10 ! nat ?st) = 10 ^ nat ?st" using st by (intro kPow10_nth) auto
    ultimately show ?thesis using IH st by (simp add: mult.commute mult.left_commute)
  next
    case False
    with "1.prems" show ?thesis by (subst (asm) Reduce_up.simps) auto
  qed
qed

lemma Reduce_down_val:
  "Reduce_down step ls s = (ls', s') \<Longrightarrow> 0 < step \<Longrightarrow> step \<le> 9 \<Longrightarrow>
   (\<exists>k. s = s' + step * int k \<and> limbs_val ls = limbs_val ls' * 10 ^ (nat step * k)) \<and>
   (s' < step \<or> \<not> 10 ^ nat step dvd limbs_val ls') \<and> (0 \<le> s \<longrightarrow> 0 \<le> s')"
proof (induction step ls s rule: Reduce_down.induct)
  case (1 step ls s)
  show ?case
  proof (cases "step \<le> s")
    case True
    obtain q r where qr: "DivideLimbs ls (kPow10 ! nat step) = (q, r)" by fastforce
    have p: "unat (kPow10 ! nat step) = 10 ^ nat step" using "1.prems" by (intro kPow10_nth) auto
    then have "0 < kPow10 ! nat step" by (simp add: word_less_nat_alt)
    from DivideLimbs_val [OF qr this] p
    have v: "limbs_val q = limbs_val ls div 10 ^ nat step" "unat r = limbs_val ls mod 10 ^ nat step" by simp_all
    show ?thesis
    proof (cases "r = 0")
      case r0: True
      have "Reduce_down step q (s - step) = (ls', s')"
        using "1.prems" True qr r0 by (subst (asm) Reduce_down.simps) simp
      from "1.IH" [OF _ _ _ r0 this] qr True "1.prems" obtain k where
        k: "s - step = s' + step * int k" "limbs_val q = limbs_val ls' * 10 ^ (nat step * k)"
        and rest: "s' < step \<or> \<not> 10 ^ nat step dvd limbs_val ls'" "0 \<le> s'" by auto
      have "limbs_val ls = limbs_val q * 10 ^ nat step" using v r0 by (simp add: mod_eq_0_iff_dvd)
      then have "limbs_val ls = limbs_val ls' * 10 ^ (nat step * Suc k)" using k(2) by (simp add: power_add)
      moreover have "s = s' + step * int (Suc k)" using k(1) by (simp add: algebra_simps)
      ultimately show ?thesis using rest by blast
    next
      case False
      then have res: "ls' = ls" "s' = s" using "1.prems" True qr by (subst (asm) Reduce_down.simps, simp)+
      have "unat r \<noteq> 0" using False by (simp add: unat_eq_0)
      then have "\<not> 10 ^ nat step dvd limbs_val ls" using v by (simp add: dvd_eq_mod_eq_0)
      with res show ?thesis by (intro conjI exI [of _ 0]) auto
    qed
  next
    case False
    then have "ls' = ls" "s' = s" using "1.prems" by (subst (asm) Reduce_down.simps, simp)+
    with False show ?thesis by (intro conjI exI [of _ 0]) auto
  qed
qed

lemma Reduce_val:
  assumes "Reduce u s = (u', s')"
  shows "normal u' \<and> 0 \<le> s' \<and> s' \<le> max s 0 \<and>
    be_val u * 10 ^ nat (s' - s) = be_val u' * 10 ^ nat (s - s') \<and> (s' = 0 \<or> \<not> 10 dvd be_val u')"
proof -
  obtain l0 s0 where u: "Reduce_up (ToLimbs u) s = (l0, s0)" by fastforce
  obtain l1 s1 where d9: "Reduce_down kBatchDigits l0 s0 = (l1, s1)" by fastforce
  obtain l2 where d1: "Reduce_down 1 l1 s1 = (l2, s')" and u': "u' = FromLimbs l2"
    using assms u d9 by (auto simp: Reduce_def split: prod.splits)
  from Reduce_up_val [OF u] have 0: "s0 = max s 0" "limbs_val l0 = be_val u * 10 ^ nat (- s)" by simp_all
  from Reduce_down_val [OF d9] obtain k where
    k: "s0 = s1 + 9 * int k" "limbs_val l0 = limbs_val l1 * 10 ^ (9 * k)" "0 \<le> s1"
    using 0 by (auto simp: kBatchDigits_def)
  from Reduce_down_val [OF d1] obtain j where
    j: "s1 = s' + int j" "limbs_val l1 = limbs_val l2 * 10 ^ j" "s' < 1 \<or> \<not> 10 dvd limbs_val l2" "0 \<le> s'"
    using k by auto
  have s0: "s0 = s' + int (9 * k + j)" using k(1) j(1) by simp
  have v: "be_val u * 10 ^ nat (- s) = limbs_val l2 * 10 ^ (9 * k + j)"
    using 0 k(2) j(2) by (simp add: power_add algebra_simps)
  show ?thesis
  proof (cases "0 \<le> s")
    case True
    then have "nat (s - s') = 9 * k + j" "nat (s' - s) = 0" "nat (- s) = 0" using 0 s0 by auto
    with v j(3,4) s0 0 u' True FromLimbs_val show ?thesis by auto
  next
    case False
    then have "9 * k + j = 0" "s' = 0" using s0 0 j(4) by auto
    with v j u' False FromLimbs_val show ?thesis by auto
  qed
qed

lemma Pow2Digits_exact: "Pow2Digits p = int (unat p * 0x4d104d427de7fbcc div 2 ^ 64) + 1"
proof -
  let ?p = "unat p" and ?h = "0x4d104d42 :: nat" and ?l = "0x7de7fbcc :: nat"
  have p: "?p < 2 ^ 32" using unat_lt_word(3) [of p] by simp
  have hi: "unat (ucast p * drop_bit 32 kLog10Of2 :: u64) = ?p * ?h"
    using p by (simp add: kLog10Of2_def unat_word_ariths word_nat)
  have lo: "unat (ucast p * (kLog10Of2 AND 0xffffffff) :: u64) = ?p * ?l"
    using p by (simp add: kLog10Of2_def unat_word_ariths word_nat)
  have "unat (ucast p * drop_bit 32 kLog10Of2 + drop_bit 32 (ucast p * (kLog10Of2 AND 0xffffffff)) :: u64)
      = ?p * ?h + ?p * ?l div 2 ^ 32"
    unfolding unat_word_ariths(1) unat_drop_bit_eq hi lo using p by (simp add: drop_bit_eq_div)
  then have "unat (drop_bit 32 (ucast p * drop_bit 32 kLog10Of2 + drop_bit 32 (ucast p * (kLog10Of2 AND 0xffffffff))) :: u64)
      = (?p * ?h + ?p * ?l div 2 ^ 32) div 2 ^ 32"
    unfolding unat_drop_bit_eq by (simp add: drop_bit_eq_div)
  also have "\<dots> = (?p * 0x4d104d427de7fbcc) div 2 ^ 64"
  proof -
    have "?p * 0x4d104d427de7fbcc = ?p * ?l + 2 ^ 32 * (?p * ?h)" by simp
    then have "?p * 0x4d104d427de7fbcc div 2 ^ 32 = ?p * ?h + ?p * ?l div 2 ^ 32"
      by (simp only: div_mult_self2 power_not_zero) simp
    moreover have "(2::nat) ^ 64 = 2 ^ 32 * 2 ^ 32" by simp
    ultimately show ?thesis by (simp only: div_mult2_eq)
  qed
  finally show ?thesis unfolding Pow2Digits_def Let_def uint_nat by (simp only:)
qed

lemma prec_bound: "BigFloatPrecDigits p \<le> int kMaxNumericLiteralDigits \<longleftrightarrow> unat p \<le> 13603"
proof -
  have "unat p * 0x4d104d427de7fbcc div 2 ^ 64 < 4095 \<longleftrightarrow> unat p * 0x4d104d427de7fbcc < 4095 * 2 ^ 64"
    by (rule div_less_iff_less_mult) simp
  also have "\<dots> \<longleftrightarrow> unat p \<le> 13603"
    using mult_right_mono [of "unat p" 13603 "0x4d104d427de7fbcc"] mult_right_mono [of 13604 "unat p" "0x4d104d427de7fbcc"]
    by (cases "unat p \<le> 13603") simp_all
  finally have "unat p * 0x4d104d427de7fbcc div 2 ^ 64 < 4095 \<longleftrightarrow> unat p \<le> 13603" .
  then show ?thesis unfolding BigFloatPrecDigits_def Pow2Digits_exact kMaxNumericLiteralDigits_def by linarith
qed

section \<open>Reading fields\<close>

lemma AppendTag_out: "AppendTag out num type = out @ AppendTag [] num type"
  by (simp add: AppendTag_def AppendVarint_out [of out])

lemma ReadFields_Nil [simp]: "ReadFields msg f [] v = Inr v"
  by (simp add: ReadFields.simps)

lemma ReadFields_step:
  assumes "0 < num" "num \<le> 0x7fffffff" "unat type < 8" "f (d @ rest) num v = Inr (w, length d)" "d \<noteq> []"
  shows "ReadFields msg f (AppendTag [] num type @ d @ rest) v = ReadFields msg f rest w"
proof -
  have "AppendTag [] num type \<noteq> []" using AppendVarint_len(1) by (auto simp: AppendTag_def)
  with assms ConsumeTag_AppendTag [OF assms(1-3), of "d @ rest"] show ?thesis
    by (subst ReadFields.simps) simp
qed

lemma ReadFields_bytes:
  assumes "0 < num" "num \<le> 0x7fffffff" "length (AppendBytes [] b) < 2 ^ 31"
    and "\<And>d. f d num v = read_bytes err d g"
  shows "ReadFields msg f (AppendBytes (AppendTag [] num 2) b @ rest) v = ReadFields msg f rest (g b)"
proof -
  have "AppendBytes [] b \<noteq> []" using AppendVarint_len(1) by (auto simp: AppendBytes_def)
  with assms ConsumeBytes_AppendBytes [OF assms(3), of rest]
  show ?thesis
    by (subst AppendBytes_out) (simp add: ReadFields_step read_bytes_def)
qed

lemma ReadFields_varint:
  assumes "0 < num" "num \<le> 0x7fffffff" "\<And>d. f d num v = read_varint err d g"
  shows "ReadFields msg f (AppendVarint (AppendTag [] num 0) x @ rest) v = ReadFields msg f rest (g x)"
proof -
  have "AppendVarint [] x \<noteq> []" using AppendVarint_len(1) by auto
  with assms show ?thesis
    by (subst AppendVarint_out) (simp add: ReadFields_step read_varint_def)
qed

text \<open>A buffer appended to is the buffer followed by what is appended to an empty one.\<close>

lemma append_out [simp]:
  "AppendBytes (AppendTag out num t) b = out @ AppendBytes (AppendTag [] num t) b"
  "AppendVarint (AppendTag out num t) x = out @ AppendVarint (AppendTag [] num t) x"
  if "out \<noteq> []"
  using that AppendTag_out [of out num t]
  by (metis AppendBytes_out append.assoc, metis AppendVarint_out append.assoc)

lemma to_int32_of_int: "- (2 ^ 31) \<le> s \<Longrightarrow> s < 2 ^ 31 \<Longrightarrow> to_int32 (of_int s) = s"
  by (simp add: to_int32_def sint_uint unsigned_ucast_eq uint_word_of_int_eq signed_take_bit_take_bit
      signed_take_bit_int_eq_self)



lemma append_nonempty [simp]: "AppendBytes out b \<noteq> []" "AppendVarint out x \<noteq> []"
  using AppendVarint_len(1) AppendVarint_out [of out] by (auto simp: AppendBytes_def)

lemma ReadFields_BigInt [simp]:
  "length (AppendBytes [] b) < 2 ^ 31 \<Longrightarrow>
   ReadFields m BigInt_field (AppendBytes (AppendTag [] 1 2) b @ rest) v = ReadFields m BigInt_field rest (v\<lparr>bi_abs := b\<rparr>)"
  "ReadFields m BigInt_field (AppendVarint (AppendTag [] 2 0) x @ rest) v =
   ReadFields m BigInt_field rest (v\<lparr>bi_negative := x \<noteq> 0\<rparr>)"
  by (rule ReadFields_bytes ReadFields_varint; simp add: BigInt_field_def)+

lemma ReadFields_Decimal [simp]:
  "length (AppendBytes [] b) < 2 ^ 31 \<Longrightarrow>
   ReadFields m Decimal_field (AppendBytes (AppendTag [] 1 2) b @ rest) v = ReadFields m Decimal_field rest (v\<lparr>dec_unscaled := b\<rparr>)"
  "ReadFields m Decimal_field (AppendVarint (AppendTag [] 2 0) x @ rest) v =
   ReadFields m Decimal_field rest (v\<lparr>dec_scale := to_int32 x\<rparr>)"
  "ReadFields m Decimal_field (AppendVarint (AppendTag [] 3 0) x @ rest) v =
   ReadFields m Decimal_field rest (v\<lparr>dec_negative := x \<noteq> 0\<rparr>)"
  by (rule ReadFields_bytes ReadFields_varint; simp add: Decimal_field_def)+

lemma ReadFields_BigFloat [simp]:
  "length (AppendBytes [] b) < 2 ^ 31 \<Longrightarrow>
   ReadFields m BigFloat_field (AppendBytes (AppendTag [] 1 2) b @ rest) v = ReadFields m BigFloat_field rest (v\<lparr>bf_mantissa := b\<rparr>)"
  "ReadFields m BigFloat_field (AppendVarint (AppendTag [] 2 0) x @ rest) v =
   ReadFields m BigFloat_field rest (v\<lparr>bf_exponent := to_int32 x\<rparr>)"
  "ReadFields m BigFloat_field (AppendVarint (AppendTag [] 3 0) x @ rest) v =
   ReadFields m BigFloat_field rest (v\<lparr>bf_prec := ucast x\<rparr>)"
  "ReadFields m BigFloat_field (AppendVarint (AppendTag [] 4 0) x @ rest) v =
   ReadFields m BigFloat_field rest (v\<lparr>bf_negative := x \<noteq> 0\<rparr>)"
  by (rule ReadFields_bytes ReadFields_varint; simp add: BigFloat_field_def)+

lemmas ReadFields_end [simp] =
  ReadFields_BigInt [where rest = "[]", simplified] ReadFields_Decimal [where rest = "[]", simplified]
  ReadFields_BigFloat [where rest = "[]", simplified]

lemma UnmarshalBigIntMsg_Marshal:
  assumes "length (AppendBytes [] (bi_abs v)) < 2 ^ 31"
  shows "UnmarshalBigIntMsg (MarshalBigIntMsg v []) =
    Inr \<lparr>bi_abs = TrimLeadingZeros (bi_abs v), bi_negative = (bi_negative v \<and> be_val (bi_abs v) \<noteq> 0)\<rparr>"
proof -
  have "ReadFields ''BigInt'' BigInt_field (MarshalBigIntMsg v []) \<lparr>bi_abs = [], bi_negative = False\<rparr> = Inr v"
    using assms by (cases v) (auto simp: MarshalBigIntMsg_def append_flag_def)
  then show ?thesis by (auto simp: UnmarshalBigIntMsg_def TrimLeadingZeros_mag_of)
qed

lemma length_AppendBytes: "length (AppendBytes [] b) \<le> length b + 10"
  using AppendVarint_len(2) by (simp add: AppendBytes_def)

lemma FromLimbs_mag_of: "FromLimbs ls = mag_of (limbs_val ls)"
  using FromLimbs_val mag_of_be_val by metis

lemma MarshalDecimalMsg_cases:
  assumes "MarshalDecimalMsg v out = Inr bs" "be_val (dec_unscaled v) \<noteq> 0"
  obtains u s where "bs = (let out1 = AppendBytes (AppendTag out 1 kBytes) u;
      out2 = (if s \<noteq> 0 then AppendVarint (AppendTag out1 2 kVarint) (of_int s) else out1)
      in append_flag out2 3 (dec_negative v))"
    "normal u" "\<bar>s\<bar> \<le> 4096" "be_val (dec_unscaled v) * 10 ^ nat (s - dec_scale v) = be_val u * 10 ^ nat (dec_scale v - s)"
    "0 \<le> s \<and> (s = 0 \<or> \<not> 10 dvd be_val u)"
proof -
  let ?u = "TrimLeadingZeros (dec_unscaled v)"
  have ne: "?u \<noteq> []" using assms(2) by (simp add: TrimLeadingZeros_mag_of)
  show ?thesis
  proof (cases "- int kMaxNumericLiteralDigits \<le> dec_scale v \<and> dec_scale v \<noteq> 0")
    case True
    obtain u s where us: "Reduce ?u (dec_scale v) = (u, s)" by fastforce
    from Reduce_val [OF us] have r: "normal u" "0 \<le> s"
      "be_val (dec_unscaled v) * 10 ^ nat (s - dec_scale v) = be_val u * 10 ^ nat (dec_scale v - s)"
      "s = 0 \<or> \<not> 10 dvd be_val u" by auto
    from assms ne us True have m: "\<not> int kMaxNumericLiteralDigits < s"
      "bs = (let out1 = AppendBytes (AppendTag out 1 kBytes) u;
        out2 = (if s \<noteq> 0 then AppendVarint (AppendTag out1 2 kVarint) (of_int s) else out1)
        in append_flag out2 3 (dec_negative v))"
      by (simp_all only: MarshalDecimalMsg_def Let_def prod.case if_True if_False split: if_splits) blast+
    then have "\<bar>s\<bar> \<le> 4096" using r(2) by (simp add: kMaxNumericLiteralDigits_def)
    with m r show ?thesis by (intro that [of u s]) blast+
  next
    case False
    then have eq: "MarshalDecimalMsg v out = (if int kMaxNumericLiteralDigits < dec_scale v
        \<or> dec_scale v < - int kMaxNumericLiteralDigits then Inl (''pxf.Decimal scale '' @ to_string_int (dec_scale v) @
                        '' exceeds MaxNumericLiteralDigits='' @ to_string kMaxNumericLiteralDigits)
        else Inr (let out1 = AppendBytes (AppendTag out 1 kBytes) ?u;
        out2 = (if dec_scale v \<noteq> 0 then AppendVarint (AppendTag out1 2 kVarint) (of_int (dec_scale v)) else out1)
        in append_flag out2 3 (dec_negative v)))"
      using ne unfolding MarshalDecimalMsg_def Let_def by (simp only: if_False prod.case)
    with assms(1) have "\<not> dec_scale v < - int kMaxNumericLiteralDigits" by (simp split: if_splits)
    with False have s0: "dec_scale v = 0" by simp
    show ?thesis
      by (rule that [of ?u 0]) (use assms(1) eq s0 in \<open>simp_all split: if_splits\<close>)
  qed
qed

lemma UnmarshalDecimalMsg_Marshal:
  assumes "MarshalDecimalMsg v [] = Inr bs" "length bs < 2 ^ 31"
  shows "\<exists>w. UnmarshalDecimalMsg bs 0 = Inr w \<and> normal (dec_unscaled w) \<and> 0 \<le> dec_scale w \<and>
    be_val (dec_unscaled v) * 10 ^ nat (dec_scale w - dec_scale v) = be_val (dec_unscaled w) * 10 ^ nat (dec_scale v - dec_scale w) \<and>
    (dec_scale w = 0 \<or> \<not> 10 dvd be_val (dec_unscaled w)) \<and>
    dec_negative w = (dec_negative v \<and> be_val (dec_unscaled v) \<noteq> 0)"
proof (cases "be_val (dec_unscaled v) = 0")
  case True
  with assms have "bs = []" by (simp add: MarshalDecimalMsg_def TrimLeadingZeros_mag_of)
  then have "UnmarshalDecimalMsg bs 0 = Inr \<lparr>dec_unscaled = [], dec_scale = 0, dec_negative = False\<rparr>"
    by (simp add: UnmarshalDecimalMsg_def TrimLeadingZeros_mag_of kMaxNumericLiteralDigits_def)
  with True show ?thesis by simp
next
  case False
  from MarshalDecimalMsg_cases [OF assms(1) False] obtain u s where bs: "bs = (let out1 = AppendBytes (AppendTag [] 1 kBytes) u;
      out2 = (if s \<noteq> 0 then AppendVarint (AppendTag out1 2 kVarint) (of_int s) else out1)
      in append_flag out2 3 (dec_negative v))"
    and r: "normal u" "\<bar>s\<bar> \<le> 4096" "be_val (dec_unscaled v) * 10 ^ nat (s - dec_scale v) = be_val u * 10 ^ nat (dec_scale v - s)"
    "0 \<le> s \<and> (s = 0 \<or> \<not> 10 dvd be_val u)" by blast
  have len: "length (AppendBytes [] u) < 2 ^ 31"
    using assms(2) AppendBytes_out [of "AppendTag [] 1 2" u] by (auto simp: bs Let_def append_flag_def split: if_splits)
  have s: "to_int32 (of_int s) = s" using r(2) by (intro to_int32_of_int) auto
  have rf: "ReadFields ''Decimal'' Decimal_field bs \<lparr>dec_unscaled = [], dec_scale = 0, dec_negative = False\<rparr> =
    Inr \<lparr>dec_unscaled = u, dec_scale = s, dec_negative = dec_negative v\<rparr>"
    using len s by (auto simp: bs Let_def append_flag_def)
  have "u \<noteq> []" using r(3) False by auto
  then have "UnmarshalDecimalMsg bs 0 = Inr \<lparr>dec_unscaled = u, dec_scale = s, dec_negative = dec_negative v\<rparr>"
    using r by (auto simp: UnmarshalDecimalMsg_def rf kMaxNumericLiteralDigits_def)
  with r False show ?thesis by simp
qed

section \<open>BigFloat\<close>

lemma BitLen_unique:
  assumes "normal m" "2 ^ k \<le> be_val m" "be_val m < 2 ^ Suc k"
  shows "BitLen m = int k + 1"
proof -
  have ne: "m \<noteq> []" using assms(2) by auto
  note b = BitLen_bounds [OF assms(1) ne]
  from b(3) assms(3) have "(2::nat) ^ (nat (BitLen m) - 1) < 2 ^ Suc k" by linarith
  then have "nat (BitLen m) - 1 < Suc k" by (rule power_less_imp_less_exp [rotated]) simp
  moreover from b(4) assms(2) have "(2::nat) ^ k < 2 ^ nat (BitLen m)" by linarith
  then have "k < nat (BitLen m)" by (rule power_less_imp_less_exp [rotated]) simp
  ultimately show ?thesis using b(1) by linarith
qed

lemma round_half_even_0 [simp]: "round_half_even x 0 = x"
  by (simp add: round_half_even_def)

lemma round_half_even_bounds:
  assumes "2 ^ (n + k) \<le> x" "x < 2 ^ (n + Suc k)"
  shows "2 ^ k \<le> round_half_even x n" "round_half_even x n \<le> 2 ^ Suc k"
proof -
  have "2 ^ k \<le> x div 2 ^ n" using assms(1) by (simp add: div_greater_zero_iff less_eq_div_iff_mult_less_eq power_add mult.commute)
  moreover have "x div 2 ^ n < 2 ^ Suc k" using assms(2)
    by (simp only: div_less_iff_less_mult zero_less_power zero_less_numeral power_add mult.commute)
  ultimately show "2 ^ k \<le> round_half_even x n" "round_half_even x n \<le> 2 ^ Suc k"
    by (auto simp: round_half_even_def Let_def)
qed

text \<open>What \<open>MarshalBigFloatMsg\<close> does with a non-zero mantissa: round to \<open>prec\<close> bits, then widen.\<close>

definition prec_form :: "mag \<Rightarrow> int \<Rightarrow> int \<Rightarrow> mag \<times> int" where
  "prec_form mantissa e prec =
     (let bits0 = BitLen mantissa;
          mantissa1 = (if prec < bits0 then ShiftRightRounded mantissa (nat (bits0 - prec)) else mantissa);
          exponent = (if prec < bits0 then e + (bits0 - prec) else e);
          bits = BitLen mantissa1
      in (if prec < bits then ShiftRightRounded mantissa1 (nat (bits - prec))
          else ShiftLeft mantissa1 (nat (prec - bits)), exponent + bits - prec))"

lemma prec_form_val:
  assumes "normal m" "m \<noteq> []" "prec = int (Suc k)" "prec_form m e prec = (m2, e2)"
  defines "n \<equiv> nat (BitLen m - prec)"
  shows "2 ^ k \<le> be_val m2" "be_val m2 < 2 ^ Suc k"
    "be_val m2 * 2 ^ nat (e2 - (e + int n)) = round_half_even (be_val m) n * 2 ^ nat (e + int n - e2)"
proof -
  note b = BitLen_bounds [OF assms(1,2)]
  define m1 where "m1 = (if prec < BitLen m then ShiftRightRounded m n else m)"
  have ex: "(if prec < BitLen m then e + (BitLen m - prec) else e) = e + int n" by (auto simp: n_def)
  have m2: "m2 = (if prec < BitLen m1 then ShiftRightRounded m1 (nat (BitLen m1 - prec)) else ShiftLeft m1 (nat (prec - BitLen m1)))"
    and e2: "e2 = e + int n + BitLen m1 - prec"
    using assms(4) by (auto simp: prec_form_def Let_def m1_def n_def)
  have m1: "be_val m1 = round_half_even (be_val m) n \<and> normal m1"
  proof (cases "prec < BitLen m")
    case True
    then have "0 < n" "n < 8 * length m" using b(2) assms(3) by (auto simp: n_def)
    with ShiftRightRounded_val True show ?thesis by (simp add: m1_def)
  next
    case False
    then show ?thesis using assms(1) by (simp add: m1_def n_def)
  qed
  have ne1: "m1 \<noteq> []" and le1: "be_val m1 \<le> 2 ^ Suc k"
  proof -
    have *: "0 < be_val m1 \<and> be_val m1 \<le> 2 ^ Suc k"
    proof (cases "prec < BitLen m")
      case True
      then have "nat (BitLen m) = n + Suc k" using assms(3) by (auto simp: n_def)
      then show ?thesis using round_half_even_bounds [of n k "be_val m"] b(3,4) m1
        by (auto intro: less_le_trans [of 0 "2 ^ k"])
    next
      case False
      then have "nat (BitLen m) \<le> Suc k" using assms(3) by auto
      then have "(2::nat) ^ nat (BitLen m) \<le> 2 ^ Suc k" by (intro power_increasing) auto
      then show ?thesis using b(3,4) False by (auto simp: m1_def intro: less_le_trans [of 0 "2 ^ (nat (BitLen m) - 1)"])
    qed
    then show "m1 \<noteq> []" "be_val m1 \<le> 2 ^ Suc k" by auto
  qed
  have nm1: "normal m1" using m1 by simp
  note b1 = BitLen_bounds [OF nm1 ne1]
  have main: "2 ^ k \<le> be_val m2 \<and> be_val m2 < 2 ^ Suc k \<and> be_val m2 * 2 ^ nat (e2 - (e + int n)) = be_val m1 * 2 ^ nat (e + int n - e2)"
  proof (cases "prec < BitLen m1")
    case True
    then have "Suc k \<le> nat (BitLen m1) - 1" using assms(3) by auto
    then have "(2::nat) ^ Suc k \<le> 2 ^ (nat (BitLen m1) - 1)" by (intro power_increasing) auto
    with b1(3) le1 have v: "be_val m1 = 2 ^ Suc k" by linarith
    with nm1 have bl: "BitLen m1 = prec + 1" using BitLen_unique [of m1 "Suc k"] assms(3) by simp
    then have "1 < 8 * length m1" using b1(2) assms(3) by linarith
    with ShiftRightRounded_val [of 1 m1] True bl v have "be_val m2 = 2 ^ k"
      by (simp add: m2 round_half_even_def)
    then show ?thesis using v e2 bl by simp
  next
    case False
    define j where "j = nat (prec - BitLen m1)"
    have "be_val m2 = be_val m1 * 2 ^ j" using False by (simp add: m2 ShiftLeft_val j_def)
    moreover have "nat (BitLen m1) + j = Suc k" "nat (BitLen m1) - 1 + j = k" using False b1(1) assms(3) by (auto simp: j_def)
    then have "2 ^ Suc k = 2 ^ nat (BitLen m1) * (2::nat) ^ j" "2 ^ k = 2 ^ (nat (BitLen m1) - 1) * (2::nat) ^ j"
      by (metis power_add)+
    moreover have "nat (e2 - (e + int n)) = 0" "nat (e + int n - e2) = j" using e2 False by (auto simp: j_def)
    ultimately show ?thesis using b1(3,4) by simp
  qed
  with m1 show "2 ^ k \<le> be_val m2" "be_val m2 < 2 ^ Suc k"
    "be_val m2 * 2 ^ nat (e2 - (e + int n)) = round_half_even (be_val m) n * 2 ^ nat (e + int n - e2)" by auto
qed

lemma MarshalBigFloatMsg_cases:
  assumes "MarshalBigFloatMsg v out = Inr bs" "bf_prec v \<noteq> 0" "TrimLeadingZeros (bf_mantissa v) \<noteq> []"
  obtains m2 e2 where "prec_form (TrimLeadingZeros (bf_mantissa v)) (bf_exponent v) (uint (bf_prec v)) = (m2, e2)"
    "bs = append_bigfloat out m2 e2 (bf_prec v) (bf_negative v)"
    "- (2 ^ 31) \<le> e2" "e2 < 2 ^ 31" "\<bar>e2 + uint (bf_prec v)\<bar> \<le> int kMaxBigFloatExponent"
    "BigFloatPrecDigits (bf_prec v) \<le> int kMaxNumericLiteralDigits"
proof -
  obtain m2 e2 where me: "prec_form (TrimLeadingZeros (bf_mantissa v)) (bf_exponent v) (uint (bf_prec v)) = (m2, e2)" by fastforce
  show ?thesis
    by (rule that [OF me])
      (use assms me in \<open>simp_all only: MarshalBigFloatMsg_def prec_form_def Let_def prod.inject sum.simps if_False split: if_splits\<close>, auto)
qed

lemma ReadFields_append_bigfloat:
  assumes "length (AppendBytes [] m) < 2 ^ 31" "- (2 ^ 31) \<le> e" "e < 2 ^ 31"
  shows "ReadFields ''BigFloat'' BigFloat_field (append_bigfloat [] m e p neg)
      \<lparr>bf_mantissa = [], bf_exponent = 0, bf_prec = 0, bf_negative = False\<rparr> =
    Inr \<lparr>bf_mantissa = m, bf_exponent = e, bf_prec = p, bf_negative = neg\<rparr>"
  using assms(1) to_int32_of_int [OF assms(2,3)]
  by (auto simp: append_bigfloat_def append_flag_def Let_def)

lemma append_bigfloat_length: "m \<noteq> [] \<Longrightarrow> length (AppendBytes [] m) \<le> length (append_bigfloat [] m e p neg)"
  using AppendBytes_out [of "AppendTag [] 1 2" m]
  by (auto simp: append_bigfloat_def append_flag_def Let_def)

lemma UnmarshalBigFloatMsg_Marshal:
  assumes "MarshalBigFloatMsg v [] = Inr bs" "length bs < 2 ^ 31" "bf_prec v \<noteq> 0" "be_val (bf_mantissa v) \<noteq> 0"
  defines "n \<equiv> nat (BitLen (TrimLeadingZeros (bf_mantissa v)) - uint (bf_prec v))"
  shows "\<exists>w. UnmarshalBigFloatMsg bs 0 0 = Inr w \<and> bf_prec w = bf_prec v \<and> bf_negative w = bf_negative v \<and>
    normal (bf_mantissa w) \<and> BitLen (bf_mantissa w) = uint (bf_prec v) \<and>
    be_val (bf_mantissa w) * 2 ^ nat (bf_exponent w - (bf_exponent v + int n)) =
      round_half_even (be_val (bf_mantissa v)) n * 2 ^ nat (bf_exponent v + int n - bf_exponent w)"
proof -
  let ?m = "TrimLeadingZeros (bf_mantissa v)"
  have ne: "?m \<noteq> []" using assms(4) by (simp add: TrimLeadingZeros_mag_of)
  from MarshalBigFloatMsg_cases [OF assms(1,3) ne] obtain m2 e2
    where me: "prec_form ?m (bf_exponent v) (uint (bf_prec v)) = (m2, e2)"
      and bs: "bs = append_bigfloat [] m2 e2 (bf_prec v) (bf_negative v)"
      and e2: "- (2 ^ 31) \<le> e2" "e2 < 2 ^ 31" "\<bar>e2 + uint (bf_prec v)\<bar> \<le> int kMaxBigFloatExponent"
      and pd: "BigFloatPrecDigits (bf_prec v) \<le> int kMaxNumericLiteralDigits" by blast
  have "0 < unat (bf_prec v)" using assms(3) by (simp add: unat_gt_0)
  then obtain k where k: "uint (bf_prec v) = int (Suc k)" by (metis Suc_pred uint_nat)
  note v = prec_form_val [OF normal_TrimLeadingZeros ne k me, folded n_def]
  have "m2 \<noteq> []" using v(1) by auto
  then have "length (AppendBytes [] m2) < 2 ^ 31"
    using append_bigfloat_length [of m2] assms(2) by (metis bs le_less_trans)
  note rf = ReadFields_append_bigfloat [OF this e2(1,2), of "bf_prec v" "bf_negative v", folded bs]
  let ?t = "TrimLeadingZeros m2"
  have bl: "BitLen ?t = uint (bf_prec v)" using BitLen_unique [of ?t k] v(1,2) k by simp
  have "UnmarshalBigFloatMsg bs 0 0 =
    Inr \<lparr>bf_mantissa = ?t, bf_exponent = e2, bf_prec = bf_prec v, bf_negative = bf_negative v\<rparr>"
    unfolding UnmarshalBigFloatMsg_def rf using assms(3) pd e2 k
    by (simp add: Let_def bl kMaxBigFloatExponent_def) linarith
  with bl v(3) show ?thesis by simp
qed

section \<open>Properties\<close>

text \<open>\<open>Reduce\<close>, working on 32-bit limbs in batches of nine digits, keeps the number
  \<open>unscaled * 10 ^ (-scale)\<close> and returns its smallest non-negative scale: no lower one holds it.\<close>

theorem reduce_smallest_scale:
  "case Reduce u s of (u', s') \<Rightarrow>
     0 \<le> s' \<and> be_val u * 10 ^ nat (s' - s) = be_val u' * 10 ^ nat (s - s') \<and>
     normal u' \<and> (s' = 0 \<or> 0 < be_val u' mod 10)"
  using Reduce_val by (auto simp: dvd_eq_mod_eq_0 split: prod.split)

text \<open>\<open>Pow2Digits\<close>, computed with two 64-bit products, equals the 128-bit product of \<open>p\<close> and
  the fraction of \<open>log10 2\<close> for every 32-bit \<open>p\<close>, so the precisions whose literal has at most 4096
  digits are exactly those up to 13603.\<close>

theorem pow2_digits_exact:
  "Pow2Digits p = int (unat p * unat kLog10Of2 div 2 ^ 64) + 1 \<and>
   (BigFloatPrecDigits p \<le> int kMaxNumericLiteralDigits \<longleftrightarrow> unat p \<le> 13603)"
  using Pow2Digits_exact prec_bound by (simp add: kLog10Of2_def)

text \<open>C22. A \<open>pxf.Decimal\<close> that \<open>MarshalDecimalMsg\<close> writes is accepted by \<open>UnmarshalDecimalMsg\<close>, and
  what it reads is the same number, at its smallest non-negative scale, signed unless it is zero.\<close>

theorem decimal_message_roundtrip:
  assumes "MarshalDecimalMsg v [] = Inr bs" "length bs < 2 ^ 31"
  shows "\<exists>w. UnmarshalDecimalMsg bs 0 = Inr w \<and> normal (dec_unscaled w) \<and> 0 \<le> dec_scale w \<and>
    be_val (dec_unscaled v) * 10 ^ nat (dec_scale w - dec_scale v) =
      be_val (dec_unscaled w) * 10 ^ nat (dec_scale v - dec_scale w) \<and>
    (dec_scale w = 0 \<or> \<not> 10 dvd be_val (dec_unscaled w)) \<and>
    dec_negative w = (dec_negative v \<and> be_val (dec_unscaled v) \<noteq> 0)"
  by (rule UnmarshalDecimalMsg_Marshal [OF assms])

theorem decimal_message_roundtrip_witness:
  "\<exists>bs w. MarshalDecimalMsg \<lparr>dec_unscaled = [100], dec_scale = 3, dec_negative = True\<rparr> [] = Inr bs \<and>
     UnmarshalDecimalMsg bs 0 = Inr w \<and> dec_negative w"
proof -
  let ?v = "\<lparr>dec_unscaled = [100], dec_scale = 3, dec_negative = True\<rparr>"
  have m: "MarshalDecimalMsg ?v [] = Inr [10, 1, 1, 16, 1, 24, 1]" by code_simp
  have "length [10, 1, 1, 16, 1, 24, 1 :: byte] < 2 ^ 31" by simp
  from decimal_message_roundtrip [OF m this] m show ?thesis by auto
qed

text \<open>C23. A non-zero \<open>pxf.BigFloat\<close> that \<open>MarshalBigFloatMsg\<close> writes is accepted by
  \<open>UnmarshalBigFloatMsg\<close>, and what it reads is the value rounded to \<open>prec\<close> bits, half to even, with
  a mantissa of exactly \<open>prec\<close> bits.\<close>

theorem bigfloat_message_roundtrip:
  assumes "MarshalBigFloatMsg v [] = Inr bs" "length bs < 2 ^ 31" "bf_prec v \<noteq> 0" "be_val (bf_mantissa v) \<noteq> 0"
    and "n = nat (BitLen (TrimLeadingZeros (bf_mantissa v)) - uint (bf_prec v))"
  shows "\<exists>w. UnmarshalBigFloatMsg bs 0 0 = Inr w \<and> bf_prec w = bf_prec v \<and> bf_negative w = bf_negative v \<and>
    BitLen (bf_mantissa w) = uint (bf_prec v) \<and>
    be_val (bf_mantissa w) * 2 ^ nat (bf_exponent w - (bf_exponent v + int n)) =
      round_half_even (be_val (bf_mantissa v)) n * 2 ^ nat (bf_exponent v + int n - bf_exponent w)"
  using UnmarshalBigFloatMsg_Marshal [OF assms(1-4)] assms(5) by auto

theorem bigfloat_message_roundtrip_witness:
  "\<exists>w. UnmarshalBigFloatMsg [10, 1, 32, 16, 255, 255, 255, 255, 255, 255, 255, 255, 255, 1, 24, 6] 0 0 = Inr w \<and>
     BitLen (bf_mantissa w) = 6"
proof -
  let ?v = "\<lparr>bf_mantissa = [63, 128], bf_exponent = - 10, bf_prec = 6, bf_negative = False\<rparr>"
  let ?bs = "[10, 1, 32, 16, 255, 255, 255, 255, 255, 255, 255, 255, 255, 1, 24, 6] :: byte list"
  have m: "MarshalBigFloatMsg ?v [] = Inr ?bs" by code_simp
  have "length ?bs < 2 ^ 31" "bf_prec ?v \<noteq> 0" "be_val (bf_mantissa ?v) \<noteq> 0" by simp_all
  from bigfloat_message_roundtrip [OF m this refl] show ?thesis by auto
qed

end
