(* ===== verification/Utf8.thy ===== *)
theory Utf8
  imports Prelude
begin

text \<open>
  UTF-8 and Go's quoting: \<open>include/protowire/detail/utf8.h\<close>, \<open>src/detail/go_quote.cc\<close>, and the
  encoder of \<open>src/pxf/lexer.cc\<close>. A rune is a natural number; every shift of the source stays
  within its 32 bits. The table of printable ranges is an argument; the one of the
  repository is in \<open>GoPrintTable\<close>.
\<close>

section \<open>Operations\<close>

abbreviation ord :: "char \<Rightarrow> nat" where
  "ord c \<equiv> of_char c"

definition IsValidRune :: "nat \<Rightarrow> bool" where
  "IsValidRune r \<longleftrightarrow> r \<le> 0x10FFFF \<and> (r < 0xD800 \<or> 0xDFFF < r)"

definition EncodeRune :: "nat \<Rightarrow> string" where
  "EncodeRune r =
     (if r \<le> 0x7F then [char_of r]
      else if r \<le> 0x7FF then
        [char_of (0xC0 OR drop_bit 6 r), char_of (0x80 OR (r AND 0x3F))]
      else if r \<le> 0xFFFF then
        [char_of (0xE0 OR drop_bit 12 r), char_of (0x80 OR (drop_bit 6 r AND 0x3F)), char_of (0x80 OR (r AND 0x3F))]
      else
        [char_of (0xF0 OR drop_bit 18 r), char_of (0x80 OR (drop_bit 12 r AND 0x3F)),
         char_of (0x80 OR (drop_bit 6 r AND 0x3F)), char_of (0x80 OR (r AND 0x3F))])"

text \<open>The length a lead byte announces and the bounds of the second byte; \<open>None\<close> for no lead byte.\<close>

definition utf8_lead :: "nat \<Rightarrow> (nat \<times> nat \<times> nat) option" where
  "utf8_lead c =
     (if 0xC2 \<le> c \<and> c \<le> 0xDF then Some (2, 0x80, 0xBF)
      else if 0xE0 \<le> c \<and> c \<le> 0xEF then
        Some (3, if c = 0xE0 then 0xA0 else 0x80, if c = 0xED then 0x9F else 0xBF)
      else if 0xF0 \<le> c \<and> c \<le> 0xF4 then
        Some (4, if c = 0xF0 then 0x90 else 0x80, if c = 0xF4 then 0x8F else 0xBF)
      else None)"

text \<open>The loop of \<open>IsValidUTF8\<close> on the bytes from \<open>i\<close> on. The source also computes the code point, which nothing reads.\<close>

function IsValidUTF8 :: "string \<Rightarrow> bool" where
  "IsValidUTF8 s =
     (if s = [] then True
      else if ord (hd s) < 0x80 then IsValidUTF8 (tl s)
      else case utf8_lead (ord (hd s)) of
          None \<Rightarrow> False
        | Some (len, lo, hi) \<Rightarrow>
            if length s < len then False
            else if ord (s ! 1) < lo \<or> hi < ord (s ! 1) then False
            else if list_ex (\<lambda>k. ord (s ! k) < 0x80 \<or> 0xBF < ord (s ! k)) [2..<len] then False
            else IsValidUTF8 (drop len s))"
  by pat_completeness auto
termination
  by (relation "measure length") (auto simp: utf8_lead_def split: if_splits)

declare IsValidUTF8.simps [simp del]

definition cont :: "string \<Rightarrow> nat \<Rightarrow> nat \<Rightarrow> nat \<Rightarrow> bool" where
  "cont s i lo hi \<longleftrightarrow> i < length s \<and> lo \<le> ord (s ! i) \<and> ord (s ! i) \<le> hi"

text \<open>The rune at the front and its width; \<open>None\<close> where the source returns false, with width 1.\<close>

definition DecodeRune :: "string \<Rightarrow> (nat \<times> nat) option" where
  "DecodeRune s =
     (let c = ord (s ! 0); b = (\<lambda>i. ord (s ! i))
      in if 0xC2 \<le> c \<and> c \<le> 0xDF \<and> cont s 1 0x80 0xBF then
           Some (push_bit 6 (c AND 0x1F) OR (b 1 AND 0x3F), 2)
         else if 0xE0 \<le> c \<and> c \<le> 0xEF then
           (if cont s 1 (if c = 0xE0 then 0xA0 else 0x80) (if c = 0xED then 0x9F else 0xBF) \<and> cont s 2 0x80 0xBF
            then Some (push_bit 12 (c AND 0x0F) OR push_bit 6 (b 1 AND 0x3F) OR (b 2 AND 0x3F), 3)
            else None)
         else if 0xF0 \<le> c \<and> c \<le> 0xF4 then
           (if cont s 1 (if c = 0xF0 then 0x90 else 0x80) (if c = 0xF4 then 0x8F else 0xBF) \<and>
               cont s 2 0x80 0xBF \<and> cont s 3 0x80 0xBF
            then Some (push_bit 18 (c AND 0x07) OR push_bit 12 (b 1 AND 0x3F) OR push_bit 6 (b 2 AND 0x3F) OR (b 3 AND 0x3F), 4)
            else None)
         else None)"

definition kHex :: string where
  "kHex = ''0123456789abcdef''"

definition AppendHex :: "nat \<Rightarrow> nat \<Rightarrow> string" where
  "AppendHex v digits = map (\<lambda>k. kHex ! (drop_bit (4 * k) v AND 0xF)) (rev [0..<digits])"

text \<open>\<open>std::lower_bound\<close> by the upper end, on the table sorted by it.\<close>

type_synonym ranges = "(nat \<times> nat) list"

definition GoIsPrint :: "ranges \<Rightarrow> nat \<Rightarrow> bool" where
  "GoIsPrint printable r =
     (case dropWhile (\<lambda>(lo, hi). hi < r) printable of [] \<Rightarrow> False | (lo, hi) # _ \<Rightarrow> lo \<le> r)"

definition AppendEscaped :: "ranges \<Rightarrow> nat \<Rightarrow> string \<Rightarrow> char \<Rightarrow> string" where
  "AppendEscaped printable r raw quote =
     (if r = ord quote \<or> r = ord (CHR 0x5C) then [CHR 0x5C, char_of r]
      else if GoIsPrint printable r then raw
      else if r = 7 then [CHR 0x5C, CHR ''a'']
      else if r = 8 then [CHR 0x5C, CHR ''b'']
      else if r = 12 then [CHR 0x5C, CHR ''f'']
      else if r = 10 then [CHR 0x5C, CHR ''n'']
      else if r = 13 then [CHR 0x5C, CHR ''r'']
      else if r = 9 then [CHR 0x5C, CHR ''t'']
      else if r = 11 then [CHR 0x5C, CHR ''v'']
      else if r < 0x20 \<or> r = 0x7F then [CHR 0x5C, CHR ''x''] @ AppendHex r 2
      else if r < 0x10000 then [CHR 0x5C, CHR ''u''] @ AppendHex r 4
      else [CHR 0x5C, CHR ''U''] @ AppendHex r 8)"

text \<open>The rune at the front as the two quoting functions read it: a byte below 0x80 is itself.\<close>

definition rune_at :: "string \<Rightarrow> (nat \<times> nat) option" where
  "rune_at s = (if ord (s ! 0) < 0x80 then Some (ord (s ! 0), 1) else DecodeRune s)"

lemma rune_at_width: "rune_at s = Some (r, w) \<Longrightarrow> 0 < w"
  by (auto simp: rune_at_def DecodeRune_def Let_def split: if_splits)

function GoQuote_loop :: "ranges \<Rightarrow> string \<Rightarrow> string" where
  "GoQuote_loop printable s =
     (if s = [] then []
      else case rune_at s of
          None \<Rightarrow> [CHR 0x5C, CHR ''x''] @ AppendHex (ord (s ! 0)) 2 @ GoQuote_loop printable (drop 1 s)
        | Some (r, width) \<Rightarrow>
            AppendEscaped printable r (take width s) (CHR 0x22) @ GoQuote_loop printable (drop width s))"
  by pat_completeness auto
termination
  by (relation "measure (\<lambda>(p, s). length s)") (auto dest: rune_at_width)

declare GoQuote_loop.simps [simp del]

definition GoQuote :: "ranges \<Rightarrow> string \<Rightarrow> string" where
  "GoQuote printable s = [CHR 0x22] @ GoQuote_loop printable s @ [CHR 0x22]"

definition GoIllegalRune :: "ranges \<Rightarrow> string \<Rightarrow> string \<times> nat" where
  "GoIllegalRune printable s =
     (case rune_at s of
        None \<Rightarrow> (''unexpected byte 0x'' @ AppendHex (ord (s ! 0)) 2, 1)
      | Some (r, width) \<Rightarrow>
          (''unexpected character '' @ [CHR 0x27] @ AppendEscaped printable r (take width s) (CHR 0x27) @ [CHR 0x27], width))"

section \<open>Encoding and decoding\<close>

lemma or_const_nat:
  fixes x :: nat
  shows "x < 64 \<Longrightarrow> 0xC0 OR x = 192 + x" "x < 64 \<Longrightarrow> 0x80 OR x = 128 + x"
    "x < 16 \<Longrightarrow> 0xE0 OR x = 224 + x" "x < 16 \<Longrightarrow> 0xF0 OR x = 240 + x"
  using or_disjoint_nat(2) [of x 6 3] or_disjoint_nat(2) [of x 6 2]
    or_disjoint_nat(2) [of x 4 14] or_disjoint_nat(2) [of x 4 15] by simp_all

lemma EncodeRune_codes:
  assumes "IsValidRune r"
  shows "map ord (EncodeRune r) =
    (if r \<le> 0x7F then [r]
     else if r \<le> 0x7FF then [192 + r div 64, 128 + r mod 64]
     else if r \<le> 0xFFFF then [224 + r div 4096, 128 + r div 64 mod 64, 128 + r mod 64]
     else [240 + r div 262144, 128 + r div 4096 mod 64, 128 + r div 64 mod 64, 128 + r mod 64])"
proof -
  have r: "r \<le> 1114111" using assms by (simp add: IsValidRune_def)
  then have "240 OR r div 262144 = 240 + r div 262144" by (intro or_const_nat) simp
  moreover have "224 OR r div 4096 = 224 + r div 4096" if "r \<le> 0xFFFF" using that by (intro or_const_nat) simp
  moreover have "192 OR r div 64 = 192 + r div 64" if "r \<le> 0x7FF" using that by (intro or_const_nat) simp
  ultimately show ?thesis using r by (simp add: EncodeRune_def drop_bit_eq_div and_mask_nat or_const_nat(2))
qed

lemma or_sum_nat:
  fixes c b1 b2 b3 :: nat
  shows "push_bit 6 (c AND 0x1F) OR (b1 AND 0x3F) = c mod 32 * 64 + b1 mod 64"
    "push_bit 12 (c AND 0x0F) OR push_bit 6 (b1 AND 0x3F) OR (b2 AND 0x3F) =
       c mod 16 * 4096 + b1 mod 64 * 64 + b2 mod 64"
    "push_bit 18 (c AND 0x07) OR push_bit 12 (b1 AND 0x3F) OR push_bit 6 (b2 AND 0x3F) OR (b3 AND 0x3F) =
       c mod 8 * 262144 + b1 mod 64 * 4096 + b2 mod 64 * 64 + b3 mod 64"
proof -
  have 1: "x * 64 OR y = x * 64 + y" if "y < 64" for x y :: nat
    using or_disjoint_nat(2) [of y 6 x] that by simp
  have 2: "x * 4096 OR y * 64 = (x * 64 + y) * 64" if "y < 64" for x y :: nat
    using or_disjoint_nat(2) [of "y * 64" 12 x] that by simp
  have 3: "x * 262144 OR y * 4096 = (x * 64 + y) * 4096" if "y < 64" for x y :: nat
    using or_disjoint_nat(2) [of "y * 4096" 18 x] that by simp
  have m: "(x::nat) mod 64 < 64" for x by simp
  show "push_bit 6 (c AND 0x1F) OR (b1 AND 0x3F) = c mod 32 * 64 + b1 mod 64"
    by (simp add: push_bit_eq_mult and_mask_nat 1)
  have p: "push_bit 6 x = x * 64" "push_bit 12 x = x * 4096" "push_bit 18 x = x * 262144" for x :: nat
    by (simp_all add: push_bit_eq_mult)
  show "push_bit 12 (c AND 0x0F) OR push_bit 6 (b1 AND 0x3F) OR (b2 AND 0x3F) =
       c mod 16 * 4096 + b1 mod 64 * 64 + b2 mod 64"
    unfolding p and_mask_nat unfolding or.assoc [symmetric] unfolding 2 [OF m] unfolding 1 [OF m] by simp
  show "push_bit 18 (c AND 0x07) OR push_bit 12 (b1 AND 0x3F) OR push_bit 6 (b2 AND 0x3F) OR (b3 AND 0x3F) =
       c mod 8 * 262144 + b1 mod 64 * 4096 + b2 mod 64 * 64 + b3 mod 64"
    unfolding p and_mask_nat unfolding or.assoc [symmetric] unfolding 3 [OF m] unfolding 2 [OF m] unfolding 1 [OF m]
    by simp
qed

lemma mod_shift:
  fixes x :: nat
  shows "x < 32 \<Longrightarrow> (192 + x) mod 32 = x" "x < 16 \<Longrightarrow> (224 + x) mod 16 = x" "x < 8 \<Longrightarrow> (240 + x) mod 8 = x"
    "x < 64 \<Longrightarrow> (128 + x) mod 64 = x"
  using mod_mult_self2 [of x 32 6] mod_mult_self2 [of x 16 14] mod_mult_self2 [of x 8 30] mod_mult_self2 [of x 64 2]
  by (simp_all add: add.commute)

text \<open>A number in base 64, as many digits as a rune takes.\<close>

lemma base64_digits:
  fixes r :: nat
  shows "r div 4096 * 4096 + r div 64 mod 64 * 64 + r mod 64 = r"
    "r div 262144 * 262144 + r div 4096 mod 64 * 4096 + r div 64 mod 64 * 64 + r mod 64 = r"
proof -
  have q: "r div 4096 = r div 64 div 64" "r div 262144 = r div 64 div 64 div 64"
    by (simp_all add: div_mult2_eq [symmetric])
  show "r div 4096 * 4096 + r div 64 mod 64 * 64 + r mod 64 = r"
    using div_mult_mod_eq [of r 64] div_mult_mod_eq [of "r div 64" 64] unfolding q by linarith
  show "r div 262144 * 262144 + r div 4096 mod 64 * 4096 + r div 64 mod 64 * 64 + r mod 64 = r"
    using div_mult_mod_eq [of r 64] div_mult_mod_eq [of "r div 64" 64] div_mult_mod_eq [of "r div 64 div 64" 64]
    unfolding q by linarith
qed

lemmas DecodeRune_arith = DecodeRune_def [unfolded or_sum_nat]

lemma rune_at_EncodeRune:
  assumes "IsValidRune r"
  shows "rune_at (EncodeRune r @ s) = Some (r, length (EncodeRune r))"
proof -
  note codes = EncodeRune_codes [OF assms]
  consider "r \<le> 0x7F" | "0x7F < r" "r \<le> 0x7FF" | "0x7FF < r" "r \<le> 0xFFFF" | "0xFFFF < r" by linarith
  then show ?thesis
  proof cases
    case 1
    then obtain a where "EncodeRune r = [a]" "ord a = r" using codes by auto
    with 1 show ?thesis by (simp add: rune_at_def)
  next
    case 2
    with codes obtain a b where e: "EncodeRune r = [a, b]" "ord a = 192 + r div 64" "ord b = 128 + r mod 64"
      by (auto simp: map_eq_Cons_conv)
    have d: "2 \<le> r div 64" "r div 64 < 32" using 2 by auto
    show ?thesis using d
      by (simp add: e rune_at_def DecodeRune_arith Let_def cont_def mod_shift less_Suc_eq_le [symmetric])
  next
    case 3
    with codes obtain a b c where e: "EncodeRune r = [a, b, c]" "ord a = 224 + r div 4096"
      "ord b = 128 + r div 64 mod 64" "ord c = 128 + r mod 64" by (auto simp: map_eq_Cons_conv)
    have d: "r div 4096 < 16" using 3 by simp
    note rv = base64_digits(1) [of r]
    have lo: "32 \<le> r div 64 mod 64" if "r div 4096 = 0" using rv that 3 mod_less_divisor [of 64 r] by linarith
    have hi: "r div 64 mod 64 < 32" if "r div 4096 = 13"
      using rv that assms 3 mod_less_divisor [of 64 "r div 64"] by (auto simp: IsValidRune_def)
    have cb: "(if 224 + r div 4096 = 0xE0 then 0xA0 else 0x80) \<le> 128 + r div 64 mod 64"
      "128 + r div 64 mod 64 \<le> (if 224 + r div 4096 = 0xED then 0x9F else 0xBF)"
      "128 + r mod 64 \<le> 0xBF"
      using lo hi by (auto split: if_splits)
    have "DecodeRune (EncodeRune r @ s) = Some (r div 4096 * 4096 + r div 64 mod 64 * 64 + r mod 64, 3)"
      using d cb unfolding DecodeRune_arith Let_def cont_def e(1)
      by (simp add: e mod_shift)
    then show ?thesis using e by (simp add: rune_at_def rv)
  next
    case 4
    with codes obtain a b c d where e: "EncodeRune r = [a, b, c, d]" "ord a = 240 + r div 262144"
      "ord b = 128 + r div 4096 mod 64" "ord c = 128 + r div 64 mod 64" "ord d = 128 + r mod 64"
      by (auto simp: map_eq_Cons_conv)
    have r: "r \<le> 1114111" using assms by (simp add: IsValidRune_def)
    then have d: "r div 262144 < 5" by simp
    note rv = base64_digits(2) [of r]
    have lo: "16 \<le> r div 4096 mod 64" if "r div 262144 = 0"
      using rv that 4 mod_less_divisor [of 64 r] mod_less_divisor [of 64 "r div 64"] by linarith
    have hi: "r div 4096 mod 64 < 16" if "r div 262144 = 4"
      using rv that r by linarith
    have cb: "(if 240 + r div 262144 = 0xF0 then 0x90 else 0x80) \<le> 128 + r div 4096 mod 64"
      "128 + r div 4096 mod 64 \<le> (if 240 + r div 262144 = 0xF4 then 0x8F else 0xBF)"
      "128 + r div 64 mod 64 \<le> 0xBF" "128 + r mod 64 \<le> 0xBF"
      using lo hi by (auto split: if_splits)
    have "DecodeRune (EncodeRune r @ s) = Some (r div 262144 * 262144 + r div 4096 mod 64 * 4096 + r div 64 mod 64 * 64 + r mod 64, 4)"
      using d cb unfolding DecodeRune_arith Let_def cont_def e(1)
      by (simp add: e mod_shift)
    then show ?thesis using e by (simp add: rune_at_def rv)
  qed
qed

lemma EncodeRune_nonempty [simp]: "EncodeRune r \<noteq> []"
  by (simp add: EncodeRune_def)

lemma map_ord_inj: "map ord s = map ord t \<Longrightarrow> s = t"
  by (rule map_injective) (auto simp: inj_def)

lemma upt_small: "[0..<2] = [0, 1]" "[0..<3] = [0, 1, 2]" "[0..<4] = [0, 1, 2, 3::nat]"
  by (simp_all add: upt_rec)

lemma take_codes: "k \<le> length s \<Longrightarrow> map ord (take k s) = map (\<lambda>i. ord (s ! i)) [0..<k]"
  by (rule nth_equalityI) simp_all

text \<open>What the decoder accepts is the encoding of a valid rune above ASCII.\<close>

lemma DecodeRune_sound:
  assumes "DecodeRune s = Some (r, w)" "s \<noteq> []"
  shows "IsValidRune r \<and> 0x80 \<le> r \<and> w \<le> length s \<and> take w s = EncodeRune r"
proof -
  define c b1 b2 b3 where "c = ord (s ! 0)" and "b1 = ord (s ! 1)" and "b2 = ord (s ! 2)" and "b3 = ord (s ! 3)"
  note D = assms(1) [unfolded DecodeRune_arith Let_def cont_def, folded c_def b1_def b2_def b3_def]
  consider (two) "0xC2 \<le> c" "c \<le> 0xDF" "1 < length s" "0x80 \<le> b1" "b1 \<le> 0xBF" "r = c mod 32 * 64 + b1 mod 64" "w = 2"
    | (three) "0xE0 \<le> c" "c \<le> 0xEF" "2 < length s" "(if c = 0xE0 then 0xA0 else 0x80) \<le> b1" "b1 \<le> (if c = 0xED then 0x9F else 0xBF)"
        "0x80 \<le> b2" "b2 \<le> 0xBF" "r = c mod 16 * 4096 + b1 mod 64 * 64 + b2 mod 64" "w = 3"
    | (four) "0xF0 \<le> c" "c \<le> 0xF4" "3 < length s" "(if c = 0xF0 then 0x90 else 0x80) \<le> b1" "b1 \<le> (if c = 0xF4 then 0x8F else 0xBF)"
        "0x80 \<le> b2" "b2 \<le> 0xBF" "0x80 \<le> b3" "b3 \<le> 0xBF"
        "r = c mod 8 * 262144 + b1 mod 64 * 4096 + b2 mod 64 * 64 + b3 mod 64" "w = 4"
    using D by (auto split: if_splits)
  then show ?thesis
  proof cases
    case two
    define x y where "x = c - 192" and "y = b1 - 128"
    then have x: "c = 192 + x" "2 \<le> x" "x < 32" and y: "b1 = 128 + y" "y < 64" using two by auto
    have r: "r = x * 64 + y" using two(6) x y by (simp add: mod_shift)
    then have v: "IsValidRune r" "0x80 \<le> r" "r \<le> 0x7FF" "\<not> r \<le> 0x7F" using x y by (auto simp: IsValidRune_def)
    have "r div 64 = x" "r mod 64 = y" using r y by simp_all
    then have "[c, b1] = map ord (EncodeRune r)"
      unfolding EncodeRune_codes [OF v(1)] using v x y by simp
    moreover have "map ord (take w s) = [c, b1]"
      using two(3) unfolding two(7) c_def b1_def b2_def b3_def by (subst take_codes, simp, simp only: upt_small list.map)
    ultimately show ?thesis using v two(3,7) by (auto dest: map_ord_inj)
  next
    case three
    define x y z where "x = c - 224" and "y = b1 - 128" and "z = b2 - 128"
    then have x: "c = 224 + x" "x < 16" and y: "b1 = 128 + y" "y < 64" "x = 0 \<longrightarrow> 32 \<le> y" "x = 13 \<longrightarrow> y < 32"
      and z: "b2 = 128 + z" "z < 64" using three by (auto split: if_splits)
    have r: "r = (x * 64 + y) * 64 + z" using three(8) x y z by (simp add: mod_shift)
    then have q: "r div 64 = x * 64 + y" "r mod 64 = z"
      using z by (simp_all only: r div_mult_self3 mod_mult_self3) simp_all
    have "r div 4096 = r div 64 div 64" by (simp add: div_mult2_eq [symmetric])
    then have d: "r div 4096 = x" "r div 64 mod 64 = y" using q y by simp_all
    have v: "IsValidRune r" "0x80 \<le> r" "r \<le> 0xFFFF" "\<not> r \<le> 0x7FF"
      using r x y z by (cases "x = 13"; cases "x = 0"; auto simp: IsValidRune_def)+
    have "[c, b1, b2] = map ord (EncodeRune r)"
      unfolding EncodeRune_codes [OF v(1)] using v x y z q d by simp
    moreover have "map ord (take w s) = [c, b1, b2]"
      using three(3) unfolding three(9) c_def b1_def b2_def b3_def by (subst take_codes, simp, simp only: upt_small list.map)
    ultimately show ?thesis using v three(3,9) by (auto dest: map_ord_inj)
  next
    case four
    define x y z u where "x = c - 240" and "y = b1 - 128" and "z = b2 - 128" and "u = b3 - 128"
    note def = x_def y_def z_def u_def
    have x: "c = 240 + x" "x < 5" using four(1,2) unfolding def by linarith+
    have y0: "0x80 \<le> b1" "b1 \<le> 0xBF" using four(4,5) by (auto split: if_splits)
    then have y: "b1 = 128 + y" "y < 64" unfolding def by linarith+
    have y1: "x = 0 \<longrightarrow> 16 \<le> y" "x = 4 \<longrightarrow> y < 16" using four(4,5) x(1) y(1) by (auto split: if_splits)
    have z: "b2 = 128 + z" "z < 64" and u: "b3 = 128 + u" "u < 64" using four(6-9) unfolding def by linarith+
    have r: "r = ((x * 64 + y) * 64 + z) * 64 + u" using four(10) x y z u by (simp add: mod_shift)
    then have q: "r div 64 = (x * 64 + y) * 64 + z" "r mod 64 = u"
      using u by (simp_all only: r div_mult_self3 mod_mult_self3) simp_all
    have "r div 4096 = r div 64 div 64" "r div 262144 = r div 64 div 64 div 64" by (simp_all add: div_mult2_eq [symmetric])
    moreover have "((x * 64 + y) * 64 + z) div 64 = x * 64 + y" "((x * 64 + y) * 64 + z) mod 64 = z"
      using z(2) by (simp_all only: div_mult_self3 mod_mult_self3) simp_all
    ultimately have d: "r div 4096 = x * 64 + y" "r div 262144 = x" "r div 64 mod 64 = z" "r div 4096 mod 64 = y"
      using q(1) y(2) by (simp_all only:) simp_all
    define t where "t = x * 64 + y"
    have "t \<le> 271" "16 \<le> t" using x y y1 unfolding t_def by (cases "x = 4"; cases "x = 0"; auto)+
    moreover have "r = t * 4096 + z * 64 + u" by (simp add: r t_def)
    ultimately have "r \<le> 1114111" "65536 \<le> r" using z(2) u(2) by linarith+
    then have v: "IsValidRune r" "0x80 \<le> r" "\<not> r \<le> 0xFFFF" by (auto simp: IsValidRune_def)
    have "[c, b1, b2, b3] = map ord (EncodeRune r)"
      unfolding EncodeRune_codes [OF v(1)] using v x y z u q d by simp
    moreover have "map ord (take w s) = [c, b1, b2, b3]"
      using four(3) unfolding four(11) c_def b1_def b2_def b3_def by (subst take_codes, simp, simp only: upt_small list.map)
    ultimately show ?thesis using v four(3,11) by (auto dest: map_ord_inj)
  qed
qed

text \<open>One step of the validator agrees with the decoder.\<close>

lemma IsValidUTF8_step:
  assumes "s \<noteq> []"
  shows "IsValidUTF8 s = (case rune_at s of None \<Rightarrow> False | Some (r, w) \<Rightarrow> IsValidUTF8 (drop w s))"
proof (cases "ord (hd s) < 0x80")
  case True
  with assms show ?thesis by (subst IsValidUTF8.simps) (simp add: rune_at_def hd_conv_nth drop_Suc)
next
  case False
  have r: "[2..<2] = []" "[2..<3] = [2]" "[2..<4] = [2, 3::nat]" by (simp_all add: upt_rec)
  define c where "c = ord (s ! 0)"
  have h: "hd s = s ! 0" using assms by (rule hd_conv_nth)
  have c: "\<not> c < 0x80" using False by (simp add: c_def h)
  have step: "IsValidUTF8 s = (case utf8_lead c of None \<Rightarrow> False
        | Some (len, lo, hi) \<Rightarrow>
            if length s < len then False
            else if ord (s ! 1) < lo \<or> hi < ord (s ! 1) then False
            else if list_ex (\<lambda>k. ord (s ! k) < 0x80 \<or> 0xBF < ord (s ! k)) [2..<len] then False
            else IsValidUTF8 (drop len s))"
    using c assms by (subst IsValidUTF8.simps) (simp add: h c_def)
  have rune: "rune_at s = DecodeRune s" using c by (simp add: rune_at_def c_def)
  consider "0xC2 \<le> c" "c \<le> 0xDF" | "0xE0 \<le> c" "c \<le> 0xEF" | "0xF0 \<le> c" "c \<le> 0xF4"
    | "c < 0xC2 \<or> 0xF4 < c" by linarith
  then show ?thesis
  proof cases
    case 1
    then show ?thesis unfolding step rune
      by (simp add: utf8_lead_def DecodeRune_def c_def [symmetric] Let_def cont_def r)
  next
    case 2
    define lo hi where "lo = (if c = 0xE0 then 0xA0 else 0x80 :: nat)" and "hi = (if c = 0xED then 0x9F else 0xBF :: nat)"
    have l: "utf8_lead c = Some (3, lo, hi)" using 2 by (simp add: utf8_lead_def lo_def hi_def)
    obtain X where "DecodeRune s = (if cont s 1 lo hi \<and> cont s 2 0x80 0xBF then Some (X, 3) else None)"
      using 2 by (simp add: DecodeRune_def c_def [symmetric] Let_def lo_def hi_def)
    then show ?thesis unfolding step rune l by (auto simp: cont_def r)
  next
    case 3
    define lo hi where "lo = (if c = 0xF0 then 0x90 else 0x80 :: nat)" and "hi = (if c = 0xF4 then 0x8F else 0xBF :: nat)"
    have l: "utf8_lead c = Some (4, lo, hi)" using 3 by (simp add: utf8_lead_def lo_def hi_def)
    obtain X where "DecodeRune s = (if cont s 1 lo hi \<and> cont s 2 0x80 0xBF \<and> cont s 3 0x80 0xBF then Some (X, 4) else None)"
      using 3 by (simp add: DecodeRune_def c_def [symmetric] Let_def lo_def hi_def)
    then show ?thesis unfolding step rune l by (auto simp: cont_def r)
  next
    case 4
    then have n: "\<not> (0xC2 \<le> c \<and> c \<le> 0xDF)" "\<not> (0xE0 \<le> c \<and> c \<le> 0xEF)" "\<not> (0xF0 \<le> c \<and> c \<le> 0xF4)"
      by auto
    then have "utf8_lead c = None" by (simp only: utf8_lead_def if_False)
    moreover have "DecodeRune s = None"
      using n unfolding DecodeRune_def c_def [symmetric] Let_def conj_assoc [symmetric] by (simp only: simp_thms if_False)
    ultimately show ?thesis unfolding step rune by simp
  qed
qed

lemma IsValidUTF8_encode: "IsValidRune r \<Longrightarrow> IsValidUTF8 (EncodeRune r @ s) = IsValidUTF8 s"
  by (subst IsValidUTF8_step) (simp_all add: rune_at_EncodeRune)

lemma IsValidUTF8_concat: "list_all IsValidRune rs \<Longrightarrow> IsValidUTF8 (concat (map EncodeRune rs) @ s) = IsValidUTF8 s"
  by (induction rs) (simp_all add: IsValidUTF8_encode)

lemma rune_at_sound:
  assumes "rune_at s = Some (r, w)" "s \<noteq> []"
  shows "IsValidRune r \<and> w \<le> length s \<and> take w s = EncodeRune r"
proof (cases "ord (s ! 0) < 0x80")
  case True
  with assms have "r = ord (s ! 0)" "w = 1" by (simp_all add: rune_at_def)
  with True assms(2) show ?thesis by (cases s) (simp_all add: IsValidRune_def EncodeRune_def)
next
  case False
  then show ?thesis using assms DecodeRune_sound [of s r w] by (simp add: rune_at_def)
qed

lemma IsValidUTF8_runes: "IsValidUTF8 s \<Longrightarrow> \<exists>rs. list_all IsValidRune rs \<and> s = concat (map EncodeRune rs)"
proof (induction "length s" arbitrary: s rule: less_induct)
  case less
  show ?case
  proof (cases "s = []")
    case True
    then show ?thesis by (intro exI [of _ "[]"]) simp
  next
    case False
    with less.prems obtain r w where rw: "rune_at s = Some (r, w)" "IsValidUTF8 (drop w s)"
      by (auto simp: IsValidUTF8_step split: option.splits)
    note snd = rune_at_sound [OF rw(1) False]
    have "length (drop w s) < length s" using rune_at_width [OF rw(1)] False by simp
    from less.hyps [OF this rw(2)] obtain rs where "list_all IsValidRune rs" "drop w s = concat (map EncodeRune rs)" by blast
    with snd show ?thesis by (intro exI [of _ "r # rs"]) (metis append_take_drop_id concat.simps(2) list.simps(9) list.pred_inject(2))
  qed
qed

lemma IsValidUTF8_append: "IsValidUTF8 s \<Longrightarrow> IsValidUTF8 (s @ t) = IsValidUTF8 t"
  using IsValidUTF8_runes IsValidUTF8_concat by blast

lemma IsValidUTF8_ascii: "list_all (\<lambda>c. ord c < 0x80) s \<Longrightarrow> IsValidUTF8 s"
  by (induction s) (simp_all add: IsValidUTF8.simps)

lemma AppendHex_ascii: "list_all (\<lambda>c. ord c < 0x80) (AppendHex v n)"
proof -
  have "ord (kHex ! i) < 0x80" if "i < 16" for i
  proof -
    have "list_all (\<lambda>c. ord c < 0x80) kHex" by (simp add: kHex_def)
    with that show ?thesis by (simp add: list_all_length kHex_def)
  qed
  then show ?thesis by (auto simp: AppendHex_def list_all_iff and_mask_nat)
qed

lemma AppendEscaped_valid:
  assumes "IsValidUTF8 raw" "ord q < 0x80"
  shows "IsValidUTF8 (AppendEscaped p r raw q)"
proof -
  have "raw = AppendEscaped p r raw q \<or> list_all (\<lambda>c. ord c < 0x80) (AppendEscaped p r raw q)"
    using AppendHex_ascii assms(2) unfolding AppendEscaped_def by auto
  then show ?thesis using assms(1) IsValidUTF8_ascii by metis
qed

interpretation rune: prefix_codec IsValidRune "\<lambda>r. bytes_of (EncodeRune r)"
  "\<lambda>bs. if bs = [] then None else rune_at (string_of bs)"
proof
  fix r rest assume r: "IsValidRune r"
  have "string_of (bytes_of (EncodeRune r) @ rest) = EncodeRune r @ string_of rest"
    by simp
  with r show "(if bytes_of (EncodeRune r) @ rest = [] then None else rune_at (string_of (bytes_of (EncodeRune r) @ rest))) =
      Some (r, length (bytes_of (EncodeRune r)))"
    by (simp add: rune_at_EncodeRune) (auto simp: bytes_of_def)
  show "bytes_of (EncodeRune r) \<noteq> []" by (simp add: bytes_of_def)
qed

section \<open>Properties\<close>

text \<open>C17. \<open>IsValidUTF8\<close> accepts exactly the concatenations of encoded Unicode scalar values: no
  overlong form, no surrogate, nothing past U+10FFFF, nothing truncated.\<close>

theorem utf8_valid_iff:
  "IsValidUTF8 s \<longleftrightarrow> (\<exists>rs. list_all IsValidRune rs \<and> s = concat (map EncodeRune rs))"
proof
  assume "\<exists>rs. list_all IsValidRune rs \<and> s = concat (map EncodeRune rs)"
  then obtain rs where "list_all IsValidRune rs" "s = concat (map EncodeRune rs)" by blast
  with IsValidUTF8_concat [of rs "[]"] show "IsValidUTF8 s" by (simp add: IsValidUTF8.simps)
qed (rule IsValidUTF8_runes)

text \<open>C32. Whatever bytes it is given and whatever the table of printable runes, \<open>GoQuote\<close> writes
  valid UTF-8: a byte that starts no rune is escaped.\<close>

theorem go_quote_valid_utf8: "IsValidUTF8 (GoQuote printable s)"
proof -
  have "IsValidUTF8 (GoQuote_loop printable s)"
  proof (induction printable s rule: GoQuote_loop.induct)
    case (1 p s)
    show ?case
    proof (cases "s = []")
      case True
      then show ?thesis by (simp add: GoQuote_loop.simps IsValidUTF8.simps)
    next
      case False
      show ?thesis
      proof (cases "rune_at s")
        case None
        have "IsValidUTF8 ([CHR 0x5C, CHR ''x''] @ AppendHex (ord (s ! 0)) 2)"
          using AppendHex_ascii by (intro IsValidUTF8_ascii) simp
        from IsValidUTF8_append [OF this] 1(1) [OF False None] None False show ?thesis
          by (subst GoQuote_loop.simps) simp
      next
        case (Some rw)
        obtain r w where rw: "rw = (r, w)" by fastforce
        with Some have s: "rune_at s = Some (r, w)" by simp
        have "IsValidUTF8 (take w s)"
          using rune_at_sound [OF s False] IsValidUTF8_encode [of r "[]"] by (simp add: IsValidUTF8.simps)
        then have "IsValidUTF8 (AppendEscaped p r (take w s) (CHR 0x22))" by (rule AppendEscaped_valid) simp
        from IsValidUTF8_append [OF this] 1(2) [OF False Some rw [symmetric]] s False show ?thesis
          by (subst GoQuote_loop.simps) simp
      qed
    qed
  qed
  from IsValidUTF8_append [OF this, of "[CHR 0x22]"] IsValidUTF8_append [of "[CHR 0x22]"] show ?thesis
    by (simp add: GoQuote_def IsValidUTF8.simps)
qed

end
