(* ===== verification/Duration.thy ===== *)
theory Duration
  imports Prelude "HOL-Library.Signed_Division"
begin

text \<open>
  Duration literals: \<open>src/detail/duration.cc\<close> over the checked arithmetic of
  \<open>include/protowire/detail/checked_arith.h\<close>. A 64-bit value is an integer with its range
  written out; a checked operation is \<open>None\<close> where the source reports an overflow.
\<close>

section \<open>Checked arithmetic\<close>

definition int64_ok :: "int \<Rightarrow> bool" where
  "int64_ok x \<longleftrightarrow> - (2 ^ 63) \<le> x \<and> x < 2 ^ 63"

definition MulOverflow :: "int \<Rightarrow> int \<Rightarrow> int option" where
  "MulOverflow a b = (if int64_ok (a * b) then Some (a * b) else None)"

definition AddOverflow :: "int \<Rightarrow> int \<Rightarrow> int option" where
  "AddOverflow a b = (if int64_ok (a + b) then Some (a + b) else None)"

definition mul_u64 :: "nat \<Rightarrow> nat \<Rightarrow> nat option" where
  "mul_u64 a b = (if a \<noteq> 0 \<and> (2 ^ 64 - 1) div a < b then None else Some (a * b))"

definition add_u64 :: "nat \<Rightarrow> nat \<Rightarrow> nat option" where
  "add_u64 a b = (if 2 ^ 64 - 1 - b < a then None else Some (a + b))"

section \<open>Parsing\<close>

text \<open>The nanoseconds of the unit at the front, and the bytes it takes; \<open>None\<close> for \<open>-1\<close>.\<close>

definition UnitNanos :: "string \<Rightarrow> (int \<times> nat) option" where
  "UnitNanos s =
     (if s = [] then None
      else if 2 \<le> length s \<and> (s ! 0 = CHR 0xC2 \<and> s ! 1 = CHR 0xB5 \<or> s ! 0 = CHR 0xCE \<and> s ! 1 = CHR 0xBC) \<and>
              3 \<le> length s \<and> s ! 2 = CHR ''s'' then Some (1000, 3)
      else if 2 \<le> length s \<and> s ! 0 = CHR ''n'' \<and> s ! 1 = CHR ''s'' then Some (1, 2)
      else if 2 \<le> length s \<and> s ! 0 = CHR ''u'' \<and> s ! 1 = CHR ''s'' then Some (1000, 2)
      else if 2 \<le> length s \<and> s ! 0 = CHR ''m'' \<and> s ! 1 = CHR ''s'' then Some (1000000, 2)
      else if s ! 0 = CHR ''s'' then Some (1000000000, 1)
      else if s ! 0 = CHR ''m'' then Some (60 * 1000000000, 1)
      else if s ! 0 = CHR ''h'' then Some (3600 * 1000000000, 1)
      else None)"

text \<open>The digits before the point: the value, whether there was one, and the rest.\<close>

fun scan_whole :: "string \<Rightarrow> int \<Rightarrow> bool \<Rightarrow> (int \<times> bool \<times> string) option" where
  "scan_whole [] whole any_digit = Some (whole, any_digit, [])"
| "scan_whole (c # cs) whole any_digit =
     (if IsDigit c then
        (case MulOverflow whole 10 of
           None \<Rightarrow> None
         | Some mul10 \<Rightarrow>
             (case AddOverflow mul10 (int (digit_val c)) of
                None \<Rightarrow> None
              | Some w \<Rightarrow> scan_whole cs w True))
      else Some (whole, any_digit, c # cs))"

text \<open>The digits after the point; those past the ninth are read and dropped.\<close>

fun scan_frac :: "string \<Rightarrow> int \<Rightarrow> int \<Rightarrow> bool \<Rightarrow> int \<times> int \<times> bool \<times> string" where
  "scan_frac [] num dv any_digit = (num, dv, any_digit, [])"
| "scan_frac (c # cs) num dv any_digit =
     (if IsDigit c then
        (if dv < 1000000000 then scan_frac cs (num * 10 + int (digit_val c)) (dv * 10) True
         else scan_frac cs num dv True)
      else (num, dv, any_digit, c # cs))"

lemma UnitNanos_len: "UnitNanos s = Some (ns, n) \<Longrightarrow> 0 < n \<and> s \<noteq> []"
  by (auto simp: UnitNanos_def split: if_splits)

lemma scan_whole_len: "scan_whole s w a = Some (w', a', s') \<Longrightarrow> length s' \<le> length s"
proof (induction s arbitrary: w a)
  case (Cons c s)
  from Cons.prems Cons.IH show ?case by (auto split: if_splits option.splits intro: le_SucI)
qed simp

lemma scan_frac_len: "scan_frac s m d a = (m', d', a', s') \<Longrightarrow> length s' \<le> length s"
  by (induction s m d a rule: scan_frac.induct) (auto split: if_splits)

text \<open>One number with its unit: its nanoseconds and the rest of the text.\<close>

definition parse_term :: "string \<Rightarrow> (nat \<times> string) option" where
  "parse_term s =
     (case scan_whole s 0 False of
        None \<Rightarrow> None
      | Some (whole, any0, s1) \<Rightarrow>
          let (frac_num, frac_div, any_digit, s2) =
                (if s1 \<noteq> [] \<and> hd s1 = CHR ''.'' then scan_frac (tl s1) 0 1 any0 else (0, 1, any0, s1))
          in if \<not> any_digit then None
             else (case UnitNanos s2 of
                 None \<Rightarrow> None
               | Some (unit_ns, unit_len) \<Rightarrow>
                   (case mul_u64 (nat whole) (nat unit_ns) of
                      None \<Rightarrow> None
                    | Some v \<Rightarrow>
                        (case (if 0 < frac_num then
                                 (case MulOverflow frac_num unit_ns of
                                    None \<Rightarrow> None
                                  | Some frac_mul \<Rightarrow> add_u64 v (nat (frac_mul div frac_div)))
                               else Some v) of
                           None \<Rightarrow> None
                         | Some v1 \<Rightarrow> Some (v1, drop unit_len s2)))))"

lemma parse_term_len: "parse_term s = Some (v, s') \<Longrightarrow> length s' < length s"
proof -
  have lt: "length (drop n t) < length s" if "0 < n" "t \<noteq> []" "length t \<le> length s" for n and t :: string
    using that by (cases t) auto
  assume "parse_term s = Some (v, s')"
  then show ?thesis
    by (auto simp: parse_term_def Let_def split: option.splits if_splits prod.splits
        dest!: UnitNanos_len scan_whole_len scan_frac_len intro!: lt [unfolded length_drop])
qed

function parse_terms :: "string \<Rightarrow> nat \<Rightarrow> nat option" where
  "parse_terms s total_ns =
     (if s = [] then Some total_ns
      else case parse_term s of
          None \<Rightarrow> None
        | Some (v, s') \<Rightarrow>
            (case add_u64 total_ns v of None \<Rightarrow> None | Some t \<Rightarrow> parse_terms s' t))"
  by pat_completeness auto
termination
  by (relation "measure (\<lambda>(s, t). length s)") (auto dest: parse_term_len)

declare parse_terms.simps [simp del]

text \<open>The result is the seconds and the nanoseconds, both of the sign of the value.\<close>

definition ParseDuration :: "string \<Rightarrow> (int \<times> int) option" where
  "ParseDuration s0 =
     (if s0 = [] then None
      else
        let neg = (hd s0 = CHR ''-'');
            s = (if hd s0 = CHR ''-'' \<or> hd s0 = CHR ''+'' then tl s0 else s0)
        in if s = [] then None
           else if s = ''0'' then Some (0, 0)
           else case parse_terms s 0 of
               None \<Rightarrow> None
             | Some total_ns \<Rightarrow>
                 (if neg then
                    if 2 ^ 63 < total_ns then None
                    else Some (- int total_ns sdiv 1000000000, - int total_ns smod 1000000000)
                  else
                    if 2 ^ 63 - 1 < total_ns then None
                    else Some (int total_ns sdiv 1000000000, int total_ns smod 1000000000)))"

section \<open>Formatting\<close>

text \<open>\<open>while (n > 0 && tmp[n - 1] == '0') --n\<close>.\<close>

definition trim_zeros :: "string \<Rightarrow> string" where
  "trim_zeros s = rev (dropWhile (\<lambda>c. c = CHR ''0'') (rev s))"

text \<open>A number with a fraction of \<open>w\<close> digits, its trailing zeros cut, and none when it is 0.\<close>

definition with_frac :: "nat \<Rightarrow> nat \<Rightarrow> nat \<Rightarrow> string" where
  "with_frac w n rem = (if rem = 0 then to_string n else to_string n @ ''.'' @ trim_zeros (zpad w rem))"

definition format_magnitude :: "nat \<Rightarrow> string" where
  "format_magnitude total_ns =
     (if total_ns < 1000000000 then
        if total_ns < 1000 then to_string total_ns @ ''ns''
        else if total_ns < 1000000 then
          with_frac 3 (total_ns div 1000) (total_ns mod 1000) @ [CHR 0xC2, CHR 0xB5, CHR ''s'']
        else with_frac 6 (total_ns div 1000000) (total_ns mod 1000000) @ ''ms''
      else
        let s = total_ns div 1000000000;
            rem_ns = total_ns mod 1000000000;
            h = s div 3600;
            m = (s div 60) mod 60;
            sec = s mod 60
        in (if 0 < h then to_string h @ ''h'' else []) @
           (if 0 < h \<or> 0 < m then to_string m @ ''m'' else []) @
           with_frac 9 sec rem_ns @ ''s'')"

definition FormatDuration :: "int \<Rightarrow> int \<Rightarrow> string" where
  "FormatDuration seconds nanos =
     (case MulOverflow seconds 1000000000 of
        None \<Rightarrow> ''<duration overflow>''
      | Some scaled0 \<Rightarrow>
          (case AddOverflow scaled0 nanos of
             None \<Rightarrow> ''<duration overflow>''
           | Some scaled \<Rightarrow>
               if scaled = 0 then ''0s''
               else if scaled < 0 then CHR ''-'' # format_magnitude (nat (- scaled))
               else format_magnitude (nat scaled)))"

section \<open>Facts\<close>

lemma scan_whole_digits:
  "list_all IsDigit ds \<Longrightarrow> 0 \<le> w \<Longrightarrow> digits_val (nat w) ds < 2 ^ 63 \<Longrightarrow>
   (rest = [] \<or> \<not> IsDigit (hd rest)) \<Longrightarrow>
   scan_whole (ds @ rest) w a = Some (int (digits_val (nat w) ds), a \<or> ds \<noteq> [], rest)"
proof (induction ds arbitrary: w a)
  case Nil
  then show ?case by (cases rest) auto
next
  case (Cons c ds)
  let ?w = "w * 10 + int (digit_val c)"
  have nw: "nat ?w = nat w * 10 + digit_val c" using Cons.prems by (simp add: nat_add_distrib nat_mult_distrib)
  have "nat ?w \<le> digits_val (nat ?w) ds" using digits_val_acc [of "nat ?w" ds] by (simp add: trans_le_add1)
  with Cons.prems nw have "nat ?w < 2 ^ 63" by simp
  then have "int64_ok (w * 10)" "int64_ok ?w" using Cons.prems by (auto simp: int64_ok_def)
  with Cons nw show ?case by (simp add: MulOverflow_def AddOverflow_def)
qed

lemma scan_frac_digits:
  "list_all IsDigit ds \<Longrightarrow> k + length ds \<le> 9 \<Longrightarrow> (rest = [] \<or> \<not> IsDigit (hd rest)) \<Longrightarrow>
   scan_frac (ds @ rest) (int n) (10 ^ k) a = (int (digits_val n ds), 10 ^ (k + length ds), a \<or> ds \<noteq> [], rest)"
proof (induction ds arbitrary: n k a)
  case Nil
  then show ?case by (cases rest) auto
next
  case (Cons c ds)
  then have "(10::int) ^ k \<le> 10 ^ 8" by (intro power_increasing) auto
  then have "(10::int) ^ k < 1000000000" by simp
  with Cons.prems Cons.IH [of "Suc k" "n * 10 + digit_val c" True] show ?case by (simp add: mult.commute)
qed


text \<open>A unit as the formatter writes it, and what may follow it.\<close>

definition is_unit :: "string \<Rightarrow> string \<Rightarrow> nat \<Rightarrow> bool" where
  "is_unit u rest ns \<longleftrightarrow> UnitNanos (u @ rest) = Some (int ns, length u) \<and> u \<noteq> [] \<and>
     \<not> IsDigit (hd u) \<and> hd u \<noteq> CHR ''.''"

lemma mul_u64_ok: "a * b < 2 ^ 64 \<Longrightarrow> mul_u64 a b = Some (a * b)"
proof -
  assume ab: "a * b < 2 ^ 64"
  have "b \<le> (2 ^ 64 - 1) div a" if "a \<noteq> 0"
    using that ab by (simp add: less_eq_div_iff_mult_less_eq mult.commute)
  then show ?thesis by (auto simp: mul_u64_def)
qed

lemma add_u64_ok: "a + b < 2 ^ 64 \<Longrightarrow> add_u64 a b = Some (a + b)"
  by (simp add: add_u64_def)

lemma parse_term_text:
  assumes "w < 2 ^ 63" "is_unit u rest ns" "list_all IsDigit f" "length f \<le> 9" "f \<noteq> [] \<longrightarrow> ns \<le> 10 ^ 9"
    and "w * ns + digits_val 0 f * ns div 10 ^ length f < 2 ^ 64"
  shows "parse_term (to_string w @ (if f = [] then [] else CHR ''.'' # f) @ u @ rest) =
    Some (w * ns + digits_val 0 f * ns div 10 ^ length f, rest)"
proof -
  let ?t = "(if f = [] then [] else CHR ''.'' # f) @ u @ rest" and ?n = "digits_val 0 f"
  have u: "u \<noteq> []" "\<not> IsDigit (hd u)" "hd u \<noteq> CHR ''.''" "UnitNanos (u @ rest) = Some (int ns, length u)"
    using assms(2) by (auto simp: is_unit_def)
  have "\<not> IsDigit (hd ?t)" using u by (simp add: IsDigit_def)
  then have sw: "scan_whole (to_string w @ ?t) 0 False = Some (int w, True, ?t)"
    using scan_whole_digits [of "to_string w" 0 ?t False] assms(1) by simp
  have dot: "(?t \<noteq> [] \<and> hd ?t = CHR ''.'') = (f \<noteq> [])" using u by auto
  have fr: "scan_frac (f @ u @ rest) 0 1 True = (int ?n, 10 ^ length f, True, u @ rest)"
    using scan_frac_digits [of f 0 "u @ rest" 0 True] assms(3,4) u by simp
  have mul: "mul_u64 w ns = Some (w * ns)" using assms(6) by (intro mul_u64_ok) linarith
  show ?thesis
  proof (cases "f = []")
    case True
    then show ?thesis using sw u mul dot by (simp add: parse_term_def)
  next
    case False
    have "?n < 10 ^ length f" by (rule digits_val_less [OF assms(3)])
    also have "\<dots> \<le> 10 ^ 9" using assms(4) by (intro power_increasing) auto
    finally have "?n * ns \<le> 10 ^ 9 * 10 ^ 9" using assms(5) False by (intro mult_le_mono) auto
    then have "int (?n * ns) \<le> int (10 ^ 9 * 10 ^ 9)" by (simp only: of_nat_le_iff)
    then have ok: "MulOverflow (int ?n) (int ns) = Some (int ?n * int ns)"
      by (simp add: MulOverflow_def int64_ok_def order.trans [of _ 0])
    have nd: "nat (int ?n * int ns div 10 ^ length f) = ?n * ns div 10 ^ length f"
      by (metis nat_int of_nat_mult of_nat_numeral of_nat_power zdiv_int)
    have add: "add_u64 (w * ns) (?n * ns div 10 ^ length f) = Some (w * ns + ?n * ns div 10 ^ length f)"
      using assms(6) by (rule add_u64_ok)
    have "parse_term (to_string w @ ?t) = Some (w * ns + ?n * ns div 10 ^ length f, rest)"
      using sw u mul dot fr False ok nd add by (cases "?n = 0") (simp_all add: parse_term_def)
    then show ?thesis by simp
  qed
qed

lemma trim_zeros_val:
  "list_all IsDigit (trim_zeros s) \<and> length (trim_zeros s) \<le> length s \<and>
   digits_val 0 s = digits_val 0 (trim_zeros s) * 10 ^ (length s - length (trim_zeros s))"
  if "list_all IsDigit s"
  using that
proof (induction s rule: rev_induct)
  case (snoc c s)
  show ?case
  proof (cases "c = CHR ''0''")
    case True
    then have "trim_zeros (s @ [c]) = trim_zeros s" by (simp add: trim_zeros_def)
    with snoc True show ?thesis by (auto simp: digit_val_def Suc_diff_le)
  next
    case False
    then have "trim_zeros (s @ [c]) = s @ [c]" by (simp add: trim_zeros_def)
    with snoc show ?thesis by simp
  qed
qed (simp add: trim_zeros_def)

lemma parse_term_with_frac:
  assumes "n < 2 ^ 63" "is_unit u rest (10 ^ w)" "0 < w" "w \<le> 9" "rem < 10 ^ w" "n * 10 ^ w + rem < 2 ^ 64"
  shows "parse_term (with_frac w n rem @ u @ rest) = Some (n * 10 ^ w + rem, rest)"
proof (cases "rem = 0")
  case True
  then show ?thesis using parse_term_text [OF assms(1,2), of "[]"] assms by (simp add: with_frac_def)
next
  case False
  let ?f = "trim_zeros (zpad w rem)"
  have len: "length (zpad w rem) = w" using assms(3,5) by (simp add: length_zpad)
  have t: "list_all IsDigit ?f" "length ?f \<le> w" "rem = digits_val 0 ?f * 10 ^ (w - length ?f)"
    using trim_zeros_val [of "zpad w rem"] len by auto
  have ne: "?f \<noteq> []" using t(3) False by auto
  have "(10::nat) ^ w = 10 ^ (w - length ?f) * 10 ^ length ?f" using t(2) by (simp flip: power_add)
  then have v: "digits_val 0 ?f * 10 ^ w div 10 ^ length ?f = rem" using t(3) by (simp add: mult.assoc [symmetric])
  have "(10::nat) ^ w \<le> 10 ^ 9" using assms(4) by (intro power_increasing) auto
  with parse_term_text [OF assms(1,2) t(1)] t(2) assms(4,6) v ne False show ?thesis by (simp add: with_frac_def)
qed


lemma parse_terms_step:
  assumes "parse_term (t @ rest) = Some (v, rest)" "t \<noteq> []" "a + v < 2 ^ 64"
  shows "parse_terms (t @ rest) a = parse_terms rest (a + v)"
  using assms by (subst parse_terms.simps) (simp add: add_u64_ok)

lemma parse_terms_Nil [simp]: "parse_terms [] a = Some a"
  by (simp add: parse_terms.simps)

lemma units:
  "is_unit ''ns'' rest 1" "is_unit [CHR 0xC2, CHR 0xB5, CHR ''s''] rest 1000" "is_unit ''ms'' rest 1000000"
  "is_unit ''s'' rest 1000000000" "is_unit ''h'' rest (3600 * 1000000000)"
  "(rest = [] \<or> hd rest \<noteq> CHR ''s'') \<Longrightarrow> is_unit ''m'' rest (60 * 1000000000)"
  by (cases rest; simp add: is_unit_def UnitNanos_def IsDigit_def)+

lemma with_frac_nonempty [simp]: "with_frac w n r \<noteq> []"
  by (simp add: with_frac_def)

lemma hd_digit: "s \<noteq> [] \<Longrightarrow> list_all IsDigit s \<Longrightarrow> IsDigit (hd (s @ t))"
  by (cases s) auto

lemma hd_with_frac: "IsDigit (hd (with_frac w n r @ t))"
  using hd_digit [of "to_string n" "[]"] by (simp add: with_frac_def)

lemma parse_terms_seconds:
  assumes "a + (n * 1000000000 + r) < 2 ^ 63 + 1" "r < 1000000000"
  shows "parse_terms (with_frac 9 n r @ ''s'') a = Some (a + (n * 1000000000 + r))"
proof -
  have "parse_term ((with_frac 9 n r @ ''s'') @ []) = Some (n * 10 ^ 9 + r, [])"
    using parse_term_with_frac [of n "''s''" "[]" 9 r] units(4) [of "[]"] assms by simp
  from parse_terms_step [OF this, of a] assms show ?thesis by simp
qed

lemma parse_terms_whole:
  assumes "is_unit u rest ns" "n < 2 ^ 63" "a + n * ns < 2 ^ 64"
  shows "parse_terms (to_string n @ u @ rest) a = parse_terms rest (a + n * ns)"
proof -
  have "parse_term ((to_string n @ u) @ rest) = Some (n * ns, rest)"
    using parse_term_text [OF assms(2,1), of "[]"] assms(3) by simp
  from parse_terms_step [OF this, of a] assms show ?thesis by simp
qed

lemma parse_terms_format:
  assumes "0 < T" "T \<le> 2 ^ 63"
  shows "parse_terms (format_magnitude T) 0 = Some T"
proof -
  consider "T < 1000" | "1000 \<le> T" "T < 1000000" | "1000000 \<le> T" "T < 1000000000" | "1000000000 \<le> T"
    by linarith
  then show ?thesis
  proof cases
    case 1
    then show ?thesis using parse_terms_whole [OF units(1), of T 0 "[]"] by (simp add: format_magnitude_def)
  next
    case 2
    have "parse_term ((with_frac 3 (T div 1000) (T mod 1000) @ [CHR 0xC2, CHR 0xB5, CHR ''s'']) @ []) = Some (T, [])"
      using parse_term_with_frac [of "T div 1000" "[CHR 0xC2, CHR 0xB5, CHR ''s'']" "[]" 3 "T mod 1000"] units(2) [of "[]"] 2
      by simp
    from parse_terms_step [OF this, of 0] 2 show ?thesis by (simp add: format_magnitude_def)
  next
    case 3
    have "parse_term ((with_frac 6 (T div 1000000) (T mod 1000000) @ ''ms'') @ []) = Some (T, [])"
      using parse_term_with_frac [of "T div 1000000" "''ms''" "[]" 6 "T mod 1000000"] units(3) [of "[]"] 3
      by simp
    from parse_terms_step [OF this, of 0] 3 show ?thesis by (simp add: format_magnitude_def)
  next
    case 4
    define s r where "s = T div 1000000000" and "r = T mod 1000000000"
    define h m c where "h = s div 3600" and "m = s div 60 mod 60" and "c = s mod 60"
    have s: "s = h * 3600 + m * 60 + c"
    proof -
      have "h = s div 60 div 60" by (simp add: h_def div_mult2_eq [symmetric])
      then show ?thesis using div_mult_mod_eq [of s 60] div_mult_mod_eq [of "s div 60" 60]
        unfolding m_def c_def by linarith
    qed
    have T: "T = s * 1000000000 + r" and r: "r < 1000000000" by (simp_all add: s_def r_def)
    have fm: "format_magnitude T = (if 0 < h then to_string h @ ''h'' else []) @
           (if 0 < h \<or> 0 < m then to_string m @ ''m'' else []) @ with_frac 9 c r @ ''s''"
      using 4 by (simp add: format_magnitude_def Let_def s_def r_def h_def m_def c_def)
    have um: "is_unit ''m'' (with_frac 9 c r @ ''s'') (60 * 1000000000)"
      using hd_with_frac [of 9 c r "''s''"] by (intro units(6)) (auto simp: IsDigit_def)
    have sec: "parse_terms (with_frac 9 c r @ ''s'') a = Some (a + (c * 1000000000 + r))" if "a + (c * 1000000000 + r) = T" for a
      using that assms(2) r by (intro parse_terms_seconds) simp_all
    have min: "parse_terms ((if 0 < h \<or> 0 < m then to_string m @ ''m'' else []) @ with_frac 9 c r @ ''s'') a = Some T"
      if "a = h * (3600 * 1000000000)" for a
    proof (cases "0 < h \<or> 0 < m")
      case True
      have "a + m * (60 * 1000000000) + (c * 1000000000 + r) = T" using that T s by simp
      then show ?thesis using True parse_terms_whole [OF um, of m a] sec [of "a + m * (60 * 1000000000)"] assms(2) by simp
    next
      case False
      then show ?thesis using that T s sec [of a] by simp
    qed
    show ?thesis
    proof (cases "0 < h")
      case True
      have "h * (3600 * 1000000000) \<le> T" using T s by simp
      then show ?thesis using True min [of "h * (3600 * 1000000000)"] assms(2)
          parse_terms_whole [OF units(5), of h 0 "(if 0 < h \<or> 0 < m then to_string m @ ''m'' else []) @ with_frac 9 c r @ ''s''"]
        by (simp add: fm)
    next
      case False
      then show ?thesis using min [of 0] by (simp add: fm)
    qed
  qed
qed

lemma parse_terms_sign: "\<not> IsDigit c \<Longrightarrow> c \<noteq> CHR ''.'' \<Longrightarrow> parse_terms (c # cs) a = None"
  by (subst parse_terms.simps) (simp add: parse_term_def)

lemma parse_terms_0: "parse_terms ''0'' 0 = None"
  by code_simp

text \<open>What the formatter writes for a positive number starts with a digit and is not \<open>0\<close>.\<close>

lemma format_magnitude_start:
  assumes "0 < T" "T \<le> 2 ^ 63"
  shows "format_magnitude T \<noteq> []" "format_magnitude T \<noteq> ''0''"
    "hd (format_magnitude T) \<noteq> CHR ''-''" "hd (format_magnitude T) \<noteq> CHR ''+''"
proof -
  note p = parse_terms_format [OF assms]
  show "format_magnitude T \<noteq> []" "format_magnitude T \<noteq> ''0''" using p assms(1) parse_terms_0 by auto
  show "hd (format_magnitude T) \<noteq> CHR ''-''" "hd (format_magnitude T) \<noteq> CHR ''+''"
    using p parse_terms_sign [of "CHR ''-''"] parse_terms_sign [of "CHR ''+''"] assms(1)
    by (cases "format_magnitude T"; auto simp: IsDigit_def)+
qed

section \<open>Properties\<close>

text \<open>C26. Every duration whose nanosecond total fits an \<open>int64_t\<close>, the least one included, is
  formatted as a literal that \<open>ParseDuration\<close> reads back as the same total, split towards zero so
  that the nanoseconds have the sign of the value.\<close>

theorem duration_roundtrip:
  assumes "int64_ok (seconds * 1000000000)" "int64_ok (seconds * 1000000000 + nanos)"
  shows "ParseDuration (FormatDuration seconds nanos) =
    Some ((seconds * 1000000000 + nanos) sdiv 1000000000, (seconds * 1000000000 + nanos) smod 1000000000)"
proof -
  define t where "t = seconds * 1000000000 + nanos"
  have f: "FormatDuration seconds nanos = (if t = 0 then ''0s'' else if t < 0 then CHR ''-'' # format_magnitude (nat (- t))
      else format_magnitude (nat t))"
    using assms by (simp add: FormatDuration_def MulOverflow_def AddOverflow_def t_def)
  have b: "- (2 ^ 63) \<le> t" "t < 2 ^ 63" using assms(2) by (simp_all add: int64_ok_def t_def)
  consider "t = 0" | "t < 0" | "0 < t" by linarith
  then show ?thesis unfolding t_def [symmetric]
  proof cases
    case 1
    have "parse_terms ''0s'' 0 = Some 0"
      using parse_terms_seconds [of 0 0 0] by (simp add: with_frac_def to_string.simps digit_char_0)
    then have "ParseDuration ''0s'' = Some (0, 0)" by (simp add: ParseDuration_def)
    with 1 show "ParseDuration (FormatDuration seconds nanos) = Some (t sdiv 1000000000, t smod 1000000000)"
      by (simp add: f)
  next
    case 2
    then have T: "0 < nat (- t)" "nat (- t) \<le> 2 ^ 63" using b by auto
    show "ParseDuration (FormatDuration seconds nanos) = Some (t sdiv 1000000000, t smod 1000000000)"
      using 2 T format_magnitude_start [OF T] parse_terms_format [OF T] by (simp add: f ParseDuration_def)
  next
    case 3
    then have T: "0 < nat t" "nat t \<le> 2 ^ 63" using b by auto
    show "ParseDuration (FormatDuration seconds nanos) = Some (t sdiv 1000000000, t smod 1000000000)"
      using 3 b T format_magnitude_start [OF T] parse_terms_format [OF T]
      by (simp add: f ParseDuration_def nat_less_iff)
  qed
qed

theorem duration_roundtrip_witness:
  "ParseDuration (FormatDuration (- 9223372036) (- 854775808)) = Some (- 9223372036, - 854775808)"
proof -
  have "int64_ok (- 9223372036 * 1000000000)" "int64_ok (- 9223372036 * 1000000000 + - 854775808)"
    by (simp_all add: int64_ok_def)
  from duration_roundtrip [OF this] show ?thesis by simp
qed

text \<open>A fraction of an hour with eight digits is refused: its product with the unit does not fit
  an \<open>int64_t\<close>, although the duration is under an hour.\<close>

lemma hour_fraction_overflow: "ParseDuration ''0.12345678h'' = None \<and> ParseDuration ''0.1234567h'' = Some (444, 444120000)"
  by (simp add: ParseDuration_def parse_terms.simps parse_term_def UnitNanos_def IsDigit_def digit_val_def
      MulOverflow_def AddOverflow_def int64_ok_def mul_u64_def add_u64_def)

end
