(* ===== verification/Rfc3339.thy ===== *)
theory Rfc3339
  imports Duration
begin

text \<open>
  RFC 3339 timestamps: \<open>src/detail/rfc3339.cc\<close>, with the proleptic Gregorian calendar arithmetic
  it uses in both directions.
\<close>

section \<open>Operations\<close>

definition DaysFromCivil :: "int \<Rightarrow> int \<Rightarrow> int \<Rightarrow> int" where
  "DaysFromCivil y0 m d =
     (let y = y0 - (if m \<le> 2 then 1 else 0);
          era = (if 0 \<le> y then y else y - 399) sdiv 400;
          yoe = y - era * 400;
          doy = (153 * (if 2 < m then m - 3 else m + 9) + 2) div 5 + d - 1;
          doe = yoe * 365 + yoe div 4 - yoe div 100 + doy
      in era * 146097 + doe - 719468)"

definition ParseUInt :: "string \<Rightarrow> int option" where
  "ParseUInt s = (if list_all IsDigit s then Some (int (digits_val 0 s)) else None)"

definition substr :: "string \<Rightarrow> nat \<Rightarrow> nat \<Rightarrow> string" where
  "substr s pos n = take n (drop pos s)"

definition digit_at :: "string \<Rightarrow> nat \<Rightarrow> bool" where
  "digit_at s i \<longleftrightarrow> i < length s \<and> IsDigit (s ! i)"

text \<open>The loop over the fraction digits: those past the ninth are skipped.\<close>

fun frac_loop :: "string \<Rightarrow> int \<Rightarrow> nat \<Rightarrow> int \<times> nat \<times> nat" where
  "frac_loop [] frac digits = (frac, digits, 0)"
| "frac_loop (c # cs) frac digits =
     (if IsDigit c then
        (let (frac', digits', n) =
               (if digits = 9 then frac_loop cs frac digits
                else frac_loop cs (frac * 10 + int (digit_val c)) (digits + 1))
         in (frac', digits', n + 1))
      else (frac, digits, 0))"

text \<open>The timezone designator at \<open>pos\<close>: its offset in seconds.\<close>

definition parse_zone :: "string \<Rightarrow> nat \<Rightarrow> int option" where
  "parse_zone s pos =
     (if s ! pos = CHR ''Z'' then (if pos + 1 \<noteq> length s then None else Some 0)
      else if s ! pos = CHR ''+'' \<or> s ! pos = CHR ''-'' then
        if length s - pos \<noteq> 6 \<or> s ! (pos + 3) \<noteq> CHR '':'' then None
        else (case (ParseUInt (substr s (pos + 1) 2), ParseUInt (substr s (pos + 4) 2)) of
                (Some oh, Some om) \<Rightarrow>
                  if 24 < oh \<or> 60 < om then None
                  else let off = oh * 3600 + om * 60
                       in Some (if s ! pos = CHR ''-'' then - off else off)
              | _ \<Rightarrow> None)
      else None)"

definition kDays :: "int list" where
  "kDays = [31, 28, 31, 30, 31, 30, 31, 31, 30, 31, 30, 31]"

definition date_ok :: "int \<Rightarrow> int \<Rightarrow> int \<Rightarrow> int \<Rightarrow> int \<Rightarrow> int \<Rightarrow> bool" where
  "date_ok year month day hour minute second \<longleftrightarrow>
     (let leap = (month = 2 \<and> year mod 4 = 0 \<and> (year mod 100 \<noteq> 0 \<or> year mod 400 = 0))
      in \<not> (month < 1 \<or> 12 < month \<or> day < 1 \<or> kDays ! nat (month - 1) + (if leap then 1 else 0) < day \<or>
            23 < hour \<or> 59 < minute \<or> 59 < second))"

definition ParseRFC3339 :: "string \<Rightarrow> (int \<times> int) option" where
  "ParseRFC3339 s =
     (if length s < 19 then None
      else if s ! 4 \<noteq> CHR ''-'' \<or> s ! 7 \<noteq> CHR ''-'' \<or> s ! 10 \<noteq> CHR ''T'' then None
      else
        let hour_digits = (if digit_at s 12 then 2 else 1);
            minutes = 11 + hour_digits + 1
        in if length s < minutes + 6 \<or> s ! (minutes - 1) \<noteq> CHR '':'' \<or> s ! (minutes + 2) \<noteq> CHR '':'' then None
           else (case (ParseUInt (substr s 0 4), ParseUInt (substr s 5 2), ParseUInt (substr s 8 2),
                       ParseUInt (substr s 11 hour_digits), ParseUInt (substr s minutes 2),
                       ParseUInt (substr s (minutes + 3) 2)) of
                   (Some year, Some month, Some day, Some hour, Some minute, Some second) \<Rightarrow>
                     let pos0 = minutes + 5;
                         (nanos, pos) =
                           (if pos0 < length s \<and> (s ! pos0 = CHR ''.'' \<or> s ! pos0 = CHR '','') \<and> digit_at s (pos0 + 1)
                            then let (frac, digits, n) = frac_loop (drop (pos0 + 1) s) 0 0
                                 in (frac * 10 ^ (9 - digits), pos0 + 1 + n)
                            else (0, pos0))
                     in if length s \<le> pos then None
                        else (case parse_zone s pos of
                                None \<Rightarrow> None
                              | Some tz_offset_sec \<Rightarrow>
                                  if \<not> date_ok year month day hour minute second then None
                                  else
                                    let days = DaysFromCivil year month day;
                                        secs = days * 86400 + hour * 3600 + minute * 60 + second
                                    in Some (secs - tz_offset_sec, nanos))
                 | _ \<Rightarrow> None))"

text \<open>The civil date of a day number, the inverse of \<open>DaysFromCivil\<close>.\<close>

definition civil_from_days :: "int \<Rightarrow> int \<times> int \<times> int" where
  "civil_from_days days =
     (let z = days + 719468;
          era = (if 0 \<le> z then z else z - 146096) sdiv 146097;
          doe = z - era * 146097;
          yoe = (doe - doe div 1460 + doe div 36524 - doe div 146096) div 365;
          y = yoe + era * 400;
          doy = doe - (365 * yoe + yoe div 4 - yoe div 100);
          mp = (5 * doy + 2) div 153;
          d = doy - (153 * mp + 2) div 5 + 1;
          m = (if mp < 10 then mp + 3 else mp - 9)
      in (y + (if m \<le> 2 then 1 else 0), m, d))"

text \<open>\<open>%04lld\<close> of the year and \<open>%02\<close> of the other fields.\<close>

definition pad :: "nat \<Rightarrow> int \<Rightarrow> string" where
  "pad w i = (if i < 0 then CHR ''-'' # zpad (w - 1) (nat (- i)) else zpad w (nat i))"

text \<open>\<open>while (n % 10 == 0) { n /= 10; --width; }\<close>, entered with \<open>n\<close> other than 0.\<close>

function trim_nanos :: "int \<Rightarrow> nat \<Rightarrow> int \<times> nat" where
  "trim_nanos n width =
     (if n \<noteq> 0 \<and> n smod 10 = 0 then trim_nanos (n sdiv 10) (width - 1) else (n, width))"
  by pat_completeness auto
termination
  by (relation "measure (\<lambda>(n, width). nat \<bar>n\<bar>)") (auto simp: signed_divide_int_def abs_mult abs_sgn_eq)

declare trim_nanos.simps [simp del]

definition FormatRFC3339Nano :: "int \<Rightarrow> int \<Rightarrow> string" where
  "FormatRFC3339Nano seconds nanos =
     (let days0 = seconds sdiv 86400;
          tod0 = seconds smod 86400;
          (days, tod) = (if tod0 < 0 then (days0 - 1, tod0 + 86400) else (days0, tod0));
          (y, m, d) = civil_from_days days;
          base = pad 4 y @ ''-'' @ pad 2 m @ ''-'' @ pad 2 d @ ''T'' @
                 pad 2 (tod div 3600) @ '':'' @ pad 2 (tod div 60 mod 60) @ '':'' @ pad 2 (tod mod 60)
      in if nanos = 0 then base @ ''Z''
         else let (n, width) = trim_nanos nanos 9 in base @ ''.'' @ pad width n @ ''Z'')"

section \<open>Calendar\<close>

definition year_start :: "int \<Rightarrow> int" where
  "year_start y = 365 * y + y div 4 - y div 100"

definition year_of :: "int \<Rightarrow> int" where
  "year_of doe = (doe - doe div 1460 + doe div 36524 - doe div 146096) div 365"

lemma year_table:
  "list_all (\<lambda>y. year_of (year_start y) = y \<and>
     year_of (year_start (y + 1) + (if y = 399 then 1 else 0) - 1) = y) [0..399]"
  by code_simp


text \<open>The days before year \<open>y\<close> of an era, with the leap day of its last year.\<close>

definition era_days :: "int \<Rightarrow> int" where
  "era_days y = year_start y + (if y = 400 then 1 else 0)"

lemma year_of_table:
  assumes "0 \<le> y" "y < 400"
  shows "year_of (era_days y) = y" "year_of (era_days (y + 1) - 1) = y"
proof -
  have "y \<in> set [0..399]" using assms by simp
  with year_table have "year_of (year_start y) = y \<and>
     year_of (year_start (y + 1) + (if y = 399 then 1 else 0) - 1) = y"
    unfolding list_all_iff by blast
  with assms show "year_of (era_days y) = y" "year_of (era_days (y + 1) - 1) = y"
    by (auto simp: era_days_def)
qed

lemma year_of_mono:
  assumes "0 \<le> a" "a \<le> b" "b < 146097"
  shows "year_of a \<le> year_of b"
proof -
  have "b div 1460 \<le> (a + (b - a) * 1460) div 1460" using assms(1,2) by (intro zdiv_mono1) auto
  then have 1: "a - a div 1460 \<le> b - b div 1460" by simp
  have 2: "a div 36524 - a div 146096 \<le> b div 36524 - b div 146096"
  proof (cases "b = 146096")
    case True
    show ?thesis
    proof (cases "a = b")
      case False
      then have "a \<le> 146095" using True assms(2) by simp
      then have "a div 146096 = 0" "a div 36524 \<le> 146095 div 36524"
        using assms(1) by (auto intro: div_pos_pos_trivial zdiv_mono1)
      with True show ?thesis by simp
    qed simp
  next
    case False
    then have "b div 146096 = 0" "a div 146096 = 0" using assms by (auto intro: div_pos_pos_trivial)
    then show ?thesis using zdiv_mono1 [OF assms(2), of 36524] by simp
  qed
  have "a - a div 1460 + a div 36524 - a div 146096 \<le> b - b div 1460 + b div 36524 - b div 146096"
    using 1 2 by linarith
  then show ?thesis unfolding year_of_def by (rule zdiv_mono1) simp
qed

lemma era_days_search: "0 \<le> k \<Longrightarrow> 0 \<le> doe \<Longrightarrow> doe < era_days k \<Longrightarrow> \<exists>y. 0 \<le> y \<and> y < k \<and> era_days y \<le> doe \<and> doe < era_days (y + 1)"
proof (induction k rule: int_ge_induct)
  case base
  then show ?case by (simp add: era_days_def year_start_def)
next
  case (step k)
  show ?case
  proof (cases "doe < era_days k")
    case True
    with step obtain y where "0 \<le> y \<and> y < k \<and> era_days y \<le> doe \<and> doe < era_days (y + 1)" by blast
    then show ?thesis by (intro exI [of _ y]) simp
  next
    case False
    with step show ?thesis by (intro exI [of _ k]) simp
  qed
qed

lemma year_of_bounds:
  assumes "0 \<le> doe" "doe < 146097"
  shows "0 \<le> year_of doe" "year_of doe < 400" "era_days (year_of doe) \<le> doe" "doe < era_days (year_of doe + 1)"
proof -
  have "doe < era_days 400" using assms by (simp add: era_days_def year_start_def)
  with era_days_search [of 400 doe] assms obtain y
    where y: "0 \<le> y" "y < 400" "era_days y \<le> doe" "doe < era_days (y + 1)" by auto
  have "era_days (y + 1) \<le> 146097"
  proof (cases "y + 1 = 400")
    case False
    then have "(y + 1) div 4 \<le> 99" "0 \<le> (y + 1) div 100" using y(1,2) by auto
    then show ?thesis using False y(2) unfolding era_days_def year_start_def by simp
  qed (simp add: era_days_def year_start_def)
  moreover have "0 \<le> era_days y"
    using y(1) zdiv_mono2 [of y 4 100] unfolding era_days_def year_start_def by simp
  ultimately have "year_of (era_days y) \<le> year_of doe" "year_of doe \<le> year_of (era_days (y + 1) - 1)"
    using y assms by (auto intro!: year_of_mono)
  with year_of_table [OF y(1,2)] have "year_of doe = y" by simp
  with y show "0 \<le> year_of doe" "year_of doe < 400" "era_days (year_of doe) \<le> doe" "doe < era_days (year_of doe + 1)"
    by simp_all
qed

text \<open>Month and day of a day of the year that starts in March, for each of the twelve months.\<close>

lemma day_of_year:
  assumes "0 \<le> doy" "doy \<le> 365" "mp = (5 * doy + 2) div 153" "d = doy - (153 * mp + 2) div 5 + 1"
    "m = (if mp < 10 then mp + 3 else mp - 9)"
  shows "1 \<le> m \<and> m \<le> 12 \<and> 1 \<le> d \<and> d \<le> kDays ! nat (m - 1) + (if doy = 365 then 1 else 0) \<and>
    (doy = 365 \<longrightarrow> m = 2) \<and> (153 * (if 2 < m then m - 3 else m + 9) + 2) div 5 + d - 1 = doy"
proof -
  have b: "153 * mp \<le> 5 * doy + 2" "5 * doy + 2 < 153 * mp + 153"
    using assms(3) by (simp_all add: minus_mod_eq_mult_div [symmetric])
  then have "0 \<le> mp" "mp \<le> 11" using assms(1,2) by linarith+
  then have "mp = 0 \<or> mp = 1 \<or> mp = 2 \<or> mp = 3 \<or> mp = 4 \<or> mp = 5 \<or> mp = 6 \<or> mp = 7 \<or> mp = 8 \<or>
      mp = 9 \<or> mp = 10 \<or> mp = 11" by presburger
  then show ?thesis using b assms(1,2) unfolding assms(4,5)
    by (elim disjE) (auto simp: kDays_def)
qed

lemma div_step:
  assumes "0 < (k::int)"
  shows "(y + 1) div k = y div k + (if (y + 1) mod k = 0 then 1 else 0)"
proof (cases "y mod k = k - 1")
  case True
  moreover have "(y div k + 1) * k = y div k * k + k" by (simp add: algebra_simps)
  ultimately have "y + 1 = (y div k + 1) * k" using div_mult_mod_eq [of y k] by linarith
  then have "(y + 1) div k = y div k + 1 \<and> (y + 1) mod k = 0" using assms by simp
  then show ?thesis by simp
next
  case False
  then have r: "0 \<le> y mod k" "y mod k + 1 < k"
    using assms pos_mod_bound [OF assms, of y] pos_mod_sign [OF assms, of y] by linarith+
  have "y + 1 = (y mod k + 1) + y div k * k" using div_mult_mod_eq [of y k] by simp
  moreover have "((y mod k + 1) + y div k * k) div k = y div k" "((y mod k + 1) + y div k * k) mod k = y mod k + 1"
    using r by (simp_all only: div_mult_self1 mod_mult_self1) simp_all
  ultimately have "(y + 1) div k = y div k" "(y + 1) mod k = y mod k + 1" by (simp_all only:)
  with r show ?thesis by simp
qed

lemma sdiv_floor:
  assumes "0 < (k::int)"
  shows "(if 0 \<le> z then z else z - (k - 1)) sdiv k = z div k"
proof (cases "0 \<le> z")
  case False
  have "- (z - (k - 1)) = (k - 1 - z mod k) + (- (z div k)) * k"
    using div_mult_mod_eq [of z k] by (simp add: algebra_simps)
  moreover have "((k - 1 - z mod k) + (- (z div k)) * k) div k = - (z div k)"
  proof -
    have "(k - 1 - z mod k) div k = 0"
      using assms pos_mod_bound [OF assms, of z] pos_mod_sign [OF assms, of z]
      by (intro div_pos_pos_trivial) linarith+
    with assms show ?thesis by (subst div_mult_self1) simp_all
  qed
  ultimately have "(- (z - (k - 1))) div k = - (z div k)" by (simp only:)
  with False assms show ?thesis by (simp add: signed_divide_int_def)
qed (use assms in \<open>simp add: signed_divide_int_def sgn_if\<close>)

lemma civil_roundtrip:
  assumes "civil_from_days days = (y, m, d)"
  shows "DaysFromCivil y m d = days \<and> 1 \<le> m \<and> m \<le> 12 \<and> 1 \<le> d \<and>
    d \<le> kDays ! nat (m - 1) + (if m = 2 \<and> y mod 4 = 0 \<and> (y mod 100 \<noteq> 0 \<or> y mod 400 = 0) then 1 else 0)"
proof -
  define z where "z = days + 719468"
  define era doe where "era = z div 146097" and "doe = z mod 146097"
  have z: "z = era * 146097 + doe" "0 \<le> doe" "doe < 146097" by (simp_all add: era_def doe_def)
  define yoe where "yoe = year_of doe"
  note yb = year_of_bounds [OF z(2,3), folded yoe_def]
  define doy where "doy = doe - year_start yoe"
  have "era_days (yoe + 1) \<le> year_start yoe + 366"
  proof (cases "yoe = 399")
    case False
    have "(yoe + 1) div 4 \<le> yoe div 4 + 1" "yoe div 100 \<le> (yoe + 1) div 100"
      by (presburger, rule zdiv_mono1) simp_all
    with False show ?thesis unfolding era_days_def year_start_def by simp
  qed (simp add: era_days_def year_start_def)
  then have doy: "0 \<le> doy" "doy \<le> 365"
    using yb unfolding doy_def by (auto simp: era_days_def)
  have leap: "(yoe + 1) mod 4 = 0 \<and> ((yoe + 1) mod 100 \<noteq> 0 \<or> (yoe + 1) mod 400 = 0)" if "doy = 365"
  proof (cases "yoe = 399")
    case False
    have "year_start yoe + 365 < year_start (yoe + 1)"
      using yb(2,4) that False by (simp add: doy_def era_days_def)
    then show ?thesis using div_step [of 4 yoe] div_step [of 100 yoe]
      by (cases "(yoe + 1) mod 4 = 0"; cases "(yoe + 1) mod 100 = 0") (simp_all add: year_start_def)
  qed simp
  define mp where "mp = (5 * doy + 2) div 153"
  have res: "y = yoe + era * 400 + (if m \<le> 2 then 1 else 0)" "m = (if mp < 10 then mp + 3 else mp - 9)"
    "d = doy - (153 * mp + 2) div 5 + 1"
  proof -
    have e: "(if 0 \<le> z then z else z - 146096) sdiv 146097 = era"
      using sdiv_floor [of 146097 z] by (cases "0 \<le> z") (simp_all add: era_def)
    have dd: "z - era * 146097 = doe" using z(1) by simp
    from assms show "y = yoe + era * 400 + (if m \<le> 2 then 1 else 0)"
      "m = (if mp < 10 then mp + 3 else mp - 9)" "d = doy - (153 * mp + 2) div 5 + 1"
      unfolding civil_from_days_def Let_def z_def [symmetric] e dd year_of_def [symmetric] yoe_def [symmetric]
        year_start_def [symmetric] doy_def [symmetric] mp_def [symmetric] prod.inject by blast+
  qed
  note dt' = day_of_year [OF doy mp_def res(3) res(2)]
  have y1: "y - (if m \<le> 2 then 1 else 0) = yoe + era * 400" using res(1) by simp
  have e: "(yoe + era * 400) div 400 = era" using yb(1,2) by simp
  have "DaysFromCivil y m d = era * 146097 + (yoe * 365 + yoe div 4 - yoe div 100 + doy) - 719468"
  proof -
    have e4: "(if 0 \<le> yoe + era * 400 then yoe + era * 400 else yoe + era * 400 - 399) sdiv 400 = era"
      using sdiv_floor [of 400 "yoe + era * 400"] e by (cases "0 \<le> yoe + era * 400") simp_all
    have dd: "(153 * (if 2 < m then m - 3 else m + 9) + 2) div 5 + d - 1 = doy" using dt' by blast
    show ?thesis unfolding DaysFromCivil_def Let_def y1 e4 dd by simp
  qed
  also have "\<dots> = days" using z(1) by (simp add: doy_def year_start_def z_def)
  finally have "DaysFromCivil y m d = days" .
  moreover have "(y mod 4 = 0 \<and> (y mod 100 \<noteq> 0 \<or> y mod 400 = 0))" if "doy = 365"
  proof -
    have "y = yoe + 1 + era * 400" using res(1) dt' that by simp
    then have "y mod 4 = (yoe + 1) mod 4" "y mod 100 = (yoe + 1) mod 100" "y mod 400 = (yoe + 1) mod 400"
      using mod_mult_self1 [of "yoe + 1" "era * 100" 4] mod_mult_self1 [of "yoe + 1" "era * 4" 100]
        mod_mult_self1 [of "yoe + 1" era 400]
      by (simp_all add: mult.commute)
    with leap [OF that] show ?thesis by simp
  qed
  moreover define K where "K = kDays ! nat (m - 1)"
  ultimately show ?thesis using dt' unfolding K_def [symmetric] by (cases "doy = 365") auto
qed

section \<open>Text\<close>

lemma pad_nonneg: "0 \<le> i \<Longrightarrow> i < 10 ^ w \<Longrightarrow> 0 < w \<Longrightarrow>
  length (pad w i) = w \<and> list_all IsDigit (pad w i) \<and> digits_val 0 (pad w i) = nat i"
  by (simp add: pad_def length_zpad nat_less_iff)

lemma ParseUInt_pad: "0 \<le> i \<Longrightarrow> i < 10 ^ w \<Longrightarrow> 0 < w \<Longrightarrow> ParseUInt (pad w i) = Some i"
  using pad_nonneg [of i w] by (simp add: ParseUInt_def)

lemma frac_loop_digits:
  "list_all IsDigit f \<Longrightarrow> k + length f \<le> 9 \<Longrightarrow> \<not> IsDigit c \<Longrightarrow>
   frac_loop (f @ c # rest) (int a) k = (int (digits_val a f), k + length f, length f)"
proof (induction f arbitrary: a k)
  case (Cons d f)
  then have "frac_loop (f @ c # rest) (int (a * 10 + digit_val d)) (Suc k) =
    (int (digits_val (a * 10 + digit_val d) f), Suc k + length f, length f)" by (intro Cons.IH) simp_all
  then show ?case using Cons.prems by simp
qed simp

lemma trim_nanos_val:
  "trim_nanos n w = (n', w') \<Longrightarrow> 0 < n \<Longrightarrow> n < 10 ^ w \<Longrightarrow>
   0 < n' \<and> n' < 10 ^ w' \<and> 0 < w' \<and> w' \<le> w \<and> n = n' * 10 ^ (w - w')"
proof (induction n w rule: trim_nanos.induct)
  case (1 n w)
  have w: "0 < w" using "1.prems" by (cases w) auto
  show ?case
  proof (cases "n smod 10 = 0")
    case True
    then have q: "n = n sdiv 10 * 10" "n sdiv 10 = n div 10"
      using "1.prems"(2) by (auto simp: signed_modulo_int_def signed_divide_int_def)
    have t: "trim_nanos (n sdiv 10) (w - 1) = (n', w')"
      using "1.prems" True by (subst (asm) trim_nanos.simps) simp
    have p: "(10::int) ^ w = 10 ^ (w - 1) * 10" using w by (cases w) simp_all
    with q "1.prems" have "0 < n sdiv 10" "n sdiv 10 < 10 ^ (w - 1)" by linarith+
    with "1.IH" [OF _ t] True "1.prems" have IH: "0 < n'" "n' < 10 ^ w'" "0 < w'" "w' \<le> w - 1"
      "n sdiv 10 = n' * 10 ^ (w - 1 - w')" by auto
    have "w - w' = Suc (w - 1 - w')" using IH(4) w by simp
    then have "n = n' * 10 ^ (w - w')" using IH(5) q(1) by simp
    with IH show ?thesis by simp
  next
    case False
    with "1.prems" w show ?thesis by (subst (asm) trim_nanos.simps) auto
  qed
qed

lemma two_chars: "length s = 2 \<Longrightarrow> \<exists>a b. s = [a, b]"
  by (auto simp: numeral_2_eq_2 length_Suc_conv)

lemma four_chars: "length s = 4 \<Longrightarrow> \<exists>a b c d. s = [a, b, c, d]"
  by (auto simp: numeral_eq_Suc length_Suc_conv)

text \<open>Reading the fields of a date and time written at their widths, with the tail that follows.\<close>

definition date_text :: "int \<Rightarrow> int \<Rightarrow> int \<Rightarrow> int \<Rightarrow> int \<Rightarrow> int \<Rightarrow> string" where
  "date_text y m d hh mm ss = pad 4 y @ ''-'' @ pad 2 m @ ''-'' @ pad 2 d @ ''T'' @
     pad 2 hh @ '':'' @ pad 2 mm @ '':'' @ pad 2 ss"

lemma ParseRFC3339_date:
  assumes "0 \<le> y" "y < 10 ^ 4" "0 \<le> m" "m < 10 ^ 2" "0 \<le> d" "d < 10 ^ 2" "0 \<le> hh" "hh < 10 ^ 2"
    "0 \<le> mm" "mm < 10 ^ 2" "0 \<le> ss" "ss < 10 ^ 2" "date_ok y m d hh mm ss"
    and tail: "tail = ''Z'' \<and> nanos = 0 \<or> (\<exists>f. tail = CHR ''.'' # f @ ''Z'' \<and> f \<noteq> [] \<and> list_all IsDigit f \<and>
      length f \<le> 9 \<and> nanos = int (digits_val 0 f) * 10 ^ (9 - length f))"
  shows "ParseRFC3339 (date_text y m d hh mm ss @ tail) =
    Some (DaysFromCivil y m d * 86400 + hh * 3600 + mm * 60 + ss, nanos)"
proof -
  note p4 = pad_nonneg [OF assms(1,2) zero_less_numeral] and pm = pad_nonneg [OF assms(3,4) zero_less_numeral] and pd = pad_nonneg [OF assms(5,6) zero_less_numeral]
    and ph = pad_nonneg [OF assms(7,8) zero_less_numeral] and pmm = pad_nonneg [OF assms(9,10) zero_less_numeral] and ps = pad_nonneg [OF assms(11,12) zero_less_numeral]
  have u: "ParseUInt (pad 4 y) = Some y" "ParseUInt (pad 2 m) = Some m" "ParseUInt (pad 2 d) = Some d"
    "ParseUInt (pad 2 hh) = Some hh" "ParseUInt (pad 2 mm) = Some mm" "ParseUInt (pad 2 ss) = Some ss"
    using assms by (auto intro: ParseUInt_pad)
  obtain y1 y2 y3 y4 where Y: "pad 4 y = [y1, y2, y3, y4]" using four_chars p4 by blast
  obtain m1 m2 where M: "pad 2 m = [m1, m2]" using two_chars pm by blast
  obtain d1 d2 where D: "pad 2 d = [d1, d2]" using two_chars pd by blast
  obtain h1 h2 where H: "pad 2 hh = [h1, h2]" using two_chars ph by blast
  obtain i1 i2 where I: "pad 2 mm = [i1, i2]" using two_chars pmm by blast
  obtain s1 s2 where S: "pad 2 ss = [s1, s2]" using two_chars ps by blast
  have h2: "IsDigit h2" using ph H by simp
  note e = Y M D H I S
  note u' = u [unfolded e]
  define s where "s = date_text y m d hh mm ss @ tail"
  have s: "s = [y1, y2, y3, y4, CHR ''-'', m1, m2, CHR ''-'', d1, d2, CHR ''T'', h1, h2, CHR '':'', i1, i2, CHR '':'', s1, s2] @ tail"
    by (simp add: s_def date_text_def e)
  have f: "length s = 19 + length tail" "s ! 4 = CHR ''-''" "s ! 7 = CHR ''-''" "s ! 10 = CHR ''T''" "digit_at s 12"
    "s ! 13 = CHR '':''" "s ! 16 = CHR '':''" "ParseUInt (substr s 0 4) = Some y" "ParseUInt (substr s 5 2) = Some m"
    "ParseUInt (substr s 8 2) = Some d" "ParseUInt (substr s 11 2) = Some hh" "ParseUInt (substr s 14 2) = Some mm"
    "ParseUInt (substr s 17 2) = Some ss"
    by (simp_all add: s digit_at_def h2 substr_def u')
  have t: "s ! (19 + i) = tail ! i" for i
    using nth_append_length_plus [of "take 19 s" tail i] by (simp add: s)
  have t1: "drop 20 s = drop 1 tail" by (simp add: s)
  have tne: "tail \<noteq> []" using tail by auto
  have main: "ParseRFC3339 s =
     (let (nn, pos) =
            (if (tail ! 0 = CHR ''.'' \<or> tail ! 0 = CHR '','') \<and> digit_at s 20
             then let (frac, digits, n) = frac_loop (drop 1 tail) 0 0 in (frac * 10 ^ (9 - digits), 20 + n)
             else (0, 19))
      in if length s \<le> pos then None
         else (case parse_zone s pos of None \<Rightarrow> None
               | Some off \<Rightarrow> Some (DaysFromCivil y m d * 86400 + hh * 3600 + mm * 60 + ss - off, nn)))"
    using f t [of 0] t1 tne assms(13) unfolding ParseRFC3339_def Let_def
    by (simp add: f(5) split: prod.split option.split)
  from tail have "ParseRFC3339 s = Some (DaysFromCivil y m d * 86400 + hh * 3600 + mm * 60 + ss, nanos)"
  proof
    assume tz: "tail = ''Z'' \<and> nanos = 0"
    then have "parse_zone s 19 = Some 0" using t [of 0] f(1) by (simp add: parse_zone_def)
    then show ?thesis using tz f(1) by (simp add: main)
  next
    assume "\<exists>f. tail = CHR ''.'' # f @ ''Z'' \<and> f \<noteq> [] \<and> list_all IsDigit f \<and>
      length f \<le> 9 \<and> nanos = int (digits_val 0 f) * 10 ^ (9 - length f)"
    then obtain fr where fr: "tail = CHR ''.'' # fr @ ''Z''" "fr \<noteq> []" "list_all IsDigit fr" "length fr \<le> 9"
      "nanos = int (digits_val 0 fr) * 10 ^ (9 - length fr)" by blast
    have "frac_loop (fr @ ''Z'') 0 0 = (int (digits_val 0 fr), length fr, length fr)"
      using frac_loop_digits [of fr 0 "CHR ''Z''" "[]" 0] fr by (simp add: IsDigit_def)
    moreover have "digit_at s 20" using t [of 1] fr f(1) by (cases fr) (simp_all add: digit_at_def)
    moreover have "parse_zone s (20 + length fr) = Some 0"
      using t [of "1 + length fr"] fr f(1) by (simp add: parse_zone_def nth_append)
    ultimately show ?thesis using fr f(1) by (simp add: main)
  qed
  then show ?thesis by (simp add: s_def)
qed

lemma FormatRFC3339Nano_text:
  assumes "civil_from_days (seconds div 86400) = (y, m, d)"
  defines "tod \<equiv> seconds mod 86400"
  shows "FormatRFC3339Nano seconds nanos = date_text y m d (tod div 3600) (tod div 60 mod 60) (tod mod 60) @
    (if nanos = 0 then ''Z'' else (case trim_nanos nanos 9 of (n, w) \<Rightarrow> CHR ''.'' # pad w n @ ''Z''))"
proof -
  have "(if seconds smod 86400 < 0 then (seconds sdiv 86400 - 1, seconds smod 86400 + 86400)
      else (seconds sdiv 86400, seconds smod 86400)) = (seconds div 86400, tod)"
  proof (cases "0 \<le> seconds")
    case True
    then show ?thesis by (simp add: signed_divide_int_def signed_modulo_int_def tod_def sgn_if not_less)
  next
    case False
    then show ?thesis
      using zdiv_zminus1_eq_if [of 86400 "- seconds"] zmod_zminus1_eq_if [of "- seconds" 86400]
        minus_div_mult_eq_mod [of "- seconds" 86400]
      by (auto simp: signed_divide_int_def signed_modulo_int_def tod_def)
  qed
  then show ?thesis
    unfolding FormatRFC3339Nano_def Let_def using assms(1) by (simp add: date_text_def split: prod.split)
qed

section \<open>Properties\<close>

text \<open>C25. Formatting a timestamp of the years 0 to 9999 and parsing the text gives the timestamp
  back, for every nanosecond fraction: the civil date computed from the day number is a valid
  date of the proleptic Gregorian calendar and maps to the same day.\<close>

theorem rfc3339_roundtrip:
  assumes "civil_from_days (seconds div 86400) = (y, m, d)" "0 \<le> y" "y \<le> 9999"
    "0 \<le> nanos" "nanos < 1000000000"
  shows "ParseRFC3339 (FormatRFC3339Nano seconds nanos) = Some (seconds, nanos)"
proof -
  define tod where "tod = seconds mod 86400"
  have tod: "0 \<le> tod" "tod < 86400" by (simp_all add: tod_def)
  define hh mm ss where "hh = tod div 3600" and "mm = tod div 60 mod 60" and "ss = tod mod 60"
  have b: "0 \<le> hh" "hh < 24" "0 \<le> mm" "mm < 60" "0 \<le> ss" "ss < 60"
    using tod by (simp_all add: hh_def mm_def ss_def)
  have t: "hh * 3600 + mm * 60 + ss = tod"
  proof -
    have "hh = tod div 60 div 60" by (simp add: hh_def div_mult2_eq [symmetric] zdiv_zmult2_eq [symmetric])
    then show ?thesis using div_mult_mod_eq [of tod 60] div_mult_mod_eq [of "tod div 60" 60]
      unfolding mm_def ss_def by linarith
  qed
  note c = civil_roundtrip [OF assms(1)]
  have kd: "kDays ! nat (m - 1) \<le> 31"
  proof -
    have "nat (m - 1) < length kDays" using c by (simp add: kDays_def nat_less_iff)
    then have "kDays ! nat (m - 1) \<in> set kDays" by (rule nth_mem)
    then show ?thesis by (auto simp: kDays_def)
  qed
  have d: "d < 10 ^ 2" using c kd by (auto split: if_splits)
  have ok: "date_ok y m d hh mm ss" using c b by (auto simp: date_ok_def Let_def)
  let ?tail = "if nanos = 0 then ''Z'' else (case trim_nanos nanos 9 of (n, w) \<Rightarrow> CHR ''.'' # pad w n @ ''Z'')"
  have tail: "?tail = ''Z'' \<and> nanos = 0 \<or> (\<exists>f. ?tail = CHR ''.'' # f @ ''Z'' \<and> f \<noteq> [] \<and> list_all IsDigit f \<and>
      length f \<le> 9 \<and> nanos = int (digits_val 0 f) * 10 ^ (9 - length f))"
  proof (cases "nanos = 0")
    case False
    obtain n w where nw: "trim_nanos nanos 9 = (n, w)" by fastforce
    with trim_nanos_val [OF nw] assms(4,5) False
    have v: "0 < n" "n < 10 ^ w" "0 < w" "w \<le> 9" "nanos = n * 10 ^ (9 - w)" by auto
    with pad_nonneg [of n w] nw False show ?thesis by (intro disjI2 exI [of _ "pad w n"]) auto
  qed simp
  have "ParseRFC3339 (FormatRFC3339Nano seconds nanos) =
      Some (DaysFromCivil y m d * 86400 + hh * 3600 + mm * 60 + ss, nanos)"
    unfolding FormatRFC3339Nano_text [OF assms(1)] tod_def [symmetric] hh_def [symmetric] mm_def [symmetric] ss_def [symmetric]
    using assms(2,3) c b d by (intro ParseRFC3339_date [OF _ _ _ _ _ d _ _ _ _ _ _ ok tail]) auto
  also have "DaysFromCivil y m d * 86400 + hh * 3600 + mm * 60 + ss = seconds"
    using c t div_mult_mod_eq [of seconds 86400] unfolding tod_def by linarith
  finally show ?thesis .
qed

theorem rfc3339_roundtrip_witness:
  "ParseRFC3339 (FormatRFC3339Nano 951782400 500) = Some (951782400, 500)"
proof -
  have "civil_from_days (951782400 div 86400) = (2000, 2, 29)" by code_simp
  from rfc3339_roundtrip [OF this] show ?thesis by simp
qed

end
