(* ===== verification/GoStrconv.thy ===== *)
theory GoStrconv
  imports Utf8 Rfc3339
begin

text \<open>
  The port of Go's number parsing and of package time's error messages: \<open>src/detail/go_strconv.cc\<close>.
  A function that sets \<open>*out\<close> or \<open>*err\<close> returns a sum. A \<open>double\<close> is its 64 bits; \<open>strtof\<close> and
  \<open>strtod\<close> of the C library are parameters, and so is the table of printable runes.
\<close>

section \<open>Numbers\<close>

definition IsHex :: "char \<Rightarrow> bool" where
  "IsHex c \<longleftrightarrow> IsDigit c \<or> 97 \<le> ord c \<and> ord c \<le> 102 \<or> 65 \<le> ord c \<and> ord c \<le> 70"

definition Lower :: "char \<Rightarrow> char" where
  "Lower c = (if 65 \<le> ord c \<and> ord c \<le> 90 then char_of (ord c + 32) else c)"

definition NumError :: "ranges \<Rightarrow> string \<Rightarrow> string \<Rightarrow> string \<Rightarrow> string" where
  "NumError printable fn s why = ''strconv.'' @ fn @ '': parsing '' @ GoQuote printable s @ '': '' @ why"

definition kSyntax :: string where "kSyntax = ''invalid syntax''"
definition kRange :: string where "kRange = ''value out of range''"

datatype Uint = UOk u64 | USyntax | URange u64

fun ReadUint_loop :: "u64 \<Rightarrow> u64 \<Rightarrow> string \<Rightarrow> u64 \<Rightarrow> Uint" where
  "ReadUint_loop mx cutoff [] n = UOk n"
| "ReadUint_loop mx cutoff (c # cs) n =
     (if \<not> IsDigit c then USyntax
      else if cutoff \<le> n then URange mx
      else
        let n10 = n * 10;
            n1 = n10 + of_nat (digit_val c)
        in if n1 < n10 \<or> mx < n1 then URange mx else ReadUint_loop mx cutoff cs n1)"

definition ReadUint :: "string \<Rightarrow> nat \<Rightarrow> Uint" where
  "ReadUint s bits =
     (if s = [] then USyntax
      else
        let mx = (if bits = 64 then - 1 else push_bit bits 1 - 1);
            cutoff = (- 1) div 10 + 1
        in ReadUint_loop mx cutoff s 0)"

definition GoParseUint :: "ranges \<Rightarrow> string \<Rightarrow> nat \<Rightarrow> string + u64" where
  "GoParseUint printable s bits =
     (case ReadUint s bits of
        UOk n \<Rightarrow> Inr n
      | USyntax \<Rightarrow> Inl (NumError printable ''ParseUint'' s kSyntax)
      | URange _ \<Rightarrow> Inl (NumError printable ''ParseUint'' s kRange))"

definition GoParseInt :: "ranges \<Rightarrow> string \<Rightarrow> nat \<Rightarrow> string + u64" where
  "GoParseInt printable s bits =
     (let is_signed = (s \<noteq> [] \<and> (hd s = CHR ''+'' \<or> hd s = CHR ''-''));
          neg = (s \<noteq> [] \<and> hd s = CHR ''-'');
          digits = (if is_signed then tl s else s);
          cutoff = push_bit (bits - 1) 1
      in case ReadUint digits bits of
           USyntax \<Rightarrow> Inl (NumError printable ''ParseInt'' s kSyntax)
         | URange _ \<Rightarrow> Inl (NumError printable ''ParseInt'' s kRange)
         | UOk un \<Rightarrow>
             if \<not> neg \<and> cutoff \<le> un \<or> neg \<and> cutoff < un then Inl (NumError printable ''ParseInt'' s kRange)
             else Inr (if neg then NOT un + 1 else un))"

text \<open>\<open>UnderscoreOK\<close>: the loop over the digits, with the class of the previous character.\<close>

fun UnderscoreOK_loop :: "bool \<Rightarrow> string \<Rightarrow> char \<Rightarrow> bool" where
  "UnderscoreOK_loop hex [] prev \<longleftrightarrow> prev \<noteq> CHR ''_''"
| "UnderscoreOK_loop hex (c # cs) prev \<longleftrightarrow>
     (if IsDigit c \<or> hex \<and> IsHex c then UnderscoreOK_loop hex cs (CHR ''0'')
      else if c = CHR ''_'' then (if prev \<noteq> CHR ''0'' then False else UnderscoreOK_loop hex cs (CHR ''_''))
      else (if prev = CHR ''_'' then False else UnderscoreOK_loop hex cs (CHR ''!'')))"

definition UnderscoreOK :: "string \<Rightarrow> bool" where
  "UnderscoreOK s0 =
     (let s = (if s0 \<noteq> [] \<and> (hd s0 = CHR ''-'' \<or> hd s0 = CHR ''+'') then tl s0 else s0)
      in if 2 \<le> length s \<and> s ! 0 = CHR ''0'' \<and>
            (Lower (s ! 1) = CHR ''b'' \<or> Lower (s ! 1) = CHR ''o'' \<or> Lower (s ! 1) = CHR ''x'')
         then UnderscoreOK_loop (Lower (s ! 1) = CHR ''x'') (drop 2 s) (CHR ''0'')
         else UnderscoreOK_loop False s (CHR ''^''))"

fun CommonPrefix :: "string \<Rightarrow> string \<Rightarrow> nat" where
  "CommonPrefix (c # s) (w # word) = (if Lower c = w then Suc (CommonPrefix s word) else 0)"
| "CommonPrefix _ _ = 0"

text \<open>The mantissa of a float: what stopped the scan, and whether a digit and an underscore were seen.\<close>

fun scan_mantissa :: "bool \<Rightarrow> string \<Rightarrow> bool \<Rightarrow> bool \<Rightarrow> bool \<Rightarrow> string \<times> bool \<times> bool" where
  "scan_mantissa hex [] saw_dot saw_digits underscores = ([], saw_digits, underscores)"
| "scan_mantissa hex (c # cs) saw_dot saw_digits underscores =
     (if c = CHR ''_'' then scan_mantissa hex cs saw_dot saw_digits True
      else if c = CHR ''.'' then
        (if saw_dot then (c # cs, saw_digits, underscores) else scan_mantissa hex cs True saw_digits underscores)
      else if IsDigit c \<or> hex \<and> IsHex c then scan_mantissa hex cs saw_dot True underscores
      else (c # cs, saw_digits, underscores))"

text \<open>The exponent: \<open>None\<close> for a syntax error, otherwise the rest and whether an underscore was seen.\<close>

definition scan_exponent :: "string \<Rightarrow> (string \<times> bool) option" where
  "scan_exponent s =
     (let s1 = (if s \<noteq> [] \<and> (hd s = CHR ''+'' \<or> hd s = CHR ''-'') then tl s else s)
      in if s = [] then None
         else if s1 = [] \<or> \<not> IsDigit (hd s1) then None
         else Some (dropWhile (\<lambda>c. IsDigit c \<or> c = CHR ''_'') s1,
                    CHR ''_'' \<in> set (takeWhile (\<lambda>c. IsDigit c \<or> c = CHR ''_'') s1)))"

definition is_inf_bits :: "u64 \<Rightarrow> bool" where
  "is_inf_bits b \<longleftrightarrow> b AND 0x7FFFFFFFFFFFFFFF = 0x7FF0000000000000"

definition float_syntax_ok :: "string \<Rightarrow> bool" where
  "float_syntax_ok s =
     (let s1 = (if hd s = CHR ''+'' \<or> hd s = CHR ''-'' then tl s else s);
          hex = (2 < length s1 \<and> s1 ! 0 = CHR ''0'' \<and> Lower (s1 ! 1) = CHR ''x'');
          (rest, saw_digits, us) = scan_mantissa hex (if hex then drop 2 s1 else s1) False False False
      in saw_digits \<and>
         (if rest \<noteq> [] \<and> Lower (hd rest) = (if hex then CHR ''p'' else CHR ''e'') then
            (case scan_exponent (tl rest) of
               None \<Rightarrow> False
             | Some (rest', us') \<Rightarrow> rest' = [] \<and> (us \<or> us' \<longrightarrow> UnderscoreOK s))
          else \<not> hex \<and> rest = [] \<and> (us \<longrightarrow> UnderscoreOK s)))"

definition GoParseFloat :: "ranges \<Rightarrow> (string \<Rightarrow> u64) \<Rightarrow> (string \<Rightarrow> u64) \<Rightarrow> string \<Rightarrow> nat \<Rightarrow> string + u64" where
  "GoParseFloat printable strtof strtod s bits =
     (if s = [] then Inl (NumError printable ''ParseFloat'' s kSyntax)
      else
        let signed_form = (hd s = CHR ''+'' \<or> hd s = CHR ''-'');
            t = (if signed_form then tl s else s);
            n = CommonPrefix t ''infinity''
        in if t \<noteq> [] \<and> (hd t = CHR ''i'' \<or> hd t = CHR ''I'') \<and> (n = 3 \<and> length t = 3 \<or> n = 8 \<and> length t = 8)
           then Inr (if hd s = CHR ''-'' then 0xFFF0000000000000 else 0x7FF0000000000000)
           else if \<not> signed_form \<and> CommonPrefix t ''nan'' = 3 \<and> length t = 3 then Inr 0x7FF8000000000001
           else if \<not> float_syntax_ok s then Inl (NumError printable ''ParseFloat'' s kSyntax)
           else
             let plain = filter (\<lambda>c. c \<noteq> CHR ''_'') s;
                 v = (if bits = 32 then strtof plain else strtod plain)
             in if is_inf_bits v then Inl (NumError printable ''ParseFloat'' s kRange) else Inr v)"

section \<open>Package time's messages\<close>

definition TimeQuote :: "string \<Rightarrow> string" where
  "TimeQuote s =
     [CHR 0x22] @
     concat (map (\<lambda>c. if 0x80 \<le> ord c \<or> ord c < 0x20
                      then [CHR 0x5C, CHR ''x'', kHex ! (ord c div 16), kHex ! (ord c mod 16)]
                      else if c = CHR 0x22 \<or> c = CHR 0x5C then [CHR 0x5C, c] else [c]) s) @
     [CHR 0x22]"

definition kLayout :: string where
  "kLayout = ''2006-01-02T15:04:05Z07:00''"

definition TimeError :: "string \<Rightarrow> string \<Rightarrow> string \<Rightarrow> string" where
  "TimeError v rest elem = ''parsing time '' @ TimeQuote v @ '' as '' @ TimeQuote kLayout @ '': cannot parse '' @
     TimeQuote rest @ '' as '' @ TimeQuote elem"

definition TimeMessage :: "string \<Rightarrow> string \<Rightarrow> string" where
  "TimeMessage v message = ''parsing time '' @ TimeQuote v @ message"

text \<open>One or two digits, or exactly two: the number and the rest.\<close>

definition GetNum :: "string \<Rightarrow> bool \<Rightarrow> (nat \<times> string) option" where
  "GetNum s fixed =
     (if s = [] \<or> \<not> IsDigit (s ! 0) then None
      else if length s < 2 \<or> \<not> IsDigit (s ! 1) then
        (if fixed then None else Some (digit_val (s ! 0), drop 1 s))
      else Some (digit_val (s ! 0) * 10 + digit_val (s ! 1), drop 2 s))"

fun leadingInt :: "string \<Rightarrow> u64 \<Rightarrow> bool" where
  "leadingInt [] whole = True"
| "leadingInt (c # cs) whole =
     (if \<not> IsDigit c then True
      else if push_bit 63 1 div 10 < whole then False
      else
        let w = whole * 10 + of_nat (digit_val c)
        in if push_bit 63 1 < w then False else leadingInt cs w)"

definition go_units :: "string list" where
  "go_units = [''ns'', ''us'', [CHR 0xC2, CHR 0xB5, CHR ''s''], [CHR 0xCE, CHR 0xBC, CHR ''s''], ''ms'', ''s'', ''m'', ''h'']"

text \<open>One turn of the loop: the message, or the rest to go on with.\<close>

definition duration_error_step :: "string \<Rightarrow> string \<Rightarrow> string + string" where
  "duration_error_step orig s =
     (let invalid = ''time: invalid duration '' @ TimeQuote orig
      in if s ! 0 \<noteq> CHR ''.'' \<and> \<not> IsDigit (s ! 0) then Inl invalid
         else if \<not> leadingInt s 0 then Inl invalid
         else
           let s1 = dropWhile IsDigit s;
               pre = IsDigit (s ! 0);
               dot = (s1 \<noteq> [] \<and> hd s1 = CHR ''.'');
               post = (dot \<and> tl s1 \<noteq> [] \<and> IsDigit (hd (tl s1)));
               s2 = (if dot then dropWhile IsDigit (tl s1) else s1);
               unit = takeWhile (\<lambda>c. c \<noteq> CHR ''.'' \<and> \<not> IsDigit c) s2
           in if \<not> pre \<and> \<not> post then Inl invalid
              else if unit = [] then Inl (''time: missing unit in duration '' @ TimeQuote orig)
              else if unit \<notin> set go_units
              then Inl (''time: unknown unit '' @ TimeQuote unit @ '' in duration '' @ TimeQuote orig)
              else Inr (drop (length unit) s2))"

lemma duration_error_step_shrinks:
  assumes "duration_error_step orig s = Inr rest"
  shows "length rest < length s"
proof -
  define s1 where "s1 = dropWhile IsDigit s"
  define s2 where "s2 = (if s1 \<noteq> [] \<and> hd s1 = CHR ''.'' then dropWhile IsDigit (tl s1) else s1)"
  have l1: "length s1 \<le> length s" by (simp add: s1_def length_dropWhile_le)
  have "length (dropWhile IsDigit (tl s1)) \<le> length (tl s1)" by (rule length_dropWhile_le)
  then have l2: "length s2 \<le> length s1" by (auto simp: s2_def)
  let ?unit = "takeWhile (\<lambda>c. c \<noteq> CHR ''.'' \<and> \<not> IsDigit c) s2"
  have ne: "?unit \<noteq> []" and r: "rest = drop (length ?unit) s2"
    using assms by (auto simp: duration_error_step_def Let_def s1_def [symmetric] s2_def [symmetric] split: if_splits)
  then have "s2 \<noteq> []" by auto
  with ne have "length (drop (length ?unit) s2) < length s2" by simp
  with l1 l2 r show ?thesis by simp
qed

function GoDurationError_loop :: "string \<Rightarrow> string \<Rightarrow> string" where
  "GoDurationError_loop orig s =
     (if s = [] then ''time: invalid duration '' @ TimeQuote orig
      else case duration_error_step orig s of Inl msg \<Rightarrow> msg | Inr rest \<Rightarrow> GoDurationError_loop orig rest)"
  by pat_completeness auto
termination
  by (relation "measure (\<lambda>(orig, s). length s)") (auto dest: duration_error_step_shrinks)

declare GoDurationError_loop.simps [simp del]

definition GoDurationError :: "string \<Rightarrow> string" where
  "GoDurationError orig =
     (let s = (if orig \<noteq> [] \<and> (hd orig = CHR ''-'' \<or> hd orig = CHR ''+'') then tl orig else orig)
      in GoDurationError_loop orig s)"


text \<open>The lambda \<open>literal\<close>: the text after the character, if it is there.\<close>

definition literal :: "char \<Rightarrow> string \<Rightarrow> string option" where
  "literal c v = (if v \<noteq> [] \<and> hd v = c then Some (tl v) else None)"

definition out_of_range :: "string \<Rightarrow> string \<Rightarrow> string" where
  "out_of_range v what = TimeMessage v ('': '' @ what @ '' out of range'')"

text \<open>A separator and a two-digit field after it, with its layout element: the number and the rest.\<close>

definition time_field :: "string \<Rightarrow> char \<Rightarrow> bool \<Rightarrow> string \<Rightarrow> string \<Rightarrow> string + nat \<times> string" where
  "time_field v sep fixed elem value =
     (case literal sep value of
        None \<Rightarrow> Inl (TimeError v value [sep])
      | Some hold \<Rightarrow>
          (case GetNum hold fixed of
             None \<Rightarrow> Inl (TimeError v hold elem)
           | Some (n, rest) \<Rightarrow> Inr (n, rest)))"

text \<open>The zone: a message, or the text after it.\<close>

definition zone_error :: "string \<Rightarrow> string \<Rightarrow> string + string" where
  "zone_error v value =
     (if value \<noteq> [] \<and> hd value = CHR ''Z'' then Inr (tl value)
      else if length value < 6 \<or> value ! 3 \<noteq> CHR '':'' then Inl (TimeError v value ''Z07:00'')
      else
        let hh = GetNum (substr value 1 2) True;
            mm = (case hh of None \<Rightarrow> None | Some _ \<Rightarrow> GetNum (substr value 4 2) True);
            oh = (case hh of None \<Rightarrow> 0 | Some (n, _) \<Rightarrow> n);
            om = (case mm of None \<Rightarrow> 0 | Some (n, _) \<Rightarrow> n);
            ok = (hh \<noteq> None \<and> mm \<noteq> None)
        in if 24 < oh then Inl (out_of_range v ''time zone offset hour'')
           else if 60 < om then Inl (out_of_range v ''time zone offset minute'')
           else if \<not> ok \<or> value ! 0 \<noteq> CHR ''+'' \<and> value ! 0 \<noteq> CHR ''-'' then Inl (TimeError v value ''Z07:00'')
           else Inr (drop 6 value))"

text \<open>Everything after the seconds: the fraction, the zone, extra text and the day of the month.\<close>

definition time_tail :: "string \<Rightarrow> nat \<Rightarrow> nat \<Rightarrow> nat \<Rightarrow> string \<Rightarrow> string" where
  "time_tail v year month day value0 =
     (let value = (if 2 \<le> length value0 \<and> (value0 ! 0 = CHR ''.'' \<or> value0 ! 0 = CHR '','') \<and> IsDigit (value0 ! 1)
                   then dropWhile IsDigit (tl value0) else value0)
      in case zone_error v value of
           Inl msg \<Rightarrow> msg
         | Inr rest \<Rightarrow>
             if rest \<noteq> [] then TimeMessage v ('': extra text: '' @ TimeQuote rest)
             else
               let leap = (month = 2 \<and> year mod 4 = 0 \<and> (year mod 100 \<noteq> 0 \<or> year mod 400 = 0))
               in if day < 1 \<or> kDays ! (month - 1) + (if leap then 1 else 0) < int day then out_of_range v ''day''
                  else TimeMessage v ('': extra text: '' @ [CHR 0x22, CHR 0x22]))"

definition GoTimestampError :: "string \<Rightarrow> string" where
  "GoTimestampError v =
     (if length v < 4 \<or> \<not> list_all IsDigit (take 4 v) then TimeError v v ''2006''
      else
        let year = digits_val 0 (take 4 v)
        in case time_field v (CHR ''-'') True ''01'' (drop 4 v) of
             Inl msg \<Rightarrow> msg
           | Inr (month, v1) \<Rightarrow>
               if month \<le> 0 \<or> 12 < month then out_of_range v ''month''
               else (case time_field v (CHR ''-'') True ''02'' v1 of
                  Inl msg \<Rightarrow> msg
                | Inr (day, v2) \<Rightarrow>
                    (case time_field v (CHR ''T'') False ''15'' v2 of
                       Inl msg \<Rightarrow> msg
                     | Inr (hour, v3) \<Rightarrow>
                         if 24 \<le> hour then out_of_range v ''hour''
                         else (case time_field v (CHR '':'') True ''04'' v3 of
                            Inl msg \<Rightarrow> msg
                          | Inr (minute, v4) \<Rightarrow>
                              if 60 \<le> minute then out_of_range v ''minute''
                              else (case time_field v (CHR '':'') True ''05'' v4 of
                                 Inl msg \<Rightarrow> msg
                               | Inr (second, v5) \<Rightarrow>
                                   if 60 \<le> second then out_of_range v ''second''
                                   else time_tail v year month day v5)))))"

section \<open>Facts\<close>

lemma digits_val_mono: "a \<le> digits_val a s"
  using digits_val_acc [of a s] by (simp add: trans_le_add1)

lemma unat_cutoff: "unat ((- 1) div 10 + 1 :: u64) = 1844674407370955162"
  by (simp add: unat_word_ariths unat_div_distrib unsigned_minus_1_eq_mask mask_eq_exp_minus_1)

text \<open>The loop reads a run of digits whose value stays within the maximum, and nothing else.\<close>

lemma ReadUint_loop_ok:
  "unat n \<le> unat mx \<Longrightarrow> ReadUint_loop mx ((- 1) div 10 + 1) s n = UOk r \<longleftrightarrow>
    list_all IsDigit s \<and> digits_val (unat n) s \<le> unat mx \<and> r = of_nat (digits_val (unat n) s)"
proof (induction s arbitrary: n)
  case (Cons c s)
  let ?V = "unat n * 10 + digit_val c"
  show ?case
  proof (cases "IsDigit c")
    case d: True
    note mono = digits_val_mono [of ?V s] and mx = unat_lt_word(4) [of mx]
    have dv: "digit_val c < 10" using d by simp
    show ?thesis
    proof (cases "(- 1) div 10 + 1 \<le> n")
      case True
      then have "1844674407370955162 \<le> unat n" by (simp add: word_le_nat_alt unat_cutoff)
      with mono mx have "\<not> digits_val ?V s \<le> unat mx" by linarith
      with d True show ?thesis by simp
    next
      case False
      then have n: "unat n < 1844674407370955162" by (simp add: word_le_nat_alt unat_cutoff)
      then have n10: "unat (n * 10) = unat n * 10" by (simp add: unat_word_ariths)
      have n1: "unat (n * 10 + of_nat (digit_val c)) = ?V mod 2 ^ 64"
        using dv by (simp add: unat_word_ariths word_nat mod_simps)
      show ?thesis
      proof (cases "?V < 2 ^ 64")
        case True
        with n1 have v: "unat (n * 10 + of_nat (digit_val c)) = ?V" by simp
        with n10 have lt: "\<not> n * 10 + of_nat (digit_val c) < n * 10" "mx < n * 10 + of_nat (digit_val c) \<longleftrightarrow> unat mx < ?V"
          by (simp_all add: word_less_nat_alt)
        show ?thesis
        proof (cases "unat mx < ?V")
          case True
          with mono have "\<not> digits_val ?V s \<le> unat mx" by linarith
          with d \<open>\<not> (- 1) div 10 + 1 \<le> n\<close> lt True show ?thesis by simp
        next
          case False
          with Cons.IH [of "n * 10 + of_nat (digit_val c)"] v d \<open>\<not> (- 1) div 10 + 1 \<le> n\<close> lt show ?thesis by (simp add: Let_def)
        qed
      next
        case False
        then have "?V mod 2 ^ 64 = ?V - 2 ^ 64" using n dv by (simp add: mod_if)
        with n1 n10 False dv have lt: "n * 10 + of_nat (digit_val c) < n * 10"
          by (simp add: word_less_nat_alt)
        from False mono mx have "\<not> digits_val ?V s \<le> unat mx" by simp
        with d \<open>\<not> (- 1) div 10 + 1 \<le> n\<close> lt show ?thesis by (simp add: Let_def)
      qed
    qed
  qed simp
qed auto

lemma unat_max_bits: "0 < bits \<Longrightarrow> bits \<le> 64 \<Longrightarrow> unat (if bits = 64 then - 1 else push_bit bits 1 - 1 :: u64) = 2 ^ bits - 1"
proof (cases "bits = 64")
  case False
  assume "0 < bits" "bits \<le> 64"
  then have lt: "(2::nat) ^ bits < 2 ^ 64" using False by (intro power_strict_increasing) auto
  have "bits < 64" using \<open>bits \<le> 64\<close> False by simp
  with lt have u: "unat (push_bit bits 1 :: u64) = 2 ^ bits"
    by (simp only: unsigned_push_bit_eq unsigned_1) (simp add: push_bit_eq_mult take_bit_nat_eq_self)
  then have "1 \<le> (push_bit bits 1 :: u64)" by (simp add: word_le_nat_alt)
  then show ?thesis using False u by (simp add: unat_sub)
qed (simp add: unsigned_minus_1_eq_mask mask_eq_exp_minus_1)

lemma ReadUint_ok:
  assumes "0 < bits" "bits \<le> 64"
  shows "ReadUint s bits = UOk r \<longleftrightarrow> s \<noteq> [] \<and> list_all IsDigit s \<and> digits_val 0 s < 2 ^ bits \<and> r = of_nat (digits_val 0 s)"
proof -
  let ?mx = "if bits = 64 then - 1 else push_bit bits 1 - 1 :: u64"
  have "digits_val 0 s \<le> unat ?mx \<longleftrightarrow> digits_val 0 s < 2 ^ bits"
    unfolding unat_max_bits [OF assms] by (simp add: less_eq_Suc_le [symmetric] Suc_le_eq le_diff_conv2)
  with ReadUint_loop_ok [of 0 ?mx s r] show ?thesis by (simp add: ReadUint_def Let_def)
qed

section \<open>Properties\<close>

text \<open>\<open>GoParseUint\<close> and \<open>GoParseInt\<close> accept exactly the decimal numbers that fit the width: a
  non-empty run of digits below \<open>2 ^ bits\<close>, and with an optional sign a value from \<open>- 2 ^ (bits - 1)\<close>
  to \<open>2 ^ (bits - 1) - 1\<close>, and return that value.\<close>

theorem go_parse_exact:
  assumes "0 < bits" "bits \<le> 64"
  shows "(GoParseUint printable s bits = Inr v \<longleftrightarrow>
      s \<noteq> [] \<and> list_all IsDigit s \<and> digits_val 0 s < 2 ^ bits \<and> v = of_nat (digits_val 0 s)) \<and>
    (GoParseInt printable s bits = Inr v \<longleftrightarrow>
      (let neg = (s \<noteq> [] \<and> hd s = CHR ''-''); ds = (if s \<noteq> [] \<and> (hd s = CHR ''+'' \<or> hd s = CHR ''-'') then tl s else s)
       in ds \<noteq> [] \<and> list_all IsDigit ds \<and>
          (if neg then digits_val 0 ds \<le> 2 ^ (bits - 1) else digits_val 0 ds < 2 ^ (bits - 1)) \<and>
          v = of_int (if neg then - int (digits_val 0 ds) else int (digits_val 0 ds))))"
proof
  show "GoParseUint printable s bits = Inr v \<longleftrightarrow>
      s \<noteq> [] \<and> list_all IsDigit s \<and> digits_val 0 s < 2 ^ bits \<and> v = of_nat (digits_val 0 s)"
    using ReadUint_ok [OF assms, of s v] by (auto simp: GoParseUint_def split: Uint.splits)
  define neg ds where "neg \<longleftrightarrow> s \<noteq> [] \<and> hd s = CHR ''-''"
    and "ds = (if s \<noteq> [] \<and> (hd s = CHR ''+'' \<or> hd s = CHR ''-'') then tl s else s)"
  let ?n = "digits_val 0 ds"
  have b1: "bits - 1 < 64" using assms by linarith
  then have "(2::nat) ^ (bits - 1) < 2 ^ 64" by (intro power_strict_increasing) auto
  with b1 have c: "unat (push_bit (bits - 1) 1 :: u64) = 2 ^ (bits - 1)"
    by (simp only: unsigned_push_bit_eq unsigned_1) (simp add: push_bit_eq_mult take_bit_nat_eq_self)
  have le: "(2::nat) ^ (bits - 1) < 2 ^ bits" using assms by (intro power_strict_increasing) auto
  have fits: "unat (of_nat ?n :: u64) = ?n" if "?n < 2 ^ bits"
  proof -
    have "(2::nat) ^ bits \<le> 2 ^ 64" using assms by (intro power_increasing) auto
    with that show ?thesis by (simp add: word_nat)
  qed
  have neg_val: "NOT x + 1 = - x" for x :: u64 by (simp add: not_eq_complement)
  define C :: u64 where "C = push_bit (bits - 1) 1"
  define P Q :: nat where "P = 2 ^ (bits - 1)" and "Q = 2 ^ bits"
  have "GoParseInt printable s bits = Inr v \<longleftrightarrow> (\<exists>un. ReadUint ds bits = UOk un \<and>
      \<not> (\<not> neg \<and> C \<le> un \<or> neg \<and> C < un) \<and> v = (if neg then - un else un))"
    unfolding GoParseInt_def Let_def neg_def [symmetric] ds_def [symmetric] C_def [symmetric] neg_val
    by (auto split: Uint.splits)
  also have "\<dots> \<longleftrightarrow> ds \<noteq> [] \<and> list_all IsDigit ds \<and>
          (if neg then ?n \<le> 2 ^ (bits - 1) else ?n < 2 ^ (bits - 1)) \<and>
          v = of_int (if neg then - int ?n else int ?n)"
    using le fits c unfolding ReadUint_ok [OF assms] word_le_nat_alt word_less_nat_alt C_def [symmetric]
      P_def [symmetric] Q_def [symmetric] by auto
  finally show "GoParseInt printable s bits = Inr v \<longleftrightarrow>
      (let neg = (s \<noteq> [] \<and> hd s = CHR ''-''); ds = (if s \<noteq> [] \<and> (hd s = CHR ''+'' \<or> hd s = CHR ''-'') then tl s else s)
       in ds \<noteq> [] \<and> list_all IsDigit ds \<and>
          (if neg then digits_val 0 ds \<le> 2 ^ (bits - 1) else digits_val 0 ds < 2 ^ (bits - 1)) \<and>
          v = of_int (if neg then - int (digits_val 0 ds) else int (digits_val 0 ds)))"
    unfolding Let_def neg_def ds_def .
qed

theorem go_parse_exact_witness:
  "GoParseInt [] ''-128'' 8 = Inr (- 128)"
proof -
  have "digits_val 0 ''128'' = 128" by (simp add: digit_val_def)
  with go_parse_exact [of 8 "[]" "''-128''" "- 128"] show ?thesis by (simp add: IsDigit_def digit_val_def)
qed

end
