(* ===== verification/Base64.thy ===== *)
theory Base64
  imports Prelude
begin

text \<open>
  Base64 as \<open>src/detail/base64.cc\<close> has it: the standard encoder, the strict standard decoder, and
  the port of Go's lenient quantum decoder with its error offsets.
\<close>

section \<open>Operations\<close>

definition kAlphabet :: string where
  "kAlphabet = ''ABCDEFGHIJKLMNOPQRSTUVWXYZabcdefghijklmnopqrstuvwxyz0123456789+/''"

text \<open>The decode table: 0 to 63 are values, 64 is the padding character, 255 is invalid.\<close>

definition kDecodeTable :: "char \<Rightarrow> byte" where
  "kDecodeTable = (fold (\<lambda>i t. t(kAlphabet ! i := of_nat i)) [0..<64] (\<lambda>_. 255))(CHR ''='' := 64)"

definition sextet :: "u32 \<Rightarrow> nat \<Rightarrow> char" where
  "sextet v sh = kAlphabet ! unat (drop_bit sh v AND 0x3f)"

fun Base64EncodeStd :: "byte list \<Rightarrow> string" where
  "Base64EncodeStd [] = []"
| "Base64EncodeStd [a] =
     (let v = push_bit 16 (ucast a) :: u32 in [sextet v 18, sextet v 12] @ ''=='')"
| "Base64EncodeStd [a, b] =
     (let v = push_bit 16 (ucast a) OR push_bit 8 (ucast b) :: u32
      in [sextet v 18, sextet v 12, sextet v 6] @ ''='')"
| "Base64EncodeStd (a # b # c # ds) =
     (let v = push_bit 16 (ucast a) OR push_bit 8 (ucast b) OR ucast c :: u32
      in [sextet v 18, sextet v 12, sextet v 6, sextet v 0] @ Base64EncodeStd ds)"

text \<open>The decoding loop; it returns the bytes, the accumulator, its bits and the characters read.\<close>

fun DecodeStd_loop :: "string \<Rightarrow> u32 \<Rightarrow> nat \<Rightarrow> nat \<Rightarrow> byte list \<Rightarrow> (byte list \<times> u32 \<times> nat \<times> nat) option" where
  "DecodeStd_loop [] buf bits consumed out = Some (out, buf, bits, consumed)"
| "DecodeStd_loop (c # cs) buf bits consumed out =
     (let v = kDecodeTable c
      in if v = 255 then None
         else if v = 64 then
           (if list_ex (\<lambda>d. d \<noteq> CHR ''='') (c # cs) then None else Some (out, buf, bits, consumed))
         else
           let buf' = push_bit 6 buf OR ucast v;
               bits' = bits + 6
           in if 8 \<le> bits' then
                DecodeStd_loop cs buf' (bits' - 8) (consumed + 1)
                  (out @ [ucast (drop_bit (bits' - 8) buf' AND 0xff)])
              else DecodeStd_loop cs buf' bits' (consumed + 1) out)"

definition Base64DecodeStd :: "string \<Rightarrow> byte list option" where
  "Base64DecodeStd s =
     (if s = [] then Some []
      else
        let has_pad = (last s = CHR ''='')
        in if has_pad \<and> length s mod 4 \<noteq> 0 then None
           else (case DecodeStd_loop s 0 0 0 [] of
                   None \<Rightarrow> None
                 | Some (out, buf, bits, consumed) \<Rightarrow>
                     if 6 \<le> bits then None
                     else if 0 < bits \<and> buf AND (push_bit bits 1 - 1) \<noteq> 0 then None
                     else if has_pad \<and> length s - consumed \<noteq> 1 \<and> length s - consumed \<noteq> 2 then None
                     else Some out))"

text \<open>The lambda \<open>value\<close> of \<open>DecodeGo\<close>; \<open>None\<close> is its \<open>-1\<close>.\<close>

definition go_value :: "bool \<Rightarrow> char \<Rightarrow> u32 option" where
  "go_value url c =
     (let n = of_char c :: nat
      in if 65 \<le> n \<and> n \<le> 90 then Some (of_nat (n - 65))
         else if 97 \<le> n \<and> n \<le> 122 then Some (of_nat (n - 97 + 26))
         else if 48 \<le> n \<and> n \<le> 57 then Some (of_nat (n - 48 + 52))
         else if c = (if url then CHR ''-'' else CHR ''+'') then Some 62
         else if c = (if url then CHR ''_'' else CHR ''/'') then Some 63
         else None)"

definition newline :: "char \<Rightarrow> bool" where
  "newline c \<longleftrightarrow> c = CHR 0x0A \<or> c = CHR 0x0D"

text \<open>
  One quantum, from its \<open>j\<close>-th character on: an error with its offset, the end of the input before
  a first character, or a number of characters, their value and the rest. \<open>n\<close> is the size of the
  whole input, so the position \<open>si\<close> is \<open>n\<close> less the length of what is left.
\<close>

datatype quantum = QFail nat | QEnd | Quantum nat u32 string

fun go_quantum :: "bool \<Rightarrow> bool \<Rightarrow> nat \<Rightarrow> string \<Rightarrow> nat \<Rightarrow> u32 \<Rightarrow> quantum" where
  "go_quantum url padded n src j v =
     (if 4 \<le> j then Quantum 4 v src
      else case src of
          [] \<Rightarrow> if j = 0 then QEnd else if j = 1 \<or> padded then QFail (n - j) else Quantum j v []
        | c # cs \<Rightarrow>
            (case go_value url c of
               Some x \<Rightarrow> go_quantum url padded n cs (j + 1) (v OR push_bit (6 * (3 - j)) x)
             | None \<Rightarrow>
                 if newline c then go_quantum url padded n cs j v
                 else if \<not> padded \<or> c \<noteq> CHR ''='' then QFail (n - length cs - 1)
                 else if j < 2 then QFail (n - length cs - 1)
                 else
                   let r = dropWhile newline cs
                   in if j = 2 \<and> r = [] then QFail n
                      else if j = 2 \<and> hd r \<noteq> CHR ''='' then QFail (n - length r - 1)
                      else
                        let r1 = dropWhile newline (if j = 2 then tl r else cs)
                        in if r1 \<noteq> [] then QFail (n - length r1) else Quantum j v []))"

declare go_quantum.simps [simp del]

lemma go_quantum_Cons:
  assumes "j < 4" "go_quantum url padded n (c # cs) j v = Quantum k w rest"
  shows "rest = [] \<or> (\<exists>j' v'. go_quantum url padded n cs j' v' = Quantum k w rest)"
proof (cases "go_value url c")
  case (Some x)
  with assms show ?thesis by (subst (asm) go_quantum.simps) auto
next
  case None
  with assms show ?thesis
    by (subst (asm) go_quantum.simps) (auto simp: Let_def simp del: dropWhile_eq_Nil_conv split: if_splits)
qed

lemma go_quantum_length: "go_quantum url padded n src j v = Quantum k w rest \<Longrightarrow> length rest \<le> length src"
proof (induction src arbitrary: j v)
  case Nil
  then show ?case by (subst (asm) go_quantum.simps) (auto split: if_splits)
next
  case (Cons c cs)
  show ?case
  proof (cases "j < 4")
    case True
    from go_quantum_Cons [OF True Cons.prems] Cons.IH show ?thesis by (auto intro: le_SucI)
  next
    case False
    with Cons.prems show ?thesis by (subst (asm) go_quantum.simps) simp
  qed
qed

lemma go_quantum_shrinks: "go_quantum url padded n (c # cs) 0 v = Quantum k w rest \<Longrightarrow> length rest \<le> length cs"
  using go_quantum_Cons [of 0] go_quantum_length by (metis le0 list.size(3) zero_less_numeral)

function DecodeGo_loop :: "bool \<Rightarrow> bool \<Rightarrow> nat \<Rightarrow> string \<Rightarrow> byte list \<Rightarrow> nat + byte list" where
  "DecodeGo_loop url padded n src out =
     (if src = [] then Inr out
      else case go_quantum url padded n src 0 0 of
          QFail at \<Rightarrow> Inl at
        | QEnd \<Rightarrow> Inr out
        | Quantum dlen v rest \<Rightarrow>
            DecodeGo_loop url padded n rest
              (out @ (if 2 \<le> dlen then [ucast (drop_bit 16 v)] else []) @
                     (if 3 \<le> dlen then [ucast (drop_bit 8 v)] else []) @
                     (if 4 \<le> dlen then [ucast v] else [])))"
  by pat_completeness auto
termination
proof (relation "measure (\<lambda>(url, padded, n, src, out). length src)", goal_cases)
  case (2 url padded n src out dlen v rest)
  then show ?case by (cases src) (auto dest: go_quantum_shrinks simp: less_Suc_eq_le)
qed simp

declare DecodeGo_loop.simps [simp del]

definition DecodeGo :: "string \<Rightarrow> bool \<Rightarrow> bool \<Rightarrow> nat + byte list" where
  "DecodeGo src url padded = DecodeGo_loop url padded (length src) src []"

text \<open>On failure the value is the offset left in \<open>*offset\<close>.\<close>

definition Base64DecodeProto :: "string \<Rightarrow> nat + byte list" where
  "Base64DecodeProto s =
     (case DecodeGo s False True of Inr d \<Rightarrow> Inr d | Inl _ \<Rightarrow> DecodeGo s True True)"

definition Base64DecodeLenient :: "string \<Rightarrow> nat + byte list" where
  "Base64DecodeLenient s =
     (case DecodeGo s False True of
        Inr d \<Rightarrow> Inr d
      | Inl offset \<Rightarrow>
          (case DecodeGo s False False of
             Inr d \<Rightarrow> Inr d
           | Inl _ \<Rightarrow>
               (case DecodeGo s True True of
                  Inr d \<Rightarrow> Inr d
                | Inl _ \<Rightarrow>
                    (case DecodeGo s True False of Inr d \<Rightarrow> Inr d | Inl _ \<Rightarrow> Inl offset))))"

section \<open>Tables\<close>

lemma alphabet_tables:
  "list_all (\<lambda>i. kDecodeTable (kAlphabet ! i) = of_nat i \<and> go_value False (kAlphabet ! i) = Some (of_nat i) \<and>
     kAlphabet ! i \<noteq> CHR ''='') [0..<64]"
  by code_simp


lemma alphabet_char:
  assumes "i < 64"
  shows "kDecodeTable (kAlphabet ! i) = of_nat i" "go_value False (kAlphabet ! i) = Some (of_nat i)"
    "kAlphabet ! i \<noteq> CHR ''=''"
  using alphabet_tables assms unfolding list_all_iff by auto

lemma pad_char: "kDecodeTable (CHR ''='') = 64" "go_value False (CHR ''='') = None" "\<not> newline (CHR ''='')"
  by (simp_all add: kDecodeTable_def go_value_def newline_def)

lemma small_byte: "i < 64 \<Longrightarrow> (of_nat i :: byte) \<noteq> 255 \<and> (of_nat i :: byte) \<noteq> 64"
  by (auto simp: word_unat_eq_iff unat_of_nat)

text \<open>The six-bit groups of one to three bytes.\<close>

definition sextets :: "nat \<Rightarrow> nat \<Rightarrow> nat \<Rightarrow> nat list" where
  "sextets a b c = [a div 4, a mod 4 * 16 + b div 16, b mod 16 * 4 + c div 64, c mod 64]"

lemma sextet_char: "sextet v sh = kAlphabet ! (unat v div 2 ^ sh mod 64)"
  by (simp add: sextet_def word_nat)

lemma unat_group:
  fixes a b c :: byte
  shows "unat (push_bit 16 (ucast a) OR push_bit 8 (ucast b) OR ucast c :: u32) = unat a * 65536 + unat b * 256 + unat c"
    "unat (push_bit 16 (ucast a) OR push_bit 8 (ucast b) :: u32) = unat a * 65536 + unat b * 256"
    "unat (push_bit 16 (ucast a) :: u32) = unat a * 65536"
proof -
  have a: "unat (push_bit 16 (ucast a) :: u32) = unat a * 65536" and b: "unat (push_bit 8 (ucast b) :: u32) = unat b * 256"
    and c: "unat (ucast c :: u32) = unat c"
    using unat_lt_word(1) [of a] unat_lt_word(1) [of b] by (simp_all add: word_nat)
  have ab: "unat (push_bit 16 (ucast a) OR push_bit 8 (ucast b) :: u32) = unat a * 65536 + unat b * 256"
    using or_disjoint_nat(2) [of "unat b * 256" 16 "unat a"] unat_lt_word(1) [of b] by (simp add: unsigned_or_eq a b)
  have "unat (ucast c :: u32) < 2 ^ 8" using unat_lt_word(1) [of c] c by simp
  then have "(unat a * 256 + unat b) * 2 ^ 8 OR unat c = (unat a * 256 + unat b) * 2 ^ 8 + unat c"
    using or_disjoint_nat(2) [of "unat c" 8 "unat a * 256 + unat b"] c by simp
  then show "unat (push_bit 16 (ucast a) OR push_bit 8 (ucast b) OR ucast c :: u32) = unat a * 65536 + unat b * 256 + unat c"
    by (simp add: or.assoc [symmetric] unsigned_or_eq [of _ "ucast c"] ab c algebra_simps)
  show "unat (push_bit 16 (ucast a) :: u32) = unat a * 65536"
    "unat (push_bit 16 (ucast a) OR push_bit 8 (ucast b) :: u32) = unat a * 65536 + unat b * 256" by (fact a ab)+
qed

lemma sextets_of_group:
  fixes a b c :: nat
  assumes "a < 256" "b < 256" "c < 256"
  defines "v \<equiv> a * 65536 + b * 256 + c"
  shows "map (\<lambda>sh. v div 2 ^ sh mod 64) [18, 12, 6, 0] = sextets a b c"
proof -
  have "v div 2 ^ 18 = a div 4" "v div 2 ^ 12 = a * 16 + b div 16" "v div 2 ^ 6 = a * 1024 + b * 4 + c div 64"
    using assms by (simp_all add: v_def)
  moreover have "a div 4 mod 64 = a div 4" using assms(1) by simp
  moreover have "(a * 16 + b div 16) mod 64 = a mod 4 * 16 + b div 16"
  proof -
    have "a * 16 + b div 16 = (a mod 4 * 16 + b div 16) + a div 4 * 64" using div_mult_mod_eq [of a 4] by linarith
    moreover have "a mod 4 * 16 + b div 16 < 64" using assms(2) by simp
    ultimately show ?thesis by (simp only: mod_mult_self1 mod_less)
  qed
  moreover have "(a * 1024 + b * 4 + c div 64) mod 64 = b mod 16 * 4 + c div 64"
  proof -
    have "a * 1024 + b * 4 + c div 64 = (b mod 16 * 4 + c div 64) + (a * 16 + b div 16) * 64"
    proof -
      have "(a * 16 + b div 16) * 64 = a * 1024 + b div 16 * 64" by simp
      then show ?thesis using div_mult_mod_eq [of b 16] by linarith
    qed
    moreover have "b mod 16 * 4 + c div 64 < 64" using assms(3) by simp
    ultimately show ?thesis by (simp only: mod_mult_self1 mod_less)
  qed
  moreover have "v mod 64 = c mod 64" using mod_mult_self1 [of c "a * 1024 + b * 4" 64] by (simp add: v_def algebra_simps)
  ultimately show ?thesis by (simp add: sextets_def)
qed

lemma sextets_less: "a < 256 \<Longrightarrow> b < 256 \<Longrightarrow> c < 256 \<Longrightarrow> x \<in> set (sextets a b c) \<Longrightarrow> x < 64"
  by (auto simp: sextets_def)

lemma encode_chars:
  fixes a b c :: byte
  defines "ch \<equiv> \<lambda>i. kAlphabet ! (sextets (unat a) (unat b) (unat c) ! i)"
  shows "Base64EncodeStd (a # b # c # ds) = [ch 0, ch 1, ch 2, ch 3] @ Base64EncodeStd ds"
    "c = 0 \<Longrightarrow> Base64EncodeStd [a, b] = [ch 0, ch 1, ch 2] @ ''=''"
    "b = 0 \<Longrightarrow> c = 0 \<Longrightarrow> Base64EncodeStd [a] = [ch 0, ch 1] @ ''==''"
  using sextets_of_group [OF unat_lt_word(1) unat_lt_word(1) unat_lt_word(1), of a b c]
  by (auto simp: Let_def sextet_char unat_group ch_def sextets_def)

section \<open>The strict decoder\<close>

definition acc6 :: "u32 \<Rightarrow> nat \<Rightarrow> u32" where
  "acc6 buf x = push_bit 6 buf OR ucast (of_nat x :: byte)"

lemma unat_acc6: "x < 64 \<Longrightarrow> unat (acc6 buf x) = (unat buf * 64 + x) mod 2 ^ 32"
proof -
  assume x: "x < 64"
  have "unat (push_bit 6 buf) = (unat buf mod 2 ^ 26) * 2 ^ 6"
    by (simp add: word_nat mult_mod_right mult.commute)
  then have "unat (acc6 buf x) = (unat buf mod 2 ^ 26) * 2 ^ 6 + x"
    using x or_disjoint_nat(2) [of x 6 "unat buf mod 2 ^ 26"] by (simp add: acc6_def word_nat)
  also have "\<dots> = (unat buf * 64 + x) mod 2 ^ 32"
    using x mod_mult2_eq [of "unat buf * 64 + x" 64 "2 ^ 26"] by (simp add: mult.commute)
  finally show ?thesis .
qed

lemma acc_byte: "k + 8 \<le> 32 \<Longrightarrow> (X mod 2 ^ 32) div 2 ^ k mod 256 = X div 2 ^ k mod (256::nat)"
proof -
  assume k: "k + 8 \<le> 32"
  have "take_bit 8 (drop_bit k (take_bit 32 X)) = take_bit 8 (drop_bit k X)"
    using k by (simp add: drop_bit_take_bit min_def) linarith
  then show ?thesis by (simp add: take_bit_eq_mod drop_bit_eq_div)
qed

lemma acc6_mod: "x < 64 \<Longrightarrow> unat (acc6 buf x) mod 64 = x"
  using mod_mod_cancel [of 64 "2 ^ 32" "unat buf * 64 + x"] by (simp add: unat_acc6)

lemma acc6_byte:
  assumes "x < 64" "unat buf mod 64 = p"
  shows "unat (ucast (drop_bit 4 (acc6 buf x) AND 0xff) :: byte) = (p * 4 + x div 16) mod 256"
    "unat (ucast (drop_bit 2 (acc6 buf x) AND 0xff) :: byte) = (p * 16 + x div 4) mod 256"
    "unat (ucast (drop_bit 0 (acc6 buf x) AND 0xff) :: byte) = (p * 64 + x) mod 256"
proof -
  have b: "unat (ucast (drop_bit k (acc6 buf x) AND 0xff) :: byte) = (unat buf * 64 + x) div 2 ^ k mod 256" if "k + 8 \<le> 32" for k
    using acc_byte [OF that, of "unat buf * 64 + x"] assms(1)
    by (simp add: unat_low_byte unat_drop_bit_eq drop_bit_eq_div [where ?'a = nat] unat_acc6)
  have "unat buf = unat buf div 64 * 64 + p" using assms(2) div_mult_mod_eq [of "unat buf" 64] by simp
  then obtain q where q: "unat buf = q * 64 + p" by blast
  have e: "(q * 64 + p) * 64 + x = (p * 64 + x) + q * 4096" by simp
  have b': "unat (ucast (drop_bit k (acc6 buf x) AND 0xff) :: byte) = ((p * 64 + x) + q * 4096) div 2 ^ k mod 256"
    if "k + 8 \<le> 32" for k using b [OF that] by (simp only: q e)
  have "((p * 64 + x) + q * 4096) div 2 ^ 4 = (p * 4 + x div 16) + q * 256" by simp
  with b' [of 4] show "unat (ucast (drop_bit 4 (acc6 buf x) AND 0xff) :: byte) = (p * 4 + x div 16) mod 256"
    by (simp only: mod_mult_self1; simp)
  have "((p * 64 + x) + q * 4096) div 2 ^ 2 = (p * 16 + x div 4) + q * 4 * 256" by simp
  with b' [of 2] show "unat (ucast (drop_bit 2 (acc6 buf x) AND 0xff) :: byte) = (p * 16 + x div 4) mod 256"
    by (simp only: mod_mult_self1; simp)
  have "((p * 64 + x) + q * 4096) div 2 ^ 0 = (p * 64 + x) + q * 16 * 256" by simp
  with b' [of 0] show "unat (ucast (drop_bit 0 (acc6 buf x) AND 0xff) :: byte) = (p * 64 + x) mod 256"
    by (simp only: mod_mult_self1; simp)
qed

lemma DecodeStd_step:
  assumes "x < 64"
  shows "DecodeStd_loop (kAlphabet ! x # cs) buf bits k out =
    (if 2 \<le> bits then DecodeStd_loop cs (acc6 buf x) (bits - 2) (Suc k) (out @ [ucast (drop_bit (bits - 2) (acc6 buf x) AND 0xff)])
     else DecodeStd_loop cs (acc6 buf x) (bits + 6) (Suc k) out)"
  using assms small_byte [OF assms] by (simp add: alphabet_char Let_def acc6_def)

lemma byte_eqI: "unat x = unat (y::byte) \<Longrightarrow> x = y"
  by (simp add: word_unat_eq_iff)

lemma sextets_nth: "sextets (unat a) (unat b) (unat c) ! i < 64" if "i < 4" for a b c :: byte
proof -
  have "sextets (unat a) (unat b) (unat c) ! i \<in> set (sextets (unat a) (unat b) (unat c))"
    using that by (intro nth_mem) (simp add: sextets_def)
  then show ?thesis by (rule sextets_less [OF unat_lt_word(1) unat_lt_word(1) unat_lt_word(1)])
qed

lemma DecodeStd_group:
  fixes a b c :: byte
  defines "x \<equiv> sextets (unat a) (unat b) (unat c)"
  shows "unat (ucast (drop_bit 4 (acc6 (acc6 buf (x ! 0)) (x ! 1)) AND 0xff) :: byte) = unat a"
    "unat (ucast (drop_bit 2 (acc6 (acc6 buf (x ! 1)) (x ! 2)) AND 0xff) :: byte) = unat b"
    "unat (ucast (drop_bit 0 (acc6 (acc6 buf (x ! 2)) (x ! 3)) AND 0xff) :: byte) = unat c"
proof -
  have l: "x ! 0 < 64" "x ! 1 < 64" "x ! 2 < 64" "x ! 3 < 64"
    unfolding x_def by (rule sextets_nth, simp)+
  have "(x ! 0 * 4 + x ! 1 div 16) mod 256 = unat a"
  proof -
    have "unat b div 16 < 16" using unat_lt_word(1) [of b] by simp
    then have "x ! 1 div 16 = unat a mod 4" by (simp add: x_def sextets_def)
    then have "x ! 0 * 4 + x ! 1 div 16 = unat a"
      using div_mult_mod_eq [of "unat a" 4] by (simp add: x_def sextets_def)
    then show ?thesis by simp
  qed
  with acc6_byte(1) [OF l(2) acc6_mod [OF l(1)]]
  show "unat (ucast (drop_bit 4 (acc6 (acc6 buf (x ! 0)) (x ! 1)) AND 0xff) :: byte) = unat a" by (simp only:)
  have "(x ! 1 * 16 + x ! 2 div 4) mod 256 = unat b"
  proof -
    have "unat c div 64 < 4" using unat_lt_word(1) [of c] by simp
    then have "x ! 2 div 4 = unat b mod 16" by (simp add: x_def sextets_def)
    then have "x ! 1 * 16 + x ! 2 div 4 = unat b + unat a mod 4 * 256"
      using div_mult_mod_eq [of "unat b" 16] by (simp add: x_def sextets_def)
    then show ?thesis by simp
  qed
  with acc6_byte(2) [OF l(3) acc6_mod [OF l(2)]]
  show "unat (ucast (drop_bit 2 (acc6 (acc6 buf (x ! 1)) (x ! 2)) AND 0xff) :: byte) = unat b" by (simp only:)
  have "x ! 2 * 64 + x ! 3 = unat c + unat b mod 16 * 256"
    using div_mult_mod_eq [of "unat c" 64] by (simp add: x_def sextets_def numeral_3_eq_3)
  then have "(x ! 2 * 64 + x ! 3) mod 256 = unat c" by simp
  with acc6_byte(3) [OF l(4) acc6_mod [OF l(3)]]
  show "unat (ucast (drop_bit 0 (acc6 (acc6 buf (x ! 2)) (x ! 3)) AND 0xff) :: byte) = unat c" by (simp only:)
qed

lemma acc6_low_bits:
  "x < 64 \<Longrightarrow> x mod 16 = 0 \<Longrightarrow> acc6 buf x AND (push_bit 4 1 - 1) = 0"
  "x < 64 \<Longrightarrow> x mod 4 = 0 \<Longrightarrow> acc6 buf x AND (push_bit 2 1 - 1) = 0"
  using acc6_mod [of x buf] mod_mod_cancel [of 16 64 "unat (acc6 buf x)"] mod_mod_cancel [of 4 64 "unat (acc6 buf x)"]
  by (simp_all add: word_unat_eq_iff unsigned_and_eq and_mask_nat)

lemma DecodeStd_pad:
  "DecodeStd_loop ''='' buf bits k out = Some (out, buf, bits, k)"
  "DecodeStd_loop ''=='' buf bits k out = Some (out, buf, bits, k)"
  by (simp_all add: pad_char Let_def)

lemma DecodeStd_triple:
  "\<exists>buf'. DecodeStd_loop (Base64EncodeStd (a # b # c # ds)) buf 0 k out =
     DecodeStd_loop (Base64EncodeStd ds) buf' 0 (Suc (Suc (Suc (Suc k)))) (out @ [a, b, c])"
proof -
  let ?x = "\<lambda>i. sextets (unat a) (unat b) (unat c) ! i"
  have g: "ucast (drop_bit 4 (acc6 (acc6 u (?x 0)) (?x 1)) AND 0xff) = a"
    "ucast (drop_bit 2 (acc6 (acc6 u (?x 1)) (?x 2)) AND 0xff) = b"
    "ucast (drop_bit 0 (acc6 (acc6 u (?x 2)) (?x 3)) AND 0xff) = c" for u :: u32
    by (rule byte_eqI, rule DecodeStd_group)+
  show ?thesis
    by (rule exI [of _ "acc6 (acc6 (acc6 (acc6 buf (?x 0)) (?x 1)) (?x 2)) (?x 3)"])
      (simp only: encode_chars(1) append_Cons append_Nil DecodeStd_step [OF sextets_nth] g
        zero_less_numeral, simp add: DecodeStd_step [OF sextets_nth] g [unfolded One_nat_def] g(3) [simplified])
qed

text \<open>The whole text: the bytes, and a residue and a padding that the checks after the loop accept.\<close>

lemma DecodeStd_encode:
  "\<exists>buf' bits k'. DecodeStd_loop (Base64EncodeStd d) buf 0 k out = Some (out @ d, buf', bits, k') \<and>
     bits < 6 \<and> (bits = 0 \<or> buf' AND (push_bit bits 1 - 1) = 0) \<and>
     (last (Base64EncodeStd d) = CHR ''='' \<longrightarrow> d \<noteq> [] \<longrightarrow> k + length (Base64EncodeStd d) - k' \<in> {1, 2})"
proof (induction d arbitrary: buf k out rule: Base64EncodeStd.induct)
  case 1
  then show ?case by simp
next
  case (2 a)
  define z :: byte where "z = 0"
  let ?x = "\<lambda>i. sextets (unat a) (unat z) (unat z) ! i"
  have g: "ucast (drop_bit 4 (acc6 (acc6 buf (?x 0)) (?x 1)) AND 0xff) = a"
    by (rule byte_eqI, rule DecodeStd_group)
  have "?x 1 mod 16 = 0" by (simp add: sextets_def z_def)
  then have "acc6 (acc6 buf (?x 0)) (?x 1) AND (push_bit 4 1 - 1) = 0"
    by (intro acc6_low_bits(1) sextets_nth) simp_all
  moreover have "DecodeStd_loop (Base64EncodeStd [a]) buf 0 k out = Some (out @ [a], acc6 (acc6 buf (?x 0)) (?x 1), 4, Suc (Suc k))"
    by (simp add: encode_chars(3) [OF z_def z_def] DecodeStd_step [OF sextets_nth] g [unfolded One_nat_def]
        DecodeStd_pad del: Base64EncodeStd.simps DecodeStd_loop.simps)
  ultimately show ?case by (simp add: Let_def)
next
  case (3 a b)
  define z :: byte where "z = 0"
  let ?x = "\<lambda>i. sextets (unat a) (unat b) (unat z) ! i"
  have g: "ucast (drop_bit 4 (acc6 (acc6 u (?x 0)) (?x 1)) AND 0xff) = a"
    "ucast (drop_bit 2 (acc6 (acc6 u (?x 1)) (?x 2)) AND 0xff) = b" for u :: u32
    by (rule byte_eqI, rule DecodeStd_group)+
  have "?x 2 mod 4 = 0" by (simp add: sextets_def z_def)
  then have "acc6 (acc6 (acc6 buf (?x 0)) (?x 1)) (?x 2) AND (push_bit 2 1 - 1) = 0"
    by (intro acc6_low_bits(2) sextets_nth) simp_all
  moreover have "DecodeStd_loop (Base64EncodeStd [a, b]) buf 0 k out =
      Some (out @ [a, b], acc6 (acc6 (acc6 buf (?x 0)) (?x 1)) (?x 2), 2, Suc (Suc (Suc k)))"
    by (simp add: encode_chars(2) [OF z_def] DecodeStd_step [OF sextets_nth] g [unfolded One_nat_def]
        DecodeStd_pad del: Base64EncodeStd.simps DecodeStd_loop.simps)
  ultimately show ?case by (simp add: Let_def)
next
  case (4 a b c ds)
  obtain buf1 where b1: "DecodeStd_loop (Base64EncodeStd (a # b # c # ds)) buf 0 k out =
     DecodeStd_loop (Base64EncodeStd ds) buf1 0 (Suc (Suc (Suc (Suc k)))) (out @ [a, b, c])" using DecodeStd_triple by blast
  have len: "length (Base64EncodeStd (a # b # c # ds)) = length (Base64EncodeStd ds) + 4" by (simp add: Let_def)
  have ne: "last (Base64EncodeStd (a # b # c # ds)) = CHR ''='' \<longrightarrow> ds \<noteq> [] \<and> last (Base64EncodeStd ds) = CHR ''=''"
    using alphabet_char(3) [OF sextets_nth [of 3 a b c]] encode_chars(1) [of a b c "[]"]
    by (cases "Base64EncodeStd ds = []") (auto simp: encode_chars(1) simp del: Base64EncodeStd.simps(4))
  from 4 [OF refl, of buf1 "Suc (Suc (Suc (Suc k)))" "out @ [a, b, c]"] obtain buf' bits k'
    where r: "DecodeStd_loop (Base64EncodeStd ds) buf1 0 (Suc (Suc (Suc (Suc k)))) (out @ [a, b, c]) =
        Some ((out @ [a, b, c]) @ ds, buf', bits, k')"
      "bits < 6" "bits = 0 \<or> buf' AND (push_bit bits 1 - 1) = 0"
      "last (Base64EncodeStd ds) = CHR ''='' \<longrightarrow> ds \<noteq> [] \<longrightarrow> Suc (Suc (Suc (Suc k))) + length (Base64EncodeStd ds) - k' \<in> {1, 2}"
    by blast
  have "k + length (Base64EncodeStd (a # b # c # ds)) - k' = Suc (Suc (Suc (Suc k))) + length (Base64EncodeStd ds) - k'"
    by (simp only: len)
  with r ne show ?case unfolding b1 by (intro exI [of _ buf'] exI [of _ bits] exI [of _ k']) auto
qed

lemma length_Base64EncodeStd: "length (Base64EncodeStd d) = 4 * ((length d + 2) div 3)"
proof (induction d rule: Base64EncodeStd.induct)
  case (4 a b c ds)
  have "(length (a # b # c # ds) + 2) div 3 = Suc ((length ds + 2) div 3)"
    using div_add_self2 [of 3 "length ds + 2"] by (simp add: add.commute)
  with 4 show ?case by (simp add: Let_def)
qed (simp_all add: Let_def)

lemma Base64DecodeStd_encode: "Base64DecodeStd (Base64EncodeStd d) = Some d"
proof (cases "d = []")
  case False
  then have ne: "Base64EncodeStd d \<noteq> []" using length_Base64EncodeStd [of d] by (cases d) auto
  obtain buf' bits k' where "DecodeStd_loop (Base64EncodeStd d) 0 0 0 [] = Some (d, buf', bits, k')" "bits < 6"
      "bits = 0 \<or> buf' AND (push_bit bits 1 - 1) = 0"
      "last (Base64EncodeStd d) = CHR ''='' \<longrightarrow> d \<noteq> [] \<longrightarrow> length (Base64EncodeStd d) - k' \<in> {1, 2}"
    using DecodeStd_encode [of d 0 0 "[]"] by auto
  with ne False length_Base64EncodeStd [of d] show ?thesis by (auto simp: Base64DecodeStd_def)
qed (simp add: Base64DecodeStd_def)


section \<open>Go's decoder\<close>

lemma or_low:
  fixes v x :: u32
  assumes "unat v = y * 2 ^ k" "unat x * 2 ^ s < 2 ^ k" "k \<le> 32"
  shows "unat (v OR push_bit s x) = y * 2 ^ k + unat x * 2 ^ s"
proof -
  have "(2::nat) ^ k \<le> 2 ^ 32" using assms(3) by (intro power_increasing) auto
  then have "unat (push_bit s x) = unat x * 2 ^ s" using assms(2) by (simp add: word_nat)
  with or_disjoint_nat(2) [OF assms(2), of y] assms(1) show ?thesis by (simp add: unsigned_or_eq)
qed

lemma go_quantum_char:
  assumes "x < 64" "j < 4"
  shows "go_quantum False True n (kAlphabet ! x # cs) j v = go_quantum False True n cs (Suc j) (v OR push_bit (6 * (3 - j)) (of_nat x))"
  using assms by (subst go_quantum.simps) (simp add: alphabet_char)

lemma go_group:
  fixes a b c :: byte
  defines "x \<equiv> \<lambda>i. sextets (unat a) (unat b) (unat c) ! i"
  defines "w2 \<equiv> (0 OR push_bit 18 (of_nat (x 0))) OR push_bit 12 (of_nat (x 1)) :: u32"
  defines "w3 \<equiv> w2 OR push_bit 6 (of_nat (x 2))"
  defines "w4 \<equiv> w3 OR push_bit 0 (of_nat (x 3))"
  shows "ucast (drop_bit 16 w2) = a" "ucast (drop_bit 16 w3) = a" "ucast (drop_bit 8 w3) = b"
    "ucast (drop_bit 16 w4) = a" "ucast (drop_bit 8 w4) = b" "ucast w4 = c"
proof -
  have l: "x 0 < 64" "x 1 < 64" "x 2 < 64" "x 3 < 64" unfolding x_def by (rule sextets_nth, simp)+
  then have u: "unat (of_nat (x 0) :: u32) = x 0" "unat (of_nat (x 1) :: u32) = x 1"
    "unat (of_nat (x 2) :: u32) = x 2" "unat (of_nat (x 3) :: u32) = x 3" by (simp_all only: unat_of_nat_word) simp_all
  have w1: "unat (0 OR push_bit 18 (of_nat (x 0)) :: u32) = x 0 * 2 ^ 18"
    using l u by (simp add: word_nat)
  have w2: "unat w2 = (x 0 * 64 + x 1) * 2 ^ 12"
    using or_low [OF w1, of "of_nat (x 1)" 12] l u unfolding w2_def by simp
  have w3: "unat w3 = (x 0 * 4096 + x 1 * 64 + x 2) * 2 ^ 6"
    using or_low [OF w2, of "of_nat (x 2)" 6] l u unfolding w3_def by simp
  have w4: "unat w4 = x 0 * 262144 + x 1 * 4096 + x 2 * 64 + x 3"
    using or_low [OF w3, of "of_nat (x 3)" 0] l u unfolding w4_def by simp
  have d: "unat (ucast (drop_bit k w) :: byte) = unat w div 2 ^ k mod 256" for k and w :: u32
    by (simp add: word_nat)
  note xs = x_def sextets_def
  let ?A = "unat a" and ?B = "unat b" and ?C = "unat c"
  have bd: "?B div 16 < 16" "?C div 64 < 4" "?A < 256" "?B < 256" "?C < 256"
    using unat_lt_word(1) [of a] unat_lt_word(1) [of b] unat_lt_word(1) [of c] by simp_all
  have e: "x 0 = ?A div 4" "x 1 = ?A mod 4 * 16 + ?B div 16" "x 2 = ?B mod 16 * 4 + ?C div 64" "x 3 = ?C mod 64"
    by (simp_all add: xs numeral_3_eq_3)
  have s: "x 0 * 64 + x 1 = ?A * 16 + ?B div 16" "x 0 * 4096 + x 1 * 64 + x 2 = ?A * 1024 + ?B * 4 + ?C div 64"
    "x 0 * 262144 + x 1 * 4096 + x 2 * 64 + x 3 = ?A * 65536 + ?B * 256 + ?C"
    using div_mult_mod_eq [of ?A 4] div_mult_mod_eq [of ?B 16] div_mult_mod_eq [of ?C 64] unfolding e add_mult_distrib by linarith+
  have dv: "(m * k + r) div k = m" if "r < k" for m k r :: nat using that by simp
  have "unat w2 div 2 ^ 16 = ?A" unfolding w2 s using bd dv [of "?B div 16 * 4096" 65536 ?A] by simp
  with d [of 16 w2] show "ucast (drop_bit 16 w2) = a" by (intro byte_eqI) simp
  have "unat w3 div 2 ^ 16 = ?A" "unat w3 div 2 ^ 8 = ?A * 256 + ?B" unfolding w3 s
    using bd dv [of "?B * 256 + ?C div 64 * 64" 65536 ?A] dv [of "?C div 64 * 64" 256 "?A * 256 + ?B"]
    by (simp_all add: algebra_simps)
  with d [of 16 w3] d [of 8 w3] show "ucast (drop_bit 16 w3) = a" "ucast (drop_bit 8 w3) = b"
    by (intro byte_eqI; simp)+
  have "unat w4 div 2 ^ 16 = ?A" "unat w4 div 2 ^ 8 = ?A * 256 + ?B" "unat w4 mod 256 = ?C" unfolding w4 s
    using bd dv [of "?B * 256 + ?C" 65536 ?A] dv [of ?C 256 "?A * 256 + ?B"]
      mod_mult_self1 [of ?C "?A * 256 + ?B" 256]
    by (simp_all add: algebra_simps)
  with d [of 16 w4] d [of 8 w4] d [of 0 w4] show "ucast (drop_bit 16 w4) = a" "ucast (drop_bit 8 w4) = b" "ucast w4 = c"
    by (intro byte_eqI; simp)+
qed

lemma go_quantum_pad1: "go_quantum False True n ''='' 3 v = Quantum 3 v []"
  by (subst go_quantum.simps) (simp add: pad_char)

lemma go_quantum_pad2: "go_quantum False True n ''=='' 2 v = Quantum 2 v []"
  by (subst go_quantum.simps) (simp add: pad_char)

lemma go_quantum_4: "go_quantum url padded n cs (Suc (Suc (Suc (Suc 0)))) v = Quantum 4 v cs"
  by (subst go_quantum.simps) simp

lemma DecodeGo_encode: "DecodeGo_loop False True n (Base64EncodeStd d) out = Inr (out @ d)"
proof (induction d arbitrary: out rule: Base64EncodeStd.induct)
  case 1
  then show ?case by (simp add: DecodeGo_loop.simps)
next
  case (2 a)
  define z :: byte where "z = 0"
  show ?case
    unfolding encode_chars(3) [OF z_def z_def] using go_group(1) [of a z z]
    by (subst DecodeGo_loop.simps)
      (simp add: go_quantum_char sextets_nth go_quantum_pad2 [unfolded numeral_2_eq_2] DecodeGo_loop.simps numeral_2_eq_2)
next
  case (3 a b)
  define z :: byte where "z = 0"
  show ?case
    unfolding encode_chars(2) [OF z_def] using go_group(2,3) [of a b z]
    by (subst DecodeGo_loop.simps)
      (simp add: go_quantum_char sextets_nth go_quantum_pad1 [unfolded numeral_3_eq_3] DecodeGo_loop.simps numeral_3_eq_3)
next
  case (4 a b c ds)
  show ?case
    unfolding encode_chars(1) using go_group(4-6) [of a b c] 4 [OF refl, of "out @ [a, b, c]"]
    by (subst DecodeGo_loop.simps) (simp add: go_quantum_char sextets_nth go_quantum_4)
qed

section \<open>Properties\<close>

text \<open>C27. What the encoder writes, four characters for every three bytes begun, the strict decoder
  and both lenient ones decode to the bytes encoded.\<close>

theorem base64_roundtrip:
  "length (Base64EncodeStd d) = 4 * ((length d + 2) div 3) \<and>
   Base64DecodeStd (Base64EncodeStd d) = Some d \<and>
   Base64DecodeProto (Base64EncodeStd d) = Inr d \<and>
   Base64DecodeLenient (Base64EncodeStd d) = Inr d"
  using length_Base64EncodeStd Base64DecodeStd_encode DecodeGo_encode
  by (simp add: Base64DecodeProto_def Base64DecodeLenient_def DecodeGo_def)

end
