(* ===== verification/PbCodec.thy ===== *)
theory PbCodec
  imports BigMsg Utf8
begin

text \<open>
  The struct codec of \<open>include/protowire/pb.h\<close> and the validator seam of
  \<open>include/protowire/check_seam.h\<close>. The templates dispatch on the static type of a member; here
  a value carries its type, so each \<open>if constexpr\<close> chain is a case distinction on the value. A
  struct value names its struct, and \<open>env\<close> lists the registered members of every struct
  (\<open>PROTOWIRE_FIELDS\<close>) with their default values, so recursive structs are covered.
  A float is its bits. A \<open>std::map\<close> is its entries in key order.
  The writers return the bytes they append to \<open>out\<close>.
\<close>

section \<open>Types and values\<close>

datatype ty =
    BoolT | Float64T | Float32T | IntT nat | UIntT nat | StringT | BytesT | BigIntT | DecimalT | BigFloatT
  | StructT string | VectorT ty | OptionalT ty | PtrT ty | MapT ty ty

datatype val =
    VBool bool
  | VDouble u64
  | VFloat u32
  | VInt nat int
  | VUInt nat nat
  | VString string
  | VBytes "byte list"
  | VBigInt BigInt
  | VDecimal Decimal
  | VBigFloat BigFloat
  | VStruct string "val list"
  | VVector ty "val list"
  | VOptional ty "val option"
  | VPtr ty "val option"
  | VMap ty ty "(val \<times> val) list"

fun type_of :: "val \<Rightarrow> ty" where
  "type_of (VBool _) = BoolT"
| "type_of (VDouble _) = Float64T"
| "type_of (VFloat _) = Float32T"
| "type_of (VInt w _) = IntT w"
| "type_of (VUInt w _) = UIntT w"
| "type_of (VString _) = StringT"
| "type_of (VBytes _) = BytesT"
| "type_of (VBigInt _) = BigIntT"
| "type_of (VDecimal _) = DecimalT"
| "type_of (VBigFloat _) = BigFloatT"
| "type_of (VStruct s _) = StructT s"
| "type_of (VVector t _) = VectorT t"
| "type_of (VOptional t _) = OptionalT t"
| "type_of (VPtr t _) = PtrT t"
| "type_of (VMap k v _) = MapT k v"

text \<open>A member and the value it has in a value-initialised struct.\<close>

record FieldDef =
  fd_number :: FieldNumber
  fd_zigzag :: bool
  fd_name :: string
  fd_init :: val

type_synonym senv = "(string \<times> FieldDef list) list"

text \<open>\<open>T::_protowire_fields()\<close>.\<close>

definition protowire_fields :: "senv \<Rightarrow> string \<Rightarrow> FieldDef list" where
  "protowire_fields env s = (case map_of env s of Some fs \<Rightarrow> fs | None \<Rightarrow> [])"

text \<open>\<open>T{}\<close>.\<close>

fun zero_of :: "senv \<Rightarrow> ty \<Rightarrow> val" where
  "zero_of env BoolT = VBool False"
| "zero_of env Float64T = VDouble 0"
| "zero_of env Float32T = VFloat 0"
| "zero_of env (IntT w) = VInt w 0"
| "zero_of env (UIntT w) = VUInt w 0"
| "zero_of env StringT = VString []"
| "zero_of env BytesT = VBytes []"
| "zero_of env BigIntT = VBigInt \<lparr>bi_abs = [], bi_negative = False\<rparr>"
| "zero_of env DecimalT = VDecimal \<lparr>dec_unscaled = [], dec_scale = 0, dec_negative = False\<rparr>"
| "zero_of env BigFloatT = VBigFloat \<lparr>bf_mantissa = [], bf_exponent = 0, bf_prec = 0, bf_negative = False\<rparr>"
| "zero_of env (StructT s) = VStruct s (map fd_init (protowire_fields env s))"
| "zero_of env (VectorT t) = VVector t []"
| "zero_of env (OptionalT t) = VOptional t None"
| "zero_of env (PtrT t) = VPtr t None"
| "zero_of env (MapT k v) = VMap k v []"

section \<open>Options and limits\<close>

definition kMaxRepeatedCount :: nat where
  "kMaxRepeatedCount = kMaxMessageSize"

record UnmarshalOptions =
  o_max_message_size :: int
  o_max_nesting_depth :: int
  o_max_numeric_literal_digits :: int
  o_max_big_float_exponent :: int
  o_max_repeated_count :: int

record Limits =
  max_message_size :: nat
  max_depth :: nat
  max_digits :: nat
  max_big_float_exp :: nat
  max_repeated :: nat

definition pick_limit :: "int \<Rightarrow> nat \<Rightarrow> nat" where
  "pick_limit opt dflt = (if 0 < opt then nat opt else dflt)"

definition ResolveLimits :: "UnmarshalOptions \<Rightarrow> Limits" where
  "ResolveLimits opts =
     \<lparr>max_message_size = pick_limit (o_max_message_size opts) kMaxMessageSize,
      max_depth = pick_limit (o_max_nesting_depth opts) kMaxNestingDepth,
      max_digits = pick_limit (o_max_numeric_literal_digits opts) kMaxNumericLiteralDigits,
      max_big_float_exp = pick_limit (o_max_big_float_exponent opts) kMaxBigFloatExponent,
      max_repeated = pick_limit (o_max_repeated_count opts) kMaxRepeatedCount\<rparr>"

definition DepthError :: "nat \<Rightarrow> string" where
  "DepthError n = ''nesting depth exceeds MaxNestingDepth='' @ to_string n"

section \<open>Marshal\<close>

text \<open>\<open>v == T{}\<close> on a float holds for both zeros; \<open>v != v\<close> is NaN.\<close>

definition IsZeroValue :: "val \<Rightarrow> bool" where
  "IsZeroValue v =
     (case v of
        VBool b \<Rightarrow> \<not> b
      | VDouble d \<Rightarrow> push_bit 1 d = 0
      | VFloat f \<Rightarrow> push_bit 1 f = 0
      | VInt _ i \<Rightarrow> i = 0
      | VUInt _ n \<Rightarrow> n = 0
      | VString s \<Rightarrow> s = []
      | VBytes b \<Rightarrow> b = []
      | VVector _ xs \<Rightarrow> xs = []
      | VBigFloat f \<Rightarrow> bf_prec f = 0 \<and> \<not> bf_negative f
      | VBigInt i \<Rightarrow> bi_abs i = []
      | VDecimal d \<Rightarrow> dec_unscaled d = []
      | _ \<Rightarrow> False)"

definition DoubleBits :: "u64 \<Rightarrow> u64" where
  "DoubleBits v =
     (if v AND 0x7FF0000000000000 = 0x7FF0000000000000 \<and> v AND 0x000FFFFFFFFFFFFF \<noteq> 0
      then 0x7FF8000000000000 else v)"

definition FloatBits :: "u32 \<Rightarrow> u32" where
  "FloatBits v =
     (if v AND 0x7F800000 = 0x7F800000 \<and> v AND 0x007FFFFF \<noteq> 0 then 0x7FC00000 else v)"

fun IsPackable :: "ty \<Rightarrow> bool" where
  "IsPackable BoolT = True"
| "IsPackable Float64T = True"
| "IsPackable Float32T = True"
| "IsPackable (IntT _) = True"
| "IsPackable (UIntT _) = True"
| "IsPackable _ = False"

definition AppendPackedElement :: "byte list \<Rightarrow> val \<Rightarrow> bool \<Rightarrow> byte list" where
  "AppendPackedElement payload v zigzag =
     (case v of
        VBool b \<Rightarrow> AppendVarint payload (if b then 1 else 0)
      | VDouble d \<Rightarrow> AppendFixed64 payload (DoubleBits d)
      | VFloat f \<Rightarrow> AppendFixed32 payload (FloatBits f)
      | VInt _ i \<Rightarrow> AppendVarint payload (if zigzag then EncodeZigZag (of_int i) else of_int i)
      | VUInt _ n \<Rightarrow> AppendVarint payload (of_nat n)
      | _ \<Rightarrow> payload)"

text \<open>A member that is none of optional, pointer, map and vector: the last branch of the field templates.\<close>

definition IsSingular :: "val \<Rightarrow> bool" where
  "IsSingular v = (case v of VVector _ _ \<Rightarrow> False | VOptional _ _ \<Rightarrow> False | VPtr _ _ \<Rightarrow> False | VMap _ _ _ \<Rightarrow> False | _ \<Rightarrow> True)"

text \<open>A loop that appends what each element gives and stops at the first error.\<close>

primrec append_each :: "('a \<Rightarrow> string + byte list) \<Rightarrow> 'a list \<Rightarrow> string + byte list" where
  "append_each f [] = Inr []"
| "append_each f (x # xs) =
     (case f x of Inl e \<Rightarrow> Inl e
      | Inr b \<Rightarrow> (case append_each f xs of Inl e \<Rightarrow> Inl e | Inr bs \<Rightarrow> Inr (b @ bs)))"

lemma append_each_cong [fundef_cong]:
  "xs = ys \<Longrightarrow> (\<And>x. x \<in> set ys \<Longrightarrow> f x = g x) \<Longrightarrow> append_each f xs = append_each g ys"
  by (induction xs arbitrary: ys) (auto split: sum.splits)

definition unsupported :: string where
  "unsupported = ''protowire::pb: unsupported field type''"

definition map_error :: "(string \<Rightarrow> string) \<Rightarrow> string + 'a \<Rightarrow> string + 'a" where
  "map_error f r = (case r of Inl e \<Rightarrow> Inl (f e) | Inr x \<Rightarrow> Inr x)"

definition embed :: "FieldNumber \<Rightarrow> string + byte list \<Rightarrow> string + byte list" where
  "embed num r = (case r of Inl e \<Rightarrow> Inl e | Inr sub \<Rightarrow> Inr (AppendBytes (AppendTag [] num kBytes) sub))"

function MarshalScalar :: "senv \<Rightarrow> nat \<Rightarrow> nat \<Rightarrow> FieldNumber \<Rightarrow> val \<Rightarrow> bool \<Rightarrow> string + byte list"
  and MarshalMapValue :: "senv \<Rightarrow> nat \<Rightarrow> nat \<Rightarrow> FieldNumber \<Rightarrow> val \<Rightarrow> bool \<Rightarrow> string + byte list"
  and MarshalField :: "senv \<Rightarrow> nat \<Rightarrow> nat \<Rightarrow> FieldNumber \<Rightarrow> val \<Rightarrow> bool \<Rightarrow> string + byte list"
  and MarshalStruct :: "senv \<Rightarrow> nat \<Rightarrow> nat \<Rightarrow> string \<Rightarrow> val list \<Rightarrow> string + byte list"
  where
  "MarshalScalar env maxd depth num v zigzag =
     (case v of
        VBool b \<Rightarrow> Inr (AppendVarint (AppendTag [] num kVarint) (if b then 1 else 0))
      | VDouble d \<Rightarrow> Inr (AppendFixed64 (AppendTag [] num kFixed64) (DoubleBits d))
      | VFloat f \<Rightarrow> Inr (AppendFixed32 (AppendTag [] num kFixed32) (FloatBits f))
      | VInt _ i \<Rightarrow> Inr (AppendVarint (AppendTag [] num kVarint) (if zigzag then EncodeZigZag (of_int i) else of_int i))
      | VUInt _ n \<Rightarrow> Inr (AppendVarint (AppendTag [] num kVarint) (of_nat n))
      | VString s \<Rightarrow> Inr (AppendBytes (AppendTag [] num kBytes) (bytes_of s))
      | VBytes b \<Rightarrow> Inr (AppendBytes (AppendTag [] num kBytes) b)
      | VBigInt i \<Rightarrow> embed num (Inr (MarshalBigIntMsg i []))
      | VDecimal d \<Rightarrow> embed num (MarshalDecimalMsg d [])
      | VBigFloat f \<Rightarrow> embed num (MarshalBigFloatMsg f [])
      | VStruct s vs \<Rightarrow> embed num (MarshalStruct env maxd (depth + 1) s vs)
      | _ \<Rightarrow> Inl unsupported)"
| "MarshalMapValue env maxd depth num v zigzag =
     MarshalScalar env maxd depth num
       (case v of
          VOptional t p \<Rightarrow> (case p of Some x \<Rightarrow> x | None \<Rightarrow> zero_of env t)
        | VPtr t p \<Rightarrow> (case p of Some x \<Rightarrow> x | None \<Rightarrow> zero_of env t)
        | _ \<Rightarrow> v) zigzag"
| "MarshalField env maxd depth num v zigzag =
     (if IsSingular v then (if IsZeroValue v then Inr [] else MarshalScalar env maxd depth num v zigzag)
      else case v of
        VOptional _ p \<Rightarrow> (case p of Some x \<Rightarrow> MarshalScalar env maxd depth num x zigzag | None \<Rightarrow> Inr [])
      | VPtr _ p \<Rightarrow> (case p of Some x \<Rightarrow> MarshalScalar env maxd depth num x zigzag | None \<Rightarrow> Inr [])
      | VMap _ _ m \<Rightarrow>
          (if m = [] then Inr []
           else if maxd < depth + 1 then Inl (DepthError maxd)
           else append_each
             (\<lambda>e. embed num
                (case map_error ((@) ''map key: '') (MarshalScalar env maxd (depth + 1) 1 (fst e) zigzag) of
                   Inl er \<Rightarrow> Inl er
                 | Inr kb \<Rightarrow>
                     (case map_error ((@) ''map value: '') (MarshalMapValue env maxd (depth + 1) 2 (snd e) zigzag) of
                        Inl er \<Rightarrow> Inl er
                      | Inr vb \<Rightarrow> Inr (kb @ vb)))) m)
      | VVector t xs \<Rightarrow>
          (if xs = [] then Inr []
           else if IsPackable t
           then Inr (AppendBytes (AppendTag [] num kBytes) (foldl (\<lambda>p x. AppendPackedElement p x zigzag) [] xs))
           else append_each (\<lambda>x. MarshalScalar env maxd depth num x zigzag) xs)
      | _ \<Rightarrow> Inl unsupported)"
| "MarshalStruct env maxd depth s vs =
     (if maxd < depth then Inl (DepthError maxd)
      else append_each
        (\<lambda>fv. map_error (\<lambda>e. ''field '' @ fd_name (fst fv) @ '': '' @ e)
           (MarshalField env maxd depth (fd_number (fst fv)) (snd fv) (fd_zigzag (fst fv))))
        (zip (protowire_fields env s) vs))"
  by pat_completeness auto
termination
  by (relation "measures
       [\<lambda>c. case c of Inl (Inl (env, m, d, _)) \<Rightarrow> m - d | Inl (Inr (env, m, d, _)) \<Rightarrow> m - d
                   | Inr (Inl (env, m, d, _)) \<Rightarrow> m - d | Inr (Inr (env, m, d, _)) \<Rightarrow> m + 1 - d,
        \<lambda>c. case c of Inl (Inl _) \<Rightarrow> 1 | Inl (Inr _) \<Rightarrow> 2 | Inr (Inl _) \<Rightarrow> 3 | Inr (Inr _) \<Rightarrow> 0]") auto

declare MarshalScalar.simps [simp del] MarshalMapValue.simps [simp del] MarshalField.simps [simp del]
  MarshalStruct.simps [simp del]

section \<open>Unmarshal\<close>

definition at_repeated_limit :: "Limits \<Rightarrow> nat \<Rightarrow> bool" where
  "at_repeated_limit lim n \<longleftrightarrow> int (max_repeated lim) \<le> int_of_size n"

text \<open>The arithmetic cases of \<open>UnmarshalScalar\<close>; \<open>v\<close> gives the type. A narrowing cast keeps the low bits.\<close>

definition UnmarshalNumber :: "byte list \<Rightarrow> val \<Rightarrow> bool \<Rightarrow> string + val \<times> nat" where
  "UnmarshalNumber data v zigzag =
     (case v of
        VBool _ \<Rightarrow> (case ConsumeVarint data of None \<Rightarrow> Inl ''corrupt bool'' | Some (x, n) \<Rightarrow> Inr (VBool (x \<noteq> 0), n))
      | VDouble _ \<Rightarrow> (case ConsumeFixed64 data of None \<Rightarrow> Inl ''corrupt float64'' | Some (x, n) \<Rightarrow> Inr (VDouble x, n))
      | VFloat _ \<Rightarrow> (case ConsumeFixed32 data of None \<Rightarrow> Inl ''corrupt float32'' | Some (x, n) \<Rightarrow> Inr (VFloat x, n))
      | VInt w _ \<Rightarrow>
          (case ConsumeVarint data of None \<Rightarrow> Inl ''corrupt int''
           | Some (x, n) \<Rightarrow> Inr (VInt w (signed_take_bit (w - 1) (sint (if zigzag then DecodeZigZag x else x))), n))
      | VUInt w _ \<Rightarrow>
          (case ConsumeVarint data of None \<Rightarrow> Inl ''corrupt uint'' | Some (x, n) \<Rightarrow> Inr (VUInt w (take_bit w (unat x)), n))
      | _ \<Rightarrow> Inl unsupported)"

lemma UnmarshalNumber_pos: "UnmarshalNumber data v zz = Inr (w, n) \<Longrightarrow> 0 < n \<and> n \<le> length data"
  by (auto simp: UnmarshalNumber_def ConsumeFixed64_def ConsumeFixed32_def
      dest: ConsumeVarint_pos split: val.splits option.splits if_splits)

text \<open>The loop over a packed payload.\<close>

function UnmarshalPacked :: "senv \<Rightarrow> Limits \<Rightarrow> ty \<Rightarrow> bool \<Rightarrow> byte list \<Rightarrow> val list \<Rightarrow> string + val list" where
  "UnmarshalPacked env lim t zigzag payload xs =
     (if payload = [] then Inr xs
      else case UnmarshalNumber payload (zero_of env t) zigzag of
          Inl e \<Rightarrow> Inl e
        | Inr (tmp, n) \<Rightarrow>
            if at_repeated_limit lim (length xs)
            then Inl (''repeated field exceeds MaxRepeatedCount='' @ to_string (max_repeated lim))
            else UnmarshalPacked env lim t zigzag (drop n payload) (xs @ [tmp]))"
  by pat_completeness auto
termination
  by (relation "measure (\<lambda>(env, lim, t, zz, payload, xs). length payload)") (auto dest: UnmarshalNumber_pos)

declare UnmarshalPacked.simps [simp del]

text \<open>\<open>operator<\<close> of the key types and \<open>std::map\<close> on it; \<open>std::string\<close> compares bytes as unsigned.\<close>

fun lex_less :: "nat list \<Rightarrow> nat list \<Rightarrow> bool" where
  "lex_less _ [] = False"
| "lex_less [] (b # bs) = True"
| "lex_less (a # as) (b # bs) = (a < b \<or> a = b \<and> lex_less as bs)"

definition key_less :: "val \<Rightarrow> val \<Rightarrow> bool" where
  "key_less x y =
     (case x of
        VBool a \<Rightarrow> (case y of VBool b \<Rightarrow> \<not> a \<and> b | _ \<Rightarrow> False)
      | VInt _ a \<Rightarrow> (case y of VInt _ b \<Rightarrow> a < b | _ \<Rightarrow> False)
      | VUInt _ a \<Rightarrow> (case y of VUInt _ b \<Rightarrow> a < b | _ \<Rightarrow> False)
      | VString a \<Rightarrow> (case y of VString b \<Rightarrow> lex_less (map of_char a) (map of_char b) | _ \<Rightarrow> False)
      | VBytes a \<Rightarrow> (case y of VBytes b \<Rightarrow> lex_less (map unat a) (map unat b) | _ \<Rightarrow> False)
      | _ \<Rightarrow> False)"

definition map_find :: "val \<Rightarrow> (val \<times> val) list \<Rightarrow> bool" where
  "map_find k m = list_ex (\<lambda>(k', _). \<not> key_less k k' \<and> \<not> key_less k' k) m"

fun insert_or_assign :: "val \<Rightarrow> val \<Rightarrow> (val \<times> val) list \<Rightarrow> (val \<times> val) list" where
  "insert_or_assign k x [] = [(k, x)]"
| "insert_or_assign k x ((k', x') # m) =
     (if key_less k k' then (k, x) # (k', x') # m
      else if key_less k' k then (k', x') # insert_or_assign k x m
      else (k', x) # m)"

text \<open>The first member with a field number, as the fold over the members finds it.\<close>

fun find_field :: "FieldNumber \<Rightarrow> FieldDef list \<Rightarrow> nat option" where
  "find_field num [] = None"
| "find_field num (f # fs) = (if fd_number f = num then Some 0 else map_option Suc (find_field num fs))"

text \<open>A length-prefixed record read with \<open>f\<close>.\<close>

definition with_bytes :: "string \<Rightarrow> byte list \<Rightarrow> (byte list \<Rightarrow> string + 'a) \<Rightarrow> string + 'a \<times> nat" where
  "with_bytes err data f =
     (case ConsumeBytes data of
        None \<Rightarrow> Inl err
      | Some (b, n) \<Rightarrow> (case f b of Inl e \<Rightarrow> Inl e | Inr x \<Rightarrow> Inr (x, n)))"

lemma with_bytes_cong [fundef_cong]:
  "e = e' \<Longrightarrow> d = d' \<Longrightarrow> (\<And>b n. ConsumeBytes d' = Some (b, n) \<Longrightarrow> f b = g b) \<Longrightarrow>
   with_bytes e d f = with_bytes e' d' g"
  by (auto simp: with_bytes_def split: option.splits)

definition map_val :: "('a \<Rightarrow> 'b) \<Rightarrow> string + 'a \<Rightarrow> string + 'b" where
  "map_val f r = (case r of Inl e \<Rightarrow> Inl e | Inr x \<Rightarrow> Inr (f x))"

function UnmarshalScalar :: "senv \<Rightarrow> Limits \<Rightarrow> nat \<Rightarrow> byte list \<Rightarrow> val \<Rightarrow> bool \<Rightarrow> string + val \<times> nat"
  and UnmarshalField :: "senv \<Rightarrow> Limits \<Rightarrow> nat \<Rightarrow> byte list \<Rightarrow> WireType \<Rightarrow> val \<Rightarrow> bool \<Rightarrow> string + val \<times> nat"
  and UnmarshalEntry :: "senv \<Rightarrow> Limits \<Rightarrow> nat \<Rightarrow> byte list \<Rightarrow> val \<Rightarrow> val \<Rightarrow> bool \<Rightarrow> string + val \<times> val"
  and UnmarshalStruct :: "senv \<Rightarrow> Limits \<Rightarrow> nat \<Rightarrow> byte list \<Rightarrow> string \<Rightarrow> val list \<Rightarrow> string + val list"
  and UnmarshalFields :: "senv \<Rightarrow> Limits \<Rightarrow> nat \<Rightarrow> byte list \<Rightarrow> string \<Rightarrow> val list \<Rightarrow> string + val list"
  where
  "UnmarshalScalar env lim depth data v zigzag =
     (case v of
        VString _ \<Rightarrow> with_bytes ''corrupt string'' data
          (\<lambda>b. if IsValidUTF8 (string_of b) then Inr (VString (string_of b)) else Inl ''invalid UTF-8 in string'')
      | VBytes _ \<Rightarrow> with_bytes ''corrupt bytes'' data (\<lambda>b. Inr (VBytes b))
      | VBigInt _ \<Rightarrow> with_bytes ''corrupt embedded message'' data (\<lambda>b. map_val VBigInt (UnmarshalBigIntMsg b))
      | VDecimal _ \<Rightarrow> with_bytes ''corrupt embedded message'' data
          (\<lambda>b. map_val VDecimal (UnmarshalDecimalMsg b (int (max_digits lim))))
      | VBigFloat _ \<Rightarrow> with_bytes ''corrupt embedded message'' data
          (\<lambda>b. map_val VBigFloat (UnmarshalBigFloatMsg b (int (max_big_float_exp lim)) (int (max_digits lim))))
      | VStruct s vs \<Rightarrow> with_bytes ''corrupt embedded message'' data
          (\<lambda>b. map_val (VStruct s) (UnmarshalStruct env lim (depth + 1) b s vs))
      | _ \<Rightarrow> UnmarshalNumber data v zigzag)"
| "UnmarshalField env lim depth data type v zigzag =
     (if IsSingular v then UnmarshalScalar env lim depth data v zigzag
      else case v of
        VOptional t _ \<Rightarrow>
          map_val (\<lambda>(x, n). (VOptional t (Some x), n)) (UnmarshalScalar env lim depth data (zero_of env t) zigzag)
      | VPtr t p \<Rightarrow>
          map_val (\<lambda>(x, n). (VPtr t (Some x), n))
            (UnmarshalScalar env lim depth data (case p of Some x \<Rightarrow> x | None \<Rightarrow> zero_of env t) zigzag)
      | VMap kt vt m \<Rightarrow>
          with_bytes ''corrupt map entry'' data
            (\<lambda>b. if max_depth lim < depth + 1 then Inl (DepthError (max_depth lim))
                 else case UnmarshalEntry env lim (depth + 1) b (zero_of env kt) (zero_of env vt) zigzag of
                     Inl e \<Rightarrow> Inl e
                   | Inr (key, x) \<Rightarrow>
                       if at_repeated_limit lim (length m) \<and> \<not> map_find key m
                       then Inl (''map field exceeds MaxRepeatedCount='' @ to_string (max_repeated lim))
                       else Inr (VMap kt vt (insert_or_assign key x m)))
      | VVector t xs \<Rightarrow>
          (if IsPackable t \<and> type = kBytes
           then with_bytes ''corrupt packed field'' data
                  (\<lambda>b. map_val (VVector t) (UnmarshalPacked env lim t zigzag b xs))
           else case UnmarshalScalar env lim depth data (zero_of env t) zigzag of
               Inl e \<Rightarrow> Inl e
             | Inr (tmp, n) \<Rightarrow>
                 if at_repeated_limit lim (length xs)
                 then Inl (''repeated field exceeds MaxRepeatedCount='' @ to_string (max_repeated lim))
                 else Inr (VVector t (xs @ [tmp]), n))
      | _ \<Rightarrow> Inl unsupported)"
| "UnmarshalEntry env lim depth data key x zigzag =
     (if data = [] then Inr (key, x)
      else case ConsumeTag data of
          None \<Rightarrow> Inl ''corrupt tag in map entry''
        | Some ((num, type), n) \<Rightarrow>
            (if num = 1 then
               (case UnmarshalField env lim depth (drop n data) type key zigzag of
                  Inl e \<Rightarrow> Inl (''map key: '' @ e)
                | Inr (key', c) \<Rightarrow> UnmarshalEntry env lim depth (drop c (drop n data)) key' x zigzag)
             else if num = 2 then
               (case UnmarshalField env lim depth (drop n data) type x zigzag of
                  Inl e \<Rightarrow> Inl (''map value: '' @ e)
                | Inr (x', c) \<Rightarrow> UnmarshalEntry env lim depth (drop c (drop n data)) key x' zigzag)
             else
               (case ConsumeFieldValue (drop n data) num type of
                  None \<Rightarrow> Inl (''corrupt unknown field '' @ to_string (unat num) @ '' in map entry'')
                | Some skipped \<Rightarrow> UnmarshalEntry env lim depth (drop skipped (drop n data)) key x zigzag)))"
| "UnmarshalStruct env lim depth data s vs =
     (if max_depth lim < depth then Inl (DepthError (max_depth lim))
      else UnmarshalFields env lim depth data s vs)"
| "UnmarshalFields env lim depth data s vs =
     (if data = [] then Inr vs
      else case ConsumeTag data of
          None \<Rightarrow> Inl ''corrupt tag''
        | Some ((num, type), n) \<Rightarrow>
            (case find_field num (protowire_fields env s) of
               Some i \<Rightarrow>
                 (case UnmarshalField env lim depth (drop n data) type (vs ! i) (fd_zigzag (protowire_fields env s ! i)) of
                    Inl e \<Rightarrow> Inl (''field '' @ fd_name (protowire_fields env s ! i) @ '': '' @ e)
                  | Inr (x, c) \<Rightarrow> UnmarshalFields env lim depth (drop c (drop n data)) s (vs[i := x]))
             | None \<Rightarrow>
                 (case ConsumeFieldValue (drop n data) num type of
                    None \<Rightarrow> Inl (''corrupt field '' @ to_string (unat num))
                  | Some skipped \<Rightarrow> UnmarshalFields env lim depth (drop skipped (drop n data)) s vs)))"
  by pat_completeness auto
termination
  by (relation "measures
       [\<lambda>c. case c of Inl (Inl (env, m, d, _)) \<Rightarrow> max_depth m - d | Inl (Inr (env, m, d, _)) \<Rightarrow> max_depth m - d
                   | Inr (Inl (env, m, d, _)) \<Rightarrow> max_depth m - d
                   | Inr (Inr (Inl (env, m, d, _))) \<Rightarrow> max_depth m + 1 - d
                   | Inr (Inr (Inr (env, m, d, _))) \<Rightarrow> max_depth m - d,
        \<lambda>c. case c of Inl (Inl _) \<Rightarrow> 1 | Inl (Inr _) \<Rightarrow> 2 | Inr (Inl _) \<Rightarrow> 3 | Inr (Inr (Inl _)) \<Rightarrow> 0
                   | Inr (Inr (Inr _)) \<Rightarrow> 4,
        \<lambda>c. case c of Inr (Inl (env, m, d, data, _)) \<Rightarrow> length data
                   | Inr (Inr (Inr (env, m, d, data, _))) \<Rightarrow> length data | _ \<Rightarrow> 0]")
     (auto dest!: ConsumeTag_pos)

declare UnmarshalScalar.simps [simp del] UnmarshalField.simps [simp del] UnmarshalEntry.simps [simp del]
  UnmarshalStruct.simps [simp del] UnmarshalFields.simps [simp del]

section \<open>The validator seam\<close>

record Violation =
  vi_path :: string
  vi_rule_id :: string
  vi_message :: string

type_synonym Report = "Violation list"

definition ErrorMessage :: "Report \<Rightarrow> string" where
  "ErrorMessage report =
     (case report of
        [] \<Rightarrow> ''check: validation failed''
      | v # _ \<Rightarrow>
          let msg0 = vi_message v;
              msg1 = (if vi_path v \<noteq> [] then vi_path v @ '': '' @ msg0 else msg0);
              msg = (if vi_rule_id v \<noteq> [] then msg1 @ '' ('' @ vi_rule_id v @ '')'' else msg1)
          in if length report = 1 then ''check: '' @ msg
             else ''check: '' @ to_string (length report) @ '' violations; first: '' @ msg)"

text \<open>The status and the report handed to the caller, if any.\<close>

definition Finish :: "string + Report \<Rightarrow> (string + unit) \<times> Report option" where
  "Finish rep =
     (case rep of
        Inl e \<Rightarrow> (Inl e, None)
      | Inr r \<Rightarrow> (if r = [] then Inr () else Inl (ErrorMessage r), Some r))"

text \<open>A validator is code of the caller: a parameter, \<open>None\<close> for a null pointer.\<close>

type_synonym Validator = "(string \<Rightarrow> val list \<Rightarrow> string + Report) option"

definition ValidateStruct :: "Validator \<Rightarrow> string \<Rightarrow> val list \<Rightarrow> (string + unit) \<times> Report option" where
  "ValidateStruct validator s vs = (case validator of None \<Rightarrow> (Inr (), None) | Some f \<Rightarrow> Finish (f s vs))"

section \<open>Public interface\<close>

definition Marshal :: "senv \<Rightarrow> int \<Rightarrow> string \<Rightarrow> val list \<Rightarrow> string + byte list" where
  "Marshal env max_nesting_depth s vs = MarshalStruct env (pick_limit max_nesting_depth kMaxNestingDepth) 0 s vs"

definition Unmarshal :: "senv \<Rightarrow> UnmarshalOptions \<Rightarrow> Validator \<Rightarrow> byte list \<Rightarrow> string \<Rightarrow> val list \<Rightarrow> (string + val list) \<times> Report option" where
  "Unmarshal env opts validator data s vs =
     (let lim = ResolveLimits opts
      in if max_message_size lim < length data
         then (Inl (''input of '' @ to_string (length data) @ '' bytes exceeds MaxMessageSize='' @
                    to_string (max_message_size lim)), None)
         else case UnmarshalStruct env lim 0 data s vs of
             Inl e \<Rightarrow> (Inl e, None)
           | Inr vs' \<Rightarrow>
               (case ValidateStruct validator s vs' of
                  (Inl e, r) \<Rightarrow> (Inl e, r)
                | (Inr _, r) \<Rightarrow> (Inr vs', r)))"

end
