(* ===== verification/PbRoundtrip.thy ===== *)
theory PbRoundtrip
  imports PbCodec
begin

text \<open>
  Properties of the struct codec of \<open>include/protowire/pb.h\<close>: a value whose members are in normal
  form is read back as it was written, nothing that is written is refused for its depth, and
  decoding keeps the types of the members.
\<close>

section \<open>Values in normal form\<close>

definition decimal_normal :: "Decimal \<Rightarrow> bool" where
  "decimal_normal d \<longleftrightarrow> normal (dec_unscaled d) \<and> 0 \<le> dec_scale d \<and>
     (dec_scale d = 0 \<or> \<not> 10 dvd be_val (dec_unscaled d)) \<and> (dec_unscaled d = [] \<longrightarrow> \<not> dec_negative d)"

definition bigfloat_normal :: "BigFloat \<Rightarrow> bool" where
  "bigfloat_normal f \<longleftrightarrow>
     (if bf_mantissa f = [] then bf_exponent f = 0
      else normal (bf_mantissa f) \<and> bf_prec f \<noteq> 0 \<and> BitLen (bf_mantissa f) = uint (bf_prec f))"

fun scalar_type :: "ty \<Rightarrow> bool" where
  "scalar_type (VectorT _) = False"
| "scalar_type (OptionalT _) = False"
| "scalar_type (PtrT _) = False"
| "scalar_type (MapT _ _) = False"
| "scalar_type _ = True"

fun key_type :: "ty \<Rightarrow> bool" where
  "key_type BoolT = True"
| "key_type (IntT _) = True"
| "key_type (UIntT _) = True"
| "key_type StringT = True"
| "key_type _ = False"

text \<open>What a map value is once it is read back: a scalar, or a held one that is set.\<close>

definition map_value_set :: "val \<Rightarrow> bool" where
  "map_value_set v =
     (case v of
        VOptional t p \<Rightarrow> scalar_type t \<and> p \<noteq> None
      | VPtr t p \<Rightarrow> scalar_type t \<and> p \<noteq> None
      | _ \<Rightarrow> scalar_type (type_of v))"

text \<open>A member that is left out when it is zero is the zero its struct starts with; this excludes \<open>-0.0\<close>.\<close>

definition plain_zero :: "senv \<Rightarrow> val \<Rightarrow> bool" where
  "plain_zero env v \<longleftrightarrow> (IsSingular v \<and> IsZeroValue v \<longrightarrow> v = zero_of env (type_of v))"

fun val_ok :: "senv \<Rightarrow> Limits \<Rightarrow> val \<Rightarrow> bool" where
  "val_ok env lim (VBool _) = True"
| "val_ok env lim (VDouble d) = (DoubleBits d = d)"
| "val_ok env lim (VFloat f) = (FloatBits f = f)"
| "val_ok env lim (VInt w i) = (0 < w \<and> w \<le> 64 \<and> - (2 ^ (w - 1)) \<le> i \<and> i < 2 ^ (w - 1))"
| "val_ok env lim (VUInt w n) = (w \<le> 64 \<and> n < 2 ^ w)"
| "val_ok env lim (VString s) = IsValidUTF8 s"
| "val_ok env lim (VBytes _) = True"
| "val_ok env lim (VBigInt i) = (normal (bi_abs i) \<and> (bi_abs i = [] \<longrightarrow> \<not> bi_negative i))"
| "val_ok env lim (VDecimal d) = decimal_normal d"
| "val_ok env lim (VBigFloat f) = bigfloat_normal f"
| "val_ok env lim (VStruct s vs) =
     (map type_of vs = map (\<lambda>f. type_of (fd_init f)) (protowire_fields env s) \<and>
      (\<forall>v\<in>set vs. val_ok env lim v \<and> plain_zero env v))"
| "val_ok env lim (VVector t xs) =
     (scalar_type t \<and> length xs \<le> max_repeated lim \<and> (\<forall>x\<in>set xs. type_of x = t \<and> val_ok env lim x))"
| "val_ok env lim (VOptional t p) =
     (scalar_type t \<and> (case p of None \<Rightarrow> True | Some x \<Rightarrow> type_of x = t \<and> val_ok env lim x))"
| "val_ok env lim (VPtr t p) =
     (scalar_type t \<and> (case p of None \<Rightarrow> True | Some x \<Rightarrow> type_of x = t \<and> val_ok env lim x))"
| "val_ok env lim (VMap kt vt m) =
     (key_type kt \<and> length m \<le> max_repeated lim \<and> sorted_wrt (\<lambda>a b. key_less (fst a) (fst b)) m \<and>
      (\<forall>e\<in>set m. type_of (fst e) = kt \<and> type_of (snd e) = vt \<and> map_value_set (snd e) \<and>
         val_ok env lim (fst e) \<and> val_ok env lim (snd e)))"

definition env_ok :: "senv \<Rightarrow> bool" where
  "env_ok env \<longleftrightarrow>
     list_all (\<lambda>(s, fs). distinct (map fd_number fs) \<and>
        list_all (\<lambda>f. 0 < fd_number f \<and> fd_number f \<le> 0x7fffffff \<and> fd_init f = zero_of env (type_of (fd_init f))) fs) env"

section \<open>Scalars\<close>

lemma signed_take_bit_of_int:
  assumes "0 < w" "w \<le> 64" "- (2 ^ (w - 1)) \<le> i" "i < 2 ^ (w - 1)"
  shows "signed_take_bit (w - 1) (sint (of_int i :: u64)) = i"
proof -
  have "sint (of_int i :: u64) = signed_take_bit 63 i"
    by (simp add: sint_uint uint_word_of_int_eq signed_take_bit_take_bit)
  moreover have "signed_take_bit (w - 1) (signed_take_bit 63 i) = signed_take_bit (w - 1) i"
    using assms by simp
  ultimately show ?thesis using assms by (simp add: signed_take_bit_int_eq_self)
qed

lemma take_bit_of_nat:
  assumes "w \<le> 64" "n < 2 ^ w"
  shows "take_bit w (unat (of_nat n :: u64)) = n"
proof -
  have "(2::nat) ^ w \<le> 2 ^ 64" using assms(1) by (intro power_increasing) auto
  with assms(2) have "n < 2 ^ 64" by linarith
  then show ?thesis using assms(2) by (simp add: unsigned_of_nat take_bit_nat_eq_self)
qed

lemma AppendFixed_out:
  "AppendFixed32 out x = out @ AppendFixed32 [] x" "AppendFixed64 out y = out @ AppendFixed64 [] y"
  by (simp_all add: AppendFixed32_def AppendFixed64_def)

lemma AppendPackedElement_out: "AppendPackedElement p v zz = p @ AppendPackedElement [] v zz"
  unfolding AppendPackedElement_def
  by (cases v; simp add: AppendVarint_out [of p] AppendFixed_out(1) [of p] AppendFixed_out(2) [of p])

lemma AppendPackedElement_fold:
  "foldl (\<lambda>p x. AppendPackedElement p x zz) acc xs = acc @ concat (map (\<lambda>x. AppendPackedElement [] x zz) xs)"
  by (induction xs arbitrary: acc) (simp_all, subst AppendPackedElement_out, simp)

lemma type_of_zero_of [simp]: "type_of (zero_of env t) = t"
  by (cases t) simp_all

lemma UnmarshalNumber_enc:
  assumes "IsPackable (type_of v)" "type_of u = type_of v" "val_ok env lim v"
  shows "UnmarshalNumber (AppendPackedElement [] v zz @ rest) u zz = Inr (v, length (AppendPackedElement [] v zz))"
  using assms
  by (cases v; cases u; auto simp: UnmarshalNumber_def AppendPackedElement_def signed_take_bit_of_int [simplified] take_bit_of_nat)

lemma AppendPackedElement_nonempty:
  "IsPackable (type_of v) \<Longrightarrow> AppendPackedElement [] v zz \<noteq> []"
  by (cases v; simp add: AppendPackedElement_def AppendFixed32_def AppendFixed64_def upt_rec)

lemma at_repeated_limit_less: "n < max_repeated lim \<Longrightarrow> n < 2 ^ 31 \<Longrightarrow> \<not> at_repeated_limit lim n"
  by (simp add: at_repeated_limit_def)

lemma UnmarshalPacked_enc:
  assumes "\<forall>x\<in>set xs. type_of x = t \<and> val_ok env lim x" "IsPackable t"
    and "length (done @ xs) \<le> max_repeated lim" "length (done @ xs) < 2 ^ 31"
  shows "UnmarshalPacked env lim t zz (concat (map (\<lambda>x. AppendPackedElement [] x zz) xs)) done = Inr (done @ xs)"
  using assms
proof (induction xs arbitrary: "done")
  case Nil
  then show ?case by (simp add: UnmarshalPacked.simps)
next
  case (Cons x xs)
  let ?e = "AppendPackedElement [] x zz"
  have "?e \<noteq> []" using Cons.prems by (intro AppendPackedElement_nonempty) auto
  moreover have "UnmarshalNumber (?e @ rest) (zero_of env t) zz = Inr (x, length ?e)" for rest
    using Cons.prems by (intro UnmarshalNumber_enc) auto
  moreover have "\<not> at_repeated_limit lim (length done)"
    using Cons.prems by (intro at_repeated_limit_less) auto
  ultimately show ?case
    using Cons.IH [of "done @ [x]"] Cons.prems by (subst UnmarshalPacked.simps) simp
qed

section \<open>Big numbers\<close>

lemma UnmarshalDecimalMsg_default: "UnmarshalDecimalMsg b (int kMaxNumericLiteralDigits) = UnmarshalDecimalMsg b 0"
  by (simp add: UnmarshalDecimalMsg_def kMaxNumericLiteralDigits_def)

lemma UnmarshalBigFloatMsg_default:
  "UnmarshalBigFloatMsg b (int kMaxBigFloatExponent) (int kMaxNumericLiteralDigits) = UnmarshalBigFloatMsg b 0 0"
  by (simp add: UnmarshalBigFloatMsg_def kMaxNumericLiteralDigits_def kMaxBigFloatExponent_def)

lemma scale_unique:
  fixes x y :: nat
  assumes "x * 10 ^ nat (t - s) = y * 10 ^ nat (s - t)" "0 \<le> s" "0 \<le> t"
    and "s = 0 \<or> \<not> 10 dvd x" "t = 0 \<or> \<not> 10 dvd y"
  shows "s = t \<and> x = y"
proof -
  have "\<not> s < t"
  proof
    assume "s < t"
    then obtain k where "nat (t - s) = Suc k" by (metis Suc_diff_1 diff_gt_0_iff_gt zero_less_nat_eq)
    with assms \<open>s < t\<close> have "y = x * 10 ^ Suc k" by simp
    with assms \<open>s < t\<close> show False by (auto simp: dvd_def)
  qed
  moreover have "\<not> t < s"
  proof
    assume "t < s"
    then obtain k where "nat (s - t) = Suc k" by (metis Suc_diff_1 diff_gt_0_iff_gt zero_less_nat_eq)
    with assms \<open>t < s\<close> have "x = y * 10 ^ Suc k" by simp
    with assms \<open>t < s\<close> show False by (auto simp: dvd_def)
  qed
  ultimately show ?thesis using assms by auto
qed

lemma decimal_reads_back:
  assumes "MarshalDecimalMsg d [] = Inr bs" "length bs < 2 ^ 31" "decimal_normal d"
  shows "UnmarshalDecimalMsg bs 0 = Inr d"
proof -
  from UnmarshalDecimalMsg_Marshal [OF assms(1,2)] obtain w
    where w: "UnmarshalDecimalMsg bs 0 = Inr w" "normal (dec_unscaled w)" "0 \<le> dec_scale w"
      and e: "be_val (dec_unscaled d) * 10 ^ nat (dec_scale w - dec_scale d) = be_val (dec_unscaled w) * 10 ^ nat (dec_scale d - dec_scale w)"
      and m: "dec_scale w = 0 \<or> \<not> 10 dvd be_val (dec_unscaled w)"
      and n: "dec_negative w = (dec_negative d \<and> be_val (dec_unscaled d) \<noteq> 0)" by blast
  have u: "dec_scale d = dec_scale w \<and> be_val (dec_unscaled d) = be_val (dec_unscaled w)"
    using scale_unique [OF e] assms(3) w(3) m by (auto simp: decimal_normal_def)
  then have "dec_unscaled d = dec_unscaled w"
    using mag_of_be_val [of "dec_unscaled d"] mag_of_be_val [of "dec_unscaled w"] assms(3) w(2)
    by (simp add: decimal_normal_def)
  moreover have "be_val (dec_unscaled d) = 0 \<Longrightarrow> dec_unscaled d = []"
    using mag_of_be_val [of "dec_unscaled d"] assms(3) by (simp add: decimal_normal_def)
  ultimately show ?thesis using w(1) u n assms(3) by (auto simp: decimal_normal_def intro!: Decimal.equality)
qed

lemma exponent_unique:
  fixes x y :: nat
  assumes "x * 2 ^ nat (a - b) = y * 2 ^ nat (b - a)" "2 ^ k \<le> x" "x < 2 ^ Suc k" "2 ^ k \<le> y" "y < 2 ^ Suc k"
  shows "a = b \<and> x = y"
proof -
  have no: "\<not> (v = u * 2 ^ nat c \<and> 0 < c)" if "2 ^ k \<le> u" "v < 2 ^ Suc k" for u v :: nat and c :: int
  proof (rule notI, elim conjE)
    assume v: "v = u * 2 ^ nat c" and "0 < c"
    then obtain j where "nat c = Suc j" by (metis Suc_diff_1 zero_less_nat_eq)
    with v have "2 * u \<le> v" by simp
    with that show False by simp
  qed
  from no [of x y "a - b"] no [of y x "b - a"] assms show ?thesis
    by (cases a b rule: linorder_cases) auto
qed

lemma bigfloat_zero_reads_back:
  assumes "bf_mantissa f = []" "bf_exponent f = 0" "MarshalBigFloatMsg f [] = Inr bs"
  shows "UnmarshalBigFloatMsg bs 0 0 = Inr f"
proof (cases "bf_prec f = 0")
  case True
  then have "bs = append_flag [] 4 (bf_negative f)" using assms(3) by (simp add: MarshalBigFloatMsg_def)
  with True assms(1,2) show ?thesis
    by (auto simp: UnmarshalBigFloatMsg_def append_flag_def intro!: BigFloat.equality)
next
  case False
  then have bs: "bs = append_bigfloat [] [] 0 (bf_prec f) (bf_negative f)"
    and p: "\<not> int kMaxNumericLiteralDigits < BigFloatPrecDigits (bf_prec f)"
    using assms by (auto simp: MarshalBigFloatMsg_def TrimLeadingZeros_def split: if_splits)
  have "ReadFields ''BigFloat'' BigFloat_field bs \<lparr>bf_mantissa = [], bf_exponent = 0, bf_prec = 0, bf_negative = False\<rparr> =
      Inr \<lparr>bf_mantissa = [], bf_exponent = 0, bf_prec = bf_prec f, bf_negative = bf_negative f\<rparr>"
    unfolding bs by (rule ReadFields_append_bigfloat) (simp_all add: AppendBytes_def AppendVarint.simps)
  with False p assms(1,2) show ?thesis
    by (auto simp: UnmarshalBigFloatMsg_def TrimLeadingZeros_def BitLen_def intro!: BigFloat.equality)
qed

lemma bigfloat_reads_back:
  assumes "MarshalBigFloatMsg f [] = Inr bs" "length bs < 2 ^ 31" "bigfloat_normal f"
  shows "UnmarshalBigFloatMsg bs 0 0 = Inr f"
proof (cases "bf_mantissa f = []")
  case True
  with assms bigfloat_zero_reads_back show ?thesis by (simp add: bigfloat_normal_def)
next
  case False
  let ?m = "bf_mantissa f" and ?p = "uint (bf_prec f)"
  from False assms(3) have nm: "normal ?m" "bf_prec f \<noteq> 0" "BitLen ?m = ?p" by (simp_all add: bigfloat_normal_def)
  have bl: "0 < BitLen ?m" "2 ^ (nat (BitLen ?m) - 1) \<le> be_val ?m" "be_val ?m < 2 ^ nat (BitLen ?m)"
    using BitLen_bounds [OF nm(1) False] by simp_all
  then have nz: "be_val ?m \<noteq> 0" by (metis le_zero_eq power_not_zero zero_neq_numeral)
  have tr: "TrimLeadingZeros ?m = ?m" using nm(1) by (simp add: TrimLeadingZeros_mag_of)
  from UnmarshalBigFloatMsg_Marshal [OF assms(1,2) nm(2) nz] obtain w
    where w: "UnmarshalBigFloatMsg bs 0 0 = Inr w" "bf_prec w = bf_prec f" "bf_negative w = bf_negative f"
      "normal (bf_mantissa w)" "BitLen (bf_mantissa w) = ?p"
      and e: "be_val (bf_mantissa w) * 2 ^ nat (bf_exponent w - bf_exponent f) =
        be_val ?m * 2 ^ nat (bf_exponent f - bf_exponent w)"
    by (auto simp: tr nm(3))
  have wn: "bf_mantissa w \<noteq> []" using w(5) bl(1) nm(3) by (auto simp: BitLen_def)
  define k where "k = nat ?p - 1"
  have k: "nat ?p = Suc k" using nm(2) by (simp add: k_def unat_gt_0)
  have "bf_exponent w = bf_exponent f \<and> be_val (bf_mantissa w) = be_val ?m"
    using exponent_unique [OF e, of k] bl BitLen_bounds [OF w(4) wn] nm(3) w(5) k by simp
  moreover from this have "bf_mantissa w = ?m"
    using mag_of_be_val [OF nm(1)] mag_of_be_val [OF w(4)] by simp
  ultimately have "w = f" using w(2,3) by (intro BigFloat.equality) simp_all
  with w(1) show ?thesis by simp
qed

lemma bigint_reads_back:
  assumes "length (AppendBytes [] (bi_abs v)) < 2 ^ 31" "normal (bi_abs v)" "bi_abs v = [] \<Longrightarrow> \<not> bi_negative v"
  shows "UnmarshalBigIntMsg (MarshalBigIntMsg v []) = Inr v"
  using assms UnmarshalBigIntMsg_Marshal [OF assms(1)] be_val_0_iff [OF assms(2)]
  by (auto simp: TrimLeadingZeros_mag_of intro!: BigInt.equality)

section \<open>Records\<close>

text \<open>The bytes are one record of field \<open>num\<close> whose payload \<open>UnmarshalScalar\<close> reads back.\<close>

definition reads_back :: "senv \<Rightarrow> Limits \<Rightarrow> nat \<Rightarrow> FieldNumber \<Rightarrow> bool \<Rightarrow> val \<Rightarrow> byte list \<Rightarrow> bool" where
  "reads_back env lim d num zz v bs \<longleftrightarrow>
     (\<exists>t p. bs = AppendTag [] num t @ p \<and> unat t < 8 \<and>
        (\<forall>rest. UnmarshalScalar env lim d (p @ rest) (zero_of env (type_of v)) zz = Inr (v, length p)))"

definition struct_reads_back :: "senv \<Rightarrow> Limits \<Rightarrow> nat \<Rightarrow> nat \<Rightarrow> bool" where
  "struct_reads_back env lim maxd d \<longleftrightarrow>
     (\<forall>s vs bs. MarshalStruct env maxd d s vs = Inr bs \<longrightarrow> val_ok env lim (VStruct s vs) \<longrightarrow> length bs < 2 ^ 31 \<longrightarrow>
        UnmarshalStruct env lim d bs s (map fd_init (protowire_fields env s)) = Inr vs)"

definition limits_ok :: "Limits \<Rightarrow> nat \<Rightarrow> bool" where
  "limits_ok lim maxd \<longleftrightarrow> maxd \<le> max_depth lim \<and> max_digits lim = kMaxNumericLiteralDigits \<and>
     max_big_float_exp lim = kMaxBigFloatExponent \<and> max_repeated lim < 2 ^ 31"

lemma embed_cases:
  assumes "embed num r = Inr bs"
  obtains sub where "r = Inr sub" "embed num (Inr sub) = Inr bs"
proof (cases r)
  case (Inl e)
  with assms show ?thesis by (simp add: embed_def)
next
  case (Inr sub)
  with assms that show ?thesis by blast
qed

lemma with_bytes_enc:
  "length (AppendBytes [] b) < 2 ^ 31 \<Longrightarrow>
   with_bytes err (AppendBytes [] b @ rest) f =
     (case f b of Inl e \<Rightarrow> Inl e | Inr x \<Rightarrow> Inr (x, length (AppendBytes [] b)))"
  by (simp add: with_bytes_def ConsumeBytes_AppendBytes)

lemma reads_back_bytes:
  assumes "embed num (Inr sub) = Inr bs" "length bs < 2 ^ 31"
    and "\<And>rest. UnmarshalScalar env lim d (AppendBytes [] sub @ rest) (zero_of env (type_of v)) zz =
      with_bytes err (AppendBytes [] sub @ rest) f"
    and "length (AppendBytes [] sub) < 2 ^ 31 \<Longrightarrow> f sub = Inr v"
  shows "reads_back env lim d num zz v bs"
proof -
  from assms(1) have bs: "bs = AppendTag [] num 2 @ AppendBytes [] sub"
    by (simp add: embed_def AppendBytes_out [of "AppendTag [] num 2"])
  then have l: "length (AppendBytes [] sub) < 2 ^ 31" using assms(2) by simp
  show ?thesis unfolding reads_back_def
    using bs assms(3,4) l by (intro exI [of _ "2 :: WireType"] exI [of _ "AppendBytes [] sub"]) (simp add: with_bytes_enc)
qed

lemma reads_back_number:
  assumes "IsPackable (type_of v)" "val_ok env lim v" "unat t < 8" "bs = AppendTag [] num t @ AppendPackedElement [] v zz"
  shows "reads_back env lim d num zz v bs"
proof -
  have "UnmarshalScalar env lim d (AppendPackedElement [] v zz @ rest) (zero_of env (type_of v)) zz =
      Inr (v, length (AppendPackedElement [] v zz))" for rest
    using UnmarshalNumber_enc [OF assms(1) _ assms(2), of "zero_of env (type_of v)" zz rest] assms(1)
    by (cases v) (simp_all add: UnmarshalScalar.simps)
  then show ?thesis unfolding reads_back_def using assms(3,4) by blast
qed

lemma MarshalBigIntMsg_length:
  assumes "length (AppendBytes [] (MarshalBigIntMsg v [])) < 2 ^ 31"
  shows "length (AppendBytes [] (bi_abs v)) < 2 ^ 31"
proof (cases "bi_abs v = []")
  case True
  have "length (AppendVarint [] 0) \<le> 10" by (rule AppendVarint_len(2))
  with True show ?thesis by (simp add: AppendBytes_def)
next
  case False
  then have "length (AppendBytes (AppendTag [] 1 2) (bi_abs v)) \<le> length (MarshalBigIntMsg v [])"
    by (simp add: MarshalBigIntMsg_def append_flag_def Let_def)
  moreover have "length (AppendBytes [] (bi_abs v)) \<le> length (AppendBytes (AppendTag [] 1 2) (bi_abs v))"
    using AppendBytes_out [of "AppendTag [] 1 2" "bi_abs v"] by simp
  ultimately show ?thesis using assms by (simp add: AppendBytes_def)
qed

definition number_wire :: "val \<Rightarrow> WireType" where
  "number_wire v = (case v of VDouble _ \<Rightarrow> kFixed64 | VFloat _ \<Rightarrow> kFixed32 | _ \<Rightarrow> kVarint)"

lemma MarshalScalar_number:
  assumes "IsPackable (type_of v)"
  shows "MarshalScalar env maxd d num v zz = Inr (AppendTag [] num (number_wire v) @ AppendPackedElement [] v zz)"
    "unat (number_wire v) < 8"
proof -
  note out = AppendVarint_out [of "AppendTag [] num 0"] AppendFixed_out(1) [of "AppendTag [] num 5"]
    AppendFixed_out(2) [of "AppendTag [] num 1"]
  show "MarshalScalar env maxd d num v zz = Inr (AppendTag [] num (number_wire v) @ AppendPackedElement [] v zz)"
  proof (cases v)
    case (VBool b)
    then show ?thesis by (simp add: MarshalScalar.simps AppendPackedElement_def number_wire_def out)
  next
    case (VDouble x)
    then show ?thesis by (simp add: MarshalScalar.simps AppendPackedElement_def number_wire_def out)
  next
    case (VFloat x)
    then show ?thesis by (simp add: MarshalScalar.simps AppendPackedElement_def number_wire_def out)
  next
    case (VInt w i)
    then show ?thesis by (simp add: MarshalScalar.simps AppendPackedElement_def number_wire_def out)
  next
    case (VUInt w n)
    then show ?thesis by (simp add: MarshalScalar.simps AppendPackedElement_def number_wire_def out)
  qed (use assms in simp_all)
  show "unat (number_wire v) < 8" by (simp add: number_wire_def split: val.split)
qed

lemma number_reads_back:
  assumes "MarshalScalar env maxd d num v zz = Inr bs" "val_ok env lim v" "IsPackable (type_of v)"
  shows "reads_back env lim d num zz v bs"
proof (rule reads_back_number [OF assms(3,2) MarshalScalar_number(2) [OF assms(3)]])
  show "bs = AppendTag [] num (number_wire v) @ AppendPackedElement [] v zz"
    using assms(1) MarshalScalar_number(1) [OF assms(3), of env maxd d num zz] by simp
qed

lemma scalar_reads_back:
  assumes "MarshalScalar env maxd d num v zz = Inr bs" "val_ok env lim v" "scalar_type (type_of v)" "length bs < 2 ^ 31"
    and lim: "limits_ok lim maxd" and IH: "struct_reads_back env lim maxd (d + 1)"
  shows "reads_back env lim d num zz v bs"
proof (cases v)
  case (VString s)
  then have "embed num (Inr (bytes_of s)) = Inr bs" using assms(1) by (simp add: MarshalScalar.simps embed_def)
  from this assms(4) show ?thesis
    by (rule reads_back_bytes, (use VString assms(2) in \<open>simp add: UnmarshalScalar.simps\<close>)+)
next
  case (VBytes b)
  then have "embed num (Inr b) = Inr bs" using assms(1) by (simp add: MarshalScalar.simps embed_def)
  from this assms(4) show ?thesis
    by (rule reads_back_bytes, (use VBytes in \<open>simp add: UnmarshalScalar.simps\<close>)+)
next
  case (VBigInt i)
  then have "embed num (Inr (MarshalBigIntMsg i [])) = Inr bs" using assms(1) by (simp add: MarshalScalar.simps)
  from this assms(4) show ?thesis
    by (rule reads_back_bytes, (use VBigInt assms(2) MarshalBigIntMsg_length [of i] in \<open>simp add: UnmarshalScalar.simps map_val_def bigint_reads_back\<close>)+)
next
  case (VDecimal x)
  with assms(1) have "embed num (MarshalDecimalMsg x []) = Inr bs" by (simp add: MarshalScalar.simps)
  then obtain sub where sub: "MarshalDecimalMsg x [] = Inr sub" and e: "embed num (Inr sub) = Inr bs" by (rule embed_cases)
  from e assms(4) show ?thesis
    by (rule reads_back_bytes, (use VDecimal assms(2) decimal_reads_back [OF sub] lim in \<open>simp add: UnmarshalScalar.simps map_val_def limits_ok_def UnmarshalDecimalMsg_default AppendBytes_def\<close>)+)
next
  case (VBigFloat x)
  with assms(1) have "embed num (MarshalBigFloatMsg x []) = Inr bs" by (simp add: MarshalScalar.simps)
  then obtain sub where sub: "MarshalBigFloatMsg x [] = Inr sub" and e: "embed num (Inr sub) = Inr bs" by (rule embed_cases)
  from e assms(4) show ?thesis
    by (rule reads_back_bytes, (use VBigFloat assms(2) bigfloat_reads_back [OF sub] lim in \<open>simp add: UnmarshalScalar.simps map_val_def limits_ok_def UnmarshalBigFloatMsg_default AppendBytes_def\<close>)+)
next
  case (VStruct s vs)
  with assms(1) have "embed num (MarshalStruct env maxd (d + 1) s vs) = Inr bs" by (simp add: MarshalScalar.simps)
  then obtain sub where sub: "MarshalStruct env maxd (d + 1) s vs = Inr sub" and e: "embed num (Inr sub) = Inr bs"
    by (rule embed_cases)
  have "length sub < 2 ^ 31 \<Longrightarrow> UnmarshalStruct env lim (d + 1) sub s (map fd_init (protowire_fields env s)) = Inr vs"
    using IH sub assms(2) VStruct unfolding struct_reads_back_def by blast
  with e assms(4) show ?thesis
    by (elim reads_back_bytes) (use VStruct in \<open>simp add: UnmarshalScalar.simps map_val_def AppendBytes_def\<close>)+
qed (use assms(3) number_reads_back [OF assms(1,2)] in simp_all)

section \<open>Loops over records\<close>

lemma find_field_nth:
  "distinct (map fd_number fs) \<Longrightarrow> i < length fs \<Longrightarrow> find_field (fd_number (fs ! i)) fs = Some i"
proof (induction fs arbitrary: i)
  case (Cons f fs)
  then show ?case by (cases i) auto
qed simp

lemma AppendTag_nonempty [simp]: "AppendTag out num t \<noteq> []"
  by (simp add: AppendTag_def)

lemma field_record:
  assumes "reads_back env lim d num zz v bs" "0 < num" "num \<le> 0x7fffffff"
    and "find_field num (protowire_fields env s) = Some i" "zz = fd_zigzag (protowire_fields env s ! i)"
    and "\<And>t p rest. UnmarshalScalar env lim d (p @ rest) (zero_of env (type_of v)) zz = Inr (v, length p) \<Longrightarrow>
      UnmarshalField env lim d (p @ rest) t (cur ! i) zz = Inr (x, length p)"
  shows "UnmarshalFields env lim d (bs @ rest) s cur = UnmarshalFields env lim d rest s (cur[i := x])"
proof -
  from assms(1) obtain t p where bs: "bs = AppendTag [] num t @ p" "unat t < 8"
    and p: "\<And>rest. UnmarshalScalar env lim d (p @ rest) (zero_of env (type_of v)) zz = Inr (v, length p)"
    unfolding reads_back_def by blast
  have "ConsumeTag (bs @ rest) = Some ((num, t), length (AppendTag [] num t))"
    using ConsumeTag_AppendTag [OF assms(2,3) bs(2), of "p @ rest"] bs(1) by simp
  then show ?thesis
    using assms(4,5) assms(6) [OF p] bs(1) by (subst UnmarshalFields.simps) simp
qed

lemma entry_record:
  assumes "reads_back env lim d num zz v bs" "num = 1 \<or> num = 2"
    and "\<And>t p rest. UnmarshalScalar env lim d (p @ rest) (zero_of env (type_of v)) zz = Inr (v, length p) \<Longrightarrow>
      UnmarshalField env lim d (p @ rest) t (if num = 1 then k else x) zz = Inr (w, length p)"
  shows "UnmarshalEntry env lim d (bs @ rest) k x zz =
    UnmarshalEntry env lim d rest (if num = 1 then w else k) (if num = 1 then x else w) zz"
proof -
  from assms(1) obtain t p where bs: "bs = AppendTag [] num t @ p" "unat t < 8"
    and p: "\<And>rest. UnmarshalScalar env lim d (p @ rest) (zero_of env (type_of v)) zz = Inr (v, length p)"
    unfolding reads_back_def by blast
  have "0 < num" "num \<le> 0x7fffffff" using assms(2) by auto
  then have "ConsumeTag (bs @ rest) = Some ((num, t), length (AppendTag [] num t))"
    using ConsumeTag_AppendTag [OF _ _ bs(2), of num "p @ rest"] bs(1) by simp
  then show ?thesis
    using assms(2) assms(3) [OF p] bs(1) by (subst UnmarshalEntry.simps) auto
qed

lemma lex_less_asym: "lex_less a b \<Longrightarrow> \<not> lex_less b a"
  by (induction a b rule: lex_less.induct) auto

lemma key_less_asym: "key_less a b \<Longrightarrow> \<not> key_less b a"
  by (auto simp: key_less_def lex_less_asym split: val.splits)

lemma insert_or_assign_last:
  "\<forall>e\<in>set m. key_less (fst e) k \<Longrightarrow> insert_or_assign k x m = m @ [(k, x)]"
  by (induction m) (auto simp: key_less_asym)

lemma key_type_scalar: "key_type t \<Longrightarrow> scalar_type t"
  by (cases t) simp_all

lemma scalar_IsSingular: "IsSingular v \<longleftrightarrow> scalar_type (type_of v)"
  by (cases v) (simp_all add: IsSingular_def)

lemma UnmarshalField_singular:
  "scalar_type (type_of v) \<Longrightarrow> UnmarshalField env lim d data t v zz = UnmarshalScalar env lim d data v zz"
  by (simp add: UnmarshalField.simps scalar_IsSingular)

text \<open>The value that a map value, or a member, holds.\<close>

definition held :: "val \<Rightarrow> val" where
  "held v = (case v of VOptional _ (Some x) \<Rightarrow> x | VPtr _ (Some x) \<Rightarrow> x | _ \<Rightarrow> v)"

lemma map_value_held:
  assumes "map_value_set x" "val_ok env lim x"
  shows "scalar_type (type_of (held x))" "val_ok env lim (held x)"
    and "MarshalMapValue env maxd d num x zz = MarshalScalar env maxd d num (held x) zz"
    and "UnmarshalScalar env lim d data (zero_of env (type_of (held x))) zz = Inr (held x, n) \<Longrightarrow>
      UnmarshalField env lim d data t (zero_of env (type_of x)) zz = Inr (x, n)"
  using assms
  by (cases x; auto simp: map_value_set_def held_def MarshalMapValue.simps UnmarshalField_singular
      UnmarshalField.simps IsSingular_def map_val_def)+

section \<open>Members\<close>

text \<open>
  What the loop over a message does with the bytes of member \<open>i\<close>: it stores \<open>x\<close>. The facts about
  the member are shared by the cases below.
\<close>

definition member_at :: "senv \<Rightarrow> string \<Rightarrow> nat \<Rightarrow> FieldNumber \<Rightarrow> bool \<Rightarrow> bool" where
  "member_at env s i num zz \<longleftrightarrow> find_field num (protowire_fields env s) = Some i \<and> 0 < num \<and> num \<le> 0x7fffffff \<and>
     zz = fd_zigzag (protowire_fields env s ! i)"

lemma member_record:
  assumes "member_at env s i num zz" "reads_back env lim d num zz v bs"
    and "\<And>t p rest. UnmarshalScalar env lim d (p @ rest) (zero_of env (type_of v)) zz = Inr (v, length p) \<Longrightarrow>
      UnmarshalField env lim d (p @ rest) t (cur ! i) zz = Inr (x, length p)"
  shows "UnmarshalFields env lim d (bs @ rest) s cur = UnmarshalFields env lim d rest s (cur[i := x])"
  using assms(1) by (intro field_record [OF assms(2) _ _ _ _ assms(3)]) (auto simp: member_at_def)

lemma append_each_Cons:
  assumes "append_each f (x # xs) = Inr bs"
  obtains b bs' where "f x = Inr b" "append_each f xs = Inr bs'" "bs = b @ bs'"
  using assms by (auto split: sum.splits)

lemma vector_elements:
  assumes "member_at env s i num zz" "\<not> IsPackable t"
    and "append_each (\<lambda>x. MarshalScalar env maxd d num x zz) xs = Inr bs" "length bs < 2 ^ 31"
    and "\<forall>x\<in>set xs. type_of x = t \<and> val_ok env lim x" "scalar_type t"
    and "limits_ok lim maxd" "struct_reads_back env lim maxd (d + 1)"
    and "length (done @ xs) \<le> max_repeated lim" "i < length cur" "cur ! i = VVector t done"
  shows "UnmarshalFields env lim d (bs @ rest) s cur =
    UnmarshalFields env lim d rest s (cur[i := VVector t (done @ xs)])"
  using assms(3-5,9-11)
proof (induction xs arbitrary: bs "done" cur)
  case Nil
  then show ?case using list_update_id [of cur i] by simp
next
  case (Cons x xs)
  from Cons.prems(1) obtain b bs' where b: "MarshalScalar env maxd d num x zz = Inr b"
    and bs': "append_each (\<lambda>x. MarshalScalar env maxd d num x zz) xs = Inr bs'" and bs: "bs = b @ bs'"
    by (rule append_each_Cons)
  have "reads_back env lim d num zz x b"
    using scalar_reads_back [OF b _ _ _ assms(7,8)] Cons.prems assms(6) bs by simp
  moreover have nl: "\<not> at_repeated_limit lim (length done)"
    using Cons.prems(4) assms(7) by (intro at_repeated_limit_less) (auto simp: limits_ok_def)
  ultimately have "UnmarshalFields env lim d (b @ bs' @ rest) s cur =
      UnmarshalFields env lim d (bs' @ rest) s (cur[i := VVector t (done @ [x])])"
    by (intro member_record [OF assms(1)])
       (use Cons.prems assms(2) in \<open>auto simp: UnmarshalField.simps IsSingular_def\<close>)
  with Cons.IH [OF bs', of "done @ [x]" "cur[i := VVector t (done @ [x])]"] Cons.prems bs
  show ?case by simp
qed

lemma vector_packed:
  assumes "member_at env s i num zz" "IsPackable t" "cur ! i = VVector t []"
    and "bs = AppendBytes (AppendTag [] num kBytes) (foldl (\<lambda>p x. AppendPackedElement p x zz) [] xs)" "length bs < 2 ^ 31"
    and "\<forall>x\<in>set xs. type_of x = t \<and> val_ok env lim x" "length xs \<le> max_repeated lim" "max_repeated lim < 2 ^ 31"
  shows "UnmarshalFields env lim d (bs @ rest) s cur = UnmarshalFields env lim d rest s (cur[i := VVector t xs])"
proof -
  let ?p = "concat (map (\<lambda>x. AppendPackedElement [] x zz) xs)"
  have bs: "bs = AppendTag [] num 2 @ AppendBytes [] ?p"
    by (simp add: assms(4) AppendPackedElement_fold AppendBytes_out [of "AppendTag [] num 2"])
  have l: "length (AppendBytes [] ?p) < 2 ^ 31" using assms(5) bs by simp
  have "UnmarshalPacked env lim t zz ?p [] = Inr xs"
    using UnmarshalPacked_enc [OF assms(6,2), of "[]"] assms(7,8) by simp
  then have "UnmarshalField env lim d (AppendBytes [] ?p @ rest) 2 (cur ! i) zz =
      Inr (VVector t xs, length (AppendBytes [] ?p))"
    using assms(2,3) by (simp add: UnmarshalField.simps IsSingular_def with_bytes_enc [OF l] map_val_def)
  moreover have "ConsumeTag (bs @ rest) = Some ((num, 2), length (AppendTag [] num 2))"
    using assms(1) bs by (simp add: ConsumeTag_AppendTag member_at_def)
  ultimately show ?thesis
    using assms(1) bs by (subst UnmarshalFields.simps) (simp add: member_at_def)
qed

text \<open>One map entry: \<open>MarshalField\<close> writes \<open>embed num (map_entry ...)\<close> per entry.\<close>

definition map_entry :: "senv \<Rightarrow> nat \<Rightarrow> nat \<Rightarrow> bool \<Rightarrow> val \<times> val \<Rightarrow> string + byte list" where
  "map_entry env maxd d zz e =
     (case map_error ((@) ''map key: '') (MarshalScalar env maxd (d + 1) 1 (fst e) zz) of
        Inl er \<Rightarrow> Inl er
      | Inr kb \<Rightarrow>
          (case map_error ((@) ''map value: '') (MarshalMapValue env maxd (d + 1) 2 (snd e) zz) of
             Inl er \<Rightarrow> Inl er
           | Inr vb \<Rightarrow> Inr (kb @ vb)))"

lemma map_entry_reads_back:
  assumes "map_entry env maxd d zz (k, x) = Inr b" "length b < 2 ^ 31"
    and "key_type (type_of k)" "val_ok env lim k" "map_value_set x" "val_ok env lim x"
    and "limits_ok lim maxd" "struct_reads_back env lim maxd (d + 2)"
  shows "UnmarshalEntry env lim (d + 1) b (zero_of env (type_of k)) (zero_of env (type_of x)) zz = Inr (k, x)"
proof -
  note hx = map_value_held [OF assms(5,6)]
  from assms(1) obtain kb vb where kb: "MarshalScalar env maxd (d + 1) 1 k zz = Inr kb"
    and vb: "MarshalScalar env maxd (d + 1) 2 (held x) zz = Inr vb" and b: "b = kb @ vb"
    by (auto simp: map_entry_def map_error_def hx(3) split: sum.splits)
  have IH: "struct_reads_back env lim maxd (d + 1 + 1)" using assms(8) by simp
  have k: "reads_back env lim (d + 1) 1 zz k kb"
    using assms(2-4) b by (intro scalar_reads_back [OF kb _ _ _ assms(7) IH]) (auto intro: key_type_scalar)
  have v: "reads_back env lim (d + 1) 2 zz (held x) vb"
    using assms(2) b hx(1,2) by (intro scalar_reads_back [OF vb _ _ _ assms(7) IH]) auto
  have "UnmarshalEntry env lim (d + 1) (kb @ vb) (zero_of env (type_of k)) (zero_of env (type_of x)) zz =
      UnmarshalEntry env lim (d + 1) vb k (zero_of env (type_of x)) zz"
    using entry_record [OF k, of "zero_of env (type_of k)" "zero_of env (type_of x)" k vb] key_type_scalar [OF assms(3)]
    by (simp add: UnmarshalField_singular)
  also have "\<dots> = UnmarshalEntry env lim (d + 1) [] k x zz"
    using entry_record [OF v, of k "zero_of env (type_of x)" x "[]"] hx(4) by simp
  finally show ?thesis by (simp add: b UnmarshalEntry.simps)
qed

lemma map_entries:
  assumes "member_at env s i num zz" "append_each (\<lambda>e. embed num (map_entry env maxd d zz e)) m = Inr bs" "length bs < 2 ^ 31"
    and "sorted_wrt (\<lambda>a b. key_less (fst a) (fst b)) (done @ m)"
    and "\<forall>e\<in>set m. type_of (fst e) = kt \<and> type_of (snd e) = vt \<and> map_value_set (snd e) \<and>
      val_ok env lim (fst e) \<and> val_ok env lim (snd e)"
    and "key_type kt" "limits_ok lim maxd" "struct_reads_back env lim maxd (d + 2)" "d + 1 \<le> maxd"
    and "length (done @ m) \<le> max_repeated lim" "i < length cur" "cur ! i = VMap kt vt done"
  shows "UnmarshalFields env lim d (bs @ rest) s cur =
    UnmarshalFields env lim d rest s (cur[i := VMap kt vt (done @ m)])"
  using assms(2-5,10-12)
proof (induction m arbitrary: bs "done" cur)
  case Nil
  then show ?case using list_update_id [of cur i] by simp
next
  case (Cons e m)
  obtain k x where e: "e = (k, x)" by (cases e)
  from Cons.prems(1) obtain b bs' where b: "embed num (map_entry env maxd d zz e) = Inr b"
    and bs': "append_each (\<lambda>e. embed num (map_entry env maxd d zz e)) m = Inr bs'" and bs: "bs = b @ bs'"
    by (rule append_each_Cons)
  from b obtain sub where sub: "map_entry env maxd d zz (k, x) = Inr sub" and eb: "embed num (Inr sub) = Inr b"
    unfolding e by (rule embed_cases)
  have bt: "b = AppendTag [] num 2 @ AppendBytes [] sub"
    using eb by (simp add: embed_def AppendBytes_out [of "AppendTag [] num 2"])
  have l: "length (AppendBytes [] sub) < 2 ^ 31" "length sub < 2 ^ 31"
    using Cons.prems(2) bs bt by (simp_all add: AppendBytes_def)
  have ent: "UnmarshalEntry env lim (Suc d) sub (zero_of env kt) (zero_of env vt) zz = Inr (k, x)"
    using map_entry_reads_back [OF sub l(2) _ _ _ _ assms(7,8)] Cons.prems(4) assms(6) e by auto
  have nl: "\<not> at_repeated_limit lim (length done)"
    using Cons.prems(5) assms(7) by (intro at_repeated_limit_less) (auto simp: limits_ok_def)
  have ins: "insert_or_assign k x done = done @ [(k, x)]"
    using Cons.prems(3) e by (intro insert_or_assign_last) (auto simp: sorted_wrt_append)
  have "UnmarshalField env lim d (AppendBytes [] sub @ bs' @ rest) 2 (cur ! i) zz =
      Inr (VMap kt vt (done @ [e]), length (AppendBytes [] sub))"
    using Cons.prems(7) assms(7,9) nl ins ent e
    by (simp add: UnmarshalField.simps IsSingular_def with_bytes_enc [OF l(1)] limits_ok_def)
  moreover have "ConsumeTag (b @ bs' @ rest) = Some ((num, 2), length (AppendTag [] num 2))"
    using assms(1) bt by (simp add: ConsumeTag_AppendTag member_at_def)
  ultimately have "UnmarshalFields env lim d (b @ bs' @ rest) s cur =
      UnmarshalFields env lim d (bs' @ rest) s (cur[i := VMap kt vt (done @ [e])])"
    using assms(1) bt by (subst UnmarshalFields.simps) (simp add: member_at_def)
  with Cons.IH [OF bs', of "done @ [e]" "cur[i := VMap kt vt (done @ [e])]"] Cons.prems bs
  show ?case by simp
qed

lemma field_reads_back:
  assumes "member_at env s i num zz" "MarshalField env maxd d num v zz = Inr bs" "length bs < 2 ^ 31"
    and "val_ok env lim v" "plain_zero env v" "i < length cur" "cur ! i = zero_of env (type_of v)"
    and "limits_ok lim maxd" "struct_reads_back env lim maxd (d + 1)" "struct_reads_back env lim maxd (d + 2)"
  shows "UnmarshalFields env lim d (bs @ rest) s cur = UnmarshalFields env lim d rest s (cur[i := v])"
proof (cases "IsSingular v")
  case True
  show ?thesis
  proof (cases "IsZeroValue v")
    case z: True
    with True assms(2) have "bs = []" by (simp add: MarshalField.simps)
    then show ?thesis using True z assms(5,7) list_update_id [of cur i] by (simp add: plain_zero_def)
  next
    case False
    with True assms(2) have m: "MarshalScalar env maxd d num v zz = Inr bs" by (simp add: MarshalField.simps)
    from True have sc: "scalar_type (type_of v)" by (simp add: scalar_IsSingular)
    from scalar_reads_back [OF m assms(4) sc assms(3,8,9)] show ?thesis
      by (intro member_record [OF assms(1)]) (use assms(7) sc in \<open>simp_all add: UnmarshalField_singular\<close>)
  qed
next
  case False
  have held: "UnmarshalFields env lim d (bs @ rest) s cur = UnmarshalFields env lim d rest s (cur[i := v])"
    if "MarshalScalar env maxd d num x zz = Inr bs" "val_ok env lim x" "scalar_type (type_of x)"
      "v = VOptional (type_of x) (Some x) \<or> v = VPtr (type_of x) (Some x)" for x
    using scalar_reads_back [OF that(1-3) assms(3,8,9)] that(4) assms(7)
    by (intro member_record [OF assms(1)]) (auto simp: UnmarshalField.simps IsSingular_def map_val_def)
  show ?thesis
  proof (cases v)
    case (VOptional t p)
    show ?thesis
    proof (cases p)
      case None
      then show ?thesis using VOptional assms(2,7) list_update_id [of cur i] by (simp add: MarshalField.simps IsSingular_def)
    next
      case (Some x)
      then show ?thesis using VOptional assms(2,4) by (intro held [of x]) (simp_all add: MarshalField.simps IsSingular_def)
    qed
  next
    case (VPtr t p)
    show ?thesis
    proof (cases p)
      case None
      then show ?thesis using VPtr assms(2,7) list_update_id [of cur i] by (simp add: MarshalField.simps IsSingular_def)
    next
      case (Some x)
      then show ?thesis using VPtr assms(2,4) by (intro held [of x]) (simp_all add: MarshalField.simps IsSingular_def)
    qed
  next
    case (VVector t xs)
    then have cur: "cur ! i = VVector t []" and mr: "max_repeated lim < 2 ^ 31"
      and xs: "\<forall>x\<in>set xs. type_of x = t \<and> val_ok env lim x" "scalar_type t" "length xs \<le> max_repeated lim"
      using assms(4,7,8) by (simp_all add: limits_ok_def)
    consider "xs = []" | "xs \<noteq> []" "IsPackable t" | "xs \<noteq> []" "\<not> IsPackable t" by blast
    then show ?thesis
    proof cases
      case 1
      then show ?thesis using VVector cur assms(2) list_update_id [of cur i] by (simp add: MarshalField.simps IsSingular_def)
    next
      case 2
      then show ?thesis using VVector assms(2,3) mr xs(1,3)
        by (intro vector_packed [OF assms(1) _ cur, THEN trans]) (simp_all add: MarshalField.simps IsSingular_def)
    next
      case 3
      then have "append_each (\<lambda>x. MarshalScalar env maxd d num x zz) xs = Inr bs"
        using VVector assms(2) by (simp add: MarshalField.simps IsSingular_def)
      from vector_elements [OF assms(1) 3(2) this assms(3) xs(1,2) assms(8,9) _ assms(6) cur] xs(3) VVector
      show ?thesis by simp
    qed
  next
    case (VMap kt vt m)
    then show ?thesis
    proof (cases "m = []")
      case False
      with VMap assms(2) have "append_each (\<lambda>e. embed num (map_entry env maxd d zz e)) m = Inr bs" "d + 1 \<le> maxd"
        by (auto simp: MarshalField.simps IsSingular_def map_entry_def split: if_splits)
      from map_entries [OF assms(1) this(1) assms(3) _ _ _ assms(8,10) this(2), of "[]" kt vt cur] VMap assms(4,6,7)
      show ?thesis by simp
    qed (use VMap assms list_update_id [of cur i] in \<open>simp add: MarshalField.simps IsSingular_def\<close>)
  qed (use False in \<open>simp_all add: IsSingular_def\<close>)
qed

section \<open>Structs\<close>

lemma env_ok_fields:
  assumes "env_ok env"
  shows "distinct (map fd_number (protowire_fields env s))"
    and "f \<in> set (protowire_fields env s) \<Longrightarrow> 0 < fd_number f \<and> fd_number f \<le> 0x7fffffff \<and> fd_init f = zero_of env (type_of (fd_init f))"
  using assms map_of_SomeD [of env s]
  by (cases "map_of env s"; fastforce simp: env_ok_def protowire_fields_def list_all_iff)+

lemma member_at_nth:
  assumes "env_ok env" "i < length (protowire_fields env s)"
  shows "member_at env s i (fd_number (protowire_fields env s ! i)) (fd_zigzag (protowire_fields env s ! i))"
  using env_ok_fields(2) [OF assms(1) nth_mem [OF assms(2)]] find_field_nth [OF env_ok_fields(1) [OF assms(1)] assms(2)]
  by (simp add: member_at_def)

lemma struct_members:
  assumes "env_ok env" "map type_of vs = map (\<lambda>f. type_of (fd_init f)) (protowire_fields env s)"
    and "\<forall>v\<in>set vs. val_ok env lim v \<and> plain_zero env v"
    and "append_each (\<lambda>fv. map_error (\<lambda>e. ''field '' @ fd_name (fst fv) @ '': '' @ e)
           (MarshalField env maxd d (fd_number (fst fv)) (snd fv) (fd_zigzag (fst fv))))
           (drop i (zip (protowire_fields env s) vs)) = Inr bs" "length bs < 2 ^ 31"
    and "limits_ok lim maxd" "struct_reads_back env lim maxd (d + 1)" "struct_reads_back env lim maxd (d + 2)"
    and "i \<le> length vs"
  shows "UnmarshalFields env lim d bs s (take i vs @ drop i (map fd_init (protowire_fields env s))) = Inr vs"
  using assms(4,5,9)
proof (induction "length vs - i" arbitrary: i bs)
  case 0
  have "length vs = length (protowire_fields env s)" using assms(2) map_eq_imp_length_eq by blast
  with 0 show ?case by (simp add: UnmarshalFields.simps)
next
  case (Suc n)
  let ?fs = "protowire_fields env s"
  have len: "length vs = length ?fs" using assms(2) map_eq_imp_length_eq by blast
  from Suc.hyps(2) have i: "i < length vs" by simp
  then have dr: "drop i (zip ?fs vs) = (?fs ! i, vs ! i) # drop (Suc i) (zip ?fs vs)"
    using len by (simp add: Cons_nth_drop_Suc [symmetric])
  from Suc.prems(1) obtain b bs' where
    b: "MarshalField env maxd d (fd_number (?fs ! i)) (vs ! i) (fd_zigzag (?fs ! i)) = Inr b"
    and bs': "append_each (\<lambda>fv. map_error (\<lambda>e. ''field '' @ fd_name (fst fv) @ '': '' @ e)
           (MarshalField env maxd d (fd_number (fst fv)) (snd fv) (fd_zigzag (fst fv)))) (drop (Suc i) (zip ?fs vs)) = Inr bs'"
    and bs: "bs = b @ bs'"
    unfolding dr by (elim append_each_Cons) (auto simp: map_error_def split: sum.splits)
  let ?cur = "take i vs @ drop i (map fd_init ?fs)"
  have ty: "type_of (vs ! i) = type_of (fd_init (?fs ! i))"
    using assms(2) i len by (metis nth_map)
  have "?cur ! i = zero_of env (type_of (vs ! i))"
    using env_ok_fields(2) [OF assms(1), of "?fs ! i" s] i len ty by (simp add: nth_append)
  moreover have "val_ok env lim (vs ! i)" "plain_zero env (vs ! i)" using assms(3) i by simp_all
  ultimately have "UnmarshalFields env lim d (b @ bs') s ?cur = UnmarshalFields env lim d bs' s (?cur[i := vs ! i])"
    using i len Suc.prems(2) bs
    by (intro field_reads_back [OF member_at_nth [OF assms(1)] b _ _ _ _ _ assms(6-8)]) auto
  moreover have "?cur[i := vs ! i] = take (Suc i) vs @ drop (Suc i) (map fd_init ?fs)"
    using i len by (simp add: list_update_append take_Suc_conv_app_nth Cons_nth_drop_Suc [symmetric])
  moreover have "UnmarshalFields env lim d bs' s (take (Suc i) vs @ drop (Suc i) (map fd_init ?fs)) = Inr vs"
    using Suc.hyps bs' bs Suc.prems(2) i by (intro Suc.hyps(1)) auto
  ultimately show ?case using bs by simp
qed

lemma struct_roundtrip:
  assumes "env_ok env" "limits_ok lim maxd"
  shows "struct_reads_back env lim maxd d"
proof (induction "maxd + 1 - d" arbitrary: d rule: less_induct)
  case less
  have deep: "struct_reads_back env lim maxd e" if "maxd < e" for e
    using that by (simp add: struct_reads_back_def MarshalStruct.simps)
  show ?case
  proof (cases "maxd < d")
    case False
    have IH: "struct_reads_back env lim maxd (d + 1)" "struct_reads_back env lim maxd (d + 2)"
      using less [of "d + 1"] less [of "d + 2"] False deep by auto
    show ?thesis unfolding struct_reads_back_def
    proof (intro allI impI)
      fix s vs bs
      assume "MarshalStruct env maxd d s vs = Inr bs" "val_ok env lim (VStruct s vs)" "length bs < 2 ^ 31"
      with False struct_members [OF assms(1), of vs s lim maxd d 0 bs] assms(2) IH
      show "UnmarshalStruct env lim d bs s (map fd_init (protowire_fields env s)) = Inr vs"
        by (simp add: MarshalStruct.simps UnmarshalStruct.simps limits_ok_def)
    qed
  qed (rule deep)
qed

lemma Unmarshal_Marshal:
  assumes "env_ok env" "Marshal env n s vs = Inr bs" "length bs \<le> kMaxMessageSize"
    and "opts = \<lparr>o_max_message_size = 0, o_max_nesting_depth = n, o_max_numeric_literal_digits = 0,
           o_max_big_float_exponent = 0, o_max_repeated_count = 0\<rparr>"
    and "val_ok env (ResolveLimits opts) (VStruct s vs)"
  shows "Unmarshal env opts None bs s (map fd_init (protowire_fields env s)) = (Inr vs, None)"
proof -
  let ?lim = "ResolveLimits opts"
  have lim: "limits_ok ?lim (pick_limit n kMaxNestingDepth)" and sz: "max_message_size ?lim = kMaxMessageSize"
    by (simp_all add: assms(4) ResolveLimits_def limits_ok_def pick_limit_def kMaxRepeatedCount_def kMaxMessageSize_def)
  have "length bs < 2 ^ 31" using assms(3) by (simp add: kMaxMessageSize_def)
  with struct_roundtrip [OF assms(1) lim, of 0] assms(2,5)
  have "UnmarshalStruct env ?lim 0 bs s (map fd_init (protowire_fields env s)) = Inr vs"
    unfolding struct_reads_back_def Marshal_def by blast
  with assms(3) sz show ?thesis by (simp add: Unmarshal_def ValidateStruct_def)
qed

section \<open>Properties\<close>

text \<open>C2. What \<open>Marshal\<close> writes for a struct in normal form whose members start as zero, under a nesting bound and the default
  limits, and at most 64 MiB of it, \<open>Unmarshal\<close> at the same bound reads into a fresh struct without error, and every member has the
  value it had: scalars, zigzag and plain integers, packed and unpacked lists, optionals, pointers,
  maps, big numbers and nested structs.\<close>

theorem pb_roundtrip:
  assumes "env_ok env" "Marshal env n s vs = Inr bs" "length bs \<le> kMaxMessageSize"
    and "opts = \<lparr>o_max_message_size = 0, o_max_nesting_depth = n, o_max_numeric_literal_digits = 0,
           o_max_big_float_exponent = 0, o_max_repeated_count = 0\<rparr>"
    and "val_ok env (ResolveLimits opts) (VStruct s vs)"
  shows "Unmarshal env opts None bs s (map fd_init (protowire_fields env s)) = (Inr vs, None)"
  using Unmarshal_Marshal [OF assms] .

definition node_env :: senv where
  "node_env = [(''Node'',
     [\<lparr>fd_number = 1, fd_zigzag = True, fd_name = ''id'', fd_init = VInt 32 0\<rparr>,
      \<lparr>fd_number = 2, fd_zigzag = False, fd_name = ''next'', fd_init = VPtr (StructT ''Node'') None\<rparr>,
      \<lparr>fd_number = 3, fd_zigzag = False, fd_name = ''tags'', fd_init = VMap BoolT BoolT []\<rparr>,
      \<lparr>fd_number = 4, fd_zigzag = False, fd_name = ''xs'', fd_init = VVector (UIntT 32) []\<rparr>])]"

theorem pb_roundtrip_witness:
  "Unmarshal node_env \<lparr>o_max_message_size = 0, o_max_nesting_depth = 2, o_max_numeric_literal_digits = 0,
       o_max_big_float_exponent = 0, o_max_repeated_count = 0\<rparr> None
     [8, 3, 18, 2, 8, 2, 26, 4, 8, 1, 16, 0, 34, 2, 5, 0] ''Node''
     (map fd_init (protowire_fields node_env ''Node'')) =
   (Inr [VInt 32 (- 2),
         VPtr (StructT ''Node'') (Some (VStruct ''Node'' [VInt 32 1, VPtr (StructT ''Node'') None, VMap BoolT BoolT [], VVector (UIntT 32) []])),
         VMap BoolT BoolT [(VBool True, VBool False)], VVector (UIntT 32) [VUInt 32 5, VUInt 32 0]], None)"
proof -
  let ?vs = "[VInt 32 (- 2),
         VPtr (StructT ''Node'') (Some (VStruct ''Node'' [VInt 32 1, VPtr (StructT ''Node'') None, VMap BoolT BoolT [], VVector (UIntT 32) []])),
         VMap BoolT BoolT [(VBool True, VBool False)], VVector (UIntT 32) [VUInt 32 5, VUInt 32 0]]"
  have e: "env_ok node_env" by code_simp
  have m: "Marshal node_env 2 ''Node'' ?vs = Inr [8, 3, 18, 2, 8, 2, 26, 4, 8, 1, 16, 0, 34, 2, 5, 0]"
    by code_simp
  show ?thesis
    by (rule pb_roundtrip [OF e m _ refl])
       (simp_all add: node_env_def protowire_fields_def kMaxMessageSize_def plain_zero_def IsSingular_def
          IsZeroValue_def map_value_set_def ResolveLimits_def pick_limit_def kMaxRepeatedCount_def)
qed

end
