(* ===== verification/PbStream.thy ===== *)
theory PbStream
  imports PbRoundtrip
begin

text \<open>
  Length-prefixed framing: \<open>include/protowire/detail/stream.h\<close>, \<open>src/pb/stream.cc\<close> and the
  \<open>Encoder\<close> and \<open>Decoder\<close> of \<open>include/protowire/pb.h\<close>. A \<open>Status\<close> is its message, empty for OK. A
  \<open>std::istream\<close> is the bytes not read yet, its three state bits, and whether its device fails
  rather than ends where the bytes stop; a \<open>std::ostream\<close> is what was written and how many bytes
  its device still takes.
\<close>

section \<open>Streams\<close>

record istream =
  is_data :: "byte list"
  is_broken :: bool
  eofbit :: bool
  failbit :: bool
  badbit :: bool

definition istream_read :: "nat \<Rightarrow> istream \<Rightarrow> byte list \<times> istream" where
  "istream_read n s =
     (if eofbit s \<or> failbit s \<or> badbit s then ([], s\<lparr>failbit := True\<rparr>)
      else if n \<le> length (is_data s) then (take n (is_data s), s\<lparr>is_data := drop n (is_data s)\<rparr>)
      else (is_data s, if is_broken s then s\<lparr>is_data := [], badbit := True\<rparr>
                       else s\<lparr>is_data := [], eofbit := True, failbit := True\<rparr>))"

datatype ReadEnd = kFull | kEOF | kError

definition ReadFull :: "nat \<Rightarrow> istream \<Rightarrow> ReadEnd \<times> byte list \<times> istream" where
  "ReadFull n s =
     (if n = 0 then (kFull, [], s)
      else
        let s1 = (if eofbit s \<and> \<not> badbit s then s\<lparr>eofbit := False, failbit := False\<rparr> else s);
            (bs, s2) = istream_read n s1
        in (if length bs = n then kFull else if eofbit s2 \<and> \<not> badbit s2 then kEOF else kError, bs, s2))"

definition kErrEOF :: string where "kErrEOF = ''EOF''"
definition kErrUnexpectedEOF :: string where "kErrUnexpectedEOF = ''unexpected EOF''"
definition kErrRead :: string where "kErrRead = ''read failed''"

definition IsEOF :: "string \<Rightarrow> bool" where
  "IsEOF st \<longleftrightarrow> st = kErrEOF"

definition IsUnexpectedEOF :: "string \<Rightarrow> bool" where
  "IsUnexpectedEOF st \<longleftrightarrow> st = kErrUnexpectedEOF"

record ostream =
  os_data :: "byte list"
  os_room :: nat
  os_bad :: bool

definition ostream_write :: "byte list \<Rightarrow> ostream \<Rightarrow> ostream" where
  "ostream_write bs w =
     (if os_bad w then w
      else if length bs \<le> os_room w then w\<lparr>os_data := os_data w @ bs, os_room := os_room w - length bs\<rparr>
      else w\<lparr>os_data := os_data w @ take (os_room w) bs, os_room := 0, os_bad := True\<rparr>)"

section \<open>Framing\<close>

definition kErrFramingCorrupt :: string where
  "kErrFramingCorrupt = ''pb: stream framing corrupt''"

definition Corrupt :: "string \<Rightarrow> string" where
  "Corrupt why = kErrFramingCorrupt @ '': '' @ why"

definition IsFramingCorrupt :: "string \<Rightarrow> bool" where
  "IsFramingCorrupt st \<longleftrightarrow> prefix kErrFramingCorrupt st"

definition kDefaultMaxFrameSize :: int where
  "kDefaultMaxFrameSize = 16 * 2 ^ 20"

datatype VarintEnd = VOk u64 | VEOF | VUnexpectedEOF | VError | VOverflow

text \<open>The loop at index \<open>i\<close> with \<open>fuel\<close> rounds left; \<open>kMaxVarintBytes\<close> is 10.\<close>

fun ReadUvarint_loop :: "nat \<Rightarrow> nat \<Rightarrow> u64 \<Rightarrow> istream \<Rightarrow> VarintEnd \<times> istream" where
  "ReadUvarint_loop 0 i x r = (VOverflow, r)"
| "ReadUvarint_loop (Suc fuel) i x r =
     (case ReadFull 1 r of
        (kFull, bs, r') \<Rightarrow>
          let b = hd bs
          in if b < 0x80 then
               if i = 9 \<and> 1 < b then (VOverflow, r')
               else (VOk (x OR push_bit (7 * i) (ucast b)), r')
             else ReadUvarint_loop fuel (i + 1) (x OR push_bit (7 * i) (ucast (b AND 0x7f))) r'
      | (kEOF, bs, r') \<Rightarrow> (if 0 < i then VUnexpectedEOF else VEOF, r')
      | (kError, bs, r') \<Rightarrow> (VError, r'))"

definition ReadUvarint :: "istream \<Rightarrow> VarintEnd \<times> istream" where
  "ReadUvarint r = ReadUvarint_loop 10 0 0 r"

definition WriteFrame :: "byte list \<Rightarrow> ostream \<Rightarrow> string \<times> ostream" where
  "WriteFrame body w =
     (let hdr = AppendVarint [] (of_nat (length body));
          w1 = ostream_write hdr w
      in if os_bad w1 then (''write failed'', w1)
         else if body = [] then ([], w1)
         else
           let w2 = ostream_write body w1
           in if os_bad w2 then (''write failed'', w2) else ([], w2))"

record Decoder =
  dec_r :: istream
  dec_buf :: "byte list"
  dec_max :: int
  dec_err :: string

definition SetMaxFrameSize :: "int \<Rightarrow> Decoder \<Rightarrow> Decoder" where
  "SetMaxFrameSize n d = d\<lparr>dec_max := n\<rparr>"

definition stick :: "string \<Rightarrow> Decoder \<Rightarrow> string \<times> Decoder" where
  "stick e d = (e, d\<lparr>dec_err := e\<rparr>)"

definition ReadFrame :: "Decoder \<Rightarrow> string \<times> Decoder" where
  "ReadFrame d =
     (if dec_err d \<noteq> [] then (dec_err d, d)
      else case ReadUvarint (dec_r d) of
          (VEOF, r) \<Rightarrow> (kErrEOF, d\<lparr>dec_r := r\<rparr>)
        | (VUnexpectedEOF, r) \<Rightarrow> stick kErrUnexpectedEOF (d\<lparr>dec_r := r\<rparr>)
        | (VError, r) \<Rightarrow> stick (Corrupt kErrRead) (d\<lparr>dec_r := r\<rparr>)
        | (VOverflow, r) \<Rightarrow> stick (Corrupt ''binary: varint overflows a 64-bit integer'') (d\<lparr>dec_r := r\<rparr>)
        | (VOk n, r) \<Rightarrow>
            if of_int (dec_max d) < n
            then stick (Corrupt (''frame size '' @ to_string (unat n) @ '' exceeds max '' @ to_string_int (dec_max d))) (d\<lparr>dec_r := r\<rparr>)
            else
              (case ReadFull (unat n) r of
                 (kFull, bs, r') \<Rightarrow> ([], d\<lparr>dec_r := r', dec_buf := bs\<rparr>)
               | (kEOF, bs, r') \<Rightarrow> stick kErrUnexpectedEOF (d\<lparr>dec_r := r', dec_buf := bs @ replicate (unat n - length bs) 0\<rparr>)
               | (kError, bs, r') \<Rightarrow> stick kErrRead (d\<lparr>dec_r := r', dec_buf := bs @ replicate (unat n - length bs) 0\<rparr>)))"

text \<open>\<open>Encoder::Encode\<close> and \<open>Decoder::Decode\<close>.\<close>

definition Encode :: "senv \<Rightarrow> int \<Rightarrow> string \<Rightarrow> val list \<Rightarrow> ostream \<Rightarrow> string \<times> ostream" where
  "Encode env max_nesting_depth s vs w =
     (case Marshal env max_nesting_depth s vs of
        Inl e \<Rightarrow> (e, w)
      | Inr body \<Rightarrow> WriteFrame body w)"

definition Decode :: "senv \<Rightarrow> UnmarshalOptions \<Rightarrow> Validator \<Rightarrow> string \<Rightarrow> val list \<Rightarrow> Decoder \<Rightarrow> (string + val list) \<times> Decoder" where
  "Decode env opts validator s vs d =
     (case ReadFrame d of
        (st, d') \<Rightarrow>
          if st \<noteq> [] then (Inl st, d') else (fst (Unmarshal env opts validator (dec_buf d') s vs), d'))"

text \<open>A caller that writes several bodies, or reads until a call does not return OK.\<close>

fun write_frames :: "byte list list \<Rightarrow> ostream \<Rightarrow> ostream" where
  "write_frames [] w = w"
| "write_frames (b # bs) w = write_frames bs (snd (WriteFrame b w))"

fun read_frames :: "nat \<Rightarrow> Decoder \<Rightarrow> byte list list \<times> string \<times> Decoder" where
  "read_frames 0 d = ([], [], d)"
| "read_frames (Suc k) d =
     (case ReadFrame d of
        (st, d') \<Rightarrow> if st \<noteq> [] then ([], st, d')
          else case read_frames k d' of (bs, r) \<Rightarrow> (dec_buf d' # bs, r))"

text \<open>A caller that encodes a list of structs, stopping at an error, and one that decodes \<open>k\<close> of them.\<close>

fun encode_all :: "senv \<Rightarrow> int \<Rightarrow> string \<Rightarrow> val list list \<Rightarrow> ostream \<Rightarrow> string \<times> ostream" where
  "encode_all env n s [] w = ([], w)"
| "encode_all env n s (vs # vss) w =
     (case Encode env n s vs w of (st, w') \<Rightarrow> if st \<noteq> [] then (st, w') else encode_all env n s vss w')"

fun decode_all :: "senv \<Rightarrow> UnmarshalOptions \<Rightarrow> string \<Rightarrow> nat \<Rightarrow> Decoder \<Rightarrow> (string + val list list) \<times> Decoder" where
  "decode_all env opts s 0 d = (Inr [], d)"
| "decode_all env opts s (Suc k) d =
     (case Decode env opts None s (map fd_init (protowire_fields env s)) d of
        (Inl e, d') \<Rightarrow> (Inl e, d')
      | (Inr vs, d') \<Rightarrow>
          (case decode_all env opts s k d' of
             (Inl e, d'') \<Rightarrow> (Inl e, d'')
           | (Inr vss, d'') \<Rightarrow> (Inr (vs # vss), d'')))"

text \<open>The steps of a decoder and of the code around it: a read, more bytes arriving, a new maximum.\<close>

inductive dec_step :: "Decoder \<Rightarrow> Decoder \<Rightarrow> bool" where
  read: "dec_step d (snd (ReadFrame d))"
| grow: "dec_step d (d\<lparr>dec_r := (dec_r d)\<lparr>is_data := is_data (dec_r d) @ bs\<rparr>\<rparr>)"
| set_max: "dec_step d (SetMaxFrameSize n d)"

section \<open>Lemmas\<close>

definition readable :: "istream \<Rightarrow> bool" where
  "readable s \<longleftrightarrow> \<not> badbit s \<and> (failbit s \<longrightarrow> eofbit s)"

lemma ReadFull_full:
  assumes "readable s" "n \<le> length (is_data s)"
  shows "\<exists>s'. ReadFull n s = (kFull, take n (is_data s), s') \<and> readable s' \<and>
    is_data s' = drop n (is_data s) \<and> is_broken s' = is_broken s"
  using assms by (auto simp: ReadFull_def istream_read_def readable_def Let_def)

lemma ReadFull_short:
  assumes "readable s" "length (is_data s) < n" "\<not> is_broken s"
  shows "\<exists>s'. ReadFull n s = (kEOF, is_data s, s') \<and> readable s' \<and> is_data s' = [] \<and> \<not> is_broken s'"
  using assms by (auto simp: ReadFull_def istream_read_def readable_def Let_def)

lemma high_bit_less: "(b :: byte) AND 0x80 = 0 \<longleftrightarrow> b < 0x80"
  by (simp add: high_bit word_less_nat_alt)

lemma low_bits: "(b :: byte) < 0x80 \<Longrightarrow> b AND 0x7f = b"
proof -
  assume "b < 0x80"
  then have "unat b mod 128 = unat b" by (simp add: word_less_nat_alt)
  then have "unat (b AND 0x7f) = unat b" by (simp add: word_nat)
  then show ?thesis by (simp only: word_unat_eq_iff)
qed

text \<open>Reading byte by byte from a stream gives what \<open>ConsumeVarint\<close> gives on its bytes.\<close>

lemma ReadUvarint_loop_Consume:
  assumes "readable r" "\<not> is_broken r" "fuel + i = 10"
  shows "case ConsumeVarint_loop (is_data r) i x of
      Some (v, n) \<Rightarrow> \<exists>r'. ReadUvarint_loop fuel i x r = (VOk v, r') \<and> is_data r' = drop (n - i) (is_data r) \<and>
        readable r' \<and> \<not> is_broken r'
    | None \<Rightarrow> \<exists>e r'. ReadUvarint_loop fuel i x r = (e, r') \<and> e \<in> {VOverflow, VEOF, VUnexpectedEOF}"
  using assms
proof (induction fuel arbitrary: i x r)
  case 0
  then show ?case by (cases "is_data r") simp_all
next
  case (Suc fuel)
  show ?case
  proof (cases "is_data r")
    case Nil
    with Suc.prems obtain s' where "ReadFull 1 r = (kEOF, [], s')"
      using ReadFull_short [of r 1] by auto
    with Nil show ?thesis by simp
  next
    case (Cons b bs)
    with Suc.prems obtain s' where s': "ReadFull 1 r = (kFull, [b], s')" "readable s'" "is_data s' = bs" "\<not> is_broken s'"
      using ReadFull_full [of r 1] by auto
    have i: "i < 10" "i = 9 \<longleftrightarrow> fuel = 0" using Suc.prems by auto
    have i7: "i * 7 = 7 * i" by simp
    show ?thesis
    proof (cases "b < 0x80")
      case True
      with s' i Cons show ?thesis by (auto simp: high_bit_less low_bits i7)
    next
      case False
      then have "1 < b" by (simp add: word_less_nat_alt not_less word_le_nat_alt)
      then show ?thesis
        using False s' i Cons Suc.IH [of s' "Suc i" "x OR push_bit (7 * i) (ucast (b AND 0x7f))"] Suc.prems
        by (auto simp: high_bit_less i7 Suc_diff_Suc drop_Cons' dest: ConsumeVarint_loop_pos split: option.splits)
    qed
  qed
qed

lemma ReadUvarint_Consume:
  assumes "readable r" "\<not> is_broken r" "ConsumeVarint (is_data r) = Some (v, n)"
  shows "\<exists>r'. ReadUvarint r = (VOk v, r') \<and> is_data r' = drop n (is_data r) \<and> readable r' \<and> \<not> is_broken r'"
  using ReadUvarint_loop_Consume [OF assms(1,2), of 10 0 0] assms(3) by (simp add: ReadUvarint_def ConsumeVarint_def)

lemma WriteFrame_ok:
  assumes "\<not> os_bad w" "length (AppendBytes [] body) \<le> os_room w"
  shows "WriteFrame body w = ([], w\<lparr>os_data := os_data w @ AppendBytes [] body,
           os_room := os_room w - length (AppendBytes [] body)\<rparr>)"
  using assms by (cases "body = []") (simp_all add: WriteFrame_def ostream_write_def AppendBytes_def Let_def)

text \<open>A decoder that is not stuck, over a stream that ends where its bytes stop.\<close>

definition live :: "Decoder \<Rightarrow> bool" where
  "live d \<longleftrightarrow> dec_err d = [] \<and> readable (dec_r d) \<and> \<not> is_broken (dec_r d) \<and> 0 \<le> dec_max d \<and> dec_max d < 2 ^ 63"

lemma of_int_less_of_nat:
  assumes "0 \<le> m" "m < 2 ^ 63" "int n \<le> m"
  shows "\<not> of_int m < (of_nat n :: u64)" "unat (of_nat n :: u64) = n"
proof -
  have m: "m = int (nat m)" "nat m < 2 ^ 63" using assms by auto
  have "unat (of_nat (nat m) :: u64) = nat m" using m(2) by (simp add: word_nat)
  then have "unat (of_int m :: u64) = nat m" using m(1) by (metis of_int_of_nat_eq)
  moreover show u: "unat (of_nat n :: u64) = n" using assms by (simp add: word_nat)
  ultimately show "\<not> of_int m < (of_nat n :: u64)" using assms(3) m(1) by (simp add: word_less_nat_alt)
qed

lemma ReadFrame_frame:
  assumes "live d" "is_data (dec_r d) = AppendBytes [] body @ rest" "int (length body) \<le> dec_max d"
  shows "\<exists>r'. ReadFrame d = ([], d\<lparr>dec_r := r', dec_buf := body\<rparr>) \<and> is_data r' = rest \<and> live (d\<lparr>dec_r := r', dec_buf := body\<rparr>)"
proof -
  let ?n = "of_nat (length body) :: u64"
  have d: "0 \<le> dec_max d" "dec_max d < 2 ^ 63" "dec_err d = []" using assms(1) by (simp_all add: live_def)
  have "ConsumeVarint (is_data (dec_r d)) = Some (?n, length (AppendVarint [] ?n))"
    using assms(2) ConsumeVarint_AppendVarint [of ?n "body @ rest"] by (simp add: AppendBytes_def)
  from ReadUvarint_Consume [OF _ _ this] obtain r1 where r1: "ReadUvarint (dec_r d) = (VOk ?n, r1)"
    "is_data r1 = body @ rest" "readable r1" "\<not> is_broken r1"
    using assms(1,2) by (auto simp: live_def AppendBytes_def)
  from ReadFull_full [OF r1(3), of "length body"] r1(2,4) obtain r2 where
    "ReadFull (length body) r1 = (kFull, body, r2)" "readable r2" "is_data r2 = rest" "\<not> is_broken r2" by auto
  with r1 d of_int_less_of_nat [OF d(1,2) assms(3)] show ?thesis
    by (auto simp: ReadFrame_def live_def)
qed

lemma ReadFrame_eof:
  assumes "live d" "is_data (dec_r d) = []"
  shows "\<exists>r'. ReadFrame d = (kErrEOF, d\<lparr>dec_r := r'\<rparr>) \<and> is_data r' = [] \<and> live (d\<lparr>dec_r := r'\<rparr>)"
proof -
  from ReadFull_short [of "dec_r d" 1] assms obtain r' where
    r: "ReadFull 1 (dec_r d) = (kEOF, [], r')" "readable r'" "is_data r' = []" "\<not> is_broken r'" by (auto simp: live_def)
  have "ReadUvarint (dec_r d) = (VEOF, r')"
    using r(1) ReadUvarint_loop.simps(2) [of 9 0 0 "dec_r d"] by (simp add: ReadUvarint_def)
  with r assms show ?thesis by (auto simp: ReadFrame_def live_def)
qed

lemma leb_shape_high: "leb_shape xs \<Longrightarrow> k < length xs \<Longrightarrow> \<forall>b\<in>set (take k xs). 0x80 \<le> b"
proof (induction xs arbitrary: k rule: leb_shape.induct)
  case (3 b c bs)
  then show ?case by (cases k) (auto simp: word_le_nat_alt)
qed simp_all

lemma ReadUvarint_loop_high:
  assumes "readable r" "\<not> is_broken r" "\<forall>b\<in>set (is_data r). 0x80 \<le> b" "length (is_data r) < fuel" "0 < i + length (is_data r)"
  shows "fst (ReadUvarint_loop fuel i x r) = VUnexpectedEOF"
  using assms
proof (induction fuel arbitrary: i x r)
  case (Suc fuel)
  show ?case
  proof (cases "is_data r")
    case Nil
    with Suc.prems ReadFull_short [of r 1] show ?thesis by auto
  next
    case (Cons b bs)
    with Suc.prems obtain s' where "ReadFull 1 r = (kFull, [b], s')" "readable s'" "is_data s' = bs" "\<not> is_broken s'"
      using ReadFull_full [of r 1] by auto
    with Suc.IH [of s'] Suc.prems Cons show ?thesis by (auto simp: not_less)
  qed
qed simp

lemma ReadFrame_truncated:
  assumes "live d" "is_data (dec_r d) = take k (AppendBytes [] body)" "0 < k" "k < length (AppendBytes [] body)"
    and "int (length body) \<le> dec_max d"
  shows "fst (ReadFrame d) = kErrUnexpectedEOF \<and> dec_err (snd (ReadFrame d)) = kErrUnexpectedEOF"
proof -
  let ?n = "of_nat (length body) :: u64"
  let ?h = "AppendVarint [] ?n"
  have d: "0 \<le> dec_max d" "dec_max d < 2 ^ 63" "dec_err d = []" "readable (dec_r d)" "\<not> is_broken (dec_r d)"
    using assms(1) by (simp_all add: live_def)
  show ?thesis
  proof (cases "k < length ?h")
    case True
    then have dt: "is_data (dec_r d) = take k ?h" using assms(2) by (simp add: AppendBytes_def)
    have "fst (ReadUvarint (dec_r d)) = VUnexpectedEOF" unfolding ReadUvarint_def
      using d AppendVarint_leb [of ?n] AppendVarint_len(2) [of ?n] True assms(3)
      by (intro ReadUvarint_loop_high) (auto simp: dt dest: leb_shape_high)
    with d(3) show ?thesis by (cases "ReadUvarint (dec_r d)") (simp add: ReadFrame_def stick_def)
  next
    case False
    then have dt: "is_data (dec_r d) = ?h @ take (k - length ?h) body" using assms(2) by (simp add: AppendBytes_def)
    from ReadUvarint_Consume [OF d(4,5)] dt obtain r1 where r1: "ReadUvarint (dec_r d) = (VOk ?n, r1)"
      "is_data r1 = take (k - length ?h) body" "readable r1" "\<not> is_broken r1" by fastforce
    have "length (is_data r1) < length body" using r1(2) assms(4) False by (simp add: AppendBytes_def)
    from ReadFull_short [OF r1(3) this r1(4)] r1 d of_int_less_of_nat [OF d(1,2) assms(5)] show ?thesis
      by (auto simp: ReadFrame_def stick_def)
  qed
qed

lemma write_frames_data:
  assumes "\<not> os_bad w" "length (concat (map (AppendBytes []) bodies)) \<le> os_room w"
  shows "os_data (write_frames bodies w) = os_data w @ concat (map (AppendBytes []) bodies) \<and> \<not> os_bad (write_frames bodies w)"
  using assms
proof (induction bodies arbitrary: w)
  case (Cons b bs)
  then have "WriteFrame b w = ([], w\<lparr>os_data := os_data w @ AppendBytes [] b, os_room := os_room w - length (AppendBytes [] b)\<rparr>)"
    by (intro WriteFrame_ok) auto
  with Cons show ?case by simp
qed simp

lemma read_frames_all:
  assumes "live d" "is_data (dec_r d) = concat (map (AppendBytes []) bodies)" "\<forall>b\<in>set bodies. int (length b) \<le> dec_max d"
  shows "\<exists>d'. read_frames (Suc (length bodies)) d = (bodies, kErrEOF, d') \<and> live d'"
  using assms
proof (induction bodies arbitrary: d)
  case Nil
  with ReadFrame_eof [of d] show ?case by (auto simp: kErrEOF_def)
next
  case (Cons b bs)
  from ReadFrame_frame [of d b "concat (map (AppendBytes []) bs)"] Cons.prems obtain r' where
    r: "ReadFrame d = ([], d\<lparr>dec_r := r', dec_buf := b\<rparr>)" "is_data r' = concat (map (AppendBytes []) bs)"
      "live (d\<lparr>dec_r := r', dec_buf := b\<rparr>)" by auto
  with Cons.IH [of "d\<lparr>dec_r := r', dec_buf := b\<rparr>"] Cons.prems obtain d' where
    "read_frames (Suc (length bs)) (d\<lparr>dec_r := r', dec_buf := b\<rparr>) = (bs, kErrEOF, d')" "live d'" by auto
  with r(1) show ?case using read_frames.simps(2) [of "Suc (length bs)" d] by simp
qed

lemma ReadFrame_sticky: "dec_err d \<noteq> [] \<Longrightarrow> ReadFrame d = (dec_err d, d)"
  by (simp add: ReadFrame_def)

lemma Corrupt_is [simp]: "IsFramingCorrupt (Corrupt e)" "Corrupt e \<noteq> []"
  by (simp_all add: IsFramingCorrupt_def Corrupt_def kErrFramingCorrupt_def)

lemma ReadFrame_err:
  "dec_err (snd (ReadFrame d)) = dec_err d \<or>
   IsUnexpectedEOF (dec_err (snd (ReadFrame d))) \<or> dec_err (snd (ReadFrame d)) = kErrRead \<or>
   IsFramingCorrupt (dec_err (snd (ReadFrame d)))"
  by (simp add: ReadFrame_def stick_def IsUnexpectedEOF_def split: prod.split VarintEnd.split ReadEnd.split)

inductive_cases dec_stepE: "dec_step d d'"

lemma dec_steps_sticky:
  assumes "dec_step\<^sup>*\<^sup>* d d'" "dec_err d \<noteq> []"
  shows "dec_err d' = dec_err d"
  using assms
  by (induction rule: rtranclp_induct) (auto elim!: dec_stepE simp: ReadFrame_sticky SetMaxFrameSize_def)

definition err_kind :: "string \<Rightarrow> bool" where
  "err_kind e \<longleftrightarrow> e = [] \<or> IsUnexpectedEOF e \<or> e = kErrRead \<or> IsFramingCorrupt e"

lemma dec_steps_kind:
  assumes "dec_step\<^sup>*\<^sup>* d d'" "dec_err d = []"
  shows "err_kind (dec_err d')"
  using assms(1)
proof (induction rule: rtranclp_induct)
  case base
  with assms(2) show ?case by (simp add: err_kind_def)
next
  case (step d1 d2)
  then show ?case using ReadFrame_err [of d1]
    by (auto elim!: dec_stepE simp: err_kind_def SetMaxFrameSize_def)
qed

lemma Decode_frame:
  assumes "live d" "is_data (dec_r d) = AppendBytes [] body @ rest" "int (length body) \<le> dec_max d"
  shows "\<exists>d'. Decode env opts validator s vs d = (fst (Unmarshal env opts validator body s vs), d') \<and>
    is_data (dec_r d') = rest \<and> live d' \<and> dec_max d' = dec_max d"
  using ReadFrame_frame [OF assms] by (auto simp: Decode_def)

lemma encode_all_data:
  assumes "\<not> os_bad w" "map (Marshal env n s) vss = map Inr bodies"
    and "length (concat (map (AppendBytes []) bodies)) \<le> os_room w"
  shows "\<exists>w'. encode_all env n s vss w = ([], w') \<and> os_data w' = os_data w @ concat (map (AppendBytes []) bodies)"
  using assms
proof (induction vss arbitrary: bodies w)
  case (Cons vs vss)
  then obtain b bs where bodies: "bodies = b # bs" "Marshal env n s vs = Inr b" "map (Marshal env n s) vss = map Inr bs"
    by (cases bodies) auto
  let ?w = "w\<lparr>os_data := os_data w @ AppendBytes [] b, os_room := os_room w - length (AppendBytes [] b)\<rparr>"
  have "WriteFrame b w = ([], ?w)" using Cons.prems bodies(1) by (intro WriteFrame_ok) auto
  with Cons.IH [of ?w bs] Cons.prems bodies show ?case by (auto simp: Encode_def)
qed simp

lemma decode_all_frames:
  assumes "env_ok env" "map (Marshal env n s) vss = map Inr bodies" "live d"
    and "is_data (dec_r d) = concat (map (AppendBytes []) bodies)"
    and "\<forall>b\<in>set bodies. int (length b) \<le> dec_max d \<and> length b \<le> kMaxMessageSize"
    and opts: "opts = \<lparr>o_max_message_size = 0, o_max_nesting_depth = n, o_max_numeric_literal_digits = 0,
           o_max_big_float_exponent = 0, o_max_repeated_count = 0\<rparr>"
    and "\<forall>vs\<in>set vss. val_ok env (ResolveLimits opts) (VStruct s vs)"
  shows "\<exists>d'. decode_all env opts s (length vss) d = (Inr vss, d')"
  using assms(2-5,7)
proof (induction vss arbitrary: bodies d)
  case (Cons vs vss)
  then obtain b bs where bodies: "bodies = b # bs" "Marshal env n s vs = Inr b" "map (Marshal env n s) vss = map Inr bs"
    by (cases bodies) auto
  from Decode_frame [of d b "concat (map (AppendBytes []) bs)" env opts None s "map fd_init (protowire_fields env s)"]
    Unmarshal_Marshal [OF assms(1) bodies(2) _ opts] Cons.prems bodies(1)
  obtain d1 where "Decode env opts None s (map fd_init (protowire_fields env s)) d = (Inr vs, d1)"
    "is_data (dec_r d1) = concat (map (AppendBytes []) bs)" "live d1" "dec_max d1 = dec_max d" by auto
  with Cons.IH [of bs d1] Cons.prems bodies show ?case by auto
qed simp

section \<open>Properties\<close>

text \<open>A varint read byte by byte from a stream is the one \<open>ConsumeVarint\<close> reads from the bytes, and the
  stream is left right after it; where \<open>ConsumeVarint\<close> fails, \<open>ReadUvarint\<close> returns no value.\<close>

theorem stream_varint_agrees:
  assumes "readable r" "\<not> is_broken r"
  shows "case ConsumeVarint (is_data r) of
      Some (v, n) \<Rightarrow> fst (ReadUvarint r) = VOk v \<and> is_data (snd (ReadUvarint r)) = drop n (is_data r)
    | None \<Rightarrow> fst (ReadUvarint r) \<in> {VOverflow, VEOF, VUnexpectedEOF}"
  using ReadUvarint_loop_Consume [OF assms, of 10 0 0]
  by (auto simp: ReadUvarint_def ConsumeVarint_def split: option.splits)

theorem stream_varint_agrees_witness:
  "fst (ReadUvarint \<lparr>is_data = [0x96, 0x01, 7], is_broken = False, eofbit = False, failbit = False, badbit = False\<rparr>) = VOk 150"
proof -
  have "ConsumeVarint [0x96, 0x01, 7] = Some (150, 2)" by code_simp
  then show ?thesis
    using stream_varint_agrees [of "\<lparr>is_data = [0x96, 0x01, 7], is_broken = False, eofbit = False, failbit = False, badbit = False\<rparr>"]
    by (simp add: readable_def)
qed

text \<open>C12. The structs an \<open>Encoder\<close> writes to a stream with room for them are the structs a \<open>Decoder\<close> reads from it, in order.
  Each struct is in normal form, its members start as zero, the limits are the defaults, and no frame is longer than the 16 MiB
  a decoder accepts by default.\<close>

theorem message_stream_roundtrip:
  assumes "env_ok env" "map (Marshal env n s) vss = map Inr bodies" "\<forall>vs\<in>set vss. val_ok env (ResolveLimits opts) (VStruct s vs)"
    and "opts = \<lparr>o_max_message_size = 0, o_max_nesting_depth = n, o_max_numeric_literal_digits = 0,
           o_max_big_float_exponent = 0, o_max_repeated_count = 0\<rparr>"
    and "w = \<lparr>os_data = [], os_room = room, os_bad = False\<rparr>" "length (concat (map (AppendBytes []) bodies)) \<le> room"
    and "\<forall>b\<in>set bodies. int (length b) \<le> kDefaultMaxFrameSize"
    and "d = \<lparr>dec_r = \<lparr>is_data = os_data (snd (encode_all env n s vss w)), is_broken = False, eofbit = False, failbit = False, badbit = False\<rparr>,
               dec_buf = [], dec_max = kDefaultMaxFrameSize, dec_err = []\<rparr>"
  shows "fst (encode_all env n s vss w) = [] \<and> fst (decode_all env opts s (length vss) d) = Inr vss"
proof -
  from encode_all_data [OF _ assms(2), of w] assms(5,6) obtain w' where
    w': "encode_all env n s vss w = ([], w')" "os_data w' = concat (map (AppendBytes []) bodies)" by auto
  have "\<forall>b\<in>set bodies. int (length b) \<le> dec_max d \<and> length b \<le> kMaxMessageSize"
    using assms(7,8) by (auto simp: kDefaultMaxFrameSize_def kMaxMessageSize_def)
  moreover have "live d" using assms(8) by (simp add: live_def readable_def kDefaultMaxFrameSize_def)
  ultimately obtain d' where "decode_all env opts s (length vss) d = (Inr vss, d')"
    using decode_all_frames [OF assms(1,2) _ _ _ assms(4,3), of d] assms(8) w' by auto
  with w' show ?thesis by simp
qed

theorem message_stream_roundtrip_witness:
  "fst (decode_all node_env \<lparr>o_max_message_size = 0, o_max_nesting_depth = 2, o_max_numeric_literal_digits = 0,
       o_max_big_float_exponent = 0, o_max_repeated_count = 0\<rparr> ''Node'' 1
     \<lparr>dec_r = \<lparr>is_data = [2, 8, 3], is_broken = False, eofbit = False, failbit = False, badbit = False\<rparr>,
      dec_buf = [], dec_max = kDefaultMaxFrameSize, dec_err = []\<rparr>) =
   Inr [[VInt 32 (- 2), VPtr (StructT ''Node'') None, VMap BoolT BoolT [], VVector (UIntT 32) []]]"
proof -
  let ?vs = "[VInt 32 (- 2), VPtr (StructT ''Node'') None, VMap BoolT BoolT [], VVector (UIntT 32) []]"
  let ?w = "\<lparr>os_data = [], os_room = 9, os_bad = False\<rparr> :: ostream"
  have e: "env_ok node_env" by code_simp
  have m: "map (Marshal node_env 2 ''Node'') [?vs] = map Inr [[8, 3]]" by code_simp
  have o: "os_data (snd (encode_all node_env 2 ''Node'' [?vs] ?w)) = [2, 8, 3]" by code_simp
  have l: "length (concat (map (AppendBytes []) [[8, 3]])) \<le> 9" by code_simp
  show ?thesis
    using message_stream_roundtrip [OF e m _ refl refl l _ refl] o
    by (simp add: node_env_def protowire_fields_def plain_zero_def IsSingular_def kDefaultMaxFrameSize_def
        IsZeroValue_def ResolveLimits_def pick_limit_def kMaxRepeatedCount_def kMaxMessageSize_def)
qed

text \<open>Frames written one after another are read back in order, and the read after the last one reports
  the end of the stream and leaves the decoder usable.\<close>

theorem frames_roundtrip:
  assumes "w = \<lparr>os_data = [], os_room = room, os_bad = False\<rparr>" "length (concat (map (AppendBytes []) bodies)) \<le> room"
    and "live d" "is_data (dec_r d) = os_data (write_frames bodies w)" "\<forall>b\<in>set bodies. int (length b) \<le> dec_max d"
  shows "\<exists>d' st. read_frames (length bodies + 1) d = (bodies, st, d') \<and> IsEOF st \<and> live d'"
proof -
  have "is_data (dec_r d) = concat (map (AppendBytes []) bodies)"
    using assms(1,2,4) write_frames_data [of w bodies] by simp
  from read_frames_all [OF assms(3) this assms(5)] show ?thesis by (auto simp: IsEOF_def)
qed

theorem frames_roundtrip_witness:
  "\<exists>d' st. read_frames 3 \<lparr>dec_r = \<lparr>is_data = [2, 5, 6, 0], is_broken = False, eofbit = False, failbit = False, badbit = False\<rparr>,
      dec_buf = [], dec_max = 8, dec_err = []\<rparr> = ([[5, 6], []], st, d') \<and> IsEOF st \<and> live d'"
proof -
  have "os_data (write_frames [[5, 6], []] \<lparr>os_data = [], os_room = 9, os_bad = False\<rparr>) = [2, 5, 6, 0]" by code_simp
  moreover have "length (concat (map (AppendBytes []) [[5, 6], []])) \<le> 9" by code_simp
  ultimately show ?thesis
    using frames_roundtrip [OF refl, of "[[5, 6], []]" 9 "\<lparr>dec_r = \<lparr>is_data = [2, 5, 6, 0], is_broken = False, eofbit = False, failbit = False, badbit = False\<rparr>,
      dec_buf = [], dec_max = 8, dec_err = []\<rparr>"]
    by (simp add: live_def readable_def numeral_3_eq_3)
qed

text \<open>C13. A stream that ends inside a frame of a size the decoder accepts, whether in its length or in its body, is reported as an
  unexpected end and never as the end of the stream or as a message, and the error sticks.\<close>

theorem truncated_frame_refused:
  assumes "live d" "is_data (dec_r d) = take k (AppendBytes [] body)" "0 < k" "k < length (AppendBytes [] body)"
    and "int (length body) \<le> dec_max d"
  shows "IsUnexpectedEOF (fst (ReadFrame d)) \<and> \<not> IsEOF (fst (ReadFrame d)) \<and>
    IsUnexpectedEOF (fst (ReadFrame (snd (ReadFrame d))))"
  using ReadFrame_truncated [OF assms] ReadFrame_sticky [of "snd (ReadFrame d)"]
  by (simp add: IsUnexpectedEOF_def IsEOF_def kErrUnexpectedEOF_def kErrEOF_def)

theorem truncated_frame_refused_witness:
  "IsUnexpectedEOF (fst (ReadFrame \<lparr>dec_r = \<lparr>is_data = [3, 1, 2], is_broken = False, eofbit = False, failbit = False, badbit = False\<rparr>,
      dec_buf = [], dec_max = 8, dec_err = []\<rparr>))"
proof -
  have "take 3 (AppendBytes [] [1, 2, 9]) = [3, 1, 2]" "(3 :: nat) < length (AppendBytes [] [1, 2, 9])" by code_simp+
  then show ?thesis
    using truncated_frame_refused [of "\<lparr>dec_r = \<lparr>is_data = [3, 1, 2], is_broken = False, eofbit = False, failbit = False, badbit = False\<rparr>,
      dec_buf = [], dec_max = 8, dec_err = []\<rparr>" 3 "[1, 2, 9]"]
    by (simp add: live_def readable_def)
qed

text \<open>C14. In every run of a decoder, whatever arrives on the stream and whatever maximum is set meanwhile,
  the error it holds is none, an unexpected end, a failed read or a framing error, never the plain
  end of the stream; and once it holds one, every later read returns it and changes nothing.\<close>

theorem decoder_errors_stick:
  assumes "dec_step\<^sup>*\<^sup>* d d'" "dec_err d = []"
  shows "(dec_err d' = [] \<or> IsUnexpectedEOF (dec_err d') \<or> dec_err d' = kErrRead \<or> IsFramingCorrupt (dec_err d')) \<and>
    (dec_err d' \<noteq> [] \<longrightarrow> (\<forall>d''. dec_step\<^sup>*\<^sup>* d' d'' \<longrightarrow> ReadFrame d'' = (dec_err d', d'')))"
  using dec_steps_kind [OF assms] dec_steps_sticky ReadFrame_sticky by (simp add: err_kind_def)

theorem decoder_errors_stick_witness:
  "\<exists>d'. dec_step\<^sup>*\<^sup>* \<lparr>dec_r = \<lparr>is_data = [9], is_broken = False, eofbit = False, failbit = False, badbit = False\<rparr>,
        dec_buf = [], dec_max = 8, dec_err = []\<rparr> d' \<and>
     ReadFrame d' = (''pb: stream framing corrupt: frame size 9 exceeds max 8'', d')"
proof -
  let ?d = "\<lparr>dec_r = \<lparr>is_data = [9], is_broken = False, eofbit = False, failbit = False, badbit = False\<rparr>,
        dec_buf = [], dec_max = 8, dec_err = []\<rparr>"
  have s: "dec_step\<^sup>*\<^sup>* ?d (snd (ReadFrame ?d))" by (rule r_into_rtranclp) (rule dec_step.read)
  have e: "dec_err (snd (ReadFrame ?d)) = ''pb: stream framing corrupt: frame size 9 exceeds max 8''" by code_simp
  show ?thesis using decoder_errors_stick [OF s] s e by auto
qed

end
