(* ===== verification/PbInvariant.thy ===== *)
theory PbInvariant
  imports PbCodec
begin

text \<open>
  What every decode keeps, whatever the bytes are: the types of the members, valid UTF-8 in
  strings, the ranges of the integers, the order of map keys and the bound on element counts.
\<close>

fun wt :: "senv \<Rightarrow> Limits \<Rightarrow> val \<Rightarrow> bool" where
  "wt env lim (VInt w i) = (- (2 ^ (w - 1)) \<le> i \<and> i < 2 ^ (w - 1))"
| "wt env lim (VUInt w n) = (n < 2 ^ w)"
| "wt env lim (VString s) = IsValidUTF8 s"
| "wt env lim (VStruct s vs) =
     (map type_of vs = map (\<lambda>f. type_of (fd_init f)) (protowire_fields env s) \<and> (\<forall>v\<in>set vs. wt env lim v))"
| "wt env lim (VVector t xs) =
     (length xs \<le> max_repeated lim \<and> (\<forall>x\<in>set xs. type_of x = t \<and> wt env lim x))"
| "wt env lim (VOptional t p) = (case p of None \<Rightarrow> True | Some x \<Rightarrow> type_of x = t \<and> wt env lim x)"
| "wt env lim (VPtr t p) = (case p of None \<Rightarrow> True | Some x \<Rightarrow> type_of x = t \<and> wt env lim x)"
| "wt env lim (VMap kt vt m) =
     (length m \<le> max_repeated lim \<and> sorted_wrt (\<lambda>a b. key_less (fst a) (fst b)) m \<and>
      (\<forall>e\<in>set m. type_of (fst e) = kt \<and> type_of (snd e) = vt \<and> wt env lim (fst e) \<and> wt env lim (snd e)))"
| "wt env lim _ = True"

definition inits_ok :: "senv \<Rightarrow> Limits \<Rightarrow> bool" where
  "inits_ok env lim \<longleftrightarrow> list_all (\<lambda>(s, fs). list_all (\<lambda>f. wt env lim (fd_init f)) fs) env \<and> max_repeated lim < 2 ^ 31"

lemma inits_ok_field: "inits_ok env lim \<Longrightarrow> f \<in> set (protowire_fields env s) \<Longrightarrow> wt env lim (fd_init f)"
  using map_of_SomeD [of env s]
  by (cases "map_of env s"; fastforce simp: inits_ok_def protowire_fields_def list_all_iff)+

lemma wt_zero_of [simp]: "inits_ok env lim \<Longrightarrow> wt env lim (zero_of env t)"
  by (cases t) (auto simp: inits_ok_field IsValidUTF8.simps)

lemma type_of_zero [simp]: "type_of (zero_of env t) = t"
  by (cases t) simp_all

lemma lex_less_trans: "lex_less a b \<Longrightarrow> lex_less b c \<Longrightarrow> lex_less a c"
proof (induction a c arbitrary: b rule: lex_less.induct)
  case (1 a)
  then show ?case by (cases b) simp_all
next
  case (3 a as c cs)
  then show ?case by (cases b) auto
qed simp

lemma key_less_trans: "key_less a b \<Longrightarrow> key_less b c \<Longrightarrow> key_less a c"
  by (auto simp: key_less_def intro: lex_less_trans split: val.splits)

lemma insert_or_assign_mem:
  "e \<in> set (insert_or_assign k x m) \<Longrightarrow>
   (fst e = k \<or> (\<exists>f\<in>set m. fst e = fst f)) \<and> (snd e = x \<or> (\<exists>f\<in>set m. snd e = snd f))"
proof (induction m)
  case (Cons f m)
  then show ?case by (cases f) (fastforce split: if_splits)
qed simp

lemma insert_or_assign_sorted:
  assumes "sorted_wrt (\<lambda>a b. key_less (fst a) (fst b)) m"
  shows "sorted_wrt (\<lambda>a b. key_less (fst a) (fst b)) (insert_or_assign k x m)"
  using assms
proof (induction m)
  case (Cons e m)
  have "key_less (fst e) (fst g)" if "key_less (fst e) k" "g \<in> set (insert_or_assign k x m)" for g
    using insert_or_assign_mem [OF that(2)] that(1) Cons.prems by auto
  with Cons show ?case
    by (cases e) (auto intro: key_less_trans)
qed simp

lemma insert_or_assign_length:
  assumes "sorted_wrt (\<lambda>a b. key_less (fst a) (fst b)) m"
  shows "length (insert_or_assign k x m) = (if map_find k m then length m else Suc (length m))"
  using assms
proof (induction m)
  case (Cons e m)
  have "\<not> map_find k m" if "key_less k (fst e)"
    using that Cons.prems key_less_trans [OF that] by (fastforce simp: map_find_def list_ex_iff)
  with Cons show ?case
    by (cases e) (auto simp: map_find_def)
qed (simp add: map_find_def)

lemma UnmarshalNumber_wt:
  "UnmarshalNumber data v zz = Inr (x, n) \<Longrightarrow> type_of x = type_of v \<and> wt env lim x"
  by (cases v) (auto simp: UnmarshalNumber_def split: option.splits)

lemma not_at_limit: "\<not> at_repeated_limit lim n \<Longrightarrow> n \<le> max_repeated lim \<Longrightarrow> max_repeated lim < 2 ^ 31 \<Longrightarrow> n < max_repeated lim"
  by (simp add: at_repeated_limit_def)

lemma UnmarshalPacked_wt:
  "UnmarshalPacked env lim t zz payload xs = Inr ys \<Longrightarrow> inits_ok env lim \<Longrightarrow> wt env lim (VVector t xs) \<Longrightarrow> wt env lim (VVector t ys)"
proof (induction env lim t zz payload xs rule: UnmarshalPacked.induct)
  case (1 env lim t zz payload xs)
  show ?case
  proof (cases "payload = []")
    case True
    with 1 show ?thesis by (simp add: UnmarshalPacked.simps)
  next
    case False
    with 1(2) obtain tmp n where u: "UnmarshalNumber payload (zero_of env t) zz = Inr (tmp, n)"
      and l: "\<not> at_repeated_limit lim (length xs)"
      and r: "UnmarshalPacked env lim t zz (drop n payload) (xs @ [tmp]) = Inr ys"
      by (auto simp: UnmarshalPacked.simps [of env lim t zz payload xs] split: sum.splits if_splits)
    from UnmarshalNumber_wt [OF u, of env lim] not_at_limit [OF l] 1(3,4)
    have "wt env lim (VVector t (xs @ [tmp]))" by (auto simp: inits_ok_def)
    from 1(1) [OF False u refl l r 1(3) this] show ?thesis .
  qed
qed

lemma with_bytes_Inr:
  assumes "with_bytes err data f = Inr (x, n)"
  obtains b where "f b = Inr x" "ConsumeBytes data = Some (b, n)"
  using assms by (auto simp: with_bytes_def split: option.splits sum.splits)

lemma map_val_Inr: "map_val f r = Inr y \<longleftrightarrow> (\<exists>x. r = Inr x \<and> y = f x)"
  by (auto simp: map_val_def split: sum.splits)

lemma insert_or_assign_wt:
  assumes "wt env lim (VMap kt vt m)" "wt env lim k" "wt env lim x" "type_of k = kt" "type_of x = vt"
    and "map_find k m \<or> \<not> at_repeated_limit lim (length m)" "max_repeated lim < 2 ^ 31"
  shows "wt env lim (VMap kt vt (insert_or_assign k x m))"
proof -
  have "length (insert_or_assign k x m) \<le> max_repeated lim"
    using assms(1,6,7) insert_or_assign_length [of m k x] not_at_limit [of lim "length m"] by (auto split: if_splits)
  moreover have "type_of (fst e) = kt \<and> type_of (snd e) = vt \<and> wt env lim (fst e) \<and> wt env lim (snd e)"
    if "e \<in> set (insert_or_assign k x m)" for e
    using insert_or_assign_mem [OF that] assms(1-5) by (metis wt.simps(8))
  ultimately show ?thesis using assms(1) insert_or_assign_sorted by simp
qed

lemma wt_update:
  "wt env lim (VStruct s vs) \<Longrightarrow> i < length vs \<Longrightarrow> type_of x = type_of (vs ! i) \<Longrightarrow> wt env lim x \<Longrightarrow> wt env lim (VStruct s (vs[i := x]))"
proof -
  assume w: "wt env lim (VStruct s vs)" "i < length vs" "type_of x = type_of (vs ! i)" "wt env lim x"
  then have "map type_of (vs[i := x]) = map type_of vs" by (metis list_update_id map_update nth_map)
  with w set_update_subset_insert [of vs i x] show ?thesis by auto
qed

lemma find_field_less: "find_field num fs = Some i \<Longrightarrow> i < length fs"
  by (induction fs arbitrary: i) (auto split: if_splits)

lemma wt_length: "wt env lim (VStruct s vs) \<Longrightarrow> length vs = length (protowire_fields env s)"
  using map_eq_imp_length_eq by fastforce

lemma unmarshal_wt:
  "UnmarshalScalar env lim d data v zz = Inr (x, n) \<Longrightarrow> inits_ok env lim \<Longrightarrow> wt env lim v \<Longrightarrow>
     type_of x = type_of v \<and> wt env lim x"
  "UnmarshalField env lim d data t v zz = Inr (x, n) \<Longrightarrow> inits_ok env lim \<Longrightarrow> wt env lim v \<Longrightarrow>
     type_of x = type_of v \<and> wt env lim x"
  "UnmarshalEntry env lim d data k v zz = Inr (k', v') \<Longrightarrow> inits_ok env lim \<Longrightarrow> wt env lim k \<Longrightarrow> wt env lim v \<Longrightarrow>
     type_of k' = type_of k \<and> wt env lim k' \<and> type_of v' = type_of v \<and> wt env lim v'"
  "UnmarshalStruct env lim d data s vs = Inr vs' \<Longrightarrow> inits_ok env lim \<Longrightarrow> wt env lim (VStruct s vs) \<Longrightarrow> wt env lim (VStruct s vs')"
  "UnmarshalFields env lim d data s vs = Inr vs' \<Longrightarrow> inits_ok env lim \<Longrightarrow> wt env lim (VStruct s vs) \<Longrightarrow> wt env lim (VStruct s vs')"
proof (induction env lim d data v zz and env lim d data t v zz and env lim d data k v zz and env lim d data s vs
    and env lim d data s vs arbitrary: x n and x n and k' v' and vs' and vs'
    rule: UnmarshalScalar_UnmarshalField_UnmarshalEntry_UnmarshalStruct_UnmarshalFields.induct)
  case (1 env lim depth data v zigzag)
  show ?case
  proof (cases v)
    case (VStruct s vs)
    with 1(2) obtain b vs' where "UnmarshalStruct env lim (depth + 1) b s vs = Inr vs'" "ConsumeBytes data = Some (b, n)" "x = VStruct s vs'"
      by (auto simp: UnmarshalScalar.simps map_val_Inr elim!: with_bytes_Inr)
    with 1(1) [OF VStruct] 1(3,4) VStruct show ?thesis by auto
  qed (use 1(2) UnmarshalNumber_wt [of data v zigzag x n env lim] in
      \<open>auto simp: UnmarshalScalar.simps map_val_Inr elim!: with_bytes_Inr split: if_splits\<close>)
next
  case (4 env lim depth data s vs)
  then show ?case by (auto simp: UnmarshalStruct.simps split: if_splits)
next
  case (5 env lim depth data s vs)
  show ?case
  proof (cases "data = []")
    case True
    with 5(4,6) show ?thesis by (simp add: UnmarshalFields.simps)
  next
    case False
    with 5(4) obtain num type n where tag: "ConsumeTag data = Some ((num, type), n)"
      by (auto simp: UnmarshalFields.simps [of _ _ _ data] split: option.splits)
    show ?thesis
    proof (cases "find_field num (protowire_fields env s)")
      case None
      with 5(4) False tag obtain k where "ConsumeFieldValue (drop n data) num type = Some k"
        "UnmarshalFields env lim depth (drop k (drop n data)) s vs = Inr vs'"
        by (auto simp: UnmarshalFields.simps [of _ _ _ data] split: option.splits)
      with 5(1) [OF False tag refl refl None] 5(5,6) show ?thesis by blast
    next
      case (Some i)
      with 5(4) False tag obtain x c where
        u: "UnmarshalField env lim depth (drop n data) type (vs ! i) (fd_zigzag (protowire_fields env s ! i)) = Inr (x, c)"
        and r: "UnmarshalFields env lim depth (drop c (drop n data)) s (vs[i := x]) = Inr vs'"
        by (auto simp: UnmarshalFields.simps [of _ _ _ data] split: sum.splits)
      have i: "i < length vs" using find_field_less [OF Some] wt_length [OF 5(6)] by simp
      then have "wt env lim (vs ! i)" using 5(6) by simp
      with 5(2) [OF False tag refl refl Some u 5(5)] have "type_of x = type_of (vs ! i)" "wt env lim x" by simp_all
      with 5(3) [OF False tag refl refl Some u refl r 5(5)] wt_update [OF 5(6) i] show ?thesis by blast
    qed
  qed
next
  case (3 env lim depth data key x zigzag)
  show ?case
  proof (cases "data = []")
    case True
    with 3(6-) show ?thesis by (simp add: UnmarshalEntry.simps)
  next
    case False
    with 3(6) obtain num type n where tag: "ConsumeTag data = Some ((num, type), n)"
      by (auto simp: UnmarshalEntry.simps [of _ _ _ data] split: option.splits)
    note e = 3(6) [unfolded UnmarshalEntry.simps [of _ _ _ data]]
    consider "num = 1" | "num \<noteq> 1" "num = 2" | "num \<noteq> 1" "num \<noteq> 2" by blast
    then show ?thesis
    proof cases
      case 1
      with e False tag obtain y c where u: "UnmarshalField env lim depth (drop n data) type key zigzag = Inr (y, c)"
        and r: "UnmarshalEntry env lim depth (drop c (drop n data)) y x zigzag = Inr (k', v')"
        by (auto split: sum.splits)
      from 3(1) [OF False tag refl refl 1 u 3(7,8)] have "type_of y = type_of key" "wt env lim y" by simp_all
      with 3(2) [OF False tag refl refl 1 u refl r 3(7) _ 3(9)] show ?thesis by simp
    next
      case 2
      with e False tag obtain y c where u: "UnmarshalField env lim depth (drop n data) type x zigzag = Inr (y, c)"
        and r: "UnmarshalEntry env lim depth (drop c (drop n data)) key y zigzag = Inr (k', v')"
        by (auto split: sum.splits)
      from 3(3) [OF False tag refl refl 2 u 3(7,9)] have "type_of y = type_of x" "wt env lim y" by simp_all
      with 3(4) [OF False tag refl refl 2 u refl r 3(7,8)] show ?thesis by simp
    next
      case c: 3
      with e False tag obtain k where "ConsumeFieldValue (drop n data) num type = Some k"
        "UnmarshalEntry env lim depth (drop k (drop n data)) key x zigzag = Inr (k', v')"
        by (auto split: option.splits)
      from 3(5) [OF False tag refl refl c this 3(7-9)] show ?thesis .
    qed
  qed
next
  case (2 env lim depth data type v zigzag)
  show ?case
  proof (cases "IsSingular v")
    case True
    with 2(1) [OF True _ 2(7,8)] 2(6) show ?thesis by (simp add: UnmarshalField.simps)
  next
    case False
    note f = 2(6) [unfolded UnmarshalField.simps [of _ _ _ data]]
    show ?thesis
    proof (cases v)
      case (VVector t xs)
      show ?thesis
      proof (cases "IsPackable t \<and> type = kBytes")
        case True
        with f False VVector obtain b ys where "UnmarshalPacked env lim t zigzag b xs = Inr ys" "x = VVector t ys"
          by (auto simp: map_val_Inr elim!: with_bytes_Inr)
        with UnmarshalPacked_wt [OF this(1) 2(7)] 2(8) VVector show ?thesis by simp
      next
        case np: False
        with f False VVector obtain tmp where u: "UnmarshalScalar env lim depth data (zero_of env t) zigzag = Inr (tmp, n)"
          and l: "\<not> at_repeated_limit lim (length xs)" and x: "x = VVector t (xs @ [tmp])"
          by (auto split: sum.splits if_splits)
        from 2(2) [OF False VVector np u 2(7)] 2(7,8) x VVector not_at_limit [OF l]
        show ?thesis by (auto simp: inits_ok_def)
      qed
    next
      case (VOptional t p)
      with f False obtain y where u: "UnmarshalScalar env lim depth data (zero_of env t) zigzag = Inr (y, n)"
        and "x = VOptional t (Some y)" by (auto simp: map_val_Inr)
      with 2(3) [OF False VOptional u 2(7)] 2(7) VOptional show ?thesis by simp
    next
      case (VPtr t p)
      let ?u = "case p of None \<Rightarrow> zero_of env t | Some x \<Rightarrow> x"
      from VPtr f False obtain y where u: "UnmarshalScalar env lim depth data ?u zigzag = Inr (y, n)"
        and x: "x = VPtr t (Some y)" by (auto simp: map_val_Inr)
      have "type_of ?u = t" "wt env lim ?u" using 2(7,8) VPtr by (auto split: option.splits)
      with 2(4) [OF False VPtr u 2(7)] x VPtr show ?thesis by simp
    next
      case (VMap kt vt m)
      with f False obtain b k y where b: "ConsumeBytes data = Some (b, n)" "\<not> max_depth lim < depth + 1"
        and u: "UnmarshalEntry env lim (depth + 1) b (zero_of env kt) (zero_of env vt) zigzag = Inr (k, y)"
        and l: "map_find k m \<or> \<not> at_repeated_limit lim (length m)" and x: "x = VMap kt vt (insert_or_assign k y m)"
        by (auto elim!: with_bytes_Inr split: sum.splits if_splits)
      from 2(5) [OF False VMap b u 2(7)] 2(7)
      have "type_of k = kt" "wt env lim k" "type_of y = vt" "wt env lim y" by simp_all
      then have "wt env lim (VMap kt vt (insert_or_assign k y m))"
        using 2(7,8) VMap l by (intro insert_or_assign_wt) (simp_all add: inits_ok_def)
      with VMap x show ?thesis by simp
    qed (use False in \<open>simp_all add: IsSingular_def\<close>)
  qed
qed

section \<open>Properties\<close>

text \<open>C4. Whatever bytes are decoded into a struct whose members have their declared types, the members
  keep them, every string that results is valid UTF-8, every integer is in the range of its width,
  map keys are in strict order, and no list or map holds more than \<open>max_repeated\<close> elements.\<close>

theorem decode_keeps_types:
  assumes "inits_ok env (ResolveLimits opts)" "wt env (ResolveLimits opts) (VStruct s vs)"
    and "Unmarshal env opts validator data s vs = (Inr vs', report)"
  shows "wt env (ResolveLimits opts) (VStruct s vs')"
proof -
  from assms(3) have "UnmarshalStruct env (ResolveLimits opts) 0 data s vs = Inr vs'"
    by (auto simp: Unmarshal_def Let_def split: if_splits sum.splits prod.splits)
  from unmarshal_wt(4) [OF this assms(1,2)] show ?thesis .
qed

theorem decode_keeps_types_witness:
  "wt [(''P'', [\<lparr>fd_number = 1, fd_zigzag = False, fd_name = ''n'', fd_init = VInt 32 0\<rparr>])]
     (ResolveLimits \<lparr>o_max_message_size = 20, o_max_nesting_depth = 9, o_max_numeric_literal_digits = 9,
        o_max_big_float_exponent = 9, o_max_repeated_count = 9\<rparr>)
     (VStruct ''P'' [VInt 32 7])"
proof -
  let ?env = "[(''P'', [\<lparr>fd_number = 1, fd_zigzag = False, fd_name = ''n'', fd_init = VInt 32 0\<rparr>])]"
  let ?opts = "\<lparr>o_max_message_size = 20, o_max_nesting_depth = 9, o_max_numeric_literal_digits = 9,
        o_max_big_float_exponent = 9, o_max_repeated_count = 9\<rparr>"
  have u: "Unmarshal ?env ?opts None [8, 7] ''P'' [VInt 32 0] = (Inr [VInt 32 7], None)"
  proof -
    have "UnmarshalStruct ?env \<lparr>max_message_size = 20, max_depth = 9, max_digits = 9, max_big_float_exp = 9, max_repeated = 9\<rparr> 0
        [8, 7] ''P'' [VInt 32 0] = Inr [VInt 32 7]" by code_simp
    then show ?thesis by (simp add: Unmarshal_def ResolveLimits_def pick_limit_def ValidateStruct_def)
  qed
  show ?thesis
    using decode_keeps_types [OF _ _ u] by (simp add: inits_ok_def ResolveLimits_def pick_limit_def protowire_fields_def)
qed

end
