(* ===== verification/FloatConv.thy ===== *)
theory FloatConv
  imports BigMag
begin

text \<open>
  Conversion between \<open>float\<close> and \<open>double\<close>, on their IEEE 754 bits: the exact widening and the narrowing
  rounded to nearest, ties to even. A NaN becomes quiet and keeps the payload bits that fit.
\<close>

fun nbits :: "nat \<Rightarrow> nat" where
  "nbits n = (if n = 0 then 0 else Suc (nbits (n div 2)))"

declare nbits.simps [simp del]

definition quiet :: "nat \<Rightarrow> nat" where
  "quiet m = (if m < 2 ^ 22 then m + 2 ^ 22 else m)"

definition widen :: "u32 \<Rightarrow> u64" where
  "widen x =
     (let n = unat x; s = n div 2 ^ 31; e = n div 2 ^ 23 mod 2 ^ 8; m = n mod 2 ^ 23
      in of_nat (s * 2 ^ 63 +
           (if e = 255 then 2047 * 2 ^ 52 + (if m = 0 then 0 else quiet m * 2 ^ 29)
            else if e = 0 then
              if m = 0 then 0
              else (nbits m + 873) * 2 ^ 52 + (m - 2 ^ (nbits m - 1)) * 2 ^ (53 - nbits m)
            else (e + 896) * 2 ^ 52 + m * 2 ^ 29)))"

definition narrow_abs :: "nat \<Rightarrow> nat \<Rightarrow> nat" where
  "narrow_abs E M =
     (let sig = (if E = 0 then M else 2 ^ 52 + M);
          q = (if E = 0 then 1 else E);
          bits = (if 897 \<le> q then (q - 897) * 2 ^ 23 + round_half_even sig 29 else round_half_even sig (926 - q))
      in min bits (255 * 2 ^ 23))"

definition narrow :: "u64 \<Rightarrow> u32" where
  "narrow y =
     (let n = unat y; s = n div 2 ^ 63; E = n div 2 ^ 52 mod 2 ^ 11; M = n mod 2 ^ 52
      in of_nat (s * 2 ^ 31 +
           (if E = 2047 then 255 * 2 ^ 23 + (if M = 0 then 0 else quiet (M div 2 ^ 29)) else narrow_abs E M)))"

definition IsNaN32 :: "u32 \<Rightarrow> bool" where
  "IsNaN32 x \<longleftrightarrow> unat x div 2 ^ 23 mod 2 ^ 8 = 255 \<and> unat x mod 2 ^ 23 \<noteq> 0"

section \<open>Narrowing undoes widening\<close>

lemma nbits_bounds: "0 < n \<Longrightarrow> 0 < nbits n \<and> 2 ^ (nbits n - 1) \<le> n \<and> n < 2 ^ nbits n"
proof (induction n rule: nbits.induct)
  case (1 n)
  show ?case
  proof (cases "n div 2 = 0")
    case True
    with 1 have "n = 1" by simp
    then show ?thesis by (simp add: nbits.simps)
  next
    case False
    let ?k = "nbits (n div 2)"
    from 1(1) [OF _ ] 1(2) False have "0 < ?k" "2 ^ (?k - 1) \<le> n div 2" "n div 2 < 2 ^ ?k" by simp_all
    then have "2 * 2 ^ (?k - 1) \<le> n" "n < 2 * 2 ^ ?k" by linarith+
    moreover have "2 * 2 ^ (?k - 1) = (2::nat) ^ ?k" using \<open>0 < ?k\<close> by (metis power_minus_mult mult.commute)
    ultimately show ?thesis using 1(2) by (subst (1 2 3) nbits.simps) simp
  qed
qed

lemma nbits_le:
  assumes "0 < n" "n < 2 ^ k" shows "nbits n \<le> k"
proof (rule ccontr)
  assume "\<not> nbits n \<le> k"
  then have "(2::nat) ^ k \<le> 2 ^ (nbits n - 1)" by (intro power_increasing) auto
  with nbits_bounds [OF assms(1)] assms(2) show False by linarith
qed

lemma round_half_even_exact: "round_half_even (x * 2 ^ n) n = x"
  by (simp add: round_half_even_def)

text \<open>The fields of a number put together from a sign, an exponent and a fraction.\<close>

lemma unat_of_nat_small: "x < 2 ^ 64 \<Longrightarrow> unat (of_nat x :: u64) = x" "y < 2 ^ 32 \<Longrightarrow> unat (of_nat y :: u32) = y"
  by (simp_all only: unat_of_nat_word mod_less) simp_all

lemma fields64:
  assumes "s < 2" "E < 2 ^ 11" "M < 2 ^ 52"
  defines "n \<equiv> unat (of_nat (s * 2 ^ 63 + (E * 2 ^ 52 + M)) :: u64)"
  shows "n div 2 ^ 63 = s" "n div 2 ^ 52 mod 2 ^ 11 = E" "n mod 2 ^ 52 = M"
proof -
  have "s * 2 ^ 63 + (E * 2 ^ 52 + M) < 2 ^ 64" using assms(1-3) by simp
  then have n: "n = s * 2 ^ 63 + (E * 2 ^ 52 + M)" unfolding n_def by (rule unat_of_nat_small)
  show "n div 2 ^ 63 = s" unfolding n using assms(1-3) by simp
  have n': "n = (s * 2 ^ 11 + E) * 2 ^ 52 + M" unfolding n by simp
  have dm: "(a * p + r) mod p = r" "(a * p + r) div p = a" if "r < p" for a p r :: nat using that by simp_all
  show "n mod 2 ^ 52 = M" unfolding n' by (rule dm(1) [OF assms(3)])
  have "n div 2 ^ 52 = s * 2 ^ 11 + E" unfolding n' by (rule dm(2) [OF assms(3)])
  then show "n div 2 ^ 52 mod 2 ^ 11 = E" using assms(2) by simp
qed

lemma narrow_fields:
  assumes "s < 2" "E < 2 ^ 11" "M < 2 ^ 52"
  shows "narrow (of_nat (s * 2 ^ 63 + (E * 2 ^ 52 + M))) =
    of_nat (s * 2 ^ 31 + (if E = 2047 then 255 * 2 ^ 23 + (if M = 0 then 0 else quiet (M div 2 ^ 29)) else narrow_abs E M))"
  unfolding narrow_def Let_def fields64 [OF assms] ..

lemma narrow_abs_normal: "897 \<le> E \<Longrightarrow> E < 1151 \<Longrightarrow> m < 2 ^ 23 \<Longrightarrow> narrow_abs E (m * 2 ^ 29) = (E - 896) * 2 ^ 23 + m"
proof -
  assume e: "897 \<le> E" "E < 1151" "m < 2 ^ 23"
  have "2 ^ 52 + m * 2 ^ 29 = (2 ^ 23 + m) * (2 ^ 29 :: nat)" by simp
  then have "round_half_even (2 ^ 52 + m * 2 ^ 29) 29 = 2 ^ 23 + m" by (simp only: round_half_even_exact)
  moreover define k where "k = E - 897"
  moreover from this have "E = 897 + k" "k < 254" using e by auto
  ultimately show ?thesis using e by (simp add: narrow_abs_def)
qed

lemma narrow_abs_subnormal:
  assumes "0 < m" "m < 2 ^ 23"
  shows "narrow_abs (nbits m + 873) ((m - 2 ^ (nbits m - 1)) * 2 ^ (53 - nbits m)) = m"
proof -
  let ?k = "nbits m"
  note k = nbits_bounds [OF assms(1)] nbits_le [OF assms]
  have "(2::nat) ^ (?k - 1) * 2 ^ (53 - ?k) = 2 ^ 52" using k by (simp flip: power_add)
  then have "2 ^ 52 + (m - 2 ^ (?k - 1)) * 2 ^ (53 - ?k) = m * 2 ^ (53 - ?k)"
    using k by (metis add_mult_distrib le_add_diff_inverse)
  moreover have "926 - (?k + 873) = 53 - ?k" by simp
  ultimately have "narrow_abs (?k + 873) ((m - 2 ^ (?k - 1)) * 2 ^ (53 - ?k)) = min (round_half_even (m * 2 ^ (53 - ?k)) (53 - ?k)) (255 * 2 ^ 23)"
    using k by (simp add: narrow_abs_def)
  then show ?thesis using assms(2) by (simp add: round_half_even_exact)
qed

lemma of_nat_unat_id: "of_nat (unat x) = (x :: 'a::len word)"
  by simp

lemma fields32:
  fixes x :: u32
  obtains s e m where "x = of_nat (s * 2 ^ 31 + (e * 2 ^ 23 + m))" "s < 2" "e < 2 ^ 8" "m < 2 ^ 23"
    "unat x div 2 ^ 31 = s" "unat x div 2 ^ 23 mod 2 ^ 8 = e" "unat x mod 2 ^ 23 = m"
proof -
  let ?n = "unat x"
  have n: "?n < 2 ^ 32" using unat_lt_word(3) [of x] by simp
  have split: "n = n div a div b * (b * a) + (n div a mod b * a + n mod a)" for n a b :: nat
    by (metis add.assoc add_mult_distrib div_mult_mod_eq mult.assoc)
  have "?n = ?n div 2 ^ 23 div 2 ^ 8 * 2 ^ 31 + (?n div 2 ^ 23 mod 2 ^ 8 * 2 ^ 23 + ?n mod 2 ^ 23)"
    using split [of ?n "2 ^ 23" "2 ^ 8"] by simp
  moreover have "?n div 2 ^ 23 div 2 ^ 8 = ?n div 2 ^ 31" by (simp add: div_mult2_eq [symmetric])
  ultimately have "x = of_nat (?n div 2 ^ 31 * 2 ^ 31 + (?n div 2 ^ 23 mod 2 ^ 8 * 2 ^ 23 + ?n mod 2 ^ 23))"
    by (metis of_nat_unat_id)
  moreover have "?n div 2 ^ 31 < 2" using n by (simp add: div_less_iff_less_mult)
  ultimately show ?thesis using that by simp
qed

lemma narrow_widen:
  assumes "\<not> IsNaN32 x"
  shows "narrow (widen x) = x"
proof -
  obtain s e m where x: "x = of_nat (s * 2 ^ 31 + (e * 2 ^ 23 + m))" "s < 2" "e < 2 ^ 8" "m < 2 ^ 23"
    "unat x div 2 ^ 31 = s" "unat x div 2 ^ 23 mod 2 ^ 8 = e" "unat x mod 2 ^ 23 = m" by (rule fields32)
  consider "e = 255" "m = 0" | "e = 0" "m = 0" | "e = 0" "0 < m" | "0 < e" "e < 255"
    using assms x(3,6,7) by (fastforce simp: IsNaN32_def)
  then show ?thesis
  proof cases
    case 1
    then have "widen x = of_nat (s * 2 ^ 63 + (2047 * 2 ^ 52 + 0))" using x(5-7) by (simp add: widen_def)
    then show ?thesis using 1 x(1,2) narrow_fields [of s 2047 0] by simp
  next
    case 2
    then have "widen x = of_nat (s * 2 ^ 63 + (0 * 2 ^ 52 + 0))" using x(5-7) by (simp add: widen_def)
    then show ?thesis using 2 x(1,2) narrow_fields [of s 0 0] by (simp add: narrow_abs_def round_half_even_def)
  next
    case 3
    let ?M = "(m - 2 ^ (nbits m - 1)) * 2 ^ (53 - nbits m)"
    note k = nbits_bounds [OF 3(2)] nbits_le [OF 3(2) x(4)]
    have "m - 2 ^ (nbits m - 1) < 2 ^ (nbits m - 1)" using k
      by (metis add_diff_cancel_left' diff_less_mono mult_2 power_minus_mult mult.commute)
    then have "?M < 2 ^ (nbits m - 1) * 2 ^ (53 - nbits m)" by simp
    also have "\<dots> = 2 ^ 52" using k by (simp flip: power_add)
    finally have M: "?M < 2 ^ 52" .
    have "widen x = of_nat (s * 2 ^ 63 + ((nbits m + 873) * 2 ^ 52 + ?M))" using 3 x(5-7) by (simp add: widen_def)
    then show ?thesis using 3 k x(1,2,4) narrow_fields [OF x(2) _ M, of "nbits m + 873"] narrow_abs_subnormal [OF 3(2) x(4)] by simp
  next
    case 4
    have "m * 2 ^ 29 < 2 ^ 52" using x(4) by simp
    moreover have "widen x = of_nat (s * 2 ^ 63 + ((e + 896) * 2 ^ 52 + m * 2 ^ 29))" using 4 x(5-7) by (simp add: widen_def)
    ultimately show ?thesis
      using 4 x(1,2,4) narrow_fields [OF x(2), of "e + 896" "m * 2 ^ 29"] narrow_abs_normal [of "e + 896" m] by simp
  qed
qed

end
