(* ===== verification/SbeTemplate.thy ===== *)
theory SbeTemplate
  imports PbInvariant FloatConv
begin

text \<open>
  SBE templates: \<open>src/sbe/annotations.cc\<close>, \<open>src/sbe/encoding_range.h\<close>, \<open>src/sbe/header_bounds.h\<close>,
  \<open>src/sbe/template.cc\<close> and \<open>include/protowire/sbe/template.h\<close>. A protobuf descriptor is a record of
  what the code asks of it; message types are looked up by full name, so a message may contain
  itself. \<open>uint16_t\<close> values are natural numbers with the cast written out.
\<close>

section \<open>Descriptors\<close>

datatype fdtype =
    TYPE_DOUBLE | TYPE_FLOAT | TYPE_INT64 | TYPE_UINT64 | TYPE_INT32 | TYPE_FIXED64 | TYPE_FIXED32 | TYPE_BOOL
  | TYPE_STRING | TYPE_GROUP | TYPE_MESSAGE | TYPE_BYTES | TYPE_UINT32 | TYPE_ENUM | TYPE_SFIXED32
  | TYPE_SFIXED64 | TYPE_SINT32 | TYPE_SINT64

datatype cpptype =
    CPPTYPE_INT32 | CPPTYPE_INT64 | CPPTYPE_UINT32 | CPPTYPE_UINT64 | CPPTYPE_DOUBLE | CPPTYPE_FLOAT
  | CPPTYPE_BOOL | CPPTYPE_ENUM | CPPTYPE_STRING | CPPTYPE_MESSAGE

fun cpp_type_of :: "fdtype \<Rightarrow> cpptype" where
  "cpp_type_of TYPE_DOUBLE = CPPTYPE_DOUBLE"
| "cpp_type_of TYPE_FLOAT = CPPTYPE_FLOAT"
| "cpp_type_of TYPE_INT64 = CPPTYPE_INT64"
| "cpp_type_of TYPE_UINT64 = CPPTYPE_UINT64"
| "cpp_type_of TYPE_INT32 = CPPTYPE_INT32"
| "cpp_type_of TYPE_FIXED64 = CPPTYPE_UINT64"
| "cpp_type_of TYPE_FIXED32 = CPPTYPE_UINT32"
| "cpp_type_of TYPE_BOOL = CPPTYPE_BOOL"
| "cpp_type_of TYPE_STRING = CPPTYPE_STRING"
| "cpp_type_of TYPE_GROUP = CPPTYPE_MESSAGE"
| "cpp_type_of TYPE_MESSAGE = CPPTYPE_MESSAGE"
| "cpp_type_of TYPE_BYTES = CPPTYPE_STRING"
| "cpp_type_of TYPE_UINT32 = CPPTYPE_UINT32"
| "cpp_type_of TYPE_ENUM = CPPTYPE_ENUM"
| "cpp_type_of TYPE_SFIXED32 = CPPTYPE_INT32"
| "cpp_type_of TYPE_SFIXED64 = CPPTYPE_INT64"
| "cpp_type_of TYPE_SINT32 = CPPTYPE_INT32"
| "cpp_type_of TYPE_SINT64 = CPPTYPE_INT64"

fun type_name :: "fdtype \<Rightarrow> string" where
  "type_name TYPE_DOUBLE = ''double''"
| "type_name TYPE_FLOAT = ''float''"
| "type_name TYPE_INT64 = ''int64''"
| "type_name TYPE_UINT64 = ''uint64''"
| "type_name TYPE_INT32 = ''int32''"
| "type_name TYPE_FIXED64 = ''fixed64''"
| "type_name TYPE_FIXED32 = ''fixed32''"
| "type_name TYPE_BOOL = ''bool''"
| "type_name TYPE_STRING = ''string''"
| "type_name TYPE_GROUP = ''group''"
| "type_name TYPE_MESSAGE = ''message''"
| "type_name TYPE_BYTES = ''bytes''"
| "type_name TYPE_UINT32 = ''uint32''"
| "type_name TYPE_ENUM = ''enum''"
| "type_name TYPE_SFIXED32 = ''sfixed32''"
| "type_name TYPE_SFIXED64 = ''sfixed64''"
| "type_name TYPE_SINT32 = ''sint32''"
| "type_name TYPE_SINT64 = ''sint64''"

text \<open>An options message: its set fields, its unknown fields, and the extension numbers its pool declares.\<close>

datatype optval = OUint32 u32 | OInt32 u32 | OString string | OOther

datatype unkval = UVarint u64 | UFixed32 u32 | ULengthDelimited string | UOther

record Options =
  opt_fields :: "(nat \<times> optval) list"
  opt_unknown :: "(nat \<times> unkval) list"
  opt_declared :: "nat list"

record FieldDescriptor =
  f_name :: string
  f_full_name :: string
  f_number :: nat
  f_type :: fdtype
  f_repeated :: bool
  f_map :: bool
  f_oneof :: bool
  f_message :: string
  f_options :: Options

abbreviation cpp_type :: "FieldDescriptor \<Rightarrow> cpptype" where
  "cpp_type fd \<equiv> cpp_type_of (f_type fd)"

datatype Descriptor =
  Descriptor (d_full_name: string) (d_fields: "FieldDescriptor list") (d_options: Options) (d_nested: "Descriptor list")

type_synonym pool = "(string \<times> Descriptor) list"

definition no_options :: Options where
  "no_options = \<lparr>opt_fields = [], opt_unknown = [], opt_declared = []\<rparr>"

definition message_type :: "pool \<Rightarrow> FieldDescriptor \<Rightarrow> Descriptor" where
  "message_type pool fd =
     (case map_of pool (f_message fd) of Some d \<Rightarrow> d | None \<Rightarrow> Descriptor (f_message fd) [] no_options [])"

section \<open>Annotations\<close>

definition kExtSchemaID :: nat where "kExtSchemaID = 1319"
definition kExtVersion :: nat where "kExtVersion = 1320"
definition kExtTemplateID :: nat where "kExtTemplateID = 1321"
definition kExtLength :: nat where "kExtLength = 1322"
definition kExtEncoding :: nat where "kExtEncoding = 1323"
definition kRetiredSchemaID :: nat where "kRetiredSchemaID = 50100"
definition kRetiredTemplateID :: nat where "kRetiredTemplateID = 50200"

definition ScanFieldsUint32 :: "Options \<Rightarrow> nat \<Rightarrow> u32 option" where
  "ScanFieldsUint32 opts num =
     (case map_of (opt_fields opts) num of
        Some (OUint32 v) \<Rightarrow> Some v
      | Some (OInt32 v) \<Rightarrow> Some v
      | _ \<Rightarrow> None)"

fun ScanFieldsString_loop :: "(nat \<times> optval) list \<Rightarrow> nat \<Rightarrow> string option" where
  "ScanFieldsString_loop [] num = None"
| "ScanFieldsString_loop ((n, v) # fs) num =
     (case v of OString s \<Rightarrow> if n = num then Some s else ScanFieldsString_loop fs num
      | _ \<Rightarrow> ScanFieldsString_loop fs num)"

definition ScanFieldsString :: "Options \<Rightarrow> nat \<Rightarrow> string option" where
  "ScanFieldsString opts num = ScanFieldsString_loop (opt_fields opts) num"

definition ScanUnknownUint32 :: "Options \<Rightarrow> nat \<Rightarrow> u32 option" where
  "ScanUnknownUint32 opts num =
     (case map_of (opt_unknown opts) num of
        Some (UVarint v) \<Rightarrow> Some (ucast v)
      | Some (UFixed32 v) \<Rightarrow> Some v
      | _ \<Rightarrow> None)"

fun ScanUnknownString_loop :: "(nat \<times> unkval) list \<Rightarrow> nat \<Rightarrow> string option" where
  "ScanUnknownString_loop [] num = None"
| "ScanUnknownString_loop ((n, v) # fs) num =
     (case v of ULengthDelimited s \<Rightarrow> if n = num then Some s else ScanUnknownString_loop fs num
      | _ \<Rightarrow> ScanUnknownString_loop fs num)"

definition ScanUnknownString :: "Options \<Rightarrow> nat \<Rightarrow> string option" where
  "ScanUnknownString opts num = ScanUnknownString_loop (opt_unknown opts) num"

definition GetUint32Option :: "Options \<Rightarrow> nat \<Rightarrow> u32 option" where
  "GetUint32Option opts num = (case ScanFieldsUint32 opts num of Some v \<Rightarrow> Some v | None \<Rightarrow> ScanUnknownUint32 opts num)"

definition GetStringOption :: "Options \<Rightarrow> nat \<Rightarrow> string option" where
  "GetStringOption opts num = (case ScanFieldsString opts num of Some v \<Rightarrow> Some v | None \<Rightarrow> ScanUnknownString opts num)"

definition CarriesRetired :: "Options \<Rightarrow> nat \<Rightarrow> bool" where
  "CarriesRetired opts num \<longleftrightarrow> num \<notin> set (opt_declared opts) \<and> num \<in> fst ` set (opt_unknown opts)"

definition StaleText :: "string \<Rightarrow> string \<Rightarrow> nat \<Rightarrow> nat \<Rightarrow> string" where
  "StaleText what option retired registered =
     ''sbe: '' @ what @ '' carries (sbe.'' @ option @ '') at retired option number '' @ to_string retired @
     '' (registered as '' @ to_string registered @
     '' since protowire v1.12.0): the descriptor predates the registered extension block and must be recompiled against the current sbe/annotations.proto''"

definition StaleMessageError :: "Descriptor \<Rightarrow> string" where
  "StaleMessageError md =
     (if CarriesRetired (d_options md) kRetiredTemplateID
      then StaleText (''message '' @ d_full_name md) ''template_id'' kRetiredTemplateID kExtTemplateID else [])"

section \<open>Encodings and their ranges\<close>

definition IsIntEncoding :: "string \<Rightarrow> bool" where
  "IsIntEncoding e \<longleftrightarrow> e \<in> {''int8'', ''int16'', ''int32'', ''int64'', ''uint8'', ''uint16'', ''uint32'', ''uint64''}"

datatype FieldTemplate =
  FieldTemplate (ft_fd: FieldDescriptor) (ft_offset: nat) (ft_size: nat) (ft_encoding: string)
    (ft_composite: "FieldTemplate list")

record GroupTemplate =
  gt_fd :: FieldDescriptor
  gt_block_length :: nat
  gt_fields :: "FieldTemplate list"

record MessageTemplate =
  mt_template_id :: nat
  mt_schema_id :: nat
  mt_version :: nat
  mt_block_length :: nat
  mt_fields :: "FieldTemplate list"
  mt_groups :: "GroupTemplate list"

record EncodingRange =
  enc_lo :: int
  enc_hi :: int
  field_lo :: int
  field_hi :: int
  enc_signed :: bool
  write_check :: bool
  read_check :: bool

definition FieldRange :: "FieldDescriptor \<Rightarrow> int \<times> int" where
  "FieldRange fd =
     (case f_type fd of
        TYPE_INT32 \<Rightarrow> (- (2 ^ 31), 2 ^ 31 - 1)
      | TYPE_SINT32 \<Rightarrow> (- (2 ^ 31), 2 ^ 31 - 1)
      | TYPE_SFIXED32 \<Rightarrow> (- (2 ^ 31), 2 ^ 31 - 1)
      | TYPE_ENUM \<Rightarrow> (- (2 ^ 31), 2 ^ 31 - 1)
      | TYPE_INT64 \<Rightarrow> (- (2 ^ 63), 2 ^ 63 - 1)
      | TYPE_SINT64 \<Rightarrow> (- (2 ^ 63), 2 ^ 63 - 1)
      | TYPE_SFIXED64 \<Rightarrow> (- (2 ^ 63), 2 ^ 63 - 1)
      | TYPE_UINT32 \<Rightarrow> (0, 2 ^ 32 - 1)
      | TYPE_FIXED32 \<Rightarrow> (0, 2 ^ 32 - 1)
      | TYPE_BOOL \<Rightarrow> (0, 1)
      | _ \<Rightarrow> (0, 2 ^ 64 - 1))"

text \<open>
  The comparisons of the source mix \<open>int64_t\<close> lower bounds and \<open>uint64_t\<close> upper bounds separately, so
  they are comparisons of integers.
\<close>

definition RangeOf :: "FieldTemplate \<Rightarrow> EncodingRange" where
  "RangeOf ft =
     (let none = \<lparr>enc_lo = 0, enc_hi = 0, field_lo = 0, field_hi = 0, enc_signed = False, write_check = False, read_check = False\<rparr>
      in if ft_encoding ft = ''float'' then none\<lparr>write_check := f_type (ft_fd ft) = TYPE_DOUBLE\<rparr>
         else if ft_encoding ft = ''double'' then none\<lparr>read_check := f_type (ft_fd ft) = TYPE_FLOAT\<rparr>
         else if IsIntEncoding (ft_encoding ft) then
           let sgn = (hd (ft_encoding ft) = CHR ''i'');
               bits = 8 * ft_size ft;
               hi = (if sgn then 2 ^ (bits - 1) - 1 else 2 ^ bits - 1);
               lo = (if sgn then - hi - 1 else 0);
               (flo, fhi) = FieldRange (ft_fd ft)
           in \<lparr>enc_lo = lo, enc_hi = hi, field_lo = flo, field_hi = fhi, enc_signed = sgn,
               write_check = (flo < lo \<or> hi < fhi),
               read_check = (f_type (ft_fd ft) \<noteq> TYPE_BOOL \<and> (lo < flo \<or> fhi < hi))\<rparr>
         else none)"

definition InRange :: "u64 \<Rightarrow> bool \<Rightarrow> int \<Rightarrow> int \<Rightarrow> bool" where
  "InRange v is_unsigned lo hi = (if \<not> is_unsigned \<and> sint v < 0 then lo \<le> sint v else uint v \<le> hi)"

definition IntString :: "u64 \<Rightarrow> bool \<Rightarrow> string" where
  "IntString v is_unsigned = (if is_unsigned then to_string (unat v) else to_string_int (sint v))"

text \<open>On the bits of a double: the infinities and NaN fit, and so does what is at most the largest float.\<close>

definition FloatFits :: "u64 \<Rightarrow> bool" where
  "FloatFits f \<longleftrightarrow>
     (let a = unat f mod 2 ^ 63 in a \<le> 0x47EFFFFFE0000000 \<or> 0x7FF0000000000000 \<le> a)"

section \<open>Building a template\<close>

definition kMaxUint16 :: nat where
  "kMaxUint16 = 65535"

definition SortedFields :: "Descriptor \<Rightarrow> FieldDescriptor list" where
  "SortedFields md = sort_key f_number (d_fields md)"

definition FieldPath :: "Descriptor \<Rightarrow> FieldDescriptor \<Rightarrow> string" where
  "FieldPath md fd = d_full_name md @ ''.'' @ f_name fd"

definition EndOfField :: "nat \<Rightarrow> nat \<Rightarrow> string + nat" where
  "EndOfField offset sz =
     (if kMaxUint16 < offset + sz
      then Inl (''ends at byte '' @ to_string (offset + sz) @ '' of its block, past '' @ to_string kMaxUint16 @
                '', the largest blockLength SBE can state'')
      else Inr (offset + sz))"

definition FieldEncodingSize :: "ranges \<Rightarrow> FieldDescriptor \<Rightarrow> string + string \<times> nat" where
  "FieldEncodingSize ranges fd =
     (case GetStringOption (f_options fd) kExtEncoding of
        Some e \<Rightarrow>
          let kind = type_name (f_type fd); q = ''(sbe.encoding) = '' @ GoQuote ranges e
          in if cpp_type fd = CPPTYPE_STRING
             then Inl (q @ '' on a '' @ kind @ '' field; it narrows a numeric field, and a '' @ kind @ '' field takes (sbe.length)'')
             else if cpp_type fd = CPPTYPE_FLOAT \<or> cpp_type fd = CPPTYPE_DOUBLE
               then if IsIntEncoding e then Inl (q @ '' is an integer primitive and the field is '' @ kind)
                    else if e = ''float'' then Inr (e, 4)
                    else if e = ''double'' then Inr (e, 8)
                    else Inl (''unknown encoding '' @ GoQuote ranges e)
             else if e = ''float'' \<or> e = ''double'' then Inl (q @ '' is a floating-point primitive and the field is '' @ kind)
             else if e = ''int8'' \<or> e = ''uint8'' then Inr (e, 1)
             else if e = ''int16'' \<or> e = ''uint16'' then Inr (e, 2)
             else if e = ''int32'' \<or> e = ''uint32'' then Inr (e, 4)
             else if e = ''int64'' \<or> e = ''uint64'' then Inr (e, 8)
             else Inl (''unknown encoding '' @ GoQuote ranges e)
      | None \<Rightarrow>
          (case cpp_type fd of
             CPPTYPE_BOOL \<Rightarrow> Inr (''uint8'', 1)
           | CPPTYPE_INT32 \<Rightarrow> Inr (''int32'', 4)
           | CPPTYPE_INT64 \<Rightarrow> Inr (''int64'', 8)
           | CPPTYPE_UINT32 \<Rightarrow> Inr (''uint32'', 4)
           | CPPTYPE_UINT64 \<Rightarrow> Inr (''uint64'', 8)
           | CPPTYPE_FLOAT \<Rightarrow> Inr (''float'', 4)
           | CPPTYPE_DOUBLE \<Rightarrow> Inr (''double'', 8)
           | CPPTYPE_ENUM \<Rightarrow> Inr (''uint8'', 1)
           | CPPTYPE_STRING \<Rightarrow>
               (case GetUint32Option (f_options fd) kExtLength of
                  None \<Rightarrow> Inl (type_name (f_type fd) @ '' field requires (sbe.length) annotation'')
                | Some len \<Rightarrow>
                    if kMaxUint16 < unat len
                    then Inl (''(sbe.length) = '' @ to_string (unat len) @ '' is past '' @ to_string kMaxUint16 @
                              '', the largest blockLength SBE can state'')
                    else Inr (''char'', unat len))
           | CPPTYPE_MESSAGE \<Rightarrow> Inl (''unsupported proto kind '' @ type_name (f_type fd))))"

text \<open>
  The body the three builders share: the template of a field at \<open>offset\<close> and the offset after it.
  \<open>build\<close> makes the fields of a composite; \<open>None\<close> is a recursion that has not returned.
\<close>

definition place_field :: "string \<Rightarrow> nat \<Rightarrow> FieldDescriptor \<Rightarrow> string \<Rightarrow> nat \<Rightarrow> FieldTemplate list \<Rightarrow> string + FieldTemplate \<times> nat" where
  "place_field loc offset fd encoding sz composite =
     (case EndOfField offset sz of
        Inl e \<Rightarrow> Inl (loc @ '': '' @ e)
      | Inr fin \<Rightarrow> Inr (FieldTemplate fd (offset mod 65536) sz encoding composite, fin))"

definition layout_field ::
  "(Descriptor \<Rightarrow> (string + FieldTemplate list \<times> nat) option) \<Rightarrow> ranges \<Rightarrow> pool \<Rightarrow> bool \<Rightarrow> string \<Rightarrow> string \<Rightarrow>
   nat \<Rightarrow> FieldDescriptor \<Rightarrow> (string + FieldTemplate \<times> nat) option" where
  "layout_field build ranges pool wrap where_composite where_field offset fd =
     (if cpp_type fd = CPPTYPE_MESSAGE then
        (case build (message_type pool fd) of
           None \<Rightarrow> None
         | Some (Inl e) \<Rightarrow> Some (Inl (if wrap then where_composite @ '': '' @ e else e))
         | Some (Inr (subs, sub_size)) \<Rightarrow> Some (place_field where_composite offset fd [] sub_size subs))
      else
        (case FieldEncodingSize ranges fd of
           Inl e \<Rightarrow> Some (Inl (where_field @ '': '' @ e))
         | Inr (encoding, sz) \<Rightarrow> Some (place_field where_field offset fd encoding sz [])))"

text \<open>A loop over fields, each checked and then placed.\<close>

fun layout_loop ::
  "(FieldDescriptor \<Rightarrow> string option) \<Rightarrow> (nat \<Rightarrow> FieldDescriptor \<Rightarrow> (string + FieldTemplate \<times> nat) option) \<Rightarrow>
   FieldDescriptor list \<Rightarrow> nat \<Rightarrow> FieldTemplate list \<Rightarrow> (string + FieldTemplate list \<times> nat) option" where
  "layout_loop check place [] offset out = Some (Inr (out, offset mod 65536))"
| "layout_loop check place (fd # fds) offset out =
     (case check fd of
        Some e \<Rightarrow> Some (Inl e)
      | None \<Rightarrow>
          (case place offset fd of
             None \<Rightarrow> None
           | Some (Inl e) \<Rightarrow> Some (Inl e)
           | Some (Inr (ft, fin)) \<Rightarrow> layout_loop check place fds fin (out @ [ft])))"

primrec BuildCompositeFields ::
  "nat \<Rightarrow> ranges \<Rightarrow> pool \<Rightarrow> Descriptor \<Rightarrow> (string + FieldTemplate list \<times> nat) option" where
  "BuildCompositeFields 0 ranges pool md = None"
| "BuildCompositeFields (Suc fuel) ranges pool md =
     layout_loop
       (\<lambda>fd. if f_repeated fd \<or> f_map fd
             then Some (''composite '' @ d_full_name md @ '' contains list/map field '' @ f_name fd)
             else if f_oneof fd
             then Some (''composite '' @ d_full_name md @ '' contains oneof field '' @ f_name fd)
             else None)
       (\<lambda>offset fd. let loc = ''composite field '' @ FieldPath md fd
                    in layout_field (BuildCompositeFields fuel ranges pool) ranges pool False loc loc offset fd)
       (SortedFields md) 0 []"

definition BuildGroupTemplate_loop :: "nat \<Rightarrow> ranges \<Rightarrow> pool \<Rightarrow> Descriptor \<Rightarrow> (string + FieldTemplate list \<times> nat) option" where
  "BuildGroupTemplate_loop fuel ranges pool md =
     layout_loop
       (\<lambda>f. if f_map f then Some (''sbe: map field in group '' @ d_full_name md @ '' not supported'')
            else if f_repeated f then Some (''sbe: nested repeated field in group '' @ d_full_name md @ '' not supported'')
            else None)
       (\<lambda>offset f. layout_field (BuildCompositeFields fuel ranges pool) ranges pool True
          (''sbe: composite in group '' @ FieldPath md f) (''sbe: group field '' @ FieldPath md f) offset f)
       (SortedFields md) 0 []"

definition BuildGroupTemplate :: "nat \<Rightarrow> ranges \<Rightarrow> pool \<Rightarrow> FieldDescriptor \<Rightarrow> (string + GroupTemplate) option" where
  "BuildGroupTemplate fuel ranges pool fd =
     map_option (map_val (\<lambda>(fts, block). \<lparr>gt_fd = fd, gt_block_length = block, gt_fields = fts\<rparr>))
       (BuildGroupTemplate_loop fuel ranges pool (message_type pool fd))"

fun BuildTemplate_loop ::
  "nat \<Rightarrow> ranges \<Rightarrow> pool \<Rightarrow> Descriptor \<Rightarrow> FieldDescriptor list \<Rightarrow> nat \<Rightarrow> FieldTemplate list \<Rightarrow> GroupTemplate list \<Rightarrow>
   (string + (FieldTemplate list \<times> GroupTemplate list) \<times> nat) option" where
  "BuildTemplate_loop fuel ranges pool md [] offset fts groups = Some (Inr ((fts, groups), offset mod 65536))"
| "BuildTemplate_loop fuel ranges pool md (fd # fds) offset fts groups =
     (if f_map fd then Some (Inl (''sbe: map field '' @ FieldPath md fd @ '' not supported''))
      else if f_oneof fd then Some (Inl (''sbe: oneof field '' @ FieldPath md fd @ '' not supported''))
      else if f_repeated fd \<and> cpp_type fd = CPPTYPE_MESSAGE then
        (case BuildGroupTemplate fuel ranges pool fd of
           None \<Rightarrow> None
         | Some (Inl e) \<Rightarrow> Some (Inl e)
         | Some (Inr gt) \<Rightarrow> BuildTemplate_loop fuel ranges pool md fds offset fts (groups @ [gt]))
      else if f_repeated fd then
        Some (Inl (''sbe: repeated scalar field '' @ FieldPath md fd @ '' not supported; wrap in a message''))
      else
        (case layout_field (BuildCompositeFields fuel ranges pool) ranges pool True
                (''sbe: composite '' @ FieldPath md fd) (''sbe: field '' @ FieldPath md fd) offset fd of
           None \<Rightarrow> None
         | Some (Inl e) \<Rightarrow> Some (Inl e)
         | Some (Inr (ft, fin)) \<Rightarrow> BuildTemplate_loop fuel ranges pool md fds fin (fts @ [ft]) groups))"

definition BuildTemplate :: "nat \<Rightarrow> ranges \<Rightarrow> pool \<Rightarrow> Descriptor \<Rightarrow> nat \<Rightarrow> nat \<Rightarrow> (string + MessageTemplate) option" where
  "BuildTemplate fuel ranges pool md schema_id version =
     (case GetUint32Option (d_options md) kExtTemplateID of
        None \<Rightarrow> Some (Inl (''sbe: message '' @ d_full_name md @ '' missing (sbe.template_id)''))
      | Some tid \<Rightarrow>
          if kMaxUint16 < unat tid
          then Some (Inl (''sbe: message '' @ d_full_name md @ '': (sbe.template_id) = '' @ to_string (unat tid) @
                     '' is past '' @ to_string kMaxUint16 @ '', the largest templateId SBE can state''))
          else map_option (map_val (\<lambda>((fts, groups), block).
                 \<lparr>mt_template_id = unat tid, mt_schema_id = schema_id, mt_version = version, mt_block_length = block,
                  mt_fields = fts, mt_groups = groups\<rparr>))
                 (BuildTemplate_loop fuel ranges pool md (SortedFields md) 0 [] []))"

section \<open>The layout of a template\<close>

text \<open>
  The fields lie one after another from \<open>off\<close> to \<open>fin\<close>; those of a composite fill its region; a field that is
  not a composite has a primitive of its kind, and of the primitive's size.
\<close>

definition int_encodings :: "(string \<times> nat) list" where
  "int_encodings = [(''int8'', 1), (''int16'', 2), (''int32'', 4), (''int64'', 8), (''uint8'', 1), (''uint16'', 2), (''uint32'', 4), (''uint64'', 8)]"

definition prim_ok :: "FieldDescriptor \<Rightarrow> string \<Rightarrow> nat \<Rightarrow> bool" where
  "prim_ok fd e n =
     (if cpp_type fd = CPPTYPE_STRING then e = ''char'' \<and> n \<le> kMaxUint16
      else if cpp_type fd = CPPTYPE_FLOAT \<or> cpp_type fd = CPPTYPE_DOUBLE then (e, n) \<in> {(''float'', 4), (''double'', 8)}
      else (e, n) \<in> set int_encodings)"

fun layout :: "nat \<Rightarrow> FieldTemplate list \<Rightarrow> nat \<Rightarrow> bool" where
  "layout off [] fin = (off = fin)"
| "layout off (FieldTemplate fd o1 n e sub # fts) fin =
     (o1 = off \<and> (if cpp_type fd = CPPTYPE_MESSAGE then e = [] \<and> layout 0 sub n else sub = [] \<and> prim_ok fd e n) \<and>
      layout (off + n) fts fin)"

lemma layout_append: "layout off (xs @ ys) fin \<longleftrightarrow> (\<exists>mid. layout off xs mid \<and> layout mid ys fin)"
  by (induction off xs fin rule: layout.induct) auto

lemma layout_mono: "layout off fts fin \<Longrightarrow> off \<le> fin"
  by (induction off fts fin rule: layout.induct) auto

lemma FieldEncodingSize_prim: "FieldEncodingSize ranges fd = Inr (e, n) \<Longrightarrow> cpp_type fd \<noteq> CPPTYPE_MESSAGE \<Longrightarrow> prim_ok fd e n"
  by (auto simp: FieldEncodingSize_def prim_ok_def int_encodings_def Let_def split: option.splits if_splits cpptype.splits)

lemma place_field_Inr:
  assumes "place_field loc off fd e n sub = Inr (ft, fin)" "off \<le> kMaxUint16"
  shows "ft = FieldTemplate fd off n e sub \<and> fin = off + n \<and> fin \<le> kMaxUint16"
  using assms by (auto simp: place_field_def EndOfField_def kMaxUint16_def split: sum.splits if_splits)

lemma layout_field_ok:
  assumes "layout_field build ranges pool w lc lf off fd = Some (Inr (ft, fin))" "off \<le> kMaxUint16"
    and "\<And>d subs n. build d = Some (Inr (subs, n)) \<Longrightarrow> layout 0 subs n"
  shows "layout off [ft] fin \<and> fin \<le> kMaxUint16"
  using assms(1,2)
  by (auto simp: layout_field_def FieldEncodingSize_prim
      dest!: place_field_Inr dest: assms(3) split: if_splits option.splits sum.splits)

lemma layout_loop_ok:
  assumes "layout_loop check place fds off out = Some (Inr (fts, n))" "off \<le> kMaxUint16" "layout 0 out off"
    and "\<And>o1 fd ft fin. place o1 fd = Some (Inr (ft, fin)) \<Longrightarrow> o1 \<le> kMaxUint16 \<Longrightarrow> layout o1 [ft] fin \<and> fin \<le> kMaxUint16"
  shows "layout 0 fts n \<and> n \<le> kMaxUint16"
  using assms(1-3)
proof (induction fds arbitrary: off out)
  case Nil
  then show ?case by (auto simp: kMaxUint16_def)
next
  case (Cons fd fds)
  then obtain ft fin where p: "place off fd = Some (Inr (ft, fin))"
    and r: "layout_loop check place fds fin (out @ [ft]) = Some (Inr (fts, n))"
    by (auto split: option.splits sum.splits)
  from assms(4) [OF p Cons.prems(2)] Cons.prems(3) have "fin \<le> kMaxUint16" "layout 0 (out @ [ft]) fin"
    by (auto simp: layout_append)
  from Cons.IH [OF r this] show ?case .
qed

lemma BuildCompositeFields_ok:
  "BuildCompositeFields fuel ranges pool md = Some (Inr (fts, n)) \<Longrightarrow> layout 0 fts n \<and> n \<le> kMaxUint16"
proof (induction fuel arbitrary: md fts n)
  case (Suc fuel)
  from Suc.prems show ?case unfolding BuildCompositeFields.simps
    by (rule layout_loop_ok) (auto simp: Let_def dest!: layout_field_ok Suc.IH)
qed simp

lemma BuildGroupTemplate_ok:
  assumes "BuildGroupTemplate fuel ranges pool fd = Some (Inr gt)"
  shows "layout 0 (gt_fields gt) (gt_block_length gt) \<and> gt_block_length gt \<le> kMaxUint16"
proof -
  from assms obtain fts n where g: "gt = \<lparr>gt_fd = fd, gt_block_length = n, gt_fields = fts\<rparr>"
    and l: "BuildGroupTemplate_loop fuel ranges pool (message_type pool fd) = Some (Inr (fts, n))"
    by (auto simp: BuildGroupTemplate_def map_val_Inr)
  from l have "layout 0 fts n \<and> n \<le> kMaxUint16" unfolding BuildGroupTemplate_loop_def
    by (rule layout_loop_ok) (auto dest!: layout_field_ok BuildCompositeFields_ok)
  with g show ?thesis by simp
qed

lemma BuildTemplate_loop_ok:
  assumes "BuildTemplate_loop fuel ranges pool md fds off fts gs = Some (Inr ((fts', gs'), n))"
    and "off \<le> kMaxUint16" "layout 0 fts off" "\<forall>g\<in>set gs. layout 0 (gt_fields g) (gt_block_length g) \<and> gt_block_length g \<le> kMaxUint16"
  shows "layout 0 fts' n \<and> n \<le> kMaxUint16 \<and> (\<forall>g\<in>set gs'. layout 0 (gt_fields g) (gt_block_length g) \<and> gt_block_length g \<le> kMaxUint16)"
  using assms
proof (induction fds arbitrary: off fts gs)
  case Nil
  then show ?case by (auto simp: kMaxUint16_def)
next
  case (Cons fd fds)
  show ?case
  proof (cases "f_repeated fd \<and> cpp_type fd = CPPTYPE_MESSAGE")
    case True
    with Cons.prems(1) obtain gt where "BuildGroupTemplate fuel ranges pool fd = Some (Inr gt)"
      "BuildTemplate_loop fuel ranges pool md fds off fts (gs @ [gt]) = Some (Inr ((fts', gs'), n))"
      by (auto split: if_splits option.splits sum.splits)
    with Cons.IH [of off fts "gs @ [gt]"] Cons.prems BuildGroupTemplate_ok show ?thesis by auto
  next
    case False
    with Cons.prems(1) obtain ft fin lc lf where p: "layout_field (BuildCompositeFields fuel ranges pool) ranges pool True lc lf off fd = Some (Inr (ft, fin))"
      and r: "BuildTemplate_loop fuel ranges pool md fds fin (fts @ [ft]) gs = Some (Inr ((fts', gs'), n))"
      by (auto split: if_splits option.splits sum.splits)
    from layout_field_ok [OF p Cons.prems(2)] BuildCompositeFields_ok
    have "layout off [ft] fin" "fin \<le> kMaxUint16" by blast+
    with Cons.IH [OF r] Cons.prems show ?thesis by (auto simp: layout_append)
  qed
qed

definition template_ok :: "MessageTemplate \<Rightarrow> bool" where
  "template_ok t \<longleftrightarrow> layout 0 (mt_fields t) (mt_block_length t) \<and> mt_block_length t \<le> kMaxUint16 \<and> mt_template_id t \<le> kMaxUint16 \<and>
     (\<forall>g\<in>set (mt_groups t). layout 0 (gt_fields g) (gt_block_length g) \<and> gt_block_length g \<le> kMaxUint16)"

lemma BuildTemplate_ok:
  assumes "BuildTemplate fuel ranges pool md sid ver = Some (Inr t)"
  shows "template_ok t"
proof -
  from assms obtain tid fts gs n where "\<not> kMaxUint16 < unat (tid :: u32)"
    and "BuildTemplate_loop fuel ranges pool md (SortedFields md) 0 [] [] = Some (Inr ((fts, gs), n))"
    and "t = \<lparr>mt_template_id = unat tid, mt_schema_id = sid, mt_version = ver, mt_block_length = n, mt_fields = fts, mt_groups = gs\<rparr>"
    by (auto simp: BuildTemplate_def map_val_Inr split: option.splits if_splits)
  with BuildTemplate_loop_ok [OF this(2)] show ?thesis by (simp add: template_ok_def)
qed

section \<open>When the builder returns\<close>

lemma layout_loop_returns:
  assumes "\<And>off fd. fd \<in> set fds \<Longrightarrow> check fd = None \<Longrightarrow> \<exists>r. place off fd = Some r"
  shows "\<exists>r. layout_loop check place fds off out = Some r"
  using assms
proof (induction fds arbitrary: off out)
  case (Cons fd fds)
  show ?case
  proof (cases "check fd")
    case None
    with Cons.prems [of fd off] obtain r where "place off fd = Some r" by auto
    with None Cons show ?thesis by (cases r) auto
  qed simp
qed simp

lemma layout_loop_cong_place:
  assumes "\<And>off fd. fd \<in> set fds \<Longrightarrow> place off fd = place' off fd"
  shows "layout_loop check place fds off out = layout_loop check place' fds off out"
  using assms by (induction fds arbitrary: off out) (auto split: option.splits sum.splits)

lemma layout_field_returns:
  assumes "cpp_type fd = CPPTYPE_MESSAGE \<Longrightarrow> \<exists>r. build (message_type pool fd) = Some r"
  shows "\<exists>r. layout_field build ranges pool w lc lf off fd = Some r"
  using assms by (auto simp: layout_field_def split: sum.split)

text \<open>A rank that falls from a message to the types of its message fields: no message contains itself.\<close>

definition ranked :: "(Descriptor \<Rightarrow> nat) \<Rightarrow> pool \<Rightarrow> Descriptor \<Rightarrow> bool" where
  "ranked rank pool md \<longleftrightarrow>
     (\<forall>d\<in>insert md (snd ` set pool). \<forall>fd\<in>set (d_fields d). cpp_type fd = CPPTYPE_MESSAGE \<longrightarrow> rank (message_type pool fd) < rank d)"

lemma message_type_cases: "message_type pool fd \<in> snd ` set pool \<or> d_fields (message_type pool fd) = []"
  by (force simp: message_type_def split: option.split dest: map_of_SomeD)

lemma ranked_sub: "ranked rank pool md \<Longrightarrow> ranked rank pool (message_type pool fd)"
  using message_type_cases [of pool fd] by (auto simp: ranked_def)

lemma SortedFields_set [simp]: "set (SortedFields md) = set (d_fields md)"
  by (simp add: SortedFields_def)

lemma BuildCompositeFields_returns:
  assumes "ranked rank pool md" "rank md < fuel"
  shows "\<exists>r. BuildCompositeFields fuel ranges pool md = Some r"
  using assms
proof (induction fuel arbitrary: md)
  case (Suc fuel)
  show ?case unfolding BuildCompositeFields.simps
  proof (rule layout_loop_returns)
    fix off fd assume "fd \<in> set (SortedFields md)"
    then have "cpp_type fd = CPPTYPE_MESSAGE \<Longrightarrow> rank (message_type pool fd) < fuel"
      using Suc.prems by (fastforce simp: ranked_def)
    with Suc.IH ranked_sub [OF Suc.prems(1)]
    show "\<exists>r. (let loc = ''composite field '' @ FieldPath md fd in
        layout_field (BuildCompositeFields fuel ranges pool) ranges pool False loc loc off fd) = Some r"
      unfolding Let_def by (intro layout_field_returns) blast
  qed
qed simp

lemma BuildTemplate_loop_returns:
  assumes "\<And>fd. fd \<in> set fds \<Longrightarrow> cpp_type fd = CPPTYPE_MESSAGE \<Longrightarrow> ranked rank pool (message_type pool fd) \<and> rank (message_type pool fd) < fuel"
  shows "\<exists>r. BuildTemplate_loop fuel ranges pool md fds off fts gs = Some r"
  using assms
proof (induction fds arbitrary: off fts gs)
  case (Cons fd fds)
  have c: "\<exists>r. BuildCompositeFields fuel ranges pool (message_type pool fd) = Some r" if "cpp_type fd = CPPTYPE_MESSAGE"
    using Cons.prems [of fd] that BuildCompositeFields_returns by auto
  obtain r where "layout_field (BuildCompositeFields fuel ranges pool) ranges pool True
      (''sbe: composite '' @ FieldPath md fd) (''sbe: field '' @ FieldPath md fd) off fd = Some r"
    using layout_field_returns [of fd "BuildCompositeFields fuel ranges pool" pool] c by blast
  moreover have "\<exists>r. BuildGroupTemplate fuel ranges pool fd = Some r" if m: "cpp_type fd = CPPTYPE_MESSAGE"
  proof -
    note rk = Cons.prems [OF list.set_intros(1) m]
    have "\<exists>r. BuildGroupTemplate_loop fuel ranges pool (message_type pool fd) = Some r"
      unfolding BuildGroupTemplate_loop_def
    proof (intro layout_loop_returns layout_field_returns)
      fix f assume "f \<in> set (SortedFields (message_type pool fd))" "cpp_type f = CPPTYPE_MESSAGE"
      moreover have "message_type pool fd \<in> insert (message_type pool fd) (snd ` set pool)" by simp
      ultimately have "rank (message_type pool f) < rank (message_type pool fd)"
        using rk by (simp add: ranked_def)
      then show "\<exists>r. BuildCompositeFields fuel ranges pool (message_type pool f) = Some r"
        using rk ranked_sub by (intro BuildCompositeFields_returns [of rank]) auto
    qed
    then show ?thesis by (auto simp: BuildGroupTemplate_def)
  qed
  ultimately show ?case using Cons by (auto split: sum.split option.split)
qed simp

lemma BuildCompositeFields_cycle:
  assumes "SortedFields md = fd # fds" "message_type pool fd = md" "cpp_type fd = CPPTYPE_MESSAGE"
    and "\<not> f_repeated fd" "\<not> f_map fd" "\<not> f_oneof fd"
  shows "BuildCompositeFields fuel ranges pool md = None"
  using assms by (induction fuel) (simp_all add: layout_field_def Let_def)

section \<open>Properties\<close>

text \<open>C18. In a template that is built, the fields of the root block, of every composite and of every group entry
  lie back to back from offset 0, a composite exactly fills its region, every field has a primitive
  of its kind and that primitive's size, and no block length, offset or id exceeds what 16 bits hold.\<close>

theorem template_layout:
  assumes "BuildTemplate fuel ranges pool md schema_id version = Some (Inr t)"
  shows "layout 0 (mt_fields t) (mt_block_length t) \<and> mt_block_length t \<le> kMaxUint16 \<and> mt_template_id t \<le> kMaxUint16 \<and>
    (\<forall>g\<in>set (mt_groups t). layout 0 (gt_fields g) (gt_block_length g) \<and> gt_block_length g \<le> kMaxUint16)"
  using BuildTemplate_ok [OF assms] by (simp add: template_ok_def)

definition demo_field :: "string \<Rightarrow> nat \<Rightarrow> fdtype \<Rightarrow> string \<Rightarrow> FieldDescriptor" where
  "demo_field name num type msg = \<lparr>f_name = name, f_full_name = ''p.M.'' @ name, f_number = num, f_type = type, f_repeated = False,
     f_map = False, f_oneof = False, f_message = msg, f_options = no_options\<rparr>"

definition demo_pool :: pool where
  "demo_pool = [(''p.C'', Descriptor ''p.C'' [demo_field ''x'' 1 TYPE_UINT32 [], demo_field ''b'' 2 TYPE_BOOL []] no_options [])]"

definition demo_message :: Descriptor where
  "demo_message = Descriptor ''p.M'' [demo_field ''c'' 2 TYPE_MESSAGE ''p.C'', demo_field ''n'' 1 TYPE_INT64 []]
     \<lparr>opt_fields = [(1321, OUint32 7)], opt_unknown = [], opt_declared = []\<rparr> []"

lemmas template_eval = BuildTemplate_def demo_message_def demo_pool_def demo_field_def SortedFields_def message_type_def
  layout_field_def place_field_def EndOfField_def FieldEncodingSize_def GetUint32Option_def GetStringOption_def
  ScanFieldsUint32_def ScanUnknownUint32_def ScanFieldsString_def ScanUnknownString_def kExtTemplateID_def kExtEncoding_def
  kMaxUint16_def no_options_def map_val_def

theorem template_layout_witness:
  "\<exists>t. BuildTemplate (Suc (Suc 0)) [] demo_pool demo_message 1 0 = Some (Inr t) \<and> layout 0 (mt_fields t) (mt_block_length t) \<and> mt_block_length t = 13"
proof -
  have "\<exists>t. BuildTemplate (Suc (Suc 0)) [] demo_pool demo_message 1 0 = Some (Inr t) \<and> mt_block_length t = 13"
    by (simp add: template_eval)
  with template_layout show ?thesis by blast
qed

text \<open>C34. The builder returns for every schema in which no message contains itself, once its recursion may go as
  deep as the rank of the message.\<close>

theorem template_build_returns:
  assumes "ranked rank pool md" "rank md \<le> fuel"
  shows "\<exists>r. BuildTemplate fuel ranges pool md schema_id version = Some r"
proof -
  have "\<exists>r. BuildTemplate_loop fuel ranges pool md (SortedFields md) 0 [] [] = Some r"
    using assms ranked_sub [OF assms(1)]
    by (intro BuildTemplate_loop_returns [of _ rank]) (fastforce simp: ranked_def)
  then show ?thesis by (auto simp: BuildTemplate_def split: option.split)
qed

theorem template_build_returns_witness:
  "\<exists>r. BuildTemplate (Suc (Suc 0)) [] demo_pool demo_message 1 0 = Some r"
  by (rule template_build_returns [where rank = "\<lambda>d. if d_full_name d = ''p.M'' then 1 else 0"])
     (code_simp, simp add: demo_message_def)

text \<open>C35. A message whose first field by number is a singular field of its own type makes the builder recurse for
  ever: however deep the recursion is allowed to go, it has not returned.\<close>

theorem recursive_message_never_returns:
  assumes "SortedFields md = fd # fds" "message_type pool fd = md" "cpp_type fd = CPPTYPE_MESSAGE"
    and "f_repeated fd = False" "f_map fd = False" "f_oneof fd = False"
    and "GetUint32Option (d_options md) kExtTemplateID = Some tid" "unat tid \<le> kMaxUint16"
  shows "BuildTemplate fuel ranges pool md schema_id version = None"
  using assms BuildCompositeFields_cycle [OF assms(1-3)]
  by (simp add: BuildTemplate_def layout_field_def)

theorem recursive_message_never_returns_witness:
  "BuildTemplate 1000 [] [(''p.M'', Descriptor ''p.M'' [demo_field ''next'' 1 TYPE_MESSAGE ''p.M''] \<lparr>opt_fields = [(1321, OUint32 7)], opt_unknown = [], opt_declared = []\<rparr> [])]
     (Descriptor ''p.M'' [demo_field ''next'' 1 TYPE_MESSAGE ''p.M''] \<lparr>opt_fields = [(1321, OUint32 7)], opt_unknown = [], opt_declared = []\<rparr> []) 1 0 = None"
  by (rule recursive_message_never_returns [where fd = "demo_field ''next'' 1 TYPE_MESSAGE ''p.M''" and fds = "[]" and tid = 7])
     (simp_all add: SortedFields_def message_type_def demo_field_def GetUint32Option_def ScanFieldsUint32_def kExtTemplateID_def kMaxUint16_def)

end
