(* ===== verification/SbeCodec.thy ===== *)
theory SbeCodec
  imports SbeTemplate
begin

text \<open>
  The SBE codec: \<open>src/sbe/marshal.cc\<close>, \<open>src/sbe/unmarshal.cc\<close>, \<open>src/sbe/codec.cc\<close> and
  \<open>src/sbe/view.cc\<close>. A protobuf message is the list of its set fields by number; reading an unset field gives
  its default. What is undefined in C++ is an error of its own: a read outside a buffer is \<open>OutOfBounds\<close> and one
  through a pointer to a freed template \<open>Dangling\<close>; a reflection call on a field of another type, which aborts,
  is \<open>Fatal\<close>. The two messages that print a float keep
  its bits.
\<close>

section \<open>Messages and errors\<close>

datatype sbe_error = Msg string | OutsideFloat string u64 | WireFloat string u64 | OutOfBounds | Dangling | Fatal

datatype mval =
    MBool bool
  | MInt int
  | MUInt nat
  | MFloat u32
  | MDouble u64
  | MString string
  | MMessage "(nat \<times> mval) list"
  | MRepeated "(nat \<times> mval) list list"

type_synonym message = "(nat \<times> mval) list"

definition set_field :: "nat \<Rightarrow> mval \<Rightarrow> message \<Rightarrow> message" where
  "set_field n v m = (n, v) # filter (\<lambda>e. fst e \<noteq> n) m"

definition get_bool :: "nat \<Rightarrow> message \<Rightarrow> bool" where
  "get_bool n m = (case map_of m n of Some (MBool b) \<Rightarrow> b | _ \<Rightarrow> False)"

definition get_int :: "nat \<Rightarrow> message \<Rightarrow> int" where
  "get_int n m = (case map_of m n of Some (MInt i) \<Rightarrow> i | _ \<Rightarrow> 0)"

definition get_uint :: "nat \<Rightarrow> message \<Rightarrow> nat" where
  "get_uint n m = (case map_of m n of Some (MUInt i) \<Rightarrow> i | _ \<Rightarrow> 0)"

definition get_float :: "nat \<Rightarrow> message \<Rightarrow> u32" where
  "get_float n m = (case map_of m n of Some (MFloat f) \<Rightarrow> f | _ \<Rightarrow> 0)"

definition get_double :: "nat \<Rightarrow> message \<Rightarrow> u64" where
  "get_double n m = (case map_of m n of Some (MDouble f) \<Rightarrow> f | _ \<Rightarrow> 0)"

definition get_string :: "nat \<Rightarrow> message \<Rightarrow> string" where
  "get_string n m = (case map_of m n of Some (MString s) \<Rightarrow> s | _ \<Rightarrow> [])"

definition get_message :: "nat \<Rightarrow> message \<Rightarrow> message" where
  "get_message n m = (case map_of m n of Some (MMessage s) \<Rightarrow> s | _ \<Rightarrow> [])"

definition get_repeated :: "nat \<Rightarrow> message \<Rightarrow> message list" where
  "get_repeated n m = (case map_of m n of Some (MRepeated s) \<Rightarrow> s | _ \<Rightarrow> [])"

section \<open>Marshal\<close>

definition WriteU16 :: "u16 \<Rightarrow> byte list" where
  "WriteU16 v = [ucast v, ucast (drop_bit 8 v)]"

definition WriteU32 :: "u32 \<Rightarrow> byte list" where
  "WriteU32 v = map (\<lambda>i. ucast (drop_bit (i * 8) v)) [0..<4]"

definition WriteU64 :: "u64 \<Rightarrow> byte list" where
  "WriteU64 v = map (\<lambda>i. ucast (drop_bit (i * 8) v)) [0..<8]"

text \<open>The writers store through a pointer into the buffer.\<close>

definition store :: "nat \<Rightarrow> byte list \<Rightarrow> byte list \<Rightarrow> byte list" where
  "store off bs buf = take off buf @ bs @ drop (off + length bs) buf"

definition pad_to :: "nat \<Rightarrow> byte list \<Rightarrow> byte list" where
  "pad_to n buf = buf @ replicate (n - length buf) 0"

text \<open>The value read by the field's kind, and whether it is unsigned.\<close>

definition scalar_value :: "FieldDescriptor \<Rightarrow> message \<Rightarrow> sbe_error + u64 \<times> bool" where
  "scalar_value fd msg =
     (case cpp_type fd of
        CPPTYPE_BOOL \<Rightarrow> Inr (if get_bool (f_number fd) msg then 1 else 0, True)
      | CPPTYPE_ENUM \<Rightarrow> Inr (of_int (get_int (f_number fd) msg), False)
      | CPPTYPE_UINT32 \<Rightarrow> Inr (of_nat (get_uint (f_number fd) msg), True)
      | CPPTYPE_UINT64 \<Rightarrow> Inr (of_nat (get_uint (f_number fd) msg), True)
      | CPPTYPE_INT32 \<Rightarrow> Inr (of_int (get_int (f_number fd) msg), False)
      | CPPTYPE_INT64 \<Rightarrow> Inr (of_int (get_int (f_number fd) msg), False)
      | _ \<Rightarrow> Inl Fatal)"

definition scalar_bytes :: "nat \<Rightarrow> u64 \<Rightarrow> byte list" where
  "scalar_bytes sz v =
     (if sz = 1 then [ucast v] else if sz = 2 then WriteU16 (ucast v) else if sz = 4 then WriteU32 (ucast v) else WriteU64 v)"

definition WriteScalar :: "byte list \<Rightarrow> nat \<Rightarrow> FieldTemplate \<Rightarrow> message \<Rightarrow> sbe_error + byte list" where
  "WriteScalar buf0 off ft msg =
     (let buf = pad_to (off + ft_size ft) buf0;
          fd = ft_fd ft;
          rg = RangeOf ft
      in if ft_encoding ft = ''float'' \<or> ft_encoding ft = ''double'' then
           (let f = (if cpp_type fd = CPPTYPE_FLOAT then widen (get_float (f_number fd) msg) else get_double (f_number fd) msg)
            in if ft_encoding ft = ''double'' then Inr (store off (WriteU64 f) buf)
               else if write_check rg \<and> \<not> FloatFits f then Inl (OutsideFloat (f_full_name fd) f)
               else Inr (store off (WriteU32 (narrow f)) buf))
         else case scalar_value fd msg of
             Inl e \<Rightarrow> Inl e
           | Inr (v, is_unsigned) \<Rightarrow>
               if write_check rg \<and> \<not> InRange v is_unsigned (enc_lo rg) (enc_hi rg)
               then Inl (Msg (''sbe: field '' @ f_full_name fd @ '': value '' @ IntString v is_unsigned @
                      '' is outside the range of '' @ ft_encoding ft @ '', ['' @ to_string_int (enc_lo rg) @ '', '' @
                      to_string_int (enc_hi rg) @ '']''))
               else Inr (store off (scalar_bytes (ft_size ft) v) buf))"

fun cut_back :: "string \<Rightarrow> nat \<Rightarrow> nat" where
  "cut_back s 0 = 0"
| "cut_back s (Suc n) = (if (of_char (s ! Suc n) :: byte) AND 0xC0 = 0x80 then cut_back s n else Suc n)"

definition CutLength :: "string \<Rightarrow> nat \<Rightarrow> bool \<Rightarrow> nat" where
  "CutLength s sz is_string = (if length s \<le> sz then length s else if is_string then cut_back s sz else sz)"

definition WriteFixedString :: "byte list \<Rightarrow> nat \<Rightarrow> FieldTemplate \<Rightarrow> message \<Rightarrow> byte list" where
  "WriteFixedString buf0 off ft msg =
     (let buf = pad_to (off + ft_size ft) buf0;
          s = get_string (f_number (ft_fd ft)) msg;
          n = CutLength s (ft_size ft) (f_type (ft_fd ft) = TYPE_STRING)
      in store off (take n (bytes_of s) @ replicate (ft_size ft - n) 0) buf)"

fun WriteFields :: "byte list \<Rightarrow> nat \<Rightarrow> FieldTemplate list \<Rightarrow> message \<Rightarrow> sbe_error + byte list" where
  "WriteFields buf base [] msg = Inr buf"
| "WriteFields buf base (FieldTemplate fd off sz enc sub # fts) msg =
     (case (if sub \<noteq> [] then WriteFields buf (base + off) sub (get_message (f_number fd) msg)
            else if enc = ''char'' then Inr (WriteFixedString buf (base + off) (FieldTemplate fd off sz enc sub) msg)
            else WriteScalar buf (base + off) (FieldTemplate fd off sz enc sub) msg) of
        Inl e \<Rightarrow> Inl e
      | Inr buf' \<Rightarrow> WriteFields buf' base fts msg)"

fun WriteEntries :: "byte list \<Rightarrow> GroupTemplate \<Rightarrow> message list \<Rightarrow> sbe_error + byte list" where
  "WriteEntries buf gt [] = Inr buf"
| "WriteEntries buf gt (entry # entries) =
     (case WriteFields (buf @ replicate (gt_block_length gt) 0) (length buf) (gt_fields gt) entry of
        Inl e \<Rightarrow> Inl e
      | Inr buf' \<Rightarrow> WriteEntries buf' gt entries)"

fun WriteGroups :: "byte list \<Rightarrow> GroupTemplate list \<Rightarrow> message \<Rightarrow> sbe_error + byte list" where
  "WriteGroups buf [] msg = Inr buf"
| "WriteGroups buf (gt # gts) msg =
     (let entries = get_repeated (f_number (gt_fd gt)) msg; n = length entries
      in if kMaxUint16 < n
         then Inl (Msg (''sbe: field '' @ f_full_name (gt_fd gt) @ '' has '' @ to_string n @ '' entries, past '' @
                to_string kMaxUint16 @ '', the largest numInGroup SBE can state''))
         else case WriteEntries (buf @ WriteU16 (of_nat (gt_block_length gt)) @ WriteU16 (of_nat n)) gt entries of
             Inl e \<Rightarrow> Inl e
           | Inr buf' \<Rightarrow> WriteGroups buf' gts msg)"

definition MarshalTemplate :: "MessageTemplate \<Rightarrow> message \<Rightarrow> sbe_error + byte list" where
  "MarshalTemplate tmpl msg =
     (let hdr = WriteU16 (of_nat (mt_block_length tmpl)) @ WriteU16 (of_nat (mt_template_id tmpl)) @
                WriteU16 (of_nat (mt_schema_id tmpl)) @ WriteU16 (of_nat (mt_version tmpl))
      in case WriteFields (hdr @ replicate (mt_block_length tmpl) 0) 8 (mt_fields tmpl) msg of
           Inl e \<Rightarrow> Inl e
         | Inr buf \<Rightarrow> WriteGroups buf (mt_groups tmpl) msg)"

section \<open>Unmarshal\<close>

text \<open>The loads, from the bytes at a pointer; reading past them is out of bounds.\<close>

definition LoadU16 :: "byte list \<Rightarrow> sbe_error + u16" where
  "LoadU16 p = (if length p < 2 then Inl OutOfBounds else Inr (ucast (p ! 0) OR push_bit 8 (ucast (p ! 1))))"

definition LoadU32 :: "byte list \<Rightarrow> sbe_error + u32" where
  "LoadU32 p = (if length p < 4 then Inl OutOfBounds else Inr (fold (\<lambda>i v. v OR push_bit (i * 8) (ucast (p ! i))) [0..<4] 0))"

definition LoadU64 :: "byte list \<Rightarrow> sbe_error + u64" where
  "LoadU64 p = (if length p < 8 then Inl OutOfBounds else Inr (fold (\<lambda>i v. v OR push_bit (i * 8) (ucast (p ! i))) [0..<8] 0))"

definition LoadScalar :: "byte list \<Rightarrow> nat \<Rightarrow> sbe_error + u64" where
  "LoadScalar p sz =
     (if sz = 1 then (if p = [] then Inl OutOfBounds else Inr (ucast (hd p)))
      else if sz = 2 then map_sum id ucast (LoadU16 p)
      else if sz = 4 then map_sum id ucast (LoadU32 p)
      else if sz = 8 then LoadU64 p
      else Inr 0)"

definition sign_extend :: "nat \<Rightarrow> u64 \<Rightarrow> u64" where
  "sign_extend sz bits =
     (if sz = 1 then scast (ucast bits :: byte)
      else if sz = 2 then scast (ucast bits :: u16)
      else if sz = 4 then scast (ucast bits :: u32)
      else bits)"

definition drop_padding :: "byte list \<Rightarrow> byte list" where
  "drop_padding p = rev (dropWhile (\<lambda>b. b = 0) (rev p))"

definition store_scalar :: "FieldDescriptor \<Rightarrow> u64 \<Rightarrow> message \<Rightarrow> message" where
  "store_scalar fd bits msg =
     (case cpp_type fd of
        CPPTYPE_BOOL \<Rightarrow> set_field (f_number fd) (MBool (bits \<noteq> 0)) msg
      | CPPTYPE_INT32 \<Rightarrow> set_field (f_number fd) (MInt (sint (ucast bits :: u32))) msg
      | CPPTYPE_INT64 \<Rightarrow> set_field (f_number fd) (MInt (sint bits)) msg
      | CPPTYPE_UINT32 \<Rightarrow> set_field (f_number fd) (MUInt (unat (ucast bits :: u32))) msg
      | CPPTYPE_UINT64 \<Rightarrow> set_field (f_number fd) (MUInt (unat bits)) msg
      | CPPTYPE_ENUM \<Rightarrow> set_field (f_number fd) (MInt (sint (ucast bits :: u32))) msg
      | _ \<Rightarrow> msg)"

definition DecodeScalarField :: "byte list \<Rightarrow> FieldTemplate \<Rightarrow> message \<Rightarrow> sbe_error + message" where
  "DecodeScalarField p ft msg =
     (let fd = ft_fd ft; num = f_number fd in
      if ft_encoding ft = ''char'' then
        if length p < ft_size ft then Inl OutOfBounds
        else
          let region = take (ft_size ft) p;
              raw = (if f_type fd = TYPE_STRING then drop_padding region else region)
          in if f_type fd = TYPE_STRING \<and> \<not> IsValidUTF8 (string_of raw)
             then Inl (Msg (''sbe: invalid UTF-8 in string field '' @ f_name fd))
             else Inr (set_field num (MString (string_of raw)) msg)
      else case LoadScalar p (ft_size ft) of
          Inl e \<Rightarrow> Inl e
        | Inr bits0 \<Rightarrow>
            let rg = RangeOf ft
            in if ft_encoding ft = ''float'' \<or> ft_encoding ft = ''double'' then
                 let f = (if ft_encoding ft = ''float'' then widen (ucast bits0) else bits0)
                 in if ft_encoding ft = ''double'' \<and> read_check rg \<and> \<not> FloatFits f then Inl (WireFloat (f_full_name fd) f)
                    else if cpp_type fd = CPPTYPE_FLOAT then Inr (set_field num (MFloat (narrow f)) msg)
                    else Inr (set_field num (MDouble f) msg)
               else
                 let bits = (if enc_signed rg then sign_extend (ft_size ft) bits0 else bits0)
                 in if read_check rg \<and> \<not> InRange bits (\<not> enc_signed rg) (field_lo rg) (field_hi rg)
                    then Inl (Msg (''sbe: field '' @ f_full_name fd @ '': wire value '' @ IntString bits (\<not> enc_signed rg) @
                           '' ('' @ ft_encoding ft @ '') does not fit a '' @ type_name (f_type fd) @ '' field, ['' @
                           to_string_int (field_lo rg) @ '', '' @ to_string_int (field_hi rg) @ '']''))
                    else Inr (store_scalar fd bits msg))"

definition subspan :: "nat \<Rightarrow> nat \<Rightarrow> byte list \<Rightarrow> sbe_error + byte list" where
  "subspan off n p = (if length p < off + n then Inl OutOfBounds else Inr (take n (drop off p)))"

fun DecodeFields :: "byte list \<Rightarrow> FieldTemplate list \<Rightarrow> message \<Rightarrow> sbe_error + message" where
  "DecodeFields block [] msg = Inr msg"
| "DecodeFields block (FieldTemplate fd off sz enc sub # fts) msg =
     (case (if sub \<noteq> [] then
              (case subspan off sz block of
                 Inl e \<Rightarrow> Inl e
               | Inr region \<Rightarrow>
                   map_sum id (\<lambda>m. set_field (f_number fd) (MMessage m) msg)
                     (DecodeFields region sub (get_message (f_number fd) msg)))
            else DecodeScalarField (drop off block) (FieldTemplate fd off sz enc sub) msg) of
        Inl e \<Rightarrow> Inl e
      | Inr msg' \<Rightarrow> DecodeFields block fts msg')"

text \<open>
  \<open>by_name_\<close> owns the templates and \<open>by_id_\<close> points at them: both hold addresses of \<open>c_heap\<close>, the templates
  that are allocated. \<open>IDKey\<close> is injective on two 16-bit ids, so a key is the pair of them.
\<close>

record Codec =
  by_name :: "(string \<times> nat) list"
  by_id :: "((nat \<times> nat) \<times> (string \<times> nat)) list"
  c_heap :: "(nat \<times> MessageTemplate) list"
  c_next :: nat
  c_max_message_size :: nat
  c_max_repeated :: nat

fun ValidateGroups :: "nat \<Rightarrow> byte list \<Rightarrow> GroupTemplate list \<Rightarrow> nat \<Rightarrow> sbe_error + unit" where
  "ValidateGroups maxrep data [] pos = Inr ()"
| "ValidateGroups maxrep data (gt # gts) pos =
     (if length data < pos + 4 then Inl (Msg ''sbe: data too short for group header'')
      else case (LoadU16 (drop pos data), LoadU16 (drop (pos + 2) data)) of
          (Inr eb, Inr c) \<Rightarrow>
            (let entry_block = unat eb; count = unat c; remaining = length data - (pos + 4);
                 loc = ''sbe: group '' @ f_name (gt_fd gt)
             in if entry_block < gt_block_length gt
                then Inl (Msg (loc @ '' wire blockLength '' @ to_string entry_block @ '' < schema blockLength '' @ to_string (gt_block_length gt)))
                else if 0 < count \<and> entry_block = 0
                then Inl (Msg (loc @ '' declares '' @ to_string count @ '' entries of 0 bytes''))
                else if 0 < entry_block \<and> remaining div entry_block < count
                then Inl (Msg (loc @ '' declares '' @ to_string count @ '' entries '' @ [CHR 0xC3, CHR 0x97] @ '' '' @ to_string entry_block @ '' bytes, '' @
                       to_string remaining @ '' bytes remaining''))
                else if maxrep < count
                then Inl (Msg (loc @ '' declares '' @ to_string count @ '' entries, MaxRepeatedCount='' @ to_string maxrep))
                else ValidateGroups maxrep data gts (pos + 4 + entry_block * count))
        | _ \<Rightarrow> Inl OutOfBounds)"

text \<open>The entries of one group from \<open>pos\<close> on, and the groups one after another.\<close>

fun DecodeEntries :: "nat \<Rightarrow> byte list \<Rightarrow> nat \<Rightarrow> nat \<Rightarrow> GroupTemplate \<Rightarrow> message list \<Rightarrow> sbe_error + message list \<times> nat" where
  "DecodeEntries 0 data pos entry_block gt entries = Inr (entries, pos)"
| "DecodeEntries (Suc count) data pos entry_block gt entries =
     (case subspan pos entry_block data of
        Inl e \<Rightarrow> Inl e
      | Inr region \<Rightarrow>
          (case DecodeFields region (gt_fields gt) [] of
             Inl e \<Rightarrow> Inl e
           | Inr entry \<Rightarrow> DecodeEntries count data (pos + entry_block) entry_block gt (entries @ [entry])))"

fun DecodeGroups :: "byte list \<Rightarrow> GroupTemplate list \<Rightarrow> nat \<Rightarrow> message \<Rightarrow> sbe_error + message" where
  "DecodeGroups data [] pos msg = Inr msg"
| "DecodeGroups data (gt # gts) pos msg =
     (case (LoadU16 (drop pos data), LoadU16 (drop (pos + 2) data)) of
        (Inr eb, Inr c) \<Rightarrow>
          (case DecodeEntries (unat c) data (pos + 4) (unat eb) gt (get_repeated (f_number (gt_fd gt)) msg) of
             Inl e \<Rightarrow> Inl e
           | Inr (entries, pos') \<Rightarrow>
               DecodeGroups data gts pos' (if entries = [] then msg else set_field (f_number (gt_fd gt)) (MRepeated entries) msg))
      | _ \<Rightarrow> Inl OutOfBounds)"

definition Validate :: "(message \<Rightarrow> string + Report) option \<Rightarrow> message \<Rightarrow> sbe_error + message" where
  "Validate validator msg =
     (case validator of
        None \<Rightarrow> Inr msg
      | Some f \<Rightarrow> (case fst (Finish (f msg)) of Inl e \<Rightarrow> Inl (Msg e) | Inr _ \<Rightarrow> Inr msg))"

definition UnmarshalInto ::
  "(message \<Rightarrow> string + Report) option \<Rightarrow> nat \<Rightarrow> byte list \<Rightarrow> MessageTemplate \<Rightarrow> message \<Rightarrow> sbe_error + message" where
  "UnmarshalInto validator maxrep data tmpl msg =
     (if length data < 8 then Inl (Msg (''sbe: data too short for header: '' @ to_string (length data) @ '' bytes''))
      else case (LoadU16 data, LoadU16 (drop 2 data), LoadU16 (drop 4 data)) of
          (Inr bl, Inr ti, Inr si) \<Rightarrow>
            (let block_length = unat bl; template_id = unat ti; schema_id = unat si
             in if template_id \<noteq> mt_template_id tmpl
                then Inl (Msg (''sbe: template ID mismatch: got '' @ to_string template_id @ '', want '' @ to_string (mt_template_id tmpl)))
                else if schema_id \<noteq> mt_schema_id tmpl
                then Inl (Msg (''sbe: schema ID mismatch: got '' @ to_string schema_id @ '', want '' @ to_string (mt_schema_id tmpl) @
                       '' for template '' @ to_string (mt_template_id tmpl)))
                else if block_length < mt_block_length tmpl
                then Inl (Msg (''sbe: wire blockLength '' @ to_string block_length @ '' < schema blockLength '' @
                       to_string (mt_block_length tmpl) @ '' for template '' @ to_string (mt_template_id tmpl)))
                else if length data < 8 + block_length
                then Inl (Msg (''sbe: data too short for root block: need '' @ to_string (8 + block_length) @ '', have '' @ to_string (length data)))
                else case ValidateGroups maxrep data (mt_groups tmpl) (8 + block_length) of
                    Inl e \<Rightarrow> Inl e
                  | Inr _ \<Rightarrow>
                      (case subspan 8 block_length data of
                         Inl e \<Rightarrow> Inl e
                       | Inr block \<Rightarrow>
                           (case DecodeFields block (mt_fields tmpl) msg of
                              Inl e \<Rightarrow> Inl e
                            | Inr msg' \<Rightarrow>
                                (case DecodeGroups data (mt_groups tmpl) (8 + block_length) msg' of
                                   Inl e \<Rightarrow> Inl e
                                 | Inr msg'' \<Rightarrow> Validate validator msg''))))
        | _ \<Rightarrow> Inl OutOfBounds)"

section \<open>The codec\<close>

definition TemplateByName :: "Codec \<Rightarrow> string \<Rightarrow> MessageTemplate option" where
  "TemplateByName c name = (case map_of (by_name c) name of None \<Rightarrow> None | Some a \<Rightarrow> map_of (c_heap c) a)"

definition Marshal :: "Codec \<Rightarrow> string \<Rightarrow> message \<Rightarrow> sbe_error + byte list" where
  "Marshal c name msg =
     (case TemplateByName c name of
        None \<Rightarrow> Inl (Msg (''sbe: no template registered for '' @ name))
      | Some tmpl \<Rightarrow> MarshalTemplate tmpl msg)"

definition too_big :: "Codec \<Rightarrow> byte list \<Rightarrow> sbe_error" where
  "too_big c data = Msg (''sbe: input of '' @ to_string (length data) @ '' bytes exceeds MaxMessageSize='' @ to_string (c_max_message_size c))"

definition Unmarshal :: "(message \<Rightarrow> string + Report) option \<Rightarrow> Codec \<Rightarrow> byte list \<Rightarrow> string \<Rightarrow> message \<Rightarrow> sbe_error + message" where
  "Unmarshal validator c data name msg =
     (if c_max_message_size c < length data then Inl (too_big c data)
      else case TemplateByName c name of
          None \<Rightarrow> Inl (Msg (''sbe: no template registered for '' @ name))
        | Some tmpl \<Rightarrow> UnmarshalInto validator (c_max_repeated c) data tmpl msg)"

definition UnmarshalDescriptor :: "(message \<Rightarrow> string + Report) option \<Rightarrow> Codec \<Rightarrow> byte list \<Rightarrow> Descriptor \<Rightarrow> sbe_error + message" where
  "UnmarshalDescriptor validator c data desc = Unmarshal validator c data (d_full_name desc) []"

text \<open>\<open>operator[]\<close> and \<open>find\<close> of an unordered map as an association list with one entry per key.\<close>

definition put :: "'k \<Rightarrow> 'v \<Rightarrow> ('k \<times> 'v) list \<Rightarrow> ('k \<times> 'v) list" where
  "put k v m = (k, v) # filter (\<lambda>e. fst e \<noteq> k) m"

definition RegisterOne :: "nat \<Rightarrow> ranges \<Rightarrow> pool \<Rightarrow> nat \<Rightarrow> nat \<Rightarrow> Descriptor \<Rightarrow> Codec \<Rightarrow> (string + Codec) option" where
  "RegisterOne fuel ranges pool schema_id version md c =
     (if GetUint32Option (d_options md) kExtTemplateID = None then
        Some (if StaleMessageError md \<noteq> [] then Inl (StaleMessageError md) else Inr c)
      else case BuildTemplate fuel ranges pool md schema_id version of
          None \<Rightarrow> None
        | Some (Inl e) \<Rightarrow> Some (Inl e)
        | Some (Inr tmpl) \<Rightarrow>
            let name = d_full_name md; key = (schema_id, mt_template_id tmpl); a = c_next c;
                heap = (case map_of (by_name c) name of None \<Rightarrow> c_heap c | Some old \<Rightarrow> filter (\<lambda>e. fst e \<noteq> old) (c_heap c));
                ok = c\<lparr>by_id := put key (name, a) (by_id c), by_name := put name a (by_name c),
                       c_heap := (a, tmpl) # heap, c_next := a + 1\<rparr>
            in (case map_of (by_id c) key of
                  Some (prev, _) \<Rightarrow>
                    if prev \<noteq> name
                    then Some (Inl (''sbe: messages '' @ prev @ '' and '' @ name @ '' share (sbe.template_id) = '' @
                           to_string (mt_template_id tmpl) @ '' in schema '' @ to_string schema_id @ ''; it must be unique within a schema''))
                    else Some (Inr ok)
                | None \<Rightarrow> Some (Inr ok)))"

fun RegisterMessage :: "nat \<Rightarrow> ranges \<Rightarrow> pool \<Rightarrow> nat \<Rightarrow> nat \<Rightarrow> Descriptor \<Rightarrow> Codec \<Rightarrow> (string + Codec) option"
  and RegisterAll :: "nat \<Rightarrow> ranges \<Rightarrow> pool \<Rightarrow> nat \<Rightarrow> nat \<Rightarrow> Descriptor list \<Rightarrow> Codec \<Rightarrow> (string + Codec) option" where
  "RegisterMessage fuel ranges pool schema_id version (Descriptor name fds opts nested) c =
     (case RegisterOne fuel ranges pool schema_id version (Descriptor name fds opts nested) c of
        Some (Inr c') \<Rightarrow> RegisterAll fuel ranges pool schema_id version nested c'
      | r \<Rightarrow> r)"
| "RegisterAll fuel ranges pool schema_id version [] c = Some (Inr c)"
| "RegisterAll fuel ranges pool schema_id version (md # mds) c =
     (case RegisterMessage fuel ranges pool schema_id version md c of
        Some (Inr c') \<Rightarrow> RegisterAll fuel ranges pool schema_id version mds c'
      | r \<Rightarrow> r)"

record FileDescriptor =
  file_name :: string
  file_options :: Options
  file_messages :: "Descriptor list"

definition StaleFileError :: "FileDescriptor \<Rightarrow> string" where
  "StaleFileError fd =
     (if CarriesRetired (file_options fd) kRetiredSchemaID
      then StaleText (''file '' @ file_name fd) ''schema_id'' kRetiredSchemaID kExtSchemaID else [])"

fun New_loop :: "nat \<Rightarrow> ranges \<Rightarrow> pool \<Rightarrow> FileDescriptor list \<Rightarrow> Codec \<Rightarrow> (string + Codec) option" where
  "New_loop fuel ranges pool [] c = Some (Inr c)"
| "New_loop fuel ranges pool (fd # fds) c =
     (case GetUint32Option (file_options fd) kExtSchemaID of
        None \<Rightarrow>
          Some (Inl (if StaleFileError fd \<noteq> [] then StaleFileError fd
                     else ''sbe: file '' @ file_name fd @ '' missing (sbe.schema_id) option''))
      | Some schema \<Rightarrow>
          let version = (case GetUint32Option (file_options fd) kExtVersion of Some v \<Rightarrow> v | None \<Rightarrow> 0)
          in if kMaxUint16 < unat schema
             then Some (Inl (''sbe: file '' @ file_name fd @ '': (sbe.schema_id) = '' @ to_string (unat schema) @ '' is past '' @
                    to_string kMaxUint16 @ '', the largest schemaId SBE can state''))
             else if kMaxUint16 < unat version
             then Some (Inl (''sbe: file '' @ file_name fd @ '': (sbe.version) = '' @ to_string (unat version) @ '' is past '' @
                    to_string kMaxUint16 @ '', the largest version SBE can state''))
             else (case RegisterAll fuel ranges pool (unat schema) (unat version) (file_messages fd) c of
                 Some (Inr c') \<Rightarrow> New_loop fuel ranges pool fds c'
               | r \<Rightarrow> r))"

definition New :: "nat \<Rightarrow> ranges \<Rightarrow> pool \<Rightarrow> FileDescriptor list \<Rightarrow> int \<Rightarrow> int \<Rightarrow> (string + Codec) option" where
  "New fuel ranges pool files opt_max_message_size opt_max_repeated_count =
     New_loop fuel ranges pool files
       \<lparr>by_name = [], by_id = [], c_heap = [], c_next = 0, c_max_message_size = pick_limit opt_max_message_size kMaxMessageSize,
        c_max_repeated = pick_limit opt_max_repeated_count kMaxRepeatedCount\<rparr>"

section \<open>Views\<close>

record View =
  v_data :: "byte list"
  v_block :: "byte list"
  v_fields :: "FieldTemplate list option"
  v_groups :: "GroupTemplate list option"

record GroupView =
  g_data :: "byte list"
  g_block_length :: nat
  g_count :: nat
  g_fields :: "FieldTemplate list option"

definition empty_view :: View where
  "empty_view = \<lparr>v_data = [], v_block = [], v_fields = None, v_groups = None\<rparr>"

definition empty_group :: GroupView where
  "empty_group = \<lparr>g_data = [], g_block_length = 0, g_count = 0, g_fields = None\<rparr>"

definition NewView :: "Codec \<Rightarrow> byte list \<Rightarrow> sbe_error + View" where
  "NewView c data =
     (if c_max_message_size c < length data then Inl (too_big c data)
      else if length data < 8 then Inl (Msg ''sbe: data too short for header'')
      else case (LoadU16 data, LoadU16 (drop 2 data), LoadU16 (drop 4 data)) of
          (Inr bl, Inr ti, Inr si) \<Rightarrow>
            (let block_length = unat bl; template_id = unat ti; schema_id = unat si
             in (case map_of (by_id c) (schema_id, template_id) of
                  None \<Rightarrow> Inl (Msg (''sbe: unknown template ID '' @ to_string template_id @ '' in schema '' @ to_string schema_id))
                | Some (_, a) \<Rightarrow>
                  (case map_of (c_heap c) a of
                     None \<Rightarrow> Inl Dangling
                   | Some tmpl \<Rightarrow>
                    if block_length < mt_block_length tmpl
                    then Inl (Msg (''sbe: wire blockLength '' @ to_string block_length @ '' < schema blockLength '' @
                           to_string (mt_block_length tmpl) @ '' for template '' @ to_string template_id))
                    else if length data < 8 + block_length then Inl (Msg ''sbe: data too short for root block'')
                    else (case ValidateGroups (c_max_repeated c) data (mt_groups tmpl) (8 + block_length) of
                        Inl e \<Rightarrow> Inl e
                      | Inr _ \<Rightarrow>
                          (case subspan 8 block_length data of
                             Inl e \<Rightarrow> Inl e
                           | Inr block \<Rightarrow>
                               Inr \<lparr>v_data = data, v_block = block, v_fields = Some (mt_fields tmpl), v_groups = Some (mt_groups tmpl)\<rparr>)))))
        | _ \<Rightarrow> Inl OutOfBounds)"

definition FindField :: "View \<Rightarrow> string \<Rightarrow> FieldTemplate option" where
  "FindField v name =
     (case v_fields v of None \<Rightarrow> None | Some fts \<Rightarrow> find (\<lambda>ft. f_name (ft_fd ft) = name) fts)"

definition View_Bool :: "View \<Rightarrow> string \<Rightarrow> sbe_error + bool" where
  "View_Bool v name =
     (case FindField v name of
        None \<Rightarrow> Inr False
      | Some ft \<Rightarrow>
          if ft_size ft = 0 then Inr False
          else if length (v_block v) \<le> ft_offset ft then Inl OutOfBounds
          else Inr (v_block v ! ft_offset ft \<noteq> 0))"

definition View_Int :: "View \<Rightarrow> string \<Rightarrow> sbe_error + int" where
  "View_Int v name =
     (case FindField v name of
        None \<Rightarrow> Inr 0
      | Some ft \<Rightarrow> map_sum id (\<lambda>b. sint (sign_extend (ft_size ft) b)) (LoadScalar (drop (ft_offset ft) (v_block v)) (ft_size ft)))"

definition View_Uint :: "View \<Rightarrow> string \<Rightarrow> sbe_error + nat" where
  "View_Uint v name =
     (case FindField v name of
        None \<Rightarrow> Inr 0
      | Some ft \<Rightarrow> map_sum id unat (LoadScalar (drop (ft_offset ft) (v_block v)) (ft_size ft)))"

definition View_Float :: "View \<Rightarrow> string \<Rightarrow> sbe_error + u64" where
  "View_Float v name =
     (case FindField v name of
        None \<Rightarrow> Inr 0
      | Some ft \<Rightarrow>
          if ft_size ft = 4 then map_sum id widen (LoadU32 (drop (ft_offset ft) (v_block v)))
          else if ft_size ft = 8 then LoadU64 (drop (ft_offset ft) (v_block v))
          else Inr 0)"

definition View_Bytes :: "View \<Rightarrow> string \<Rightarrow> sbe_error + byte list" where
  "View_Bytes v name =
     (case FindField v name of
        None \<Rightarrow> Inr []
      | Some ft \<Rightarrow> subspan (ft_offset ft) (ft_size ft) (v_block v))"

definition View_String :: "View \<Rightarrow> string \<Rightarrow> sbe_error + byte list" where
  "View_String v name = map_sum id drop_padding (View_Bytes v name)"

fun Group_loop :: "byte list \<Rightarrow> GroupTemplate list \<Rightarrow> nat \<Rightarrow> string \<Rightarrow> sbe_error + GroupView" where
  "Group_loop data [] pos name = Inr empty_group"
| "Group_loop data (gt # gts) pos name =
     (if length data < pos + 4 then Inr empty_group
      else case (LoadU16 (drop (8 + pos) data), LoadU16 (drop (8 + pos + 2) data)) of
          (Inr eb, Inr c) \<Rightarrow>
            if f_name (gt_fd gt) = name
            then map_sum id (\<lambda>d. \<lparr>g_data = d, g_block_length = unat eb, g_count = unat c, g_fields = Some (gt_fields gt)\<rparr>)
                   (subspan (8 + pos + 4) (unat eb * unat c) data)
            else Group_loop data gts (pos + (4 + unat eb * unat c)) name
        | _ \<Rightarrow> Inl OutOfBounds)"

definition View_Group :: "View \<Rightarrow> string \<Rightarrow> sbe_error + GroupView" where
  "View_Group v name =
     (case v_groups v of
        None \<Rightarrow> Inr empty_group
      | Some gts \<Rightarrow> Group_loop (v_data v) gts (length (v_block v)) name)"

definition View_Composite :: "View \<Rightarrow> string \<Rightarrow> sbe_error + View" where
  "View_Composite v name =
     (case FindField v name of
        None \<Rightarrow> Inr empty_view
      | Some ft \<Rightarrow>
          if ft_composite ft = [] then Inr empty_view
          else map_sum id (\<lambda>b. \<lparr>v_data = v_data v, v_block = b, v_fields = Some (ft_composite ft), v_groups = None\<rparr>)
                 (subspan (ft_offset ft) (ft_size ft) (v_block v)))"

definition GroupView_Entry :: "GroupView \<Rightarrow> nat \<Rightarrow> sbe_error + View" where
  "GroupView_Entry g i =
     (if g_count g \<le> i \<or> length (g_data g) < (i + 1) * g_block_length g then Inr empty_view
      else map_sum id (\<lambda>b. \<lparr>v_data = [], v_block = b, v_fields = g_fields g, v_groups = None\<rparr>)
             (subspan (i * g_block_length g) (g_block_length g) (g_data g)))"

end
