(* ===== verification/SbeSafety.thy ===== *)
theory SbeSafety
  imports SbeCodec
begin

text \<open>
  Memory safety of the SBE readers: on arbitrary bytes neither \<open>Unmarshal\<close> nor any accessor of a view, or of
  a view obtained from it, reads outside a buffer, and \<open>NewView\<close> does not follow a pointer to a freed template
  when no message name is registered under two ids.
\<close>

section \<open>Fields within a block\<close>

lemma layout_member:
  "layout off fts fin \<Longrightarrow> ft \<in> set fts \<Longrightarrow>
   ft_offset ft + ft_size ft \<le> fin \<and> (ft_composite ft \<noteq> [] \<longrightarrow> layout 0 (ft_composite ft) (ft_size ft))"
proof (induction off fts fin rule: layout.induct)
  case (2 off fd o1 n e sub fts fin)
  then show ?case using layout_mono [of "off + n" fts fin] by (auto split: if_splits)
qed simp

lemma LoadU16_ok: "2 \<le> length p \<Longrightarrow> \<exists>v. LoadU16 p = Inr v"
  by (simp add: LoadU16_def)

lemma LoadScalar_ok: "n \<le> length p \<Longrightarrow> \<exists>v. LoadScalar p n = Inr v"
  by (auto simp: LoadScalar_def LoadU16_def LoadU32_def LoadU64_def)

lemma DecodeScalarField_ok:
  assumes "ft_size ft \<le> length p"
  shows "DecodeScalarField p ft msg \<notin> {Inl OutOfBounds, Inl Dangling}"
  using LoadScalar_ok [OF assms] assms by (auto simp: DecodeScalarField_def Let_def split: if_splits)

lemma DecodeFields_ok:
  "layout off fts fin \<Longrightarrow> fin \<le> length block \<Longrightarrow> DecodeFields block fts msg \<notin> {Inl OutOfBounds, Inl Dangling}"
proof (induction block fts msg arbitrary: off fin rule: DecodeFields.induct)
  case (2 block fd o1 n e sub fts msg)
  have fin: "o1 + n \<le> fin" using layout_member [OF 2(3), of "FieldTemplate fd o1 n e sub"] by simp
  have rest: "layout (o1 + n) fts fin" using 2(3) by (auto split: if_splits)
  show ?case
  proof (cases "sub = []")
    case True
    have "n \<le> length (drop o1 block)" using fin 2(4) by simp
    with True DecodeScalarField_ok [of "FieldTemplate fd o1 n e sub" "drop o1 block" msg] 2(2) [OF _ rest 2(4)]
    show ?thesis by (auto split: sum.splits)
  next
    case False
    then have sub: "layout 0 sub n" using layout_member [OF 2(3), of "FieldTemplate fd o1 n e sub"] by simp
    have sp: "subspan o1 n block = Inr (take n (drop o1 block))" using fin 2(4) by (simp add: subspan_def)
    have "DecodeFields (take n (drop o1 block)) sub (get_message (f_number fd) msg) \<notin> {Inl OutOfBounds, Inl Dangling}"
      using 2(1) [OF False sp sub] fin 2(4) by simp
    then show ?thesis using False sp 2(2) [OF _ rest] 2(4)
      by (cases "DecodeFields (take n (drop o1 block)) sub (get_message (f_number fd) msg)") auto
  qed
qed simp

section \<open>Groups within the data\<close>

fun groups_fit :: "byte list \<Rightarrow> GroupTemplate list \<Rightarrow> nat \<Rightarrow> bool" where
  "groups_fit data [] pos = (pos \<le> length data)"
| "groups_fit data (gt # gts) pos =
     (pos + 4 \<le> length data \<and>
      (case (LoadU16 (drop pos data), LoadU16 (drop (pos + 2) data)) of
         (Inr eb, Inr c) \<Rightarrow> gt_block_length gt \<le> unat eb \<and> groups_fit data gts (pos + 4 + unat eb * unat c)
       | _ \<Rightarrow> False))"

lemma groups_fit_le: "groups_fit data gts pos \<Longrightarrow> pos \<le> length data"
  by (cases gts) auto

lemma group_header:
  assumes "pos + 4 \<le> length data"
  obtains eb c where "LoadU16 (drop pos data) = Inr eb" "LoadU16 (drop (pos + 2) data) = Inr c"
proof -
  have "2 \<le> length (drop pos data)" "2 \<le> length (drop (pos + 2) data)" using assms by simp_all
  with LoadU16_ok that show ?thesis by blast
qed

lemma message_header:
  assumes "8 \<le> length data"
  shows "\<exists>bl ti si. LoadU16 data = Inr bl \<and> LoadU16 (drop 2 data) = Inr ti \<and> LoadU16 (drop 4 data) = Inr si"
proof -
  have "2 \<le> length data" "2 \<le> length (drop 2 data)" "2 \<le> length (drop 4 data)" using assms by simp_all
  with LoadU16_ok show ?thesis by blast
qed

lemma ValidateGroups_fit:
  "ValidateGroups maxrep data gts pos = Inr u \<Longrightarrow> pos \<le> length data \<Longrightarrow> groups_fit data gts pos"
proof (induction gts arbitrary: pos)
  case (Cons gt gts)
  have l: "pos + 4 \<le> length data" using Cons.prems(1) by (auto split: if_splits)
  then obtain eb c where ld: "LoadU16 (drop pos data) = Inr eb" "LoadU16 (drop (pos + 2) data) = Inr c" by (rule group_header)
  have v: "gt_block_length gt \<le> unat eb" "\<not> (0 < unat c \<and> unat eb = 0)"
    "0 < unat eb \<longrightarrow> unat c \<le> (length data - (pos + 4)) div unat eb"
    "ValidateGroups maxrep data gts (pos + 4 + unat eb * unat c) = Inr u"
    using Cons.prems(1) l ld by (auto simp: Let_def not_less split: if_splits)
  have "unat eb * unat c \<le> length data - (pos + 4)"
  proof (cases "unat eb = 0")
    case False
    then have "unat c * unat eb \<le> length data - (pos + 4)" using v(3) by (simp add: less_eq_div_iff_mult_less_eq)
    then show ?thesis by (simp add: mult.commute)
  qed simp
  then have "pos + 4 + unat eb * unat c \<le> length data" using l by linarith
  with Cons.IH v(1,4) l ld show ?case by simp
qed simp

lemma ValidateGroups_ok: "ValidateGroups maxrep data gts pos \<notin> {Inl OutOfBounds, Inl Dangling}"
proof (induction gts arbitrary: pos)
  case (Cons gt gts)
  show ?case
  proof (cases "length data < pos + 4")
    case False
    then obtain eb c where "LoadU16 (drop pos data) = Inr eb" "LoadU16 (drop (pos + 2) data) = Inr c"
      using group_header [of pos data] by auto
    with False Cons.IH show ?thesis by (auto simp: Let_def)
  qed simp
qed simp

lemma DecodeEntries_ok:
  assumes "pos + count * eb \<le> length data" "layout 0 (gt_fields gt) fin" "fin \<le> eb"
  shows "DecodeEntries count data pos eb gt es \<notin> {Inl OutOfBounds, Inl Dangling} \<and>
    (\<forall>es' pos'. DecodeEntries count data pos eb gt es = Inr (es', pos') \<longrightarrow> pos' = pos + count * eb)"
  using assms(1)
proof (induction count arbitrary: pos es)
  case (Suc count)
  have sp: "subspan pos eb data = Inr (take eb (drop pos data))" using Suc.prems by (simp add: subspan_def)
  have "DecodeFields (take eb (drop pos data)) (gt_fields gt) [] \<notin> {Inl OutOfBounds, Inl Dangling}"
    using DecodeFields_ok [OF assms(2)] Suc.prems assms(3) by simp
  moreover have "pos + eb + count * eb = pos + Suc count * eb" by simp
  ultimately show ?case using Suc.IH [of "pos + eb"] Suc.prems sp by (simp add: add.assoc split: sum.splits) blast
qed simp

lemma DecodeGroups_ok:
  assumes "groups_fit data gts pos" "\<forall>g\<in>set gts. layout 0 (gt_fields g) (gt_block_length g)"
  shows "DecodeGroups data gts pos msg \<notin> {Inl OutOfBounds, Inl Dangling}"
  using assms
proof (induction gts arbitrary: pos msg)
  case (Cons gt gts)
  from Cons.prems(1) have "pos + 4 \<le> length data" by simp
  then obtain eb c where ld: "LoadU16 (drop pos data) = Inr eb" "LoadU16 (drop (pos + 2) data) = Inr c" by (rule group_header)
  have g: "gt_block_length gt \<le> unat eb" "groups_fit data gts (pos + 4 + unat eb * unat c)" using Cons.prems(1) ld by auto
  from groups_fit_le [OF g(2)] have "pos + 4 + unat c * unat eb \<le> length data" by (simp add: mult.commute)
  from DecodeEntries_ok [OF this _ g(1), of gt "get_repeated (f_number (gt_fd gt)) msg"] Cons.prems(2)
  show ?case using Cons.IH [OF g(2)] Cons.prems(2) ld by (auto simp: mult.commute split: sum.splits)
qed simp

lemma UnmarshalInto_ok:
  assumes "template_ok tmpl"
  shows "UnmarshalInto validator maxrep data tmpl msg \<notin> {Inl OutOfBounds, Inl Dangling}"
proof (cases "length data < 8")
  case False
  then obtain bl ti si where ld: "LoadU16 data = Inr bl" "LoadU16 (drop 2 data) = Inr ti" "LoadU16 (drop 4 data) = Inr si"
    using message_header [of data] by auto
  show ?thesis
  proof (cases "mt_block_length tmpl \<le> unat bl \<and> 8 + unat bl \<le> length data")
    case True
    have sp: "subspan 8 (unat bl) data = Inr (take (unat bl) (drop 8 data))" using True by (simp add: subspan_def)
    have "mt_block_length tmpl \<le> length (take (unat bl) (drop 8 data))" using True by (simp add: min_def) linarith
    then have "DecodeFields (take (unat bl) (drop 8 data)) (mt_fields tmpl) msg \<notin> {Inl OutOfBounds, Inl Dangling}"
      using DecodeFields_ok [of 0 "mt_fields tmpl" "mt_block_length tmpl"] assms by (simp add: template_ok_def)
    moreover have "DecodeGroups data (mt_groups tmpl) (8 + unat bl) m \<notin> {Inl OutOfBounds, Inl Dangling}"
      if "ValidateGroups maxrep data (mt_groups tmpl) (8 + unat bl) = Inr u" for u m
      using ValidateGroups_fit [OF that] True assms by (intro DecodeGroups_ok) (auto simp: template_ok_def)
    ultimately show ?thesis
      using False ld sp True ValidateGroups_ok [of maxrep data "mt_groups tmpl" "8 + unat bl"]
      by (auto simp: UnmarshalInto_def Let_def Validate_def split: sum.splits option.splits)
  qed (use False ld in \<open>auto simp: UnmarshalInto_def Let_def\<close>)
qed (simp add: UnmarshalInto_def)


section \<open>Views\<close>

text \<open>A field list of a view lies within its block; the groups of a root view lie within its data.\<close>

definition view_ok :: "View \<Rightarrow> bool" where
  "view_ok v \<longleftrightarrow>
     (\<forall>fts. v_fields v = Some fts \<longrightarrow> (\<exists>fin. layout 0 fts fin \<and> fin \<le> length (v_block v))) \<and>
     (\<forall>gts. v_groups v = Some gts \<longrightarrow>
        groups_fit (v_data v) gts (8 + length (v_block v)) \<and> (\<forall>g\<in>set gts. layout 0 (gt_fields g) (gt_block_length g)))"

definition group_ok :: "GroupView \<Rightarrow> bool" where
  "group_ok g \<longleftrightarrow> (\<forall>fts. g_fields g = Some fts \<longrightarrow> (\<exists>fin. layout 0 fts fin \<and> fin \<le> g_block_length g))"

lemma empty_view_ok [simp]: "view_ok empty_view"
  by (simp add: view_ok_def empty_view_def)

lemma empty_group_ok [simp]: "group_ok empty_group"
  by (simp add: group_ok_def empty_group_def)

lemma FindField_fits:
  assumes "view_ok v" "FindField v name = Some ft"
  shows "ft_offset ft + ft_size ft \<le> length (v_block v) \<and> (ft_composite ft \<noteq> [] \<longrightarrow> layout 0 (ft_composite ft) (ft_size ft))"
proof -
  obtain fts where fts: "v_fields v = Some fts" "ft \<in> set fts"
    using assms(2) by (auto simp: FindField_def find_Some_iff split: option.splits)
  with assms(1) obtain fin where "layout 0 fts fin" "fin \<le> length (v_block v)" by (auto simp: view_ok_def)
  with layout_member [OF this(1) fts(2)] show ?thesis by auto
qed

lemma FindField_load:
  assumes "view_ok v" "FindField v name = Some ft"
  shows "\<exists>b. LoadScalar (drop (ft_offset ft) (v_block v)) (ft_size ft) = Inr b"
  using FindField_fits [OF assms] by (intro LoadScalar_ok) auto

lemma View_Composite_ok:
  assumes "view_ok v"
  shows "\<exists>w. View_Composite v name = Inr w \<and> view_ok w"
proof (cases "FindField v name")
  case (Some ft)
  show ?thesis
  proof (cases "ft_composite ft = []")
    case False
    with Some FindField_fits [OF assms Some] show ?thesis by (auto simp: View_Composite_def subspan_def view_ok_def)
  qed (simp add: View_Composite_def Some)
qed (simp add: View_Composite_def)

lemma Group_loop_ok:
  "groups_fit data gts (8 + pos) \<Longrightarrow> \<forall>g\<in>set gts. layout 0 (gt_fields g) (gt_block_length g) \<Longrightarrow>
   \<exists>g. Group_loop data gts pos name = Inr g \<and> group_ok g"
proof (induction gts arbitrary: pos)
  case (Cons gt gts)
  have l: "8 + pos + 4 \<le> length data" using Cons.prems(1) by simp
  then obtain eb c where ld: "LoadU16 (drop (8 + pos) data) = Inr eb" "LoadU16 (drop (8 + pos + 2) data) = Inr c"
    by (rule group_header)
  have g: "gt_block_length gt \<le> unat eb" "groups_fit data gts (8 + pos + 4 + unat eb * unat c)" using Cons.prems(1) ld by auto
  show ?case
  proof (cases "f_name (gt_fd gt) = name")
    case True
    have "subspan (8 + pos + 4) (unat eb * unat c) data = Inr (take (unat eb * unat c) (drop (8 + pos + 4) data))"
      using groups_fit_le [OF g(2)] by (simp add: subspan_def)
    with True l ld g(1) Cons.prems(2) show ?thesis by (auto simp: group_ok_def)
  next
    case False
    have "groups_fit data gts (8 + (pos + (4 + unat eb * unat c)))" using g(2) by (simp add: add.assoc)
    with Cons.IH Cons.prems(2) False l ld show ?thesis by simp
  qed
qed simp

lemma View_Group_ok:
  assumes "view_ok v"
  shows "\<exists>g. View_Group v name = Inr g \<and> group_ok g"
  using assms Group_loop_ok by (auto simp: View_Group_def view_ok_def split: option.splits)

lemma GroupView_Entry_ok:
  assumes "group_ok g"
  shows "\<exists>w. GroupView_Entry g i = Inr w \<and> view_ok w"
proof (cases "g_count g \<le> i \<or> length (g_data g) < (i + 1) * g_block_length g")
  case False
  then have "i * g_block_length g + g_block_length g \<le> length (g_data g)" by (simp add: algebra_simps)
  with False assms show ?thesis
    by (auto simp: GroupView_Entry_def subspan_def view_ok_def group_ok_def)
qed (simp add: GroupView_Entry_def)

text \<open>Every view a client can hold: the view of a message, then composites and group entries below it.\<close>

inductive view_of :: "Codec \<Rightarrow> View \<Rightarrow> bool" for c where
  root: "NewView c data = Inr v \<Longrightarrow> view_of c v"
| composite: "view_of c v \<Longrightarrow> View_Composite v name = Inr w \<Longrightarrow> view_of c w"
| entry: "view_of c v \<Longrightarrow> View_Group v name = Inr g \<Longrightarrow> GroupView_Entry g i = Inr w \<Longrightarrow> view_of c w"

definition accessors_safe :: "View \<Rightarrow> bool" where
  "accessors_safe v \<longleftrightarrow>
     (\<forall>name. (\<exists>x. View_Bool v name = Inr x) \<and> (\<exists>x. View_Int v name = Inr x) \<and> (\<exists>x. View_Uint v name = Inr x) \<and>
        (\<exists>x. View_Float v name = Inr x) \<and> (\<exists>x. View_Bytes v name = Inr x) \<and> (\<exists>x. View_String v name = Inr x) \<and>
        (\<exists>w. View_Composite v name = Inr w) \<and>
        (\<exists>g. View_Group v name = Inr g \<and> (\<forall>i. \<exists>w. GroupView_Entry g i = Inr w)))"

lemma view_ok_scalars:
  assumes "view_ok v"
  shows "\<exists>x. View_Bool v name = Inr x" "\<exists>x. View_Int v name = Inr x" "\<exists>x. View_Uint v name = Inr x"
    "\<exists>x. View_Float v name = Inr x" "\<exists>x. View_Bytes v name = Inr x" "\<exists>x. View_String v name = Inr x"
proof -
  have "\<exists>x. View_Bool v name = Inr x \<and> True" "\<exists>x. View_Int v name = Inr x" "\<exists>x. View_Uint v name = Inr x"
    "\<exists>x. View_Float v name = Inr x" "\<exists>x. View_Bytes v name = Inr x"
    using FindField_fits [OF assms, of name] FindField_load [OF assms, of name]
    by (fastforce simp: View_Bool_def View_Int_def View_Uint_def View_Float_def View_Bytes_def subspan_def LoadU32_def LoadU64_def
        split: option.split)+
  then show "\<exists>x. View_Bool v name = Inr x" "\<exists>x. View_Int v name = Inr x" "\<exists>x. View_Uint v name = Inr x"
    "\<exists>x. View_Float v name = Inr x" "\<exists>x. View_Bytes v name = Inr x" "\<exists>x. View_String v name = Inr x"
    by (auto simp: View_String_def)
qed

lemma view_ok_safe: "view_ok v \<Longrightarrow> accessors_safe v"
  using view_ok_scalars View_Composite_ok View_Group_ok GroupView_Entry_ok unfolding accessors_safe_def by metis

section \<open>The registry\<close>

text \<open>
  \<open>by_name\<close> owns live templates, each with the layout the builder gives it; an entry of \<open>by_id\<close> is live as long
  as its name has no other entry there.
\<close>

definition registry_ok :: "Codec \<Rightarrow> bool" where
  "registry_ok c \<longleftrightarrow>
     distinct (map fst (by_id c)) \<and> distinct (map snd (by_name c)) \<and>
     (\<forall>(n, a)\<in>set (by_name c). a < c_next c \<and> a \<in> fst ` set (c_heap c)) \<and>
     (\<forall>(a, t)\<in>set (c_heap c). template_ok t \<and> mt_schema_id t \<le> kMaxUint16) \<and>
     (\<forall>k n a. (k, n, a) \<in> set (by_id c) \<longrightarrow> (\<forall>k' a'. (k', n, a') \<in> set (by_id c) \<longrightarrow> k' = k) \<longrightarrow> (n, a) \<in> set (by_name c))"

lemma registry_ids:
  assumes "registry_ok c" "(k, n, a) \<in> set (by_id c)" "\<And>k' a'. (k', n, a') \<in> set (by_id c) \<Longrightarrow> k' = k"
  shows "(n, a) \<in> set (by_name c)"
  using assms unfolding registry_ok_def by blast

lemma registry_owned: "registry_ok c \<Longrightarrow> (n, a) \<in> set (by_name c) \<Longrightarrow> a < c_next c \<and> a \<in> fst ` set (c_heap c)"
  unfolding registry_ok_def by fast

lemma registry_inj: "registry_ok c \<Longrightarrow> (n, a) \<in> set (by_name c) \<Longrightarrow> (m, a) \<in> set (by_name c) \<Longrightarrow> n = m"
  using inj_onD [of snd "set (by_name c)" "(n, a)" "(m, a)"] by (simp add: registry_ok_def distinct_map)

lemma registry_templates: "registry_ok c \<Longrightarrow> (a, t) \<in> set (c_heap c) \<Longrightarrow> template_ok t \<and> mt_schema_id t \<le> kMaxUint16"
  unfolding registry_ok_def by fast

lemma set_put: "set (put k v m) = insert (k, v) {e \<in> set m. fst e \<noteq> k}"
  by (auto simp: put_def)

lemma distinct_put: "distinct (map fst m) \<Longrightarrow> distinct (map fst (put k v m))"
  by (auto simp: put_def distinct_map_filter)

definition drop_old :: "string \<Rightarrow> Codec \<Rightarrow> (nat \<times> MessageTemplate) list" where
  "drop_old name c = (case map_of (by_name c) name of None \<Rightarrow> c_heap c | Some old \<Rightarrow> filter (\<lambda>e. fst e \<noteq> old) (c_heap c))"

lemma drop_old_keeps:
  assumes "registry_ok c" "(m, b) \<in> set (by_name c)" "m \<noteq> name"
  shows "b \<in> fst ` set (drop_old name c)"
proof (cases "map_of (by_name c) name")
  case None
  with registry_owned [OF assms(1,2)] show ?thesis by (simp add: drop_old_def)
next
  case (Some old)
  then have "(name, old) \<in> set (by_name c)" by (rule map_of_SomeD)
  with assms have "b \<noteq> old" using registry_inj by blast
  with registry_owned [OF assms(1,2)] Some show ?thesis by (force simp: drop_old_def)
qed

text \<open>The registry after \<open>RegisterMessage\<close> has stored a template.\<close>

definition registered :: "nat \<times> nat \<Rightarrow> string \<Rightarrow> MessageTemplate \<Rightarrow> Codec \<Rightarrow> Codec" where
  "registered key name t c =
     c\<lparr>by_id := put key (name, c_next c) (by_id c), by_name := put name (c_next c) (by_name c), c_heap := (c_next c, t) # drop_old name c,
       c_next := c_next c + 1\<rparr>"

lemma registry_put:
  assumes r: "registry_ok c" and t: "template_ok t" "mt_schema_id t \<le> kMaxUint16"
    and prev: "\<And>prev a. map_of (by_id c) key = Some (prev, a) \<Longrightarrow> prev = name"
  shows "registry_ok (registered key name t c)"
proof -
  have old: "n = name" if "(key, n, a) \<in> set (by_id c)" for n a
    using that r prev by (metis map_of_is_SomeI registry_ok_def)
  have live: "(n, a) \<in> set (by_name c)"
    if a: "(k, n, a) \<in> set (by_id c)" "k \<noteq> key" "n \<noteq> name"
      and u: "\<And>k' a'. (k', n, a') \<in> set (by_id c) \<Longrightarrow> k' \<noteq> key \<Longrightarrow> k' = k" for k n a
    using r a(1)
  proof (rule registry_ids)
    fix k' a' assume "(k', n, a') \<in> set (by_id c)"
    with u old a(3) show "k' = k" by blast
  qed
  have fresh: "c_next c \<notin> snd ` set (by_name c)" using registry_owned [OF r] by fastforce
  have heap: "set (drop_old name c) \<subseteq> set (c_heap c)" by (auto simp: drop_old_def split: option.split)
  have "distinct (map snd (put name (c_next c) (by_name c)))"
    using r fresh by (auto simp: put_def registry_ok_def distinct_map_filter)
  moreover have "\<forall>(n, a)\<in>set (put name (c_next c) (by_name c)). a < c_next c + 1 \<and> a \<in> insert (c_next c) (fst ` set (drop_old name c))"
    using registry_owned [OF r] drop_old_keeps [OF r] by (fastforce simp: set_put)
  moreover have "\<forall>(a, t')\<in>set ((c_next c, t) # drop_old name c). template_ok t' \<and> mt_schema_id t' \<le> kMaxUint16"
    using t heap registry_templates [OF r] by auto
  moreover have "(n, a) \<in> set (put name (c_next c) (by_name c))"
    if a: "(k, n, a) \<in> set (put key (name, c_next c) (by_id c))"
      and u: "\<forall>k' a'. (k', n, a') \<in> set (put key (name, c_next c) (by_id c)) \<longrightarrow> k' = k" for k n a
  proof (cases "n = name")
    case True
    then have "(key, n, c_next c) \<in> set (put key (name, c_next c) (by_id c))" by (simp add: set_put)
    with u have "key = k" by blast
    with a True show ?thesis by (auto simp: set_put)
  next
    case False
    then have "(k, n, a) \<in> set (by_id c)" "k \<noteq> key" using a by (auto simp: set_put)
    from live [OF this False] u False show ?thesis by (auto simp: set_put)
  qed
  moreover have "distinct (map fst (put key (name, c_next c) (by_id c)))"
    using r by (simp add: distinct_put registry_ok_def)
  ultimately show ?thesis by (simp add: registry_ok_def registered_def)
qed

lemma BuildTemplate_schema_id: "BuildTemplate fuel ranges pool md sid ver = Some (Inr t) \<Longrightarrow> mt_schema_id t = sid"
  by (auto simp: BuildTemplate_def map_val_Inr split: option.splits if_splits)

lemma RegisterOne_cases:
  assumes "RegisterOne fuel ranges pool sid ver md c = Some (Inr c')" "sid \<le> kMaxUint16"
  shows "c' = c \<or> (\<exists>key name t. c' = registered key name t c \<and> template_ok t \<and> mt_schema_id t \<le> kMaxUint16 \<and>
    (\<forall>prev a. map_of (by_id c) key = Some (prev, a) \<longrightarrow> prev = name))"
proof (cases "GetUint32Option (d_options md) kExtTemplateID")
  case None
  with assms show ?thesis by (auto simp: RegisterOne_def split: if_splits)
next
  case (Some tid)
  with assms(1) obtain t where t: "BuildTemplate fuel ranges pool md sid ver = Some (Inr t)"
    by (auto simp: RegisterOne_def split: option.splits sum.splits)
  have "\<And>prev a. map_of (by_id c) (sid, mt_template_id t) = Some (prev, a) \<Longrightarrow> prev = d_full_name md"
    using assms(1) Some t by (auto simp: RegisterOne_def Let_def split: if_splits)
  moreover have "c' = registered (sid, mt_template_id t) (d_full_name md) t c"
    using assms(1) Some t by (auto simp: RegisterOne_def registered_def Let_def drop_old_def split: option.splits if_splits prod.splits)
  moreover have "mt_schema_id t \<le> kMaxUint16" using BuildTemplate_schema_id [OF t] assms(2) by simp
  ultimately show ?thesis using BuildTemplate_ok [OF t] by blast
qed

text \<open>What holds of the empty registry and is kept by storing a template holds of every codec that \<open>New\<close> returns.\<close>

locale registry_invariant =
  fixes I :: "Codec \<Rightarrow> bool"
  assumes start: "by_id c = [] \<Longrightarrow> by_name c = [] \<Longrightarrow> c_heap c = [] \<Longrightarrow> I c"
    and kept: "I c \<Longrightarrow> template_ok t \<Longrightarrow> mt_schema_id t \<le> kMaxUint16 \<Longrightarrow>
      (\<And>prev a. map_of (by_id c) key = Some (prev, a) \<Longrightarrow> prev = name) \<Longrightarrow> I (registered key name t c)"
begin

lemma RegisterOne_keeps: "I c \<Longrightarrow> RegisterOne fuel ranges pool sid ver md c = Some (Inr c') \<Longrightarrow> sid \<le> kMaxUint16 \<Longrightarrow> I c'"
  using RegisterOne_cases [of fuel ranges pool sid ver md c c'] kept by blast

lemma Register_keeps:
  "I c \<Longrightarrow> sid \<le> kMaxUint16 \<Longrightarrow> RegisterMessage fuel ranges pool sid ver md c = Some (Inr c') \<Longrightarrow> I c'"
  "I c \<Longrightarrow> sid \<le> kMaxUint16 \<Longrightarrow> RegisterAll fuel ranges pool sid ver mds c = Some (Inr c') \<Longrightarrow> I c'"
proof (induction fuel ranges pool sid ver md c and fuel ranges pool sid ver mds c arbitrary: c' and c'
    rule: RegisterMessage_RegisterAll.induct)
  case (1 fuel ranges pool sid ver name fds opts nested c)
  then show ?case using RegisterOne_keeps [OF 1(2) _ 1(3)] by (auto split: option.splits sum.splits)
next
  case (3 fuel ranges pool sid ver md mds c)
  then show ?case by (auto split: option.splits sum.splits)
qed simp_all

lemma New_loop_keeps: "I c \<Longrightarrow> New_loop fuel ranges pool fds c = Some (Inr c') \<Longrightarrow> I c'"
proof (induction fds arbitrary: c)
  case (Cons fd fds)
  from Cons.prems(2) obtain sid ver c1 where "sid \<le> kMaxUint16" "RegisterAll fuel ranges pool sid ver (file_messages fd) c = Some (Inr c1)"
    "New_loop fuel ranges pool fds c1 = Some (Inr c')"
    by (auto simp: Let_def not_less split: option.splits sum.splits if_splits)
  with Cons.IH Register_keeps(2) Cons.prems(1) show ?case by blast
qed simp

lemma New_has: "New fuel ranges pool files a b = Some (Inr c) \<Longrightarrow> I c"
  unfolding New_def by (erule New_loop_keeps [rotated]) (simp add: start)

end

interpretation live: registry_invariant registry_ok
  by unfold_locales (simp add: registry_ok_def, rule registry_put)

lemmas New_ok = live.New_has

text \<open>Every id has an address of its own, and what is on the heap is what the names own.\<close>

definition registry_once :: "Codec \<Rightarrow> bool" where
  "registry_once c \<longleftrightarrow>
     distinct (map fst (by_name c)) \<and> distinct (map snd (by_name c)) \<and> fst ` set (c_heap c) = snd ` set (by_name c) \<and>
     distinct (map fst (by_id c)) \<and> distinct (map (snd \<circ> snd) (by_id c)) \<and>
     (\<forall>m a. (m, a) \<in> set (by_name c) \<longrightarrow> a < c_next c) \<and> (\<forall>k m a. (k, m, a) \<in> set (by_id c) \<longrightarrow> a < c_next c) \<and>
     (\<forall>k n a m. (k, n, a) \<in> set (by_id c) \<longrightarrow> (m, a) \<in> set (by_name c) \<longrightarrow> m = n)"

lemma drop_old_owned:
  assumes "distinct (map fst (by_name c))" "distinct (map snd (by_name c))" "fst ` set (c_heap c) = snd ` set (by_name c)"
  shows "fst ` set (drop_old name c) = snd ` {e \<in> set (by_name c). fst e \<noteq> name}"
proof (cases "map_of (by_name c) name")
  case None
  then have "{e \<in> set (by_name c). fst e \<noteq> name} = set (by_name c)" by (auto simp: map_of_eq_None_iff)
  with None assms(3) show ?thesis by (simp add: drop_old_def)
next
  case (Some old)
  then have o1: "(name, old) \<in> set (by_name c)" by (rule map_of_SomeD)
  have i: "inj_on fst (set (by_name c))" "inj_on snd (set (by_name c))" using assms(1,2) by (simp_all add: distinct_map)
  have "snd e = old \<longleftrightarrow> fst e = name" if "e \<in> set (by_name c)" for e
    using inj_onD [OF i(1) _ that o1] inj_onD [OF i(2) _ that o1] by (metis fst_conv snd_conv)
  then have "snd ` {e \<in> set (by_name c). fst e \<noteq> name} = snd ` set (by_name c) - {old}" by (auto simp: image_iff)
  moreover have "fst ` set (drop_old name c) = fst ` set (c_heap c) - {old}" using Some by (auto simp: drop_old_def)
  ultimately show ?thesis using assms(3) by simp
qed

lemma registry_once_put:
  assumes r: "registry_once c"
  shows "registry_once (registered key name t c)"
proof -
  note R = r [unfolded registry_once_def]
  have n: "set (put name (c_next c) (by_name c)) = insert (name, c_next c) {e \<in> set (by_name c). fst e \<noteq> name}"
    and d: "set (put key (name, c_next c) (by_id c)) = insert (key, name, c_next c) {e \<in> set (by_id c). fst e \<noteq> key}"
    by (simp_all add: set_put)
  have heap: "fst ` set (drop_old name c) = snd ` {e \<in> set (by_name c). fst e \<noteq> name}" using R by (intro drop_old_owned) simp_all
  have fresh: "(m, c_next c) \<notin> set (by_name c)" "(k, m, c_next c) \<notin> set (by_id c)" for m k using R by blast+
  have "distinct (map fst (put name (c_next c) (by_name c)))" "distinct (map fst (put key (name, c_next c) (by_id c)))"
    using R by (simp_all add: distinct_put)
  moreover have "distinct (map snd (put name (c_next c) (by_name c)))" "distinct (map (snd \<circ> snd) (put key (name, c_next c) (by_id c)))"
    using R fresh by (auto simp: put_def distinct_map_filter)
  moreover have "fst ` set ((c_next c, t) # drop_old name c) = snd ` set (put name (c_next c) (by_name c))"
    unfolding n by (simp add: heap)
  moreover have "a < c_next c + 1" if "(m, a) \<in> set (put name (c_next c) (by_name c))" for m a
    using that R unfolding n by (auto intro: less_SucI)
  moreover have "a < c_next c + 1" if "(k, m, a) \<in> set (put key (name, c_next c) (by_id c))" for k m a
  proof (cases "(k, m, a) \<in> set (by_id c)")
    case True
    with R have "a < c_next c" by blast
    then show ?thesis by simp
  qed (use that in \<open>simp add: d\<close>)
  moreover have "m = n'" if "(k, n', a) \<in> set (put key (name, c_next c) (by_id c))" "(m, a) \<in> set (put name (c_next c) (by_name c))" for k n' a m
    using that R fresh unfolding n d by (cases k) auto
  ultimately show ?thesis unfolding registry_once_def registered_def by simp
qed

interpretation once: registry_invariant registry_once
  by unfold_locales (simp add: registry_once_def, rule registry_once_put)

lemma second_id_dangles:
  assumes "registry_once c" "map_of (by_id c) k1 = Some (n, a1)" "map_of (by_id c) k2 = Some (n, a2)" "k1 \<noteq> k2"
  shows "map_of (c_heap c) a1 = None \<or> map_of (c_heap c) a2 = None"
proof (rule ccontr)
  note R = assms(1) [unfolded registry_once_def]
  have e: "(k1, n, a1) \<in> set (by_id c)" "(k2, n, a2) \<in> set (by_id c)" using assms(2,3) by (auto dest: map_of_SomeD)
  have ne: "a1 \<noteq> a2" using inj_onD [of "snd \<circ> snd" "set (by_id c)", OF _ _ e] R assms(4) by (auto simp: distinct_map)
  assume "\<not> (map_of (c_heap c) a1 = None \<or> map_of (c_heap c) a2 = None)"
  then have "a1 \<in> snd ` set (by_name c)" "a2 \<in> snd ` set (by_name c)" using R by (auto simp: map_of_eq_None_iff)
  then obtain m1 m2 where "(m1, a1) \<in> set (by_name c)" "(m2, a2) \<in> set (by_name c)" by auto
  then have "(n, a1) \<in> set (by_name c)" "(n, a2) \<in> set (by_name c)" using R e by blast+
  then have "a1 = a2" using R eq_key_imp_eq_value by metis
  with ne show False by simp
qed

lemma registry_live:
  assumes "registry_ok c" "distinct (map (fst \<circ> snd) (by_id c))" "map_of (by_id c) k = Some (n, a)"
  shows "\<exists>t. map_of (c_heap c) a = Some t \<and> template_ok t"
proof -
  from assms(3) have m: "(k, n, a) \<in> set (by_id c)" by (rule map_of_SomeD)
  have "(n, a) \<in> set (by_name c)"
  proof (rule registry_ids [OF assms(1) m])
    fix k' a' assume "(k', n, a') \<in> set (by_id c)"
    with inj_onD [of "fst \<circ> snd" "set (by_id c)" "(k', n, a')" "(k, n, a)"] assms(2) m show "k' = k"
      by (simp add: distinct_map)
  qed
  then obtain t where "map_of (c_heap c) a = Some t"
    using registry_owned [OF assms(1)] by (metis map_of_eq_None_iff not_None_eq)
  with registry_templates [OF assms(1)] show ?thesis by (auto dest: map_of_SomeD)
qed

lemma TemplateByName_ok: "registry_ok c \<Longrightarrow> TemplateByName c name = Some t \<Longrightarrow> template_ok t \<and> mt_schema_id t \<le> kMaxUint16"
  by (auto simp: TemplateByName_def split: option.splits dest: map_of_SomeD registry_templates)

lemma Unmarshal_ok:
  assumes "registry_ok c"
  shows "Unmarshal validator c data name msg \<notin> {Inl OutOfBounds, Inl Dangling}"
  using UnmarshalInto_ok TemplateByName_ok [OF assms] by (simp add: Unmarshal_def too_big_def split: option.split)

lemma NewView_ok:
  assumes "registry_ok c" "distinct (map (fst \<circ> snd) (by_id c))"
  shows "NewView c data \<notin> {Inl OutOfBounds, Inl Dangling} \<and> (\<forall>v. NewView c data = Inr v \<longrightarrow> view_ok v)"
proof (cases "length data < 8")
  case False
  then obtain bl ti si where ld: "LoadU16 data = Inr bl" "LoadU16 (drop 2 data) = Inr ti" "LoadU16 (drop 4 data) = Inr si"
    using message_header [of data] by auto
  show ?thesis
  proof (cases "map_of (by_id c) (unat si, unat ti)")
    case None
    then show ?thesis using False ld by (auto simp: NewView_def too_big_def)
  next
    case (Some na)
    with registry_live [OF assms] obtain n a t where na: "na = (n, a)" "map_of (c_heap c) a = Some t" "template_ok t"
      by (cases na) blast
    show ?thesis
    proof (cases "mt_block_length t \<le> unat bl \<and> 8 + unat bl \<le> length data")
      case True
      then have sp: "subspan 8 (unat bl) data = Inr (take (unat bl) (drop 8 data))" by (simp add: subspan_def)
      have "length (take (unat bl) (drop 8 data)) = unat bl" using True by auto
      with na(3) True ValidateGroups_fit [of "c_max_repeated c" data "mt_groups t" "8 + unat bl"]
      have "view_ok \<lparr>v_data = data, v_block = take (unat bl) (drop 8 data), v_fields = Some (mt_fields t), v_groups = Some (mt_groups t)\<rparr>"
        if "ValidateGroups (c_max_repeated c) data (mt_groups t) (8 + unat bl) = Inr u" for u
        using that by (auto simp: view_ok_def template_ok_def)
      then show ?thesis
        using False ld Some na sp True ValidateGroups_ok [of "c_max_repeated c" data "mt_groups t" "8 + unat bl"]
        by (auto simp: NewView_def too_big_def Let_def split: sum.split)
    qed (use False ld Some na in \<open>auto simp: NewView_def too_big_def Let_def\<close>)
  qed
qed (auto simp: NewView_def too_big_def)

lemma view_of_ok:
  assumes "registry_ok c" "distinct (map (fst \<circ> snd) (by_id c))"
  shows "view_of c v \<Longrightarrow> view_ok v"
proof (induction rule: view_of.induct)
  case (root data v)
  with NewView_ok [OF assms] show ?case by blast
next
  case (composite v name w)
  with View_Composite_ok [of v name] show ?case by auto
next
  case (entry v name g i w)
  with View_Group_ok [of v name] GroupView_Entry_ok [of g i] show ?case by auto
qed

section \<open>Properties\<close>

text \<open>C1. Reading SBE is memory safe. For a codec built from any schema files in which no message name is registered
  under two ids, and for arbitrary bytes: \<open>NewView\<close> and \<open>Unmarshal\<close> never read outside the data nor
  through a freed template, and on the view, on every composite and on every group entry reached from it, every
  accessor returns a value without leaving its block.\<close>

theorem sbe_memory_safe:
  assumes "New fuel ranges pool files max_size max_count = Some (Inr c)" "distinct (map (fst \<circ> snd) (by_id c))"
  shows "NewView c data \<notin> {Inl OutOfBounds, Inl Dangling} \<and>
    Unmarshal validator c data name msg \<notin> {Inl OutOfBounds, Inl Dangling} \<and>
    (view_of c v \<longrightarrow> accessors_safe v)"
  using NewView_ok [OF New_ok [OF assms(1)] assms(2)] Unmarshal_ok [OF New_ok [OF assms(1)]]
    view_of_ok [OF New_ok [OF assms(1)] assms(2)] view_ok_safe
  by blast

definition demo_file :: "u32 \<Rightarrow> FileDescriptor" where
  "demo_file schema = \<lparr>file_name = ''p.proto'', file_options = \<lparr>opt_fields = [(1319, OUint32 schema)], opt_unknown = [], opt_declared = []\<rparr>,
     file_messages = [demo_message]\<rparr>"

definition demo_template :: "nat \<Rightarrow> MessageTemplate" where
  "demo_template schema = \<lparr>mt_template_id = 7, mt_schema_id = schema, mt_version = 0, mt_block_length = 13,
     mt_fields = [FieldTemplate (demo_field ''n'' 1 TYPE_INT64 []) 0 8 ''int64'' [],
       FieldTemplate (demo_field ''c'' 2 TYPE_MESSAGE ''p.C'') 8 5 []
         [FieldTemplate (demo_field ''x'' 1 TYPE_UINT32 []) 0 4 ''uint32'' [],
          FieldTemplate (demo_field ''b'' 2 TYPE_BOOL []) 4 1 ''uint8'' []]], mt_groups = []\<rparr>"

lemma demo_template_built:
  "BuildTemplate (Suc (Suc 0)) [] demo_pool demo_message schema 0 = Some (Inr (demo_template schema))"
  by (simp add: template_eval demo_template_def)

definition demo_codec :: Codec where
  "demo_codec = \<lparr>by_name = [(''p.M'', 0)], by_id = [((1, 7), (''p.M'', 0))], c_heap = [(0, demo_template 1)], c_next = 1,
     c_max_message_size = 64, c_max_repeated = 16\<rparr>"

definition demo_data :: "byte list" where
  "demo_data = [13, 0, 7, 0, 1, 0, 0, 0,  5, 0, 0, 0, 0, 0, 0, 0,  9, 0, 0, 0, 1]"

lemma demo_options:
  "GetUint32Option (d_options demo_message) kExtTemplateID = Some 7" "d_full_name demo_message = ''p.M''"
  "GetUint32Option (file_options (demo_file s)) kExtSchemaID = Some s" "GetUint32Option (file_options (demo_file s)) kExtVersion = None"
  "file_messages (demo_file s) = [demo_message]"
  by (simp_all add: template_eval demo_file_def kExtSchemaID_def kExtVersion_def)

lemma demo_register:
  assumes "map_of (by_id c) (sid, 7) = None"
  shows "RegisterMessage (Suc (Suc 0)) [] demo_pool sid 0 demo_message c =
    Some (Inr (c\<lparr>by_id := put (sid, 7) (''p.M'', c_next c) (by_id c), by_name := put ''p.M'' (c_next c) (by_name c),
       c_heap := (c_next c, demo_template sid) # drop_old ''p.M'' c, c_next := c_next c + 1\<rparr>))"
proof -
  have "RegisterMessage (Suc (Suc 0)) [] demo_pool sid 0 demo_message c = RegisterOne (Suc (Suc 0)) [] demo_pool sid 0 demo_message c"
    by (simp add: demo_message_def split: option.split sum.split)
  moreover have "mt_template_id (demo_template sid) = 7" by (simp add: demo_template_def)
  ultimately show ?thesis
    using assms by (simp add: RegisterOne_def demo_options demo_template_built Let_def drop_old_def)
qed

lemmas codec_eval = New_def pick_limit_def demo_options demo_register kMaxUint16_def put_def drop_old_def

lemma demo_New: "New (Suc (Suc 0)) [] demo_pool [demo_file 1] 64 16 = Some (Inr demo_codec)"
  by (simp add: codec_eval demo_codec_def)

theorem sbe_memory_safe_witness:
  "\<exists>v. NewView demo_codec demo_data = Inr v \<and> accessors_safe v"
proof -
  have "\<exists>v. NewView demo_codec demo_data = Inr v"
    by (simp add: NewView_def demo_codec_def demo_data_def demo_template_def LoadU16_def subspan_def)
  then obtain v where v: "NewView demo_codec demo_data = Inr v" ..
  have "distinct (map (fst \<circ> snd) (by_id demo_codec))" by (simp add: demo_codec_def)
  from sbe_memory_safe [OF demo_New this] v root [OF v] show ?thesis by blast
qed

text \<open>C36. A message registered under two ids, as when two files that declare it are passed to \<open>New\<close>, leaves one of the two
  pointing at a freed template: of any two different ids that a codec built by \<open>New\<close> gives the same message name, there is one for
  which \<open>NewView\<close> reads through the freed template on every message within the size limit whose header carries it.\<close>

theorem reregistered_message_dangles:
  assumes "New fuel ranges pool files max_size max_count = Some (Inr c)"
    and "map_of (by_id c) k1 = Some (name, a1)" "map_of (by_id c) k2 = Some (name, a2)" "k1 \<noteq> k2"
  shows "\<exists>k\<in>{k1, k2}. \<forall>data ti si. 8 \<le> length data \<and> length data \<le> c_max_message_size c \<and>
    LoadU16 (drop 2 data) = Inr ti \<and> LoadU16 (drop 4 data) = Inr si \<and> (unat si, unat ti) = k \<longrightarrow> NewView c data = Inl Dangling"
proof -
  have d: "NewView c data = Inl Dangling"
    if "map_of (by_id c) k = Some (name, a)" "map_of (c_heap c) a = None" "8 \<le> length data" "length data \<le> c_max_message_size c"
      "LoadU16 (drop 2 data) = Inr ti" "LoadU16 (drop 4 data) = Inr si" "(unat si, unat ti) = k" for k a data ti si
    using that by (auto simp: NewView_def LoadU16_def split: if_splits)
  from second_id_dangles [OF once.New_has [OF assms(1)] assms(2-4)] show ?thesis
  proof
    assume "map_of (c_heap c) a1 = None"
    with d [OF assms(2)] show ?thesis by blast
  next
    assume "map_of (c_heap c) a2 = None"
    with d [OF assms(3)] show ?thesis by blast
  qed
qed

definition demo_codec2 :: Codec where
  "demo_codec2 = \<lparr>by_name = [(''p.M'', 1)], by_id = [((2, 7), (''p.M'', 1)), ((1, 7), (''p.M'', 0))], c_heap = [(1, demo_template 2)], c_next = 2,
     c_max_message_size = 64, c_max_repeated = 16\<rparr>"

lemma demo_New2: "New (Suc (Suc 0)) [] demo_pool [demo_file 1, demo_file 2] 64 16 = Some (Inr demo_codec2)"
  by (simp add: codec_eval demo_codec2_def)

theorem reregistered_message_dangles_witness:
  "\<exists>k\<in>{(1, 7), (2, 7)}. \<forall>data ti si. 8 \<le> length data \<and> length data \<le> c_max_message_size demo_codec2 \<and>
    LoadU16 (drop 2 data) = Inr ti \<and> LoadU16 (drop 4 data) = Inr si \<and> (unat si, unat ti) = k \<longrightarrow> NewView demo_codec2 data = Inl Dangling"
  by (rule reregistered_message_dangles [OF demo_New2, of "(1, 7)" "''p.M''" 0 "(2, 7)" 1]) (simp_all add: demo_codec2_def)

end
