(* ===== verification/SbeRoundtrip.thy ===== *)
theory SbeRoundtrip
  imports SbeSafety
begin

text \<open>
  What \<open>Marshal\<close> writes \<open>Unmarshal\<close> reads back, and where a string is cut that does not fit its field.
  Writing into the zeroed buffer is compared with a reference encoder that concatenates the fields.
\<close>

section \<open>Loads undo writes\<close>

lemma LoadU16_WriteU16: "LoadU16 (WriteU16 v @ p) = Inr v"
proof -
  have "ucast (ucast v :: byte) OR push_bit 8 (ucast (ucast (drop_bit 8 v) :: byte)) = v"
    using le_fold_bytes [of 2 v] by (simp add: upt_rec)
  then show ?thesis by (simp add: LoadU16_def WriteU16_def)
qed

lemma load_map_bytes:
  "i < n \<Longrightarrow> (map f [0..<n] @ p) ! i = f i"
  by (simp add: nth_append)

lemma LoadU32_WriteU32: "LoadU32 (WriteU32 v @ p) = Inr v"
proof -
  have "fold (\<lambda>i w. w OR push_bit (i * 8) (ucast ((WriteU32 v @ p) ! i))) [0..<4] 0 =
      fold (\<lambda>i w. w OR push_bit (i * 8) (ucast ((ucast :: u32 \<Rightarrow> byte) (drop_bit (i * 8) v)))) [0..<4] 0"
    by (intro fold_cong refl) (simp add: WriteU32_def load_map_bytes)
  also have "\<dots> = v" by (rule le_fold_bytes) simp
  finally show ?thesis by (simp add: LoadU32_def WriteU32_def)
qed

lemma LoadU64_WriteU64: "LoadU64 (WriteU64 v @ p) = Inr v"
proof -
  have "fold (\<lambda>i w. w OR push_bit (i * 8) (ucast ((WriteU64 v @ p) ! i))) [0..<8] 0 =
      fold (\<lambda>i w. w OR push_bit (i * 8) (ucast ((ucast :: u64 \<Rightarrow> byte) (drop_bit (i * 8) v)))) [0..<8] 0"
    by (intro fold_cong refl) (simp add: WriteU64_def load_map_bytes)
  also have "\<dots> = v" by (rule le_fold_bytes) simp
  finally show ?thesis by (simp add: LoadU64_def WriteU64_def)
qed

lemma write_lengths [simp]: "length (WriteU16 h) = 2" "length (WriteU32 w) = 4" "length (WriteU64 v) = 8"
  by (simp_all add: WriteU16_def WriteU32_def WriteU64_def)

lemma length_scalar_bytes: "sz \<in> {1, 2, 4, 8} \<Longrightarrow> length (scalar_bytes sz v) = sz"
  by (auto simp: scalar_bytes_def)

lemma LoadScalar_scalar_bytes:
  "LoadScalar (scalar_bytes 1 v @ p) 1 = Inr (ucast (ucast v :: byte))"
  "LoadScalar (scalar_bytes 2 v @ p) 2 = Inr (ucast (ucast v :: u16))"
  "LoadScalar (scalar_bytes 4 v @ p) 4 = Inr (ucast (ucast v :: u32))"
  "LoadScalar (scalar_bytes 8 v @ p) 8 = Inr v"
  by (simp_all add: LoadScalar_def scalar_bytes_def LoadU16_WriteU16 LoadU32_WriteU32 LoadU64_WriteU64)

lemma scast_ucast_id:
  fixes v :: u64
  assumes "- (2 ^ (LENGTH('a) - 1)) \<le> sint v" "sint v < 2 ^ (LENGTH('a) - 1)" "LENGTH('a) \<le> 64"
  shows "scast (ucast v :: 'a::len word) = v"
proof -
  have l: "LENGTH('a) - 1 < 64" using assms(3) by simp
  have "uint v = take_bit 64 (sint v)" using uint_lt2p [of v] by (simp add: take_bit_signed_take_bit sint_uint take_bit_int_eq_self)
  moreover have "sint (ucast v :: 'a word) = signed_take_bit (LENGTH('a) - 1) (uint v)"
    using assms(3) by (simp add: sint_uint unsigned_ucast_eq signed_take_bit_take_bit)
  ultimately have "sint (ucast v :: 'a word) = signed_take_bit (LENGTH('a) - 1) (sint v)"
    using l by (simp add: signed_take_bit_take_bit)
  also have "\<dots> = sint v" using assms(1,2) by (rule signed_take_bit_int_eq_self)
  finally have e: "sint (ucast v :: 'a word) = sint v" .
  have "scast (ucast v :: 'a word) = (word_of_int (sint (ucast v :: 'a word)) :: u64)" by (rule scast_eq)
  then show ?thesis by (simp add: e)
qed

lemma ucast_ucast_id:
  fixes v :: u64
  assumes "uint v < 2 ^ LENGTH('a)"
  shows "ucast (ucast v :: 'a::len word) = v"
  using assms by (simp add: word_uint_eq_iff unsigned_ucast_eq unsigned_take_bit_eq take_bit_int_eq_self)


section \<open>Integers\<close>

definition IsUnsigned :: "FieldDescriptor \<Rightarrow> bool" where
  "IsUnsigned fd \<longleftrightarrow> cpp_type fd \<in> {CPPTYPE_BOOL, CPPTYPE_UINT32, CPPTYPE_UINT64}"

definition IsInteger :: "FieldDescriptor \<Rightarrow> bool" where
  "IsInteger fd \<longleftrightarrow> IsUnsigned fd \<or> cpp_type fd \<in> {CPPTYPE_ENUM, CPPTYPE_INT32, CPPTYPE_INT64}"

definition scalar_int :: "FieldDescriptor \<Rightarrow> message \<Rightarrow> int" where
  "scalar_int fd msg =
     (if cpp_type fd = CPPTYPE_BOOL then (if get_bool (f_number fd) msg then 1 else 0)
      else if IsUnsigned fd then int (get_uint (f_number fd) msg)
      else get_int (f_number fd) msg)"

definition scalar_int_ok :: "FieldDescriptor \<Rightarrow> message \<Rightarrow> bool" where
  "scalar_int_ok fd msg \<longleftrightarrow> (case FieldRange fd of (lo, hi) \<Rightarrow> lo \<le> scalar_int fd msg \<and> scalar_int fd msg \<le> hi)"

lemma scalar_value_int: "IsInteger fd \<Longrightarrow> scalar_value fd msg = Inr (of_int (scalar_int fd msg), IsUnsigned fd)"
  by (auto simp: IsInteger_def scalar_value_def scalar_int_def IsUnsigned_def)

lemma FieldRange_bounds:
  assumes "IsInteger fd" "FieldRange fd = (lo, hi)"
  shows "IsUnsigned fd \<Longrightarrow> lo = 0 \<and> hi < 2 ^ 64" "\<not> IsUnsigned fd \<Longrightarrow> - (2 ^ 63) \<le> lo \<and> hi < 2 ^ 63"
  using assms by (cases "f_type fd"; simp add: IsInteger_def IsUnsigned_def FieldRange_def; linarith?)+

lemma sint_u64: "- (2 ^ 63) \<le> i \<Longrightarrow> i < 2 ^ 63 \<Longrightarrow> sint (word_of_int i :: u64) = i"
  by (simp add: signed_of_int signed_take_bit_int_eq_self)

lemma uint_u64: "0 \<le> i \<Longrightarrow> i < 2 ^ 64 \<Longrightarrow> uint (word_of_int i :: u64) = i"
  by (simp add: uint_word_of_int)

lemma scalar_bits:
  assumes "IsInteger fd" "scalar_int_ok fd msg" "v = word_of_int (scalar_int fd msg)"
  shows "IsUnsigned fd \<Longrightarrow> uint (v :: u64) = scalar_int fd msg" "\<not> IsUnsigned fd \<Longrightarrow> sint v = scalar_int fd msg"
proof -
  obtain lo hi where r: "FieldRange fd = (lo, hi)" by fastforce
  show "uint v = scalar_int fd msg" if "IsUnsigned fd"
    using FieldRange_bounds(1) [OF assms(1) r that] assms(2,3) r by (simp add: scalar_int_ok_def uint_u64)
  show "sint v = scalar_int fd msg" if "\<not> IsUnsigned fd"
    using FieldRange_bounds(2) [OF assms(1) r that] assms(2,3) r by (simp add: scalar_int_ok_def sint_u64)
qed

lemma sint_nonneg_uint: "0 \<le> sint (v :: u64) \<Longrightarrow> uint v = sint v"
  using uint_u64 [of "sint v"] sint_lt [of v] by simp

lemma uint_small_sint: "uint (v :: u64) < 2 ^ 63 \<Longrightarrow> sint v = uint v"
  using sint_u64 [of "uint v"] order_trans [of "- (2 ^ 63)" 0 "uint v"] by simp

lemma InRange_int:
  assumes "lo \<le> 0"
  shows "InRange v u lo hi \<Longrightarrow> 0 \<le> hi \<Longrightarrow> lo \<le> (if u then uint v else sint v) \<and> (if u then uint v else sint v) \<le> hi"
  using assms sint_nonneg_uint [of v] order_trans [of lo 0 "uint v"] by (auto simp: InRange_def split: if_splits)


lemma RangeOf_int:
  assumes "(e, n) \<in> set int_encodings" "FieldRange fd = (flo, fhi)"
  shows "\<exists>lo hi. RangeOf (FieldTemplate fd off n e sub) =
      \<lparr>enc_lo = lo, enc_hi = hi, field_lo = flo, field_hi = fhi, enc_signed = (hd e = CHR ''i''),
       write_check = (flo < lo \<or> hi < fhi), read_check = (f_type fd \<noteq> TYPE_BOOL \<and> (lo < flo \<or> fhi < hi))\<rparr> \<and>
      lo = (if hd e = CHR ''i'' then - (2 ^ (8 * n - 1)) else 0) \<and>
      hi = (if hd e = CHR ''i'' then 2 ^ (8 * n - 1) - 1 else 2 ^ (8 * n) - 1)"
  using assms by (auto simp: RangeOf_def Let_def IsIntEncoding_def int_encodings_def)

lemma enc_bits:
  fixes v :: u64
  assumes "(e, n) \<in> set int_encodings"
    and "if hd e = CHR ''i'' then - (2 ^ (8 * n - 1)) \<le> sint v \<and> sint v < 2 ^ (8 * n - 1) else uint v < 2 ^ (8 * n)"
  shows "\<exists>b. LoadScalar (scalar_bytes n v @ post) n = Inr b \<and> (if hd e = CHR ''i'' then sign_extend n b else b) = v"
  using assms scast_ucast_id [of v, where 'a = 8] scast_ucast_id [of v, where 'a = 16] scast_ucast_id [of v, where 'a = 32]
    ucast_ucast_id [of v, where 'a = 8] ucast_ucast_id [of v, where 'a = 16] ucast_ucast_id [of v, where 'a = 32]
  by (auto simp: int_encodings_def LoadScalar_scalar_bytes LoadScalar_scalar_bytes(1) [unfolded One_nat_def] sign_extend_def)


section \<open>One field\<close>

definition field_value :: "FieldDescriptor \<Rightarrow> message \<Rightarrow> mval" where
  "field_value fd msg =
     (case cpp_type fd of
        CPPTYPE_BOOL \<Rightarrow> MBool (get_bool (f_number fd) msg)
      | CPPTYPE_UINT32 \<Rightarrow> MUInt (get_uint (f_number fd) msg)
      | CPPTYPE_UINT64 \<Rightarrow> MUInt (get_uint (f_number fd) msg)
      | CPPTYPE_FLOAT \<Rightarrow> MFloat (get_float (f_number fd) msg)
      | CPPTYPE_DOUBLE \<Rightarrow> MDouble (get_double (f_number fd) msg)
      | CPPTYPE_STRING \<Rightarrow> MString (get_string (f_number fd) msg)
      | CPPTYPE_MESSAGE \<Rightarrow> MMessage (get_message (f_number fd) msg)
      | _ \<Rightarrow> MInt (get_int (f_number fd) msg))"

text \<open>
  The values a field keeps: an integer of its own C++ type, a \<open>float\<close> that is not NaN, a \<open>double\<close>
  that a \<open>float\<close> encoding represents, a valid string that fits and does not end in the padding byte, bytes of
  the field's length.
\<close>

definition field_ok :: "FieldTemplate \<Rightarrow> message \<Rightarrow> bool" where
  "field_ok ft msg =
     (let fd = ft_fd ft; s = get_string (f_number fd) msg; d = get_double (f_number fd) msg
      in case cpp_type fd of
           CPPTYPE_STRING \<Rightarrow>
             if f_type fd = TYPE_STRING then IsValidUTF8 s \<and> length s \<le> ft_size ft \<and> (s = [] \<or> last s \<noteq> CHR 0x00)
             else length s = ft_size ft
         | CPPTYPE_FLOAT \<Rightarrow> \<not> IsNaN32 (get_float (f_number fd) msg)
         | CPPTYPE_DOUBLE \<Rightarrow> ft_encoding ft = ''float'' \<longrightarrow> widen (narrow d) = d
         | CPPTYPE_MESSAGE \<Rightarrow> True
         | _ \<Rightarrow> scalar_int_ok fd msg)"

text \<open>A field written alone.\<close>

definition leaf_bytes :: "FieldTemplate \<Rightarrow> message \<Rightarrow> sbe_error + byte list" where
  "leaf_bytes ft msg = (if ft_encoding ft = ''char'' then Inr (WriteFixedString [] 0 ft msg) else WriteScalar [] 0 ft msg)"

lemma store_app: "length pre = off \<Longrightarrow> length mid = length bs \<Longrightarrow> store off bs (pre @ mid @ post) = pre @ bs @ post"
  by (simp add: store_def)

lemma store_alone: "length bs = n \<Longrightarrow> store 0 bs (pad_to n []) = bs"
  by (simp add: store_def pad_to_def)

lemma pad_to_id: "n \<le> length buf \<Longrightarrow> pad_to n buf = buf"
  by (simp add: pad_to_def)

lemma store_scalar_value:
  assumes "IsInteger fd" "scalar_int_ok fd msg"
  shows "store_scalar fd (word_of_int (scalar_int fd msg)) m0 = set_field (f_number fd) (field_value fd msg) m0"
proof -
  have s32: "sint (ucast (word_of_int i :: u64) :: u32) = i" if "- (2 ^ 31) \<le> i" "i < 2 ^ 31" for i
    using that by (simp add: sint_uint unsigned_ucast_eq unsigned_of_int signed_take_bit_take_bit signed_take_bit_int_eq_self)
  have u32: "unat (ucast (of_nat n :: u64) :: u32) = n" if "n < 2 ^ 32" for n
    using that by (simp add: word_nat)
  have u64: "unat (of_nat n :: u64) = n" if "n < 2 ^ 64" for n
    using that by (simp add: unat_of_nat)
  show ?thesis
    using assms s32 u32 u64 sint_u64
    by (cases "f_type fd";
      simp add: IsInteger_def IsUnsigned_def scalar_int_ok_def scalar_int_def FieldRange_def store_scalar_def field_value_def)
qed

lemma bits_exact:
  fixes v :: u64
  assumes "(e, n) \<in> set int_encodings" "if u then uint v = i else sint v = i"
    and "(if hd e = CHR ''i'' then - (2 ^ (8 * n - 1)) else 0) \<le> i"
    and "i \<le> (if hd e = CHR ''i'' then 2 ^ (8 * n - 1) - 1 else 2 ^ (8 * n) - 1)"
  shows "if hd e = CHR ''i'' then sint v = i else uint v = i"
proof (cases "hd e = CHR ''i''")
  case True
  with assms(1,4) have "i < 2 ^ 63" by (auto simp: int_encodings_def)
  with True assms(2) uint_small_sint [of v] show ?thesis by (auto split: if_splits)
next
  case False
  with assms(2,3) sint_nonneg_uint [of v] show ?thesis by (auto split: if_splits)
qed

lemma InRange_exact:
  assumes "if neg then sint v = i else uint v = i" "lo \<le> i" "i \<le> hi"
  shows "InRange v (\<not> neg) lo hi"
  using assms sint_nonneg_uint [of v] by (auto simp: InRange_def split: if_splits)

lemma int_roundtrip:
  assumes "IsInteger fd" "scalar_int_ok fd msg" "(e, n) \<in> set int_encodings"
    and w: "WriteScalar [] 0 (FieldTemplate fd off n e sub) msg = Inr bs"
  shows "length bs = n \<and> DecodeScalarField (bs @ post) (FieldTemplate fd off n e sub) m0 =
    Inr (set_field (f_number fd) (field_value fd msg) m0)"
proof -
  define i where "i = scalar_int fd msg"
  define v :: u64 where "v = word_of_int i"
  obtain flo fhi where fr: "FieldRange fd = (flo, fhi)" by fastforce
  obtain lo hi where rg: "RangeOf (FieldTemplate fd off n e sub) =
      \<lparr>enc_lo = lo, enc_hi = hi, field_lo = flo, field_hi = fhi, enc_signed = (hd e = CHR ''i''),
       write_check = (flo < lo \<or> hi < fhi), read_check = (f_type fd \<noteq> TYPE_BOOL \<and> (lo < flo \<or> fhi < hi))\<rparr>"
    and lo: "lo = (if hd e = CHR ''i'' then - (2 ^ (8 * n - 1)) else 0)"
    and hi: "hi = (if hd e = CHR ''i'' then 2 ^ (8 * n - 1) - 1 else 2 ^ (8 * n) - 1)"
    using RangeOf_int [OF assms(3) fr, of off sub] by blast
  have prim: "e \<noteq> ''float''" "e \<noteq> ''double''" "e \<noteq> ''char''" "n \<in> {1, 2, 4, 8}" "lo \<le> 0" "0 \<le> hi"
    using assms(3) lo hi by (auto simp: int_encodings_def)
  have sv: "scalar_value fd msg = Inr (v, IsUnsigned fd)" using scalar_value_int [OF assms(1)] by (simp add: v_def i_def)
  have chk: "\<not> ((flo < lo \<or> hi < fhi) \<and> \<not> InRange v (IsUnsigned fd) lo hi)" and bs: "bs = scalar_bytes n v"
    using w sv prim(1,2) rg length_scalar_bytes [OF prim(4), of v] by (auto simp: WriteScalar_def Let_def store_alone split: if_splits)
  have vi: "if IsUnsigned fd then uint v = i else sint v = i"
    using scalar_bits [OF assms(1,2)] by (simp add: v_def i_def)
  have fi: "flo \<le> i" "i \<le> fhi" using assms(2) fr by (simp_all add: scalar_int_ok_def i_def)
  have enc: "lo \<le> i \<and> i \<le> hi"
  proof (cases "flo < lo \<or> hi < fhi")
    case True
    with chk InRange_int [OF prim(5) _ prim(6), of v "IsUnsigned fd"] vi show ?thesis by (cases "IsUnsigned fd") auto
  qed (use fi in linarith)
  have ex: "if hd e = CHR ''i'' then sint v = i else uint v = i"
    using bits_exact [OF assms(3) vi] enc lo hi by blast
  then have "if hd e = CHR ''i'' then - (2 ^ (8 * n - 1)) \<le> sint v \<and> sint v < 2 ^ (8 * n - 1) else uint v < 2 ^ (8 * n)"
    using enc lo hi by (auto split: if_splits)
  from enc_bits [OF assms(3) this] obtain b
    where b: "LoadScalar (bs @ post) n = Inr b" "(if hd e = CHR ''i'' then sign_extend n b else b) = v" using bs by blast
  have "DecodeScalarField (bs @ post) (FieldTemplate fd off n e sub) m0 = Inr (store_scalar fd v m0)"
    using prim(1-3) rg b InRange_exact [OF ex fi]
    by (cases "hd e = CHR ''i''") (simp_all add: DecodeScalarField_def Let_def)
  with store_scalar_value [OF assms(1,2), of m0] bs length_scalar_bytes [OF prim(4)] show ?thesis
    by (simp add: v_def i_def)
qed

lemma FloatFits_widen: "FloatFits (widen x)"
proof -
  obtain s e m where x: "s < 2" "e < 2 ^ 8" "m < 2 ^ 23"
    "unat x div 2 ^ 31 = s" "unat x div 2 ^ 23 mod 2 ^ 8 = e" "unat x mod 2 ^ 23 = m" by (rule fields32)
  define K where "K = (if e = 255 then 2047 * 2 ^ 52 + (if m = 0 then 0 else quiet m * 2 ^ 29)
    else if e = 0 then if m = 0 then 0 else (nbits m + 873) * 2 ^ 52 + (m - 2 ^ (nbits m - 1)) * 2 ^ (53 - nbits m)
    else (e + 896) * 2 ^ 52 + m * 2 ^ 29)"
  have sub: "(m - 2 ^ (nbits m - 1)) * 2 ^ (53 - nbits m) < 2 ^ 53 \<and> nbits m \<le> 23" if "0 < m"
  proof -
    note k = nbits_bounds [OF that] nbits_le [OF that x(3)]
    have "(m - 2 ^ (nbits m - 1)) * 2 ^ (53 - nbits m) \<le> m * 2 ^ (53 - nbits m)" by simp
    also have "\<dots> < 2 ^ nbits m * 2 ^ (53 - nbits m)" using k by simp
    also have "\<dots> = 2 ^ 53" using k by (simp flip: power_add)
    finally show ?thesis using k by simp
  qed
  have q: "quiet m < 2 ^ 23" using x(3) by (simp add: quiet_def)
  have K: "K < 2 ^ 63 \<and> (K \<le> 0x47EFFFFFE0000000 \<or> 0x7FF0000000000000 \<le> K)"
    using x(2,3) sub q by (auto simp: K_def)
  have "unat (widen x) = s * 2 ^ 63 + K"
  proof -
    have "widen x = of_nat (s * 2 ^ 63 + K)" using x(4-6) by (simp add: widen_def K_def Let_def)
    moreover have "s * 2 ^ 63 + K < 2 ^ 64" using x(1) K by simp
    ultimately show ?thesis by (simp only: unat_of_nat_small(1))
  qed
  then have "unat (widen x) mod 2 ^ 63 = K" using K by simp
  with K show ?thesis by (simp add: FloatFits_def)
qed

lemma LoadScalar_words: "LoadScalar (WriteU32 w @ p) 4 = Inr (ucast w)" "LoadScalar (WriteU64 v @ p) 8 = Inr v"
  by (simp_all add: LoadScalar_def LoadU32_WriteU32 LoadU64_WriteU64)

lemma float_roundtrip:
  assumes "cpp_type fd = CPPTYPE_FLOAT \<or> cpp_type fd = CPPTYPE_DOUBLE" "(e, n) \<in> {(''float'', 4), (''double'', 8)}"
    and "field_ok (FieldTemplate fd off n e sub) msg" "WriteScalar [] 0 (FieldTemplate fd off n e sub) msg = Inr bs"
  shows "length bs = n \<and> DecodeScalarField (bs @ post) (FieldTemplate fd off n e sub) m0 =
    Inr (set_field (f_number fd) (field_value fd msg) m0)"
  using assms
  by (auto simp: WriteScalar_def DecodeScalarField_def Let_def field_ok_def field_value_def store_alone LoadScalar_words
      FloatFits_widen narrow_widen RangeOf_def split: if_splits)

lemma drop_padding_pad: "s = [] \<or> last s \<noteq> 0 \<Longrightarrow> drop_padding (s @ replicate k 0) = s"
proof -
  have "dropWhile (\<lambda>b. b = 0) (replicate k 0 @ t) = dropWhile (\<lambda>b. b = 0) t" for t :: "byte list"
    by (induction k) simp_all
  then show "s = [] \<or> last s \<noteq> 0 \<Longrightarrow> drop_padding (s @ replicate k 0) = s"
    by (cases s rule: rev_cases) (auto simp: drop_padding_def)
qed

lemma last_bytes_of: "s \<noteq> [] \<Longrightarrow> last s \<noteq> CHR 0x00 \<Longrightarrow> last (bytes_of s) \<noteq> 0"
proof
  assume a: "s \<noteq> []" "last s \<noteq> CHR 0x00" "last (bytes_of s) = 0"
  then have "(of_char (last s) :: byte) = 0" by (simp add: bytes_of_def last_map)
  then have "(of_char (last s) :: nat) = 0" using unat_of_char [of "last s"] by simp
  then have "last s = char_of (0 :: nat)" by (metis char_of_char)
  with a(2) show False by (simp add: char_of_def)
qed

lemma string_roundtrip:
  assumes "cpp_type fd = CPPTYPE_STRING" "field_ok (FieldTemplate fd off n ''char'' sub) msg"
    and "bs = WriteFixedString [] 0 (FieldTemplate fd off n ''char'' sub) msg"
  shows "length bs = n \<and> DecodeScalarField (bs @ post) (FieldTemplate fd off n ''char'' sub) m0 =
    Inr (set_field (f_number fd) (field_value fd msg) m0)"
proof -
  let ?s = "get_string (f_number fd) msg"
  have le: "length ?s \<le> n" using assms(1,2) by (auto simp: field_ok_def Let_def split: if_splits)
  then have bs: "bs = bytes_of ?s @ replicate (n - length ?s) 0"
    using assms(3) by (simp add: WriteFixedString_def Let_def CutLength_def store_alone)
  show ?thesis
  proof (cases "f_type fd = TYPE_STRING")
    case True
    then have v: "IsValidUTF8 ?s" "?s = [] \<or> last ?s \<noteq> CHR 0x00" using assms(2) by (simp_all add: field_ok_def Let_def)
    have "bytes_of ?s = [] \<or> last (bytes_of ?s) \<noteq> 0" using v(2) last_bytes_of [of ?s] by (auto simp: bytes_of_def)
    then have "drop_padding bs = bytes_of ?s" using bs by (simp add: drop_padding_pad)
    with True v(1) bs le show ?thesis by (simp add: DecodeScalarField_def Let_def field_value_def)
  next
    case False
    then have "length ?s = n" using assms(1,2) by (simp add: field_ok_def Let_def)
    with False assms(1) bs show ?thesis by (simp add: DecodeScalarField_def Let_def field_value_def)
  qed
qed

lemma leaf_roundtrip:
  assumes "cpp_type fd \<noteq> CPPTYPE_MESSAGE" "prim_ok fd e n" "field_ok (FieldTemplate fd off n e sub) msg"
    and "leaf_bytes (FieldTemplate fd off n e sub) msg = Inr bs"
  shows "length bs = n \<and> DecodeScalarField (bs @ post) (FieldTemplate fd off n e sub) m0 =
    Inr (set_field (f_number fd) (field_value fd msg) m0)"
proof -
  consider "cpp_type fd = CPPTYPE_STRING" | "cpp_type fd = CPPTYPE_FLOAT \<or> cpp_type fd = CPPTYPE_DOUBLE" | "IsInteger fd"
    using assms(1) by (cases "cpp_type fd") (auto simp: IsInteger_def IsUnsigned_def)
  then show ?thesis
  proof cases
    case 1
    with assms(2-4) show ?thesis using string_roundtrip [of fd off n sub msg bs] by (simp add: prim_ok_def leaf_bytes_def)
  next
    case 2
    with assms(2) have "(e, n) \<in> {(''float'', 4), (''double'', 8)}" by (auto simp: prim_ok_def split: if_splits)
    with 2 assms(3,4) show ?thesis by (intro float_roundtrip) (auto simp: leaf_bytes_def)
  next
    case 3
    then have "scalar_int_ok fd msg" "(e, n) \<in> set int_encodings"
      using assms(2,3) by (auto simp: prim_ok_def IsInteger_def IsUnsigned_def field_ok_def Let_def)
    with 3 assms(4) show ?thesis by (intro int_roundtrip) (auto simp: leaf_bytes_def int_encodings_def)
  qed
qed


section \<open>A list of fields\<close>

lemma map_sum_Inr: "map_sum id f r = Inr y \<longleftrightarrow> (\<exists>x. r = Inr x \<and> y = f x)"
  by (cases r) auto

text \<open>The reference encoder: each field written alone, one after another.\<close>

fun enc_fields :: "FieldTemplate list \<Rightarrow> message \<Rightarrow> sbe_error + byte list" where
  "enc_fields [] msg = Inr []"
| "enc_fields (FieldTemplate fd off sz enc sub # fts) msg =
     (case (if sub \<noteq> [] then enc_fields sub (get_message (f_number fd) msg) else leaf_bytes (FieldTemplate fd off sz enc sub) msg) of
        Inl e \<Rightarrow> Inl e
      | Inr bs \<Rightarrow> map_sum id (\<lambda>rest. bs @ rest) (enc_fields fts msg))"

lemma cut_back_le: "cut_back s n \<le> n"
  by (induction s n rule: cut_back.induct) auto

lemma CutLength_le: "CutLength s sz b \<le> sz \<and> CutLength s sz b \<le> length s"
  using cut_back_le [of s sz] by (auto simp: CutLength_def)

definition leaf_layout :: "FieldDescriptor \<Rightarrow> string \<Rightarrow> nat \<Rightarrow> bool" where
  "leaf_layout fd e n \<longleftrightarrow> (if cpp_type fd = CPPTYPE_MESSAGE then e = [] \<and> n = 0 else prim_ok fd e n)"

lemma layout_leaf: "layout off (FieldTemplate fd o1 n e [] # fts) fin \<Longrightarrow> leaf_layout fd e n"
  by (auto simp: leaf_layout_def split: if_splits)

lemma string_write:
  fixes msg fd n
  defines "s \<equiv> get_string (f_number fd) msg"
  defines "bs \<equiv> take (CutLength s n (f_type fd = TYPE_STRING)) (bytes_of s) @ replicate (n - CutLength s n (f_type fd = TYPE_STRING)) 0"
  shows "length bs = n" "WriteFixedString buf off (FieldTemplate fd o1 n e sub) msg = store off bs (pad_to (off + n) buf)"
  using CutLength_le [of s n "f_type fd = TYPE_STRING"] by (auto simp: bs_def s_def WriteFixedString_def Let_def)

text \<open>The bytes \<open>WriteScalar\<close> stores, wherever it stores them.\<close>

definition scalar_out :: "FieldTemplate \<Rightarrow> message \<Rightarrow> sbe_error + byte list" where
  "scalar_out ft msg = WriteScalar [] 0 ft msg"

lemma scalar_write:
  assumes "leaf_layout fd e n" "e \<noteq> ''char''"
  shows "WriteScalar buf off (FieldTemplate fd o1 n e sub) msg =
      map_sum id (\<lambda>bs. store off bs (pad_to (off + n) buf)) (scalar_out (FieldTemplate fd o1 n e sub) msg)"
    and "scalar_out (FieldTemplate fd o1 n e sub) msg = Inr bs \<Longrightarrow> length bs = n"
proof -
  have "(WriteScalar buf off (FieldTemplate fd o1 n e sub) msg =
      map_sum id (\<lambda>bs. store off bs (pad_to (off + n) buf)) (scalar_out (FieldTemplate fd o1 n e sub) msg)) \<and>
    (scalar_out (FieldTemplate fd o1 n e sub) msg = Inr bs \<longrightarrow> length bs = n)"
  proof (cases "e = ''float'' \<or> e = ''double''")
    case True
    with assms consider "e = ''float''" "n = 4" | "e = ''double''" "n = 8"
      by (auto simp: leaf_layout_def prim_ok_def int_encodings_def split: if_splits)
    then show ?thesis by cases (auto simp: WriteScalar_def scalar_out_def Let_def store_alone)
  next
    case False
    show ?thesis
    proof (cases "scalar_value fd msg")
      case (Inr vu)
      with False assms have "n \<in> {1, 2, 4, 8}"
        by (auto simp: leaf_layout_def prim_ok_def int_encodings_def scalar_value_def split: if_splits)
      with length_scalar_bytes have "length (scalar_bytes n (fst vu)) = n" by blast
      with Inr False show ?thesis by (auto simp: WriteScalar_def scalar_out_def Let_def store_alone split: prod.split)
    qed (use False in \<open>auto simp: WriteScalar_def scalar_out_def Let_def\<close>)
  qed
  then show "WriteScalar buf off (FieldTemplate fd o1 n e sub) msg =
      map_sum id (\<lambda>bs. store off bs (pad_to (off + n) buf)) (scalar_out (FieldTemplate fd o1 n e sub) msg)"
    and "scalar_out (FieldTemplate fd o1 n e sub) msg = Inr bs \<Longrightarrow> length bs = n" by auto
qed

lemma leaf_write:
  assumes "leaf_layout fd e n" "length pre = off" "length mid = n"
  shows "(if e = ''char'' then Inr (WriteFixedString (pre @ mid @ post) off (FieldTemplate fd o1 n e sub) msg)
      else WriteScalar (pre @ mid @ post) off (FieldTemplate fd o1 n e sub) msg) =
    map_sum id (\<lambda>bs. pre @ bs @ post) (leaf_bytes (FieldTemplate fd o1 n e sub) msg)"
proof (cases "e = ''char''")
  case True
  with assms show ?thesis
    using string_write(1) [where fd = fd and msg = msg and n = n] by (simp add: leaf_bytes_def string_write(2) store_alone store_app pad_to_id)
next
  case False
  with assms scalar_write [OF assms(1) False, where ?o1.0 = o1 and sub = sub and msg = msg] show ?thesis
    by (cases "scalar_out (FieldTemplate fd o1 n e sub) msg") (auto simp: leaf_bytes_def store_alone store_app pad_to_id)
qed

lemma leaf_bytes_prim:
  assumes "leaf_layout fd e n" "leaf_bytes (FieldTemplate fd o1 n e sub) msg = Inr bs"
  shows "cpp_type fd \<noteq> CPPTYPE_MESSAGE \<and> prim_ok fd e n"
proof (cases "cpp_type fd = CPPTYPE_MESSAGE")
  case True
  with assms(1) have "e = []" by (simp add: leaf_layout_def)
  with True assms(2) show ?thesis by (simp add: leaf_bytes_def WriteScalar_def Let_def scalar_value_def)
qed (use assms(1) in \<open>simp add: leaf_layout_def\<close>)

lemma leaf_length:
  assumes "leaf_layout fd e n" "leaf_bytes (FieldTemplate fd o1 n e sub) msg = Inr bs"
  shows "length bs = n"
proof (cases "e = ''char''")
  case True
  with assms(2) string_write [where fd = fd and msg = msg and n = n] show ?thesis by (auto simp: leaf_bytes_def store_alone)
next
  case False
  with assms(2) scalar_write(2) [OF assms(1) False] show ?thesis by (simp add: leaf_bytes_def scalar_out_def)
qed

lemma enc_field_length_aux:
  assumes "layout off (FieldTemplate fd o1 n e sub # fts) fin"
    and "(if sub \<noteq> [] then enc_fields sub (get_message (f_number fd) msg) else leaf_bytes (FieldTemplate fd o1 n e sub) msg) = Inr b1"
    and "\<And>bs. sub \<noteq> [] \<Longrightarrow> layout 0 sub n \<Longrightarrow> enc_fields sub (get_message (f_number fd) msg) = Inr bs \<Longrightarrow> length bs = n"
  shows "length b1 = n"
proof (cases "sub = []")
  case True
  with assms(2) leaf_length [OF layout_leaf [OF assms(1) [unfolded True]]] show ?thesis by simp
next
  case False
  with assms show ?thesis by (auto split: if_splits)
qed

lemma enc_fields_length: "layout off fts fin \<Longrightarrow> enc_fields fts msg = Inr bs \<Longrightarrow> off + length bs = fin"
proof (induction fts msg arbitrary: off fin bs rule: enc_fields.induct)
  case (2 fd o1 n e sub fts msg)
  obtain b1 b2 where b: "(if sub \<noteq> [] then enc_fields sub (get_message (f_number fd) msg) else leaf_bytes (FieldTemplate fd o1 n e sub) msg) = Inr b1"
    "enc_fields fts msg = Inr b2" "bs = b1 @ b2"
    using 2(4) by (auto simp: map_sum_Inr split: sum.splits)
  have "length b1 = n" using enc_field_length_aux [OF 2(3) b(1)] 2(1) [of 0 n] by simp
  moreover have "off + n + length b2 = fin" using 2(2) [OF b(1) _ b(2)] 2(3) by (auto split: if_splits)
  ultimately show ?case using b(3) by simp
qed simp

lemma enc_field_length:
  assumes "layout off (FieldTemplate fd o1 n e sub # fts) fin"
    and "(if sub \<noteq> [] then enc_fields sub (get_message (f_number fd) msg) else leaf_bytes (FieldTemplate fd o1 n e sub) msg) = Inr b1"
  shows "length b1 = n"
  using enc_field_length_aux [OF assms] enc_fields_length [of 0 sub n] by simp

lemma WriteFields_enc:
  assumes "layout off fts fin" "length pre = base + off" "off + length mid = fin"
  shows "WriteFields (pre @ mid @ post) base fts msg = map_sum id (\<lambda>bs. pre @ bs @ post) (enc_fields fts msg)"
  using assms
proof (induction fts msg arbitrary: off fin pre mid post base rule: enc_fields.induct)
  case (2 fd o1 n e sub fts msg)
  have o1: "o1 = off" and rest: "layout (off + n) fts fin" using 2(3) by auto
  from layout_mono [OF rest] 2(5) obtain m1 m2 where mid: "mid = m1 @ m2" "length m1 = n" "off + n + length m2 = fin"
    using that [of "take n mid" "drop n mid"] by simp
  let ?x = "if sub \<noteq> [] then enc_fields sub (get_message (f_number fd) msg) else leaf_bytes (FieldTemplate fd o1 n e sub) msg"
  have first: "(if sub \<noteq> [] then WriteFields (pre @ mid @ post) (base + o1) sub (get_message (f_number fd) msg)
       else if e = ''char'' then Inr (WriteFixedString (pre @ mid @ post) (base + o1) (FieldTemplate fd o1 n e sub) msg)
       else WriteScalar (pre @ mid @ post) (base + o1) (FieldTemplate fd o1 n e sub) msg) =
     map_sum id (\<lambda>bs. pre @ bs @ m2 @ post) ?x"
  proof (cases "sub = []")
    case True
    with leaf_write [OF layout_leaf [OF 2(3) [unfolded True]] 2(4) mid(2), of "m2 @ post" o1 "[]" msg] o1 mid(1)
    show ?thesis by (cases "e = ''char''") simp_all
  next
    case False
    then have "layout 0 sub n" using 2(3) by (auto split: if_splits)
    from 2(1) [OF False this, of pre "base + o1" m1 "m2 @ post"] False 2(4) o1 mid(1,2) show ?thesis by (simp add: id_def)
  qed
  show ?case
  proof (cases ?x)
    case (Inl er)
    with first show ?thesis by simp
  next
    case (Inr bs)
    have "length bs = n" using enc_field_length [OF 2(3) Inr] .
    with 2(2) [OF Inr rest, of "pre @ bs" base m2 post] 2(4) mid(3) first Inr show ?thesis
      by (cases "enc_fields fts msg") simp_all
  qed
qed simp

section \<open>Reading the fields back\<close>

fun fields_ok :: "FieldTemplate list \<Rightarrow> message \<Rightarrow> bool" where
  "fields_ok [] msg = True"
| "fields_ok (FieldTemplate fd off sz enc sub # fts) msg =
     ((if sub \<noteq> [] then fields_ok sub (get_message (f_number fd) msg) else field_ok (FieldTemplate fd off sz enc sub) msg) \<and>
      fields_ok fts msg)"

fun fields_distinct :: "FieldTemplate list \<Rightarrow> bool" where
  "fields_distinct [] = True"
| "fields_distinct (FieldTemplate fd off sz enc sub # fts) =
     (f_number fd \<notin> (f_number \<circ> ft_fd) ` set fts \<and> fields_distinct sub \<and> fields_distinct fts)"

text \<open>Two messages agree on the fields of a template.\<close>

fun same_fields :: "FieldTemplate list \<Rightarrow> message \<Rightarrow> message \<Rightarrow> bool" where
  "same_fields [] m m' = True"
| "same_fields (FieldTemplate fd off sz enc sub # fts) m m' =
     ((if sub \<noteq> [] then same_fields sub (get_message (f_number fd) m) (get_message (f_number fd) m')
       else field_value fd m = field_value fd m') \<and> same_fields fts m m')"

lemma map_of_set_field [simp]: "map_of (set_field n v m) k = (if k = n then Some v else map_of m k)"
  by (induction m) (auto simp: set_field_def)

lemma get_set_message [simp]: "get_message n (set_field n (MMessage s) m) = s"
  by (simp add: get_message_def)

lemma field_value_set [simp]:
  "field_value fd (set_field (f_number fd) (field_value fd msg) m) = field_value fd msg"
  by (cases "cpp_type fd") (simp_all add: field_value_def get_bool_def get_int_def get_uint_def get_float_def get_double_def
      get_string_def get_message_def)

lemma field_value_cong: "map_of m (f_number fd) = map_of m' (f_number fd) \<Longrightarrow> field_value fd m = field_value fd m'"
  by (cases "cpp_type fd") (simp_all add: field_value_def get_bool_def get_int_def get_uint_def get_float_def get_double_def
      get_string_def get_message_def)

lemma get_message_cong: "map_of m n = map_of m' n \<Longrightarrow> get_message n m = get_message n m'"
  by (simp add: get_message_def)

lemma DecodeFields_enc:
  assumes "layout off fts fin" "enc_fields fts msg = Inr bs" "fields_ok fts msg" "fields_distinct fts" "length pre = off"
  shows "\<exists>m'. DecodeFields (pre @ bs @ post) fts m0 = Inr m' \<and> same_fields fts msg m' \<and>
    (\<forall>k. k \<notin> (f_number \<circ> ft_fd) ` set fts \<longrightarrow> map_of m' k = map_of m0 k)"
  using assms
proof (induction fts msg arbitrary: off fin pre bs post m0 rule: enc_fields.induct)
  case (2 fd o1 n e sub fts msg)
  let ?num = "f_number fd"
  have o1: "o1 = off" and rest: "layout (off + n) fts fin" using 2(3) by auto
  obtain b1 b2 where b: "(if sub \<noteq> [] then enc_fields sub (get_message ?num msg) else leaf_bytes (FieldTemplate fd o1 n e sub) msg) = Inr b1"
    "enc_fields fts msg = Inr b2" "bs = b1 @ b2"
    using 2(4) by (auto simp: map_sum_Inr split: sum.splits)
  have n: "length b1 = n" using enc_field_length [OF 2(3) b(1)] .
  have "\<exists>m1. (if sub \<noteq> [] then
              (case subspan o1 n (pre @ bs @ post) of
                 Inl e \<Rightarrow> Inl e
               | Inr region \<Rightarrow>
                   map_sum id (\<lambda>m. set_field ?num (MMessage m) m0) (DecodeFields region sub (get_message ?num m0)))
            else DecodeScalarField (drop o1 (pre @ bs @ post)) (FieldTemplate fd o1 n e sub) m0) = Inr m1 \<and>
      (if sub \<noteq> [] then same_fields sub (get_message ?num msg) (get_message ?num m1) else field_value fd msg = field_value fd m1) \<and>
      (\<forall>k. k \<noteq> ?num \<longrightarrow> map_of m1 k = map_of m0 k)"
  proof (cases "sub = []")
    case True
    then have "leaf_bytes (FieldTemplate fd o1 n e []) msg = Inr b1" using b(1) by simp
    then have p: "cpp_type fd \<noteq> CPPTYPE_MESSAGE" "prim_ok fd e n"
      using leaf_bytes_prim [OF layout_leaf [OF 2(3) [unfolded True]]] by blast+
    from leaf_roundtrip [OF p, of o1 "[]" msg b1 "b2 @ post" m0] True b(1,3) 2(5,7) o1
    show ?thesis by auto
  next
    case False
    then have sub: "layout 0 sub n" "enc_fields sub (get_message ?num msg) = Inr b1" using 2(3) b(1) by (auto split: if_splits)
    have "subspan o1 n (pre @ bs @ post) = Inr b1" using n b(3) 2(7) o1 by (simp add: subspan_def)
    moreover obtain m' where "DecodeFields b1 sub (get_message ?num m0) = Inr m'" "same_fields sub (get_message ?num msg) m'"
      using 2(1) [OF False sub, of "[]" "[]" "get_message ?num m0"] False 2(5,6) by auto
    ultimately show ?thesis using False by auto
  qed
  then obtain m1 where m1: "DecodeFields (pre @ bs @ post) (FieldTemplate fd o1 n e sub # fts) m0 = DecodeFields (pre @ bs @ post) fts m1"
    "if sub \<noteq> [] then same_fields sub (get_message ?num msg) (get_message ?num m1) else field_value fd msg = field_value fd m1"
    "\<forall>k. k \<noteq> ?num \<longrightarrow> map_of m1 k = map_of m0 k"
    by (auto split: if_splits)
  obtain m' where m': "DecodeFields ((pre @ b1) @ b2 @ post) fts m1 = Inr m'" "same_fields fts msg m'"
    "\<forall>k. k \<notin> (f_number \<circ> ft_fd) ` set fts \<longrightarrow> map_of m' k = map_of m1 k"
    using 2(2) [OF b(1) rest b(2), of "pre @ b1" post m1] 2(5-7) n by auto
  have "map_of m' ?num = map_of m1 ?num" using m'(3) 2(6) by auto
  then have "field_value fd m' = field_value fd m1" "get_message ?num m' = get_message ?num m1"
    by (rule field_value_cong, rule get_message_cong)
  with m1(2) m'(2) have "same_fields (FieldTemplate fd o1 n e sub # fts) msg m'" by simp
  moreover have "DecodeFields (pre @ bs @ post) (FieldTemplate fd o1 n e sub # fts) m0 = Inr m'" using m1(1) m'(1) b(3) by simp
  moreover have "\<forall>k. k \<notin> (f_number \<circ> ft_fd) ` set (FieldTemplate fd o1 n e sub # fts) \<longrightarrow> map_of m' k = map_of m0 k"
    using m1(3) m'(3) by auto
  ultimately show ?case by blast
qed simp


section \<open>Groups\<close>

fun enc_entries :: "GroupTemplate \<Rightarrow> message list \<Rightarrow> sbe_error + byte list" where
  "enc_entries gt [] = Inr []"
| "enc_entries gt (entry # entries) =
     (case enc_fields (gt_fields gt) entry of
        Inl e \<Rightarrow> Inl e
      | Inr bs \<Rightarrow> map_sum id (\<lambda>rest. bs @ rest) (enc_entries gt entries))"

definition group_entries :: "GroupTemplate \<Rightarrow> message \<Rightarrow> message list" where
  "group_entries gt msg = get_repeated (f_number (gt_fd gt)) msg"

lemma WriteEntries_enc:
  assumes "layout 0 (gt_fields gt) (gt_block_length gt)"
  shows "WriteEntries buf gt es = map_sum id (\<lambda>bs. buf @ bs) (enc_entries gt es)"
proof (induction es arbitrary: buf)
  case (Cons entry es)
  from WriteFields_enc [OF assms, of buf "length buf" "replicate (gt_block_length gt) 0" "[]" entry]
  have "WriteFields (buf @ replicate (gt_block_length gt) 0) (length buf) (gt_fields gt) entry =
    map_sum id (\<lambda>bs. buf @ bs) (enc_fields (gt_fields gt) entry)" by simp
  with Cons show ?case by (cases "enc_entries gt es") (simp_all split: sum.split)
qed simp

lemma enc_entries_length:
  assumes "layout 0 (gt_fields gt) (gt_block_length gt)"
  shows "enc_entries gt es = Inr bs \<Longrightarrow> length bs = length es * gt_block_length gt"
proof (induction es arbitrary: bs)
  case (Cons entry es)
  then show ?case using enc_fields_length [OF assms] by (auto simp: map_sum_Inr split: sum.splits)
qed simp

lemma DecodeEntries_enc:
  assumes "layout 0 (gt_fields gt) (gt_block_length gt)" "fields_distinct (gt_fields gt)"
  shows "enc_entries gt es = Inr bs \<Longrightarrow> \<forall>e\<in>set es. fields_ok (gt_fields gt) e \<Longrightarrow>
    \<exists>es'. DecodeEntries (length es) (pre @ bs @ post) (length pre) (gt_block_length gt) gt acc = Inr (acc @ es', length pre + length bs) \<and>
      list_all2 (same_fields (gt_fields gt)) es es'"
proof (induction es arbitrary: pre bs acc)
  case (Cons entry es)
  then obtain b1 b2 where b: "enc_fields (gt_fields gt) entry = Inr b1" "enc_entries gt es = Inr b2" "bs = b1 @ b2"
    by (auto simp: map_sum_Inr split: sum.splits)
  have n: "length b1 = gt_block_length gt" using enc_fields_length [OF assms(1) b(1)] by simp
  have sp: "subspan (length pre) (gt_block_length gt) (pre @ bs @ post) = Inr b1" using n b(3) by (simp add: subspan_def)
  obtain m' where m': "DecodeFields b1 (gt_fields gt) [] = Inr m'" "same_fields (gt_fields gt) entry m'"
    using DecodeFields_enc [OF assms(1) b(1) _ assms(2), of "[]" "[]" "[]"] Cons.prems(2) by auto
  obtain es' where es': "DecodeEntries (length es) ((pre @ b1) @ b2 @ post) (length (pre @ b1)) (gt_block_length gt) gt (acc @ [m']) =
      Inr ((acc @ [m']) @ es', length (pre @ b1) + length b2)" "list_all2 (same_fields (gt_fields gt)) es es'"
    using Cons.IH [OF b(2), of "pre @ b1" "acc @ [m']"] Cons.prems(2) by auto
  have "DecodeEntries (length (entry # es)) (pre @ bs @ post) (length pre) (gt_block_length gt) gt acc =
      Inr (acc @ (m' # es'), length pre + length bs)"
    using sp m'(1) es'(1) n b(3) by simp
  with m'(2) es'(2) show ?case by blast
qed simp

fun enc_groups :: "GroupTemplate list \<Rightarrow> message \<Rightarrow> sbe_error + byte list" where
  "enc_groups [] msg = Inr []"
| "enc_groups (gt # gts) msg =
     (let n = length (group_entries gt msg)
      in if kMaxUint16 < n
         then Inl (Msg (''sbe: field '' @ f_full_name (gt_fd gt) @ '' has '' @ to_string n @ '' entries, past '' @
                to_string kMaxUint16 @ '', the largest numInGroup SBE can state''))
         else case enc_entries gt (group_entries gt msg) of
             Inl e \<Rightarrow> Inl e
           | Inr bs \<Rightarrow> map_sum id (\<lambda>rest. WriteU16 (of_nat (gt_block_length gt)) @ WriteU16 (of_nat n) @ bs @ rest) (enc_groups gts msg))"

lemma WriteGroups_enc:
  assumes "\<forall>g\<in>set gts. layout 0 (gt_fields g) (gt_block_length g)"
  shows "WriteGroups buf gts msg = map_sum id (\<lambda>bs. buf @ bs) (enc_groups gts msg)"
  using assms
proof (induction gts arbitrary: buf)
  case (Cons gt gts)
  then have "layout 0 (gt_fields gt) (gt_block_length gt)" by simp
  note w = WriteEntries_enc [OF this]
  from Cons show ?case by (cases "enc_groups gts msg") (simp_all add: w Let_def group_entries_def split: sum.split)
qed simp


text \<open>What the round trip needs of a group: entries that keep their values, and a block for them to lie in.\<close>

definition group_value_ok :: "GroupTemplate \<Rightarrow> message \<Rightarrow> bool" where
  "group_value_ok gt msg \<longleftrightarrow> (\<forall>e\<in>set (group_entries gt msg). fields_ok (gt_fields gt) e) \<and>
     (gt_block_length gt = 0 \<longrightarrow> group_entries gt msg = [])"

lemma unat_u16: "n \<le> kMaxUint16 \<Longrightarrow> unat (of_nat n :: u16) = n"
  by (simp add: word_nat kMaxUint16_def)

lemma group_header_loads:
  assumes "gt_block_length gt \<le> kMaxUint16" "k \<le> kMaxUint16"
  defines "hdr \<equiv> WriteU16 (of_nat (gt_block_length gt)) @ WriteU16 (of_nat k)"
  shows "\<exists>eb c. LoadU16 (drop (length pre) (pre @ hdr @ rest)) = Inr eb \<and> LoadU16 (drop (length pre + 2) (pre @ hdr @ rest)) = Inr c \<and>
    unat eb = gt_block_length gt \<and> unat c = k"
  using assms(1,2) by (simp add: hdr_def LoadU16_WriteU16 unat_u16)

lemma enc_groups_Cons:
  assumes "enc_groups (gt # gts) msg = Inr bs"
  obtains b1 b2 where "length (group_entries gt msg) \<le> kMaxUint16" "enc_entries gt (group_entries gt msg) = Inr b1"
    "enc_groups gts msg = Inr b2"
    "bs = (WriteU16 (of_nat (gt_block_length gt)) @ WriteU16 (of_nat (length (group_entries gt msg)))) @ b1 @ b2"
  using assms by (auto simp: Let_def map_sum_Inr not_less split: if_splits sum.splits)

lemma ValidateGroups_enc:
  assumes "\<forall>g\<in>set gts. layout 0 (gt_fields g) (gt_block_length g) \<and> gt_block_length g \<le> kMaxUint16 \<and> group_value_ok g msg \<and>
      length (group_entries g msg) \<le> maxrep"
    and "enc_groups gts msg = Inr bs"
  shows "ValidateGroups maxrep (pre @ bs) gts (length pre) = Inr ()"
  using assms
proof (induction gts arbitrary: pre bs)
  case (Cons gt gts)
  from Cons.prems(2) obtain b1 b2 where b: "length (group_entries gt msg) \<le> kMaxUint16"
    "enc_entries gt (group_entries gt msg) = Inr b1" "enc_groups gts msg = Inr b2"
    "bs = (WriteU16 (of_nat (gt_block_length gt)) @ WriteU16 (of_nat (length (group_entries gt msg)))) @ b1 @ b2"
    by (rule enc_groups_Cons)
  let ?k = "length (group_entries gt msg)"
  have g: "layout 0 (gt_fields gt) (gt_block_length gt)" "gt_block_length gt \<le> kMaxUint16" "group_value_ok gt msg" "?k \<le> maxrep"
    using Cons.prems(1) by auto
  obtain eb c where ld: "LoadU16 (drop (length pre) (pre @ bs)) = Inr eb" "LoadU16 (drop (length pre + 2) (pre @ bs)) = Inr c"
    "unat eb = gt_block_length gt" "unat c = ?k"
    using group_header_loads [OF g(2) b(1), of pre "b1 @ b2"] b(4) by auto
  have len: "length b1 = ?k * gt_block_length gt" by (rule enc_entries_length [OF g(1) b(2)])
  then have "?k \<le> (length b1 + length b2) div gt_block_length gt" if "0 < gt_block_length gt"
    using that by (simp add: less_eq_div_iff_mult_less_eq)
  moreover have "?k = 0" if "gt_block_length gt = 0" using g(3) that by (simp add: group_value_ok_def)
  moreover have "ValidateGroups maxrep (pre @ bs) gts (length pre + 4 + gt_block_length gt * ?k) = Inr ()"
  proof -
    let ?pre = "pre @ WriteU16 (of_nat (gt_block_length gt)) @ WriteU16 (of_nat ?k) @ b1"
    have "ValidateGroups maxrep (?pre @ b2) gts (length ?pre) = Inr ()" using Cons.prems(1) by (intro Cons.IH [OF _ b(3)]) simp
    moreover have "?pre @ b2 = pre @ bs" using b(4) by simp
    moreover have "length ?pre = length pre + 4 + gt_block_length gt * ?k" using len by (simp add: mult.commute)
    ultimately show ?thesis by metis
  qed
  ultimately show ?case using ld g(4) b(4) by (cases "gt_block_length gt = 0") (auto simp: Let_def not_less)
qed simp

lemma get_repeated_set [simp]: "get_repeated n (set_field n (MRepeated es) m) = es"
  by (simp add: get_repeated_def)

lemma group_entries_cong: "map_of m (f_number (gt_fd gt)) = map_of m' (f_number (gt_fd gt)) \<Longrightarrow> group_entries gt m = group_entries gt m'"
  by (simp add: group_entries_def get_repeated_def)

lemma DecodeGroups_enc:
  assumes "\<forall>g\<in>set gts. layout 0 (gt_fields g) (gt_block_length g) \<and> gt_block_length g \<le> kMaxUint16 \<and> group_value_ok g msg \<and>
      fields_distinct (gt_fields g) \<and> map_of m0 (f_number (gt_fd g)) = None"
    and "enc_groups gts msg = Inr bs" "distinct (map (f_number \<circ> gt_fd) gts)"
  shows "\<exists>m'. DecodeGroups (pre @ bs) gts (length pre) m0 = Inr m' \<and>
    (\<forall>g\<in>set gts. list_all2 (same_fields (gt_fields g)) (group_entries g msg) (group_entries g m')) \<and>
    (\<forall>k. k \<notin> (f_number \<circ> gt_fd) ` set gts \<longrightarrow> map_of m' k = map_of m0 k)"
  using assms
proof (induction gts arbitrary: pre bs m0)
  case (Cons gt gts)
  let ?num = "f_number (gt_fd gt)"
  let ?es = "group_entries gt msg"
  from Cons.prems(2) obtain b1 b2 where b: "length ?es \<le> kMaxUint16"
    "enc_entries gt ?es = Inr b1" "enc_groups gts msg = Inr b2"
    "bs = (WriteU16 (of_nat (gt_block_length gt)) @ WriteU16 (of_nat (length ?es))) @ b1 @ b2"
    by (rule enc_groups_Cons)
  have g: "layout 0 (gt_fields gt) (gt_block_length gt)" "gt_block_length gt \<le> kMaxUint16" "group_value_ok gt msg"
    "fields_distinct (gt_fields gt)" "get_repeated ?num m0 = []"
    using Cons.prems(1) by (auto simp: get_repeated_def)
  obtain eb c where ld: "LoadU16 (drop (length pre) (pre @ bs)) = Inr eb" "LoadU16 (drop (length pre + 2) (pre @ bs)) = Inr c"
    "unat eb = gt_block_length gt" "unat c = length ?es"
    using group_header_loads [OF g(2) b(1), of pre "b1 @ b2"] b(4) by auto
  let ?hdr = "pre @ WriteU16 (of_nat (gt_block_length gt)) @ WriteU16 (of_nat (length ?es))"
  obtain es' where es': "DecodeEntries (length ?es) (pre @ bs) (length pre + 4) (gt_block_length gt) gt [] = Inr (es', length pre + 4 + length b1)"
    "list_all2 (same_fields (gt_fields gt)) ?es es'"
    using DecodeEntries_enc [OF g(1,4) b(2), of ?hdr b2 "[]"] g(3) b(4) by (auto simp: group_value_ok_def)
  define m1 where "m1 = (if es' = [] then m0 else set_field ?num (MRepeated es') m0)"
  have m1: "group_entries gt m1 = es'" using g(5) by (simp add: m1_def group_entries_def)
  have m1k: "map_of m1 k = map_of m0 k" if "k \<noteq> ?num" for k using that by (simp add: m1_def)
  have step: "DecodeGroups (pre @ bs) (gt # gts) (length pre) m0 = DecodeGroups (pre @ bs) gts (length pre + 4 + length b1) m1"
    using ld es'(1) g(5) by (simp add: m1_def)
  have nn: "?num \<notin> (f_number \<circ> gt_fd) ` set gts" using Cons.prems(3) by simp
  obtain m' where m': "DecodeGroups ((?hdr @ b1) @ b2) gts (length (?hdr @ b1)) m1 = Inr m'"
    "\<forall>g\<in>set gts. list_all2 (same_fields (gt_fields g)) (group_entries g msg) (group_entries g m')"
    "\<forall>k. k \<notin> (f_number \<circ> gt_fd) ` set gts \<longrightarrow> map_of m' k = map_of m1 k"
  proof -
    have "\<forall>g\<in>set gts. layout 0 (gt_fields g) (gt_block_length g) \<and> gt_block_length g \<le> kMaxUint16 \<and> group_value_ok g msg \<and>
      fields_distinct (gt_fields g) \<and> map_of m1 (f_number (gt_fd g)) = None"
    proof
      fix g assume m: "g \<in> set gts"
      then have "f_number (gt_fd g) \<noteq> ?num" using nn by (auto simp: image_iff)
      with m m1k Cons.prems(1) show "layout 0 (gt_fields g) (gt_block_length g) \<and> gt_block_length g \<le> kMaxUint16 \<and> group_value_ok g msg \<and>
        fields_distinct (gt_fields g) \<and> map_of m1 (f_number (gt_fd g)) = None" by simp
    qed
    from Cons.IH [OF this b(3), of "?hdr @ b1"] Cons.prems(3) that show ?thesis by auto
  qed
  have "(?hdr @ b1) @ b2 = pre @ bs" "length (?hdr @ b1) = length pre + 4 + length b1" using b(4) by simp_all
  with step m'(1) have "DecodeGroups (pre @ bs) (gt # gts) (length pre) m0 = Inr m'" by metis
  moreover have "group_entries gt m' = es'" using group_entries_cong [of m' gt m1] m'(3) nn m1 by simp
  ultimately show ?case using es'(2) m'(2,3) m1k by auto
qed simp


section \<open>Messages\<close>

definition numbers_distinct :: "MessageTemplate \<Rightarrow> bool" where
  "numbers_distinct t \<longleftrightarrow> fields_distinct (mt_fields t) \<and> (\<forall>g\<in>set (mt_groups t). fields_distinct (gt_fields g)) \<and>
     distinct (map (f_number \<circ> gt_fd) (mt_groups t)) \<and>
     (\<forall>g\<in>set (mt_groups t). f_number (gt_fd g) \<notin> (f_number \<circ> ft_fd) ` set (mt_fields t))"

definition message_ok :: "nat \<Rightarrow> MessageTemplate \<Rightarrow> message \<Rightarrow> bool" where
  "message_ok maxrep t msg \<longleftrightarrow> fields_ok (mt_fields t) msg \<and>
     (\<forall>g\<in>set (mt_groups t). group_value_ok g msg \<and> length (group_entries g msg) \<le> maxrep)"

definition same_message :: "MessageTemplate \<Rightarrow> message \<Rightarrow> message \<Rightarrow> bool" where
  "same_message t m m' \<longleftrightarrow> same_fields (mt_fields t) m m' \<and>
     (\<forall>g\<in>set (mt_groups t). list_all2 (same_fields (gt_fields g)) (group_entries g m) (group_entries g m'))"

text \<open>Agreement on the fields does not depend on other fields.\<close>

lemma same_fields_cong:
  "\<forall>ft\<in>set fts. map_of m1 (f_number (ft_fd ft)) = map_of m2 (f_number (ft_fd ft)) \<Longrightarrow> same_fields fts m m1 = same_fields fts m m2"
proof (induction fts)
  case (Cons ft fts)
  then have "map_of m1 (f_number (ft_fd ft)) = map_of m2 (f_number (ft_fd ft))" by simp
  from field_value_cong [OF this] get_message_cong [OF this] Cons show ?case by (cases ft) simp
qed simp

definition sbe_header :: "MessageTemplate \<Rightarrow> byte list" where
  "sbe_header t = WriteU16 (of_nat (mt_block_length t)) @ WriteU16 (of_nat (mt_template_id t)) @
     WriteU16 (of_nat (mt_schema_id t)) @ WriteU16 (of_nat (mt_version t))"

lemma length_sbe_header [simp]: "length (sbe_header t) = 8"
  by (simp add: sbe_header_def)

lemma sbe_header_loads:
  assumes "template_ok t" "mt_schema_id t \<le> kMaxUint16"
  shows "\<exists>bl ti si. LoadU16 (sbe_header t @ r) = Inr bl \<and> LoadU16 (drop 2 (sbe_header t @ r)) = Inr ti \<and>
    LoadU16 (drop 4 (sbe_header t @ r)) = Inr si \<and> unat bl = mt_block_length t \<and> unat ti = mt_template_id t \<and> unat si = mt_schema_id t"
  using assms by (simp add: sbe_header_def LoadU16_WriteU16 unat_u16 template_ok_def)

lemma MarshalTemplate_enc:
  assumes "template_ok t" "MarshalTemplate t msg = Inr data"
  obtains fs gs where "enc_fields (mt_fields t) msg = Inr fs" "enc_groups (mt_groups t) msg = Inr gs"
    "data = sbe_header t @ fs @ gs" "length fs = mt_block_length t"
proof -
  have l: "layout 0 (mt_fields t) (mt_block_length t)" "\<forall>g\<in>set (mt_groups t). layout 0 (gt_fields g) (gt_block_length g)"
    using assms(1) by (simp_all add: template_ok_def)
  have "WriteFields (sbe_header t @ replicate (mt_block_length t) 0 @ []) 8 (mt_fields t) msg =
      map_sum id (\<lambda>bs. sbe_header t @ bs @ []) (enc_fields (mt_fields t) msg)"
    by (rule WriteFields_enc [OF l(1)]) simp_all
  with assms(2) obtain fs where fs: "enc_fields (mt_fields t) msg = Inr fs" "WriteGroups (sbe_header t @ fs) (mt_groups t) msg = Inr data"
    by (auto simp: MarshalTemplate_def Let_def sbe_header_def map_sum_Inr split: sum.splits)
  with that [of fs] enc_fields_length [OF l(1) fs(1)] show ?thesis by (auto simp: WriteGroups_enc [OF l(2)] map_sum_Inr)
qed

lemma UnmarshalInto_MarshalTemplate:
  assumes "template_ok t" "mt_schema_id t \<le> kMaxUint16" "numbers_distinct t" "message_ok maxrep t msg" "MarshalTemplate t msg = Inr data"
  shows "\<exists>m'. UnmarshalInto None maxrep data t [] = Inr m' \<and> same_message t msg m'"
proof -
  obtain fs gs where e: "enc_fields (mt_fields t) msg = Inr fs" "enc_groups (mt_groups t) msg = Inr gs"
    "data = sbe_header t @ fs @ gs" "length fs = mt_block_length t"
    by (rule MarshalTemplate_enc [OF assms(1,5)])
  obtain bl ti si where ld: "LoadU16 data = Inr bl" "LoadU16 (drop 2 data) = Inr ti" "LoadU16 (drop 4 data) = Inr si"
    "unat bl = mt_block_length t" "unat ti = mt_template_id t" "unat si = mt_schema_id t"
    using sbe_header_loads [OF assms(1,2), of "fs @ gs"] e(3) by auto
  have len: "length data = 8 + mt_block_length t + length gs" "length (sbe_header t @ fs) = 8 + mt_block_length t" using e(3,4) by simp_all
  have sp: "subspan 8 (mt_block_length t) data = Inr fs" using e(3,4) by (simp add: subspan_def)
  have l: "layout 0 (mt_fields t) (mt_block_length t)" using assms(1) by (simp add: template_ok_def)
  obtain m1 where m1: "DecodeFields fs (mt_fields t) [] = Inr m1" "same_fields (mt_fields t) msg m1"
    "\<forall>k. k \<notin> (f_number \<circ> ft_fd) ` set (mt_fields t) \<longrightarrow> map_of m1 k = None"
    using DecodeFields_enc [OF l e(1), of "[]" "[]" "[]"] assms(3,4) by (auto simp: message_ok_def numbers_distinct_def)
  have v: "ValidateGroups maxrep data (mt_groups t) (8 + mt_block_length t) = Inr ()"
    using ValidateGroups_enc [of "mt_groups t" msg maxrep gs "sbe_header t @ fs"] assms(1,4) e(2,3) len(2)
    by (simp add: template_ok_def message_ok_def)
  have "\<exists>m'. DecodeGroups ((sbe_header t @ fs) @ gs) (mt_groups t) (length (sbe_header t @ fs)) m1 = Inr m' \<and>
    (\<forall>g\<in>set (mt_groups t). list_all2 (same_fields (gt_fields g)) (group_entries g msg) (group_entries g m')) \<and>
    (\<forall>k. k \<notin> (f_number \<circ> gt_fd) ` set (mt_groups t) \<longrightarrow> map_of m' k = map_of m1 k)"
    using assms(1,3,4) m1(3) by (intro DecodeGroups_enc e(2)) (auto simp: template_ok_def message_ok_def numbers_distinct_def)
  then obtain m' where m': "DecodeGroups data (mt_groups t) (8 + mt_block_length t) m1 = Inr m'"
    "\<forall>g\<in>set (mt_groups t). list_all2 (same_fields (gt_fields g)) (group_entries g msg) (group_entries g m')"
    "\<forall>k. k \<notin> (f_number \<circ> gt_fd) ` set (mt_groups t) \<longrightarrow> map_of m' k = map_of m1 k"
    using e(3) len(2) by auto
  have "\<forall>ft\<in>set (mt_fields t). map_of m' (f_number (ft_fd ft)) = map_of m1 (f_number (ft_fd ft))"
  proof
    fix ft assume "ft \<in> set (mt_fields t)"
    then have "f_number (ft_fd ft) \<notin> (f_number \<circ> gt_fd) ` set (mt_groups t)"
      using assms(3) by (force simp: numbers_distinct_def)
    then show "map_of m' (f_number (ft_fd ft)) = map_of m1 (f_number (ft_fd ft))" using m'(3) by simp
  qed
  from same_fields_cong [OF this, of msg] m1(2) m'(2) have "same_message t msg m'" by (simp add: same_message_def)
  moreover have "UnmarshalInto None maxrep data t [] = Inr m'"
    using ld len(1) sp m1(1) v m'(1) by (simp add: UnmarshalInto_def Validate_def)
  ultimately show ?thesis by blast
qed


section \<open>Where a string is cut\<close>

abbreviation continuation :: "char \<Rightarrow> bool" where
  "continuation c \<equiv> (of_char c :: byte) AND 0xC0 = 0x80"

lemma continuation_iff: "continuation c \<longleftrightarrow> 0x80 \<le> ord c \<and> ord c \<le> 0xBF"
proof -
  have "\<forall>n\<in>set [0..<256]. ((of_nat n :: byte) AND 0xC0 = 0x80) = (0x80 \<le> n \<and> n \<le> 0xBF)" by code_simp
  moreover have "ord c \<in> set [0..<256]" using unat_of_char [of c] unat_lt_word(1) [of "of_char c"] by simp
  moreover have "(of_nat (ord c) :: byte) = of_char c" by (simp add: of_nat_of_char)
  ultimately show ?thesis by metis
qed

lemma EncodeRune_lead:
  assumes "IsValidRune r"
  shows "\<not> continuation (EncodeRune r ! 0)" "0 < i \<Longrightarrow> i < length (EncodeRune r) \<Longrightarrow> continuation (EncodeRune r ! i)"
proof -
  note codes = EncodeRune_codes [OF assms]
  have o: "ord (EncodeRune r ! i) = map ord (EncodeRune r) ! i" if "i < length (EncodeRune r)" for i using that by simp
  have l: "length (EncodeRune r) = length (map ord (EncodeRune r))" by simp
  have "0 < length (EncodeRune r)" by simp
  from o [OF this] show "\<not> continuation (EncodeRune r ! 0)" by (simp add: continuation_iff codes)
  assume i: "0 < i" "i < length (EncodeRune r)"
  have m: "x mod 64 \<le> 63" for x :: nat using mod_less_divisor [of 64 x] by linarith
  show "continuation (EncodeRune r ! i)"
    using i(1) i(2) [unfolded l codes] m
    by (auto simp: continuation_iff o [OF i(2)] codes nth_Cons' less_Suc_eq split: if_splits)
qed

lemma cut_back_spec:
  "(cut_back s n = 0 \<or> \<not> continuation (s ! cut_back s n)) \<and> (\<forall>m. cut_back s n < m \<and> m \<le> n \<longrightarrow> continuation (s ! m))"
  by (induction s n rule: cut_back.induct) (auto simp: le_Suc_eq)

lemma rune_boundary:
  "list_all IsValidRune rs \<Longrightarrow> n < length (concat (map EncodeRune rs)) \<Longrightarrow> \<not> continuation (concat (map EncodeRune rs) ! n) \<Longrightarrow>
   IsValidUTF8 (take n (concat (map EncodeRune rs)))"
proof (induction rs arbitrary: n)
  case (Cons r rs)
  have r: "IsValidRune r" "list_all IsValidRune rs" using Cons.prems(1) by simp_all
  show ?case
  proof (cases "n < length (EncodeRune r)")
    case True
    then have "n = 0" using EncodeRune_lead(2) [OF r(1), of n] Cons.prems(3) by (auto simp: nth_append)
    then show ?thesis by (simp add: IsValidUTF8.simps)
  next
    case False
    then have "IsValidUTF8 (take (n - length (EncodeRune r)) (concat (map EncodeRune rs)))"
      using Cons.IH [OF r(2)] Cons.prems(2,3) by (simp add: nth_append)
    with False show ?thesis using IsValidUTF8_encode [OF r(1)] by simp
  qed
qed simp


lemma continuation_head_invalid: "s \<noteq> [] \<Longrightarrow> continuation (hd s) \<Longrightarrow> \<not> IsValidUTF8 s"
  by (subst IsValidUTF8.simps) (auto simp: continuation_iff utf8_lead_def)

lemma CutLength_valid:
  assumes "IsValidUTF8 s"
  shows "IsValidUTF8 (take (CutLength s sz True) s)"
proof (cases "length s \<le> sz")
  case False
  obtain rs where rs: "list_all IsValidRune rs" "s = concat (map EncodeRune rs)" using IsValidUTF8_runes [OF assms] by blast
  have "cut_back s sz = 0 \<or> \<not> continuation (s ! cut_back s sz)" using cut_back_spec by blast
  moreover have "IsValidUTF8 []" by (simp add: IsValidUTF8.simps)
  ultimately show ?thesis
    using rune_boundary [OF rs(1), of "cut_back s sz"] rs(2) False cut_back_le [of s sz] by (auto simp: CutLength_def)
qed (use assms in \<open>simp add: CutLength_def\<close>)

lemma CutLength_longest:
  assumes "IsValidUTF8 s" "CutLength s sz True < m" "m \<le> sz" "m \<le> length s"
  shows "\<not> IsValidUTF8 (take m s)"
proof
  assume v: "IsValidUTF8 (take m s)"
  have "sz < length s" using assms(2-4) by (auto simp: CutLength_def split: if_splits)
  then have "continuation (s ! m)" "m < length s" using assms(2,3) cut_back_spec [of s sz] by (auto simp: CutLength_def)
  moreover have "IsValidUTF8 (drop m s)" using IsValidUTF8_append [OF v, of "drop m s"] assms(1) by simp
  ultimately show False using continuation_head_invalid [of "drop m s"] by (simp add: hd_drop_conv_nth)
qed

section \<open>Fields of an empty message type\<close>

text \<open>Its template has no sub-fields, so \<open>Marshal\<close> does not take it for a composite.\<close>

definition empty_composite :: "FieldTemplate \<Rightarrow> bool" where
  "empty_composite ft \<longleftrightarrow> cpp_type (ft_fd ft) = CPPTYPE_MESSAGE \<and> ft_encoding ft = [] \<and> ft_composite ft = []"

lemma WriteScalar_empty: "empty_composite ft \<Longrightarrow> WriteScalar buf off ft msg = Inl Fatal"
  by (simp add: empty_composite_def WriteScalar_def Let_def scalar_value_def)

lemma WriteFields_empty: "\<exists>ft\<in>set fts. empty_composite ft \<Longrightarrow> WriteFields buf base fts msg \<noteq> Inr out"
proof (induction fts arbitrary: buf)
  case (Cons ft fts)
  obtain fd o1 n e sub where ft: "ft = FieldTemplate fd o1 n e sub" by (cases ft)
  show ?case
  proof (cases "empty_composite ft")
    case True
    then have "sub = []" "e \<noteq> ''char''" by (simp_all add: empty_composite_def ft)
    with WriteScalar_empty [OF True] show ?thesis by (simp add: ft)
  next
    case False
    with Cons show ?thesis by (auto simp: ft split: sum.split)
  qed
qed simp

lemma BuildTemplate_loop_keeps:
  "BuildTemplate_loop fuel ranges pool md fds off fts gs = Some (Inr ((fts', gs'), n)) \<Longrightarrow> \<exists>ys. fts' = fts @ ys"
proof (induction fds arbitrary: off fts gs)
  case (Cons fd fds)
  from Cons.prems show ?case by (auto split: if_splits option.splits sum.splits dest!: Cons.IH)
qed simp

lemma BuildTemplate_loop_first:
  assumes "BuildTemplate_loop fuel ranges pool md (fd # fds) off fts gs = Some (Inr r)"
    and "cpp_type fd = CPPTYPE_MESSAGE" "\<not> f_repeated fd" "d_fields (message_type pool fd) = []"
  shows "\<exists>ft fin. empty_composite ft \<and> BuildTemplate_loop fuel ranges pool md fds fin (fts @ [ft]) gs = Some (Inr r)"
proof -
  have b: "BuildCompositeFields fuel ranges pool (message_type pool fd) \<in> {None, Some (Inr ([], 0))}"
    using assms(4) by (cases fuel) (simp_all add: SortedFields_def)
  have "empty_composite (FieldTemplate fd (off mod 65536) 0 [] [])" using assms(2) by (simp add: empty_composite_def)
  moreover have "\<exists>fin. BuildTemplate_loop fuel ranges pool md fds fin (fts @ [FieldTemplate fd (off mod 65536) 0 [] []]) gs = Some (Inr r)"
    using assms(1-3) b by (auto simp: layout_field_def place_field_def split: if_splits option.splits sum.splits)
  ultimately show ?thesis by blast
qed

lemma BuildTemplate_loop_empty:
  assumes "BuildTemplate_loop fuel ranges pool md fds off fts gs = Some (Inr ((fts', gs'), n))"
    and "fd \<in> set fds" "cpp_type fd = CPPTYPE_MESSAGE" "\<not> f_repeated fd" "d_fields (message_type pool fd) = []"
  shows "\<exists>ft\<in>set fts'. empty_composite ft"
  using assms(1,2)
proof (induction fds arbitrary: off fts gs)
  case (Cons f fds)
  show ?case
  proof (cases "f = fd")
    case True
    obtain ft fin where "empty_composite ft" and r: "BuildTemplate_loop fuel ranges pool md fds fin (fts @ [ft]) gs = Some (Inr ((fts', gs'), n))"
      using BuildTemplate_loop_first [OF Cons.prems(1) [unfolded True] assms(3-5)] by blast
    with BuildTemplate_loop_keeps [OF r] show ?thesis by auto
  next
    case False
    then have "fd \<in> set fds" using Cons.prems(2) by simp
    with Cons.prems(1) Cons.IH show ?thesis by (auto split: if_splits option.splits sum.splits)
  qed
qed simp

section \<open>Properties\<close>

text \<open>C3. What \<open>Marshal\<close> writes \<open>Unmarshal\<close> reads back. For a codec built from any schema files, a message whose field
  numbers are distinct and whose values its fields can hold (an integer of its type, a string that is valid, fits
  and does not end in NUL, bytes of the field's length, a float that is no NaN, a double its encoding keeps, no entries
  in a group whose entries are empty), and limits that admit the data: \<open>Unmarshal\<close> of the written bytes
  succeeds and the two messages agree on every field, composite and group entry.\<close>

theorem sbe_roundtrip:
  assumes "New fuel ranges pool files max_size max_count = Some (Inr c)" "TemplateByName c name = Some t"
    and "numbers_distinct t" "message_ok (c_max_repeated c) t msg"
    and "SbeCodec.Marshal c name msg = Inr data" "length data \<le> c_max_message_size c"
  shows "\<exists>m'. SbeCodec.Unmarshal None c data name [] = Inr m' \<and> same_message t msg m'"
proof -
  have t: "template_ok t" "mt_schema_id t \<le> kMaxUint16" using TemplateByName_ok [OF New_ok [OF assms(1)] assms(2)] by simp_all
  have "MarshalTemplate t msg = Inr data" using assms(2,5) by (simp add: SbeCodec.Marshal_def)
  from UnmarshalInto_MarshalTemplate [OF t assms(3,4) this] assms(2,6) show ?thesis by (simp add: SbeCodec.Unmarshal_def)
qed

definition demo_msg :: message where
  "demo_msg = [(1, MInt (- 5)), (2, MMessage [(1, MUInt 9), (2, MBool True)])]"

theorem sbe_roundtrip_witness:
  "\<exists>data m'. SbeCodec.Marshal demo_codec ''p.M'' demo_msg = Inr data \<and> SbeCodec.Unmarshal None demo_codec data ''p.M'' [] = Inr m' \<and>
     same_message (demo_template 1) demo_msg m'"
proof -
  have t: "TemplateByName demo_codec ''p.M'' = Some (demo_template 1)" by (simp add: TemplateByName_def demo_codec_def)
  have d: "SbeCodec.Marshal demo_codec ''p.M'' demo_msg = Inr
      [13, 0, 7, 0, 1, 0, 0, 0,  251, 255, 255, 255, 255, 255, 255, 255,  9, 0, 0, 0,  1]" by code_simp
  moreover have "length [13, 0, 7, 0, 1, 0, 0, 0,  251, 255, 255, 255, 255, 255, 255, 255,  9, 0, 0, 0,  1 :: byte]
      \<le> c_max_message_size demo_codec" by code_simp
  moreover have "numbers_distinct (demo_template 1)" by code_simp
  moreover have "message_ok (c_max_repeated demo_codec) (demo_template 1) demo_msg" by code_simp
  ultimately show ?thesis using sbe_roundtrip [OF demo_New t] by blast
qed

text \<open>C33. A string that does not fit its field is cut at the end of a character: what is kept of a valid string
  is valid and fits, and no longer valid prefix fits.\<close>

theorem sbe_string_cut:
  assumes "IsValidUTF8 s"
  shows "CutLength s sz True \<le> sz \<and> CutLength s sz True \<le> length s \<and> IsValidUTF8 (take (CutLength s sz True) s) \<and>
    (\<forall>m. CutLength s sz True < m \<and> m \<le> sz \<and> m \<le> length s \<longrightarrow> \<not> IsValidUTF8 (take m s))"
  using CutLength_le [of s sz True] CutLength_valid [OF assms] CutLength_longest [OF assms] by blast

theorem sbe_string_cut_witness:
  "CutLength [CHR ''a'', CHR 0xC3, CHR 0xA9, CHR ''b''] 2 True = 1 \<and> IsValidUTF8 (take 1 [CHR ''a'', CHR 0xC3, CHR 0xA9, CHR ''b''])"
proof -
  have "IsValidUTF8 [CHR ''a'', CHR 0xC3, CHR 0xA9, CHR ''b'']" by code_simp
  note cut = sbe_string_cut [OF this, of 2]
  have "CutLength [CHR ''a'', CHR 0xC3, CHR 0xA9, CHR ''b''] 2 True = 1" by code_simp
  with cut show ?thesis by simp
qed

text \<open>C37. A message type with a singular field whose own message type has no fields can be registered but never marshalled: that field
  is given a template that is not a composite, and \<open>Marshal\<close> takes it for an integer. Whatever the message holds, marshalling fails; where
  no field comes before that one, it is the reflection call on it that aborts.\<close>

theorem empty_composite_aborts:
  assumes "fd \<in> set (d_fields md)" "cpp_type fd = CPPTYPE_MESSAGE" "\<not> f_repeated fd" "d_fields (message_type pool fd) = []"
    and "BuildTemplate fuel ranges pool md schema_id version = Some (Inr t)"
  shows "(\<forall>out. MarshalTemplate t msg \<noteq> Inr out) \<and> (hd (SortedFields md) = fd \<longrightarrow> MarshalTemplate t msg = Inl Fatal)"
proof -
  from assms(5) obtain gs n where l: "BuildTemplate_loop fuel ranges pool md (SortedFields md) 0 [] [] = Some (Inr ((mt_fields t, gs), n))"
    by (auto simp: BuildTemplate_def map_val_Inr split: option.splits if_splits)
  have fd: "fd \<in> set (SortedFields md)" using assms(1) by (simp add: SortedFields_def)
  have "\<exists>ft\<in>set (mt_fields t). empty_composite ft" by (rule BuildTemplate_loop_empty [OF l fd assms(2-4)])
  then have "MarshalTemplate t msg \<noteq> Inr out" for out
    using WriteFields_empty by (auto simp: MarshalTemplate_def Let_def split: sum.splits)
  moreover have "MarshalTemplate t msg = Inl Fatal" if h: "hd (SortedFields md) = fd"
  proof -
    obtain fds where "SortedFields md = fd # fds" using h fd by (cases "SortedFields md") simp_all
    then obtain ft fin where ft: "empty_composite ft"
        "BuildTemplate_loop fuel ranges pool md fds fin [ft] [] = Some (Inr ((mt_fields t, gs), n))"
      using BuildTemplate_loop_first [OF _ assms(2-4), of fuel ranges md fds 0 "[]" "[]"] l by fastforce
    then obtain ys where y: "mt_fields t = ft # ys" using BuildTemplate_loop_keeps [OF ft(2)] by auto
    have "ft_composite ft = []" "ft_encoding ft \<noteq> ''char''" using ft(1) by (simp_all add: empty_composite_def)
    with WriteScalar_empty [OF ft(1)] y show ?thesis by (cases ft) (simp add: MarshalTemplate_def Let_def)
  qed
  ultimately show ?thesis by blast
qed

theorem empty_composite_aborts_witness:
  "\<exists>t. BuildTemplate 1 [] [] (Descriptor ''p.E'' [demo_field ''e'' 1 TYPE_MESSAGE ''p.None'', demo_field ''n'' 2 TYPE_INT64 []] (d_options demo_message) []) 1 0
      = Some (Inr t) \<and> MarshalTemplate t [(2, MInt 5)] = Inl Fatal"
proof -
  let ?e = "demo_field ''e'' 1 TYPE_MESSAGE ''p.None''"
  let ?md = "Descriptor ''p.E'' [?e, demo_field ''n'' 2 TYPE_INT64 []] (d_options demo_message) []"
  obtain t where t: "BuildTemplate (Suc 0) [] [] ?md 1 0 = Some (Inr t)" by (simp add: template_eval)
  have h: "hd (SortedFields ?md) = ?e" by (simp add: SortedFields_def demo_field_def)
  from empty_composite_aborts [OF _ _ _ _ t, of ?e "[(2, MInt 5)]"] t h
  show ?thesis by (simp add: demo_field_def message_type_def)
qed

end
