(* ===== verification/PxfLexer.thy ===== *)
theory PxfLexer
  imports Base64 Duration Rfc3339 Utf8
begin

text \<open>
  The PXF lexer: \<open>include/protowire/pxf/token.h\<close>, \<open>include/protowire/pxf/lexer.h\<close> and \<open>src/pxf/lexer.cc\<close>.
  The lexer is a record that every operation returns updated. A token holds its text, where the source
  holds a view of the input or of the lexer's own storage. A tolerant lexer appends to an error list that it shares with its
  parser: that list is kept here. Line, column and offset count bytes of an input whose size an \<open>int\<close> holds, so they
  are natural numbers.
\<close>

section \<open>Tokens\<close>

datatype TokenKind =
    kEOF | kIllegal | kNewline | kComment
  | kIdent | kString | kInt | kFloat | kBool | kNull | kBytes | kTimestamp | kDuration
  | kLBrace | kRBrace | kLBracket | kRBracket | kLParen | kRParen | kEquals | kColon | kComma
  | kAtType | kAtDirective | kAtDataset | kAtProto

definition TokenKindName :: "TokenKind \<Rightarrow> string" where
  "TokenKindName k =
     (case k of
        kEOF \<Rightarrow> ''EOF'' | kIllegal \<Rightarrow> ''ILLEGAL'' | kNewline \<Rightarrow> ''newline'' | kComment \<Rightarrow> ''comment''
      | kIdent \<Rightarrow> ''identifier'' | kString \<Rightarrow> ''string'' | kInt \<Rightarrow> ''integer'' | kFloat \<Rightarrow> ''float''
      | kBool \<Rightarrow> ''bool'' | kNull \<Rightarrow> ''null'' | kBytes \<Rightarrow> ''bytes'' | kTimestamp \<Rightarrow> ''timestamp'' | kDuration \<Rightarrow> ''duration''
      | kLBrace \<Rightarrow> ''{'' | kRBrace \<Rightarrow> ''}'' | kLBracket \<Rightarrow> ''['' | kRBracket \<Rightarrow> '']''
      | kEquals \<Rightarrow> ''='' | kColon \<Rightarrow> '':'' | kComma \<Rightarrow> '','' | kLParen \<Rightarrow> ''('' | kRParen \<Rightarrow> '')''
      | kAtType \<Rightarrow> ''@type'' | kAtDataset \<Rightarrow> ''@dataset'' | kAtProto \<Rightarrow> ''@proto'' | kAtDirective \<Rightarrow> ''@directive'')"

record Position =
  pos_line :: nat
  pos_column :: nat
  pos_offset :: nat

record Error =
  err_pos :: Position
  err_msg :: string

record Token =
  tk_kind :: TokenKind
  tk_value :: string
  tk_pos :: Position
  tk_prec :: string

definition mk_token :: "TokenKind \<Rightarrow> string \<Rightarrow> Position \<Rightarrow> Token" where
  "mk_token k v p = \<lparr>tk_kind = k, tk_value = v, tk_pos = p, tk_prec = []\<rparr>"

record Lexer =
  lx_input :: string
  lx_pos :: nat
  lx_line :: nat
  lx_column :: nat
  lx_start :: Position
  lx_max_bytes :: int
  lx_errors :: "Error list option"

section \<open>Reading the input\<close>

definition start_position :: Position where
  "start_position = \<lparr>pos_line = 1, pos_column = 1, pos_offset = 0\<rparr>"

definition kMaxBytesLiteralLength :: int where
  "kMaxBytesLiteralLength = 64 * 2 ^ 20"

definition new_lexer_at :: "string \<Rightarrow> Position \<Rightarrow> Lexer" where
  "new_lexer_at input start =
     \<lparr>lx_input = input, lx_pos = 0, lx_line = pos_line start, lx_column = pos_column start, lx_start = start,
      lx_max_bytes = kMaxBytesLiteralLength, lx_errors = None\<rparr>"

definition new_lexer :: "string \<Rightarrow> Lexer" where
  "new_lexer input = new_lexer_at input start_position"

definition SetMaxBytesLiteral :: "int \<Rightarrow> Lexer \<Rightarrow> Lexer" where
  "SetMaxBytesLiteral n L = L\<lparr>lx_max_bytes := n\<rparr>"

definition SetTolerant :: "Lexer \<Rightarrow> Lexer" where
  "SetTolerant L = L\<lparr>lx_errors := Some []\<rparr>"

definition CurrentPos :: "Lexer \<Rightarrow> Position" where
  "CurrentPos L = \<lparr>pos_line = lx_line L, pos_column = lx_column L, pos_offset = pos_offset (lx_start L) + lx_pos L\<rparr>"

definition at_end :: "Lexer \<Rightarrow> bool" where
  "at_end L \<longleftrightarrow> length (lx_input L) \<le> lx_pos L"

definition Peek :: "nat \<Rightarrow> Lexer \<Rightarrow> char" where
  "Peek k L = (if length (lx_input L) \<le> lx_pos L + k then CHR 0x00 else lx_input L ! (lx_pos L + k))"

definition Advance :: "Lexer \<Rightarrow> Lexer" where
  "Advance L =
     (if at_end L then L
      else if lx_input L ! lx_pos L = CHR 0x0A
      then L\<lparr>lx_pos := lx_pos L + 1, lx_line := lx_line L + 1, lx_column := 1\<rparr>
      else L\<lparr>lx_pos := lx_pos L + 1, lx_column := lx_column L + 1\<rparr>)"

definition Tolerant :: "Lexer \<Rightarrow> bool" where
  "Tolerant L \<longleftrightarrow> lx_errors L \<noteq> None"

definition Report :: "Position \<Rightarrow> string \<Rightarrow> Lexer \<Rightarrow> Lexer" where
  "Report p msg L = L\<lparr>lx_errors := map_option (\<lambda>es. es @ [\<lparr>err_pos = p, err_msg = msg\<rparr>]) (lx_errors L)\<rparr>"

text \<open>What is left of the input, which bounds every loop.\<close>

definition lx_left :: "Lexer \<Rightarrow> nat" where
  "lx_left L = length (lx_input L) - lx_pos L"

lemma Advance_left: "\<not> at_end L \<Longrightarrow> lx_left (Advance L) < lx_left L"
  by (auto simp: Advance_def at_end_def lx_left_def)

lemma Advance_left_le: "lx_left (Advance L) \<le> lx_left L"
  by (auto simp: Advance_def at_end_def lx_left_def)

text \<open>The loops that advance while the byte at the front satisfies a test.\<close>

function skip_while :: "(char \<Rightarrow> bool) \<Rightarrow> Lexer \<Rightarrow> Lexer" where
  "skip_while P L = (if \<not> at_end L \<and> P (Peek 0 L) then skip_while P (Advance L) else L)"
  by pat_completeness auto
termination
  by (relation "measure (\<lambda>(P, L). lx_left L)") (auto intro: Advance_left)

declare skip_while.simps [simp del]

definition RepositionTo :: "nat \<Rightarrow> Lexer \<Rightarrow> Lexer" where
  "RepositionTo target L =
     (let L1 = (if target < lx_pos L then L\<lparr>lx_pos := 0, lx_line := pos_line (lx_start L), lx_column := pos_column (lx_start L)\<rparr> else L)
      in (Advance ^^ (target - lx_pos L1)) L1)"

definition IsIdentStart :: "char \<Rightarrow> bool" where
  "IsIdentStart c \<longleftrightarrow> ord (CHR ''a'') \<le> ord c \<and> ord c \<le> ord (CHR ''z'') \<or> ord (CHR ''A'') \<le> ord c \<and> ord c \<le> ord (CHR ''Z'') \<or> c = CHR ''_''"

definition IsIdentPart :: "char \<Rightarrow> bool" where
  "IsIdentPart c \<longleftrightarrow> IsIdentStart c \<or> IsDigit c \<or> c = CHR ''.''"

definition IsDurationUnit :: "char \<Rightarrow> bool" where
  "IsDurationUnit c \<longleftrightarrow> c = CHR ''h'' \<or> c = CHR ''m'' \<or> c = CHR ''s'' \<or> c = CHR ''n'' \<or> c = CHR ''u''"

definition IsLowerAlpha :: "char \<Rightarrow> bool" where
  "IsLowerAlpha c \<longleftrightarrow> ord (CHR ''a'') \<le> ord c \<and> ord c \<le> ord (CHR ''z'')"

definition HexVal :: "char \<Rightarrow> nat option" where
  "HexVal c =
     (if ord (CHR ''0'') \<le> ord c \<and> ord c \<le> ord (CHR ''9'') then Some (ord c - ord (CHR ''0''))
      else if ord (CHR ''a'') \<le> ord c \<and> ord c \<le> ord (CHR ''f'') then Some (ord c - ord (CHR ''a'') + 10)
      else if ord (CHR ''A'') \<le> ord c \<and> ord c \<le> ord (CHR ''F'') then Some (ord c - ord (CHR ''A'') + 10)
      else None)"

definition OctVal :: "char \<Rightarrow> nat option" where
  "OctVal c = (if ord (CHR ''0'') \<le> ord c \<and> ord c \<le> ord (CHR ''7'') then Some (ord c - ord (CHR ''0'')) else None)"

section \<open>Triple-quoted strings\<close>

text \<open>\<open>IsBlank\<close>: only runes with the \<open>White_Space\<close> property.\<close>

definition blank_width :: "string \<Rightarrow> nat" where
  "blank_width s =
     (let c = ord (s ! 0); b = (\<lambda>k. if k < length s then ord (s ! k) else 0)
      in if c < 0x80 then (if c \<noteq> 0x20 \<and> (c < 9 \<or> 13 < c) then 0 else 1)
         else if c = 0xC2 \<and> (b 1 = 0x85 \<or> b 1 = 0xA0) then 2
         else if length s \<le> 2 then 0
         else
           let r = c * 65536 + b 1 * 256 + b 2
           in if r = 0xE19A80 \<or> 0xE28080 \<le> r \<and> r \<le> 0xE2808A \<or> r = 0xE280A8 \<or> r = 0xE280A9 \<or> r = 0xE280AF \<or>
                 r = 0xE2819F \<or> r = 0xE38080 then 3 else 0)"

function IsBlank :: "string \<Rightarrow> bool" where
  "IsBlank s = (if s = [] then True else if blank_width s = 0 then False else IsBlank (drop (blank_width s) s))"
  by pat_completeness auto
termination
  by (relation "measure length") auto

declare IsBlank.simps [simp del]

fun split_lines :: "string \<Rightarrow> string list" where
  "split_lines [] = [[]]"
| "split_lines (c # s) =
     (if c = CHR 0x0A then [] # split_lines s
      else case split_lines s of [] \<Rightarrow> [[c]] | l # ls \<Rightarrow> (c # l) # ls)"

fun join_lines :: "string list \<Rightarrow> string" where
  "join_lines [] = []"
| "join_lines [l] = l"
| "join_lines (l # ls) = l @ [CHR 0x0A] @ join_lines ls"

definition Dedent :: "string \<Rightarrow> string" where
  "Dedent raw0 =
     (let raw = (if raw0 \<noteq> [] \<and> hd raw0 = CHR 0x0A then tl raw0 else raw0)
      in if raw = [] then []
         else
           let lines = split_lines raw;
               lst = last lines;
               ws_only = IsBlank lst;
               indent = (if ws_only then lst else []);
               lines' = (if ws_only then butlast lines else lines);
               strip = (\<lambda>line. if indent \<noteq> [] \<and> length indent \<le> length line \<and> take (length indent) line = indent
                               then drop (length indent) line else line)
           in join_lines (map strip lines'))"

section \<open>Comments\<close>

definition LexLineComment :: "Position \<Rightarrow> Lexer \<Rightarrow> Token \<times> Lexer" where
  "LexLineComment p L =
     (let L1 = skip_while (\<lambda>c. c \<noteq> CHR 0x0A) L
      in (mk_token kComment (substr (lx_input L) (lx_pos L) (lx_pos L1 - lx_pos L)) p, L1))"

text \<open>The scan for a closing sequence, and whether it was found.\<close>

function scan_for :: "string \<Rightarrow> Lexer \<Rightarrow> bool \<times> Lexer" where
  "scan_for close L =
     (if length (lx_input L) < lx_pos L + length close \<or> at_end L then (False, L)
      else if substr (lx_input L) (lx_pos L) (length close) = close then (True, L)
      else scan_for close (Advance L))"
  by pat_completeness auto
termination
  by (relation "measure (\<lambda>(c, L). lx_left L)") (auto intro: Advance_left)

declare scan_for.simps [simp del]

definition LexBlockComment :: "Position \<Rightarrow> Lexer \<Rightarrow> Token \<times> Lexer" where
  "LexBlockComment p L =
     (case scan_for ''*/'' (Advance (Advance L)) of
        (True, L1) \<Rightarrow>
          (let L2 = Advance (Advance L1)
           in (mk_token kComment (substr (lx_input L) (lx_pos L) (lx_pos L2 - lx_pos L)) p, L2))
      | (False, L1) \<Rightarrow>
          if Tolerant L1 then
            let L2 = skip_while (\<lambda>_. True) L1
            in (mk_token kComment (substr (lx_input L) (lx_pos L) (lx_pos L2 - lx_pos L)) p, Report p ''unterminated block comment'' L2)
          else (mk_token kIllegal ''unterminated block comment'' p, L1))"

section \<open>Strings\<close>

definition ReadHexByte :: "Lexer \<Rightarrow> (char \<times> Lexer) option" where
  "ReadHexByte L =
     (if length (lx_input L) \<le> lx_pos L + 1 then None
      else case (HexVal (lx_input L ! lx_pos L), HexVal (lx_input L ! (lx_pos L + 1))) of
          (Some hi, Some lo) \<Rightarrow> Some (char_of (16 * hi + lo), Advance (Advance L))
        | _ \<Rightarrow> None)"

fun ReadHexRune_loop :: "nat \<Rightarrow> nat \<Rightarrow> Lexer \<Rightarrow> nat option \<times> Lexer" where
  "ReadHexRune_loop 0 r L = (Some r, L)"
| "ReadHexRune_loop (Suc n) r L =
     (case HexVal (Peek 0 L) of
        None \<Rightarrow> (None, L)
      | Some h \<Rightarrow> ReadHexRune_loop n (16 * r + h) (Advance L))"

definition ReadHexRune :: "nat \<Rightarrow> Lexer \<Rightarrow> nat option \<times> Lexer" where
  "ReadHexRune n L = (if length (lx_input L) < lx_pos L + n then (None, L) else ReadHexRune_loop n 0 L)"

definition ReadOctRest :: "char \<Rightarrow> Lexer \<Rightarrow> (char \<times> Lexer) option" where
  "ReadOctRest first L =
     (if length (lx_input L) \<le> lx_pos L + 1 then None
      else case (OctVal (lx_input L ! lx_pos L), OctVal (lx_input L ! (lx_pos L + 1))) of
          (Some d1, Some d2) \<Rightarrow> Some (char_of (64 * (ord first - ord (CHR ''0'')) + 8 * d1 + d2), Advance (Advance L))
        | _ \<Rightarrow> None)"

text \<open>
  The escape whose letter is at the front: the text it denotes, or the message and the text kept of a
  bad one.
\<close>

definition rune_escape :: "nat \<Rightarrow> char \<Rightarrow> Lexer \<Rightarrow> (string \<times> string + string) \<times> Lexer" where
  "rune_escape n letter L =
     (let bad = (''invalid '' @ [CHR 0x5C, letter] @ '' escape: expected '' @ to_string n @ '' hex digits forming a valid codepoint'',
                 [CHR 0x5C, letter])
      in case ReadHexRune n L of
           (Some r, L') \<Rightarrow> (if IsValidRune r then Inr (EncodeRune r) else Inl bad, L')
         | (None, L') \<Rightarrow> (Inl bad, L'))"

definition LexString_escape :: "Lexer \<Rightarrow> (string \<times> string + string) \<times> Lexer" where
  "LexString_escape L0 =
     (let esc = Peek 0 L0; L = Advance L0
      in if esc = CHR 0x22 \<or> esc = CHR 0x5C \<or> esc = CHR 0x27 \<or> esc = CHR ''?'' then (Inr [esc], L)
         else if esc = CHR ''a'' then (Inr [CHR 0x07], L)
         else if esc = CHR ''b'' then (Inr [CHR 0x08], L)
         else if esc = CHR ''f'' then (Inr [CHR 0x0C], L)
         else if esc = CHR ''n'' then (Inr [CHR 0x0A], L)
         else if esc = CHR ''r'' then (Inr [CHR 0x0D], L)
         else if esc = CHR ''t'' then (Inr [CHR 0x09], L)
         else if esc = CHR ''v'' then (Inr [CHR 0x0B], L)
         else if esc = CHR ''x'' then
           (case ReadHexByte L of
              Some (b, L') \<Rightarrow> (Inr [b], L')
            | None \<Rightarrow> (Inl (''invalid '' @ [CHR 0x5C] @ ''x escape: expected 2 hex digits'', [CHR 0x5C, CHR ''x'']), L))
         else if esc = CHR ''0'' \<or> esc = CHR ''1'' \<or> esc = CHR ''2'' \<or> esc = CHR ''3'' then
           (case ReadOctRest esc L of
              Some (b, L') \<Rightarrow> (Inr [b], L')
            | None \<Rightarrow> (Inl (''invalid octal escape: expected 3 octal digits'', [CHR 0x5C, esc]), L))
         else if esc = CHR ''u'' then rune_escape 4 esc L
         else if esc = CHR ''U'' then rune_escape 8 esc L
         else (Inl (''unknown escape sequence '' @ [CHR 0x5C] @ EncodeRune (ord esc), [CHR 0x5C, esc]), L))"

lemma Advance2_left_le: "lx_left (Advance (Advance L)) \<le> lx_left L"
  using Advance_left_le order_trans by blast

lemma ReadHexRune_loop_left: "lx_left (snd (ReadHexRune_loop n r L)) \<le> lx_left L"
proof (induction n arbitrary: r L)
  case (Suc n)
  show ?case
  proof (cases "HexVal (Peek 0 L)")
    case (Some h)
    have "lx_left (snd (ReadHexRune_loop n (16 * r + h) (Advance L))) \<le> lx_left L"
      using Suc [of "16 * r + h" "Advance L"] Advance_left_le [of L] by linarith
    with Some show ?thesis by simp
  qed simp
qed simp

lemma rune_escape_left: "lx_left (snd (rune_escape n c L)) \<le> lx_left L"
  using ReadHexRune_loop_left [of n 0 L] by (auto simp: rune_escape_def Let_def ReadHexRune_def split: prod.split option.split)

lemma LexString_escape_left: "lx_left (snd (LexString_escape L)) \<le> lx_left (Advance L)"
  using rune_escape_left [of _ _ "Advance L"] Advance2_left_le [of "Advance L"]
  by (auto simp: LexString_escape_def Let_def ReadHexByte_def ReadOctRest_def split: option.split)

lemma escape_step: "\<not> at_end L \<Longrightarrow> lx_left (snd (LexString_escape (Advance L))) < lx_left L"
  using LexString_escape_left [of "Advance L"] Advance_left_le [of "Advance L"] Advance_left [of L] by linarith

lemma Report_left [simp]: "lx_left (Report p m L) = lx_left L"
  by (simp add: Report_def lx_left_def)

definition string_token :: "Position \<Rightarrow> nat \<Rightarrow> bool \<Rightarrow> string \<Rightarrow> Lexer \<Rightarrow> Token" where
  "string_token p verbatim_start needs_storage sb L =
     mk_token kString (if needs_storage then sb else substr (lx_input L) verbatim_start (lx_pos L - verbatim_start)) p"

function LexString_loop :: "Position \<Rightarrow> nat \<Rightarrow> bool \<Rightarrow> string \<Rightarrow> Lexer \<Rightarrow> Token \<times> Lexer" where
  "LexString_loop p vs needs sb L =
     (if at_end L then
        if Tolerant L then (string_token p vs needs sb L, Report p ''unterminated string'' L)
        else (mk_token kIllegal ''unterminated string'' p, L)
      else if Peek 0 L = CHR 0x22 then (string_token p vs needs sb L, Advance L)
      else if Peek 0 L = CHR 0x5C then
        (let sb1 = (if needs then sb else substr (lx_input L) vs (lx_pos L - vs))
         in if at_end (Advance L) then
              if Tolerant L then (string_token p vs True sb1 (Advance L), Report p ''unterminated escape sequence'' (Advance L))
              else (mk_token kIllegal ''unterminated escape sequence'' p, Advance L)
            else
              (case LexString_escape (Advance L) of
                 (Inr t, L') \<Rightarrow> LexString_loop p vs True (sb1 @ t) L'
               | (Inl (msg, kept), L') \<Rightarrow>
                   if Tolerant L then LexString_loop p vs True (sb1 @ kept) (Report (CurrentPos (Advance L)) msg L')
                   else (mk_token kIllegal msg p, L')))
      else if Peek 0 L = CHR 0x0A then
        if Tolerant L then (string_token p vs needs sb L, Report p ''unterminated string: ended at newline'' L)
        else (mk_token kIllegal (''newline in string literal: write it as '' @ [CHR 0x5C] @ ''n, or use a '' @
               [CHR 0x22, CHR 0x22, CHR 0x22] @ ''triple-quoted'' @ [CHR 0x22, CHR 0x22, CHR 0x22] @ '' string'') p, L)
      else LexString_loop p vs needs (if needs then sb @ [Peek 0 L] else sb) (Advance L))"
  by pat_completeness auto
termination
proof (relation "measure (\<lambda>(p, vs, needs, sb, L). lx_left L)", goal_cases)
  case (2 p vs needs sb L)
  then show ?case using escape_step [of L] by (auto simp del: split_paired_All) (metis snd_conv)
next
  case (3 p vs needs sb L)
  then show ?case using escape_step [of L] by (auto simp del: split_paired_All) (metis snd_conv)
qed (auto intro: Advance_left)

declare LexString_loop.simps [simp del]

definition LexString :: "Position \<Rightarrow> Lexer \<Rightarrow> Token \<times> Lexer" where
  "LexString p L = LexString_loop p (lx_pos (Advance L)) False [] (Advance L)"

definition LexTripleString :: "Position \<Rightarrow> Lexer \<Rightarrow> Token \<times> Lexer" where
  "LexTripleString p L =
     (let L0 = Advance (Advance (Advance L)); start = lx_pos L0
      in case scan_for [CHR 0x22, CHR 0x22, CHR 0x22] L0 of
           (True, L1) \<Rightarrow>
             (mk_token kString (Dedent (substr (lx_input L) start (lx_pos L1 - start))) p, Advance (Advance (Advance L1)))
         | (False, L1) \<Rightarrow>
             if Tolerant L1 then
               let L2 = skip_while (\<lambda>_. True) L1
               in (mk_token kString (Dedent (substr (lx_input L) start (lx_pos L2 - start))) p,
                   Report p ''unterminated triple-quoted string'' L2)
             else (mk_token kIllegal ''unterminated triple-quoted string'' p, L1))"

section \<open>Bytes literals and directives\<close>

function LexBytes_loop :: "Position \<Rightarrow> nat \<Rightarrow> Lexer \<Rightarrow> Token \<times> Lexer" where
  "LexBytes_loop p start L =
     (let raw = substr (lx_input L) start (lx_pos L - start)
      in if at_end L then
           if Tolerant L then (mk_token kBytes raw p, Report p ''unterminated bytes literal'' L)
           else (mk_token kIllegal ''unterminated bytes literal'' p, L)
         else if 0 < lx_max_bytes L \<and> lx_max_bytes L < int ((lx_pos L - start) div 4 * 3) then
           (mk_token kIllegal (''bytes literal decodes to more than MaxBytesLiteralLength='' @ to_string_int (lx_max_bytes L) @ '' bytes'') p, L)
         else if Peek 0 L = CHR 0x22 then
           (if \<not> Tolerant L \<and> isl (Base64DecodeLenient raw)
            then mk_token kIllegal ''invalid base64 in bytes literal'' p else mk_token kBytes raw p, Advance L)
         else if Peek 0 L = CHR 0x0A then
           if Tolerant L then (mk_token kBytes raw p, Report p ''unterminated bytes literal: ended at newline'' L)
           else (mk_token kIllegal ''unterminated bytes literal'' p, L)
         else LexBytes_loop p start (Advance L))"
  by pat_completeness auto
termination
  by (relation "measure (\<lambda>(p, start, L). lx_left L)") (auto intro: Advance_left)

declare LexBytes_loop.simps [simp del]

definition LexBytes :: "Position \<Rightarrow> Lexer \<Rightarrow> Token \<times> Lexer" where
  "LexBytes p L =
     (let L1 = Advance L; L2 = Advance L1
      in if at_end L1 \<or> Peek 0 L1 \<noteq> CHR 0x22 then (mk_token kIllegal (''expected '' @ [CHR 0x27, CHR 0x22, CHR 0x27] @ '' after b'') p, L1)
         else LexBytes_loop p (lx_pos L2) L2)"

definition LexDirective :: "Position \<Rightarrow> Lexer \<Rightarrow> Token \<times> Lexer" where
  "LexDirective p L =
     (let L1 = Advance L; L2 = skip_while IsIdentPart L1;
          name = substr (lx_input L) (lx_pos L1) (lx_pos L2 - lx_pos L1)
      in (if name = [] then mk_token kIllegal ([CHR 0x22, CHR 0x40, CHR 0x22] @ '' must be followed by a directive name'') p
          else if name = ''type'' then mk_token kAtType ''@type'' p
          else if name = ''dataset'' then mk_token kAtDataset ''@dataset'' p
          else if name = ''proto'' then mk_token kAtProto ''@proto'' p
          else mk_token kAtDirective name p, L2))"

section \<open>Numbers, timestamps, durations and identifiers\<close>

definition LexPrecision :: "Lexer \<Rightarrow> string \<times> Lexer" where
  "LexPrecision L =
     (if Peek 0 L \<noteq> CHR ''p'' \<or> \<not> IsDigit (Peek 1 L) then ([], L)
      else let L1 = Advance L; L2 = skip_while IsDigit L1 in (substr (lx_input L) (lx_pos L1) (lx_pos L2 - lx_pos L1), L2))"

definition number_token :: "TokenKind \<Rightarrow> Position \<Rightarrow> nat \<Rightarrow> Lexer \<Rightarrow> Token \<times> Lexer" where
  "number_token k p start L =
     (let val = substr (lx_input L) start (lx_pos L - start); (prec, L') = LexPrecision L
      in (\<lparr>tk_kind = k, tk_value = val, tk_pos = p, tk_prec = prec\<rparr>, L'))"

definition AtDurationUnit :: "Lexer \<Rightarrow> bool" where
  "AtDurationUnit L \<longleftrightarrow> \<not> at_end L \<and> (IsDurationUnit (Peek 0 L) \<or> Peek 0 L = CHR 0xC2 \<and> Peek 1 L = CHR 0xB5)"

definition LexFloat :: "Position \<Rightarrow> nat \<Rightarrow> Lexer \<Rightarrow> Token \<times> Lexer" where
  "LexFloat p start L =
     (let L1 = (if Peek 0 L = CHR ''.'' then skip_while IsDigit (Advance L) else L);
          L2 = (if \<not> at_end L1 \<and> (Peek 0 L1 = CHR ''e'' \<or> Peek 0 L1 = CHR ''E'') then
                  let La = Advance L1; Lb = (if \<not> at_end La \<and> (Peek 0 La = CHR ''+'' \<or> Peek 0 La = CHR ''-'') then Advance La else La)
                  in skip_while IsDigit Lb
                else L1)
      in number_token kFloat p start L2)"

function timestamp_loop :: "Lexer \<Rightarrow> Lexer" where
  "timestamp_loop L =
     (if at_end L \<or> Peek 0 L \<in> set [CHR '' '', CHR 0x0A, CHR 0x09, CHR 0x0D, CHR '','', CHR '']'', CHR ''}'', CHR '')'', CHR ''#''] \<or>
         Peek 0 L = CHR ''/'' \<and> (Peek 1 L = CHR ''/'' \<or> Peek 1 L = CHR ''*'')
      then L else timestamp_loop (Advance L))"
  by pat_completeness auto
termination
  by (relation "measure lx_left") (auto intro: Advance_left)

declare timestamp_loop.simps [simp del]

definition LexTimestamp :: "Position \<Rightarrow> nat \<Rightarrow> Lexer \<Rightarrow> Token \<times> Lexer" where
  "LexTimestamp p start L =
     (let L1 = timestamp_loop L; raw = substr (lx_input L) start (lx_pos L1 - start)
      in (if ParseRFC3339 raw = None then mk_token kIllegal (''invalid timestamp: '' @ raw) p else mk_token kTimestamp raw p, L1))"

function duration_loop :: "Lexer \<Rightarrow> Lexer" where
  "duration_loop L =
     (if at_end L then L
      else if IsDigit (Peek 0 L) \<or> IsLowerAlpha (Peek 0 L) then duration_loop (Advance L)
      else if Peek 0 L = CHR ''.'' \<and> IsDigit (Peek 1 L) then duration_loop (Advance L)
      else if Peek 0 L = CHR 0xC2 \<and> Peek 1 L = CHR 0xB5 then duration_loop (Advance (Advance L))
      else L)"
  by pat_completeness auto
termination
  by (relation "measure lx_left") (auto intro: Advance_left le_less_trans [OF Advance_left_le Advance_left])

declare duration_loop.simps [simp del]

definition LexDuration :: "Position \<Rightarrow> nat \<Rightarrow> Lexer \<Rightarrow> Token \<times> Lexer" where
  "LexDuration p start L =
     (let L1 = duration_loop L; raw = substr (lx_input L) start (lx_pos L1 - start)
      in (if ParseDuration raw = None then mk_token kIllegal (''invalid duration: '' @ raw) p else mk_token kDuration raw p, L1))"

text \<open>The magnitude from its first digit on, and what it turns out to be.\<close>

definition LexNumber_digits :: "Position \<Rightarrow> nat \<Rightarrow> bool \<Rightarrow> Lexer \<Rightarrow> Token \<times> Lexer" where
  "LexNumber_digits p start neg L =
     (let L1 = skip_while IsDigit L; digit_count = lx_pos L1 - lx_pos L
      in if \<not> neg \<and> digit_count = 4 \<and> \<not> at_end L1 \<and> Peek 0 L1 = CHR ''-'' then LexTimestamp p start L1
         else
           let frac = (Peek 0 L1 = CHR ''.'' \<and> IsDigit (Peek 1 L1));
               L2 = (if frac then skip_while IsDigit (Advance L1) else L1)
           in if AtDurationUnit L2 then LexDuration p start L2
              else if frac \<or> \<not> at_end L2 \<and> (Peek 0 L2 = CHR ''.'' \<or> Peek 0 L2 = CHR ''e'' \<or> Peek 0 L2 = CHR ''E'') then LexFloat p start L2
              else number_token kInt p start L2)"

definition LexNumber :: "Position \<Rightarrow> Lexer \<Rightarrow> Token \<times> Lexer" where
  "LexNumber p L =
     (let start = lx_pos L; sign = Peek 0 L
      in if sign = CHR ''-'' \<or> sign = CHR ''+'' then
           let L1 = Advance L
           in if substr (lx_input L) (lx_pos L1) 3 = ''inf'' \<and>
                 (length (lx_input L) \<le> lx_pos L1 + 3 \<or> \<not> IsIdentPart (lx_input L ! (lx_pos L1 + 3))) then
                let L2 = Advance (Advance (Advance L1)) in (mk_token kFloat (substr (lx_input L) start (lx_pos L2 - start)) p, L2)
              else if sign = CHR ''+'' then
                (mk_token kIllegal ([CHR 0x22, CHR ''+'', CHR 0x22] @ '' is valid only in '' @ [CHR 0x22] @ ''+inf'' @ [CHR 0x22]) p, L1)
              else if at_end L1 \<or> \<not> IsDigit (Peek 0 L1) then
                (mk_token kIllegal ([CHR 0x22, CHR ''-'', CHR 0x22] @ '' must be followed by a digit or '' @ [CHR 0x22] @ ''inf'' @ [CHR 0x22]) p, L1)
              else LexNumber_digits p start True L1
         else LexNumber_digits p start False L)"

definition LexIdent :: "Position \<Rightarrow> Lexer \<Rightarrow> Token \<times> Lexer" where
  "LexIdent p L =
     (let L1 = skip_while IsIdentPart L; v = substr (lx_input L) (lx_pos L) (lx_pos L1 - lx_pos L)
      in (if v = ''true'' \<or> v = ''false'' then mk_token kBool v p
          else if v = ''null'' then mk_token kNull v p
          else mk_token kIdent v p, L1))"

section \<open>The next token\<close>

definition SkipSpaces :: "Lexer \<Rightarrow> Lexer" where
  "SkipSpaces L = skip_while (\<lambda>c. c = CHR '' '' \<or> c = CHR 0x09 \<or> c = CHR 0x0D) L"

text \<open>The tokens of one byte.\<close>

definition punctuation :: "char \<Rightarrow> TokenKind option" where
  "punctuation c =
     map_of [(CHR ''{'', kLBrace), (CHR ''}'', kRBrace), (CHR ''['', kLBracket), (CHR '']'', kRBracket), (CHR ''('', kLParen),
       (CHR '')'', kRParen), (CHR ''='', kEquals), (CHR '':'', kColon), (CHR '','', kComma)] c"

definition Next :: "ranges \<Rightarrow> Lexer \<Rightarrow> Token \<times> Lexer" where
  "Next ranges L0 =
     (let L = SkipSpaces L0; p = CurrentPos L; c = Peek 0 L
      in if at_end L then (mk_token kEOF [] p, L)
         else if c = CHR 0x0A then (mk_token kNewline [] p, Advance L)
         else if c = CHR ''#'' \<or> c = CHR ''/'' \<and> Peek 1 L = CHR ''/'' then LexLineComment p L
         else if c = CHR ''/'' \<and> Peek 1 L = CHR ''*'' then LexBlockComment p L
         else if c = CHR 0x22 then
           if Peek 1 L = CHR 0x22 \<and> Peek 2 L = CHR 0x22 then LexTripleString p L else LexString p L
         else if c = CHR ''b'' \<and> Peek 1 L = CHR 0x22 then LexBytes p L
         else case punctuation c of
             Some k \<Rightarrow> (mk_token k [c] p, Advance L)
           | None \<Rightarrow>
               if c = CHR 0x40 then LexDirective p L
               else if c = CHR ''-'' \<or> c = CHR ''+'' \<or> IsDigit c then LexNumber p L
               else if IsIdentStart c then LexIdent p L
               else case GoIllegalRune ranges (drop (lx_pos L) (lx_input L)) of
                   (msg, width) \<Rightarrow> (mk_token kIllegal msg p, (Advance ^^ width) L))"

end
