(* ===== verification/PxfLexerPos.thy ===== *)
theory PxfLexerPos
  imports PxfLexer
begin

text \<open>
  The lexer only moves forward over its input: every operation of \<open>src/pxf/lexer.cc\<close> is a sequence of \<open>Advance\<close> and
  \<open>Report\<close> steps. So every token consumes input, and its position is where it stands in the document.
\<close>

section \<open>Moves\<close>

inductive moves :: "Lexer \<Rightarrow> Lexer \<Rightarrow> bool" for L where
  refl [simp]: "moves L L"
| advance [simp]: "moves L L' \<Longrightarrow> moves L (Advance L')"
| report [simp]: "moves L L' \<Longrightarrow> moves L (Report p m L')"

lemma moves_trans [trans]: "moves L1 L2 \<Longrightarrow> moves L2 L3 \<Longrightarrow> moves L1 L3"
  by (rotate_tac, induction rule: moves.induct) auto

lemma moves_Advance: "moves (Advance L) L' \<Longrightarrow> moves L L'"
  by (rule moves_trans [of _ "Advance L"]) auto

lemma moves_skip [simp]: "moves L (skip_while P L)"
proof (induction P L rule: skip_while.induct)
  case (1 P L)
  then show ?case by (subst skip_while.simps) (auto intro: moves_Advance)
qed

lemma moves_skip2 [simp]: "moves L L' \<Longrightarrow> moves L (skip_while P L')"
  using moves_trans moves_skip by blast

lemma moves_funpow [simp]: "moves L L' \<Longrightarrow> moves L ((Advance ^^ n) L')"
  by (induction n) auto

lemma moves_scan: "moves L (snd (scan_for close L))"
proof (induction close L rule: scan_for.induct)
  case (1 close L)
  then show ?case by (subst scan_for.simps) (auto intro: moves_Advance)
qed

lemma moves_hex: "moves L (snd (ReadHexRune_loop n r L))"
proof (induction n r L rule: ReadHexRune_loop.induct)
  case (2 n r L)
  then show ?case by (auto split: option.split intro: moves_Advance)
qed simp

lemma moves_rune_escape: "moves L (snd (rune_escape n c L))"
  using moves_hex [of L n 0] by (auto simp: rune_escape_def ReadHexRune_def Let_def split: prod.split option.split)

lemma moves_escape: "moves L (snd (LexString_escape L))"
  using moves_trans [OF advance [OF refl] moves_rune_escape, of L]
  by (auto simp: LexString_escape_def Let_def ReadHexByte_def ReadOctRest_def split: option.split)

lemma moves_string: "moves L (snd (LexString_loop p vs needs sb L))"
proof (induction p vs needs sb L rule: LexString_loop.induct)
  case (1 p vs needs sb L)
  have "moves L (Advance L)" by simp
  from moves_trans [OF this moves_escape] have e: "moves L (snd (LexString_escape (Advance L)))" .
  show ?case
  proof (cases "at_end L \<or> Peek 0 L = CHR 0x22 \<or> Peek 0 L \<noteq> CHR 0x5C \<or> at_end (Advance L)")
    case True
    then show ?thesis using 1(3) by (subst LexString_loop.simps) (auto simp: Let_def intro: moves_Advance)
  next
    case False
    obtain r L' where r: "LexString_escape (Advance L) = (r, L')" by fastforce
    with e have m: "moves L L'" by simp
    show ?thesis
    proof (cases r)
      case (Inl mk)
      obtain msg kept where mk: "mk = (msg, kept)" by fastforce
      have "moves (Report (CurrentPos (Advance L)) msg L') (snd (LexString_loop p vs True
          ((if needs then sb else substr (lx_input L) vs (lx_pos L - vs)) @ kept) (Report (CurrentPos (Advance L)) msg L')))" if "Tolerant L"
        using 1(1,2) False r Inl mk that by simp
      with m False r Inl mk show ?thesis
        by (subst LexString_loop.simps) (auto simp: Let_def intro: moves_trans [OF report])
    next
      case (Inr t)
      have "moves L' (snd (LexString_loop p vs True ((if needs then sb else substr (lx_input L) vs (lx_pos L - vs)) @ t) L'))"
        using 1(1,2) False r Inr by simp
      with m False r Inr show ?thesis
        by (subst LexString_loop.simps) (auto simp: Let_def intro: moves_trans)
    qed
  qed
qed

lemma moves_bytes: "moves L (snd (LexBytes_loop p start L))"
proof (induction p start L rule: LexBytes_loop.induct)
  case (1 p start L)
  then show ?case by (subst LexBytes_loop.simps) (auto simp: Let_def intro: moves_Advance)
qed

lemma moves_timestamp: "moves L (timestamp_loop L)"
proof (induction L rule: timestamp_loop.induct)
  case (1 L)
  then show ?case by (subst timestamp_loop.simps) (auto intro: moves_Advance)
qed

lemma moves_duration: "moves L (duration_loop L)"
proof (induction L rule: duration_loop.induct)
  case (1 L)
  then show ?case by (subst duration_loop.simps) (auto intro: moves_Advance)
qed


section \<open>What a move keeps\<close>

lemma moves_fixed:
  "moves L L' \<Longrightarrow> lx_input L' = lx_input L \<and> lx_start L' = lx_start L \<and> lx_max_bytes L' = lx_max_bytes L \<and>
     Tolerant L' = Tolerant L \<and> lx_pos L \<le> lx_pos L'"
  by (induction rule: moves.induct) (auto simp: Advance_def Report_def Tolerant_def)

lemma moves_errors: "moves L L' \<Longrightarrow> lx_errors L = Some es \<Longrightarrow> \<exists>es'. lx_errors L' = Some (es @ es')"
  by (induction rule: moves.induct) (auto simp: Advance_def Report_def)

text \<open>Where a byte is in the document, from the text before it.\<close>

definition locate :: "Position \<Rightarrow> string \<Rightarrow> Position" where
  "locate start s =
     \<lparr>pos_line = pos_line start + count_list s (CHR 0x0A),
      pos_column = (let tail = length (takeWhile (\<lambda>c. c \<noteq> CHR 0x0A) (rev s))
                    in if CHR 0x0A \<in> set s then 1 + tail else pos_column start + tail),
      pos_offset = pos_offset start + length s\<rparr>"

definition lexer_ok :: "Lexer \<Rightarrow> bool" where
  "lexer_ok L \<longleftrightarrow> lx_pos L \<le> length (lx_input L) \<and> CurrentPos L = locate (lx_start L) (take (lx_pos L) (lx_input L))"

lemma new_lexer_ok: "lexer_ok (new_lexer_at input start)"
  by (simp add: lexer_ok_def new_lexer_at_def CurrentPos_def locate_def)

lemma locate_snoc:
  "locate start (s @ [c]) =
     (if c = CHR 0x0A then \<lparr>pos_line = pos_line (locate start s) + 1, pos_column = 1, pos_offset = pos_offset (locate start s) + 1\<rparr>
      else (locate start s)\<lparr>pos_column := pos_column (locate start s) + 1, pos_offset := pos_offset (locate start s) + 1\<rparr>)"
  by (auto simp: locate_def Let_def)

lemma lexer_ok_Advance:
  assumes "lexer_ok L"
  shows "lexer_ok (Advance L)"
proof (cases "at_end L")
  case False
  then have "take (Suc (lx_pos L)) (lx_input L) = take (lx_pos L) (lx_input L) @ [lx_input L ! lx_pos L]"
    by (simp add: at_end_def take_Suc_conv_app_nth)
  moreover have "locate (lx_start L) (take (lx_pos L) (lx_input L)) = CurrentPos L" using assms by (simp add: lexer_ok_def)
  ultimately show ?thesis using False by (simp add: lexer_ok_def Advance_def at_end_def locate_snoc CurrentPos_def)
qed (use assms in \<open>simp add: Advance_def\<close>)

lemma lexer_ok_Report: "lexer_ok (Report p m L) = lexer_ok L"
  by (simp add: lexer_ok_def Report_def CurrentPos_def)

lemma lexer_ok_moves: "moves L L' \<Longrightarrow> lexer_ok L \<Longrightarrow> lexer_ok L'"
  by (induction rule: moves.induct) (simp_all add: lexer_ok_Advance lexer_ok_Report)

section \<open>Every token consumes input\<close>

lemma moves_step: "\<not> at_end L \<Longrightarrow> moves (Advance L) L' \<Longrightarrow> lx_pos L < lx_pos L'"
  using moves_fixed [of "Advance L" L'] by (auto simp: Advance_def split: if_splits)

lemma skip_first: "\<not> at_end L \<Longrightarrow> P (Peek 0 L) \<Longrightarrow> moves (Advance L) (skip_while P L)"
  by (subst skip_while.simps) auto

lemma moves_number_token: "moves L (snd (number_token k p start L))"
  by (auto simp: number_token_def LexPrecision_def Let_def split: prod.split)

lemma moves_LexFloat: "moves L (snd (LexFloat p start L))"
proof -
  have "moves L L' \<Longrightarrow> moves L (snd (number_token kFloat p start L'))" for L'
    using moves_trans moves_number_token by blast
  then show ?thesis by (auto simp: LexFloat_def Let_def)
qed

lemma moves_digits:
  assumes "\<not> at_end L" "IsDigit (Peek 0 L)"
  shows "moves (Advance L) (snd (LexNumber_digits p start neg L))"
proof -
  have L1: "moves (Advance L) (skip_while IsDigit L)" using assms by (rule skip_first)
  have m: "moves L1 L2 \<Longrightarrow> moves (Advance L) L1 \<Longrightarrow> moves (Advance L) L2" for L1 L2 by (rule moves_trans)
  let ?L2 = "if Peek 0 (skip_while IsDigit L) = CHR ''.'' \<and> IsDigit (Peek 1 (skip_while IsDigit L))
    then skip_while IsDigit (Advance (skip_while IsDigit L)) else skip_while IsDigit L"
  have L2: "moves (Advance L) ?L2" using L1 by simp
  from m [OF moves_timestamp L1] m [OF moves_duration L2] m [OF moves_LexFloat L2] m [OF moves_number_token L2]
  show ?thesis by (auto simp: LexNumber_digits_def LexTimestamp_def LexDuration_def Let_def)
qed

lemma moves_LexNumber:
  assumes "\<not> at_end L" "Peek 0 L = CHR ''-'' \<or> Peek 0 L = CHR ''+'' \<or> IsDigit (Peek 0 L)"
  shows "moves (Advance L) (snd (LexNumber p L))"
  using assms moves_digits [of "Advance L" p "lx_pos L" True] moves_digits [of L p "lx_pos L" False]
  by (auto simp: LexNumber_def Let_def intro: moves_Advance)

lemma moves_LexBytes: "moves (Advance L) (snd (LexBytes p L))"
proof -
  have "moves (Advance L) (Advance (Advance L))" by simp
  from moves_trans [OF this moves_bytes] show ?thesis by (auto simp: LexBytes_def Let_def)
qed

lemma moves_LexTripleString: "moves (Advance L) (snd (LexTripleString p L))"
proof -
  have "moves (Advance L) (Advance (Advance (Advance L)))" by simp
  from moves_trans [OF this moves_scan] have "moves (Advance L) (snd (scan_for [CHR 0x22, CHR 0x22, CHR 0x22] (Advance (Advance (Advance L)))))" .
  then show ?thesis by (auto simp: LexTripleString_def Let_def split: prod.split bool.split)
qed

lemma moves_LexBlockComment: "moves (Advance L) (snd (LexBlockComment p L))"
proof -
  have "moves (Advance L) (Advance (Advance L))" by simp
  from moves_trans [OF this moves_scan] have "moves (Advance L) (snd (scan_for ''*/'' (Advance (Advance L))))" .
  then show ?thesis by (auto simp: LexBlockComment_def Let_def split: prod.split bool.split)
qed

lemma moves_illegal: "moves (Advance L) ((Advance ^^ snd (GoIllegalRune ranges s)) L)"
proof -
  have "0 < snd (GoIllegalRune ranges s)" using rune_at_width by (auto simp: GoIllegalRune_def split: option.split)
  then obtain n where "snd (GoIllegalRune ranges s) = Suc n" using gr0_implies_Suc by blast
  then show ?thesis by (auto simp: funpow_swap1)
qed

text \<open>The kind and position of what each operation makes.\<close>

definition at_tok :: "Position \<Rightarrow> Token \<Rightarrow> bool" where
  "at_tok p t \<longleftrightarrow> tk_pos t = p \<and> tk_kind t \<noteq> kEOF"

lemma at_tok_mk [simp]: "k \<noteq> kEOF \<Longrightarrow> at_tok p (mk_token k v p)"
  by (simp add: at_tok_def mk_token_def)

lemma at_tok_string: "at_tok p (fst (LexString_loop p vs needs sb L))"
proof (induction p vs needs sb L rule: LexString_loop.induct)
  case (1 p vs needs sb L)
  obtain r L' where r: "LexString_escape (Advance L) = (r, L')" by fastforce
  with 1 show ?case
    by (subst LexString_loop.simps) (cases r; auto simp: Let_def string_token_def)
qed

lemma at_tok_bytes: "at_tok p (fst (LexBytes_loop p start L))"
proof (induction p start L rule: LexBytes_loop.induct)
  case (1 p start L)
  then show ?case by (subst LexBytes_loop.simps) (simp add: Let_def)
qed

lemma at_tok_number: "k \<noteq> kEOF \<Longrightarrow> at_tok p (fst (number_token k p start L))"
  by (simp add: number_token_def Let_def at_tok_def split: prod.split)

lemma at_tok_digits: "at_tok p (fst (LexNumber_digits p start neg L))"
  by (simp add: LexNumber_digits_def LexTimestamp_def LexDuration_def LexFloat_def Let_def at_tok_number)

lemma at_tok_ops:
  "at_tok p (fst (LexLineComment p L))" "at_tok p (fst (LexBlockComment p L))" "at_tok p (fst (LexTripleString p L))"
  "at_tok p (fst (LexString p L))" "at_tok p (fst (LexBytes p L))" "at_tok p (fst (LexDirective p L))"
  "at_tok p (fst (LexNumber p L))" "at_tok p (fst (LexIdent p L))"
  by (simp_all add: LexLineComment_def LexBlockComment_def LexTripleString_def LexString_def LexBytes_def LexDirective_def
      LexNumber_def LexIdent_def Let_def at_tok_string at_tok_bytes at_tok_digits split: prod.split bool.split)

lemma punctuation_kind: "punctuation c = Some k \<Longrightarrow> k \<noteq> kEOF"
  by (auto simp: punctuation_def split: if_splits)

lemma Next_moves:
  fixes ranges L0
  defines "L \<equiv> SkipSpaces L0"
  shows "if at_end L then Next ranges L0 = (mk_token kEOF [] (CurrentPos L), L)
    else moves (Advance L) (snd (Next ranges L0)) \<and> tk_pos (fst (Next ranges L0)) = CurrentPos L \<and> tk_kind (fst (Next ranges L0)) \<noteq> kEOF"
proof (cases "at_end L")
  case False
  have i: "moves (Advance L) (snd (Next ranges L0))"
  proof -
    have "moves (Advance L) (snd (LexLineComment p L))" if "Peek 0 L \<noteq> CHR 0x0A" for p
      using skip_first [of L "\<lambda>c. c \<noteq> CHR 0x0A"] False that by (simp add: LexLineComment_def Let_def)
    moreover have "moves (Advance L) (snd (LexString p L))" for p by (simp add: LexString_def moves_string)
    moreover have "moves (Advance L) (snd (LexDirective p L))" for p by (auto simp: LexDirective_def Let_def)
    moreover have "moves (Advance L) (snd (LexIdent p L))" if "IsIdentStart (Peek 0 L)" for p
      using skip_first [of L IsIdentPart] False that by (simp add: LexIdent_def Let_def IsIdentPart_def)
    ultimately show ?thesis
      using moves_LexBlockComment [of L] moves_LexTripleString [of L] moves_LexBytes [of L] moves_LexNumber [OF False]
        moves_illegal [of L ranges "drop (lx_pos L) (lx_input L)"] False
      unfolding Next_def L_def [symmetric] Let_def by (auto split: option.split prod.split)
  qed
  have "tk_pos (fst (Next ranges L0)) = CurrentPos L \<and> tk_kind (fst (Next ranges L0)) \<noteq> kEOF"
  proof -
    have "at_tok (CurrentPos L) (fst (Next ranges L0))"
      using False unfolding Next_def L_def [symmetric] Let_def
      by (simp add: at_tok_ops punctuation_kind split: option.split prod.split)
    then show ?thesis by (simp add: at_tok_def)
  qed
  with i False show ?thesis by simp
qed (simp add: Next_def L_def Let_def)


lemma SkipSpaces_moves: "moves L (SkipSpaces L)"
  by (simp add: SkipSpaces_def)

text \<open>A call of \<open>Next\<close>: the token stands at some byte \<open>k\<close> of the input, and the lexer ends past it.\<close>

lemma Next_spec:
  assumes "lexer_ok L" "Next ranges L = (t, L')"
  obtains k where "lx_pos L \<le> k" "k \<le> length (lx_input L)" "tk_pos t = locate (lx_start L) (take k (lx_input L))" "moves L L'"
    "if tk_kind t = kEOF then lx_pos L' = k \<and> k = length (lx_input L) else k < lx_pos L'"
proof -
  let ?S = "SkipSpaces L"
  have m: "moves L ?S" by (rule SkipSpaces_moves)
  from moves_fixed [OF m] lexer_ok_moves [OF m assms(1)]
  have S: "lx_pos L \<le> lx_pos ?S" "lx_pos ?S \<le> length (lx_input L)" "CurrentPos ?S = locate (lx_start L) (take (lx_pos ?S) (lx_input L))"
    "lx_input ?S = lx_input L"
    by (auto simp: lexer_ok_def)
  show ?thesis
  proof (cases "at_end ?S")
    case True
    with Next_moves [where ranges = ranges and ?L0.0 = L] assms(2) have "t = mk_token kEOF [] (CurrentPos ?S)" "L' = ?S" by auto
    with that [of "lx_pos ?S"] S True m show ?thesis by (auto simp: mk_token_def at_end_def)
  next
    case False
    with Next_moves [where ranges = ranges and ?L0.0 = L] assms(2)
    have n: "moves (Advance ?S) L'" "tk_pos t = CurrentPos ?S" "tk_kind t \<noteq> kEOF" by auto
    have "moves L (Advance ?S)" using m by simp
    from moves_trans [OF this n(1)] moves_step [OF False n(1)] n(2,3) S that [of "lx_pos ?S"] show ?thesis by auto
  qed
qed

text \<open>The tokens of repeated calls, up to the end of the input.\<close>

fun tokens :: "ranges \<Rightarrow> nat \<Rightarrow> Lexer \<Rightarrow> Token list" where
  "tokens ranges 0 L = []"
| "tokens ranges (Suc n) L = (case Next ranges L of (t, L') \<Rightarrow> t # (if tk_kind t = kEOF then [] else tokens ranges n L'))"

definition token_at :: "Position \<Rightarrow> string \<Rightarrow> nat \<Rightarrow> Token \<Rightarrow> bool" where
  "token_at start input k t \<longleftrightarrow> k \<le> length input \<and> tk_pos t = locate start (take k input)"

lemma token_at_offset: "token_at start input k t \<Longrightarrow> pos_offset (tk_pos t) = pos_offset start + k"
  by (simp add: token_at_def locate_def)

lemma tokens_spec:
  assumes "lexer_ok L" "lx_left L < n"
  shows "tokens ranges n L \<noteq> [] \<and> tk_kind (last (tokens ranges n L)) = kEOF \<and>
    (\<forall>t\<in>set (tokens ranges n L). \<exists>k. lx_pos L \<le> k \<and> token_at (lx_start L) (lx_input L) k t) \<and>
    sorted_wrt (\<lambda>t u. pos_offset (tk_pos t) < pos_offset (tk_pos u)) (tokens ranges n L)"
  using assms
proof (induction n arbitrary: L)
  case (Suc n)
  obtain t L' where N: "Next ranges L = (t, L')" by fastforce
  from Suc.prems(1) N obtain k where k: "lx_pos L \<le> k" "k \<le> length (lx_input L)" "tk_pos t = locate (lx_start L) (take k (lx_input L))"
    "moves L L'" "if tk_kind t = kEOF then lx_pos L' = k \<and> k = length (lx_input L) else k < lx_pos L'" by (rule Next_spec)
  then have t: "token_at (lx_start L) (lx_input L) k t" by (simp add: token_at_def)
  show ?case
  proof (cases "tk_kind t = kEOF")
    case True
    then show ?thesis using N t k(1) by auto
  next
    case False
    have L': "lexer_ok L'" using lexer_ok_moves [OF k(4) Suc.prems(1)] .
    have "lx_pos L < lx_pos L'" using k(1,5) False by simp
    then have "lx_left L' < n" using Suc.prems(2) moves_fixed [OF k(4)] L' by (auto simp: lx_left_def lexer_ok_def)
    note IH = Suc.IH [OF L' this]
    have sub: "\<forall>u\<in>set (tokens ranges n L'). \<exists>j. k < j \<and> token_at (lx_start L) (lx_input L) j u"
    proof
      fix u assume "u \<in> set (tokens ranges n L')"
      with IH obtain j where "lx_pos L' \<le> j" "token_at (lx_start L') (lx_input L') j u" by blast
      with k(5) False moves_fixed [OF k(4)] have "k < j \<and> token_at (lx_start L) (lx_input L) j u" by auto
      then show "\<exists>j. k < j \<and> token_at (lx_start L) (lx_input L) j u" ..
    qed
    then have "\<forall>u\<in>set (tokens ranges n L'). pos_offset (tk_pos t) < pos_offset (tk_pos u)"
      using token_at_offset [OF t] token_at_offset by fastforce
    moreover have "\<forall>u\<in>set (t # tokens ranges n L'). \<exists>j. lx_pos L \<le> j \<and> token_at (lx_start L) (lx_input L) j u"
    proof
      fix u assume "u \<in> set (t # tokens ranges n L')"
      then consider "u = t" | "u \<in> set (tokens ranges n L')" by auto
      then show "\<exists>j. lx_pos L \<le> j \<and> token_at (lx_start L) (lx_input L) j u"
        using t k(1) sub order_trans [OF k(1) less_imp_le] by cases blast+
    qed
    ultimately show ?thesis using N False IH by simp
  qed
qed simp

section \<open>Properties\<close>

text \<open>C38. On every input the lexer reaches the end: among the first \<open>length input + 1\<close> tokens is \<open>kEOF\<close>, whatever the
  input. Each token before it starts at a later byte than the one before, and the line, column and offset it carries
  are those of its byte in the document.\<close>

theorem lexer_positions:
  "tk_kind (last (tokens ranges (length input + 1) (new_lexer_at input start))) = kEOF \<and>
   list_all (\<lambda>t. \<exists>k. token_at start input k t) (tokens ranges (length input + 1) (new_lexer_at input start)) \<and>
   sorted_wrt (\<lambda>t u. pos_offset (tk_pos t) < pos_offset (tk_pos u)) (tokens ranges (length input + 1) (new_lexer_at input start))"
proof -
  have "lx_left (new_lexer_at input start) < length input + 1" by (simp add: lx_left_def new_lexer_at_def)
  moreover have "lx_start (new_lexer_at input start) = start" "lx_input (new_lexer_at input start) = input"
    by (simp_all add: new_lexer_at_def)
  ultimately show ?thesis
    using tokens_spec [OF new_lexer_ok, of input start "length input + 1" ranges] unfolding list_all_iff by metis
qed

end
