(* ===== verification/PxfString.thy ===== *)
theory PxfString
  imports PxfLexerPos
begin

text \<open>
  The lexer reads back every string that \<open>GoQuote\<close> writes. The table of printable runes is a parameter; all that is
  asked of it is that it does not hold the newline, which no string literal may contain.
\<close>

section \<open>The text in front of the lexer\<close>

definition front :: "Lexer \<Rightarrow> string" where
  "front L = drop (lx_pos L) (lx_input L)"

lemma front_Cons:
  assumes "front L = c # s"
  shows "\<not> at_end L" "Peek 0 L = c" "front (Advance L) = s" "lx_input (Advance L) = lx_input L" "lx_pos (Advance L) = Suc (lx_pos L)"
    "lx_input L ! lx_pos L = c"
proof -
  have l: "lx_pos L < length (lx_input L)" using assms by (metis front_def drop_all not_less list.distinct(1))
  then show "\<not> at_end L" by (simp add: at_end_def)
  have d: "drop (lx_pos L) (lx_input L) = lx_input L ! lx_pos L # drop (Suc (lx_pos L)) (lx_input L)" using l by (rule Cons_nth_drop_Suc [symmetric])
  then show "Peek 0 L = c" "lx_input L ! lx_pos L = c" using assms l by (simp_all add: front_def Peek_def)
  show "front (Advance L) = s" "lx_input (Advance L) = lx_input L" "lx_pos (Advance L) = Suc (lx_pos L)"
    using assms d l by (simp_all add: front_def Advance_def at_end_def)
qed

lemma front_nth: "k < length (front L) \<Longrightarrow> Peek k L = front L ! k \<and> lx_input L ! (lx_pos L + k) = front L ! k \<and> lx_pos L + k < length (lx_input L)"
  by (auto simp: front_def Peek_def)

lemma front_length: "length (lx_input L) = lx_pos L + length (front L)" if "front L \<noteq> []"
  using that by (simp add: front_def)

section \<open>Storage or a view\<close>

lemma LexString_storage:
  "vs \<le> lx_pos L \<Longrightarrow> LexString_loop p vs needs sb L =
     LexString_loop p vs True (if needs then sb else substr (lx_input L) vs (lx_pos L - vs)) L"
proof (induction p vs needs sb L rule: LexString_loop.induct)
  case (1 p vs needs sb L)
  show ?case
  proof (cases needs)
    case False
    let ?acc = "substr (lx_input L) vs (lx_pos L - vs)"
    show ?thesis
    proof (cases "at_end L \<or> Peek 0 L = CHR 0x22 \<or> Peek 0 L = CHR 0x5C \<or> Peek 0 L = CHR 0x0A")
      case True
      then show ?thesis using False
        by (subst (1 2) LexString_loop.simps) (auto simp: Let_def string_token_def)
    next
      case plain: False
      have a: "lx_input (Advance L) = lx_input L" "lx_pos (Advance L) = Suc (lx_pos L)" using plain by (auto simp: Advance_def)
      have n: "lx_pos L < length (lx_input L)" using plain by (simp add: at_end_def)
      have "Suc (lx_pos L) - vs = Suc (lx_pos L - vs)" using 1(4) by simp
      then have acc: "substr (lx_input L) vs (Suc (lx_pos L) - vs) = ?acc @ [Peek 0 L]"
        using n 1(4) by (simp add: substr_def take_Suc_conv_app_nth Peek_def)
      have "LexString_loop p vs False sb (Advance L) = LexString_loop p vs True (?acc @ [Peek 0 L]) (Advance L)"
        using 1(3) plain False 1(4) a acc by simp
      then show ?thesis using plain False by (subst (1 2) LexString_loop.simps) auto
    qed
  qed simp
qed


section \<open>Reading one piece\<close>

text \<open>The loop reads \<open>e\<close> as the text \<open>t\<close>.\<close>

definition reads :: "string \<Rightarrow> string \<Rightarrow> bool" where
  "reads e t \<longleftrightarrow>
     (\<forall>L p vs sb r. front L = e @ r \<longrightarrow> (\<exists>L'. LexString_loop p vs True sb L = LexString_loop p vs True (sb @ t) L' \<and> front L' = r))"

lemma reads_Nil [simp]: "reads [] []"
  by (auto simp: reads_def)

lemma reads_append: "reads e t \<Longrightarrow> reads e' t' \<Longrightarrow> reads (e @ e') (t @ t')"
  unfolding reads_def by (metis append.assoc)

lemma reads_plain:
  assumes "c \<noteq> CHR 0x22" "c \<noteq> CHR 0x5C" "c \<noteq> CHR 0x0A"
  shows "reads [c] [c]"
  unfolding reads_def
proof (intro allI impI)
  fix L p vs sb r
  assume f: "front L = [c] @ r"
  then have "front L = c # r" by simp
  note fr = front_Cons [OF this]
  have "LexString_loop p vs True sb L = LexString_loop p vs True (sb @ [c]) (Advance L)"
    using fr(1,2) assms by (subst LexString_loop.simps) simp
  with fr(3) show "\<exists>L'. LexString_loop p vs True sb L = LexString_loop p vs True (sb @ [c]) L' \<and> front L' = r" by blast
qed

lemma reads_plains: "\<forall>c\<in>set s. c \<noteq> CHR 0x22 \<and> c \<noteq> CHR 0x5C \<and> c \<noteq> CHR 0x0A \<Longrightarrow> reads s s"
proof (induction s)
  case (Cons c s)
  then show ?case using reads_append [OF reads_plain [of c], of s s] by simp
qed simp

text \<open>An escape, from what \<open>LexString_escape\<close> makes of the text after the backslash.\<close>

lemma reads_escape:
  assumes "e \<noteq> []" "\<And>L r. front L = e @ r \<Longrightarrow> \<exists>L'. LexString_escape L = (Inr t, L') \<and> front L' = r"
  shows "reads (CHR 0x5C # e) t"
  unfolding reads_def
proof (intro allI impI)
  fix L p vs sb r
  assume "front L = (CHR 0x5C # e) @ r"
  then have "front L = CHR 0x5C # (e @ r)" by simp
  note fr = front_Cons [OF this]
  obtain L' where L': "LexString_escape (Advance L) = (Inr t, L')" "front L' = r" using assms(2) [OF fr(3)] by blast
  have "\<not> at_end (Advance L)" using front_Cons(1) [of "Advance L" "hd e" "tl e @ r"] fr(3) assms(1) by simp
  then have "LexString_loop p vs True sb L = LexString_loop p vs True (sb @ t) L'"
    using fr(1,2) L'(1) by (subst LexString_loop.simps) simp
  with L'(2) show "\<exists>L'. LexString_loop p vs True sb L = LexString_loop p vs True (sb @ t) L' \<and> front L' = r" by blast
qed

lemma reads_letter:
  assumes "(c, t) \<in> set [(CHR 0x22, CHR 0x22), (CHR 0x5C, CHR 0x5C), (CHR ''a'', CHR 0x07), (CHR ''b'', CHR 0x08), (CHR ''f'', CHR 0x0C),
     (CHR ''n'', CHR 0x0A), (CHR ''r'', CHR 0x0D), (CHR ''t'', CHR 0x09), (CHR ''v'', CHR 0x0B)]"
  shows "reads [CHR 0x5C, c] [t]"
proof (rule reads_escape)
  fix L r assume f: "front L = [c] @ r"
  then have "front L = c # r" by simp
  note fr = front_Cons [OF this]
  show "\<exists>L'. LexString_escape L = (Inr [t], L') \<and> front L' = r"
    using assms fr(2,3) by (auto simp: LexString_escape_def)
qed simp

section \<open>Hexadecimal escapes\<close>

lemma HexVal_kHex: "d < 16 \<Longrightarrow> HexVal (kHex ! d) = Some d"
proof -
  assume "d < 16"
  moreover have "\<forall>d\<in>set [0..<16]. HexVal (kHex ! d) = Some d" by code_simp
  ultimately show ?thesis by simp
qed

lemma ReadHexRune_loop_AppendHex:
  "front L = AppendHex v n @ r \<Longrightarrow> \<exists>L'. ReadHexRune_loop n acc L = (Some (acc * 16 ^ n + v mod 16 ^ n), L') \<and> front L' = r"
proof (induction n arbitrary: acc L)
  case 0
  then show ?case by (simp add: AppendHex_def)
next
  case (Suc n)
  let ?d = "drop_bit (4 * n) v AND 0xF"
  have d: "?d = v div 16 ^ n mod 16" by (simp add: and_mask_nat drop_bit_eq_div power_mult)
  have "front L = kHex ! ?d # (AppendHex v n @ r)" using Suc.prems by (simp add: AppendHex_def)
  note fr = front_Cons [OF this]
  have h: "HexVal (Peek 0 L) = Some ?d" using fr(2) d by (simp add: HexVal_kHex)
  obtain L' where L': "ReadHexRune_loop n (16 * acc + ?d) (Advance L) = (Some ((16 * acc + ?d) * 16 ^ n + v mod 16 ^ n), L')" "front L' = r"
    using Suc.IH [OF fr(3)] by blast
  have "v mod 16 ^ Suc n = v div 16 ^ n mod 16 * 16 ^ n + v mod 16 ^ n"
    by (metis add.commute mod_mult2_eq mult.commute power_Suc2)
  then have "(16 * acc + ?d) * 16 ^ n + v mod 16 ^ n = acc * 16 ^ Suc n + v mod 16 ^ Suc n"
    unfolding d by (simp add: algebra_simps)
  with h L' show ?case by simp
qed

lemma length_AppendHex [simp]: "length (AppendHex v n) = n"
  by (simp add: AppendHex_def)

lemma reads_rune:
  assumes "IsValidRune r" "n = 4 \<and> r < 65536 \<and> c = CHR ''u'' \<or> n = 8 \<and> c = CHR ''U''"
  shows "reads ([CHR 0x5C, c] @ AppendHex r n) (EncodeRune r)"
proof -
  have "reads (CHR 0x5C # (c # AppendHex r n)) (EncodeRune r)"
  proof (rule reads_escape)
    fix L t assume "front L = (c # AppendHex r n) @ t"
    then have "front L = c # (AppendHex r n @ t)" by simp
    note fr = front_Cons [OF this]
    obtain L' where L': "ReadHexRune_loop n 0 (Advance L) = (Some (0 * 16 ^ n + r mod 16 ^ n), L')" "front L' = t"
      using ReadHexRune_loop_AppendHex [OF fr(3)] by blast
    have "r mod 16 ^ n = r" using assms by (auto simp: IsValidRune_def)
    moreover have "lx_pos (Advance L) + n \<le> length (lx_input (Advance L))"
    proof -
      have "n \<le> length (front (Advance L))" "front (Advance L) \<noteq> []" using fr(3) assms(2) by (auto simp: AppendHex_def)
      with front_length [of "Advance L"] show ?thesis by simp
    qed
    ultimately have "ReadHexRune n (Advance L) = (Some r, L')" using L'(1) by (simp add: ReadHexRune_def)
    then have "rune_escape n c (Advance L) = (Inr (EncodeRune r), L')" using assms(1) by (simp add: rune_escape_def Let_def)
    then have "LexString_escape L = (Inr (EncodeRune r), L')" using fr(2) assms(2) by (auto simp: LexString_escape_def Let_def)
    with L'(2) show "\<exists>L'. LexString_escape L = (Inr (EncodeRune r), L') \<and> front L' = t" by blast
  qed simp
  then show ?thesis by simp
qed

lemma reads_byte:
  assumes "b < 256"
  shows "reads ([CHR 0x5C, CHR ''x''] @ AppendHex b 2) [char_of b]"
proof -
  have "reads (CHR 0x5C # (CHR ''x'' # AppendHex b 2)) [char_of b]"
  proof (rule reads_escape)
    fix L t assume "front L = (CHR ''x'' # AppendHex b 2) @ t"
    then have "front L = CHR ''x'' # (AppendHex b 2 @ t)" by simp
    note fr = front_Cons [OF this]
    have hex: "AppendHex b 2 = [kHex ! (b div 16), kHex ! (b mod 16)]"
      using assms by (simp add: AppendHex_def upt_rec and_mask_nat drop_bit_eq_div)
    have f1: "front (Advance L) = kHex ! (b div 16) # (kHex ! (b mod 16) # t)" using fr(3) hex by simp
    note f2 = front_Cons [OF f1] and f3 = front_Cons [OF front_Cons(3) [OF f1]]
    have "ReadHexByte (Advance L) = Some (char_of b, Advance (Advance (Advance L)))"
    proof -
      have "length (front (Advance L)) = 2 + length t" using f1 by simp
      then have "\<not> length (lx_input (Advance L)) \<le> lx_pos (Advance L) + 1" using front_length [of "Advance L"] f1 by simp
      moreover have "HexVal (lx_input (Advance L) ! lx_pos (Advance L)) = Some (b div 16)" using f2(6) assms by (simp add: HexVal_kHex)
      moreover have "HexVal (lx_input (Advance L) ! (lx_pos (Advance L) + 1)) = Some (b mod 16)" using f3(6) f2(4,5) by (simp add: HexVal_kHex)
      ultimately show ?thesis by (simp add: ReadHexByte_def)
    qed
    then have "LexString_escape L = (Inr [char_of b], Advance (Advance (Advance L)))" using fr(2) by (simp add: LexString_escape_def)
    with f3(3) show "\<exists>L'. LexString_escape L = (Inr [char_of b], L') \<and> front L' = t" by blast
  qed simp
  then show ?thesis by simp
qed

section \<open>Reading what was quoted\<close>

text \<open>The bytes of a rune are plain unless the rune is the quote, the backslash or the newline.\<close>

lemma EncodeRune_plain:
  assumes "IsValidRune r" "r \<noteq> 0x22" "r \<noteq> 0x5C" "r \<noteq> 0x0A" "c \<in> set (EncodeRune r)"
  shows "c \<noteq> CHR 0x22 \<and> c \<noteq> CHR 0x5C \<and> c \<noteq> CHR 0x0A"
proof -
  have "ord c \<in> set (map ord (EncodeRune r))" using assms(5) by simp
  then have "ord c = r \<or> 128 \<le> ord c" unfolding EncodeRune_codes [OF assms(1)] by (auto split: if_splits)
  with assms(2-4) show ?thesis by auto
qed

lemma EncodeRune_ascii: "r < 128 \<Longrightarrow> EncodeRune r = [char_of r]"
  by (simp add: EncodeRune_def)

lemma reads_AppendEscaped:
  assumes v: "IsValidRune r" and nl: "\<not> GoIsPrint printable 10"
  shows "reads (AppendEscaped printable r (EncodeRune r) (CHR 0x22)) (EncodeRune r)"
proof -
  have letter: "reads [CHR 0x5C, c] (EncodeRune u)"
    if "u < 128" "(c, char_of u) \<in> set [(CHR 0x22, CHR 0x22), (CHR 0x5C, CHR 0x5C), (CHR ''a'', CHR 0x07), (CHR ''b'', CHR 0x08), (CHR ''f'', CHR 0x0C),
     (CHR ''n'', CHR 0x0A), (CHR ''r'', CHR 0x0D), (CHR ''t'', CHR 0x09), (CHR ''v'', CHR 0x0B)]" for c u
    using reads_letter [OF that(2)] that(1) by (simp only: EncodeRune_ascii)
  have ch: "char_of (7::nat) = CHR 0x07" "char_of (8::nat) = CHR 0x08" "char_of (9::nat) = CHR 0x09" "char_of (10::nat) = CHR 0x0A"
    "char_of (11::nat) = CHR 0x0B" "char_of (12::nat) = CHR 0x0C" "char_of (13::nat) = CHR 0x0D" "char_of (34::nat) = CHR 0x22" "char_of (92::nat) = CHR 0x5C"
    by code_simp+
  consider (quote) "r = 34 \<or> r = 92" | (print) "r \<noteq> 34" "r \<noteq> 92" "GoIsPrint printable r"
    | (esc) "\<not> GoIsPrint printable r" "r \<in> {7, 8, 9, 10, 11, 12, 13}"
    | (byte) "\<not> GoIsPrint printable r" "r \<notin> {7, 8, 9, 10, 11, 12, 13, 34, 92}" "r < 0x20 \<or> r = 0x7F"
    | (short) "\<not> GoIsPrint printable r" "r \<notin> {7, 8, 9, 10, 11, 12, 13, 34, 92}" "\<not> (r < 0x20 \<or> r = 0x7F)" "r < 0x10000"
    | (long) "\<not> GoIsPrint printable r" "r \<notin> {7, 8, 9, 10, 11, 12, 13, 34, 92}" "\<not> (r < 0x20 \<or> r = 0x7F)" "\<not> r < 0x10000" by blast
  then show ?thesis
  proof cases
    case quote
    then show ?thesis by (auto simp: AppendEscaped_def ch intro!: letter)
  next
    case print
    with nl have "\<forall>c\<in>set (EncodeRune r). c \<noteq> CHR 0x22 \<and> c \<noteq> CHR 0x5C \<and> c \<noteq> CHR 0x0A" using EncodeRune_plain [OF v] by fastforce
    with print show ?thesis by (simp add: AppendEscaped_def reads_plains)
  next
    case esc
    then show ?thesis by (auto simp: AppendEscaped_def ch intro!: letter)
  next
    case byte
    then have "reads ([CHR 0x5C, CHR ''x''] @ AppendHex r 2) (EncodeRune r)" using reads_byte [of r] by (auto simp: EncodeRune_ascii)
    with byte show ?thesis by (simp add: AppendEscaped_def)
  next
    case short
    with reads_rune [OF v, of 4 "CHR ''u''"] show ?thesis by (simp add: AppendEscaped_def)
  next
    case long
    with reads_rune [OF v, of 8 "CHR ''U''"] show ?thesis by (simp add: AppendEscaped_def)
  qed
qed

lemma reads_GoQuote_loop: "\<not> GoIsPrint printable 10 \<Longrightarrow> reads (GoQuote_loop printable s) s"
proof (induction printable s rule: GoQuote_loop.induct)
  case (1 p s)
  show ?case
  proof (cases "s = []")
    case True
    then show ?thesis by (simp add: GoQuote_loop.simps)
  next
    case False
    show ?thesis
    proof (cases "rune_at s")
      case None
      have "reads (([CHR 0x5C, CHR ''x''] @ AppendHex (ord (s ! 0)) 2) @ GoQuote_loop p (drop 1 s)) ([s ! 0] @ drop 1 s)"
        using reads_append [OF reads_byte [of "ord (s ! 0)"] 1(1) [OF False None 1(3)]] by simp
      moreover have "[s ! 0] @ drop 1 s = s" using False by (cases s) simp_all
      ultimately show ?thesis using False None by (subst GoQuote_loop.simps) simp
    next
      case (Some rw)
      obtain r w where rw: "rw = (r, w)" by fastforce
      with Some have s: "rune_at s = Some (r, w)" by simp
      have snd: "IsValidRune r" "take w s = EncodeRune r" using rune_at_sound [OF s False] by simp_all
      have "reads (AppendEscaped p r (EncodeRune r) (CHR 0x22) @ GoQuote_loop p (drop w s)) (EncodeRune r @ drop w s)"
        by (rule reads_append [OF reads_AppendEscaped [OF snd(1) 1(3)] 1(2) [OF False Some rw [symmetric] 1(3)]])
      moreover have "EncodeRune r @ drop w s = s" using snd(2) by (metis append_take_drop_id)
      ultimately show ?thesis using False s snd(2) by (subst GoQuote_loop.simps) simp
    qed
  qed
qed

lemma GoQuote_loop_hd:
  assumes "s \<noteq> []"
  shows "\<exists>c t. GoQuote_loop printable s = c # t \<and> c \<noteq> CHR 0x22"
proof (cases "rune_at s")
  case None
  with assms show ?thesis by (subst GoQuote_loop.simps) simp
next
  case (Some rw)
  obtain r w where rw: "rune_at s = Some (r, w)" using Some by (cases rw) simp
  have snd: "IsValidRune r" "take w s = EncodeRune r" using rune_at_sound [OF rw assms] by simp_all
  obtain a t where e: "EncodeRune r = a # t" using EncodeRune_nonempty [of r] by (cases "EncodeRune r") auto
  have "ord a = r \<or> 128 \<le> ord a" using EncodeRune_codes [OF snd(1)] e by (auto split: if_splits)
  then have "a \<noteq> CHR 0x22" if "r \<noteq> 34" using that by auto
  then have "\<exists>c t. AppendEscaped printable r (take w s) (CHR 0x22) = c # t \<and> c \<noteq> CHR 0x22"
    using snd(2) e unfolding AppendEscaped_def by auto
  then show ?thesis using assms rw by (subst GoQuote_loop.simps) auto
qed

lemma Next_quoted:
  assumes f: "front L = GoQuote printable s @ rest" and nl: "\<not> GoIsPrint printable 10"
    and triple: "s = [] \<Longrightarrow> rest = [] \<or> hd rest \<noteq> CHR 0x22"
  shows "fst (Next ranges L) = mk_token kString s (CurrentPos L) \<and> front (snd (Next ranges L)) = rest"
proof -
  define body where "body = GoQuote_loop printable s @ [CHR 0x22] @ rest"
  have f0: "front L = CHR 0x22 # body" using f by (simp add: GoQuote_def body_def)
  note fr = front_Cons [OF f0]
  have skip: "SkipSpaces L = L" using fr(2) by (simp add: SkipSpaces_def skip_while.simps)
  have nt: "\<not> (Peek 1 L = CHR 0x22 \<and> Peek 2 L = CHR 0x22)"
  proof (cases "s = []")
    case True
    then have b: "front L = [CHR 0x22, CHR 0x22] @ rest" using f0 by (simp add: body_def GoQuote_loop.simps)
    show ?thesis
    proof (cases rest)
      case Nil
      then have "length (lx_input L) = lx_pos L + 2" using front_length [of L] b by simp
      then show ?thesis by (simp add: Peek_def)
    next
      case (Cons c t)
      with triple True have "c \<noteq> CHR 0x22" by simp
      with front_nth [of 2 L] b Cons show ?thesis by simp
    qed
  next
    case False
    then obtain c t where "body = c # t" "c \<noteq> CHR 0x22" using GoQuote_loop_hd [of s printable] by (auto simp: body_def)
    with front_nth [of 1 L] f0 show ?thesis by simp
  qed
  let ?A = "Advance L" and ?p = "CurrentPos L"
  have "Next ranges L = LexString ?p L" using fr(1,2) skip nt by (auto simp: Next_def Let_def)
  also have "\<dots> = LexString_loop ?p (lx_pos ?A) True [] ?A"
    using LexString_storage [of "lx_pos ?A" ?A ?p False "[]"] by (simp add: LexString_def substr_def)
  finally have n: "Next ranges L = LexString_loop ?p (lx_pos ?A) True [] ?A" .
  have "front ?A = GoQuote_loop printable s @ ([CHR 0x22] @ rest)" using fr(3) by (simp add: body_def)
  then obtain L' where L': "LexString_loop ?p (lx_pos ?A) True [] ?A = LexString_loop ?p (lx_pos ?A) True ([] @ s) L'" "front L' = [CHR 0x22] @ rest"
    using reads_GoQuote_loop [OF nl] unfolding reads_def by metis
  have f1: "front L' = CHR 0x22 # rest" using L'(2) by simp
  note fr' = front_Cons [OF f1]
  have "LexString_loop ?p (lx_pos ?A) True s L' = (mk_token kString s ?p, Advance L')"
    using fr'(1,2) by (subst LexString_loop.simps) (simp add: string_token_def)
  then show ?thesis using n L'(1) fr'(3) by simp
qed

section \<open>Properties\<close>

text \<open>C39. The lexer reads back what \<open>GoQuote\<close> writes: with the quoted text of any byte string in front of it,
  and nothing after an empty one that would make it a triple-quoted string, \<open>Next\<close> gives a string token with exactly
  those bytes, at the position it stood at, and stops right after the closing quote. The table of printable runes must not
  list the newline.\<close>

theorem lex_quoted_string:
  assumes f: "front L = GoQuote printable s @ rest" and nl: "\<not> GoIsPrint printable 10"
    and triple: "s = [] \<Longrightarrow> rest = [] \<or> hd rest \<noteq> CHR 0x22"
  shows "fst (Next ranges L) = mk_token kString s (CurrentPos L) \<and> front (snd (Next ranges L)) = rest"
  using Next_quoted [OF f nl triple] .

theorem lex_quoted_string_witness:
  "fst (Next [] (new_lexer (GoQuote [(32, 126)] [CHR ''h'', CHR 0x0A, CHR 0xFF, CHR 0x22] @ ''}''))) =
     mk_token kString [CHR ''h'', CHR 0x0A, CHR 0xFF, CHR 0x22] start_position"
proof -
  let ?s = "[CHR ''h'', CHR 0x0A, CHR 0xFF, CHR 0x22]" let ?L = "new_lexer (GoQuote [(32, 126)] ?s @ ''}'')"
  have "front ?L = GoQuote [(32, 126)] ?s @ ''}''" by (simp add: front_def new_lexer_def new_lexer_at_def)
  moreover have "\<not> GoIsPrint [(32, 126)] 10" by (simp add: GoIsPrint_def)
  moreover have "CurrentPos ?L = start_position" by (simp add: CurrentPos_def new_lexer_def new_lexer_at_def start_position_def)
  ultimately show ?thesis using lex_quoted_string [of ?L "[(32, 126)]" ?s "''}''" "[]"] by simp
qed

end
