(* ===== verification/PxfAst.thy ===== *)
theory PxfAst
  imports PxfLexerPos
begin

text \<open>
  The syntax tree of a PXF document: \<open>include/protowire/pxf/ast.h\<close> and \<open>src/pxf/ast.cc\<close>. A value or an entry is a
  variant of the source's node types, each with the span it was read from; the fields keep the order of the source.
  With it come the checks on the tree's own data that the parser calls: the column paths of a dataset
  (\<open>src/pxf/dataset_paths.cc\<close>) and the reserved directive names (\<open>src/pxf/schema.cc\<close>).
\<close>

section \<open>Values and entries\<close>

record Comment =
  cm_pos :: Position
  cm_text :: string

datatype Value =
    StringVal (ValuePos: Position) (value_end: Position) string
  | IntVal (ValuePos: Position) (value_end: Position) string string
  | FloatVal (ValuePos: Position) (value_end: Position) string string
  | BoolVal (ValuePos: Position) (value_end: Position) bool
  | BytesVal (ValuePos: Position) (value_end: Position) "byte list"
  | NullVal (ValuePos: Position) (value_end: Position)
  | IdentVal (ValuePos: Position) (value_end: Position) string
  | TimestampVal (ValuePos: Position) (value_end: Position) int int string
  | DurationVal (ValuePos: Position) (value_end: Position) int int string
  | ListVal (ValuePos: Position) (value_end: Position) "Value list"
  | BlockVal (ValuePos: Position) (value_end: Position) "Entry list" "Comment list"
  | BadVal (ValuePos: Position) (value_end: Position)
and Entry =
    Assignment (EntryPos: Position) (entry_end: Position) string bool Value "Comment list" string
  | MapEntry (EntryPos: Position) (entry_end: Position) string bool Value "Comment list" string
  | Block (EntryPos: Position) (entry_end: Position) string bool "Entry list" "Comment list" "Comment list"
  | TypeEntry (EntryPos: Position) (entry_end: Position) string "Comment list" string

definition EntrySpan :: "Entry \<Rightarrow> Position \<times> Position" where
  "EntrySpan e = (EntryPos e, entry_end e)"

definition ValueSpan :: "Value \<Rightarrow> Position \<times> Position" where
  "ValueSpan v = (ValuePos v, value_end v)"

section \<open>Directives and documents\<close>

record Directive =
  dir_pos :: Position
  dir_name :: string
  dir_prefixes :: "string list"
  dir_type :: string
  dir_body :: string
  dir_has_body :: bool
  dir_leading :: "Comment list"

record DatasetRow =
  row_pos :: Position
  row_cells :: "Value option list"
  row_leading :: "Comment list"

record DatasetDirective =
  ds_pos :: Position
  ds_type :: string
  ds_columns :: "string list"
  ds_rows :: "DatasetRow list"
  ds_leading :: "Comment list"

datatype ProtoShape = kAnonymous | kNamed | kSource | kDescriptor

definition ProtoShapeName :: "ProtoShape \<Rightarrow> string" where
  "ProtoShapeName s =
     (case s of kAnonymous \<Rightarrow> ''anonymous'' | kNamed \<Rightarrow> ''named'' | kSource \<Rightarrow> ''source'' | kDescriptor \<Rightarrow> ''descriptor'')"

record ProtoDirective =
  pd_pos :: Position
  pd_shape :: ProtoShape
  pd_type_name :: string
  pd_body :: string
  pd_leading :: "Comment list"

record Document =
  doc_type_url :: string
  doc_directives :: "Directive list"
  doc_datasets :: "DatasetDirective list"
  doc_protos :: "ProtoDirective list"
  doc_body_offset :: nat
  doc_entries :: "Entry list"
  doc_leading :: "Comment list"
  doc_trailing :: "Comment list"

definition empty_document :: Document where
  "empty_document =
     \<lparr>doc_type_url = [], doc_directives = [], doc_datasets = [], doc_protos = [], doc_body_offset = 0, doc_entries = [],
      doc_leading = [], doc_trailing = []\<rparr>"

section \<open>Column paths and reserved names\<close>

text \<open>The section sign of the messages, in UTF-8.\<close>

definition section_sign :: string where
  "section_sign = [CHR 0xC2, CHR 0xA7]"

fun has_dots :: "string \<Rightarrow> bool" where
  "has_dots (a # b # s) = (a = CHR ''.'' \<and> b = CHR ''.'' \<or> has_dots (b # s))"
| "has_dots _ = False"

definition HasEmptySegment :: "string \<Rightarrow> bool" where
  "HasEmptySegment c \<longleftrightarrow> c \<noteq> [] \<and> (hd c = CHR ''.'' \<or> last c = CHR ''.'' \<or> has_dots c)"

definition IsPathPrefix :: "string \<Rightarrow> string \<Rightarrow> bool" where
  "IsPathPrefix pre path \<longleftrightarrow>
     length pre < length path \<and> path ! length pre = CHR ''.'' \<and> take (length pre) path = pre"

text \<open>The inner loop: column \<open>c\<close> against those before it, and the message of the first clash.\<close>

fun column_clash :: "ranges \<Rightarrow> string \<Rightarrow> string list \<Rightarrow> string option" where
  "column_clash ranges c [] = None"
| "column_clash ranges c (prev # ps) =
     (if prev = c then Some (''@dataset column '' @ GoQuote ranges c @ '' appears twice (draft '' @ section_sign @ ''3.4.4)'')
      else if IsPathPrefix prev c \<or> IsPathPrefix c prev then
        Some (''@dataset column '' @ GoQuote ranges c @ '' overlaps column '' @ GoQuote ranges prev @
          '': a field and a path inside it cannot both be columns (draft '' @ section_sign @ ''3.4.4)'')
      else column_clash ranges c ps)"

fun ColumnPathError_loop :: "ranges \<Rightarrow> string list \<Rightarrow> string list \<Rightarrow> (nat \<times> string) option" where
  "ColumnPathError_loop ranges seen [] = None"
| "ColumnPathError_loop ranges seen (c # cs) =
     (if HasEmptySegment c then
        Some (length seen, ''@dataset column '' @ GoQuote ranges c @ '': a column path has an empty segment (draft '' @ section_sign @ ''3.4.4)'')
      else case column_clash ranges c seen of
          Some msg \<Rightarrow> Some (length seen, msg)
        | None \<Rightarrow> ColumnPathError_loop ranges (seen @ [c]) cs)"

definition ColumnPathError :: "ranges \<Rightarrow> string list \<Rightarrow> (nat \<times> string) option" where
  "ColumnPathError ranges columns = ColumnPathError_loop ranges [] columns"

definition IsFutureReservedDirective :: "string \<Rightarrow> bool" where
  "IsFutureReservedDirective name \<longleftrightarrow>
     name \<in> set [''table'', ''datasource'', ''view'', ''procedure'', ''function'', ''permissions'']"

lemma column_clash_index: "ColumnPathError_loop ranges seen cs = Some (k, msg) \<Longrightarrow> length seen \<le> k \<and> k < length seen + length cs"
  by (induction ranges seen cs rule: ColumnPathError_loop.induct) (fastforce split: if_splits option.splits)+

end
