(* ===== verification/PxfBrace.thy ===== *)
theory PxfBrace
  imports PxfLexerPos
begin

text \<open>
  The brace matcher of \<open>src/pxf/parser.cc\<close> and \<open>src/pxf/parser_internal.h\<close>: \<open>BraceMatch::Scan\<close>, which finds the end of a body
  of raw text and can be resumed, and \<open>FindMatchingBrace\<close>. \<open>Scan\<close> is a loop over the bytes that keeps its state in the
  \<open>BraceMatch\<close> record; offsets index the input.
\<close>

section \<open>Scanning\<close>

datatype MatchMode = mCode | mString | mTripleString | mBytes | mLineComment | mBlockComment

datatype MatchState = sOpen | sClosed | sFailed

record BraceMatch =
  bm_depth :: int
  bm_mode :: MatchMode
  bm_esc :: bool
  bm_run :: nat

definition new_match :: BraceMatch where
  "new_match = \<lparr>bm_depth = 1, bm_mode = mCode, bm_esc = False, bm_run = 0\<rparr>"

text \<open>
  One byte inside a literal or a comment: the mode it leaves, or failure where a newline meets a literal that cannot hold
  one.
\<close>

definition scan_literal :: "char \<Rightarrow> BraceMatch \<Rightarrow> BraceMatch option" where
  "scan_literal ch m =
     (case bm_mode m of
        mString \<Rightarrow>
          if bm_esc m then Some (m\<lparr>bm_esc := False\<rparr>)
          else if ch = CHR 0x5C then Some (m\<lparr>bm_esc := True\<rparr>)
          else if ch = CHR 0x22 then Some (m\<lparr>bm_mode := mCode\<rparr>)
          else if ch = CHR 0x0A then None
          else Some m
      | mTripleString \<Rightarrow>
          if ch \<noteq> CHR 0x22 then Some (m\<lparr>bm_run := 0\<rparr>)
          else if bm_run m + 1 = 3 then Some (m\<lparr>bm_mode := mCode, bm_run := 0\<rparr>)
          else Some (m\<lparr>bm_run := bm_run m + 1\<rparr>)
      | mBytes \<Rightarrow>
          if ch = CHR 0x22 then Some (m\<lparr>bm_mode := mCode\<rparr>)
          else if ch = CHR 0x0A then None
          else Some m
      | mLineComment \<Rightarrow> if ch = CHR 0x0A then Some (m\<lparr>bm_mode := mCode\<rparr>) else Some m
      | mBlockComment \<Rightarrow>
          if ch = CHR ''/'' \<and> bm_run m = 1 then Some (m\<lparr>bm_mode := mCode, bm_run := 0\<rparr>)
          else Some (m\<lparr>bm_run := if ch = CHR ''*'' then 1 else 0\<rparr>)
      | mCode \<Rightarrow> Some m)"

text \<open>
  One step of the loop at offset \<open>i\<close>, which is in range: it goes on from a later offset, or ends the scan there with a
  state.
\<close>

definition scan_step :: "string \<Rightarrow> nat \<Rightarrow> BraceMatch \<Rightarrow> (nat \<times> BraceMatch) + (MatchState \<times> BraceMatch)" where
  "scan_step input i m =
     (let ch = input ! i; n = length input
      in if bm_mode m \<noteq> mCode then
           (case scan_literal ch m of None \<Rightarrow> Inr (sFailed, m) | Some m' \<Rightarrow> Inl (i + 1, m'))
         else if ch = CHR ''{'' then Inl (i + 1, m\<lparr>bm_depth := bm_depth m + 1\<rparr>)
         else if ch = CHR ''}'' then
           (let m' = m\<lparr>bm_depth := bm_depth m - 1\<rparr> in if bm_depth m' = 0 then Inr (sClosed, m') else Inl (i + 1, m'))
         else if ch = CHR 0x22 then
           if n \<le> i + 2 then Inr (sOpen, m)
           else if input ! (i + 1) = CHR 0x22 \<and> input ! (i + 2) = CHR 0x22 then Inl (i + 3, m\<lparr>bm_mode := mTripleString\<rparr>)
           else Inl (i + 1, m\<lparr>bm_mode := mString\<rparr>)
         else if ch = CHR ''#'' then Inl (i + 1, m\<lparr>bm_mode := mLineComment\<rparr>)
         else if ch = CHR ''b'' \<or> ch = CHR ''/'' then
           if n \<le> i + 1 then Inr (sOpen, m)
           else
             let nxt = input ! (i + 1)
             in if ch = CHR ''b'' \<and> nxt = CHR 0x22 then Inl (i + 2, m\<lparr>bm_mode := mBytes\<rparr>)
                else if ch = CHR ''/'' \<and> nxt = CHR ''/'' then Inl (i + 2, m\<lparr>bm_mode := mLineComment\<rparr>)
                else if ch = CHR ''/'' \<and> nxt = CHR ''*'' then Inl (i + 2, m\<lparr>bm_mode := mBlockComment\<rparr>)
                else Inl (i + 1, m)
         else Inl (i + 1, m))"

lemma scan_step_later: "scan_step input i m = Inl (j, m') \<Longrightarrow> i < j"
  by (auto simp: scan_step_def Let_def split: if_splits option.splits)

function Scan :: "string \<Rightarrow> nat \<Rightarrow> BraceMatch \<Rightarrow> nat \<times> MatchState \<times> BraceMatch" where
  "Scan input i m =
     (if length input \<le> i then (i, sOpen, m)
      else case scan_step input i m of
          Inr (st, m') \<Rightarrow> (i, st, m')
        | Inl (j, m') \<Rightarrow> Scan input j m')"
  by pat_completeness auto
termination
proof (relation "measure (\<lambda>(input, i, m). length input - i)", goal_cases)
  case (2 input i m x j m')
  then show ?case using scan_step_later [of input i m j m'] by auto
qed simp

declare Scan.simps [simp del]

definition FindMatchingBrace :: "string \<Rightarrow> nat \<Rightarrow> nat option \<times> bool" where
  "FindMatchingBrace input open_offset =
     (case Scan input (open_offset + 1) new_match of
        (i, sClosed, m) \<Rightarrow> (Some i, False)
      | (i, sFailed, m) \<Rightarrow> (None, True)
      | (i, sOpen, m) \<Rightarrow> (None, False))"

section \<open>A scan may stop and go on\<close>

text \<open>More input after the end changes no step that did not ask for it.\<close>

lemma scan_step_append:
  assumes "i < length input" "scan_step input i m \<noteq> Inr (sOpen, m)"
  shows "scan_step (input @ rest) i m = scan_step input i m"
  using assms by (auto simp: scan_step_def Let_def nth_append split: if_splits option.splits)

lemma scan_step_open: "scan_step input i m = Inr (sOpen, m') \<Longrightarrow> m' = m"
  by (auto simp: scan_step_def Let_def split: if_splits option.splits)



section \<open>Properties\<close>

text \<open>C40. A scan may stop where the input ends and go on when more has arrived: with its state kept, scanning on over the
  longer input from where it stopped gives what one scan of the whole gives, closing brace, failure or end; and what a scan
  decided, more input does not change.\<close>

theorem brace_match_resumes:
  "Scan (input @ rest) i m =
     (case Scan input i m of
        (j, sOpen, m') \<Rightarrow> Scan (input @ rest) j m'
      | stopped \<Rightarrow> stopped)"
proof (induction input i m rule: Scan.induct)
  case (1 input i m)
  show ?case
  proof (cases "length input \<le> i")
    case True
    then show ?thesis by (simp add: Scan.simps [of input])
  next
    case False
    show ?thesis
    proof (cases "scan_step input i m")
      case (Inl jm)
      obtain j m' where jm: "jm = (j, m')" by fastforce
      then have "scan_step (input @ rest) i m = Inl (j, m')" using False Inl by (subst scan_step_append) auto
      with False have "Scan (input @ rest) i m = Scan (input @ rest) j m'" by (simp add: Scan.simps [of "input @ rest" i m])
      moreover have "Scan input i m = Scan input j m'" using False Inl jm by (simp add: Scan.simps [of input i m])
      ultimately show ?thesis using 1 [OF False Inl jm [symmetric]] by simp
    next
      case (Inr sm)
      obtain st m' where sm: "sm = (st, m')" by fastforce
      have s: "Scan input i m = (i, st, m')" using False Inr sm by (simp add: Scan.simps [of input i m])
      show ?thesis
      proof (cases "st = sOpen")
        case True
        with Inr sm have "m' = m" using scan_step_open by simp
        with s True show ?thesis by simp
      next
        case stop: False
        then have "scan_step (input @ rest) i m = Inr (st, m')" using False Inr sm by (subst scan_step_append) auto
        with False have "Scan (input @ rest) i m = (i, st, m')" by (simp add: Scan.simps [of "input @ rest" i m])
        with s stop show ?thesis by (cases st) simp_all
      qed
    qed
  qed
qed

end
