(* ===== verification/PxfParser.thy ===== *)
theory PxfParser
  imports PxfAst PxfBrace
begin

text \<open>
  The PXF parser: \<open>src/pxf/parser.cc\<close>, with its strict and its tolerant mode. Its state is a record every operation returns
  updated. The errors of a tolerant parse are those the lexer holds: the source gives both the same vector. A failed
  operation returns the position and message of its \<open>Status\<close>, with the state it leaves, since a tolerant parse goes on
  from there; the position is what the source keeps in \<open>err_pos_\<close> beside the status.

  The loops that only read tokens are total functions. The others call the parser of values, which is recursive, and count
  their rounds down from a bound; a value calls itself through lists and blocks and counts its depth down. Running out of
  either is the result \<open>None\<close>.
\<close>

section \<open>State\<close>

record Parser =
  ps_lex :: Lexer
  ps_current :: Token
  ps_comments :: "Comment list"
  ps_max_depth :: int
  ps_for_decoder :: bool
  ps_tolerant :: bool
  ps_prev_end :: Position

type_synonym 'a parsing = "Parser \<Rightarrow> ((Error + 'a) \<times> Parser) option"

abbreviation kind :: "Parser \<Rightarrow> TokenKind" where
  "kind P \<equiv> tk_kind (ps_current P)"

abbreviation cur_pos :: "Parser \<Rightarrow> Position" where
  "cur_pos P \<equiv> tk_pos (ps_current P)"

abbreviation cur_value :: "Parser \<Rightarrow> string" where
  "cur_value P \<equiv> tk_value (ps_current P)"

text \<open>An operation after another, unless that failed.\<close>

definition pbind :: "'a parsing \<Rightarrow> ('a \<Rightarrow> 'b parsing) \<Rightarrow> 'b parsing" where
  "pbind m f P =
     (case m P of
        None \<Rightarrow> None
      | Some (Inl e, P') \<Rightarrow> Some (Inl e, P')
      | Some (Inr x, P') \<Rightarrow> f x P')"

definition pret :: "'a \<Rightarrow> 'a parsing" where
  "pret x P = Some (Inr x, P)"

definition Err :: "Position \<Rightarrow> string \<Rightarrow> 'a parsing" where
  "Err pos msg P = Some (Inl \<lparr>err_pos = pos, err_msg = msg\<rparr>, P)"

definition record_error :: "Position \<Rightarrow> string \<Rightarrow> Parser \<Rightarrow> Parser" where
  "record_error pos msg P = P\<lparr>ps_lex := Report pos msg (ps_lex P)\<rparr>"

definition Soft :: "Position \<Rightarrow> string \<Rightarrow> unit parsing" where
  "Soft pos msg P = (if \<not> ps_tolerant P then Err pos msg P else pret () (record_error pos msg P))"

definition TokenEnd :: "Parser \<Rightarrow> Position" where
  "TokenEnd P = CurrentPos (ps_lex P)"

definition TokenErrMsg :: "ranges \<Rightarrow> Parser \<Rightarrow> string" where
  "TokenErrMsg ranges P =
     (if kind P = kIllegal then cur_value P else TokenKindName (kind P) @ '' ('' @ GoQuote ranges (cur_value P) @ '')'')"

definition DatasetTokenMsg :: "ranges \<Rightarrow> Parser \<Rightarrow> string" where
  "DatasetTokenMsg ranges P = (if ps_for_decoder P then TokenErrMsg ranges P else TokenKindName (kind P))"

definition ellipsis :: string where
  "ellipsis = [CHR 0xE2, CHR 0x80, CHR 0xA6]"

definition Clip :: "string \<Rightarrow> string" where
  "Clip s = (if length s \<le> 24 then s else take 24 s @ ellipsis)"

definition WrittenKey :: "string \<Rightarrow> string \<Rightarrow> string" where
  "WrittenKey key prec = (if prec = [] then key else key @ ''p'' @ Clip prec)"

definition quoted :: "string \<Rightarrow> string" where
  "quoted s = [CHR 0x27] @ s @ [CHR 0x27]"

section \<open>Reading tokens\<close>

lemma Next_left:
  assumes "Next ranges L = (t, L')"
  shows "lx_left L' \<le> lx_left L \<and> (tk_kind t \<noteq> kEOF \<longrightarrow> lx_left L' < lx_left L)"
proof -
  let ?S = "SkipSpaces L"
  have S: "lx_left ?S \<le> lx_left L" using moves_fixed [OF SkipSpaces_moves [of L]] by (auto simp: lx_left_def)
  show ?thesis
  proof (cases "at_end ?S")
    case True
    with Next_moves [where ranges = ranges and ?L0.0 = L] assms S show ?thesis by (auto simp: mk_token_def)
  next
    case False
    with Next_moves [where ranges = ranges and ?L0.0 = L] assms have "moves (Advance ?S) L'" by auto
    then have "lx_pos ?S < lx_pos L'" "lx_input L' = lx_input ?S"
      using moves_step [OF False] moves_fixed [of "Advance ?S" L'] by (auto simp: Advance_def)
    with False have "lx_left L' < lx_left ?S" by (auto simp: lx_left_def at_end_def)
    with S show ?thesis by linarith
  qed
qed

text \<open>The loop of \<open>Parser::Advance\<close>: newlines are dropped and comments kept.\<close>

function Advance_loop :: "ranges \<Rightarrow> Comment list \<Rightarrow> Lexer \<Rightarrow> Token \<times> Comment list \<times> Lexer" where
  "Advance_loop ranges cs L =
     (case Next ranges L of
        (t, L') \<Rightarrow>
          if tk_kind t = kNewline then Advance_loop ranges cs L'
          else if tk_kind t = kComment then Advance_loop ranges (cs @ [\<lparr>cm_pos = tk_pos t, cm_text = tk_value t\<rparr>]) L'
          else (t, cs, L'))"
  by pat_completeness auto
termination
  by (relation "measure (\<lambda>(r, cs, L). lx_left L)") (auto dest!: Next_left [OF sym])

declare Advance_loop.simps [simp del]

definition Parser_Advance :: "ranges \<Rightarrow> Parser \<Rightarrow> Parser" where
  "Parser_Advance ranges P =
     (case Advance_loop ranges (ps_comments P) (ps_lex P) of
        (t, cs, L) \<Rightarrow> P\<lparr>ps_prev_end := CurrentPos (ps_lex P), ps_current := t, ps_comments := cs, ps_lex := L\<rparr>)"

definition FlushComments :: "Parser \<Rightarrow> Comment list \<times> Parser" where
  "FlushComments P = (ps_comments P, P\<lparr>ps_comments := []\<rparr>)"

definition TakeTrailingComment :: "Position \<Rightarrow> Parser \<Rightarrow> string \<times> Parser" where
  "TakeTrailingComment e P =
     (case ps_comments P of
        [] \<Rightarrow> ([], P)
      | c # cs \<Rightarrow>
          if pos_line (cm_pos c) \<noteq> pos_line e \<or> pos_offset (cm_pos c) < pos_offset e then ([], P)
          else (cm_text c, P\<lparr>ps_comments := cs\<rparr>))"

definition prepend_comments :: "Comment list \<Rightarrow> Parser \<Rightarrow> Parser" where
  "prepend_comments cs P = P\<lparr>ps_comments := cs @ ps_comments P\<rparr>"

text \<open>What is left to read, the current token included.\<close>

definition ps_left :: "Parser \<Rightarrow> nat" where
  "ps_left P = (if kind P = kEOF then lx_left (ps_lex P) else Suc (lx_left (ps_lex P)))"

lemma Advance_loop_left:
  "Advance_loop ranges cs L = (t, cs', L') \<Longrightarrow> lx_left L' \<le> lx_left L \<and> (tk_kind t \<noteq> kEOF \<longrightarrow> lx_left L' < lx_left L)"
proof (induction ranges cs L rule: Advance_loop.induct)
  case (1 ranges cs L)
  obtain u M where N: "Next ranges L = (u, M)" by fastforce
  have n: "lx_left M \<le> lx_left L" "tk_kind u \<noteq> kEOF \<longrightarrow> lx_left M < lx_left L" using Next_left [OF N] by simp_all
  show ?case
  proof (cases "tk_kind u = kNewline")
    case True
    have "Advance_loop ranges cs M = (t, cs', L')" using 1(3) N True by (subst (asm) Advance_loop.simps) simp
    from 1(1) [OF N [symmetric] True this] n show ?thesis by linarith
  next
    case nl: False
    show ?thesis
    proof (cases "tk_kind u = kComment")
      case True
      have "Advance_loop ranges (cs @ [\<lparr>cm_pos = tk_pos u, cm_text = tk_value u\<rparr>]) M = (t, cs', L')"
        using 1(3) N nl True by (subst (asm) Advance_loop.simps) simp
      from 1(2) [OF N [symmetric] nl True this] n show ?thesis by linarith
    next
      case False
      then show ?thesis using 1(3) N nl n by (subst (asm) Advance_loop.simps) simp
    qed
  qed
qed

lemma Parser_Advance_left:
  "ps_left (Parser_Advance ranges P) \<le> ps_left P \<and> (kind P \<noteq> kEOF \<longrightarrow> ps_left (Parser_Advance ranges P) < ps_left P)"
proof -
  obtain t cs L where a: "Advance_loop ranges (ps_comments P) (ps_lex P) = (t, cs, L)" by (metis prod_cases3)
  from Advance_loop_left [OF a] a show ?thesis by (auto simp: Parser_Advance_def ps_left_def)
qed

lemmas Advance_le = Parser_Advance_left [THEN conjunct1]
lemmas Advance_less = Parser_Advance_left [THEN conjunct2, rule_format]

function SkipBalanced :: "ranges \<Rightarrow> TokenKind \<Rightarrow> TokenKind \<Rightarrow> int \<Rightarrow> Parser \<Rightarrow> Position \<times> Parser" where
  "SkipBalanced ranges opener closer depth P =
     (if kind P = kEOF then (cur_pos P, P)
      else if kind P = opener then SkipBalanced ranges opener closer (depth + 1) (Parser_Advance ranges P)
      else if kind P = closer then
        if depth - 1 \<le> 0 then (TokenEnd P, Parser_Advance ranges P)
        else SkipBalanced ranges opener closer (depth - 1) (Parser_Advance ranges P)
      else SkipBalanced ranges opener closer depth (Parser_Advance ranges P))"
  by pat_completeness auto
termination
  by (relation "measure (\<lambda>(r, k1, k2, d, P). ps_left P)") (auto intro: Advance_less)

declare SkipBalanced.simps [simp del]

definition PeekKind :: "ranges \<Rightarrow> Parser \<Rightarrow> TokenKind \<times> Parser" where
  "PeekKind ranges P =
     (let P1 = Parser_Advance ranges P; L = ps_lex P; L1 = ps_lex P1
      in (kind P1,
          P1\<lparr>ps_lex := L1\<lparr>lx_pos := lx_pos L, lx_line := lx_line L, lx_column := lx_column L,
               lx_errors := map_option (take (case lx_errors L of None \<Rightarrow> 0 | Some es \<Rightarrow> length es)) (lx_errors L1)\<rparr>,
             ps_current := ps_current P, ps_prev_end := ps_prev_end P,
             ps_comments := take (length (ps_comments P)) (ps_comments P1)\<rparr>))"

text \<open>A peek leaves the parser as it was.\<close>

lemma Next_moves_all: "Next ranges L = (t, L') \<Longrightarrow> moves L L'"
  using Next_moves [where ranges = ranges and ?L0.0 = L] SkipSpaces_moves [of L] moves_trans [of L "Advance (SkipSpaces L)" L']
  by (auto split: if_splits)

lemma Advance_loop_grows:
  "Advance_loop ranges cs L = (t, cs', L') \<Longrightarrow> moves L L' \<and> (\<exists>more. cs' = cs @ more)"
proof (induction ranges cs L rule: Advance_loop.induct)
  case (1 ranges cs L)
  obtain u M where N: "Next ranges L = (u, M)" by fastforce
  have m: "moves L M" using N by (rule Next_moves_all)
  consider "tk_kind u = kNewline" | "tk_kind u \<noteq> kNewline" "tk_kind u = kComment" | "tk_kind u \<noteq> kNewline" "tk_kind u \<noteq> kComment" by blast
  then show ?case
  proof cases
    case 1: 1
    have "Advance_loop ranges cs M = (t, cs', L')" using "1.prems" N 1 by (subst (asm) Advance_loop.simps) simp
    from "1.IH"(1) [OF N [symmetric] 1 this] m show ?thesis using moves_trans by blast
  next
    case 2
    have "Advance_loop ranges (cs @ [\<lparr>cm_pos = tk_pos u, cm_text = tk_value u\<rparr>]) M = (t, cs', L')"
      using "1.prems" N 2 by (subst (asm) Advance_loop.simps) simp
    from "1.IH"(2) [OF N [symmetric] 2 this] m show ?thesis using moves_trans by fastforce
  next
    case 3
    with "1.prems" N m show ?thesis by (subst (asm) Advance_loop.simps) simp
  qed
qed

lemma PeekKind_eq: "PeekKind ranges P = (kind (Parser_Advance ranges P), P)"
proof -
  obtain t cs L where a: "Advance_loop ranges (ps_comments P) (ps_lex P) = (t, cs, L)" by (metis prod_cases3)
  obtain more where m: "moves (ps_lex P) L" "cs = ps_comments P @ more" using Advance_loop_grows [OF a] by blast
  note f = moves_fixed [OF m(1)]
  have "map_option (take (case lx_errors (ps_lex P) of None \<Rightarrow> 0 | Some es \<Rightarrow> length es)) (lx_errors L) = lx_errors (ps_lex P)"
    using f moves_errors [OF m(1)] by (cases "lx_errors (ps_lex P)") (auto simp: Tolerant_def)
  then have "L\<lparr>lx_pos := lx_pos (ps_lex P), lx_line := lx_line (ps_lex P), lx_column := lx_column (ps_lex P),
      lx_errors := map_option (take (case lx_errors (ps_lex P) of None \<Rightarrow> 0 | Some es \<Rightarrow> length es)) (lx_errors L)\<rparr> = ps_lex P"
    using f by (intro Lexer.equality) simp_all
  then show ?thesis using a m(2) by (simp add: PeekKind_def Let_def Parser_Advance_def)
qed

definition CurrentStartsEntry :: "ranges \<Rightarrow> Parser \<Rightarrow> bool \<times> Parser" where
  "CurrentStartsEntry ranges P =
     (if kind P \<in> set [kIdent, kString, kInt, kBool] then
        case PeekKind ranges P of (next, P') \<Rightarrow> (next = kEquals \<or> next = kColon \<or> next = kLBrace, P')
      else (False, P))"

function SyncTopLevel :: "ranges \<Rightarrow> Parser \<Rightarrow> Parser" where
  "SyncTopLevel ranges P =
     (if kind P \<in> set [kEOF, kAtType, kAtDirective, kAtDataset, kAtProto, kIdent, kString, kInt] then P
      else SyncTopLevel ranges (Parser_Advance ranges P))"
  by pat_completeness auto
termination
  by (relation "measure (\<lambda>(r, P). ps_left P)") (auto intro: Advance_less)

declare SyncTopLevel.simps [simp del]

definition TolerantRowClose :: "Parser \<Rightarrow> bool" where
  "TolerantRowClose P \<longleftrightarrow> ps_tolerant P \<and> kind P = kRParen"

definition BadValue :: "Position \<Rightarrow> Value" where
  "BadValue pos = BadVal pos pos"

section \<open>Values\<close>

definition depth_error :: "Parser \<Rightarrow> string" where
  "depth_error P = ''nesting depth exceeds MaxNestingDepth='' @ to_string_int (ps_max_depth P)"

text \<open>A value of one token, which it consumes.\<close>

definition token_value :: "ranges \<Rightarrow> (Position \<Rightarrow> Position \<Rightarrow> Value) \<Rightarrow> Value parsing" where
  "token_value ranges mk P = pret (mk (cur_pos P) (TokenEnd P)) (Parser_Advance ranges P)"

text \<open>\<open>ParseValue\<close>, with the parsers of a list and of a block value.\<close>

definition value_step :: "ranges \<Rightarrow> Value parsing \<Rightarrow> Value parsing \<Rightarrow> Value parsing" where
  "value_step ranges parse_list parse_block P0 =
     (let pos = cur_pos P0; (starts, P) = (if ps_tolerant P0 then CurrentStartsEntry ranges P0 else (False, P0)); v = cur_value P
      in if starts then pret (BadValue (ps_prev_end P)) (record_error (ps_prev_end P) ''missing value'' P)
         else case kind P of
             kString \<Rightarrow> token_value ranges (\<lambda>p e. StringVal p e v) P
           | kInt \<Rightarrow> token_value ranges (\<lambda>p e. IntVal p e v (tk_prec (ps_current P))) P
           | kFloat \<Rightarrow> token_value ranges (\<lambda>p e. FloatVal p e v (tk_prec (ps_current P))) P
           | kBool \<Rightarrow> token_value ranges (\<lambda>p e. BoolVal p e (v = ''true'')) P
           | kBytes \<Rightarrow>
               (case Base64DecodeLenient v of
                  Inl offset \<Rightarrow>
                    pbind (Soft pos (''invalid base64: illegal base64 data at input byte '' @ to_string offset))
                      (\<lambda>_ P1. pret (BadValue pos) (Parser_Advance ranges P1)) P
                | Inr decoded \<Rightarrow> token_value ranges (\<lambda>p e. BytesVal p e decoded) P)
           | kTimestamp \<Rightarrow>
               (case ParseRFC3339 v of
                  Some (seconds, nanos) \<Rightarrow> token_value ranges (\<lambda>p e. TimestampVal p e seconds nanos v) P
                | None \<Rightarrow> token_value ranges (\<lambda>p e. TimestampVal p e 0 0 v) P)
           | kDuration \<Rightarrow>
               (case ParseDuration v of
                  Some (seconds, nanos) \<Rightarrow> token_value ranges (\<lambda>p e. DurationVal p e seconds nanos v) P
                | None \<Rightarrow> token_value ranges (\<lambda>p e. DurationVal p e 0 0 v) P)
           | kNull \<Rightarrow> token_value ranges NullVal P
           | kIdent \<Rightarrow> token_value ranges (\<lambda>p e. IdentVal p e v) P
           | kLBracket \<Rightarrow> parse_list P
           | kLBrace \<Rightarrow> parse_block P
           | _ \<Rightarrow>
               (let msg = (if kind P = kIllegal then v else ''expected value, got '' @ TokenErrMsg ranges P)
                in if \<not> ps_tolerant P then Err pos msg P
                   else
                     let P1 = record_error pos msg P
                     in pret (BadValue pos)
                          (if kind P \<in> set [kEOF, kRBrace, kRBracket, kRParen] then P1 else Parser_Advance ranges P1)))"

text \<open>The elements of a list.\<close>

fun list_loop :: "nat \<Rightarrow> ranges \<Rightarrow> Value parsing \<Rightarrow> Value list \<Rightarrow> Value list parsing" where
  "list_loop 0 ranges parse_value elements P = None"
| "list_loop (Suc n) ranges parse_value elements P =
     (if kind P = kRBracket \<or> kind P = kEOF \<or> TolerantRowClose P then pret elements P
      else
        pbind parse_value
          (\<lambda>elem P1.
             if ps_tolerant P1 \<and> pos_offset (cur_pos P1) = pos_offset (cur_pos P) \<and> is_BadVal elem then pret elements P1
             else list_loop n ranges parse_value (elements @ [elem]) (if kind P1 = kComma then Parser_Advance ranges P1 else P1)) P)"

definition ParseList :: "ranges \<Rightarrow> Value parsing \<Rightarrow> int \<Rightarrow> Value parsing" where
  "ParseList ranges parse_value depth P =
     (let pos = cur_pos P
      in if ps_max_depth P < depth + 1 then
           pbind (Soft pos (depth_error P))
             (\<lambda>_ P1. case SkipBalanced ranges kLBracket kRBracket 0 P1 of (e, P2) \<Rightarrow> pret (ListVal pos e []) P2) P
         else
           let P1 = Parser_Advance ranges P
           in pbind (list_loop (Suc (ps_left P1)) ranges parse_value [])
                (\<lambda>elements P2.
                   if kind P2 \<noteq> kRBracket then
                     pbind (Soft (cur_pos P2) (''expected '' @ quoted '']'' @ '', got '' @ TokenKindName (kind P2)))
                       (\<lambda>_ P3. pret (ListVal pos (cur_pos P3) elements) P3) P2
                   else pret (ListVal pos (TokenEnd P2) elements) (Parser_Advance ranges P2)) P1)"

definition ParseBlockVal :: "ranges \<Rightarrow> (int \<Rightarrow> (Entry list \<times> Position \<times> Comment list) parsing) \<Rightarrow> int \<Rightarrow> Value parsing" where
  "ParseBlockVal ranges parse_body depth P =
     (let pos = cur_pos P
      in if ps_max_depth P < depth + 1 then
           pbind (Soft pos (depth_error P))
             (\<lambda>_ P1. case SkipBalanced ranges kLBrace kRBrace 0 P1 of (e, P2) \<Rightarrow> pret (BlockVal pos e [] []) P2) P
         else
           pbind (parse_body (depth + 1)) (\<lambda>(entries, e, trailing) P1. pret (BlockVal pos e entries trailing) P1) (Parser_Advance ranges P))"

section \<open>Entries\<close>

definition key_kinds :: "TokenKind list" where
  "key_kinds = [kIdent, kString, kInt, kBool]"

text \<open>The three tails of an entry, after its key; the current token is \<open>=\<close>, \<open>:\<close> or \<open>{\<close>.\<close>

definition soft_if :: "bool \<Rightarrow> Position \<Rightarrow> string \<Rightarrow> unit parsing" where
  "soft_if b pos msg = (if b then Soft pos msg else pret ())"

definition parse_assignment ::
  "ranges \<Rightarrow> Value parsing \<Rightarrow> Position \<Rightarrow> TokenKind \<Rightarrow> string \<Rightarrow> string \<Rightarrow> Comment list \<Rightarrow> Entry option parsing" where
  "parse_assignment ranges parse_value pos key_kind key key_prec leading =
     pbind (soft_if (key_kind = kInt \<or> key_kind = kBool) pos
              (''field assignment with '' @ quoted ''='' @ '' requires an identifier or string key, got '' @ TokenKindName key_kind @ '' ('' @
               GoQuote ranges (WrittenKey key key_prec) @ ''); use '' @ quoted '':'' @ '' for map entries''))
       (\<lambda>_ P. pbind parse_value
          (\<lambda>v P1. case TakeTrailingComment (value_end v) P1 of
             (comment, P2) \<Rightarrow> pret (Some (Assignment pos (value_end v) key (key_kind = kString) v leading comment)) P2)
          (Parser_Advance ranges P))"

definition parse_map_entry ::
  "ranges \<Rightarrow> Value parsing \<Rightarrow> bool \<Rightarrow> Position \<Rightarrow> TokenKind \<Rightarrow> string \<Rightarrow> string \<Rightarrow> Comment list \<Rightarrow> Entry option parsing" where
  "parse_map_entry ranges parse_value allow_map_entry pos key_kind key key_prec leading =
     pbind (soft_if (\<not> allow_map_entry) pos
              (''map entry ('' @ quoted '':'' @ '' form) is only allowed inside a '' @ quoted (''{ '' @ ellipsis @ '' }'') @ '' block; use '' @
               quoted ''='' @ '' for top-level field assignments''))
       (\<lambda>_. pbind (soft_if (key_prec \<noteq> []) pos
                     (''map key '' @ key @ '': a key cannot carry a precision suffix (p'' @ Clip key_prec @ '')''))
         (\<lambda>_ P. pbind parse_value
            (\<lambda>v P1. case TakeTrailingComment (value_end v) P1 of
               (comment, P2) \<Rightarrow> pret (Some (MapEntry pos (value_end v) key (key_kind = kString) v leading comment)) P2)
            (Parser_Advance ranges P)))"

definition parse_block_entry ::
  "ranges \<Rightarrow> (int \<Rightarrow> (Entry list \<times> Position \<times> Comment list) parsing) \<Rightarrow> int \<Rightarrow> Position \<Rightarrow> TokenKind \<Rightarrow> string \<Rightarrow> string \<Rightarrow>
     Comment list \<Rightarrow> Entry option parsing" where
  "parse_block_entry ranges parse_body depth pos key_kind key key_prec leading =
     pbind (soft_if (key_kind = kInt \<or> key_kind = kBool) pos
              (''submessage block requires an identifier or string key, got '' @ TokenKindName key_kind @ '' ('' @
               GoQuote ranges (WrittenKey key key_prec) @ '')''))
       (\<lambda>_ P.
          if ps_max_depth P < depth + 1 then
            pbind (Soft (cur_pos P) (depth_error P))
              (\<lambda>_ P1. case SkipBalanced ranges kLBrace kRBrace 0 P1 of
                 (e, P2) \<Rightarrow> pret (Some (Block pos e key (key_kind = kString) [] leading [])) P2) P
          else
            pbind (parse_body (depth + 1))
              (\<lambda>(entries, e, trailing) P1. pret (Some (Block pos e key (key_kind = kString) entries leading trailing)) P1)
              (Parser_Advance ranges P))"

definition ParseEntry ::
  "ranges \<Rightarrow> Value parsing \<Rightarrow> (int \<Rightarrow> (Entry list \<times> Position \<times> Comment list) parsing) \<Rightarrow> int \<Rightarrow> bool \<Rightarrow> Entry option parsing" where
  "ParseEntry ranges parse_value parse_body depth allow_map_entry P0 =
     (case FlushComments P0 of
        (leading, P) \<Rightarrow>
          let pos = cur_pos P
          in if kind P \<notin> set key_kinds then
               let msg = ''expected identifier, string, integer, or bool, got '' @ TokenErrMsg ranges P
               in if \<not> ps_tolerant P then Err pos msg P
                  else pret None (Parser_Advance ranges (prepend_comments leading (record_error pos msg P)))
             else
               let key_kind = kind P; key = cur_value P; key_prec = tk_prec (ps_current P); P1 = Parser_Advance ranges P
               in (case kind P1 of
                    kEquals \<Rightarrow> parse_assignment ranges parse_value pos key_kind key key_prec leading P1
                  | kColon \<Rightarrow> parse_map_entry ranges parse_value allow_map_entry pos key_kind key key_prec leading P1
                  | kLBrace \<Rightarrow> parse_block_entry ranges parse_body depth pos key_kind key key_prec leading P1
                  | _ \<Rightarrow>
                      pbind (Soft (cur_pos P1)
                               (''expected '' @ quoted ''='' @ '', '' @ quoted '':'' @ '', or '' @ quoted ''{'' @ '' after '' @
                                GoQuote ranges key @ '', got '' @ TokenKindName (kind P1)))
                        (\<lambda>_ P2. pret (Some (Assignment pos (ps_prev_end P2) key False (BadValue (ps_prev_end P2)) leading [])) P2) P1))"

definition kTypeEntryMisplaced :: string where
  "kTypeEntryMisplaced =
     ''@type is allowed only as the first entry of a block bound to google.protobuf.Any (draft -01 '' @ [CHR 0x22] @ ''Any Blocks'' @
     [CHR 0x22] @ '')''"

definition advance_if :: "ranges \<Rightarrow> TokenKind \<Rightarrow> Parser \<Rightarrow> Parser" where
  "advance_if ranges k P = (if kind P = k then Parser_Advance ranges P else P)"

definition type_entry_fail :: "ranges \<Rightarrow> Comment list \<Rightarrow> Position \<Rightarrow> string \<Rightarrow> Entry option parsing" where
  "type_entry_fail ranges leading at msg P =
     (if \<not> ps_tolerant P then Err at msg P
      else
        pret None (advance_if ranges kString (advance_if ranges kEquals (advance_if ranges kAtType
          (prepend_comments leading (record_error at msg P))))))"

definition ParseTypeEntry :: "ranges \<Rightarrow> bool \<Rightarrow> Entry option parsing" where
  "ParseTypeEntry ranges first P0 =
     (case FlushComments P0 of
        (leading, P) \<Rightarrow>
          let pos = cur_pos P
          in if \<not> first then type_entry_fail ranges leading pos kTypeEntryMisplaced P
             else
               let P1 = Parser_Advance ranges P
               in if kind P1 \<noteq> kEquals then
                    type_entry_fail ranges leading (cur_pos P1) (''expected '' @ quoted ''='' @ '' after @type, got '' @ TokenErrMsg ranges P1) P1
                  else
                    let P2 = Parser_Advance ranges P1
                    in if kind P2 \<noteq> kString then
                         type_entry_fail ranges leading (cur_pos P2) (''expected a string type URL after @type =, got '' @ TokenErrMsg ranges P2) P2
                       else
                         let e = TokenEnd P2; P3 = Parser_Advance ranges P2; (comment, P4) = TakeTrailingComment e P3
                         in pret (Some (TypeEntry pos e (cur_value P2) leading comment)) P4)"

definition push_entry :: "Entry list \<Rightarrow> Entry option \<Rightarrow> Entry list" where
  "push_entry out entry = (case entry of None \<Rightarrow> out | Some e \<Rightarrow> out @ [e])"

fun body_loop :: "nat \<Rightarrow> ranges \<Rightarrow> Entry option parsing \<Rightarrow> Entry list \<Rightarrow> Entry list parsing" where
  "body_loop 0 ranges parse_entry out P = None"
| "body_loop (Suc n) ranges parse_entry out P =
     (if kind P = kRBrace \<or> kind P = kEOF \<or> TolerantRowClose P then pret out P
      else
        pbind (if kind P = kAtType then ParseTypeEntry ranges (out = []) else parse_entry)
          (\<lambda>entry. body_loop n ranges parse_entry (push_entry out entry)) P)"

definition body_step :: "ranges \<Rightarrow> Entry option parsing \<Rightarrow> (Entry list \<times> Position \<times> Comment list) parsing" where
  "body_step ranges parse_entry P =
     pbind (body_loop (Suc (ps_left P)) ranges parse_entry [])
       (\<lambda>out P1.
          case FlushComments P1 of
            (trailing, P2) \<Rightarrow>
              if kind P2 \<noteq> kRBrace then
                if \<not> ps_tolerant P2 then Err (cur_pos P2) (''expected '' @ quoted ''}'' @ '', got '' @ TokenKindName (kind P2)) P2
                else
                  pret (out, cur_pos P2, trailing)
                    (record_error (cur_pos P2)
                       (''unclosed block: expected '' @ quoted ''}'' @ '' before '' @ (if kind P2 = kRParen then quoted '')'' else ''end of input'')) P2)
              else pret (out, TokenEnd P2, trailing) (Parser_Advance ranges P2)) P"

text \<open>The recursion of values through lists and blocks.\<close>

fun ParseValue :: "nat \<Rightarrow> ranges \<Rightarrow> int \<Rightarrow> Value parsing"
and ParseBody :: "nat \<Rightarrow> ranges \<Rightarrow> int \<Rightarrow> (Entry list \<times> Position \<times> Comment list) parsing" where
  "ParseValue 0 ranges depth P = None"
| "ParseValue (Suc n) ranges depth P =
     value_step ranges (ParseList ranges (ParseValue n ranges (depth + 1)) depth) (ParseBlockVal ranges (ParseBody n ranges) depth) P"
| "ParseBody 0 ranges depth P = None"
| "ParseBody (Suc n) ranges depth P =
     body_step ranges (ParseEntry ranges (ParseValue n ranges depth) (ParseBody n ranges) depth True) P"

text \<open>A value calls a body one level deeper, and a body the values of its own level.\<close>

definition depth_fuel :: "Parser \<Rightarrow> nat" where
  "depth_fuel P = 2 * nat (ps_max_depth P) + 2"

definition parse_value :: "ranges \<Rightarrow> int \<Rightarrow> Value parsing" where
  "parse_value ranges depth P = ParseValue (depth_fuel P) ranges depth P"

definition parse_body :: "ranges \<Rightarrow> int \<Rightarrow> (Entry list \<times> Position \<times> Comment list) parsing" where
  "parse_body ranges depth P = ParseBody (depth_fuel P) ranges depth P"

section \<open>Directives\<close>

function prefix_loop :: "ranges \<Rightarrow> string list \<Rightarrow> nat \<Rightarrow> Parser \<Rightarrow> string list \<times> nat \<times> Parser" where
  "prefix_loop ranges pres eo P =
     (if kind P \<noteq> kIdent then (pres, eo, P)
      else case PeekKind ranges P of
          (next, P1) \<Rightarrow>
            if next = kEquals \<or> next = kColon then (pres, eo, P1)
            else prefix_loop ranges (pres @ [cur_value P1]) (pos_offset (cur_pos P1) + length (cur_value P1)) (Parser_Advance ranges P1))"
  by pat_completeness auto
termination
  by (relation "measure (\<lambda>(r, ps, eo, P). ps_left P)") (auto simp: PeekKind_eq intro: Advance_less)

declare prefix_loop.simps [simp del]

definition Input :: "Parser \<Rightarrow> string" where
  "Input P = lx_input (ps_lex P)"

text \<open>What follows the name of a directive: identifiers, and a block whose text is kept.\<close>

definition directive_tail :: "ranges \<Rightarrow> Position \<Rightarrow> string \<Rightarrow> Comment list \<Rightarrow> (Directive \<times> nat) parsing" where
  "directive_tail ranges at_pos name leading P1 =
     (case prefix_loop ranges [] (pos_offset at_pos + 1 + length name) (Parser_Advance ranges P1) of
        (pres, eo, P2) \<Rightarrow>
          let d = \<lparr>dir_pos = at_pos, dir_name = name, dir_prefixes = pres, dir_type = (if length pres = 1 then hd pres else []),
                    dir_body = [], dir_has_body = False, dir_leading = leading\<rparr>
          in if kind P2 \<noteq> kLBrace then pret (d, eo) P2
             else
               let opener = pos_offset (cur_pos P2)
               in pbind (ParseBlockVal ranges (parse_body ranges) 0)
                    (\<lambda>_ P3.
                       case FindMatchingBrace (Input P3) opener of
                         (None, _) \<Rightarrow> Err at_pos (''directive @'' @ name @ '': unmatched '' @ quoted ''{'') P3
                       | (Some closer, _) \<Rightarrow>
                           pret (d\<lparr>dir_body := substr (Input P3) (opener + 1) (closer - (opener + 1)), dir_has_body := True\<rparr>, closer + 1) P3)
                    P2)"

definition ParseDirective :: "ranges \<Rightarrow> (Directive \<times> nat) parsing" where
  "ParseDirective ranges P0 =
     (case FlushComments P0 of
        (leading, P) \<Rightarrow>
          let at_pos = cur_pos P; name = cur_value P
          in pbind (soft_if (IsFutureReservedDirective name) at_pos
                      (''@'' @ name @ '' is a spec-reserved directive name with no v1 semantics (draft '' @ section_sign @ ''3.4.6)''))
               (\<lambda>_. directive_tail ranges at_pos name leading) P)"

text \<open>A cell of a dataset row: an absent cell is \<open>None\<close>.\<close>

definition ParseRowCell :: "ranges \<Rightarrow> Value option parsing" where
  "ParseRowCell ranges P =
     (if kind P = kComma \<or> kind P = kRParen then pret None P
      else
        let pending = ps_comments P
        in case parse_value ranges 0 (P\<lparr>ps_comments := []\<rparr>) of
             None \<Rightarrow> None
           | Some (Inl e, P1) \<Rightarrow> Some (Inl e, prepend_comments pending P1)
           | Some (Inr v, P1) \<Rightarrow> Some (Inr (Some v), prepend_comments pending P1))"

fun cells_loop :: "nat \<Rightarrow> ranges \<Rightarrow> Value option list \<Rightarrow> Value option list parsing" where
  "cells_loop 0 ranges cells P = None"
| "cells_loop (Suc n) ranges cells P =
     (if kind P = kComma then pbind (ParseRowCell ranges) (\<lambda>cell. cells_loop n ranges (cells @ [cell])) (Parser_Advance ranges P)
      else pret cells P)"

definition ParseTableRow :: "ranges \<Rightarrow> nat \<Rightarrow> bool \<Rightarrow> (DatasetRow \<times> nat) parsing" where
  "ParseTableRow ranges expected read_past P0 =
     (let pos = cur_pos P0; (leading, P) = FlushComments P0; P1 = Parser_Advance ranges P
      in pbind (ParseRowCell ranges)
           (\<lambda>cell P2. pbind (cells_loop (Suc (ps_left P2)) ranges [cell])
              (\<lambda>cells P3.
                 if kind P3 \<noteq> kRParen then
                   Err (cur_pos P3) (''expected '' @ quoted '','' @ '' or '' @ quoted '')'' @ '' in @dataset row, got '' @ DatasetTokenMsg ranges P3) P3
                 else
                   let eo = pos_offset (cur_pos P3) + 1; (inside, P4) = FlushComments P3;
                       P5 = (if read_past then Parser_Advance ranges P4 else P4)
                   in if length cells \<noteq> expected then
                        Err pos (''@dataset row has '' @ to_string (length cells) @ '' cells, expected '' @ to_string expected @ '' (column count)'') P5
                      else pret (\<lparr>row_pos = pos, row_cells = cells, row_leading = leading @ inside\<rparr>, eo) P5) P2) P1)"

function columns_loop :: "ranges \<Rightarrow> (string \<times> Position) list \<Rightarrow> (string \<times> Position) list parsing" where
  "columns_loop ranges columns P =
     (if kind P \<noteq> kIdent then Err (cur_pos P) (''expected column field name, got '' @ DatasetTokenMsg ranges P) P
      else
        let columns' = columns @ [(cur_value P, cur_pos P)]; P1 = Parser_Advance ranges P
        in if kind P1 = kComma then columns_loop ranges columns' (Parser_Advance ranges P1)
           else if kind P1 = kRParen then pret columns' P1
           else Err (cur_pos P1) (''expected '' @ quoted '','' @ '' or '' @ quoted '')'' @ '' in @dataset column list, got '' @ DatasetTokenMsg ranges P1) P1)"
  by pat_completeness auto
termination
  by (relation "measure (\<lambda>(r, cs, P). ps_left P)") (auto intro: le_less_trans [OF Advance_le Advance_less])

declare columns_loop.simps [simp del]

fun rows_loop :: "nat \<Rightarrow> ranges \<Rightarrow> nat \<Rightarrow> DatasetRow list \<Rightarrow> nat \<Rightarrow> (DatasetRow list \<times> nat) parsing" where
  "rows_loop 0 ranges expected rows eo P = None"
| "rows_loop (Suc n) ranges expected rows eo P =
     (if kind P = kLParen then
        pbind (ParseTableRow ranges expected True) (\<lambda>(row, row_end). rows_loop n ranges expected (rows @ [row]) row_end) P
      else pret (rows, eo) P)"

text \<open>The check of the column list, whose \<open>)\<close> is current, and the rows after it.\<close>

definition table_rows :: "ranges \<Rightarrow> Position \<Rightarrow> string \<Rightarrow> Comment list \<Rightarrow> (string \<times> Position) list \<Rightarrow> (DatasetDirective \<times> nat) parsing" where
  "table_rows ranges pos ty leading columns P4 =
     (case ColumnPathError ranges (map fst columns) of
        Some (bad_column, msg) \<Rightarrow> Err (snd (columns ! bad_column)) msg P4
      | None \<Rightarrow>
          let P5 = Parser_Advance ranges P4
          in pbind (rows_loop (Suc (ps_left P5)) ranges (length columns) [] (pos_offset (cur_pos P4) + 1))
               (\<lambda>(rows, eo). pret (\<lparr>ds_pos = pos, ds_type = ty, ds_columns = map fst columns, ds_rows = rows, ds_leading = leading\<rparr>, eo)) P5)"

definition ParseTableDirective :: "ranges \<Rightarrow> (DatasetDirective \<times> nat) parsing" where
  "ParseTableDirective ranges P0 =
     (let (leading, P) = FlushComments P0; pos = cur_pos P; P1 = Parser_Advance ranges P;
          (ty, P2) = (if kind P1 = kIdent then (cur_value P1, Parser_Advance ranges P1) else ([], P1))
      in if kind P2 \<noteq> kLParen then
           Err (cur_pos P2) (''expected '' @ quoted ''('' @ '' to start @dataset column list, got '' @ DatasetTokenMsg ranges P2) P2
         else
           let P3 = Parser_Advance ranges P2
           in if kind P3 \<noteq> kIdent then
                Err (cur_pos P3) (''@dataset column list must contain at least one field name, got '' @ DatasetTokenMsg ranges P3) P3
              else pbind (columns_loop ranges []) (table_rows ranges pos ty leading) P3)"

text \<open>The lambda of \<open>ParseProtoDirective\<close> that takes a body in braces as it is written.\<close>

definition capture_brace_body :: "ranges \<Rightarrow> string \<Rightarrow> (string \<times> nat) parsing" where
  "capture_brace_body ranges label P =
     (let opener = pos_offset (cur_pos P)
      in case FindMatchingBrace (Input P) opener of
           (None, _) \<Rightarrow> Err (cur_pos P) (label @ '': unmatched '' @ quoted ''{'') P
         | (Some closer, _) \<Rightarrow>
             pret (substr (Input P) (opener + 1) (closer - (opener + 1)), closer + 1)
               (Parser_Advance ranges (P\<lparr>ps_lex := RepositionTo (closer + 1) (ps_lex P)\<rparr>)))"

definition ParseProtoDirective :: "ranges \<Rightarrow> (ProtoDirective \<times> nat) parsing" where
  "ParseProtoDirective ranges P0 =
     (let (leading, P) = FlushComments P0; pos = cur_pos P; P1 = Parser_Advance ranges P;
          mk = (\<lambda>shape name body. \<lparr>pd_pos = pos, pd_shape = shape, pd_type_name = name, pd_body = body, pd_leading = leading\<rparr>)
      in case kind P1 of
           kLBrace \<Rightarrow> pbind (capture_brace_body ranges ''@proto (anonymous form)'') (\<lambda>(body, eo). pret (mk kAnonymous [] body, eo)) P1
         | kIdent \<Rightarrow>
             (let name = cur_value P1; P2 = Parser_Advance ranges P1
              in if kind P2 \<noteq> kLBrace then
                   Err (cur_pos P2) (''expected '' @ quoted ''{'' @ '' after @proto '' @ name @ '', got '' @ TokenKindName (kind P2)) P2
                 else pbind (capture_brace_body ranges (''@proto '' @ name)) (\<lambda>(body, eo). pret (mk kNamed name body, eo)) P2)
         | kString \<Rightarrow> pret (mk kSource [] (cur_value P1), pos_offset (TokenEnd P1)) (Parser_Advance ranges P1)
         | kBytes \<Rightarrow>
             (case Base64DecodeProto (cur_value P1) of
                Inl offset \<Rightarrow>
                  Err (cur_pos P1) (''@proto descriptor body: invalid base64: illegal base64 data at input byte '' @ to_string offset) P1
              | Inr decoded \<Rightarrow> pret (mk kDescriptor [] (string_of decoded), pos_offset (TokenEnd P1)) (Parser_Advance ranges P1))
         | _ \<Rightarrow>
             Err (cur_pos P1)
               (''expected '' @ quoted ''{'' @ '', dotted identifier, triple-quoted string, or b'' @ [CHR 0x22] @ ''...'' @ [CHR 0x22] @ '' after @proto, got '' @
                TokenKindName (kind P1)) P1)"

section \<open>Documents\<close>

text \<open>A failed directive is recorded and skipped by a tolerant parse.\<close>

definition recover :: "ranges \<Rightarrow> Document \<Rightarrow> 'a parsing \<Rightarrow> ('a \<Rightarrow> Document) \<Rightarrow> Document parsing" where
  "recover ranges doc parse add P =
     (case parse P of
        None \<Rightarrow> None
      | Some (Inr x, P') \<Rightarrow> Some (Inr (add x), P')
      | Some (Inl e, P') \<Rightarrow>
          if \<not> ps_tolerant P then Some (Inl e, P')
          else Some (Inr doc, SyncTopLevel ranges (record_error (err_pos e) (err_msg e) P')))"

definition ParseTypeDirective :: "ranges \<Rightarrow> Document \<Rightarrow> Document parsing" where
  "ParseTypeDirective ranges doc P =
     (let P1 = Parser_Advance ranges P;
          (starts, P2) = (if kind P1 = kIdent \<and> ps_tolerant P1 then CurrentStartsEntry ranges P1 else (False, P1))
      in if kind P1 \<noteq> kIdent \<or> starts then
           pbind (Soft (cur_pos P2) (''expected type name after @type, got '' @ TokenKindName (kind P2)))
             (\<lambda>_ P3. pret doc (SyncTopLevel ranges P3)) P2
         else
           pret (doc\<lparr>doc_type_url := cur_value P2, doc_body_offset := pos_offset (cur_pos P2) + length (cur_value P2)\<rparr>)
             (Parser_Advance ranges P2))"

fun directives_loop :: "nat \<Rightarrow> ranges \<Rightarrow> Document \<Rightarrow> Document parsing" where
  "directives_loop 0 ranges doc P = None"
| "directives_loop (Suc n) ranges doc P =
     (case kind P of
        kAtType \<Rightarrow> pbind (ParseTypeDirective ranges doc) (directives_loop n ranges) P
      | kAtDirective \<Rightarrow>
          pbind (recover ranges doc (ParseDirective ranges)
                   (\<lambda>(d, e). doc\<lparr>doc_directives := doc_directives doc @ [d], doc_body_offset := e\<rparr>)) (directives_loop n ranges) P
      | kAtDataset \<Rightarrow>
          pbind (recover ranges doc (ParseTableDirective ranges)
                   (\<lambda>(d, e). doc\<lparr>doc_datasets := doc_datasets doc @ [d], doc_body_offset := e\<rparr>)) (directives_loop n ranges) P
      | kAtProto \<Rightarrow>
          pbind (recover ranges doc (ParseProtoDirective ranges)
                   (\<lambda>(d, e). doc\<lparr>doc_protos := doc_protos doc @ [d], doc_body_offset := e\<rparr>)) (directives_loop n ranges) P
      | _ \<Rightarrow> pret doc P)"

definition kDatasetBesideEntries :: string where
  "kDatasetBesideEntries =
     ''@dataset directive cannot coexist with top-level field entries; the document'' @ [CHR 0x27] @
     ''s payload is the @dataset rows (draft '' @ section_sign @ ''3.4.4)''"

definition check_standalone :: "Document \<Rightarrow> unit parsing" where
  "check_standalone doc P =
     (if doc_datasets doc = [] then pret () P
      else
        pbind (soft_if (doc_type_url doc \<noteq> []) (ds_pos (hd (doc_datasets doc)))
                 (''@dataset directive cannot coexist with @type; the @dataset header declares the document'' @ [CHR 0x27] @
                  ''s type (draft '' @ section_sign @ ''3.4.4)''))
          (\<lambda>_ P1. soft_if (kind P1 \<noteq> kEOF) (cur_pos P1) kDatasetBesideEntries P1) P)"

fun entries_loop :: "nat \<Rightarrow> ranges \<Rightarrow> Entry list \<Rightarrow> Entry list parsing" where
  "entries_loop 0 ranges out P = None"
| "entries_loop (Suc n) ranges out P =
     (if kind P = kEOF then pret out P
      else
        pbind (ParseEntry ranges (parse_value ranges 0) (parse_body ranges) 0 False)
          (\<lambda>entry. entries_loop n ranges (push_entry out entry)) P)"

definition ParseDocument :: "ranges \<Rightarrow> Document parsing" where
  "ParseDocument ranges P0 =
     (case FlushComments P0 of
        (leading, P) \<Rightarrow>
          pbind (directives_loop (Suc (ps_left P)) ranges (empty_document\<lparr>doc_leading := leading\<rparr>))
            (\<lambda>doc P1. pbind (check_standalone doc)
               (\<lambda>_ P2. pbind (entries_loop (Suc (ps_left P2)) ranges [])
                  (\<lambda>entries P3. case FlushComments P3 of
                     (trailing, P4) \<Rightarrow> pret (doc\<lparr>doc_entries := entries, doc_trailing := trailing\<rparr>) P4) P2) P1) P)"

section \<open>Entry points\<close>

lemma int_limits [code_unfold]: "int kMaxMessageSize = 67108864" "int kMaxNestingDepth = 100"
  by (simp_all add: kMaxMessageSize_def kMaxNestingDepth_def)

record ParseOptions =
  po_max_message_size :: int
  po_max_nesting_depth :: int
  po_max_bytes_literal_length :: int

definition limit_or :: "int \<Rightarrow> int \<Rightarrow> int" where
  "limit_or n k = (if 0 < n then n else k)"

definition new_parser :: "ranges \<Rightarrow> Lexer \<Rightarrow> int \<Rightarrow> bool \<Rightarrow> Parser" where
  "new_parser ranges L max_depth tolerant =
     Parser_Advance ranges
       \<lparr>ps_lex = L, ps_current = mk_token kEOF [] start_position, ps_comments = [], ps_max_depth = max_depth, ps_for_decoder = False,
        ps_tolerant = tolerant, ps_prev_end = start_position\<rparr>"

definition TakeErrors :: "Parser \<Rightarrow> Error list" where
  "TakeErrors P = sort_key (\<lambda>e. pos_offset (err_pos e)) (case lx_errors (ps_lex P) of None \<Rightarrow> [] | Some es \<Rightarrow> es)"

definition size_error :: "nat \<Rightarrow> int \<Rightarrow> string" where
  "size_error n max_size = ''input of '' @ to_string n @ '' bytes exceeds MaxMessageSize='' @ to_string_int max_size"

text \<open>The parser of each mode on its input, with its limits from the options.\<close>

definition strict_parser :: "ranges \<Rightarrow> string \<Rightarrow> ParseOptions \<Rightarrow> Parser" where
  "strict_parser ranges input opts =
     new_parser ranges (SetMaxBytesLiteral (limit_or (po_max_bytes_literal_length opts) kMaxBytesLiteralLength) (new_lexer input))
       (limit_or (po_max_nesting_depth opts) (int kMaxNestingDepth)) False"

definition tolerant_parser :: "ranges \<Rightarrow> string \<Rightarrow> ParseOptions \<Rightarrow> Parser" where
  "tolerant_parser ranges input opts =
     new_parser ranges
       (SetTolerant (SetMaxBytesLiteral (limit_or (po_max_bytes_literal_length opts) kMaxBytesLiteralLength) (new_lexer input)))
       (limit_or (po_max_nesting_depth opts) (int kMaxNestingDepth)) True"

definition Parse :: "ranges \<Rightarrow> string \<Rightarrow> ParseOptions \<Rightarrow> (Error + Document) option" where
  "Parse ranges input opts =
     (let max_size = limit_or (po_max_message_size opts) (int kMaxMessageSize)
      in if max_size < int (length input) then Some (Inl \<lparr>err_pos = start_position, err_msg = size_error (length input) max_size\<rparr>)
         else map_option fst (ParseDocument ranges (strict_parser ranges input opts)))"

definition ParseTolerant :: "ranges \<Rightarrow> string \<Rightarrow> ParseOptions \<Rightarrow> (Document \<times> Error list) option" where
  "ParseTolerant ranges input opts =
     (let max_size = limit_or (po_max_message_size opts) (int kMaxMessageSize)
      in if max_size < int (length input) then
           Some (empty_document, [\<lparr>err_pos = start_position, err_msg = size_error (length input) max_size\<rparr>])
         else
           case ParseDocument ranges (tolerant_parser ranges input opts) of
             None \<Rightarrow> None
           | Some (Inr doc, P) \<Rightarrow> Some (doc, TakeErrors P)
           | Some (Inl e, P) \<Rightarrow> Some (empty_document, TakeErrors (record_error (err_pos e) (err_msg e) P)))"

definition ParseDatasetAt :: "ranges \<Rightarrow> Lexer \<Rightarrow> Token \<Rightarrow> int \<Rightarrow> ((Error + DatasetDirective) \<times> Lexer \<times> Token) option" where
  "ParseDatasetAt ranges L current max_depth =
     map_option (\<lambda>(r, P). (map_sum id fst r, ps_lex P, ps_current P))
       (ParseTableDirective ranges
         \<lparr>ps_lex = L, ps_current = current, ps_comments = [], ps_max_depth = max_depth, ps_for_decoder = True, ps_tolerant = False,
          ps_prev_end = start_position\<rparr>)"

definition ParseDatasetRow :: "ranges \<Rightarrow> string \<Rightarrow> nat \<Rightarrow> int \<Rightarrow> int \<Rightarrow> Position \<Rightarrow> (Error + DatasetRow \<times> nat) option" where
  "ParseDatasetRow ranges row expected max_depth max_bytes_literal start =
     (let P = new_parser ranges (SetMaxBytesLiteral max_bytes_literal (new_lexer_at row start)) max_depth False
      in if kind P \<noteq> kLParen then Some (Inl \<lparr>err_pos = cur_pos P, err_msg = kDatasetBesideEntries\<rparr>)
         else map_option fst (ParseTableRow ranges expected False P))"

end
