(* ===== verification/PxfFormat.thy ===== *)
theory PxfFormat
  imports PxfParser
begin

text \<open>
  The formatter of syntax trees: \<open>src/pxf/format.cc\<close>, with the test of entry names it shares with \<open>src/pxf/keyed.cc\<close>.
  The source appends to a string; here every function returns the text it appends. A level of nesting is written with the
  indent the formatter holds. The null entries and values of the source have no counterpart, a tree of the model holds none.
\<close>

section \<open>Keys\<close>

definition IsIdentifierSafeEntryName :: "string \<Rightarrow> bool" where
  "IsIdentifierSafeEntryName s \<longleftrightarrow>
     s \<noteq> [] \<and> s \<noteq> ''true'' \<and> s \<noteq> ''false'' \<and> s \<noteq> ''null'' \<and> IsIdentStart (hd s) \<and> list_all IsIdentPart (tl s)"

definition IsIdentifierSafe :: "string \<Rightarrow> bool" where
  "IsIdentifierSafe s = IsIdentifierSafeEntryName s"

definition LexesAsBareMapKey :: "ranges \<Rightarrow> string \<Rightarrow> bool" where
  "LexesAsBareMapKey ranges s =
     (case Next ranges (new_lexer s) of
        (t, L) \<Rightarrow> tk_kind t \<in> set [kIdent, kInt, kBool] \<and> tk_value t = s \<and> tk_kind (fst (Next ranges L)) = kEOF)"

definition MapKeyQuoted :: "ranges \<Rightarrow> string \<Rightarrow> bool \<Rightarrow> bool" where
  "MapKeyQuoted ranges key key_quoted = (if key_quoted then \<not> IsIdentifierSafe key else \<not> LexesAsBareMapKey ranges key)"

definition WriteQuotedString :: "ranges \<Rightarrow> string \<Rightarrow> string" where
  "WriteQuotedString ranges s = GoQuote ranges s"

text \<open>A key in quotes or as it is.\<close>

definition write_key :: "ranges \<Rightarrow> bool \<Rightarrow> string \<Rightarrow> string" where
  "write_key ranges q key = (if q then WriteQuotedString ranges key else key)"

section \<open>Entries and values\<close>

definition WriteIndent :: "string \<Rightarrow> nat \<Rightarrow> string" where
  "WriteIndent indent level = concat (replicate level indent)"

definition WriteComments :: "string \<Rightarrow> Comment list \<Rightarrow> nat \<Rightarrow> string" where
  "WriteComments indent comments level = concat (map (\<lambda>c. WriteIndent indent level @ cm_text c @ [CHR 0x0A]) comments)"

definition write_trailing :: "string \<Rightarrow> string" where
  "write_trailing comment = (if comment \<noteq> [] then CHR '' '' # comment else [])"

definition FormatNumber :: "string \<Rightarrow> string \<Rightarrow> string" where
  "FormatNumber raw prec = raw @ (if prec \<noteq> [] then CHR ''p'' # prec else [])"

fun Formatter_FormatValue :: "ranges \<Rightarrow> string \<Rightarrow> nat \<Rightarrow> Value \<Rightarrow> string"
and Formatter_elements :: "ranges \<Rightarrow> string \<Rightarrow> nat \<Rightarrow> Value list \<Rightarrow> string"
and Formatter_FormatEntry :: "ranges \<Rightarrow> string \<Rightarrow> nat \<Rightarrow> Entry \<Rightarrow> string"
and Formatter_FormatEntries :: "ranges \<Rightarrow> string \<Rightarrow> nat \<Rightarrow> Entry list \<Rightarrow> string" where
  "Formatter_FormatValue ranges indent level (StringVal p e s) = WriteQuotedString ranges s"
| "Formatter_FormatValue ranges indent level (IntVal p e raw prec) = FormatNumber raw prec"
| "Formatter_FormatValue ranges indent level (FloatVal p e raw prec) = FormatNumber raw prec"
| "Formatter_FormatValue ranges indent level (BoolVal p e b) = (if b then ''true'' else ''false'')"
| "Formatter_FormatValue ranges indent level (BytesVal p e bs) = [CHR ''b'', CHR 0x22] @ Base64EncodeStd bs @ [CHR 0x22]"
| "Formatter_FormatValue ranges indent level (NullVal p e) = ''null''"
| "Formatter_FormatValue ranges indent level (BadVal p e) = []"
| "Formatter_FormatValue ranges indent level (IdentVal p e name) = name"
| "Formatter_FormatValue ranges indent level (TimestampVal p e seconds nanos raw) = raw"
| "Formatter_FormatValue ranges indent level (DurationVal p e seconds nanos raw) = raw"
| "Formatter_FormatValue ranges indent level (ListVal p e elements) =
     ''['' @ [CHR 0x0A] @ Formatter_elements ranges indent level elements @ WriteIndent indent level @ '']''"
| "Formatter_FormatValue ranges indent level (BlockVal p e entries trailing) =
     ''{'' @ [CHR 0x0A] @ Formatter_FormatEntries ranges indent (level + 1) entries @ WriteComments indent trailing (level + 1) @
     WriteIndent indent level @ ''}''"
| "Formatter_elements ranges indent level [] = []"
| "Formatter_elements ranges indent level (v # vs) =
     WriteIndent indent (level + 1) @ Formatter_FormatValue ranges indent (level + 1) v @ (if vs \<noteq> [] then '','' else []) @ [CHR 0x0A] @
     Formatter_elements ranges indent level vs"
| "Formatter_FormatEntry ranges indent level (Assignment p e key q v leading trailing) =
     WriteComments indent leading level @ WriteIndent indent level @ write_key ranges q key @ '' = '' @
     Formatter_FormatValue ranges indent level v @ write_trailing trailing @ [CHR 0x0A]"
| "Formatter_FormatEntry ranges indent level (MapEntry p e key q v leading trailing) =
     WriteComments indent leading level @ WriteIndent indent level @ write_key ranges (MapKeyQuoted ranges key q) key @ '': '' @
     Formatter_FormatValue ranges indent level v @ write_trailing trailing @ [CHR 0x0A]"
| "Formatter_FormatEntry ranges indent level (TypeEntry p e url leading trailing) =
     WriteComments indent leading level @ WriteIndent indent level @ ''@type = '' @ WriteQuotedString ranges url @
     write_trailing trailing @ [CHR 0x0A]"
| "Formatter_FormatEntry ranges indent level (Block p e name q entries leading trailing) =
     WriteComments indent leading level @ WriteIndent indent level @ write_key ranges q name @ '' {'' @ [CHR 0x0A] @
     Formatter_FormatEntries ranges indent (level + 1) entries @ WriteComments indent trailing (level + 1) @
     WriteIndent indent level @ ''}'' @ [CHR 0x0A]"
| "Formatter_FormatEntries ranges indent level [] = []"
| "Formatter_FormatEntries ranges indent level (x # xs) =
     Formatter_FormatEntry ranges indent level x @ Formatter_FormatEntries ranges indent level xs"

definition AppendValueIndented :: "ranges \<Rightarrow> string \<Rightarrow> Value \<Rightarrow> string \<Rightarrow> string" where
  "AppendValueIndented ranges out v indent = out @ Formatter_FormatValue ranges indent 0 v"

definition AppendEntryIndented :: "ranges \<Rightarrow> string \<Rightarrow> Entry \<Rightarrow> string \<Rightarrow> string" where
  "AppendEntryIndented ranges out entry indent = out @ Formatter_FormatEntry ranges indent 0 entry"

definition kIndent :: string where
  "kIndent = ''  ''"

definition AppendValue :: "ranges \<Rightarrow> string \<Rightarrow> Value \<Rightarrow> string" where
  "AppendValue ranges out v = out @ Formatter_FormatValue ranges kIndent 0 v"

definition FormatValue :: "ranges \<Rightarrow> Value \<Rightarrow> string" where
  "FormatValue ranges v = AppendValue ranges [] v"

section \<open>Directives\<close>

datatype TopDirective = TopNamed Directive | TopDataset DatasetDirective | TopProto ProtoDirective

primrec top_offset :: "TopDirective \<Rightarrow> nat" where
  "top_offset (TopNamed d) = pos_offset (dir_pos d)"
| "top_offset (TopDataset d) = pos_offset (ds_pos d)"
| "top_offset (TopProto d) = pos_offset (pd_pos d)"

primrec top_leading :: "TopDirective \<Rightarrow> Comment list" where
  "top_leading (TopNamed d) = dir_leading d"
| "top_leading (TopDataset d) = ds_leading d"
| "top_leading (TopProto d) = pd_leading d"

definition TopDirectives :: "Document \<Rightarrow> TopDirective list" where
  "TopDirectives doc =
     sort_key top_offset (map TopNamed (doc_directives doc) @ map TopDataset (doc_datasets doc) @ map TopProto (doc_protos doc))"

definition FormatNamedDirective :: "Directive \<Rightarrow> string" where
  "FormatNamedDirective d =
     ''@'' @ dir_name d @ concat (map (\<lambda>p. '' '' @ p) (dir_prefixes d)) @ (if dir_has_body d then '' {'' @ dir_body d @ ''}'' else []) @ [CHR 0x0A]"

fun join_comma :: "string list \<Rightarrow> string" where
  "join_comma [] = []"
| "join_comma [s] = s"
| "join_comma (s # ss) = s @ '', '' @ join_comma ss"

definition format_cell :: "ranges \<Rightarrow> Value option \<Rightarrow> string" where
  "format_cell ranges cell = (case cell of None \<Rightarrow> [] | Some v \<Rightarrow> Formatter_FormatValue ranges kIndent 0 v)"

definition format_row :: "ranges \<Rightarrow> DatasetRow \<Rightarrow> string" where
  "format_row ranges row =
     WriteComments kIndent (row_leading row) 0 @ ''('' @ join_comma (map (format_cell ranges) (row_cells row)) @ '')'' @ [CHR 0x0A]"

definition FormatDataset :: "ranges \<Rightarrow> DatasetDirective \<Rightarrow> string" where
  "FormatDataset ranges d =
     ''@dataset'' @ (if ds_type d \<noteq> [] then '' '' @ ds_type d else []) @ '' ('' @ join_comma (ds_columns d) @ '')'' @ [CHR 0x0A] @
     concat (map (format_row ranges) (ds_rows d))"

definition FormatProto :: "ProtoDirective \<Rightarrow> string" where
  "FormatProto d =
     ''@proto'' @
     (case pd_shape d of
        kAnonymous \<Rightarrow> '' {'' @ pd_body d @ ''}''
      | kNamed \<Rightarrow> '' '' @ pd_type_name d @ '' {'' @ pd_body d @ ''}''
      | kSource \<Rightarrow> '' '' @ [CHR 0x22, CHR 0x22, CHR 0x22] @ pd_body d @ [CHR 0x22, CHR 0x22, CHR 0x22]
      | kDescriptor \<Rightarrow> '' b'' @ [CHR 0x22] @ Base64EncodeStd (bytes_of (pd_body d)) @ [CHR 0x22]) @ [CHR 0x0A]"

definition format_top :: "ranges \<Rightarrow> TopDirective \<Rightarrow> string" where
  "format_top ranges td =
     WriteComments kIndent (top_leading td) 0 @
     (case td of TopNamed d \<Rightarrow> FormatNamedDirective d | TopDataset d \<Rightarrow> FormatDataset ranges d | TopProto d \<Rightarrow> FormatProto d)"

definition FormatDocument :: "ranges \<Rightarrow> Document \<Rightarrow> string" where
  "FormatDocument ranges doc =
     (if TopDirectives doc = [] then
        (if doc_type_url doc \<noteq> [] then ''@type '' @ doc_type_url doc @ [CHR 0x0A, CHR 0x0A] else []) @
        WriteComments kIndent (doc_leading doc) 0 @ Formatter_FormatEntries ranges kIndent 0 (doc_entries doc) @
        WriteComments kIndent (doc_trailing doc) 0
      else
        (if doc_type_url doc \<noteq> [] then ''@type '' @ doc_type_url doc @ [CHR 0x0A] else []) @
        WriteComments kIndent (doc_leading doc) 0 @ concat (map (format_top ranges) (TopDirectives doc)) @
        (if doc_entries doc \<noteq> [] then [CHR 0x0A] @ Formatter_FormatEntries ranges kIndent 0 (doc_entries doc) else []) @
        WriteComments kIndent (doc_trailing doc) 0)"

end
