(* ===== verification/PxfReads.thy ===== *)
theory PxfReads
  imports PxfString PxfFormat
begin

text \<open>
  What the lexer reads of a given text. Its loops are rewritten as moves over the text in front of it, and for the text
  of every kind of token there is a lemma that says which token \<open>Next\<close> makes of it and where it stops. The shapes of
  numbers, durations, timestamps and comments are stated on their text.
\<close>

section \<open>Moves over the text in front\<close>

definition adv :: "nat \<Rightarrow> Lexer \<Rightarrow> Lexer" where
  "adv n L = (Advance ^^ n) L"

lemma adv_0 [simp]: "adv 0 L = L"
  by (simp add: adv_def)

lemma at_end_front: "at_end L \<longleftrightarrow> front L = []"
  by (simp add: at_end_def front_def)

lemma front_Advance [simp]: "front (Advance L) = drop 1 (front L)"
  by (auto simp: Advance_def front_def at_end_def)

lemma Advance_fixed [simp]:
  "lx_input (Advance L) = lx_input L" "lx_errors (Advance L) = lx_errors L" "lx_max_bytes (Advance L) = lx_max_bytes L"
  "lx_start (Advance L) = lx_start L" "lx_pos (Advance L) = (if front L = [] then lx_pos L else Suc (lx_pos L))"
  by (auto simp: Advance_def at_end_front)

lemma adv_Suc: "adv (Suc n) L = adv n (Advance L)"
  by (simp add: adv_def funpow_Suc_right del: funpow.simps)

lemma Advance_adv: "Advance L = adv 1 L"
  by (simp add: adv_def)

lemma adv_adv [simp]: "adv m (adv n L) = adv (n + m) L"
  by (simp add: adv_def funpow_add [symmetric, unfolded o_def, THEN fun_cong] add.commute)

lemma front_adv [simp]: "front (adv n L) = drop n (front L)"
  by (induction n arbitrary: L) (simp_all add: adv_Suc drop_Suc tl_drop)

lemma adv_fixed [simp]:
  "lx_input (adv n L) = lx_input L" "lx_errors (adv n L) = lx_errors L" "lx_max_bytes (adv n L) = lx_max_bytes L"
  "lx_start (adv n L) = lx_start L"
  by (induction n arbitrary: L) (simp_all add: adv_Suc)

lemma lx_pos_adv [simp]: "n \<le> length (front L) \<Longrightarrow> lx_pos (adv n L) = lx_pos L + n"
  by (induction n arbitrary: L) (auto simp: adv_Suc)

lemma Tolerant_adv [simp]: "Tolerant (adv n L) = Tolerant L"
  by (simp add: Tolerant_def)

lemma Peek_front: "Peek k L = (if k < length (front L) then front L ! k else CHR 0x00)"
  by (auto simp: Peek_def front_def)

lemma substr_front: "substr (lx_input L) (lx_pos L) n = take n (front L)"
  by (simp add: substr_def front_def)

lemma skip_while_adv: "skip_while P L = adv (length (takeWhile P (front L))) L"
proof (induction P L rule: skip_while.induct)
  case (1 P L)
  show ?case
  proof (cases "front L")
    case (Cons c s)
    then show ?thesis using 1 by (subst skip_while.simps) (simp add: at_end_front Peek_front adv_Suc)
  qed (subst skip_while.simps, simp add: at_end_front)
qed

lemma takeWhile_stop [simp]: "list_all P xs \<Longrightarrow> \<not> P d \<Longrightarrow> takeWhile P (xs @ d # r) = xs"
  by (induction xs) auto

lemma SkipSpaces_adv: "SkipSpaces L = adv (length (takeWhile (\<lambda>c. c = CHR '' '' \<or> c = CHR 0x09 \<or> c = CHR 0x0D) (front L))) L"
  by (simp add: SkipSpaces_def skip_while_adv)

definition blank :: "char \<Rightarrow> bool" where
  "blank c \<longleftrightarrow> c = CHR '' '' \<or> c = CHR 0x09 \<or> c = CHR 0x0D"

lemma SkipSpaces_here: "front L = c # s \<Longrightarrow> \<not> blank c \<Longrightarrow> SkipSpaces L = L"
  by (auto simp: SkipSpaces_adv blank_def)

lemma Next_blank: "front L = c # s \<Longrightarrow> blank c \<Longrightarrow> Next ranges L = Next ranges (adv 1 L)"
  by (simp add: Next_def SkipSpaces_adv blank_def)

section \<open>Punctuation, newlines and comments\<close>

lemma Next_newline: "front L = CHR 0x0A # s \<Longrightarrow> Next ranges L = (mk_token kNewline [] (CurrentPos L), adv 1 L)"
  by (simp add: Next_def SkipSpaces_here blank_def at_end_front Peek_front Advance_adv)

lemma punctuation_cases:
  "punctuation c = Some k \<Longrightarrow> c \<in> {CHR ''{'', CHR ''}'', CHR ''['', CHR '']'', CHR ''('', CHR '')'', CHR ''='', CHR '':'', CHR '',''}"
  by (auto simp: punctuation_def split: if_splits)

lemma Next_punctuation:
  assumes "front L = c # s" "punctuation c = Some k"
  shows "Next ranges L = (mk_token k [c] (CurrentPos L), adv 1 L)"
proof -
  have "\<not> blank c" using punctuation_cases [OF assms(2)] by (auto simp: blank_def)
  with assms punctuation_cases [OF assms(2)] show ?thesis
    by (auto simp: Next_def SkipSpaces_here at_end_front Peek_front Advance_adv)
qed

text \<open>The text of a comment: a line, or a block up to its first end.\<close>

fun closes :: "string \<Rightarrow> bool" where
  "closes (a # b # s) = (if a = CHR ''*'' \<and> b = CHR ''/'' then s = [] else closes (b # s))"
| "closes _ = False"

definition line_comment :: "string \<Rightarrow> bool" where
  "line_comment s \<longleftrightarrow> (take 1 s = ''#'' \<or> take 2 s = ''//'') \<and> list_all (\<lambda>c. c \<noteq> CHR 0x0A) s"

definition block_comment :: "string \<Rightarrow> bool" where
  "block_comment s \<longleftrightarrow> take 2 s = ''/*'' \<and> closes (drop 2 s)"

definition comment_text :: "string \<Rightarrow> bool" where
  "comment_text s \<longleftrightarrow> line_comment s \<or> block_comment s"

lemma scan_for_closes:
  "closes s \<Longrightarrow> front L = s @ r \<Longrightarrow> scan_for ''*/'' L = (True, adv (length s - 2) L)"
proof (induction s arbitrary: L rule: closes.induct)
  case (1 a b s)
  have len: "length (lx_input L) = lx_pos L + length (front L)" using front_length [of L] 1(3) by simp
  show ?case
  proof (cases "a = CHR ''*'' \<and> b = CHR ''/''")
    case True
    then show ?thesis using 1(2,3) len by (subst scan_for.simps) (simp add: at_end_front substr_front)
  next
    case False
    have "scan_for ''*/'' (adv 1 L) = (True, adv (length (b # s) - 2) (adv 1 L))" using 1(1) [OF False] 1(2,3) False by simp
    moreover have "Suc (length s) - 2 + 1 = length s" using 1(2) False by (cases s) auto
    ultimately show ?thesis using False 1(3) len
      by (subst scan_for.simps) (auto simp: at_end_front substr_front Advance_adv)
  qed
qed auto

lemma Next_comment:
  assumes f: "front L = s @ CHR 0x0A # r" and s: "comment_text s" and strict: "lx_errors L = None"
  shows "Next ranges L = (mk_token kComment s (CurrentPos L), adv (length s) L)"
proof (cases "line_comment s")
  case True
  then have w: "takeWhile (\<lambda>c. c \<noteq> CHR 0x0A) (front L) = s" unfolding f by (simp add: line_comment_def)
  have c: "LexLineComment (CurrentPos L) L = (mk_token kComment s (CurrentPos L), adv (length s) L)"
    using f by (simp add: LexLineComment_def skip_while_adv w [unfolded f] Let_def substr_front)
  consider t where "s = CHR ''#'' # t" | t where "s = CHR ''/'' # CHR ''/'' # t"
    using True by (cases s; cases "tl s") (auto simp: line_comment_def)
  then show ?thesis
    using c f by cases (simp_all add: Next_def SkipSpaces_here blank_def at_end_front Peek_front)
next
  case False
  with s have b: "take 2 s = ''/*''" "closes (drop 2 s)" by (auto simp: comment_text_def block_comment_def)
  have "s = take 2 s @ drop 2 s" by simp
  with b obtain t where t: "s = CHR ''/'' # CHR ''*'' # t" "closes t" by (metis append_Cons append_Nil)
  have "2 \<le> length t" using t(2) by (cases t rule: closes.cases) auto
  then obtain k where k: "length t = k + 2" by (metis add.commute le_Suc_ex)
  moreover have "scan_for ''*/'' (adv 2 L) = (True, adv k (adv 2 L))"
    using scan_for_closes [of t "adv 2 L"] f t k by simp
  ultimately have "LexBlockComment (CurrentPos L) L = (mk_token kComment s (CurrentPos L), adv (length s) L)"
    using f t(1) by (simp add: LexBlockComment_def Advance_adv substr_front Let_def numeral_eq_Suc)
  then show ?thesis using f t(1) by (simp add: Next_def SkipSpaces_here blank_def at_end_front Peek_front)
qed

section \<open>Words\<close>

text \<open>The bytes that follow a value or a key in a formatted document.\<close>

definition stop :: "char \<Rightarrow> bool" where
  "stop d \<longleftrightarrow> d \<in> {CHR 0x0A, CHR '' '', CHR '','', CHR '')'', CHR '':''}"

definition word_text :: "string \<Rightarrow> bool" where
  "word_text s \<longleftrightarrow> s \<noteq> [] \<and> IsIdentStart (hd s) \<and> list_all IsIdentPart (tl s)"

definition word_kind :: "string \<Rightarrow> TokenKind" where
  "word_kind s = (if s = ''true'' \<or> s = ''false'' then kBool else if s = ''null'' then kNull else kIdent)"

lemma IsIdentPart_not: "\<not> IsIdentPart (CHR 0x22)" "stop d \<Longrightarrow> \<not> IsIdentPart d"
proof -
  have "list_all (\<lambda>d. \<not> IsIdentPart d) [CHR 0x22, CHR 0x0A, CHR '' '', CHR '','', CHR '')'', CHR '':'']" by code_simp
  then show "\<not> IsIdentPart (CHR 0x22)" "stop d \<Longrightarrow> \<not> IsIdentPart d" by (auto simp: stop_def)
qed

lemma IsIdentStart_not:
  assumes "IsIdentStart c"
  shows "\<not> blank c" "c \<noteq> CHR 0x0A" "c \<noteq> CHR ''#''" "c \<noteq> CHR ''/''" "c \<noteq> CHR 0x22" "punctuation c = None" "c \<noteq> CHR 0x40"
    "c \<noteq> CHR ''-''" "c \<noteq> CHR ''+''" "\<not> IsDigit c"
proof -
  have l: "list_all (\<lambda>d. \<not> IsIdentStart d) [CHR '' '', CHR 0x09, CHR 0x0D, CHR 0x0A, CHR ''#'', CHR ''/'', CHR 0x22, CHR 0x40, CHR ''-'', CHR ''+'',
    CHR ''{'', CHR ''}'', CHR ''['', CHR '']'', CHR ''('', CHR '')'', CHR ''='', CHR '':'', CHR '','']" by code_simp
  then show "\<not> blank c" "c \<noteq> CHR 0x0A" "c \<noteq> CHR ''#''" "c \<noteq> CHR ''/''" "c \<noteq> CHR 0x22" "c \<noteq> CHR 0x40" "c \<noteq> CHR ''-''" "c \<noteq> CHR ''+''"
    using assms by (auto simp: blank_def)
  show "punctuation c = None"
    using assms l punctuation_cases [of c] by (cases "punctuation c") auto
  show "\<not> IsDigit c" using assms by (auto simp: IsIdentStart_def IsDigit_def)
qed

lemma Next_word_ends:
  assumes f: "front L = s @ r" and s: "word_text s" and d: "r = [] \<or> stop (hd r)"
  shows "Next ranges L = (\<lparr>tk_kind = word_kind s, tk_value = s, tk_pos = CurrentPos L, tk_prec = []\<rparr>, adv (length s) L)"
proof -
  obtain c t where c: "s = c # t" "IsIdentStart c" "list_all IsIdentPart t" using s by (cases s) (auto simp: word_text_def)
  note n = IsIdentStart_not [OF c(2)]
  have a: "list_all IsIdentPart s" using c by (simp add: IsIdentPart_def)
  have "takeWhile IsIdentPart (front L) = s"
  proof (cases r)
    case Nil
    with a f show ?thesis by (simp add: list_all_iff)
  next
    case (Cons d q)
    with d have "\<not> IsIdentPart d" using IsIdentPart_not(2) by simp
    with a f Cons show ?thesis by simp
  qed
  then have "LexIdent (CurrentPos L) L = (\<lparr>tk_kind = word_kind s, tk_value = s, tk_pos = CurrentPos L, tk_prec = []\<rparr>, adv (length s) L)"
    using f by (simp add: LexIdent_def skip_while_adv substr_front word_kind_def mk_token_def Let_def)
  moreover have "Peek 1 L \<noteq> CHR 0x22"
    using f c(1,3) d IsIdentPart_not(1) by (cases t; cases r) (auto simp: Peek_front stop_def)
  ultimately show ?thesis
    using f c(1) n c(2) by (simp add: Next_def SkipSpaces_here at_end_front Peek_front)
qed

lemma Next_word:
  "front L = s @ d # r \<Longrightarrow> word_text s \<Longrightarrow> stop d \<Longrightarrow>
    Next ranges L = (\<lparr>tk_kind = word_kind s, tk_value = s, tk_pos = CurrentPos L, tk_prec = []\<rparr>, adv (length s) L)"
  using Next_word_ends [of L s "d # r"] by simp

section \<open>Numbers\<close>

text \<open>A lexer moved to where a given suffix of its text is in front.\<close>

definition moved_to :: "Lexer \<Rightarrow> string \<Rightarrow> Lexer" where
  "moved_to L s = adv (length (front L) - length s) L"

lemma front_moved [simp]: "suffix s (front L) \<Longrightarrow> front (moved_to L s) = s"
  by (auto simp: moved_to_def suffix_def)

lemma moved_moved [simp]: "suffix s' s \<Longrightarrow> suffix s (front L) \<Longrightarrow> moved_to (moved_to L s) s' = moved_to L s'"
  by (auto simp: moved_to_def suffix_def)

lemma moved_here [simp]: "front L = s \<Longrightarrow> moved_to L s = L"
  by (simp add: moved_to_def)

lemma lx_pos_moved: "lx_pos (moved_to L s) = lx_pos L + (length (front L) - length s)"
  by (simp add: moved_to_def)

lemma skip_moved: "skip_while P L = moved_to L (dropWhile P (front L))"
proof -
  have "length (takeWhile P (front L)) + length (dropWhile P (front L)) = length (front L)"
    by (metis length_append takeWhile_dropWhile_id)
  then have "length (takeWhile P (front L)) = length (front L) - length (dropWhile P (front L))" by simp
  then show ?thesis by (simp add: skip_while_adv moved_to_def)
qed

lemma Advance_moved: "front L = c # s \<Longrightarrow> Advance L = moved_to L s"
  by (simp add: moved_to_def Advance_adv)

lemma dropWhile_local: "\<not> P d \<Longrightarrow> dropWhile P (s @ d # r) = dropWhile P s @ d # r"
  by (induction s) auto

abbreviation drop_digits :: "string \<Rightarrow> string" where
  "drop_digits \<equiv> dropWhile IsDigit"

text \<open>What \<open>LexFloat\<close> leaves of the text in front of it.\<close>

definition exponent_rest :: "string \<Rightarrow> string" where
  "exponent_rest s =
     (if s \<noteq> [] \<and> (hd s = CHR ''e'' \<or> hd s = CHR ''E'') then
        drop_digits (if tl s \<noteq> [] \<and> (hd (tl s) = CHR ''+'' \<or> hd (tl s) = CHR ''-'') then tl (tl s) else tl s)
      else s)"

definition point_rest :: "string \<Rightarrow> string" where
  "point_rest s = (if s \<noteq> [] \<and> hd s = CHR ''.'' then drop_digits (tl s) else s)"

definition fraction :: "string \<Rightarrow> bool" where
  "fraction s \<longleftrightarrow> s \<noteq> [] \<and> hd s = CHR ''.'' \<and> tl s \<noteq> [] \<and> IsDigit (hd (tl s))"

definition fraction_rest :: "string \<Rightarrow> string" where
  "fraction_rest s = (if fraction s then drop_digits (tl s) else s)"

lemma fraction_Nil [simp]: "\<not> fraction []"
  by (simp add: fraction_def)

lemma suffix_tl: "suffix s t \<Longrightarrow> suffix (tl s) t"
  by (cases s) (auto simp: suffix_def)

lemma rest_suffix [simp]:
  "suffix (exponent_rest s) s" "suffix (point_rest s) s" "suffix (fraction_rest s) s" "suffix (drop_digits s) s"
proof -
  have d: "suffix (drop_digits t) t" for t by (rule suffix_dropWhile)
  then show "suffix (drop_digits s) s" .
  have t: "suffix (drop_digits t) s" if "suffix t s" for t using that d suffix_order.trans by blast
  show "suffix (exponent_rest s) s" "suffix (point_rest s) s" "suffix (fraction_rest s) s"
    unfolding exponent_rest_def point_rest_def fraction_rest_def by (auto intro!: t suffix_tl)
qed

lemma LexFloat_moved:
  "LexFloat p start L = number_token kFloat p start (moved_to L (exponent_rest (point_rest (front L))))"
proof -
  let ?M = "moved_to L (point_rest (front L))"
  have "(if Peek 0 L = CHR ''.'' then skip_while IsDigit (Advance L) else L) = ?M"
    by (cases "front L") (auto simp: Peek_front point_rest_def skip_moved Advance_moved suffix_dropWhile suffix_Cons)
  moreover have "(if \<not> at_end M \<and> (Peek 0 M = CHR ''e'' \<or> Peek 0 M = CHR ''E'') then
        let La = Advance M; Lb = (if \<not> at_end La \<and> (Peek 0 La = CHR ''+'' \<or> Peek 0 La = CHR ''-'') then Advance La else La)
        in skip_while IsDigit Lb
      else M) = moved_to M (exponent_rest (front M))" for M
    by (cases "front M"; cases "tl (front M)")
      (auto simp: Peek_front at_end_front exponent_rest_def skip_moved Advance_moved Let_def suffix_dropWhile suffix_Cons)
  ultimately show ?thesis by (simp add: LexFloat_def Let_def)
qed

text \<open>The bytes that end a number, and the shapes of the text of numbers.\<close>

definition num_stop :: "char \<Rightarrow> bool" where
  "num_stop z \<longleftrightarrow> stop z \<or> z = CHR ''p''"

lemma num_stop_not:
  assumes "num_stop z"
  shows "\<not> IsDigit z" "z \<noteq> CHR ''.''" "z \<noteq> CHR ''e''" "z \<noteq> CHR ''E''" "z \<noteq> CHR ''+''" "z \<noteq> CHR ''-''" "\<not> IsDurationUnit z" "z \<noteq> CHR 0xC2"
proof -
  have "list_all (\<lambda>z. \<not> IsDigit z \<and> \<not> IsDurationUnit z) [CHR 0x0A, CHR '' '', CHR '','', CHR '')'', CHR '':'', CHR ''p'']" by code_simp
  with assms show "\<not> IsDigit z" "\<not> IsDurationUnit z" by (auto simp: num_stop_def stop_def)
  show "z \<noteq> CHR ''.''" "z \<noteq> CHR ''e''" "z \<noteq> CHR ''E''" "z \<noteq> CHR ''+''" "z \<noteq> CHR ''-''" "z \<noteq> CHR 0xC2"
    using assms by (auto simp: num_stop_def stop_def)
qed

lemma rest_local:
  assumes "num_stop z"
  shows "exponent_rest (s @ z # r) = exponent_rest s @ z # r" "point_rest (s @ z # r) = point_rest s @ z # r"
    "fraction (s @ z # r) = fraction s" "fraction_rest (s @ z # r) = fraction_rest s @ z # r"
    "drop_digits (s @ z # r) = drop_digits s @ z # r"
proof -
  note n = num_stop_not [OF assms]
  show d: "drop_digits (s @ z # r) = drop_digits s @ z # r" for s using n(1) by (rule dropWhile_local)
  show "exponent_rest (s @ z # r) = exponent_rest s @ z # r"
    using n by (cases s; cases "tl s") (auto simp: exponent_rest_def d dropWhile_local)
  show "point_rest (s @ z # r) = point_rest s @ z # r"
    using n by (cases s) (auto simp: point_rest_def d)
  show f: "fraction (s @ z # r) = fraction s"
    using n by (cases s; cases "tl s") (auto simp: fraction_def)
  show "fraction_rest (s @ z # r) = fraction_rest s @ z # r"
    using n f by (cases "s = []") (auto simp: fraction_rest_def d fraction_def [of "z # r"] fraction_def [of "[]"])
qed

definition unsigned_part :: "string \<Rightarrow> string" where
  "unsigned_part raw = (if raw \<noteq> [] \<and> hd raw = CHR ''-'' then tl raw else raw)"

definition int_text :: "string \<Rightarrow> bool" where
  "int_text raw \<longleftrightarrow> unsigned_part raw \<noteq> [] \<and> list_all IsDigit (unsigned_part raw)"

definition digit_first :: "string \<Rightarrow> bool" where
  "digit_first b \<longleftrightarrow> b \<noteq> [] \<and> IsDigit (hd b)"

definition float_text :: "string \<Rightarrow> bool" where
  "float_text raw \<longleftrightarrow>
     (let b = unsigned_part raw
      in digit_first b \<and> drop_digits b \<noteq> [] \<and> exponent_rest (point_rest (fraction_rest (drop_digits b))) = [])"

definition prec_text :: "string \<Rightarrow> string" where
  "prec_text prec = (if prec \<noteq> [] then CHR ''p'' # prec else [])"

lemma number_token_reads:
  assumes f: "front L = v @ prec_text prec @ d # r" and prec: "list_all IsDigit prec" and d: "stop d"
  shows "number_token k p (lx_pos L) (adv (length v) L) =
    (\<lparr>tk_kind = k, tk_value = v, tk_pos = p, tk_prec = prec\<rparr>, adv (length v + length (prec_text prec)) L)"
proof -
  let ?M = "adv (length v) L"
  have fm: "front ?M = prec_text prec @ d # r" using f by simp
  have nd: "\<not> IsDigit d" "d \<noteq> CHR ''p''" using num_stop_not(1) [of d] d by (auto simp: num_stop_def stop_def)
  have "LexPrecision ?M = (prec, adv (length (prec_text prec)) ?M)"
  proof (cases prec)
    case Nil
    then show ?thesis using fm nd by (simp add: LexPrecision_def Peek_front prec_text_def)
  next
    case (Cons a q)
    then have w: "takeWhile IsDigit (q @ d # r) = q" using prec nd by (intro takeWhile_stop) auto
    have "substr (lx_input L) (lx_pos (adv (Suc (length v)) L)) n = take n (prec @ d # r)" for n
      using substr_front [of "adv (Suc (length v)) L" n] f Cons by (simp add: prec_text_def)
    with Cons prec fm f show ?thesis
      by (simp add: LexPrecision_def Peek_front prec_text_def Advance_adv skip_while_adv w Let_def)
  qed
  moreover have "substr (lx_input L) (lx_pos L) (lx_pos ?M - lx_pos L) = v" using f by (simp add: substr_front)
  ultimately show ?thesis by (simp add: number_token_def)
qed

text \<open>Digits, and what may follow them.\<close>

lemma digits_then:
  assumes f: "front L = b @ z # r" and z: "num_stop z"
  defines "b1 \<equiv> drop_digits b"
  shows "skip_while IsDigit L = moved_to L (b1 @ z # r)" "Peek 0 (moved_to L (b1 @ z # r)) = hd (b1 @ [z])"
    "(Peek 0 (moved_to L (b1 @ z # r)) = CHR ''.'' \<and> IsDigit (Peek 1 (moved_to L (b1 @ z # r)))) = fraction b1"
    "fraction b1 \<Longrightarrow> skip_while IsDigit (Advance (moved_to L (b1 @ z # r))) = moved_to L (fraction_rest b1 @ z # r)"
proof -
  have sfx: "suffix (b1 @ z # r) (b @ z # r)" unfolding b1_def using suffix_dropWhile by (auto simp: suffix_def)
  show "skip_while IsDigit L = moved_to L (b1 @ z # r)" using f rest_local(5) [OF z] by (simp add: skip_moved b1_def)
  have fr: "front (moved_to L (b1 @ z # r)) = b1 @ z # r" using f sfx by simp
  then show "Peek 0 (moved_to L (b1 @ z # r)) = hd (b1 @ [z])" by (cases b1) (simp_all add: Peek_front)
  show "(Peek 0 (moved_to L (b1 @ z # r)) = CHR ''.'' \<and> IsDigit (Peek 1 (moved_to L (b1 @ z # r)))) = fraction b1"
    using fr num_stop_not [OF z] by (cases b1; cases "tl b1") (auto simp: Peek_front fraction_def)
  assume fb: "fraction b1"
  then obtain t where t: "b1 = CHR ''.'' # t" by (cases b1) (auto simp: fraction_def)
  have st: "suffix (t @ z # r) (b @ z # r)" using sfx t by (auto simp: suffix_def)
  have "Advance (moved_to L (b1 @ z # r)) = moved_to (moved_to L (b1 @ z # r)) (t @ z # r)" using fr t by (intro Advance_moved) simp
  also have "\<dots> = moved_to L (t @ z # r)" using sfx f t by (intro moved_moved) (auto simp: suffix_def)
  finally have a: "Advance (moved_to L (b1 @ z # r)) = moved_to L (t @ z # r)" .
  have "skip_while IsDigit (moved_to L (t @ z # r)) = moved_to (moved_to L (t @ z # r)) (drop_digits t @ z # r)"
    using st f rest_local(5) [OF z] by (simp add: skip_moved)
  also have "\<dots> = moved_to L (drop_digits t @ z # r)" using st f by (intro moved_moved) simp_all
  finally show "skip_while IsDigit (Advance (moved_to L (b1 @ z # r))) = moved_to L (fraction_rest b1 @ z # r)"
    using a fb t by (simp add: fraction_rest_def)
qed

lemma LexNumber_digits_reads:
  assumes f: "front L = b @ z # r" and z: "num_stop z"
  defines "b1 \<equiv> drop_digits b" and "b2 \<equiv> fraction_rest (drop_digits b)"
  assumes ts: "neg \<or> length b - length b1 \<noteq> 4 \<or> b1 = [] \<or> hd b1 \<noteq> CHR ''-''"
  shows "LexNumber_digits p start neg L =
    (if AtDurationUnit (moved_to L (b2 @ z # r)) then LexDuration p start (moved_to L (b2 @ z # r))
     else if b1 \<noteq> [] \<and> (fraction b1 \<or> hd b1 = CHR ''.'' \<or> hd b1 = CHR ''e'' \<or> hd b1 = CHR ''E'') then LexFloat p start (moved_to L (b2 @ z # r))
     else number_token kInt p start (moved_to L (b2 @ z # r)))"
proof -
  note d = digits_then [OF f z, folded b1_def]
  have len: "lx_pos (skip_while IsDigit L) - lx_pos L = length b - length b1" unfolding d(1) using f by (simp add: lx_pos_moved)
  have fr: "front (moved_to L (b1 @ z # r)) = b1 @ z # r"
    using f suffix_dropWhile [of IsDigit b] by (intro front_moved) (auto simp: b1_def suffix_def)
  have nt: "\<not> (\<not> neg \<and> lx_pos (skip_while IsDigit L) - lx_pos L = 4 \<and> \<not> at_end (skip_while IsDigit L) \<and> Peek 0 (skip_while IsDigit L) = CHR ''-'')"
    using ts d(2) num_stop_not(6) [OF z] len [unfolded d(1)] unfolding len unfolding d(1) by (cases b1) auto
  have pt: "(\<not> at_end (moved_to L (b1 @ z # r)) \<and> (Peek 0 (moved_to L (b1 @ z # r)) = CHR ''.'' \<or> Peek 0 (moved_to L (b1 @ z # r)) = CHR ''e'' \<or>
      Peek 0 (moved_to L (b1 @ z # r)) = CHR ''E'')) = (b1 \<noteq> [] \<and> (hd b1 = CHR ''.'' \<or> hd b1 = CHR ''e'' \<or> hd b1 = CHR ''E''))"
    using num_stop_not(2-4) [OF z] unfolding d(2) at_end_front fr by (cases b1) simp_all
  show ?thesis
  proof (cases "fraction b1")
    case True
    then have "b1 \<noteq> []" by (simp add: fraction_def)
    with True d(4) show ?thesis
      unfolding LexNumber_digits_def Let_def unfolding if_not_P [OF nt] unfolding d(1) d(3) by (simp add: b2_def b1_def [symmetric])
  next
    case False
    then have b2: "b2 = b1" by (simp add: b2_def b1_def fraction_rest_def)
    show ?thesis unfolding LexNumber_digits_def Let_def unfolding if_not_P [OF nt] unfolding d(1) d(3) b2 using False by (simp add: pt)
  qed
qed

text \<open>A number from its sign on: the lexer that has read \<open>raw\<close>, seen from the sign or from the digits.\<close>

lemma LexNumber_sign:
  assumes f: "front L = raw @ z # r" and b: "digit_first (unsigned_part raw)"
  shows "Next ranges L = LexNumber_digits (CurrentPos L) (lx_pos L) (hd raw = CHR ''-'') (adv (length raw - length (unsigned_part raw)) L)"
proof -
  obtain c t where c: "raw = c # t" using b by (cases raw) (auto simp: unsigned_part_def digit_first_def)
  have c': "c = CHR ''-'' \<or> IsDigit c" using b c by (auto simp: unsigned_part_def digit_first_def split: if_splits)
  have nc: "\<not> blank c" "c \<noteq> CHR 0x0A" "c \<noteq> CHR ''#''" "c \<noteq> CHR ''/''" "c \<noteq> CHR 0x22" "c \<noteq> CHR ''b''" "c \<noteq> CHR 0x40" "c \<noteq> CHR ''+''" "punctuation c = None"
  proof -
    have "list_all (\<lambda>c. \<not> IsDigit c) [CHR '' '', CHR 0x09, CHR 0x0D, CHR 0x0A, CHR ''#'', CHR ''/'', CHR 0x22, CHR ''b'', CHR 0x40, CHR ''+'',
      CHR ''{'', CHR ''}'', CHR ''['', CHR '']'', CHR ''('', CHR '')'', CHR ''='', CHR '':'', CHR '','']" by code_simp
    with c' punctuation_cases [of c] show "\<not> blank c" "c \<noteq> CHR 0x0A" "c \<noteq> CHR ''#''" "c \<noteq> CHR ''/''" "c \<noteq> CHR 0x22" "c \<noteq> CHR ''b''" "c \<noteq> CHR 0x40" "c \<noteq> CHR ''+''"
      "punctuation c = None" by (auto simp: blank_def simp del: not_None_eq intro: ccontr)
  qed
  have "Next ranges L = LexNumber (CurrentPos L) L"
    using f c nc c' by (auto simp: Next_def SkipSpaces_here at_end_front Peek_front)
  also have "\<dots> = LexNumber_digits (CurrentPos L) (lx_pos L) (hd raw = CHR ''-'') (adv (length raw - length (unsigned_part raw)) L)"
  proof (cases "c = CHR ''-''")
    case True
    with c b obtain a u where a: "t = a # u" "IsDigit a" by (cases t) (auto simp: unsigned_part_def digit_first_def)
    have "a \<noteq> CHR ''i''" using a(2) by (auto simp: IsDigit_def)
    then have "substr (lx_input L) (lx_pos (Advance L)) 3 \<noteq> ''inf''"
      using substr_front [of "Advance L" 3] f c a by (simp add: numeral_3_eq_3)
    with True f c a show ?thesis
      by (simp add: LexNumber_def Let_def Peek_front at_end_front Advance_adv unsigned_part_def)
  next
    case False
    with f c nc show ?thesis by (simp add: LexNumber_def Let_def Peek_front unsigned_part_def)
  qed
  finally show ?thesis .
qed

lemma unsigned_split: "raw = take (length raw - length (unsigned_part raw)) raw @ unsigned_part raw"
  by (cases raw) (auto simp: unsigned_part_def)

lemma drop_sign [simp]: "drop (length raw - length (unsigned_part raw)) raw = unsigned_part raw"
  by (cases raw) (auto simp: unsigned_part_def)

lemma sign_length [simp]: "length raw - length (unsigned_part raw) + length (unsigned_part raw) = length raw"
  by (cases raw) (auto simp: unsigned_part_def)

lemma moved_adv:
  assumes "front L = a @ s" "suffix t s"
  shows "moved_to (adv (length a) L) t = moved_to L t"
proof -
  from assms(2) have "length t \<le> length s" by (rule suffix_length_le)
  with assms(1) show ?thesis by (simp add: moved_to_def)
qed

lemma Next_int:
  assumes f: "front L = FormatNumber raw prec @ d # r" and raw: "int_text raw" and prec: "list_all IsDigit prec" and d: "stop d"
  shows "Next ranges L = (\<lparr>tk_kind = kInt, tk_value = raw, tk_pos = CurrentPos L, tk_prec = prec\<rparr>, adv (length (FormatNumber raw prec)) L)"
proof -
  let ?b = "unsigned_part raw" and ?k = "length raw - length (unsigned_part raw)"
  obtain z q where z: "prec_text prec @ d # r = z # q" "num_stop z" using d by (cases prec) (auto simp: prec_text_def num_stop_def)
  have f': "front L = raw @ z # q" "front L = raw @ prec_text prec @ d # r" using f z(1) by (simp_all add: FormatNumber_def prec_text_def)
  have b: "digit_first ?b" "drop_digits ?b = []"
    using raw by (auto simp: int_text_def digit_first_def list_all_iff)
  have "front L = take ?k raw @ ?b @ z # q" using f'(1) unsigned_split [of raw] by (metis append.assoc)
  then have fa: "front (adv ?k L) = ?b @ z # q" and mv: "moved_to (adv ?k L) (z # q) = adv (length raw) L"
    using moved_adv [of L "take ?k raw" "?b @ z # q" "z # q"] f'(1)
    by (auto simp: moved_to_def suffix_def min_def)
  have "\<not> AtDurationUnit (adv (length raw) L)"
    using f'(1) num_stop_not(7,8) [OF z(2)] by (simp add: AtDurationUnit_def at_end_front Peek_front)
  then have "LexNumber_digits p s neg (adv ?k L) = number_token kInt p s (adv (length raw) L)" for p s neg
    using LexNumber_digits_reads [OF fa z(2)] b mv by (simp add: fraction_rest_def fraction_def)
  then have "Next ranges L = number_token kInt (CurrentPos L) (lx_pos L) (adv (length raw) L)"
    using LexNumber_sign [OF f'(1) b(1)] by simp
  with number_token_reads [OF f'(2) prec d] show ?thesis by (simp add: FormatNumber_def prec_text_def)
qed

lemma exponent_point_Nil:
  assumes "exponent_rest (point_rest s) = []"
  shows "s = [] \<or> hd s = CHR ''.'' \<or> hd s = CHR ''e'' \<or> hd s = CHR ''E''"
proof (rule ccontr)
  assume "\<not> ?thesis"
  then have n: "s \<noteq> []" "hd s \<noteq> CHR ''.''" "hd s \<noteq> CHR ''e''" "hd s \<noteq> CHR ''E''" by simp_all
  then have "point_rest s = s" "exponent_rest s = s" by (simp_all add: point_rest_def exponent_rest_def)
  with assms n(1) show False by simp
qed

text \<open>The digits of a number after its sign: the text in front, the moves from them, and the length of the whole.\<close>

lemma after_sign:
  assumes "front L = raw @ z # q" "suffix s (unsigned_part raw)"
  shows "front (adv (length raw - length (unsigned_part raw)) L) = unsigned_part raw @ z # q"
    "moved_to (adv (length raw - length (unsigned_part raw)) L) (s @ z # q) = adv (length raw - length s) L"
proof -
  show f: "front (adv (length raw - length (unsigned_part raw)) L) = unsigned_part raw @ z # q" using assms(1) by simp
  have "length s \<le> length (unsigned_part raw)" using assms(2) by (rule suffix_length_le)
  moreover have "length (unsigned_part raw) \<le> length raw" using sign_length [of raw] by linarith
  ultimately show "moved_to (adv (length raw - length (unsigned_part raw)) L) (s @ z # q) = adv (length raw - length s) L"
    by (simp add: moved_to_def assms(1))
qed

lemma Next_float:
  assumes f: "front L = FormatNumber raw prec @ d # r" and raw: "float_text raw" and prec: "list_all IsDigit prec" and d: "stop d"
  shows "Next ranges L = (\<lparr>tk_kind = kFloat, tk_value = raw, tk_pos = CurrentPos L, tk_prec = prec\<rparr>, adv (length (FormatNumber raw prec)) L)"
proof -
  define b b1 b2 k where "b = unsigned_part raw" and "b1 = drop_digits b" and "b2 = fraction_rest b1" and "k = length raw - length b"
  obtain z q where z: "prec_text prec @ d # r = z # q" "num_stop z" using d by (cases prec) (auto simp: prec_text_def num_stop_def)
  have f': "front L = raw @ z # q" "front L = raw @ prec_text prec @ d # r" using f z(1) by (simp_all add: FormatNumber_def prec_text_def)
  have b: "digit_first b" "b1 \<noteq> []" "exponent_rest (point_rest b2) = []"
    using raw by (auto simp: float_text_def Let_def b_def b1_def b2_def)
  have sfx: "suffix b2 (unsigned_part raw)" unfolding b2_def b1_def b_def using rest_suffix suffix_order.trans by blast
  note as = after_sign [OF f'(1) sfx, folded b_def, folded k_def]
  have fa: "front (adv (length raw - length b2) L) = b2 @ z # q"
  proof -
    have "front (moved_to (adv k L) (b2 @ z # q)) = b2 @ z # q"
      using as(1) sfx by (intro front_moved) (simp add: b_def)
    then show ?thesis using as(2) by simp
  qed
  have h: "b2 = [] \<or> hd b2 = CHR ''.'' \<or> hd b2 = CHR ''e'' \<or> hd b2 = CHR ''E''" using exponent_point_Nil [OF b(3)] .
  have h1: "fraction b1 \<or> hd b1 = CHR ''.'' \<or> hd b1 = CHR ''e'' \<or> hd b1 = CHR ''E''"
    using h b(2) by (auto simp: b2_def fraction_rest_def split: if_splits)
  have nu: "\<not> AtDurationUnit (adv (length raw - length b2) L)"
    using h num_stop_not(7,8) [OF z(2)] unfolding AtDurationUnit_def at_end_front Peek_front fa
    by (cases b2) (auto simp: IsDurationUnit_def)
  have nt: "b1 = [] \<or> hd b1 \<noteq> CHR ''-''" using h1 b(2) by (auto simp: fraction_def)
  have "exponent_rest (point_rest (b2 @ z # q)) = z # q" using b(3) by (simp add: rest_local [OF z(2)])
  moreover have "moved_to (adv (length raw - length b2) L) (z # q) = adv (length raw) L"
  proof -
    have "length b2 \<le> length raw" using suffix_length_le [OF sfx] sign_length [of raw] by linarith
    then show ?thesis using f'(1) by (simp add: moved_to_def fa)
  qed
  ultimately have "LexFloat p s (adv (length raw - length b2) L) = number_token kFloat p s (adv (length raw) L)" for p s
    unfolding LexFloat_moved fa by simp
  then have "LexNumber_digits p s neg (adv k L) = number_token kFloat p s (adv (length raw) L)" for p s neg
    using LexNumber_digits_reads [OF as(1) z(2), of neg p s] nt nu h1 b(2) as(2) by (simp add: b1_def [symmetric] b2_def [symmetric])
  then have "Next ranges L = number_token kFloat (CurrentPos L) (lx_pos L) (adv (length raw) L)"
    using LexNumber_sign [OF f'(1)] b(1) by (simp add: b_def k_def)
  with number_token_reads [OF f'(2) prec d] show ?thesis by (simp add: FormatNumber_def prec_text_def)
qed

text \<open>Infinity, which has no digits.\<close>

lemma Next_inf:
  assumes f: "front L = raw @ d # r" and raw: "raw = ''-inf'' \<or> raw = ''+inf''" and d: "stop d"
  shows "Next ranges L = (\<lparr>tk_kind = kFloat, tk_value = raw, tk_pos = CurrentPos L, tk_prec = []\<rparr>, adv (length raw) L)"
proof -
  obtain c where c: "raw = c # ''inf''" "c = CHR ''-'' \<or> c = CHR ''+''" using raw by auto
  have len: "length (lx_input L) = lx_pos L + (5 + length r)" using front_length [of L] f c(1) by simp
  have s: "substr (lx_input L) (lx_pos (Advance L)) 3 = ''inf''"
    using substr_front [of "Advance L" 3] f c(1) by (simp add: numeral_3_eq_3)
  have "lx_input L ! (lx_pos (Advance L) + 3) = d" using front_nth [of 4 L] f c(1) by (simp add: add.commute)
  then have i: "\<not> IsIdentPart (lx_input L ! (lx_pos (Advance L) + 3))" using IsIdentPart_not(2) [OF d] by simp
  have v: "substr (lx_input L) (lx_pos L) 4 = raw" using f c(1) by (simp add: substr_front numeral_eq_Suc)
  have "LexNumber (CurrentPos L) L = (mk_token kFloat raw (CurrentPos L), adv (Suc (Suc (Suc (Suc 0)))) L)"
    using f c s i v by (auto simp: LexNumber_def Let_def Peek_front Advance_adv)
  moreover have "Next ranges L = LexNumber (CurrentPos L) L"
    using f c by (auto simp: Next_def SkipSpaces_here blank_def at_end_front Peek_front punctuation_def)
  ultimately show ?thesis using c(1) by (simp add: mk_token_def)
qed

section \<open>Durations and timestamps\<close>

lemma IsDigit_nul: "\<not> IsDigit (CHR 0x00)"
  by (simp add: IsDigit_def)

text \<open>What the loop of \<open>LexDuration\<close> leaves.\<close>

function duration_rest :: "string \<Rightarrow> string" where
  "duration_rest s =
     (if s = [] then []
      else if IsDigit (hd s) \<or> IsLowerAlpha (hd s) then duration_rest (tl s)
      else if hd s = CHR ''.'' \<and> tl s \<noteq> [] \<and> IsDigit (hd (tl s)) then duration_rest (tl s)
      else if hd s = CHR 0xC2 \<and> tl s \<noteq> [] \<and> hd (tl s) = CHR 0xB5 then duration_rest (tl (tl s))
      else s)"
  by pat_completeness auto
termination
  by (relation "measure length") auto

declare duration_rest.simps [simp del]

lemma duration_rest_suffix: "suffix (duration_rest s) s"
proof (induction s rule: duration_rest.induct)
  case (1 s)
  have t: "suffix u (tl s) \<Longrightarrow> suffix u s" "suffix u (tl (tl s)) \<Longrightarrow> suffix u s" for u
    using suffix_order.trans suffix_tl [of s s] suffix_tl [of "tl s" s] by blast+
  show ?case by (subst duration_rest.simps) (use 1 t in auto)
qed

lemma duration_loop_moved: "duration_loop L = moved_to L (duration_rest (front L))"
proof (induction L rule: duration_loop.induct)
  case (1 L)
  have m: "moved_to (adv n L) (duration_rest (drop n (front L))) = moved_to L (duration_rest (drop n (front L)))" if "n \<le> length (front L)" for n
    using moved_adv [of L "take n (front L)" "drop n (front L)"] that duration_rest_suffix [of "drop n (front L)"] by simp
  show ?case
  proof (cases "front L")
    case Nil
    then show ?thesis by (subst duration_loop.simps, subst duration_rest.simps) (simp add: at_end_front)
  next
    case (Cons c s)
    show ?thesis
      by (subst duration_loop.simps, subst duration_rest.simps)
        (use 1 Cons m [of "Suc 0"] m [of "Suc (Suc 0)"] IsDigit_nul in \<open>cases s; auto simp: at_end_front Peek_front Advance_adv\<close>)
  qed
qed

lemma duration_rest_local:
  assumes "stop d"
  shows "duration_rest (s @ d # r) = duration_rest s @ d # r"
proof -
  have d: "\<not> IsDigit d" "\<not> IsLowerAlpha d" "d \<noteq> CHR ''.''" "d \<noteq> CHR 0xC2" "d \<noteq> CHR 0xB5"
  proof -
    have "list_all (\<lambda>d. \<not> IsDigit d \<and> \<not> IsLowerAlpha d) [CHR 0x0A, CHR '' '', CHR '','', CHR '')'', CHR '':'']" by code_simp
    with assms show "\<not> IsDigit d" "\<not> IsLowerAlpha d" "d \<noteq> CHR ''.''" "d \<noteq> CHR 0xC2" "d \<noteq> CHR 0xB5" by (auto simp: stop_def)
  qed
  show ?thesis
  proof (induction s rule: duration_rest.induct)
    case (1 s)
    show ?case
    proof (cases s)
      case Nil
      then show ?thesis using d by (subst duration_rest.simps, subst (2) duration_rest.simps) simp
    next
      case (Cons c t)
      then show ?thesis using 1 d by (subst (1 2) duration_rest.simps) (cases t; auto)
    qed
  qed
qed

definition unit_first :: "string \<Rightarrow> bool" where
  "unit_first s \<longleftrightarrow> s \<noteq> [] \<and> (IsDurationUnit (hd s) \<or> hd s = CHR 0xC2 \<and> tl s \<noteq> [] \<and> hd (tl s) = CHR 0xB5)"

definition duration_text :: "string \<Rightarrow> bool" where
  "duration_text raw \<longleftrightarrow>
     (let b = unsigned_part raw; b2 = fraction_rest (drop_digits b)
      in digit_first b \<and> unit_first b2 \<and> duration_rest b2 = [] \<and> ParseDuration raw \<noteq> None)"

lemma Next_duration:
  assumes f: "front L = raw @ d # r" and raw: "duration_text raw" and d: "stop d"
  shows "Next ranges L = (\<lparr>tk_kind = kDuration, tk_value = raw, tk_pos = CurrentPos L, tk_prec = []\<rparr>, adv (length raw) L)"
proof -
  define b b1 b2 k where "b = unsigned_part raw" and "b1 = drop_digits b" and "b2 = fraction_rest b1" and "k = length raw - length b"
  have z: "num_stop d" using d by (simp add: num_stop_def)
  have b: "digit_first b" "unit_first b2" "duration_rest b2 = []" "ParseDuration raw \<noteq> None"
    using raw by (auto simp: duration_text_def Let_def b_def b1_def b2_def)
  have sfx: "suffix b2 (unsigned_part raw)" unfolding b2_def b1_def b_def using rest_suffix suffix_order.trans by blast
  have le: "length b2 \<le> length raw" using suffix_length_le [OF sfx] sign_length [of raw] by linarith
  note as = after_sign [OF f sfx, folded b_def, folded k_def]
  have fa: "front (adv (length raw - length b2) L) = b2 @ d # r"
  proof -
    have "front (moved_to (adv k L) (b2 @ d # r)) = b2 @ d # r" using as(1) sfx by (intro front_moved) (simp add: b_def)
    then show ?thesis using as(2) by simp
  qed
  obtain c t where c: "b2 = c # t" "IsDurationUnit c \<or> c = CHR 0xC2 \<and> t \<noteq> [] \<and> hd t = CHR 0xB5" using b(2) by (cases b2) (auto simp: unit_first_def)
  have u: "AtDurationUnit (adv (length raw - length b2) L)"
    unfolding AtDurationUnit_def at_end_front Peek_front fa using c by (cases t) auto
  have nt: "b1 = [] \<or> hd b1 \<noteq> CHR ''-''"
    using c by (auto simp: b2_def fraction_rest_def fraction_def IsDurationUnit_def split: if_splits)
  have "duration_loop (adv (length raw - length b2) L) = adv (length raw) L"
    unfolding duration_loop_moved fa duration_rest_local [OF d] b(3) using f le by (simp add: moved_to_def fa)
  then have "LexDuration p (lx_pos L) (adv (length raw - length b2) L) = (mk_token kDuration raw p, adv (length raw) L)" for p
    using b(4) f by (auto simp: LexDuration_def Let_def substr_front)
  then have "LexNumber_digits p (lx_pos L) neg (adv k L) = (mk_token kDuration raw p, adv (length raw) L)" for p neg
    using LexNumber_digits_reads [OF as(1) z, of neg p "lx_pos L"] nt u as(2) by (simp add: b1_def [symmetric] b2_def [symmetric])
  then show ?thesis using LexNumber_sign [OF f] b(1) by (simp add: b_def k_def mk_token_def)
qed

text \<open>What the loop of \<open>LexTimestamp\<close> leaves: a timestamp starts with four digits and a dash and leaves nothing.\<close>

definition timestamp_end :: "string \<Rightarrow> bool" where
  "timestamp_end s \<longleftrightarrow>
     s = [] \<or> hd s \<in> set [CHR '' '', CHR 0x0A, CHR 0x09, CHR 0x0D, CHR '','', CHR '']'', CHR ''}'', CHR '')'', CHR ''#''] \<or>
     hd s = CHR ''/'' \<and> tl s \<noteq> [] \<and> (hd (tl s) = CHR ''/'' \<or> hd (tl s) = CHR ''*'')"

fun timestamp_rest :: "string \<Rightarrow> string" where
  "timestamp_rest [] = []"
| "timestamp_rest (c # s) = (if timestamp_end (c # s) then c # s else timestamp_rest s)"

definition timestamp_text :: "string \<Rightarrow> bool" where
  "timestamp_text raw \<longleftrightarrow>
     list_all IsDigit (take 4 raw) \<and> 4 < length raw \<and> raw ! 4 = CHR ''-'' \<and> timestamp_rest (drop 4 raw) = [] \<and> ParseRFC3339 raw \<noteq> None"

lemma timestamp_end_Peek:
  "timestamp_end (front L) \<longleftrightarrow>
     at_end L \<or> Peek 0 L \<in> set [CHR '' '', CHR 0x0A, CHR 0x09, CHR 0x0D, CHR '','', CHR '']'', CHR ''}'', CHR '')'', CHR ''#''] \<or>
     Peek 0 L = CHR ''/'' \<and> (Peek 1 L = CHR ''/'' \<or> Peek 1 L = CHR ''*'')"
  by (cases "front L"; cases "tl (front L)") (auto simp: timestamp_end_def at_end_front Peek_front)

lemma timestamp_rest_suffix: "suffix (timestamp_rest s) s"
  by (induction s) (auto simp: suffix_Cons)

lemma timestamp_loop_moved: "timestamp_loop L = moved_to L (timestamp_rest (front L))"
proof (induction L rule: timestamp_loop.induct)
  case (1 L)
  have m: "moved_to (adv n L) (timestamp_rest (drop n (front L))) = moved_to L (timestamp_rest (drop n (front L)))" if "n \<le> length (front L)" for n
    using moved_adv [of L "take n (front L)" "drop n (front L)"] that timestamp_rest_suffix [of "drop n (front L)"] by simp
  show ?case
  proof (cases "timestamp_end (front L)")
    case True
    then show ?thesis unfolding timestamp_loop.simps [of L] timestamp_end_Peek [symmetric] by (cases "front L") simp_all
  next
    case False
    then obtain c s where c: "front L = c # s" by (cases "front L") (auto simp: timestamp_end_def)
    have "timestamp_loop (Advance L) = moved_to (Advance L) (timestamp_rest (front (Advance L)))"
      using 1 False unfolding timestamp_end_Peek [symmetric] by simp
    then show ?thesis unfolding timestamp_loop.simps [of L] timestamp_end_Peek [symmetric]
      using False c m [of 1] by (simp add: Advance_adv)
  qed
qed

lemma timestamp_rest_local:
  assumes "stop d" "d \<noteq> CHR '':''"
  shows "timestamp_rest (s @ d # r) = timestamp_rest s @ d # r"
proof (induction s)
  case Nil
  then show ?case using assms by (auto simp: timestamp_end_def stop_def)
next
  case (Cons c s)
  have "timestamp_end (c # s @ d # r) \<longleftrightarrow> timestamp_end (c # s)" using assms by (cases s) (auto simp: timestamp_end_def stop_def)
  with Cons show ?case by simp
qed

lemma Next_timestamp:
  assumes f: "front L = raw @ d # r" and raw: "timestamp_text raw" and d: "stop d" "d \<noteq> CHR '':''"
  shows "Next ranges L = (\<lparr>tk_kind = kTimestamp, tk_value = raw, tk_pos = CurrentPos L, tk_prec = []\<rparr>, adv (length raw) L)"
proof -
  define y t where "y = take 4 raw" and "t = drop 4 raw"
  have r: "raw = y @ t" "length y = 4" "list_all IsDigit y" "t \<noteq> []" "hd t = CHR ''-''" "timestamp_rest t = []" "ParseRFC3339 raw \<noteq> None"
    using raw by (auto simp: timestamp_text_def y_def t_def hd_drop_conv_nth list_all_iff dest: in_set_dropD)
  then obtain u where u: "t = CHR ''-'' # u" by (cases t) auto
  have hd: "raw \<noteq> []" "hd raw \<noteq> CHR ''-''" "digit_first (unsigned_part raw)" "unsigned_part raw = raw"
    using r(1-3) by (cases y; auto simp: unsigned_part_def digit_first_def IsDigit_def)+
  have "skip_while IsDigit L = adv 4 L"
  proof -
    have "takeWhile IsDigit (y @ CHR ''-'' # u @ d # r) = y" using r(3) by (intro takeWhile_stop) (simp_all add: IsDigit_def)
    then show ?thesis using f r(1,2) u by (simp add: skip_while_adv)
  qed
  moreover have "Peek 0 (adv 4 L) = CHR ''-''" "\<not> at_end (adv 4 L)" using f r(1,2) u by (simp_all add: Peek_front at_end_front)
  moreover have "lx_pos (adv 4 L) - lx_pos L = 4" using f r(1,2) by simp
  ultimately have "LexNumber_digits p (lx_pos L) False L = LexTimestamp p (lx_pos L) (adv 4 L)" for p by (simp add: LexNumber_digits_def Let_def)
  moreover have "timestamp_loop (adv 4 L) = adv (length raw) L"
    using f r(1,2,6) by (simp add: timestamp_loop_moved timestamp_rest_local [OF d] moved_to_def)
  ultimately have "LexNumber_digits p (lx_pos L) False L = (mk_token kTimestamp raw p, adv (length raw) L)" for p
    using r(7) f by (auto simp: LexTimestamp_def Let_def substr_front)
  then show ?thesis using LexNumber_sign [OF f hd(3)] hd by (simp add: mk_token_def)
qed

section \<open>Bytes and \<open>@type\<close>\<close>

lemma encode_bytes: "c \<in> set (Base64EncodeStd d) \<Longrightarrow> c \<noteq> CHR 0x22 \<and> c \<noteq> CHR 0x0A"
proof -
  have "list_all (\<lambda>i. kAlphabet ! i \<noteq> CHR 0x22 \<and> kAlphabet ! i \<noteq> CHR 0x0A) [0..<64]" by code_simp
  then have s: "sextet v k \<noteq> CHR 0x22 \<and> sextet v k \<noteq> CHR 0x0A" for v k by (simp add: sextet_char list_all_iff)
  then have s': "sextet v k \<noteq> CHR 0x22" "sextet v k \<noteq> CHR 0x0A" "CHR 0x22 \<noteq> sextet v k" "CHR 0x0A \<noteq> sextet v k" for v k by metis+
  show "c \<in> set (Base64EncodeStd d) \<Longrightarrow> c \<noteq> CHR 0x22 \<and> c \<noteq> CHR 0x0A"
    by (induction d rule: Base64EncodeStd.induct) (auto simp: Let_def s')
qed

lemma base64_lenient: "Base64DecodeLenient (Base64EncodeStd d) = Inr d"
  using DecodeGo_encode by (simp add: Base64DecodeLenient_def DecodeGo_def)

lemma LexBytes_loop_reads:
  assumes "front L = s @ CHR 0x22 # r" "\<forall>c\<in>set s. c \<noteq> CHR 0x22 \<and> c \<noteq> CHR 0x0A" "lx_errors L = None"
    "substr (lx_input L) start (lx_pos L + length s - start) = raw" "start \<le> lx_pos L" "Base64DecodeLenient raw = Inr bs"
    "0 < lx_max_bytes L \<longrightarrow> int ((lx_pos L + length s - start) div 4 * 3) \<le> lx_max_bytes L"
  shows "LexBytes_loop p start L = (mk_token kBytes raw p, adv (length s + 1) L)"
  using assms
proof (induction s arbitrary: L)
  case Nil
  then show ?case
    by (subst LexBytes_loop.simps) (auto simp: at_end_front Peek_front Advance_adv Tolerant_def Let_def)
next
  case (Cons c s)
  have le: "(lx_pos L - start) div 4 * 3 \<le> (lx_pos L + length (c # s) - start) div 4 * 3" by (intro mult_le_mono1 div_le_mono) simp
  have "LexBytes_loop p start (adv 1 L) = (mk_token kBytes raw p, adv (length s + 1) (adv 1 L))"
    using Cons.prems by (intro Cons.IH) simp_all
  moreover have "\<not> (0 < lx_max_bytes L \<and> lx_max_bytes L < int ((lx_pos L - start) div 4 * 3))" using Cons.prems(7) le by linarith
  ultimately show ?case using Cons.prems by (subst LexBytes_loop.simps) (auto simp: at_end_front Peek_front Advance_adv Let_def)
qed

definition bytes_fit :: "int \<Rightarrow> byte list \<Rightarrow> bool" where
  "bytes_fit max_bytes bs \<longleftrightarrow> (0 < max_bytes \<longrightarrow> int (length (Base64EncodeStd bs) div 4 * 3) \<le> max_bytes)"

lemma Next_bytes:
  assumes f: "front L = [CHR ''b'', CHR 0x22] @ Base64EncodeStd bs @ CHR 0x22 # r" and strict: "lx_errors L = None" and fit: "bytes_fit (lx_max_bytes L) bs"
  shows "Next ranges L = (mk_token kBytes (Base64EncodeStd bs) (CurrentPos L), adv (length (Base64EncodeStd bs) + 3) L)"
proof -
  let ?M = "adv 2 L" and ?e = "Base64EncodeStd bs"
  have m: "front ?M = ?e @ CHR 0x22 # r" "lx_pos ?M = lx_pos L + 2" using f by simp_all
  have s: "substr (lx_input L) (lx_pos ?M) n = take n (?e @ CHR 0x22 # r)" for n using substr_front [of ?M n] m by simp
  have "LexBytes_loop (CurrentPos L) (lx_pos ?M) ?M = (mk_token kBytes ?e (CurrentPos L), adv (length ?e + 1) ?M)"
    using LexBytes_loop_reads [of ?M ?e r "lx_pos ?M" ?e bs "CurrentPos L"] m(1) s strict fit encode_bytes [of _ bs] base64_lenient
    by (auto simp: bytes_fit_def)
  then have "LexBytes (CurrentPos L) L = (mk_token kBytes ?e (CurrentPos L), adv (length ?e + 3) L)"
    using f by (simp add: LexBytes_def Let_def at_end_front Peek_front Advance_adv numeral_eq_Suc add.commute)
  moreover have "Next ranges L = LexBytes (CurrentPos L) L"
    using f by (simp add: Next_def SkipSpaces_here blank_def at_end_front Peek_front)
  ultimately show ?thesis by simp
qed

lemma Next_at_type:
  assumes f: "front L = ''@type'' @ d # r" and d: "stop d"
  shows "Next ranges L = (mk_token kAtType ''@type'' (CurrentPos L), adv 5 L)"
proof -
  have "list_all IsIdentPart ''type''" by code_simp
  then have w: "takeWhile IsIdentPart (''type'' @ d # r) = ''type''" using IsIdentPart_not(2) [OF d] by (rule takeWhile_stop)
  have "LexDirective (CurrentPos L) L = (mk_token kAtType ''@type'' (CurrentPos L), adv 5 L)"
    using f w substr_front [of "adv 1 L"] by (simp add: LexDirective_def Let_def Advance_adv skip_while_adv numeral_eq_Suc)
  then show ?thesis using f by (simp add: Next_def SkipSpaces_here blank_def at_end_front Peek_front punctuation_def)
qed

end
