(* ===== verification/PxfShapes.thy ===== *)
theory PxfShapes
  imports PxfReads
begin

text \<open>
  Every token of a strict lexer has the shape of its kind: the text of an integer is an integer, and so on. With the lemmas on
  what is read of a given text, a token can be written out and read again.
\<close>

section \<open>Scanning a prefix\<close>

text \<open>What a scan consumed, it consumes wholly when nothing follows.\<close>

lemma dropWhile_cut: "dropWhile P (x @ y) = z @ y \<Longrightarrow> dropWhile P x = z"
proof (induction x)
  case Nil
  have "length (dropWhile P y) \<le> length y" by (rule length_dropWhile_le)
  with Nil show ?case by (cases z) (auto simp: Nil)
next
  case (Cons c x)
  then show ?case by (auto split: if_splits)
qed

lemma fraction_cut:
  assumes "fraction_rest (x @ y) = z @ y"
  shows "fraction_rest x = z"
proof (cases "fraction (x @ y)")
  case False
  then have "\<not> fraction x" by (cases x; cases "tl x") (auto simp: fraction_def)
  with False assms show ?thesis by (simp add: fraction_rest_def)
next
  case True
  then have e: "drop_digits (tl (x @ y)) = z @ y" using assms by (simp add: fraction_rest_def)
  have "x \<noteq> []"
  proof
    assume "x = []"
    with e True show False using length_dropWhile_le [of IsDigit "tl y"] by (cases y) (auto simp: fraction_def)
  qed
  then obtain c t where x: "x = c # t" by (cases x) auto
  then have d: "drop_digits t = z" using e dropWhile_cut by simp
  have "t \<noteq> []"
  proof
    assume "t = []"
    with e x d have "drop_digits y = y" by simp
    with True x \<open>t = []\<close> show False by (cases y) (auto simp: fraction_def dropWhile_eq_Cons_conv)
  qed
  with True x d show ?thesis by (simp add: fraction_rest_def fraction_def)
qed

lemma point_cut:
  assumes "point_rest (x @ y) = z @ y"
  shows "point_rest x = z"
proof (cases x)
  case Nil
  with assms show ?thesis using length_dropWhile_le [of IsDigit "tl y"]
    by (cases y) (auto simp: point_rest_def split: if_splits)
next
  case (Cons c t)
  with assms show ?thesis using dropWhile_cut [of IsDigit t y z] by (auto simp: point_rest_def split: if_splits)
qed

lemma exponent_cut:
  assumes "exponent_rest (x @ y) = y"
  shows "exponent_rest x = []"
proof (cases x)
  case Nil
  then show ?thesis by (simp add: exponent_rest_def)
next
  case (Cons c t)
  then have e: "c = CHR ''e'' \<or> c = CHR ''E''" using assms by (auto simp: exponent_rest_def split: if_splits)
  show ?thesis
  proof (cases t)
    case Nil
    then show ?thesis using Cons e by (simp add: exponent_rest_def)
  next
    case t: (Cons a u)
    let ?u = "if a = CHR ''+'' \<or> a = CHR ''-'' then u else a # u"
    have "exponent_rest (x @ y) = drop_digits (?u @ y)" "exponent_rest x = drop_digits ?u" using Cons t e by (simp_all add: exponent_rest_def)
    with assms dropWhile_cut [of IsDigit ?u y "[]"] show ?thesis by simp
  qed
qed

lemma duration_short: "length (duration_rest s) \<le> length s"
  using suffix_length_le [OF duration_rest_suffix] .

lemma duration_cut: "duration_rest (x @ y) = y \<Longrightarrow> duration_rest x = []"
proof (induction x rule: duration_rest.induct)
  case (1 x)
  consider (nil) "x = []" | (plain) "x \<noteq> []" "IsDigit (hd x) \<or> IsLowerAlpha (hd x)"
    | (point) "x \<noteq> []" "\<not> (IsDigit (hd x) \<or> IsLowerAlpha (hd x))" "hd x = CHR ''.''" "tl x @ y \<noteq> []" "IsDigit (hd (tl x @ y))"
    | (mu) "x \<noteq> []" "\<not> (IsDigit (hd x) \<or> IsLowerAlpha (hd x))" "hd x = CHR 0xC2" "tl x @ y \<noteq> []" "hd (tl x @ y) = CHR 0xB5"
    | (stop) "x \<noteq> []" "\<not> (IsDigit (hd x) \<or> IsLowerAlpha (hd x))"
        "\<not> (hd x = CHR ''.'' \<and> tl x @ y \<noteq> [] \<and> IsDigit (hd (tl x @ y)))" "\<not> (hd x = CHR 0xC2 \<and> tl x @ y \<noteq> [] \<and> hd (tl x @ y) = CHR 0xB5)"
    by blast
  then show ?case
  proof cases
    case plain
    then have "duration_rest (tl x @ y) = y" using 1(4) by (subst (asm) duration_rest.simps) simp
    with 1(1) plain show ?thesis by (subst duration_rest.simps) simp
  next
    case point
    then have e: "duration_rest (tl x @ y) = y" using 1(4) by (subst (asm) duration_rest.simps) (simp add: IsDigit_def)
    have "tl x \<noteq> []"
    proof
      assume "tl x = []"
      with e point have "duration_rest y = y" "y \<noteq> []" "IsDigit (hd y)" by simp_all
      then have "duration_rest (tl y) = y" by (subst (asm) duration_rest.simps) simp
      with \<open>y \<noteq> []\<close> duration_short [of "tl y"] show False by (cases y) auto
    qed
    with 1(2) point e show ?thesis by (subst duration_rest.simps) simp
  next
    case mu
    have "tl x \<noteq> []"
    proof
      assume "tl x = []"
      with mu 1(4) have "duration_rest (tl y) = y" "y \<noteq> []" by (subst (asm) duration_rest.simps, simp)+
      with duration_short [of "tl y"] show False by (cases y) auto
    qed
    moreover from this mu 1(4) have "duration_rest (tl (tl x) @ y) = y" by (subst (asm) duration_rest.simps) simp
    ultimately show ?thesis using 1(3) mu by (subst duration_rest.simps) simp
  next
    case stop
    then have "duration_rest (x @ y) = x @ y" by (subst duration_rest.simps) auto
    with 1(4) stop(1) show ?thesis by simp
  qed (simp add: duration_rest.simps)
qed

lemma timestamp_short: "length (timestamp_rest s) \<le> length s"
  using suffix_length_le [OF timestamp_rest_suffix] .

lemma timestamp_cut: "timestamp_rest (x @ y) = y \<Longrightarrow> timestamp_rest x = []"
proof (induction x)
  case (Cons c x)
  then have n: "\<not> timestamp_end (c # x @ y)" by auto
  with Cons have "timestamp_rest x = []" by simp
  moreover have "\<not> timestamp_end (c # x)" using n by (cases x) (auto simp: timestamp_end_def)
  ultimately show ?case by simp
qed simp

section \<open>Shapes\<close>

definition token_shape :: "Token \<Rightarrow> bool" where
  "token_shape t \<longleftrightarrow>
     (case tk_kind t of
        kInt \<Rightarrow> int_text (tk_value t) \<and> list_all IsDigit (tk_prec t)
      | kFloat \<Rightarrow>
          float_text (tk_value t) \<and> list_all IsDigit (tk_prec t) \<or> (tk_value t = ''-inf'' \<or> tk_value t = ''+inf'') \<and> tk_prec t = []
      | kTimestamp \<Rightarrow> timestamp_text (tk_value t)
      | kDuration \<Rightarrow> duration_text (tk_value t)
      | kIdent \<Rightarrow> word_text (tk_value t) \<and> word_kind (tk_value t) = kIdent
      | kBool \<Rightarrow> word_text (tk_value t) \<and> word_kind (tk_value t) = kBool
      | kNull \<Rightarrow> word_text (tk_value t) \<and> word_kind (tk_value t) = kNull
      | kComment \<Rightarrow> comment_text (tk_value t)
      | _ \<Rightarrow> True)"

text \<open>The text from \<open>S\<close> to a later suffix, with a sign before the digits.\<close>

lemma taken:
  assumes "front S = sg @ x @ y"
  shows "moved_to (adv (length sg) S) y = adv (length sg + length x) S"
    "substr (lx_input S) (lx_pos S) (lx_pos (adv (length sg + length x) S) - lx_pos S) = sg @ x"
  using assms by (simp_all add: moved_to_def substr_front)

lemma suffix_cut:
  assumes "suffix y s"
  obtains x where "s = x @ y"
  using assms by (auto simp: suffix_def)

lemma LexPrecision_digits: "list_all IsDigit (fst (LexPrecision M))"
proof (cases "Peek 0 M \<noteq> CHR ''p'' \<or> \<not> IsDigit (Peek 1 M)")
  case False
  then obtain s where s: "front M = CHR ''p'' # s" by (cases "front M") (auto simp: Peek_front split: if_splits)
  let ?w = "takeWhile IsDigit s"
  have "length ?w \<le> length s" by (rule length_takeWhile_le)
  then have "lx_pos (adv (length ?w) (adv 1 M)) - lx_pos (adv 1 M) = length ?w" using s by simp
  moreover have "substr (lx_input M) (lx_pos (adv 1 M)) (length ?w) = ?w"
    unfolding substr_front [of "adv 1 M", unfolded adv_fixed] using s takeWhile_eq_take [of IsDigit s, symmetric] by simp
  moreover have "skip_while IsDigit (adv 1 M) = adv (length ?w) (adv 1 M)" using s by (simp add: skip_while_adv)
  ultimately have "fst (LexPrecision M) = ?w"
    unfolding LexPrecision_def if_not_P [OF False] Let_def Advance_adv by (simp only: fst_conv)
  then show ?thesis by (auto simp: list_all_iff dest: set_takeWhileD)
qed (auto simp: LexPrecision_def)

lemma number_token_shape:
  assumes f: "front S = sg @ x @ y" and k: "k = kInt \<and> int_text (sg @ x) \<or> k = kFloat \<and> float_text (sg @ x)"
  shows "token_shape (fst (number_token k p (lx_pos S) (moved_to (adv (length sg) S) y)))"
proof -
  let ?M = "moved_to (adv (length sg) S) y"
  have "substr (lx_input ?M) (lx_pos S) (lx_pos ?M - lx_pos S) = sg @ x" unfolding taken(1) [OF f] using taken(2) [OF f] by simp
  then have "fst (number_token k p (lx_pos S) ?M) = \<lparr>tk_kind = k, tk_value = sg @ x, tk_pos = p, tk_prec = fst (LexPrecision ?M)\<rparr>"
    by (simp add: number_token_def Let_def split: prod.split)
  with k LexPrecision_digits [of ?M] show ?thesis by (auto simp: token_shape_def)
qed

lemma frac_Peek: "(Peek 0 L = CHR ''.'' \<and> IsDigit (Peek 1 L)) = fraction (front L)"
  using IsDigit_nul by (cases "front L"; cases "tl (front L)") (auto simp: Peek_front fraction_def)

lemma unit_Peek: "AtDurationUnit L = unit_first (front L)"
  by (cases "front L"; cases "tl (front L)") (auto simp: Peek_front unit_first_def AtDurationUnit_def at_end_front)


lemma digit_first_split:
  assumes "digit_first f"
  obtains ds where "f = ds @ drop_digits f" "ds \<noteq> []" "list_all IsDigit ds"
proof -
  have "f = takeWhile IsDigit f @ drop_digits f" by simp
  moreover have "takeWhile IsDigit f \<noteq> []" using assms by (cases f) (auto simp: digit_first_def)
  moreover have "list_all IsDigit (takeWhile IsDigit f)" by (auto simp: list_all_iff dest: set_takeWhileD)
  ultimately show ?thesis using that by blast
qed

lemma unsigned_sign: "digit_first x \<Longrightarrow> sg = [] \<or> sg = ''-'' \<Longrightarrow> unsigned_part (sg @ x) = x"
  by (cases x) (auto simp: unsigned_part_def digit_first_def IsDigit_def)

lemma digit_first_append: "digit_first x \<Longrightarrow> digit_first (x @ y)"
  by (cases x) (auto simp: digit_first_def)

lemma LexFloat_shape:
  assumes f: "front S = sg @ f0" and sg: "sg = [] \<or> sg = ''-''" and d: "digit_first f0"
    and pt: "fraction (drop_digits f0) \<or> hd (drop_digits f0) = CHR ''.'' \<or> hd (drop_digits f0) = CHR ''e'' \<or> hd (drop_digits f0) = CHR ''E''"
    and ne: "drop_digits f0 \<noteq> []"
  shows "token_shape (fst (LexFloat p (lx_pos S) (moved_to (adv (length sg) S) (fraction_rest (drop_digits f0)))))"
proof -
  define f1 f2 f3 y where "f1 = drop_digits f0" and "f2 = fraction_rest f1" and "f3 = point_rest f2" and "y = exponent_rest f3"
  have sf: "suffix y f3" "suffix f3 f2" "suffix f2 f1" "suffix f1 f0" by (simp_all add: y_def f3_def f2_def f1_def)
  obtain x3 where x3: "f3 = x3 @ y" using sf(1) by (rule suffix_cut)
  obtain x2 where x2: "f2 = x2 @ y" using suffix_order.trans [OF sf(1,2)] by (rule suffix_cut)
  obtain x1 where x1: "f1 = x1 @ y" using suffix_order.trans [OF sf(1) suffix_order.trans [OF sf(2,3)]] by (rule suffix_cut)
  obtain ds where ds: "f0 = ds @ f1" "ds \<noteq> []" "list_all IsDigit ds" using digit_first_split [OF d] f1_def by metis
  have f0: "f0 = (ds @ x1) @ y" using ds(1) x1 by simp
  have c1: "drop_digits (ds @ x1) = x1" using dropWhile_cut [of IsDigit "ds @ x1" y x1] f0 x1 f1_def by simp
  have c2: "fraction_rest x1 = x2" using fraction_cut x1 x2 f2_def by metis
  have c3: "point_rest x2 = x3" using point_cut x2 x3 f3_def by metis
  have c4: "exponent_rest x3 = []" using exponent_cut x3 y_def by metis
  have "x1 \<noteq> []"
  proof
    assume "x1 = []"
    then have x: "f1 = y" using x1 by simp
    then have "suffix f1 f3" using sf(1) by simp
    then have e: "f2 = f1" "f3 = f1" "y = f1" using sf(2,3) x by (auto intro: suffix_order.antisym suffix_order.trans)
    then have "\<not> fraction f1" using length_dropWhile_le [of IsDigit "tl f1"] unfolding f2_def fraction_rest_def
      by (cases f1) (auto split: if_splits)
    moreover have "hd f1 \<noteq> CHR ''.''" using e length_dropWhile_le [of IsDigit "tl f1"] ne unfolding f3_def point_rest_def f1_def [symmetric]
      by (cases f1) (auto split: if_splits)
    moreover have "hd f1 \<noteq> CHR ''e'' \<and> hd f1 \<noteq> CHR ''E''"
      using e length_dropWhile_le [of IsDigit "tl f1"] length_dropWhile_le [of IsDigit "tl (tl f1)"] ne unfolding y_def exponent_rest_def f1_def [symmetric]
      by (cases f1; cases "tl f1") (auto split: if_splits)
    ultimately show False using pt by (simp add: f1_def)
  qed
  moreover have df: "digit_first (ds @ x1)" using ds(2,3) by (cases ds) (auto simp: digit_first_def)
  ultimately have ft: "float_text (sg @ ds @ x1)"
    using unsigned_sign [OF df sg] c1 c2 c3 c4 by (simp add: float_text_def Let_def del: dropWhile_eq_Nil_conv)
  have fr: "front (adv (length sg) S) = f0" using f by simp
  have s2: "suffix f2 f0" using sf suffix_order.trans by blast
  have "front (moved_to (adv (length sg) S) f2) = f2" using s2 fr by simp
  then have "LexFloat p (lx_pos S) (moved_to (adv (length sg) S) f2) = number_token kFloat p (lx_pos S) (moved_to (adv (length sg) S) y)"
    using s2 fr sf by (simp add: LexFloat_moved f3_def [symmetric] y_def [symmetric] suffix_order.trans [OF sf(1,2)])
  then show ?thesis using number_token_shape [of S sg "ds @ x1" y kFloat p] f f0 ft by (simp add: f2_def f1_def)
qed

lemma unit_first_cut:
  assumes u: "unit_first (x @ y)" and e: "duration_rest (x @ y) = y"
  shows "unit_first x"
proof -
  have unit: "IsDurationUnit c \<Longrightarrow> IsLowerAlpha c" for c by (auto simp: IsDurationUnit_def IsLowerAlpha_def)
  have "\<not> IsDigit (CHR 0xC2)" "\<not> IsLowerAlpha (CHR 0xC2)" by (simp_all add: IsDigit_def IsLowerAlpha_def)
  have nx: "\<not> unit_first y" if "duration_rest y = y"
  proof
    assume "unit_first y"
    then have ne: "y \<noteq> []" and h: "IsDurationUnit (hd y) \<or> hd y = CHR 0xC2 \<and> tl y \<noteq> [] \<and> hd (tl y) = CHR 0xB5" by (auto simp: unit_first_def)
    from h have "duration_rest y = duration_rest (tl y) \<or> duration_rest y = duration_rest (tl (tl y))"
      using ne unit by (subst (1 3) duration_rest.simps) auto
    moreover have "length (tl y) < length y" "length (tl (tl y)) < length y" using ne by (cases y; simp)+
    ultimately have "length (duration_rest y) < length y" using duration_short [of "tl y"] duration_short [of "tl (tl y)"] by auto
    with that show False by simp
  qed
  show ?thesis
  proof (cases x)
    case Nil
    with u e nx show ?thesis by simp
  next
    case (Cons c t)
    show ?thesis
    proof (cases t)
      case Nil
      have "c \<noteq> CHR 0xC2 \<or> y = [] \<or> hd y \<noteq> CHR 0xB5"
      proof (rule ccontr)
        assume "\<not> ?thesis"
        then have y: "c = CHR 0xC2" "y \<noteq> []" "hd y = CHR 0xB5" by simp_all
        have "duration_rest (x @ y) = duration_rest (tl y)"
          unfolding duration_rest.simps [of "x @ y"] using Cons Nil y \<open>\<not> IsDigit (CHR 0xC2)\<close> \<open>\<not> IsLowerAlpha (CHR 0xC2)\<close> by simp
        then have "length y \<le> length (tl y)" using e duration_short by metis
        with y(2) show False by (cases y) simp_all
      qed
      with u Cons Nil show ?thesis by (auto simp: unit_first_def)
    next
      case t: (Cons a v)
      with u Cons show ?thesis by (auto simp: unit_first_def)
    qed
  qed
qed

lemma LexDuration_shape:
  assumes f: "front S = sg @ f0" and sg: "sg = [] \<or> sg = ''-''" and d: "digit_first f0" and u: "unit_first (fraction_rest (drop_digits f0))"
  shows "token_shape (fst (LexDuration p (lx_pos S) (moved_to (adv (length sg) S) (fraction_rest (drop_digits f0)))))"
proof -
  define f1 f2 y where "f1 = drop_digits f0" and "f2 = fraction_rest f1" and "y = duration_rest f2"
  have sf: "suffix y f2" "suffix f2 f1" "suffix f1 f0" by (simp_all add: y_def f2_def f1_def duration_rest_suffix)
  obtain x2 where x2: "f2 = x2 @ y" using sf(1) by (rule suffix_cut)
  obtain x1 where x1: "f1 = x1 @ y" using suffix_order.trans [OF sf(1,2)] by (rule suffix_cut)
  obtain ds where ds: "f0 = ds @ f1" "ds \<noteq> []" "list_all IsDigit ds" using digit_first_split [OF d] f1_def by metis
  have f0: "f0 = (ds @ x1) @ y" using ds(1) x1 by simp
  have c1: "drop_digits (ds @ x1) = x1" using dropWhile_cut [of IsDigit "ds @ x1" y x1] f0 x1 f1_def by simp
  have c2: "fraction_rest x1 = x2" using fraction_cut x1 x2 f2_def by metis
  have c3: "duration_rest x2 = []" using duration_cut x2 y_def by metis
  have c4: "unit_first x2" using unit_first_cut u x2 y_def f2_def f1_def by metis
  have df: "digit_first (ds @ x1)" using ds(2,3) by (cases ds) (auto simp: digit_first_def)
  have fr: "front (adv (length sg) S) = f0" using f by simp
  have s2: "suffix f2 f0" using sf suffix_order.trans by blast
  let ?M = "moved_to (adv (length sg) S) f2"
  have "front ?M = f2" using s2 fr by simp
  then have m: "duration_loop ?M = moved_to (adv (length sg) S) y" using s2 fr sf(1) by (simp add: duration_loop_moved y_def [symmetric])
  have fs: "front S = sg @ (ds @ x1) @ y" using f f0 by simp
  have "substr (lx_input ?M) (lx_pos S) (lx_pos (duration_loop ?M) - lx_pos S) = sg @ ds @ x1"
    unfolding m taken(1) [OF fs] using taken(2) [OF fs] by (simp add: moved_to_def)
  moreover have "ParseDuration (sg @ ds @ x1) \<noteq> None \<Longrightarrow> duration_text (sg @ ds @ x1)"
    using unsigned_sign [OF df sg] df c1 c2 c3 c4 by (simp add: duration_text_def Let_def)
  ultimately show ?thesis by (auto simp: LexDuration_def Let_def token_shape_def mk_token_def f2_def f1_def)
qed

lemma LexTimestamp_shape:
  assumes f: "front S = ds @ f1" "drop_digits f1 = f1" and ds: "list_all IsDigit ds" "length ds = 4" and h: "f1 \<noteq> []" "hd f1 = CHR ''-''"
  shows "token_shape (fst (LexTimestamp p (lx_pos S) (moved_to S f1)))"
proof -
  define y where "y = timestamp_rest f1"
  obtain x where x: "f1 = x @ y" using timestamp_rest_suffix [of f1] unfolding y_def [symmetric] by (rule suffix_cut)
  have c: "timestamp_rest x = []" using timestamp_cut x y_def by metis
  have "\<not> timestamp_end f1" using h by (cases f1) (auto simp: timestamp_end_def)
  then have "y = timestamp_rest (tl f1)" using h(1) by (cases f1) (simp_all add: y_def)
  then have "length y < length f1" using timestamp_short [of "tl f1"] h(1) by (cases f1) simp_all
  then have "x \<noteq> []" using x by auto
  then have hx: "hd x = CHR ''-''" using h(2) x by (cases x) auto
  have fs: "front S = [] @ (ds @ x) @ y" using f(1) x by simp
  have fm: "front (moved_to S f1) = f1" using f(1) by (intro front_moved) (simp add: suffix_def)
  have m: "timestamp_loop (moved_to S f1) = moved_to S y"
    unfolding timestamp_loop_moved fm y_def [symmetric] using f(1) x by (intro moved_moved) (simp_all add: suffix_def)
  have "substr (lx_input (moved_to S f1)) (lx_pos S) (lx_pos (timestamp_loop (moved_to S f1)) - lx_pos S) = ds @ x"
    unfolding m using taken [OF fs] by (simp add: moved_to_def)
  moreover have "ParseRFC3339 (ds @ x) \<noteq> None \<Longrightarrow> timestamp_text (ds @ x)"
    using ds c hx \<open>x \<noteq> []\<close> by (simp add: timestamp_text_def hd_conv_nth nth_append)
  ultimately show ?thesis by (auto simp: LexTimestamp_def Let_def token_shape_def mk_token_def)
qed

lemma LexNumber_digits_shape:
  assumes f: "front S = sg @ f0" and sg: "sg = [] \<or> sg = ''-''" and d: "digit_first f0"
  shows "token_shape (fst (LexNumber_digits p (lx_pos S) (sg \<noteq> []) (adv (length sg) S)))"
proof -
  define L f1 f2 where "L = adv (length sg) S" and "f1 = drop_digits f0" and "f2 = fraction_rest f1"
  obtain ds where ds: "f0 = ds @ f1" "ds \<noteq> []" "list_all IsDigit ds" using digit_first_split [OF d] f1_def by metis
  have fl: "front L = f0" using f by (simp add: L_def)
  have s1: "suffix f1 f0" "suffix f2 f1" by (simp_all add: f1_def f2_def)
  have sk: "skip_while IsDigit L = moved_to L f1" by (simp add: skip_moved fl f1_def)
  have fr1: "front (moved_to L f1) = f1" using s1(1) fl by simp
  have cnt: "lx_pos (moved_to L f1) - lx_pos L = length ds" using ds(1) by (simp add: lx_pos_moved fl)
  have l2: "(if fraction f1 then skip_while IsDigit (Advance (moved_to L f1)) else moved_to L f1) = moved_to L f2"
  proof (cases "fraction f1")
    case True
    then obtain t where t: "f1 = CHR ''.'' # t" by (cases f1) (auto simp: fraction_def)
    have st: "suffix t f0" using s1(1) t suffix_order.trans [of t f1 f0] by (simp add: suffix_ConsI)
    have "Advance (moved_to L f1) = moved_to (moved_to L f1) t" using fr1 t by (intro Advance_moved) simp
    also have "\<dots> = moved_to L t" using s1(1) fl t by (intro moved_moved) (simp_all add: suffix_ConsI)
    finally have "skip_while IsDigit (Advance (moved_to L f1)) = moved_to (moved_to L t) (drop_digits t)" using st fl by (simp add: skip_moved)
    then show ?thesis using True t st fl by (simp add: f2_def fraction_rest_def suffix_dropWhile)
  next
    case False
    then show ?thesis by (simp add: f2_def fraction_rest_def)
  qed
  show ?thesis
  proof (cases "sg = [] \<and> length ds = 4 \<and> \<not> at_end (moved_to L f1) \<and> Peek 0 (moved_to L f1) = CHR ''-''")
    case True
    then have "f1 \<noteq> []" "hd f1 = CHR ''-''" using fr1 by (cases f1; simp add: at_end_front Peek_front)+
    moreover have "drop_digits f1 = f1" by (simp add: f1_def)
    ultimately have "token_shape (fst (LexTimestamp p (lx_pos S) (moved_to S f1)))"
      using LexTimestamp_shape [of S ds f1] f ds True by simp
    moreover have "LexNumber_digits p (lx_pos S) (sg \<noteq> []) L = LexTimestamp p (lx_pos S) (moved_to L f1)"
      using True by (simp add: LexNumber_digits_def Let_def sk cnt)
    ultimately show ?thesis using True by (simp add: L_def)
  next
    case False
    have pt: "(\<not> at_end (moved_to L f2) \<and> (Peek 0 (moved_to L f2) = CHR ''.'' \<or> Peek 0 (moved_to L f2) = CHR ''e'' \<or> Peek 0 (moved_to L f2) = CHR ''E'')) =
      (f2 \<noteq> [] \<and> (hd f2 = CHR ''.'' \<or> hd f2 = CHR ''e'' \<or> hd f2 = CHR ''E''))"
      using suffix_order.trans [OF s1(2,1)] fl by (cases f2) (simp_all add: at_end_front Peek_front)
    have ud: "AtDurationUnit (moved_to L f2) = unit_first f2" using suffix_order.trans [OF s1(2,1)] fl by (simp add: unit_Peek)
    have ln: "LexNumber_digits p (lx_pos S) (sg \<noteq> []) L =
      (if unit_first f2 then LexDuration p (lx_pos S) (moved_to L f2)
       else if fraction f1 \<or> f2 \<noteq> [] \<and> (hd f2 = CHR ''.'' \<or> hd f2 = CHR ''e'' \<or> hd f2 = CHR ''E'') then LexFloat p (lx_pos S) (moved_to L f2)
       else number_token kInt p (lx_pos S) (moved_to L f2))"
    proof -
      have "\<not> (\<not> sg \<noteq> [] \<and> lx_pos (moved_to L f1) - lx_pos L = 4 \<and> \<not> at_end (moved_to L f1) \<and> Peek 0 (moved_to L f1) = CHR ''-'')"
        using False cnt by auto
      then show ?thesis unfolding LexNumber_digits_def Let_def sk frac_Peek fr1 l2 pt ud by (simp only: if_False)
    qed
    show ?thesis
    proof (cases "unit_first f2")
      case True
      then show ?thesis using LexDuration_shape [OF f sg d, of p] ln by (simp add: L_def f2_def f1_def)
    next
      case nu: False
      show ?thesis
      proof (cases "fraction f1 \<or> f2 \<noteq> [] \<and> (hd f2 = CHR ''.'' \<or> hd f2 = CHR ''e'' \<or> hd f2 = CHR ''E'')")
        case True
        then have "f1 \<noteq> []" "fraction f1 \<or> hd f1 = CHR ''.'' \<or> hd f1 = CHR ''e'' \<or> hd f1 = CHR ''E''"
          by (auto simp: f2_def fraction_rest_def split: if_splits)
        then show ?thesis using LexFloat_shape [OF f sg d, of p] ln nu True by (simp add: L_def f2_def f1_def del: dropWhile_eq_Nil_conv)
      next
        case nf: False
        then have "f2 = f1" by (simp add: f2_def fraction_rest_def)
        moreover have "int_text (sg @ ds)" using ds sg by (cases ds) (auto simp: int_text_def unsigned_part_def IsDigit_def)
        moreover have "LexNumber_digits p (lx_pos S) (sg \<noteq> []) L = number_token kInt p (lx_pos S) (moved_to L f2)"
          unfolding ln if_not_P [OF nu] if_not_P [OF nf] ..
        ultimately show ?thesis using number_token_shape [of S sg ds f1 kInt p] f ds(1) by (simp add: L_def)
      qed
    qed
  qed
qed

lemma token_shape_mk [simp]:
  "k \<notin> {kInt, kFloat, kTimestamp, kDuration, kIdent, kBool, kNull, kComment} \<Longrightarrow> token_shape (mk_token k v p)"
  by (cases k) (simp_all add: token_shape_def mk_token_def)

lemma LexNumber_shape:
  assumes f: "front L = c # s" and c: "c = CHR ''-'' \<or> c = CHR ''+'' \<or> IsDigit c"
  shows "token_shape (fst (LexNumber p L))"
proof (cases "c = CHR ''-'' \<or> c = CHR ''+''")
  case False
  then have "LexNumber p L = LexNumber_digits p (lx_pos L) False L" using f by (simp add: LexNumber_def Let_def Peek_front)
  with LexNumber_digits_shape [of L "[]" "c # s" p] f c False show ?thesis by (simp add: digit_first_def)
next
  case True
  show ?thesis
  proof (cases "substr (lx_input L) (lx_pos (Advance L)) 3 = ''inf'' \<and>
      (length (lx_input L) \<le> lx_pos (Advance L) + 3 \<or> \<not> IsIdentPart (lx_input L ! (lx_pos (Advance L) + 3)))")
    case inf: True
    then have "take 3 s = ''inf''" using substr_front [of "Advance L" 3] f by simp
    then obtain r where s: "s = ''inf'' @ r" by (metis append_take_drop_id)
    then have "substr (lx_input L) (lx_pos L) (lx_pos (adv 4 L) - lx_pos L) = c # ''inf''" using f by (simp add: substr_front numeral_eq_Suc)
    moreover have "Advance (Advance (Advance (Advance L))) = adv 4 L" by (simp add: Advance_adv numeral_eq_Suc)
    ultimately have "LexNumber p L = (mk_token kFloat (c # ''inf'') p, adv 4 L)"
      using True inf f by (simp add: LexNumber_def Let_def Peek_front)
    with True show ?thesis by (auto simp: token_shape_def mk_token_def)
  next
    case ninf: False
    show ?thesis
    proof (cases "c = CHR ''-'' \<and> s \<noteq> [] \<and> IsDigit (hd s)")
      case dig: True
      then have "\<not> at_end (Advance L)" "IsDigit (Peek 0 (Advance L))" using f by (cases s; simp add: at_end_front Peek_front)+
      with dig ninf f have "LexNumber p L = LexNumber_digits p (lx_pos L) True (adv 1 L)"
        unfolding LexNumber_def Let_def by (auto simp: Peek_front Advance_adv)
      with LexNumber_digits_shape [of L "''-''" s p] f dig show ?thesis by (simp add: digit_first_def)
    next
      case nd: False
      then have "at_end (Advance L) \<or> \<not> IsDigit (Peek 0 (Advance L)) \<or> c = CHR ''+''" using f True by (cases s) (auto simp: at_end_front Peek_front)
      with ninf True f show ?thesis unfolding LexNumber_def Let_def by (auto simp: Peek_front)
    qed
  qed
qed

lemma LexIdent_shape:
  assumes f: "front L = c # s" and c: "IsIdentStart c"
  shows "token_shape (fst (LexIdent p L))"
proof -
  let ?w = "takeWhile IsIdentPart (c # s)"
  have w: "?w = c # takeWhile IsIdentPart s" using c by (simp add: IsIdentPart_def)
  have "word_text ?w" using c unfolding w word_text_def by (auto simp: list_all_iff dest: set_takeWhileD)
  moreover have "substr (lx_input L) (lx_pos L) (lx_pos (skip_while IsIdentPart L) - lx_pos L) = ?w"
  proof -
    have "length ?w \<le> length (front L)" unfolding f by (rule length_takeWhile_le)
    then show ?thesis unfolding skip_while_adv f using f by (simp add: substr_front takeWhile_eq_take [symmetric])
  qed
  ultimately show ?thesis by (auto simp: LexIdent_def Let_def token_shape_def mk_token_def word_kind_def)
qed

lemma scan_for_found:
  "scan_for ''*/'' L = (True, L') \<Longrightarrow> \<exists>n. L' = adv n L \<and> n + 2 \<le> length (front L) \<and> closes (take (n + 2) (front L))"
proof (induction "''*/''" L rule: scan_for.induct)
  case (1 L)
  show ?case
  proof (cases "length (lx_input L) < lx_pos L + 2 \<or> at_end L")
    case True
    with 1(2) show ?thesis by (subst (asm) scan_for.simps) (simp add: numeral_2_eq_2)
  next
    case False
    then obtain a b s where s: "front L = a # b # s" using front_length [of L] by (cases "front L"; cases "tl (front L)") (auto simp: at_end_front)
    show ?thesis
    proof (cases "a = CHR ''*'' \<and> b = CHR ''/''")
      case True
      then have "scan_for ''*/'' L = (True, L)" using False s by (subst scan_for.simps) (simp add: substr_front numeral_2_eq_2)
      with 1(2) s True show ?thesis by (intro exI [of _ 0]) (simp add: numeral_2_eq_2)
    next
      case nc: False
      have ne: "substr (lx_input L) (lx_pos L) (length ''*/'') \<noteq> ''*/''" using s nc by (auto simp: substr_front)
      then have "scan_for ''*/'' (Advance L) = (True, L')"
        using 1(2) False by (subst (asm) scan_for.simps) (simp add: numeral_2_eq_2)
      with 1(1) ne False obtain n where n: "L' = adv n (Advance L)" "n + 2 \<le> length (front (Advance L))" "closes (take (n + 2) (front (Advance L)))"
        by (auto simp: numeral_2_eq_2)
      with s nc show ?thesis by (intro exI [of _ "Suc n"]) (auto simp: adv_Suc)
    qed
  qed
qed

lemma LexBlockComment_shape:
  assumes f: "front L = CHR ''/'' # CHR ''*'' # s" and strict: "lx_errors L = None"
  shows "token_shape (fst (LexBlockComment p L))"
proof (cases "scan_for ''*/'' (Advance (Advance L))")
  case (Pair found L1)
  show ?thesis
  proof (cases found)
    case True
    obtain n where n: "L1 = adv n (adv 2 L)" "n + 2 \<le> length s" "closes (take (n + 2) s)"
      using scan_for_found [of "Advance (Advance L)" L1] Pair True f by (auto simp: Advance_adv numeral_2_eq_2)
    have "Advance (Advance L1) = adv (n + 4) L" using n(1) by (simp add: Advance_adv numeral_eq_Suc)
    moreover have "substr (lx_input L) (lx_pos L) (lx_pos (adv (n + 4) L) - lx_pos L) = CHR ''/'' # CHR ''*'' # take (n + 2) s"
      using f n(2) by (simp add: substr_front numeral_eq_Suc)
    ultimately have "LexBlockComment p L = (mk_token kComment (CHR ''/'' # CHR ''*'' # take (n + 2) s) p, adv (n + 4) L)"
      unfolding LexBlockComment_def Pair Let_def using True by (simp del: Advance_fixed(5))
    with n(3) show ?thesis by (simp add: token_shape_def mk_token_def comment_text_def block_comment_def)
  next
    case False
    have "Tolerant L1 = Tolerant L" using moves_fixed [OF moves_scan [of "Advance (Advance L)" "''*/''"]] Pair by (simp add: Tolerant_def)
    with Pair False strict show ?thesis by (simp add: LexBlockComment_def Tolerant_def)
  qed
qed

lemma LexLineComment_shape:
  assumes f: "front L = s" and c: "take 1 s = ''#'' \<or> take 2 s = ''//''"
  shows "token_shape (fst (LexLineComment p L))"
proof -
  let ?w = "takeWhile (\<lambda>c. c \<noteq> CHR 0x0A) s"
  have "length ?w \<le> length s" by (rule length_takeWhile_le)
  then have "fst (LexLineComment p L) = mk_token kComment ?w p"
    using f by (simp add: LexLineComment_def Let_def skip_while_adv substr_front takeWhile_eq_take [symmetric])
  moreover have "line_comment ?w"
    using c by (cases s; cases "tl s") (auto simp: line_comment_def list_all_iff dest: set_takeWhileD)
  ultimately show ?thesis by (simp add: token_shape_def mk_token_def comment_text_def)
qed

lemma string_token_shape: "lx_errors L = None \<Longrightarrow> token_shape (fst (LexString_loop p vs needs sb L))"
proof (induction p vs needs sb L rule: LexString_loop.induct)
  case (1 p vs needs sb L)
  obtain r L' where r: "LexString_escape (Advance L) = (r, L')" by fastforce
  have "lx_errors L' = None" using moves_fixed [OF moves_escape [of "Advance L"]] r 1(4) by (simp add: Tolerant_def)
  then show ?case using 1 r
    by (subst LexString_loop.simps) (auto simp: Let_def string_token_def Tolerant_def split: sum.split)
qed

lemma bytes_token_shape: "lx_errors L = None \<Longrightarrow> token_shape (fst (LexBytes_loop p start L))"
proof (induction p start L rule: LexBytes_loop.induct)
  case (1 p start L)
  then show ?case by (subst LexBytes_loop.simps) (auto simp: Let_def Tolerant_def)
qed

lemma if_shape: "(b \<Longrightarrow> token_shape (fst x)) \<Longrightarrow> (\<not> b \<Longrightarrow> token_shape (fst y)) \<Longrightarrow> token_shape (fst (if b then x else y))"
  by simp

lemma Next_shape:
  assumes n: "Next ranges L0 = (t, L')" and strict: "lx_errors L0 = None"
  shows "token_shape t"
proof -
  define L where "L = SkipSpaces L0"
  have e: "lx_errors L = None" using strict by (simp add: L_def SkipSpaces_adv)
  have pk: "punctuation c = Some k \<Longrightarrow> token_shape (mk_token k v p)" for c k v p
    by (rule token_shape_mk) (auto simp: punctuation_def split: if_splits)
  show ?thesis
  proof (cases "front L")
    case Nil
    then show ?thesis using n by (auto simp: Next_def Let_def L_def [symmetric] at_end_front)
  next
    case (Cons c s)
    have p0: "Peek 0 L = c" "\<not> at_end L" using Cons by (simp_all add: Peek_front at_end_front)
    have p1: "c = CHR ''/'' \<Longrightarrow> Peek 1 L = CHR ''/'' \<Longrightarrow> take 2 (front L) = ''//''" "c = CHR ''/'' \<Longrightarrow> Peek 1 L = CHR ''*'' \<Longrightarrow> \<exists>u. front L = CHR ''/'' # CHR ''*'' # u"
      using Cons by (cases s; auto simp: Peek_front)+
    have tr: "token_shape (fst (LexTripleString p L))" for p
    proof -
      have "Tolerant (snd (scan_for [CHR 0x22, CHR 0x22, CHR 0x22] (Advance (Advance (Advance L))))) = Tolerant L"
        using moves_fixed [OF moves_scan [of "Advance (Advance (Advance L))" "[CHR 0x22, CHR 0x22, CHR 0x22]"]] by (simp add: Tolerant_def)
      then show ?thesis using e by (auto simp: LexTripleString_def Let_def Tolerant_def split: prod.split bool.split)
    qed
    have st: "token_shape (fst (LexString p L))" for p using string_token_shape e by (simp add: LexString_def)
    have by': "token_shape (fst (LexBytes p L))" for p using bytes_token_shape e by (simp add: LexBytes_def Let_def)
    have di: "token_shape (fst (LexDirective p L))" for p by (simp add: LexDirective_def Let_def)
    have "token_shape (fst (Next ranges L0))"
      unfolding Next_def Let_def L_def [symmetric] p0(1)
    proof (intro if_shape, goal_cases)
      case 3
      then show ?case using p1(1) Cons LexLineComment_shape [of L "front L"] by auto
    next
      case 4
      then show ?case using p1(2) LexBlockComment_shape [OF _ e] by auto
    next
      case 8
      show ?case
      proof (cases "punctuation c")
        case None
        show ?thesis unfolding None option.case
        proof (intro if_shape, goal_cases)
          case 2
          then show ?case using LexNumber_shape [OF Cons] by simp
        next
          case 3
          then show ?case using LexIdent_shape [OF Cons] by simp
        qed (use di in \<open>auto split: prod.split\<close>)
      qed (simp add: pk)
    qed (use p0(2) tr st by' in simp_all)
    with n show ?thesis by simp
  qed
qed

text \<open>A key that lexes as a bare key is a word or an integer.\<close>

lemma bare_key_text:
  assumes "LexesAsBareMapKey ranges s"
  shows "word_text s \<and> word_kind s \<in> {kIdent, kBool} \<or> int_text s"
proof -
  obtain t L where n: "Next ranges (new_lexer s) = (t, L)" by fastforce
  have "token_shape t" using Next_shape [OF n] by (simp add: new_lexer_def new_lexer_at_def)
  then show ?thesis using assms n by (auto simp: LexesAsBareMapKey_def token_shape_def)
qed

lemma safe_word: "IsIdentifierSafe s \<Longrightarrow> word_text s \<and> word_kind s = kIdent"
  by (auto simp: IsIdentifierSafe_def IsIdentifierSafeEntryName_def word_text_def word_kind_def)

lemma safe_key_bare:
  assumes "IsIdentifierSafe s"
  shows "LexesAsBareMapKey ranges s"
proof -
  have w: "word_text s" "word_kind s = kIdent" using safe_word [OF assms] by simp_all
  let ?L = "adv (length s) (new_lexer s)"
  have f: "front (new_lexer s) = s @ []" by (simp add: front_def new_lexer_def new_lexer_at_def)
  have "Next ranges (new_lexer s) = (\<lparr>tk_kind = kIdent, tk_value = s, tk_pos = CurrentPos (new_lexer s), tk_prec = []\<rparr>, ?L)"
    using Next_word_ends [OF f w(1)] w(2) by simp
  moreover have "tk_kind (fst (Next ranges ?L)) = kEOF"
    using f by (simp add: Next_def SkipSpaces_adv at_end_front mk_token_def Let_def)
  ultimately show ?thesis by (simp add: LexesAsBareMapKey_def)
qed

text \<open>The spelling of a map key is settled: written and read again it is written the same way.\<close>

lemma MapKeyQuoted_stable: "MapKeyQuoted ranges key (MapKeyQuoted ranges key q) = MapKeyQuoted ranges key q"
  using safe_key_bare by (auto simp: MapKeyQuoted_def)

lemma map_key_text: "\<not> MapKeyQuoted ranges key q \<Longrightarrow> word_text key \<and> word_kind key \<in> {kIdent, kBool} \<or> int_text key"
  using bare_key_text safe_word by (auto simp: MapKeyQuoted_def split: if_splits)

end
