(* ===== verification/PxfFormatRoundtrip.thy ===== *)
theory PxfFormatRoundtrip
  imports PxfShapes
begin

text \<open>
  What the formatter writes, the parser reads back: \<open>Parse\<close> of the text \<open>FormatDocument\<close> makes of a tree gives the tree
  again, up to positions. The proof follows the parser over the formatted text. Its state between two tokens is described by the
  lexer that stood where the current token was about to be read.
\<close>

section \<open>The parser over a text\<close>

text \<open>A strict parser that has just read the next token from \<open>L\<close>, with the comments \<open>cs\<close> pending before it.\<close>

definition ready :: "ranges \<Rightarrow> int \<Rightarrow> int \<Rightarrow> Parser \<Rightarrow> Comment list \<Rightarrow> Lexer \<Rightarrow> bool" where
  "ready ranges D M P cs L \<longleftrightarrow>
     Advance_loop ranges cs L = (ps_current P, ps_comments P, ps_lex P) \<and> \<not> ps_tolerant P \<and> ps_max_depth P = D \<and>
     lx_errors L = None \<and> lx_max_bytes L = M"

lemma ready_strict: "ready ranges D M P cs L \<Longrightarrow> \<not> ps_tolerant P \<and> ps_max_depth P = D \<and> lx_errors L = None \<and> lx_max_bytes L = M"
  by (simp add: ready_def)

lemma Next_strict: "Next ranges L = (t, L') \<Longrightarrow> lx_errors L = None \<Longrightarrow> lx_errors L' = None \<and> lx_max_bytes L' = lx_max_bytes L"
  using moves_fixed [OF Next_moves_all] by (fastforce simp: Tolerant_def)

lemma ready_blanks:
  assumes "front L = w @ s" "list_all blank w"
  shows "ready ranges D M P cs L \<longleftrightarrow> ready ranges D M P cs (adv (length w) L)"
  using assms
proof (induction w arbitrary: L)
  case (Cons c w)
  have "ready ranges D M P cs L \<longleftrightarrow> ready ranges D M P cs (adv 1 L)"
    using Next_blank [of L c "w @ s" ranges] Cons.prems by (simp add: ready_def Advance_loop.simps [of ranges cs])
  also have "\<dots> \<longleftrightarrow> ready ranges D M P cs (adv (length w) (adv 1 L))" using Cons.prems by (intro Cons.IH) simp_all
  finally show ?case by simp
qed simp

lemma ready_newline:
  assumes "front L = CHR 0x0A # s"
  shows "ready ranges D M P cs L \<longleftrightarrow> ready ranges D M P cs (adv 1 L)"
  using Next_newline [OF assms, of ranges] by (simp add: ready_def Advance_loop.simps [of ranges cs L] mk_token_def)

lemma ready_comment:
  assumes "front L = s @ CHR 0x0A # r" "comment_text s"
  shows "ready ranges D M P cs L \<longleftrightarrow> ready ranges D M P (cs @ [\<lparr>cm_pos = CurrentPos L, cm_text = s\<rparr>]) (adv (length s) L)"
  using Next_comment [OF assms] by (auto simp: ready_def Advance_loop.simps [of ranges cs L] mk_token_def)

lemma ready_token:
  assumes "ready ranges D M P cs L" "Next ranges L = (t, L')" "tk_kind t \<noteq> kNewline" "tk_kind t \<noteq> kComment"
  shows "ps_current P = t \<and> ps_comments P = cs \<and> ps_lex P = L'"
  using assms by (simp add: ready_def Advance_loop.simps [of ranges cs L])

lemma ready_lex: "ready ranges D M P cs L \<Longrightarrow> lx_errors (ps_lex P) = None \<and> lx_max_bytes (ps_lex P) = M"
  using moves_fixed [of L "ps_lex P"] by (auto simp: ready_def Tolerant_def dest!: Advance_loop_grows)

lemma ready_Advance:
  assumes "ready ranges D M P cs L"
  shows "ready ranges D M (Parser_Advance ranges P) (ps_comments P) (ps_lex P)"
proof -
  obtain t cs' L' where a: "Advance_loop ranges (ps_comments P) (ps_lex P) = (t, cs', L')" by (metis prod_cases3)
  with assms ready_lex [OF assms] show ?thesis by (simp add: ready_def Parser_Advance_def)
qed

lemma ready_left: "ready ranges D M P cs L \<Longrightarrow> ps_left P \<le> lx_left L"
  unfolding ready_def ps_left_def using Advance_loop_left by fastforce

text \<open>Pending comments are taken away or put in front without reading anything again.\<close>

lemma Advance_loop_comments: "Advance_loop ranges (cs @ ds) L = (t, cs @ es, L') \<longleftrightarrow> Advance_loop ranges ds L = (t, es, L')"
proof (induction ranges ds L arbitrary: es rule: Advance_loop.induct)
  case (1 ranges ds L)
  obtain u N where N: "Next ranges L = (u, N)" by fastforce
  show ?case
    using 1(1) [OF N [symmetric]] 1(2) [OF N [symmetric]]
    by (subst (1 2) Advance_loop.simps) (simp add: N)
qed

lemma ready_drop:
  assumes "ready ranges D M P (cs @ ds) L"
  obtains es where "ps_comments P = cs @ es" "ready ranges D M (P\<lparr>ps_comments := es\<rparr>) ds L"
proof -
  from assms have "Advance_loop ranges (cs @ ds) L = (ps_current P, ps_comments P, ps_lex P)" by (simp add: ready_def)
  moreover obtain es where "ps_comments P = cs @ es" using Advance_loop_grows [OF calculation] by auto
  ultimately show ?thesis using that assms by (simp add: ready_def Advance_loop_comments)
qed

section \<open>Trees up to positions\<close>

text \<open>
  The content of a tree: without positions, comments reduced to their text, and a map key quoted as the formatter
  writes it.
\<close>

definition strip_comment :: "Comment \<Rightarrow> Comment" where
  "strip_comment c = \<lparr>cm_pos = start_position, cm_text = cm_text c\<rparr>"

lemma strip_comment_mk [simp]: "strip_comment \<lparr>cm_pos = p, cm_text = cm_text c\<rparr> = strip_comment c"
  by (simp add: strip_comment_def)

fun strip_value :: "ranges \<Rightarrow> Value \<Rightarrow> Value"
and strip_entry :: "ranges \<Rightarrow> Entry \<Rightarrow> Entry" where
  "strip_value ranges (StringVal p e s) = StringVal start_position start_position s"
| "strip_value ranges (IntVal p e raw prec) = IntVal start_position start_position raw prec"
| "strip_value ranges (FloatVal p e raw prec) = FloatVal start_position start_position raw prec"
| "strip_value ranges (BoolVal p e b) = BoolVal start_position start_position b"
| "strip_value ranges (BytesVal p e bs) = BytesVal start_position start_position bs"
| "strip_value ranges (NullVal p e) = NullVal start_position start_position"
| "strip_value ranges (BadVal p e) = BadVal start_position start_position"
| "strip_value ranges (IdentVal p e name) = IdentVal start_position start_position name"
| "strip_value ranges (TimestampVal p e seconds nanos raw) = TimestampVal start_position start_position seconds nanos raw"
| "strip_value ranges (DurationVal p e seconds nanos raw) = DurationVal start_position start_position seconds nanos raw"
| "strip_value ranges (ListVal p e vs) = ListVal start_position start_position (map (strip_value ranges) vs)"
| "strip_value ranges (BlockVal p e es trailing) =
     BlockVal start_position start_position (map (strip_entry ranges) es) (map strip_comment trailing)"
| "strip_entry ranges (Assignment p e key q v leading trailing) =
     Assignment start_position start_position key q (strip_value ranges v) (map strip_comment leading) trailing"
| "strip_entry ranges (MapEntry p e key q v leading trailing) =
     MapEntry start_position start_position key (MapKeyQuoted ranges key q) (strip_value ranges v) (map strip_comment leading) trailing"
| "strip_entry ranges (TypeEntry p e url leading trailing) =
     TypeEntry start_position start_position url (map strip_comment leading) trailing"
| "strip_entry ranges (Block p e name q es leading trailing) =
     Block start_position start_position name q (map (strip_entry ranges) es) (map strip_comment leading) (map strip_comment trailing)"

text \<open>
  Trees whose literals are literals: numbers, times and names are texts the lexer reads as such, bytes are within the limit \<open>M\<close>,
  comments are comments, the nesting is at most \<open>n\<close>, and a type entry is the first of its block.
\<close>

definition name_text :: "string \<Rightarrow> bool" where
  "name_text s \<longleftrightarrow> word_text s \<and> word_kind s = kIdent"

definition comments_text :: "Comment list \<Rightarrow> bool" where
  "comments_text cs \<longleftrightarrow> list_all (\<lambda>c. comment_text (cm_text c)) cs"

definition trailing_text :: "string \<Rightarrow> bool" where
  "trailing_text s \<longleftrightarrow> s = [] \<or> comment_text s"

fun printable_value :: "ranges \<Rightarrow> int \<Rightarrow> nat \<Rightarrow> Value \<Rightarrow> bool"
and printable_entry :: "ranges \<Rightarrow> int \<Rightarrow> nat \<Rightarrow> Entry \<Rightarrow> bool" where
  "printable_value ranges M n (IntVal p e raw prec) = (int_text raw \<and> list_all IsDigit prec)"
| "printable_value ranges M n (FloatVal p e raw prec) =
     (float_text raw \<and> list_all IsDigit prec \<or> (raw = ''-inf'' \<or> raw = ''+inf'') \<and> prec = [])"
| "printable_value ranges M n (BytesVal p e bs) = bytes_fit M bs"
| "printable_value ranges M n (BadVal p e) = False"
| "printable_value ranges M n (IdentVal p e name) = name_text name"
| "printable_value ranges M n (TimestampVal p e seconds nanos raw) = (timestamp_text raw \<and> ParseRFC3339 raw = Some (seconds, nanos))"
| "printable_value ranges M n (DurationVal p e seconds nanos raw) = (duration_text raw \<and> ParseDuration raw = Some (seconds, nanos))"
| "printable_value ranges M n (ListVal p e vs) = (case n of 0 \<Rightarrow> False | Suc m \<Rightarrow> list_all (printable_value ranges M m) vs)"
| "printable_value ranges M n (BlockVal p e es trailing) =
     (case n of 0 \<Rightarrow> False
      | Suc m \<Rightarrow> list_all (printable_entry ranges M m) es \<and> list_all (\<lambda>x. \<not> is_TypeEntry x) (tl es) \<and> comments_text trailing)"
| "printable_value ranges M n _ = True"
| "printable_entry ranges M n (Assignment p e key q v leading trailing) =
     ((q \<or> name_text key) \<and> printable_value ranges M n v \<and> comments_text leading \<and> trailing_text trailing)"
| "printable_entry ranges M n (MapEntry p e key q v leading trailing) =
     (printable_value ranges M n v \<and> comments_text leading \<and> trailing_text trailing)"
| "printable_entry ranges M n (TypeEntry p e url leading trailing) = (comments_text leading \<and> trailing_text trailing)"
| "printable_entry ranges M n (Block p e name q es leading trailing) =
     (case n of 0 \<Rightarrow> False
      | Suc m \<Rightarrow> (q \<or> name_text name) \<and> list_all (printable_entry ranges M m) es \<and> list_all (\<lambda>x. \<not> is_TypeEntry x) (tl es) \<and>
          comments_text leading \<and> comments_text trailing)"

section \<open>Comments in front\<close>

lemma WriteIndent_blank: "list_all blank indent \<Longrightarrow> list_all blank (WriteIndent indent level)"
  by (auto simp: WriteIndent_def list_all_iff)

lemma adv_line: "lx_line L \<le> lx_line (adv n L)"
proof (induction n arbitrary: L)
  case (Suc n)
  have "lx_line L \<le> lx_line (Advance L)" by (simp add: Advance_def)
  with Suc [of "Advance L"] show ?case by (simp add: adv_Suc)
qed simp

lemma ready_comments:
  assumes "list_all blank indent" "comments_text cs" "front L = WriteComments indent cs level @ s"
  obtains n cs' where "front (adv n L) = s" "map strip_comment cs' = map strip_comment cs"
    "\<And>P ds. ready ranges D M P ds L \<longleftrightarrow> ready ranges D M P (ds @ cs') (adv n L)"
  using assms
proof (induction cs arbitrary: L thesis)
  case Nil
  then show ?case by (auto simp: WriteComments_def intro: Nil(1) [of 0 "[]"])
next
  case (Cons c cs)
  let ?w = "WriteIndent indent level" and ?t = "cm_text c"
  let ?r = "WriteComments indent cs level @ s" and ?A = "adv (length (WriteIndent indent level)) L"
  let ?c = "\<lparr>cm_pos = CurrentPos ?A, cm_text = ?t\<rparr>" and ?k = "length ?w + length ?t + 1"
  have f: "front L = ?w @ ?t @ CHR 0x0A # ?r" using Cons.prems(4) by (simp add: WriteComments_def)
  have t: "comment_text ?t" "comments_text cs" using Cons.prems(3) by (simp_all add: comments_text_def)
  have step: "ready ranges D M P ds L \<longleftrightarrow> ready ranges D M P (ds @ [?c]) (adv ?k L)" for P ds
  proof -
    have "ready ranges D M P ds L \<longleftrightarrow> ready ranges D M P ds ?A" using f WriteIndent_blank [OF Cons.prems(2)] by (rule ready_blanks)
    also have "\<dots> \<longleftrightarrow> ready ranges D M P (ds @ [?c]) (adv (length ?t) ?A)" using f t(1) by (intro ready_comment) simp_all
    also have "\<dots> \<longleftrightarrow> ready ranges D M P (ds @ [?c]) (adv 1 (adv (length ?t) ?A))" using f by (intro ready_newline [of _ ?r]) simp
    finally show ?thesis by simp
  qed
  have "front (adv ?k L) = ?r" using f by simp
  from Cons.IH [OF _ Cons.prems(2) t(2) this] obtain n cs' where n: "front (adv n (adv ?k L)) = s" "map strip_comment cs' = map strip_comment cs"
    "\<And>P ds. ready ranges D M P ds (adv ?k L) \<longleftrightarrow> ready ranges D M P (ds @ cs') (adv n (adv ?k L))" by blast
  show ?case
    using n step by (intro Cons.prems(1) [of "?k + n" "?c # cs'"]) simp_all
qed

lemma moves_line: "moves L L' \<Longrightarrow> lx_line L \<le> lx_line L'"
  by (induction rule: moves.induct) (auto simp: Advance_def Report_def)

lemma Next_line: "Next ranges L = (t, L') \<Longrightarrow> lx_line L \<le> pos_line (tk_pos t)"
proof -
  assume n: "Next ranges L = (t, L')"
  have "lx_line L \<le> lx_line (SkipSpaces L)" using moves_line [OF SkipSpaces_moves] .
  moreover have "tk_pos t = CurrentPos (SkipSpaces L)"
    using Next_moves [where ranges = ranges and ?L0.0 = L] n by (auto simp: mk_token_def split: if_splits)
  ultimately show ?thesis by (simp add: CurrentPos_def)
qed

lemma Advance_loop_lines:
  "Advance_loop ranges cs L = (t, cs @ es, L') \<Longrightarrow> c \<in> set es \<Longrightarrow> lx_line L \<le> pos_line (cm_pos c)"
proof (induction ranges cs L arbitrary: es rule: Advance_loop.induct)
  case (1 ranges cs L)
  obtain u N where N: "Next ranges L = (u, N)" by fastforce
  have l: "lx_line L \<le> pos_line (tk_pos u)" "lx_line L \<le> lx_line N" using Next_line [OF N] moves_line [OF Next_moves_all [OF N]] by simp_all
  consider (nl) "tk_kind u = kNewline" | (cm) "tk_kind u \<noteq> kNewline" "tk_kind u = kComment" | (tok) "tk_kind u \<noteq> kNewline" "tk_kind u \<noteq> kComment" by blast
  then show ?case
  proof cases
    case nl
    then have "Advance_loop ranges cs N = (t, cs @ es, L')" using 1(3) N by (subst (asm) Advance_loop.simps) simp
    from 1(1) [OF N [symmetric] nl this 1(4)] l show ?thesis by linarith
  next
    case cm
    let ?c = "\<lparr>cm_pos = tk_pos u, cm_text = tk_value u\<rparr>"
    have a: "Advance_loop ranges (cs @ [?c]) N = (t, cs @ es, L')" using 1(3) N cm by (subst (asm) Advance_loop.simps) simp
    then obtain fs where fs: "es = ?c # fs" using Advance_loop_grows [OF a] by auto
    from 1(2) [OF N [symmetric] cm, of fs] a fs 1(4) l show ?thesis by auto
  next
    case tok
    then have "es = []" using 1(3) N by (subst (asm) Advance_loop.simps) simp
    with 1(4) show ?thesis by simp
  qed
qed

lemma ready_trailing:
  assumes r: "ready ranges D M P [] L" and f: "front L = write_trailing t @ CHR 0x0A # s" and t: "trailing_text t"
  obtains P' n where "TakeTrailingComment (CurrentPos L) P = (t, P')" "ready ranges D M P' [] (adv n L)" "front (adv n L) = s"
proof (cases "t = []")
  case True
  then have f': "front L = CHR 0x0A # s" using f by (simp add: write_trailing_def)
  then have ra: "ready ranges D M P [] (adv 1 L)" using r ready_newline by blast
  have "lx_line (adv 1 L) = Suc (lx_line L)"
    using front_Cons(1,6) [OF f'] by (simp add: adv_def Advance_def)
  then have "c \<in> set (ps_comments P) \<Longrightarrow> lx_line L < pos_line (cm_pos c)" for c
    using ra Advance_loop_lines [of ranges "[]" "adv 1 L" "ps_current P" "ps_comments P" "ps_lex P" c] by (simp add: ready_def)
  then have "TakeTrailingComment (CurrentPos L) P = (t, P)"
    using True by (cases "ps_comments P") (fastforce simp: TakeTrailingComment_def CurrentPos_def)+
  with ra f' show ?thesis using that [of P 1] by simp
next
  case False
  then have f': "front L = CHR '' '' # t @ CHR 0x0A # s" and ct: "comment_text t" using f t by (auto simp: write_trailing_def trailing_text_def)
  let ?c = "\<lparr>cm_pos = CurrentPos (adv 1 L), cm_text = t\<rparr>"
  have "ready ranges D M P [] (adv 1 L)" using r f' ready_blanks [of L "[CHR '' '']"] by (simp add: blank_def)
  then have "ready ranges D M P ([?c] @ []) (adv (length t) (adv 1 L))" using f' ct ready_comment [of "adv 1 L" t s] by simp
  then obtain es where es: "ps_comments P = [?c] @ es" "ready ranges D M (P\<lparr>ps_comments := es\<rparr>) [] (adv (length t) (adv 1 L))" by (rule ready_drop)
  have "lx_line (adv 1 L) = lx_line L" "lx_pos (adv 1 L) = lx_pos L + 1" using front_Cons(1,6) [OF f'] by (simp_all add: adv_def Advance_def)
  then have "TakeTrailingComment (CurrentPos L) P = (t, P\<lparr>ps_comments := es\<rparr>)"
    using es(1) by (simp add: TakeTrailingComment_def CurrentPos_def)
  moreover have "ready ranges D M (P\<lparr>ps_comments := es\<rparr>) [] (adv (length t + 2) L)"
    using es(2) f' ready_newline [of "adv (length t + 1) L" s] by simp
  ultimately show ?thesis using that f' by simp
qed

section \<open>Values\<close>

text \<open>The bytes that may follow a value, and the tokens a value may start with.\<close>

definition value_stop :: "char \<Rightarrow> bool" where
  "value_stop d \<longleftrightarrow> stop d \<and> d \<noteq> CHR '':''"

definition value_token :: "TokenKind \<Rightarrow> bool" where
  "value_token k \<longleftrightarrow> k \<in> {kString, kInt, kFloat, kBool, kBytes, kTimestamp, kDuration, kNull, kIdent, kLBracket, kLBrace}"

text \<open>The parser at \<open>P\<close>, with the text of \<open>v\<close> in front, reads \<open>v\<close> and stops right after it.\<close>

definition reads_value :: "ranges \<Rightarrow> int \<Rightarrow> int \<Rightarrow> Value parsing \<Rightarrow> string \<Rightarrow> Value \<Rightarrow> bool" where
  "reads_value ranges D M pv text v \<longleftrightarrow>
     (\<forall>P L d r. ready ranges D M P [] L \<longrightarrow> front L = text @ d # r \<longrightarrow> value_stop d \<longrightarrow>
        value_token (kind P) \<and>
        (\<exists>v' P' L'. pv P = Some (Inr v', P') \<and> strip_value ranges v' = strip_value ranges v \<and> ready ranges D M P' [] L' \<and>
           front L' = d # r \<and> value_end v' = CurrentPos L' \<and> lx_left L' \<le> lx_left (ps_lex P)))"

lemma reads_valueE:
  assumes "reads_value ranges D M pv text v" "ready ranges D M P [] L" "front L = text @ d # r" "value_stop d"
  obtains v' P' L' where "value_token (kind P)" "pv P = Some (Inr v', P')" "strip_value ranges v' = strip_value ranges v"
    "ready ranges D M P' [] L'" "front L' = d # r" "value_end v' = CurrentPos L'" "lx_left L' \<le> lx_left (ps_lex P)"
  using assms unfolding reads_value_def by blast

lemma value_step_strict:
  "\<not> ps_tolerant P \<Longrightarrow> value_step ranges parse_list parse_block P =
     (case kind P of
        kString \<Rightarrow> token_value ranges (\<lambda>p e. StringVal p e (cur_value P)) P
      | kInt \<Rightarrow> token_value ranges (\<lambda>p e. IntVal p e (cur_value P) (tk_prec (ps_current P))) P
      | kFloat \<Rightarrow> token_value ranges (\<lambda>p e. FloatVal p e (cur_value P) (tk_prec (ps_current P))) P
      | kBool \<Rightarrow> token_value ranges (\<lambda>p e. BoolVal p e (cur_value P = ''true'')) P
      | kBytes \<Rightarrow>
          (case Base64DecodeLenient (cur_value P) of
             Inl offset \<Rightarrow> Err (cur_pos P) (''invalid base64: illegal base64 data at input byte '' @ to_string offset) P
           | Inr decoded \<Rightarrow> token_value ranges (\<lambda>p e. BytesVal p e decoded) P)
      | kTimestamp \<Rightarrow>
          (case ParseRFC3339 (cur_value P) of
             Some (seconds, nanos) \<Rightarrow> token_value ranges (\<lambda>p e. TimestampVal p e seconds nanos (cur_value P)) P
           | None \<Rightarrow> token_value ranges (\<lambda>p e. TimestampVal p e 0 0 (cur_value P)) P)
      | kDuration \<Rightarrow>
          (case ParseDuration (cur_value P) of
             Some (seconds, nanos) \<Rightarrow> token_value ranges (\<lambda>p e. DurationVal p e seconds nanos (cur_value P)) P
           | None \<Rightarrow> token_value ranges (\<lambda>p e. DurationVal p e 0 0 (cur_value P)) P)
      | kNull \<Rightarrow> token_value ranges NullVal P
      | kIdent \<Rightarrow> token_value ranges (\<lambda>p e. IdentVal p e (cur_value P)) P
      | kLBracket \<Rightarrow> parse_list P
      | kLBrace \<Rightarrow> parse_block P
      | _ \<Rightarrow> Err (cur_pos P) (if kind P = kIllegal then cur_value P else ''expected value, got '' @ TokenErrMsg ranges P) P)"
  by (cases "kind P") (simp_all add: value_step_def Let_def pbind_def Soft_def Err_def split: sum.split)

text \<open>A literal: its text is one token, of which the parser makes the value.\<close>

lemma reads_literal:
  assumes tok: "\<And>L d r. front L = text @ d # r \<Longrightarrow> value_stop d \<Longrightarrow> lx_errors L = None \<Longrightarrow> lx_max_bytes L = M \<Longrightarrow>
      \<exists>L'. Next ranges L = (\<lparr>tk_kind = k, tk_value = w, tk_pos = CurrentPos L, tk_prec = pr\<rparr>, L') \<and> front L' = d # r"
    and k: "value_token k"
    and step: "\<And>P. \<not> ps_tolerant P \<Longrightarrow> kind P = k \<Longrightarrow> cur_value P = w \<Longrightarrow> tk_prec (ps_current P) = pr \<Longrightarrow>
      value_step ranges pl pb P = token_value ranges mk P"
    and mk: "\<And>p e. strip_value ranges (mk p e) = strip_value ranges v" "\<And>p e. value_end (mk p e) = e"
  shows "reads_value ranges D M (value_step ranges pl pb) text v"
  unfolding reads_value_def
proof (intro allI impI)
  fix P L d r
  assume r: "ready ranges D M P [] L" and f: "front L = text @ d # r" and d: "value_stop d"
  note s = ready_strict [OF r]
  obtain L' where L': "Next ranges L = (\<lparr>tk_kind = k, tk_value = w, tk_pos = CurrentPos L, tk_prec = pr\<rparr>, L')" "front L' = d # r"
    using tok [OF f d] s by auto
  have c: "ps_current P = \<lparr>tk_kind = k, tk_value = w, tk_pos = CurrentPos L, tk_prec = pr\<rparr>" "ps_comments P = []" "ps_lex P = L'"
    using ready_token [OF r L'(1)] k by (auto simp: value_token_def)
  have "value_step ranges pl pb P = Some (Inr (mk (CurrentPos L) (CurrentPos L')), Parser_Advance ranges P)"
    using step [of P] s c by (simp add: token_value_def pret_def TokenEnd_def)
  moreover have "ready ranges D M (Parser_Advance ranges P) [] L'" using ready_Advance [OF r] c by simp
  ultimately show "value_token (kind P) \<and> (\<exists>v' P' L'. value_step ranges pl pb P = Some (Inr v', P') \<and>
      strip_value ranges v' = strip_value ranges v \<and> ready ranges D M P' [] L' \<and> front L' = d # r \<and> value_end v' = CurrentPos L' \<and>
      lx_left L' \<le> lx_left (ps_lex P))"
    using k c(1,3) L'(2) mk by auto
qed

lemma Next_quoted_string:
  assumes "front L = GoQuote ranges s @ d # r" "stop d" "\<not> GoIsPrint ranges 10"
  shows "\<exists>L'. Next ranges L = (\<lparr>tk_kind = kString, tk_value = s, tk_pos = CurrentPos L, tk_prec = []\<rparr>, L') \<and> front L' = d # r"
proof -
  have "d \<noteq> CHR 0x22" using assms(2) by (auto simp: stop_def)
  with Next_quoted [OF assms(1,3), where ranges = ranges] show ?thesis by (cases "Next ranges L") (simp add: mk_token_def)
qed

definition scalar :: "Value \<Rightarrow> bool" where
  "scalar v \<longleftrightarrow> \<not> is_ListVal v \<and> \<not> is_BlockVal v"

lemma word_bool: "word_text ''true''" "word_text ''false''" "word_text ''null''"
  by code_simp+

lemma reads_scalar:
  assumes "scalar v" "printable_value ranges M n v" and nl: "\<not> GoIsPrint ranges 10"
  shows "reads_value ranges D M (value_step ranges pl pb) (Formatter_FormatValue ranges indent level v) v"
proof (cases v)
  case (StringVal p e s)
  show ?thesis unfolding StringVal Formatter_FormatValue.simps WriteQuotedString_def
    by (rule reads_literal [where k = kString and w = s and pr = "[]" and mk = "\<lambda>p e. StringVal p e s"])
      (use Next_quoted_string nl in \<open>auto simp: value_token_def value_step_strict value_stop_def\<close>)
next
  case (IntVal p e raw prec)
  then have "int_text raw" "list_all IsDigit prec" using assms(2) by simp_all
  then show ?thesis unfolding IntVal Formatter_FormatValue.simps
    by (intro reads_literal [where k = kInt and w = raw and pr = prec and mk = "\<lambda>p e. IntVal p e raw prec"])
      (auto simp: value_token_def value_step_strict value_stop_def Next_int)
next
  case (FloatVal p e raw prec)
  show ?thesis
  proof (cases "float_text raw \<and> list_all IsDigit prec")
    case True
    then show ?thesis unfolding FloatVal Formatter_FormatValue.simps
      by (intro reads_literal [where k = kFloat and w = raw and pr = prec and mk = "\<lambda>p e. FloatVal p e raw prec"])
        (auto simp: value_token_def value_step_strict value_stop_def Next_float)
  next
    case False
    then have i: "raw = ''-inf'' \<or> raw = ''+inf''" and p: "prec = []" using assms(2) FloatVal by auto
    show ?thesis unfolding FloatVal Formatter_FormatValue.simps p
    proof (rule reads_literal [where k = kFloat and w = raw and pr = "[]" and mk = "\<lambda>p e. FloatVal p e raw []"])
      fix L d r assume "front L = FormatNumber raw [] @ d # r" "value_stop d"
      then have "front L = raw @ d # r" "stop d" by (simp_all add: FormatNumber_def value_stop_def)
      from Next_inf [OF this(1) i this(2), of ranges] \<open>front L = raw @ d # r\<close>
      show "\<exists>L'. Next ranges L = (\<lparr>tk_kind = kFloat, tk_value = raw, tk_pos = CurrentPos L, tk_prec = []\<rparr>, L') \<and> front L' = d # r" by simp
    qed (auto simp: value_token_def value_step_strict)
  qed
next
  case (BoolVal p e b)
  have w: "word_text (if b then ''true'' else ''false'')" "word_kind (if b then ''true'' else ''false'') = kBool" "((if b then ''true'' else ''false'') = ''true'') = b"
    using word_bool by (simp_all add: word_kind_def)
  show ?thesis unfolding BoolVal Formatter_FormatValue.simps
    by (rule reads_literal [where k = kBool and w = "if b then ''true'' else ''false''" and pr = "[]" and mk = "\<lambda>p e. BoolVal p e b"])
      (use w Next_word in \<open>auto simp: value_token_def value_step_strict value_stop_def\<close>)
next
  case (BytesVal p e bs)
  show ?thesis unfolding BytesVal Formatter_FormatValue.simps
  proof (rule reads_literal [where k = kBytes and w = "Base64EncodeStd bs" and pr = "[]" and mk = "\<lambda>p e. BytesVal p e bs"])
    fix L d r assume "front L = ([CHR ''b'', CHR 0x22] @ Base64EncodeStd bs @ [CHR 0x22]) @ d # r" "lx_errors L = None" "lx_max_bytes L = M"
    then show "\<exists>L'. Next ranges L = (\<lparr>tk_kind = kBytes, tk_value = Base64EncodeStd bs, tk_pos = CurrentPos L, tk_prec = []\<rparr>, L') \<and> front L' = d # r"
      using Next_bytes [of L bs "d # r" ranges] assms(2) BytesVal by (simp add: mk_token_def numeral_3_eq_3)
  qed (auto simp: value_token_def value_step_strict base64_lenient)
next
  case (NullVal p e)
  show ?thesis unfolding NullVal Formatter_FormatValue.simps
    by (rule reads_literal [where k = kNull and w = "''null''" and pr = "[]" and mk = NullVal])
      (use word_bool Next_word [of _ "''null''"] in \<open>auto simp: value_token_def value_step_strict value_stop_def word_kind_def\<close>)
next
  case (IdentVal p e name)
  then have "word_text name" "word_kind name = kIdent" using assms(2) by (simp_all add: name_text_def)
  then show ?thesis unfolding IdentVal Formatter_FormatValue.simps
    by (intro reads_literal [where k = kIdent and w = name and pr = "[]" and mk = "\<lambda>p e. IdentVal p e name"])
      (use Next_word [of _ name] in \<open>auto simp: value_token_def value_step_strict value_stop_def\<close>)
next
  case (TimestampVal p e seconds nanos raw)
  then have "timestamp_text raw" "ParseRFC3339 raw = Some (seconds, nanos)" using assms(2) by simp_all
  then show ?thesis unfolding TimestampVal Formatter_FormatValue.simps
    by (intro reads_literal [where k = kTimestamp and w = raw and pr = "[]" and mk = "\<lambda>p e. TimestampVal p e seconds nanos raw"])
      (use Next_timestamp [of _ raw] in \<open>auto simp: value_token_def value_step_strict value_stop_def\<close>)
next
  case (DurationVal p e seconds nanos raw)
  then have "duration_text raw" "ParseDuration raw = Some (seconds, nanos)" using assms(2) by simp_all
  then show ?thesis unfolding DurationVal Formatter_FormatValue.simps
    by (intro reads_literal [where k = kDuration and w = raw and pr = "[]" and mk = "\<lambda>p e. DurationVal p e seconds nanos raw"])
      (use Next_duration [of _ raw] in \<open>auto simp: value_token_def value_step_strict value_stop_def\<close>)
qed (use assms in \<open>simp_all add: scalar_def\<close>)

section \<open>Lists\<close>

lemma ready_punctuation:
  assumes r: "ready ranges D M P cs L" and f: "front L = c # s" and k: "punctuation c = Some k"
  shows "kind P = k" "ps_comments P = cs" "ps_lex P = adv 1 L" "cur_pos P = CurrentPos L"
    "ready ranges D M (Parser_Advance ranges P) cs (adv 1 L)"
proof -
  have "k \<noteq> kNewline" "k \<noteq> kComment" using k by (auto simp: punctuation_def split: if_splits)
  then have "ps_current P = mk_token k [c] (CurrentPos L) \<and> ps_comments P = cs \<and> ps_lex P = adv 1 L"
    using ready_token [OF r Next_punctuation [OF f k]] by (simp add: mk_token_def)
  then show "kind P = k" "ps_comments P = cs" "ps_lex P = adv 1 L" "cur_pos P = CurrentPos L"
    "ready ranges D M (Parser_Advance ranges P) cs (adv 1 L)" using ready_Advance [OF r] by (auto simp: mk_token_def)
qed

lemma punctuation_simps [simp]:
  "punctuation (CHR ''{'') = Some kLBrace" "punctuation (CHR ''}'') = Some kRBrace" "punctuation (CHR ''['') = Some kLBracket"
  "punctuation (CHR '']'') = Some kRBracket" "punctuation (CHR ''('') = Some kLParen" "punctuation (CHR '')'') = Some kRParen"
  "punctuation (CHR ''='') = Some kEquals" "punctuation (CHR '':'') = Some kColon" "punctuation (CHR '','') = Some kComma"
  by code_simp+

lemma lx_left_front: "lx_left L = length (front L)"
  by (simp add: lx_left_def front_def)

lemma reads_list_loop:
  assumes "list_all blank indent" "list_all (\<lambda>v. reads_value ranges D M pv (Formatter_FormatValue ranges indent (level + 1) v) v) vs"
    "ready ranges D M P [] L" "front L = Formatter_elements ranges indent level vs @ WriteIndent indent level @ CHR '']'' # r" "ps_left P < k"
  shows "\<exists>vs' P' L'. list_loop k ranges pv acc P = Some (Inr (acc @ vs'), P') \<and> map (strip_value ranges) vs' = map (strip_value ranges) vs \<and>
    ready ranges D M P' [] L' \<and> front L' = CHR '']'' # r"
  using assms(2-5)
proof (induction vs arbitrary: P L k acc)
  case Nil
  let ?w = "WriteIndent indent level"
  have "ready ranges D M P [] (adv (length ?w) L)" using Nil ready_blanks [of L ?w] WriteIndent_blank [OF assms(1)] by simp
  moreover have "front (adv (length ?w) L) = CHR '']'' # r" using Nil by simp
  ultimately have "kind P = kRBracket" using ready_punctuation(1) by fastforce
  moreover obtain k' where "k = Suc k'" using Nil(4) by (cases k) auto
  ultimately show ?case using \<open>ready ranges D M P [] (adv (length ?w) L)\<close> \<open>front (adv (length ?w) L) = _\<close> by (auto simp: pret_def)
next
  case (Cons v vs)
  let ?w = "WriteIndent indent (level + 1)" and ?t = "Formatter_FormatValue ranges indent (level + 1) v"
  let ?rest = "Formatter_elements ranges indent level vs @ WriteIndent indent level @ CHR '']'' # r"
  obtain k' where k: "k = Suc k'" using Cons.prems(4) by (cases k) auto
  obtain d q where d: "(if vs \<noteq> [] then '','' else []) @ [CHR 0x0A] @ ?rest = d # q" "value_stop d"
    "d = CHR '','' \<and> q = CHR 0x0A # ?rest \<or> d = CHR 0x0A \<and> vs = [] \<and> q = ?rest"
    by (cases "vs = []") (auto simp: value_stop_def stop_def)
  have f: "front L = ?w @ ?t @ d # q" using Cons.prems(3) unfolding d(1) [symmetric] by simp
  have r1: "ready ranges D M P [] (adv (length ?w) L)" using Cons.prems(2) f ready_blanks [OF f WriteIndent_blank [OF assms(1)]] by blast
  have f1: "front (adv (length ?w) L) = ?t @ d # q" using f by simp
  have "reads_value ranges D M pv ?t v" using Cons.prems(1) by simp
  from this r1 f1 d(2) obtain v' P1 L1 where v: "value_token (kind P)" "pv P = Some (Inr v', P1)" "strip_value ranges v' = strip_value ranges v"
    "ready ranges D M P1 [] L1" "front L1 = d # q" "lx_left L1 \<le> lx_left (ps_lex P)" by (rule reads_valueE)
  have ne: "kind P \<noteq> kRBracket" "kind P \<noteq> kEOF" using v(1) by (auto simp: value_token_def)
  have strict: "\<not> ps_tolerant P" "\<not> ps_tolerant P1" using ready_strict [OF Cons.prems(2)] ready_strict [OF v(4)] by simp_all
  define P2 where "P2 = (if kind P1 = kComma then Parser_Advance ranges P1 else P1)"
  obtain L2 where L2: "ready ranges D M P2 [] L2" "front L2 = ?rest" "lx_left L2 \<le> lx_left L1"
  proof (cases "d = CHR '',''")
    case True
    then have q: "q = CHR 0x0A # ?rest" using d(3) by auto
    have "kind P1 = kComma" "ready ranges D M (Parser_Advance ranges P1) [] (adv 1 L1)"
      using ready_punctuation [OF v(4) v(5)] True by simp_all
    then have "ready ranges D M P2 [] (adv 1 (adv 1 L1))" using ready_newline [of "adv 1 L1" ?rest] v(5) q by (simp add: P2_def)
    then show ?thesis using v(5) q that [of "adv 1 (adv 1 L1)"] by (simp add: lx_left_front)
  next
    case False
    then have nl: "d = CHR 0x0A" "vs = []" "q = ?rest" using d(3) by auto
    have ra: "ready ranges D M P1 [] (adv 1 L1)" using ready_newline v(4,5) nl(1) by blast
    let ?w = "WriteIndent indent level"
    have "ready ranges D M P1 [] (adv (length ?w) (adv 1 L1))"
      using ra v(5) nl ready_blanks [of "adv 1 L1" ?w "CHR '']'' # r"] WriteIndent_blank [OF assms(1)] by simp
    then have "kind P1 = kRBracket" using v(5) nl ready_punctuation(1) [of ranges D M P1 "[]" "adv (length ?w) (adv 1 L1)" "CHR '']''" r kRBracket] by simp
    then show ?thesis using ra v(5) nl that [of "adv 1 L1"] by (simp add: P2_def lx_left_front)
  qed
  have "ps_left P2 < k'"
    using ready_left [OF L2(1)] L2(3) v(6) Cons.prems(4) ne(2) k by (simp add: ps_left_def)
  then obtain vs' P' L' where IH: "list_loop k' ranges pv (acc @ [v']) P2 = Some (Inr ((acc @ [v']) @ vs'), P')"
    "map (strip_value ranges) vs' = map (strip_value ranges) vs" "ready ranges D M P' [] L'" "front L' = CHR '']'' # r"
    using Cons.IH [OF _ L2(1,2), of k' "acc @ [v']"] Cons.prems(1) by auto
  have "list_loop k ranges pv acc P = list_loop k' ranges pv (acc @ [v']) P2"
    using ne strict v(2) by (simp add: k pbind_def TolerantRowClose_def P2_def)
  then show ?case using IH v(3) by (intro exI [of _ "v' # vs'"] exI [of _ P'] exI [of _ L']) simp
qed

lemma reads_list:
  assumes ind: "list_all blank indent" and d: "depth < D"
    and vs: "list_all (\<lambda>v. reads_value ranges D M pv (Formatter_FormatValue ranges indent (level + 1) v) v) vs"
  shows "reads_value ranges D M (value_step ranges (ParseList ranges pv depth) pb) (Formatter_FormatValue ranges indent level (ListVal p e vs)) (ListVal p e vs)"
  unfolding reads_value_def
proof (intro allI impI)
  fix P L c r
  assume r: "ready ranges D M P [] L" and f: "front L = Formatter_FormatValue ranges indent level (ListVal p e vs) @ c # r" and "value_stop c"
  let ?rest = "Formatter_elements ranges indent level vs @ WriteIndent indent level @ CHR '']'' # c # r"
  have f': "front L = CHR ''['' # CHR 0x0A # ?rest" using f by simp
  note b = ready_punctuation [OF r f', simplified]
  note s = ready_strict [OF r]
  let ?P1 = "Parser_Advance ranges P"
  have r1: "ready ranges D M ?P1 [] (adv 1 (adv 1 L))" using b(5) f' ready_newline [of "adv 1 L" ?rest] by simp
  obtain vs' P2 L2 where l: "list_loop (Suc (ps_left ?P1)) ranges pv [] ?P1 = Some (Inr ([] @ vs'), P2)"
    "map (strip_value ranges) vs' = map (strip_value ranges) vs" "ready ranges D M P2 [] L2" "front L2 = CHR '']'' # c # r"
    using reads_list_loop [OF ind vs r1, of "c # r" "Suc (ps_left ?P1)" "[]"] f' by auto
  note e = ready_punctuation [OF l(3,4), simplified]
  have "value_step ranges (ParseList ranges pv depth) pb P = ParseList ranges pv depth P" using s b(1) by (simp add: value_step_strict)
  also have "\<dots> = Some (Inr (ListVal (cur_pos P) (TokenEnd P2) vs'), Parser_Advance ranges P2)"
    using s d l(1) e(1) by (simp add: ParseList_def Let_def pbind_def pret_def)
  finally show "value_token (kind P) \<and> (\<exists>v' P' L'. value_step ranges (ParseList ranges pv depth) pb P = Some (Inr v', P') \<and>
      strip_value ranges v' = strip_value ranges (ListVal p e vs) \<and> ready ranges D M P' [] L' \<and> front L' = c # r \<and> value_end v' = CurrentPos L' \<and>
      lx_left L' \<le> lx_left (ps_lex P))"
    using b(1,3) e(3,5) l(2,4) f'
    by (intro conjI exI [of _ "ListVal (cur_pos P) (TokenEnd P2) vs'"] exI [of _ "Parser_Advance ranges P2"] exI [of _ "adv 1 L2"])
      (simp_all add: value_token_def TokenEnd_def lx_left_front)
qed

section \<open>Entries\<close>

lemma ready_Advance_comments:
  assumes "ready ranges D M P cs L"
  shows "ready ranges D M (Parser_Advance ranges (P\<lparr>ps_comments := ds\<rparr>)) ds (ps_lex P)"
proof -
  obtain t cs' L' where a: "Advance_loop ranges ds (ps_lex P) = (t, cs', L')" by (metis prod_cases3)
  with assms ready_lex [OF assms] show ?thesis by (simp add: ready_def Parser_Advance_def)
qed

text \<open>The key of an entry.\<close>

lemma reads_key:
  assumes r: "ready ranges D M P cs L" and f: "front L = write_key ranges q key @ d # s" and d: "stop d" and nl: "\<not> GoIsPrint ranges 10"
    and k: "q \<or> word_text key \<and> word_kind key \<in> {kIdent, kBool} \<or> int_text key"
  shows "kind P = (if q then kString else if int_text key then kInt else word_kind key)" "cur_value P = key" "tk_prec (ps_current P) = []"
    "ps_comments P = cs" "front (ps_lex P) = d # s"
proof -
  have ni: "\<not> int_text key" if "word_text key"
    using that by (cases key) (auto simp: word_text_def int_text_def unsigned_part_def IsIdentStart_def IsDigit_def)
  obtain k L' where n: "Next ranges L = (\<lparr>tk_kind = k, tk_value = key, tk_pos = CurrentPos L, tk_prec = []\<rparr>, L')" "front L' = d # s"
    "k = (if q then kString else if int_text key then kInt else word_kind key)"
  proof (cases q)
    case True
    then show ?thesis using f Next_quoted_string [OF _ d nl, of L key s] that by (auto simp: write_key_def WriteQuotedString_def)
  next
    case nq: False
    show ?thesis
    proof (cases "int_text key")
      case True
      then show ?thesis using f nq Next_int [of L key "[]" d s ranges] d that by (auto simp: write_key_def FormatNumber_def)
    next
      case False
      then show ?thesis using f nq k Next_word [of L key d s ranges] d that by (auto simp: write_key_def)
    qed
  qed
  have "k \<noteq> kNewline" "k \<noteq> kComment" using n(3) by (auto simp: word_kind_def)
  then have "ps_current P = \<lparr>tk_kind = k, tk_value = key, tk_pos = CurrentPos L, tk_prec = []\<rparr> \<and> ps_comments P = cs \<and> ps_lex P = L'"
    using ready_token [OF r n(1)] by simp
  with n show "kind P = (if q then kString else if int_text key then kInt else word_kind key)" "cur_value P = key" "tk_prec (ps_current P) = []"
    "ps_comments P = cs" "front (ps_lex P) = d # s" by simp_all
qed

text \<open>An entry after its leading comments and indent.\<close>

fun core_text :: "ranges \<Rightarrow> string \<Rightarrow> nat \<Rightarrow> Entry \<Rightarrow> string" where
  "core_text ranges indent level (Assignment p e key q v leading trailing) =
     write_key ranges q key @ '' = '' @ Formatter_FormatValue ranges indent level v @ write_trailing trailing @ [CHR 0x0A]"
| "core_text ranges indent level (MapEntry p e key q v leading trailing) =
     write_key ranges (MapKeyQuoted ranges key q) key @ '': '' @ Formatter_FormatValue ranges indent level v @ write_trailing trailing @ [CHR 0x0A]"
| "core_text ranges indent level (TypeEntry p e url leading trailing) =
     ''@type = '' @ WriteQuotedString ranges url @ write_trailing trailing @ [CHR 0x0A]"
| "core_text ranges indent level (Block p e name q entries leading trailing) =
     write_key ranges q name @ '' {'' @ [CHR 0x0A] @ Formatter_FormatEntries ranges indent (level + 1) entries @
     WriteComments indent trailing (level + 1) @ WriteIndent indent level @ ''}'' @ [CHR 0x0A]"

primrec entry_leading :: "Entry \<Rightarrow> Comment list" where
  "entry_leading (Assignment p e key q v leading trailing) = leading"
| "entry_leading (MapEntry p e key q v leading trailing) = leading"
| "entry_leading (TypeEntry p e url leading trailing) = leading"
| "entry_leading (Block p e name q entries leading trailing) = leading"

primrec with_leading :: "Comment list \<Rightarrow> Entry \<Rightarrow> Entry" where
  "with_leading cs (Assignment p e key q v leading trailing) = Assignment p e key q v cs trailing"
| "with_leading cs (MapEntry p e key q v leading trailing) = MapEntry p e key q v cs trailing"
| "with_leading cs (TypeEntry p e url leading trailing) = TypeEntry p e url cs trailing"
| "with_leading cs (Block p e name q entries leading trailing) = Block p e name q entries cs trailing"

lemma FormatEntry_core:
  "Formatter_FormatEntry ranges indent level x =
     WriteComments indent (entry_leading x) level @ WriteIndent indent level @ core_text ranges indent level x"
  by (cases x) simp_all

definition reads_entry :: "ranges \<Rightarrow> int \<Rightarrow> int \<Rightarrow> Entry option parsing \<Rightarrow> string \<Rightarrow> Entry \<Rightarrow> bool" where
  "reads_entry ranges D M pe text x \<longleftrightarrow>
     (\<forall>P L cs s. ready ranges D M P cs L \<longrightarrow> front L = text @ s \<longrightarrow>
        (if is_TypeEntry x then kind P = kAtType else kind P \<in> set key_kinds) \<and>
        (\<exists>x' P' L'. pe P = Some (Inr (Some x'), P') \<and> strip_entry ranges x' = strip_entry ranges (with_leading cs x) \<and>
           ready ranges D M P' [] L' \<and> front L' = s \<and> lx_left L' \<le> lx_left (ps_lex P)))"

text \<open>What follows the key: a separator, the value and a comment on its line.\<close>

lemma reads_tail:
  assumes r: "ready ranges D M P [] L" and w: "list_all blank w" and c: "punctuation c = Some k"
    and f: "front L = w @ c # CHR '' '' # text @ write_trailing t @ CHR 0x0A # s" and v: "reads_value ranges D M pv text v" and t: "trailing_text t"
  obtains v' P2 P3 L3 where "kind P = k" "pv (Parser_Advance ranges P) = Some (Inr v', P2)" "strip_value ranges v' = strip_value ranges v"
    "TakeTrailingComment (value_end v') P2 = (t, P3)" "ready ranges D M P3 [] L3" "front L3 = s" "lx_left L3 \<le> lx_left L"
proof -
  let ?A = "adv (length w) L"
  have ra: "ready ranges D M P [] ?A" using r ready_blanks [OF f w] by blast
  have fa: "front ?A = c # CHR '' '' # text @ write_trailing t @ CHR 0x0A # s" using f by simp
  note b = ready_punctuation [OF ra fa c]
  obtain d q where d: "write_trailing t @ CHR 0x0A # s = d # q" "value_stop d" by (cases "t = []") (auto simp: write_trailing_def value_stop_def stop_def)
  have fb: "front (adv 1 (adv 1 ?A)) = text @ d # q" using f d(1) by simp
  have "ready ranges D M (Parser_Advance ranges P) [] (adv 1 (adv 1 ?A))"
    using b(5) f ready_blanks [of "adv 1 ?A" "'' ''" "text @ write_trailing t @ CHR 0x0A # s"] by (simp add: blank_def)
  from v this fb d(2) obtain v' P2 L2 where v': "pv (Parser_Advance ranges P) = Some (Inr v', P2)" "strip_value ranges v' = strip_value ranges v"
    "ready ranges D M P2 [] L2" "front L2 = d # q" "value_end v' = CurrentPos L2" by (rule reads_valueE)
  from v'(3) v'(4) [folded d(1)] t obtain P3 n where t': "TakeTrailingComment (CurrentPos L2) P2 = (t, P3)" "ready ranges D M P3 [] (adv n L2)" "front (adv n L2) = s"
    by (rule ready_trailing)
  have "lx_left (adv n L2) \<le> lx_left L" using t'(3) f by (simp add: lx_left_front)
  then show ?thesis using that [of v' P2 P3 "adv n L2"] b(1) v'(1,2,5) t' by simp
qed

lemma reads_Assignment:
  assumes v: "reads_value ranges D M pv (Formatter_FormatValue ranges indent level v) v" and nl: "\<not> GoIsPrint ranges 10"
    and k: "q \<or> name_text key" and t: "trailing_text trailing"
  shows "reads_entry ranges D M (ParseEntry ranges pv pb depth allow) (core_text ranges indent level (Assignment p e key q v leading trailing))
    (Assignment p e key q v leading trailing)"
  unfolding reads_entry_def
proof (intro allI impI)
  fix P L cs s
  assume r: "ready ranges D M P cs L" and f: "front L = core_text ranges indent level (Assignment p e key q v leading trailing) @ s"
  let ?tail = "CHR ''='' # CHR '' '' # Formatter_FormatValue ranges indent level v @ write_trailing trailing @ CHR 0x0A # s"
  have f': "front L = write_key ranges q key @ CHR '' '' # ?tail" using f by simp
  have kk: "q \<or> word_text key \<and> word_kind key \<in> {kIdent, kBool} \<or> int_text key" using k by (auto simp: name_text_def)
  have ni: "\<not> int_text key" if "\<not> q"
    using that k by (cases key) (auto simp: name_text_def word_text_def int_text_def unsigned_part_def IsIdentStart_def IsDigit_def)
  have st: "stop (CHR '' '')" by (simp add: stop_def)
  note key = reads_key [OF r f' st nl kk]
  have kind: "kind P = (if q then kString else kIdent)" using key(1) k ni by (auto simp: name_text_def)
  let ?F = "P\<lparr>ps_comments := []\<rparr>"
  let ?P1 = "Parser_Advance ranges ?F"
  have r1: "ready ranges D M ?P1 [] (ps_lex P)" using ready_Advance_comments [OF r] .
  have tf: "front (ps_lex P) = '' '' @ ?tail" and bl: "list_all blank '' ''" using key(5) by (simp_all add: blank_def)
  from r1 bl punctuation_simps(7) tf v t obtain v' P2 P3 L3 where tl: "kind ?P1 = kEquals" "pv (Parser_Advance ranges ?P1) = Some (Inr v', P2)"
    "strip_value ranges v' = strip_value ranges v" "TakeTrailingComment (value_end v') P2 = (trailing, P3)"
    "ready ranges D M P3 [] L3" "front L3 = s" "lx_left L3 \<le> lx_left (ps_lex P)" by (rule reads_tail)
  have "ParseEntry ranges pv pb depth allow P = Some (Inr (Some (Assignment (cur_pos P) (value_end v') key q v' cs trailing)), P3)"
    using kind key(2-4) tl(1,2,4)
    by (simp add: ParseEntry_def FlushComments_def Let_def key_kinds_def parse_assignment_def soft_if_def pbind_def pret_def)
  then show "(if is_TypeEntry (Assignment p e key q v leading trailing) then kind P = kAtType else kind P \<in> set key_kinds) \<and>
     (\<exists>x' P' L'. ParseEntry ranges pv pb depth allow P = Some (Inr (Some x'), P') \<and>
        strip_entry ranges x' = strip_entry ranges (with_leading cs (Assignment p e key q v leading trailing)) \<and>
        ready ranges D M P' [] L' \<and> front L' = s \<and> lx_left L' \<le> lx_left (ps_lex P))"
    using kind tl(3,5-7) by (auto simp: key_kinds_def)
qed

lemma reads_MapEntry:
  assumes v: "reads_value ranges D M pv (Formatter_FormatValue ranges indent level v) v" and nl: "\<not> GoIsPrint ranges 10" and t: "trailing_text trailing"
  shows "reads_entry ranges D M (ParseEntry ranges pv pb depth True) (core_text ranges indent level (MapEntry p e key q v leading trailing))
    (MapEntry p e key q v leading trailing)"
  unfolding reads_entry_def
proof (intro allI impI)
  fix P L cs s
  assume r: "ready ranges D M P cs L" and f: "front L = core_text ranges indent level (MapEntry p e key q v leading trailing) @ s"
  define q' where "q' = MapKeyQuoted ranges key q"
  let ?tail = "CHR '' '' # Formatter_FormatValue ranges indent level v @ write_trailing trailing @ CHR 0x0A # s"
  have f': "front L = write_key ranges q' key @ CHR '':'' # ?tail" using f by (simp add: q'_def)
  have kk: "q' \<or> word_text key \<and> word_kind key \<in> {kIdent, kBool} \<or> int_text key" using map_key_text by (auto simp: q'_def)
  have st: "stop (CHR '':'')" by (simp add: stop_def)
  note key = reads_key [OF r f' st nl kk]
  have kind: "kind P \<in> set key_kinds" "(kind P = kString) = q'" using key(1) kk by (auto simp: key_kinds_def word_kind_def split: if_splits)
  let ?F = "P\<lparr>ps_comments := []\<rparr>"
  let ?P1 = "Parser_Advance ranges ?F"
  have r1: "ready ranges D M ?P1 [] (ps_lex P)" using ready_Advance_comments [OF r] .
  have tf: "front (ps_lex P) = [] @ CHR '':'' # ?tail" and bl: "list_all blank []" using key(5) by simp_all
  from r1 bl punctuation_simps(8) tf v t obtain v' P2 P3 L3 where tl: "kind ?P1 = kColon" "pv (Parser_Advance ranges ?P1) = Some (Inr v', P2)"
    "strip_value ranges v' = strip_value ranges v" "TakeTrailingComment (value_end v') P2 = (trailing, P3)"
    "ready ranges D M P3 [] L3" "front L3 = s" "lx_left L3 \<le> lx_left (ps_lex P)" by (rule reads_tail)
  have "ParseEntry ranges pv pb depth True P = Some (Inr (Some (MapEntry (cur_pos P) (value_end v') key q' v' cs trailing)), P3)"
    using kind key(2-4) tl(1,2,4)
    by (simp add: ParseEntry_def FlushComments_def Let_def parse_map_entry_def soft_if_def pbind_def pret_def)
  then show "(if is_TypeEntry (MapEntry p e key q v leading trailing) then kind P = kAtType else kind P \<in> set key_kinds) \<and>
     (\<exists>x' P' L'. ParseEntry ranges pv pb depth True P = Some (Inr (Some x'), P') \<and>
        strip_entry ranges x' = strip_entry ranges (with_leading cs (MapEntry p e key q v leading trailing)) \<and>
        ready ranges D M P' [] L' \<and> front L' = s \<and> lx_left L' \<le> lx_left (ps_lex P))"
    using kind(1) tl(3,5-7) by (auto simp: q'_def MapKeyQuoted_stable)
qed

lemma reads_TypeEntry:
  assumes nl: "\<not> GoIsPrint ranges 10" and t: "trailing_text trailing"
  shows "reads_entry ranges D M (ParseTypeEntry ranges True) (core_text ranges indent level (TypeEntry p e url leading trailing))
    (TypeEntry p e url leading trailing)"
  unfolding reads_entry_def
proof (intro allI impI)
  fix P L cs s
  assume r: "ready ranges D M P cs L" and f: "front L = core_text ranges indent level (TypeEntry p e url leading trailing) @ s"
  let ?tail = "GoQuote ranges url @ write_trailing trailing @ CHR 0x0A # s"
  have f': "front L = ''@type'' @ CHR '' '' # CHR ''='' # CHR '' '' # ?tail" using f by (simp add: WriteQuotedString_def)
  have "Next ranges L = (mk_token kAtType ''@type'' (CurrentPos L), adv 5 L)" using f' by (intro Next_at_type [of L "CHR '' ''"]) (simp_all add: stop_def)
  then have c: "kind P = kAtType" "ps_comments P = cs" "ps_lex P = adv 5 L" using ready_token [OF r] by (simp_all add: mk_token_def)
  let ?P1 = "Parser_Advance ranges (P\<lparr>ps_comments := []\<rparr>)"
  have f5: "front (adv 5 L) = '' '' @ CHR ''='' # CHR '' '' # ?tail" using f' by (simp add: numeral_eq_Suc)
  have "ready ranges D M ?P1 [] (adv 5 L)" using ready_Advance_comments [OF r] c(3) by simp
  then have r1: "ready ranges D M ?P1 [] (adv 6 L)" using ready_blanks [OF f5] by (simp add: blank_def numeral_eq_Suc)
  have f6: "front (adv 6 L) = CHR ''='' # CHR '' '' # ?tail" using f' by (simp add: numeral_eq_Suc)
  note eq = ready_punctuation [OF r1 f6 punctuation_simps(7)]
  let ?P2 = "Parser_Advance ranges ?P1"
  have f7: "front (adv 7 L) = '' '' @ ?tail" using f' by (simp add: numeral_eq_Suc)
  have "ready ranges D M ?P2 [] (adv 7 L)" using eq(5) by (simp add: numeral_eq_Suc)
  then have r2: "ready ranges D M ?P2 [] (adv 8 L)" using ready_blanks [OF f7] by (simp add: blank_def numeral_eq_Suc)
  obtain d q where d: "write_trailing trailing @ CHR 0x0A # s = d # q" "stop d" by (cases "trailing = []") (auto simp: write_trailing_def stop_def)
  have f8: "front (adv 8 L) = GoQuote ranges url @ d # q" using f' d(1) by (simp add: numeral_eq_Suc)
  obtain L3 where n: "Next ranges (adv 8 L) = (\<lparr>tk_kind = kString, tk_value = url, tk_pos = CurrentPos (adv 8 L), tk_prec = []\<rparr>, L3)" "front L3 = d # q"
    using Next_quoted_string [OF f8 d(2) nl] by auto
  have c2: "kind ?P2 = kString" "cur_value ?P2 = url" "ps_comments ?P2 = []" "ps_lex ?P2 = L3" using ready_token [OF r2 n(1)] by simp_all
  let ?P3 = "Parser_Advance ranges ?P2"
  have "ready ranges D M ?P3 [] L3" using ready_Advance [OF r2] c2 by simp
  from this n(2) [folded d(1)] t obtain P4 k where t': "TakeTrailingComment (CurrentPos L3) ?P3 = (trailing, P4)"
    "ready ranges D M P4 [] (adv k L3)" "front (adv k L3) = s" by (rule ready_trailing)
  have "ParseTypeEntry ranges True P = Some (Inr (Some (TypeEntry (cur_pos P) (CurrentPos L3) url cs trailing)), P4)"
    using c(1,2) eq(1) c2 t'(1) by (simp add: ParseTypeEntry_def FlushComments_def Let_def TokenEnd_def pret_def)
  moreover have "lx_left (adv k L3) \<le> lx_left (ps_lex P)" using t'(3) c(3) f5 by (simp add: lx_left_front)
  ultimately show "(if is_TypeEntry (TypeEntry p e url leading trailing) then kind P = kAtType else kind P \<in> set key_kinds) \<and>
     (\<exists>x' P' L'. ParseTypeEntry ranges True P = Some (Inr (Some x'), P') \<and>
        strip_entry ranges x' = strip_entry ranges (with_leading cs (TypeEntry p e url leading trailing)) \<and>
        ready ranges D M P' [] L' \<and> front L' = s \<and> lx_left L' \<le> lx_left (ps_lex P))"
    using c(1) t'(2,3) by (intro conjI exI [of _ "TypeEntry (cur_pos P) (CurrentPos L3) url cs trailing"] exI [of _ P4] exI [of _ "adv k L3"]) simp_all
qed

section \<open>Bodies\<close>

text \<open>The text of a body from just inside its brace.\<close>

definition body_text :: "ranges \<Rightarrow> string \<Rightarrow> nat \<Rightarrow> Entry list \<Rightarrow> Comment list \<Rightarrow> string" where
  "body_text ranges indent level es trailing =
     [CHR 0x0A] @ Formatter_FormatEntries ranges indent (level + 1) es @ WriteComments indent trailing (level + 1) @ WriteIndent indent level @ ''}''"

definition reads_body :: "ranges \<Rightarrow> int \<Rightarrow> int \<Rightarrow> (Entry list \<times> Position \<times> Comment list) parsing \<Rightarrow> string \<Rightarrow> Entry list \<Rightarrow> Comment list \<Rightarrow> bool" where
  "reads_body ranges D M pb text es trailing \<longleftrightarrow>
     (\<forall>P L s. ready ranges D M P [] L \<longrightarrow> front L = text @ s \<longrightarrow>
        (\<exists>es' tr' P' L'. pb P = Some (Inr (es', CurrentPos L', tr'), P') \<and> map (strip_entry ranges) es' = map (strip_entry ranges) es \<and>
           map strip_comment tr' = map strip_comment trailing \<and> ready ranges D M P' [] L' \<and> front L' = s))"

lemma strip_leading: "map strip_comment cs = map strip_comment (entry_leading x) \<Longrightarrow> strip_entry ranges (with_leading cs x) = strip_entry ranges x"
  by (cases x) simp_all

lemma reads_entryE:
  assumes "reads_entry ranges D M pe text x" "ready ranges D M P cs L" "front L = text @ s"
  obtains x' P' L' where "if is_TypeEntry x then kind P = kAtType else kind P \<in> set key_kinds" "pe P = Some (Inr (Some x'), P')"
    "strip_entry ranges x' = strip_entry ranges (with_leading cs x)" "ready ranges D M P' [] L'" "front L' = s" "lx_left L' \<le> lx_left (ps_lex P)"
  using assms unfolding reads_entry_def by blast

lemma reads_body_loop:
  assumes ind: "list_all blank indent" and tr: "comments_text trailing"
    and "list_all (\<lambda>x. comments_text (entry_leading x) \<and>
      reads_entry ranges D M (if is_TypeEntry x then ParseTypeEntry ranges True else pe) (core_text ranges indent level x) x) es"
    "if out = [] then list_all (\<lambda>x. \<not> is_TypeEntry x) (tl es) else list_all (\<lambda>x. \<not> is_TypeEntry x) es"
    "ready ranges D M P [] L" "front L = Formatter_FormatEntries ranges indent level es @ WriteComments indent trailing level @ w @ CHR ''}'' # s"
    "list_all blank w" "ps_left P < k"
  shows "\<exists>es' cs P' L'. body_loop k ranges pe out P = Some (Inr (out @ es'), P') \<and> map (strip_entry ranges) es' = map (strip_entry ranges) es \<and>
    map strip_comment cs = map strip_comment trailing \<and> ready ranges D M P' cs L' \<and> front L' = CHR ''}'' # s"
  using assms(3-6,8)
proof (induction es arbitrary: P L k out)
  case Nil
  have f: "front L = WriteComments indent trailing level @ w @ CHR ''}'' # s" using Nil.prems(4) by simp
  obtain n cs where n: "front (adv n L) = w @ CHR ''}'' # s" "map strip_comment cs = map strip_comment trailing"
    "\<And>P ds. ready ranges D M P ds L \<longleftrightarrow> ready ranges D M P (ds @ cs) (adv n L)" using ready_comments [OF ind tr f] by metis
  have "ready ranges D M P cs (adv n L)" using n(3) [of P "[]"] Nil.prems(3) by simp
  then have r: "ready ranges D M P cs (adv (length w) (adv n L))" using ready_blanks [OF n(1) assms(7)] by blast
  have f': "front (adv (length w) (adv n L)) = CHR ''}'' # s" unfolding front_adv [of _ "adv n L"] n(1) by simp
  obtain k' where k: "k = Suc k'" using Nil.prems(5) by (cases k) auto
  have "kind P = kRBrace" using ready_punctuation(1) [OF r f'] by simp
  then have "body_loop k ranges pe out P = Some (Inr (out @ []), P)" by (simp add: k pret_def)
  with n(2) r f' show ?case by blast
next
  case (Cons x xs)
  let ?w = "WriteIndent indent level"
  let ?rest = "Formatter_FormatEntries ranges indent level xs @ WriteComments indent trailing level @ w @ CHR ''}'' # s"
  have f: "front L = WriteComments indent (entry_leading x) level @ ?w @ core_text ranges indent level x @ ?rest"
    using Cons.prems(4) by (simp add: FormatEntry_core)
  have lx: "comments_text (entry_leading x)"
    "reads_entry ranges D M (if is_TypeEntry x then ParseTypeEntry ranges True else pe) (core_text ranges indent level x) x"
    using Cons.prems(1) by simp_all
  obtain n cs where n: "front (adv n L) = ?w @ core_text ranges indent level x @ ?rest" "map strip_comment cs = map strip_comment (entry_leading x)"
    "\<And>P ds. ready ranges D M P ds L \<longleftrightarrow> ready ranges D M P (ds @ cs) (adv n L)" using ready_comments [OF ind lx(1) f] by metis
  have "ready ranges D M P cs (adv n L)" using n(3) [of P "[]"] Cons.prems(3) by simp
  then have r: "ready ranges D M P cs (adv (length ?w) (adv n L))" using ready_blanks [OF n(1) WriteIndent_blank [OF ind]] by blast
  have f': "front (adv (length ?w) (adv n L)) = core_text ranges indent level x @ ?rest" unfolding front_adv [of _ "adv n L"] n(1) by simp
  from lx(2) r f' obtain x' P1 L1 where x: "if is_TypeEntry x then kind P = kAtType else kind P \<in> set key_kinds"
    "(if is_TypeEntry x then ParseTypeEntry ranges True else pe) P = Some (Inr (Some x'), P1)"
    "strip_entry ranges x' = strip_entry ranges (with_leading cs x)" "ready ranges D M P1 [] L1" "front L1 = ?rest" "lx_left L1 \<le> lx_left (ps_lex P)"
    by (rule reads_entryE)
  have ne: "kind P \<noteq> kRBrace" "kind P \<noteq> kEOF" using x(1) by (auto simp: key_kinds_def split: if_splits)
  obtain k' where k: "k = Suc k'" using Cons.prems(5) by (cases k) auto
  have ty: "is_TypeEntry x \<Longrightarrow> out = []" using Cons.prems(2) by (auto split: if_splits)
  have p: "(if kind P = kAtType then ParseTypeEntry ranges (out = []) else pe) P = Some (Inr (Some x'), P1)"
    using x(1,2) ty by (auto simp: key_kinds_def split: if_splits)
  have "ps_left P1 < k'" using ready_left [OF x(4)] x(6) Cons.prems(5) ne(2) k by (simp add: ps_left_def)
  moreover have "if out @ [x'] = [] then list_all (\<lambda>x. \<not> is_TypeEntry x) (tl xs) else list_all (\<lambda>x. \<not> is_TypeEntry x) xs"
    using Cons.prems(2) by (auto split: if_splits)
  ultimately obtain es' cs' P' L' where IH: "body_loop k' ranges pe (out @ [x']) P1 = Some (Inr ((out @ [x']) @ es'), P')"
    "map (strip_entry ranges) es' = map (strip_entry ranges) xs" "map strip_comment cs' = map strip_comment trailing" "ready ranges D M P' cs' L'"
    "front L' = CHR ''}'' # s" using Cons.IH [OF _ _ x(4,5), of "out @ [x']" k'] Cons.prems(1) by auto
  have "body_loop k ranges pe out P = body_loop k' ranges pe (out @ [x']) P1"
    using ne ready_strict [OF Cons.prems(3)] p by (simp add: k pbind_def TolerantRowClose_def push_entry_def)
  then show ?case using IH x(3) strip_leading [OF n(2)]
    by (intro exI [of _ "x' # es'"] exI [of _ cs'] exI [of _ P'] exI [of _ L']) simp
qed

lemma reads_body_step:
  assumes ind: "list_all blank indent" and tr: "comments_text trailing"
    and es: "list_all (\<lambda>x. comments_text (entry_leading x) \<and>
      reads_entry ranges D M (if is_TypeEntry x then ParseTypeEntry ranges True else pe) (core_text ranges indent (level + 1) x) x) es"
    and ty: "list_all (\<lambda>x. \<not> is_TypeEntry x) (tl es)"
  shows "reads_body ranges D M (body_step ranges pe) (body_text ranges indent level es trailing) es trailing"
  unfolding reads_body_def
proof (intro allI impI)
  fix P L s
  assume r: "ready ranges D M P [] L" and f: "front L = body_text ranges indent level es trailing @ s"
  let ?w = "WriteIndent indent level"
  have f0: "front L = CHR 0x0A # Formatter_FormatEntries ranges indent (level + 1) es @ WriteComments indent trailing (level + 1) @ ?w @ CHR ''}'' # s"
    using f by (simp add: body_text_def)
  have r1: "ready ranges D M P [] (adv 1 L)" using r ready_newline [OF f0] by blast
  have f1: "front (adv 1 L) = Formatter_FormatEntries ranges indent (level + 1) es @ WriteComments indent trailing (level + 1) @ ?w @ CHR ''}'' # s"
    using f0 by simp
  obtain es' cs P' L' where l: "body_loop (Suc (ps_left P)) ranges pe [] P = Some (Inr ([] @ es'), P')"
    "map (strip_entry ranges) es' = map (strip_entry ranges) es" "map strip_comment cs = map strip_comment trailing"
    "ready ranges D M P' cs L'" "front L' = CHR ''}'' # s"
    using reads_body_loop [OF ind tr es _ r1 f1 WriteIndent_blank [OF ind], of "[]" "Suc (ps_left P)"] ty by auto
  note b = ready_punctuation [OF l(4,5) punctuation_simps(2)]
  let ?F = "P'\<lparr>ps_comments := []\<rparr>"
  have "body_step ranges pe P = Some (Inr (es', CurrentPos (adv 1 L'), cs), Parser_Advance ranges ?F)"
    using l(1) b(1-3) by (simp add: body_step_def pbind_def FlushComments_def pret_def TokenEnd_def)
  moreover have "ready ranges D M (Parser_Advance ranges ?F) [] (adv 1 L')" using ready_Advance_comments [OF l(4), of "[]"] b(3) by simp
  ultimately show "\<exists>es' tr' P' L'. body_step ranges pe P = Some (Inr (es', CurrentPos L', tr'), P') \<and>
      map (strip_entry ranges) es' = map (strip_entry ranges) es \<and> map strip_comment tr' = map strip_comment trailing \<and>
      ready ranges D M P' [] L' \<and> front L' = s"
    using l(2,3,5) by (intro exI [of _ es'] exI [of _ cs] exI [of _ "Parser_Advance ranges ?F"] exI [of _ "adv 1 L'"]) simp
qed

lemma reads_Block:
  assumes b: "reads_body ranges D M (pb (depth + 1)) (body_text ranges indent level es trailing) es trailing" and nl: "\<not> GoIsPrint ranges 10"
    and k: "q \<or> name_text name" and d: "depth < D"
  shows "reads_entry ranges D M (ParseEntry ranges pv pb depth allow) (core_text ranges indent level (Block p e name q es leading trailing))
    (Block p e name q es leading trailing)"
  unfolding reads_entry_def
proof (intro allI impI)
  fix P L cs s
  assume r: "ready ranges D M P cs L" and f: "front L = core_text ranges indent level (Block p e name q es leading trailing) @ s"
  let ?tail = "CHR ''{'' # body_text ranges indent level es trailing @ CHR 0x0A # s"
  have f': "front L = write_key ranges q name @ CHR '' '' # ?tail" using f by (simp add: body_text_def)
  have kk: "q \<or> word_text name \<and> word_kind name \<in> {kIdent, kBool} \<or> int_text name" using k by (auto simp: name_text_def)
  have ni: "\<not> int_text name" if "\<not> q"
    using that k by (cases name) (auto simp: name_text_def word_text_def int_text_def unsigned_part_def IsIdentStart_def IsDigit_def)
  have st: "stop (CHR '' '')" by (simp add: stop_def)
  note key = reads_key [OF r f' st nl kk]
  have kind: "kind P = (if q then kString else kIdent)" using key(1) k ni by (auto simp: name_text_def)
  let ?P1 = "Parser_Advance ranges (P\<lparr>ps_comments := []\<rparr>)"
  have r1: "ready ranges D M ?P1 [] (ps_lex P)" using ready_Advance_comments [OF r] .
  have f1: "front (ps_lex P) = '' '' @ ?tail" and bl: "list_all blank '' ''" using key(5) by (simp_all add: blank_def)
  have r2: "ready ranges D M ?P1 [] (adv 1 (ps_lex P))" using r1 ready_blanks [OF f1 bl] by simp
  have f2: "front (adv 1 (ps_lex P)) = ?tail" using key(5) by simp
  note br = ready_punctuation [OF r2 f2 punctuation_simps(1)]
  have f3: "front (adv 1 (adv 1 (ps_lex P))) = body_text ranges indent level es trailing @ CHR 0x0A # s" using key(5) by simp
  from b br(5) f3 obtain es' tr' P' L' where bd: "pb (depth + 1) (Parser_Advance ranges ?P1) = Some (Inr (es', CurrentPos L', tr'), P')"
    "map (strip_entry ranges) es' = map (strip_entry ranges) es" "map strip_comment tr' = map strip_comment trailing"
    "ready ranges D M P' [] L'" "front L' = CHR 0x0A # s" unfolding reads_body_def by blast
  have r4: "ready ranges D M P' [] (adv 1 L')" using bd(4) ready_newline [OF bd(5)] by blast
  have "ParseEntry ranges pv pb depth allow P = Some (Inr (Some (Block (cur_pos P) (CurrentPos L') name q es' cs tr')), P')"
    using kind key(2-4) br(1) bd(1) d ready_strict [OF r1]
    by (simp add: ParseEntry_def FlushComments_def Let_def key_kinds_def parse_block_entry_def soft_if_def pbind_def pret_def)
  moreover have "lx_left (adv 1 L') \<le> lx_left (ps_lex P)" using bd(5) f1 by (simp add: lx_left_front)
  ultimately show "(if is_TypeEntry (Block p e name q es leading trailing) then kind P = kAtType else kind P \<in> set key_kinds) \<and>
     (\<exists>x' P' L'. ParseEntry ranges pv pb depth allow P = Some (Inr (Some x'), P') \<and>
        strip_entry ranges x' = strip_entry ranges (with_leading cs (Block p e name q es leading trailing)) \<and>
        ready ranges D M P' [] L' \<and> front L' = s \<and> lx_left L' \<le> lx_left (ps_lex P))"
    using kind bd(2,3,5) r4
    by (intro conjI exI [of _ "Block (cur_pos P) (CurrentPos L') name q es' cs tr'"] exI [of _ P'] exI [of _ "adv 1 L'"]) (simp_all add: key_kinds_def)
qed

lemma reads_BlockVal:
  assumes b: "reads_body ranges D M (pb (depth + 1)) (body_text ranges indent level es trailing) es trailing" and d: "depth < D"
  shows "reads_value ranges D M (value_step ranges pl (ParseBlockVal ranges pb depth)) (Formatter_FormatValue ranges indent level (BlockVal p e es trailing))
    (BlockVal p e es trailing)"
  unfolding reads_value_def
proof (intro allI impI)
  fix P L c s
  assume r: "ready ranges D M P [] L" and f: "front L = Formatter_FormatValue ranges indent level (BlockVal p e es trailing) @ c # s" and "value_stop c"
  have f': "front L = CHR ''{'' # body_text ranges indent level es trailing @ c # s" using f by (simp add: body_text_def)
  note br = ready_punctuation [OF r f' punctuation_simps(1)]
  have f1: "front (adv 1 L) = body_text ranges indent level es trailing @ c # s" using f' by simp
  from b br(5) f1 obtain es' tr' P' L' where bd: "pb (depth + 1) (Parser_Advance ranges P) = Some (Inr (es', CurrentPos L', tr'), P')"
    "map (strip_entry ranges) es' = map (strip_entry ranges) es" "map strip_comment tr' = map strip_comment trailing"
    "ready ranges D M P' [] L'" "front L' = c # s" unfolding reads_body_def by blast
  have "value_step ranges pl (ParseBlockVal ranges pb depth) P = Some (Inr (BlockVal (cur_pos P) (CurrentPos L') es' tr'), P')"
    using br(1) bd(1) d ready_strict [OF r] by (simp add: value_step_strict ParseBlockVal_def Let_def pbind_def pret_def)
  then show "value_token (kind P) \<and> (\<exists>v' P' L'. value_step ranges pl (ParseBlockVal ranges pb depth) P = Some (Inr v', P') \<and>
      strip_value ranges v' = strip_value ranges (BlockVal p e es trailing) \<and> ready ranges D M P' [] L' \<and> front L' = c # s \<and>
      value_end v' = CurrentPos L' \<and> lx_left L' \<le> lx_left (ps_lex P))"
    using br(1,3) bd(2-5) f'
    by (intro conjI exI [of _ "BlockVal (cur_pos P) (CurrentPos L') es' tr'"] exI [of _ P'] exI [of _ L']) (simp_all add: value_token_def lx_left_front)
qed

section \<open>Every printable tree\<close>

definition printable_body :: "ranges \<Rightarrow> int \<Rightarrow> nat \<Rightarrow> Entry list \<Rightarrow> Comment list \<Rightarrow> bool" where
  "printable_body ranges M k es trailing \<longleftrightarrow>
     list_all (printable_entry ranges M k) es \<and> list_all (\<lambda>x. \<not> is_TypeEntry x) (tl es) \<and> comments_text trailing"

lemma printable_leading: "printable_entry ranges M k x \<Longrightarrow> comments_text (entry_leading x)"
  by (cases x) (auto split: nat.splits)

text \<open>An entry, once its value and its body are read by the parsers it is given.\<close>

lemma reads_printable_entry:
  assumes nl: "\<not> GoIsPrint ranges 10" and x: "printable_entry ranges M k x" and d: "depth + int k \<le> D"
    and v: "\<And>v. printable_value ranges M k v \<Longrightarrow> reads_value ranges D M pv (Formatter_FormatValue ranges indent level v) v"
    and b: "\<And>es trailing m. k = Suc m \<Longrightarrow> printable_body ranges M m es trailing \<Longrightarrow>
      reads_body ranges D M (pb (depth + 1)) (body_text ranges indent level es trailing) es trailing"
    and m: "is_MapEntry x \<Longrightarrow> allow"
  shows "reads_entry ranges D M (if is_TypeEntry x then ParseTypeEntry ranges True else ParseEntry ranges pv pb depth allow)
    (core_text ranges indent level x) x"
proof (cases x)
  case (Assignment p e key q w leading trailing)
  then show ?thesis using x v nl by (simp add: reads_Assignment del: core_text.simps)
next
  case (MapEntry p e key q w leading trailing)
  then show ?thesis using x v nl m by (simp add: reads_MapEntry del: core_text.simps)
next
  case (TypeEntry p e url leading trailing)
  then show ?thesis using x nl by (simp add: reads_TypeEntry del: core_text.simps)
next
  case (Block p e name q es leading trailing)
  then obtain m where k: "k = Suc m" using x by (cases k) auto
  then have "printable_body ranges M m es trailing" "q \<or> name_text name" using x Block by (auto simp: printable_body_def)
  then show ?thesis using Block b [OF k] nl k d by (simp add: reads_Block del: core_text.simps)
qed

lemma reads_printable:
  assumes ind: "list_all blank indent" and nl: "\<not> GoIsPrint ranges 10"
  shows "(\<forall>v k depth level. printable_value ranges M k v \<longrightarrow> depth + int k \<le> D \<longrightarrow> 2 * k < n \<longrightarrow>
      reads_value ranges D M (ParseValue n ranges depth) (Formatter_FormatValue ranges indent level v) v) \<and>
    (\<forall>es trailing k depth level. printable_body ranges M k es trailing \<longrightarrow> depth + int k \<le> D \<longrightarrow> 2 * k + 1 < n \<longrightarrow>
      reads_body ranges D M (ParseBody n ranges depth) (body_text ranges indent level es trailing) es trailing)"
proof (induction n)
  case (Suc n)
  note V = Suc [THEN conjunct1, rule_format] and B = Suc [THEN conjunct2, rule_format]
  have val: "reads_value ranges D M (ParseValue (Suc n) ranges depth) (Formatter_FormatValue ranges indent level v) v"
    if p: "printable_value ranges M k v" and d: "depth + int k \<le> D" and k: "2 * k < Suc n" for v k depth level
  proof -
    have e: "ParseValue (Suc n) ranges depth =
      value_step ranges (ParseList ranges (ParseValue n ranges (depth + 1)) depth) (ParseBlockVal ranges (ParseBody n ranges) depth)" by (rule ext) simp
    consider (scalar) "scalar v" | (list) q z vs where "v = ListVal q z vs" | (block) q z es t where "v = BlockVal q z es t"
      by (cases v) (auto simp: scalar_def)
    then show ?thesis
    proof cases
      case scalar
      with p nl show ?thesis unfolding e by (intro reads_scalar)
    next
      case list
      then obtain m where m: "k = Suc m" "list_all (printable_value ranges M m) vs" using p by (cases k) auto
      have "list_all (\<lambda>v. reads_value ranges D M (ParseValue n ranges (depth + 1)) (Formatter_FormatValue ranges indent (level + 1) v) v) vs"
        using m V [of m _ "depth + 1"] d k by (auto simp: list_all_iff)
      then show ?thesis unfolding e list using ind d m(1) by (intro reads_list) simp_all
    next
      case block
      then obtain m where m: "k = Suc m" "printable_body ranges M m es t" using p by (cases k) (auto simp: printable_body_def)
      have "reads_body ranges D M (ParseBody n ranges (depth + 1)) (body_text ranges indent level es t) es t" using m d k by (intro B) simp_all
      then show ?thesis unfolding e block using d m(1) by (intro reads_BlockVal) simp_all
    qed
  qed
  moreover have "reads_body ranges D M (ParseBody (Suc n) ranges depth) (body_text ranges indent level es trailing) es trailing"
    if p: "printable_body ranges M k es trailing" and d: "depth + int k \<le> D" and k: "2 * k + 1 < Suc n" for es trailing k depth level
  proof -
    let ?pe = "ParseEntry ranges (ParseValue n ranges depth) (ParseBody n ranges) depth True"
    have e: "ParseBody (Suc n) ranges depth = body_step ranges ?pe" by (rule ext) simp
    have "reads_entry ranges D M (if is_TypeEntry x then ParseTypeEntry ranges True else ?pe) (core_text ranges indent (level + 1) x) x"
      if "x \<in> set es" for x
      using that p d k by (intro reads_printable_entry [OF nl, where k = k]) (auto simp: printable_body_def list_all_iff intro!: V B)
    then have "list_all (\<lambda>x. comments_text (entry_leading x) \<and>
      reads_entry ranges D M (if is_TypeEntry x then ParseTypeEntry ranges True else ?pe) (core_text ranges indent (level + 1) x) x) es"
      using p printable_leading by (auto simp: printable_body_def list_all_iff)
    then show ?thesis unfolding e using p ind by (intro reads_body_step) (simp_all add: printable_body_def)
  qed
  ultimately show ?case by blast
qed simp

section \<open>Documents\<close>

text \<open>
  Formatting moves comments: those before a \<open>@type\<close> are written after it, where they belong to the first entry, or to
  the end where there is none; without a \<open>@type\<close> those of the first entry join those of the document.
\<close>

definition settle :: "Document \<Rightarrow> Document" where
  "settle doc =
     (if doc_type_url doc \<noteq> [] then
        (case doc_entries doc of
           [] \<Rightarrow> doc\<lparr>doc_leading := [], doc_trailing := doc_leading doc @ doc_trailing doc\<rparr>
         | x # xs \<Rightarrow> doc\<lparr>doc_leading := [], doc_entries := with_leading (doc_leading doc @ entry_leading x) x # xs\<rparr>)
      else
        (case doc_entries doc of
           [] \<Rightarrow> doc\<lparr>doc_leading := doc_leading doc @ doc_trailing doc, doc_trailing := []\<rparr>
         | x # xs \<Rightarrow> doc\<lparr>doc_leading := doc_leading doc @ entry_leading x, doc_entries := with_leading [] x # xs\<rparr>))"

text \<open>The content of a document without directives.\<close>

definition strip_document :: "ranges \<Rightarrow> Document \<Rightarrow> Document" where
  "strip_document ranges doc =
     doc\<lparr>doc_body_offset := 0, doc_entries := map (strip_entry ranges) (doc_entries doc), doc_leading := map strip_comment (doc_leading doc),
         doc_trailing := map strip_comment (doc_trailing doc)\<rparr>"

definition no_directives :: "Document \<Rightarrow> bool" where
  "no_directives doc \<longleftrightarrow> doc_directives doc = [] \<and> doc_datasets doc = [] \<and> doc_protos doc = []"

definition printable_document :: "ranges \<Rightarrow> int \<Rightarrow> nat \<Rightarrow> Document \<Rightarrow> bool" where
  "printable_document ranges M n doc \<longleftrightarrow>
     no_directives doc \<and> (doc_type_url doc = [] \<or> name_text (doc_type_url doc)) \<and>
     list_all (\<lambda>x. printable_entry ranges M n x \<and> \<not> is_TypeEntry x \<and> \<not> is_MapEntry x) (doc_entries doc) \<and>
     comments_text (doc_leading doc) \<and> comments_text (doc_trailing doc)"

abbreviation top_entry :: "ranges \<Rightarrow> Entry option parsing" where
  "top_entry ranges \<equiv> ParseEntry ranges (parse_value ranges 0) (parse_body ranges) 0 False"

lemma reads_value_cong:
  assumes "reads_value ranges D M pv text v" "\<And>P. ps_max_depth P = D \<Longrightarrow> pv' P = pv P"
  shows "reads_value ranges D M pv' text v"
  unfolding reads_value_def
proof (intro allI impI, goal_cases)
  case (1 P L d r)
  with assms(2) [of P] ready_strict [OF 1(1)] assms(1) show ?case unfolding reads_value_def by simp
qed

lemma reads_body_cong:
  assumes "reads_body ranges D M pb text es trailing" "\<And>P. ps_max_depth P = D \<Longrightarrow> pb' P = pb P"
  shows "reads_body ranges D M pb' text es trailing"
  unfolding reads_body_def
proof (intro allI impI, goal_cases)
  case (1 P L s)
  with assms(2) [of P] ready_strict [OF 1(1)] assms(1) show ?case unfolding reads_body_def by simp
qed

lemma reads_top_entry:
  assumes ind: "list_all blank indent" and nl: "\<not> GoIsPrint ranges 10" and x: "printable_entry ranges M (nat D) x" "\<not> is_TypeEntry x" "\<not> is_MapEntry x"
    and D: "0 \<le> D"
  shows "reads_entry ranges D M (top_entry ranges) (core_text ranges indent level x) x"
proof -
  let ?n = "2 * nat D + 2"
  note R = reads_printable [OF ind nl, of M D ?n]
  have "reads_value ranges D M (parse_value ranges 0) (Formatter_FormatValue ranges indent level v) v" if "printable_value ranges M (nat D) v" for v
    by (rule reads_value_cong [of _ _ _ "ParseValue ?n ranges 0"]) (use R that D in \<open>auto simp: parse_value_def depth_fuel_def\<close>)
  moreover have "reads_body ranges D M (parse_body ranges (0 + 1)) (body_text ranges indent level es trailing) es trailing"
    if "nat D = Suc m" "printable_body ranges M m es trailing" for es trailing m
    by (rule reads_body_cong [of _ _ _ "ParseBody ?n ranges 1"]) (use R that D in \<open>auto simp: parse_body_def depth_fuel_def\<close>)
  ultimately have "reads_entry ranges D M (if is_TypeEntry x then ParseTypeEntry ranges True else top_entry ranges) (core_text ranges indent level x) x"
    using x D by (intro reads_printable_entry [OF nl, where k = "nat D"]) simp_all
  with x(2) show ?thesis by simp
qed

lemma ready_eof:
  assumes "ready ranges D M P cs L" "front L = []"
  shows "kind P = kEOF" "ps_comments P = cs"
proof -
  have "Next ranges L = (mk_token kEOF [] (CurrentPos L), L)" using assms(2) by (simp add: Next_def SkipSpaces_adv at_end_front Let_def)
  then show "kind P = kEOF" "ps_comments P = cs" using ready_token [OF assms(1)] by (simp_all add: mk_token_def)
qed

lemma reads_entries_loop:
  assumes ind: "list_all blank indent" and tr: "comments_text trailing"
    and "list_all (\<lambda>x. comments_text (entry_leading x) \<and> \<not> is_TypeEntry x \<and> reads_entry ranges D M (top_entry ranges) (core_text ranges indent 0 x) x) es"
    "ready ranges D M P [] L" "front L = Formatter_FormatEntries ranges indent 0 es @ WriteComments indent trailing 0" "ps_left P < k"
  shows "\<exists>es' P'. entries_loop k ranges out P = Some (Inr (out @ es'), P') \<and> map (strip_entry ranges) es' = map (strip_entry ranges) es \<and>
    map strip_comment (ps_comments P') = map strip_comment trailing"
  using assms(3-6)
proof (induction es arbitrary: P L k out)
  case Nil
  have f: "front L = WriteComments indent trailing 0 @ []" using Nil.prems(3) by simp
  obtain n cs where n: "front (adv n L) = []" "map strip_comment cs = map strip_comment trailing"
    "\<And>P ds. ready ranges D M P ds L \<longleftrightarrow> ready ranges D M P (ds @ cs) (adv n L)" using ready_comments [OF ind tr f] by metis
  have r: "ready ranges D M P cs (adv n L)" using n(3) [of P "[]"] Nil.prems(2) by simp
  obtain k' where k: "k = Suc k'" using Nil.prems(4) by (cases k) auto
  from ready_eof [OF r n(1)] n(2) show ?case by (simp add: k pret_def)
next
  case (Cons x xs)
  let ?rest = "Formatter_FormatEntries ranges indent 0 xs @ WriteComments indent trailing 0"
  have lx: "comments_text (entry_leading x)" "\<not> is_TypeEntry x" "reads_entry ranges D M (top_entry ranges) (core_text ranges indent 0 x) x"
    using Cons.prems(1) by simp_all
  have f: "front L = WriteComments indent (entry_leading x) 0 @ core_text ranges indent 0 x @ ?rest"
    using Cons.prems(3) by (simp add: FormatEntry_core WriteIndent_def)
  obtain n cs where n: "front (adv n L) = core_text ranges indent 0 x @ ?rest" "map strip_comment cs = map strip_comment (entry_leading x)"
    "\<And>P ds. ready ranges D M P ds L \<longleftrightarrow> ready ranges D M P (ds @ cs) (adv n L)" using ready_comments [OF ind lx(1) f] by metis
  have "ready ranges D M P cs (adv n L)" using n(3) [of P "[]"] Cons.prems(2) by simp
  from lx(3) this n(1) obtain x' P1 L1 where x: "if is_TypeEntry x then kind P = kAtType else kind P \<in> set key_kinds"
    "top_entry ranges P = Some (Inr (Some x'), P1)" "strip_entry ranges x' = strip_entry ranges (with_leading cs x)" "ready ranges D M P1 [] L1"
    "front L1 = ?rest" "lx_left L1 \<le> lx_left (ps_lex P)" by (rule reads_entryE)
  have ne: "kind P \<noteq> kEOF" using x(1) lx(2) by (auto simp: key_kinds_def)
  obtain k' where k: "k = Suc k'" using Cons.prems(4) by (cases k) auto
  have "ps_left P1 < k'" using ready_left [OF x(4)] x(6) Cons.prems(4) ne k by (simp add: ps_left_def)
  then obtain es' P' where IH: "entries_loop k' ranges (out @ [x']) P1 = Some (Inr ((out @ [x']) @ es'), P')"
    "map (strip_entry ranges) es' = map (strip_entry ranges) xs" "map strip_comment (ps_comments P') = map strip_comment trailing"
    using Cons.IH [OF _ x(4,5), of k' "out @ [x']"] Cons.prems(1) by auto
  have "entries_loop k ranges out P = entries_loop k' ranges (out @ [x']) P1" using ne x(2) by (simp add: k pbind_def push_entry_def)
  then show ?case using IH x(3) strip_leading [OF n(2)] by (intro exI [of _ "x' # es'"] exI [of _ P']) simp
qed

text \<open>Formatting looks only at the content, and settling a document does not change its text.\<close>

lemma WriteComments_strip [simp]: "WriteComments indent (map strip_comment cs) level = WriteComments indent cs level"
  by (simp add: WriteComments_def strip_comment_def comp_def)

lemma format_strip:
  "Formatter_FormatValue ranges indent level (strip_value ranges v) = Formatter_FormatValue ranges indent level v"
  "Formatter_elements ranges indent level (map (strip_value ranges) vs) = Formatter_elements ranges indent level vs"
  "Formatter_FormatEntry ranges indent level (strip_entry ranges x) = Formatter_FormatEntry ranges indent level x"
  "Formatter_FormatEntries ranges indent level (map (strip_entry ranges) xs) = Formatter_FormatEntries ranges indent level xs"
  by (induction ranges indent level v and ranges indent level vs and ranges indent level x and ranges indent level xs
      rule: Formatter_FormatValue_Formatter_elements_Formatter_FormatEntry_Formatter_FormatEntries.induct)
    (simp_all add: MapKeyQuoted_stable)

lemma FormatDocument_strip: "no_directives doc \<Longrightarrow> FormatDocument ranges (strip_document ranges doc) = FormatDocument ranges doc"
  by (simp add: FormatDocument_def TopDirectives_def no_directives_def strip_document_def format_strip)

lemma WriteComments_append: "WriteComments indent (cs @ ds) level = WriteComments indent cs level @ WriteComments indent ds level"
  by (simp add: WriteComments_def)

lemma core_with_leading [simp]: "core_text ranges indent level (with_leading cs x) = core_text ranges indent level x" "entry_leading (with_leading cs x) = cs"
  by (cases x; simp)+

lemma FormatDocument_settle: "no_directives doc \<Longrightarrow> FormatDocument ranges (settle doc) = FormatDocument ranges doc"
  by (cases "doc_entries doc")
    (simp_all add: FormatDocument_def TopDirectives_def no_directives_def settle_def FormatEntry_core WriteComments_append WriteIndent_def, simp_all add: WriteComments_def)

lemma no_directives_settle: "no_directives (settle doc) = no_directives doc"
  by (simp add: settle_def no_directives_def split: list.split)

lemma no_directives_strip: "no_directives (strip_document ranges doc) = no_directives doc"
  by (simp add: strip_document_def no_directives_def)

text \<open>The entries from the first on, and the comments after them.\<close>

definition top_ok :: "ranges \<Rightarrow> int \<Rightarrow> nat \<Rightarrow> Entry list \<Rightarrow> bool" where
  "top_ok ranges M n es \<longleftrightarrow> list_all (\<lambda>x. printable_entry ranges M n x \<and> \<not> is_TypeEntry x \<and> \<not> is_MapEntry x) es"

lemma printable_with_leading: "printable_entry ranges M n x \<Longrightarrow> comments_text cs \<Longrightarrow> printable_entry ranges M n (with_leading cs x)"
  by (cases x) (auto split: nat.splits)

lemma with_leading_kind [simp]: "is_TypeEntry (with_leading cs x) = is_TypeEntry x" "is_MapEntry (with_leading cs x) = is_MapEntry x"
  by (cases x; simp)+

lemma core_start:
  assumes r: "ready ranges D M P cs L" and f: "front L = core_text ranges indent level x @ s" and nl: "\<not> GoIsPrint ranges 10"
    and x: "printable_entry ranges M n x" "\<not> is_TypeEntry x" "\<not> is_MapEntry x"
  shows "ps_comments P = cs"
proof -
  obtain q key r' where "front L = write_key ranges q key @ CHR '' '' # r'" "q \<or> name_text key"
    using f x by (cases x) (auto split: nat.splits)
  then show ?thesis using reads_key(4) [OF r _ _ nl, of q key "CHR '' ''" r'] by (auto simp: stop_def name_text_def)
qed

lemma reads_top:
  assumes nl: "\<not> GoIsPrint ranges 10" and es: "top_ok ranges M (nat D) es" and tr: "comments_text trailing" and D: "0 \<le> D"
    and r: "ready ranges D M P [] L" and f: "front L = Formatter_FormatEntries ranges kIndent 0 es @ WriteComments kIndent trailing 0"
  obtains es' P' where "entries_loop (Suc (ps_left P)) ranges [] P = Some (Inr es', P')" "map (strip_entry ranges) es' = map (strip_entry ranges) es"
    "map strip_comment (ps_comments P') = map strip_comment trailing" "kind P = kEOF \<or> kind P \<in> set key_kinds"
proof -
  have ind: "list_all blank kIndent" by (simp add: kIndent_def blank_def)
  have a: "list_all (\<lambda>x. comments_text (entry_leading x) \<and> \<not> is_TypeEntry x \<and> reads_entry ranges D M (top_entry ranges) (core_text ranges kIndent 0 x) x) es"
    using es printable_leading reads_top_entry [OF ind nl _ _ _ D] by (auto simp: top_ok_def list_all_iff)
  have "kind P = kEOF \<or> kind P \<in> set key_kinds"
  proof (cases es)
    case Nil
    then have f': "front L = WriteComments kIndent trailing 0 @ []" using f by simp
    obtain n cs where n: "front (adv n L) = []" "\<And>P ds. ready ranges D M P ds L \<longleftrightarrow> ready ranges D M P (ds @ cs) (adv n L)"
      using ready_comments [OF ind tr f'] by metis
    then show ?thesis using ready_eof(1) r by blast
  next
    case (Cons x xs)
    let ?rest = "Formatter_FormatEntries ranges kIndent 0 xs @ WriteComments kIndent trailing 0"
    have f': "front L = WriteComments kIndent (entry_leading x) 0 @ core_text ranges kIndent 0 x @ ?rest"
      using f Cons by (simp add: FormatEntry_core WriteIndent_def)
    have lx: "comments_text (entry_leading x)" "\<not> is_TypeEntry x" "reads_entry ranges D M (top_entry ranges) (core_text ranges kIndent 0 x) x"
      using a Cons by simp_all
    obtain n cs where n: "front (adv n L) = core_text ranges kIndent 0 x @ ?rest" "\<And>P ds. ready ranges D M P ds L \<longleftrightarrow> ready ranges D M P (ds @ cs) (adv n L)"
      using ready_comments [OF ind lx(1) f'] by metis
    have "ready ranges D M P cs (adv n L)" using n(2) [of P "[]"] r by simp
    from lx(3) this n(1) show ?thesis by (rule reads_entryE) (use lx(2) in simp)
  qed
  moreover obtain es' P' where "entries_loop (Suc (ps_left P)) ranges [] P = Some (Inr ([] @ es'), P')"
    "map (strip_entry ranges) es' = map (strip_entry ranges) es" "map strip_comment (ps_comments P') = map strip_comment trailing"
    using reads_entries_loop [OF ind tr a r f, of "Suc (ps_left P)" "[]"] by auto
  ultimately show ?thesis using that by simp
qed

lemma settle_fields:
  "doc_type_url (settle doc) = doc_type_url doc" "doc_type_url doc \<noteq> [] \<Longrightarrow> doc_leading (settle doc) = []"
  "doc_type_url doc = [] \<Longrightarrow> doc_entries (settle doc) = x # xs \<Longrightarrow> entry_leading x = []"
  "doc_type_url doc = [] \<Longrightarrow> doc_entries (settle doc) = [] \<Longrightarrow> doc_trailing (settle doc) = []"
  by (cases "doc_entries doc"; auto simp: settle_def)+

lemma settle_printable:
  assumes "printable_document ranges M n doc"
  shows "top_ok ranges M n (doc_entries (settle doc))" "comments_text (doc_leading (settle doc))" "comments_text (doc_trailing (settle doc))"
    "no_directives (settle doc)"
proof -
  have "top_ok ranges M n (doc_entries (settle doc)) \<and> comments_text (doc_leading (settle doc)) \<and> comments_text (doc_trailing (settle doc))"
  proof (cases "doc_entries doc")
    case Nil
    with assms show ?thesis by (auto simp: settle_def printable_document_def top_ok_def comments_text_def)
  next
    case (Cons x xs)
    then have x: "printable_entry ranges M n x" using assms by (simp add: printable_document_def)
    show ?thesis using assms Cons printable_leading [OF x] printable_with_leading [OF x]
      by (auto simp: settle_def printable_document_def top_ok_def comments_text_def)
  qed
  then show "top_ok ranges M n (doc_entries (settle doc))" "comments_text (doc_leading (settle doc))" "comments_text (doc_trailing (settle doc))" by simp_all
  show "no_directives (settle doc)" using assms by (simp add: printable_document_def no_directives_settle)
qed

lemma FormatDocument_plain:
  assumes "no_directives doc"
  shows "FormatDocument ranges doc = (if doc_type_url doc \<noteq> [] then ''@type '' @ doc_type_url doc @ [CHR 0x0A, CHR 0x0A] else []) @
    WriteComments kIndent (doc_leading doc) 0 @ Formatter_FormatEntries ranges kIndent 0 (doc_entries doc) @ WriteComments kIndent (doc_trailing doc) 0"
  using assms by (simp add: FormatDocument_def TopDirectives_def no_directives_def)

lemma strip_document_eq:
  assumes "no_directives doc" "no_directives doc'" "doc_type_url doc' = doc_type_url doc"
    "map (strip_entry ranges) (doc_entries doc') = map (strip_entry ranges) (doc_entries doc)"
    "map strip_comment (doc_leading doc') = map strip_comment (doc_leading doc)" "map strip_comment (doc_trailing doc') = map strip_comment (doc_trailing doc)"
  shows "strip_document ranges doc' = strip_document ranges doc"
  using assms by (simp add: strip_document_def no_directives_def)

lemma ParseDocument_plain:
  assumes nl: "\<not> GoIsPrint ranges 10" and doc: "printable_document ranges M (nat D) doc" "doc_type_url doc = []" and D: "0 \<le> D"
    and r: "ready ranges D M P [] L" and f: "front L = FormatDocument ranges doc"
  shows "\<exists>doc' P'. ParseDocument ranges P = Some (Inr doc', P') \<and> strip_document ranges doc' = strip_document ranges (settle doc)"
proof -
  have ind: "list_all blank kIndent" by (simp add: kIndent_def blank_def)
  define lead where "lead = doc_leading (settle doc)"
  define es where "es = doc_entries (settle doc)"
  define trail where "trail = doc_trailing (settle doc)"
  have es: "top_ok ranges M (nat D) es" "comments_text lead" "comments_text trail" "\<And>x xs. es = x # xs \<Longrightarrow> entry_leading x = []" "es = [] \<Longrightarrow> trail = []"
    using settle_printable [OF doc(1)] settle_fields(3,4) [OF doc(2)] unfolding es_def lead_def trail_def by blast+
  have f': "front L = WriteComments kIndent lead 0 @ Formatter_FormatEntries ranges kIndent 0 es @ WriteComments kIndent trail 0"
    using f doc FormatDocument_settle [of doc ranges] FormatDocument_plain [OF settle_printable(4) [OF doc(1)], of ranges]
    by (simp add: printable_document_def settle_fields(1) es_def lead_def trail_def)
  obtain n cs where n: "front (adv n L) = Formatter_FormatEntries ranges kIndent 0 es @ WriteComments kIndent trail 0"
    "map strip_comment cs = map strip_comment lead" "\<And>P ds. ready ranges D M P ds L \<longleftrightarrow> ready ranges D M P (ds @ cs) (adv n L)"
    using ready_comments [OF ind es(2) f'] by metis
  have rc: "ready ranges D M P cs (adv n L)" using n(3) [of P "[]"] r by simp
  have cc: "ps_comments P = cs"
  proof (cases es)
    case Nil
    then show ?thesis using ready_eof [OF rc] n(1) es(5) by (simp add: WriteComments_def)
  next
    case (Cons x xs)
    have "front (adv n L) = core_text ranges kIndent 0 x @ Formatter_FormatEntries ranges kIndent 0 xs @ WriteComments kIndent trail 0"
      using n(1) Cons es(4) by (simp add: FormatEntry_core WriteIndent_def WriteComments_def)
    moreover have "printable_entry ranges M (nat D) x" "\<not> is_TypeEntry x" "\<not> is_MapEntry x" using es(1) Cons by (simp_all add: top_ok_def)
    ultimately show ?thesis by (rule core_start [OF rc _ nl])
  qed
  let ?F = "P\<lparr>ps_comments := []\<rparr>"
  have "ready ranges D M P (cs @ []) (adv n L)" using rc by simp
  then have rf: "ready ranges D M ?F [] (adv n L)" by (rule ready_drop) (simp add: cc)
  from nl es(1,3) D rf n(1) obtain es' P' where t: "entries_loop (Suc (ps_left ?F)) ranges [] ?F = Some (Inr es', P')"
    "map (strip_entry ranges) es' = map (strip_entry ranges) es" "map strip_comment (ps_comments P') = map strip_comment trail"
    "kind ?F = kEOF \<or> kind ?F \<in> set key_kinds" by (rule reads_top)
  have "directives_loop (Suc (ps_left ?F)) ranges d ?F = Some (Inr d, ?F)" for d using t(4) by (auto simp: key_kinds_def pret_def)
  then have "ParseDocument ranges P = Some (Inr (empty_document\<lparr>doc_leading := cs, doc_entries := es', doc_trailing := ps_comments P'\<rparr>), P'\<lparr>ps_comments := []\<rparr>)"
    using t(1) cc by (simp add: ParseDocument_def FlushComments_def pbind_def check_standalone_def pret_def empty_document_def)
  moreover have "strip_document ranges (empty_document\<lparr>doc_leading := cs, doc_entries := es', doc_trailing := ps_comments P'\<rparr>) = strip_document ranges (settle doc)"
    by (rule strip_document_eq [OF settle_printable(4) [OF doc(1)]])
      (use t(2,3) n(2) doc(2) in \<open>simp_all add: no_directives_def empty_document_def es_def lead_def trail_def settle_fields(1)\<close>)
  ultimately show ?thesis by blast
qed

lemma ParseDocument_typed:
  assumes nl: "\<not> GoIsPrint ranges 10" and doc: "printable_document ranges M (nat D) doc" "doc_type_url doc \<noteq> []" and D: "0 \<le> D"
    and r: "ready ranges D M P [] L" and f: "front L = FormatDocument ranges doc"
  shows "\<exists>doc' P'. ParseDocument ranges P = Some (Inr doc', P') \<and> strip_document ranges doc' = strip_document ranges (settle doc)"
proof -
  let ?url = "doc_type_url doc"
  define es where "es = doc_entries (settle doc)"
  define trail where "trail = doc_trailing (settle doc)"
  let ?body = "Formatter_FormatEntries ranges kIndent 0 es @ WriteComments kIndent trail 0"
  have w: "word_text ?url" "word_kind ?url = kIdent" using doc by (simp_all add: printable_document_def name_text_def)
  have es: "top_ok ranges M (nat D) es" "comments_text trail" using settle_printable [OF doc(1)] unfolding es_def trail_def by blast+
  have f': "front L = ''@type'' @ CHR '' '' # ?url @ CHR 0x0A # CHR 0x0A # ?body"
    using f doc FormatDocument_settle [of doc ranges] FormatDocument_plain [OF settle_printable(4) [OF doc(1)], of ranges] settle_fields(2) [OF doc(2)]
    by (simp add: printable_document_def settle_fields(1) es_def trail_def WriteComments_def)
  have "Next ranges L = (mk_token kAtType ''@type'' (CurrentPos L), adv 5 L)" using f' by (intro Next_at_type [of L "CHR '' ''"]) (simp_all add: stop_def)
  then have c: "kind P = kAtType" "ps_comments P = []" "ps_lex P = adv 5 L" using ready_token [OF r] by (simp_all add: mk_token_def)
  let ?P1 = "Parser_Advance ranges P"
  have "front (adv 5 L) = '' '' @ ?url @ CHR 0x0A # CHR 0x0A # ?body" using f' by (simp add: numeral_eq_Suc)
  then have r1: "ready ranges D M ?P1 [] (adv 6 L)"
    using ready_Advance [OF r] c(2,3) ready_blanks [of "adv 5 L" "'' ''"] by (simp add: blank_def numeral_eq_Suc)
  have f6: "front (adv 6 L) = ?url @ CHR 0x0A # CHR 0x0A # ?body" using f' by (simp add: numeral_eq_Suc)
  let ?L2 = "adv (length ?url) (adv 6 L)"
  have "Next ranges (adv 6 L) = (\<lparr>tk_kind = kIdent, tk_value = ?url, tk_pos = CurrentPos (adv 6 L), tk_prec = []\<rparr>, ?L2)"
    using Next_word [OF f6 w(1)] w(2) by (simp add: stop_def)
  then have c1: "kind ?P1 = kIdent" "cur_value ?P1 = ?url" "ps_comments ?P1 = []" "ps_lex ?P1 = ?L2" using ready_token [OF r1] by simp_all
  let ?P2 = "Parser_Advance ranges ?P1"
  have f2: "front ?L2 = CHR 0x0A # CHR 0x0A # ?body" unfolding front_adv [of _ "adv 6 L"] f6 by simp
  have "ready ranges D M ?P2 [] ?L2" using ready_Advance [OF r1] c1(3,4) by simp
  then have "ready ranges D M ?P2 [] (adv 1 ?L2)" using ready_newline [OF f2] by blast
  moreover have f3: "front (adv 1 ?L2) = CHR 0x0A # ?body" unfolding front_adv [of _ ?L2] f2 by simp
  ultimately have r2: "ready ranges D M ?P2 [] (adv 1 (adv 1 ?L2))" using ready_newline [OF f3] by blast
  have fb: "front (adv 1 (adv 1 ?L2)) = ?body" unfolding front_adv [of _ "adv 1 ?L2"] f3 by simp
  from nl es D r2 fb obtain es' P' where t: "entries_loop (Suc (ps_left ?P2)) ranges [] ?P2 = Some (Inr es', P')"
    "map (strip_entry ranges) es' = map (strip_entry ranges) es" "map strip_comment (ps_comments P') = map strip_comment trail"
    "kind ?P2 = kEOF \<or> kind ?P2 \<in> set key_kinds" by (rule reads_top)
  let ?off = "pos_offset (cur_pos ?P1) + length ?url"
  have pt: "ParseTypeDirective ranges d P = Some (Inr (d\<lparr>doc_type_url := ?url, doc_body_offset := ?off\<rparr>), ?P2)" for d
    using c1(1,2) ready_strict [OF r1] by (simp add: ParseTypeDirective_def Let_def pret_def)
  have dl: "directives_loop (Suc m) ranges d ?P2 = Some (Inr d, ?P2)" for m d using t(4) by (auto simp: key_kinds_def pret_def)
  obtain m where m: "ps_left P = Suc m" using c(1) by (simp add: ps_left_def)
  have dd: "directives_loop (Suc (ps_left P)) ranges d P = Some (Inr (d\<lparr>doc_type_url := ?url, doc_body_offset := ?off\<rparr>), ?P2)" for d
    unfolding m directives_loop.simps(2) [of "Suc m"] using c(1) pt dl by (simp add: pbind_def del: directives_loop.simps)
  let ?doc = "empty_document\<lparr>doc_type_url := ?url, doc_body_offset := ?off, doc_entries := es', doc_trailing := ps_comments P'\<rparr>"
  have "P\<lparr>ps_comments := []\<rparr> = P" using c(2) by simp
  then have fl: "FlushComments P = ([], P)" using c(2) by (simp add: FlushComments_def)
  have "ParseDocument ranges P = Some (Inr ?doc, P'\<lparr>ps_comments := []\<rparr>)"
    by (simp add: ParseDocument_def fl dd t(1) FlushComments_def [of P'] pbind_def check_standalone_def pret_def empty_document_def
        del: directives_loop.simps entries_loop.simps)
  moreover have "strip_document ranges ?doc = strip_document ranges (settle doc)"
    by (rule strip_document_eq [OF settle_printable(4) [OF doc(1)]])
      (use t(2,3) settle_fields(2) [OF doc(2)] in \<open>simp_all add: no_directives_def empty_document_def es_def trail_def settle_fields(1)\<close>)
  ultimately show ?thesis by blast
qed

lemma limit_pos: "0 < d \<Longrightarrow> 0 < limit_or n d"
  by (simp add: limit_or_def)

lemma ready_start:
  assumes "M = limit_or (po_max_bytes_literal_length opts) kMaxBytesLiteralLength" "D = limit_or (po_max_nesting_depth opts) (int kMaxNestingDepth)"
  shows "ready ranges D M (strict_parser ranges s opts) [] (SetMaxBytesLiteral M (new_lexer s))" "front (SetMaxBytesLiteral M (new_lexer s)) = s"
  using assms by (simp_all add: ready_def strict_parser_def new_parser_def Parser_Advance_def SetMaxBytesLiteral_def new_lexer_def new_lexer_at_def front_def split: prod.split)

lemma ParseDocument_printed:
  assumes "\<not> GoIsPrint ranges 10" "printable_document ranges M (nat D) doc" "0 \<le> D" "ready ranges D M P [] L" "front L = FormatDocument ranges doc"
  shows "\<exists>doc' P'. ParseDocument ranges P = Some (Inr doc', P') \<and> strip_document ranges doc' = strip_document ranges (settle doc)"
  using assms ParseDocument_plain ParseDocument_typed by (cases "doc_type_url doc = []") blast+

lemma Parse_FormatDocument:
  assumes "\<not> GoIsPrint ranges 10"
    and "printable_document ranges (limit_or (po_max_bytes_literal_length opts) kMaxBytesLiteralLength)
           (nat (limit_or (po_max_nesting_depth opts) (int kMaxNestingDepth))) doc"
    and "int (length (FormatDocument ranges doc)) \<le> limit_or (po_max_message_size opts) (int kMaxMessageSize)"
  shows "\<exists>doc'. Parse ranges (FormatDocument ranges doc) opts = Some (Inr doc') \<and>
    strip_document ranges doc' = strip_document ranges (settle doc) \<and> FormatDocument ranges doc' = FormatDocument ranges doc"
proof -
  define M where "M = limit_or (po_max_bytes_literal_length opts) kMaxBytesLiteralLength"
  define D where "D = limit_or (po_max_nesting_depth opts) (int kMaxNestingDepth)"
  note start = ready_start(1) [OF M_def D_def, of ranges "FormatDocument ranges doc"] ready_start(2) [OF M_def D_def, of "FormatDocument ranges doc"]
  have D: "0 \<le> D" unfolding D_def by (intro less_imp_le limit_pos) (simp add: kMaxNestingDepth_def)
  have p: "printable_document ranges M (nat D) doc" using assms(2) by (simp add: M_def D_def)
  obtain doc' P' where d: "ParseDocument ranges (strict_parser ranges (FormatDocument ranges doc) opts) = Some (Inr doc', P')"
    "strip_document ranges doc' = strip_document ranges (settle doc)"
    using ParseDocument_printed [OF assms(1) p D start] by blast
  have n: "no_directives doc" using p by (simp add: printable_document_def)
  then have n': "no_directives doc'" using d(2) no_directives_strip no_directives_settle by metis
  have "FormatDocument ranges doc' = FormatDocument ranges (strip_document ranges (settle doc))" using FormatDocument_strip [OF n', of ranges] d(2) by metis
  also have "\<dots> = FormatDocument ranges doc" using n by (simp add: FormatDocument_strip no_directives_settle FormatDocument_settle)
  finally show ?thesis using d assms(3) by (simp add: Parse_def)
qed

section \<open>Properties\<close>

text \<open>C7. Parsing what the formatter wrote gives the document back. For every document without top-level directives whose scalars, keys,
type name and comments are texts the lexer can produce, with no recovery node and no map or type entry at the top, whose nesting and
literals the limits admit and whose text is within the size limit, and a printable table that does not list the newline, Parse accepts FormatDocument's output, the document it returns has the same content (positions aside; comments that the text cannot tell
apart from the next entry's are attached there), and formatting that document again gives the same text.\<close>

theorem format_parse_roundtrip:
  assumes "\<not> GoIsPrint ranges 10"
    and "printable_document ranges (limit_or (po_max_bytes_literal_length opts) kMaxBytesLiteralLength)
           (nat (limit_or (po_max_nesting_depth opts) (int kMaxNestingDepth))) doc"
    and "int (length (FormatDocument ranges doc)) \<le> limit_or (po_max_message_size opts) (int kMaxMessageSize)"
  shows "\<exists>doc'. Parse ranges (FormatDocument ranges doc) opts = Some (Inr doc') \<and>
    strip_document ranges doc' = strip_document ranges (settle doc) \<and> FormatDocument ranges doc' = FormatDocument ranges doc"
  using Parse_FormatDocument [OF assms] .

theorem format_parse_roundtrip_witness:
  "let doc = empty_document\<lparr>doc_type_url := ''a.B'', doc_leading := [\<lparr>cm_pos = start_position, cm_text = ''# c''\<rparr>],
       doc_entries := [Block start_position start_position ''k b'' True
         [TypeEntry start_position start_position ''t'' [] [],
          Assignment start_position start_position ''xs'' False
            (ListVal start_position start_position
              [IntVal start_position start_position ''-7'' [], StringVal start_position start_position (''q'' @ [CHR 0x0A]), BytesVal start_position start_position [1, 2]])
            [] ''// t''] [] []]\<rparr>
   in \<exists>doc'. Parse [(32, 126)] (FormatDocument [(32, 126)] doc)
         \<lparr>po_max_message_size = 0, po_max_nesting_depth = 0, po_max_bytes_literal_length = 0\<rparr> = Some (Inr doc') \<and>
       strip_document [(32, 126)] doc' = strip_document [(32, 126)] (settle doc) \<and> FormatDocument [(32, 126)] doc' = FormatDocument [(32, 126)] doc"
  unfolding Let_def by (rule format_parse_roundtrip) code_simp+

text \<open>The formatter loses a newline of a \<open>@proto\<close> source. A string body is written between triple quotes as it is, and the lexer
drops a newline right after the opening quotes: the body of the document read back has one character less.\<close>

theorem proto_source_loses_newline:
  "map_option (map_sum err_msg (map pd_body \<circ> doc_protos))
     (Parse [(32, 126)] (''@proto '' @ [CHR 0x22, CHR 0x5C, CHR ''n'', CHR ''x'', CHR 0x22])
       \<lparr>po_max_message_size = 0, po_max_nesting_depth = 0, po_max_bytes_literal_length = 0\<rparr>) = Some (Inr [[CHR 0x0A, CHR ''x'']]) \<and>
   map_option (map_sum err_msg (\<lambda>doc. map_option (map_sum err_msg (map pd_body \<circ> doc_protos))
       (Parse [(32, 126)] (FormatDocument [(32, 126)] doc) \<lparr>po_max_message_size = 0, po_max_nesting_depth = 0, po_max_bytes_literal_length = 0\<rparr>)))
     (Parse [(32, 126)] (''@proto '' @ [CHR 0x22, CHR 0x5C, CHR ''n'', CHR ''x'', CHR 0x22])
       \<lparr>po_max_message_size = 0, po_max_nesting_depth = 0, po_max_bytes_literal_length = 0\<rparr>) = Some (Inr (Some (Inr [''x''])))"
  by code_simp

text \<open>The length limit of a bytes literal counts its padding: under a limit of one byte, a literal of one byte is refused when it is
padded and accepted when it is not.\<close>

lemma padded_literal_over_limit:
  "map_option (map_sum err_msg (length \<circ> doc_entries)) (Parse [(32, 126)] (''x = b'' @ [CHR 0x22] @ ''AA=='' @ [CHR 0x22])
     \<lparr>po_max_message_size = 0, po_max_nesting_depth = 0, po_max_bytes_literal_length = 1\<rparr>) =
     Some (Inl ''bytes literal decodes to more than MaxBytesLiteralLength=1 bytes'')"
  "map_option (map_sum err_msg (length \<circ> doc_entries)) (Parse [(32, 126)] (''x = b'' @ [CHR 0x22] @ ''AA'' @ [CHR 0x22])
     \<lparr>po_max_message_size = 0, po_max_nesting_depth = 0, po_max_bytes_literal_length = 1\<rparr>) = Some (Inr 1)"
  by code_simp+

end
