(* ===== verification/PxfParserWp.thy ===== *)
theory PxfParserWp
  imports PxfParser
begin

text \<open>
  What a run of the parser of values and entries guarantees, by weakest preconditions: it returns, fails only in strict
  mode, consumes what it reads, and the tree of a strict parse is well formed.
\<close>

section \<open>Weakest preconditions\<close>

definition wp :: "((Error + 'a) \<times> Parser) option \<Rightarrow> ('a \<Rightarrow> Parser \<Rightarrow> bool) \<Rightarrow> (Error \<Rightarrow> Parser \<Rightarrow> bool) \<Rightarrow> bool" where
  "wp r Q E \<longleftrightarrow> (case r of None \<Rightarrow> False | Some (Inl e, P') \<Rightarrow> E e P' | Some (Inr x, P') \<Rightarrow> Q x P')"

lemma wp_bind [simp]: "wp (pbind m f P) Q E \<longleftrightarrow> wp (m P) (\<lambda>x P'. wp (f x P') Q E) E"
  by (auto simp: wp_def pbind_def split: option.split sum.split prod.split)

lemma wp_ret [simp]: "wp (pret x P) Q E \<longleftrightarrow> Q x P"
  by (simp add: wp_def pret_def)

lemma wp_Err [simp]: "wp (Err p msg P) Q E \<longleftrightarrow> E \<lparr>err_pos = p, err_msg = msg\<rparr> P"
  by (simp add: wp_def Err_def)

lemma wp_Soft [simp]:
  "wp (Soft p msg P) Q E \<longleftrightarrow> (if ps_tolerant P then Q () (record_error p msg P) else E \<lparr>err_pos = p, err_msg = msg\<rparr> P)"
  by (simp add: wp_def Soft_def Err_def pret_def)

lemma wp_soft_if [simp]: "wp (soft_if b p msg P) Q E \<longleftrightarrow> (if b then wp (Soft p msg P) Q E else Q () P)"
  by (simp add: soft_if_def)

lemma wp_mono: "wp r Q E \<Longrightarrow> (\<And>x P'. Q x P' \<Longrightarrow> Q' x P') \<Longrightarrow> (\<And>e P'. E e P' \<Longrightarrow> E' e P') \<Longrightarrow> wp r Q' E'"
  by (auto simp: wp_def split: option.splits sum.splits)

section \<open>Tokens\<close>

text \<open>What the lexer promises of a token's text.\<close>

definition tok_ok :: "Token \<Rightarrow> bool" where
  "tok_ok t \<longleftrightarrow>
     (tk_kind t = kIllegal \<longrightarrow> tk_value t \<noteq> []) \<and>
     (tk_kind t = kTimestamp \<longrightarrow> ParseRFC3339 (tk_value t) \<noteq> None) \<and>
     (tk_kind t = kDuration \<longrightarrow> ParseDuration (tk_value t) \<noteq> None)"

lemma tok_ok_mk [simp]:
  "tok_ok (mk_token k v p) \<longleftrightarrow>
     (k = kIllegal \<longrightarrow> v \<noteq> []) \<and> (k = kTimestamp \<longrightarrow> ParseRFC3339 v \<noteq> None) \<and> (k = kDuration \<longrightarrow> ParseDuration v \<noteq> None)"
  by (simp add: tok_ok_def mk_token_def)

lemma tok_ok_string: "tok_ok (fst (LexString_loop p vs needs sb L))"
proof (induction p vs needs sb L rule: LexString_loop.induct)
  case (1 p vs needs sb L)
  obtain r L' where r: "LexString_escape (Advance L) = (r, L')" by fastforce
  have "msg \<noteq> []" if "r = Inl (msg, kept)" for msg kept
    using r that by (auto simp: LexString_escape_def rune_escape_def Let_def split: if_splits option.splits prod.splits)
  with r 1 show ?case
    by (subst LexString_loop.simps) (cases r; auto simp: Let_def string_token_def)
qed

lemma tok_ok_bytes: "tok_ok (fst (LexBytes_loop p start L))"
proof (induction p start L rule: LexBytes_loop.induct)
  case (1 p start L)
  then show ?case by (subst LexBytes_loop.simps) (simp add: Let_def)
qed

lemma tok_ok_number: "k = kInt \<or> k = kFloat \<Longrightarrow> tok_ok (fst (number_token k p start L))"
  by (auto simp: number_token_def Let_def tok_ok_def split: prod.split)

lemma tok_ok_digits: "tok_ok (fst (LexNumber_digits p start neg L))"
  by (simp add: LexNumber_digits_def LexTimestamp_def LexDuration_def LexFloat_def Let_def tok_ok_number)

lemma tok_ok_ops:
  "tok_ok (fst (LexLineComment p L))" "tok_ok (fst (LexBlockComment p L))" "tok_ok (fst (LexTripleString p L))"
  "tok_ok (fst (LexString p L))" "tok_ok (fst (LexBytes p L))" "tok_ok (fst (LexDirective p L))"
  "tok_ok (fst (LexNumber p L))" "tok_ok (fst (LexIdent p L))"
  by (simp_all add: LexLineComment_def LexBlockComment_def LexTripleString_def LexString_def LexBytes_def LexDirective_def
      LexNumber_def LexIdent_def Let_def tok_ok_string tok_ok_bytes tok_ok_digits split: prod.split bool.split)

lemma punctuation_plain: "punctuation c = Some k \<Longrightarrow> k \<noteq> kIllegal \<and> k \<noteq> kTimestamp \<and> k \<noteq> kDuration"
  by (auto simp: punctuation_def split: if_splits)

lemma GoIllegalRune_msg: "fst (GoIllegalRune ranges s) \<noteq> []"
  by (simp add: GoIllegalRune_def split: option.split prod.split)

lemma Next_tok_ok: "tok_ok (fst (Next ranges L))"
proof -
  obtain msg w where g: "GoIllegalRune ranges (drop (lx_pos (SkipSpaces L)) (lx_input (SkipSpaces L))) = (msg, w)" by fastforce
  then have "msg \<noteq> []" using GoIllegalRune_msg by (metis fst_conv)
  with g show ?thesis
    unfolding Next_def Let_def
    by (cases "punctuation (Peek 0 (SkipSpaces L))") (simp_all only: tok_ok_ops tok_ok_mk fst_conv if_split_eq1 option.case prod.case, simp_all add: punctuation_plain tok_ok_ops)
qed

lemma Advance_loop_tok_ok: "tok_ok (fst (Advance_loop ranges cs L))"
proof (induction ranges cs L rule: Advance_loop.induct)
  case (1 ranges cs L)
  obtain u M where N: "Next ranges L = (u, M)" by fastforce
  with Next_tok_ok [of ranges L] 1 show ?case by (subst Advance_loop.simps) simp
qed

section \<open>What every step keeps\<close>

text \<open>
  Where the current token stands: it starts after what was read before it, ends where the lexer stands, and a bracket is the byte it
  names. The lexer keeps its input and stays within it.
\<close>

fun bracket_char :: "TokenKind \<Rightarrow> char option" where
  "bracket_char kLBrace = Some (CHR ''{'')"
| "bracket_char kRBrace = Some (CHR ''}'')"
| "bracket_char kLBracket = Some (CHR ''['')"
| "bracket_char kRBracket = Some (CHR '']'')"
| "bracket_char kLParen = Some (CHR ''('')"
| "bracket_char kRParen = Some (CHR '')'')"
| "bracket_char _ = None"

definition located :: "Token \<Rightarrow> Lexer \<Rightarrow> bool" where
  "located t L \<longleftrightarrow>
     (\<exists>k. pos_offset (tk_pos t) = pos_offset (lx_start L) + k \<and>
        (if tk_kind t = kEOF then lx_pos L = k
         else k < lx_pos L \<and> (\<forall>c. bracket_char (tk_kind t) = Some c \<longrightarrow> k < length (lx_input L) \<and> lx_input L ! k = c \<and> lx_pos L = Suc k)))"

definition cur_ok :: "Parser \<Rightarrow> bool" where
  "cur_ok P \<longleftrightarrow> tok_ok (ps_current P) \<and> located (ps_current P) (ps_lex P)"

definition lex_kept :: "Lexer \<Rightarrow> Lexer \<Rightarrow> bool" where
  "lex_kept L L' \<longleftrightarrow>
     lx_start L' = lx_start L \<and> lx_input L' = lx_input L \<and> lx_pos L \<le> lx_pos L' \<and>
     (lx_pos L \<le> length (lx_input L) \<longrightarrow> lx_pos L' \<le> length (lx_input L))"

lemma lex_kept_refl [simp]: "lex_kept L L"
  by (simp add: lex_kept_def)

lemma lex_kept_trans: "lex_kept L1 L2 \<Longrightarrow> lex_kept L2 L3 \<Longrightarrow> lex_kept L1 L3"
  by (simp add: lex_kept_def)

lemma lex_kept_Report [simp]: "lex_kept L (Report p msg L') = lex_kept L L'" "lex_kept (Report p msg L) L' = lex_kept L L'"
  by (simp_all add: lex_kept_def Report_def)

lemma moves_kept: "moves L L' \<Longrightarrow> lex_kept L L'"
proof (induction rule: moves.induct)
  case (advance L')
  then show ?case by (auto simp: lex_kept_def Advance_def at_end_def)
qed simp_all

lemma located_Report [simp]: "located t (Report p msg L) = located t L"
  by (simp add: located_def Report_def)

definition not_bracket :: "Token \<Rightarrow> bool" where
  "not_bracket t \<longleftrightarrow> bracket_char (tk_kind t) = None"

lemma not_bracket_mk [simp]: "bracket_char k = None \<Longrightarrow> not_bracket (mk_token k v p)"
  by (simp add: not_bracket_def mk_token_def)

lemma not_bracket_string: "not_bracket (fst (LexString_loop p vs needs sb L))"
proof (induction p vs needs sb L rule: LexString_loop.induct)
  case (1 p vs needs sb L)
  obtain r L' where r: "LexString_escape (Advance L) = (r, L')" by fastforce
  with 1 show ?case
    by (subst LexString_loop.simps) (cases r; auto simp: Let_def string_token_def)
qed

lemma not_bracket_bytes: "not_bracket (fst (LexBytes_loop p start L))"
proof (induction p start L rule: LexBytes_loop.induct)
  case (1 p start L)
  then show ?case by (subst LexBytes_loop.simps) (simp add: Let_def)
qed

lemma not_bracket_number: "bracket_char k = None \<Longrightarrow> not_bracket (fst (number_token k p start L))"
  by (simp add: number_token_def Let_def not_bracket_def split: prod.split)

lemma not_bracket_digits: "not_bracket (fst (LexNumber_digits p start neg L))"
  by (simp add: LexNumber_digits_def LexTimestamp_def LexDuration_def LexFloat_def Let_def not_bracket_number)

lemma not_bracket_ops:
  "not_bracket (fst (LexLineComment p L))" "not_bracket (fst (LexBlockComment p L))" "not_bracket (fst (LexTripleString p L))"
  "not_bracket (fst (LexString p L))" "not_bracket (fst (LexBytes p L))" "not_bracket (fst (LexDirective p L))"
  "not_bracket (fst (LexNumber p L))" "not_bracket (fst (LexIdent p L))"
  by (simp_all add: LexLineComment_def LexBlockComment_def LexTripleString_def LexString_def LexBytes_def LexDirective_def
      LexNumber_def LexIdent_def Let_def not_bracket_string not_bracket_bytes not_bracket_digits split: prod.split bool.split)

lemma Next_bracket:
  assumes "bracket_char (tk_kind (fst (Next ranges L))) = Some c"
  shows "snd (Next ranges L) = Advance (SkipSpaces L) \<and> \<not> at_end (SkipSpaces L) \<and> Peek 0 (SkipSpaces L) = c"
proof -
  obtain msg w where g: "GoIllegalRune ranges (drop (lx_pos (SkipSpaces L)) (lx_input (SkipSpaces L))) = (msg, w)" by fastforce
  have o: "not_bracket t \<Longrightarrow> bracket_char (tk_kind t) \<noteq> Some c" for t by (simp add: not_bracket_def)
  have p: "punctuation x = Some k \<Longrightarrow> bracket_char k = Some c \<Longrightarrow> x = c" for x k
    by (auto simp: punctuation_def split: if_splits)
  note ops = o [OF not_bracket_ops(1)] o [OF not_bracket_ops(2)] o [OF not_bracket_ops(3)] o [OF not_bracket_ops(4)] o [OF not_bracket_ops(5)]
    o [OF not_bracket_ops(6)] o [OF not_bracket_ops(7)] o [OF not_bracket_ops(8)]
  show ?thesis
  proof (cases "punctuation (Peek 0 (SkipSpaces L))")
    case None
    show ?thesis using assms ops unfolding Next_def Let_def None option.case g prod.case by (simp_all add: mk_token_def split: if_split_asm)
  next
    case (Some k)
    have "snd (Next ranges L) = Advance (SkipSpaces L) \<and> \<not> at_end (SkipSpaces L) \<and> bracket_char k = Some c"
      using assms ops unfolding Next_def Let_def Some option.case by (auto simp: mk_token_def split: if_split_asm)
    with p [OF Some] show ?thesis by blast
  qed
qed

lemma Next_located: "located (fst (Next ranges L)) (snd (Next ranges L))"
proof (cases "at_end (SkipSpaces L)")
  case True
  with Next_moves [where ranges = ranges and ?L0.0 = L] show ?thesis by (simp add: located_def mk_token_def CurrentPos_def)
next
  case False
  let ?S = "SkipSpaces L"
  have n: "moves (Advance ?S) (snd (Next ranges L))" "tk_pos (fst (Next ranges L)) = CurrentPos ?S" "tk_kind (fst (Next ranges L)) \<noteq> kEOF"
    using Next_moves [where ranges = ranges and ?L0.0 = L] False by auto
  have k: "lx_start (snd (Next ranges L)) = lx_start ?S" "lx_input (snd (Next ranges L)) = lx_input ?S" "lx_pos ?S < lx_pos (snd (Next ranges L))"
    using moves_fixed [OF n(1)] moves_step [OF False n(1)] by (auto simp: Advance_def)
  have "lx_pos ?S < length (lx_input ?S) \<and> lx_input ?S ! lx_pos ?S = c \<and> lx_pos (snd (Next ranges L)) = Suc (lx_pos ?S)"
    if "bracket_char (tk_kind (fst (Next ranges L))) = Some c" for c
    using Next_bracket [OF that] False by (auto simp: Peek_def Advance_def at_end_def split: if_splits)
  with n k show ?thesis by (auto simp: located_def CurrentPos_def)
qed

lemma Advance_loop_located: "Advance_loop ranges cs L = (t, cs', L') \<Longrightarrow> located t L'"
proof (induction ranges cs L rule: Advance_loop.induct)
  case (1 ranges cs L)
  obtain u M where N: "Next ranges L = (u, M)" by fastforce
  with Next_located [of ranges L] 1 show ?case by (subst (asm) (3) Advance_loop.simps) (auto split: if_splits)
qed

definition after :: "Parser \<Rightarrow> Parser \<Rightarrow> bool" where
  "after P P' \<longleftrightarrow>
     ps_left P' \<le> ps_left P \<and> ps_tolerant P' = ps_tolerant P \<and> ps_max_depth P' = ps_max_depth P \<and> cur_ok P' \<and>
     lex_kept (ps_lex P) (ps_lex P')"

lemma after_refl [simp]: "after P P \<longleftrightarrow> cur_ok P"
  by (simp add: after_def)

lemma after_ok: "after P P' \<Longrightarrow> cur_ok P'"
  by (simp add: after_def)

lemma after_left: "after P P' \<Longrightarrow> ps_left P' \<le> ps_left P"
  by (simp add: after_def)

lemma after_trans: "after P P' \<Longrightarrow> after P' P'' \<Longrightarrow> after P P''"
  by (auto simp: after_def intro: lex_kept_trans)

lemma Parser_Advance_kept: "lex_kept (ps_lex P) (ps_lex (Parser_Advance ranges P))"
proof -
  obtain t cs L where a: "Advance_loop ranges (ps_comments P) (ps_lex P) = (t, cs, L)" by (metis prod_cases3)
  from Advance_loop_grows [OF a] have "moves (ps_lex P) L" by blast
  with a show ?thesis using moves_kept by (simp add: Parser_Advance_def)
qed

lemma Parser_Advance_start [simp]:
  "lx_start (ps_lex (Parser_Advance ranges P)) = lx_start (ps_lex P)" "lex_kept L (ps_lex P) \<Longrightarrow> lex_kept L (ps_lex (Parser_Advance ranges P))"
  using Parser_Advance_kept [of P ranges] lex_kept_trans by (auto simp: lex_kept_def)

lemma Parser_Advance_fields [simp]:
  "ps_tolerant (Parser_Advance ranges P) = ps_tolerant P" "ps_max_depth (Parser_Advance ranges P) = ps_max_depth P"
  "cur_ok (Parser_Advance ranges P)"
  using Advance_loop_tok_ok [of ranges "ps_comments P" "ps_lex P"]
  by (auto simp: Parser_Advance_def cur_ok_def dest: Advance_loop_located split: prod.split)

lemma cur_ok_tok: "cur_ok P \<Longrightarrow> tok_ok (ps_current P)"
  by (simp add: cur_ok_def)

lemma cur_ok_bracket:
  "cur_ok P \<Longrightarrow> bracket_char (kind P) = Some c \<Longrightarrow> pos_offset (lx_start (ps_lex P)) + lx_pos (ps_lex P) = Suc (pos_offset (cur_pos P))"
  by (auto simp: cur_ok_def located_def split: if_splits)

lemma cur_ok_fields [simp]: "cur_ok (record_error p msg P) = cur_ok P" "cur_ok (P\<lparr>ps_comments := cs\<rparr>) = cur_ok P" "cur_ok (prepend_comments cs P) = cur_ok P"
  "lex_kept L (ps_lex (record_error p msg P)) = lex_kept L (ps_lex P)" "lex_kept (ps_lex (record_error p msg P)) L = lex_kept (ps_lex P) L"
  by (simp_all add: cur_ok_def record_error_def prepend_comments_def)

lemma after_Advance [simp]: "after P P' \<Longrightarrow> after P (Parser_Advance ranges P')"
  using Advance_le [of ranges P'] by (simp add: after_def)

lemma after_Advance1 [simp]: "after P (Parser_Advance ranges P)"
  using Advance_le [of ranges P] by (simp add: after_def)

lemma record_error_fields [simp]:
  "ps_current (record_error p msg P) = ps_current P" "ps_tolerant (record_error p msg P) = ps_tolerant P"
  "ps_max_depth (record_error p msg P) = ps_max_depth P" "ps_left (record_error p msg P) = ps_left P"
  "ps_prev_end (record_error p msg P) = ps_prev_end P" "ps_comments (record_error p msg P) = ps_comments P"
  "lx_start (ps_lex (record_error p msg P)) = lx_start (ps_lex P)"
  by (simp_all add: record_error_def ps_left_def Report_def lx_left_def)

lemma comments_fields [simp]:
  "ps_left (P\<lparr>ps_comments := cs\<rparr>) = ps_left P"
  by (simp add: ps_left_def)

lemma prepend_fields [simp]:
  "ps_current (prepend_comments cs P) = ps_current P" "ps_tolerant (prepend_comments cs P) = ps_tolerant P"
  "ps_max_depth (prepend_comments cs P) = ps_max_depth P" "ps_left (prepend_comments cs P) = ps_left P"
  "ps_lex (prepend_comments cs P) = ps_lex P"
  by (simp_all add: prepend_comments_def)

lemma after_record [simp]: "after P (record_error p msg P') \<longleftrightarrow> after P P'" "after (record_error p msg P) P' \<longleftrightarrow> after P P'"
  by (simp_all add: after_def)

lemma after_comments [simp]:
  "after P (P'\<lparr>ps_comments := cs\<rparr>) \<longleftrightarrow> after P P'" "after (P\<lparr>ps_comments := cs\<rparr>) P' \<longleftrightarrow> after P P'"
  "after P (prepend_comments cs P') \<longleftrightarrow> after P P'"
  by (simp_all add: after_def)

lemma TakeTrailingComment_cases: "\<exists>cs. snd (TakeTrailingComment e P) = P\<lparr>ps_comments := cs\<rparr>"
  by (cases "ps_comments P") (auto simp: TakeTrailingComment_def intro: exI [of _ "ps_comments P"])

lemma TakeTrailingComment_after:
  assumes "TakeTrailingComment e P = (c, P')"
  shows "after Q P' \<longleftrightarrow> after Q P" "ps_left P' = ps_left P" "ps_current P' = ps_current P"
  using TakeTrailingComment_cases [of e P] assms by auto

lemma SkipBalanced_after:
  "kind P = opener \<Longrightarrow> SkipBalanced ranges opener closer d P = (e, P') \<Longrightarrow> opener \<noteq> kEOF \<Longrightarrow> after P P' \<and> ps_left P' < ps_left P"
proof -
  have le: "after P P'" if "SkipBalanced ranges opener closer d P = (e, P')" "cur_ok P" for d P
    using that
  proof (induction ranges opener closer d P rule: SkipBalanced.induct)
    case (1 ranges opener closer depth P)
    let ?A = "Parser_Advance ranges P"
    have a: "after ?A P' \<Longrightarrow> after P P'" using after_trans after_Advance1 by blast
    show ?case using 1 a by (subst (asm) (4) SkipBalanced.simps) (auto split: if_splits)
  qed
  assume p: "kind P = opener" "SkipBalanced ranges opener closer d P = (e, P')" "opener \<noteq> kEOF"
  then have "SkipBalanced ranges opener closer (d + 1) (Parser_Advance ranges P) = (e, P')" by (subst (asm) SkipBalanced.simps) simp
  from le [OF this] have a: "after (Parser_Advance ranges P) P'" by simp
  then have "ps_left P' \<le> ps_left (Parser_Advance ranges P)" by (simp add: after_def)
  with Advance_less [of P ranges] p after_trans [OF after_Advance1 a] show ?thesis by simp
qed

lemma SyncTopLevel_after: "cur_ok P \<Longrightarrow> after P (SyncTopLevel ranges P)"
proof (induction ranges P rule: SyncTopLevel.induct)
  case (1 ranges P)
  have a: "after (Parser_Advance ranges P) X \<Longrightarrow> after P X" for X using after_trans after_Advance1 by blast
  show ?case by (subst SyncTopLevel.simps) (use 1 a in simp)
qed

lemma CurrentStartsEntry_eq: "snd (CurrentStartsEntry ranges P) = P"
  by (simp add: CurrentStartsEntry_def PeekKind_eq)

section \<open>Well-formed trees\<close>

text \<open>
  What a strict parse makes: no placeholder value, timestamps and durations that their text denotes, the type entry only at
  the front of a block, and at most \<open>n\<close> levels of lists and blocks.
\<close>

fun is_type_entry :: "Entry \<Rightarrow> bool" where
  "is_type_entry (TypeEntry p e url cs c) = True"
| "is_type_entry _ = False"

fun value_ok :: "nat \<Rightarrow> Value \<Rightarrow> bool"
and entry_ok :: "nat \<Rightarrow> Entry \<Rightarrow> bool" where
  "value_ok n (ListVal p e vs) = (case n of 0 \<Rightarrow> False | Suc m \<Rightarrow> list_all (value_ok m) vs)"
| "value_ok n (BlockVal p e es cs) = (case n of 0 \<Rightarrow> False | Suc m \<Rightarrow> list_all (entry_ok m) es \<and> list_all (\<lambda>x. \<not> is_type_entry x) (tl es))"
| "value_ok n (BadVal p e) = False"
| "value_ok n (TimestampVal p e seconds nanos raw) = (ParseRFC3339 raw = Some (seconds, nanos))"
| "value_ok n (DurationVal p e seconds nanos raw) = (ParseDuration raw = Some (seconds, nanos))"
| "value_ok n _ = True"
| "entry_ok n (Assignment p e k q v cs c) = value_ok n v"
| "entry_ok n (MapEntry p e k q v cs c) = value_ok n v"
| "entry_ok n (Block p e k q es cs ts) = (case n of 0 \<Rightarrow> False | Suc m \<Rightarrow> list_all (entry_ok m) es \<and> list_all (\<lambda>x. \<not> is_type_entry x) (tl es))"
| "entry_ok n (TypeEntry p e url cs c) = True"

definition body_ok :: "nat \<Rightarrow> Entry list \<Rightarrow> bool" where
  "body_ok n es \<longleftrightarrow> list_all (entry_ok n) es \<and> list_all (\<lambda>x. \<not> is_type_entry x) (tl es)"

lemma body_ok_Nil [simp]: "body_ok n []"
  by (simp add: body_ok_def)

section \<open>Values\<close>

text \<open>A failure: only of a strict parse, and with a message, which is how a \<open>Status\<close> tells it from success.\<close>

definition fails :: "Parser \<Rightarrow> Error \<Rightarrow> Parser \<Rightarrow> bool" where
  "fails P e P' \<longleftrightarrow> \<not> ps_tolerant P \<and> err_msg e \<noteq> []"

lemma fails_after: "after P P' \<Longrightarrow> fails P' e P'' \<Longrightarrow> fails P e P''"
  by (auto simp: after_def fails_def)

lemma wp_after:
  assumes "wp r Q (fails P1)" "after P P1" "\<And>x P'. Q x P' \<Longrightarrow> Q' x P'"
  shows "wp r Q' (fails P)"
  using assms(1) by (rule wp_mono) (use assms fails_after in blast)+

definition strict_ok :: "Parser \<Rightarrow> bool \<Rightarrow> bool" where
  "strict_ok P b \<longleftrightarrow> ps_tolerant P \<or> b"

lemma strict_ok_after: "after P P' \<Longrightarrow> strict_ok P' b \<longleftrightarrow> strict_ok P b"
  by (simp add: strict_ok_def after_def)

definition levels :: "int \<Rightarrow> Parser \<Rightarrow> nat" where
  "levels depth P = nat (ps_max_depth P - depth)"

lemma levels_after [simp]: "after P P' \<Longrightarrow> levels d P' = levels d P"
  by (simp add: after_def levels_def)

lemma levels_Advance [simp]: "levels d (Parser_Advance ranges P) = levels d P"
  by (simp add: levels_def)

lemma levels_Suc: "\<not> ps_max_depth P < d + 1 \<Longrightarrow> levels d P = Suc (levels (d + 1) P)"
  by (simp add: levels_def)

text \<open>A value consumes its token, unless it is the placeholder of a tolerant parse.\<close>

definition value_post :: "int \<Rightarrow> Parser \<Rightarrow> Value \<Rightarrow> Parser \<Rightarrow> bool" where
  "value_post depth P v P' \<longleftrightarrow>
     after P P' \<and> (ps_left P' < ps_left P \<or> ps_tolerant P \<and> is_BadVal v \<and> ps_current P' = ps_current P) \<and>
     strict_ok P (value_ok (levels depth P) v)"

definition list_post :: "int \<Rightarrow> Parser \<Rightarrow> Value list \<Rightarrow> Parser \<Rightarrow> bool" where
  "list_post depth P vs P' \<longleftrightarrow> after P P' \<and> strict_ok P (list_all (value_ok (levels depth P)) vs)"

definition body_post :: "int \<Rightarrow> Parser \<Rightarrow> Entry list \<times> Position \<times> Comment list \<Rightarrow> Parser \<Rightarrow> bool" where
  "body_post depth P r P' \<longleftrightarrow> after P P' \<and> strict_ok P (body_ok (levels depth P) (fst r))"

definition entry_post :: "bool \<Rightarrow> int \<Rightarrow> Parser \<Rightarrow> Entry option \<Rightarrow> Parser \<Rightarrow> bool" where
  "entry_post allow depth P entry P' \<longleftrightarrow>
     after P P' \<and> (kind P \<noteq> kEOF \<longrightarrow> ps_left P' < ps_left P) \<and>
     strict_ok P (case entry of None \<Rightarrow> False | Some e \<Rightarrow> entry_ok (levels depth P) e \<and> \<not> is_type_entry e \<and> (allow \<or> \<not> is_MapEntry e))"

lemma fails_here [simp]: "fails P \<lparr>err_pos = p, err_msg = msg\<rparr> P' \<longleftrightarrow> \<not> ps_tolerant P \<and> msg \<noteq> []"
  by (simp add: fails_def)

lemma wp_literal:
  assumes "kind P \<noteq> kEOF" "strict_ok P (value_ok (levels d P) (mk (cur_pos P) (TokenEnd P)))"
  shows "wp (token_value ranges mk P) (value_post d P) (fails P)"
  using assms Advance_less [of P ranges] by (simp add: token_value_def value_post_def)

lemma strict_ok_True [simp]: "strict_ok P True"
  by (simp add: strict_ok_def)

lemma value_step_wp:
  assumes ok: "cur_ok P" and l: "kind P = kLBracket \<Longrightarrow> wp (pl P) (value_post d P) (fails P)"
    and b: "kind P = kLBrace \<Longrightarrow> wp (pb P) (value_post d P) (fails P)"
  shows "wp (value_step ranges pl pb P) (value_post d P) (fails P)"
proof -
  let ?starts = "ps_tolerant P \<and> fst (CurrentStartsEntry ranges P)"
  have c: "(if ps_tolerant P then CurrentStartsEntry ranges P else (False, P)) = (?starts, P)"
    using CurrentStartsEntry_eq [of ranges P] by (auto simp: prod_eq_iff)
  have t: "strict_ok P False" if "kind P = kTimestamp \<and> ParseRFC3339 (cur_value P) = None \<or> kind P = kDuration \<and> ParseDuration (cur_value P) = None"
    using that cur_ok_tok [OF ok] by (auto simp: tok_ok_def)
  have bad: "value_post d P (BadValue p) P'" if "ps_tolerant P" "after P P'" "ps_left P' < ps_left P \<or> ps_current P' = ps_current P" for p P'
    using that by (simp add: value_post_def BadValue_def strict_ok_def)
  have adv: "ps_left (Parser_Advance ranges (record_error p msg P)) < ps_left P" if "kind P \<noteq> kEOF" for p msg
    using Advance_less [of "record_error p msg P" ranges] that by simp
  have illegal: "kind P = kIllegal \<Longrightarrow> cur_value P \<noteq> []" using cur_ok_tok [OF ok] by (simp add: tok_ok_def)
  show ?thesis
    unfolding value_step_def c Let_def
    by (cases "kind P") (use l b ok in \<open>auto simp: bad adv illegal t intro!: wp_literal split: sum.split option.split\<close>)
qed

text \<open>The loop over a list's elements: a round consumes something, or leaves the loop.\<close>

lemma list_loop_wp:
  assumes pv: "\<And>P'. levels d P' = n \<Longrightarrow> cur_ok P' \<Longrightarrow> wp (pv P') (value_post d P') (fails P')"
  shows "levels d P = n \<Longrightarrow> cur_ok P \<Longrightarrow> ps_left P < k \<Longrightarrow> strict_ok P (list_all (value_ok n) els) \<Longrightarrow>
    wp (list_loop k ranges pv els P) (list_post d P) (fails P)"
proof (induction k arbitrary: els P)
  case (Suc k)
  show ?case
  proof (cases "kind P = kRBracket \<or> kind P = kEOF \<or> TolerantRowClose P")
    case True
    then show ?thesis using Suc.prems by (auto simp: list_post_def)
  next
    case False
    have "wp (pv P) (\<lambda>v P1. wp (if ps_tolerant P1 \<and> pos_offset (cur_pos P1) = pos_offset (cur_pos P) \<and> is_BadVal v then pret els P1
        else list_loop k ranges pv (els @ [v]) (if kind P1 = kComma then Parser_Advance ranges P1 else P1)) (list_post d P) (fails P)) (fails P)"
      using pv [OF Suc.prems(1,2)]
    proof (rule wp_mono)
      fix v P1 assume v: "value_post d P v P1"
      then have a: "after P P1" by (simp add: value_post_def)
      show "wp (if ps_tolerant P1 \<and> pos_offset (cur_pos P1) = pos_offset (cur_pos P) \<and> is_BadVal v then pret els P1
        else list_loop k ranges pv (els @ [v]) (if kind P1 = kComma then Parser_Advance ranges P1 else P1)) (list_post d P) (fails P)"
      proof (cases "ps_tolerant P1 \<and> pos_offset (cur_pos P1) = pos_offset (cur_pos P) \<and> is_BadVal v")
        case True
        with a Suc.prems show ?thesis by (simp add: list_post_def)
      next
        case go: False
        define P2 where "P2 = (if kind P1 = kComma then Parser_Advance ranges P1 else P1)"
        have a2: "after P P2" using a by (simp add: P2_def)
        have "ps_left P1 < ps_left P" using go v a by (auto simp: value_post_def after_def)
        then have l: "ps_left P2 < k" using Suc.prems(3) Advance_le [of ranges P1] by (auto simp: P2_def)
        have "strict_ok P2 (list_all (value_ok n) (els @ [v]))"
          unfolding strict_ok_after [OF a2] using v Suc.prems by (auto simp: strict_ok_def value_post_def)
        with Suc.IH [of P2 "els @ [v]"] a2 after_ok [OF a2] l Suc.prems(1)
        have "wp (list_loop k ranges pv (els @ [v]) P2) (list_post d P2) (fails P2)" by simp
        then have "wp (list_loop k ranges pv (els @ [v]) P2) (list_post d P) (fails P)"
          by (rule wp_after) (use a2 after_trans [OF a2] strict_ok_after [OF a2] in \<open>auto simp: list_post_def\<close>)
        then show ?thesis using go unfolding P2_def by auto
      qed
    qed
    with False show ?thesis by simp
  qed
qed simp

lemma SkipBalanced_soft:
  assumes "SkipBalanced ranges opener closer d (record_error p msg P) = (e, P')" "kind P = opener" "opener \<noteq> kEOF"
  shows "after P P' \<and> ps_left P' < ps_left P"
  using SkipBalanced_after [of "record_error p msg P" opener ranges closer d] assms by simp

lemma depth_error_nonempty [simp]: "depth_error P \<noteq> []"
  by (simp add: depth_error_def)

lemma ParseList_wp:
  assumes ok: "cur_ok P" "kind P = kLBracket"
    and pv: "\<And>n P'. levels d P = Suc n \<Longrightarrow> levels (d + 1) P' = n \<Longrightarrow> cur_ok P' \<Longrightarrow> wp (pv P') (value_post (d + 1) P') (fails P')"
  shows "wp (ParseList ranges pv d P) (value_post d P) (fails P)"
proof (cases "ps_max_depth P < d + 1")
  case True
  then show ?thesis
    using ok by (auto simp: ParseList_def Let_def value_post_def strict_ok_def dest: SkipBalanced_soft split: prod.split)
next
  case False
  let ?A = "Parser_Advance ranges P"
  note n = levels_Suc [OF False]
  have l: "ps_left ?A < ps_left P" using Advance_less [of P ranges] ok by simp
  have "wp (list_loop (Suc (ps_left ?A)) ranges pv [] ?A) (list_post (d + 1) ?A) (fails ?A)"
    by (rule list_loop_wp) (use pv n in auto)
  then have "wp (list_loop (Suc (ps_left ?A)) ranges pv [] ?A)
      (\<lambda>els P2. wp (if kind P2 \<noteq> kRBracket then
                     pbind (Soft (cur_pos P2) (''expected '' @ quoted '']'' @ '', got '' @ TokenKindName (kind P2)))
                       (\<lambda>_ P3. pret (ListVal (cur_pos P) (cur_pos P3) els) P3) P2
                   else pret (ListVal (cur_pos P) (TokenEnd P2) els) (Parser_Advance ranges P2)) (value_post d P) (fails P)) (fails P)"
  proof (rule wp_after)
    fix els P2 assume "list_post (d + 1) ?A els P2"
    then have a: "after ?A P2" and v: "strict_ok P (list_all (value_ok (levels (d + 1) P)) els)"
      by (simp_all add: list_post_def strict_ok_def)
    have a': "after P P2" using after_trans [OF after_Advance1 a] .
    have "ps_left P2 < ps_left P" using after_left [OF a] l by simp
    then show "wp (if kind P2 \<noteq> kRBracket then
                     pbind (Soft (cur_pos P2) (''expected '' @ quoted '']'' @ '', got '' @ TokenKindName (kind P2)))
                       (\<lambda>_ P3. pret (ListVal (cur_pos P) (cur_pos P3) els) P3) P2
                   else pret (ListVal (cur_pos P) (TokenEnd P2) els) (Parser_Advance ranges P2)) (value_post d P) (fails P)"
      using a' v n Advance_le [of ranges P2] by (auto simp: value_post_def strict_ok_def after_def)
  qed simp
  with False show ?thesis by (simp add: ParseList_def Let_def)
qed

lemma ParseBlockVal_wp:
  assumes ok: "cur_ok P" "kind P = kLBrace"
    and pb: "\<And>n P'. levels d P = Suc n \<Longrightarrow> levels (d + 1) P' = n \<Longrightarrow> cur_ok P' \<Longrightarrow> wp (pb (d + 1) P') (body_post (d + 1) P') (fails P')"
  shows "wp (ParseBlockVal ranges pb d P) (value_post d P) (fails P)"
proof (cases "ps_max_depth P < d + 1")
  case True
  then show ?thesis
    using ok by (auto simp: ParseBlockVal_def Let_def value_post_def strict_ok_def dest: SkipBalanced_soft split: prod.split)
next
  case False
  let ?A = "Parser_Advance ranges P"
  note n = levels_Suc [OF False]
  have l: "ps_left ?A < ps_left P" using Advance_less [of P ranges] ok by simp
  have "wp (pb (d + 1) ?A) (body_post (d + 1) ?A) (fails ?A)" by (rule pb [OF n]) simp_all
  then have "wp (pb (d + 1) ?A) (\<lambda>r P1. value_post d P (BlockVal (cur_pos P) (fst (snd r)) (fst r) (snd (snd r))) P1) (fails P)"
  proof (rule wp_after)
    fix r P1 assume r: "body_post (d + 1) ?A r P1"
    have "after P P1" "ps_left P1 < ps_left P" using r l after_trans [OF after_Advance1, of ranges P P1] after_left [of ?A P1]
      by (auto simp: body_post_def)
    then show "value_post d P (BlockVal (cur_pos P) (fst (snd r)) (fst r) (snd (snd r))) P1"
      using r n by (auto simp: value_post_def body_post_def body_ok_def strict_ok_def)
  qed simp
  with False show ?thesis by (simp add: ParseBlockVal_def Let_def case_prod_beta)
qed

section \<open>Entries\<close>

lemma value_entry_wp:
  assumes v: "wp (pv (Parser_Advance ranges P1)) (value_post d (Parser_Advance ranges P1)) (fails (Parser_Advance ranges P1))"
    and a: "after P P1" "kind P \<noteq> kEOF \<longrightarrow> ps_left P1 < ps_left P"
    and mk: "\<And>v c. entry_ok (levels d P) (mk v c) = value_ok (levels d P) v" "\<And>v c. \<not> is_type_entry (mk v c)"
      "\<not> allow \<Longrightarrow> ps_tolerant P \<or> (\<forall>v c. \<not> is_MapEntry (mk v c))"
  shows "wp (pbind pv (\<lambda>v P1. case TakeTrailingComment (value_end v) P1 of (comment, P2) \<Rightarrow> pret (Some (mk v comment)) P2) (Parser_Advance ranges P1))
    (entry_post allow d P) (fails P)"
proof -
  let ?A = "Parser_Advance ranges P1"
  have aA: "after P ?A" "levels d ?A = levels d P" using a(1) by simp_all
  have lA: "kind P \<noteq> kEOF \<longrightarrow> ps_left ?A < ps_left P" using a(2) Advance_le [of ranges P1] by linarith
  have "wp (pv ?A) (\<lambda>v P2. wp (case TakeTrailingComment (value_end v) P2 of (comment, P3) \<Rightarrow> pret (Some (mk v comment)) P3) (entry_post allow d P) (fails P)) (fails P)"
    using v
  proof (rule wp_after)
    fix v P2 assume v: "value_post d ?A v P2"
    obtain c P3 where t: "TakeTrailingComment (value_end v) P2 = (c, P3)" by fastforce
    have "after P P2" using v after_trans [OF aA(1)] by (simp add: value_post_def)
    moreover have "ps_left P2 \<le> ps_left ?A" using v by (simp add: value_post_def after_left)
    ultimately have "entry_post allow d P (Some (mk v c)) P3"
      using v mk aA lA strict_ok_after [OF aA(1)]
        by (cases allow) (auto simp: entry_post_def value_post_def strict_ok_def TakeTrailingComment_after [OF t])
    then show "wp (case TakeTrailingComment (value_end v) P2 of (comment, P3) \<Rightarrow> pret (Some (mk v comment)) P3) (entry_post allow d P) (fails P)"
      by (simp add: t)
  qed (rule aA)
  then show ?thesis by simp
qed

lemma block_entry_wp:
  assumes a: "after P P1" "kind P \<noteq> kEOF \<longrightarrow> ps_left P1 < ps_left P" and k: "kind P1 = kLBrace"
    and pb: "\<And>n P'. levels d P = Suc n \<Longrightarrow> levels (d + 1) P' = n \<Longrightarrow> cur_ok P' \<Longrightarrow> wp (pb (d + 1) P') (body_post (d + 1) P') (fails P')"
  shows "wp (parse_block_entry ranges pb d pos key_kind key key_prec leading P1) (entry_post allow d P) (fails P)"
proof -
  define P2 where "P2 = (if key_kind = kInt \<or> key_kind = kBool then record_error pos
      (''submessage block requires an identifier or string key, got '' @ TokenKindName key_kind @ '' ('' @ GoQuote ranges (WrittenKey key key_prec) @ '')'') P1 else P1)"
  have P2: "after P P2" "ps_left P2 = ps_left P1" "kind P2 = kLBrace" "ps_tolerant P2 = ps_tolerant P" "ps_max_depth P2 = ps_max_depth P1"
    using a k by (auto simp: P2_def after_def)
  have "wp (if ps_max_depth P2 < d + 1 then
      pbind (Soft (cur_pos P2) (depth_error P2))
        (\<lambda>_ P1. case SkipBalanced ranges kLBrace kRBrace 0 P1 of (e, P2) \<Rightarrow> pret (Some (Block pos e key (key_kind = kString) [] leading [])) P2) P2
    else pbind (pb (d + 1)) (\<lambda>(entries, e, trailing) P1. pret (Some (Block pos e key (key_kind = kString) entries leading trailing)) P1)
      (Parser_Advance ranges P2)) (entry_post allow d P) (fails P)"
  proof (cases "ps_max_depth P2 < d + 1")
    case True
    have "entry_post allow d P (Some (Block pos e key (key_kind = kString) [] leading [])) P3"
      if "ps_tolerant P2" "SkipBalanced ranges kLBrace kRBrace 0 (record_error (cur_pos P2) (depth_error P2) P2) = (e, P3)" for e P3
      using SkipBalanced_soft [OF that(2) P2(3)] after_trans [OF P2(1)] a P2 that(1) by (auto simp: entry_post_def strict_ok_def)
    with True P2 show ?thesis by (auto split: prod.split)
  next
    case False
    let ?A = "Parser_Advance ranges P2"
    have aA: "after P ?A" using P2(1) by simp
    have n: "levels d P = Suc (levels (d + 1) P)" using levels_Suc [OF False] P2 a by (simp add: levels_def after_def)
    have lA: "kind P \<noteq> kEOF \<longrightarrow> ps_left ?A < ps_left P" using a(2) P2(2) Advance_le [of ranges P2] by linarith
    have "wp (pb (d + 1) ?A) (body_post (d + 1) ?A) (fails ?A)"
      by (rule pb [OF n]) (use P2(1) in simp_all)
    then have "wp (pb (d + 1) ?A) (\<lambda>r P3. entry_post allow d P (Some (Block pos (fst (snd r)) key (key_kind = kString) (fst r) leading (snd (snd r)))) P3) (fails P)"
    proof (rule wp_after)
      fix r P3 assume r: "body_post (d + 1) ?A r P3"
      then have "after P P3" "kind P \<noteq> kEOF \<longrightarrow> ps_left P3 < ps_left P"
        using after_trans [OF aA, of P3] lA after_left [of ?A P3] by (auto simp: body_post_def)
      moreover have "levels (d + 1) P2 = levels (d + 1) P" using P2(1) by (rule levels_after)
      ultimately show "entry_post allow d P (Some (Block pos (fst (snd r)) key (key_kind = kString) (fst r) leading (snd (snd r)))) P3"
        using r n strict_ok_after [OF aA] by (auto simp: entry_post_def body_post_def body_ok_def strict_ok_def)
    qed (rule aA)
    with False show ?thesis by (simp add: case_prod_beta)
  qed
  then show ?thesis using P2(4) a(1) unfolding parse_block_entry_def wp_bind wp_soft_if wp_Soft P2_def by (auto simp: after_def)
qed

lemma ParseEntry_wp:
  assumes ok: "cur_ok P"
    and pv: "\<And>P'. levels d P' = levels d P \<Longrightarrow> cur_ok P' \<Longrightarrow> wp (pv P') (value_post d P') (fails P')"
    and pb: "\<And>n P'. levels d P = Suc n \<Longrightarrow> levels (d + 1) P' = n \<Longrightarrow> cur_ok P' \<Longrightarrow> wp (pb (d + 1) P') (body_post (d + 1) P') (fails P')"
  shows "wp (ParseEntry ranges pv pb d allow P) (entry_post allow d P) (fails P)"
proof -
  define P0 where "P0 = P\<lparr>ps_comments := []\<rparr>"
  have P0: "after P P0" "ps_current P0 = ps_current P" "ps_left P0 = ps_left P" "ps_tolerant P0 = ps_tolerant P"
    using ok by (simp_all add: P0_def)
  have f: "FlushComments P = (ps_comments P, P0)" by (simp add: FlushComments_def P0_def)
  show ?thesis
  proof (cases "kind P \<in> set key_kinds")
    case False
    let ?A = "Parser_Advance ranges (prepend_comments (ps_comments P) (record_error p msg P0))"
    have "ps_left (Parser_Advance ranges (prepend_comments (ps_comments P) (record_error p msg P0))) < ps_left P" if "kind P \<noteq> kEOF" for p msg
      using Advance_less [of "prepend_comments (ps_comments P) (record_error p msg P0)" ranges] that P0 by simp
    with False P0 show ?thesis by (auto simp: ParseEntry_def f Let_def entry_post_def strict_ok_def)
  next
    case True
    define P1 where "P1 = Parser_Advance ranges P0"
    have P1: "after P P1" "kind P \<noteq> kEOF \<longrightarrow> ps_left P1 < ps_left P" using P0 Advance_less [of P0 ranges] by (simp_all add: P1_def)
    have va: "wp (pbind pv (\<lambda>v P1. case TakeTrailingComment (value_end v) P1 of (comment, P2) \<Rightarrow> pret (Some (mk v comment)) P2) (Parser_Advance ranges P2))
        (entry_post allow d P) (fails P)"
      if "after P P2" "ps_left P2 = ps_left P1" "\<And>v c. entry_ok (levels d P) (mk v c) = value_ok (levels d P) v" "\<And>v c. \<not> is_type_entry (mk v c)"
        "\<not> allow \<Longrightarrow> ps_tolerant P \<or> (\<forall>v c. \<not> is_MapEntry (mk v c))" for mk P2
      by (rule value_entry_wp) (use that P1 pv in auto)
    have other: "entry_post allow d P (Some (Assignment p e k q (BadValue b) l c)) (record_error p' msg P1)" if "ps_tolerant P" for p e k q b l c p' msg
      using that P1 by (simp add: entry_post_def strict_ok_def)
    have tol: "ps_tolerant P1 = ps_tolerant P" using P1(1) by (simp add: after_def)
    have asg: "wp (parse_assignment ranges pv p kk key kp l P1) (entry_post allow d P) (fails P)" for p kk key kp l
      using va [of P1] va [of "record_error p _ P1"] P1(1) tol
      unfolding parse_assignment_def wp_bind wp_soft_if wp_Soft by (simp del: wp_bind)
    have map: "wp (parse_map_entry ranges pv allow p kk key kp l P1) (entry_post allow d P) (fails P)" for p kk key kp l
    proof -
      have m: "wp (pbind pv (\<lambda>v P1. case TakeTrailingComment (value_end v) P1 of
            (comment, P2) \<Rightarrow> pret (Some (MapEntry p (value_end v) key (kk = kString) v l comment)) P2) (Parser_Advance ranges P2)) (entry_post allow d P) (fails P)"
        if "allow \<or> ps_tolerant P" "after P P2" "ps_left P2 = ps_left P1" for P2
        by (rule va) (use that in auto)
      from m [of P1] m [of "record_error p _ P1"] m [of "record_error p _ (record_error p _ P1)"] P1(1) tol show ?thesis
        unfolding parse_map_entry_def wp_bind wp_soft_if wp_Soft by (cases allow) (simp_all del: wp_bind)
    qed
    have block: "wp (parse_block_entry ranges pb d p kk key kp l P1) (entry_post allow d P) (fails P)" if "kind P1 = kLBrace" for p kk key kp l
      by (rule block_entry_wp [OF P1 that]) (rule pb)
    show ?thesis
      using True P0(2) asg map block other tol
      by (auto simp: ParseEntry_def f Let_def P1_def [symmetric] split: TokenKind.split)
  qed
qed

lemma ParseTypeEntry_wp:
  assumes "kind P = kAtType"
  shows "wp (ParseTypeEntry ranges first P)
    (\<lambda>entry P'. after P P' \<and> ps_left P' < ps_left P \<and> strict_ok P (first \<and> (\<exists>p e u l c. entry = Some (TypeEntry p e u l c)))) (fails P)"
proof -
  define P0 where "P0 = P\<lparr>ps_comments := []\<rparr>"
  have f: "FlushComments P = (ps_comments P, P0)" by (simp add: FlushComments_def P0_def)
  have P0: "ps_current P0 = ps_current P" "ps_left P0 = ps_left P" "ps_tolerant P0 = ps_tolerant P" "ps_max_depth P0 = ps_max_depth P"
    "lex_kept (ps_lex P) (ps_lex P0)"
    by (simp_all add: P0_def)
  have adv: "after P (Parser_Advance ranges Q)" if "ps_left Q \<le> ps_left P" "ps_tolerant Q = ps_tolerant P" "ps_max_depth Q = ps_max_depth P"
      "lex_kept (ps_lex P) (ps_lex Q)" for Q
    using that Advance_le [of ranges Q] by (simp add: after_def)
  let ?A = "Parser_Advance ranges P0" let ?B = "Parser_Advance ranges ?A" let ?C = "Parser_Advance ranges ?B"
  have l: "ps_left ?A < ps_left P" "after P ?A" using Advance_less [of P0 ranges] P0 assms adv [of P0] by simp_all
  have lB: "ps_left ?B < ps_left P" "ps_left ?C < ps_left P" using l Advance_le [of ranges ?A] Advance_le [of ranges ?B] by linarith+
  have step: "after P (advance_if ranges k Q) \<and> ps_left (advance_if ranges k Q) < ps_left P" if "after P Q" "ps_left Q < ps_left P" for k Q
    using that Advance_le [of ranges Q] by (auto simp: advance_if_def)
  have fail: "wp (type_entry_fail ranges cs p msg Q) (\<lambda>entry P'. after P P' \<and> ps_left P' < ps_left P \<and> strict_ok P (b entry)) (fails P)"
    if "msg \<noteq> []" "after P Q \<and> ps_left Q < ps_left P \<or> Q = P0" for cs p msg Q b
  proof -
    let ?R = "prepend_comments cs (record_error p msg Q)"
    have "after P (advance_if ranges kAtType ?R) \<and> ps_left (advance_if ranges kAtType ?R) < ps_left P"
    proof (cases "Q = P0")
      case True
      have "ps_left (Parser_Advance ranges ?R) < ps_left ?R" by (rule Advance_less) (use True P0 assms in simp)
      with True P0 assms adv [of ?R] show ?thesis by (simp add: advance_if_def)
    next
      case False
      with that(2) show ?thesis by (intro step) simp_all
    qed
    then have "after P (advance_if ranges kString (advance_if ranges kEquals (advance_if ranges kAtType ?R))) \<and>
        ps_left (advance_if ranges kString (advance_if ranges kEquals (advance_if ranges kAtType ?R))) < ps_left P" by (metis step)
    moreover have "ps_tolerant Q = ps_tolerant P" using that(2) P0(3) by (auto simp: after_def)
    ultimately show ?thesis using that(1) by (simp add: type_entry_fail_def strict_ok_def)
  qed
  show ?thesis
  proof (cases "first \<and> kind ?A = kEquals \<and> kind ?B = kString")
    case True
    obtain c P4 where t: "TakeTrailingComment (TokenEnd ?B) ?C = (c, P4)" by fastforce
    from True l lB show ?thesis by (simp add: ParseTypeEntry_def f Let_def t TakeTrailingComment_after [OF t] strict_ok_def)
  next
    case False
    then show ?thesis using l lB by (auto simp: ParseTypeEntry_def f Let_def kTypeEntryMisplaced_def intro!: fail)
  qed
qed

lemma push_entry_ok:
  assumes "body_ok n out" "entry_ok n e" "is_type_entry e \<longrightarrow> out = []"
  shows "body_ok n (push_entry out (Some e))"
  using assms by (cases out) (auto simp: body_ok_def push_entry_def)

lemma body_loop_wp:
  assumes pe: "\<And>P'. levels d P' = n \<Longrightarrow> cur_ok P' \<Longrightarrow> wp (pe P') (entry_post True d P') (fails P')"
  shows "levels d P = n \<Longrightarrow> cur_ok P \<Longrightarrow> ps_left P < k \<Longrightarrow> strict_ok P (body_ok n out) \<Longrightarrow>
    wp (body_loop k ranges pe out P) (\<lambda>es P'. after P P' \<and> strict_ok P (body_ok n es)) (fails P)"
proof (induction k arbitrary: out P)
  case (Suc k)
  show ?case
  proof (cases "kind P = kRBrace \<or> kind P = kEOF \<or> TolerantRowClose P")
    case True
    then show ?thesis using Suc.prems by auto
  next
    case False
    have round: "wp (body_loop k ranges pe (push_entry out entry) P1) (\<lambda>es P'. after P P' \<and> strict_ok P (body_ok n es)) (fails P)"
      if a: "after P P1" and l: "ps_left P1 < ps_left P" and e: "strict_ok P (body_ok n (push_entry out entry))" for entry P1
    proof -
      have "wp (body_loop k ranges pe (push_entry out entry) P1) (\<lambda>es P'. after P1 P' \<and> strict_ok P1 (body_ok n es)) (fails P1)"
        by (rule Suc.IH) (use a l e Suc.prems after_ok [OF a] levels_after [OF a] strict_ok_after [OF a] in auto)
      then show ?thesis by (rule wp_after) (use a after_trans [OF a] strict_ok_after [OF a] in auto)
    qed
    have ty: "wp (ParseTypeEntry ranges (out = []) P)
        (\<lambda>entry P1. wp (body_loop k ranges pe (push_entry out entry) P1) (\<lambda>es P'. after P P' \<and> strict_ok P (body_ok n es)) (fails P)) (fails P)"
      if "kind P = kAtType"
      using ParseTypeEntry_wp [OF that]
    proof (rule wp_mono)
      fix entry P1
      assume "after P P1 \<and> ps_left P1 < ps_left P \<and> strict_ok P (out = [] \<and> (\<exists>p e u l c. entry = Some (TypeEntry p e u l c)))"
      moreover from this have "strict_ok P (body_ok n (push_entry out entry))"
        by (auto simp: strict_ok_def body_ok_def push_entry_def)
      ultimately show "wp (body_loop k ranges pe (push_entry out entry) P1) (\<lambda>es P'. after P P' \<and> strict_ok P (body_ok n es)) (fails P)"
        using round by blast
    qed
    have en: "wp (pe P)
        (\<lambda>entry P1. wp (body_loop k ranges pe (push_entry out entry) P1) (\<lambda>es P'. after P P' \<and> strict_ok P (body_ok n es)) (fails P)) (fails P)"
      using pe [OF Suc.prems(1,2)]
    proof (rule wp_mono)
      fix entry P1
      assume e: "entry_post True d P entry P1"
      have "strict_ok P (body_ok n (push_entry out entry))"
        using e Suc.prems(1,4) push_entry_ok [of n out] by (cases entry) (auto simp: entry_post_def strict_ok_def)
      with e False show "wp (body_loop k ranges pe (push_entry out entry) P1) (\<lambda>es P'. after P P' \<and> strict_ok P (body_ok n es)) (fails P)"
        using round by (simp add: entry_post_def)
    qed
    from False ty en show ?thesis by simp
  qed
qed simp

lemma body_step_wp:
  assumes pe: "\<And>P'. levels d P' = levels d P \<Longrightarrow> cur_ok P' \<Longrightarrow> wp (pe P') (entry_post True d P') (fails P')"
    and ok: "cur_ok P"
  shows "wp (body_step ranges pe P) (body_post d P) (fails P)"
proof -
  have "wp (body_loop (Suc (ps_left P)) ranges pe [] P) (\<lambda>es P'. after P P' \<and> strict_ok P (body_ok (levels d P) es)) (fails P)"
    by (rule body_loop_wp [OF pe]) (use ok in \<open>auto simp: strict_ok_def\<close>)
  then show ?thesis
    unfolding body_step_def wp_bind
    by (rule wp_mono) (auto simp: FlushComments_def body_post_def after_def intro: order_trans [OF Advance_le])
qed

section \<open>The recursion\<close>

lemma ParseValue_ParseBody_wp:
  "cur_ok P \<Longrightarrow>
     (2 * levels d P < n \<longrightarrow> wp (ParseValue n ranges d P) (value_post d P) (fails P)) \<and>
     (2 * levels d P + 1 < n \<longrightarrow> wp (ParseBody n ranges d P) (body_post d P) (fails P))"
proof (induction n arbitrary: d P)
  case (Suc n)
  have v: "wp (ParseValue n ranges d' P') (value_post d' P') (fails P')" if "2 * levels d' P' < n" "cur_ok P'" for d' P'
    using Suc.IH [OF that(2)] that(1) by blast
  have b: "wp (ParseBody n ranges d' P') (body_post d' P') (fails P')" if "2 * levels d' P' + 1 < n" "cur_ok P'" for d' P'
    using Suc.IH [OF that(2)] that(1) by blast
  have "wp (ParseValue (Suc n) ranges d P) (value_post d P) (fails P)" if "2 * levels d P < Suc n"
    unfolding ParseValue.simps
    by (rule value_step_wp [OF Suc.prems]) (use that Suc.prems in \<open>auto intro!: ParseList_wp ParseBlockVal_wp v b\<close>)
  moreover have "wp (ParseBody (Suc n) ranges d P) (body_post d P) (fails P)" if "2 * levels d P + 1 < Suc n"
    unfolding ParseBody.simps
    by (rule body_step_wp [OF _ Suc.prems]) (use that in \<open>auto intro!: ParseEntry_wp v b\<close>)
  ultimately show ?case by blast
qed simp

lemma parse_value_wp: "cur_ok P \<Longrightarrow> wp (parse_value ranges 0 P) (value_post 0 P) (fails P)"
  using ParseValue_ParseBody_wp [of P 0 "depth_fuel P" ranges] by (simp add: parse_value_def depth_fuel_def levels_def)

lemma parse_body_wp: "cur_ok P \<Longrightarrow> 0 \<le> d \<Longrightarrow> wp (parse_body ranges d P) (body_post d P) (fails P)"
  using ParseValue_ParseBody_wp [of P d "depth_fuel P" ranges] by (simp add: parse_body_def depth_fuel_def levels_def)

end
