(* ===== verification/PxfParserTotal.thy ===== *)
theory PxfParserTotal
  imports PxfParserWp
begin

text \<open>
  What a parse of a document guarantees: it returns, a tolerant parse never fails, and the tree of a strict parse is well
  formed; with two inputs on which the code departs from what its comments say.
\<close>

section \<open>Directives\<close>

text \<open>The state past the first token of what is being parsed.\<close>

definition past :: "Parser \<Rightarrow> Parser \<Rightarrow> bool" where
  "past P P' \<longleftrightarrow> after P P' \<and> ps_left P' < ps_left P"

text \<open>A directive may fail in either mode; a tolerant parse goes on past it.\<close>

definition dir_fails :: "Parser \<Rightarrow> Error \<Rightarrow> Parser \<Rightarrow> bool" where
  "dir_fails P e P' \<longleftrightarrow> err_msg e \<noteq> [] \<and> (ps_tolerant P \<longrightarrow> past P P')"

lemma dir_fails_here [simp]:
  "dir_fails P \<lparr>err_pos = p, err_msg = msg\<rparr> P' \<longleftrightarrow> msg \<noteq> [] \<and> (ps_tolerant P \<longrightarrow> past P P')"
  by (simp add: dir_fails_def)

lemma fails_dir: "fails P1 e P' \<Longrightarrow> ps_tolerant P1 = ps_tolerant P \<Longrightarrow> dir_fails P e P'"
  by (simp add: fails_def dir_fails_def)

lemma past_trans: "past P P' \<Longrightarrow> after P' P'' \<Longrightarrow> past P P''"
  by (auto simp: past_def dest: after_trans after_left)

lemma past_Advance [simp]: "past P P' \<Longrightarrow> past P (Parser_Advance ranges P')"
  using past_trans after_Advance1 by blast

lemma past_fields: "past P P' \<Longrightarrow> ps_tolerant P' = ps_tolerant P" "past P P' \<Longrightarrow> cur_ok P'" "past P P' \<Longrightarrow> levels d P' = levels d P"
  "past P P' \<Longrightarrow> after P P'" "past P P' \<Longrightarrow> ps_left P' < ps_left P"
  by (auto simp: past_def after_def levels_def)

lemma past_comments [simp]: "past P (P'\<lparr>ps_comments := cs\<rparr>) \<longleftrightarrow> past P P'" "past P (prepend_comments cs P') \<longleftrightarrow> past P P'"
  "past (P\<lparr>ps_comments := cs\<rparr>) P' \<longleftrightarrow> past P P'" "past P (record_error p msg P') \<longleftrightarrow> past P P'"
  by (simp_all add: past_def)

lemma past_first: "kind P \<noteq> kEOF \<Longrightarrow> past P (Parser_Advance ranges P)"
  using Advance_less [of P ranges] by (simp add: past_def)

lemma past_flushed:
  assumes "kind P \<noteq> kEOF"
  shows "past P (Parser_Advance ranges (P\<lparr>ps_comments := cs\<rparr>))" "past P (Parser_Advance ranges (record_error p msg (P\<lparr>ps_comments := cs\<rparr>)))"
  using Advance_less [of "P\<lparr>ps_comments := cs\<rparr>" ranges] Advance_less [of "record_error p msg (P\<lparr>ps_comments := cs\<rparr>)" ranges] assms
  by (simp_all add: past_def after_def)

lemma dir_fails_past: "past P P' \<Longrightarrow> msg \<noteq> [] \<Longrightarrow> dir_fails P \<lparr>err_pos = p, err_msg = msg\<rparr> P'"
  by simp

lemma wp_past:
  assumes "wp r Q (fails P1)" "past P P1" "\<And>x P'. Q x P' \<Longrightarrow> Q' x P'"
  shows "wp r Q' (dir_fails P)"
  using assms(1) by (rule wp_mono) (use assms fails_dir past_fields(1) in blast)+

lemma prefix_loop_after: "cur_ok P \<Longrightarrow> prefix_loop ranges ps eo P = (ps', eo', P') \<Longrightarrow> after P P'"
proof (induction ranges ps eo P rule: prefix_loop.induct)
  case (1 ranges ps eo P)
  let ?A = "Parser_Advance ranges P"
  have a: "after ?A P' \<Longrightarrow> after P P'" using after_trans after_Advance1 by blast
  from 1 a show ?case by (subst (asm) (2) prefix_loop.simps) (auto simp: PeekKind_eq split: if_splits)
qed

lemma directive_tail_wp:
  assumes A: "past P (Parser_Advance ranges P1)"
  shows "wp (directive_tail ranges p name l P1) (\<lambda>d P'. past P P') (dir_fails P)"
proof -
  obtain pres eo P2 where pl: "prefix_loop ranges [] (pos_offset p + 1 + length name) (Parser_Advance ranges P1) = (pres, eo, P2)"
    by (metis prod_cases3)
  have P2: "past P P2" using prefix_loop_after [OF _ pl] past_trans [OF A] by simp
  have "wp (ParseBlockVal ranges (parse_body ranges) 0 P2) (value_post 0 P2) (fails P2)" if "kind P2 = kLBrace"
    by (rule ParseBlockVal_wp) (use that past_fields [OF P2] in \<open>auto intro: parse_body_wp\<close>)
  then have "wp (ParseBlockVal ranges (parse_body ranges) 0 P2) (\<lambda>_ P3. past P P3) (dir_fails P)" if "kind P2 = kLBrace"
    by (rule wp_past) (use that P2 past_trans [OF P2] in \<open>auto simp: value_post_def\<close>)
  with P2 show ?thesis
    unfolding directive_tail_def pl prod.case Let_def
    by (auto elim!: wp_mono split: prod.split option.split)
qed

lemma ParseDirective_wp:
  assumes "kind P = kAtDirective"
  shows "wp (ParseDirective ranges P) (\<lambda>d P'. past P P') (dir_fails P)"
  using assms by (simp add: ParseDirective_def FlushComments_def Let_def directive_tail_wp past_flushed)

text \<open>The columns and rows of a dataset.\<close>

definition columns_ok :: "string list \<Rightarrow> bool" where
  "columns_ok cs \<longleftrightarrow>
     list_all (\<lambda>c. \<not> HasEmptySegment c) cs \<and> sorted_wrt (\<lambda>a b. a \<noteq> b \<and> \<not> IsPathPrefix a b \<and> \<not> IsPathPrefix b a) cs"

lemma column_clash_None:
  "column_clash ranges c ps = None \<longleftrightarrow> (\<forall>a\<in>set ps. a \<noteq> c \<and> \<not> IsPathPrefix a c \<and> \<not> IsPathPrefix c a)"
  by (induction ps) auto

lemma ColumnPathError_loop_None:
  "columns_ok seen \<Longrightarrow> ColumnPathError_loop ranges seen cs = None \<longleftrightarrow> columns_ok (seen @ cs)"
proof (induction cs arbitrary: seen)
  case (Cons c cs)
  have s: "columns_ok (seen @ [c]) \<longleftrightarrow> \<not> HasEmptySegment c \<and> column_clash ranges c seen = None"
    using Cons.prems by (auto simp: columns_ok_def sorted_wrt_append column_clash_None)
  have "columns_ok (seen @ c # cs) \<Longrightarrow> columns_ok (seen @ [c])"
    by (auto simp: columns_ok_def sorted_wrt_append)
  with s Cons.IH [of "seen @ [c]"] show ?case by (auto split: option.split)
qed (simp add: columns_ok_def)

lemma ColumnPathError_None: "ColumnPathError ranges cs = None \<longleftrightarrow> columns_ok cs"
  using ColumnPathError_loop_None [of "[]" ranges cs] by (simp add: ColumnPathError_def columns_ok_def)

lemma ColumnPathError_msg: "ColumnPathError_loop ranges seen cs = Some (k, msg) \<Longrightarrow> msg \<noteq> []"
proof (induction cs arbitrary: seen)
  case (Cons c cs)
  have "column_clash ranges c ps = Some msg \<Longrightarrow> msg \<noteq> []" for ps by (induction ps) (auto split: if_splits)
  with Cons show ?case by (auto split: if_splits option.splits)
qed simp

definition cell_ok :: "nat \<Rightarrow> Value option \<Rightarrow> bool" where
  "cell_ok n cell = (case cell of None \<Rightarrow> True | Some v \<Rightarrow> value_ok n v)"

definition row_ok :: "nat \<Rightarrow> nat \<Rightarrow> DatasetRow \<Rightarrow> bool" where
  "row_ok n expected row \<longleftrightarrow> length (row_cells row) = expected \<and> list_all (cell_ok n) (row_cells row)"

definition dataset_ok :: "nat \<Rightarrow> DatasetDirective \<Rightarrow> bool" where
  "dataset_ok n d \<longleftrightarrow> ds_columns d \<noteq> [] \<and> columns_ok (ds_columns d) \<and> list_all (row_ok n (length (ds_columns d))) (ds_rows d)"

definition cell_post :: "Parser \<Rightarrow> Value option \<Rightarrow> Parser \<Rightarrow> bool" where
  "cell_post P cell P' \<longleftrightarrow> after P P' \<and> strict_ok P (cell_ok (levels 0 P) cell)"

lemma ParseRowCell_wp:
  assumes ok: "cur_ok P"
  shows "wp (ParseRowCell ranges P) (cell_post P) (fails P)"
proof -
  have "wp (parse_value ranges 0 (P\<lparr>ps_comments := []\<rparr>)) (value_post 0 (P\<lparr>ps_comments := []\<rparr>)) (fails (P\<lparr>ps_comments := []\<rparr>))"
    by (rule parse_value_wp) (use ok in simp)
  then show ?thesis
    using ok by (auto simp: ParseRowCell_def Let_def wp_def pret_def cell_post_def cell_ok_def value_post_def fails_def strict_ok_def levels_def
        split: option.splits sum.splits)
qed

lemma cells_loop_wp:
  "cur_ok P \<Longrightarrow> ps_left P < k \<Longrightarrow> strict_ok P (list_all (cell_ok (levels 0 P)) cells) \<Longrightarrow>
    wp (cells_loop k ranges cells P) (\<lambda>cs P'. after P P' \<and> strict_ok P (list_all (cell_ok (levels 0 P)) cs)) (fails P)"
proof (induction k arbitrary: cells P)
  case (Suc k)
  let ?A = "Parser_Advance ranges P"
  show ?case
  proof (cases "kind P = kComma")
    case True
    have l: "ps_left ?A < ps_left P" using Advance_less [of P ranges] True by simp
    have "wp (ParseRowCell ranges ?A) (cell_post ?A) (fails ?A)" by (rule ParseRowCell_wp) simp
    then have "wp (ParseRowCell ranges ?A) (\<lambda>cell P1. wp (cells_loop k ranges (cells @ [cell]) P1)
        (\<lambda>cs P'. after P P' \<and> strict_ok P (list_all (cell_ok (levels 0 P)) cs)) (fails P)) (fails P)"
    proof (rule wp_after)
      fix cell P1 assume c: "cell_post ?A cell P1"
      then have a: "after P P1" using after_trans [OF after_Advance1, of ranges P P1] by (simp add: cell_post_def)
      have "ps_left P1 < k" using c l Suc.prems(2) by (auto simp: cell_post_def dest: after_left)
      moreover have "strict_ok P (list_all (cell_ok (levels 0 P)) (cells @ [cell]))"
        using c Suc.prems(3) by (auto simp: cell_post_def strict_ok_def)
      ultimately have "wp (cells_loop k ranges (cells @ [cell]) P1)
          (\<lambda>cs P'. after P1 P' \<and> strict_ok P1 (list_all (cell_ok (levels 0 P1)) cs)) (fails P1)"
        using Suc.IH [OF after_ok [OF a]] by (simp only: levels_after [OF a] strict_ok_after [OF a])
      then show "wp (cells_loop k ranges (cells @ [cell]) P1)
          (\<lambda>cs P'. after P P' \<and> strict_ok P (list_all (cell_ok (levels 0 P)) cs)) (fails P)"
        by (rule wp_after) (use a after_trans [OF a] levels_after [OF a] strict_ok_after [OF a] in auto)
    qed simp
    with True show ?thesis by simp
  next
    case False
    with Suc.prems show ?thesis by simp
  qed
qed simp

definition row_post :: "nat \<Rightarrow> Parser \<Rightarrow> DatasetRow \<times> nat \<Rightarrow> Parser \<Rightarrow> bool" where
  "row_post expected P r P' \<longleftrightarrow> past P P' \<and> strict_ok P (row_ok (levels 0 P) expected (fst r))"

lemma ParseTableRow_wp:
  assumes "kind P = kLParen"
  shows "wp (ParseTableRow ranges expected read_past P) (row_post expected P) (dir_fails P)"
proof -
  let ?A = "Parser_Advance ranges (P\<lparr>ps_comments := []\<rparr>)"
  have A: "past P ?A" using past_flushed [of P] assms by simp
  have "wp (ParseRowCell ranges ?A) (cell_post ?A) (fails ?A)" by (rule ParseRowCell_wp) simp
  then have "wp (ParseRowCell ranges ?A) (\<lambda>cell P2. wp (cells_loop (Suc (ps_left P2)) ranges [cell] P2)
      (\<lambda>cells P3. past P P3 \<and> strict_ok P (list_all (cell_ok (levels 0 P)) cells)) (dir_fails P)) (dir_fails P)"
  proof (rule wp_past)
    fix cell P2 assume c: "cell_post ?A cell P2"
    then have a: "past P P2" using past_trans [OF A] by (simp add: cell_post_def)
    note lv = past_fields(3) [OF a] past_fields(3) [OF A]
    have so: "strict_ok P2 b \<longleftrightarrow> strict_ok P b" "strict_ok ?A b \<longleftrightarrow> strict_ok P b" for b
      using past_fields(1) [OF a] past_fields(1) [OF A] by (simp_all add: strict_ok_def)
    have "wp (cells_loop (Suc (ps_left P2)) ranges [cell] P2)
        (\<lambda>cs P'. after P2 P' \<and> strict_ok P2 (list_all (cell_ok (levels 0 P2)) cs)) (fails P2)"
      by (rule cells_loop_wp) (use c past_fields(2) [OF a] lv so in \<open>auto simp: cell_post_def\<close>)
    then show "wp (cells_loop (Suc (ps_left P2)) ranges [cell] P2)
        (\<lambda>cells P3. past P P3 \<and> strict_ok P (list_all (cell_ok (levels 0 P)) cells)) (dir_fails P)"
      by (rule wp_past) (use a past_trans [OF a] lv so in auto)
  qed (rule A)
  then show ?thesis
    unfolding ParseTableRow_def FlushComments_def Let_def prod.case wp_bind
    by (elim wp_mono) (auto simp: row_post_def row_ok_def strict_ok_def past_fields elim!: wp_mono)
qed

lemma columns_loop_wp:
  "past P0 P \<Longrightarrow> wp (columns_loop ranges cols P) (\<lambda>cs P'. past P0 P' \<and> cs \<noteq> []) (dir_fails P0)"
proof (induction ranges cols P rule: columns_loop.induct)
  case (1 ranges cols P)
  let ?A = "Parser_Advance ranges P"
  have "wp (columns_loop ranges (cols @ [(cur_value P, cur_pos P)]) (Parser_Advance ranges ?A)) (\<lambda>cs P'. past P0 P' \<and> cs \<noteq> []) (dir_fails P0)"
    if "kind P = kIdent" "kind ?A = kComma"
    by (rule 1(1)) (use that 1(2) in simp_all)
  then show ?case
    using 1(2) by (subst columns_loop.simps) (auto simp: Let_def)
qed

definition rows_post :: "nat \<Rightarrow> Parser \<Rightarrow> DatasetRow list \<times> nat \<Rightarrow> Parser \<Rightarrow> bool" where
  "rows_post expected P r P' \<longleftrightarrow> after P P' \<and> strict_ok P (list_all (row_ok (levels 0 P) expected) (fst r))"

lemma rows_loop_wp:
  "past P0 P \<Longrightarrow> ps_left P < k \<Longrightarrow> strict_ok P0 (list_all (row_ok (levels 0 P0) expected) rows) \<Longrightarrow>
    wp (rows_loop k ranges expected rows eo P) (\<lambda>r P'. past P0 P' \<and> strict_ok P0 (list_all (row_ok (levels 0 P0) expected) (fst r))) (dir_fails P0)"
proof (induction k arbitrary: rows eo P)
  case (Suc k)
  show ?case
  proof (cases "kind P = kLParen")
    case True
    have "wp (ParseTableRow ranges expected True P) (row_post expected P) (dir_fails P)" by (rule ParseTableRow_wp [OF True])
    then have "wp (ParseTableRow ranges expected True P)
        (\<lambda>x P1. wp (rows_loop k ranges expected (rows @ [fst x]) (snd x) P1)
          (\<lambda>r P'. past P0 P' \<and> strict_ok P0 (list_all (row_ok (levels 0 P0) expected) (fst r))) (dir_fails P0)) (dir_fails P0)"
    proof (rule wp_mono)
      fix x P1 assume x: "row_post expected P x P1"
      have "past P0 P1" using x past_trans [OF Suc.prems(1)] by (simp add: row_post_def past_fields)
      moreover have "ps_left P1 < k" using x Suc.prems(2) by (simp add: row_post_def past_def)
      moreover have "strict_ok P0 (list_all (row_ok (levels 0 P0) expected) (rows @ [fst x]))"
        using x Suc.prems by (auto simp: row_post_def strict_ok_def past_fields [OF Suc.prems(1)])
      ultimately show "wp (rows_loop k ranges expected (rows @ [fst x]) (snd x) P1)
          (\<lambda>r P'. past P0 P' \<and> strict_ok P0 (list_all (row_ok (levels 0 P0) expected) (fst r))) (dir_fails P0)" by (rule Suc.IH)
    next
      fix e P1 assume "dir_fails P e P1"
      then show "dir_fails P0 e P1" using Suc.prems(1) past_trans [OF Suc.prems(1), of P1] by (auto simp: dir_fails_def past_fields)
    qed
    with True show ?thesis by (simp add: case_prod_beta)
  next
    case False
    with Suc.prems show ?thesis by simp
  qed
qed simp

definition table_post :: "Parser \<Rightarrow> DatasetDirective \<times> nat \<Rightarrow> Parser \<Rightarrow> bool" where
  "table_post P r P' \<longleftrightarrow> past P P' \<and> strict_ok P (dataset_ok (levels 0 P) (fst r))"

lemma table_rows_wp:
  assumes P4: "past P P4" and ne: "columns \<noteq> []"
  shows "wp (table_rows ranges pos ty leading columns P4) (table_post P) (dir_fails P)"
proof (cases "ColumnPathError ranges (map fst columns)")
  case None
  then have c: "columns_ok (map fst columns)" by (simp add: ColumnPathError_None)
  have rows: "wp (rows_loop (Suc (ps_left P5)) ranges n [] eo P5) (\<lambda>r P'. past P P' \<and> strict_ok P (list_all (row_ok (levels 0 P) n) (fst r))) (dir_fails P)"
    if "past P P5" for P5 n eo
    by (rule rows_loop_wp) (use that in \<open>auto simp: strict_ok_def\<close>)
  show ?thesis
    unfolding table_rows_def None option.case Let_def wp_bind
    by (rule wp_mono [OF rows [OF past_Advance [OF P4]]]) (use c ne in \<open>auto simp: table_post_def dataset_ok_def strict_ok_def\<close>)
next
  case (Some e)
  obtain k msg where e: "e = (k, msg)" by fastforce
  then have "msg \<noteq> []" using Some ColumnPathError_msg [of ranges "[]" "map fst columns" k msg] by (simp add: ColumnPathError_def)
  with Some e P4 show ?thesis by (simp add: table_rows_def)
qed

lemma ParseTableDirective_wp:
  assumes "kind P = kAtDataset"
  shows "wp (ParseTableDirective ranges P) (table_post P) (dir_fails P)"
proof -
  let ?A = "Parser_Advance ranges (P\<lparr>ps_comments := []\<rparr>)"
  have A: "past P ?A" using past_flushed [of P] assms by simp
  obtain ty P2 where t: "(if kind ?A = kIdent then (cur_value ?A, Parser_Advance ranges ?A) else ([], ?A)) = (ty, P2)" by fastforce
  have P2: "past P P2" using A t by (auto split: if_splits)
  let ?P3 = "Parser_Advance ranges P2"
  have P3: "past P ?P3" using P2 by simp
  have "wp (columns_loop ranges [] ?P3) (\<lambda>columns P4. wp (table_rows ranges pos ty leading columns P4) (table_post P) (dir_fails P)) (dir_fails P)" for pos leading
    using columns_loop_wp [OF P3] by (rule wp_mono) (auto intro: table_rows_wp)
  with P2 P3 show ?thesis by (simp add: ParseTableDirective_def FlushComments_def t Let_def)
qed

text \<open>The text of a \<open>@proto\<close> body: the lexer stands right after the brace, so moving it to the matching one goes forward.\<close>

lemma Scan_ge: "fst (Scan input i m) \<ge> i"
proof (induction input i m rule: Scan.induct)
  case (1 input i m)
  show ?case
  proof (cases "length input \<le> i")
    case False
    show ?thesis
    proof (cases "scan_step input i m")
      case (Inl jm)
      obtain j m' where jm: "jm = (j, m')" by fastforce
      with scan_step_later Inl have "i < j" by simp
      with 1 [OF False Inl jm [symmetric]] False Inl jm show ?thesis by (simp add: Scan.simps [of input i m])
    next
      case (Inr sm)
      with False show ?thesis by (cases sm) (simp add: Scan.simps)
    qed
  qed (simp add: Scan.simps)
qed

lemma FindMatchingBrace_after: "FindMatchingBrace input opener = (Some closer, failed) \<Longrightarrow> opener < closer"
  using Scan_ge [of "opener + 1" input new_match] by (auto simp: FindMatchingBrace_def split: prod.splits MatchState.splits)

lemma RepositionTo_forward:
  assumes "lx_pos L \<le> target"
  shows "lx_left (RepositionTo target L) \<le> lx_left L" "lex_kept L (RepositionTo target L)"
proof -
  have "moves L (RepositionTo target L)" using assms by (simp add: RepositionTo_def Let_def)
  then show "lx_left (RepositionTo target L) \<le> lx_left L" "lex_kept L (RepositionTo target L)"
    using moves_fixed [of L "RepositionTo target L"] moves_kept by (auto simp: lx_left_def)
qed

lemma capture_brace_body_wp:
  assumes "kind P = kLBrace" "pos_offset (lx_start (ps_lex P)) = 0" "past P0 P" "label \<noteq> []"
  shows "wp (capture_brace_body ranges label P) (\<lambda>r P'. past P0 P') (dir_fails P0)"
proof -
  have "past P0 (Parser_Advance ranges (P\<lparr>ps_lex := RepositionTo (closer + 1) (ps_lex P)\<rparr>))"
    if "FindMatchingBrace (Input P) (pos_offset (cur_pos P)) = (Some closer, failed)" for closer failed
  proof -
    let ?R = "P\<lparr>ps_lex := RepositionTo (closer + 1) (ps_lex P)\<rparr>"
    have "lx_pos (ps_lex P) \<le> closer + 1"
      using FindMatchingBrace_after [OF that] assms(1,2) cur_ok_bracket [OF past_fields(2) [OF assms(3)]] by simp
    note r = RepositionTo_forward [OF this]
    have "ps_left ?R \<le> ps_left P" using r(1) by (simp add: ps_left_def)
    then have "after P (Parser_Advance ranges ?R)" using r(2) Advance_le [of ranges ?R] by (simp add: after_def)
    from past_trans [OF assms(3) this] show ?thesis by simp
  qed
  with assms show ?thesis by (auto simp: capture_brace_body_def Let_def split: prod.split option.split)
qed

lemma ParseProtoDirective_wp:
  assumes "kind P = kAtProto" "pos_offset (lx_start (ps_lex P)) = 0"
  shows "wp (ParseProtoDirective ranges P) (\<lambda>r P'. past P P') (dir_fails P)"
proof -
  let ?A = "Parser_Advance ranges (P\<lparr>ps_comments := []\<rparr>)"
  have A: "past P ?A" using past_flushed [of P] assms(1) by simp
  have cap: "wp (capture_brace_body ranges label (Parser_Advance ranges Q)) (\<lambda>r P'. past P P') (dir_fails P)"
    if "kind (Parser_Advance ranges Q) = kLBrace" "lx_start (ps_lex Q) = lx_start (ps_lex P)" "past P (Parser_Advance ranges Q)" "label \<noteq> []" for label Q
    by (rule capture_brace_body_wp [OF that(1)]) (use that assms in simp_all)
  show ?thesis
    unfolding ParseProtoDirective_def FlushComments_def prod.case Let_def
    by (cases "kind ?A") (use A cap in \<open>auto simp: case_prod_beta split: sum.split\<close>)
qed

section \<open>Documents\<close>

definition document_ok :: "nat \<Rightarrow> Document \<Rightarrow> bool" where
  "document_ok n doc \<longleftrightarrow>
     list_all (\<lambda>e. entry_ok n e \<and> \<not> is_type_entry e \<and> \<not> is_MapEntry e) (doc_entries doc) \<and>
     list_all (dataset_ok n) (doc_datasets doc) \<and>
     (doc_datasets doc \<noteq> [] \<longrightarrow> doc_type_url doc = [] \<and> doc_entries doc = [])"

text \<open>The directives read so far: no entries yet, and datasets that are well formed.\<close>

definition head_ok :: "nat \<Rightarrow> Document \<Rightarrow> bool" where
  "head_ok n doc \<longleftrightarrow> list_all (dataset_ok n) (doc_datasets doc)"

lemma recover_wp:
  assumes "wp (parse P) Q (dir_fails P)" "\<And>x P'. Q x P' \<Longrightarrow> past P P' \<and> strict_ok P (head_ok n (add x))" "strict_ok P (head_ok n doc)"
  shows "wp (recover ranges doc parse add P) (\<lambda>d P'. past P P' \<and> strict_ok P (head_ok n d)) (fails P)"
proof -
  obtain r P' where r: "parse P = Some (r, P')" using assms(1) by (cases "parse P") (auto simp: wp_def)
  show ?thesis
  proof (cases r)
    case (Inr x)
    with r assms(1,2) show ?thesis by (simp add: recover_def wp_def)
  next
    case (Inl e)
    with r assms(1) have e: "dir_fails P e P'" by (simp add: wp_def)
    show ?thesis
    proof (cases "ps_tolerant P")
      case True
      with e have p: "past P (record_error (err_pos e) (err_msg e) P')" by (simp add: dir_fails_def)
      from past_trans [OF p SyncTopLevel_after [OF past_fields(2) [OF p]]] True assms(3) r Inl
      show ?thesis by (simp add: recover_def wp_def)
    next
      case False
      with r Inl e show ?thesis by (simp add: recover_def wp_def dir_fails_def fails_def)
    qed
  qed
qed

lemma ParseTypeDirective_wp:
  assumes "kind P = kAtType" "strict_ok P (head_ok n doc)"
  shows "wp (ParseTypeDirective ranges doc P) (\<lambda>d P'. past P P' \<and> strict_ok P (head_ok n d)) (fails P)"
proof -
  let ?A = "Parser_Advance ranges P"
  have A: "past P ?A" using past_first [of P] assms by simp
  have c: "(if kind ?A = kIdent \<and> ps_tolerant ?A then CurrentStartsEntry ranges ?A else (False, ?A)) =
      (kind ?A = kIdent \<and> ps_tolerant ?A \<and> fst (CurrentStartsEntry ranges ?A), ?A)"
    using CurrentStartsEntry_eq [of ranges ?A] by (auto simp: prod_eq_iff)
  have s: "past P (SyncTopLevel ranges (record_error p msg ?A))" for p msg
    using past_trans [OF A, of "SyncTopLevel ranges (record_error p msg ?A)"] SyncTopLevel_after [of "record_error p msg ?A" ranges] by simp
  show ?thesis
    unfolding ParseTypeDirective_def Let_def c prod.case
    using A s assms(2) by (auto simp: head_ok_def)
qed

lemma directives_loop_wp:
  "cur_ok P \<Longrightarrow> pos_offset (lx_start (ps_lex P)) = 0 \<Longrightarrow> ps_left P < k \<Longrightarrow> strict_ok P (head_ok (levels 0 P) doc) \<Longrightarrow>
    wp (directives_loop k ranges doc P) (\<lambda>d P'. after P P' \<and> strict_ok P (head_ok (levels 0 P) d)) (fails P)"
proof (induction k arbitrary: doc P)
  case (Suc k)
  let ?Q = "\<lambda>d P'. after P P' \<and> strict_ok P (head_ok (levels 0 P) d)"
  have round: "wp r (\<lambda>d P1. wp (directives_loop k ranges d P1) ?Q (fails P)) (fails P)"
    if "wp r (\<lambda>d P1. past P P1 \<and> strict_ok P (head_ok (levels 0 P) d)) (fails P)" for r
    using that
  proof (rule wp_mono)
    fix d P1 assume d: "past P P1 \<and> strict_ok P (head_ok (levels 0 P) d)"
    then have a: "after P P1" and l: "ps_left P1 < ps_left P" by (auto simp: past_def)
    have "wp (directives_loop k ranges d P1) (\<lambda>d P'. after P1 P' \<and> strict_ok P1 (head_ok (levels 0 P1) d)) (fails P1)"
    proof (rule Suc.IH)
      show "cur_ok P1" using a by (rule after_ok)
      show "pos_offset (lx_start (ps_lex P1)) = 0" using a Suc.prems(2) by (simp add: after_def lex_kept_def)
      show "ps_left P1 < k" using l Suc.prems(3) by simp
      show "strict_ok P1 (head_ok (levels 0 P1) d)" unfolding levels_after [OF a] strict_ok_after [OF a] using d ..
    qed
    then show "wp (directives_loop k ranges d P1) ?Q (fails P)"
      by (rule wp_after) (use a after_trans [OF a] levels_after [OF a] strict_ok_after [OF a] in auto)
  qed
  have h: "strict_ok P (head_ok (levels 0 P) (doc\<lparr>doc_directives := x, doc_body_offset := e\<rparr>))"
    "strict_ok P (head_ok (levels 0 P) (doc\<lparr>doc_protos := y, doc_body_offset := e\<rparr>))" for x y e
    using Suc.prems(4) by (simp_all add: head_ok_def)
  have h2: "strict_ok P (head_ok (levels 0 P) (doc\<lparr>doc_datasets := doc_datasets doc @ [d], doc_body_offset := e\<rparr>))"
    if "strict_ok P (dataset_ok (levels 0 P) d)" for d e
    using that Suc.prems(4) by (auto simp: head_ok_def strict_ok_def)
  show ?case
  proof (cases "kind P")
    case kAtType
    with round [OF ParseTypeDirective_wp [OF kAtType Suc.prems(4), of ranges]] show ?thesis by simp
  next
    case kAtDirective
    have "wp (recover ranges doc (ParseDirective ranges) (\<lambda>(d, e). doc\<lparr>doc_directives := doc_directives doc @ [d], doc_body_offset := e\<rparr>) P)
        (\<lambda>d P1. past P P1 \<and> strict_ok P (head_ok (levels 0 P) d)) (fails P)"
      by (rule recover_wp [where parse = "ParseDirective ranges", OF ParseDirective_wp [OF kAtDirective]]) (use h Suc.prems(4) in auto)
    with round [OF this] kAtDirective show ?thesis by simp
  next
    case kAtDataset
    have "wp (recover ranges doc (ParseTableDirective ranges) (\<lambda>(d, e). doc\<lparr>doc_datasets := doc_datasets doc @ [d], doc_body_offset := e\<rparr>) P)
        (\<lambda>d P1. past P P1 \<and> strict_ok P (head_ok (levels 0 P) d)) (fails P)"
      by (rule recover_wp [where parse = "ParseTableDirective ranges", OF ParseTableDirective_wp [OF kAtDataset]]) (use h2 Suc.prems(4) in \<open>auto simp: table_post_def\<close>)
    with round [OF this] kAtDataset show ?thesis by simp
  next
    case kAtProto
    have "wp (recover ranges doc (ParseProtoDirective ranges) (\<lambda>(d, e). doc\<lparr>doc_protos := doc_protos doc @ [d], doc_body_offset := e\<rparr>) P)
        (\<lambda>d P1. past P P1 \<and> strict_ok P (head_ok (levels 0 P) d)) (fails P)"
      by (rule recover_wp [where parse = "ParseProtoDirective ranges", OF ParseProtoDirective_wp [OF kAtProto Suc.prems(2)]]) (use h Suc.prems(4) in auto)
    with round [OF this] kAtProto show ?thesis by simp
  qed (use Suc.prems in simp_all)
qed simp

definition entries_ok :: "nat \<Rightarrow> Entry list \<Rightarrow> bool" where
  "entries_ok n es \<longleftrightarrow> list_all (\<lambda>e. entry_ok n e \<and> \<not> is_type_entry e \<and> \<not> is_MapEntry e) es"

lemma entries_loop_wp:
  "cur_ok P \<Longrightarrow> ps_left P < k \<Longrightarrow> strict_ok P (entries_ok (levels 0 P) out) \<Longrightarrow>
    wp (entries_loop k ranges out P) (\<lambda>es P'. after P P' \<and> strict_ok P (entries_ok (levels 0 P) es \<and> (kind P = kEOF \<longrightarrow> es = out))) (fails P)"
proof (induction k arbitrary: out P)
  case (Suc k)
  show ?case
  proof (cases "kind P = kEOF")
    case True
    with Suc.prems show ?thesis by simp
  next
    case False
    have "wp (ParseEntry ranges (parse_value ranges 0) (parse_body ranges) 0 False P) (entry_post False 0 P) (fails P)"
      by (rule ParseEntry_wp) (use Suc.prems in \<open>auto intro: parse_value_wp parse_body_wp\<close>)
    then have "wp (ParseEntry ranges (parse_value ranges 0) (parse_body ranges) 0 False P)
        (\<lambda>entry P1. wp (entries_loop k ranges (push_entry out entry) P1)
          (\<lambda>es P'. after P P' \<and> strict_ok P (entries_ok (levels 0 P) es \<and> (kind P = kEOF \<longrightarrow> es = out))) (fails P)) (fails P)"
    proof (rule wp_mono)
      fix entry P1 assume e: "entry_post False 0 P entry P1"
      then have a: "after P P1" and l: "ps_left P1 < ps_left P" using False by (auto simp: entry_post_def)
      have "strict_ok P (entries_ok (levels 0 P) (push_entry out entry))"
        using e Suc.prems(3) by (cases entry) (auto simp: entry_post_def strict_ok_def entries_ok_def push_entry_def)
      then have "wp (entries_loop k ranges (push_entry out entry) P1)
          (\<lambda>es P'. after P1 P' \<and> strict_ok P1 (entries_ok (levels 0 P1) es \<and> (kind P1 = kEOF \<longrightarrow> es = push_entry out entry))) (fails P1)"
        by (intro Suc.IH) (use a l Suc.prems after_ok [OF a] levels_after [OF a] strict_ok_after [OF a] in auto)
      then show "wp (entries_loop k ranges (push_entry out entry) P1)
          (\<lambda>es P'. after P P' \<and> strict_ok P (entries_ok (levels 0 P) es \<and> (kind P = kEOF \<longrightarrow> es = out))) (fails P)"
        by (rule wp_after) (use False a after_trans [OF a] levels_after [OF a] strict_ok_after [OF a] in \<open>auto simp: strict_ok_def\<close>)
    qed
    with False show ?thesis by simp
  qed
qed simp

lemma check_standalone_wp:
  assumes ok: "cur_ok P"
  shows "wp (check_standalone doc P) (\<lambda>_ P'. after P P' \<and> kind P' = kind P \<and>
      strict_ok P (doc_datasets doc \<noteq> [] \<longrightarrow> doc_type_url doc = [] \<and> kind P = kEOF)) (fails P)"
  using ok by (auto simp: check_standalone_def strict_ok_def kDatasetBesideEntries_def section_sign_def)

lemma ParseDocument_wp:
  assumes ok: "cur_ok P0" and start: "pos_offset (lx_start (ps_lex P0)) = 0"
  shows "wp (ParseDocument ranges P0) (\<lambda>doc P'. strict_ok P0 (document_ok (levels 0 P0) doc)) (fails P0)"
proof -
  define P where "P = P0\<lparr>ps_comments := []\<rparr>"
  have P: "FlushComments P0 = (ps_comments P0, P)" "cur_ok P" "levels 0 P = levels 0 P0" "pos_offset (lx_start (ps_lex P)) = 0"
    "strict_ok P = strict_ok P0" "fails P = fails P0"
    using ok start by (auto simp: P_def FlushComments_def levels_def strict_ok_def fails_def fun_eq_iff)
  let ?n = "levels 0 P" let ?d = "empty_document\<lparr>doc_leading := ps_comments P0\<rparr>"
  have fin: "wp (entries_loop (Suc (ps_left P2)) ranges [] P2)
      (\<lambda>entries P3. wp (case FlushComments P3 of (trailing, P4) \<Rightarrow> pret (doc\<lparr>doc_entries := entries, doc_trailing := trailing\<rparr>) P4)
        (\<lambda>doc P'. strict_ok P (document_ok ?n doc)) (fails P)) (fails P)"
    if a: "after P P2" and s: "strict_ok P (head_ok ?n doc)" "strict_ok P (doc_datasets doc \<noteq> [] \<longrightarrow> doc_type_url doc = [] \<and> kind P2 = kEOF)" for doc P2
  proof -
    have "wp (entries_loop (Suc (ps_left P2)) ranges [] P2)
        (\<lambda>es P'. after P2 P' \<and> strict_ok P2 (entries_ok (levels 0 P2) es \<and> (kind P2 = kEOF \<longrightarrow> es = []))) (fails P2)"
      by (rule entries_loop_wp) (use after_ok [OF a] in \<open>auto simp: strict_ok_def entries_ok_def\<close>)
    then show ?thesis unfolding levels_after [OF a] strict_ok_after [OF a]
      by (rule wp_after) (use a s in \<open>auto simp: FlushComments_def strict_ok_def document_ok_def entries_ok_def head_ok_def\<close>)
  qed
  have mid: "wp (check_standalone doc P1) (\<lambda>_ P2. wp (entries_loop (Suc (ps_left P2)) ranges [] P2)
      (\<lambda>entries P3. wp (case FlushComments P3 of (trailing, P4) \<Rightarrow> pret (doc\<lparr>doc_entries := entries, doc_trailing := trailing\<rparr>) P4)
        (\<lambda>doc P'. strict_ok P (document_ok ?n doc)) (fails P)) (fails P)) (fails P)"
    if a: "after P P1" and s: "strict_ok P (head_ok ?n doc)" for doc P1
    using check_standalone_wp [OF after_ok [OF a]] a
  proof (rule wp_after)
    fix u P2
    assume c: "after P1 P2 \<and> kind P2 = kind P1 \<and> strict_ok P1 (doc_datasets doc \<noteq> [] \<longrightarrow> doc_type_url doc = [] \<and> kind P1 = kEOF)"
    show "wp (entries_loop (Suc (ps_left P2)) ranges [] P2)
      (\<lambda>entries P3. wp (case FlushComments P3 of (trailing, P4) \<Rightarrow> pret (doc\<lparr>doc_entries := entries, doc_trailing := trailing\<rparr>) P4)
        (\<lambda>doc P'. strict_ok P (document_ok ?n doc)) (fails P)) (fails P)"
      by (rule fin) (use c s after_trans [OF a] strict_ok_after [OF a] in auto)
  qed
  have "wp (directives_loop (Suc (ps_left P)) ranges ?d P) (\<lambda>d P'. after P P' \<and> strict_ok P (head_ok ?n d)) (fails P)"
    by (rule directives_loop_wp) (use P in \<open>auto simp: head_ok_def empty_document_def strict_ok_def\<close>)
  then have "wp (directives_loop (Suc (ps_left P)) ranges ?d P) (\<lambda>doc P1. wp (check_standalone doc P1) (\<lambda>_ P2. wp (entries_loop (Suc (ps_left P2)) ranges [] P2)
      (\<lambda>entries P3. wp (case FlushComments P3 of (trailing, P4) \<Rightarrow> pret (doc\<lparr>doc_entries := entries, doc_trailing := trailing\<rparr>) P4)
        (\<lambda>doc P'. strict_ok P (document_ok ?n doc)) (fails P)) (fails P)) (fails P)) (fails P)"
    by (rule wp_mono) (use mid in blast)+
  then show ?thesis unfolding ParseDocument_def P(1) prod.case wp_bind P(3,5,6) .
qed

lemma new_parser_ok:
  "cur_ok (new_parser ranges L depth t)" "lx_start (ps_lex (new_parser ranges L depth t)) = lx_start L"
  "ps_tolerant (new_parser ranges L depth t) = t" "ps_max_depth (new_parser ranges L depth t) = depth"
  by (simp_all add: new_parser_def)

lemma parsers_ok:
  "cur_ok (strict_parser ranges input opts)" "cur_ok (tolerant_parser ranges input opts)"
  "pos_offset (lx_start (ps_lex (strict_parser ranges input opts))) = 0" "pos_offset (lx_start (ps_lex (tolerant_parser ranges input opts))) = 0"
  "\<not> ps_tolerant (strict_parser ranges input opts)" "ps_tolerant (tolerant_parser ranges input opts)"
  "ps_max_depth (strict_parser ranges input opts) = limit_or (po_max_nesting_depth opts) (int kMaxNestingDepth)"
  by (simp_all add: strict_parser_def tolerant_parser_def new_parser_ok SetMaxBytesLiteral_def SetTolerant_def new_lexer_def new_lexer_at_def
      start_position_def)

lemma Parse_wellformed:
  "\<exists>r. Parse ranges input opts = Some r \<and>
     (case r of
        Inl e \<Rightarrow> err_msg e \<noteq> []
      | Inr doc \<Rightarrow> document_ok (nat (limit_or (po_max_nesting_depth opts) (int kMaxNestingDepth))) doc)"
proof -
  let ?P = "strict_parser ranges input opts"
  have "wp (ParseDocument ranges ?P) (\<lambda>doc P'. strict_ok ?P (document_ok (levels 0 ?P) doc)) (fails ?P)"
    by (rule ParseDocument_wp) (simp_all add: parsers_ok)
  then obtain r P' where "ParseDocument ranges ?P = Some (r, P')"
    "case r of Inl e \<Rightarrow> err_msg e \<noteq> [] | Inr doc \<Rightarrow> document_ok (levels 0 ?P) doc"
    by (auto simp: wp_def strict_ok_def fails_def parsers_ok split: option.splits sum.splits)
  then show ?thesis by (cases r) (simp_all add: Parse_def Let_def levels_def parsers_ok size_error_def)
qed

section \<open>Properties\<close>

text \<open>C5. \<open>Parse\<close> returns on every input. A failure carries a message, so that a \<open>Status\<close> tells it from success, and a
  document is well formed: no placeholder values, timestamps and durations that their text denotes, map entries and type
  entries only where they may stand, dataset columns that do not overlap and rows of their number, a dataset alone in its
  document, and lists and blocks nested no deeper than the limit.\<close>

theorem parse_returns_wellformed:
  "\<exists>r. Parse ranges input opts = Some r \<and>
     (case r of
        Inl e \<Rightarrow> err_msg e \<noteq> []
      | Inr doc \<Rightarrow> document_ok (nat (limit_or (po_max_nesting_depth opts) (int kMaxNestingDepth))) doc)"
  by (rule Parse_wellformed)

text \<open>C8. A tolerant parse recovers from everything: on every input \<open>ParseDocument\<close> returns a document, so the branch of
  \<open>ParseTolerant\<close> for its failure is dead code, and the errors returned with the document are in source order.\<close>

theorem tolerant_parse_recovers:
  "\<exists>doc P. ParseDocument ranges (tolerant_parser ranges input opts) = Some (Inr doc, P) \<and>
     ParseTolerant ranges input opts =
       Some (if limit_or (po_max_message_size opts) (int kMaxMessageSize) < int (length input)
             then (empty_document, [\<lparr>err_pos = start_position, err_msg = size_error (length input) (limit_or (po_max_message_size opts) (int kMaxMessageSize))\<rparr>])
             else (doc, TakeErrors P)) \<and>
     sorted (map (\<lambda>e. pos_offset (err_pos e)) (TakeErrors P))"
proof -
  let ?P = "tolerant_parser ranges input opts"
  have "wp (ParseDocument ranges ?P) (\<lambda>doc P'. strict_ok ?P (document_ok (levels 0 ?P) doc)) (fails ?P)"
    by (rule ParseDocument_wp) (simp_all add: parsers_ok)
  then have "\<exists>doc P'. ParseDocument ranges ?P = Some (Inr doc, P')"
    by (cases "ParseDocument ranges ?P") (auto simp: wp_def fails_def parsers_ok split: sum.splits intro: sum.exhaust)
  then show ?thesis by (auto simp: ParseTolerant_def Let_def TakeErrors_def)
qed

text \<open>The header of \<open>ParseTolerant\<close> promises of a valid input the tree of \<open>Parse\<close> and no errors. A list whose
  element is followed by a block without a comma between them is valid for \<open>Parse\<close>, and \<open>ParseTolerant\<close> reports a missing value
  for it: it takes the element for the key of an entry.\<close>

theorem tolerant_rejects_valid_list:
  "map_option (map_sum err_msg (map (\<lambda>e. case e of Assignment _ _ key _ (ListVal _ _ vs) _ _ \<Rightarrow> (key, length vs)) \<circ> doc_entries))
     (Parse [(32, 126)] ''x = [a {}]'' \<lparr>po_max_message_size = 0, po_max_nesting_depth = 0, po_max_bytes_literal_length = 0\<rparr>) =
     Some (Inr [(''x'', 2)]) \<and>
   map_option (err_msg \<circ> hd \<circ> snd)
     (ParseTolerant [(32, 126)] ''x = [a {}]'' \<lparr>po_max_message_size = 0, po_max_nesting_depth = 0, po_max_bytes_literal_length = 0\<rparr>) =
     Some ''missing value''"
  by code_simp

text \<open>The text kept of a directive's block can end too early. \<open>FindMatchingBrace\<close> takes a \<open>b\<close> followed by a quote for a
  bytes literal wherever it stands, the lexer only at the start of a token: after an identifier that ends in \<open>b\<close> a string with
  an escaped quote and a brace is read to its middle, and the body of the directive ends inside the string, although \<open>Parse\<close>
  has read the block to its end.\<close>

theorem directive_body_cut_in_string:
  "map_option (map_sum err_msg (\<lambda>d. (map dir_body (doc_directives d), doc_body_offset d)))
     (Parse [(32, 126)] (''@h { x = [ab'' @ [CHR 0x22, CHR 0x5C, CHR 0x22] @ ''}'' @ [CHR 0x22] @ ''] }'')
       \<lparr>po_max_message_size = 0, po_max_nesting_depth = 0, po_max_bytes_literal_length = 0\<rparr>) =
     Some (Inr ([('' x = [ab'' @ [CHR 0x22, CHR 0x5C, CHR 0x22])], 16))"
  by code_simp

end
