(* ===== verification/PxfEnsures.thy ===== *)
theory PxfEnsures
  imports PxfParserTotal
begin

text \<open>
  Outcomes of a parse, without its failures: what holds of the result and the parser when an operation succeeds. That it returns is
  shown by the weakest preconditions of \<open>PxfParserWp\<close>.
\<close>

definition ensures :: "((Error + 'a) \<times> Parser) option \<Rightarrow> ('a \<Rightarrow> Parser \<Rightarrow> bool) \<Rightarrow> bool" where
  "ensures r Q \<longleftrightarrow> (\<forall>x P'. r = Some (Inr x, P') \<longrightarrow> Q x P')"

lemma ensures_bind [simp]: "ensures (pbind m f P) Q \<longleftrightarrow> ensures (m P) (\<lambda>x P'. ensures (f x P') Q)"
  by (auto simp: ensures_def pbind_def split: option.splits sum.splits prod.splits)

lemma ensures_ret [simp]: "ensures (pret x P) Q \<longleftrightarrow> Q x P"
  by (simp add: ensures_def pret_def)

lemma ensures_Err [simp]: "ensures (Err p msg P) Q"
  by (simp add: ensures_def Err_def)

lemma ensures_Soft [simp]: "\<not> ps_tolerant P \<Longrightarrow> ensures (Soft p msg P) Q"
  by (simp add: Soft_def)

lemma ensures_soft_if [simp]: "\<not> ps_tolerant P \<Longrightarrow> ensures (soft_if b p msg P) Q \<longleftrightarrow> b \<or> Q () P"
  by (simp add: soft_if_def)

lemma ensures_mono: "ensures r Q \<Longrightarrow> (\<And>x P'. Q x P' \<Longrightarrow> Q' x P') \<Longrightarrow> ensures r Q'"
  by (simp add: ensures_def)

lemma ensures_recover:
  assumes "\<And>x P'. Q (add x) P'" "\<And>P'. ps_tolerant P \<Longrightarrow> Q doc P'"
  shows "ensures (recover ranges doc parse add P) Q"
  using assms by (auto simp: ensures_def recover_def split: option.splits sum.splits if_splits)

end
