(* ===== verification/PxfFormatParsed.thy ===== *)
theory PxfFormatParsed
  imports PxfFormatRoundtrip PxfEnsures
begin

text \<open>
  What the parser returned, the formatter writes so that it can be read again. The trees of a strict parse are printable: their
  texts are tokens of the lexer, their comments are comments, and the rest is what \<open>PxfParserWp\<close> shows of them.
\<close>

section \<open>The state of a strict parse\<close>

text \<open>The state of a strict parser: a token with the shape of its kind, and pending comments that are comments.\<close>

definition good :: "Parser \<Rightarrow> bool" where
  "good P \<longleftrightarrow> \<not> ps_tolerant P \<and> lx_errors (ps_lex P) = None \<and> token_shape (ps_current P) \<and> comments_text (ps_comments P)"

lemma Advance_loop_good:
  "comments_text cs \<Longrightarrow> lx_errors L = None \<Longrightarrow> Advance_loop ranges cs L = (t, cs', L') \<Longrightarrow> token_shape t \<and> comments_text cs' \<and> lx_errors L' = None"
proof (induction ranges cs L rule: Advance_loop.induct)
  case (1 ranges cs L)
  obtain u N where N: "Next ranges L = (u, N)" by fastforce
  have s: "token_shape u" "lx_errors N = None" using Next_shape [OF N 1(4)] Next_strict [OF N 1(4)] by simp_all
  show ?case
    using 1(1,2) [OF N [symmetric]] 1(3,5) s by (subst (asm) (3) Advance_loop.simps) (auto simp: N comments_text_def token_shape_def split: if_splits)
qed

lemma good_Advance: "\<not> ps_tolerant P \<Longrightarrow> lx_errors (ps_lex P) = None \<Longrightarrow> comments_text (ps_comments P) \<Longrightarrow> good (Parser_Advance ranges P)"
proof -
  obtain t cs L where a: "Advance_loop ranges (ps_comments P) (ps_lex P) = (t, cs, L)" by (metis prod_cases3)
  assume "\<not> ps_tolerant P" "lx_errors (ps_lex P) = None" "comments_text (ps_comments P)"
  with Advance_loop_good [OF _ _ a] a show ?thesis by (simp add: good_def Parser_Advance_def)
qed

lemma good_flush: "good P \<Longrightarrow> good (P\<lparr>ps_comments := []\<rparr>)"
  by (simp add: good_def comments_text_def)

lemma good_strict: "good P \<Longrightarrow> \<not> ps_tolerant P" and good_comments: "good P \<Longrightarrow> comments_text (ps_comments P)"
  by (simp_all add: good_def)

lemma good_step [simp]: "good P \<Longrightarrow> good (Parser_Advance ranges P)"
  unfolding good_def [of P] by (rule good_Advance) simp_all

lemma good_name: "good P \<Longrightarrow> kind P = kIdent \<Longrightarrow> name_text (cur_value P)"
  by (simp add: good_def token_shape_def name_text_def)

lemma good_trailing: "good P \<Longrightarrow> TakeTrailingComment e P = (c, P') \<Longrightarrow> trailing_text c \<and> good P'"
  by (cases "ps_comments P") (auto simp: TakeTrailingComment_def good_def comments_text_def trailing_text_def split: if_splits)

section \<open>The texts of a tree\<close>

fun texts_value :: "Value \<Rightarrow> bool"
and texts_entry :: "Entry \<Rightarrow> bool" where
  "texts_value (IntVal p e raw prec) = (int_text raw \<and> list_all IsDigit prec)"
| "texts_value (FloatVal p e raw prec) = (float_text raw \<and> list_all IsDigit prec \<or> (raw = ''-inf'' \<or> raw = ''+inf'') \<and> prec = [])"
| "texts_value (IdentVal p e name) = name_text name"
| "texts_value (TimestampVal p e seconds nanos raw) = timestamp_text raw"
| "texts_value (DurationVal p e seconds nanos raw) = duration_text raw"
| "texts_value (ListVal p e vs) = list_all texts_value vs"
| "texts_value (BlockVal p e es trailing) = (list_all texts_entry es \<and> comments_text trailing)"
| "texts_value _ = True"
| "texts_entry (Assignment p e key q v leading trailing) = ((q \<or> name_text key) \<and> texts_value v \<and> comments_text leading \<and> trailing_text trailing)"
| "texts_entry (MapEntry p e key q v leading trailing) = (texts_value v \<and> comments_text leading \<and> trailing_text trailing)"
| "texts_entry (TypeEntry p e url leading trailing) = (comments_text leading \<and> trailing_text trailing)"
| "texts_entry (Block p e name q es leading trailing) = ((q \<or> name_text name) \<and> list_all texts_entry es \<and> comments_text leading \<and> comments_text trailing)"

lemma is_type_entry_iff: "is_type_entry x = is_TypeEntry x"
  by (cases x) simp_all

text \<open>Bytes are within the limit when the whole text is: their literal is part of it.\<close>

lemma printable_texts:
  "value_ok n v \<Longrightarrow> texts_value v \<Longrightarrow> int (length (Formatter_FormatValue ranges indent level v)) \<le> M \<Longrightarrow> printable_value ranges M n v"
  "list_all (value_ok n) vs \<Longrightarrow> list_all texts_value vs \<Longrightarrow> int (length (Formatter_elements ranges indent level vs)) \<le> M \<Longrightarrow>
     list_all (printable_value ranges M n) vs"
  "entry_ok n x \<Longrightarrow> texts_entry x \<Longrightarrow> int (length (Formatter_FormatEntry ranges indent level x)) \<le> M \<Longrightarrow> printable_entry ranges M n x"
  "list_all (entry_ok n) xs \<Longrightarrow> list_all texts_entry xs \<Longrightarrow> int (length (Formatter_FormatEntries ranges indent level xs)) \<le> M \<Longrightarrow>
     list_all (printable_entry ranges M n) xs"
proof (induction ranges indent level v and ranges indent level vs and ranges indent level x and ranges indent level xs arbitrary: n and n and n and n
    rule: Formatter_FormatValue_Formatter_elements_Formatter_FormatEntry_Formatter_FormatEntries.induct)
  case (5 ranges indent level p e bs)
  have "length (Base64EncodeStd bs) div 4 * 3 \<le> length (Base64EncodeStd bs)" by simp
  with 5 show ?case by (simp add: bytes_fit_def)
qed (auto simp: is_type_entry_iff split: nat.splits)

section \<open>Values\<close>

abbreviation value_texts :: "Value \<Rightarrow> Parser \<Rightarrow> bool" where
  "value_texts v P' \<equiv> good P' \<and> texts_value v"

abbreviation body_texts :: "Entry list \<times> Position \<times> Comment list \<Rightarrow> Parser \<Rightarrow> bool" where
  "body_texts r P' \<equiv> good P' \<and> list_all texts_entry (fst r) \<and> comments_text (snd (snd r))"

abbreviation entry_texts :: "Entry option \<Rightarrow> Parser \<Rightarrow> bool" where
  "entry_texts entry P' \<equiv> good P' \<and> (\<forall>x. entry = Some x \<longrightarrow> texts_entry x)"

lemma value_step_texts:
  assumes g: "good P" and l: "ensures (pl P) value_texts" and b: "ensures (pb P) value_texts"
  shows "ensures (value_step ranges pl pb P) value_texts"
proof -
  have t: "\<not> ps_tolerant P" and s: "token_shape (ps_current P)" using g by (auto simp: good_def)
  have tv: "ensures (token_value ranges mk P) value_texts" if "\<And>p e. texts_value (mk p e)" for mk
    using g that by (simp add: token_value_def)
  show ?thesis
    using s t g l b by (cases "kind P") (auto simp: value_step_def Let_def token_shape_def name_text_def intro!: tv split: sum.split option.split)
qed

lemma list_loop_texts:
  assumes pv: "\<And>P'. good P' \<Longrightarrow> ensures (pv P') value_texts"
  shows "good P \<Longrightarrow> list_all texts_value els \<Longrightarrow> ensures (list_loop k ranges pv els P) (\<lambda>vs P'. good P' \<and> list_all texts_value vs)"
proof (induction k arbitrary: els P)
  case (Suc k)
  have "ensures (pv P) (\<lambda>v P1. ensures (if ps_tolerant P1 \<and> pos_offset (cur_pos P1) = pos_offset (cur_pos P) \<and> is_BadVal v then pret els P1
        else list_loop k ranges pv (els @ [v]) (if kind P1 = kComma then Parser_Advance ranges P1 else P1)) (\<lambda>vs P'. good P' \<and> list_all texts_value vs))"
    using pv [OF Suc.prems(1)] by (rule ensures_mono) (use Suc good_strict in auto)
  with Suc.prems show ?case by simp
qed (simp add: ensures_def)

lemma ParseList_texts:
  assumes g: "good P" and pv: "\<And>P'. good P' \<Longrightarrow> ensures (pv P') value_texts"
  shows "ensures (ParseList ranges pv d P) value_texts"
proof -
  let ?A = "Parser_Advance ranges P"
  have "ensures (list_loop (Suc (ps_left ?A)) ranges pv [] ?A) (\<lambda>vs P'. good P' \<and> list_all texts_value vs)"
    by (rule list_loop_texts [OF pv]) (use g in simp_all)
  then have "ensures (list_loop (Suc (ps_left ?A)) ranges pv [] ?A)
      (\<lambda>vs P2. ensures (if kind P2 \<noteq> kRBracket then
                     pbind (Soft (cur_pos P2) (''expected '' @ quoted '']'' @ '', got '' @ TokenKindName (kind P2)))
                       (\<lambda>_ P3. pret (ListVal (cur_pos P) (cur_pos P3) vs) P3) P2
                   else pret (ListVal (cur_pos P) (TokenEnd P2) vs) (Parser_Advance ranges P2)) value_texts)"
    by (rule ensures_mono) (use good_strict in auto)
  then show ?thesis using good_strict [OF g] by (simp add: ParseList_def Let_def)
qed

lemma ParseBlockVal_texts:
  assumes g: "good P" and pb: "\<And>P'. good P' \<Longrightarrow> ensures (pb (d + 1) P') body_texts"
  shows "ensures (ParseBlockVal ranges pb d P) value_texts"
  using good_strict [OF g] ensures_mono [OF pb [OF good_step [OF g]]] by (simp add: ParseBlockVal_def Let_def case_prod_beta)

section \<open>Entries\<close>

lemma value_entry_texts:
  assumes v: "ensures (pv (Parser_Advance ranges P)) value_texts" and mk: "\<And>v c. texts_value v \<Longrightarrow> trailing_text c \<Longrightarrow> texts_entry (mk v c)"
  shows "ensures (pbind pv (\<lambda>v P1. case TakeTrailingComment (value_end v) P1 of (comment, P2) \<Rightarrow> pret (Some (mk v comment)) P2) (Parser_Advance ranges P))
    entry_texts"
  unfolding ensures_bind using v by (rule ensures_mono) (use good_trailing mk in \<open>auto split: prod.split\<close>)

lemma ParseEntry_texts:
  assumes g: "good P" and pv: "\<And>P'. good P' \<Longrightarrow> ensures (pv P') value_texts" and pb: "\<And>P'. good P' \<Longrightarrow> ensures (pb (d + 1) P') body_texts"
  shows "ensures (ParseEntry ranges pv pb d allow P) entry_texts"
proof -
  define P0 where "P0 = P\<lparr>ps_comments := []\<rparr>"
  have f: "FlushComments P = (ps_comments P, P0)" by (simp add: FlushComments_def P0_def)
  have g0: "good P0" "ps_current P0 = ps_current P" using good_flush [OF g] by (simp_all add: P0_def)
  define P1 where "P1 = Parser_Advance ranges P0"
  have g1: "good P1" using g0 by (simp add: P1_def)
  have key: "kind P = kString \<or> name_text (cur_value P)" if "kind P \<in> set key_kinds" "kind P \<noteq> kInt" "kind P \<noteq> kBool"
    using that good_name [OF g] by (auto simp: key_kinds_def)
  note strict = good_strict [OF g0(1)] good_strict [OF g1] and leading = good_comments [OF g]
  have va: "ensures (pbind pv (\<lambda>v P1. case TakeTrailingComment (value_end v) P1 of (comment, P2) \<Rightarrow> pret (Some (mk v comment)) P2) (Parser_Advance ranges P1)) entry_texts"
    if "\<And>v c. texts_value v \<Longrightarrow> trailing_text c \<Longrightarrow> texts_entry (mk v c)" for mk
    by (rule value_entry_texts) (use pv g1 that in auto)
  have a: "ensures (parse_assignment ranges pv pos (kind P) (cur_value P) prec (ps_comments P) P1) entry_texts" if "kind P \<in> set key_kinds" for pos prec
    using key [OF that] leading strict va [of "\<lambda>v c. Assignment pos (value_end v) (cur_value P) (kind P = kString) v (ps_comments P) c"]
    unfolding parse_assignment_def ensures_bind by (auto simp del: ensures_bind)
  have m: "ensures (parse_map_entry ranges pv allow pos (kind P) (cur_value P) prec (ps_comments P) P1) entry_texts" for pos prec
    using leading strict va [of "\<lambda>v c. MapEntry pos (value_end v) (cur_value P) (kind P = kString) v (ps_comments P) c"]
    unfolding parse_map_entry_def ensures_bind by (auto simp del: ensures_bind)
  have b: "ensures (parse_block_entry ranges pb d pos (kind P) (cur_value P) prec (ps_comments P) P1) entry_texts" if k: "kind P \<in> set key_kinds" for pos prec
  proof (cases "kind P = kInt \<or> kind P = kBool")
    case False
    have "ensures (pb (d + 1) (Parser_Advance ranges P1))
        (\<lambda>r P'. good P' \<and> texts_entry (Block pos (fst (snd r)) (cur_value P) (kind P = kString) (fst r) (ps_comments P) (snd (snd r))))"
      using pb [OF good_step [OF g1]] by (rule ensures_mono) (use key [OF k] False leading in auto)
    with False strict show ?thesis unfolding parse_block_entry_def by (simp add: case_prod_beta)
  qed (use strict in \<open>simp add: parse_block_entry_def\<close>)
  show ?thesis
    using strict g0(2) a m b by (auto simp: ParseEntry_def f Let_def P1_def [symmetric] split: TokenKind.split)
qed

lemma ParseTypeEntry_texts:
  assumes g: "good P"
  shows "ensures (ParseTypeEntry ranges first P) entry_texts"
proof -
  define P0 where "P0 = P\<lparr>ps_comments := []\<rparr>"
  have f: "FlushComments P = (ps_comments P, P0)" by (simp add: FlushComments_def P0_def)
  have g0: "good P0" using good_flush [OF g] by (simp add: P0_def)
  let ?C = "Parser_Advance ranges (Parser_Advance ranges (Parser_Advance ranges P0))"
  obtain c P4 where t: "TakeTrailingComment (TokenEnd (Parser_Advance ranges (Parser_Advance ranges P0))) ?C = (c, P4)" by fastforce
  have "trailing_text c \<and> good P4" by (rule good_trailing [OF _ t]) (use g0 in simp)
  then show ?thesis using g0 good_comments [OF g] good_strict [OF g0] by (simp add: ParseTypeEntry_def f Let_def t type_entry_fail_def)
qed

lemma body_loop_texts:
  assumes pe: "\<And>P'. good P' \<Longrightarrow> ensures (pe P') entry_texts"
  shows "good P \<Longrightarrow> list_all texts_entry out \<Longrightarrow> ensures (body_loop k ranges pe out P) (\<lambda>es P'. good P' \<and> list_all texts_entry es)"
proof (induction k arbitrary: out P)
  case (Suc k)
  have "ensures ((if kind P = kAtType then ParseTypeEntry ranges (out = []) else pe) P) entry_texts"
    using pe [OF Suc.prems(1)] ParseTypeEntry_texts [OF Suc.prems(1)] by simp
  then have "ensures ((if kind P = kAtType then ParseTypeEntry ranges (out = []) else pe) P)
      (\<lambda>entry P1. ensures (body_loop k ranges pe (push_entry out entry) P1) (\<lambda>es P'. good P' \<and> list_all texts_entry es))"
    by (rule ensures_mono) (use Suc in \<open>auto simp: push_entry_def intro!: Suc.IH split: option.split\<close>)
  with Suc.prems show ?case by simp
qed (simp add: ensures_def)

lemma body_step_texts:
  assumes g: "good P" and pe: "\<And>P'. good P' \<Longrightarrow> ensures (pe P') entry_texts"
  shows "ensures (body_step ranges pe P) body_texts"
  unfolding body_step_def ensures_bind
proof (rule ensures_mono [OF body_loop_texts [OF pe g]])
  fix es P1 assume a: "good P1 \<and> list_all texts_entry es"
  then show "ensures (case FlushComments P1 of (trailing, P2) \<Rightarrow>
      if kind P2 \<noteq> kRBrace then
        if \<not> ps_tolerant P2 then Err (cur_pos P2) (''expected '' @ quoted ''}'' @ '', got '' @ TokenKindName (kind P2)) P2
        else pret (es, cur_pos P2, trailing) (record_error (cur_pos P2)
          (''unclosed block: expected '' @ quoted ''}'' @ '' before '' @ (if kind P2 = kRParen then quoted '')'' else ''end of input'')) P2)
      else pret (es, TokenEnd P2, trailing) (Parser_Advance ranges P2)) body_texts"
    using good_flush [of P1] good_comments [of P1] good_strict [of P1] by (simp add: FlushComments_def)
qed simp_all

lemma ParseValue_ParseBody_texts:
  "good P \<Longrightarrow> ensures (ParseValue n ranges d P) value_texts \<and> ensures (ParseBody n ranges d P) body_texts"
proof (induction n arbitrary: d P)
  case 0
  then show ?case by (simp add: ensures_def)
next
  case (Suc n)
  have v: "ensures (ParseValue n ranges d' P') value_texts" and b: "ensures (ParseBody n ranges d' P') body_texts" if "good P'" for d' P'
    using Suc.IH [OF that] by blast+
  show ?case
    unfolding ParseValue.simps ParseBody.simps
    by (intro conjI value_step_texts body_step_texts ParseList_texts ParseBlockVal_texts ParseEntry_texts Suc.prems v b)
qed

section \<open>Documents\<close>

lemma entries_loop_texts:
  "good P \<Longrightarrow> list_all texts_entry out \<Longrightarrow> ensures (entries_loop k ranges out P) (\<lambda>es P'. good P' \<and> list_all texts_entry es)"
proof (induction k arbitrary: out P)
  case (Suc k)
  have "ensures (top_entry ranges P) entry_texts"
    by (rule ParseEntry_texts [OF Suc.prems(1)]) (simp_all add: parse_value_def parse_body_def ParseValue_ParseBody_texts)
  then have "ensures (top_entry ranges P)
      (\<lambda>entry P1. ensures (entries_loop k ranges (push_entry out entry) P1) (\<lambda>es P'. good P' \<and> list_all texts_entry es))"
    by (rule ensures_mono) (use Suc in \<open>auto simp: push_entry_def intro!: Suc.IH split: option.split\<close>)
  with Suc.prems show ?case by simp
qed (simp add: ensures_def)

text \<open>A directive stays in the document, so the ones that leave none are the type directives.\<close>

lemma ParseTypeDirective_keeps: "ensures (ParseTypeDirective ranges doc P) (\<lambda>doc' P'. no_directives doc' = no_directives doc)"
  by (auto simp: ParseTypeDirective_def Let_def Soft_def no_directives_def split: prod.split)

lemma directives_stay: "\<not> no_directives d \<Longrightarrow> ensures (directives_loop k ranges d P) (\<lambda>doc P'. \<not> no_directives doc)"
proof (induction k arbitrary: d P)
  case (Suc k)
  have "ensures (ParseTypeDirective ranges d P) (\<lambda>x P'. ensures (directives_loop k ranges x P') (\<lambda>doc P'. \<not> no_directives doc))"
    by (rule ensures_mono [OF ParseTypeDirective_keeps]) (use Suc in simp)
  with Suc show ?case by (auto simp: no_directives_def intro!: ensures_recover Suc.IH split: TokenKind.split)
qed (simp add: ensures_def)

definition head_texts :: "Document \<Rightarrow> bool" where
  "head_texts doc \<longleftrightarrow> (doc_type_url doc = [] \<or> name_text (doc_type_url doc)) \<and> comments_text (doc_leading doc)"

lemma ParseTypeDirective_texts:
  assumes "good P" "head_texts doc"
  shows "ensures (ParseTypeDirective ranges doc P) (\<lambda>doc' P'. good P' \<and> head_texts doc')"
  using assms good_strict [of "Parser_Advance ranges P"] good_name [of "Parser_Advance ranges P"]
  by (auto simp: ParseTypeDirective_def Let_def head_texts_def)

lemma recover_directive:
  assumes "good P" "\<And>x. \<not> no_directives (add x)"
  shows "ensures (recover ranges d parse add P) (\<lambda>x P'. ensures (directives_loop k ranges x P') (\<lambda>doc P'. no_directives doc \<longrightarrow> R doc P'))"
  by (rule ensures_recover) (use assms good_strict in \<open>auto intro!: ensures_mono [OF directives_stay]\<close>)

lemma directives_loop_texts:
  "good P \<Longrightarrow> head_texts d \<Longrightarrow> ensures (directives_loop k ranges d P) (\<lambda>doc P'. no_directives doc \<longrightarrow> good P' \<and> head_texts doc)"
proof (induction k arbitrary: d P)
  case (Suc k)
  have "ensures (ParseTypeDirective ranges d P) (\<lambda>x P'. ensures (directives_loop k ranges x P') (\<lambda>doc P'. no_directives doc \<longrightarrow> good P' \<and> head_texts doc))"
    by (rule ensures_mono [OF ParseTypeDirective_texts [OF Suc.prems]]) (use Suc.IH in simp)
  moreover have "\<not> no_directives (case x of (e, off) \<Rightarrow> d\<lparr>doc_directives := doc_directives d @ [e], doc_body_offset := off\<rparr>)"
    "\<not> no_directives (case y of (e, off) \<Rightarrow> d\<lparr>doc_datasets := doc_datasets d @ [e], doc_body_offset := off\<rparr>)"
    "\<not> no_directives (case z of (e, off) \<Rightarrow> d\<lparr>doc_protos := doc_protos d @ [e], doc_body_offset := off\<rparr>)" for x y z
    by (simp_all add: no_directives_def split: prod.split)
  ultimately show ?case using Suc.prems by (auto intro!: recover_directive split: TokenKind.split)
qed (simp add: ensures_def)

lemma no_directives_rest [simp]: "no_directives (doc\<lparr>doc_entries := es, doc_trailing := cs\<rparr>) = no_directives doc"
  by (simp add: no_directives_def)

lemma ParseDocument_texts:
  assumes g: "good P"
  shows "ensures (ParseDocument ranges P) (\<lambda>doc P'. no_directives doc \<longrightarrow> head_texts doc \<and> list_all texts_entry (doc_entries doc) \<and> comments_text (doc_trailing doc))"
proof -
  let ?F = "P\<lparr>ps_comments := []\<rparr>" and ?d = "empty_document\<lparr>doc_leading := ps_comments P\<rparr>"
  let ?Q = "\<lambda>doc P'. no_directives doc \<longrightarrow> head_texts doc \<and> list_all texts_entry (doc_entries doc) \<and> comments_text (doc_trailing doc)"
  have rest: "ensures (check_standalone doc P1) (\<lambda>_ P2. ensures (entries_loop (Suc (ps_left P2)) ranges [] P2)
      (\<lambda>es P3. case FlushComments P3 of (trailing, P4) \<Rightarrow> ?Q (doc\<lparr>doc_entries := es, doc_trailing := trailing\<rparr>) P4))"
    if "no_directives doc \<longrightarrow> good P1 \<and> head_texts doc" for doc P1
  proof (cases "no_directives doc")
    case True
    then have "good P1" "head_texts doc" "doc_datasets doc = []" using that by (simp_all add: no_directives_def)
    then show ?thesis
      by (auto simp: check_standalone_def FlushComments_def head_texts_def good_comments simp del: entries_loop.simps intro!: ensures_mono [OF entries_loop_texts])
  next
    case False
    then show ?thesis by (simp add: ensures_def FlushComments_def del: entries_loop.simps)
  qed
  have "ensures (directives_loop (Suc (ps_left ?F)) ranges ?d ?F) (\<lambda>doc P'. no_directives doc \<longrightarrow> good P' \<and> head_texts doc)"
    by (rule directives_loop_texts) (use good_flush [OF g] good_comments [OF g] in \<open>simp_all add: head_texts_def empty_document_def\<close>)
  then have "ensures (directives_loop (Suc (ps_left ?F)) ranges ?d ?F) (\<lambda>doc P1. ensures (check_standalone doc P1)
      (\<lambda>_ P2. ensures (entries_loop (Suc (ps_left P2)) ranges [] P2)
        (\<lambda>es P3. case FlushComments P3 of (trailing, P4) \<Rightarrow> ?Q (doc\<lparr>doc_entries := es, doc_trailing := trailing\<rparr>) P4)))"
    by (rule ensures_mono) (rule rest)
  then show ?thesis
    by (simp add: ParseDocument_def FlushComments_def case_prod_beta del: entries_loop.simps directives_loop.simps)
qed

lemma good_start: "good (strict_parser ranges input opts)"
  unfolding strict_parser_def new_parser_def
  by (rule good_Advance) (simp_all add: SetMaxBytesLiteral_def new_lexer_def new_lexer_at_def comments_text_def)

lemma parsed_printable:
  assumes p: "Parse ranges input opts = Some (Inr doc)" and n: "no_directives doc" and M: "int (length (FormatDocument ranges doc)) \<le> M"
  shows "printable_document ranges M (nat (limit_or (po_max_nesting_depth opts) (int kMaxNestingDepth))) doc"
proof -
  have ok: "document_ok (nat (limit_or (po_max_nesting_depth opts) (int kMaxNestingDepth))) doc"
    using Parse_wellformed [of ranges input opts] p by simp
  obtain P' where "ParseDocument ranges (strict_parser ranges input opts) = Some (Inr doc, P')" using p by (auto simp: Parse_def Let_def split: if_splits)
  then have t: "head_texts doc" "list_all texts_entry (doc_entries doc)" "comments_text (doc_trailing doc)"
    using ParseDocument_texts [OF good_start, of ranges ranges input opts] n by (auto simp: ensures_def)
  have "int (length (Formatter_FormatEntries ranges kIndent 0 (doc_entries doc))) \<le> M" using M n by (simp add: FormatDocument_plain)
  then have "list_all (printable_entry ranges M (nat (limit_or (po_max_nesting_depth opts) (int kMaxNestingDepth)))) (doc_entries doc)"
    using ok t by (intro printable_texts(4)) (auto simp: document_ok_def list_all_iff)
  with ok n t show ?thesis by (auto simp: printable_document_def document_ok_def head_texts_def list_all_iff is_type_entry_iff)
qed

section \<open>Properties\<close>

text \<open>C6. Formatting keeps the content of every document that was parsed. When Parse returns a document without top-level
directives other than the type, the text of the formatted document is within the size limit, the limit on bytes literals is not below the
size limit, and the printable table does not list the newline, Parse accepts the formatted text, the document it gives has the content of the first (positions aside, and leading comments attached
to what follows them), and formatting it again changes nothing.\<close>

theorem formatting_keeps_parsed:
  assumes "\<not> GoIsPrint ranges 10"
    and "Parse ranges input opts = Some (Inr doc)" and "no_directives doc"
    and "int (length (FormatDocument ranges doc)) \<le> limit_or (po_max_message_size opts) (int kMaxMessageSize)"
    and "limit_or (po_max_message_size opts) (int kMaxMessageSize) \<le> limit_or (po_max_bytes_literal_length opts) kMaxBytesLiteralLength"
  shows "\<exists>doc'. Parse ranges (FormatDocument ranges doc) opts = Some (Inr doc') \<and>
    strip_document ranges doc' = strip_document ranges (settle doc) \<and> FormatDocument ranges doc' = FormatDocument ranges doc"
  using Parse_FormatDocument [OF assms(1) parsed_printable [OF assms(2,3)] assms(4)] assms(4,5) by simp

theorem formatting_keeps_parsed_witness:
  "\<exists>doc doc'.
     Parse [(32, 126)] (''@type a.B # c'' @ [CHR 0x0A] @ ''x{1:[2p8 -3.5e7]# t'' @ [CHR 0x0A] @ ''b=n}'')
       \<lparr>po_max_message_size = 0, po_max_nesting_depth = 0, po_max_bytes_literal_length = 0\<rparr> = Some (Inr doc) \<and>
     Parse [(32, 126)] (FormatDocument [(32, 126)] doc) \<lparr>po_max_message_size = 0, po_max_nesting_depth = 0, po_max_bytes_literal_length = 0\<rparr> = Some (Inr doc') \<and>
     strip_document [(32, 126)] doc' = strip_document [(32, 126)] (settle doc) \<and> FormatDocument [(32, 126)] doc' = FormatDocument [(32, 126)] doc"
proof -
  let ?p = "Parse [(32, 126)] (''@type a.B # c'' @ [CHR 0x0A] @ ''x{1:[2p8 -3.5e7]# t'' @ [CHR 0x0A] @ ''b=n}'')
       \<lparr>po_max_message_size = 0, po_max_nesting_depth = 0, po_max_bytes_literal_length = 0\<rparr>"
  have "case ?p of Some (Inr doc) \<Rightarrow> no_directives doc \<and> length (FormatDocument [(32, 126)] doc) \<le> 100 | _ \<Rightarrow> False" by code_simp
  then obtain doc where d: "?p = Some (Inr doc)" "no_directives doc" "length (FormatDocument [(32, 126)] doc) \<le> 100"
    by (auto split: option.splits sum.splits)
  have g: "\<not> GoIsPrint [(32, 126)] 10" by code_simp
  show ?thesis using formatting_keeps_parsed [OF g d(1,2)] d by (simp add: limit_or_def kMaxMessageSize_def kMaxBytesLiteralLength_def)
qed

end
