(* ===== verification/PxfSpans.thy ===== *)
theory PxfSpans
  imports PxfEnsures
begin

text \<open>
  The spans of the nodes of a strict parse: every node covers a part of the input that is not empty, a node's children lie inside
  it in the order of the text, and a list or a block ends at its closing bracket. The rewriter splices along these spans.
\<close>

section \<open>Spans of a tree\<close>

definition span_in :: "nat \<Rightarrow> nat \<Rightarrow> Position \<Rightarrow> Position \<Rightarrow> bool" where
  "span_in lo hi p e \<longleftrightarrow> lo \<le> pos_offset p \<and> pos_offset p < pos_offset e \<and> pos_offset e \<le> hi"

definition closed_by :: "string \<Rightarrow> char \<Rightarrow> Position \<Rightarrow> bool" where
  "closed_by src c e \<longleftrightarrow> src ! (pos_offset e - 1) = c"

fun spans_value :: "string \<Rightarrow> nat \<Rightarrow> nat \<Rightarrow> Value \<Rightarrow> bool"
and spans_values :: "string \<Rightarrow> nat \<Rightarrow> nat \<Rightarrow> Value list \<Rightarrow> bool"
and spans_entry :: "string \<Rightarrow> nat \<Rightarrow> nat \<Rightarrow> Entry \<Rightarrow> bool"
and spans_entries :: "string \<Rightarrow> nat \<Rightarrow> nat \<Rightarrow> Entry list \<Rightarrow> bool" where
  "spans_value src lo hi (ListVal p e els) \<longleftrightarrow>
     span_in lo hi p e \<and> closed_by src (CHR '']'') e \<and> spans_values src (pos_offset p + 1) (pos_offset e - 1) els"
| "spans_value src lo hi (BlockVal p e es ts) \<longleftrightarrow>
     span_in lo hi p e \<and> closed_by src (CHR ''}'') e \<and> spans_entries src (pos_offset p + 1) (pos_offset e - 1) es"
| "spans_value src lo hi v \<longleftrightarrow> span_in lo hi (ValuePos v) (value_end v)"
| "spans_values src lo hi [] \<longleftrightarrow> lo \<le> hi"
| "spans_values src lo hi (v # vs) \<longleftrightarrow> spans_value src lo hi v \<and> spans_values src (pos_offset (value_end v)) hi vs"
| "spans_entry src lo hi (Assignment p e key q v leading trailing) \<longleftrightarrow>
     span_in lo hi p e \<and> pos_offset (value_end v) = pos_offset e \<and> spans_value src (pos_offset p + 1) (pos_offset e) v"
| "spans_entry src lo hi (MapEntry p e key q v leading trailing) \<longleftrightarrow>
     span_in lo hi p e \<and> pos_offset (value_end v) = pos_offset e \<and> spans_value src (pos_offset p + 1) (pos_offset e) v"
| "spans_entry src lo hi (Block p e name q es leading trailing) \<longleftrightarrow>
     span_in lo hi p e \<and> closed_by src (CHR ''}'') e \<and> spans_entries src (pos_offset p + 1) (pos_offset e - 1) es"
| "spans_entry src lo hi (TypeEntry p e url leading trailing) \<longleftrightarrow> span_in lo hi p e"
| "spans_entries src lo hi [] \<longleftrightarrow> lo \<le> hi"
| "spans_entries src lo hi (x # xs) \<longleftrightarrow> spans_entry src lo hi x \<and> spans_entries src (pos_offset (entry_end x)) hi xs"

lemma spans_value_in: "spans_value src lo hi v \<Longrightarrow> span_in lo hi (ValuePos v) (value_end v)"
  by (cases v) simp_all

lemma spans_entry_in: "spans_entry src lo hi x \<Longrightarrow> span_in lo hi (EntryPos x) (entry_end x)"
  by (cases x) simp_all

lemma spans_value_mono: "spans_value src lo hi v \<Longrightarrow> lo' \<le> lo \<Longrightarrow> hi \<le> hi' \<Longrightarrow> spans_value src lo' hi' v"
  by (cases v) (auto simp: span_in_def)

lemma spans_entry_mono: "spans_entry src lo hi x \<Longrightarrow> lo' \<le> lo \<Longrightarrow> hi \<le> hi' \<Longrightarrow> spans_entry src lo' hi' x"
  by (cases x) (auto simp: span_in_def)

lemma spans_values_mono: "spans_values src lo hi vs \<Longrightarrow> lo' \<le> lo \<Longrightarrow> hi \<le> hi' \<Longrightarrow> spans_values src lo' hi' vs"
  by (induction vs arbitrary: lo lo') (auto intro: spans_value_mono)

lemma spans_entries_mono: "spans_entries src lo hi xs \<Longrightarrow> lo' \<le> lo \<Longrightarrow> hi \<le> hi' \<Longrightarrow> spans_entries src lo' hi' xs"
  by (induction xs arbitrary: lo lo') (auto intro: spans_entry_mono)

lemma spans_values_snoc: "spans_values src lo mid vs \<Longrightarrow> spans_value src mid hi v \<Longrightarrow> spans_values src lo hi (vs @ [v])"
proof (induction vs arbitrary: lo)
  case Nil
  then show ?case using spans_value_in [of src mid hi v] by (auto simp: span_in_def intro: spans_value_mono)
next
  case (Cons u us)
  have "mid \<le> hi" using spans_value_in [OF Cons.prems(2)] by (auto simp: span_in_def)
  with Cons show ?case by (auto intro: spans_value_mono)
qed

lemma spans_entries_snoc: "spans_entries src lo mid xs \<Longrightarrow> spans_entry src mid hi x \<Longrightarrow> spans_entries src lo hi (xs @ [x])"
proof (induction xs arbitrary: lo)
  case Nil
  then show ?case using spans_entry_in [of src mid hi x] by (auto simp: span_in_def intro: spans_entry_mono)
next
  case (Cons u us)
  have "mid \<le> hi" using spans_entry_in [OF Cons.prems(2)] by (auto simp: span_in_def)
  with Cons show ?case by (auto intro: spans_entry_mono)
qed

section \<open>Where the parser stands\<close>

definition here :: "Parser \<Rightarrow> nat" where
  "here P = pos_offset (cur_pos P)"

definition placed :: "string \<Rightarrow> Parser \<Rightarrow> bool" where
  "placed src P \<longleftrightarrow>
     \<not> ps_tolerant P \<and> cur_ok P \<and> lx_input (ps_lex P) = src \<and> pos_offset (lx_start (ps_lex P)) = 0 \<and> lx_pos (ps_lex P) \<le> length src"

lemma placed_token:
  assumes "placed src P"
  shows "kind P \<noteq> kEOF \<Longrightarrow> here P < pos_offset (TokenEnd P)" "pos_offset (TokenEnd P) \<le> length src" "here P \<le> pos_offset (TokenEnd P)"
    "bracket_char (kind P) = Some c \<Longrightarrow> src ! here P = c \<and> pos_offset (TokenEnd P) = Suc (here P)"
  using assms by (auto simp: placed_def cur_ok_def located_def here_def TokenEnd_def CurrentPos_def split: if_splits)

lemma placed_fields:
  "placed src P \<Longrightarrow> \<not> ps_tolerant P" "placed src (P\<lparr>ps_comments := cs\<rparr>) = placed src P" "here (P\<lparr>ps_comments := cs\<rparr>) = here P"
  by (simp_all add: placed_def here_def)

lemma Advance_loop_onward:
  "Advance_loop ranges cs L = (t, cs', L') \<Longrightarrow> pos_offset (lx_start L) + lx_pos L \<le> pos_offset (tk_pos t)"
proof (induction ranges cs L rule: Advance_loop.induct)
  case (1 ranges cs L)
  obtain u M where N: "Next ranges L = (u, M)" by fastforce
  have s: "lx_start (SkipSpaces L) = lx_start L \<and> lx_pos L \<le> lx_pos (SkipSpaces L)" using moves_fixed [OF SkipSpaces_moves] by blast
  have u: "tk_pos u = CurrentPos (SkipSpaces L)" using Next_moves [where ranges = ranges and ?L0.0 = L] N by (auto simp: mk_token_def split: if_splits)
  have m: "lx_start M = lx_start L \<and> lx_pos L \<le> lx_pos M" using moves_fixed [OF Next_moves_all [OF N]] by blast
  show ?case using 1(1,2) [OF N [symmetric]] 1(3) s u m by (subst (asm) (3) Advance_loop.simps) (fastforce simp: N CurrentPos_def split: if_splits)
qed

lemma placed_Advance:
  assumes "placed src P"
  shows "placed src (Parser_Advance ranges P)" "pos_offset (TokenEnd P) \<le> here (Parser_Advance ranges P)"
proof -
  show "placed src (Parser_Advance ranges P)" using assms Parser_Advance_kept [of P ranges] by (simp add: placed_def lex_kept_def)
  obtain t cs L where a: "Advance_loop ranges (ps_comments P) (ps_lex P) = (t, cs, L)" by (metis prod_cases3)
  with Advance_loop_onward [OF a] show "pos_offset (TokenEnd P) \<le> here (Parser_Advance ranges P)"
    by (simp add: here_def Parser_Advance_def TokenEnd_def CurrentPos_def)
qed

lemma here_Advance: "placed src P \<Longrightarrow> here P \<le> here (Parser_Advance ranges P)"
  "placed src P \<Longrightarrow> kind P \<noteq> kEOF \<Longrightarrow> here P < here (Parser_Advance ranges P)"
  using placed_token(1,3) [of src P] placed_Advance(2) [of src P ranges] by fastforce+

lemma placed_trailing: "TakeTrailingComment e P = (c, P') \<Longrightarrow> placed src P' = placed src P \<and> here P' = here P"
  by (cases "ps_comments P") (auto simp: TakeTrailingComment_def placed_fields split: if_splits)

section \<open>Values\<close>

definition value_spans :: "string \<Rightarrow> Parser \<Rightarrow> Value \<Rightarrow> Parser \<Rightarrow> bool" where
  "value_spans src P v P' \<longleftrightarrow> placed src P' \<and> spans_value src (here P) (here P') v"

definition body_spans :: "string \<Rightarrow> Parser \<Rightarrow> Entry list \<times> Position \<times> Comment list \<Rightarrow> Parser \<Rightarrow> bool" where
  "body_spans src P r P' \<longleftrightarrow>
     placed src P' \<and> closed_by src (CHR ''}'') (fst (snd r)) \<and> here P < pos_offset (fst (snd r)) \<and> pos_offset (fst (snd r)) \<le> here P' \<and>
     spans_entries src (here P) (pos_offset (fst (snd r)) - 1) (fst r)"

definition entry_spans :: "string \<Rightarrow> Parser \<Rightarrow> Entry option \<Rightarrow> Parser \<Rightarrow> bool" where
  "entry_spans src P entry P' \<longleftrightarrow> placed src P' \<and> (\<exists>x. entry = Some x \<and> spans_entry src (here P) (here P') x)"

lemma token_value_spans:
  assumes "placed src P" "kind P \<noteq> kEOF" "spans_value src (here P) (pos_offset (TokenEnd P)) (mk (cur_pos P) (TokenEnd P))"
  shows "ensures (token_value ranges mk P) (value_spans src P)"
  using assms placed_Advance [OF assms(1), of ranges] by (auto simp: token_value_def value_spans_def intro: spans_value_mono)

lemma value_step_spans:
  assumes g: "placed src P" and l: "kind P = kLBracket \<Longrightarrow> ensures (pl P) (value_spans src P)" and b: "kind P = kLBrace \<Longrightarrow> ensures (pb P) (value_spans src P)"
  shows "ensures (value_step ranges pl pb P) (value_spans src P)"
proof -
  have s: "kind P \<noteq> kEOF \<Longrightarrow> span_in (here P) (pos_offset (TokenEnd P)) (cur_pos P) (TokenEnd P)"
    using placed_token [OF g] by (simp add: span_in_def here_def)
  show ?thesis
    using g l b s placed_fields(1) [OF g] by (cases "kind P") (auto simp: value_step_def Let_def intro!: token_value_spans split: sum.split option.split)
qed

lemma list_loop_spans:
  assumes pv: "\<And>P'. placed src P' \<Longrightarrow> ensures (pv P') (value_spans src P')"
  shows "placed src P \<Longrightarrow> spans_values src lo (here P) els \<Longrightarrow>
    ensures (list_loop k ranges pv els P) (\<lambda>vs P'. placed src P' \<and> spans_values src lo (here P') vs)"
proof (induction k arbitrary: els P)
  case (Suc k)
  have "ensures (pv P) (\<lambda>v P1. ensures (if ps_tolerant P1 \<and> pos_offset (cur_pos P1) = pos_offset (cur_pos P) \<and> is_BadVal v then pret els P1
        else list_loop k ranges pv (els @ [v]) (if kind P1 = kComma then Parser_Advance ranges P1 else P1))
        (\<lambda>vs P'. placed src P' \<and> spans_values src lo (here P') vs))"
    using pv [OF Suc.prems(1)]
  proof (rule ensures_mono)
    fix v P1 assume v: "value_spans src P v P1"
    define P2 where "P2 = (if kind P1 = kComma then Parser_Advance ranges P1 else P1)"
    have g: "placed src P1" and vs: "spans_values src lo (here P1) (els @ [v])"
      using v Suc.prems(2) by (auto simp: value_spans_def intro: spans_values_snoc)
    have "placed src P2" "here P1 \<le> here P2" using g placed_Advance(1) [OF g] here_Advance(1) [OF g] by (simp_all add: P2_def)
    then have "ensures (list_loop k ranges pv (els @ [v]) P2) (\<lambda>vs P'. placed src P' \<and> spans_values src lo (here P') vs)"
      using vs by (intro Suc.IH) (auto intro: spans_values_mono)
    then show "ensures (if ps_tolerant P1 \<and> pos_offset (cur_pos P1) = pos_offset (cur_pos P) \<and> is_BadVal v then pret els P1
        else list_loop k ranges pv (els @ [v]) (if kind P1 = kComma then Parser_Advance ranges P1 else P1))
        (\<lambda>vs P'. placed src P' \<and> spans_values src lo (here P') vs)"
      using placed_fields(1) [OF g] by (simp add: P2_def)
  qed
  with Suc.prems show ?case by simp
qed (simp add: ensures_def)

lemma ParseList_spans:
  assumes g: "placed src P" "kind P = kLBracket" and pv: "\<And>P'. placed src P' \<Longrightarrow> ensures (pv P') (value_spans src P')"
  shows "ensures (ParseList ranges pv d P) (value_spans src P)"
proof -
  let ?A = "Parser_Advance ranges P"
  have A: "placed src ?A" "here P + 1 \<le> here ?A" using placed_Advance(1) [OF g(1)] here_Advance(2) [OF g(1), of ranges] g(2) by auto
  have "ensures (list_loop (Suc (ps_left ?A)) ranges pv [] ?A) (\<lambda>vs P'. placed src P' \<and> spans_values src (here P + 1) (here P') vs)"
    by (rule list_loop_spans [OF pv]) (use A in simp_all)
  then have "ensures (list_loop (Suc (ps_left ?A)) ranges pv [] ?A)
      (\<lambda>vs P2. ensures (if kind P2 \<noteq> kRBracket then
                     pbind (Soft (cur_pos P2) (''expected '' @ quoted '']'' @ '', got '' @ TokenKindName (kind P2)))
                       (\<lambda>_ P3. pret (ListVal (cur_pos P) (cur_pos P3) vs) P3) P2
                   else pret (ListVal (cur_pos P) (TokenEnd P2) vs) (Parser_Advance ranges P2)) (value_spans src P))"
  proof (rule ensures_mono, goal_cases)
    case (1 vs P2)
    then have p: "placed src P2" and v: "spans_values src (here P + 1) (here P2) vs" by auto
    have "here P + 1 \<le> here P2" using v by (cases vs) (auto dest!: spans_value_in simp: span_in_def)
    then have "value_spans src P (ListVal (cur_pos P) (TokenEnd P2) vs) (Parser_Advance ranges P2)" if "kind P2 = kRBracket"
      using placed_Advance [OF p, of ranges] placed_token(4) [OF p, of "CHR '']''"] that v
      by (simp add: value_spans_def span_in_def closed_by_def) (simp add: here_def)
    then show ?case using placed_fields(1) [OF p] by simp
  qed
  then show ?thesis using placed_fields(1) [OF g(1)] by (simp add: ParseList_def Let_def)
qed

lemma ParseBlockVal_spans:
  assumes g: "placed src P" "kind P = kLBrace" and pb: "\<And>P'. placed src P' \<Longrightarrow> ensures (pb (d + 1) P') (body_spans src P')"
  shows "ensures (ParseBlockVal ranges pb d P) (value_spans src P)"
proof -
  let ?A = "Parser_Advance ranges P"
  have A: "placed src ?A" "here P + 1 \<le> here ?A" using placed_Advance(1) [OF g(1)] here_Advance(2) [OF g(1), of ranges] g(2) by auto
  have "ensures (pb (d + 1) ?A) (\<lambda>r P'. value_spans src P (BlockVal (cur_pos P) (fst (snd r)) (fst r) (snd (snd r))) P')"
    using pb [OF A(1)] by (rule ensures_mono) (use A(2) in \<open>auto simp: body_spans_def value_spans_def span_in_def here_def intro: spans_entries_mono\<close>)
  then show ?thesis using placed_fields(1) [OF g(1)] by (simp add: ParseBlockVal_def Let_def case_prod_beta)
qed

section \<open>Entries\<close>

lemma value_entry_spans:
  assumes v: "ensures (pv (Parser_Advance ranges P1)) (value_spans src (Parser_Advance ranges P1))"
    and P: "placed src P1" "here P < here P1" "kind P1 \<noteq> kEOF"
    and mk: "\<And>lo hi v c. spans_entry src lo hi (mk v c) \<longleftrightarrow>
      span_in lo hi (cur_pos P) (value_end v) \<and> spans_value src (here P + 1) (pos_offset (value_end v)) v"
  shows "ensures (pbind pv (\<lambda>v P1. case TakeTrailingComment (value_end v) P1 of (comment, P2) \<Rightarrow> pret (Some (mk v comment)) P2) (Parser_Advance ranges P1))
    (entry_spans src P)"
  unfolding ensures_bind using v
proof (rule ensures_mono)
  fix v P2 assume v: "value_spans src (Parser_Advance ranges P1) v P2"
  obtain c P3 where t: "TakeTrailingComment (value_end v) P2 = (c, P3)" by fastforce
  let ?A = "Parser_Advance ranges P1"
  have h: "here P + 1 \<le> here ?A" using here_Advance(2) [OF P(1,3), of ranges] P(2) by simp
  have i: "span_in (here ?A) (here P2) (ValuePos v) (value_end v)" using v spans_value_in by (auto simp: value_spans_def)
  have "spans_value src (here P + 1) (pos_offset (value_end v)) v"
    using v h i by (cases v) (auto simp: value_spans_def span_in_def)
  then have "entry_spans src P (Some (mk v c)) P3"
    using v h i placed_trailing [OF t, of src] mk by (auto simp: entry_spans_def value_spans_def span_in_def here_def)
  with t show "ensures (case TakeTrailingComment (value_end v) P2 of (comment, P2) \<Rightarrow> pret (Some (mk v comment)) P2) (entry_spans src P)" by simp
qed

lemma ParseEntry_spans:
  assumes g: "placed src P" and pv: "\<And>P'. placed src P' \<Longrightarrow> ensures (pv P') (value_spans src P')"
    and pb: "\<And>P'. placed src P' \<Longrightarrow> ensures (pb (d + 1) P') (body_spans src P')"
  shows "ensures (ParseEntry ranges pv pb d allow P) (entry_spans src P)"
proof -
  define P0 where "P0 = P\<lparr>ps_comments := []\<rparr>"
  have f: "FlushComments P = (ps_comments P, P0)" by (simp add: FlushComments_def P0_def)
  have g0: "placed src P0" "ps_current P0 = ps_current P" "here P0 = here P" using g by (simp_all add: P0_def placed_fields)
  define P1 where "P1 = Parser_Advance ranges P0"
  have g1: "placed src P1" using g0 placed_Advance(1) by (simp add: P1_def)
  note strict = placed_fields(1) [OF g0(1)] placed_fields(1) [OF g1]
  show ?thesis
  proof (cases "kind P \<in> set key_kinds")
    case True
    then have h: "here P < here P1" using here_Advance(2) [OF g0(1), of ranges] g0(2,3) by (auto simp: P1_def key_kinds_def)
    have va: "ensures (pbind pv (\<lambda>v P1. case TakeTrailingComment (value_end v) P1 of (comment, P2) \<Rightarrow> pret (Some (mk v comment)) P2) (Parser_Advance ranges P1))
        (entry_spans src P)"
      if "kind P1 \<noteq> kEOF" "\<And>lo hi v c. spans_entry src lo hi (mk v c) \<longleftrightarrow>
        span_in lo hi (cur_pos P) (value_end v) \<and> spans_value src (here P + 1) (pos_offset (value_end v)) v" for mk
      by (rule value_entry_spans) (use pv placed_Advance(1) [OF g1] g1 h that in auto)
    have a: "ensures (parse_assignment ranges pv (cur_pos P) kk key prec leading P1) (entry_spans src P)" if "kind P1 = kEquals" for kk key prec leading
      using strict va [of "\<lambda>v c. Assignment (cur_pos P) (value_end v) key (kk = kString) v leading c"] that
      unfolding parse_assignment_def ensures_bind by (auto simp: here_def simp del: ensures_bind)
    have m: "ensures (parse_map_entry ranges pv allow (cur_pos P) kk key prec leading P1) (entry_spans src P)" if "kind P1 = kColon" for kk key prec leading
      using strict va [of "\<lambda>v c. MapEntry (cur_pos P) (value_end v) key (kk = kString) v leading c"] that
      unfolding parse_map_entry_def ensures_bind by (auto simp: here_def simp del: ensures_bind)
    have b: "ensures (parse_block_entry ranges pb d (cur_pos P) kk key prec leading P1) (entry_spans src P)" if "kind P1 = kLBrace" for kk key prec leading
    proof -
      let ?A = "Parser_Advance ranges P1"
      have A: "here P + 1 \<le> here ?A" using here_Advance(1) [OF g1, of ranges] h by simp
      have "ensures (pb (d + 1) ?A)
          (\<lambda>r P'. entry_spans src P (Some (Block (cur_pos P) (fst (snd r)) key (kk = kString) (fst r) leading (snd (snd r)))) P')"
        using pb [OF placed_Advance(1) [OF g1]]
        by (rule ensures_mono) (use A in \<open>auto simp: body_spans_def entry_spans_def span_in_def here_def intro: spans_entries_mono\<close>)
      with strict show ?thesis unfolding parse_block_entry_def by (auto simp: case_prod_beta)
    qed
    have p: "cur_pos P0 = cur_pos P" using g0(2) by simp
    show ?thesis
      using True strict g0(2) a m b p by (auto simp: ParseEntry_def f Let_def P1_def [symmetric] split: TokenKind.split)
  next
    case False
    then show ?thesis using strict g0(2) by (simp add: ParseEntry_def f Let_def)
  qed
qed

lemma ParseTypeEntry_spans:
  assumes g: "placed src P" "kind P = kAtType"
  shows "ensures (ParseTypeEntry ranges first P) (entry_spans src P)"
proof -
  define P0 where "P0 = P\<lparr>ps_comments := []\<rparr>"
  have f: "FlushComments P = (ps_comments P, P0)" by (simp add: FlushComments_def P0_def)
  have g0: "placed src P0" "here P0 = here P" "kind P0 = kAtType" "cur_pos P0 = cur_pos P" using g by (simp_all add: P0_def placed_fields)
  let ?A = "Parser_Advance ranges P0" let ?B = "Parser_Advance ranges ?A" let ?C = "Parser_Advance ranges ?B"
  note A = placed_Advance(1) [OF g0(1), of ranges] and B = placed_Advance(1) [OF placed_Advance(1) [OF g0(1)], of ranges ranges]
  obtain c P4 where t: "TakeTrailingComment (TokenEnd ?B) ?C = (c, P4)" by fastforce
  have "entry_spans src P (Some (TypeEntry (cur_pos P) (TokenEnd ?B) (cur_value ?B) (ps_comments P) c)) P4"
    using placed_trailing [OF t, of src] placed_Advance [OF B, of ranges] here_Advance(1) [OF A, of ranges] here_Advance(2) [OF g0(1), of ranges]
      placed_token(3) [OF B] g0
    by (auto simp: entry_spans_def span_in_def here_def)
  then show ?thesis
    using placed_fields(1) [OF g0(1)] placed_fields(1) [OF A] placed_fields(1) [OF B] g0(4) by (simp add: ParseTypeEntry_def f Let_def t type_entry_fail_def)
qed

lemma push_entry_spans: "spans_entries src lo mid out \<Longrightarrow> entry_spans src P entry P' \<Longrightarrow> mid \<le> here P \<Longrightarrow> spans_entries src lo (here P') (push_entry out entry)"
  using spans_entries_snoc [of src lo "here P" out "here P'"] spans_entries_mono [of src lo mid out lo "here P"] by (auto simp: entry_spans_def push_entry_def)

lemma body_loop_spans:
  assumes pe: "\<And>P'. placed src P' \<Longrightarrow> ensures (pe P') (entry_spans src P')"
  shows "placed src P \<Longrightarrow> spans_entries src lo (here P) out \<Longrightarrow>
    ensures (body_loop k ranges pe out P) (\<lambda>es P'. placed src P' \<and> spans_entries src lo (here P') es)"
proof (induction k arbitrary: out P)
  case (Suc k)
  have "ensures ((if kind P = kAtType then ParseTypeEntry ranges (out = []) else pe) P) (entry_spans src P)"
    using pe [OF Suc.prems(1)] ParseTypeEntry_spans [OF Suc.prems(1)] by simp
  then have "ensures ((if kind P = kAtType then ParseTypeEntry ranges (out = []) else pe) P)
      (\<lambda>entry P1. ensures (body_loop k ranges pe (push_entry out entry) P1) (\<lambda>es P'. placed src P' \<and> spans_entries src lo (here P') es))"
    by (rule ensures_mono) (use Suc.prems(2) push_entry_spans in \<open>auto simp: entry_spans_def intro!: Suc.IH\<close>)
  with Suc.prems show ?case by simp
qed (simp add: ensures_def)

lemma spans_entries_le: "spans_entries src lo hi xs \<Longrightarrow> lo \<le> hi"
  by (cases xs) (auto dest!: spans_entry_in simp: span_in_def)

lemma body_step_spans:
  assumes g: "placed src P" and pe: "\<And>P'. placed src P' \<Longrightarrow> ensures (pe P') (entry_spans src P')"
  shows "ensures (body_step ranges pe P) (body_spans src P)"
proof -
  have "ensures (body_loop (Suc (ps_left P)) ranges pe [] P) (\<lambda>es P'. placed src P' \<and> spans_entries src (here P) (here P') es)"
    by (rule body_loop_spans [OF pe g]) simp_all
  then show ?thesis
    unfolding body_step_def ensures_bind
  proof (rule ensures_mono, goal_cases)
    case (1 es P1)
    then have p: "placed src (P1\<lparr>ps_comments := []\<rparr>)" "spans_entries src (here P) (here P1) es" by (simp_all add: placed_fields)
    have "body_spans src P (es, TokenEnd (P1\<lparr>ps_comments := []\<rparr>), ps_comments P1) (Parser_Advance ranges (P1\<lparr>ps_comments := []\<rparr>))" if "kind P1 = kRBrace"
      using placed_Advance [OF p(1), of ranges] placed_token(4) [OF p(1), of "CHR ''}''"] spans_entries_le [OF p(2)] p(2) that
      by (simp add: body_spans_def closed_by_def placed_fields)
    then show ?case using placed_fields(1) [OF p(1)] by (simp add: FlushComments_def)
  qed
qed

lemma ParseValue_ParseBody_spans:
  "placed src P \<Longrightarrow> ensures (ParseValue n ranges d P) (value_spans src P) \<and> ensures (ParseBody n ranges d P) (body_spans src P)"
proof (induction n arbitrary: d P)
  case 0
  then show ?case by (simp add: ensures_def)
next
  case (Suc n)
  have v: "ensures (ParseValue n ranges d' P') (value_spans src P')" and b: "ensures (ParseBody n ranges d' P') (body_spans src P')" if "placed src P'" for d' P'
    using Suc.IH [OF that] by blast+
  show ?case
    unfolding ParseValue.simps ParseBody.simps
    by (intro conjI value_step_spans body_step_spans ParseList_spans ParseBlockVal_spans ParseEntry_spans Suc.prems v b)
qed

section \<open>Dataset rows\<close>

text \<open>The cells that are present. A row runs from its \<open>(\<close> to its \<open>)\<close>, and the rows follow each other.\<close>

fun cell_values :: "Value option list \<Rightarrow> Value list" where
  "cell_values [] = []"
| "cell_values (None # cs) = cell_values cs"
| "cell_values (Some v # cs) = v # cell_values cs"

definition spans_row :: "string \<Rightarrow> nat \<Rightarrow> nat \<Rightarrow> DatasetRow \<Rightarrow> bool" where
  "spans_row src lo e row \<longleftrightarrow>
     lo \<le> pos_offset (row_pos row) \<and> src ! pos_offset (row_pos row) = CHR ''('' \<and> src ! (e - 1) = CHR '')'' \<and>
     pos_offset (row_pos row) + 1 < e \<and> spans_values src (pos_offset (row_pos row) + 1) (e - 1) (cell_values (row_cells row))"

fun spans_rows :: "string \<Rightarrow> nat \<Rightarrow> nat \<Rightarrow> DatasetRow list \<Rightarrow> bool" where
  "spans_rows src lo hi [] \<longleftrightarrow> lo \<le> hi"
| "spans_rows src lo hi (r # rs) \<longleftrightarrow> (\<exists>e. spans_row src lo e r \<and> spans_rows src e hi rs)"

definition spans_dataset :: "string \<Rightarrow> DatasetDirective \<Rightarrow> bool" where
  "spans_dataset src d \<longleftrightarrow> spans_rows src (pos_offset (ds_pos d) + 1) (length src) (ds_rows d)"

lemma cell_values_append [simp]: "cell_values (cs @ ds) = cell_values cs @ cell_values ds"
  by (induction cs rule: cell_values.induct) simp_all

lemma spans_rows_mono: "spans_rows src lo hi rs \<Longrightarrow> hi \<le> hi' \<Longrightarrow> spans_rows src lo hi' rs"
  by (induction rs arbitrary: lo) auto

lemma spans_row_mono: "spans_row src lo e r \<Longrightarrow> lo' \<le> lo \<Longrightarrow> spans_row src lo' e r"
  by (simp add: spans_row_def)

lemma spans_rows_snoc: "spans_rows src lo mid rs \<Longrightarrow> spans_row src mid e r \<Longrightarrow> e \<le> hi \<Longrightarrow> spans_rows src lo hi (rs @ [r])"
  by (induction rs arbitrary: lo) (auto intro: spans_row_mono)

lemma placed_prepend [simp]: "placed src (prepend_comments cs P) = placed src P" "here (prepend_comments cs P) = here P"
  by (simp_all add: prepend_comments_def placed_fields)

definition cell_spans :: "string \<Rightarrow> Parser \<Rightarrow> Value option \<Rightarrow> Parser \<Rightarrow> bool" where
  "cell_spans src P cell P' \<longleftrightarrow> placed src P' \<and> here P \<le> here P' \<and> (\<forall>v. cell = Some v \<longrightarrow> spans_value src (here P) (here P') v)"

lemma ParseRowCell_spans:
  assumes "placed src P"
  shows "ensures (ParseRowCell ranges P) (cell_spans src P)"
proof -
  let ?F = "P\<lparr>ps_comments := []\<rparr>"
  have "ensures (parse_value ranges 0 ?F) (value_spans src ?F)"
    unfolding parse_value_def using ParseValue_ParseBody_spans [of src ?F] assms by (simp add: placed_fields)
  then show ?thesis
    using assms
    by (auto simp: ParseRowCell_def Let_def ensures_def pret_def cell_spans_def value_spans_def placed_fields span_in_def
        dest!: spans_value_in split: option.splits sum.splits)
qed

lemma cell_spans_snoc:
  "spans_values src lo (here P) (cell_values cells) \<Longrightarrow> cell_spans src P cell P' \<Longrightarrow> spans_values src lo (here P') (cell_values (cells @ [cell]))"
  by (cases cell) (auto simp: cell_spans_def intro: spans_values_snoc spans_values_mono)

lemma cells_loop_spans:
  "placed src P \<Longrightarrow> spans_values src lo (here P) (cell_values cells) \<Longrightarrow>
    ensures (cells_loop k ranges cells P) (\<lambda>cs P'. placed src P' \<and> spans_values src lo (here P') (cell_values cs))"
proof (induction k arbitrary: cells P)
  case (Suc k)
  let ?A = "Parser_Advance ranges P"
  have A: "placed src ?A" "spans_values src lo (here ?A) (cell_values cells)"
    using placed_Advance(1) here_Advance(1) Suc.prems spans_values_mono by blast+
  have "ensures (ParseRowCell ranges ?A)
      (\<lambda>cell P1. ensures (cells_loop k ranges (cells @ [cell]) P1) (\<lambda>cs P'. placed src P' \<and> spans_values src lo (here P') (cell_values cs)))"
    using ParseRowCell_spans [OF A(1)]
    by (rule ensures_mono) (use cell_spans_snoc [OF A(2)] in \<open>auto simp: cell_spans_def intro!: Suc.IH\<close>)
  with Suc.prems show ?case by simp
qed (simp add: ensures_def)

definition row_spans :: "string \<Rightarrow> Parser \<Rightarrow> DatasetRow \<times> nat \<Rightarrow> Parser \<Rightarrow> bool" where
  "row_spans src P r P' \<longleftrightarrow> placed src P' \<and> (\<exists>e. spans_row src (here P) e (fst r) \<and> e \<le> here P')"

lemma spans_values_le: "spans_values src lo hi vs \<Longrightarrow> lo \<le> hi"
  by (cases vs) (auto dest!: spans_value_in simp: span_in_def)

lemma ParseTableRow_spans:
  assumes g: "placed src P" "kind P = kLParen"
  shows "ensures (ParseTableRow ranges expected True P) (row_spans src P)"
proof -
  let ?F = "P\<lparr>ps_comments := []\<rparr>"
  let ?A = "Parser_Advance ranges ?F"
  have F: "placed src ?F" "here ?F = here P" using g by (simp_all add: placed_fields)
  have A: "placed src ?A" "here P + 1 \<le> here ?A" using placed_Advance(1) [OF F(1)] here_Advance(2) [OF F(1), of ranges] F(2) g(2) by auto
  have o1: "src ! here P = CHR ''(''" using placed_token(4) [OF g(1), of "CHR ''(''"] g(2) by simp
  have row: "row_spans src P (\<lparr>row_pos = cur_pos P, row_cells = cells, row_leading = cs\<rparr>, eo) (Parser_Advance ranges (P3\<lparr>ps_comments := []\<rparr>))"
    if "placed src P3" "spans_values src (here P + 1) (here P3) (cell_values cells)" "kind P3 = kRParen" for cells cs eo P3
  proof -
    have p: "placed src (P3\<lparr>ps_comments := []\<rparr>)" using that(1) by (simp add: placed_fields)
    have c: "src ! here P3 = CHR '')''" "pos_offset (TokenEnd (P3\<lparr>ps_comments := []\<rparr>)) = Suc (here P3)"
      using placed_token(4) [OF p, of "CHR '')''"] that(3) by (simp_all add: placed_fields)
    have "spans_row src (here P) (Suc (here P3)) \<lparr>row_pos = cur_pos P, row_cells = cells, row_leading = cs\<rparr>"
      using that(2) spans_values_le [OF that(2)] o1 c(1) by (simp add: spans_row_def here_def)
    then show ?thesis using placed_Advance [OF p, of ranges] c(2) by (auto simp: row_spans_def)
  qed
  have "ensures (ParseRowCell ranges ?A) (\<lambda>cell P2. ensures (cells_loop (Suc (ps_left P2)) ranges [cell] P2)
      (\<lambda>cs P3. placed src P3 \<and> spans_values src (here P + 1) (here P3) (cell_values cs)))"
    using ParseRowCell_spans [OF A(1)]
  proof (rule ensures_mono)
    fix cell P2 assume c: "cell_spans src ?A cell P2"
    show "ensures (cells_loop (Suc (ps_left P2)) ranges [cell] P2) (\<lambda>cs P3. placed src P3 \<and> spans_values src (here P + 1) (here P3) (cell_values cs))"
      by (rule cells_loop_spans) (use c cell_spans_snoc [of src "here P + 1" ?A "[]" cell P2] A(2) in \<open>auto simp: cell_spans_def\<close>)
  qed
  then show ?thesis
    unfolding ParseTableRow_def FlushComments_def Let_def prod.case ensures_bind
    by (elim ensures_mono) (auto simp: row placed_fields)
qed

lemma rows_loop_spans:
  "placed src P \<Longrightarrow> spans_rows src lo (here P) rows \<Longrightarrow>
    ensures (rows_loop k ranges expected rows eo P) (\<lambda>r P'. placed src P' \<and> spans_rows src lo (here P') (fst r))"
proof (induction k arbitrary: rows eo P)
  case (Suc k)
  show ?case
  proof (cases "kind P = kLParen")
    case True
    have "ensures (ParseTableRow ranges expected True P)
        (\<lambda>x P1. ensures (rows_loop k ranges expected (rows @ [fst x]) (snd x) P1) (\<lambda>r P'. placed src P' \<and> spans_rows src lo (here P') (fst r)))"
      using ParseTableRow_spans [OF Suc.prems(1) True]
      by (rule ensures_mono) (use spans_rows_snoc [OF Suc.prems(2)] in \<open>auto simp: row_spans_def intro!: Suc.IH\<close>)
    with True show ?thesis by (simp add: case_prod_beta)
  qed (use Suc.prems in simp)
qed (simp add: ensures_def)

lemma columns_loop_spans:
  "placed src P \<Longrightarrow> lo \<le> here P \<Longrightarrow> ensures (columns_loop ranges cols P) (\<lambda>cs P'. placed src P' \<and> lo \<le> here P')"
proof (induction ranges cols P rule: columns_loop.induct)
  case (1 ranges cols P)
  let ?A = "Parser_Advance ranges P"
  have A: "placed src ?A" "lo \<le> here ?A" "placed src (Parser_Advance ranges ?A)" "lo \<le> here (Parser_Advance ranges ?A)"
    using 1(2,3) placed_Advance(1) [OF 1(2), of ranges] here_Advance(1) [OF 1(2), of ranges]
      placed_Advance(1) [OF placed_Advance(1) [OF 1(2)], of ranges ranges] here_Advance(1) [OF placed_Advance(1) [OF 1(2)], of ranges ranges] by linarith+
  have "ensures (columns_loop ranges (cols @ [(cur_value P, cur_pos P)]) (Parser_Advance ranges ?A)) (\<lambda>cs P'. placed src P' \<and> lo \<le> here P')"
    if "kind P = kIdent" "kind ?A = kComma"
    by (rule 1(1)) (use that A in simp_all)
  then show ?case using A by (subst columns_loop.simps) (simp add: Let_def)
qed

lemma ParseTableDirective_spans:
  assumes g: "placed src P" "kind P = kAtDataset"
  shows "ensures (ParseTableDirective ranges P) (\<lambda>r P'. placed src P' \<and> spans_dataset src (fst r))"
proof -
  let ?F = "P\<lparr>ps_comments := []\<rparr>"
  let ?A = "Parser_Advance ranges ?F"
  have F: "placed src ?F" "here ?F = here P" using g by (simp_all add: placed_fields)
  have A: "placed src ?A" "here P + 1 \<le> here ?A" using placed_Advance(1) [OF F(1)] here_Advance(2) [OF F(1), of ranges] F(2) g(2) by auto
  obtain ty P2 where t: "(if kind ?A = kIdent then (cur_value ?A, Parser_Advance ranges ?A) else ([], ?A)) = (ty, P2)" by fastforce
  have P2: "placed src P2" "here P + 1 \<le> here P2"
    using A placed_Advance(1) [OF A(1), of ranges] here_Advance(1) [OF A(1), of ranges] t by (auto split: if_splits)
  let ?P3 = "Parser_Advance ranges P2"
  have P3: "placed src ?P3" "here P + 1 \<le> here ?P3"
    using placed_Advance(1) [OF P2(1), of ranges] here_Advance(1) [OF P2(1), of ranges] P2(2) by auto
  have rows: "ensures (table_rows ranges (cur_pos P) ty leading cols P4) (\<lambda>r P'. placed src P' \<and> spans_dataset src (fst r))"
    if "placed src P4" "here P + 1 \<le> here P4" for cols P4 leading
  proof -
    let ?P5 = "Parser_Advance ranges P4"
    have P5: "placed src ?P5" "here P + 1 \<le> here ?P5"
      using placed_Advance(1) [OF that(1), of ranges] here_Advance(1) [OF that(1), of ranges] that(2) by auto
    have "ensures (rows_loop (Suc (ps_left ?P5)) ranges n [] eo ?P5) (\<lambda>r P'. placed src P' \<and> spans_rows src (here P + 1) (length src) (fst r))" for n eo
      by (rule ensures_mono [OF rows_loop_spans [OF P5(1), of "here P + 1"]])
        (use P5(2) spans_rows_mono [OF _ order_trans [OF placed_token(3,2)]] in auto)
    then show ?thesis
      unfolding table_rows_def Let_def by (auto simp: case_prod_beta spans_dataset_def here_def split: option.splits simp del: rows_loop.simps)
  qed
  have "ensures (columns_loop ranges [] ?P3) (\<lambda>cols P4. ensures (table_rows ranges (cur_pos P) ty leading cols P4) (\<lambda>r P'. placed src P' \<and> spans_dataset src (fst r)))" for leading
    using columns_loop_spans [OF P3] by (rule ensures_mono) (simp add: rows)
  then show ?thesis by (simp add: ParseTableDirective_def FlushComments_def t Let_def)
qed

section \<open>Documents\<close>

lemma entries_loop_spans:
  "placed src P \<Longrightarrow> spans_entries src lo (here P) out \<Longrightarrow>
    ensures (entries_loop k ranges out P) (\<lambda>es P'. placed src P' \<and> spans_entries src lo (here P') es)"
proof (induction k arbitrary: out P)
  case (Suc k)
  let ?pe = "ParseEntry ranges (parse_value ranges 0) (parse_body ranges) 0 False"
  have "ensures (?pe P) (entry_spans src P)"
    by (rule ParseEntry_spans [OF Suc.prems(1)]) (simp_all add: parse_value_def parse_body_def ParseValue_ParseBody_spans)
  then have "ensures (?pe P)
      (\<lambda>entry P1. ensures (entries_loop k ranges (push_entry out entry) P1) (\<lambda>es P'. placed src P' \<and> spans_entries src lo (here P') es))"
    by (rule ensures_mono) (use Suc.prems(2) push_entry_spans in \<open>auto simp: entry_spans_def intro!: Suc.IH\<close>)
  with Suc.prems show ?case by simp
qed (simp add: ensures_def)

lemma placed_after: "placed src P \<Longrightarrow> after P P' \<Longrightarrow> placed src P'"
  by (auto simp: placed_def after_def lex_kept_def)

lemma ensures_wp: "wp r Q E \<Longrightarrow> (\<And>x P'. Q x P' \<Longrightarrow> Q' x P') \<Longrightarrow> ensures r Q'"
  by (auto simp: wp_def ensures_def)

lemma recover_spans: "\<not> ps_tolerant P \<Longrightarrow> ensures (recover ranges doc parse add P) Q \<longleftrightarrow> ensures (parse P) (\<lambda>x. Q (add x))"
  by (auto simp: ensures_def recover_def split: option.splits sum.splits if_splits)

lemma ensures_conj: "ensures r Q \<Longrightarrow> ensures r Q' \<Longrightarrow> ensures r (\<lambda>x P. Q x P \<and> Q' x P)"
  by (simp add: ensures_def)

lemma directives_loop_spans:
  "placed src P \<Longrightarrow> list_all (spans_dataset src) (doc_datasets doc) \<Longrightarrow>
    ensures (directives_loop k ranges doc P) (\<lambda>d P'. placed src P' \<and> list_all (spans_dataset src) (doc_datasets d))"
proof (induction k arbitrary: doc P)
  case (Suc k)
  let ?Q = "\<lambda>d P'. placed src P' \<and> list_all (spans_dataset src) (doc_datasets d)"
  have round: "ensures r (\<lambda>d P1. ensures (directives_loop k ranges d P1) ?Q)" if "ensures r ?Q" for r
    using that by (rule ensures_mono) (auto intro: Suc.IH)
  have start: "cur_ok P" "pos_offset (lx_start (ps_lex P)) = 0" "\<not> ps_tolerant P" using Suc.prems(1) by (simp_all add: placed_def)
  have went: "placed src P'" if "past P P'" for P' using placed_after [OF Suc.prems(1)] that by (simp add: past_def)
  show ?case
  proof (cases "kind P")
    case kAtType
    note A = placed_Advance(1) [OF Suc.prems(1), of ranges]
    have "ensures (ParseTypeDirective ranges doc P) ?Q"
      using Suc.prems(2) placed_fields(1) [OF A] placed_Advance(1) [OF A, of ranges] by (simp add: ParseTypeDirective_def Let_def)
    with kAtType show ?thesis by (simp add: round)
  next
    case kAtDirective
    have "ensures (ParseDirective ranges P) (\<lambda>x P'. placed src P')"
      by (rule ensures_wp [OF ParseDirective_wp [OF kAtDirective]]) (rule went)
    with kAtDirective Suc.prems(2) start(3) show ?thesis
      by (simp del: directives_loop.simps add: directives_loop.simps(2) round recover_spans case_prod_beta)
  next
    case kAtDataset
    have "ensures (ParseTableDirective ranges P) (\<lambda>r P'. placed src P' \<and> spans_dataset src (fst r))"
      by (rule ParseTableDirective_spans [OF Suc.prems(1) kAtDataset])
    with kAtDataset Suc.prems(2) start(3) show ?thesis
      by (simp del: directives_loop.simps add: directives_loop.simps(2) round recover_spans case_prod_beta)
  next
    case kAtProto
    have "ensures (ParseProtoDirective ranges P) (\<lambda>x P'. placed src P')"
      by (rule ensures_wp [OF ParseProtoDirective_wp [OF kAtProto start(2)]]) (rule went)
    with kAtProto Suc.prems(2) start(3) show ?thesis
      by (simp del: directives_loop.simps add: directives_loop.simps(2) round recover_spans case_prod_beta)
  qed (use Suc.prems in simp_all)
qed (simp add: ensures_def)

definition document_spans :: "string \<Rightarrow> Document \<Rightarrow> bool" where
  "document_spans src doc \<longleftrightarrow> spans_entries src 0 (length src) (doc_entries doc) \<and> list_all (spans_dataset src) (doc_datasets doc)"

lemma entries_loop_all:
  assumes "placed src P"
  shows "ensures (entries_loop k ranges [] P) (\<lambda>es P'. spans_entries src 0 (length src) es)"
proof -
  have "ensures (entries_loop k ranges [] P) (\<lambda>es P'. placed src P' \<and> spans_entries src 0 (here P') es)"
    by (rule entries_loop_spans [OF assms]) simp
  then show ?thesis by (rule ensures_mono) (use spans_entries_mono [OF _ order.refl order_trans [OF placed_token(3,2)]] in blast)
qed

lemma ParseDocument_spans:
  assumes g: "placed src P"
  shows "ensures (ParseDocument ranges P) (\<lambda>doc P'. document_spans src doc)"
proof -
  let ?F = "P\<lparr>ps_comments := []\<rparr>" and ?d = "empty_document\<lparr>doc_leading := ps_comments P\<rparr>"
  have F: "placed src ?F" using g by (simp add: placed_fields)
  have "ensures (directives_loop (Suc (ps_left ?F)) ranges ?d ?F) (\<lambda>doc P1. placed src P1 \<and> list_all (spans_dataset src) (doc_datasets doc))"
    by (rule directives_loop_spans [OF F]) (simp add: empty_document_def)
  then have "ensures (directives_loop (Suc (ps_left ?F)) ranges ?d ?F) (\<lambda>doc P1. ensures (check_standalone doc P1)
      (\<lambda>_ P2. ensures (entries_loop (Suc (ps_left P2)) ranges [] P2)
        (\<lambda>es P3. case FlushComments P3 of (trailing, P4) \<Rightarrow> document_spans src (doc\<lparr>doc_entries := es, doc_trailing := trailing\<rparr>))))"
  proof (rule ensures_mono)
    fix doc :: Document and P1 assume p: "placed src P1 \<and> list_all (spans_dataset src) (doc_datasets doc)"
    then have "ensures (entries_loop (Suc (ps_left P1)) ranges [] P1)
        (\<lambda>es P3. document_spans src (doc\<lparr>doc_entries := es, doc_trailing := ps_comments P3\<rparr>))"
      using entries_loop_all [of src P1 "Suc (ps_left P1)" ranges] by (auto simp: document_spans_def ensures_def simp del: entries_loop.simps)
    then show "ensures (check_standalone doc P1) (\<lambda>_ P2. ensures (entries_loop (Suc (ps_left P2)) ranges [] P2)
        (\<lambda>es P3. case FlushComments P3 of (trailing, P4) \<Rightarrow> document_spans src (doc\<lparr>doc_entries := es, doc_trailing := trailing\<rparr>)))"
      using p placed_fields(1) [of src P1] by (auto simp: check_standalone_def FlushComments_def simp del: entries_loop.simps)
  qed
  then show ?thesis
    by (simp add: ParseDocument_def FlushComments_def case_prod_beta del: entries_loop.simps directives_loop.simps)
qed

lemma placed_start: "placed input (strict_parser ranges input opts)"
proof -
  let ?L = "SetMaxBytesLiteral (limit_or (po_max_bytes_literal_length opts) kMaxBytesLiteralLength) (new_lexer input)"
  let ?P = "\<lparr>ps_lex = ?L, ps_current = mk_token kEOF [] start_position, ps_comments = [],
    ps_max_depth = limit_or (po_max_nesting_depth opts) (int kMaxNestingDepth), ps_for_decoder = False, ps_tolerant = False, ps_prev_end = start_position\<rparr>"
  have "lex_kept ?L (ps_lex (Parser_Advance ranges ?P))" using Parser_Advance_kept [of ?P ranges] by simp
  then show ?thesis
    by (simp add: placed_def strict_parser_def new_parser_def lex_kept_def SetMaxBytesLiteral_def new_lexer_def new_lexer_at_def start_position_def)
qed

lemma Parse_document_spans: "Parse ranges input opts = Some (Inr doc) \<Longrightarrow> document_spans input doc"
  using ParseDocument_spans [OF placed_start [of input ranges opts], of ranges] by (auto simp: Parse_def Let_def ensures_def split: if_splits)

lemma Parse_spans: "Parse ranges input opts = Some (Inr doc) \<Longrightarrow> spans_entries input 0 (length input) (doc_entries doc)"
  using Parse_document_spans [of ranges input opts doc] by (simp add: document_spans_def)

section \<open>Properties\<close>

text \<open>C11. The spans of a strict parse are those of the text. Every entry and value of a document that \<open>Parse\<close> returns, the cells of dataset
  rows included, covers a part of the input that is not empty; the children of a list or block lie strictly between its ends, one after
  the other in the order of the text; an entry ends where its value ends; a list ends at a \<open>]\<close>, a block at a \<open>}\<close>; and the rows of a
  dataset follow each other after its start, each from a \<open>(\<close> to a \<open>)\<close> with its cells in order between them.\<close>

theorem parse_spans:
  assumes "Parse ranges input opts = Some (Inr doc)"
  shows "spans_entries input 0 (length input) (doc_entries doc) \<and> list_all (spans_dataset input) (doc_datasets doc)"
  using Parse_document_spans [OF assms] by (simp add: document_spans_def)

theorem parse_spans_witness:
  "\<exists>doc. Parse [(32, 126)] ''@dataset p.M (a, b) (1, [2]) (, 3)'' \<lparr>po_max_message_size = 0, po_max_nesting_depth = 0, po_max_bytes_literal_length = 0\<rparr> = Some (Inr doc) \<and>
     length (concat (map ds_rows (doc_datasets doc))) = 2 \<and>
     list_all (spans_dataset ''@dataset p.M (a, b) (1, [2]) (, 3)'') (doc_datasets doc)"
proof -
  let ?o = "\<lparr>po_max_message_size = 0, po_max_nesting_depth = 0, po_max_bytes_literal_length = 0\<rparr>" and ?t = "''@dataset p.M (a, b) (1, [2]) (, 3)''"
  have "(case Parse [(32, 126)] ?t ?o of Some (Inr doc) \<Rightarrow> length (concat (map ds_rows (doc_datasets doc))) = 2 | _ \<Rightarrow> False)"
    by code_simp
  then obtain doc where d: "Parse [(32, 126)] ?t ?o = Some (Inr doc)" "length (concat (map ds_rows (doc_datasets doc))) = 2"
    by (cases "Parse [(32, 126)] ?t ?o") (simp_all split: sum.splits)
  from parse_spans [OF d(1)] d show ?thesis by blast
qed

end
