(* ===== verification/PxfRewriter.thy ===== *)
theory PxfRewriter
  imports PxfFormat
begin

text \<open>
  Edits of a document that keep the rest of its text: \<open>src/pxf/rewriter.cc\<close>, with \<open>ExplicitKeyOf\<close> of \<open>src/pxf/keyed.cc\<close>. A rewriter
  is the source, the tree of its strict parse and the edits staged so far; every operation returns an error, which
  leaves it as it was, or the rewriter with one more edit. Offsets are natural numbers, the source's \<open>-1\<close> is \<open>None\<close>; the end of a
  scope, which the source takes one below a node's end before it checks it, is an integer. A null value or entry that a caller may
  pass is \<open>None\<close>.
\<close>

section \<open>Trees\<close>

fun CloneValue :: "Value \<Rightarrow> Value"
and CloneEntry :: "Entry \<Rightarrow> Entry" where
  "CloneValue (ListVal p e els) = ListVal p e (map CloneValue els)"
| "CloneValue (BlockVal p e es trailing) = BlockVal p e (map CloneEntry es) trailing"
| "CloneValue v = v"
| "CloneEntry (Assignment p e key q v leading trailing) = Assignment p e key q (CloneValue v) leading trailing"
| "CloneEntry (MapEntry p e key q v leading trailing) = MapEntry p e key q (CloneValue v) leading trailing"
| "CloneEntry (Block p e name q es leading trailing) = Block p e name q (map CloneEntry es) leading trailing"
| "CloneEntry x = x"

definition SpanPath :: "int \<Rightarrow> int \<Rightarrow> string" where
  "SpanPath s e = [CHR 0x00] @ ''span:'' @ to_string_int s @ '':'' @ to_string_int e"

fun EntryKey :: "Entry \<Rightarrow> string" where
  "EntryKey (Assignment p e key q v leading trailing) = key"
| "EntryKey (MapEntry p e key q v leading trailing) = key"
| "EntryKey (Block p e name q es leading trailing) = name"
| "EntryKey (TypeEntry p e url leading trailing) = []"

fun EntryValue :: "Entry \<Rightarrow> Value option" where
  "EntryValue (Assignment p e key q v leading trailing) = Some v"
| "EntryValue (MapEntry p e key q v leading trailing) = Some v"
| "EntryValue _ = None"

definition FindEntry :: "Entry list \<Rightarrow> string \<Rightarrow> Entry option" where
  "FindEntry entries key = find (\<lambda>e. EntryKey e = key) entries"

fun ContainsBadVal :: "Value \<Rightarrow> bool"
and EntryContainsBadVal :: "Entry \<Rightarrow> bool" where
  "ContainsBadVal (BadVal p e) = True"
| "ContainsBadVal (ListVal p e els) = list_ex ContainsBadVal els"
| "ContainsBadVal (BlockVal p e es trailing) = list_ex EntryContainsBadVal es"
| "ContainsBadVal _ = False"
| "EntryContainsBadVal (Assignment p e key q v leading trailing) = ContainsBadVal v"
| "EntryContainsBadVal (MapEntry p e key q v leading trailing) = ContainsBadVal v"
| "EntryContainsBadVal (Block p e name q es leading trailing) = list_ex EntryContainsBadVal es"
| "EntryContainsBadVal (TypeEntry p e url leading trailing) = False"

section \<open>Rendering\<close>

definition IndentAt :: "string \<Rightarrow> string \<Rightarrow> nat \<Rightarrow> string" where
  "IndentAt base step depth = base @ concat (replicate depth step)"

definition ReplaceNewlines :: "string \<Rightarrow> string \<Rightarrow> string" where
  "ReplaceNewlines s line_prefix = concat (map (\<lambda>c. if c = CHR 0x0A then c # line_prefix else [c]) s)"

definition RenderEntryLines :: "ranges \<Rightarrow> Entry \<Rightarrow> string \<Rightarrow> string \<Rightarrow> string" where
  "RenderEntryLines ranges e base_indent step =
     (let text = AppendEntryIndented ranges [] e step;
          line = (if text \<noteq> [] \<and> last text = CHR 0x0A then butlast text else text)
      in if base_indent \<noteq> [] then base_indent @ ReplaceNewlines line base_indent else line)"

fun WriteEntryInline :: "ranges \<Rightarrow> Entry \<Rightarrow> string"
and inline_entries :: "ranges \<Rightarrow> Entry list \<Rightarrow> string" where
  "WriteEntryInline ranges (Assignment p e key q v leading trailing) = write_key ranges q key @ '' = '' @ FormatValue ranges v"
| "WriteEntryInline ranges (MapEntry p e key q v leading trailing) =
     write_key ranges (MapKeyQuoted ranges key q) key @ '': '' @ FormatValue ranges v"
| "WriteEntryInline ranges (TypeEntry p e url leading trailing) = ''@type = '' @ GoQuote ranges url"
| "WriteEntryInline ranges (Block p e name q es leading trailing) =
     write_key ranges q name @ '' {'' @ inline_entries ranges es @ '' }''"
| "inline_entries ranges [] = []"
| "inline_entries ranges (x # xs) = '' '' @ WriteEntryInline ranges x @ inline_entries ranges xs"

definition HasMapEntry :: "Entry list \<Rightarrow> bool" where
  "HasMapEntry entries = list_ex is_MapEntry entries"

section \<open>Source text\<close>

fun LineStartOffset :: "string \<Rightarrow> nat \<Rightarrow> nat" where
  "LineStartOffset src 0 = 0"
| "LineStartOffset src (Suc i) = (if src ! i \<noteq> CHR 0x0A then LineStartOffset src i else Suc i)"

definition is_pad :: "char \<Rightarrow> bool" where
  "is_pad c \<longleftrightarrow> c = CHR '' '' \<or> c = CHR 0x09"

definition IsBlankText :: "string \<Rightarrow> bool" where
  "IsBlankText b = list_all is_pad b"

definition NeedsQuoting :: "string \<Rightarrow> bool" where
  "NeedsQuoting s \<longleftrightarrow> \<not> IsIdentifierSafe s"

definition HasNewline :: "string \<Rightarrow> bool" where
  "HasNewline s \<longleftrightarrow> CHR 0x0A \<in> set s"

fun SplitDots :: "string \<Rightarrow> string list" where
  "SplitDots [] = [[]]"
| "SplitDots (c # cs) =
     (if c = CHR ''.'' then [] # SplitDots cs
      else case SplitDots cs of [] \<Rightarrow> [[c]] | seg # segs \<Rightarrow> (c # seg) # segs)"

definition SplitPathSegs :: "string \<Rightarrow> string list option" where
  "SplitPathSegs path =
     (if path = [] then None
      else let segs = SplitDots path in if list_ex (\<lambda>s. s = []) segs then None else Some segs)"

definition NewKeyedElementBlock :: "string \<Rightarrow> Entry list \<Rightarrow> Entry" where
  "NewKeyedElementBlock key body = Block start_position start_position key (\<not> IsIdentifierSafeEntryName key) body [] []"

definition NewAnonElement :: "string \<Rightarrow> string \<Rightarrow> Entry list \<Rightarrow> Value" where
  "NewAnonElement key_field key body =
     BlockVal start_position start_position
       (Assignment start_position start_position key_field False (StringVal start_position start_position key) [] [] # body) []"

fun entry_chain :: "string list \<Rightarrow> Value \<Rightarrow> Entry" where
  "entry_chain (seg # segs) v =
     (if segs = [] then Assignment start_position start_position seg False (CloneValue v) [] []
      else Block start_position start_position seg False [entry_chain segs v] [] [])"
| "entry_chain [] v = Assignment start_position start_position [] False (CloneValue v) [] []"

definition BuildEntryChain :: "ranges \<Rightarrow> string \<Rightarrow> string \<Rightarrow> Value \<Rightarrow> string + Entry list" where
  "BuildEntryChain ranges operation subpath v =
     (case SplitPathSegs subpath of
        None \<Rightarrow> Inl (''pxf: '' @ operation @ '': invalid subpath '' @ GoQuote ranges subpath @ '': empty segment'')
      | Some segs \<Rightarrow>
          (case find NeedsQuoting segs of
             Some seg \<Rightarrow> Inl (''pxf: '' @ operation @ '': segment '' @ GoQuote ranges seg @ '' is not a valid field name'')
           | None \<Rightarrow> Inr [entry_chain segs v]))"

fun is_key_assignment :: "string \<Rightarrow> Entry \<Rightarrow> bool" where
  "is_key_assignment key_field (Assignment p e key q v leading trailing) \<longleftrightarrow> \<not> q \<and> key = key_field \<and> is_StringVal v"
| "is_key_assignment key_field _ \<longleftrightarrow> False"

definition AnonKeyAssignment :: "Entry list \<Rightarrow> string \<Rightarrow> Entry option" where
  "AnonKeyAssignment entries key_field = find (is_key_assignment key_field) entries"

definition IsIdentPartByte :: "char \<Rightarrow> bool" where
  "IsIdentPartByte c \<longleftrightarrow>
     ord (CHR ''a'') \<le> ord c \<and> ord c \<le> ord (CHR ''z'') \<or> ord (CHR ''A'') \<le> ord c \<and> ord c \<le> ord (CHR ''Z'') \<or> c = CHR ''_'' \<or>
     ord (CHR ''0'') \<le> ord c \<and> ord c \<le> ord (CHR ''9'') \<or> c = CHR ''.''"

text \<open>The offset past the string literal at \<open>i\<close>. The two loops run over the text from their offset on.\<close>

fun triple_end :: "string \<Rightarrow> nat \<Rightarrow> nat option" where
  "triple_end (a # b # c # s) j =
     (if a = CHR 0x22 \<and> b = CHR 0x22 \<and> c = CHR 0x22 then Some (j + 3) else triple_end (b # c # s) (j + 1))"
| "triple_end _ j = None"

fun quoted_end :: "string \<Rightarrow> nat \<Rightarrow> nat option" where
  "quoted_end [] j = None"
| "quoted_end (c # s) j =
     (if c = CHR 0x5C then (case s of [] \<Rightarrow> None | d # s' \<Rightarrow> quoted_end s' (j + 2))
      else if c = CHR 0x22 then Some (j + 1)
      else if c = CHR 0x0A then None
      else quoted_end s (j + 1))"

definition SkipDirString :: "string \<Rightarrow> nat \<Rightarrow> nat option" where
  "SkipDirString input i =
     (if i + 2 < length input \<and> input ! (i + 1) = CHR 0x22 \<and> input ! (i + 2) = CHR 0x22 then triple_end (drop (i + 3) input) (i + 3)
      else quoted_end (drop (i + 1) input) (i + 1))"

definition NameTokenEnd :: "string \<Rightarrow> nat \<Rightarrow> nat option" where
  "NameTokenEnd src s =
     (if length src \<le> s then None
      else if src ! s = CHR 0x22 then SkipDirString src s
      else let n = length (takeWhile IsIdentPartByte (drop s src)) in if n = 0 then None else Some (s + n))"

fun JoinPathSegs :: "string list \<Rightarrow> string" where
  "JoinPathSegs [] = []"
| "JoinPathSegs (s # ss) = s @ (if ss = [] then [] else CHR ''.'' # JoinPathSegs ss)"

definition kWide :: "string list" where
  "kWide =
     [[CHR 0xC2, CHR 0x85], [CHR 0xC2, CHR 0xA0], [CHR 0xE1, CHR 0x9A, CHR 0x80], [CHR 0xE2, CHR 0x80, CHR 0x80], [CHR 0xE2, CHR 0x80, CHR 0x81],
      [CHR 0xE2, CHR 0x80, CHR 0x82], [CHR 0xE2, CHR 0x80, CHR 0x83], [CHR 0xE2, CHR 0x80, CHR 0x84], [CHR 0xE2, CHR 0x80, CHR 0x85],
      [CHR 0xE2, CHR 0x80, CHR 0x86], [CHR 0xE2, CHR 0x80, CHR 0x87], [CHR 0xE2, CHR 0x80, CHR 0x88], [CHR 0xE2, CHR 0x80, CHR 0x89],
      [CHR 0xE2, CHR 0x80, CHR 0x8A], [CHR 0xE2, CHR 0x80, CHR 0xA8], [CHR 0xE2, CHR 0x80, CHR 0xA9], [CHR 0xE2, CHR 0x80, CHR 0xAF],
      [CHR 0xE2, CHR 0x81, CHR 0x9F], [CHR 0xE3, CHR 0x80, CHR 0x80]]"

definition SpaceRuneLen :: "string \<Rightarrow> nat" where
  "SpaceRuneLen s =
     (if s = [] then 0
      else if hd s \<in> set [CHR '' '', CHR 0x09, CHR 0x0A, CHR 0x0B, CHR 0x0C, CHR 0x0D] then 1
      else case find (\<lambda>w. take (length w) s = w) kWide of Some w \<Rightarrow> length w | None \<Rightarrow> 0)"

fun ExplicitKeyOf_loop :: "string \<Rightarrow> string option \<Rightarrow> Entry list \<Rightarrow> string option" where
  "ExplicitKeyOf_loop key_name found [] = found"
| "ExplicitKeyOf_loop key_name found (Assignment p e key q v leading trailing # es) =
     (if key \<noteq> key_name then ExplicitKeyOf_loop key_name found es
      else case v of
          StringVal _ _ s \<Rightarrow> if q \<or> found \<noteq> None then None else ExplicitKeyOf_loop key_name (Some s) es
        | _ \<Rightarrow> None)"
| "ExplicitKeyOf_loop key_name found (e # es) = ExplicitKeyOf_loop key_name found es"

definition ExplicitKeyOf :: "Entry list \<Rightarrow> string \<Rightarrow> string option" where
  "ExplicitKeyOf entries key_name = ExplicitKeyOf_loop key_name None entries"

section \<open>The state\<close>

record SpanEdit =
  ed_path :: string
  ed_start :: nat
  ed_end :: nat
  ed_text :: string

record Rewriter =
  rw_src :: string
  rw_doc :: Document
  rw_edits :: "SpanEdit list"
  rw_insert_seq :: nat
  rw_key_fields :: "string \<rightharpoonup> string"

record Container =
  ct_pos :: nat
  ct_close_off :: int

record Target =
  tg_entry :: "Entry option"
  tg_container :: "Container option"
  tg_container_entries :: "Entry list"
  tg_missing :: "string list"

text \<open>A binding knows its place among the bindings of its field, which stands for the identity of its list.\<close>

record KeyedBinding =
  kb_id :: nat
  kb_anon :: bool
  kb_scope_start :: nat
  kb_close_off :: int
  kb_entries :: "Entry list"
  kb_list_pos :: nat
  kb_list_end :: nat
  kb_elements :: "Value list"
  kb_key_field :: string

record KeyedElem =
  ke_b :: KeyedBinding
  ke_key :: string
  ke_node :: "Entry option"
  ke_idx :: nat
  ke_bv :: "Value option"
  ke_body :: "Entry list"

record Insertion =
  ins_at :: nat
  ins_text :: string
  ins_comma_at :: "nat option"

record RemovalSpan =
  rs_start :: nat
  rs_end :: nat
  rs_whole_lines :: bool

definition off_start :: "Value \<Rightarrow> nat" where
  "off_start v = pos_offset (ValuePos v)"

definition off_end :: "Value \<Rightarrow> nat" where
  "off_end v = pos_offset (value_end v)"

text \<open>Where the closing bracket of a node stands that ends at \<open>e\<close>.\<close>

definition close_of :: "Position \<Rightarrow> int" where
  "close_of e = int (pos_offset e) - 1"

definition ContainerOf :: "KeyedElem \<Rightarrow> Container" where
  "ContainerOf e =
     (case ke_node e of
        Some (Block p ep name q es leading trailing) \<Rightarrow> \<lparr>ct_pos = pos_offset p, ct_close_off = close_of ep\<rparr>
      | Some node \<Rightarrow> \<lparr>ct_pos = pos_offset (EntryPos node), ct_close_off = (case ke_bv e of Some bv \<Rightarrow> close_of (value_end bv) | None \<Rightarrow> - 1)\<rparr>
      | None \<Rightarrow>
          (case ke_bv e of
             Some bv \<Rightarrow> \<lparr>ct_pos = off_start bv, ct_close_off = close_of (value_end bv)\<rparr>
           | None \<Rightarrow> \<lparr>ct_pos = 0, ct_close_off = - 1\<rparr>))"

fun block_entries :: "Value \<Rightarrow> Entry list option" where
  "block_entries (BlockVal p e es trailing) = Some es"
| "block_entries _ = None"

text \<open>\<open>Each\<close> as the list of the elements it visits.\<close>

fun anon_elems :: "KeyedBinding \<Rightarrow> nat \<Rightarrow> Value list \<Rightarrow> KeyedElem list" where
  "anon_elems b i [] = []"
| "anon_elems b i (v # vs) =
     (case block_entries v of
        None \<Rightarrow> anon_elems b (i + 1) vs
      | Some es \<Rightarrow>
          (case ExplicitKeyOf es (kb_key_field b) of
             None \<Rightarrow> anon_elems b (i + 1) vs
           | Some key \<Rightarrow>
               if key = [] then anon_elems b (i + 1) vs
               else \<lparr>ke_b = b, ke_key = key, ke_node = None, ke_idx = i, ke_bv = Some v, ke_body = es\<rparr> # anon_elems b (i + 1) vs))"

fun block_elem :: "KeyedBinding \<Rightarrow> Entry \<Rightarrow> KeyedElem list" where
  "block_elem b (Block p e name q es leading trailing) =
     [\<lparr>ke_b = b, ke_key = name, ke_node = Some (Block p e name q es leading trailing), ke_idx = 0, ke_bv = None, ke_body = es\<rparr>]"
| "block_elem b (Assignment p e key q v leading trailing) =
     (case block_entries v of
        None \<Rightarrow> []
      | Some es \<Rightarrow>
          [\<lparr>ke_b = b, ke_key = key, ke_node = Some (Assignment p e key q v leading trailing), ke_idx = 0, ke_bv = Some v, ke_body = es\<rparr>])"
| "block_elem b _ = []"

definition Each :: "KeyedBinding \<Rightarrow> KeyedElem list" where
  "Each b = (if kb_anon b then anon_elems b 0 (kb_elements b) else concat (map (block_elem b) (kb_entries b)))"

definition FindKeyedElem :: "KeyedBinding list \<Rightarrow> string \<Rightarrow> KeyedElem option" where
  "FindKeyedElem bs key = find (\<lambda>e. ke_key e = key) (concat (map Each bs))"

definition ContainerFor :: "Entry \<Rightarrow> Container" where
  "ContainerFor e =
     (case e of
        Block p ep name q es leading trailing \<Rightarrow> \<lparr>ct_pos = pos_offset p, ct_close_off = close_of ep\<rparr>
      | _ \<Rightarrow> \<lparr>ct_pos = pos_offset (EntryPos e), ct_close_off = (case EntryValue e of Some v \<Rightarrow> close_of (value_end v) | None \<Rightarrow> - 1)\<rparr>)"

section \<open>Edits\<close>

definition default_options :: ParseOptions where
  "default_options = \<lparr>po_max_message_size = 0, po_max_nesting_depth = 0, po_max_bytes_literal_length = 0\<rparr>"

definition Rewriter_New :: "ranges \<Rightarrow> string \<Rightarrow> (Error + Rewriter) option" where
  "Rewriter_New ranges src =
     map_option
       (map_sum id (\<lambda>doc. \<lparr>rw_src = src, rw_doc = doc, rw_edits = [], rw_insert_seq = 0, rw_key_fields = Map.empty\<rparr>))
       (Parse ranges src default_options)"

text \<open>\<open>substr\<close> with a count computed as \<open>end - start\<close>, which wraps to a count beyond the text when it is negative.\<close>

definition Slice :: "string \<Rightarrow> nat \<Rightarrow> nat \<Rightarrow> string" where
  "Slice src s e = (if e < s then drop s src else take (e - s) (drop s src))"

definition char_at :: "string \<Rightarrow> nat \<Rightarrow> char \<Rightarrow> bool" where
  "char_at src i c \<longleftrightarrow> i < length src \<and> src ! i = c"

fun Stage_in :: "SpanEdit \<Rightarrow> SpanEdit list \<Rightarrow> SpanEdit list" where
  "Stage_in e [] = [e]"
| "Stage_in e (x # xs) = (if ed_path x = ed_path e then e # xs else x # Stage_in e xs)"

definition Stage :: "string \<Rightarrow> nat \<Rightarrow> nat \<Rightarrow> string \<Rightarrow> Rewriter \<Rightarrow> Rewriter" where
  "Stage path s e text R = R\<lparr>rw_edits := Stage_in \<lparr>ed_path = path, ed_start = s, ed_end = e, ed_text = text\<rparr> (rw_edits R)\<rparr>"

definition StageInsertEdit :: "nat \<Rightarrow> string \<Rightarrow> Rewriter \<Rightarrow> Rewriter" where
  "StageInsertEdit off text R =
     (let seq = rw_insert_seq R + 1
      in Stage ([CHR 0x00] @ ''insert#'' @ to_string seq) off off text (R\<lparr>rw_insert_seq := seq\<rparr>))"

fun conflict :: "SpanEdit list \<Rightarrow> (SpanEdit \<times> SpanEdit) option" where
  "conflict (a # b # es) = (if ed_start b < ed_end a then Some (a, b) else conflict (b # es))"
| "conflict _ = None"

fun splice_edits :: "string \<Rightarrow> nat \<Rightarrow> SpanEdit list \<Rightarrow> string" where
  "splice_edits src lst [] = drop lst src"
| "splice_edits src lst (e # es) = Slice src lst (ed_start e) @ ed_text e @ splice_edits src (ed_end e) es"

definition Status_ToString :: "Error \<Rightarrow> string" where
  "Status_ToString e = to_string (pos_line (err_pos e)) @ '':'' @ to_string (pos_column (err_pos e)) @ '': '' @ err_msg e"

definition Bytes :: "ranges \<Rightarrow> Rewriter \<Rightarrow> (string + string) option" where
  "Bytes ranges R =
     (if rw_edits R = [] then Some (Inr (rw_src R))
      else
        let edits = sort_key ed_start (rw_edits R)
        in case conflict edits of
            Some (a, b) \<Rightarrow> Some (Inl (''pxf: conflicting edits: '' @ ed_path a @ '' overlaps '' @ ed_path b))
          | None \<Rightarrow>
              let out = splice_edits (rw_src R) 0 edits
              in (case Parse ranges out default_options of
                   None \<Rightarrow> None
                 | Some (Inl e) \<Rightarrow> Some (Inl (''pxf: rewrite produced an invalid document: '' @ Status_ToString e))
                 | Some (Inr doc) \<Rightarrow> Some (Inr out)))"

section \<open>Indentation\<close>

definition LineIndentAt :: "string \<Rightarrow> nat \<Rightarrow> string" where
  "LineIndentAt src off =
     (let line = Slice src (LineStartOffset src off) off in if IsBlankText line then line else [])"

definition LineLeadingIndent :: "string \<Rightarrow> nat \<Rightarrow> string" where
  "LineLeadingIndent src off = takeWhile is_pad (Slice src (LineStartOffset src off) off)"

fun entry_kids :: "Entry \<Rightarrow> Entry list" where
  "entry_kids (Block p e name q es leading trailing) = es"
| "entry_kids (Assignment p e key q (BlockVal vp ve es ts) leading trailing) = es"
| "entry_kids (MapEntry p e key q (BlockVal vp ve es ts) leading trailing) = es"
| "entry_kids _ = []"

lemma entry_kids_size: "entry_kids e = x # xs \<Longrightarrow> size x + size_list size xs < size e"
  by (cases e rule: entry_kids.cases) simp_all

function ScanIndentStep :: "string \<Rightarrow> Entry list \<Rightarrow> string" where
  "ScanIndentStep src [] = []"
| "ScanIndentStep src (e # es) =
     (case entry_kids e of
        [] \<Rightarrow> ScanIndentStep src es
      | kid # kids \<Rightarrow>
          let base = LineLeadingIndent src (pos_offset (EntryPos e)); first = pos_offset (EntryPos kid);
              ci = Slice src (LineStartOffset src first) first
          in if IsBlankText ci \<and> length base < length ci \<and> take (length base) ci = base then drop (length base) ci
             else let s = ScanIndentStep src (entry_kids e) in if s \<noteq> [] then s else ScanIndentStep src es)"
  by pat_completeness auto
termination
  by (relation "measure (\<lambda>(src, es). size_list size es)") (auto dest: entry_kids_size)

definition IndentStep :: "Rewriter \<Rightarrow> string" where
  "IndentStep R = (let s = ScanIndentStep (rw_src R) (doc_entries (rw_doc R)) in if s = [] then ''  '' else s)"

definition StepFor :: "Rewriter \<Rightarrow> Entry list \<Rightarrow> string" where
  "StepFor R entries = (let s = ScanIndentStep (rw_src R) entries in if s = [] then IndentStep R else s)"

definition ChildIndent :: "string \<Rightarrow> Entry list \<Rightarrow> nat option \<Rightarrow> string" where
  "ChildIndent src entries container_pos =
     (let first = (case entries of [] \<Rightarrow> 0 | x # xs \<Rightarrow> pos_offset (EntryPos x)); line = Slice src (LineStartOffset src first) first
      in if entries \<noteq> [] \<and> IsBlankText line then line
         else case container_pos of None \<Rightarrow> [] | Some pos \<Rightarrow> LineIndentAt src pos @ ''  '')"

definition SiblingIndent :: "string \<Rightarrow> Target \<Rightarrow> string" where
  "SiblingIndent src t = ChildIndent src (tg_container_entries t) (map_option ct_pos (tg_container t))"

definition RenderValue :: "ranges \<Rightarrow> Value \<Rightarrow> string \<Rightarrow> string \<Rightarrow> string" where
  "RenderValue ranges v line_prefix step =
     (let out = AppendValueIndented ranges [] v step in if line_prefix \<noteq> [] then ReplaceNewlines out line_prefix else out)"

text \<open>The opening lines of the missing blocks, the leaf, and the closing lines.\<close>

fun RenderChain_loop :: "ranges \<Rightarrow> string \<Rightarrow> string \<Rightarrow> bool \<Rightarrow> Value \<Rightarrow> bool \<Rightarrow> nat \<Rightarrow> string list \<Rightarrow> string" where
  "RenderChain_loop ranges base step leaf_map v is_inline i (seg # segs) =
     (if segs = [] then
        (if is_inline then [] else IndentAt base step i) @ (if leaf_map \<and> NeedsQuoting seg then GoQuote ranges seg else seg) @
        (if leaf_map then '': '' else '' = '') @ RenderValue ranges v (IndentAt base step i) step
      else
        (if is_inline then [] else IndentAt base step i) @ seg @ (if is_inline then '' { '' else '' {'' @ [CHR 0x0A]) @
        RenderChain_loop ranges base step leaf_map v is_inline (i + 1) segs @
        (if is_inline then '' }'' else [CHR 0x0A] @ IndentAt base step i @ ''}''))"
| "RenderChain_loop ranges base step leaf_map v is_inline i [] = []"

definition RenderChain :: "ranges \<Rightarrow> string list \<Rightarrow> string \<Rightarrow> string \<Rightarrow> bool \<Rightarrow> Value \<Rightarrow> bool \<Rightarrow> string" where
  "RenderChain ranges missing base_indent step map_form v is_inline =
     RenderChain_loop ranges base_indent step (map_form \<and> length missing = 1) v is_inline 0 missing"

section \<open>Fields by path\<close>

fun ResolveIn_loop :: "ranges \<Rightarrow> string \<Rightarrow> Entry list \<Rightarrow> Container option \<Rightarrow> string list \<Rightarrow> string + Target" where
  "ResolveIn_loop ranges path entries container [] = Inl (''pxf: invalid path '' @ GoQuote ranges path)"
| "ResolveIn_loop ranges path entries container (seg # segs) =
     (case FindEntry entries seg of
        None \<Rightarrow>
          Inr \<lparr>tg_entry = None, tg_container = container, tg_container_entries = entries, tg_missing = seg # segs\<rparr>
      | Some e \<Rightarrow>
          if segs = [] then Inr \<lparr>tg_entry = Some e, tg_container = container, tg_container_entries = entries, tg_missing = []\<rparr>
          else
            (case e of
               Block p ep name q es leading trailing \<Rightarrow> ResolveIn_loop ranges path es (Some (ContainerFor e)) segs
             | _ \<Rightarrow>
                 (case EntryValue e of
                    Some (BlockVal vp ve es trailing) \<Rightarrow> ResolveIn_loop ranges path es (Some (ContainerFor e)) segs
                  | _ \<Rightarrow>
                      Inl (''pxf: path '' @ GoQuote ranges path @ '': segment '' @ GoQuote ranges seg @ '' is a scalar field, not a block''))))"

definition ResolveIn :: "ranges \<Rightarrow> Entry list \<Rightarrow> Container option \<Rightarrow> string \<Rightarrow> string + Target" where
  "ResolveIn ranges entries container path =
     (let segs = SplitDots path
      in if list_ex (\<lambda>s. s = []) segs then Inl (''pxf: invalid path '' @ GoQuote ranges path @ '': empty segment'')
         else ResolveIn_loop ranges path entries container segs)"

definition Resolve :: "ranges \<Rightarrow> Rewriter \<Rightarrow> string \<Rightarrow> string + Target" where
  "Resolve ranges R path = ResolveIn ranges (doc_entries (rw_doc R)) None path"

text \<open>A space before an insertion in an inline block, unless one is there.\<close>

definition inline_gap :: "string \<Rightarrow> nat \<Rightarrow> string" where
  "inline_gap src close_off = (if 0 < close_off \<and> \<not> is_pad (src ! (close_off - 1)) then '' '' else [])"

text \<open>Where a line goes that is inserted before the closing bracket: at the start of the bracket's line, or on a line broken off before it.\<close>

definition close_line :: "string \<Rightarrow> nat \<Rightarrow> nat \<times> string" where
  "close_line src close_off =
     (let ls = LineStartOffset src close_off
      in if IsBlankText (Slice src ls close_off) then (ls, []) else (close_off, [CHR 0x0A]))"

definition StageInsert :: "ranges \<Rightarrow> string \<Rightarrow> string \<Rightarrow> Target \<Rightarrow> Value \<Rightarrow> Rewriter \<Rightarrow> string + Rewriter" where
  "StageInsert ranges operation path_key t v R =
     (case find NeedsQuoting (butlast (tg_missing t)) of
        Some seg \<Rightarrow> Inl (''pxf: '' @ operation @ '': segment '' @ GoQuote ranges seg @ '' is not a valid block name'')
      | None \<Rightarrow>
          let leaf = last (tg_missing t); map_form = HasMapEntry (tg_container_entries t); src = rw_src R
          in if NeedsQuoting leaf \<and> \<not> map_form then
               Inl (''pxf: '' @ operation @ '': key '' @ GoQuote ranges leaf @ '' needs a map ('' @ quoted '':'' @ '') context'')
             else
               let step = StepFor R (tg_container_entries t)
               in (case tg_container t of
                    Some c \<Rightarrow>
                      if ct_close_off c < 0 \<or> int (length src) \<le> ct_close_off c \<or> src ! nat (ct_close_off c) \<noteq> CHR ''}'' then
                        Inl (''pxf: '' @ operation @ '': internal error: container span does not end at '' @ quoted ''}'')
                      else
                        let close_off = nat (ct_close_off c)
                        in if \<not> HasNewline (Slice src (ct_pos c) close_off) then
                             Inr (Stage path_key close_off close_off
                               (inline_gap src close_off @ RenderChain ranges (tg_missing t) [] step map_form v True @ '' '') R)
                           else
                             (case close_line src close_off of
                                (at, sb) \<Rightarrow>
                                  Inr (Stage path_key at at
                                    (sb @ RenderChain ranges (tg_missing t) (SiblingIndent src t) step map_form v False @ [CHR 0x0A]) R))
                  | None \<Rightarrow>
                      Inr (Stage path_key (length src) (length src)
                        ((if src \<noteq> [] \<and> last src \<noteq> CHR 0x0A then [CHR 0x0A] else []) @
                         RenderChain ranges (tg_missing t) (SiblingIndent src t) step map_form v False @ [CHR 0x0A]) R)))"

definition SetResolved :: "ranges \<Rightarrow> string \<Rightarrow> string \<Rightarrow> Target \<Rightarrow> Value \<Rightarrow> Rewriter \<Rightarrow> string + Rewriter" where
  "SetResolved ranges operation path_key t v R =
     (case tg_entry t of
        Some e \<Rightarrow>
          (case EntryValue e of
             None \<Rightarrow>
               Inl (''pxf: '' @ operation @ '': path addresses a block; set its fields individually, or Remove it and Set a BlockVal'')
           | Some old \<Rightarrow>
               Inr (Stage path_key (off_start old) (off_end old)
                 (RenderValue ranges v (LineIndentAt (rw_src R) (pos_offset (EntryPos e))) (StepFor R (tg_container_entries t))) R))
      | None \<Rightarrow> StageInsert ranges operation path_key t v R)"

definition Rewriter_Set :: "ranges \<Rightarrow> string \<Rightarrow> Value option \<Rightarrow> Rewriter \<Rightarrow> string + Rewriter" where
  "Rewriter_Set ranges path value R =
     (case value of
        None \<Rightarrow> Inl (''pxf: Set '' @ path @ '': nil value'')
      | Some v \<Rightarrow>
          if ContainsBadVal v then Inl (''pxf: Set '' @ path @ '': cannot write a BadVal placeholder'')
          else
            (case Resolve ranges R path of
               Inl e \<Rightarrow> Inl e
             | Inr t \<Rightarrow> SetResolved ranges (''Set '' @ path) path t v R))"

text \<open>Positions after blanks, and after the rest of a line.\<close>

definition TrailingListPad :: "string \<Rightarrow> nat \<Rightarrow> nat" where
  "TrailingListPad src off = length (takeWhile is_pad (drop off src))"

definition skip_pad :: "string \<Rightarrow> nat \<Rightarrow> nat" where
  "skip_pad src i = i + length (takeWhile is_pad (drop i src))"

definition skip_line :: "string \<Rightarrow> nat \<Rightarrow> nat" where
  "skip_line src i = i + length (takeWhile (\<lambda>c. c \<noteq> CHR 0x0A) (drop i src))"

fun find_close :: "string \<Rightarrow> nat option" where
  "find_close (a # b # s) = (if a = CHR ''*'' \<and> b = CHR ''/'' then Some 0 else map_option Suc (find_close (b # s)))"
| "find_close _ = None"

definition EntryRemovalSpan :: "string \<Rightarrow> Entry \<Rightarrow> RemovalSpan" where
  "EntryRemovalSpan src e =
     (let s = pos_offset (fst (EntrySpan e)); fin = pos_offset (snd (EntrySpan e)); n = length src; ls = LineStartOffset src s;
          le0 = skip_pad src fin;
          le = (if char_at src le0 (CHR ''#'') \<or> char_at src le0 (CHR ''/'') \<and> char_at src (le0 + 1) (CHR ''/'') then skip_line src le0
                else if char_at src le0 (CHR ''/'') \<and> char_at src (le0 + 1) (CHR ''*'') then
                  (case find_close (drop le0 src) of
                     None \<Rightarrow> le0
                   | Some k \<Rightarrow>
                       let through = le0 + k + 2
                       in if HasNewline (Slice src le0 through) then le0 else skip_pad src through)
                else le0)
      in if IsBlankText (Slice src ls s) \<and> (n \<le> le \<or> src ! le = CHR 0x0A) then
           \<lparr>rs_start = ls, rs_end = (if le < n then le + 1 else le), rs_whole_lines = True\<rparr>
         else \<lparr>rs_start = s, rs_end = skip_pad src fin, rs_whole_lines = False\<rparr>)"

definition Rewriter_Remove :: "ranges \<Rightarrow> string \<Rightarrow> Rewriter \<Rightarrow> string + Rewriter" where
  "Rewriter_Remove ranges path R =
     (case Resolve ranges R path of
        Inl e \<Rightarrow> Inl e
      | Inr t \<Rightarrow>
          (case tg_entry t of
             None \<Rightarrow> Inl (''pxf: Remove '' @ path @ '': no such entry'')
           | Some e \<Rightarrow> let s = EntryRemovalSpan (rw_src R) e in Inr (Stage path (rs_start s) (rs_end s) [] R)))"

definition SetSpan :: "int \<Rightarrow> int \<Rightarrow> string \<Rightarrow> Rewriter \<Rightarrow> string + Rewriter" where
  "SetSpan s e text R =
     (if s < 0 \<or> e < s \<or> int (length (rw_src R)) < e then
        Inl (''pxf: SetSpan: span ['' @ to_string_int s @ '':'' @ to_string_int e @ '') out of range for source of length '' @
          to_string (length (rw_src R)))
      else Inr (Stage (SpanPath s e) (nat s) (nat e) text R))"

definition ReplaceValue :: "ranges \<Rightarrow> Value option \<Rightarrow> Value option \<Rightarrow> Rewriter \<Rightarrow> string + Rewriter" where
  "ReplaceValue ranges old new R =
     (case old of
        None \<Rightarrow> Inl ''pxf: ReplaceValue: nil old value''
      | Some ov \<Rightarrow>
          (case new of
             None \<Rightarrow> Inl ''pxf: ReplaceValue: nil replacement value''
           | Some nv \<Rightarrow>
               if ContainsBadVal nv then Inl ''pxf: ReplaceValue: cannot write a BadVal placeholder''
               else if off_end ov \<le> off_start ov then
                 Inl ''pxf: ReplaceValue: old value has no source span (not a parsed value, or a BadVal)''
               else
                 SetSpan (int (off_start ov)) (int (off_end ov))
                   (RenderValue ranges nv (LineLeadingIndent (rw_src R) (off_start ov)) (IndentStep R)) R))"

definition RenderAppendEntry :: "ranges \<Rightarrow> Rewriter \<Rightarrow> nat \<Rightarrow> nat \<Rightarrow> Entry list \<Rightarrow> Entry \<Rightarrow> Insertion" where
  "RenderAppendEntry ranges R scope_start close_off siblings e =
     (let src = rw_src R
      in if \<not> HasNewline (Slice src scope_start close_off) then
           \<lparr>ins_at = close_off, ins_text = inline_gap src close_off @ WriteEntryInline ranges e @ '' '', ins_comma_at = None\<rparr>
         else
           let step = StepFor R siblings;
               indent = (if siblings = [] then LineLeadingIndent src scope_start @ step else ChildIndent src siblings (Some scope_start))
           in (case close_line src close_off of
                (at, sb) \<Rightarrow> \<lparr>ins_at = at, ins_text = sb @ RenderEntryLines ranges e indent step @ [CHR 0x0A], ins_comma_at = None\<rparr>))"

definition AppendEntry :: "ranges \<Rightarrow> Entry option \<Rightarrow> Entry option \<Rightarrow> Rewriter \<Rightarrow> string + Rewriter" where
  "AppendEntry ranges block entry R =
     (case block of
        Some (Block p ep name q es leading trailing) \<Rightarrow>
          (case entry of
             None \<Rightarrow> Inl ''pxf: AppendEntry: nil entry''
           | Some e \<Rightarrow>
               if EntryContainsBadVal e then Inl ''pxf: AppendEntry: cannot write a BadVal placeholder''
               else if close_of ep < int (pos_offset p) \<or> int (length (rw_src R)) \<le> close_of ep \<or>
                       rw_src R ! nat (close_of ep) \<noteq> CHR ''}'' then
                 Inl (''pxf: AppendEntry: block '' @ GoQuote ranges name @ '' has no source span (not a parsed block)'')
               else
                 let ins = RenderAppendEntry ranges R (pos_offset p) (nat (close_of ep)) es e
                 in Inr (StageInsertEdit (ins_at ins) (ins_text ins) R))
      | _ \<Rightarrow> Inl ''pxf: AppendEntry: nil block'')"

section \<open>Keyed collections\<close>

definition KeyedByField :: "string \<Rightarrow> string \<Rightarrow> Rewriter \<Rightarrow> Rewriter" where
  "KeyedByField field_path key_field R = R\<lparr>rw_key_fields := (rw_key_fields R)(field_path \<mapsto> key_field)\<rparr>"

definition KeyedScopeEntries :: "ranges \<Rightarrow> Rewriter \<Rightarrow> string \<Rightarrow> string + Entry list \<times> string" where
  "KeyedScopeEntries ranges R field_path =
     (case SplitPathSegs field_path of
        None \<Rightarrow> Inl (''invalid path '' @ GoQuote ranges field_path)
      | Some segs \<Rightarrow>
          if length segs = 1 then Inr (doc_entries (rw_doc R), last segs)
          else
            let parent = JoinPathSegs (butlast segs)
            in (case ResolveIn ranges (doc_entries (rw_doc R)) None parent of
                 Inl e \<Rightarrow> Inl e
               | Inr t \<Rightarrow>
                   (case tg_entry t of
                      None \<Rightarrow> Inl (''no entry at '' @ GoQuote ranges parent)
                    | Some (Block p e name q es leading trailing) \<Rightarrow> Inr (es, last segs)
                    | Some e \<Rightarrow>
                        (case EntryValue e of
                           Some (BlockVal vp ve es trailing) \<Rightarrow> Inr (es, last segs)
                         | _ \<Rightarrow> Inl (GoQuote ranges parent @ '' is not a block'')))))"

text \<open>The bindings of a field in the order of the document, and whether a list was left out because its key field is not declared.\<close>

fun gather_bindings :: "string \<Rightarrow> string \<Rightarrow> nat \<Rightarrow> Entry list \<Rightarrow> KeyedBinding list \<times> bool" where
  "gather_bindings key key_field i [] = ([], False)"
| "gather_bindings key key_field i (e # es) =
     (if EntryKey e \<noteq> key then gather_bindings key key_field i es
      else
        case e of
          Block p ep name q kids leading trailing \<Rightarrow>
            (case gather_bindings key key_field (i + 1) es of
               (bs, saw) \<Rightarrow>
                 (\<lparr>kb_id = i, kb_anon = False, kb_scope_start = pos_offset p, kb_close_off = close_of ep, kb_entries = kids,
                   kb_list_pos = 0, kb_list_end = 0, kb_elements = [], kb_key_field = []\<rparr> # bs, saw))
        | Assignment p ep name q (BlockVal vp ve kids ts) leading trailing \<Rightarrow>
            (case gather_bindings key key_field (i + 1) es of
               (bs, saw) \<Rightarrow>
                 (\<lparr>kb_id = i, kb_anon = False, kb_scope_start = pos_offset p, kb_close_off = close_of ve, kb_entries = kids,
                   kb_list_pos = 0, kb_list_end = 0, kb_elements = [], kb_key_field = []\<rparr> # bs, saw))
        | Assignment p ep name q (ListVal vp ve els) leading trailing \<Rightarrow>
            if key_field = [] then (case gather_bindings key key_field i es of (bs, saw) \<Rightarrow> (bs, True))
            else
              (case gather_bindings key key_field (i + 1) es of
                 (bs, saw) \<Rightarrow>
                   (\<lparr>kb_id = i, kb_anon = True, kb_scope_start = pos_offset p, kb_close_off = close_of ve, kb_entries = [],
                     kb_list_pos = pos_offset vp, kb_list_end = pos_offset ve, kb_elements = els, kb_key_field = key_field\<rparr> # bs, saw))
        | _ \<Rightarrow> gather_bindings key key_field i es)"

definition binding_closed :: "string \<Rightarrow> KeyedBinding \<Rightarrow> bool" where
  "binding_closed src b \<longleftrightarrow>
     int (kb_scope_start b) \<le> kb_close_off b \<and> kb_close_off b < int (length src) \<and>
     src ! nat (kb_close_off b) = (if kb_anon b then CHR '']'' else CHR ''}'')"

definition KeyedBindings :: "ranges \<Rightarrow> string \<Rightarrow> Rewriter \<Rightarrow> string \<Rightarrow> string + KeyedBinding list" where
  "KeyedBindings ranges operation R field_path =
     (case KeyedScopeEntries ranges R field_path of
        Inl e \<Rightarrow> Inl (''pxf: '' @ operation @ '': '' @ e)
      | Inr (scope, key) \<Rightarrow>
          (case gather_bindings key (case rw_key_fields R field_path of Some f \<Rightarrow> f | None \<Rightarrow> []) 0 scope of
             (bs, saw_undeclared_list) \<Rightarrow>
               if bs = [] then
                 if saw_undeclared_list then
                   Inl (''pxf: '' @ operation @ '': '' @ GoQuote ranges field_path @
                     '' is written in the anonymous list form; declare its key field with KeyedByField to edit it'')
                 else Inl (''pxf: '' @ operation @ '': no keyed collection at '' @ GoQuote ranges field_path)
               else if \<not> list_all (binding_closed (rw_src R)) bs then
                 Inl (''pxf: '' @ operation @ '': binding at '' @ GoQuote ranges field_path @ '' has no source span'')
               else Inr bs))"

section \<open>Elements of anonymous lists\<close>

function trim_spaces :: "string \<Rightarrow> string" where
  "trim_spaces line = (let w = SpaceRuneLen line in if w = 0 then line else trim_spaces (drop w line))"
  by pat_completeness auto
termination
  by (relation "measure length") (auto simp: SpaceRuneLen_def split: if_splits)

declare trim_spaces.simps [simp del]

lemma LineStartOffset_le: "LineStartOffset src i \<le> i"
  by (induction src i rule: LineStartOffset.induct) (simp_all add: le_SucI)

function ExtendOverLeadingComments :: "string \<Rightarrow> nat \<Rightarrow> nat" where
  "ExtendOverLeadingComments src s =
     (if s = 0 then 0
      else
        let ls = LineStartOffset src (s - 1); line = trim_spaces (Slice src ls (s - 1))
        in if line = [] \<or> hd line \<noteq> CHR ''#'' \<and> take 2 line \<noteq> ''//'' then s else ExtendOverLeadingComments src ls)"
  by pat_completeness auto
termination
  by (relation "measure snd") (auto intro: le_less_trans [OF LineStartOffset_le])

declare ExtendOverLeadingComments.simps [simp del]

definition ListMultiline :: "string \<Rightarrow> KeyedBinding \<Rightarrow> bool" where
  "ListMultiline src b = HasNewline (Slice src (kb_list_pos b) (kb_list_end b))"

definition ListElementIndent :: "Rewriter \<Rightarrow> KeyedBinding \<Rightarrow> string" where
  "ListElementIndent R b =
     (let src = rw_src R; p = (case kb_elements b of [] \<Rightarrow> 0 | v # vs \<Rightarrow> off_start v); line = Slice src (LineStartOffset src p) p
      in if kb_elements b \<noteq> [] \<and> IsBlankText line then line
         else LineLeadingIndent src (kb_scope_start b) @ IndentStep R)"

text \<open>The first comma in a gap, over the text of the gap from \<open>i\<close> on.\<close>

function ListComma_loop :: "string \<Rightarrow> nat \<Rightarrow> nat option" where
  "ListComma_loop [] i = None"
| "ListComma_loop (c # s) i =
     (if c = CHR '','' then Some i
      else if c = CHR ''#'' \<or> take 2 (c # s) = ''//'' then
        ListComma_loop (dropWhile (\<lambda>c. c \<noteq> CHR 0x0A) (c # s)) (i + length (takeWhile (\<lambda>c. c \<noteq> CHR 0x0A) (c # s)))
      else if take 2 (c # s) = ''/*'' then
        (case find_close (c # s) of None \<Rightarrow> None | Some n \<Rightarrow> ListComma_loop (drop (n + 2) (c # s)) (i + n + 2))
      else ListComma_loop s (i + 1))"
  by pat_completeness auto
termination
  by (relation "measure (\<lambda>(s, i). length s)") (auto simp: le_imp_less_Suc length_dropWhile_le)

definition ListComma :: "string \<Rightarrow> nat \<Rightarrow> nat \<Rightarrow> nat option" where
  "ListComma src from to = ListComma_loop (take (to - from) (drop from src)) from"

definition ListElemComma :: "string \<Rightarrow> KeyedBinding \<Rightarrow> nat \<Rightarrow> nat option" where
  "ListElemComma src b idx =
     (let els = kb_elements b; limit = (if idx + 1 < length els then off_start (els ! (idx + 1)) else kb_list_end b - 1)
      in ListComma src (off_end (els ! idx)) limit)"

definition ListElemTail :: "string \<Rightarrow> KeyedBinding \<Rightarrow> nat \<Rightarrow> nat" where
  "ListElemTail src b idx =
     (let e = off_end (kb_elements b ! idx)
      in case ListElemComma src b idx of
          Some c \<Rightarrow> if HasNewline (Slice src e c) then e else c + 1
        | None \<Rightarrow> e)"

text \<open>The span of the comment that ends the line, and the end of the line.\<close>

definition TrailingComment :: "string \<Rightarrow> nat \<Rightarrow> (nat \<times> nat) option \<times> nat option" where
  "TrailingComment src off =
     (let i0 = off + TrailingListPad src off; rest = drop i0 src;
          (comment, i) =
            (if rest \<noteq> [] \<and> (hd rest = CHR ''#'' \<or> take 2 rest = ''//'') then (Some (i0, skip_line src i0), skip_line src i0)
             else if take 2 rest = ''/*'' then
               (case find_close rest of
                  Some n \<Rightarrow>
                    if HasNewline (take n rest) then (None, i0)
                    else (Some (i0, i0 + n + 2), i0 + n + 2 + TrailingListPad src (i0 + n + 2))
                | None \<Rightarrow> (None, i0))
             else (None, i0))
      in if length src \<le> i \<or> src ! i = CHR 0x0A then (comment, Some i) else (None, None))"

definition GapHasComment :: "string \<Rightarrow> nat \<Rightarrow> nat \<Rightarrow> bool" where
  "GapHasComment src from to =
     list_ex (\<lambda>c. c \<noteq> CHR '' '' \<and> c \<noteq> CHR 0x09 \<and> c \<noteq> CHR 0x0A \<and> c \<noteq> CHR 0x0D \<and> c \<noteq> CHR '','') (Slice src from to)"

definition ListElementRemovalSpans :: "string \<Rightarrow> KeyedBinding \<Rightarrow> nat \<Rightarrow> bool \<Rightarrow> (nat \<times> nat) list" where
  "ListElementRemovalSpans src b idx keep_comment =
     (let els = kb_elements b; s = off_start (els ! idx); e = off_end (els ! idx); comma = ListElemComma src b idx;
          tail = ListElemTail src b idx; (tc, line_end0) = TrailingComment src tail;
          line_end = (if keep_comment \<and> tc \<noteq> None then None else line_end0);
          ls = LineStartOffset src s; prev_end = off_end (els ! (idx - 1)); prev = ListComma src prev_end s;
          element =
            (case line_end of
               None \<Rightarrow> (s, tail + TrailingListPad src tail)
             | Some le \<Rightarrow>
                 if \<not> IsBlankText (Slice src ls s) then (s - length (takeWhile is_pad (rev (Slice src ls s))), le)
                 else if le < length src then (ls, le + 1)
                 else (ls, le))
      in case comma of
          Some c \<Rightarrow> (if tail \<le> c then [(c, c + 1 + TrailingListPad src (c + 1))] else []) @ [element]
        | None \<Rightarrow>
            if 0 < idx then
              (case prev of
                 Some pc \<Rightarrow>
                   if tc = None \<and> \<not> GapHasComment src prev_end s then [(prev_end, e + TrailingListPad src e)]
                   else [(pc, pc + 1), element]
               | None \<Rightarrow> [element])
            else [element])"

fun StageListRemoval :: "string \<Rightarrow> nat \<Rightarrow> (nat \<times> nat) list \<Rightarrow> Rewriter \<Rightarrow> Rewriter" where
  "StageListRemoval path_key i [] R = R"
| "StageListRemoval path_key i ((s, e) # spans) R =
     StageListRemoval path_key (i + 1) spans (Stage (path_key @ [CHR 0x00] @ to_string i) s e [] R)"

definition StageSplice :: "string \<Rightarrow> Insertion \<Rightarrow> Rewriter \<Rightarrow> Rewriter" where
  "StageSplice path_key s R =
     (let R1 = Stage path_key (ins_at s) (ins_at s) (ins_text s) R
      in case ins_comma_at s of
          None \<Rightarrow> R1
        | Some c \<Rightarrow> Stage (path_key @ [CHR 0x00] @ ''comma'') c c '','' R1)"

definition RenderListElement :: "ranges \<Rightarrow> Rewriter \<Rightarrow> KeyedBinding \<Rightarrow> Value \<Rightarrow> string" where
  "RenderListElement ranges R b bv = RenderValue ranges bv (ListElementIndent R b) (IndentStep R)"

definition SpliceListElementAppend :: "Rewriter \<Rightarrow> KeyedBinding \<Rightarrow> string \<Rightarrow> string \<Rightarrow> Insertion" where
  "SpliceListElementAppend R b elem_text comment =
     (let src = rw_src R; indent = ListElementIndent R b; els = kb_elements b
      in if els = [] then
           \<lparr>ins_at = nat (kb_close_off b), ins_text = [CHR 0x0A] @ indent @ elem_text @ [CHR 0x0A] @ LineLeadingIndent src (kb_scope_start b),
            ins_comma_at = None\<rparr>
         else
           let lst = length els - 1; last_end = off_end (els ! lst); comma = ListElemComma src b lst
           in if \<not> ListMultiline src b then
                (case comma of
                   Some c \<Rightarrow> \<lparr>ins_at = c + 1, ins_text = '' '' @ elem_text @ '','', ins_comma_at = None\<rparr>
                 | None \<Rightarrow> \<lparr>ins_at = last_end, ins_text = '', '' @ elem_text, ins_comma_at = None\<rparr>)
              else
                let past = (case comma of Some c \<Rightarrow> c + 1 | None \<Rightarrow> last_end); tc = fst (TrailingComment src past)
                in \<lparr>ins_at = (case tc of Some (cs, ce) \<Rightarrow> ce | None \<Rightarrow> past),
                    ins_text =
                      (if comma = None \<and> tc = None then '','' else []) @ [CHR 0x0A] @ indent @ elem_text @
                      (if comma \<noteq> None then '','' else []) @ (if comment \<noteq> [] then '' '' @ comment else []),
                    ins_comma_at = (if comma = None \<and> tc \<noteq> None then Some last_end else None)\<rparr>)"

definition SpliceListElementBefore :: "Rewriter \<Rightarrow> KeyedBinding \<Rightarrow> nat \<Rightarrow> string \<Rightarrow> string \<Rightarrow> Insertion" where
  "SpliceListElementBefore R b idx elem_text comment =
     (let src = rw_src R; target = off_start (kb_elements b ! idx); ls = LineStartOffset src target
      in if ListMultiline src b \<and> IsBlankText (Slice src ls target) then
           \<lparr>ins_at = ExtendOverLeadingComments src ls,
            ins_text = ListElementIndent R b @ elem_text @ '','' @ (if comment \<noteq> [] then '' '' @ comment else []) @ [CHR 0x0A],
            ins_comma_at = None\<rparr>
         else \<lparr>ins_at = target, ins_text = elem_text @ '', '', ins_comma_at = None\<rparr>)"

section \<open>Editing keyed collections\<close>

definition keyed_op :: "ranges \<Rightarrow> string \<Rightarrow> string \<Rightarrow> string \<Rightarrow> string" where
  "keyed_op ranges name field_path key = name @ '' '' @ field_path @ ''['' @ GoQuote ranges key @ '']''"

definition keyed_path :: "string \<Rightarrow> string \<Rightarrow> string \<Rightarrow> string" where
  "keyed_path what field_path key = [CHR 0x00] @ ''keyed:'' @ what @ '':'' @ field_path @ [CHR 0x00] @ key"

definition RenderAppendKeyedElement :: "ranges \<Rightarrow> Rewriter \<Rightarrow> KeyedBinding \<Rightarrow> string \<Rightarrow> Entry list \<Rightarrow> Insertion" where
  "RenderAppendKeyedElement ranges R b key body =
     (if kb_anon b then SpliceListElementAppend R b (RenderListElement ranges R b (NewAnonElement (kb_key_field b) key body)) []
      else RenderAppendEntry ranges R (kb_scope_start b) (nat (kb_close_off b)) (kb_entries b) (NewKeyedElementBlock key body))"

definition SetKeyed :: "ranges \<Rightarrow> string \<Rightarrow> string \<Rightarrow> string \<Rightarrow> Value option \<Rightarrow> Rewriter \<Rightarrow> string + Rewriter" where
  "SetKeyed ranges field_path key subpath value R =
     (let operation = keyed_op ranges ''SetKeyed'' field_path key @ ''.'' @ subpath;
          path_key = keyed_path ''set'' field_path key @ [CHR 0x00] @ subpath
      in case value of
          None \<Rightarrow> Inl (''pxf: '' @ operation @ '': nil value'')
        | Some v \<Rightarrow>
            if ContainsBadVal v then Inl (''pxf: '' @ operation @ '': cannot write a BadVal placeholder'')
            else if key = [] then Inl (''pxf: '' @ operation @ '': empty key'')
            else
              (case KeyedBindings ranges operation R field_path of
                 Inl e \<Rightarrow> Inl e
               | Inr bs \<Rightarrow>
                   (case FindKeyedElem bs key of
                      None \<Rightarrow>
                        (case BuildEntryChain ranges operation subpath v of
                           Inl e \<Rightarrow> Inl e
                         | Inr chain \<Rightarrow> Inr (StageSplice path_key (RenderAppendKeyedElement ranges R (last bs) key chain) R))
                    | Some elem \<Rightarrow>
                        (case ResolveIn ranges (ke_body elem) (Some (ContainerOf elem)) subpath of
                           Inl e \<Rightarrow> Inl e
                         | Inr t \<Rightarrow> SetResolved ranges operation path_key t v R))))"

definition RemoveKeyed :: "ranges \<Rightarrow> string \<Rightarrow> string \<Rightarrow> string \<Rightarrow> Rewriter \<Rightarrow> string + Rewriter" where
  "RemoveKeyed ranges field_path key subpath R =
     (let operation = keyed_op ranges ''RemoveKeyed'' field_path key @ ''.'' @ subpath
      in case KeyedBindings ranges operation R field_path of
          Inl e \<Rightarrow> Inl e
        | Inr bs \<Rightarrow>
            (case FindKeyedElem bs key of
               None \<Rightarrow> Inl (''pxf: '' @ operation @ '': no element '' @ GoQuote ranges key)
             | Some elem \<Rightarrow>
                 (case ResolveIn ranges (ke_body elem) (Some (ContainerOf elem)) subpath of
                    Inl e \<Rightarrow> Inl e
                  | Inr t \<Rightarrow>
                      (case tg_entry t of
                         None \<Rightarrow> Inl (''pxf: '' @ operation @ '': no such entry'')
                       | Some e \<Rightarrow>
                           let s = EntryRemovalSpan (rw_src R) e
                           in Inr (Stage (keyed_path ''rm'' field_path key @ [CHR 0x00] @ subpath) (rs_start s) (rs_end s) [] R)))))"

definition RemoveKeyedElement :: "ranges \<Rightarrow> string \<Rightarrow> string \<Rightarrow> Rewriter \<Rightarrow> string + Rewriter" where
  "RemoveKeyedElement ranges field_path key R =
     (let operation = keyed_op ranges ''RemoveKeyedElement'' field_path key; path_key = keyed_path ''rmel'' field_path key
      in case KeyedBindings ranges operation R field_path of
          Inl e \<Rightarrow> Inl e
        | Inr bs \<Rightarrow>
            (case FindKeyedElem bs key of
               None \<Rightarrow> Inl (''pxf: '' @ operation @ '': no element '' @ GoQuote ranges key)
             | Some elem \<Rightarrow>
                 (case ke_node elem of
                    None \<Rightarrow> Inr (StageListRemoval path_key 0 (ListElementRemovalSpans (rw_src R) (ke_b elem) (ke_idx elem) False) R)
                  | Some node \<Rightarrow> let s = EntryRemovalSpan (rw_src R) node in Inr (Stage path_key (rs_start s) (rs_end s) [] R))))"

definition RenderInsertBlockElementBefore :: "ranges \<Rightarrow> Rewriter \<Rightarrow> KeyedBinding \<Rightarrow> Entry \<Rightarrow> Entry \<Rightarrow> Insertion" where
  "RenderInsertBlockElementBefore ranges R b anchor nb =
     (let src = rw_src R; a_start = pos_offset (EntryPos anchor); ls = LineStartOffset src a_start; line = Slice src ls a_start
      in if IsBlankText line then
           \<lparr>ins_at = ExtendOverLeadingComments src ls, ins_text = RenderEntryLines ranges nb line (StepFor R (kb_entries b)) @ [CHR 0x0A],
            ins_comma_at = None\<rparr>
         else \<lparr>ins_at = a_start, ins_text = WriteEntryInline ranges nb @ '' '', ins_comma_at = None\<rparr>)"

definition InsertKeyedElement :: "ranges \<Rightarrow> string \<Rightarrow> string \<Rightarrow> string \<Rightarrow> Entry option list \<Rightarrow> Rewriter \<Rightarrow> string + Rewriter" where
  "InsertKeyedElement ranges field_path key anchor_key body R =
     (let operation = keyed_op ranges ''InsertKeyedElement'' field_path key; path_key = keyed_path ''ins'' field_path key
      in if key = [] then Inl (''pxf: '' @ operation @ '': empty key'')
         else
           (case find (\<lambda>e. case e of None \<Rightarrow> True | Some x \<Rightarrow> EntryContainsBadVal x) body of
              Some None \<Rightarrow> Inl (''pxf: '' @ operation @ '': nil body entry'')
            | Some (Some x) \<Rightarrow> Inl (''pxf: '' @ operation @ '': cannot write a BadVal placeholder'')
            | None \<Rightarrow>
                (case KeyedBindings ranges operation R field_path of
                   Inl e \<Rightarrow> Inl e
                 | Inr bs \<Rightarrow>
                     if FindKeyedElem bs key \<noteq> None then
                       Inl (''pxf: '' @ operation @ '': element '' @ GoQuote ranges key @ '' already exists'')
                     else
                       let entries = map CloneEntry (map the body)
                       in if anchor_key = [] then Inr (StageSplice path_key (RenderAppendKeyedElement ranges R (last bs) key entries) R)
                          else
                            (case FindKeyedElem bs anchor_key of
                               None \<Rightarrow> Inl (''pxf: '' @ operation @ '': no element '' @ GoQuote ranges anchor_key @ '' to insert before'')
                             | Some anchor \<Rightarrow>
                                 (case ke_node anchor of
                                    None \<Rightarrow>
                                      Inr (StageSplice path_key
                                        (SpliceListElementBefore R (ke_b anchor) (ke_idx anchor)
                                          (RenderListElement ranges R (ke_b anchor) (NewAnonElement (kb_key_field (ke_b anchor)) key entries)) []) R)
                                  | Some node \<Rightarrow>
                                      let ins = RenderInsertBlockElementBefore ranges R (ke_b anchor) node (NewKeyedElementBlock key entries)
                                      in Inr (Stage path_key (ins_at ins) (ins_at ins) (ins_text ins) R))))))"

definition RenameKeyedElement :: "ranges \<Rightarrow> string \<Rightarrow> string \<Rightarrow> string \<Rightarrow> Rewriter \<Rightarrow> string + Rewriter" where
  "RenameKeyedElement ranges field_path old_key new_key R =
     (let operation = keyed_op ranges ''RenameKeyedElement'' field_path old_key; path_key = keyed_path ''ren'' field_path old_key
      in if new_key = [] then Inl (''pxf: '' @ operation @ '': empty new key'')
         else if new_key = old_key then Inr R
         else
           (case KeyedBindings ranges operation R field_path of
              Inl e \<Rightarrow> Inl e
            | Inr bs \<Rightarrow>
                (case FindKeyedElem bs old_key of
                   None \<Rightarrow> Inl (''pxf: '' @ operation @ '': no element '' @ GoQuote ranges old_key)
                 | Some elem \<Rightarrow>
                     if FindKeyedElem bs new_key \<noteq> None then
                       Inl (''pxf: '' @ operation @ '': element '' @ GoQuote ranges new_key @ '' already exists'')
                     else
                       (case ke_node elem of
                          None \<Rightarrow>
                            (case AnonKeyAssignment (ke_body elem) (kb_key_field (ke_b elem)) of
                               None \<Rightarrow>
                                 Inl (''pxf: '' @ operation @ '': element has no '' @ GoQuote ranges (kb_key_field (ke_b elem)) @ '' assignment'')
                             | Some ka \<Rightarrow>
                                 (case EntryValue ka of
                                    Some v \<Rightarrow> Inr (Stage path_key (off_start v) (off_end v) (GoQuote ranges new_key) R)
                                  | None \<Rightarrow> Inr R))
                        | Some node \<Rightarrow>
                            let s = pos_offset (EntryPos node)
                            in (case NameTokenEnd (rw_src R) s of
                                 None \<Rightarrow> Inl (''pxf: '' @ operation @ '': element has no source span'')
                               | Some e \<Rightarrow>
                                   Inr (Stage path_key s e (if IsIdentifierSafeEntryName new_key then new_key else GoQuote ranges new_key) R))))))"

definition MoveBlockElement :: "ranges \<Rightarrow> string \<Rightarrow> string \<Rightarrow> KeyedElem \<Rightarrow> Entry \<Rightarrow> Entry option \<Rightarrow> Rewriter \<Rightarrow> string + Rewriter" where
  "MoveBlockElement ranges operation field_path elem node anchor R =
     (let src = rw_src R; span = EntryRemovalSpan src node; e = rs_end span;
          s = (if rs_whole_lines span then ExtendOverLeadingComments src (rs_start span) else rs_start span);
          text = Slice src s e; del_key = keyed_path ''mv'' field_path (ke_key elem); ins_key = del_key @ [CHR 0x00] @ ''ins'';
          close_off = nat (kb_close_off (ke_b elem))
      in if \<not> rs_whole_lines span then
           let padded = (if text = [] \<or> last text \<noteq> CHR '' '' then text @ '' '' else text)
           in (case anchor of
                Some a \<Rightarrow>
                  let at = pos_offset (EntryPos a) in Inr (Stage ins_key at at padded (Stage del_key s e [] R))
              | None \<Rightarrow> Inr (Stage ins_key close_off close_off (inline_gap src close_off @ padded) (Stage del_key s e [] R)))
         else
           let line = (if text = [] \<or> last text \<noteq> CHR 0x0A then text @ [CHR 0x0A] else text)
           in (case anchor of
                Some a \<Rightarrow>
                  let a_start = pos_offset (EntryPos a); ls = LineStartOffset src a_start
                  in if \<not> IsBlankText (Slice src ls a_start) then
                       Inl (''pxf: '' @ operation @ '': anchor element does not start its own line'')
                     else
                       let at = ExtendOverLeadingComments src ls in Inr (Stage ins_key at at line (Stage del_key s e [] R))
              | None \<Rightarrow>
                  (case close_line src close_off of
                     (at, sb) \<Rightarrow> Inr (Stage ins_key at at (sb @ line) (Stage del_key s e [] R)))))"

definition MoveListElement :: "string \<Rightarrow> KeyedElem \<Rightarrow> KeyedElem option \<Rightarrow> Rewriter \<Rightarrow> Rewriter" where
  "MoveListElement field_path elem anchor R =
     (let b = ke_b elem; src = rw_src R; moved = kb_elements b ! ke_idx elem; del_key = keyed_path ''mv'' field_path (ke_key elem);
          dest = (case anchor of Some a \<Rightarrow> ke_b a | None \<Rightarrow> b);
          on_own_line =
            (ListMultiline src dest \<and>
             (case anchor of
                None \<Rightarrow> True
              | Some a \<Rightarrow> let p = off_start (kb_elements dest ! ke_idx a) in IsBlankText (Slice src (LineStartOffset src p) p)));
          text = Slice src (off_start moved) (off_end moved);
          comment =
            (if on_own_line then
               (case fst (TrailingComment src (ListElemTail src b (ke_idx elem))) of Some (cs, ce) \<Rightarrow> Slice src cs ce | None \<Rightarrow> [])
             else []);
          ins =
            (case anchor of
               Some a \<Rightarrow> SpliceListElementBefore R (ke_b a) (ke_idx a) text comment
             | None \<Rightarrow> SpliceListElementAppend R b text comment)
      in if anchor = None \<and> ke_idx elem + 1 = length (kb_elements b) then R
         else if (case anchor of Some a \<Rightarrow> kb_id (ke_b a) = kb_id b \<and> ke_idx a = ke_idx elem + 1 | None \<Rightarrow> False) then R
         else
           StageSplice (del_key @ [CHR 0x00] @ ''ins'') ins
             (StageListRemoval del_key 0 (ListElementRemovalSpans src b (ke_idx elem) (\<not> on_own_line)) R))"

definition MoveKeyedElement :: "ranges \<Rightarrow> string \<Rightarrow> string \<Rightarrow> string \<Rightarrow> Rewriter \<Rightarrow> string + Rewriter" where
  "MoveKeyedElement ranges field_path key anchor_key R =
     (let operation = keyed_op ranges ''MoveKeyedElement'' field_path key
      in if anchor_key = key then Inl (''pxf: '' @ operation @ '': cannot move an element before itself'')
         else
           (case KeyedBindings ranges operation R field_path of
              Inl e \<Rightarrow> Inl e
            | Inr bs \<Rightarrow>
                (case FindKeyedElem bs key of
                   None \<Rightarrow> Inl (''pxf: '' @ operation @ '': no element '' @ GoQuote ranges key)
                 | Some elem \<Rightarrow>
                     (case (if anchor_key = [] then Inr None
                            else
                              case FindKeyedElem bs anchor_key of
                                None \<Rightarrow> Inl (''pxf: '' @ operation @ '': no element '' @ GoQuote ranges anchor_key @ '' to move before'')
                              | Some a \<Rightarrow>
                                  if kb_anon (ke_b a) \<noteq> kb_anon (ke_b elem) then
                                    Inl (''pxf: '' @ operation @ '': element '' @ GoQuote ranges key @ '' and anchor '' @ GoQuote ranges anchor_key @
                                      '' are in different surface forms'')
                                  else Inr (Some a)) of
                        Inl e \<Rightarrow> Inl e
                      | Inr anchor \<Rightarrow>
                          (case ke_node elem of
                             None \<Rightarrow> Inr (MoveListElement field_path elem anchor R)
                           | Some node \<Rightarrow>
                               MoveBlockElement ranges operation field_path elem node (case anchor of Some a \<Rightarrow> ke_node a | None \<Rightarrow> None) R)))))"

section \<open>Sequences of edits\<close>

text \<open>The calls a program can make on a rewriter.\<close>

datatype RewriterCall =
    CallSet string "Value option"
  | CallRemove string
  | CallReplaceValue "Value option" "Value option"
  | CallSetSpan int int string
  | CallAppendEntry "Entry option" "Entry option"
  | CallKeyedByField string string
  | CallSetKeyed string string string "Value option"
  | CallRemoveKeyed string string string
  | CallRemoveKeyedElement string string
  | CallInsertKeyedElement string string string "Entry option list"
  | CallRenameKeyedElement string string string
  | CallMoveKeyedElement string string string

fun call :: "ranges \<Rightarrow> RewriterCall \<Rightarrow> Rewriter \<Rightarrow> string + Rewriter" where
  "call ranges (CallSet path v) R = Rewriter_Set ranges path v R"
| "call ranges (CallRemove path) R = Rewriter_Remove ranges path R"
| "call ranges (CallReplaceValue old new) R = ReplaceValue ranges old new R"
| "call ranges (CallSetSpan s e text) R = SetSpan s e text R"
| "call ranges (CallAppendEntry block e) R = AppendEntry ranges block e R"
| "call ranges (CallKeyedByField path field) R = Inr (KeyedByField path field R)"
| "call ranges (CallSetKeyed path key sub v) R = SetKeyed ranges path key sub v R"
| "call ranges (CallRemoveKeyed path key sub) R = RemoveKeyed ranges path key sub R"
| "call ranges (CallRemoveKeyedElement path key) R = RemoveKeyedElement ranges path key R"
| "call ranges (CallInsertKeyedElement path key anchor body) R = InsertKeyedElement ranges path key anchor body R"
| "call ranges (CallRenameKeyedElement path key key') R = RenameKeyedElement ranges path key key' R"
| "call ranges (CallMoveKeyedElement path key anchor) R = MoveKeyedElement ranges path key anchor R"

text \<open>A call that fails leaves the rewriter as it was, and a program may go on with it.\<close>

definition call_or_stay :: "ranges \<Rightarrow> RewriterCall \<Rightarrow> Rewriter \<Rightarrow> Rewriter" where
  "call_or_stay ranges c R = (case call ranges c R of Inl e \<Rightarrow> R | Inr R' \<Rightarrow> R')"

inductive rewriting :: "ranges \<Rightarrow> string \<Rightarrow> Rewriter \<Rightarrow> bool" for ranges src where
  opened: "Rewriter_New ranges src = Some (Inr R) \<Longrightarrow> rewriting ranges src R"
| called: "rewriting ranges src R \<Longrightarrow> rewriting ranges src (call_or_stay ranges c R)"

end
