(* ===== verification/PxfRewriterSafety.thy ===== *)
theory PxfRewriterSafety
  imports PxfSpans PxfRewriter
begin

text \<open>
  What a rewriter keeps over every sequence of calls: its edits lie within the source, and no two have the same identity. \<open>Bytes\<close>
  then gives the source with each edit in its place, as a description byte by byte of the result says.
\<close>

section \<open>Offsets stay within the source\<close>

lemma skip_pad_bounds: "i \<le> length src \<Longrightarrow> i \<le> skip_pad src i \<and> skip_pad src i \<le> length src"
  using length_takeWhile_le [of is_pad "drop i src"] by (simp add: skip_pad_def)

lemma skip_line_bounds: "i \<le> length src \<Longrightarrow> i \<le> skip_line src i \<and> skip_line src i \<le> length src"
  using length_takeWhile_le [of "\<lambda>c. c \<noteq> CHR 0x0A" "drop i src"] by (simp add: skip_line_def)

lemma pad_bounds: "i \<le> length src \<Longrightarrow> i + TrailingListPad src i \<le> length src"
  using length_takeWhile_le [of is_pad "drop i src"] by (simp add: TrailingListPad_def)

lemma find_close_bound: "find_close s = Some k \<Longrightarrow> k + 2 \<le> length s"
  by (induction s arbitrary: k rule: find_close.induct) (auto split: if_splits)

lemma ExtendOver_le: "ExtendOverLeadingComments src s \<le> s"
proof (induction src s rule: ExtendOverLeadingComments.induct)
  case (1 src s)
  have "LineStartOffset src (s - 1) \<le> s" using LineStartOffset_le [of src "s - 1"] by simp
  with 1 show ?case by (subst ExtendOverLeadingComments.simps) (auto simp: Let_def intro: order_trans)
qed

lemma ListComma_loop_bounds: "ListComma_loop s i = Some c \<Longrightarrow> i \<le> c \<and> c < i + length s"
proof (induction s i rule: ListComma_loop.induct)
  case (2 c' s i)
  let ?p = "\<lambda>c. c \<noteq> CHR 0x0A"
  have len: "length (takeWhile ?p (c' # s)) + length (dropWhile ?p (c' # s)) = Suc (length s)"
    using takeWhile_dropWhile_id [of ?p "c' # s"] by (metis length_append length_Cons)
  consider (comma) "c' = CHR '',''" | (line) "c' \<noteq> CHR '',''" "c' = CHR ''#'' \<or> take 2 (c' # s) = ''//''"
    | (block) "c' \<noteq> CHR '',''" "\<not> (c' = CHR ''#'' \<or> take 2 (c' # s) = ''//'')" "take 2 (c' # s) = ''/*''"
    | (other) "c' \<noteq> CHR '',''" "\<not> (c' = CHR ''#'' \<or> take 2 (c' # s) = ''//'')" "take 2 (c' # s) \<noteq> ''/*''" by blast
  then show ?case
  proof cases
    case line
    then have "ListComma_loop (dropWhile ?p (c' # s)) (i + length (takeWhile ?p (c' # s))) = Some c" using 2(4) by simp
    with 2(1) [OF line] len show ?thesis by fastforce
  next
    case block
    then obtain n where n: "find_close (c' # s) = Some n" "ListComma_loop (drop (n + 2) (c' # s)) (i + n + 2) = Some c"
      using 2(4) by (auto split: option.splits)
    with 2(2) [OF block n(1)] find_close_bound [OF n(1)] show ?thesis by fastforce
  next
    case other
    with 2(3) [OF other] 2(4) show ?thesis by fastforce
  qed (use 2(4) in simp)
qed simp

lemma ListComma_bounds: "ListComma src from to = Some c \<Longrightarrow> from \<le> c \<and> c < to \<and> c < length src"
  by (auto simp: ListComma_def dest!: ListComma_loop_bounds)

lemma TrailingComment_bounds:
  assumes "TrailingComment src off = (tc, le)" "off \<le> length src"
  shows "tc = Some (a, b) \<Longrightarrow> off \<le> a \<and> a \<le> b \<and> b \<le> length src" "le = Some l \<Longrightarrow> off \<le> l \<and> l \<le> length src"
proof -
  let ?i = "off + TrailingListPad src off"
  have i: "?i \<le> length src" using pad_bounds [OF assms(2)] .
  have c: "?i + n + 2 + TrailingListPad src (?i + n + 2) \<le> length src" "?i + n + 2 \<le> length src" if "find_close (drop ?i src) = Some n" for n
    using find_close_bound [OF that] i pad_bounds [of "?i + n + 2" src] by simp_all
  have l: "?i \<le> skip_line src ?i \<and> skip_line src ?i \<le> length src" using skip_line_bounds [OF i] .
  show "tc = Some (a, b) \<Longrightarrow> off \<le> a \<and> a \<le> b \<and> b \<le> length src" "le = Some l \<Longrightarrow> off \<le> l \<and> l \<le> length src"
    using assms(1) i l c by (auto simp: TrailingComment_def Let_def split: if_splits option.splits prod.splits)
qed

lemma triple_end_bounds: "triple_end s j = Some e \<Longrightarrow> j \<le> e \<and> e \<le> j + length s"
  by (induction s j rule: triple_end.induct) (auto split: if_splits)

lemma quoted_end_bounds: "quoted_end s j = Some e \<Longrightarrow> j \<le> e \<and> e \<le> j + length s"
  by (induction s j rule: quoted_end.induct) (auto split: if_splits list.splits)

lemma NameTokenEnd_bounds: "NameTokenEnd src s = Some e \<Longrightarrow> s \<le> e \<and> e \<le> length src"
  using length_takeWhile_le [of IsIdentPartByte "drop s src"]
  by (auto simp: NameTokenEnd_def SkipDirString_def Let_def split: if_splits dest!: triple_end_bounds quoted_end_bounds)

section \<open>Nodes of the document\<close>

definition entry_in :: "string \<Rightarrow> Entry \<Rightarrow> bool" where
  "entry_in src x = spans_entry src 0 (length src) x"

definition value_in :: "string \<Rightarrow> Value \<Rightarrow> bool" where
  "value_in src v = spans_value src 0 (length src) v"

lemma entries_in: "spans_entries src lo hi xs \<Longrightarrow> hi \<le> length src \<Longrightarrow> list_all (entry_in src) xs"
  by (induction xs arbitrary: lo) (auto simp: entry_in_def intro: spans_entry_mono)

lemma values_in: "spans_values src lo hi vs \<Longrightarrow> hi \<le> length src \<Longrightarrow> list_all (value_in src) vs"
  by (induction vs arbitrary: lo) (auto simp: value_in_def intro: spans_value_mono)

lemma value_in_bounds: "value_in src v \<Longrightarrow> off_start v < off_end v \<and> off_end v \<le> length src"
  using spans_value_in [of src 0 "length src" v] by (simp add: value_in_def span_in_def off_start_def off_end_def)

lemma entry_in_bounds: "entry_in src x \<Longrightarrow> pos_offset (EntryPos x) < pos_offset (entry_end x) \<and> pos_offset (entry_end x) \<le> length src"
  using spans_entry_in [of src 0 "length src" x] by (simp add: entry_in_def span_in_def)

lemma entry_in_value: "entry_in src x \<Longrightarrow> EntryValue x = Some v \<Longrightarrow> value_in src v"
  by (cases x) (auto simp: entry_in_def value_in_def span_in_def intro: spans_value_mono)

lemma value_in_entries: "value_in src v \<Longrightarrow> block_entries v = Some es \<Longrightarrow> list_all (entry_in src) es"
  by (cases v) (auto simp: value_in_def span_in_def intro: entries_in)

lemma entry_in_block: "entry_in src (Block p e name q es leading trailing) \<Longrightarrow> list_all (entry_in src) es"
  by (auto simp: entry_in_def span_in_def intro: entries_in)

lemma FindEntry_in: "list_all (entry_in src) xs \<Longrightarrow> FindEntry xs key = Some x \<Longrightarrow> entry_in src x"
  by (auto simp: FindEntry_def find_Some_iff list_all_iff)

text \<open>The entries a path goes on in after an entry.\<close>

definition scope_of :: "Entry \<Rightarrow> Entry list option" where
  "scope_of e =
     (case e of
        Block p ep name q es leading trailing \<Rightarrow> Some es
      | _ \<Rightarrow> (case EntryValue e of Some v \<Rightarrow> block_entries v | None \<Rightarrow> None))"

lemma scope_in: "entry_in src e \<Longrightarrow> scope_of e = Some es \<Longrightarrow> list_all (entry_in src) es"
  by (cases e) (auto simp: scope_of_def dest: entry_in_value value_in_entries entry_in_block split: option.splits)

lemma ResolveIn_loop_step:
  "FindEntry xs seg = Some e \<Longrightarrow> segs \<noteq> [] \<Longrightarrow>
     ResolveIn_loop ranges path xs c (seg # segs) =
       (case scope_of e of
          Some es \<Rightarrow> ResolveIn_loop ranges path es (Some (ContainerFor e)) segs
        | None \<Rightarrow> Inl (''pxf: path '' @ GoQuote ranges path @ '': segment '' @ GoQuote ranges seg @ '' is a scalar field, not a block''))"
  by (cases e; cases "the (EntryValue e)") (simp_all add: scope_of_def)

lemma ResolveIn_loop_in:
  "list_all (entry_in src) xs \<Longrightarrow> ResolveIn_loop ranges path xs c segs = Inr t \<Longrightarrow>
     (\<forall>x. tg_entry t = Some x \<longrightarrow> entry_in src x)"
proof (induction segs arbitrary: xs c)
  case (Cons seg segs)
  show ?case
  proof (cases "FindEntry xs seg")
    case None
    with Cons.prems(2) show ?thesis by auto
  next
    case (Some e)
    note e = FindEntry_in [OF Cons.prems(1) Some]
    show ?thesis
    proof (cases "segs = []")
      case True
      with Some e Cons.prems(2) show ?thesis by auto
    next
      case False
      from ResolveIn_loop_step [OF Some False] Cons.prems(2) obtain es where
        "scope_of e = Some es" "ResolveIn_loop ranges path es (Some (ContainerFor e)) segs = Inr t" by (auto split: option.splits)
      with Cons.IH scope_in [OF e] show ?thesis by blast
    qed
  qed
qed simp

lemma ResolveIn_in:
  "list_all (entry_in src) xs \<Longrightarrow> ResolveIn ranges xs c path = Inr t \<Longrightarrow> tg_entry t = Some x \<Longrightarrow> entry_in src x"
  by (auto simp: ResolveIn_def Let_def split: if_splits dest: ResolveIn_loop_in)

section \<open>The invariant\<close>

definition edit_in :: "string \<Rightarrow> SpanEdit \<Rightarrow> bool" where
  "edit_in src e \<longleftrightarrow> ed_start e \<le> ed_end e \<and> ed_end e \<le> length src"

definition rewriter_ok :: "string \<Rightarrow> Rewriter \<Rightarrow> bool" where
  "rewriter_ok src R \<longleftrightarrow>
     rw_src R = src \<and> list_all (entry_in src) (doc_entries (rw_doc R)) \<and> list_all (edit_in src) (rw_edits R) \<and>
     distinct (map ed_path (rw_edits R))"

lemma Stage_in_paths: "set (map ed_path (Stage_in e xs)) = insert (ed_path e) (set (map ed_path xs))"
  by (induction xs) auto

lemma Stage_in_distinct: "distinct (map ed_path xs) \<Longrightarrow> distinct (map ed_path (Stage_in e xs))"
proof (induction xs)
  case (Cons x xs)
  then show ?case using Stage_in_paths [of e xs] by auto
qed simp

lemma Stage_in_all: "P e \<Longrightarrow> list_all P xs \<Longrightarrow> list_all P (Stage_in e xs)"
  by (induction xs) auto

lemma Stage_ok [simp, intro]: "rewriter_ok src R \<Longrightarrow> s \<le> e \<Longrightarrow> e \<le> length src \<Longrightarrow> rewriter_ok src (Stage path s e text R)"
  by (auto simp: rewriter_ok_def Stage_def edit_in_def intro!: Stage_in_all Stage_in_distinct)

lemma ok_src: "rewriter_ok src R \<Longrightarrow> rw_src R = src" and ok_entries: "rewriter_ok src R \<Longrightarrow> list_all (entry_in src) (doc_entries (rw_doc R))"
  by (simp_all add: rewriter_ok_def)

lemma Resolve_in: "rewriter_ok src R \<Longrightarrow> Resolve ranges R path = Inr t \<Longrightarrow> tg_entry t = Some x \<Longrightarrow> entry_in src x"
  unfolding Resolve_def by (rule ResolveIn_in [OF ok_entries])

section \<open>Fields by path\<close>

lemma close_line_le: "close_line src c = (at, sb) \<Longrightarrow> at \<le> c"
  using LineStartOffset_le [of src c] by (auto simp: close_line_def Let_def split: if_splits)

lemma StageInsert_ok:
  assumes "rewriter_ok src R" "StageInsert ranges operation path t v R = Inr R'"
  shows "rewriter_ok src R'"
proof -
  have s: "rw_src R = src" using ok_src [OF assms(1)] .
  have c: "at \<le> length src" if "close_line src (nat c) = (at, sb)" "c < int (length src)" for c at sb
    using close_line_le [OF that(1)] that(2) by linarith
  show ?thesis
    using assms(2) assms(1) c
    by (auto simp: StageInsert_def Let_def s split: option.splits if_splits prod.splits intro!: Stage_ok dest: c)
qed

lemma SetResolved_ok:
  assumes "rewriter_ok src R" "\<And>x. tg_entry t = Some x \<Longrightarrow> entry_in src x" "SetResolved ranges operation path t v R = Inr R'"
  shows "rewriter_ok src R'"
proof (cases "tg_entry t")
  case None
  with assms StageInsert_ok show ?thesis by (simp add: SetResolved_def)
next
  case (Some x)
  then obtain old where old: "EntryValue x = Some old" using assms(3) by (auto simp: SetResolved_def split: option.splits)
  have "value_in src old" using entry_in_value [OF assms(2) [OF Some] old] .
  from value_in_bounds [OF this] assms(1,3) Some old show ?thesis by (auto simp: SetResolved_def)
qed

lemma Set_ok: "rewriter_ok src R \<Longrightarrow> Rewriter_Set ranges path v R = Inr R' \<Longrightarrow> rewriter_ok src R'"
  by (auto simp: Rewriter_Set_def split: option.splits if_splits sum.splits intro: SetResolved_ok Resolve_in)

lemma EntryRemovalSpan_in:
  assumes "entry_in src x"
  shows "rs_start (EntryRemovalSpan src x) \<le> rs_end (EntryRemovalSpan src x) \<and> rs_end (EntryRemovalSpan src x) \<le> length src"
proof -
  let ?s = "pos_offset (EntryPos x)" and ?e = "pos_offset (entry_end x)"
  let ?p = "skip_pad src ?e"
  have b: "?s < ?e" "?e \<le> length src" using entry_in_bounds [OF assms] by simp_all
  have p: "?e \<le> ?p" "?p \<le> length src" using skip_pad_bounds [OF b(2)] by simp_all
  have ls: "LineStartOffset src ?s \<le> ?e" using LineStartOffset_le [of src ?s] b(1) by simp
  have l: "?e \<le> skip_line src ?p" "skip_line src ?p \<le> length src" using skip_line_bounds [OF p(2)] p(1) by linarith+
  have c: "?e \<le> skip_pad src (?p + k + 2) \<and> skip_pad src (?p + k + 2) \<le> length src" if "find_close (drop ?p src) = Some k" for k
  proof -
    have "?p + k + 2 \<le> length src" using find_close_bound [OF that] p by simp
    from skip_pad_bounds [OF this] p show ?thesis by linarith
  qed
  define le where "le = (if char_at src ?p (CHR ''#'') \<or> char_at src ?p (CHR ''/'') \<and> char_at src (?p + 1) (CHR ''/'') then skip_line src ?p
     else if char_at src ?p (CHR ''/'') \<and> char_at src (?p + 1) (CHR ''*'') then
       (case find_close (drop ?p src) of None \<Rightarrow> ?p
        | Some k \<Rightarrow> let through = ?p + k + 2 in if HasNewline (Slice src ?p through) then ?p else skip_pad src through)
     else ?p)"
  have le: "?e \<le> le \<and> le \<le> length src" using p l c by (auto simp: le_def Let_def split: option.split)
  have "EntryRemovalSpan src x =
      (if IsBlankText (Slice src (LineStartOffset src ?s) ?s) \<and> (length src \<le> le \<or> src ! le = CHR 0x0A) then
         \<lparr>rs_start = LineStartOffset src ?s, rs_end = (if le < length src then le + 1 else le), rs_whole_lines = True\<rparr>
       else \<lparr>rs_start = ?s, rs_end = ?p, rs_whole_lines = False\<rparr>)"
    by (simp add: EntryRemovalSpan_def EntrySpan_def Let_def le_def)
  then show ?thesis using le p ls b(1) by auto
qed

lemma Remove_ok: "rewriter_ok src R \<Longrightarrow> Rewriter_Remove ranges path R = Inr R' \<Longrightarrow> rewriter_ok src R'"
  using Resolve_in [of src R ranges path] EntryRemovalSpan_in ok_src [of src R]
  by (auto simp: Rewriter_Remove_def Let_def split: sum.splits option.splits)

lemma SetSpan_ok: "rewriter_ok src R \<Longrightarrow> SetSpan s e text R = Inr R' \<Longrightarrow> rewriter_ok src R'"
  using ok_src [of src R] by (auto simp: SetSpan_def split: if_splits)

lemma ReplaceValue_ok: "rewriter_ok src R \<Longrightarrow> ReplaceValue ranges old new R = Inr R' \<Longrightarrow> rewriter_ok src R'"
  by (auto simp: ReplaceValue_def split: option.splits if_splits intro: SetSpan_ok)

lemma RenderAppendEntry_at: "ins_at (RenderAppendEntry ranges R s c siblings e) \<le> c"
  by (auto simp: RenderAppendEntry_def Let_def split: prod.split dest: close_line_le)

lemma AppendEntry_ok:
  assumes "rewriter_ok src R" "AppendEntry ranges block entry R = Inr R'"
  shows "rewriter_ok src R'"
proof -
  have s: "rw_src R = src" using ok_src [OF assms(1)] .
  have seq: "rewriter_ok src (R\<lparr>rw_insert_seq := n\<rparr>)" for n using assms(1) by (simp add: rewriter_ok_def)
  have at: "ins_at (RenderAppendEntry ranges R p (nat c) es e) \<le> length src" if "c < int (length src)" for p c es e
    using RenderAppendEntry_at [of ranges R p "nat c" es e] that by linarith
  have st: "rewriter_ok src (StageInsertEdit (ins_at (RenderAppendEntry ranges R p (nat c) es e)) w R)" if "c < int (length src)" for p c es e w
    using at [OF that] seq by (auto simp: StageInsertEdit_def Let_def)
  show ?thesis
  proof (cases block)
    case (Some b)
    with assms(2) s st show ?thesis
      by (cases b; cases entry) (auto simp: AppendEntry_def Let_def split: if_splits)
  qed (use assms(2) in \<open>simp add: AppendEntry_def\<close>)
qed

section \<open>Keyed collections\<close>

definition binding_in :: "string \<Rightarrow> KeyedBinding \<Rightarrow> bool" where
  "binding_in src b \<longleftrightarrow>
     list_all (entry_in src) (kb_entries b) \<and> list_all (value_in src) (kb_elements b) \<and> kb_list_end b \<le> length src"

definition binding_ok :: "string \<Rightarrow> KeyedBinding \<Rightarrow> bool" where
  "binding_ok src b \<longleftrightarrow> binding_in src b \<and> kb_close_off b < int (length src)"

lemma binding_in_record:
  "binding_in src \<lparr>kb_id = i, kb_anon = a, kb_scope_start = s, kb_close_off = c, kb_entries = kids, kb_list_pos = lp, kb_list_end = le,
     kb_elements = els, kb_key_field = kf\<rparr> \<longleftrightarrow>
   list_all (entry_in src) kids \<and> list_all (value_in src) els \<and> le \<le> length src"
  by (simp add: binding_in_def)

lemma block_value_in: "value_in src (BlockVal p e es ts) \<Longrightarrow> list_all (entry_in src) es"
  and list_value_in: "value_in src (ListVal p e els) \<Longrightarrow> list_all (value_in src) els \<and> pos_offset e \<le> length src"
  by (auto simp: value_in_def span_in_def intro: entries_in values_in)

lemma assignment_in: "entry_in src (Assignment p e key q v leading trailing) \<Longrightarrow> value_in src v"
  using entry_in_value by fastforce

lemma gather_bindings_in:
  "list_all (entry_in src) es \<Longrightarrow> gather_bindings key kf i es = (bs, saw) \<Longrightarrow> list_all (binding_in src) bs"
proof (induction es arbitrary: i bs saw)
  case (Cons e es)
  have e: "entry_in src e" and es: "list_all (entry_in src) es" using Cons.prems(1) by simp_all
  note tail = Cons.IH [OF es]
  show ?case
  proof (cases e)
    case (Block p ep name q kids leading trailing)
    with Cons.prems(2) e show ?thesis by (auto simp: binding_in_record dest!: entry_in_block split: if_splits prod.splits intro: tail)
  next
    case (Assignment p ep name q v leading trailing)
    note v = assignment_in [OF e [unfolded Assignment]]
    show ?thesis
    proof (cases v)
      case (BlockVal vp ve kids ts)
      with Cons.prems(2) Assignment v show ?thesis
        by (auto simp: binding_in_record dest!: block_value_in split: if_splits prod.splits intro: tail)
    next
      case (ListVal vp ve els)
      with Cons.prems(2) Assignment v show ?thesis
        by (auto simp: binding_in_record dest!: list_value_in split: if_splits prod.splits intro: tail)
    qed (use Cons.prems(2) Assignment in \<open>auto split: if_splits intro: tail\<close>)
  qed (use Cons.prems(2) in \<open>auto split: if_splits intro: tail\<close>)
qed simp

lemma KeyedScope_in:
  assumes "rewriter_ok src R" "KeyedScopeEntries ranges R path = Inr (scope, key)"
  shows "list_all (entry_in src) scope"
proof -
  note in_doc = ok_entries [OF assms(1)]
  have t: "list_all (entry_in src) es" if "ResolveIn ranges (doc_entries (rw_doc R)) None p = Inr t" "tg_entry t = Some e" "scope_of e = Some es" for p t e es
    using scope_in [OF ResolveIn_in [OF in_doc that(1,2)] that(3)] .
  show ?thesis
    using assms(2) in_doc
    by (auto simp: KeyedScopeEntries_def Let_def scope_of_def split: option.splits if_splits sum.splits Entry.splits Value.splits intro!: t)
qed

lemma KeyedBindings_ok:
  assumes "rewriter_ok src R" "KeyedBindings ranges op R path = Inr bs"
  shows "bs \<noteq> [] \<and> list_all (binding_ok src) bs"
proof -
  obtain scope key kf saw where k: "KeyedScopeEntries ranges R path = Inr (scope, key)" "gather_bindings key kf 0 scope = (bs, saw)"
      "bs \<noteq> []" "list_all (binding_closed src) bs"
    using assms(2) ok_src [OF assms(1)] by (fastforce simp: KeyedBindings_def split: sum.splits prod.splits if_splits)
  from gather_bindings_in [OF KeyedScope_in [OF assms(1) k(1)] k(2)] k(3,4) show ?thesis
    by (auto simp: binding_ok_def binding_closed_def list_all_iff)
qed

definition elem_ok :: "string \<Rightarrow> KeyedElem \<Rightarrow> bool" where
  "elem_ok src e \<longleftrightarrow>
     binding_ok src (ke_b e) \<and> list_all (entry_in src) (ke_body e) \<and>
     (case ke_node e of Some n \<Rightarrow> \<not> kb_anon (ke_b e) \<and> entry_in src n | None \<Rightarrow> kb_anon (ke_b e) \<and> ke_idx e < length (kb_elements (ke_b e)))"

lemma drop_head: "drop i xs = y # ys \<Longrightarrow> i < length xs \<and> xs ! i = y \<and> drop (Suc i) xs = ys"
  by (metis Cons_nth_drop_Suc drop_eq_Nil linorder_not_le list.distinct(1) list.inject)

lemma anon_elems_ok:
  "binding_ok src b \<Longrightarrow> kb_anon b \<Longrightarrow> drop i (kb_elements b) = vs \<Longrightarrow> list_all (elem_ok src) (anon_elems b i vs)"
proof (induction b i vs rule: anon_elems.induct)
  case (2 b i v vs)
  note i = drop_head [OF "2.prems"(3)]
  have v: "value_in src v" using i "2.prems"(1) by (auto simp: binding_ok_def binding_in_def list_all_length)
  show ?case using 2 i v by (auto simp: elem_ok_def split: option.splits intro: value_in_entries)
qed simp

lemma block_elem_ok:
  "binding_ok src b \<Longrightarrow> \<not> kb_anon b \<Longrightarrow> entry_in src e \<Longrightarrow> list_all (elem_ok src) (block_elem b e)"
  by (cases e) (auto simp: elem_ok_def split: option.splits dest!: assignment_in entry_in_block intro: value_in_entries)

lemma Each_ok: "binding_ok src b \<Longrightarrow> list_all (elem_ok src) (Each b)"
  using anon_elems_ok [of src b 0] block_elem_ok [of src b]
  by (auto simp: Each_def binding_ok_def binding_in_def list_all_iff)

lemma FindKeyedElem_ok: "list_all (binding_ok src) bs \<Longrightarrow> FindKeyedElem bs key = Some e \<Longrightarrow> elem_ok src e"
  using Each_ok [of src] by (fastforce simp: FindKeyedElem_def find_Some_iff list_all_iff dest!: nth_mem)

section \<open>Elements of anonymous lists\<close>

definition span_ok :: "string \<Rightarrow> nat \<times> nat \<Rightarrow> bool" where
  "span_ok src = (\<lambda>(s, e). s \<le> e \<and> e \<le> length src)"

definition insertion_ok :: "string \<Rightarrow> Insertion \<Rightarrow> bool" where
  "insertion_ok src ins \<longleftrightarrow> ins_at ins \<le> length src \<and> (\<forall>c. ins_comma_at ins = Some c \<longrightarrow> c \<le> length src)"

lemma StageListRemoval_ok: "list_all (span_ok src) spans \<Longrightarrow> rewriter_ok src R \<Longrightarrow> rewriter_ok src (StageListRemoval path i spans R)"
  by (induction path i spans R rule: StageListRemoval.induct) (auto simp: span_ok_def)

lemma StageSplice_ok: "insertion_ok src ins \<Longrightarrow> rewriter_ok src R \<Longrightarrow> rewriter_ok src (StageSplice path ins R)"
  by (auto simp: insertion_ok_def StageSplice_def Let_def split: option.split)

lemma element_in:
  assumes "binding_ok src b" "idx < length (kb_elements b)"
  shows "off_start (kb_elements b ! idx) < off_end (kb_elements b ! idx) \<and> off_end (kb_elements b ! idx) \<le> length src"
  using assms value_in_bounds by (auto simp: binding_ok_def binding_in_def list_all_length)

lemma ListElemComma_bounds:
  "ListElemComma src b idx = Some c \<Longrightarrow> off_end (kb_elements b ! idx) \<le> c \<and> c < length src"
  by (auto simp: ListElemComma_def Let_def dest!: ListComma_bounds)

lemma ListElemTail_bounds:
  assumes "binding_ok src b" "idx < length (kb_elements b)"
  shows "off_end (kb_elements b ! idx) \<le> ListElemTail src b idx \<and> ListElemTail src b idx \<le> length src"
  using element_in [OF assms] ListElemComma_bounds [of src b idx] by (fastforce simp: ListElemTail_def Let_def split: option.split)

lemma RemovalSpans_ok:
  assumes b: "binding_ok src b" and i: "idx < length (kb_elements b)"
  shows "list_all (span_ok src) (ListElementRemovalSpans src b idx keep)"
proof -
  let ?els = "kb_elements b"
  let ?s = "off_start (?els ! idx)" and ?e = "off_end (?els ! idx)" and ?t = "ListElemTail src b idx" and ?pe = "off_end (?els ! (idx - 1))"
  note el = element_in [OF b i] and tail = ListElemTail_bounds [OF b i]
  obtain tc le0 where T: "TrailingComment src ?t = (tc, le0)" by fastforce
  have line: "le0 = Some l \<Longrightarrow> ?t \<le> l \<and> l \<le> length src" for l using TrailingComment_bounds(2) [OF T] tail by blast
  have pad: "n \<le> length src \<Longrightarrow> n + TrailingListPad src n \<le> length src" for n by (rule pad_bounds)
  have ls: "LineStartOffset src ?s \<le> ?s" by (rule LineStartOffset_le)
  define le where "le = (if keep \<and> tc \<noteq> None then None else le0)"
  have le: "le = Some l \<Longrightarrow> ?t \<le> l \<and> l \<le> length src" for l using line by (auto simp: le_def split: if_splits)
  define el where "el = (case le of
      None \<Rightarrow> (?s, ?t + TrailingListPad src ?t)
    | Some l \<Rightarrow>
        if \<not> IsBlankText (Slice src (LineStartOffset src ?s) ?s) then (?s - length (takeWhile is_pad (rev (Slice src (LineStartOffset src ?s) ?s))), l)
        else if l < length src then (LineStartOffset src ?s, l + 1) else (LineStartOffset src ?s, l))"
  have element: "span_ok src el"
  proof (cases le)
    case None
    with pad [of ?t] tail element_in [OF b i] show ?thesis by (simp add: el_def span_ok_def)
  next
    case (Some l)
    have l: "?s \<le> l" "l \<le> length src" using le [OF Some] tail element_in [OF b i] by linarith+
    with Some ls show ?thesis by (auto simp: el_def span_ok_def intro: order_trans)
  qed
  have comma: "span_ok src (c, c + 1 + TrailingListPad src (c + 1))" if "ListElemComma src b idx = Some c" for c
    using ListElemComma_bounds [OF that] pad [of "c + 1"] by (simp add: span_ok_def)
  have prev: "span_ok src (pc, pc + 1)" "span_ok src (?pe, ?e + TrailingListPad src ?e)" if "ListComma src ?pe ?s = Some pc" for pc
    using ListComma_bounds [OF that] pad [of ?e] element_in [OF b i] by (auto simp: span_ok_def)
  have D: "ListElementRemovalSpans src b idx keep =
      (case ListElemComma src b idx of
         Some c \<Rightarrow> (if ?t \<le> c then [(c, c + 1 + TrailingListPad src (c + 1))] else []) @ [el]
       | None \<Rightarrow>
           if 0 < idx then
             (case ListComma src ?pe ?s of
                Some pc \<Rightarrow>
                  if tc = None \<and> \<not> GapHasComment src ?pe ?s then [(?pe, ?e + TrailingListPad src ?e)] else [(pc, pc + 1), el]
              | None \<Rightarrow> [el])
           else [el])"
    unfolding ListElementRemovalSpans_def Let_def T prod.case el_def le_def by (rule HOL.refl)
  show ?thesis unfolding D using element comma prev by (simp split: option.split)
qed

lemma SpliceBefore_ok:
  assumes "binding_ok src b" "idx < length (kb_elements b)" "rewriter_ok src R"
  shows "insertion_ok src (SpliceListElementBefore R b idx w comment)"
proof -
  let ?t = "off_start (kb_elements b ! idx)"
  have "ExtendOverLeadingComments src (LineStartOffset src ?t) \<le> ?t" using ExtendOver_le LineStartOffset_le le_trans by blast
  with element_in [OF assms(1,2)] ok_src [OF assms(3)] show ?thesis by (simp add: insertion_ok_def SpliceListElementBefore_def Let_def)
qed

lemma SpliceAppend_ok:
  assumes b: "binding_ok src b" and R: "rewriter_ok src R"
  shows "insertion_ok src (SpliceListElementAppend R b w comment)"
proof (cases "kb_elements b = []")
  case True
  with b ok_src [OF R] show ?thesis by (auto simp: insertion_ok_def SpliceListElementAppend_def binding_ok_def Let_def)
next
  case False
  let ?l = "length (kb_elements b) - 1"
  have l: "?l < length (kb_elements b)" using False by simp
  note el = element_in [OF b l]
  have c: "ListElemComma src b ?l = Some c \<Longrightarrow> Suc c \<le> length src" for c using ListElemComma_bounds [of src b ?l c] by simp
  have t: "fst (TrailingComment src n) = Some (x, y) \<Longrightarrow> n \<le> length src \<Longrightarrow> y \<le> length src" for n x y
    using TrailingComment_bounds(1) [OF surjective_pairing] by blast
  show ?thesis
    using False el c t ok_src [OF R] by (auto simp: insertion_ok_def SpliceListElementAppend_def Let_def split: option.splits)
qed

section \<open>Editing keyed collections\<close>

lemma AppendKeyed_ok:
  assumes "binding_ok src b" "rewriter_ok src R"
  shows "insertion_ok src (RenderAppendKeyedElement ranges R b key body)"
proof -
  have "ins_at (RenderAppendEntry ranges R s (nat (kb_close_off b)) es e) \<le> length src" for s es e
    using RenderAppendEntry_at [of ranges R s "nat (kb_close_off b)" es e] assms(1) by (auto simp: binding_ok_def)
  moreover have "ins_comma_at (RenderAppendEntry ranges R s c es e) = None" for s c es e
    by (simp add: RenderAppendEntry_def Let_def split: prod.split)
  ultimately show ?thesis
    using SpliceAppend_ok [OF assms] by (simp add: RenderAppendKeyedElement_def insertion_ok_def)
qed

text \<open>The lookup every keyed operation starts with.\<close>

lemma lookup_ok:
  assumes "rewriter_ok src R" "KeyedBindings ranges op R path = Inr bs"
  shows "bs \<noteq> []" "binding_ok src (last bs)" "FindKeyedElem bs key = Some e \<Longrightarrow> elem_ok src e"
  using KeyedBindings_ok [OF assms] FindKeyedElem_ok [of src bs] by (auto simp: list_all_iff)

lemma elem_node_in: "elem_ok src e \<Longrightarrow> ke_node e = Some n \<Longrightarrow> entry_in src n"
  and elem_index: "elem_ok src e \<Longrightarrow> ke_node e = None \<Longrightarrow> ke_idx e < length (kb_elements (ke_b e))"
  and elem_binding: "elem_ok src e \<Longrightarrow> binding_ok src (ke_b e)"
  and elem_body: "elem_ok src e \<Longrightarrow> list_all (entry_in src) (ke_body e)"
  by (auto simp: elem_ok_def)

lemma removal_ok: "rewriter_ok src R \<Longrightarrow> entry_in src x \<Longrightarrow>
    rewriter_ok src (Stage path (rs_start (EntryRemovalSpan src x)) (rs_end (EntryRemovalSpan src x)) w R)"
  using EntryRemovalSpan_in [of src x] by simp

lemma list_removal_ok: "rewriter_ok src R \<Longrightarrow> elem_ok src e \<Longrightarrow> ke_node e = None \<Longrightarrow>
    rewriter_ok src (StageListRemoval path i (ListElementRemovalSpans src (ke_b e) (ke_idx e) keep) R)"
  by (intro StageListRemoval_ok RemovalSpans_ok elem_binding elem_index)

lemma SetKeyed_ok:
  assumes R: "rewriter_ok src R" and S: "SetKeyed ranges path key sub value R = Inr R'"
  shows "rewriter_ok src R'"
  using S
  by (auto simp: SetKeyed_def Let_def split: option.splits if_splits sum.splits
      intro: SetResolved_ok [OF R] ResolveIn_in [OF elem_body [OF lookup_ok(3) [OF R]]] StageSplice_ok [OF AppendKeyed_ok [OF _ R] R] lookup_ok(2) [OF R])

lemma RemoveKeyed_ok:
  assumes R: "rewriter_ok src R" and S: "RemoveKeyed ranges path key sub R = Inr R'"
  shows "rewriter_ok src R'"
  using S
  by (auto simp: RemoveKeyed_def Let_def ok_src [OF R] split: option.splits if_splits sum.splits
      intro: removal_ok [OF R] ResolveIn_in [OF elem_body [OF lookup_ok(3) [OF R]]])

lemma RemoveKeyedElement_ok:
  assumes R: "rewriter_ok src R" and S: "RemoveKeyedElement ranges path key R = Inr R'"
  shows "rewriter_ok src R'"
  using S
  by (auto simp: RemoveKeyedElement_def Let_def ok_src [OF R] split: option.splits if_splits sum.splits dest: lookup_ok(3) [OF R]
      intro: removal_ok [OF R] list_removal_ok [OF R] elem_node_in)

lemma InsertBlockBefore_at: "ins_at (RenderInsertBlockElementBefore ranges R b n nb) \<le> pos_offset (EntryPos n)"
  using order_trans [OF ExtendOver_le LineStartOffset_le] by (simp add: RenderInsertBlockElementBefore_def Let_def)

lemma node_start: "elem_ok src e \<Longrightarrow> ke_node e = Some n \<Longrightarrow> pos_offset (EntryPos n) \<le> length src"
  using entry_in_bounds [OF elem_node_in] by fastforce

lemma InsertKeyedElement_ok:
  assumes R: "rewriter_ok src R" and S: "InsertKeyedElement ranges path key anchor body R = Inr R'"
  shows "rewriter_ok src R'"
proof -
  have block: "rewriter_ok src (Stage k (ins_at (RenderInsertBlockElementBefore ranges R b n nb)) (ins_at (RenderInsertBlockElementBefore ranges R b n nb)) w R)"
    if "elem_ok src e" "ke_node e = Some n" for e n b nb k w
    using order_trans [OF InsertBlockBefore_at node_start [OF that]] R by (intro Stage_ok) simp_all
  have item: "rewriter_ok src (StageSplice k (SpliceListElementBefore R (ke_b e) (ke_idx e) w c) R)" if "elem_ok src e" "ke_node e = None" for e k w c
    using StageSplice_ok [OF SpliceBefore_ok [OF elem_binding elem_index R] R] that by blast
  show ?thesis
    using S
    by (auto simp: InsertKeyedElement_def Let_def split: option.splits if_splits sum.splits dest: lookup_ok(3) [OF R]
        intro: StageSplice_ok [OF AppendKeyed_ok [OF _ R] R] lookup_ok(2) [OF R] block item)
qed

lemma key_value_in:
  assumes "elem_ok src e" "AnonKeyAssignment (ke_body e) kf = Some ka" "EntryValue ka = Some v"
  shows "off_start v \<le> off_end v \<and> off_end v \<le> length src"
proof -
  have "entry_in src ka" using assms(1,2) by (auto simp: AnonKeyAssignment_def find_Some_iff elem_ok_def list_all_length)
  from value_in_bounds [OF entry_in_value [OF this assms(3)]] show ?thesis by simp
qed

lemma RenameKeyedElement_ok:
  assumes R: "rewriter_ok src R" and S: "RenameKeyedElement ranges path key key' R = Inr R'"
  shows "rewriter_ok src R'"
proof -
  have item: "rewriter_ok src (Stage k (off_start v) (off_end v) w R)"
    if "elem_ok src e" "AnonKeyAssignment (ke_body e) kf = Some ka" "EntryValue ka = Some v" for e kf ka v k w
    using key_value_in [OF that] R by simp
  have name: "rewriter_ok src (Stage k s e w R)" if "NameTokenEnd src s = Some e" for s e k w
    using NameTokenEnd_bounds [OF that] R by simp
  show ?thesis
    using S R
    by (auto simp: RenameKeyedElement_def Let_def ok_src [OF R] split: option.splits if_splits sum.splits dest: lookup_ok(3) [OF R]
        intro: item name)
qed

lemma MoveBlockElement_ok:
  assumes R: "rewriter_ok src R" and e: "elem_ok src e" "ke_node e = Some n" and a: "\<And>x. anchor = Some x \<Longrightarrow> entry_in src x"
    and S: "MoveBlockElement ranges op path e n anchor R = Inr R'"
  shows "rewriter_ok src R'"
proof -
  have s: "rw_src R = src" using ok_src [OF R] .
  note span = EntryRemovalSpan_in [OF elem_node_in [OF e]]
  have x: "ExtendOverLeadingComments src (rs_start (EntryRemovalSpan src n)) \<le> rs_end (EntryRemovalSpan src n)"
    using order_trans [OF ExtendOver_le] span by blast
  have at: "pos_offset (EntryPos y) \<le> length src" "ExtendOverLeadingComments src (LineStartOffset src (pos_offset (EntryPos y))) \<le> length src"
    if "anchor = Some y" for y
    using entry_in_bounds [OF a [OF that]] ExtendOver_le [of src "LineStartOffset src (pos_offset (EntryPos y))"]
      LineStartOffset_le [of src "pos_offset (EntryPos y)"] by linarith+
  have c: "nat (kb_close_off (ke_b e)) \<le> length src" using elem_binding [OF e(1)] by (auto simp: binding_ok_def)
  have cl: "p \<le> length src" if "close_line src (nat (kb_close_off (ke_b e))) = (p, sb)" for p sb
    using close_line_le [OF that] c by simp
  show ?thesis
    using S span x at c cl R
    by (auto simp: MoveBlockElement_def Let_def s split: option.splits if_splits prod.splits intro!: Stage_ok)
qed

lemma MoveListElement_ok:
  assumes R: "rewriter_ok src R" and e: "elem_ok src e" "ke_node e = None" and a: "\<And>x. anchor = Some x \<Longrightarrow> elem_ok src x \<and> ke_node x = None"
  shows "rewriter_ok src (MoveListElement path e anchor R)"
proof -
  have s: "rw_src R = src" using ok_src [OF R] .
  note rem = StageListRemoval_ok [OF RemovalSpans_ok [OF elem_binding [OF e(1)] elem_index [OF e]] R]
  have ins: "insertion_ok src (case anchor of Some x \<Rightarrow> SpliceListElementBefore R (ke_b x) (ke_idx x) w cm | None \<Rightarrow> SpliceListElementAppend R (ke_b e) w cm)" for w cm
    using SpliceAppend_ok [OF elem_binding [OF e(1)] R] SpliceBefore_ok [OF elem_binding elem_index R] a by (cases anchor) auto
  show ?thesis unfolding MoveListElement_def Let_def s using StageSplice_ok [OF ins rem] R by presburger
qed

lemma MoveKeyedElement_ok:
  assumes R: "rewriter_ok src R" and S: "MoveKeyedElement ranges path key anchor_key R = Inr R'"
  shows "rewriter_ok src R'"
proof -
  define op where "op = keyed_op ranges ''MoveKeyedElement'' path key"
  obtain bs elem where k: "KeyedBindings ranges op R path = Inr bs" "FindKeyedElem bs key = Some elem"
    using S by (auto simp: MoveKeyedElement_def Let_def op_def split: if_splits sum.splits option.splits)
  note op = op_def
  note e = lookup_ok(3) [OF R k]
  obtain anchor where a: "\<And>x. anchor = Some x \<Longrightarrow> elem_ok src x \<and> kb_anon (ke_b x) = kb_anon (ke_b elem)"
    and m: "(case ke_node elem of None \<Rightarrow> Inr (MoveListElement path elem anchor R)
       | Some node \<Rightarrow> MoveBlockElement ranges op path elem node (case anchor of Some a \<Rightarrow> ke_node a | None \<Rightarrow> None) R) = Inr R'"
  proof (cases "anchor_key = []")
    case True
    with S k op show ?thesis by (intro that [of None]) (auto simp: MoveKeyedElement_def Let_def split: if_splits)
  next
    case False
    then obtain x where "FindKeyedElem bs anchor_key = Some x" "kb_anon (ke_b x) = kb_anon (ke_b elem)"
      using S k op by (auto simp: MoveKeyedElement_def Let_def split: if_splits option.splits)
    with S k op False lookup_ok(3) [OF R k(1)] show ?thesis
      by (intro that [of "Some x"]) (auto simp: MoveKeyedElement_def Let_def split: if_splits)
  qed
  show ?thesis
  proof (cases "ke_node elem")
    case None
    with e have "kb_anon (ke_b elem)" by (simp add: elem_ok_def)
    then have "elem_ok src x \<and> ke_node x = None" if "anchor = Some x" for x using a [OF that] by (auto simp: elem_ok_def split: option.splits)
    with MoveListElement_ok [OF R e None, of anchor path] None m show ?thesis by simp
  next
    case (Some node)
    have "entry_in src x" if "(case anchor of Some a \<Rightarrow> ke_node a | None \<Rightarrow> None) = Some x" for x
      using that a elem_node_in by (auto split: option.splits)
    from MoveBlockElement_ok [OF R e Some this] Some m show ?thesis by simp
  qed
qed

section \<open>Every sequence of calls\<close>

lemma call_ok: "rewriter_ok src R \<Longrightarrow> call ranges c R = Inr R' \<Longrightarrow> rewriter_ok src R'"
proof (cases c)
  case (CallKeyedByField path field)
  then show "rewriter_ok src R \<Longrightarrow> call ranges c R = Inr R' \<Longrightarrow> rewriter_ok src R'" by (auto simp: rewriter_ok_def KeyedByField_def)
qed (auto intro: Set_ok Remove_ok ReplaceValue_ok SetSpan_ok AppendEntry_ok SetKeyed_ok RemoveKeyed_ok RemoveKeyedElement_ok
    InsertKeyedElement_ok RenameKeyedElement_ok MoveKeyedElement_ok)

lemma Rewriter_New_ok: "Rewriter_New ranges src = Some (Inr R) \<Longrightarrow> rewriter_ok src R"
proof -
  assume N: "Rewriter_New ranges src = Some (Inr R)"
  then obtain doc where P: "Parse ranges src default_options = Some (Inr doc)" and R: "rw_src R = src" "rw_doc R = doc" "rw_edits R = []"
    by (cases "Parse ranges src default_options"; cases "the (Parse ranges src default_options)") (auto simp: Rewriter_New_def)
  from entries_in [OF Parse_spans [OF P]] R show ?thesis by (simp add: rewriter_ok_def)
qed

lemma rewriting_ok: "rewriting ranges src R \<Longrightarrow> rewriter_ok src R"
proof (induction rule: rewriting.induct)
  case (called R c)
  then show ?case by (auto simp: call_or_stay_def split: sum.split intro: call_ok)
qed (rule Rewriter_New_ok)

section \<open>Properties\<close>

text \<open>C10. Whatever a program calls on a rewriter, in whatever order and with whatever arguments, calls that fail included, its source
  stays the text it was opened on, every staged edit has a start no later than its end and an end within the source, and no two
  edits have the same identity.\<close>

theorem rewriter_edits_in_range:
  assumes "rewriting ranges src R"
  shows "rw_src R = src \<and> list_all (\<lambda>e. ed_start e \<le> ed_end e \<and> ed_end e \<le> length src) (rw_edits R) \<and> distinct (map ed_path (rw_edits R))"
  using rewriting_ok [OF assms] by (simp add: rewriter_ok_def edit_in_def [abs_def])

theorem rewriter_edits_in_range_witness:
  "\<exists>R. rewriting [(32, 126)] ''f { x = 1 }'' R \<and> map ed_start (rw_edits R) = [4, 10] \<and>
     list_all (\<lambda>e. ed_start e \<le> ed_end e \<and> ed_end e \<le> length ''f { x = 1 }'') (rw_edits R) \<and> distinct (map ed_path (rw_edits R))"
proof -
  let ?r = "[(32, 126)] :: ranges" and ?s = "''f { x = 1 }''"
  let ?c = "\<lambda>R. call_or_stay ?r (CallSet ''f.y'' (Some (IntVal start_position start_position ''5'' []))) (call_or_stay ?r (CallRemove ''f.x'') R)"
  have "(case Rewriter_New ?r ?s of Some (Inr R) \<Rightarrow> map ed_start (rw_edits (?c R)) = [4, 10] | _ \<Rightarrow> False)" by code_simp
  then obtain R where R: "Rewriter_New ?r ?s = Some (Inr R)" "map ed_start (rw_edits (?c R)) = [4, 10]" by (auto split: option.splits sum.splits)
  have "rewriting ?r ?s (?c R)" by (intro rewriting.intros R(1))
  note this rewriter_edits_in_range [OF this]
  with R(2) show ?thesis by (intro exI [of _ "?c R"] conjI) (elim conjE, assumption)+
qed

end
