(* ===== verification/PxfRewriterBytes.thy ===== *)
theory PxfRewriterBytes
  imports PxfRewriterSafety
begin

text \<open>
  The result of a rewriter. The source with a set of edits applied is described byte by byte: before the byte at an offset come the
  texts of the edits that start there, in the order they were staged, and the byte itself is left out when an edit covers it.
  \<open>Bytes\<close> gives that text exactly when no two edits overlap and the text is a document.
\<close>

section \<open>The edited text\<close>

definition inserted :: "SpanEdit list \<Rightarrow> nat \<Rightarrow> string" where
  "inserted es i = concat (map ed_text (filter (\<lambda>e. ed_start e = i) es))"

definition covered :: "SpanEdit list \<Rightarrow> nat \<Rightarrow> bool" where
  "covered es i = list_ex (\<lambda>e. ed_start e \<le> i \<and> i < ed_end e) es"

definition edited_at :: "string \<Rightarrow> SpanEdit list \<Rightarrow> nat \<Rightarrow> string" where
  "edited_at src es i = inserted es i @ (if i < length src \<and> \<not> covered es i then [src ! i] else [])"

definition edited :: "string \<Rightarrow> SpanEdit list \<Rightarrow> string" where
  "edited src es = concat (map (edited_at src es) [0..<length src + 1])"

definition disjoint_edits :: "SpanEdit list \<Rightarrow> bool" where
  "disjoint_edits es = sorted_wrt (\<lambda>a b. ed_end a \<le> ed_start b) (sort_key ed_start es)"

lemma edited_sorted: "edited src (sort_key ed_start es) = edited src es"
proof -
  have i: "inserted (sort_key ed_start es) i = inserted es i" for i by (simp add: inserted_def sort_key_stable)
  have c: "covered (sort_key ed_start es) i = covered es i" for i by (simp add: covered_def list_ex_iff)
  have "edited_at src (sort_key ed_start es) = edited_at src es" by (rule ext) (simp add: edited_at_def i c)
  then show ?thesis by (simp add: edited_def)
qed

section \<open>Splicing\<close>

lemma conflict_none:
  assumes "list_all (edit_in src) es"
  shows "conflict es = None \<longleftrightarrow> sorted_wrt (\<lambda>a b. ed_end a \<le> ed_start b) es"
  using assms
proof (induction es rule: conflict.induct)
  case (1 a b es)
  have "ed_end a \<le> ed_start c" if "ed_end a \<le> ed_start b" "ed_start b \<le> ed_end b" "ed_end b \<le> ed_start c" for c using that by simp
  with 1 show ?case by (auto simp: edit_in_def)
qed simp_all

lemma untouched: "lo \<le> hi \<Longrightarrow> hi \<le> length src \<Longrightarrow> concat (map (\<lambda>i. [src ! i]) [lo..<hi]) = Slice src lo hi"
  by (rule nth_equalityI) (auto simp: Slice_def concat_map_singleton)

lemma upt_split: "i \<le> j \<Longrightarrow> j \<le> k \<Longrightarrow> [i..<k] = [i..<j] @ [j..<k]"
  using upt_add_eq_append [of i j "k - j"] by simp

lemma map_silent: "(\<And>i. i \<in> set is \<Longrightarrow> f i = []) \<Longrightarrow> concat (map f is) = []"
  by (induction "is") simp_all

lemma edited_before:
  assumes "list_all (\<lambda>e. hi \<le> ed_start e) es" "hi \<le> length src" "i < hi"
  shows "edited_at src es i = [src ! i]"
proof -
  have "filter (\<lambda>e. ed_start e = i) es = []" using assms by (auto simp: filter_empty_conv list_all_iff)
  moreover have "\<not> covered es i" using assms by (auto simp: covered_def list_ex_iff list_all_iff)
  ultimately show ?thesis using assms by (simp add: edited_at_def inserted_def)
qed

lemma splice_edited:
  assumes "sorted_wrt (\<lambda>a b. ed_end a \<le> ed_start b) es" "list_all (edit_in src) es" "list_all (\<lambda>e. lo \<le> ed_start e) es" "lo \<le> length src"
  shows "splice_edits src lo es = concat (map (edited_at src es) [lo..<length src + 1])"
  using assms
proof (induction es arbitrary: lo)
  case Nil
  have "concat (map (edited_at src []) [lo..<length src]) = Slice src lo (length src)"
    unfolding untouched [OF Nil(4) order_refl, symmetric]
    by (rule arg_cong [where f = concat]) (simp add: edited_at_def inserted_def covered_def)
  moreover have "edited_at src [] (length src) = []" by (simp add: edited_at_def inserted_def)
  ultimately show ?case using Nil(4) by (simp add: Slice_def)
next
  case (Cons e es)
  let ?s = "ed_start e" and ?t = "ed_end e" and ?n = "length src"
  have st: "lo \<le> ?s" "?s \<le> ?t" "?t \<le> ?n" using Cons.prems by (auto simp: edit_in_def)
  have later: "list_all (\<lambda>x. ?t \<le> ed_start x) es" using Cons.prems(1) by (simp add: list_all_iff)
  have IH: "splice_edits src ?t es = concat (map (edited_at src es) [?t..<?n + 1])"
    using Cons.IH [of ?t] Cons.prems later st by (simp add: list_all_iff)
  have starts: "list_all (\<lambda>x. ?s \<le> ed_start x) (e # es)" using later st(2) by (auto simp: list_all_iff)
  have A: "concat (map (edited_at src (e # es)) [lo..<?s]) = Slice src lo ?s"
    unfolding untouched [OF st(1) order_trans [OF st(2,3)], symmetric]
    by (rule arg_cong [where f = concat]) (use edited_before [OF starts] st in simp)
  have beyond: "edited_at src (e # es) i = edited_at src es i" if "?t \<le> i" "?s < i" for i
    using that by (simp add: edited_at_def inserted_def covered_def)
  have B: "concat (map (edited_at src (e # es)) [?s..<?n + 1]) = ed_text e @ concat (map (edited_at src es) [?t..<?n + 1])"
  proof (cases "?s = ?t")
    case True
    have "[?s..<?n + 1] = ?s # [Suc ?s..<?n + 1]" using st by (simp add: upt_conv_Cons)
    moreover have "edited_at src (e # es) ?s = ed_text e @ edited_at src es ?s"
      using True by (simp add: edited_at_def inserted_def covered_def)
    moreover have "map (edited_at src (e # es)) [Suc ?s..<?n + 1] = map (edited_at src es) [Suc ?s..<?n + 1]"
      using beyond True by (intro map_cong) auto
    ultimately show ?thesis by (simp add: True [symmetric] del: upt_Suc map_eq_conv)
  next
    case False
    then have "[?s..<?n + 1] = ?s # [Suc ?s..<?n + 1]" "[Suc ?s..<?n + 1] = [Suc ?s..<?t] @ [?t..<?n + 1]"
      using st by (simp add: upt_conv_Cons, intro upt_split) simp_all
    moreover have none: "filter (\<lambda>x. ed_start x = i) es = []" if "i < ?t" for i
      using later that by (auto simp: filter_empty_conv list_all_iff)
    have "edited_at src (e # es) ?s = ed_text e" "concat (map (edited_at src (e # es)) [Suc ?s..<?t]) = []"
      using False st(2) none by (auto intro!: map_silent simp: edited_at_def inserted_def covered_def)
    moreover have "map (edited_at src (e # es)) [?t..<?n + 1] = map (edited_at src es) [?t..<?n + 1]"
      using beyond False st by (intro map_cong) auto
    ultimately show ?thesis by (simp del: upt_Suc map_eq_conv)
  qed
  have "[lo..<?n + 1] = [lo..<?s] @ [?s..<?n + 1]" using st by (intro upt_split) simp_all
  with A B IH show ?case by (simp del: upt_Suc map_eq_conv)
qed

lemma splice_sorted:
  assumes "list_all (edit_in src) es" "disjoint_edits es"
  shows "splice_edits src 0 (sort_key ed_start es) = edited src es"
  using splice_edited [of "sort_key ed_start es" src 0] assms edited_sorted [of src es]
  by (simp add: disjoint_edits_def edited_def list_all_iff)

lemma rewriting_parsed: "rewriting ranges src R \<Longrightarrow> \<exists>doc. Parse ranges src default_options = Some (Inr doc)"
proof (induction rule: rewriting.induct)
  case (opened R)
  then show ?case by (cases "Parse ranges src default_options"; cases "the (Parse ranges src default_options)") (auto simp: Rewriter_New_def)
qed

lemma edited_nil: "edited src [] = src"
  using splice_edited [of "[]" src 0] by (simp add: edited_def)

lemma Bytes_edited:
  assumes "rewriting ranges src R"
  shows "Bytes ranges R \<noteq> None"
    "Bytes ranges R = Some (Inr out) \<longleftrightarrow>
       disjoint_edits (rw_edits R) \<and> out = edited src (rw_edits R) \<and> (\<exists>doc. Parse ranges out default_options = Some (Inr doc))"
proof -
  have ok: "rw_src R = src" "list_all (edit_in src) (rw_edits R)" using rewriting_ok [OF assms] by (auto simp: rewriter_ok_def)
  have c: "conflict (sort_key ed_start (rw_edits R)) = None \<longleftrightarrow> disjoint_edits (rw_edits R)"
    using conflict_none [of src "sort_key ed_start (rw_edits R)"] ok(2) by (simp add: disjoint_edits_def list_all_iff)
  have p: "Parse ranges w default_options \<noteq> None" for w using Parse_wellformed [of ranges w default_options] by auto
  show "Bytes ranges R \<noteq> None"
    using p [of "splice_edits (rw_src R) 0 (sort_key ed_start (rw_edits R))"] by (auto simp: Bytes_def Let_def split: option.split sum.split)
  show "Bytes ranges R = Some (Inr out) \<longleftrightarrow>
       disjoint_edits (rw_edits R) \<and> out = edited src (rw_edits R) \<and> (\<exists>doc. Parse ranges out default_options = Some (Inr doc))"
  proof (cases "rw_edits R = []")
    case True
    with rewriting_parsed [OF assms] ok(1) edited_nil [of src] show ?thesis by (auto simp: Bytes_def disjoint_edits_def)
  next
    case False
    show ?thesis
    proof (cases "disjoint_edits (rw_edits R)")
      case True
      then have "conflict (sort_key ed_start (rw_edits R)) = None" "splice_edits src 0 (sort_key ed_start (rw_edits R)) = edited src (rw_edits R)"
        using c splice_sorted [OF ok(2)] by simp_all
      with True False ok(1) p [of "edited src (rw_edits R)"] show ?thesis
        by (auto simp: Bytes_def Let_def split: option.splits sum.splits)
    next
      case no: False
      with False c show ?thesis by (auto simp: Bytes_def Let_def split: option.splits)
    qed
  qed
qed

section \<open>Properties\<close>

text \<open>C9. \<open>Bytes\<close> applies the edits. After any sequence of calls it returns, and it succeeds exactly when no two staged edits overlap
  and the edited text is a document, with that text: each byte of the source that no edit covers, in order, and at the start of each
  edit its text, edits at one place in the order they were staged.\<close>

theorem bytes_applies_edits:
  assumes "rewriting ranges src R"
  shows "Bytes ranges R \<noteq> None \<and>
    (Bytes ranges R = Some (Inr out) \<longleftrightarrow>
       disjoint_edits (rw_edits R) \<and> out = edited src (rw_edits R) \<and> (\<exists>doc. Parse ranges out default_options = Some (Inr doc)))"
  using Bytes_edited [OF assms] by blast

theorem bytes_applies_edits_witness:
  "\<exists>R. rewriting [(32, 126)] ''f { x = 1 }'' R \<and> Bytes [(32, 126)] R = Some (Inr ''f { x = 1 y = 5 }'') \<and>
     disjoint_edits (rw_edits R) \<and> edited ''f { x = 1 }'' (rw_edits R) = ''f { x = 1 y = 5 }''"
proof -
  let ?r = "[(32, 126)] :: ranges" and ?s = "''f { x = 1 }''"
  let ?c = "\<lambda>R. call_or_stay ?r (CallSet ''f.y'' (Some (IntVal start_position start_position ''5'' []))) R"
  have "(case Rewriter_New ?r ?s of Some (Inr R) \<Rightarrow> Bytes ?r (?c R) = Some (Inr ''f { x = 1 y = 5 }'') | _ \<Rightarrow> False)" by code_simp
  then obtain R where R: "Rewriter_New ?r ?s = Some (Inr R)" "Bytes ?r (?c R) = Some (Inr ''f { x = 1 y = 5 }'')"
    by (auto split: option.splits sum.splits)
  have "rewriting ?r ?s (?c R)" by (intro rewriting.intros R(1))
  with bytes_applies_edits [OF this, of "''f { x = 1 y = 5 }''"] R(2) show ?thesis by (intro exI [of _ "?c R"]) simp
qed

text \<open>Inserting an element before \<open>b\<close>, where \<open>a\<close> before it ends with a line that begins with \<open>#\<close> inside a triple-quoted string,
  succeeds and writes the new element into that string: the line is taken for a comment of \<open>b\<close>.\<close>

theorem insert_before_lands_in_string:
  "(case Rewriter_New [(32, 126)] (''f {'' @ [CHR 0x0A] @ ''a { s = '' @ [CHR 0x22, CHR 0x22, CHR 0x22, CHR 0x0A] @ ''# x'' @ [CHR 0x22, CHR 0x22, CHR 0x22] @ '' }'' @ [CHR 0x0A] @
       ''b { }'' @ [CHR 0x0A] @ ''}'' @ [CHR 0x0A]) of
      Some (Inr R) \<Rightarrow> Bytes [(32, 126)] (call_or_stay [(32, 126)] (CallInsertKeyedElement ''f'' ''n'' ''b'' []) R)
    | _ \<Rightarrow> None) =
   Some (Inr (''f {'' @ [CHR 0x0A] @ ''a { s = '' @ [CHR 0x22, CHR 0x22, CHR 0x22, CHR 0x0A] @ ''n {'' @ [CHR 0x0A] @ ''}'' @ [CHR 0x0A] @ ''# x'' @ [CHR 0x22, CHR 0x22, CHR 0x22] @ '' }'' @ [CHR 0x0A] @
       ''b { }'' @ [CHR 0x0A] @ ''}'' @ [CHR 0x0A]))"
  by code_simp

text \<open>Moving an element before its successor does not give the source back when a blank line separates them: the element moves
  past the blank line.\<close>

theorem move_before_successor_moves_blank:
  "(case Rewriter_New [(32, 126)] (''f {'' @ [CHR 0x0A] @ ''  a { }'' @ [CHR 0x0A, CHR 0x0A] @ ''  b { }'' @ [CHR 0x0A] @ ''}'' @ [CHR 0x0A]) of
      Some (Inr R) \<Rightarrow> Bytes [(32, 126)] (call_or_stay [(32, 126)] (CallMoveKeyedElement ''f'' ''a'' ''b'') R)
    | _ \<Rightarrow> None) =
   Some (Inr (''f {'' @ [CHR 0x0A, CHR 0x0A] @ ''  a { }'' @ [CHR 0x0A] @ ''  b { }'' @ [CHR 0x0A] @ ''}'' @ [CHR 0x0A]))"
  by code_simp

end
