(* ===== verification/BigNat.thy ===== *)
theory BigNat
  imports BigMsg
begin

text \<open>
  The natural numbers of \<open>src/pxf/bigfloat.cc\<close>: class \<open>Nat\<close>, a vector of 32-bit limbs from the least significant on, with no zero
  limb at the top. A function that changes its object returns the new vector. \<open>nat_val\<close> is the number a vector denotes, and
  every operation is related to arithmetic on it; division is Knuth's Algorithm D.
\<close>

section \<open>Operations\<close>

type_synonym limbs = "u32 list"

definition Nat_Trim :: "limbs \<Rightarrow> limbs" where
  "Nat_Trim w = rev (dropWhile (\<lambda>x. x = 0) (rev w))"

definition Nat_of :: "u32 \<Rightarrow> limbs" where
  "Nat_of v = (if v \<noteq> 0 then [v] else [])"

text \<open>Four bytes to a limb, from the least significant byte on, at the shifts of \<open>limb_of\<close>.\<close>

fun pack_limbs :: "byte list \<Rightarrow> limbs" where
  "pack_limbs [] = []"
| "pack_limbs (b # bs) = limb_of 0 (take 4 (b # bs)) # pack_limbs (drop 4 (b # bs))"

definition Nat_FromBytes :: "byte list \<Rightarrow> limbs" where
  "Nat_FromBytes be = Nat_Trim (pack_limbs (rev be))"

text \<open>The bits of the top limb: it is shifted to the right at most 32 times.\<close>

fun limb_bits :: "nat \<Rightarrow> u32 \<Rightarrow> nat" where
  "limb_bits 0 x = 0"
| "limb_bits (Suc k) x = (if x \<noteq> 0 then Suc (limb_bits k (drop_bit 1 x)) else 0)"

definition Nat_BitLen :: "limbs \<Rightarrow> nat" where
  "Nat_BitLen w = (if w = [] then 0 else (length w - 1) * 32 + limb_bits 32 (last w))"

definition Nat_ToBytes :: "limbs \<Rightarrow> byte list" where
  "Nat_ToBytes w = map (\<lambda>i. ucast (drop_bit (8 * (i mod 4)) (w ! (i div 4)))) (rev [0..<(Nat_BitLen w + 7) div 8])"

definition Nat_IsZero :: "limbs \<Rightarrow> bool" where
  "Nat_IsZero w \<longleftrightarrow> w = []"

definition Nat_IsOdd :: "limbs \<Rightarrow> bool" where
  "Nat_IsOdd w \<longleftrightarrow> w \<noteq> [] \<and> hd w AND 1 \<noteq> 0"

definition Nat_Bit :: "limbs \<Rightarrow> nat \<Rightarrow> bool" where
  "Nat_Bit w i \<longleftrightarrow> i div 32 < length w \<and> drop_bit (i mod 32) (w ! (i div 32)) AND 1 \<noteq> 0"

definition AnyBitBelow :: "limbs \<Rightarrow> nat \<Rightarrow> bool" where
  "AnyBitBelow w i \<longleftrightarrow>
     (let k = min (i div 32) (length w)
      in list_ex (\<lambda>x. x \<noteq> 0) (take k w) \<or> k < length w \<and> i mod 32 \<noteq> 0 \<and> push_bit (32 - i mod 32) (w ! k) \<noteq> 0)"

fun MulSmall_loop :: "u32 \<Rightarrow> u64 \<Rightarrow> limbs \<Rightarrow> limbs" where
  "MulSmall_loop m carry [] = (if carry \<noteq> 0 then [ucast carry] else [])"
| "MulSmall_loop m carry (x # xs) = (let v = ucast x * ucast m + carry in ucast v # MulSmall_loop m (drop_bit 32 v) xs)"

definition MulSmall :: "limbs \<Rightarrow> u32 \<Rightarrow> limbs" where
  "MulSmall w m = Nat_Trim (MulSmall_loop m 0 w)"

function AddSmall_loop :: "u64 \<Rightarrow> limbs \<Rightarrow> limbs" where
  "AddSmall_loop carry w =
     (if carry = 0 then w
      else let v = (case w of [] \<Rightarrow> 0 | x # xs \<Rightarrow> ucast x) + carry in ucast v # AddSmall_loop (drop_bit 32 v) (tl w))"
  by pat_completeness auto
termination
  by (relation "measures [\<lambda>(carry, w). length w, \<lambda>(carry, w). unat carry]")
     (auto simp: word_nat unat_gt_0 intro!: div_less_dividend split: list.splits)

declare AddSmall_loop.simps [simp del]

definition AddSmall :: "limbs \<Rightarrow> u32 \<Rightarrow> limbs" where
  "AddSmall w a = AddSmall_loop (ucast a) w"

text \<open>The differences of the source are 64-bit and do not leave that range; the cast back to a limb takes them modulo \<open>2 ^ 32\<close>.\<close>

fun Sub_loop :: "int \<Rightarrow> limbs \<Rightarrow> limbs \<Rightarrow> limbs" where
  "Sub_loop borrow [] b = []"
| "Sub_loop borrow (x # xs) b =
     (let t = uint x - (case b of [] \<Rightarrow> 0 | y # ys \<Rightarrow> uint y) - borrow
      in word_of_int t # Sub_loop (if t < 0 then 1 else 0) xs (tl b))"

definition Nat_Sub :: "limbs \<Rightarrow> limbs \<Rightarrow> limbs" where
  "Nat_Sub a b = Nat_Trim (Sub_loop 0 a b)"

text \<open>From the most significant limb down.\<close>

fun DivSmall_loop :: "u32 \<Rightarrow> u64 \<Rightarrow> limbs \<Rightarrow> limbs \<times> u64" where
  "DivSmall_loop d rem [] = ([], rem)"
| "DivSmall_loop d rem (x # xs) =
     (let v = push_bit 32 rem OR ucast x; (q, r) = DivSmall_loop d (v mod ucast d) xs in (ucast (v div ucast d) # q, r))"

definition DivSmall :: "limbs \<Rightarrow> u32 \<Rightarrow> limbs \<times> u32" where
  "DivSmall w d = (let (q, r) = DivSmall_loop d 0 (rev w) in (Nat_Trim (rev q), ucast r))"

fun Shl_loop :: "nat \<Rightarrow> u32 \<Rightarrow> limbs \<Rightarrow> limbs" where
  "Shl_loop sh high [] = [high]"
| "Shl_loop sh high (x # xs) = (let v = push_bit sh (ucast x) :: u64 in (high OR ucast v) # Shl_loop sh (ucast (drop_bit 32 v)) xs)"

definition Nat_Shl :: "limbs \<Rightarrow> nat \<Rightarrow> limbs" where
  "Nat_Shl w bits = (if w = [] then w else Nat_Trim (replicate (bits div 32) 0 @ Shl_loop (bits mod 32) 0 w))"

fun Shr_loop :: "nat \<Rightarrow> limbs \<Rightarrow> limbs" where
  "Shr_loop sh [] = []"
| "Shr_loop sh (x # xs) =
     (let v = ucast x OR (case xs of [] \<Rightarrow> 0 | y # ys \<Rightarrow> push_bit 32 (ucast y)) :: u64 in ucast (drop_bit sh v) # Shr_loop sh xs)"

definition Nat_Shr :: "limbs \<Rightarrow> nat \<Rightarrow> limbs" where
  "Nat_Shr w bits = (if length w \<le> bits div 32 then [] else Nat_Trim (Shr_loop (bits mod 32) (drop (bits div 32) w)))"

fun Cmp_loop :: "limbs \<Rightarrow> limbs \<Rightarrow> int" where
  "Cmp_loop (x # xs) (y # ys) = (if x \<noteq> y then (if x < y then - 1 else 1) else Cmp_loop xs ys)"
| "Cmp_loop _ _ = 0"

definition Nat_Cmp :: "limbs \<Rightarrow> limbs \<Rightarrow> int" where
  "Nat_Cmp a b = (if length a \<noteq> length b then (if length a < length b then - 1 else 1) else Cmp_loop (rev a) (rev b))"

text \<open>One row of the product, added to the limbs of the result from its own on; the last carry goes to the limb after the row.\<close>

fun Mul_row :: "u32 \<Rightarrow> u64 \<Rightarrow> limbs \<Rightarrow> limbs \<Rightarrow> limbs" where
  "Mul_row a carry (y # ys) (z # zs) = (let v = ucast a * ucast y + ucast z + carry in ucast v # Mul_row a (drop_bit 32 v) ys zs)"
| "Mul_row a carry [] (z # zs) = ucast carry # zs"
| "Mul_row a carry _ [] = []"

fun Mul_rows :: "limbs \<Rightarrow> limbs \<Rightarrow> limbs \<Rightarrow> limbs" where
  "Mul_rows [] b w = w"
| "Mul_rows (x # xs) b w = (case Mul_row x 0 b w of [] \<Rightarrow> [] | z # zs \<Rightarrow> z # Mul_rows xs b zs)"

definition Nat_Mul :: "limbs \<Rightarrow> limbs \<Rightarrow> limbs" where
  "Nat_Mul a b = (if a = [] \<or> b = [] then [] else Nat_Trim (Mul_rows a b (replicate (length a + length b) 0)))"

fun Pow10_loop :: "limbs \<Rightarrow> nat \<Rightarrow> limbs" where
  "Pow10_loop w n =
     (if 9 \<le> n then Pow10_loop (MulSmall w 1000000000) (n - 9) else if 0 < n then Pow10_loop (MulSmall w 10) (n - 1) else w)"

declare Pow10_loop.simps [simp del]

definition Nat_Pow10 :: "int \<Rightarrow> limbs" where
  "Nat_Pow10 n = Pow10_loop [1] (nat n)"

section \<open>Division\<close>

text \<open>The shift that sets the top bit of a limb other than zero.\<close>

fun norm_shift :: "nat \<Rightarrow> u32 \<Rightarrow> nat" where
  "norm_shift 0 top_limb = 0"
| "norm_shift (Suc k) top_limb = (if top_limb AND 0x80000000 = 0 then Suc (norm_shift k (push_bit 1 top_limb)) else 0)"

text \<open>The estimate of a quotient digit, lowered while the second limb of the divisor shows that it is too large.\<close>

function qhat_loop :: "u32 \<Rightarrow> u32 \<Rightarrow> u32 \<Rightarrow> u64 \<Rightarrow> u64 \<Rightarrow> u64" where
  "qhat_loop v1 v2 u2 qhat rhat =
     (if 0x100000000 \<le> qhat \<or> (push_bit 32 rhat OR ucast u2) < qhat * ucast v2 then
        let qhat' = qhat - 1; rhat' = rhat + ucast v1
        in if 0x100000000 \<le> rhat' then qhat' else qhat_loop v1 v2 u2 qhat' rhat'
      else qhat)"
  by pat_completeness auto
termination
proof (relation "measure (\<lambda>(v1, v2, u2, qhat, rhat). unat qhat)")
  fix v1 v2 u2 :: u32 and qhat rhat qhat' rhat' :: u64
  assume c: "0x100000000 \<le> qhat \<or> (push_bit 32 rhat OR ucast u2) < qhat * ucast v2" and q: "qhat' = qhat - 1"
  then have "qhat \<noteq> 0" by auto
  then show "((v1, v2, u2, qhat', rhat'), v1, v2, u2, qhat, rhat) \<in> measure (\<lambda>(v1, v2, u2, qhat, rhat). unat qhat)"
    by (simp add: q unat_minus_one unat_gt_0)
qed simp

declare qhat_loop.simps [simp del]

text \<open>The product of the digit and the divisor is subtracted; the result says whether the difference was negative.\<close>

fun mul_sub :: "u64 \<Rightarrow> int \<Rightarrow> u64 \<Rightarrow> limbs \<Rightarrow> limbs \<Rightarrow> limbs \<times> bool" where
  "mul_sub qhat borrow carry (y # ys) (z # zs) =
     (let p = qhat * ucast y + carry; t = uint z - borrow - uint (p AND 0xffffffff);
          (ws, neg) = mul_sub qhat (if t < 0 then 1 else 0) (drop_bit 32 p) ys zs
      in (word_of_int t # ws, neg))"
| "mul_sub qhat borrow carry [] (z # zs) = (let t = uint z - borrow - uint carry in (word_of_int t # zs, t < 0))"
| "mul_sub qhat borrow carry _ [] = ([], False)"

fun add_back :: "u64 \<Rightarrow> limbs \<Rightarrow> limbs \<Rightarrow> limbs" where
  "add_back c (y # ys) (z # zs) = (let s = ucast z + ucast y + c in ucast s # add_back (drop_bit 32 s) ys zs)"
| "add_back c [] (z # zs) = ucast (ucast z + c) # zs"
| "add_back c _ [] = []"

text \<open>One digit, on the limbs of the dividend from its own on.\<close>

definition div_step :: "limbs \<Rightarrow> limbs \<Rightarrow> u32 \<times> limbs" where
  "div_step v w =
     (let n = length v; top_limbs = push_bit 32 (ucast (w ! n)) OR ucast (w ! (n - 1)); v1 = v ! (n - 1);
          qhat = qhat_loop v1 (v ! (n - 2)) (w ! (n - 2)) (top_limbs div ucast v1) (top_limbs mod ucast v1);
          (w', neg) = mul_sub qhat 0 0 v w
      in if neg then (ucast (qhat - 1), add_back 0 v w') else (ucast qhat, w'))"

text \<open>The digits from the highest down.\<close>

fun div_loop :: "limbs \<Rightarrow> nat \<Rightarrow> limbs \<Rightarrow> limbs \<times> limbs" where
  "div_loop v 0 u = ([], u)"
| "div_loop v (Suc k) u =
     (let (digit, w) = div_step v (drop k u); (q, u') = div_loop v k (take k u @ w) in (q @ [digit], u'))"

definition Nat_DivMod :: "limbs \<Rightarrow> limbs \<Rightarrow> limbs \<times> limbs" where
  "Nat_DivMod a d =
     (if Nat_Cmp a d < 0 then ([], a)
      else if length d = 1 then (let (q, r) = DivSmall a (hd d) in (q, Nat_of r))
      else
        let shift = norm_shift 32 (last d); v = Nat_Shl d shift; u0 = Nat_Shl a shift;
            u = u0 @ replicate (max (length u0) (length a) + 1 - length u0) 0;
            (q, u') = div_loop v (length u - length v) u
        in (Nat_Trim q, Nat_Shr (Nat_Trim u') shift))"

text \<open>Nine digits at a time, from the least significant.\<close>

fun chunk_digits :: "nat \<Rightarrow> u32 \<Rightarrow> string" where
  "chunk_digits 0 chunk = []"
| "chunk_digits (Suc k) chunk = digit_char (unat (chunk mod 10)) # chunk_digits k (chunk div 10)"

section \<open>The number a vector denotes\<close>

definition limb_base :: nat where
  "limb_base = 4294967296"

fun nat_val :: "limbs \<Rightarrow> nat" where
  "nat_val [] = 0"
| "nat_val (x # xs) = unat x + limb_base * nat_val xs"

text \<open>No zero limb at the top.\<close>

definition nat_ok :: "limbs \<Rightarrow> bool" where
  "nat_ok w \<longleftrightarrow> w = [] \<or> last w \<noteq> 0"

lemma limb_base_pos [simp]: "0 < limb_base" "limb_base \<noteq> 0" "1 < limb_base" "1 \<le> limb_base" "Suc 0 \<le> limb_base"
  by (simp_all add: limb_base_def)

lemma limb_less [simp]: "unat (x :: u32) < limb_base" "uint (x :: u32) < int limb_base"
  using unat_lt_word(3) [of x] uint_bounded [of x] by (simp_all add: limb_base_def)

lemma limb_halves:
  fixes v :: u64
  shows "unat (ucast v :: u32) = unat v mod limb_base" "unat (drop_bit 32 v) = unat v div limb_base"
    "unat (ucast (drop_bit 32 v) :: u32) = unat v div limb_base" "uint (v AND 0xffffffff) = int (unat v mod limb_base)"
proof -
  show a: "unat (ucast v :: u32) = unat v mod limb_base" "unat (drop_bit 32 v) = unat v div limb_base"
    by (simp_all add: word_nat limb_base_def)
  have "unat v div limb_base < limb_base" using unat_lt_word(4) [of v] by (simp add: limb_base_def less_mult_imp_div_less)
  then show "unat (ucast (drop_bit 32 v) :: u32) = unat v div limb_base" using a by (simp add: limb_base_def word_nat)
  have m: "n AND 4294967295 = n mod 4294967296" for n :: nat
    using take_bit_eq_mask [of 32 n] by (simp add: take_bit_eq_mod mask_eq_exp_minus_1)
  have "unat (v AND 0xffffffff) = unat v mod limb_base" by (simp add: word_nat m limb_base_def)
  then show "uint (v AND 0xffffffff) = int (unat v mod limb_base)" by (metis uint_nat)
qed

lemma unat_wide [simp]: "unat (ucast (x :: u32) :: u64) = unat x"
  by (simp add: word_nat)

lemma small64: "n < limb_base * limb_base \<Longrightarrow> n < 2 ^ 64"
  by (simp add: limb_base_def)

lemma unat_mul64: "unat x * unat y < limb_base * limb_base \<Longrightarrow> unat (x * y :: u64) = unat x * unat y"
  using unat_mult_lem [of x y] small64 by simp

lemma unat_add64: "unat x + unat y < limb_base * limb_base \<Longrightarrow> unat (x + y :: u64) = unat x + unat y"
  using unat_add_lem [of x y] small64 by simp

lemma limb_product: "a < limb_base \<Longrightarrow> b < limb_base \<Longrightarrow> c < limb_base \<Longrightarrow> d < limb_base \<Longrightarrow> a * b + c + d < limb_base * limb_base"
proof -
  assume "a < limb_base" "b < limb_base" "c < limb_base" "d < limb_base"
  then have "a \<le> limb_base - 1" "b \<le> limb_base - 1" "c \<le> limb_base - 1" "d \<le> limb_base - 1" by simp_all
  then have "a * b \<le> (limb_base - 1) * (limb_base - 1)" by (intro mult_le_mono)
  then have "a * b + c + d \<le> (limb_base - 1) * (limb_base - 1) + (limb_base - 1) + (limb_base - 1)"
    using \<open>c \<le> _\<close> \<open>d \<le> _\<close> by linarith
  also have "\<dots> < limb_base * limb_base" by (simp add: limb_base_def)
  finally show ?thesis .
qed

lemma div_base_less: "n < limb_base * limb_base \<Longrightarrow> n div limb_base < limb_base"
  by (simp add: less_mult_imp_div_less)

lemma split_base: "n mod limb_base + limb_base * (r + n div limb_base) = n + limb_base * r"
  by (simp add: distrib_left)

lemma base_digits:
  assumes "x < limb_base" "y < limb_base" "x + limb_base * m = y + limb_base * n"
  shows "x = y \<and> m = n"
proof -
  have "x = (x + limb_base * m) mod limb_base" "m = (x + limb_base * m) div limb_base" using assms(1) by simp_all
  moreover have "y = (y + limb_base * n) mod limb_base" "n = (y + limb_base * n) div limb_base" using assms(2) by simp_all
  ultimately show ?thesis using assms(3) by simp
qed

lemma nat_val_append [simp]: "nat_val (xs @ ys) = nat_val xs + limb_base ^ length xs * nat_val ys"
  by (induction xs) (simp_all add: algebra_simps)

lemma nat_val_zeros [simp]: "nat_val (replicate k 0) = 0"
  by (induction k) simp_all

lemma nat_val_less: "nat_val w < limb_base ^ length w"
proof (induction w)
  case (Cons x xs)
  then have "nat_val xs + 1 \<le> limb_base ^ length xs" by simp
  then have "limb_base * (nat_val xs + 1) \<le> limb_base * limb_base ^ length xs" by (rule mult_le_mono2)
  moreover have "unat x < limb_base" by simp
  ultimately show ?case by (simp only: nat_val.simps list.size power_Suc add_Suc_right add_0_right distrib_left mult_1_right)
qed simp

lemma Trim_zeros: "\<exists>k. w = Nat_Trim w @ replicate k 0"
proof -
  have "takeWhile (\<lambda>x. x = 0) (rev w) = replicate (length (takeWhile (\<lambda>x. x = 0) (rev w))) 0"
    by (intro replicate_eqI) (auto dest: set_takeWhileD)
  moreover have "w = rev (dropWhile (\<lambda>x. x = 0) (rev w)) @ rev (takeWhile (\<lambda>x. x = 0) (rev w))"
    by (metis rev_append rev_rev_ident takeWhile_dropWhile_id)
  ultimately show ?thesis unfolding Nat_Trim_def by (metis rev_replicate)
qed

lemma nat_val_Trim [simp]: "nat_val (Nat_Trim w) = nat_val w"
proof -
  obtain k where "w = Nat_Trim w @ replicate k 0" using Trim_zeros by blast
  then have "nat_val w = nat_val (Nat_Trim w @ replicate k 0)" by simp
  then show ?thesis by simp
qed

lemma nat_ok_Trim [simp]: "nat_ok (Nat_Trim w)"
proof (cases "dropWhile (\<lambda>x. x = 0) (rev w) = []")
  case False
  then show ?thesis using hd_dropWhile [of "\<lambda>x. x = 0" "rev w"] by (auto simp: nat_ok_def Nat_Trim_def last_rev)
qed (simp add: nat_ok_def Nat_Trim_def)

lemma nat_ok_Nil [simp]: "nat_ok []"
  by (simp add: nat_ok_def)

lemma nat_ok_lower: "nat_ok w \<Longrightarrow> w \<noteq> [] \<Longrightarrow> limb_base ^ (length w - 1) \<le> nat_val w"
proof -
  assume ok: "nat_ok w" "w \<noteq> []"
  then have w: "w = butlast w @ [last w]" and l: "0 < unat (last w)" by (simp_all add: nat_ok_def unat_gt_0)
  have "limb_base ^ (length w - 1) * 1 \<le> limb_base ^ (length w - 1) * unat (last w)" using l by (intro mult_le_mono2) simp
  moreover have "nat_val w = nat_val (butlast w) + limb_base ^ (length w - 1) * unat (last w)"
    by (subst w) simp
  ultimately show ?thesis by linarith
qed

lemma nat_val_0 [simp]: "nat_ok w \<Longrightarrow> nat_val w = 0 \<longleftrightarrow> w = []"
proof (cases "w = []")
  case False
  assume "nat_ok w"
  from nat_ok_lower [OF this False] have "nat_val w \<noteq> 0" by (metis limb_base_pos(1) zero_less_power le_zero_eq less_numeral_extra(3))
  with False show ?thesis by simp
qed simp

lemma nat_val_pos [simp]: "nat_ok w \<Longrightarrow> 0 < nat_val w \<longleftrightarrow> w \<noteq> []"
  using nat_val_0 [of w] by (metis gr0I less_numeral_extra(3))

lemma nat_ok_shorter: "nat_ok w \<Longrightarrow> nat_val w < limb_base ^ k \<Longrightarrow> length w \<le> k"
proof (rule ccontr)
  assume w: "nat_ok w" "nat_val w < limb_base ^ k" "\<not> length w \<le> k"
  then have "limb_base ^ k \<le> limb_base ^ (length w - 1)" by (intro power_increasing) simp_all
  moreover have "w \<noteq> []" using w(3) by auto
  ultimately show False using nat_ok_lower [OF w(1)] w(2) by linarith
qed

lemma nat_ok_inj: "nat_ok a \<Longrightarrow> nat_ok b \<Longrightarrow> nat_val a = nat_val b \<Longrightarrow> a = b"
proof (induction a arbitrary: b)
  case (Cons x xs)
  obtain y ys where b: "b = y # ys" using Cons.prems nat_val_0 [OF Cons.prems(1)] by (cases b) simp_all
  have "unat x = unat y \<and> nat_val xs = nat_val ys" using Cons.prems(3) b by (intro base_digits) simp_all
  moreover have "nat_ok xs" "nat_ok ys" using Cons.prems(1,2) b by (auto simp: nat_ok_def split: if_splits)
  moreover have "unat x = unat y \<Longrightarrow> x = y" by (simp add: word_unat_eq_iff)
  ultimately show ?case using Cons.IH b by blast
qed (metis nat_ok_Nil nat_val.simps(1) nat_val_0)

section \<open>Small operands\<close>

lemma Nat_of_val [simp]: "nat_val (Nat_of v) = unat v" "nat_ok (Nat_of v)"
  by (simp_all add: Nat_of_def nat_ok_def)

lemma MulSmall_loop_val: "unat carry < limb_base \<Longrightarrow> nat_val (MulSmall_loop m carry w) = nat_val w * unat m + unat carry"
proof (induction m carry w rule: MulSmall_loop.induct)
  case (1 m carry)
  then show ?case by (auto simp: limb_halves)
next
  case (2 m carry x xs)
  let ?v = "ucast x * ucast m + carry :: u64"
  have p: "unat x * unat m + unat carry < limb_base * limb_base"
    using limb_product [of "unat x" "unat m" "unat carry" 0] 2(2) by simp
  then have v: "unat ?v = unat x * unat m + unat carry" by (simp add: unat_add64 unat_mul64)
  then have "unat (drop_bit 32 ?v) < limb_base" using p by (simp add: limb_halves div_base_less)
  note IH = 2(1) [OF HOL.refl this]
  have "nat_val (MulSmall_loop m carry (x # xs)) = unat ?v mod limb_base + limb_base * (nat_val xs * unat m + unat ?v div limb_base)"
    by (simp add: Let_def IH limb_halves)
  also have "\<dots> = unat ?v + limb_base * (nat_val xs * unat m)" by (rule split_base)
  finally show ?case unfolding v by (simp add: algebra_simps)
qed

lemma MulSmall_val [simp]: "nat_val (MulSmall w m) = nat_val w * unat m" "nat_ok (MulSmall w m)"
  by (simp_all add: MulSmall_def MulSmall_loop_val)

lemma AddSmall_loop_val: "unat carry < limb_base \<Longrightarrow> nat_val (AddSmall_loop carry w) = nat_val w + unat carry"
proof (induction carry w rule: AddSmall_loop.induct)
  case (1 carry w)
  show ?case
  proof (cases "carry = 0")
    case False
    let ?x = "(case w of [] \<Rightarrow> 0 | x # xs \<Rightarrow> ucast x) :: u64"
    let ?v = "?x + carry"
    have x: "unat ?x < limb_base" "nat_val w = unat ?x + limb_base * nat_val (tl w)" by (cases w; simp)+
    have "unat ?x + unat carry < limb_base * limb_base" using x(1) 1(2) by (simp add: limb_base_def)
    then have v: "unat ?v = unat ?x + unat carry" by (rule unat_add64)
    then have "unat (drop_bit 32 ?v) < limb_base" using x(1) 1(2) by (simp add: limb_halves div_base_less limb_base_def)
    note IH = 1(1) [OF False HOL.refl this]
    have "nat_val (AddSmall_loop carry w) = unat ?v mod limb_base + limb_base * (nat_val (tl w) + unat ?v div limb_base)"
      by (subst AddSmall_loop.simps) (simp add: False Let_def IH limb_halves)
    also have "\<dots> = unat ?v + limb_base * nat_val (tl w)" by (rule split_base)
    finally show ?thesis by (simp only: v x(2))
  qed (simp add: AddSmall_loop.simps)
qed

lemma AddSmall_loop_empty: "AddSmall_loop carry w = [] \<longleftrightarrow> carry = 0 \<and> w = []"
  by (subst AddSmall_loop.simps) (simp add: Let_def)

lemma AddSmall_loop_ok: "unat carry < limb_base \<Longrightarrow> nat_ok w \<Longrightarrow> nat_ok (AddSmall_loop carry w)"
proof (induction carry w rule: AddSmall_loop.induct)
  case (1 carry w)
  show ?case
  proof (cases "carry = 0")
    case False
    let ?x = "(case w of [] \<Rightarrow> 0 | x # xs \<Rightarrow> ucast x) :: u64"
    let ?v = "?x + carry"
    have x: "unat ?x < limb_base" by (cases w) simp_all
    have "unat ?x + unat carry < limb_base * limb_base" using x 1(2) by (simp add: limb_base_def)
    then have v: "unat ?v = unat ?x + unat carry" by (rule unat_add64)
    have d: "unat (drop_bit 32 ?v) < limb_base" using x 1(2) by (simp add: v limb_halves div_base_less limb_base_def)
    have "nat_ok (tl w)" using 1(3) by (cases w) (auto simp: nat_ok_def split: if_splits)
    note IH = 1(1) [OF False HOL.refl d this]
    have r: "AddSmall_loop carry w = ucast ?v # AddSmall_loop (drop_bit 32 ?v) (tl w)"
      by (subst AddSmall_loop.simps) (simp add: False Let_def)
    show ?thesis
    proof (cases "AddSmall_loop (drop_bit 32 ?v) (tl w) = []")
      case True
      then have "drop_bit 32 ?v = 0" "tl w = []" by (simp_all add: AddSmall_loop_empty)
      then have "unat ?v < limb_base" using limb_halves(2) [of ?v] by (simp add: div_eq_0_iff)
      then have "unat (ucast ?v :: u32) = unat ?x + unat carry" by (simp add: limb_halves v)
      moreover have "0 < unat carry" using False by (simp add: unat_gt_0)
      ultimately have "(ucast ?v :: u32) \<noteq> 0" by (metis add_gr_0 unat_0 less_numeral_extra(3))
      with True r show ?thesis by (simp add: nat_ok_def)
    next
      case False
      with IH r show ?thesis by (simp add: nat_ok_def)
    qed
  qed (use 1 in \<open>simp add: AddSmall_loop.simps\<close>)
qed

lemma AddSmall_val [simp]: "nat_val (AddSmall w a) = nat_val w + unat a" "nat_ok w \<Longrightarrow> nat_ok (AddSmall w a)"
  by (simp_all add: AddSmall_def AddSmall_loop_val AddSmall_loop_ok)

lemma scale_div: "p * v = p * (v mod d) + p * (v div d) * (d :: nat)"
  by (metis add.commute distrib_left div_mult_mod_eq mult.assoc)

lemma DivSmall_loop_val:
  assumes "DivSmall_loop d rem w = (q, r)" "unat rem < unat d"
  shows "unat r < unat d \<and> length q = length w \<and> nat_val (rev w) + limb_base ^ length w * unat rem = nat_val (rev q) * unat d + unat r"
  using assms
proof (induction d rem w arbitrary: q rule: DivSmall_loop.induct)
  case (2 d rem x xs)
  let ?v = "push_bit 32 rem OR ucast x :: u64"
  obtain q' where q': "DivSmall_loop d (?v mod ucast d) xs = (q', r)" "q = ucast (?v div ucast d) # q'"
    using 2(2) by (auto simp: Let_def split: prod.splits)
  have rem: "unat rem < limb_base" using 2(3) limb_less(1) [of d] by linarith
  have "unat (ucast x OR push_bit 32 rem :: u64) = unat x + unat rem * 2 ^ 32"
    using unat_or_push_bit [of "ucast x :: u64" 32 rem] rem limb_less(1) [of x] by (simp add: limb_base_def)
  then have v: "unat ?v = unat x + limb_base * unat rem" by (simp add: or.commute limb_base_def mult.commute)
  have d: "0 < unat d" using 2(3) by simp
  have m: "unat (?v mod ucast d) = unat ?v mod unat d" "unat (?v div ucast d) = unat ?v div unat d"
    by (simp_all add: unat_mod_distrib unat_div_distrib)
  have "unat ?v < limb_base * unat d"
  proof -
    have "limb_base * (unat rem + 1) \<le> limb_base * unat d" using 2(3) by (intro mult_le_mono2) simp
    moreover have "unat x < limb_base" by simp
    ultimately show ?thesis unfolding v by (simp only: distrib_left mult_1_right)
  qed
  then have qd: "unat ?v div unat d < limb_base" using d by (simp add: div_less_iff_less_mult)
  have IH: "unat r < unat d \<and> length q' = length xs \<and>
      nat_val (rev xs) + limb_base ^ length xs * (unat ?v mod unat d) = nat_val (rev q') * unat d + unat r"
    using 2(1) [OF HOL.refl q'(1)] d m by simp
  have qv: "nat_val (rev q) = nat_val (rev q') + limb_base ^ length xs * (unat ?v div unat d)"
    using IH qd m by (simp add: q' limb_halves)
  have "nat_val (rev (x # xs)) + limb_base ^ length (x # xs) * unat rem = nat_val (rev xs) + limb_base ^ length xs * unat ?v"
    by (simp add: v algebra_simps)
  also have "\<dots> = nat_val (rev xs) + limb_base ^ length xs * (unat ?v mod unat d) + limb_base ^ length xs * (unat ?v div unat d) * unat d"
    using scale_div [of "limb_base ^ length xs" "unat ?v" "unat d"] by linarith
  also have "\<dots> = nat_val (rev q) * unat d + unat r" using IH by (simp add: qv algebra_simps)
  finally show ?case using IH q'(2) by simp
qed simp

lemma DivSmall_val:
  assumes "DivSmall w d = (q, r)" "d \<noteq> 0"
  shows "nat_val w = nat_val q * unat d + unat r \<and> unat r < unat d \<and> nat_ok q"
proof -
  obtain q' r' where l: "DivSmall_loop d 0 (rev w) = (q', r')" by fastforce
  have d: "0 < unat d" using assms(2) by (simp add: unat_gt_0)
  from DivSmall_loop_val [OF l] d have v: "unat r' < unat d" "nat_val w = nat_val (rev q') * unat d + unat r'" by simp_all
  moreover have "unat r' < limb_base" using v(1) limb_less(1) [of d] by linarith
  ultimately show ?thesis using assms(1) l by (auto simp: DivSmall_def limb_halves)
qed

section \<open>Subtraction, shifts and comparison\<close>

lemma word_of_int_limb:
  assumes "- int limb_base \<le> t" "t < int limb_base"
  shows "int (unat (word_of_int t :: u32)) = t + (if t < 0 then int limb_base else 0)"
proof -
  have "int (unat (word_of_int t :: u32)) = t mod int limb_base"
    by (simp add: uint_word_of_int limb_base_def flip: uint_nat)
  also have "\<dots> = t + (if t < 0 then int limb_base else 0)"
  proof (cases "t < 0")
    case True
    have "(t + int limb_base) mod int limb_base = t + int limb_base" using assms True by (intro mod_pos_pos_trivial) simp_all
    with True show ?thesis by simp
  next
    case False
    with assms show ?thesis by simp
  qed
  finally show ?thesis .
qed

lemma Sub_loop_val:
  assumes "borrow \<in> {0, 1}" "length b \<le> length a"
  shows "length (Sub_loop borrow a b) = length a \<and>
    (\<exists>k \<in> {0, 1}. int (nat_val (Sub_loop borrow a b)) = int (nat_val a) - int (nat_val b) - borrow + int limb_base ^ length a * k)"
  using assms
proof (induction borrow a b rule: Sub_loop.induct)
  case (2 borrow x xs b)
  let ?y = "(case b of [] \<Rightarrow> 0 | y # ys \<Rightarrow> uint y)"
  let ?t = "uint x - ?y - borrow"
  have y: "0 \<le> ?y" "?y < int limb_base" "int (nat_val b) = ?y + int limb_base * int (nat_val (tl b))" by (cases b; simp)+
  have br: "0 \<le> borrow" "borrow \<le> 1" "0 \<le> uint x" "uint x < int limb_base" using 2(2) by auto
  have t: "- int limb_base \<le> ?t" "?t < int limb_base" using y(1,2) br by linarith+
  let ?k = "if ?t < 0 then 1 else 0 :: int"
  have "?k \<in> {0, 1}" "length (tl b) \<le> length xs" using 2(3) by simp_all
  from 2(1) [OF HOL.refl this] obtain k where k: "k \<in> {0, 1}" "length (Sub_loop ?k xs (tl b)) = length xs"
    "int (nat_val (Sub_loop ?k xs (tl b))) = int (nat_val xs) - int (nat_val (tl b)) - ?k + int limb_base ^ length xs * k"
    by blast
  have "int (nat_val (Sub_loop borrow (x # xs) b)) =
      ?t + int limb_base * ?k + int limb_base * (int (nat_val xs) - int (nat_val (tl b)) - ?k + int limb_base ^ length xs * k)"
    using k(3) word_of_int_limb [OF t] by (simp add: Let_def)
  also have "\<dots> = int (nat_val (x # xs)) - int (nat_val b) - borrow + int limb_base ^ length (x # xs) * k"
    unfolding y(3) by (simp add: algebra_simps)
  finally show ?case using k(1,2) by (auto simp: Let_def)
qed simp

lemma Nat_Sub_val [simp]:
  assumes "nat_ok b" "nat_val b \<le> nat_val a"
  shows "nat_val (Nat_Sub a b) = nat_val a - nat_val b"
proof -
  have "length b \<le> length a" using nat_ok_shorter [OF assms(1)] nat_val_less [of a] assms(2) by (meson le_less_trans)
  with Sub_loop_val [of 0 b a] obtain k where k: "k \<in> {0, 1}" "length (Sub_loop 0 a b) = length a"
    "int (nat_val (Sub_loop 0 a b)) = int (nat_val a) - int (nat_val b) + int limb_base ^ length a * k" by auto
  have "k \<noteq> 1"
  proof
    assume "k = 1"
    with k(3) assms(2) have "int (limb_base ^ length a) \<le> int (nat_val (Sub_loop 0 a b))" by simp
    with nat_val_less [of "Sub_loop 0 a b"] k(2) show False by simp
  qed
  with k have "int (nat_val (Sub_loop 0 a b)) = int (nat_val a - nat_val b)" using assms(2) by auto
  then show ?thesis by (simp add: Nat_Sub_def)
qed

lemma Nat_Sub_ok [simp]: "nat_ok (Nat_Sub a b)"
  by (simp add: Nat_Sub_def)

lemma Shl_loop_val:
  assumes "sh < 32" "unat high < 2 ^ sh"
  shows "nat_val (Shl_loop sh high w) = nat_val w * 2 ^ sh + unat high"
  using assms
proof (induction sh high w rule: Shl_loop.induct)
  case (2 sh high x xs)
  let ?v = "push_bit sh (ucast x) :: u64"
  have b: "limb_base = 2 ^ (32 - sh) * 2 ^ sh" using 2(2) by (simp add: limb_base_def flip: power_add)
  have "unat x * 2 ^ sh < limb_base * 2 ^ sh" by simp
  also have "\<dots> \<le> limb_base * limb_base" by (intro mult_le_mono2) (simp add: b)
  finally have "unat x * 2 ^ sh < limb_base * limb_base" .
  then have v: "unat ?v = unat x * 2 ^ sh" using small64 by (simp add: word_nat)
  have "unat ?v mod limb_base = (unat x mod 2 ^ (32 - sh)) * 2 ^ sh" unfolding v b by (rule mod_mult_mult2)
  then have lo: "unat (high OR ucast ?v) = unat high + unat ?v mod limb_base"
    using or_disjoint_nat(1) [OF 2(3)] by (simp add: unsigned_or_eq limb_halves)
  have "unat ?v div limb_base < 2 ^ sh" unfolding v by (simp add: less_mult_imp_div_less mult.commute)
  then have IH: "nat_val (Shl_loop sh (ucast (drop_bit 32 ?v)) xs) = nat_val xs * 2 ^ sh + unat ?v div limb_base"
    using 2(1) [OF HOL.refl 2(2)] by (simp add: limb_halves(3))
  have "nat_val (Shl_loop sh high (x # xs)) = unat high + (unat ?v mod limb_base + limb_base * (nat_val xs * 2 ^ sh + unat ?v div limb_base))"
    by (simp add: Let_def IH lo)
  also have "\<dots> = unat high + (unat ?v + limb_base * (nat_val xs * 2 ^ sh))" by (simp only: split_base)
  finally show ?case unfolding v by (simp add: algebra_simps)
qed simp

lemma Shl_loop_length [simp]: "length (Shl_loop sh high w) = Suc (length w)"
  by (induction sh high w rule: Shl_loop.induct) (simp_all add: Let_def)

lemma base_power: "limb_base ^ k = 2 ^ (32 * k)"
  by (simp add: limb_base_def power_mult)

lemma Nat_Shl_val [simp]: "nat_val (Nat_Shl w bits) = nat_val w * 2 ^ bits" "nat_ok w \<Longrightarrow> nat_ok (Nat_Shl w bits)"
proof -
  have "limb_base ^ (bits div 32) * 2 ^ (bits mod 32) = (2 ^ bits :: nat)"
    by (simp add: base_power flip: power_add)
  then show "nat_val (Nat_Shl w bits) = nat_val w * 2 ^ bits"
    by (simp add: Nat_Shl_def Shl_loop_val mult.left_commute)
  show "nat_ok w \<Longrightarrow> nat_ok (Nat_Shl w bits)" by (simp add: Nat_Shl_def)
qed

lemma Shr_loop_val: "sh < 32 \<Longrightarrow> nat_val (Shr_loop sh w) = nat_val w div 2 ^ sh"
proof (induction sh w rule: Shr_loop.induct)
  case (2 sh x xs)
  let ?y = "(case xs of [] \<Rightarrow> 0 | y # ys \<Rightarrow> ucast y) :: u64"
  let ?v = "ucast x OR push_bit 32 ?y :: u64" and ?n = "nat_val (x # xs) div 2 ^ sh"
  have y: "unat ?y < limb_base" "nat_val xs = unat ?y + limb_base * nat_val (tl xs)" by (cases xs; simp)+
  have v: "unat ?v = unat x + limb_base * unat ?y"
    using unat_or_push_bit [of "ucast x :: u64" 32 ?y] y(1) limb_less(1) [of x] by (simp add: limb_base_def mult.commute)
  have b: "limb_base = 2 ^ (32 - sh) * 2 ^ sh" using 2(2) by (simp add: limb_base_def flip: power_add)
  have "nat_val (x # xs) = unat ?v + limb_base * (limb_base * nat_val (tl xs))" by (simp add: v y(2) algebra_simps)
  also have "\<dots> = unat ?v + 2 ^ sh * (limb_base * (2 ^ (32 - sh) * nat_val (tl xs)))"
    by (subst (1) b) (simp only: mult.assoc mult.left_commute)
  finally have "?n = unat ?v div 2 ^ sh + limb_base * (2 ^ (32 - sh) * nat_val (tl xs))" by simp
  then have "?n mod limb_base = unat ?v div 2 ^ sh mod limb_base" by simp
  also have "\<dots> = unat (ucast (drop_bit sh ?v) :: u32)" by (simp only: limb_halves(1) unat_drop_bit_eq drop_bit_eq_div [where ?'a = nat])
  finally have lo: "?n mod limb_base = unat (ucast (drop_bit sh ?v) :: u32)" .
  have "?n div limb_base = nat_val (x # xs) div limb_base div 2 ^ sh" by (simp only: div_mult2_eq [symmetric] mult.commute)
  then have hi: "?n div limb_base = nat_val xs div 2 ^ sh" by simp
  have "nat_val (Shr_loop sh (x # xs)) = ?n mod limb_base + limb_base * (?n div limb_base)"
    using 2(1) [OF HOL.refl 2(2)] lo hi by (auto simp: Let_def split: list.splits)
  then show ?case by simp
qed simp

lemma Nat_Shr_val [simp]: "nat_val (Nat_Shr w bits) = nat_val w div 2 ^ bits" "nat_ok (Nat_Shr w bits)"
proof -
  have p: "limb_base ^ (bits div 32) * 2 ^ (bits mod 32) = (2 ^ bits :: nat)"
    by (simp add: base_power flip: power_add)
  have "nat_val w = nat_val (take (bits div 32) w) + limb_base ^ (bits div 32) * nat_val (drop (bits div 32) w)" if "bits div 32 < length w"
    using nat_val_append [of "take (bits div 32) w" "drop (bits div 32) w"] that by simp
  moreover have "nat_val (take (bits div 32) w) < limb_base ^ (bits div 32)" if "bits div 32 < length w"
    using nat_val_less [of "take (bits div 32) w"] that by simp
  ultimately have "nat_val w div limb_base ^ (bits div 32) = nat_val (drop (bits div 32) w)" if "bits div 32 < length w" using that by simp
  then have "nat_val w div 2 ^ bits = nat_val (drop (bits div 32) w) div 2 ^ (bits mod 32)" if "bits div 32 < length w"
    using that by (simp add: div_mult2_eq flip: p)
  moreover have "nat_val w div 2 ^ bits = 0" if "length w \<le> bits div 32"
  proof -
    have "limb_base ^ length w \<le> 2 ^ bits" unfolding base_power using that by (intro power_increasing) auto
    with nat_val_less [of w] show ?thesis by simp
  qed
  ultimately show "nat_val (Nat_Shr w bits) = nat_val w div 2 ^ bits"
    by (cases "length w \<le> bits div 32") (simp_all add: Nat_Shr_def Shr_loop_val)
  show "nat_ok (Nat_Shr w bits)" by (simp add: Nat_Shr_def)
qed

lemma Cmp_loop_val:
  "length a = length b \<Longrightarrow>
     Cmp_loop a b = (if nat_val (rev a) < nat_val (rev b) then - 1 else if nat_val (rev a) = nat_val (rev b) then 0 else 1)"
proof (induction a b rule: Cmp_loop.induct)
  case (1 x xs y ys)
  have lt: "nat_val (rev as) + limb_base ^ length as * unat a < nat_val (rev bs) + limb_base ^ length bs * unat b"
    if "unat a < unat b" "length as = length bs" for as bs :: limbs and a b :: u32
  proof -
    have "limb_base ^ length as * (unat a + 1) \<le> limb_base ^ length as * unat b" using that(1) by (intro mult_le_mono2) simp
    with nat_val_less [of "rev as"] show ?thesis by (simp add: that(2) [symmetric] algebra_simps)
  qed
  show ?case
  proof (cases "x = y")
    case True
    with 1 show ?thesis by simp
  next
    case False
    then have "unat x < unat y \<or> unat y < unat x" by (metis linorder_neqE_nat word_unat_eq_iff)
    with lt [of x y xs ys] lt [of y x ys xs] 1(2) False show ?thesis by (auto simp: word_less_nat_alt)
  qed
qed auto

lemma Nat_Cmp_val:
  assumes "nat_ok a" "nat_ok b"
  shows "Nat_Cmp a b = (if nat_val a < nat_val b then - 1 else if nat_val a = nat_val b then 0 else 1)"
proof -
  have l: "nat_val x < nat_val y" if "length x < length y" "nat_ok y" for x y
  proof -
    have "limb_base ^ length x \<le> limb_base ^ (length y - 1)" using that(1) by (intro power_increasing) auto
    with nat_val_less [of x] nat_ok_lower [OF that(2)] that(1) show ?thesis by fastforce
  qed
  show ?thesis using l [of a b] l [of b a] assms Cmp_loop_val [of "rev a" "rev b"] by (auto simp: Nat_Cmp_def)
qed

section \<open>Products\<close>

lemma Mul_row_val:
  assumes "unat carry < limb_base" "length b < length w" "w ! length b = 0"
  shows "nat_val (Mul_row a carry b w) = nat_val w + unat a * nat_val b + unat carry" "length (Mul_row a carry b w) = length w"
    "drop (Suc (length b)) (Mul_row a carry b w) = drop (Suc (length b)) w"
proof -
  have "nat_val (Mul_row a carry b w) = nat_val w + unat a * nat_val b + unat carry \<and> length (Mul_row a carry b w) = length w \<and>
    drop (Suc (length b)) (Mul_row a carry b w) = drop (Suc (length b)) w"
    using assms
  proof (induction a carry b w rule: Mul_row.induct)
    case (1 a carry y ys z zs)
    let ?v = "ucast a * ucast y + ucast z + carry :: u64"
    have p: "unat a * unat y + unat z + unat carry < limb_base * limb_base" using limb_product 1(2) by simp
    then have v: "unat ?v = unat a * unat y + unat z + unat carry" by (simp add: unat_add64 unat_mul64)
    then have "unat (drop_bit 32 ?v) < limb_base" using p by (simp add: limb_halves div_base_less)
    with 1(1) [OF HOL.refl] 1(3,4) have IH: "nat_val (Mul_row a (drop_bit 32 ?v) ys zs) = nat_val zs + unat a * nat_val ys + unat ?v div limb_base"
      "length (Mul_row a (drop_bit 32 ?v) ys zs) = length zs" "drop (Suc (length ys)) (Mul_row a (drop_bit 32 ?v) ys zs) = drop (Suc (length ys)) zs"
      by (simp_all add: limb_halves)
    have "nat_val (Mul_row a carry (y # ys) (z # zs)) = unat ?v mod limb_base + limb_base * (nat_val zs + unat a * nat_val ys + unat ?v div limb_base)"
      by (simp add: Let_def IH limb_halves)
    also have "\<dots> = unat ?v + limb_base * (nat_val zs + unat a * nat_val ys)" by (rule split_base)
    finally have "nat_val (Mul_row a carry (y # ys) (z # zs)) = nat_val (z # zs) + unat a * nat_val (y # ys) + unat carry"
      unfolding v by (simp add: algebra_simps)
    with IH show ?case by (simp add: Let_def)
  qed (simp_all add: limb_halves)
  then show "nat_val (Mul_row a carry b w) = nat_val w + unat a * nat_val b + unat carry" "length (Mul_row a carry b w) = length w"
    "drop (Suc (length b)) (Mul_row a carry b w) = drop (Suc (length b)) w" by blast+
qed

lemma Mul_rows_val:
  assumes "length a + length b \<le> length w" "list_all (\<lambda>x. x = 0) (drop (length b) w)"
  shows "nat_val (Mul_rows a b w) = nat_val w + nat_val a * nat_val b"
  using assms
proof (induction a b w rule: Mul_rows.induct)
  case (2 x xs b w)
  have l: "length b < length w" using 2(2) by simp
  then have "w ! length b = 0" using 2(3) by (simp add: Cons_nth_drop_Suc [symmetric])
  note row = Mul_row_val [OF _ l this, of 0 x]
  obtain z zs where r: "Mul_row x 0 b w = z # zs" using row(2) l by (cases "Mul_row x 0 b w") auto
  have "drop (length b) zs = drop (Suc (length b)) w" using row(3) r by simp
  moreover have "list_all (\<lambda>x. x = 0) (drop (Suc (length b)) w)"
    using 2(3) l by (simp add: Cons_nth_drop_Suc [symmetric])
  moreover have "length xs + length b \<le> length zs" using 2(2) row(2) r by simp
  ultimately have "nat_val (Mul_rows xs b zs) = nat_val zs + nat_val xs * nat_val b" using 2(1) [OF r] by simp
  with row(1) r show ?case by (simp add: algebra_simps)
qed simp

lemma Nat_Mul_val [simp]: "nat_val (Nat_Mul a b) = nat_val a * nat_val b" "nat_ok (Nat_Mul a b)"
  using Mul_rows_val [of a b "replicate (length a + length b) 0"] by (auto simp: Nat_Mul_def list_all_iff)

lemma Pow10_loop_val: "nat_val (Pow10_loop w n) = nat_val w * 10 ^ n"
proof (induction w n rule: Pow10_loop.induct)
  case (1 w n)
  show ?case
  proof (cases "9 \<le> n")
    case True
    then have "(10 ^ n :: nat) = 10 ^ 9 * 10 ^ (n - 9)" by (simp only: power_add [symmetric]) simp
    with 1(1) True show ?thesis by (subst Pow10_loop.simps) simp
  next
    case False
    with 1(2) show ?thesis by (subst Pow10_loop.simps) (cases n; simp)
  qed
qed

lemma Pow10_loop_ok: "nat_ok w \<Longrightarrow> nat_ok (Pow10_loop w n)"
proof (induction w n rule: Pow10_loop.induct)
  case (1 w n)
  then show ?case by (subst Pow10_loop.simps) simp
qed

lemma Nat_Pow10_val [simp]: "nat_val (Nat_Pow10 n) = 10 ^ nat n" "nat_ok (Nat_Pow10 n)"
  by (simp_all add: Nat_Pow10_def Pow10_loop_val) (rule Pow10_loop_ok, simp add: nat_ok_def)

end
