(* ===== verification/BigNatDiv.thy ===== *)
theory BigNatDiv
  imports BigNat
begin

text \<open>
  Division of the natural numbers of \<open>src/pxf/bigfloat.cc\<close> gives the quotient and the remainder. The estimate of a digit is
  the quotient of the three highest limbs by the two highest of the divisor, capped at the largest limb; it is the digit or one more.
\<close>

section \<open>The estimate of a digit\<close>

lemma qhat_loop_val:
  assumes "unat qhat * unat v1 + unat rhat = T" "unat rhat < limb_base" "0 < unat v1" "T < unat v1 * limb_base + limb_base"
    "\<And>x. x < limb_base \<Longrightarrow> x * (unat v1 * limb_base + unat v2) \<le> T * limb_base + unat u2 \<Longrightarrow> x \<le> unat qhat"
  shows "unat (qhat_loop v1 v2 u2 qhat rhat) < limb_base \<and>
    unat (qhat_loop v1 v2 u2 qhat rhat) * (unat v1 * limb_base + unat v2) \<le> T * limb_base + unat u2 \<and>
    (\<forall>x < limb_base. x * (unat v1 * limb_base + unat v2) \<le> T * limb_base + unat u2 \<longrightarrow> x \<le> unat (qhat_loop v1 v2 u2 qhat rhat))"
  using assms
proof (induction v1 v2 u2 qhat rhat rule: qhat_loop.induct)
  case (1 v1 v2 u2 qhat rhat)
  let ?B = limb_base and ?q = "unat qhat" and ?r = "unat rhat" and ?v1 = "unat v1" and ?v2 = "unat v2" and ?u2 = "unat u2"
  let ?c = "0x100000000 \<le> qhat \<or> (push_bit 32 rhat OR ucast u2) < qhat * ucast v2"
  note T = 1(2) and r = 1(3) and v1 = 1(4) and Tb = 1(5) and ub = 1(6)
  have l: "?v1 < ?B" "?v2 < ?B" "?u2 < ?B" by simp_all
  have big: "0x100000000 \<le> qhat \<longleftrightarrow> ?B \<le> ?q" by (simp add: word_le_nat_alt limb_base_def)
  have "unat (ucast u2 OR push_bit 32 rhat :: u64) = ?u2 + ?r * 2 ^ 32"
    using unat_or_push_bit [of "ucast u2 :: u64" 32 rhat] r l by (simp add: limb_base_def)
  then have low: "unat (push_bit 32 rhat OR ucast u2 :: u64) = ?r * ?B + ?u2" by (simp add: or.commute limb_base_def)
  have prod: "unat (qhat * ucast v2) = ?q * ?v2" if "?q < ?B"
    using limb_product [OF that l(2), of 0 0] by (simp add: unat_mul64)
  have c: "?c \<longleftrightarrow> ?B \<le> ?q \<or> ?r * ?B + ?u2 < ?q * ?v2"
    using big prod by (auto simp: word_less_nat_alt low)
  have Tq: "T * ?B = ?q * ?v1 * ?B + ?r * ?B" by (simp add: T [symmetric] algebra_simps)
  show ?case
  proof (cases ?c)
    case False
    then have "?q < ?B" "?q * ?v2 \<le> ?r * ?B + ?u2" using c by auto
    with Tq ub False show ?thesis by (subst (1 2 3) qhat_loop.simps) (auto simp: algebra_simps)
  next
    case True
    have q0: "qhat \<noteq> 0" using True by auto
    then have q': "unat (qhat - 1) = ?q - 1" "0 < ?q" by (simp_all add: unat_minus_one unat_gt_0)
    have r': "unat (rhat + ucast v1) = ?r + ?v1" using r l(1) by (intro unat_add64 [THEN trans]) (simp_all add: limb_base_def)
    have T': "unat (qhat - 1) * ?v1 + unat (rhat + ucast v1) = T"
      using T q'(2) by (cases ?q) (simp_all add: q'(1) r')
    have ub': "x \<le> unat (qhat - 1)" if "x < ?B" "x * (?v1 * ?B + ?v2) \<le> T * ?B + ?u2" for x
    proof -
      have "x \<noteq> ?q"
      proof
        assume "x = ?q"
        with c True that(1) have "?r * ?B + ?u2 < ?q * ?v2" by auto
        with that(2) \<open>x = ?q\<close> Tq show False by (simp add: algebra_simps)
      qed
      with ub [OF that] show ?thesis by (simp add: q')
    qed
    show ?thesis
    proof (cases "0x100000000 \<le> rhat + ucast v1")
      case stop: True
      let ?x = "unat (qhat - 1)"
      have R: "?B \<le> ?r + ?v1" using stop by (simp add: word_le_nat_alt r' limb_base_def)
      have "?x * ?v1 < ?v1 * ?B" using T' Tb R unfolding r' by linarith
      then have x: "?x < ?B" by (simp add: mult.commute)
      have "?x * ?v2 \<le> ?B * ?B" using x l(2) by (intro mult_le_mono less_imp_le)
      also have "\<dots> \<le> (?r + ?v1) * ?B" using R by (intro mult_le_mono1)
      finally have "?x * (?v1 * ?B + ?v2) \<le> (?x * ?v1 + (?r + ?v1)) * ?B" by (simp add: algebra_simps)
      then have "?x * (?v1 * ?B + ?v2) \<le> T * ?B + ?u2" using T' by (simp add: r')
      moreover have "qhat_loop v1 v2 u2 qhat rhat = qhat - 1" using True stop by (subst qhat_loop.simps) (simp add: Let_def)
      ultimately show ?thesis using x ub' by simp
    next
      case go: False
      have "unat (rhat + ucast v1) < ?B" using go by (simp add: word_le_nat_alt r' limb_base_def)
      moreover have "qhat_loop v1 v2 u2 qhat rhat = qhat_loop v1 v2 u2 (qhat - 1) (rhat + ucast v1)"
        using True go by (subst qhat_loop.simps) (simp add: Let_def)
      ultimately show ?thesis using 1(1) [OF True HOL.refl HOL.refl go T' _ v1 Tb ub'] by simp
    qed
  qed
qed

section \<open>Multiply and subtract\<close>

lemma mul_sub_val:
  assumes "unat qhat < limb_base" "borrow \<in> {0, 1}" "unat carry < limb_base" "length ys < length zs" "mul_sub qhat borrow carry ys zs = (ws, neg)"
  shows "length ws = length zs \<and> drop (Suc (length ys)) ws = drop (Suc (length ys)) zs \<and>
    int (nat_val (take (Suc (length ys)) ws)) =
      int (nat_val (take (Suc (length ys)) zs)) - int (unat qhat * nat_val ys) - borrow - int (unat carry) +
      (if neg then int limb_base ^ Suc (length ys) else 0)"
  using assms
proof (induction qhat borrow carry ys zs arbitrary: ws rule: mul_sub.induct)
  case (1 qhat borrow carry y ys z zs)
  let ?p = "qhat * ucast y + carry" and ?B = "int limb_base"
  let ?t = "uint z - borrow - uint (?p AND 0xffffffff)"
  let ?k = "if ?t < 0 then 1 else 0 :: int"
  obtain ws' where m: "mul_sub qhat ?k (drop_bit 32 ?p) ys zs = (ws', neg)" "ws = word_of_int ?t # ws'"
    using 1(6) by (auto simp: Let_def split: prod.splits)
  have pb: "unat qhat * unat y + unat carry < limb_base * limb_base" using limb_product [OF 1(2) limb_less(1) 1(4), of 0] by simp
  then have p: "unat ?p = unat qhat * unat y + unat carry" by (simp add: unat_add64 unat_mul64)
  have b: "0 \<le> borrow" "borrow \<le> 1" "0 \<le> uint z" "uint z < ?B" using 1(3) by auto
  have pm: "uint (?p AND 0xffffffff) = int (unat ?p mod limb_base)" by (rule limb_halves(4))
  have pl: "int (unat ?p mod limb_base) < ?B" "0 \<le> int (unat ?p mod limb_base)" by simp_all
  have "- ?B \<le> ?t" "?t < ?B" using b pl unfolding pm by linarith+
  note t = word_of_int_limb [OF this]
  have "unat (drop_bit 32 ?p) < limb_base" using pb by (simp add: p limb_halves(2) div_base_less)
  moreover have "?k \<in> {0, 1}" "length ys < length zs" using 1(5) by simp_all
  ultimately have IH: "length ws' = length zs" "drop (Suc (length ys)) ws' = drop (Suc (length ys)) zs"
    "int (nat_val (take (Suc (length ys)) ws')) =
      int (nat_val (take (Suc (length ys)) zs)) - int (unat qhat * nat_val ys) - ?k - int (unat ?p div limb_base) + (if neg then ?B ^ Suc (length ys) else 0)"
    using 1(1) [OF HOL.refl HOL.refl 1(2) _ _ _ m(1)] by (simp_all add: limb_halves(2))
  have pd: "int (unat ?p) = int (unat ?p mod limb_base) + ?B * int (unat ?p div limb_base)"
    by (simp only: mod_mult_div_eq flip: of_nat_add of_nat_mult)
  have "int (nat_val (take (Suc (length (y # ys))) ws)) = int (unat (word_of_int ?t :: u32)) + ?B * int (nat_val (take (Suc (length ys)) ws'))"
    by (simp add: m(2))
  also have "\<dots> = ?t + ?B * ?k + ?B * (int (nat_val (take (Suc (length ys)) zs)) - int (unat qhat * nat_val ys) - ?k - int (unat ?p div limb_base) +
      (if neg then ?B ^ Suc (length ys) else 0))"
    unfolding IH(3) t by (simp split: if_split)
  also have "\<dots> = uint z - borrow - int (unat ?p) + ?B * (int (nat_val (take (Suc (length ys)) zs)) - int (unat qhat * nat_val ys)) +
      (if neg then ?B ^ Suc (Suc (length ys)) else 0)"
    unfolding pm pd by (simp add: algebra_simps)
  finally show ?case using IH(1,2) unfolding p by (simp add: m(2) algebra_simps)
next
  case (2 qhat borrow carry z zs)
  let ?t = "uint z - borrow - uint carry"
  have b: "0 \<le> borrow" "borrow \<le> 1" "0 \<le> uint z" "uint z < int limb_base" using 2(2) by auto
  have "uint carry = int (unat carry)" by simp
  then have "uint carry < int limb_base" "0 \<le> uint carry" using 2(3) by linarith+
  then have "- int limb_base \<le> ?t" "?t < int limb_base" using b by linarith+
  from word_of_int_limb [OF this] 2 show ?case by (auto simp: Let_def)
qed simp_all

lemma add_back_val:
  assumes "unat c \<le> 1" "length ys < length zs"
  shows "length (add_back c ys zs) = length zs" "drop (Suc (length ys)) (add_back c ys zs) = drop (Suc (length ys)) zs"
    "nat_val (take (Suc (length ys)) (add_back c ys zs)) =
      (nat_val (take (Suc (length ys)) zs) + nat_val ys + unat c) mod limb_base ^ Suc (length ys)"
proof -
  have "length (add_back c ys zs) = length zs \<and> drop (Suc (length ys)) (add_back c ys zs) = drop (Suc (length ys)) zs \<and>
    nat_val (take (Suc (length ys)) (add_back c ys zs)) =
      (nat_val (take (Suc (length ys)) zs) + nat_val ys + unat c) mod limb_base ^ Suc (length ys)"
    using assms
  proof (induction c ys zs rule: add_back.induct)
    case (1 c y ys z zs)
    let ?s = "ucast z + ucast y + c :: u64" and ?M = "limb_base ^ Suc (length ys)"
    let ?a = "nat_val (take (Suc (length ys)) zs) + nat_val ys"
    have l: "unat z < limb_base" "unat y < limb_base" by simp_all
    then have "unat z + unat y + unat c < limb_base * limb_base" "unat z + unat y + unat c < limb_base * 2" using 1(2) by (auto simp: limb_base_def)
    then have s: "unat ?s = unat z + unat y + unat c" "unat ?s div limb_base \<le> 1"
      by (simp_all add: unat_add64 less_mult_imp_div_less Suc_leI flip: less_Suc_eq_le)
    have IH: "length (add_back (drop_bit 32 ?s) ys zs) = length zs" "drop (Suc (length ys)) (add_back (drop_bit 32 ?s) ys zs) = drop (Suc (length ys)) zs"
      "nat_val (take (Suc (length ys)) (add_back (drop_bit 32 ?s) ys zs)) = (?a + unat ?s div limb_base) mod ?M"
      using 1(1) [OF HOL.refl] 1(3) s(2) by (simp_all add: limb_halves(2))
    have "(unat ?s + limb_base * ?a) mod (limb_base * ?M) = unat ?s mod limb_base + limb_base * ((?a + unat ?s div limb_base) mod ?M)"
      by (simp add: mod_mult2_eq add.commute)
    moreover have "nat_val (take (Suc (length (y # ys))) (z # zs)) + nat_val (y # ys) + unat c = unat ?s + limb_base * ?a"
      unfolding s(1) by (simp add: algebra_simps)
    moreover have "nat_val (take (Suc (length (y # ys))) (add_back c (y # ys) (z # zs))) =
        unat ?s mod limb_base + limb_base * ((?a + unat ?s div limb_base) mod ?M)"
      by (simp add: Let_def limb_halves IH)
    ultimately show ?case using IH(1,2) by (simp add: Let_def)
  next
    case (2 c z zs)
    have "unat z < limb_base" by simp
    then have "unat (ucast z + c :: u64) = unat z + unat c" using 2(1) by (simp add: unat_add64 limb_base_def)
    then show ?case by (simp add: limb_halves)
  qed simp_all
  then show "length (add_back c ys zs) = length zs" "drop (Suc (length ys)) (add_back c ys zs) = drop (Suc (length ys)) zs"
    "nat_val (take (Suc (length ys)) (add_back c ys zs)) =
      (nat_val (take (Suc (length ys)) zs) + nat_val ys + unat c) mod limb_base ^ Suc (length ys)" by blast+
qed

section \<open>One digit\<close>

lemma three_limbs: "Suc n < length w \<Longrightarrow> take (Suc (Suc n)) w = take n w @ [w ! n, w ! Suc n]"
  by (simp add: take_Suc_conv_app_nth)

text \<open>The capped quotient of the leading limbs is the digit or one more.\<close>

lemma estimate:
  fixes P :: nat
  assumes U: "U = Ul + P * U3" "Ul < P" and V: "V = Vl + P * V2" "Vl < P" "limb_base \<le> V2" and less: "U < V * limb_base"
    and r: "r < limb_base" "r * V2 \<le> U3" "\<And>x. x < limb_base \<Longrightarrow> x * V2 \<le> U3 \<Longrightarrow> x \<le> r"
  shows "r = U div V \<or> r = Suc (U div V)"
proof -
  let ?q = "U div V"
  have P: "0 < P" using U(2) by simp
  have V0: "0 < V" using less by (cases V) simp_all
  have "?q < limb_base" using less V0 by (simp add: div_less_iff_less_mult mult.commute)
  moreover have "?q * V2 \<le> U3"
  proof -
    have "P * (?q * V2) \<le> ?q * V" unfolding V(1) by (simp add: algebra_simps)
    also have "\<dots> \<le> U" by (simp add: mult.commute)
    also have "\<dots> < P * (U3 + 1)" using U by (simp add: algebra_simps)
    finally have "?q * V2 < U3 + 1" by (simp only: mult_less_cancel1)
    then show ?thesis by simp
  qed
  ultimately have q: "?q \<le> r" using r(3) by blast
  have "r * V \<le> P * U3 + P * limb_base"
  proof -
    have "r * V = P * (r * V2) + r * Vl" unfolding V(1) by (simp add: algebra_simps)
    also have "\<dots> \<le> P * U3 + limb_base * P" using r(1,2) V(2) by (intro add_mono mult_le_mono) simp_all
    finally show ?thesis by (simp add: mult.commute)
  qed
  moreover have "P * limb_base \<le> V" unfolding V(1) using V(3) by (simp add: trans_le_add2)
  ultimately have "r * V \<le> U + V" using U(1) by linarith
  then have "r \<le> (U + V) div V" using V0 by (simp add: less_eq_div_iff_mult_less_eq)
  with q V0 show ?thesis by (auto simp: div_add_self2)
qed

text \<open>The digit estimated from the top limbs is right or one too large.\<close>

lemma digit_estimate:
  assumes n: "length v = n" "2 \<le> n" "n < length w" and v1: "v ! (n - 1) \<noteq> 0"
    and less: "nat_val (take (Suc n) w) < nat_val v * limb_base"
    and tl: "top_limbs = push_bit 32 (ucast (w ! n)) OR ucast (w ! (n - 1))"
    and qh: "qhat = qhat_loop (v ! (n - 1)) (v ! (n - 2)) (w ! (n - 2)) (top_limbs div ucast (v ! (n - 1))) (top_limbs mod ucast (v ! (n - 1)))"
  shows "unat qhat < limb_base"
    "unat qhat = nat_val (take (Suc n) w) div nat_val v \<or> unat qhat = Suc (nat_val (take (Suc n) w) div nat_val v)"
proof -
  let ?B = limb_base and ?U = "nat_val (take (Suc n) w)" and ?V = "nat_val v"
  define m where "m = n - 2"
  have m: "n = Suc (Suc m)" using n(2) by (simp add: m_def)
  let ?v1 = "v ! Suc m" and ?v2 = "v ! m" and ?u0 = "w ! n" and ?u1 = "w ! Suc m" and ?u2 = "w ! m"
  have i: "n - 1 = Suc m" "n - 2 = m" using m by simp_all
  note top_limbs_def = tl [unfolded i] and qhat_def = qh [unfolded i]
  define T where "T = unat ?u0 * ?B + unat ?u1"
  have l: "unat ?u1 < ?B" "unat ?u2 < ?B" "unat ?v2 < ?B" "unat ?u0 < ?B" by simp_all
  have "unat (ucast ?u1 OR push_bit 32 (ucast ?u0) :: u64) = unat ?u1 + unat ?u0 * 2 ^ 32"
    using unat_or_push_bit [of "ucast ?u1 :: u64" 32 "ucast ?u0"] l by (simp add: limb_base_def)
  then have T: "unat top_limbs = T" by (simp add: top_limbs_def T_def or.commute limb_base_def)
  have "take (Suc n) w = take m w @ [?u2, ?u1, ?u0]" using n(3) m by (simp add: take_Suc_conv_app_nth)
  then have U: "?U = nat_val (take m w) + ?B ^ m * (T * ?B + unat ?u2)" using n(3) m by (simp add: T_def algebra_simps)
  have "v = take m v @ [?v2, ?v1]" using n(1) m three_limbs [of m v] by simp
  then have "?V = nat_val (take m v @ [?v2, ?v1])" by simp
  then have V: "?V = nat_val (take m v) + ?B ^ m * (unat ?v1 * ?B + unat ?v2)" using n(1) m by (simp add: algebra_simps)
  have Ul: "nat_val (take m w) < ?B ^ m" and Vl: "nat_val (take m v) < ?B ^ m"
    using nat_val_less [of "take m w"] nat_val_less [of "take m v"] n m by simp_all
  have v10: "0 < unat ?v1" using v1 m by (simp add: unat_gt_0)
  have Tb: "T < unat ?v1 * ?B + ?B"
  proof -
    have "?B ^ m * (T * ?B) \<le> ?U" unfolding U by (simp add: algebra_simps)
    also have "\<dots> < ?V * ?B" by (rule less)
    also have "\<dots> \<le> (?B ^ m * (unat ?v1 * ?B + unat ?v2 + 1)) * ?B"
      using Vl unfolding V by (intro mult_le_mono1) (simp add: algebra_simps)
    finally have "T < unat ?v1 * ?B + unat ?v2 + 1" by (simp only: mult.assoc mult_less_cancel1 mult_less_cancel2)
    with l(3) show ?thesis by linarith
  qed
  have dm: "unat (top_limbs div ucast ?v1) = T div unat ?v1" "unat (top_limbs mod ucast ?v1) = T mod unat ?v1"
    using T by (simp_all add: unat_div_distrib unat_mod_distrib)
  have rh: "T mod unat ?v1 < ?B" using v10 limb_less(1) [of ?v1] by (meson mod_less_divisor less_trans)
  have ub: "x \<le> unat (top_limbs div ucast ?v1)" if "x * (unat ?v1 * ?B + unat ?v2) \<le> T * ?B + unat ?u2" for x
  proof -
    have "x * unat ?v1 * ?B \<le> T * ?B + unat ?u2" using that by (simp add: algebra_simps)
    also have "\<dots> < (T + 1) * ?B" using l(2) by (simp add: algebra_simps)
    finally have "x * unat ?v1 < T + 1" by (simp only: mult_less_cancel2)
    then have "x * unat ?v1 \<le> T" by simp
    then show ?thesis using v10 by (simp add: dm less_eq_div_iff_mult_less_eq)
  qed
  have q: "unat qhat < ?B" "unat qhat * (unat ?v1 * ?B + unat ?v2) \<le> T * ?B + unat ?u2"
    "\<And>x. x < ?B \<Longrightarrow> x * (unat ?v1 * ?B + unat ?v2) \<le> T * ?B + unat ?u2 \<Longrightarrow> x \<le> unat qhat"
    using qhat_loop_val [of "top_limbs div ucast ?v1" ?v1 "top_limbs mod ucast ?v1" T ?v2 ?u2] dm rh v10 Tb ub by (auto simp: qhat_def)
  have v2b: "?B \<le> unat ?v1 * ?B + unat ?v2" using v10 by (simp add: trans_le_add1)
  show "unat qhat = ?U div ?V \<or> unat qhat = Suc (?U div ?V)" using estimate [OF U Ul V Vl v2b less q] .
  show "unat qhat < ?B" by (rule q(1))
qed

text \<open>Subtracting its multiple of the divisor, and adding the divisor back where that borrows, leaves the remainder.\<close>

lemma digit_corrected:
  fixes digit :: u32
  assumes n: "length v = n" "n < length w" and q: "unat qhat < limb_base"
    and est: "unat qhat = nat_val (take (Suc n) w) div nat_val v \<or> unat qhat = Suc (nat_val (take (Suc n) w) div nat_val v)"
    and V0: "0 < nat_val v" and ms: "mul_sub qhat 0 0 v w = (ws, neg)"
    and st: "(digit, w') = (if neg then (ucast (qhat - 1), add_back 0 v ws) else (ucast qhat, ws))"
  shows "length w' = length w" "drop (Suc n) w' = drop (Suc n) w" "unat digit = nat_val (take (Suc n) w) div nat_val v"
    "nat_val (take (Suc n) w') = nat_val (take (Suc n) w) mod nat_val v"
proof -
  let ?B = limb_base and ?U = "nat_val (take (Suc n) w)" and ?V = "nat_val v"
  have sub: "length ws = length w" "drop (Suc n) ws = drop (Suc n) w"
    "int (nat_val (take (Suc n) ws)) = int ?U - int (unat qhat * ?V) + (if neg then int ?B ^ Suc n else 0)"
    using mul_sub_val [OF q _ _ _ ms] n by simp_all
  have lim: "nat_val (take (Suc n) ws) < ?B ^ Suc n" "?U < ?B ^ Suc n" "?V < ?B ^ n"
    using nat_val_less [of "take (Suc n) ws"] nat_val_less [of "take (Suc n) w"] nat_val_less [of v] sub(1) n by simp_all
  have md: "?U = ?U div ?V * ?V + ?U mod ?V" "?U mod ?V < ?V" using V0 by simp_all
  have mdi: "int ?U = int (?U mod ?V) + int ?V * int (?U div ?V)" by (simp only: mod_mult_div_eq flip: of_nat_add of_nat_mult)
  have "length w' = length w \<and> drop (Suc n) w' = drop (Suc n) w \<and> unat digit = ?U div ?V \<and> nat_val (take (Suc n) w') = ?U mod ?V"
  proof (cases "unat qhat = ?U div ?V")
    case True
    have d: "int ?U - int (unat qhat * ?V) = int (?U mod ?V)" using md(1) unfolding True by linarith
    have "\<not> neg"
    proof
      assume neg
      with sub(3) d have "int (?B ^ Suc n) \<le> int (nat_val (take (Suc n) ws))" by simp
      then have "?B ^ Suc n \<le> nat_val (take (Suc n) ws)" by (simp only: of_nat_le_iff)
      with lim(1) show False by linarith
    qed
    with st sub d True q show ?thesis by (auto simp: limb_halves)
  next
    case False
    with est have Q: "unat qhat = Suc (?U div ?V)" by simp
    have d: "int ?U - int (unat qhat * ?V) = int (?U mod ?V) - int ?V" unfolding Q mdi by (simp add: algebra_simps)
    have neg
    proof (rule ccontr)
      assume "\<not> neg"
      with sub(3) d md(2) show False by simp
    qed
    have "qhat \<noteq> 0" using Q by auto
    then have dg: "unat (ucast (qhat - 1) :: u32) = ?U div ?V" using Q q by (simp add: limb_halves unat_minus_one)
    have "int (nat_val (take (Suc n) ws) + ?V) = int (?U mod ?V + ?B ^ Suc n)" using sub(3) d \<open>neg\<close> by simp
    then have e: "nat_val (take (Suc n) ws) + ?V = ?U mod ?V + ?B ^ Suc n" by (simp only: of_nat_eq_iff)
    have "?U mod ?V < ?B ^ Suc n" using md(2) lim(3) by (meson less_trans lessI limb_base_pos(3) power_strict_increasing)
    then have "(nat_val (take (Suc n) ws) + ?V) mod ?B ^ Suc n = ?U mod ?V" unfolding e by simp
    moreover note add_back_val [of 0 v ws]
    ultimately show ?thesis using st \<open>neg\<close> sub n dg by simp
  qed
  then show "length w' = length w" "drop (Suc n) w' = drop (Suc n) w" "unat digit = ?U div ?V" "nat_val (take (Suc n) w') = ?U mod ?V" by blast+
qed

lemma div_step_val:
  assumes n: "length v = n" "2 \<le> n" "n < length w" and v1: "v ! (n - 1) \<noteq> 0"
    and less: "nat_val (take (Suc n) w) < nat_val v * limb_base" and step: "div_step v w = (digit, w')"
  shows "length w' = length w" "drop (Suc n) w' = drop (Suc n) w" "unat digit = nat_val (take (Suc n) w) div nat_val v"
    "nat_val (take (Suc n) w') = nat_val (take (Suc n) w) mod nat_val v"
proof -
  define top_limbs :: u64 where "top_limbs = push_bit 32 (ucast (w ! n)) OR ucast (w ! (n - 1))"
  define qhat where "qhat = qhat_loop (v ! (n - 1)) (v ! (n - 2)) (w ! (n - 2)) (top_limbs div ucast (v ! (n - 1))) (top_limbs mod ucast (v ! (n - 1)))"
  note e = digit_estimate [OF n v1 less top_limbs_def qhat_def]
  obtain ws neg where ms: "mul_sub qhat 0 0 v w = (ws, neg)" by fastforce
  have st: "(digit, w') = (if neg then (ucast (qhat - 1), add_back 0 v ws) else (ucast qhat, ws))"
    using step ms unfolding div_step_def Let_def n(1) qhat_def [symmetric] top_limbs_def [symmetric] by simp
  have "0 < nat_val v" using less by (cases "nat_val v") simp_all
  note r = digit_corrected [OF n(1,3) e this ms st]
  show "length w' = length w" "drop (Suc n) w' = drop (Suc n) w" "unat digit = nat_val (take (Suc n) w) div nat_val v"
    "nat_val (take (Suc n) w') = nat_val (take (Suc n) w) mod nat_val v"
    by (fact r)+
qed

section \<open>Every digit\<close>

lemma nat_val_split: "k \<le> length w \<Longrightarrow> nat_val w = nat_val (take k w) + limb_base ^ k * nat_val (drop k w)"
  using nat_val_append [of "take k w" "drop k w"] by simp

lemma div_loop_val:
  assumes "length v = n" "2 \<le> n" "v ! (n - 1) \<noteq> 0" "k + n \<le> length u" "nat_val (drop k u) < nat_val v" "div_loop v k u = (q, u')"
  shows "length q = k \<and> nat_val u = nat_val q * nat_val v + nat_val u' \<and> nat_val u' < nat_val v"
  using assms(4-)
proof (induction k arbitrary: u q u')
  case (Suc k)
  let ?V = "nat_val v"
  define w0 where "w0 = drop k u"
  obtain digit w q1 u1 where s: "div_step v w0 = (digit, w)" "div_loop v k (take k u @ w) = (q1, u1)" "q = q1 @ [digit]" "u' = u1"
    using Suc.prems(3) unfolding w0_def by (auto split: prod.splits)
  have n: "n < length w0" using Suc.prems(1) by (simp add: w0_def)
  have V: "?V < limb_base ^ n" using nat_val_less [of v] assms(1) by simp
  have "nat_val w0 = unat (u ! k) + limb_base * nat_val (drop (Suc k) u)"
    unfolding w0_def using Suc.prems(1) assms(2) by (simp add: Cons_nth_drop_Suc [symmetric])
  also have "\<dots> < limb_base + limb_base * nat_val (drop (Suc k) u)" by simp
  also have "\<dots> \<le> ?V * limb_base" using Suc.prems(2) by (metis Suc_leI mult.commute mult_Suc_right mult_le_mono2)
  finally have w: "nat_val w0 < ?V * limb_base" .
  have split_w: "nat_val w0 = nat_val (take (Suc n) w0) + limb_base ^ Suc n * nat_val (drop (Suc n) w0)"
    using n by (intro nat_val_split) simp
  have "?V * limb_base \<le> limb_base ^ Suc n" using V by (simp add: mult.commute)
  with w have wl: "nat_val w0 < limb_base ^ Suc n" by linarith
  have high: "nat_val (drop (Suc n) w0) = 0"
  proof (rule ccontr)
    assume "nat_val (drop (Suc n) w0) \<noteq> 0"
    then have "limb_base ^ Suc n * 1 \<le> limb_base ^ Suc n * nat_val (drop (Suc n) w0)" by (intro mult_le_mono2) simp
    with split_w wl show False by linarith
  qed
  then have tw: "nat_val (take (Suc n) w0) = nat_val w0" using split_w by simp
  have "nat_val (take (Suc n) w0) < ?V * limb_base" using w tw by simp
  note d = div_step_val [OF assms(1,2) n assms(3) this s(1)]
  have ww: "nat_val w = nat_val w0 mod ?V" using d(1,2,4) n high tw nat_val_split [of "Suc n" w] by simp
  have V0: "0 < ?V" using Suc.prems(2) by simp
  have kl: "length (take k u) = k" using Suc.prems(1) by simp
  have "k + n \<le> length (take k u @ w)" using Suc.prems(1) d(1) n by (simp add: w0_def)
  moreover have "nat_val (drop k (take k u @ w)) < ?V" using ww V0 kl by simp
  ultimately have IH: "length q1 = k" "nat_val (take k u @ w) = nat_val q1 * ?V + nat_val u1" "nat_val u1 < ?V"
    using Suc.IH s(2) by blast+
  have "nat_val u = nat_val (take k u) + limb_base ^ k * nat_val w0" unfolding w0_def using Suc.prems(1) by (intro nat_val_split) simp
  also have "\<dots> = nat_val (take k u) + limb_base ^ k * (nat_val w0 mod ?V) + limb_base ^ k * (nat_val w0 div ?V) * ?V"
    using scale_div [of "limb_base ^ k" "nat_val w0" ?V] by linarith
  also have "\<dots> = nat_val (take k u @ w) + limb_base ^ k * unat digit * ?V" using ww kl d(3) tw by simp
  finally show ?case using IH s(3,4) by (simp add: algebra_simps)
qed simp

lemma Nat_DivMod_val:
  assumes a: "nat_ok a" and d: "nat_ok d" "d \<noteq> []" and q: "Nat_DivMod a d = (q, r)"
  shows "nat_val a = nat_val q * nat_val d + nat_val r" "nat_val r < nat_val d" "nat_ok q" "nat_ok r"
proof -
  have "nat_val a = nat_val q * nat_val d + nat_val r \<and> nat_val r < nat_val d \<and> nat_ok q \<and> nat_ok r"
  proof (cases "nat_val a < nat_val d")
    case True
    with q a show ?thesis using Nat_Cmp_val [OF a d(1)] by (auto simp: Nat_DivMod_def)
  next
    case False
    then have c: "\<not> Nat_Cmp a d < 0" using Nat_Cmp_val [OF a d(1)] by auto
    show ?thesis
    proof (cases "length d = 1")
      case True
      then obtain x where x: "d = [x]" "x \<noteq> 0" using d by (cases d) (auto simp: nat_ok_def)
      with q c show ?thesis using DivSmall_val [of a x] by (auto simp: Nat_DivMod_def split: prod.splits)
    next
      case long: False
      define s where "s = norm_shift 32 (last d)"
      define v where "v = Nat_Shl d s"
      define u0 where "u0 = Nat_Shl a s"
      define u where "u = u0 @ replicate (max (length u0) (length a) + 1 - length u0) 0"
      obtain q1 u1 where l: "div_loop v (length u - length v) u = (q1, u1)" by fastforce
      have r: "q = Nat_Trim q1" "r = Nat_Shr (Nat_Trim u1) s"
        using q c long l by (simp_all add: Nat_DivMod_def Let_def s_def v_def u0_def u_def)
      have v: "nat_val v = nat_val d * 2 ^ s" "nat_ok v" and u0: "nat_val u0 = nat_val a * 2 ^ s" "nat_ok u0"
        using a d(1) by (simp_all add: v_def u0_def)
      have "nat_val d \<le> nat_val v" using v(1) by simp
      then have "nat_val d < limb_base ^ length v" using nat_val_less [of v] by linarith
      then have lv: "2 \<le> length v" using nat_ok_shorter [OF d(1)] long d(2) by (metis One_nat_def Suc_1 Suc_leI le_neq_implies_less length_greater_0_conv less_le_trans)
      have vn: "v \<noteq> []" using lv by auto
      then have v1: "v ! (length v - 1) \<noteq> 0" using v(2) by (simp add: nat_ok_def last_conv_nth)
      have "nat_val v \<le> nat_val u0" using False v(1) u0(1) by simp
      then have "nat_val v < limb_base ^ length u0" using nat_val_less [of u0] by linarith
      then have lu: "length v \<le> length u0" using nat_ok_shorter [OF v(2)] by simp
      have uv: "nat_val u = nat_val u0" by (simp add: u_def)
      have ul: "length u0 < length u" by (simp add: u_def)
      let ?k = "length u - length v"
      have lz: "last u = 0" by (simp add: u_def)
      have kn: "drop ?k u \<noteq> []" using lu ul lv by auto
      have "drop ?k u = butlast (drop ?k u) @ [0]"
        using append_butlast_last_id [OF kn] last_drop [of ?k u] kn lz by simp
      then have "nat_val (drop ?k u) = nat_val (butlast (drop ?k u) @ [0])" by simp
      also have "\<dots> = nat_val (butlast (drop ?k u))" by simp
      also have "\<dots> < limb_base ^ (length v - 1)" using nat_val_less [of "butlast (drop ?k u)"] lu ul by simp
      also have "\<dots> \<le> nat_val v" using nat_ok_lower [OF v(2) vn] .
      finally have high: "nat_val (drop ?k u) < nat_val v" .
      have L: "nat_val u = nat_val q1 * nat_val v + nat_val u1" "nat_val u1 < nat_val v"
        using div_loop_val [OF HOL.refl lv v1 _ high l] lu ul by simp_all
      have e: "nat_val a * 2 ^ s = nat_val q1 * nat_val d * 2 ^ s + nat_val u1" using L(1) uv u0(1) v(1) by (simp add: mult.assoc)
      then have "nat_val u1 = (nat_val a - nat_val q1 * nat_val d) * 2 ^ s" by (simp add: diff_mult_distrib)
      then have rv: "nat_val r = nat_val a - nat_val q1 * nat_val d" by (simp add: r)
      have "nat_val q1 * nat_val d * 2 ^ s \<le> nat_val a * 2 ^ s" using e by linarith
      then have "nat_val q1 * nat_val d \<le> nat_val a" by simp
      moreover have "nat_val r * 2 ^ s < nat_val d * 2 ^ s" using L(2) v(1) rv \<open>nat_val u1 = _\<close> by simp
      ultimately show ?thesis using rv by (simp add: r)
    qed
  qed
  then show "nat_val a = nat_val q * nat_val d + nat_val r" "nat_val r < nat_val d" "nat_ok q" "nat_ok r" by blast+
qed

section \<open>Properties\<close>

text \<open>C21. Division of magnitudes is exact: for a divisor that is not zero \<open>Nat::DivMod\<close> gives the quotient and the remainder, both without
  leading zero limbs, at any length. The estimate of each digit from the top limbs, its correction, and the step that adds the
  divisor back when the estimate was one too large are in it.
\<close>

theorem divmod_exact:
  assumes "nat_ok a" "nat_ok d" "d \<noteq> []" "Nat_DivMod a d = (q, r)"
  shows "nat_val q = nat_val a div nat_val d \<and> nat_val r = nat_val a mod nat_val d \<and> nat_ok q \<and> nat_ok r"
  using Nat_DivMod_val [OF assms] by (metis div_mult_self3 div_less mod_less mod_mult_self3 add.commute add.left_neutral less_nat_zero_code gr_implies_not0)

text \<open>A division whose first digit is estimated one too large, so that the divisor is added back.\<close>

theorem divmod_exact_witness:
  "\<exists>q r. Nat_DivMod [0, 0, 0x80000000, 0x7fffffff] [1, 0, 0x80000000] = (q, r) \<and>
     nat_val q = nat_val [0, 0, 0x80000000, 0x7fffffff] div nat_val [1, 0, 0x80000000]"
proof -
  obtain q r where d: "Nat_DivMod [0, 0, 0x80000000, 0x7fffffff] [1, 0, 0x80000000] = (q, r)" by fastforce
  have "nat_ok [0, 0, 0x80000000, 0x7fffffff]" "nat_ok [1, 0, 0x80000000]" by code_simp+
  from divmod_exact [OF this _ d] d show ?thesis by blast
qed

end
