(* ===== verification/BigFloatLit.thy ===== *)
theory BigFloatLit
  imports BigNatDiv FloatConv
begin

text \<open>
  Literals of big floats: \<open>src/pxf/bigfloat.cc\<close> and \<open>bigfloat.h\<close>. A literal is read by taking it apart, following Go's
  \<open>big.Float.Parse\<close> to refuse what that refuses, and rounding the exact value once; it is written as the nearest decimal of the
  digits its precision needs. Exponents are integers: the source keeps them in 64 bits and bounds them before they are added.
\<close>

section \<open>Rounding\<close>

definition kDefaultPrec :: u32 where
  "kDefaultPrec = 256"

definition kCheckPrec :: u32 where
  "kCheckPrec = 16384"

text \<open>The rounded magnitude and the shift applied.\<close>

definition RoundToBits :: "limbs \<Rightarrow> nat \<Rightarrow> bool \<Rightarrow> limbs \<times> nat" where
  "RoundToBits m bits sticky =
     (let len = Nat_BitLen m
      in if len \<le> bits then (m, 0)
         else
           let shift = len - bits; half = Nat_Bit m (shift - 1); rest = (sticky \<or> AnyBitBelow m (shift - 1)); kept = Nat_Shr m shift
           in (if half \<and> (rest \<or> Nat_IsOdd kept) then AddSmall kept 1 else kept, shift))"

definition BinaryExponent :: "limbs \<Rightarrow> int \<Rightarrow> int" where
  "BinaryExponent mantissa exponent = exponent + int (Nat_BitLen mantissa)"

definition ExceedsBound :: "int \<Rightarrow> int \<Rightarrow> bool" where
  "ExceedsBound e limit \<longleftrightarrow> limit < e \<or> e < - limit"

definition scaled_to :: "limbs \<Rightarrow> limbs \<Rightarrow> int \<Rightarrow> limbs \<times> limbs" where
  "scaled_to num den e = (if 0 \<le> e then Nat_Shl den (nat e) else den, if 0 \<le> e then num else Nat_Shl num (nat (- e)))"

definition ExactExponentAndCarry :: "limbs \<Rightarrow> limbs \<Rightarrow> nat \<Rightarrow> int \<times> bool" where
  "ExactExponentAndCarry num den prec =
     (let e0 = int (Nat_BitLen num) - int (Nat_BitLen den);
          e = (case scaled_to num den e0 of (a, b) \<Rightarrow> if 0 \<le> Nat_Cmp b a then e0 + 1 else e0);
          (a, b) = scaled_to num den e; shift = prec + 1
      in if Nat_BitLen a \<le> shift then (e, False) else (e, Nat_Cmp (Nat_Shl (Nat_Sub a b) shift) a \<le> 0))"

definition RoundedBinaryExponent :: "limbs \<Rightarrow> limbs \<Rightarrow> u32 \<Rightarrow> int" where
  "RoundedBinaryExponent num den prec =
     (case ExactExponentAndCarry num den (unat prec) of (e, carries) \<Rightarrow> if carries then e + 1 else e)"

section \<open>Following \<open>big.Float.Parse\<close>\<close>

datatype GoForm = kZero | kFinite | kInf

record GoFloat =
  gf_form :: GoForm
  gf_m :: limbs
  gf_exp :: int

definition kGoMinExp :: int where
  "kGoMinExp = - (2 ^ 31)"

definition kGoMaxExp :: int where
  "kGoMaxExp = 2 ^ 31 - 1"

definition new_GoFloat :: GoFloat where
  "new_GoFloat = \<lparr>gf_form = kFinite, gf_m = [], gf_exp = 0\<rparr>"

definition SetExpAndRound :: "GoFloat \<Rightarrow> int \<Rightarrow> nat \<Rightarrow> GoFloat" where
  "SetExpAndRound z e prec =
     (if e < kGoMinExp \<or> kGoMaxExp < e then z\<lparr>gf_form := (if e < kGoMinExp then kZero else kInf)\<rparr>
      else
        let (m, shift) = RoundToBits (gf_m z) prec False; z1 = z\<lparr>gf_form := kFinite, gf_exp := e, gf_m := m\<rparr>
        in if prec < Nat_BitLen m then
             if kGoMaxExp \<le> e then z1\<lparr>gf_form := kInf\<rparr> else z1\<lparr>gf_m := Nat_Shr m 1, gf_exp := e + 1\<rparr>
           else z1)"

definition GoMul :: "GoFloat \<Rightarrow> GoFloat \<Rightarrow> nat \<Rightarrow> GoFloat" where
  "GoMul x y prec =
     (if gf_form x \<noteq> kFinite \<or> gf_form y \<noteq> kFinite then
        new_GoFloat\<lparr>gf_form := (if gf_form x = kInf \<or> gf_form y = kInf then kInf else kZero)\<rparr>
      else
        let m = Nat_Mul (gf_m x) (gf_m y);
            fnorm = int (Nat_BitLen (gf_m x)) + int (Nat_BitLen (gf_m y)) - int (Nat_BitLen m)
        in SetExpAndRound (new_GoFloat\<lparr>gf_m := m\<rparr>) (gf_exp x + gf_exp y - fnorm) prec)"

fun mul5 :: "nat \<Rightarrow> limbs \<Rightarrow> limbs" where
  "mul5 0 m = m"
| "mul5 (Suc k) m = mul5 k (MulSmall m 5)"

definition exact_pow5 :: "nat \<Rightarrow> GoFloat" where
  "exact_pow5 k = (let m = mul5 k (Nat_of 1) in \<lparr>gf_form = kFinite, gf_m = m, gf_exp = int (Nat_BitLen m)\<rparr>)"

fun GoPow5_loop :: "GoFloat \<Rightarrow> GoFloat \<Rightarrow> nat \<Rightarrow> nat \<Rightarrow> GoFloat" where
  "GoPow5_loop z f n prec =
     (if n = 0 then z
      else
        let z' = (if n mod 2 \<noteq> 0 then GoMul z f prec else z); n' = n div 2; f' = (if 0 < n' then GoMul f f (prec + 64) else f)
        in GoPow5_loop z' f' n' prec)"

declare GoPow5_loop.simps [simp del]

definition GoPow5 :: "nat \<Rightarrow> nat \<Rightarrow> GoFloat" where
  "GoPow5 n prec = (if n \<le> 27 then exact_pow5 n else GoPow5_loop (exact_pow5 27) (exact_pow5 1) (n - 27) prec)"

record GoScan =
  gs_mant :: limbs
  gs_frac :: int
  gs_exp :: int

fun go_scan_mantissa :: "bool \<Rightarrow> limbs \<Rightarrow> int \<Rightarrow> string \<Rightarrow> limbs \<times> int \<times> string" where
  "go_scan_mantissa point mant frac [] = (mant, frac, [])"
| "go_scan_mantissa point mant frac (c # s) =
     (if c = CHR ''.'' then go_scan_mantissa True mant frac s
      else if IsDigit c then
        go_scan_mantissa point
          (if mant \<noteq> [] \<or> c \<noteq> CHR ''0'' then AddSmall (MulSmall mant 10) (of_nat (digit_val c)) else mant)
          (if point then frac + 1 else frac) s
      else (mant, frac, c # s))"

fun go_scan_exponent :: "int \<Rightarrow> int \<Rightarrow> string \<Rightarrow> int option" where
  "go_scan_exponent limit mag [] = Some mag"
| "go_scan_exponent limit mag (c # s) =
     (let d = int (digit_val c) in if (limit - d) div 10 < mag then None else go_scan_exponent limit (mag * 10 + d) s)"

definition drop_sign :: "string \<Rightarrow> string" where
  "drop_sign s = (case s of [] \<Rightarrow> [] | c # s' \<Rightarrow> if c = CHR ''-'' \<or> c = CHR ''+'' then s' else s)"

definition ScanLikeGo :: "string \<Rightarrow> GoScan option" where
  "ScanLikeGo s =
     (case go_scan_mantissa False [] 0 (drop_sign s) of
        (mant, frac, []) \<Rightarrow> Some \<lparr>gs_mant = mant, gs_frac = frac, gs_exp = 0\<rparr>
      | (mant, frac, c # rest) \<Rightarrow>
          let neg = (rest \<noteq> [] \<and> hd rest = CHR ''-'')
          in map_option
               (\<lambda>mag. \<lparr>gs_mant = mant, gs_frac = frac, gs_exp = (if neg then - mag else mag)\<rparr>)
               (go_scan_exponent (if neg then 2 ^ 63 else 2 ^ 63 - 1) 0 (drop_sign rest)))"

text \<open>A double that is a multiple of \<open>2 ^ - 51\<close>, as that multiple: a result is rounded to 53 bits, ties to even.\<close>

function int_bits :: "int \<Rightarrow> nat" where
  "int_bits n = (if n \<le> 0 then 0 else Suc (int_bits (n div 2)))"
  by pat_completeness auto
termination
  by (relation "measure nat") auto

declare int_bits.simps [simp del]

definition round53 :: "int \<Rightarrow> int" where
  "round53 n =
     (let k = int_bits \<bar>n\<bar> - 53; u = 2 ^ k; q = \<bar>n\<bar> div u; r = \<bar>n\<bar> mod u;
          q' = (if u < 2 * r \<or> u = 2 * r \<and> odd q then q + 1 else q)
      in sgn n * q' * u)"

definition of_double_int :: "int \<Rightarrow> int" where
  "of_double_int i = round53 (i * 2 ^ 51)"

text \<open>\<open>exp2 + exp5 * 2.321928094887362\<close>.\<close>

definition reach_of :: "int \<Rightarrow> int \<Rightarrow> int" where
  "reach_of exp2 exp5 = round53 (of_double_int exp2 + round53 (of_double_int exp5 * 5228517251457905 div 2 ^ 51))"

text \<open>The value, and whether \<open>Parse\<close> succeeds.\<close>

definition GoParse :: "GoScan \<Rightarrow> nat \<Rightarrow> GoFloat \<times> bool" where
  "GoParse scan prec =
     (if gs_mant scan = [] then (new_GoFloat\<lparr>gf_form := kZero\<rparr>, True)
      else
        let bl = int (Nat_BitLen (gs_mant scan)); bits = bl - gs_frac scan
        in if 0 < gs_exp scan \<and> 2 ^ 63 - 1 - gs_exp scan < bits \<or> gs_exp scan < 0 \<and> bits < - (2 ^ 63) - gs_exp scan then (new_GoFloat, False)
           else
             let exp2 = bits + gs_exp scan
             in if exp2 < kGoMinExp \<or> kGoMaxExp < exp2 then (new_GoFloat, False)
                else
                  let exp5 = exp2 - bl; z = new_GoFloat\<lparr>gf_m := gs_mant scan\<rparr>; reach = reach_of exp2 exp5
                  in if exp5 = 0 then (SetExpAndRound z exp2 prec, True)
                     else if exp5 < 0 \<and> round53 (reach + 4 * 2 ^ 51) < kGoMinExp * 2 ^ 51 then (z\<lparr>gf_form := kZero\<rparr>, True)
                     else if 0 < exp5 \<and> kGoMaxExp * 2 ^ 51 < round53 (reach - 4 * 2 ^ 51) then (z\<lparr>gf_form := kInf\<rparr>, True)
                     else
                       let p = GoPow5 (nat \<bar>exp5\<bar>) (prec + 64); z1 = z\<lparr>gf_exp := exp2\<rparr>
                       in if 0 < exp5 then (GoMul z1 p prec, True)
                          else if gf_form p = kInf then (z1\<lparr>gf_form := kZero\<rparr>, True)
                          else
                            let (e, carries) = ExactExponentAndCarry (gf_m z1) (gf_m p) prec;
                                ex = e + (exp2 - bl) - (gf_exp p - int (Nat_BitLen (gf_m p))); z2 = z1\<lparr>gf_m := []\<rparr>
                            in if ex < kGoMinExp \<or> kGoMaxExp < ex \<or> carries \<and> kGoMaxExp \<le> ex then
                                 (z2\<lparr>gf_form := (if ex < kGoMinExp then kZero else kInf)\<rparr>, True)
                               else (z2\<lparr>gf_exp := (if carries then ex + 1 else ex)\<rparr>, True))"

section \<open>Literals\<close>

definition ParsePrecision :: "string \<Rightarrow> u32 option" where
  "ParsePrecision digits =
     (if digits = [] \<or> 10 < length digits \<or> \<not> list_all IsDigit digits then None
      else let v = int (digits_val 0 digits) in if v = 0 \<or> 0xffffffff < v then None else Some (word_of_int v))"

record Literal =
  lit_negative :: bool
  lit_digits :: string
  lit_exp10 :: int

definition kSaturated :: int where
  "kSaturated = 2 ^ 55"

text \<open>The exponent of a literal, which stays put once it is large.\<close>

fun sat_exponent :: "int \<Rightarrow> string \<Rightarrow> int" where
  "sat_exponent e [] = e"
| "sat_exponent e (c # s) = (if e < kSaturated then sat_exponent (e * 10 + int (digit_val c)) s else kSaturated * 10)"

definition strip_zeros :: "bool \<Rightarrow> string \<Rightarrow> int \<Rightarrow> Literal" where
  "strip_zeros negative digits exp10 =
     (let front = dropWhile (\<lambda>c. c = CHR ''0'') digits; back = takeWhile (\<lambda>c. c = CHR ''0'') (rev front)
      in if front = [] then \<lparr>lit_negative = negative, lit_digits = [], lit_exp10 = 0\<rparr>
         else \<lparr>lit_negative = negative, lit_digits = take (length front - length back) front, lit_exp10 = exp10 + int (length back)\<rparr>)"

definition split_exponent :: "string \<Rightarrow> int option" where
  "split_exponent s =
     (case s of
        [] \<Rightarrow> Some 0
      | c # rest \<Rightarrow>
          if c = CHR ''e'' \<or> c = CHR ''E'' then
            let neg = (rest \<noteq> [] \<and> hd rest = CHR ''-''); ds = drop_sign rest; e = sat_exponent 0 (takeWhile IsDigit ds)
            in if ds = [] \<or> \<not> list_all IsDigit ds then None else Some (if neg then - e else e)
          else None)"

definition SplitLiteral :: "string \<Rightarrow> Literal option" where
  "SplitLiteral s =
     (let negative = (s \<noteq> [] \<and> hd s = CHR ''-''); t = drop_sign s; whole = takeWhile IsDigit t; t1 = dropWhile IsDigit t
      in if whole = [] \<and> \<not> (1 < length t1 \<and> t1 ! 0 = CHR ''.'' \<and> IsDigit (t1 ! 1)) then None
         else
           let (frac, t2) = (case t1 of
                 [] \<Rightarrow> ([], [])
               | c # rest \<Rightarrow> if c = CHR ''.'' then (takeWhile IsDigit rest, dropWhile IsDigit rest) else ([], t1))
           in map_option (\<lambda>e. strip_zeros negative (whole @ frac) (e - int (length frac))) (split_exponent t2))"

definition ClipLiteral :: "string \<Rightarrow> string" where
  "ClipLiteral s = (if length s \<le> 24 then s else take 24 s @ [CHR 0xE2, CHR 0x80, CHR 0xA6])"

fun CountLiteralDigits_loop :: "bool \<Rightarrow> int \<Rightarrow> string \<Rightarrow> int" where
  "CountLiteralDigits_loop leading n [] = n"
| "CountLiteralDigits_loop leading n (c # s) =
     (if c = CHR ''e'' \<or> c = CHR ''E'' \<or> c = CHR ''p'' then n
      else if \<not> IsDigit c \<or> leading \<and> c = CHR ''0'' then CountLiteralDigits_loop leading n s
      else CountLiteralDigits_loop False (n + 1) s)"

definition CountLiteralDigits :: "string \<Rightarrow> int" where
  "CountLiteralDigits literal = CountLiteralDigits_loop True 0 literal"

record BigFloatFields =
  bff_mantissa :: "byte list"
  bff_exponent :: int
  bff_prec :: u32
  bff_negative :: bool

fun digits_nat :: "limbs \<Rightarrow> string \<Rightarrow> limbs" where
  "digits_nat num [] = num"
| "digits_nat num (c # s) = digits_nat (AddSmall (MulSmall num 10) (of_nat (digit_val c))) s"

definition below_wire :: "u32 \<Rightarrow> int \<Rightarrow> bool" where
  "below_wire prec e \<longleftrightarrow> e - int (unat prec) < - (2 ^ 31)"

text \<open>The exact value, rounded once; \<open>bin\<close> is the binary exponent found before.\<close>

definition round_exact :: "string \<Rightarrow> Literal \<Rightarrow> limbs \<Rightarrow> limbs \<Rightarrow> u32 \<Rightarrow> int \<Rightarrow> string + BigFloatFields" where
  "round_exact literal lit num den prec bin =
     (let scale = int (unat prec) + 2 - int (Nat_BitLen num) + int (Nat_BitLen den);
          num1 = (if 0 \<le> scale then Nat_Shl num (nat scale) else num); den1 = (if 0 \<le> scale then den else Nat_Shl den (nat (- scale)));
          (q, r) = Nat_DivMod num1 den1; (q1, shift) = RoundToBits q (unat prec) (\<not> Nat_IsZero r);
          carried = unat prec < Nat_BitLen q1; q2 = (if carried then Nat_Shr q1 1 else q1);
          exponent = - scale + int shift + (if carried then 1 else 0)
      in if BinaryExponent q2 exponent \<noteq> bin then
           Inl (''big float literal '' @ ClipLiteral literal @ '': internal error: rounded binary exponent '' @
             to_string_int (BinaryExponent q2 exponent) @ '', expected '' @ to_string_int bin)
         else
           Inr \<lparr>bff_mantissa = Nat_ToBytes q2, bff_exponent = exponent, bff_prec = prec, bff_negative = lit_negative lit\<rparr>)"

definition past_bound :: "string \<Rightarrow> int \<Rightarrow> int \<Rightarrow> string" where
  "past_bound literal max_exponent e =
     ''big float literal '' @ ClipLiteral literal @ '' has binary exponent '' @ to_string_int e @ '', and MaxBigFloatExponent='' @
     to_string_int max_exponent @ '' bounds its magnitude''"

definition below_wire_error :: "string \<Rightarrow> string" where
  "below_wire_error literal = ''big float literal '' @ ClipLiteral literal @ '' is below the wire's exponent range''"

definition literal_ratio :: "Literal \<Rightarrow> limbs \<times> limbs" where
  "literal_ratio lit =
     (let num = digits_nat [] (lit_digits lit)
      in if 0 \<le> lit_exp10 lit then (Nat_Mul num (Nat_Pow10 (lit_exp10 lit)), Nat_of 1) else (num, Nat_Pow10 (- lit_exp10 lit)))"

definition ParseBigFloatLiteral :: "string \<Rightarrow> string \<Rightarrow> int \<Rightarrow> int \<Rightarrow> string + BigFloatFields" where
  "ParseBigFloatLiteral literal prec_digits max_digits max_exponent =
     (let suffixed = (prec_digits \<noteq> []); given = ParsePrecision prec_digits;
          prec = (if suffixed then (case given of Some p \<Rightarrow> p | None \<Rightarrow> kDefaultPrec) else kDefaultPrec);
          n = BigFloatPrecDigits prec; digits = CountLiteralDigits literal
      in if suffixed \<and> given = None then
           Inl (''big float literal '' @ ClipLiteral literal @ ''p'' @ ClipLiteral prec_digits @ '': precision suffix p'' @
             ClipLiteral prec_digits @ '' is not a positive bit count'')
         else if suffixed \<and> max_digits < n then
           Inl (''big float literal '' @ ClipLiteral literal @ ''p'' @ to_string (unat prec) @ '': precision p'' @ to_string (unat prec) @
             '' renders to '' @ to_string_int n @ '' digits; MaxNumericLiteralDigits='' @ to_string_int max_digits)
         else if max_digits < digits then
           Inl (''numeric literal has '' @ to_string_int digits @ '' digits; MaxNumericLiteralDigits='' @ to_string_int max_digits)
         else if drop_sign literal = ''inf'' \<or> drop_sign literal = ''Inf'' then
           Inl (''big float literal '' @ ClipLiteral literal @ '' is above big.Float's range'')
         else
           (case (SplitLiteral literal, ScanLikeGo literal) of
              (Some lit, Some scan) \<Rightarrow>
                let capped = (kCheckPrec < prec)
                in (case GoParse scan (unat (if capped then kCheckPrec else prec)) of
                     (go, parsed) \<Rightarrow>
                       if \<not> parsed then Inl (''invalid big float: '' @ literal)
                       else if lit_digits lit = [] then
                         Inr \<lparr>bff_mantissa = [], bff_exponent = 0, bff_prec = (if suffixed then prec else 0), bff_negative = lit_negative lit\<rparr>
                       else if gf_form go = kInf then Inl (''big float literal '' @ ClipLiteral literal @ '' is above big.Float's range'')
                       else if gf_form go = kZero then Inl (''big float literal '' @ ClipLiteral literal @ '' is below big.Float's range'')
                       else if 0x7fffffff < prec then
                         Inl (''big float literal '' @ ClipLiteral literal @ '': precision p'' @ to_string (unat prec) @
                           '' exceeds the widest mantissa big.Float can hold, '' @ to_string (2 ^ 31 - 1) @ '' bits'')
                       else if below_wire prec (gf_exp go) then Inl (below_wire_error literal)
                       else if ExceedsBound (if capped \<and> 0 < gf_exp go then gf_exp go - 1 else gf_exp go) max_exponent then
                         Inl (past_bound literal max_exponent (gf_exp go))
                       else
                         (case literal_ratio lit of
                            (num, den) \<Rightarrow>
                              let bin = RoundedBinaryExponent num den prec
                              in if ExceedsBound bin max_exponent then Inl (past_bound literal max_exponent bin)
                                 else if below_wire prec bin then Inl (below_wire_error literal)
                                 else round_exact literal lit num den prec bin))
            | _ \<Rightarrow> Inl (''invalid big float: '' @ literal)))"

section \<open>Writing\<close>

definition RoundedMantissa :: "BigFloatFields \<Rightarrow> limbs \<times> int" where
  "RoundedMantissa f =
     (case RoundToBits (Nat_FromBytes (bff_mantissa f)) (unat (bff_prec f)) False of (m, shift) \<Rightarrow> (m, bff_exponent f + int shift))"

datatype BigFloatLimit = kNone | kExponent int | kRoundedExponent int | kDigits int

definition CheckBigFloatLimits :: "BigFloatFields \<Rightarrow> int \<Rightarrow> int \<Rightarrow> BigFloatLimit" where
  "CheckBigFloatLimits f max_digits max_exponent =
     (let stored = Nat_FromBytes (bff_mantissa f); bin = BinaryExponent stored (bff_exponent f);
          (m, exponent) = RoundedMantissa f; bin' = BinaryExponent m exponent; digits = BigFloatPrecDigits (bff_prec f)
      in if \<not> Nat_IsZero stored \<and> ExceedsBound bin max_exponent then kExponent bin
         else if \<not> Nat_IsZero stored \<and> ExceedsBound bin' max_exponent then kRoundedExponent bin'
         else if max_digits < digits then kDigits digits
         else kNone)"

text \<open>The digits of the quotient, with the decimal exponent found by trying.\<close>

definition decimal_try :: "limbs \<Rightarrow> limbs \<Rightarrow> int \<Rightarrow> int \<Rightarrow> limbs \<times> limbs \<times> limbs" where
  "decimal_try num den digits x =
     (let p = digits - 1 - x; a = (if 0 \<le> p then Nat_Mul num (Nat_Pow10 p) else num);
          divisor = (if 0 \<le> p then den else Nat_Mul den (Nat_Pow10 (- p))); (q, r) = Nat_DivMod a divisor
      in (q, r, divisor))"

partial_function (option) decimal_loop :: "limbs \<Rightarrow> limbs \<Rightarrow> int \<Rightarrow> int \<Rightarrow> (int \<times> limbs \<times> limbs \<times> limbs) option" where
  "decimal_loop num den digits x =
     (case decimal_try num den digits x of
        (q, r, divisor) \<Rightarrow>
          if 0 \<le> Nat_Cmp q (Nat_Pow10 digits) then decimal_loop num den digits (x + 1)
          else if Nat_Cmp q (Nat_Pow10 (digits - 1)) < 0 then decimal_loop num den digits (x - 1)
          else Some (x, q, r, divisor))"

declare decimal_loop.simps [code]

text \<open>The rounded digits and their exponent.\<close>

definition decimal_round :: "int \<Rightarrow> int \<times> limbs \<times> limbs \<times> limbs \<Rightarrow> int \<times> limbs" where
  "decimal_round digits =
     (\<lambda>(x, q, r, divisor).
        let half = Nat_Cmp (Nat_Shl r 1) divisor; q1 = (if 0 < half \<or> half = 0 \<and> Nat_IsOdd q then AddSmall q 1 else q)
        in if Nat_Cmp q1 (Nat_Pow10 digits) = 0 then (x + 1, Nat_Pow10 (digits - 1)) else (x, q1))"

function ToDecimal_loop :: "limbs \<Rightarrow> string" where
  "ToDecimal_loop w =
     (if Nat_IsZero w then [] else case DivSmall w 1000000000 of (q, chunk) \<Rightarrow> chunk_digits 9 chunk @ ToDecimal_loop q)"
  by pat_completeness auto
termination
proof (relation "measures [nat_val, length]")
  fix w q chunk assume w: "\<not> Nat_IsZero w" "(q, chunk) = DivSmall w 1000000000"
  then have "nat_val w = nat_val q * 1000000000 + unat chunk" "nat_ok q" using DivSmall_val [of w 1000000000 q chunk] by simp_all
  then show "(q, w) \<in> measures [nat_val, length]"
    using w(1) by (cases "nat_val q = 0") (auto simp: Nat_IsZero_def)
qed simp

declare ToDecimal_loop.simps [simp del]

definition ToDecimal :: "limbs \<Rightarrow> string" where
  "ToDecimal w =
     (if Nat_IsZero w then ''0''
      else let s = rev (ToDecimal_loop w); t = dropWhile (\<lambda>c. c = CHR ''0'') s in if t = [] then ''0'' else t)"

definition signed_two :: "int \<Rightarrow> string" where
  "signed_two x = ''e'' @ (if x < 0 then ''-'' else ''+'') @ zpad 2 (nat \<bar>x\<bar>)"

definition decimal_text :: "int \<Rightarrow> int \<Rightarrow> string \<Rightarrow> string" where
  "decimal_text digits x d =
     (if x < - 4 \<or> digits \<le> x then take 1 d @ (if 1 < length d then ''.'' @ drop 1 d else []) @ signed_two x
      else if x < 0 then ''0.'' @ replicate (nat (- x - 1)) (CHR ''0'') @ d
      else
        let whole = nat x + 1
        in if length d \<le> whole then d @ replicate (whole - length d) (CHR ''0'') else take whole d @ ''.'' @ drop whole d)"

definition trim_trailing :: "string \<Rightarrow> string" where
  "trim_trailing d = rev (dropWhile (\<lambda>c. c = CHR ''0'') (rev d))"

text \<open>The estimate of the decimal exponent; the division of the source rounds toward zero.\<close>

definition decimal_estimate :: "int \<Rightarrow> int" where
  "decimal_estimate bin = sgn (bin - 1) * (\<bar>bin - 1\<bar> * 30103 div 100000) - (if bin - 1 < 0 then 1 else 0)"

definition FormatBigFloatLiteral :: "BigFloatFields \<Rightarrow> int \<Rightarrow> int \<Rightarrow> (string + string) option" where
  "FormatBigFloatLiteral f max_digits max_exponent =
     (if bff_prec f = 0 then Some (Inr (if bff_negative f then ''-0'' else ''0''))
      else
        let prec = to_string (unat (bff_prec f))
        in (case CheckBigFloatLimits f max_digits max_exponent of
             kExponent v \<Rightarrow> Some (Inl (''pxf.BigFloat binary exponent '' @ to_string_int v @ '' exceeds MaxBigFloatExponent='' @ to_string_int max_exponent))
           | kRoundedExponent v \<Rightarrow>
               Some (Inl (''pxf.BigFloat binary exponent '' @ to_string_int v @ '' after rounding to prec '' @ prec @
                 '' exceeds MaxBigFloatExponent='' @ to_string_int max_exponent))
           | kDigits v \<Rightarrow>
               Some (Inl (''pxf.BigFloat prec '' @ prec @ '' bits renders to '' @ to_string_int v @ '' digits; MaxNumericLiteralDigits='' @
                 to_string_int max_digits))
           | kNone \<Rightarrow>
               let suffix = ''p'' @ prec; sign = (if bff_negative f then ''-'' else []); (m, exponent) = RoundedMantissa f
               in if Nat_IsZero m then Some (Inr (sign @ ''0'' @ suffix))
                  else
                    let bin = BinaryExponent m exponent; digits = BigFloatPrecDigits (bff_prec f);
                        num = (if 0 \<le> exponent then Nat_Shl m (nat exponent) else m);
                        den = (if 0 \<le> exponent then Nat_of 1 else Nat_Shl (Nat_of 1) (nat (- exponent)))
                    in map_option
                         (\<lambda>t. case decimal_round digits t of
                            (x, q) \<Rightarrow> Inr (sign @ decimal_text digits x (trim_trailing (ToDecimal q)) @ suffix))
                         (decimal_loop num den digits (decimal_estimate bin))))"

end
