(* ===== verification/BigFloatRound.thy ===== *)
theory BigFloatRound
  imports BigFloatExact
begin

text \<open>
  The exponent of the exact value and the rounding to it. A value is a ratio of two magnitudes; the source finds its binary
  exponent and whether rounding carries past it from comparisons alone, and then rounds by division.
\<close>

section \<open>Powers of two\<close>

abbreviation ratio :: "limbs \<Rightarrow> limbs \<Rightarrow> real" where
  "ratio num den \<equiv> real (nat_val num) / real (nat_val den)"

lemma two_powi_pos: "(0 :: real) < 2 powi k"
  by (simp add: zero_less_power_int)

lemma two_powi_add: "(2 :: real) powi (a + b) = 2 powi a * 2 powi b"
  by (simp add: power_int_add)

lemma two_powi_diff: "(2 :: real) powi (a - b) = 2 powi a / 2 powi b"
  by (simp add: power_int_diff)

lemma two_powi_nat: "0 \<le> k \<Longrightarrow> (2 :: real) ^ nat k = 2 powi k"
  by (simp add: power_int_nonneg_exp)

lemma two_powi_le: "(2 :: real) powi a \<le> 2 powi b \<longleftrightarrow> a \<le> b"
  by (meson power_int_increasing power_int_strict_increasing not_le one_le_numeral one_less_numeral_iff semiring_norm(76))

lemma two_powi_less: "(2 :: real) powi a < 2 powi b \<longleftrightarrow> a < b"
  using two_powi_le [of b a] by linarith

lemma binade_unique:
  assumes "(2 :: real) powi (a - 1) \<le> x" "x < 2 powi a" "2 powi (b - 1) \<le> x" "x < 2 powi b"
  shows "a = b"
proof -
  have "(2 :: real) powi (a - 1) < 2 powi b" "(2 :: real) powi (b - 1) < 2 powi a" using assms by linarith+
  then show ?thesis by (simp add: two_powi_less)
qed

lemma nbits_powi:
  assumes "0 < n"
  shows "2 powi (int (nbits n) - 1) \<le> real n" "real n < 2 powi int (nbits n)"
proof -
  note b = nbits_bounds [OF assms]
  have "(2 :: real) powi (int (nbits n) - 1) = 2 ^ (nbits n - 1)" using b by (simp add: power_int_def nat_diff_distrib)
  also have "\<dots> = real (2 ^ (nbits n - 1))" by simp
  also have "\<dots> \<le> real n" using b by (simp only: of_nat_le_iff)
  finally show "2 powi (int (nbits n) - 1) \<le> real n" .
  have "real n < real (2 ^ nbits n)" using b by (simp only: of_nat_less_iff)
  then show "real n < 2 powi int (nbits n)" by simp
qed

section \<open>The exponent of a ratio\<close>

lemma ratio_range:
  assumes "0 < n" "0 < d"
  defines "e \<equiv> int (nbits n) - int (nbits d)"
  shows "2 powi (e - 1) < real n / real d" "real n / real d < 2 powi (e + 1)"
proof -
  note n = nbits_powi [OF assms(1)] and d = nbits_powi [OF assms(2)]
  have D: "0 < real d" using assms(2) by simp
  have "2 powi (e - 1) * real d < 2 powi (e - 1) * 2 powi int (nbits d)" using d(2) by simp
  also have "\<dots> = 2 powi (int (nbits n) - 1)" unfolding two_powi_add [symmetric] by (simp add: e_def)
  also have "\<dots> \<le> real n" by (rule n(1))
  finally show "2 powi (e - 1) < real n / real d" using D by (simp add: pos_less_divide_eq)
  have "real n < 2 powi int (nbits n)" by (rule n(2))
  also have "\<dots> = 2 powi (e + 1) * 2 powi (int (nbits d) - 1)" unfolding two_powi_add [symmetric] by (simp add: e_def)
  also have "\<dots> \<le> 2 powi (e + 1) * real d" using d(1) by simp
  finally show "real n / real d < 2 powi (e + 1)" using D by (simp add: pos_divide_less_eq)
qed

lemma scaled_to_val:
  assumes ok: "nat_ok num" "nat_ok den" and pos: "den \<noteq> []" and s: "scaled_to num den e = (a, b)"
  shows "nat_ok a" "nat_ok b" "0 < nat_val a" "real (nat_val b) = ratio num den * 2 powi (- e) * real (nat_val a)"
proof -
  have d: "0 < nat_val den" using ok pos by simp
  show "nat_ok a" "nat_ok b" using s ok by (auto simp: scaled_to_def split: if_splits)
  show "0 < nat_val a" using s ok d by (auto simp: scaled_to_def Nat_Shl_val split: if_splits)
  show "real (nat_val b) = ratio num den * 2 powi (- e) * real (nat_val a)"
    using s ok d by (auto simp: scaled_to_def Nat_Shl_val two_powi_nat power_int_minus field_simps split: if_splits)
qed

lemma exact_exponent:
  assumes ok: "nat_ok num" "nat_ok den" "num \<noteq> []" "den \<noteq> []" and r: "ExactExponentAndCarry num den prec = (e, c)"
  defines "x \<equiv> ratio num den"
  shows "2 powi (e - 1) \<le> x" "x < 2 powi e" "c \<longleftrightarrow> 1 - 1 / 2 ^ (prec + 1) \<le> x * 2 powi (- e)"
proof -
  define e0 where "e0 = int (Nat_BitLen num) - int (Nat_BitLen den)"
  obtain a0 b0 where s0: "scaled_to num den e0 = (a0, b0)" by fastforce
  note v0 = scaled_to_val [OF ok(1,2,4) s0]
  have e: "e = (if nat_val a0 \<le> nat_val b0 then e0 + 1 else e0)"
    using r v0 s0 unfolding ExactExponentAndCarry_def e0_def [symmetric] Let_def s0
    by (auto simp: Nat_Cmp_val split: if_splits prod.splits)
  have "nat_val a0 \<le> nat_val b0 \<longleftrightarrow> real (nat_val a0) \<le> real (nat_val b0)" by simp
  also have "\<dots> \<longleftrightarrow> 1 * real (nat_val a0) \<le> x * 2 powi (- e0) * real (nat_val a0)" unfolding v0(4) x_def by simp
  also have "\<dots> \<longleftrightarrow> 1 \<le> x * 2 powi (- e0)" using v0(3) by (intro mult_le_cancel_right_pos) simp
  also have "\<dots> \<longleftrightarrow> 2 powi e0 \<le> x" by (simp add: power_int_minus field_simps)
  finally have le: "nat_val a0 \<le> nat_val b0 \<longleftrightarrow> 2 powi e0 \<le> x" .
  have "2 powi (e0 - 1) < x" "x < 2 powi (e0 + 1)"
    using ratio_range [of "nat_val num" "nat_val den"] ok by (simp_all add: x_def e0_def BitLen_nbits)
  with e le show lo: "2 powi (e - 1) \<le> x" and hi: "x < 2 powi e" by (auto split: if_splits)
  obtain a b where s: "scaled_to num den e = (a, b)" by fastforce
  note v = scaled_to_val [OF ok(1,2,4) s]
  have "x * 2 powi (- e) < 1" using hi by (simp add: power_int_minus field_simps)
  then have "x * 2 powi (- e) * real (nat_val a) < 1 * real (nat_val a)" using v(3) by (intro mult_strict_right_mono) simp_all
  then have "real (nat_val b) < real (nat_val a)" unfolding v(4) x_def by simp
  then have ba: "nat_val b < nat_val a" by simp
  have c: "c \<longleftrightarrow> \<not> nbits (nat_val a) \<le> prec + 1 \<and> (nat_val a - nat_val b) * 2 ^ (prec + 1) \<le> nat_val a"
    using r v ba s unfolding ExactExponentAndCarry_def e0_def [symmetric] Let_def s0
    by (auto simp: e Nat_Cmp_val BitLen_nbits Nat_Shl_val Nat_Sub_val split: if_splits prod.splits)
  have "nbits (nat_val a) \<le> prec + 1 \<Longrightarrow> nat_val a < (nat_val a - nat_val b) * 2 ^ (prec + 1)"
  proof -
    assume "nbits (nat_val a) \<le> prec + 1"
    then have "(2 :: nat) ^ nbits (nat_val a) \<le> 2 ^ (prec + 1)" by (intro power_increasing) simp_all
    then have "nat_val a < 2 ^ (prec + 1)" using nbits_bounds [OF v(3)] by linarith
    also have "\<dots> \<le> (nat_val a - nat_val b) * 2 ^ (prec + 1)" using ba by simp
    finally show ?thesis .
  qed
  with c have "c \<longleftrightarrow> (nat_val a - nat_val b) * 2 ^ (prec + 1) \<le> nat_val a" by (meson not_le)
  also have "\<dots> \<longleftrightarrow> real ((nat_val a - nat_val b) * 2 ^ (prec + 1)) \<le> real (nat_val a)" by (simp only: of_nat_le_iff)
  also have "\<dots> \<longleftrightarrow> (real (nat_val a) - real (nat_val b)) * 2 ^ (prec + 1) \<le> real (nat_val a)" using ba by (simp add: of_nat_diff)
  also have "\<dots> \<longleftrightarrow> real (nat_val a) * ((1 - x * 2 powi (- e)) * 2 ^ (prec + 1)) \<le> real (nat_val a) * 1"
    unfolding v(4) x_def by (simp add: algebra_simps)
  also have "\<dots> \<longleftrightarrow> (1 - x * 2 powi (- e)) * 2 ^ (prec + 1) \<le> 1" using v(3) by (simp only: mult_le_cancel_left_pos of_nat_0_less_iff)
  also have "\<dots> \<longleftrightarrow> 1 - 1 / 2 ^ (prec + 1) \<le> x * 2 powi (- e)" by (simp add: field_simps)
  finally show "c \<longleftrightarrow> 1 - 1 / 2 ^ (prec + 1) \<le> x * 2 powi (- e)" .
qed

section \<open>Rounding to nearest\<close>

text \<open>No integer is closer to the ratio than its rounding, and of two as close it is the even one.\<close>

lemma rne_half: "0 < d \<Longrightarrow> \<bar>real (rne n d) - real n / real d\<bar> \<le> 1 / 2"
proof -
  assume d: "0 < d"
  have "real n = real d * real (n div d) + real (n mod d)" by (metis of_nat_add of_nat_mult mult_div_mod_eq)
  then have n: "real n / real d = real (n div d) + real (n mod d) / real d" using d by (simp add: field_simps)
  have "n mod d < d" using d by simp
  then show ?thesis using d unfolding n rne_def by (auto simp: field_simps)
qed

lemma rne_tie: "0 < d \<Longrightarrow> \<bar>real (rne n d) - real n / real d\<bar> = 1 / 2 \<Longrightarrow> even (rne n d)"
proof -
  assume d: "0 < d" and t: "\<bar>real (rne n d) - real n / real d\<bar> = 1 / 2"
  have "real n = real d * real (n div d) + real (n mod d)" by (metis of_nat_add of_nat_mult mult_div_mod_eq)
  then have n: "real n / real d = real (n div d) + real (n mod d) / real d" using d by (simp add: field_simps)
  have m: "n mod d < d" using d by simp
  have "real d = 2 * real (n mod d)" using t d m unfolding n rne_def by (auto simp: field_simps split: if_splits)
  then have "d = 2 * (n mod d)" by linarith
  then show ?thesis by (auto simp: rne_def)
qed

lemma nearest_int:
  fixes i :: int and y :: real
  assumes "\<bar>real m - y\<bar> \<le> 1 / 2"
  shows "\<bar>real m - y\<bar> \<le> \<bar>real_of_int i - y\<bar>"
proof (cases "i = int m")
  case False
  then have "1 \<le> \<bar>i - int m\<bar>" by linarith
  then have "1 \<le> \<bar>real_of_int i - real m\<bar>" by linarith
  with assms show ?thesis by linarith
qed simp

text \<open>
  \<open>m * b ^ e\<close> is a number of \<open>k\<close> digits in base \<open>b\<close>, none of the numbers of \<open>k\<close> digits is closer to \<open>x\<close>, and \<open>m\<close> is even where
  \<open>x\<close> is halfway to the next one.
\<close>

definition nearest :: "nat \<Rightarrow> nat \<Rightarrow> nat \<Rightarrow> int \<Rightarrow> real \<Rightarrow> bool" where
  "nearest b k m e x \<longleftrightarrow>
     b ^ (k - 1) \<le> m \<and> m < b ^ k \<and>
     (\<forall>m' e'. m' < b ^ k \<longrightarrow> \<bar>real m * real b powi e - x\<bar> \<le> \<bar>real m' * real b powi e' - x\<bar>) \<and>
     \<bar>real m * real b powi e - x\<bar> \<le> real b powi e / 2 \<and> (\<bar>real m * real b powi e - x\<bar> = real b powi e / 2 \<longrightarrow> even m)"

lemma rounded_closest:
  assumes b: "1 < b" and k: "0 < k" and y: "real b ^ (k - 1) \<le> y" and r: "\<bar>real r - y\<bar> \<le> 1 / 2" and m': "m' < b ^ k"
  shows "\<bar>real r - y\<bar> \<le> \<bar>real m' * real b powi j - y\<bar>"
proof (cases "0 \<le> j")
  case True
  then have "real m' * real b powi j = real_of_int (int m' * int b ^ nat j)" by (simp add: power_int_nonneg_exp)
  then show ?thesis using nearest_int [OF r] by metis
next
  case False
  have "real m' < real (b ^ k)" using m' by (simp only: of_nat_less_iff)
  then have "real m' * real b powi j \<le> real b ^ k * real b powi j" using b by (intro mult_right_mono) simp_all
  also have "\<dots> \<le> real b ^ k * real b powi (- 1)" using False b by (intro mult_left_mono power_int_increasing) simp_all
  also have "\<dots> = real b ^ (k - 1)" using k b by (cases k) (simp_all add: power_int_minus)
  finally have "real m' * real b powi j \<le> real b ^ (k - 1)" .
  moreover have "\<bar>real r - y\<bar> \<le> \<bar>real_of_int (int b ^ (k - 1)) - y\<bar>" by (rule nearest_int [OF r])
  ultimately show ?thesis using y by simp
qed

lemma nearest_rounded:
  assumes b: "1 < b" and k: "0 < k" and lo: "real b powi (e - 1) \<le> x" and hi: "x < real b powi e"
    and r: "\<bar>real r - x * real b powi (int k - e)\<bar> \<le> 1 / 2" and tie: "\<bar>real r - x * real b powi (int k - e)\<bar> = 1 / 2 \<Longrightarrow> even r"
  shows "r \<noteq> b ^ k \<Longrightarrow> nearest b k r (e - int k) x"
    "r = b ^ k \<Longrightarrow> nearest b k (b ^ (k - 1)) (e - int k + 1) x" "b ^ (k - 1) \<le> r" "r \<le> b ^ k"
proof -
  define u where "u = real b powi (e - int k)"
  define y where "y = x * real b powi (int k - e)"
  have b0: "real b \<noteq> 0" "1 < real b" using b by simp_all
  have u: "0 < u" "x = y * u" using b0 by (simp_all add: u_def y_def mult.assoc zero_less_power_int flip: power_int_add)
  have e1: "real b powi (e - 1) = real b ^ (k - 1) * u" "real b powi e = real b ^ k * u"
    using k b0 by (simp_all add: u_def flip: power_int_of_nat power_int_add)
  have y: "real b ^ (k - 1) \<le> y" "y < real b ^ k" using lo hi u e1 by simp_all
  have r': "\<bar>real r - y\<bar> \<le> 1 / 2" using r by (simp add: y_def)
  have "real (b ^ (k - 1)) < real r + 1" "real r < real (b ^ k) + 1" using y r' unfolding of_nat_power by linarith+
  then show rlo: "b ^ (k - 1) \<le> r" and rhi: "r \<le> b ^ k" by linarith+
  have dist: "\<bar>real m * real b powi e' - x\<bar> = \<bar>real m * real b powi (e' - (e - int k)) - y\<bar> * u" for m e'
  proof -
    have "real b powi (e' - (e - int k)) * u = real b powi e'" using b0 by (simp add: u_def flip: power_int_add)
    then have "real m * real b powi e' - x = (real m * real b powi (e' - (e - int k)) - y) * u"
      unfolding u(2) by (simp add: left_diff_distrib mult.assoc)
    then show ?thesis using u(1) by (simp add: abs_mult)
  qed
  have close: "\<bar>real r - y\<bar> * u \<le> \<bar>real m' * real b powi e' - x\<bar>" if "m' < b ^ k" for m' e'
    unfolding dist using rounded_closest [OF b k y(1) r' that] u(1) by simp
  show "nearest b k r (e - int k) x" if "r \<noteq> b ^ k"
  proof -
    have "\<bar>real r * real b powi (e - int k) - x\<bar> = \<bar>real r - y\<bar> * u" by (simp add: dist)
    then show ?thesis unfolding nearest_def
      using that rlo rhi close r' tie u(1) by (auto simp: y_def simp flip: u_def)
  qed
  show "nearest b k (b ^ (k - 1)) (e - int k + 1) x" if "r = b ^ k"
  proof -
    have d: "\<bar>real (b ^ (k - 1)) * real b powi (e - int k + 1) - x\<bar> = \<bar>real r - y\<bar> * u"
      unfolding dist that using k b0 by (cases k) (simp_all add: mult.commute)
    have u2: "real b powi (e - int k + 1) = real b * u" using b0 by (simp add: u_def power_int_add)
    have "\<bar>real r - y\<bar> * u \<le> 1 / 2 * u" "2 * u \<le> real b * u" using r' u(1) b by (intro mult_right_mono; simp)+
    then have lt: "\<bar>real r - y\<bar> * u < real b * u / 2" using u(1) by linarith
    moreover have "b ^ (k - 1) < b ^ k" using b k by (intro power_strict_increasing) simp_all
    ultimately show ?thesis unfolding nearest_def d unfolding u2
      using close less_imp_neq [OF lt] by (intro conjI allI impI) (simp_all only: order.refl less_imp_le simp_thms)
  qed
qed

text \<open>Rounding carries past the top bit just when the value is within half a unit of it.\<close>

lemma rounded_carries:
  assumes prec: "0 < prec" and hi: "x < 2 powi e" and r: "\<bar>real r - x * 2 powi (int prec - e)\<bar> \<le> 1 / 2"
    and tie: "\<bar>real r - x * 2 powi (int prec - e)\<bar> = 1 / 2 \<Longrightarrow> even r" and rhi: "r \<le> 2 ^ prec"
  shows "r = 2 ^ prec \<longleftrightarrow> 1 - 1 / 2 ^ (prec + 1) \<le> x * 2 powi (- e)"
proof -
  define y where "y = x * 2 powi (int prec - e)"
  have r': "\<bar>real r - y\<bar> \<le> 1 / 2" using r by (simp add: y_def)
  have half: "x * 2 powi (- e) = y / 2 ^ prec" by (simp add: y_def two_powi_diff power_int_minus field_simps)
  have "r = 2 ^ prec \<longleftrightarrow> 2 ^ prec - 1 / 2 \<le> y"
  proof
    assume "r = 2 ^ prec"
    then show "2 ^ prec - 1 / 2 \<le> y" using r' unfolding abs_le_iff by simp
  next
    assume a: "2 ^ prec - 1 / 2 \<le> y"
    show "r = 2 ^ prec"
    proof (rule ccontr)
      assume "r \<noteq> 2 ^ prec"
      then have "r + 1 \<le> 2 ^ prec" using rhi by simp
      then have "real (r + 1) \<le> real (2 ^ prec)" by (simp only: of_nat_le_iff)
      then have b: "real r + 1 \<le> 2 ^ prec" by simp
      then have "\<bar>real r - y\<bar> = 1 / 2" and "real r + 1 = 2 ^ prec" using a r' by linarith+
      then have "even r" "real (r + 1) = real (2 ^ prec)" using tie by (simp_all add: y_def)
      then have "even r" "r + 1 = 2 ^ prec" by (simp_all only: of_nat_eq_iff)
      then show False using prec by (metis even_power even_plus_one_iff even_numeral)
    qed
  qed
  also have "2 ^ prec - 1 / 2 = (1 - 1 / 2 ^ (prec + 1)) * (2 :: real) ^ prec" by (simp add: field_simps)
  also have "\<dots> \<le> y \<longleftrightarrow> 1 - 1 / 2 ^ (prec + 1) \<le> y / 2 ^ prec" by (intro pos_le_divide_eq [symmetric]) simp
  finally show "r = 2 ^ prec \<longleftrightarrow> 1 - 1 / 2 ^ (prec + 1) \<le> x * 2 powi (- e)" by (simp add: half)
qed

end
