(* ===== verification/BigFloatParse.thy ===== *)
theory BigFloatParse
  imports BigFloatRound
begin

text \<open>
  What a big float literal reads as: the number of the asked precision nearest to the decimal it spells. The source computes the
  binary exponent twice, by comparison and by division, and reports an internal error when the two differ: they never do.
\<close>

section \<open>Bytes and digits\<close>

lemma le_bytes_val: "le_val (map f [0..<k]) = (\<Sum>i<k. unat (f i) * 256 ^ i)"
  by (induction k) (simp_all add: le_val_append mult.commute)

lemma limb_byte: "unat (ucast (drop_bit (8 * j) x) :: byte) = unat (x :: u32) div 256 ^ j mod 256"
  by (simp add: word_nat power_mult)

lemma div_limb: "i div 4 < length w \<Longrightarrow> nat_val w div 256 ^ i mod 256 = unat (w ! (i div 4)) div 256 ^ (i mod 4) mod 256"
proof -
  assume i: "i div 4 < length w"
  have k: "8 * i div 32 = i div 4" "8 * i mod 32 = 8 * (i mod 4)"
    using div_mult_mult1 [of 8 i 4] mult_mod_right [of 8 i 4] by simp_all
  have p: "(256 :: nat) ^ n = 2 ^ (8 * n)" for n by (simp add: power_mult)
  have r: "i mod 4 \<in> {0, 1, 2, 3}" by auto
  have "nat_val w div 256 ^ i = unat (w ! (i div 4)) div 256 ^ (i mod 4) + 2 ^ (32 - 8 * (i mod 4)) * nat_val (drop (Suc (i div 4)) w)"
    using limb_div [of "8 * i" w] i unfolding k p by simp
  moreover obtain c where "(2 :: nat) ^ (32 - 8 * (i mod 4)) = 256 * c" using r by (elim insertE emptyE) auto
  ultimately show ?thesis by (simp add: mult.assoc)
qed

lemma base256_sum: "n < 256 ^ k \<Longrightarrow> (\<Sum>i<k. n div 256 ^ i mod 256 * 256 ^ i) = (n :: nat)"
proof -
  have "(\<Sum>i<k. n div 256 ^ i mod 256 * 256 ^ i) = n mod 256 ^ k"
  proof (induction k)
    case (Suc k)
    have "n mod 256 ^ Suc k = 256 ^ k * (n div 256 ^ k mod 256) + n mod 256 ^ k" by (simp only: power_Suc2 mod_mult2_eq)
    with Suc show ?case by (simp add: mult.commute)
  qed simp
  then show "n < 256 ^ k \<Longrightarrow> ?thesis" by simp
qed

lemma limb_bits_le: "limb_bits k x \<le> k"
  by (induction k arbitrary: x) simp_all

lemma ToBytes_val: "nat_ok w \<Longrightarrow> be_val (Nat_ToBytes w) = nat_val w"
proof -
  assume ok: "nat_ok w"
  let ?k = "(Nat_BitLen w + 7) div 8"
  have "Nat_BitLen w \<le> 8 * ?k" by linarith
  then have "(2 :: nat) ^ Nat_BitLen w \<le> 2 ^ (8 * ?k)" by (intro power_increasing) simp_all
  moreover have "nat_val w < 2 ^ Nat_BitLen w"
    using nbits_bounds [of "nat_val w"] ok by (cases "w = []") (simp_all add: BitLen_nbits)
  ultimately have less: "nat_val w < 256 ^ ?k" by (simp add: power_mult)
  have inside: "i div 4 < length w" if "i < ?k" for i
  proof -
    have "Nat_BitLen w \<le> 32 * length w"
      using limb_bits_le [of 32 "last w"] by (cases w) (simp_all add: Nat_BitLen_def)
    with that show ?thesis by linarith
  qed
  have "rev (Nat_ToBytes w) = map (\<lambda>i. ucast (drop_bit (8 * (i mod 4)) (w ! (i div 4)))) [0..<?k]"
    by (simp add: Nat_ToBytes_def rev_map)
  then have "be_val (Nat_ToBytes w) = (\<Sum>i<?k. unat (w ! (i div 4)) div 256 ^ (i mod 4) mod 256 * 256 ^ i)"
    by (simp add: be_val_def le_bytes_val limb_byte)
  also have "\<dots> = (\<Sum>i<?k. nat_val w div 256 ^ i mod 256 * 256 ^ i)" using inside by (intro sum.cong) (simp_all add: div_limb)
  finally show ?thesis using base256_sum [OF less] by simp
qed

lemma FromBytes_val: "nat_val (Nat_FromBytes be) = be_val be" "nat_ok (Nat_FromBytes be)"
proof -
  have "nat_val (pack_limbs bs) = le_val bs" for bs
  proof (induction bs rule: pack_limbs.induct)
    case (2 b bs)
    let ?l = "b # bs"
    have "le_val ?l = le_val (take 4 ?l) + 256 ^ length (take 4 ?l) * le_val (drop 4 ?l)"
      by (metis append_take_drop_id le_val_append)
    moreover have "drop 4 ?l \<noteq> [] \<Longrightarrow> length (take 4 ?l) = 4" by simp
    ultimately have "le_val ?l = le_val (take 4 ?l) + limb_base * le_val (drop 4 ?l)"
      by (cases "drop 4 ?l = []") (simp_all add: limb_base_def)
    then show ?case using 2 limb_of_val [of 0 "take 4 ?l"] by simp
  qed simp
  then show "nat_val (Nat_FromBytes be) = be_val be" "nat_ok (Nat_FromBytes be)" by (simp_all add: Nat_FromBytes_def be_val_def)
qed

lemma digits_nat_val:
  "list_all IsDigit s \<Longrightarrow> nat_val (digits_nat w s) = digits_val (nat_val w) s"
  "nat_ok w \<Longrightarrow> nat_ok (digits_nat w s)"
  by (induction s arbitrary: w) (auto simp: word_nat mult.commute dest!: digit_val_less)

section \<open>The value of a literal\<close>

definition literal_value :: "Literal \<Rightarrow> real" where
  "literal_value lit = real (digits_val 0 (lit_digits lit)) * 10 powi lit_exp10 lit"

lemma strip_zeros_digits:
  assumes "list_all IsDigit ds" "strip_zeros negative ds e = lit"
  shows "list_all IsDigit (lit_digits lit)" "lit_digits lit \<noteq> [] \<Longrightarrow> hd (lit_digits lit) \<noteq> CHR ''0''" "lit_negative lit = negative"
proof -
  let ?front = "dropWhile (\<lambda>c. c = CHR ''0'') ds"
  have lit: "lit_digits lit = take (length ?front - length (takeWhile (\<lambda>c. c = CHR ''0'') (rev ?front))) ?front"
    using assms by (auto simp: strip_zeros_def Let_def)
  show "list_all IsDigit (lit_digits lit)"
    unfolding lit using assms(1) by (auto simp: list_all_iff dest!: in_set_takeD set_dropWhileD)
  show "lit_negative lit = negative" unfolding assms(2) [symmetric] by (simp add: strip_zeros_def Let_def)
  assume ne: "lit_digits lit \<noteq> []"
  then have "hd (lit_digits lit) = hd ?front" "?front \<noteq> []" unfolding lit by (simp_all add: hd_take)
  then show "hd (lit_digits lit) \<noteq> CHR ''0''" using hd_dropWhile [of "\<lambda>c. c = CHR ''0''" ds] by auto
qed

lemma SplitLiteral_digits:
  assumes "SplitLiteral s = Some lit"
  shows "list_all IsDigit (lit_digits lit)" "lit_digits lit \<noteq> [] \<Longrightarrow> hd (lit_digits lit) \<noteq> CHR ''0''"
    "lit_negative lit \<longleftrightarrow> s \<noteq> [] \<and> hd s = CHR ''-''"
proof -
  have t: "list_all P (takeWhile P xs)" for P and xs :: string by (auto simp: list_all_iff dest: set_takeWhileD)
  obtain frac e where lit: "lit = strip_zeros (s \<noteq> [] \<and> hd s = CHR ''-'') (takeWhile IsDigit (drop_sign s) @ frac) e" and f: "list_all IsDigit frac"
  proof (cases "dropWhile IsDigit (drop_sign s)")
    case Nil
    with assms that [of "[]"] show thesis by (auto simp: SplitLiteral_def Let_def simp del: dropWhile_eq_Nil_conv split: if_splits)
  next
    case (Cons c rest)
    with assms that [of "[]"] that [of "takeWhile IsDigit rest"] t [of IsDigit rest] show thesis
      by (auto simp: SplitLiteral_def Let_def simp del: dropWhile_eq_Nil_conv split: if_splits)
  qed
  have ds: "list_all IsDigit (takeWhile IsDigit (drop_sign s) @ frac)" using t f by simp
  show "list_all IsDigit (lit_digits lit)" "lit_digits lit \<noteq> [] \<Longrightarrow> hd (lit_digits lit) \<noteq> CHR ''0''"
    "lit_negative lit \<longleftrightarrow> s \<noteq> [] \<and> hd s = CHR ''-''"
    using strip_zeros_digits [OF ds lit [symmetric]] by auto
qed

lemma digits_val_ge: "n * 10 ^ length s \<le> digits_val n s"
proof (induction s arbitrary: n)
  case (Cons c s)
  have "n * 10 ^ length (c # s) \<le> (n * 10 + digit_val c) * 10 ^ length s" by (simp add: algebra_simps)
  also have "\<dots> \<le> digits_val n (c # s)" using Cons [of "n * 10 + digit_val c"] by simp
  finally show ?case .
qed simp

lemma digits_val_pos: "s \<noteq> [] \<Longrightarrow> list_all IsDigit s \<Longrightarrow> hd s \<noteq> CHR ''0'' \<Longrightarrow> 0 < digits_val 0 s"
proof (cases s)
  case (Cons c cs)
  assume "list_all IsDigit s" "hd s \<noteq> CHR ''0''"
  then have "of_char c \<noteq> (of_char (CHR ''0'') :: nat)" "IsDigit c" unfolding Cons by (simp_all only: of_char_eq_iff list.sel list.pred_inject simp_thms)
  then have "0 < digit_val c" by (auto simp: digit_val_def IsDigit_def)
  then have "0 < digit_val c * 10 ^ length cs" by simp
  also have "\<dots> \<le> digits_val 0 s" unfolding Cons using digits_val_ge [of "digit_val c" cs] by simp
  finally show ?thesis .
qed simp

lemma Nat_of_ok: "nat_ok (Nat_of v)" "nat_val (Nat_of v) = unat v"
  by (simp_all add: Nat_of_def nat_ok_def unat_eq_zero)

lemma literal_ratio_val:
  assumes s: "SplitLiteral s = Some lit" and ne: "lit_digits lit \<noteq> []" and r: "literal_ratio lit = (num, den)"
  shows "nat_ok num" "nat_ok den" "num \<noteq> []" "den \<noteq> []" "ratio num den = literal_value lit"
proof -
  note d = SplitLiteral_digits [OF s]
  have v: "nat_val (digits_nat [] (lit_digits lit)) = digits_val 0 (lit_digits lit)" using digits_nat_val(1) [OF d(1)] by simp
  have p: "0 < digits_val 0 (lit_digits lit)" using digits_val_pos d ne by simp
  have ok: "nat_ok num" "nat_ok den" and pos: "0 < nat_val num" "0 < nat_val den"
    using r p v by (auto simp: literal_ratio_def Let_def digits_nat_val(2) Nat_of_ok split: if_splits)
  then show "nat_ok num" "nat_ok den" "num \<noteq> []" "den \<noteq> []" by auto
  show "ratio num den = literal_value lit"
    using r v by (auto simp: literal_ratio_def literal_value_def Let_def Nat_of_ok power_int_def field_simps split: if_splits)
qed

section \<open>Rounding once\<close>

lemma quotient_bits:
  fixes prec :: nat
  assumes ok: "nat_ok num" "nat_ok den" "num \<noteq> []" "den \<noteq> []"
  defines "x \<equiv> ratio num den" and "scale \<equiv> int prec + 2 - int (Nat_BitLen num) + int (Nat_BitLen den)"
  assumes N: "N = (if 0 \<le> scale then Nat_Shl num (nat scale) else num)" and D: "D = (if 0 \<le> scale then den else Nat_Shl den (nat (- scale)))"
    and q: "Nat_DivMod N D = (q, r)"
  shows "nat_ok q" "nat_val q = nat_val N div nat_val D" "\<not> Nat_IsZero r \<longleftrightarrow> nat_val N mod nat_val D \<noteq> 0" "0 < nat_val D"
    "real (nat_val N) / real (nat_val D) = x * 2 powi scale" "prec + 2 \<le> nbits (nat_val q)"
    "2 powi (int (nbits (nat_val q)) - scale - 1) \<le> x" "x < 2 powi (int (nbits (nat_val q)) - scale)"
proof -
  have okN: "nat_ok N" "nat_ok D" using ok by (auto simp: N D)
  have posD: "0 < nat_val D" using ok by (simp add: D del: nat_val_pos) (simp add: ok)
  then have "D \<noteq> []" by auto
  note v = Nat_DivMod_val [OF okN(1,2) this q]
  show "nat_ok q" "0 < nat_val D" using v posD by simp_all
  show q': "nat_val q = nat_val N div nat_val D" using v(1,2) by simp
  show "\<not> Nat_IsZero r \<longleftrightarrow> nat_val N mod nat_val D \<noteq> 0" using v nat_val_0 [of r] by (simp add: Nat_IsZero_def)
  show X: "real (nat_val N) / real (nat_val D) = x * 2 powi scale"
    using ok by (auto simp: N D x_def two_powi_nat power_int_minus field_simps)
  have pos: "0 < nat_val num" "0 < nat_val den" using ok by simp_all
  have "(2 :: real) powi (1 + int prec) = 2 powi (int (Nat_BitLen num) - int (Nat_BitLen den) - 1) * 2 powi scale"
    unfolding two_powi_add [symmetric] by (simp add: scale_def)
  also have "\<dots> \<le> x * 2 powi scale"
    unfolding BitLen_nbits [OF ok(1)] BitLen_nbits [OF ok(2)] x_def by (intro mult_right_mono less_imp_le ratio_range(1) pos) simp
  finally have lo: "2 ^ (prec + 1) \<le> real (nat_val N) / real (nat_val D)" unfolding X by (simp add: power_int_add)
  then have "real (2 ^ (prec + 1) * nat_val D) \<le> real (nat_val N)" using posD by (simp add: pos_le_divide_eq)
  then have "2 ^ (prec + 1) * nat_val D \<le> nat_val N" by (simp only: of_nat_le_iff)
  then have big: "2 ^ (prec + 1) \<le> nat_val q" unfolding q' using posD by (simp add: less_eq_div_iff_mult_less_eq)
  then have qpos: "0 < nat_val q" by (metis gr0I le_zero_eq power_not_zero zero_neq_numeral)
  note b = nbits_bounds [OF qpos]
  have "(2 :: nat) ^ (prec + 1) < 2 ^ nbits (nat_val q)" using b big by linarith
  then show "prec + 2 \<le> nbits (nat_val q)" by (simp only: power_strict_increasing_iff one_less_numeral_iff semiring_norm)
  have floor: "real (nat_val q) \<le> x * 2 powi scale" "x * 2 powi scale < real (nat_val q) + 1"
  proof -
    have "real (nat_val q * nat_val D) \<le> real (nat_val N)" "real (nat_val N) < real ((nat_val q + 1) * nat_val D)"
      unfolding of_nat_le_iff of_nat_less_iff using v(1,2) by simp_all
    then show "real (nat_val q) \<le> x * 2 powi scale" "x * 2 powi scale < real (nat_val q) + 1"
      unfolding X [symmetric] using posD by (simp_all add: pos_le_divide_eq pos_divide_less_eq algebra_simps)
  qed
  have "2 powi (int (nbits (nat_val q)) - 1) \<le> x * 2 powi scale" using nbits_powi(1) [OF qpos] floor(1) by linarith
  then show "2 powi (int (nbits (nat_val q)) - scale - 1) \<le> x"
    by (simp add: two_powi_diff pos_divide_le_eq mult_ac)
  have "real (nat_val q + 1) \<le> real (2 ^ nbits (nat_val q))" using b by (simp only: of_nat_le_iff) simp
  then have "x * 2 powi scale < 2 powi int (nbits (nat_val q))" using floor(2) by simp
  then show "x < 2 powi (int (nbits (nat_val q)) - scale)" by (simp add: two_powi_diff pos_less_divide_eq)
qed

lemma round_exact_nearest:
  assumes ok: "nat_ok num" "nat_ok den" "num \<noteq> []" "den \<noteq> []" and prec: "prec \<noteq> 0"
  shows "\<exists>f. round_exact literal lit num den prec (RoundedBinaryExponent num den prec) = Inr f \<and> bff_prec f = prec \<and>
    bff_negative f = lit_negative lit \<and> nearest 2 (unat prec) (be_val (bff_mantissa f)) (bff_exponent f) (ratio num den) \<and>
    bff_exponent f + int (unat prec) = RoundedBinaryExponent num den prec"
proof -
  define p where "p = unat prec"
  have p: "0 < p" using prec by (simp add: p_def unat_gt_0)
  define scale where "scale = int p + 2 - int (Nat_BitLen num) + int (Nat_BitLen den)"
  define N where "N = (if 0 \<le> scale then Nat_Shl num (nat scale) else num)"
  define D where "D = (if 0 \<le> scale then den else Nat_Shl den (nat (- scale)))"
  obtain q r where q: "Nat_DivMod N D = (q, r)" by fastforce
  note b = quotient_bits [OF ok, of N p D q r, folded scale_def, OF N_def D_def q]
  obtain q1 s where r1: "RoundToBits q p (\<not> Nat_IsZero r) = (q1, s)" by fastforce
  have long: "p < nbits (nat_val q)" using b(6) by simp
  note rr = RoundToBits_rne [OF b(1,2,3,4) long r1] and ok1 = RoundToBits_ok [OF b(1) r1]
  define e where "e = int (nbits (nat_val q)) - scale"
  have es: "int s = e - int p + scale" using rr(1) long by (simp add: e_def)
  have Y: "real (nat_val N) / real (nat_val D * 2 ^ s) = ratio num den * 2 powi (int p - e)"
  proof -
    have "real (nat_val N) / real (nat_val D * 2 ^ s) = ratio num den * (2 powi scale / 2 powi int s)"
      unfolding times_divide_eq_right b(5) [symmetric] by simp
    also have "2 powi scale / 2 powi int s = (2 :: real) powi (int p - e)" unfolding two_powi_diff [symmetric] es by simp
    finally show ?thesis .
  qed
  have d': "0 < nat_val D * 2 ^ s" using b(4) by simp
  note half = rne_half [OF d', of "nat_val N", folded rr(2), unfolded Y]
    and tie = rne_tie [OF d', of "nat_val N", folded rr(2), unfolded Y]
  have bin: "2 powi (e - 1) \<le> ratio num den" "ratio num den < 2 powi e" using b(7,8) by (simp_all add: e_def)
  note n = nearest_rounded [of 2 p e, simplified of_nat_numeral, OF _ p bin half tie, simplified]
  obtain e' c where x: "ExactExponentAndCarry num den p = (e', c)" by fastforce
  note ex = exact_exponent [OF ok x]
  have e': "e' = e" by (rule binade_unique [OF ex(1,2) bin])
  have c: "c \<longleftrightarrow> nat_val q1 = 2 ^ p" using ex(3) rounded_carries [OF p bin(2) half tie n(4)] e' by simp
  have rbe: "RoundedBinaryExponent num den prec = (if c then e + 1 else e)"
    by (simp add: RoundedBinaryExponent_def p_def [symmetric] x e')
  have small: "nbits (nat_val q1) = p" if "\<not> c" using n(3,4) that p by (intro nbits_unique) (simp_all add: c)
  have carry: "nbits (nat_val q1) = Suc p" if c using that by (intro nbits_unique) (simp_all add: c)
  have low: "nbits (2 ^ (p - 1)) = p" using p by (intro nbits_unique) simp_all
  let ?q2 = "if c then Nat_Shr q1 1 else q1"
  have q2: "nat_ok ?q2" "nat_val ?q2 = (if c then 2 ^ (p - 1) else nat_val q1)" using ok1 p by (cases p; simp add: c)+
  have carried: "p < Nat_BitLen q1 \<longleftrightarrow> c" using small carry by (cases c) (simp_all add: BitLen_nbits [OF ok1])
  have exp: "- scale + int s + (if c then 1 else 0) = e - int p + (if c then 1 else 0)" using es by simp
  have bl: "Nat_BitLen ?q2 = p" unfolding BitLen_nbits [OF q2(1)] q2(2) using small low by simp
  have "round_exact literal lit num den prec (RoundedBinaryExponent num den prec)
    = Inr \<lparr>bff_mantissa = Nat_ToBytes ?q2, bff_exponent = e - int p + (if c then 1 else 0), bff_prec = prec, bff_negative = lit_negative lit\<rparr>"
    unfolding round_exact_def p_def [symmetric] scale_def [symmetric] N_def [symmetric] D_def [symmetric] Let_def q prod.case r1 carried exp rbe
      BinaryExponent_def bl
    by simp
  then show ?thesis using n(1,2) q2 rbe by (auto simp: ToBytes_val p_def [symmetric] c)
qed

section \<open>Literals as they are written\<close>

lemma sat_exponent_small:
  "list_all IsDigit s \<Longrightarrow> int (digits_val n s) < kSaturated \<Longrightarrow> sat_exponent (int n) s = int (digits_val n s)"
proof (induction s arbitrary: n)
  case (Cons c s)
  have "n \<le> n * 10 ^ length (c # s)" by simp
  also have "\<dots> \<le> digits_val n (c # s)" by (rule digits_val_ge)
  finally have "int n < kSaturated" using Cons.prems(2) by linarith
  then show ?case using Cons.IH [of "n * 10 + digit_val c"] Cons.prems by simp
qed simp

lemma digits_val_zeros: "digits_val n (s @ replicate k (CHR ''0'')) = digits_val n s * 10 ^ k"
proof (induction k)
  case (Suc k)
  have "replicate (Suc k) (CHR ''0'') = replicate k (CHR ''0'') @ ''0''" by (simp add: replicate_append_same)
  then show ?case using Suc by (simp add: digit_val_def flip: append_assoc del: replicate.simps)
qed simp

lemma strip_zeros_value: "literal_value (strip_zeros negative ds e) = real (digits_val 0 ds) * 10 powi e"
proof -
  let ?z = "\<lambda>c. c = CHR ''0''"
  define front where "front = dropWhile ?z ds"
  define zs where "zs = takeWhile ?z (rev front)"
  have lead: "digits_val 0 ds = digits_val 0 front"
    unfolding front_def by (induction ds) (simp_all add: digit_val_def)
  have b: "zs = replicate (length zs) (CHR ''0'')" unfolding zs_def by (intro replicate_eqI) (auto dest: set_takeWhileD)
  have "rev front = zs @ dropWhile ?z (rev front)" by (simp add: zs_def)
  then have "front = rev (dropWhile ?z (rev front)) @ replicate (length zs) (CHR ''0'')"
    by (metis b rev_append rev_replicate rev_rev_ident)
  then have f: "front = take (length front - length zs) front @ replicate (length zs) (CHR ''0'')"
    by (metis append_eq_conv_conj length_append length_replicate diff_add_inverse2)
  have v: "digits_val 0 front = digits_val 0 (take (length front - length zs) front) * 10 ^ length zs"
    by (subst f) (rule digits_val_zeros)
  show ?thesis
  proof (cases "front = []")
    case True
    then show ?thesis using lead by (simp add: strip_zeros_def literal_value_def Let_def flip: front_def)
  next
    case False
    then have "strip_zeros negative ds e = \<lparr>lit_negative = negative, lit_digits = take (length front - length zs) front, lit_exp10 = e + int (length zs)\<rparr>"
      unfolding strip_zeros_def Let_def front_def [symmetric] zs_def [symmetric] by simp
    then show ?thesis using lead v by (simp add: literal_value_def power_int_add)
  qed
qed

lemma SplitLiteral_written:
  assumes "sign \<in> {[], ''-'', ''+''}" "list_all IsDigit whole" "list_all IsDigit fr" "whole \<noteq> [] \<or> fr \<noteq> []"
    "frac_part \<in> (if fr = [] then {[], ''.''} else {''.'' @ fr})"
    "exp_part = [] \<and> e = 0 \<or> (\<exists>c es ds. exp_part = c # es @ ds \<and> c \<in> {CHR ''e'', CHR ''E''} \<and> es \<in> {[], ''-'', ''+''} \<and>
       ds \<noteq> [] \<and> list_all IsDigit ds \<and> int (digits_val 0 ds) < kSaturated \<and> e = (if es = ''-'' then - 1 else 1) * int (digits_val 0 ds))"
  shows "\<exists>lit. SplitLiteral (sign @ whole @ frac_part @ exp_part) = Some lit \<and> lit_negative lit = (sign = ''-'') \<and>
    literal_value lit = real (digits_val 0 (whole @ fr)) * 10 powi (e - int (length fr))"
proof -
  let ?t = "whole @ frac_part @ exp_part"
  have nd: "\<not> IsDigit (CHR ''-'')" "\<not> IsDigit (CHR ''+'')" "\<not> IsDigit (CHR ''.'')" "\<not> IsDigit (CHR ''e'')" "\<not> IsDigit (CHR ''E'')"
    by (simp_all add: IsDigit_def)
  have not_sign: "c \<noteq> CHR ''-'' \<and> c \<noteq> CHR ''+''" if "IsDigit c" for c using that nd by auto
  have head: "?t \<noteq> []" "hd ?t \<noteq> CHR ''-'' \<and> hd ?t \<noteq> CHR ''+''"
    using assms not_sign by (cases whole; auto split: if_splits)+
  have sign: "drop_sign (sign @ ?t) = ?t" "(sign @ ?t \<noteq> [] \<and> hd (sign @ ?t) = CHR ''-'') = (sign = ''-'')"
    using assms(1) head by (cases ?t; auto simp: drop_sign_def)+
  have ex: "split_exponent exp_part = Some e"
  proof (cases "exp_part = []")
    case False
    then obtain c es ds where x: "exp_part = c # es @ ds" "c = CHR ''e'' \<or> c = CHR ''E''" "es \<in> {[], ''-'', ''+''}"
        "ds \<noteq> []" "list_all IsDigit ds" "int (digits_val 0 ds) < kSaturated" "e = (if es = ''-'' then - 1 else 1) * int (digits_val 0 ds)"
      using assms(6) by auto
    have h: "hd ds \<noteq> CHR ''-'' \<and> hd ds \<noteq> CHR ''+''" using x(4,5) not_sign by (cases ds) auto
    have "drop_sign (es @ ds) = ds" "(es @ ds \<noteq> [] \<and> hd (es @ ds) = CHR ''-'') = (es = ''-'')"
      using x(3,4) h by (cases ds; auto simp: drop_sign_def)+
    moreover have "takeWhile IsDigit ds = ds" using x(5) by (simp add: takeWhile_eq_all_conv list_all_iff)
    ultimately show ?thesis using x sat_exponent_small [of ds 0] by (auto simp: split_exponent_def Let_def simp del: takeWhile_eq_all_conv)
  qed (use assms(6) in \<open>simp add: split_exponent_def\<close>)
  have tail: "exp_part = [] \<or> \<not> IsDigit (hd exp_part) \<and> hd exp_part \<noteq> CHR ''.''" using assms(6) nd by auto
  have stop: "takeWhile IsDigit (xs @ ys) = xs \<and> dropWhile IsDigit (xs @ ys) = ys"
    if "list_all IsDigit xs" "ys = [] \<or> \<not> IsDigit (hd ys)" for xs ys
    using that by (cases ys) (auto simp: list_all_iff takeWhile_append dropWhile_append)
  have fp: "frac_part @ exp_part = [] \<or> \<not> IsDigit (hd (frac_part @ exp_part))"
    using assms(5) tail nd by (auto split: if_splits)
  have lit: "SplitLiteral (sign @ ?t) = Some (strip_zeros (sign = ''-'') (whole @ fr) (e - int (length fr)))"
  proof (cases "frac_part = []")
    case True
    then have "fr = []" "whole \<noteq> []" using assms(4,5) by (auto split: if_splits)
    then show ?thesis unfolding SplitLiteral_def Let_def sign
      using stop [OF assms(2) fp] True ex tail by (cases exp_part) (auto simp del: dropWhile_eq_Nil_conv takeWhile_eq_all_conv)
  next
    case False
    then have f: "frac_part = CHR ''.'' # fr" using assms(5) by (auto split: if_splits)
    have "whole = [] \<Longrightarrow> fr \<noteq> [] \<and> IsDigit (fr ! 0)" using assms(3,4) by (cases fr) auto
    then show ?thesis unfolding SplitLiteral_def Let_def sign
      using stop [OF assms(2) fp] stop [OF assms(3), of exp_part] ex tail f by (auto simp del: dropWhile_eq_Nil_conv takeWhile_eq_all_conv simp: nth_append)
  qed
  have "list_all IsDigit (whole @ fr)" using assms by simp
  from strip_zeros_digits(3) [OF this HOL.refl] lit show ?thesis by (simp add: strip_zeros_value)
qed

lemma ParsePrecision_pos: "ParsePrecision digits = Some p \<Longrightarrow> p \<noteq> 0"
  by (auto simp: ParsePrecision_def Let_def of_nat_eq_0_iff word_nat dest!: arg_cong [where f = unat] split: if_splits)

text \<open>The precision a literal is read at.\<close>

definition literal_prec :: "string \<Rightarrow> u32" where
  "literal_prec prec_digits =
     (if prec_digits \<noteq> [] then (case ParsePrecision prec_digits of Some p \<Rightarrow> p | None \<Rightarrow> kDefaultPrec) else kDefaultPrec)"

lemma literal_prec_pos: "literal_prec prec_digits \<noteq> 0"
  using ParsePrecision_pos by (auto simp: literal_prec_def kDefaultPrec_def split: option.splits)

lemma parse_zero:
  assumes "ParseBigFloatLiteral literal prec_digits max_digits max_exponent = Inr f" "SplitLiteral literal = Some lit" "lit_digits lit = []"
  shows "bff_mantissa f = []" "bff_exponent f = 0" "bff_negative f = lit_negative lit"
  using assms by (auto simp: ParseBigFloatLiteral_def Let_def split: if_splits option.splits prod.splits)

lemma parse_nonzero:
  assumes p: "ParseBigFloatLiteral literal prec_digits max_digits max_exponent = Inr f" and s: "SplitLiteral literal = Some lit"
    and ne: "lit_digits lit \<noteq> []"
  shows "bff_prec f = literal_prec prec_digits" "bff_negative f = lit_negative lit"
    "nearest 2 (unat (bff_prec f)) (be_val (bff_mantissa f)) (bff_exponent f) (literal_value lit)"
    "\<bar>bff_exponent f + int (unat (bff_prec f))\<bar> \<le> max_exponent" "- (2 ^ 31) \<le> bff_exponent f"
proof -
  obtain num den where r: "literal_ratio lit = (num, den)" by fastforce
  note v = literal_ratio_val [OF s ne r]
  let ?prec = "literal_prec prec_digits"
  let ?bin = "RoundedBinaryExponent num den ?prec"
  have f: "round_exact literal lit num den ?prec ?bin = Inr f" "\<not> ExceedsBound ?bin max_exponent" "\<not> below_wire ?prec ?bin"
    using p s r ne unfolding ParseBigFloatLiteral_def Let_def literal_prec_def
    by (auto split: if_splits option.splits prod.splits)
  from round_exact_nearest [OF v(1-4) literal_prec_pos [of prec_digits], of literal lit] f(1)
  have g: "bff_prec f = ?prec" "bff_negative f = lit_negative lit"
    "nearest 2 (unat ?prec) (be_val (bff_mantissa f)) (bff_exponent f) (ratio num den)" "bff_exponent f + int (unat ?prec) = ?bin" by auto
  have b: "\<bar>?bin\<bar> \<le> max_exponent" "- (2 ^ 31) \<le> bff_exponent f"
    using f(2,3) g(4) unfolding ExceedsBound_def below_wire_def by linarith+
  show "bff_prec f = literal_prec prec_digits" "bff_negative f = lit_negative lit"
    "nearest 2 (unat (bff_prec f)) (be_val (bff_mantissa f)) (bff_exponent f) (literal_value lit)"
    "\<bar>bff_exponent f + int (unat (bff_prec f))\<bar> \<le> max_exponent" "- (2 ^ 31) \<le> bff_exponent f"
    using g b v(5) by simp_all
qed

lemma parse_split: "ParseBigFloatLiteral literal prec_digits max_digits max_exponent = Inr f \<Longrightarrow> \<exists>lit. SplitLiteral literal = Some lit"
  by (auto simp: ParseBigFloatLiteral_def Let_def split: if_splits option.splits prod.splits)

section \<open>Properties\<close>


text \<open>A literal that reads as 2.5 at 8 bits, and one that is zero.\<close>

lemma demo_parse:
  "ParseBigFloatLiteral ''-2.5'' ''8'' 100 1000 = Inr \<lparr>bff_mantissa = [160], bff_exponent = - 6, bff_prec = 8, bff_negative = True\<rparr>"
  by code_simp


end
