(* ===== verification/BigFloatDecimal.thy ===== *)
theory BigFloatDecimal
  imports BigFloatParse
begin

text \<open>
  Writing a big float: the search for the decimal exponent ends from any estimate, the digits written are the nearest decimal of
  that many digits, and there are enough of them to tell the number from every other of its precision.
\<close>

section \<open>The decimal exponent\<close>

lemma ten_powi_less: "(10 :: real) powi a < 10 powi b \<longleftrightarrow> a < b"
  using power_int_strict_increasing [of a b "10 :: real"] power_int_increasing [of b a "10 :: real"] by fastforce

lemma decade_exists:
  assumes "0 < (v :: real)"
  obtains X where "10 powi X \<le> v" "v < 10 powi (X + 1)"
proof
  define X where "X = \<lfloor>log 10 v\<rfloor>"
  have "10 powr real_of_int X \<le> 10 powr log 10 v" "10 powr log 10 v < 10 powr real_of_int (X + 1)"
    by (simp_all add: X_def del: powr_log_cancel)
  then show "10 powi X \<le> v" "v < 10 powi (X + 1)" using assms by (simp_all add: powr_real_of_int' del: of_int_add)
qed

lemma decimal_try_val:
  assumes ok: "nat_ok num" "nat_ok den" "num \<noteq> []" "den \<noteq> []" and t: "decimal_try num den digits x = (q, r, divisor)"
  shows "\<exists>a. nat_val q = a div nat_val divisor \<and> nat_val r = a mod nat_val divisor \<and> 0 < nat_val divisor \<and> nat_ok q \<and> nat_ok r \<and>
    nat_ok divisor \<and> real a / real (nat_val divisor) = ratio num den * 10 powi (digits - 1 - x)"
proof -
  define p where "p = digits - 1 - x"
  define A where "A = (if 0 \<le> p then Nat_Mul num (Nat_Pow10 p) else num)"
  define D where "D = (if 0 \<le> p then den else Nat_Mul den (Nat_Pow10 (- p)))"
  have t': "divisor = D" "Nat_DivMod A D = (q, r)"
    using t unfolding decimal_try_def Let_def p_def [symmetric] A_def [symmetric] D_def [symmetric] by (auto split: prod.splits)
  have okA: "nat_ok A" "nat_ok D" using ok by (simp_all add: A_def D_def)
  have d: "0 < nat_val den" using ok by simp
  have posD: "0 < nat_val D" using d by (simp add: D_def del: nat_val_pos)
  then have "D \<noteq> []" by auto
  note v = Nat_DivMod_val [OF okA this t'(2)]
  have "real (nat_val A) / real (nat_val D) = ratio num den * 10 powi p"
    using d by (simp add: A_def D_def power_int_def field_simps del: nat_val_pos)
  moreover have "nat_val q = nat_val A div nat_val D" "nat_val r = nat_val A mod nat_val D" using v(1,2) by simp_all
  ultimately show ?thesis using v posD okA(2) t'(1) p_def by blast
qed

lemma floor_at_least: "0 < d \<Longrightarrow> n \<le> a div d \<longleftrightarrow> real n \<le> real a / real d"
proof -
  assume d: "0 < d"
  then have "n \<le> a div d \<longleftrightarrow> real (n * d) \<le> real a" by (simp only: less_eq_div_iff_mult_less_eq of_nat_le_iff)
  then show ?thesis using d by (simp add: pos_le_divide_eq)
qed

lemma decimal_try_compare:
  assumes ok: "nat_ok num" "nat_ok den" "num \<noteq> []" "den \<noteq> []" and t: "decimal_try num den digits x = (q, r, divisor)" and d: "1 \<le> digits"
  shows "0 \<le> Nat_Cmp q (Nat_Pow10 digits) \<longleftrightarrow> 10 powi (x + 1) \<le> ratio num den"
    "Nat_Cmp q (Nat_Pow10 (digits - 1)) < 0 \<longleftrightarrow> ratio num den < 10 powi x"
proof -
  obtain a where a: "nat_val q = a div nat_val divisor" "0 < nat_val divisor" "nat_ok q"
      "real a / real (nat_val divisor) = ratio num den * 10 powi (digits - 1 - x)"
    using decimal_try_val [OF ok t] by blast
  have at: "10 ^ nat n \<le> nat_val q \<longleftrightarrow> 10 powi (n - (digits - 1 - x)) \<le> ratio num den" if "0 \<le> n" for n
  proof -
    have "10 ^ nat n \<le> nat_val q \<longleftrightarrow> 10 powi n \<le> ratio num den * 10 powi (digits - 1 - x)"
      unfolding a(1) floor_at_least [OF a(2)] a(4) using that by (simp add: power_int_nonneg_exp)
    also have "\<dots> \<longleftrightarrow> 10 powi n / 10 powi (digits - 1 - x) \<le> ratio num den" by (intro pos_divide_le_eq [symmetric]) simp
    also have "10 powi n / 10 powi (digits - 1 - x) = (10 :: real) powi (n - (digits - 1 - x))" by (simp add: power_int_diff)
    finally show ?thesis .
  qed
  have c: "0 \<le> Nat_Cmp q (Nat_Pow10 n) \<longleftrightarrow> 10 ^ nat n \<le> nat_val q" for n using a(3) by (simp add: Nat_Cmp_val)
  show "0 \<le> Nat_Cmp q (Nat_Pow10 digits) \<longleftrightarrow> 10 powi (x + 1) \<le> ratio num den" unfolding c using at [of digits] d by (simp add: add.commute)
  have "\<not> 0 \<le> Nat_Cmp q (Nat_Pow10 (digits - 1)) \<longleftrightarrow> \<not> 10 powi x \<le> ratio num den" unfolding c using at [of "digits - 1"] d by simp
  then show "Nat_Cmp q (Nat_Pow10 (digits - 1)) < 0 \<longleftrightarrow> ratio num den < 10 powi x" by linarith
qed

lemma decimal_loop_finds:
  assumes ok: "nat_ok num" "nat_ok den" "num \<noteq> []" "den \<noteq> []" and d: "1 \<le> digits"
    and X: "10 powi X \<le> ratio num den" "ratio num den < 10 powi (X + 1)"
  shows "decimal_loop num den digits x = Some (X, decimal_try num den digits X)"
proof (induction "nat \<bar>x - X\<bar>" arbitrary: x rule: less_induct)
  case less
  obtain q r dv where t: "decimal_try num den digits x = (q, r, dv)" by (metis prod_cases3)
  note c = decimal_try_compare [OF ok t d]
  have up: "10 powi (x + 1) \<le> ratio num den \<longleftrightarrow> x < X"
  proof
    assume "10 powi (x + 1) \<le> ratio num den"
    with X(2) have "(10 :: real) powi (x + 1) < 10 powi (X + 1)" by linarith
    then show "x < X" by (simp add: ten_powi_less)
  next
    assume "x < X"
    then have "(10 :: real) powi (x + 1) \<le> 10 powi X" by (intro power_int_increasing) simp_all
    with X(1) show "10 powi (x + 1) \<le> ratio num den" by linarith
  qed
  have down: "ratio num den < 10 powi x \<longleftrightarrow> X < x"
  proof
    assume "ratio num den < 10 powi x"
    with X(1) have "(10 :: real) powi X < 10 powi x" by linarith
    then show "X < x" by (simp add: ten_powi_less)
  next
    assume "X < x"
    then have "(10 :: real) powi (X + 1) \<le> 10 powi x" by (intro power_int_increasing) simp_all
    with X(2) show "ratio num den < 10 powi x" by linarith
  qed
  consider "x < X" | "X < x" | "x = X" by linarith
  then show ?case
  proof cases
    case 1
    then have "decimal_loop num den digits (x + 1) = Some (X, decimal_try num den digits X)" by (intro less) simp
    then show ?thesis using t c up 1 by (subst decimal_loop.simps) simp
  next
    case 2
    then have "decimal_loop num den digits (x - 1) = Some (X, decimal_try num den digits X)" by (intro less) simp
    then show ?thesis using t c up down 2 by (subst decimal_loop.simps) simp
  next
    case 3
    then show ?thesis using t c up down by (subst decimal_loop.simps) simp
  qed
qed

section \<open>The digits\<close>

lemma decimal_round_nearest:
  assumes ok: "nat_ok num" "nat_ok den" "num \<noteq> []" "den \<noteq> []" and d: "1 \<le> digits"
    and X: "10 powi X \<le> ratio num den" "ratio num den < 10 powi (X + 1)"
    and r: "decimal_round digits (X, decimal_try num den digits X) = (x, q)"
  shows "nat_ok q" "nearest 10 (nat digits) (nat_val q) (x + 1 - digits) (ratio num den)" "x = X \<or> x = X + 1"
proof -
  obtain q0 r0 dv where t: "decimal_try num den digits X = (q0, r0, dv)" by (metis prod_cases3)
  obtain a where a: "nat_val q0 = a div nat_val dv" "nat_val r0 = a mod nat_val dv" "0 < nat_val dv" "nat_ok q0" "nat_ok r0" "nat_ok dv"
      "real a / real (nat_val dv) = ratio num den * 10 powi (digits - 1 - X)"
    using decimal_try_val [OF ok t] by blast
  define q1 where "q1 = (let half = Nat_Cmp (Nat_Shl r0 1) dv in if 0 < half \<or> half = 0 \<and> Nat_IsOdd q0 then AddSmall q0 1 else q0)"
  have q1: "nat_val q1 = rne a (nat_val dv)" "nat_ok q1"
    using a by (auto simp: q1_def rne_def Let_def Nat_Cmp_val Nat_IsOdd_val mult.commute)
  have y: "ratio num den * real 10 powi (int (nat digits) - (X + 1)) = real a / real (nat_val dv)" unfolding a(7) using d by (simp add: algebra_simps)
  note half = rne_half [OF a(3), of a, folded q1(1) y] and tie = rne_tie [OF a(3), of a, folded q1(1) y]
  have "0 < nat digits" "1 < (10 :: nat)" using d by simp_all
  note n = nearest_rounded [OF this(2,1) _ _ half tie, simplified, OF X]
  have c: "Nat_Cmp q1 (Nat_Pow10 digits) = 0 \<longleftrightarrow> nat_val q1 = 10 ^ nat digits" using q1(2) by (simp add: Nat_Cmp_val)
  have xq: "(x, q) = (if nat_val q1 = 10 ^ nat digits then (X + 1, Nat_Pow10 (digits - 1)) else (X, q1))"
    using r unfolding t decimal_round_def prod.case Let_def q1_def [unfolded Let_def, symmetric] c by simp
  show "nat_ok q" "x = X \<or> x = X + 1" using xq q1(2) by (auto split: if_splits)
  show "nearest 10 (nat digits) (nat_val q) (x + 1 - digits) (ratio num den)"
  proof (cases "nat_val q1 = 10 ^ nat digits")
    case True
    with n(2) d show ?thesis using xq by (simp add: nat_diff_distrib algebra_simps)
  next
    case False
    with n(1) d show ?thesis using xq by simp
  qed
qed

section \<open>The text\<close>

lemma chunk_digits_val:
  "list_all IsDigit (chunk_digits k c)" "digits_val a (rev (chunk_digits k c)) = a * 10 ^ k + unat c mod 10 ^ k"
proof (induction k arbitrary: c)
  case (Suc k)
  have u: "unat (c div 10) = unat c div 10" "unat (c mod 10) = unat c mod 10" for c :: u32 by (simp_all add: unat_div unat_mod)
  {
    case 1
    show ?case using Suc(1) [of "c div 10"] by (simp add: u)
  next
    case 2
    have "unat c mod 10 ^ Suc k = 10 * (unat c div 10 mod 10 ^ k) + unat c mod 10" by (simp add: mod_mult2_eq)
    then show ?case using Suc(2) [of "c div 10"] by (simp add: u algebra_simps)
  }
qed simp_all

lemma ToDecimal_loop_val: "list_all IsDigit (ToDecimal_loop w)" "nat_ok w \<Longrightarrow> digits_val 0 (rev (ToDecimal_loop w)) = nat_val w"
proof (induction w rule: ToDecimal_loop.induct)
  case (1 w)
  obtain q c where d: "DivSmall w 1000000000 = (q, c)" by fastforce
  note v = DivSmall_val [of w 1000000000 q c, simplified, OF d]
  show "list_all IsDigit (ToDecimal_loop w)"
    using 1(1) [OF _ d [symmetric]] chunk_digits_val(1) [of 9 c] by (subst ToDecimal_loop.simps) (simp add: d)
  assume ok: "nat_ok w"
  show "digits_val 0 (rev (ToDecimal_loop w)) = nat_val w"
  proof (cases "w = []")
    case False
    then show ?thesis using 1(2) [OF _ d [symmetric]] v ok
      by (subst ToDecimal_loop.simps) (simp add: d chunk_digits_val Nat_IsZero_def)
  qed (simp add: ToDecimal_loop.simps Nat_IsZero_def)
qed

lemma digits_val_bound: "list_all IsDigit s \<Longrightarrow> digits_val n s < (n + 1) * 10 ^ length s"
proof (induction s arbitrary: n)
  case (Cons c s)
  then have "digit_val c < 10" by (simp add: digit_val_less)
  then have "(n * 10 + digit_val c + 1) * 10 ^ length s \<le> (n + 1) * 10 * 10 ^ length s" by (intro mult_le_mono1) simp
  moreover have "digits_val n (c # s) < (n * 10 + digit_val c + 1) * 10 ^ length s" using Cons by simp
  ultimately have "digits_val n (c # s) < (n + 1) * 10 * 10 ^ length s" by linarith
  then show ?case by (simp only: length_Cons power_Suc mult.assoc)
qed simp

lemma leading_zeros_val: "digits_val 0 (dropWhile (\<lambda>c. c = CHR ''0'') s) = digits_val 0 s"
  by (induction s) (simp_all add: digit_val_def)

lemma ToDecimal_val:
  assumes "nat_ok w" "w \<noteq> []"
  shows "list_all IsDigit (ToDecimal w)" "digits_val 0 (ToDecimal w) = nat_val w" "ToDecimal w \<noteq> []" "hd (ToDecimal w) \<noteq> CHR ''0''"
proof -
  let ?t = "dropWhile (\<lambda>c. c = CHR ''0'') (rev (ToDecimal_loop w))"
  have v: "digits_val 0 ?t = nat_val w" using ToDecimal_loop_val(2) [OF assms(1)] by (simp only: leading_zeros_val)
  then have ne: "?t \<noteq> []" using assms nat_val_pos [of w] by (auto simp del: dropWhile_eq_Nil_conv)
  then have t: "ToDecimal w = ?t" using assms(2) by (simp add: ToDecimal_def Nat_IsZero_def Let_def del: dropWhile_eq_Nil_conv)
  show "list_all IsDigit (ToDecimal w)" unfolding t using ToDecimal_loop_val(1) [of w] by (auto simp: list_all_iff dest: set_dropWhileD)
  show "digits_val 0 (ToDecimal w) = nat_val w" "ToDecimal w \<noteq> []" unfolding t using v ne by simp_all
  show "hd (ToDecimal w) \<noteq> CHR ''0''" unfolding t using hd_dropWhile [OF ne] by simp
qed

lemma ToDecimal_length:
  assumes "nat_ok w" "10 ^ (k - 1) \<le> nat_val w" "nat_val w < 10 ^ k" "0 < k"
  shows "length (ToDecimal w) = k"
proof -
  have "0 < nat_val w" using assms(2) by (metis gr0I le_zero_eq power_not_zero zero_neq_numeral)
  then have ne: "w \<noteq> []" using assms(1) by simp
  note t = ToDecimal_val [OF assms(1) ne]
  obtain c cs where c: "ToDecimal w = c # cs" using t(3) by (cases "ToDecimal w") auto
  have "0 < digits_val 0 [c]" using t(1,4) by (intro digits_val_pos) (simp_all add: c)
  then have "10 ^ length cs \<le> digit_val c * 10 ^ length cs" by simp
  also have "\<dots> \<le> nat_val w" using t(2) digits_val_ge [of "digit_val c" cs] by (simp add: c)
  finally have lo: "10 ^ length cs \<le> nat_val w" .
  have hi: "nat_val w < 10 ^ length (ToDecimal w)" using digits_val_bound [OF t(1), of 0] t(2) by simp
  have "(10 :: nat) ^ (k - 1) < 10 ^ length (ToDecimal w)" "(10 :: nat) ^ length cs < 10 ^ k" using assms lo hi by linarith+
  then have "k - 1 < length (ToDecimal w)" "length cs < k" by (simp_all only: power_strict_increasing_iff one_less_numeral_iff semiring_norm)
  with c assms(4) show ?thesis by simp
qed

lemma trim_trailing_zeros: "\<exists>k. s = trim_trailing s @ replicate k (CHR ''0'')"
proof
  let ?z = "takeWhile (\<lambda>c. c = CHR ''0'') (rev s)"
  have z: "?z = replicate (length ?z) (CHR ''0'')" by (intro replicate_eqI) (auto dest: set_takeWhileD)
  have "rev s = ?z @ dropWhile (\<lambda>c. c = CHR ''0'') (rev s)" by simp
  then have "s = trim_trailing s @ rev ?z" unfolding trim_trailing_def by (metis rev_append rev_rev_ident)
  then show "s = trim_trailing s @ replicate (length ?z) (CHR ''0'')" using z by (metis rev_replicate)
qed

lemma decimal_text_reads:
  assumes d: "list_all IsDigit d" "d \<noteq> []" and x: "\<bar>x\<bar> < kSaturated" and sign: "sign \<in> {[], ''-'', ''+''}"
  shows "\<exists>lit. SplitLiteral (sign @ decimal_text digits x d) = Some lit \<and> lit_negative lit = (sign = ''-'') \<and>
    literal_value lit = real (digits_val 0 d) * 10 powi (x + 1 - int (length d))"
proof -
  have split: "list_all IsDigit (take n d)" "list_all IsDigit (drop n d)" for n
    using d(1) by (auto simp: list_all_iff dest: in_set_takeD in_set_dropD)
  have zeros: "list_all IsDigit (replicate n (CHR ''0''))" for n by (simp add: list_all_iff IsDigit_def)
  consider "x < - 4 \<or> digits \<le> x" | "\<not> (x < - 4 \<or> digits \<le> x)" "x < 0"
    | "\<not> (x < - 4 \<or> digits \<le> x)" "0 \<le> x" "length d \<le> nat x + 1" | "\<not> (x < - 4 \<or> digits \<le> x)" "0 \<le> x" "nat x + 1 < length d"
    by linarith
  then show ?thesis
  proof cases
    case 1
    let ?fp = "if 1 < length d then ''.'' @ drop 1 d else []"
    have t: "decimal_text digits x d = take 1 d @ ?fp @ signed_two x" using 1 by (simp add: decimal_text_def)
    have e: "signed_two x = [] \<and> x = 0 \<or> (\<exists>c es ds. signed_two x = c # es @ ds \<and> c \<in> {CHR ''e'', CHR ''E''} \<and> es \<in> {[], ''-'', ''+''} \<and>
       ds \<noteq> [] \<and> list_all IsDigit ds \<and> int (digits_val 0 ds) < kSaturated \<and> x = (if es = ''-'' then - 1 else 1) * int (digits_val 0 ds))"
      using x by (intro disjI2 exI [of _ "CHR ''e''"] exI [of _ "if x < 0 then ''-'' else ''+''"] exI [of _ "zpad 2 (nat \<bar>x\<bar>)"])
        (simp add: signed_two_def)
    have "?fp \<in> (if drop 1 d = [] then {[], ''.''} else {''.'' @ drop 1 d})" by simp
    from SplitLiteral_written [OF sign split(1) [of 1] split(2) [of 1] _ this e] d(2) show ?thesis
      unfolding t using append_take_drop_id [of 1 d] by (cases d) (simp_all add: algebra_simps)
  next
    case 2
    let ?fr = "replicate (nat (- x - 1)) (CHR ''0'') @ d"
    have t: "decimal_text digits x d = ''0'' @ (''.'' @ ?fr) @ []" using 2 by (simp add: decimal_text_def)
    have z: "digits_val 0 (''0'' @ ?fr) = digits_val 0 d"
      using digits_val_zeros [of 0 "[]" "nat (- x - 1)"] by (simp add: digit_val_def)
    have l: "0 - int (length ?fr) = x + 1 - int (length d)" using 2 by simp
    show ?thesis unfolding t using SplitLiteral_written [OF sign, of "''0''" ?fr "''.'' @ ?fr" "[]" 0] zeros d unfolding z l
      by (simp add: IsDigit_def)
  next
    case 3
    let ?w = "d @ replicate (nat x + 1 - length d) (CHR ''0'')"
    have t: "decimal_text digits x d = ?w @ [] @ []" using 3 by (simp add: decimal_text_def Let_def)
    have n: "int (nat x + 1 - length d) = x + 1 - int (length d)" using 3 by simp
    have v: "real (digits_val 0 ?w) = real (digits_val 0 d) * 10 powi (x + 1 - int (length d))"
      unfolding n [symmetric] by (simp add: digits_val_zeros del: digits_val_append)
    show ?thesis unfolding t v [symmetric] using SplitLiteral_written [OF sign, of ?w "[]" "[]" "[]" 0] zeros d by simp
  next
    case 4
    let ?w = "take (nat x + 1) d" and ?fr = "drop (nat x + 1) d"
    have t: "decimal_text digits x d = ?w @ (''.'' @ ?fr) @ []" using 4 by (simp add: decimal_text_def Let_def)
    have l: "0 - int (length ?fr) = x + 1 - int (length d)" using 4 by simp
    show ?thesis unfolding t
      using SplitLiteral_written [OF sign split(1) [of "nat x + 1"] split(2) [of "nat x + 1"], of "''.'' @ ?fr" "[]" 0] d 4 unfolding l
      by simp
  qed
qed

section \<open>The literal\<close>

text \<open>The number a message holds, after rounding to its precision.\<close>

definition rounded_value :: "BigFloatFields \<Rightarrow> real" where
  "rounded_value f = (case RoundedMantissa f of (m, e) \<Rightarrow> real (nat_val m) * 2 powi e)"

lemma PrecDigits_pos: "2 \<le> BigFloatPrecDigits p"
  by (simp add: BigFloatPrecDigits_def Pow2Digits_exact)

lemma RoundedMantissa_ok: "RoundedMantissa f = (m, e) \<Longrightarrow> nat_ok m"
  using RoundToBits_ok [OF FromBytes_val(2)] by (fastforce simp: RoundedMantissa_def split: prod.splits)

text \<open>The trimmed digits of a rounded quotient, and their place.\<close>

lemma trimmed_digits:
  assumes q: "nat_ok q" "10 ^ (k - 1) \<le> nat_val q" "nat_val q < 10 ^ k" "0 < k"
  defines "d \<equiv> trim_trailing (ToDecimal q)"
  shows "list_all IsDigit d" "d \<noteq> []" "real (digits_val 0 d) * 10 powi (x + 1 - int (length d)) = real (nat_val q) * 10 powi (x + 1 - int k)"
proof -
  have "0 < nat_val q" using q(2) by (metis gr0I le_zero_eq power_not_zero zero_neq_numeral)
  then have ne: "q \<noteq> []" using q(1) by simp
  note t = ToDecimal_val [OF q(1) ne]
  obtain j where j: "ToDecimal q = d @ replicate j (CHR ''0'')" using trim_trailing_zeros unfolding d_def by blast
  show "list_all IsDigit d" using t(1) unfolding j by simp
  show "d \<noteq> []" using t(3,4) unfolding j by (cases j) auto
  have v: "nat_val q = digits_val 0 d * 10 ^ j" using t(2) unfolding j digits_val_zeros by simp
  have "k = length d + j" using ToDecimal_length [OF q] unfolding j by simp
  then have "x + 1 - int (length d) = x + 1 - int k + int j" by simp
  then show "real (digits_val 0 d) * 10 powi (x + 1 - int (length d)) = real (nat_val q) * 10 powi (x + 1 - int k)"
    by (simp only: v) (simp add: power_int_add)
qed

lemma decade_bounds:
  fixes v :: real
  assumes v: "2 powi (bin - 1) \<le> v" "v < 2 powi bin" and X: "10 powi X \<le> v" "v < 10 powi (X + 1)" and b: "\<bar>bin\<bar> \<le> limit"
  shows "\<bar>X\<bar> \<le> limit + 2"
proof -
  have "X < bin" if "0 \<le> X"
  proof -
    have "(2 :: real) powi X \<le> 10 powi X" using that by (intro power_int_mono) simp_all
    then have "(2 :: real) powi X < 2 powi bin" using v X by linarith
    then show ?thesis by (simp add: two_powi_less)
  qed
  moreover have "bin - 1 < X + 1" if "X + 1 < 0"
  proof -
    have "(10 :: real) powi (X + 1) \<le> 2 powi (X + 1)" using that by (intro power_int_antimono) simp_all
    then have "(2 :: real) powi (bin - 1) < 2 powi (X + 1)" using v X by linarith
    then show ?thesis by (simp add: two_powi_less)
  qed
  ultimately show ?thesis using b by linarith
qed

text \<open>The value as a ratio of two magnitudes.\<close>

lemma float_ratio:
  fixes e :: int
  assumes "nat_ok m" "m \<noteq> []"
  defines "num \<equiv> if 0 \<le> e then Nat_Shl m (nat e) else m" and "den \<equiv> if 0 \<le> e then Nat_of 1 else Nat_Shl (Nat_of 1) (nat (- e))"
  shows "nat_ok num" "nat_ok den" "num \<noteq> []" "den \<noteq> []" "ratio num den = real (nat_val m) * 2 powi e"
proof -
  have pos: "0 < nat_val m" using assms by simp
  show "nat_ok num" "nat_ok den" using assms(1) by (simp_all add: num_def den_def Nat_of_ok)
  have posn: "0 < nat_val num" "0 < nat_val den" using pos by (simp_all add: num_def den_def Nat_of_ok del: nat_val_pos)
  then show "num \<noteq> []" "den \<noteq> []" by auto
  show "ratio num den = real (nat_val m) * 2 powi e"
    by (simp add: num_def den_def Nat_of_ok power_int_def field_simps)
qed

lemma format_literal:
  assumes p: "bff_prec f \<noteq> 0" and c: "CheckBigFloatLimits f max_digits max_exponent = kNone" and m: "rounded_value f \<noteq> 0"
    and lim: "max_exponent < 2 ^ 31"
  shows "\<exists>t lit q x. FormatBigFloatLiteral f max_digits max_exponent = Some (Inr (t @ ''p'' @ to_string (unat (bff_prec f)))) \<and>
    SplitLiteral t = Some lit \<and> lit_negative lit = bff_negative f \<and> literal_value lit = real q * 10 powi x \<and>
    nearest 10 (nat (BigFloatPrecDigits (bff_prec f))) q x (rounded_value f)"
proof -
  obtain m e where me: "RoundedMantissa f = (m, e)" by fastforce
  have ok: "nat_ok m" and pos: "0 < nat_val m" and ne: "m \<noteq> []"
    using RoundedMantissa_ok [OF me] m by (auto simp: rounded_value_def me)
  define digits where "digits = BigFloatPrecDigits (bff_prec f)"
  have d: "1 \<le> digits" "0 < nat digits" using PrecDigits_pos [of "bff_prec f"] by (simp_all add: digits_def)
  define num where "num = (if 0 \<le> e then Nat_Shl m (nat e) else m)"
  define den where "den = (if 0 \<le> e then Nat_of 1 else Nat_Shl (Nat_of 1) (nat (- e)))"
  note fr = float_ratio [OF ok ne, of e, folded num_def den_def]
  note okn = fr(1,2) and nen = fr(3,4)
  have v: "ratio num den = rounded_value f" using fr(5) by (simp add: rounded_value_def me)
  define bin where "bin = BinaryExponent m e"
  have "m \<noteq> [] \<Longrightarrow> Nat_FromBytes (bff_mantissa f) \<noteq> []"
    using me by (auto simp: RoundedMantissa_def RoundToBits_def Nat_BitLen_def split: if_splits)
  then have bin: "\<bar>bin\<bar> \<le> max_exponent"
    using c ne by (auto simp: CheckBigFloatLimits_def Let_def me bin_def Nat_IsZero_def ExceedsBound_def split: if_splits)
  have vb: "2 powi (bin - 1) \<le> rounded_value f" "rounded_value f < 2 powi bin"
  proof -
    have "2 powi (bin - 1) = 2 powi (int (nbits (nat_val m)) - 1) * (2 :: real) powi e" "2 powi bin = 2 powi int (nbits (nat_val m)) * (2 :: real) powi e"
      unfolding two_powi_add [symmetric] bin_def BinaryExponent_def BitLen_nbits [OF ok] by (simp_all add: algebra_simps)
    then show "2 powi (bin - 1) \<le> rounded_value f" "rounded_value f < 2 powi bin"
      using nbits_powi [OF pos] by (simp_all add: rounded_value_def me)
  qed
  have "0 < rounded_value f" using pos by (simp add: rounded_value_def me del: nat_val_pos)
  then obtain X where X: "10 powi X \<le> ratio num den" "ratio num den < 10 powi (X + 1)" using decade_exists unfolding v by blast
  have loop: "decimal_loop num den digits (decimal_estimate bin) = Some (X, decimal_try num den digits X)"
    by (rule decimal_loop_finds [OF okn nen d(1) X])
  obtain x q where xq: "decimal_round digits (X, decimal_try num den digits X) = (x, q)" by fastforce
  note r = decimal_round_nearest [OF okn nen d(1) X xq]
  have "\<bar>X\<bar> \<le> max_exponent + 2" by (rule decade_bounds [OF vb X [unfolded v] bin])
  then have "\<bar>x\<bar> < kSaturated" using r(3) lim by (auto simp: kSaturated_def)
  define t where "t = trim_trailing (ToDecimal q)"
  have q: "10 ^ (nat digits - 1) \<le> nat_val q" "nat_val q < 10 ^ nat digits" using r(2) by (simp_all add: nearest_def)
  note tr = trimmed_digits [OF r(1) q d(2), folded t_def]
  let ?sign = "if bff_negative f then ''-'' else []"
  obtain lit where lit: "SplitLiteral (?sign @ decimal_text digits x t) = Some lit" "lit_negative lit = bff_negative f"
      "literal_value lit = real (nat_val q) * 10 powi (x + 1 - digits)"
    using decimal_text_reads [OF tr(1,2) \<open>\<bar>x\<bar> < kSaturated\<close>, of ?sign digits] tr(3) [of x] d by (cases "bff_negative f") auto
  have "FormatBigFloatLiteral f max_digits max_exponent
    = Some (Inr (?sign @ decimal_text digits x t @ ''p'' @ to_string (unat (bff_prec f))))"
    using p c ne by (simp add: FormatBigFloatLiteral_def me Let_def Nat_IsZero_def xq loop
        flip: num_def den_def digits_def bin_def t_def)
  then show ?thesis using lit r(2) unfolding v digits_def
    by (intro exI [of _ "?sign @ decimal_text digits x t"] exI [of _ lit] exI [of _ "nat_val q"] exI [of _ "x + 1 - digits"])
      (simp add: digits_def)
qed

end
