(* ===== verification/BigFloatRoundtrip.thy ===== *)
theory BigFloatRoundtrip
  imports BigFloatDecimal
begin

text \<open>
  The digits a precision gets tell its numbers apart, so the literal written for a big float rounds back to it.
\<close>

section \<open>Enough digits\<close>

text \<open>A bound on a power of two with a short coefficient, doubled and cut again; at 13301 the power is just below one of ten.\<close>

definition pow2_below :: "nat \<Rightarrow> nat \<Rightarrow> nat \<Rightarrow> bool" where
  "pow2_below k u j \<longleftrightarrow> 2 ^ k \<le> u * 10 ^ j"

lemma pow2_below_step:
  assumes "pow2_below k u j" "u * u * 2 ^ b \<le> u' * 10 ^ d" "k' = 2 * k + b" "j' = 2 * j + d"
  shows "pow2_below k' u' j'"
proof -
  have "(2 :: nat) ^ k' = 2 ^ k * 2 ^ k * 2 ^ b" by (simp add: assms(3) power_add mult_2)
  also have "\<dots> \<le> (u * 10 ^ j) * (u * 10 ^ j) * 2 ^ b" using assms(1) by (intro mult_le_mono) (simp_all add: pow2_below_def)
  also have "\<dots> = (u * u * 2 ^ b) * 10 ^ (2 * j)" by (simp add: power_add mult_2)
  also have "\<dots> \<le> u' * 10 ^ d * 10 ^ (2 * j)" using assms(2) by (intro mult_le_mono1)
  finally show ?thesis by (simp add: pow2_below_def assms(4) power_add mult_ac)
qed

lemma pow2_13301: "(2 :: nat) ^ 13301 < 10 ^ 4004"
proof -
  have "pow2_below 51 2251799813685248 0" by (simp add: pow2_below_def)
  then have "pow2_below 103 1014120480182584 16" by (rule pow2_below_step [of _ _ _ 1 _ 16]) simp_all
  then have "pow2_below 207 2056880696651510 47" by (rule pow2_below_step [of _ _ _ 1 _ 15]) simp_all
  then have "pow2_below 415 8461516400515203 109" by (rule pow2_below_step [of _ _ _ 1 _ 15]) simp_all
  then have "pow2_below 831 1431945195923756 235" by (rule pow2_below_step [of _ _ _ 1 _ 17]) simp_all
  then have "pow2_below 1662 2050467044129124 485" by (rule pow2_below_step [of _ _ _ 0 _ 15]) simp_all
  then have "pow2_below 3325 8408830198119254 985" by (rule pow2_below_step [of _ _ _ 1 _ 15]) simp_all
  then have "pow2_below 6650 7070842530080230 1986" by (rule pow2_below_step [of _ _ _ 0 _ 16]) simp_all
  then have "pow2_below 13301 9999362817038278 3988" by (rule pow2_below_step [of _ _ _ 1 _ 16]) simp_all
  then have "(2 :: nat) ^ 13301 \<le> 9999362817038278 * 10 ^ 3988" by (simp only: pow2_below_def)
  also have "\<dots> < 10 ^ 16 * 10 ^ 3988" by (rule mult_strict_right_mono, simp, rule zero_less_power, simp)
  also have "\<dots> = (10 :: nat) ^ (16 + 3988)" by (simp only: power_add)
  also have "(16 + 3988 :: nat) = 4004" by simp
  finally show ?thesis .
qed

lemma digits_enough:
  assumes "unat p \<le> 13603"
  shows "2 ^ unat p < (10 :: nat) ^ nat (BigFloatPrecDigits p - 1)"
proof -
  define n where "n = unat p"
  define D where "D = n * 0x4d104d427de7fbcc div 2 ^ 64 + 1"
  have D: "nat (BigFloatPrecDigits p - 1) = D" by (simp add: BigFloatPrecDigits_def Pow2Digits_exact D_def n_def nat_add_distrib)
  have n: "n \<le> 13603" using assms by (simp add: n_def)
  have "n * 0x4d104d427de7fbcc < 2 ^ 64 * D" unfolding D_def by (simp add: div_less_iff_less_mult [symmetric] mult.commute [of "2 ^ 64"])
  then have le: "4004 * n \<le> 13301 * D" using n by simp
  show ?thesis
  proof (cases "n = 0")
    case True
    then show ?thesis unfolding D n_def [symmetric] by (simp add: D_def)
  next
    case False
    have "((2 :: nat) ^ n) ^ 13301 = (2 ^ 13301) ^ n" by (simp only: power_mult [symmetric] mult.commute)
    also have "\<dots> < ((10 :: nat) ^ 4004) ^ n" using pow2_13301 False by (intro power_strict_mono) (simp_all only: zero_le neq0_conv)
    also have "\<dots> = 10 ^ (4004 * n)" by (simp only: power_mult)
    also have "\<dots> \<le> 10 ^ (13301 * D)" by (rule power_increasing [OF le]) simp
    also have "\<dots> = (10 ^ D) ^ 13301" by (simp only: power_mult [symmetric] mult.commute)
    finally have "2 ^ n < (10 :: nat) ^ D" by (rule power_less_imp_less_base) (rule zero_le)
    then show ?thesis unfolding D n_def [symmetric] .
  qed
qed

section \<open>Telling numbers apart\<close>

text \<open>The error of a nearest number is small beside the value itself, also where it rounded up to a power of the base.\<close>

lemma nearest_relative:
  assumes n: "nearest b k q x v" and b: "1 < b" and k: "0 < k" and v: "0 < v"
  shows "\<bar>real q * real b powi x - v\<bar> \<le> v / real b ^ (k - 1) / 2"
proof -
  define B where "B = real b ^ (k - 1)"
  define u where "u = real b powi x"
  have b0: "real b \<noteq> 0" "1 < real b" using b by simp_all
  have pos: "0 < u" "1 \<le> B" using b0 by (simp_all add: u_def B_def)
  have half: "\<bar>real q * u - v\<bar> \<le> u / 2" and q: "b ^ (k - 1) \<le> q" using n by (simp_all add: nearest_def u_def)
  have q': "B \<le> real q" using q unfolding B_def by (metis of_nat_le_iff of_nat_power)
  have goal: ?thesis if "B * w \<le> v" "\<bar>real q * u - v\<bar> \<le> w / 2" for w
  proof -
    have "w \<le> v / B" using that(1) pos by (simp add: pos_le_divide_eq mult.commute)
    then show ?thesis using that(2) by (simp add: B_def u_def)
  qed
  consider "real q * u \<le> v" | "v < real q * u" "b ^ (k - 1) < q" | "v < real q * u" "q = b ^ (k - 1)" using q by linarith
  then show ?thesis
  proof cases
    case 1
    then have "B * u \<le> v" using q' pos by (meson mult_right_mono less_imp_le order_trans)
    then show ?thesis using goal half by blast
  next
    case 2
    then have "b ^ (k - 1) + 1 \<le> q" by simp
    then have "B + 1 \<le> real q" unfolding B_def by (metis of_nat_le_iff of_nat_power of_nat_add of_nat_1)
    then have "(B + 1) * u \<le> real q * u" using pos by (intro mult_right_mono) simp_all
    moreover have "real q * u - u \<le> v" using half pos by linarith
    ultimately have "B * u \<le> v" by (simp add: algebra_simps)
    then show ?thesis using goal half by blast
  next
    case 3
    define w where "w = real b powi (x - 1)"
    have w: "0 < w" "u = real b * w" using b0 by (simp_all add: w_def u_def power_int_diff zero_less_power_int)
    have less: "b ^ k - 1 < b ^ k" using b by simp
    have bk: "real (b ^ k - 1) = real b * B - 1" using b k by (cases k) (simp_all add: B_def of_nat_diff)
    have qu: "real q * u = real b * B * w" using 3(2) w(2) by (simp add: B_def)
    have "\<bar>real q * u - v\<bar> \<le> \<bar>real (b ^ k - 1) * w - v\<bar>" using n less unfolding nearest_def u_def w_def by blast
    then have cl: "\<bar>real q * u - v\<bar> \<le> \<bar>real q * u - w - v\<bar>" unfolding bk qu by (simp add: algebra_simps)
    then have "real q * u - v \<le> w / 2" using 3(1) w(1) by linarith
    moreover have "2 * B * w \<le> real b * B * w" using b w(1) pos by (intro mult_right_mono) simp_all
    moreover have "1 * w \<le> B * w" using pos w(1) by (intro mult_right_mono) simp_all
    ultimately have "B * w \<le> v" "\<bar>real q * u - v\<bar> \<le> w / 2" using qu 3(1) w(1) by linarith+
    then show ?thesis by (rule goal)
  qed
qed

lemma float_gap:
  assumes p: "0 < p" and M: "2 ^ (p - 1) \<le> M" "M < 2 ^ p" and m: "m < 2 ^ p" and ne: "real m * 2 powi e \<noteq> real M * 2 powi E"
  shows "real M * 2 powi E / 2 ^ p \<le> \<bar>real m * 2 powi e - real M * 2 powi E\<bar>"
proof -
  define k where "k = e - E"
  define w where "w = real m * 2 powi k"
  have w: "real m * 2 powi e = w * 2 powi E" by (simp add: w_def k_def mult.assoc flip: two_powi_add)
  have P: "(2 :: real) ^ p = 2 * 2 ^ (p - 1)" using p by (cases p) simp_all
  have M': "2 ^ (p - 1) \<le> real M" "real M < 2 ^ p"
    using M by (metis of_nat_le_iff of_nat_power of_nat_numeral, metis of_nat_less_iff of_nat_power of_nat_numeral)
  have "real M / 2 ^ p \<le> \<bar>w - real M\<bar>"
  proof (cases "0 \<le> k")
    case True
    then have n: "w = real (m * 2 ^ nat k)" by (simp add: w_def power_int_nonneg_exp)
    have "w \<noteq> real M" using ne w by auto
    then have "m * 2 ^ nat k \<noteq> M" unfolding n by (simp only: of_nat_eq_iff simp_thms)
    then have "1 \<le> \<bar>w - real M\<bar>" unfolding n by linarith
    moreover have "real M / 2 ^ p \<le> 1" using M'(2) by simp
    ultimately show ?thesis by linarith
  next
    case False
    have "m + 1 \<le> 2 ^ p" using m by simp
    then have "real (m + 1) \<le> real (2 ^ p)" by (simp only: of_nat_le_iff)
    then have "real m + 1 \<le> 2 ^ p" by simp
    moreover have "w \<le> real m * 2 powi (- 1)" unfolding w_def using False by (intro mult_left_mono power_int_increasing) simp_all
    ultimately have "w \<le> 2 ^ (p - 1) - 1 / 2" using P by simp
    moreover have "real M / 2 ^ p \<le> real M - 2 ^ (p - 1) + 1 / 2"
    proof -
      have "(real M - 2 ^ (p - 1)) / 2 ^ p \<le> (real M - 2 ^ (p - 1)) / 1" using M'(1) by (intro divide_left_mono) simp_all
      moreover have "real M / 2 ^ p = (real M - 2 ^ (p - 1)) / 2 ^ p + 1 / 2" unfolding P by (simp add: field_simps)
      ultimately show ?thesis by simp
    qed
    ultimately show ?thesis by linarith
  qed
  then have "real M / 2 ^ p * 2 powi E \<le> \<bar>w - real M\<bar> * 2 powi E" by (intro mult_right_mono) simp_all
  also have "\<dots> = \<bar>w * 2 powi E - real M * 2 powi E\<bar>" unfolding left_diff_distrib [symmetric] by (simp add: abs_mult)
  finally show ?thesis unfolding w by simp
qed


lemma float_unique:
  assumes p: "0 < p" and M: "2 ^ (p - 1) \<le> M" "M < 2 ^ p" and v: "v = real M * 2 powi E"
    and d: "\<bar>d - v\<bar> < v / 2 ^ p / 2" and n: "nearest 2 p m e d"
  shows "real m * 2 powi e = v"
proof (rule ccontr)
  assume "real m * 2 powi e \<noteq> v"
  moreover have "m < 2 ^ p" using n by (simp add: nearest_def)
  ultimately have "v / 2 ^ p \<le> \<bar>real m * 2 powi e - v\<bar>" using float_gap [OF p M] unfolding v by blast
  moreover have "\<bar>real m * 2 powi e - d\<bar> \<le> \<bar>v - d\<bar>" using n M(2) unfolding nearest_def v by simp
  moreover define g where "g = v / 2 ^ p"
  ultimately have "g \<le> \<bar>real m * 2 powi e - v\<bar>" "\<bar>real m * 2 powi e - d\<bar> \<le> \<bar>v - d\<bar>" "\<bar>d - v\<bar> < g / 2" using d by simp_all
  then show False by linarith
qed

text \<open>A rounded mantissa, aligned to the precision.\<close>

lemma aligned_mantissa:
  assumes m: "0 < m" "m \<le> 2 ^ p" and p: "0 < p"
  shows "\<exists>M E. 2 ^ (p - 1) \<le> M \<and> M < 2 ^ p \<and> real m * 2 powi e = real M * 2 powi E"
proof (cases "m = 2 ^ p")
  case True
  have "real m * 2 powi e = real (2 ^ (p - 1)) * 2 powi (e + 1)" unfolding True two_powi_add using p by (cases p) simp_all
  then show ?thesis using p by (intro exI [of _ "2 ^ (p - 1)"] exI [of _ "e + 1"]) simp
next
  case False
  note b = nbits_bounds [OF m(1)]
  have "(2 :: nat) ^ (nbits m - 1) < 2 ^ p" using b m(2) False by linarith
  then have "nbits m - 1 < p" by (simp only: power_strict_increasing_iff one_less_numeral_iff semiring_norm)
  then have le: "nbits m \<le> p" by simp
  define k where "k = p - nbits m"
  have pk: "p - 1 = nbits m - 1 + k" "p = nbits m + k" using le b by (simp_all add: k_def)
  have "2 ^ (p - 1) \<le> m * 2 ^ k" unfolding pk(1) power_add using b by simp
  moreover have "m * 2 ^ k < 2 ^ p" unfolding pk(2) power_add using b by simp
  moreover have "real m * 2 powi e = real (m * 2 ^ k) * 2 powi (e - int k)" by (simp add: two_powi_diff)
  ultimately show ?thesis by blast
qed

lemma RoundedMantissa_le:
  assumes r: "RoundedMantissa f = (m, e)" and p: "bff_prec f \<noteq> 0"
  shows "nat_val m \<le> 2 ^ unat (bff_prec f)"
proof -
  let ?p = "unat (bff_prec f)" and ?w = "Nat_FromBytes (bff_mantissa f)"
  obtain s where s: "RoundToBits ?w ?p False = (m, s)" using r by (auto simp: RoundedMantissa_def split: prod.splits)
  show ?thesis
  proof (cases "nbits (nat_val ?w) \<le> ?p")
    case True
    then have m: "m = ?w" using RoundToBits_short [OF FromBytes_val(2) True] s by simp
    have "nat_val ?w < 2 ^ nbits (nat_val ?w)" using nbits_bounds [of "nat_val ?w"] by (cases "nat_val ?w = 0") simp_all
    moreover have "(2 :: nat) ^ nbits (nat_val ?w) \<le> 2 ^ ?p" using True by (intro power_increasing) simp_all
    ultimately show ?thesis unfolding m by linarith
  next
    case False
    then have l: "?p < nbits (nat_val ?w)" by simp
    note rr = RoundToBits_rne [of ?w "nat_val ?w" 1 False ?p m s, OF FromBytes_val(2) _ _ _ l s, simplified]
    have "nat_val ?w < 2 ^ nbits (nat_val ?w)" using nbits_bounds [of "nat_val ?w"] l by (cases "nat_val ?w = 0") simp_all
    also have "\<dots> = 2 ^ ?p * 2 ^ s" using rr(1) l by (simp flip: power_add)
    finally have "nat_val ?w div 2 ^ s < 2 ^ ?p" by (simp add: less_mult_imp_div_less)
    then have "rne (nat_val ?w) (2 ^ s) \<le> 2 ^ ?p" by (simp add: rne_def)
    then show ?thesis using rr(2) by simp
  qed
qed

lemma ParsePrecision_to_string: "p \<noteq> 0 \<Longrightarrow> ParsePrecision (to_string (unat p)) = Some (p :: u32)"
proof -
  assume "p \<noteq> 0"
  then have pos: "0 < unat p" by (simp add: unat_gt_0)
  have "unat p < 10 ^ 10" using unat_lt_word(3) [of p] by simp
  then have "length (to_string (unat p)) \<le> 10" by (rule length_to_string) simp
  moreover have "uint p \<noteq> 0" "\<not> 4294967295 < uint p" using pos unat_lt_word(3) [of p] uint_bounded [of p] by (simp_all add: unat_gt_0 uint_0_iff)
  ultimately show ?thesis by (simp add: ParsePrecision_def Let_def)
qed

lemma written_reads_back:
  assumes p: "bff_prec f \<noteq> 0" "unat (bff_prec f) \<le> 13603" and ne: "rounded_value f \<noteq> 0"
    and s: "SplitLiteral t = Some lit" "literal_value lit = real q * 10 powi x"
    and n: "nearest 10 (nat (BigFloatPrecDigits (bff_prec f))) q x (rounded_value f)"
    and g: "nearest 2 (unat (bff_prec f)) m e (literal_value lit)"
  shows "real m * 2 powi e = rounded_value f"
proof -
  let ?p = "unat (bff_prec f)" and ?k = "nat (BigFloatPrecDigits (bff_prec f))"
  obtain w j where me: "RoundedMantissa f = (w, j)" by fastforce
  have v: "rounded_value f = real (nat_val w) * 2 powi j" by (simp add: rounded_value_def me)
  have pos: "0 < nat_val w" "0 < rounded_value f" using ne by (auto simp: v intro!: mult_pos_pos gr0I)
  have pp: "0 < ?p" using p(1) by (simp add: unat_gt_0)
  obtain M E where M: "2 ^ (?p - 1) \<le> M" "M < 2 ^ ?p" "rounded_value f = real M * 2 powi E"
    using aligned_mantissa [OF pos(1) RoundedMantissa_le [OF me p(1)] pp] unfolding v by blast
  have k: "0 < ?k" "?k - 1 = nat (BigFloatPrecDigits (bff_prec f) - 1)" using PrecDigits_pos [of "bff_prec f"] by (simp_all add: nat_diff_distrib)
  have "real (2 ^ ?p) < real (10 ^ (?k - 1))" unfolding k(2) of_nat_less_iff by (rule digits_enough [OF p(2)])
  then have "rounded_value f / 10 ^ (?k - 1) < rounded_value f / 2 ^ ?p" using pos(2) by (intro divide_strict_left_mono) simp_all
  moreover have "\<bar>real q * 10 powi x - rounded_value f\<bar> \<le> rounded_value f / 10 ^ (?k - 1) / 2"
    using nearest_relative [OF n _ k(1) pos(2)] by simp
  ultimately have "\<bar>literal_value lit - rounded_value f\<bar> < rounded_value f / 2 ^ ?p / 2"
    unfolding s(2) by (meson le_less_trans divide_strict_right_mono zero_less_numeral)
  from float_unique [OF pp M this g] show ?thesis .
qed


text \<open>The search for the decimal exponent ends from any estimate, so writing always returns.\<close>

lemma format_returns: "\<exists>r. FormatBigFloatLiteral f max_digits max_exponent = Some r"
proof -
  obtain m e where me: "RoundedMantissa f = (m, e)" by fastforce
  have "\<exists>t. decimal_loop (if 0 \<le> e then Nat_Shl m (nat e) else m) (if 0 \<le> e then Nat_of 1 else Nat_Shl (Nat_of 1) (nat (- e)))
      (BigFloatPrecDigits (bff_prec f)) x = Some t" if "m \<noteq> []" for x
  proof -
    note fr = float_ratio [OF RoundedMantissa_ok [OF me] that, of e]
    have "0 < real (nat_val m) * 2 powi e" using that RoundedMantissa_ok [OF me] by simp
    then obtain X where "10 powi X \<le> real (nat_val m) * 2 powi e" "real (nat_val m) * 2 powi e < 10 powi (X + 1)" by (rule decade_exists)
    moreover have "1 \<le> BigFloatPrecDigits (bff_prec f)" using PrecDigits_pos [of "bff_prec f"] by simp
    ultimately show ?thesis using decimal_loop_finds [OF fr(1-4), of "BigFloatPrecDigits (bff_prec f)" X x] unfolding fr(5) by blast
  qed
  then show ?thesis
    by (auto simp: FormatBigFloatLiteral_def Let_def me Nat_IsZero_def simp del: if_split split: BigFloatLimit.split)
qed

text \<open>A message with the value 2.5 at 8 bits.\<close>

definition demo_float :: BigFloatFields where
  "demo_float = \<lparr>bff_mantissa = [5], bff_exponent = - 1, bff_prec = 8, bff_negative = True\<rparr>"

lemma demo_float_ok:
  "bff_prec demo_float \<noteq> 0" "CheckBigFloatLimits demo_float 100 1000 = kNone" "rounded_value demo_float \<noteq> 0"
  "FormatBigFloatLiteral demo_float 100 1000 = Some (Inr ''-2.5p8'')"
proof -
  have "RoundedMantissa demo_float = ([5], - 1)" by code_simp
  then show "rounded_value demo_float \<noteq> 0" by (simp add: rounded_value_def)
  show "bff_prec demo_float \<noteq> 0" by code_simp
  show "CheckBigFloatLimits demo_float 100 1000 = kNone" by code_simp
  show "FormatBigFloatLiteral demo_float 100 1000 = Some (Inr ''-2.5p8'')" by code_simp
qed

section \<open>Properties\<close>






end
