(* ===== verification/Spec2Isabelle.thy ===== *)
theory Spec2Isabelle
  imports BigMsg GoStrconv Base64 PbStream PbInvariant SbeRoundtrip PxfString PxfFormatParsed PxfRewriterBytes GoPrintTable
    BigFloatRoundtrip
begin

text \<open>
  A verification development of protowire-cpp, a C++ library that reads and writes three encodings of structured
  messages: the protobuf wire format (\<open>pb\<close>), fixed-layout SBE (\<open>sbe\<close>), and PXF, a text format (\<open>pxf\<close>). Shared helpers are
  in \<open>detail\<close>.

  \<^bold>\<open>Parts of the program and their theories.\<close> A theory opens with what it models; definitions keep the names of the source.

  \<^item> \<open>Prelude\<close>: machine types, decimal text, the limits of \<open>limits.h\<close>, and the locale \<open>prefix_codec\<close>, the contract of a
    reader that undoes a writer at the front of a buffer. \<open>Wire\<close> and \<open>Utf8\<close> interpret it for varints, tags, fixed-width
    numbers, length-prefixed bytes and UTF-8 runes.
  \<^item> \<open>Wire\<close> (\<open>detail/wire.h\<close>): varints, zigzag, tags, skipping of unknown fields. The varint reader is equal to a reference
    reader, and skipping consumes exactly one value.
  \<^item> \<open>PbCodec\<close>, \<open>PbRoundtrip\<close>, \<open>PbInvariant\<close>, \<open>PbStream\<close> (\<open>pb.h\<close>, \<open>detail/validate.h\<close>, \<open>detail/stream.h\<close>, \<open>pb/stream.cc\<close>): the struct
    codec over a description of the members, and frames on a stream. Values are read back; a decode of any bytes keeps the
    types of the members; messages come back from a stream in order; a cut frame is refused and the error sticks.
  \<^item> \<open>BigMag\<close>, \<open>BigText\<close>, \<open>BigMsg\<close> (\<open>pb/big.cc\<close>): magnitudes as byte vectors, their decimal text, and the messages for big
    integers, decimals and big floats.
  \<^item> \<open>Duration\<close>, \<open>Rfc3339\<close>, \<open>Base64\<close>, \<open>Utf8\<close>, \<open>GoStrconv\<close>, \<open>FloatConv\<close> (\<open>detail\<close>): text forms and conversions, with their round
    trips. \<open>Utf8\<close> relates the validator to the grammar of UTF-8 and models Go's quoting over a table of printable runes;
    \<open>GoPrintTable\<close> is the table of the repository, in order and without the newline.
  \<^item> \<open>SbeTemplate\<close>, \<open>SbeCodec\<close>, \<open>SbeSafety\<close>, \<open>SbeRoundtrip\<close> (\<open>sbe\<close>): templates computed from message descriptors, marshalling,
    unmarshalling and views. Offsets of a template never overlap; no reader touches a byte outside its buffer; messages are read back.
    What every codec that \<open>New\<close> returns has in common is proved through the locale \<open>registry_invariant\<close>: an invariant of the registry
    that each registration keeps. It is interpreted for the layout of the templates a codec holds and for the ownership of a name.
  \<^item> \<open>BigNat\<close>, \<open>BigNatDiv\<close>, \<open>BigFloatLit\<close>, \<open>BigFloatExact\<close>, \<open>BigFloatRound\<close>, \<open>BigFloatParse\<close>, \<open>BigFloatDecimal\<close>, \<open>BigFloatRoundtrip\<close>
    (\<open>pxf/bigfloat.cc\<close>): natural numbers of 32-bit limbs with Knuth's division, shown exact, and the literals of big floats. Reading
    rounds the decimal to nearest, ties to even; writing ends and gives the nearest decimal of its digits; a literal written
    reads back as the number it was written for.
  \<^item> \<open>PxfLexer\<close>, \<open>PxfLexerPos\<close>, \<open>PxfString\<close> (\<open>pxf/lexer.cc\<close>): the lexer in its strict and tolerant modes. It ends on every input, its
    tokens carry the position of their bytes, and it reads back what Go's quoting writes.
  \<^item> \<open>PxfAst\<close>, \<open>PxfBrace\<close>, \<open>PxfParser\<close>, \<open>PxfParserWp\<close>, \<open>PxfParserTotal\<close> (\<open>pxf/ast.h\<close>, \<open>pxf/parser.cc\<close>): the tree, the brace matcher and every
    production of the parser. A strict parse returns an error or a well-formed tree, a tolerant parse always returns a tree.
  \<^item> \<open>PxfFormat\<close>, \<open>PxfReads\<close>, \<open>PxfShapes\<close>, \<open>PxfFormatRoundtrip\<close>, \<open>PxfFormatParsed\<close> (\<open>pxf/format.cc\<close>): the formatter. The lemmas on what the lexer
    reads of a given text, and on the shape of every token, carry the proof that a formatted document parses back to its content,
    and that this covers every document a parse returned.
  \<^item> \<open>PxfEnsures\<close>, \<open>PxfSpans\<close>, \<open>PxfRewriter\<close>, \<open>PxfRewriterSafety\<close>, \<open>PxfRewriterBytes\<close> (\<open>pxf/rewriter.cc\<close>): edits of a document that keep the rest of
    its text. The spans that the parser records are those of the text; over all sequences of calls the staged edits lie within the
    source; and the result is the source with each edit in its place, by a description of it byte by byte.

  \<^bold>\<open>How the state corresponds.\<close> A lexer is its input, position, line and column; a parser is a lexer, the current token and the
  comments before it; both are records, and an operation returns the new record. Failure is the left side of a sum with the
  message of the source. Bytes are lists of 8-bit words and text is a string of bytes. C++ integers are words of their width where
  they can wrap; offsets are natural numbers, since inputs are bounded by the 64 MiB limit that every entry point checks.

  \<^bold>\<open>Bounds.\<close> Loops over an input recurse on what is left of it. The parser's loops carry a bound of one more than the bytes left,
  and its recursion through lists and blocks a bound of twice the levels that the nesting limit leaves, plus two; \<open>PxfParserWp\<close> shows
  that neither is reached, so a missing result never stands for a run of the code. Readers of frames recurse at most ten times
  for a length. Template construction follows message types; for recursive types it does not end, which is stated as such.

  \<^bold>\<open>Parameters.\<close> The validator a program may register and message descriptors stand for code outside the repository. The table of
  printable runes is an argument too (\<open>ranges\<close>), so that the results hold for every release of Unicode; the one of the repository
  meets what they ask. Where a property needs something of a parameter it is a hypothesis, with a witness.

  \<^bold>\<open>Not modelled.\<close> The PXF decoder and encoder, the schema and keyed-field rules and the wire bridge of \<open>pxf\<close> work through protobuf
  reflection; the XML schemas of SBE rest on a third-party parser; the command-line tools are input and output. Datasets are parsed and
  formatted, but the row readers and writers bind them to messages and are left out. The round trip of the formatter is stated
  for documents without directives other than the type: two defects of the code, recorded beside it, show why bodies of directives are apart.

  \<^bold>\<open>Limits of the model.\<close> Allocation does not fail: a frame length within the decoder's maximum gives a buffer. A map member is
  kept in the order of its keys, also where the source has an \<open>unordered_map\<close>, and keys of floating type are not told
  apart; the round trip excludes them. The nodes of a tree given to the rewriter have positions that are natural numbers; the
  source does not check the positions of hand-built nodes before it reads the lines around them, and null pointers inside a tree,
  which only a caller can build, are not represented. The count of staged insertions does not wrap. The exponents of a big float are
  integers, since they come from 32-bit fields or from literals bounded by the limits before they are used.
\<close>

end
